(* ===== verification/Prelude.thy ===== *)
theory Prelude
  imports Main "HOL-Library.Word" "HOL-Library.Monad_Syntax"
begin

text \<open>
  Shared vocabulary of the development: the machine types of the Go source, the
  collections of simplification rules the components use, and the generic lemmas on
  lists, options and slices of byte lists.

  A Go function that may panic (an index out of range, a nil page, an explicit
  \<^verbatim>\<open>panic(...)\<close>) or may not return is modelled by a function into \<open>option\<close>; \<open>None\<close> is
  the call that does not return a value.  A Go function that returns an \<^verbatim>\<open>error\<close> returns a
  value of a sum type.
\<close>

type_synonym u8 = "8 word"
type_synonym u16 = "16 word"
type_synonym u32 = "32 word"
type_synonym u64 = "64 word"

text \<open>A Go \<^verbatim>\<open>[]byte\<close> or \<^verbatim>\<open>string\<close>: a sequence of bytes.\<close>

type_synonym bytes = "u8 list"

named_theorems page_consts \<open>the numeric constants of the page format\<close>
named_theorems layout \<open>where a read or a write of a page touches its bytes\<close>
named_theorems frame \<open>what an operation leaves unchanged\<close>

section \<open>Options and the panic monad\<close>

lemma bind_Some_iff:
  "Option.bind m f = Some y \<longleftrightarrow> (\<exists>x. m = Some x \<and> f x = Some y)"
  by (cases m) auto

lemma obind_weak_cong: "m = m' \<Longrightarrow> Option.bind m f = Option.bind m' f"
  by simp

text \<open>A Go bounds check: the rest runs only when the condition holds.\<close>

definition check :: "bool \<Rightarrow> unit option" where
  "check b = (if b then Some () else None)"

lemma check_simps [simp]:
  "check True = Some ()" "check False = None" "(check b = Some u) = b"
  by (auto simp: check_def)

fun mapM :: "('a \<Rightarrow> 'b option) \<Rightarrow> 'a list \<Rightarrow> 'b list option" where
  "mapM f [] = Some []"
| "mapM f (x # xs) = do { y \<leftarrow> f x; ys \<leftarrow> mapM f xs; Some (y # ys) }"

lemma mapM_Some_iff:
  "mapM f xs = Some ys \<longleftrightarrow>
     length ys = length xs \<and> (\<forall>i<length xs. f (xs ! i) = Some (ys ! i))"
proof (induction xs arbitrary: ys)
  case Nil
  then show ?case by auto
next
  case (Cons x xs)
  show ?case
  proof (cases ys)
    case Nil
    then show ?thesis by (auto simp: bind_Some_iff)
  next
    case (Cons z zs)
    have "mapM f (x # xs) = Some ys \<longleftrightarrow> f x = Some z \<and> mapM f xs = Some zs"
      using Cons by (auto simp: bind_Some_iff)
    also have "\<dots> \<longleftrightarrow> length ys = length (x # xs) \<and>
        (\<forall>i<length (x # xs). f ((x # xs) ! i) = Some (ys ! i))"
      using Cons.IH [of zs] \<open>ys = z # zs\<close> by (auto simp: less_Suc_eq_0_disj)
    finally show ?thesis .
  qed
qed

lemma mapM_cong:
  "(\<And>x. x \<in> set xs \<Longrightarrow> f x = g x) \<Longrightarrow> mapM f xs = mapM g xs"
  by (induction xs) auto

lemma mapM_map_Some: "(\<And>x. x \<in> set xs \<Longrightarrow> f x = Some (g x)) \<Longrightarrow> mapM f xs = Some (map g xs)"
  by (induction xs) auto

section \<open>Loops over a list\<close>

text \<open>
  A Go \<^verbatim>\<open>for\<close> loop over the elements of a list with a state: the body continues (\<open>None\<close>) or
  returns a result (\<open>Some r\<close>).  The monotonicity lemmas let a partial function recur inside.
\<close>

fun loopM :: "('s \<Rightarrow> 'a \<Rightarrow> ('s \<times> 'r option) option) \<Rightarrow> 's \<Rightarrow> 'a list \<Rightarrow> ('s \<times> 'r option) option" where
  "loopM f s [] = Some (s, None)"
| "loopM f s (x # xs) = do {
     (s', r) \<leftarrow> f s x;
     (case r of None \<Rightarrow> loopM f s' xs | Some b \<Rightarrow> Some (s', Some b))
   }"

lemma loopM_mono [partial_function_mono]:
  assumes "\<And>s x. mono_option (\<lambda>F. f F s x)"
  shows "mono_option (\<lambda>F. loopM (f F) s xs)"
proof (induction xs arbitrary: s)
  case Nil
  show ?case by (simp add: option.const_mono)
next
  case (Cons x xs)
  have "mono_option (\<lambda>F. (case y of (s', r) \<Rightarrow>
      (case r of None \<Rightarrow> loopM (f F) s' xs | Some b \<Rightarrow> Some (s', Some b))))" for y
    using Cons by (cases y; cases "snd y") (simp_all add: option.const_mono)
  then show ?case
    using bind_mono [OF assms [of s x], of "\<lambda>y F. (case y of (s', r) \<Rightarrow>
      (case r of None \<Rightarrow> loopM (f F) s' xs | Some b \<Rightarrow> Some (s', Some b)))"] by simp
qed

lemma mapM_mono [partial_function_mono]:
  assumes "\<And>x. mono_option (\<lambda>F. f F x)"
  shows "mono_option (\<lambda>F. mapM (f F) xs)"
proof (induction xs)
  case Nil
  show ?case by (simp add: option.const_mono)
next
  case (Cons x xs)
  have "mono_option (\<lambda>F. Option.bind (mapM (f F) xs) (\<lambda>ys. Some (y # ys)))" for y
    by (rule bind_mono [OF Cons]) (simp add: option.const_mono)
  then show ?case
    using bind_mono [OF assms [of x], of "\<lambda>y F. Option.bind (mapM (f F) xs) (\<lambda>ys. Some (y # ys))"]
    by simp
qed

section \<open>Slices of lists\<close>

text \<open>
  \<open>slice d off n\<close> is Go's \<^verbatim>\<open>d[off:off+n]\<close> where that is in range; \<open>splice d off bs\<close> is
  \<open>d\<close> after \<^verbatim>\<open>copy(d[off:], bs)\<close> where \<open>bs\<close> fits.
\<close>

definition slice :: "'a list \<Rightarrow> nat \<Rightarrow> nat \<Rightarrow> 'a list" where
  "slice d off n = take n (drop off d)"

definition splice :: "'a list \<Rightarrow> nat \<Rightarrow> 'a list \<Rightarrow> 'a list" where
  "splice d off bs = take off d @ bs @ drop (off + length bs) d"

lemma length_slice: "off + n \<le> length d \<Longrightarrow> length (slice d off n) = n"
  by (simp add: slice_def)

lemma length_splice [simp]:
  "off + length bs \<le> length d \<Longrightarrow> length (splice d off bs) = length d"
  by (simp add: splice_def)

lemma slice_splice_same:
  "off + length bs \<le> length d \<Longrightarrow> n = length bs \<Longrightarrow> slice (splice d off bs) off n = bs"
  by (simp add: slice_def splice_def)

lemma slice_splice_before:
  "o' + n \<le> off \<Longrightarrow> off + length bs \<le> length d \<Longrightarrow>
     slice (splice d off bs) o' n = slice d o' n"
  by (simp add: slice_def splice_def drop_take min_absorb1 min_absorb2)

lemma slice_splice_after:
  "off + length bs \<le> o' \<Longrightarrow> off + length bs \<le> length d \<Longrightarrow>
     slice (splice d off bs) o' n = slice d o' n"
  by (simp add: slice_def splice_def)

lemma slice_splice_disjoint:
  "o' + n \<le> off \<or> off + length bs \<le> o' \<Longrightarrow> off + length bs \<le> length d \<Longrightarrow>
     slice (splice d off bs) o' n = slice d o' n"
  using slice_splice_before slice_splice_after by metis

lemma slice_slice: "a + m \<le> n \<Longrightarrow> slice (slice d off n) a m = slice d (off + a) m"
  by (simp add: slice_def drop_take min_absorb1 add.commute)

lemma slice_append_left: "off + n \<le> length a \<Longrightarrow> slice (a @ b) off n = slice a off n"
  by (simp add: slice_def)

lemma slice_splice_within:
  "off \<le> o' \<Longrightarrow> o' + n \<le> off + length bs \<Longrightarrow> off + length bs \<le> length d \<Longrightarrow>
     slice (splice d off bs) o' n = slice bs (o' - off) n"
  by (simp add: slice_def splice_def)

text \<open>Two adjacent writes, as of a key and its value.\<close>

lemma splice_pair:
  assumes "off + length k + length v \<le> length d"
  shows "length (splice (splice d off k) (off + length k) v) = length d"
    and "slice (splice (splice d off k) (off + length k) v) off (length k) = k"
    and "slice (splice (splice d off k) (off + length k) v) (off + length k) (length v) = v"
    and "o' + n \<le> off \<or> off + length k + length v \<le> o' \<Longrightarrow>
           slice (splice (splice d off k) (off + length k) v) o' n = slice d o' n"
  using assms by (auto simp: slice_splice_same slice_splice_disjoint)

section \<open>Updating lists by index\<close>

text \<open>Go's \<^verbatim>\<open>insertAt\<close> and \<^verbatim>\<open>append(xs[:i], xs[i+1:]...)\<close> on values.\<close>

definition insertAt :: "'a list \<Rightarrow> nat \<Rightarrow> 'a \<Rightarrow> 'a list" where
  "insertAt xs i x = take i xs @ x # drop i xs"

definition removeAt :: "'a list \<Rightarrow> nat \<Rightarrow> 'a list" where
  "removeAt xs i = take i xs @ drop (Suc i) xs"

lemma length_insertAt [simp]: "i \<le> length xs \<Longrightarrow> length (insertAt xs i x) = Suc (length xs)"
  by (simp add: insertAt_def)

lemma set_insertAt [simp]: "i \<le> length xs \<Longrightarrow> set (insertAt xs i x) = insert x (set xs)"
proof -
  have "set xs = set (take i xs) \<union> set (drop i xs)"
    by (metis append_take_drop_id set_append)
  then show ?thesis by (auto simp: insertAt_def)
qed

lemma length_removeAt [simp]: "i < length xs \<Longrightarrow> length (removeAt xs i) = length xs - 1"
  by (simp add: removeAt_def)

lemma split_at: "i < length xs \<Longrightarrow> xs = take i xs @ xs ! i # drop (Suc i) xs"
  by (rule id_take_nth_drop)

lemma sum_list_insertAt:
  "i \<le> length xs \<Longrightarrow> sum_list (map f (insertAt xs i x)) = f x + sum_list (map (f :: _ \<Rightarrow> nat) xs)"
proof -
  have "sum_list (map f xs) = sum_list (map f (take i xs)) + sum_list (map f (drop i xs))"
    by (metis append_take_drop_id map_append sum_list_append)
  then show ?thesis by (simp add: insertAt_def)
qed

end
