(* ===== verification/Bytes.thy ===== *)
theory Bytes
  imports Prelude
begin

text \<open>
  What the Go source uses of the standard library on bytes: \<^verbatim>\<open>encoding/binary\<close>'s
  little-endian words and \<^verbatim>\<open>hash/crc32\<close>'s IEEE checksum.
\<close>

unbundle bit_operations_syntax

section \<open>Little-endian words\<close>

definition word_to_le :: "nat \<Rightarrow> 'a::len word \<Rightarrow> bytes" where
  "word_to_le n w = map (\<lambda>i. ucast (drop_bit (8 * i) w)) [0..<n]"

fun le_to_word :: "bytes \<Rightarrow> 'a::len word" where
  "le_to_word [] = 0"
| "le_to_word (b # bs) = ucast b OR push_bit 8 (le_to_word bs)"

lemma length_word_to_le [simp]: "length (word_to_le n w) = n"
  by (simp add: word_to_le_def)

lemma bit_le_to_word:
  "bit (le_to_word bs :: 'a::len word) i \<longleftrightarrow>
     i < LENGTH('a) \<and> i div 8 < length bs \<and> bit (bs ! (i div 8)) (i mod 8)"
proof (induction bs arbitrary: i)
  case Nil
  then show ?case by simp
next
  case (Cons b bs)
  show ?case
  proof (cases "i < 8")
    case True
    then show ?thesis by (auto simp: bit_simps)
  next
    case False
    then obtain j where j: "i = j + 8" by (metis le_add_diff_inverse2 not_less)
    then have "i div 8 = Suc (j div 8)" "i mod 8 = j mod 8" by simp_all
    moreover have "\<not> bit b i" using False bit_imp_le_length [of b i] by auto
    ultimately show ?thesis
      using Cons.IH [of j] j False by (auto simp: bit_simps)
  qed
qed

lemma bit_word_to_le:
  "k < n \<Longrightarrow> bit (word_to_le n w ! k) j \<longleftrightarrow> j < 8 \<and> bit w (8 * k + j)"
  by (auto simp: word_to_le_def bit_simps add.commute dest: bit_imp_le_length)

text \<open>Reading back what was written, when the word has exactly \<open>n\<close> bytes.\<close>

lemma le_to_word_to_le:
  "LENGTH('a) = 8 * n \<Longrightarrow> le_to_word (word_to_le n w) = (w :: 'a::len word)"
proof (rule bit_word_eqI)
  fix i assume n: "LENGTH('a) = 8 * n" and i: "i < LENGTH('a)"
  then have "i div 8 < n" by (simp add: less_mult_imp_div_less mult.commute)
  moreover have "8 * (i div 8) + i mod 8 = i" by simp
  ultimately show "bit (le_to_word (word_to_le n w) :: 'a word) i \<longleftrightarrow> bit w i"
    using i by (simp add: bit_le_to_word bit_word_to_le)
qed

lemma le16_roundtrip [simp]: "le_to_word (word_to_le 2 w) = (w :: u16)"
  by (rule le_to_word_to_le) simp

lemma le32_roundtrip [simp]: "le_to_word (word_to_le 4 w) = (w :: u32)"
  by (rule le_to_word_to_le) simp

lemma le64_roundtrip [simp]: "le_to_word (word_to_le 8 w) = (w :: u64)"
  by (rule le_to_word_to_le) simp

lemma word_to_le_to_word:
  "LENGTH('a) = 8 * length bs \<Longrightarrow> word_to_le (length bs) (le_to_word bs :: 'a::len word) = bs"
proof (rule nth_equalityI)
  fix k assume n: "LENGTH('a) = 8 * length bs"
    and "k < length (word_to_le (length bs) (le_to_word bs :: 'a word))"
  then have k: "k < length bs" by simp
  show "word_to_le (length bs) (le_to_word bs :: 'a word) ! k = bs ! k"
  proof (rule bit_word_eqI)
    fix j assume "j < LENGTH(8)"
    then show "bit (word_to_le (length bs) (le_to_word bs :: 'a word) ! k) j = bit (bs ! k) j"
      using k n by (simp add: bit_word_to_le bit_le_to_word)
  qed
qed simp

section \<open>Strings of the source as bytes\<close>

definition str :: "string \<Rightarrow> bytes" where
  "str s = map of_char s"

section \<open>CRC-32 (IEEE), bit by bit over the reflected polynomial\<close>

definition crc32_step :: "u32 \<Rightarrow> u32" where
  "crc32_step c = (if bit c 0 then drop_bit 1 c XOR 0xEDB88320 else drop_bit 1 c)"

definition crc32_byte :: "u32 \<Rightarrow> u8 \<Rightarrow> u32" where
  "crc32_byte c b = (crc32_step ^^ 8) (c XOR ucast b)"

text \<open>\<^verbatim>\<open>crc32.NewIEEE()\<close>, a sequence of \<^verbatim>\<open>Write\<close>s, \<^verbatim>\<open>Sum32()\<close>: the writes concatenate.\<close>

definition crc32_ieee :: "bytes \<Rightarrow> u32" where
  "crc32_ieee bs = NOT (foldl crc32_byte (NOT 0) bs)"

text \<open>The check value of the CRC-32 catalogue.\<close>

lemma funpow8: "(f ^^ 8) x = f (f (f (f (f (f (f (f x)))))))"
  by (simp add: eval_nat_numeral)

lemma crc32_check_value: "crc32_ieee (str ''123456789'') = 0xCBF43926"
  by (simp add: crc32_ieee_def str_def crc32_byte_def funpow8 crc32_step_def)

end
