(* ===== verification/KeyOrder.thy ===== *)
theory KeyOrder
  imports Bytes "HOL-Library.List_Lexorder"
begin

text \<open>
  Key orders and comparators (\<^verbatim>\<open>pagebtree/key_order.go\<close>), and the binary search of the
  standard library that the tree code runs with a comparator.

  The contract every routine of the tree relies on, a strict total order, is the locale
  \<open>key_comparator\<close>; the two orders the code ships are interpretations of it.
\<close>

type_synonym key = bytes
type_synonym comparator = "key \<Rightarrow> key \<Rightarrow> int"

section \<open>The comparators of the code\<close>

text \<open>Go compares strings bytewise, lexicographically, on unsigned bytes.\<close>

definition compareStrings :: comparator where
  "compareStrings left right = (if left < right then -1 else if left > right then 1 else 0)"

definition reverseKeyComparator :: comparator where
  "reverseKeyComparator left right = - compareStrings left right"

definition normalizeKeyComparator :: "comparator option \<Rightarrow> comparator" where
  "normalizeKeyComparator c = (case c of None \<Rightarrow> compareStrings | Some f \<Rightarrow> f)"

type_synonym KeyOrder = u32
type_synonym KeyComparatorKind = u32

definition KeyOrderBytewise :: KeyOrder where "KeyOrderBytewise = 1"
definition KeyOrderReverse :: KeyOrder where "KeyOrderReverse = 2"

definition KeyComparatorBytewise :: KeyComparatorKind where "KeyComparatorBytewise = 1"
definition KeyComparatorCustom :: KeyComparatorKind where "KeyComparatorCustom = 2"
definition KeyComparatorReverse :: KeyComparatorKind where "KeyComparatorReverse = 3"

definition normalizeKeyOrder :: "KeyOrder \<Rightarrow> KeyOrder" where
  "normalizeKeyOrder order = (if order = 0 then KeyOrderBytewise else order)"

definition keyComparatorForOrder :: "KeyOrder \<Rightarrow> comparator" where
  "keyComparatorForOrder order =
     (if normalizeKeyOrder order = KeyOrderReverse then reverseKeyComparator
      else compareStrings)"

definition keyComparatorKindForOrder :: "KeyOrder \<Rightarrow> KeyComparatorKind" where
  "keyComparatorKindForOrder order =
     (if normalizeKeyOrder order = KeyOrderReverse then KeyComparatorReverse
      else KeyComparatorBytewise)"

section \<open>The contract of a comparator\<close>

locale key_comparator =
  fixes cmp :: comparator
  assumes cmp_eq: "cmp a b = 0 \<longleftrightarrow> a = b"
    and cmp_swap: "cmp a b < 0 \<longleftrightarrow> 0 < cmp b a"
    and cmp_trans: "cmp a b < 0 \<Longrightarrow> cmp b c < 0 \<Longrightarrow> cmp a c < 0"
begin

lemma cmp_self [simp]: "cmp a a = 0"
  by (simp add: cmp_eq)

lemma cmp_total: "cmp a b < 0 \<or> a = b \<or> cmp b a < 0"
  using cmp_eq [of a b] cmp_swap [of b a] by linarith

lemma cmp_not_both: "cmp a b < 0 \<Longrightarrow> \<not> cmp b a < 0"
  using cmp_swap [of a b] by linarith

lemma cmp_ge_iff: "0 \<le> cmp a b \<longleftrightarrow> a = b \<or> cmp b a < 0"
  using cmp_eq [of a b] cmp_swap [of b a] by linarith

lemma cmp_le_trans: "cmp a b \<le> 0 \<Longrightarrow> cmp b c \<le> 0 \<Longrightarrow> cmp a c \<le> 0"
  using cmp_trans [of a b c] cmp_eq [of a b] cmp_eq [of b c]
  by (metis cmp_eq less_le order_less_imp_le)

lemma cmp_less_le_trans: "cmp a b < 0 \<Longrightarrow> cmp b c \<le> 0 \<Longrightarrow> cmp a c < 0"
  using cmp_trans [of a b c] cmp_eq [of b c] by (metis less_le)

lemma cmp_le_less_trans: "cmp a b \<le> 0 \<Longrightarrow> cmp b c < 0 \<Longrightarrow> cmp a c < 0"
  using cmp_trans [of a b c] cmp_eq [of a b] by (metis less_le)

lemma cmp_le_swap: "cmp a b \<le> 0 \<longleftrightarrow> 0 \<le> cmp b a"
  using cmp_swap [of b a] by linarith

text \<open>Strictly increasing sequences of keys.\<close>

abbreviation increasing :: "key list \<Rightarrow> bool" where
  "increasing \<equiv> sorted_wrt (\<lambda>a b. cmp a b < 0)"

lemma increasing_distinct: "increasing ks \<Longrightarrow> distinct ks"
  by (induction ks) (auto simp: cmp_eq)

lemma increasing_nth_mono:
  "increasing ks \<Longrightarrow> i < j \<Longrightarrow> j < length ks \<Longrightarrow> cmp (ks ! i) (ks ! j) < 0"
  by (simp add: sorted_wrt_iff_nth_less)

end

sublocale key_comparator \<subseteq> ord: linorder "\<lambda>a b. cmp a b \<le> 0" "\<lambda>a b. cmp a b < 0"
proof unfold_locales
  fix x y z
  show "cmp x y < 0 \<longleftrightarrow> cmp x y \<le> 0 \<and> \<not> cmp y x \<le> 0"
    using cmp_swap [of x y] by linarith
  show "cmp x x \<le> 0" by simp
  show "cmp x y \<le> 0 \<Longrightarrow> cmp y z \<le> 0 \<Longrightarrow> cmp x z \<le> 0" by (rule cmp_le_trans)
  show "cmp x y \<le> 0 \<Longrightarrow> cmp y x \<le> 0 \<Longrightarrow> x = y"
    using cmp_total [of x y] cmp_swap [of x y] cmp_swap [of y x] by auto
  show "cmp x y \<le> 0 \<or> cmp y x \<le> 0" using cmp_swap [of y x] by linarith
qed

interpretation bytewise: key_comparator compareStrings
  by unfold_locales (auto simp: compareStrings_def split: if_splits)

interpretation reversed: key_comparator reverseKeyComparator
  by unfold_locales (auto simp: reverseKeyComparator_def compareStrings_def split: if_splits)

lemma key_comparator_for_order: "key_comparator (keyComparatorForOrder order)"
  by (simp add: keyComparatorForOrder_def bytewise.key_comparator_axioms
      reversed.key_comparator_axioms)

section \<open>Binary search\<close>

text \<open>
  \<^verbatim>\<open>slices.BinarySearchFunc(xs, target, cmp)\<close> with \<open>f x = cmp x target\<close>: the loop keeps
  \<open>f < 0\<close> below \<open>i\<close> and \<open>f \<ge> 0\<close> from \<open>j\<close> on.
\<close>

function binarySearchLoop :: "('a \<Rightarrow> int) \<Rightarrow> 'a list \<Rightarrow> nat \<Rightarrow> nat \<Rightarrow> nat" where
  "binarySearchLoop f xs i j =
     (if i < j then
        (let h = (i + j) div 2 in
         if f (xs ! h) < 0 then binarySearchLoop f xs (h + 1) j
         else binarySearchLoop f xs i h)
      else i)"
  by pat_completeness auto
termination
  by (relation "measure (\<lambda>(f, xs, i, j). j - i)") auto

declare binarySearchLoop.simps [simp del]

definition binarySearchFunc :: "('a \<Rightarrow> int) \<Rightarrow> 'a list \<Rightarrow> nat \<times> bool" where
  "binarySearchFunc f xs =
     (let i = binarySearchLoop f xs 0 (length xs)
      in (i, i < length xs \<and> f (xs ! i) = 0))"

text \<open>The number of elements below the target, where they come first.\<close>

definition rank :: "('a \<Rightarrow> int) \<Rightarrow> 'a list \<Rightarrow> nat" where
  "rank f xs = length (takeWhile (\<lambda>x. f x < 0) xs)"

definition partitioned :: "('a \<Rightarrow> int) \<Rightarrow> 'a list \<Rightarrow> bool" where
  "partitioned f xs \<longleftrightarrow> (\<forall>j<length xs. f (xs ! j) < 0 \<longrightarrow> (\<forall>i<j. f (xs ! i) < 0))"

lemma rank_le [simp]: "rank f xs \<le> length xs"
  by (simp add: rank_def length_takeWhile_le)

lemma rank_below: "i < rank f xs \<Longrightarrow> f (xs ! i) < 0"
  unfolding rank_def
  by (metis nth_mem set_takeWhileD takeWhile_nth)

lemma rank_at: "rank f xs < length xs \<Longrightarrow> \<not> f (xs ! rank f xs) < 0"
  unfolding rank_def by (rule nth_length_takeWhile)

lemma rank_above: "partitioned f xs \<Longrightarrow> rank f xs \<le> i \<Longrightarrow> i < length xs \<Longrightarrow> 0 \<le> f (xs ! i)"
  using rank_at [of f xs] by (metis le_eq_less_or_eq not_less partitioned_def order_le_less_trans)

lemma rank_unique:
  assumes "r \<le> length xs" "\<And>i. i < r \<Longrightarrow> f (xs ! i) < 0" "r < length xs \<Longrightarrow> 0 \<le> f (xs ! r)"
  shows "rank f xs = r"
proof (rule linorder_cases [of "rank f xs" r])
  assume "rank f xs < r"
  then show ?thesis using assms rank_at [of f xs] by auto
next
  assume "r < rank f xs"
  then show ?thesis using assms rank_below [of r f xs] rank_le [of f xs] by auto
qed

lemma binarySearchLoop_rank:
  "partitioned f xs \<Longrightarrow> i \<le> rank f xs \<Longrightarrow> rank f xs \<le> j \<Longrightarrow> j \<le> length xs \<Longrightarrow>
     binarySearchLoop f xs i j = rank f xs"
proof (induction f xs i j rule: binarySearchLoop.induct)
  case (1 f xs i j)
  show ?case
  proof (cases "i < j")
    case True
    let ?h = "(i + j) div 2"
    have h: "i \<le> ?h" "?h < j" using True by auto
    show ?thesis
    proof (cases "f (xs ! ?h) < 0")
      case below: True
      have "?h < rank f xs"
        using rank_above [of f xs ?h] below h "1.prems" by (meson leD leI less_le_trans)
      then show ?thesis
        using "1.IH"(1) [OF True refl below] "1.prems"
        by (subst binarySearchLoop.simps) (simp add: True below Let_def)
    next
      case above: False
      have "rank f xs \<le> ?h" using rank_below [of ?h f xs] above by (meson leI)
      then show ?thesis
        using "1.IH"(2) [OF True refl above] "1.prems" h
        by (subst binarySearchLoop.simps) (simp add: True above Let_def)
    qed
  next
    case False
    then show ?thesis using "1.prems" by (subst binarySearchLoop.simps) simp
  qed
qed

lemma binarySearchFunc_rank:
  "partitioned f xs \<Longrightarrow>
     binarySearchFunc f xs = (rank f xs, rank f xs < length xs \<and> f (xs ! rank f xs) = 0)"
  by (simp add: binarySearchFunc_def binarySearchLoop_rank Let_def)

text \<open>The child a branch routes a key to: one past an equal separator.\<close>

definition childIndex :: "key list \<Rightarrow> key \<Rightarrow> comparator \<Rightarrow> nat" where
  "childIndex keys k cmp =
     (case binarySearchFunc (\<lambda>s. cmp s k) keys of
        (index, found) \<Rightarrow> if found then index + 1 else index)"

context key_comparator
begin

lemma partitioned_keys: "increasing (map g xs) \<Longrightarrow> partitioned (\<lambda>x. cmp (g x) k) xs"
  unfolding partitioned_def
proof (intro allI impI)
  fix j i assume inc: "increasing (map g xs)" and j: "j < length xs" "cmp (g (xs ! j)) k < 0"
    and i: "i < j"
  have "cmp (g (xs ! i)) (g (xs ! j)) < 0"
    using increasing_nth_mono [OF inc, of i j] i j by simp
  then show "cmp (g (xs ! i)) k < 0" using j(2) cmp_trans by blast
qed

text \<open>The route of a key: separators to its left are at most the key, those to its right above it.\<close>

lemma childIndex_cases:
  assumes "increasing keys"
  shows "childIndex keys k cmp \<le> length keys"
    and "i < childIndex keys k cmp \<Longrightarrow> cmp (keys ! i) k \<le> 0"
    and "childIndex keys k cmp \<le> i \<Longrightarrow> i < length keys \<Longrightarrow> cmp k (keys ! i) < 0"
proof -
  let ?f = "\<lambda>s. cmp s k" and ?r = "rank (\<lambda>s. cmp s k) keys"
  have part: "partitioned ?f keys" using partitioned_keys [of "\<lambda>x. x"] assms by simp
  have ci: "childIndex keys k cmp = (if ?r < length keys \<and> ?f (keys ! ?r) = 0 then ?r + 1 else ?r)"
    by (simp add: childIndex_def binarySearchFunc_rank [OF part])
  show "childIndex keys k cmp \<le> length keys" using ci by simp
  show "cmp (keys ! i) k \<le> 0" if "i < childIndex keys k cmp"
    using that rank_below [of i ?f keys] by (auto simp: ci less_Suc_eq split: if_splits)
  show "cmp k (keys ! i) < 0" if i: "childIndex keys k cmp \<le> i" "i < length keys"
  proof -
    have "0 \<le> ?f (keys ! i)" using rank_above [OF part, of i] i by (auto simp: ci split: if_splits)
    moreover have "?f (keys ! i) \<noteq> 0"
    proof
      assume z: "?f (keys ! i) = 0"
      show False
      proof (cases "?r < length keys \<and> ?f (keys ! ?r) = 0")
        case True
        then have "keys ! i = keys ! ?r" using z by (simp add: cmp_eq)
        moreover have "?r < i" using True i ci by simp
        ultimately show False using increasing_nth_mono [OF assms, of ?r i] i by simp
      next
        case False
        then have "?r < i" "?r < length keys"
          using z i ci by (auto simp: order_le_less)
        then have "0 < ?f (keys ! ?r)" using False rank_at [of ?f keys] by fastforce
        moreover have "cmp (keys ! ?r) (keys ! i) < 0"
          using increasing_nth_mono [OF assms] \<open>?r < i\<close> i by simp
        ultimately show False using z by (simp add: cmp_eq)
      qed
    qed
    ultimately show ?thesis using cmp_swap [of k "keys ! i"] by linarith
  qed
qed

lemma childIndex_count:
  assumes "increasing keys"
  shows "childIndex keys k cmp = length (filter (\<lambda>s. cmp s k \<le> 0) keys)"
proof -
  let ?x = "childIndex keys k cmp"
  note C = childIndex_cases [OF assms]
  have take: "filter (\<lambda>s. cmp s k \<le> 0) (take ?x keys) = take ?x keys"
    using C(1) C(2) by (intro filter_True) (auto simp: in_set_conv_nth)
  have above: "\<not> cmp (keys ! i) k \<le> 0" if "?x \<le> i" "i < length keys" for i
    using C(3) [OF that] cmp_swap [of k "keys ! i"] by linarith
  have "filter (\<lambda>s. cmp s k \<le> 0) (drop ?x keys) = []"
    using above by (auto simp: in_set_conv_nth intro!: filter_False)
  with take have "filter (\<lambda>s. cmp s k \<le> 0) (take ?x keys @ drop ?x keys) = take ?x keys"
    unfolding filter_append by simp
  then show ?thesis using C(1) by (simp only: append_take_drop_id) simp
qed

end

end
