(* ===== verification/PageCells.thy ===== *)
theory PageCells
  imports Page
begin

text \<open>
  The layout laws of the slotted page: header fields, slots and cells occupy disjoint
  bytes, so each accessor reads what the last write of its own field stored.  \<open>holds p f es\<close>
  says that page \<open>p\<close> has flags \<open>f\<close> and carries exactly the cells \<open>es\<close>; \<open>reset\<close> establishes it
  and \<open>appendCellWithFlags\<close> extends it by one cell or refuses.
\<close>

section \<open>Header fields are independent\<close>

lemmas offsets = page_consts

lemma wf_setters [simp]:
  "wf_page p \<Longrightarrow> wf_page (setFlags p f)"
  "wf_page p \<Longrightarrow> wf_page (setSlotCount p n)"
  "wf_page p \<Longrightarrow> wf_page (setFreeUpper p u)"
  "wf_page p \<Longrightarrow> wf_page (setLeftmostChild p i)"
  "wf_page p \<Longrightarrow> wf_page (updateChecksum p)"
  by (simp_all add: wf_page_def header_defs offsets)

lemma pid_setters [simp]:
  "pid (setFlags p f) = pid p" "pid (setSlotCount p n) = pid p" "pid (setFreeUpper p u) = pid p"
  "pid (setLeftmostChild p i) = pid p" "pid (updateChecksum p) = pid p"
  "pid (setNextLeaf p i) = pid p" "pid (reset p f) = pid p" "pid (newPage i f) = i"
  by (simp_all add: header_defs setNextLeaf_def reset_def newPage_def)

lemma flags_simps [simp]:
  assumes "wf_page p"
  shows "flags (setFlags p f) = f" "flags (setSlotCount p n) = flags p"
    "flags (setFreeUpper p u) = flags p" "flags (setLeftmostChild p i) = flags p"
    "flags (updateChecksum p) = flags p"
  using assms by (simp_all add: wf_page_def header_defs offsets slice_splice_same slice_splice_disjoint)

lemma slotCount_simps [simp]:
  assumes "wf_page p"
  shows "slotCount (setFlags p f) = slotCount p" "slotCount (setSlotCount p n) = n"
    "slotCount (setFreeUpper p u) = slotCount p" "slotCount (setLeftmostChild p i) = slotCount p"
    "slotCount (updateChecksum p) = slotCount p"
  using assms by (simp_all add: wf_page_def header_defs offsets slice_splice_same slice_splice_disjoint)

lemma freeUpper_simps [simp]:
  assumes "wf_page p"
  shows "freeUpper (setFlags p f) = freeUpper p" "freeUpper (setSlotCount p n) = freeUpper p"
    "freeUpper (setFreeUpper p u) = of_nat u" "freeUpper (setLeftmostChild p i) = freeUpper p"
    "freeUpper (updateChecksum p) = freeUpper p"
  using assms by (simp_all add: wf_page_def header_defs offsets slice_splice_same slice_splice_disjoint)

lemma leftmostChild_simps [simp]:
  assumes "wf_page p"
  shows "leftmostChild (setFlags p f) = leftmostChild p"
    "leftmostChild (setSlotCount p n) = leftmostChild p"
    "leftmostChild (setFreeUpper p u) = leftmostChild p"
    "leftmostChild (setLeftmostChild p i) = i"
    "leftmostChild (updateChecksum p) = leftmostChild p"
  using assms by (simp_all add: wf_page_def header_defs offsets slice_splice_same slice_splice_disjoint)

text \<open>A page whose checksum was just updated validates.\<close>

lemma validChecksum_updateChecksum [simp]:
  assumes "wf_page p" shows "validChecksum (updateChecksum p)"
proof -
  let ?d = "data p" and ?c = "word_to_le 4 (computeChecksum p)"
  have len: "length ?d = 4096" using assms by (simp add: wf_page_def offsets)
  have "take 16 (splice ?d 16 ?c) = take 16 ?d"
    using slice_splice_before [of 0 16 16 ?c ?d] len by (simp add: slice_def)
  moreover have "slice (splice ?d 16 ?c) 20 4076 = slice ?d 20 4076"
    by (rule slice_splice_after) (use len in simp_all)
  moreover have "slice (splice ?d 16 ?c) 16 4 = ?c"
    by (rule slice_splice_same) (use len in simp_all)
  ultimately have "checksum (updateChecksum p) = computeChecksum p"
    "computeChecksum (updateChecksum p) = computeChecksum p"
    by (simp_all add: computeChecksum_def checksum_def updateChecksum_def getU32_def putU32_def offsets)
  then show ?thesis by (simp add: validChecksum_def)
qed

section \<open>Slots\<close>

lemma readSlot_header [simp]:
  assumes "wf_page p"
  shows "readSlot (setFlags p f) i = readSlot p i" "readSlot (setSlotCount p n) i = readSlot p i"
    "readSlot (setFreeUpper p u) i = readSlot p i"
    "readSlot (setLeftmostChild p j) i = readSlot p i"
    "readSlot (updateChecksum p) i = readSlot p i"
  using assms by (simp_all add: wf_page_def readSlot_def slotBase_def header_defs offsets
      slice_splice_disjoint Let_def)

lemma wf_writeSlot [simp]:
  "wf_page p \<Longrightarrow> slotBase i + 8 \<le> PageSize \<Longrightarrow> wf_page (writeSlot p i s)"
  by (simp add: wf_page_def writeSlot_def putU16_def Let_def)

lemma header_writeSlot [simp]:
  assumes "wf_page p" "slotBase i + 8 \<le> PageSize"
  shows "flags (writeSlot p i s) = flags p" "slotCount (writeSlot p i s) = slotCount p"
    "freeUpper (writeSlot p i s) = freeUpper p" "leftmostChild (writeSlot p i s) = leftmostChild p"
    "pid (writeSlot p i s) = pid p"
  using assms by (simp_all add: wf_page_def writeSlot_def slotBase_def header_defs offsets
      slice_splice_disjoint Let_def)

lemma readSlot_writeSlot:
  assumes "wf_page p" "slotBase i + 8 \<le> PageSize"
  shows "readSlot (writeSlot p i s) i = Some s"
proof -
  have l: "length (data p) = 4096" "slotBase i + 8 \<le> 4096"
    using assms by (simp_all add: wf_page_def offsets)
  then show ?thesis
    by (simp add: readSlot_def writeSlot_def putU16_def getU16_def Let_def
        slice_splice_same slice_splice_disjoint)
qed

lemma readSlot_writeSlot_other:
  assumes "wf_page p" "slotBase i + 8 \<le> PageSize" "i \<noteq> j"
  shows "readSlot (writeSlot p i s) j = readSlot p j"
proof -
  have l: "length (data p) = 4096" "slotBase i + 8 \<le> 4096"
    using assms by (simp_all add: wf_page_def offsets)
  have "slotBase j + 8 \<le> slotBase i \<or> slotBase i + 8 \<le> slotBase j"
    using assms(3) by (auto simp: slotBase_def offsets)
  with l show ?thesis
    by (auto simp: readSlot_def writeSlot_def putU16_def getU16_def Let_def slice_splice_disjoint)
qed

section \<open>Cells\<close>

type_synonym cell = "bytes \<times> bytes \<times> u16"

fun cellBytes :: "cell \<Rightarrow> nat" where
  "cellBytes (k, v, f) = length k + length v"

definition used :: "cell list \<Rightarrow> nat" where
  "used es = sum_list (map cellBytes es)"

definition fits :: "cell list \<Rightarrow> bool" where
  "fits es \<longleftrightarrow> pageHeaderSize + slotSize * length es + used es \<le> PageSize"

lemma used_simps [simp]: "used [] = 0" "used (e # es) = cellBytes e + used es"
  "used (xs @ ys) = used xs + used ys"
  by (simp_all add: used_def)

lemma fits_prefix: "fits (xs @ ys) \<Longrightarrow> fits xs"
  by (simp add: fits_def offsets)

lemma fits_Nil [simp]: "fits []"
  by (simp add: fits_def offsets)

text \<open>Slot \<open>i\<close> of the page points at the bytes of the cell, inside the cell area.\<close>

definition cell_at :: "page \<Rightarrow> nat \<Rightarrow> cell \<Rightarrow> nat \<Rightarrow> bool" where
  "cell_at p i c off \<longleftrightarrow>
     (case c of (k, v, f) \<Rightarrow>
        off + length k + length v \<le> PageSize \<and>
        readSlot p i = Some \<lparr>offset = of_nat off, keyLen = of_nat (length k),
                             valueLen = of_nat (length v), slotFlags = f\<rparr> \<and>
        slice (data p) off (length k) = k \<and>
        slice (data p) (off + length k) (length v) = v)"

text \<open>Cells are laid down from the end of the page: cell \<open>i\<close> starts below the first \<open>i + 1\<close>.\<close>

definition cellOff :: "cell list \<Rightarrow> nat \<Rightarrow> nat" where
  "cellOff es i = PageSize - used (take (Suc i) es)"

definition holds :: "page \<Rightarrow> u16 \<Rightarrow> cell list \<Rightarrow> bool" where
  "holds p f es \<longleftrightarrow>
     wf_page p \<and> flags p = f \<and> unat (slotCount p) = length es \<and>
     unat (freeUpper p) = PageSize - used es \<and> fits es \<and>
     (\<forall>i<length es. cell_at p i (es ! i) (cellOff es i))"

lemma unat_of_nat16: "n \<le> PageSize \<Longrightarrow> unat (of_nat n :: u16) = n"
  by (simp add: unat_of_nat offsets)

lemma used_le_PageSize: "fits es \<Longrightarrow> used es \<le> PageSize"
  by (simp add: fits_def)

lemma length_le_PageSize: "fits es \<Longrightarrow> length es \<le> PageSize"
  by (simp add: fits_def offsets)

lemma used_take_mono: "used (take i es) \<le> used es"
  by (metis append_take_drop_id le_add1 used_simps(3))

lemma wf_newPage [simp]: "wf_page (newPage i f)"
proof -
  have "wf_page \<lparr>pid = i, data = replicate PageSize 0\<rparr>" by (simp add: wf_page_def)
  then show ?thesis by (simp add: newPage_def)
qed

lemma wf_reset [simp]: "wf_page p \<Longrightarrow> wf_page (reset p f)"
proof -
  assume "wf_page p"
  then have "wf_page (p\<lparr>data := replicate (length (data p)) 0\<rparr>)" by (simp add: wf_page_def)
  then show ?thesis by (simp add: reset_def)
qed

lemma le_to_word_zeros: "le_to_word (replicate n 0) = 0"
  by (induction n) simp_all

lemma leftmostChild_zeros: "leftmostChild \<lparr>pid = i, data = replicate PageSize 0\<rparr> = 0"
  by (simp add: leftmostChild_def getU64_def slice_def offsets le_to_word_zeros min_def)

lemma newPage_fields [simp]:
  "flags (newPage i f) = f" "slotCount (newPage i f) = 0" "freeUpper (newPage i f) = of_nat PageSize"
  "leftmostChild (newPage i f) = 0" "validChecksum (newPage i f)"
proof -
  have "wf_page \<lparr>pid = i, data = replicate PageSize 0\<rparr>" by (simp add: wf_page_def)
  then show "flags (newPage i f) = f" "slotCount (newPage i f) = 0"
    "freeUpper (newPage i f) = of_nat PageSize" "leftmostChild (newPage i f) = 0"
    "validChecksum (newPage i f)"
    by (simp_all add: newPage_def leftmostChild_zeros)
qed

lemma reset_newPage: "wf_page p \<Longrightarrow> reset p f = newPage (pid p) f"
  by (simp add: reset_def newPage_def wf_page_def)
     (metis (full_types) old.unit.exhaust page.surjective page.update_convs(2))

lemma holds_newPage: "holds (newPage i f) f []"
  by (simp add: holds_def unat_of_nat16)

lemma holds_reset: "wf_page p \<Longrightarrow> holds (reset p f) f []"
  by (simp add: reset_newPage holds_newPage)

section \<open>Appending a cell\<close>

text \<open>Header writes and the checksum leave every cell in place.\<close>

lemma cell_at_header [simp]:
  assumes "wf_page p" "pageHeaderSize \<le> off"
  shows "cell_at (setSlotCount p n) i c off = cell_at p i c off"
    "cell_at (setFreeUpper p u) i c off = cell_at p i c off"
    "cell_at (setLeftmostChild p j) i c off = cell_at p i c off"
    "cell_at (updateChecksum p) i c off = cell_at p i c off"
  using assms
  by (simp_all add: cell_at_def split: prod.split)
     (simp_all add: wf_page_def header_defs offsets slice_splice_disjoint)

text \<open>The cells of a page lie between its slots and its end, in disjoint ranges.\<close>

lemma cellOff_bounds:
  assumes "fits es" "i < length es"
  shows "pageHeaderSize + slotSize * length es \<le> PageSize - used es"
    "PageSize - used es \<le> cellOff es i"
    "cellOff es i + cellBytes (es ! i) \<le> PageSize"
proof -
  have "used (take (Suc i) es) = used (take i es) + cellBytes (es ! i)"
    using assms(2) by (simp add: take_Suc_conv_app_nth)
  moreover have "used (take (Suc i) es) \<le> used es" by (rule used_take_mono)
  ultimately show "pageHeaderSize + slotSize * length es \<le> PageSize - used es"
    "PageSize - used es \<le> cellOff es i" "cellOff es i + cellBytes (es ! i) \<le> PageSize"
    using assms(1) by (simp_all add: fits_def cellOff_def)
qed

lemma cellOff_append: "i < length es \<Longrightarrow> cellOff (es @ xs) i = cellOff es i"
  by (simp add: cellOff_def)

lemma cell_at_writeSlot_other:
  assumes "wf_page p" "slotBase j + 8 \<le> off" "slotBase j + 8 \<le> PageSize" "i \<noteq> j"
  shows "cell_at (writeSlot p j s) i c off = cell_at p i c off"
proof -
  have "slice (data (writeSlot p j s)) o' n = slice (data p) o' n" if "off \<le> o'" for o' n
    using assms that
    by (simp add: writeSlot_def putU16_def Let_def wf_page_def slice_splice_disjoint)
  then show ?thesis
    using assms by (auto simp: cell_at_def readSlot_writeSlot_other split: prod.split)
qed

lemma cell_at_data:
  assumes "cell_at p i (k, v, f) off" "length d = length (data p)"
    "\<And>o' n. o' + n \<le> slotBase (Suc i) \<Longrightarrow> slice d o' n = slice (data p) o' n"
    "\<And>o' n. off \<le> o' \<Longrightarrow> o' + n \<le> off + length k + length v \<Longrightarrow> slice d o' n = slice (data p) o' n"
  shows "cell_at (p\<lparr>data := d\<rparr>) i (k, v, f) off"
proof -
  have "readSlot (p\<lparr>data := d\<rparr>) i = readSlot p i"
    using assms(2,3) by (simp add: readSlot_def Let_def getU16_def slotBase_def offsets)
  then show ?thesis using assms by (simp add: cell_at_def)
qed

lemma appendCell_full:
  assumes "holds p f es" "\<not> fits (es @ [(k, v, g)])"
  shows "appendCellWithFlags p k v g = (p, False)"
  using assms
  by (auto simp: appendCellWithFlags_def holds_def fits_def Let_def offsets)

lemma appendCell_fits:
  assumes h: "holds p f es" and fit: "fits (es @ [(k, v, g)])"
  obtains p' where "appendCellWithFlags p k v g = (p', True)" "holds p' f (es @ [(k, v, g)])"
    "leftmostChild p' = leftmostChild p" "pid p' = pid p" "validChecksum p'"
proof -
  define off where "off = PageSize - used (es @ [(k, v, g)])"
  let ?n = "length es"
  let ?s = "\<lparr>offset = of_nat off, keyLen = of_nat (length k), valueLen = of_nat (length v),
              slotFlags = g\<rparr>"
  let ?d0 = "splice (data p) off k"
  let ?d1 = "splice ?d0 (off + length k) v"
  let ?q = "p\<lparr>data := ?d1\<rparr>"
  let ?p3 = "setSlotCount (setFreeUpper (writeSlot ?q ?n ?s) off) (of_nat (?n + 1))"
  have wf: "wf_page p" and len: "length (data p) = PageSize"
    and fl: "flags p = f" and sc: "unat (slotCount p) = ?n"
    and fu: "unat (freeUpper p) = PageSize - used es"
    and cells: "\<And>i. i < ?n \<Longrightarrow> cell_at p i (es ! i) (cellOff es i)"
    using h by (auto simp: holds_def wf_page_def)
  have room: "20 + 8 * (?n + 1) + used es + length k + length v \<le> 4096"
    using fit by (simp add: fits_def offsets)
  have offs: "off + length k + length v = PageSize - used es" "20 + 8 * (?n + 1) \<le> off"
    "off + length k + length v \<le> PageSize"
    using room by (simp_all add: offsets off_def)
  have base: "slotBase ?n + 8 \<le> off" "slotBase ?n + 8 \<le> PageSize"
    using offs by (simp_all add: slotBase_def offsets)
  have offd: "off + length k + length v \<le> length (data p)" using offs len by simp
  have len1: "length ?d1 = PageSize" using splice_pair(1) [OF offd] len by simp
  have wfq: "wf_page ?q" using len1 by (simp add: wf_page_def)
  have low: "slice ?d1 o' m = slice (data p) o' m" if "o' + m \<le> off" for o' m
    using splice_pair(4) [OF offd] that by blast
  have high: "slice ?d1 o' m = slice (data p) o' m" if "PageSize - used es \<le> o'" for o' m
    using splice_pair(4) [OF offd] that offs by metis
  note key = splice_pair(2) [OF offd] and val = splice_pair(3) [OF offd]
  have hdr: "flags ?q = f" "slotCount ?q = slotCount p" "leftmostChild ?q = leftmostChild p"
    using offs fl by (simp_all add: flags_def slotCount_def leftmostChild_def getU16_def getU64_def
        low offsets)
  have app: "appendCellWithFlags p k v g = (updateChecksum ?p3, True)"
    using room fu sc by (simp add: appendCellWithFlags_def Let_def offsets off_def)
  have wf3: "wf_page ?p3" using wfq base by simp
  have old: "cell_at ?p3 i (es ! i) (cellOff es i)" if i: "i < ?n" for i
  proof -
    obtain k' v' f' where e: "es ! i = (k', v', f')" by (cases "es ! i") auto
    have b: "PageSize - used es \<le> cellOff es i" "pageHeaderSize \<le> cellOff es i"
      using cellOff_bounds [of es i] h i by (auto simp: holds_def)
    have "cell_at ?q i (k', v', f') (cellOff es i)"
    proof (rule cell_at_data)
      show "cell_at p i (k', v', f') (cellOff es i)" using cells [OF i] e by simp
      show "length ?d1 = length (data p)" using len len1 by simp
      show "slice ?d1 o' m = slice (data p) o' m" if "o' + m \<le> slotBase (Suc i)" for o' m
        using that i offs by (intro low) (simp add: slotBase_def offsets)
      show "slice ?d1 o' m = slice (data p) o' m" if "cellOff es i \<le> o'" for o' m
        using that b by (intro high) simp
    qed
    moreover have "slotBase ?n + 8 \<le> cellOff es i" using base b offs by simp
    ultimately show ?thesis
      using wfq base b i by (simp add: e cell_at_writeSlot_other)
  qed
  have new: "cell_at ?p3 ?n (k, v, g) off"
  proof -
    have hi: "slice (data (writeSlot ?q ?n ?s)) o' m = slice ?d1 o' m" if "off \<le> o'" for o' m
      using that base len1
      by (simp add: writeSlot_def putU16_def Let_def slice_splice_disjoint)
    have "cell_at (writeSlot ?q ?n ?s) ?n (k, v, g) off"
      using offs key val by (simp add: cell_at_def readSlot_writeSlot [OF wfq base(2)] hi)
    moreover have "pageHeaderSize \<le> off" using offs by (simp add: offsets)
    ultimately show ?thesis using wfq base by simp
  qed
  have "holds (updateChecksum ?p3) f (es @ [(k, v, g)])"
    unfolding holds_def
  proof (intro conjI allI impI)
    show "unat (slotCount (updateChecksum ?p3)) = length (es @ [(k, v, g)])"
      using wfq base wf3 room unat_of_nat16 [of "Suc ?n"] by (simp add: offsets)
    show "unat (freeUpper (updateChecksum ?p3)) = PageSize - used (es @ [(k, v, g)])"
      using wfq base wf3 unat_of_nat16 [of off] by (simp add: off_def)
    fix i assume "i < length (es @ [(k, v, g)])"
    then consider "i < ?n" | "i = ?n" by fastforce
    then show "cell_at (updateChecksum ?p3) i ((es @ [(k, v, g)]) ! i) (cellOff (es @ [(k, v, g)]) i)"
    proof cases
      case 1
      have "pageHeaderSize \<le> cellOff es i"
        using cellOff_bounds [of es i] h 1 by (auto simp: holds_def)
      then show ?thesis using old [OF 1] wf3 1 by (simp add: nth_append cellOff_append)
    next
      case 2
      have "pageHeaderSize \<le> off" using offs by (simp add: offsets)
      moreover have "cellOff (es @ [(k, v, g)]) i = off" using 2 by (simp add: cellOff_def off_def)
      ultimately show ?thesis using new wf3 2 by simp
    qed
  qed (use wfq base wf3 hdr fit in simp_all)
  moreover have "leftmostChild (updateChecksum ?p3) = leftmostChild p" "pid (updateChecksum ?p3) = pid p"
    "validChecksum (updateChecksum ?p3)"
    using wfq base wf3 hdr by simp_all
  ultimately show ?thesis using app that by blast
qed

end
