(* ===== verification/PageEntries.thy ===== *)
theory PageEntries
  imports PageCells
begin

text \<open>
  Whole-page reads and writes: the leaf entries and branch parts of a page, and the writers
  of \<^verbatim>\<open>pagebtree/insert.go\<close> that fill a page from them.  A page written from entries that
  fit reads back exactly those entries, and the write is refused exactly when they do not.
\<close>

section \<open>Reading the cells a page holds\<close>

lemma holdsD:
  assumes "holds p f es"
  shows "wf_page p" "flags p = f" "unat (slotCount p) = length es" "fits es"
    "unat (freeUpper p) = PageSize - used es"
    "i < length es \<Longrightarrow> cell_at p i (es ! i) (cellOff es i)"
  using assms by (auto simp: holds_def)

lemma holds_header:
  assumes "holds p f es"
  shows "holds (setLeftmostChild p i) f es" "holds (updateChecksum p) f es"
    "holds (setNextLeaf p i) f es"
proof -
  have "holds (setLeftmostChild p i) f es" "holds (updateChecksum p) f es"
    if "holds p f es" for p
  proof -
    have "pageHeaderSize \<le> cellOff es j" if "j < length es" for j
      using cellOff_bounds [of es j] that \<open>holds p f es\<close> by (auto simp: holds_def)
    then show "holds (setLeftmostChild p i) f es" "holds (updateChecksum p) f es"
      using \<open>holds p f es\<close> by (simp_all add: holds_def)
  qed
  with assms show "holds (setLeftmostChild p i) f es" "holds (updateChecksum p) f es"
    "holds (setNextLeaf p i) f es"
    by (simp_all add: setNextLeaf_def)
qed

lemma cell_at_slot:
  assumes "cell_at p i (k, v, f) off" "wf_page p"
  obtains s where "readSlot p i = Some s" "unat (offset s) = off" "unat (keyLen s) = length k"
    "unat (valueLen s) = length v" "slotFlags s = f" "off + length k + length v \<le> length (data p)"
    "slice (data p) off (length k) = k" "slice (data p) (off + length k) (length v) = v"
  using assms
  by (auto simp: cell_at_def wf_page_def unat_of_nat16)

lemma holds_reads:
  assumes h: "holds p f es" and i: "i < length es" and e: "es ! i = (k, v, g)"
  shows "readCell p i = Some (k, v)" "readCellKey p i = Some k" "readCellValue p i = Some v"
    "map_option slotFlags (readSlot p i) = Some g"
    "compareCellKeyWithComparator p i key cmp = Some (cmp k key)"
proof -
  obtain s where s: "readSlot p i = Some s" "unat (offset s) = cellOff es i"
    "unat (keyLen s) = length k" "unat (valueLen s) = length v" "slotFlags s = g"
    "cellOff es i + length k + length v \<le> length (data p)"
    "slice (data p) (cellOff es i) (length k) = k"
    "slice (data p) (cellOff es i + length k) (length v) = v"
    using holdsD(6) [OF h i] holdsD(1) [OF h] by (auto simp: e elim: cell_at_slot)
  then show "readCell p i = Some (k, v)" "readCellKey p i = Some k" "readCellValue p i = Some v"
    "map_option slotFlags (readSlot p i) = Some g"
    "compareCellKeyWithComparator p i key cmp = Some (cmp k key)"
    by (simp_all add: readCell_def readCellKey_def readCellValue_def
        compareCellKeyWithComparator_def)
qed

lemma holds_slot:
  assumes "holds p f es" "i < length es" "es ! i = (k, v, g)"
  obtains s where "readSlot p i = Some s" "slotFlags s = g"
  using holds_reads(4) [OF assms] by auto

text \<open>The leaf entries, as cells and back.\<close>

definition leCell :: "leafEntry \<Rightarrow> cell" where
  "leCell e = (le_key e, le_value e, le_slotFlags e)"

definition cellEntry :: "cell \<Rightarrow> leafEntry" where
  "cellEntry c = (case c of (k, v, f) \<Rightarrow>
     \<lparr>le_key = k, le_value = v, le_encoded = True, le_slotFlags = f\<rparr>)"

lemma leCell_cellEntry [simp]: "leCell (cellEntry c) = c"
  by (cases c) (simp add: leCell_def cellEntry_def)

lemma leafEntries_holds: "holds p f es \<Longrightarrow> leafEntries p = Some (map cellEntry es)"
  unfolding leafEntries_def mapM_Some_iff
proof (intro conjI allI impI)
  assume h: "holds p f es"
  show "length (map cellEntry es) = length [0..<unat (slotCount p)]"
    using holdsD(3) [OF h] by simp
  fix i assume "i < length [0..<unat (slotCount p)]"
  then have i: "i < length es" using holdsD(3) [OF h] by simp
  obtain k v g where e: "es ! i = (k, v, g)" by (cases "es ! i") auto
  show "Option.bind (readSlot p ([0..<unat (slotCount p)] ! i))
      (\<lambda>s. Option.bind (readCell p ([0..<unat (slotCount p)] ! i)) (\<lambda>(k, v). Some
        \<lparr>le_key = k, le_value = v, le_encoded = True, le_slotFlags = slotFlags s\<rparr>)) =
      Some (map cellEntry es ! i)"
    using holds_reads(1,4) [OF h i e] i holdsD(3) [OF h]
    by (auto simp: cellEntry_def e)
qed

text \<open>The cells of a branch page: a separator and the encoded id of the child to its right.\<close>

definition branchCells :: "key list \<Rightarrow> PageID list \<Rightarrow> cell list" where
  "branchCells keys children = map (\<lambda>(k, c). (k, encodePageIDValue c, 0)) (zip keys children)"

lemma decodePageID_encode [simp]: "decodePageID (encodePageIDValue i) = Some i"
  by (simp add: decodePageID_def encodePageIDValue_def encodePageID_def)

lemma length_encodePageIDValue [simp]: "length (encodePageIDValue i) = 8"
  by (simp add: encodePageIDValue_def encodePageID_def)

lemma branchParts_holds:
  assumes h: "holds p f (branchCells keys cs)" and len: "length keys = length cs"
  shows "branchParts p = Some (keys, leftmostChild p # cs)"
proof -
  let ?es = "branchCells keys cs"
  have n: "unat (slotCount p) = length keys" "length ?es = length keys"
    using holdsD(3) [OF h] len by (simp_all add: branchCells_def)
  have "mapM (\<lambda>i. do { (k, ec) \<leftarrow> readCell p i; c \<leftarrow> decodePageID ec; Some (k, c) })
      [0..<unat (slotCount p)] = Some (zip keys cs)"
    unfolding mapM_Some_iff
  proof (intro conjI allI impI)
    fix i assume "i < length [0..<unat (slotCount p)]"
    then have i: "i < length ?es" using n by simp
    then have "?es ! i = (keys ! i, encodePageIDValue (cs ! i), 0)"
      using len n by (simp add: branchCells_def)
    then show "do { (k, ec) \<leftarrow> readCell p ([0..<unat (slotCount p)] ! i);
        c \<leftarrow> decodePageID ec; Some (k, c) } = Some (zip keys cs ! i)"
      using holds_reads(1) [OF h i] i n len by simp
  qed (use n len in simp)
  then show ?thesis using len by (simp add: branchParts_def)
qed

section \<open>Searching a page\<close>

text \<open>
  On a page whose keys increase, the page's own binary search agrees with the rank of the
  key among the cells: it finds the key where it is, and otherwise the place it would take.
\<close>

definition cellRank :: "comparator \<Rightarrow> key \<Rightarrow> cell list \<Rightarrow> nat" where
  "cellRank cmp k es = rank (\<lambda>c. cmp (fst c) k) es"

definition cellFound :: "comparator \<Rightarrow> key \<Rightarrow> cell list \<Rightarrow> bool" where
  "cellFound cmp k es \<longleftrightarrow> cellRank cmp k es < length es \<and> fst (es ! cellRank cmp k es) = k"

context key_comparator
begin

lemma rank_keys: "rank (\<lambda>c. cmp (g c) k) es = rank (\<lambda>s. cmp s k) (map g es)"
  by (simp add: rank_def takeWhile_map comp_def)

lemma cell_hit:
  assumes "increasing (map fst es)" "i < length es" "cmp (fst (es ! i)) k = 0"
  shows "cellRank cmp k es = i"
  unfolding cellRank_def
proof (rule rank_unique)
  fix j assume "j < i"
  then show "cmp (fst (es ! j)) k < 0"
    using increasing_nth_mono [OF assms(1), of j i] assms(2,3) by (simp add: cmp_eq)
qed (use assms in simp_all)

lemma searchSlotLoop_rank:
  assumes h: "holds p f es" and inc: "increasing (map fst es)"
  shows "low \<le> cellRank cmp k es \<Longrightarrow> cellRank cmp k es \<le> high \<Longrightarrow> high \<le> length es \<Longrightarrow>
    (cellFound cmp k es \<longrightarrow> cellRank cmp k es < high) \<Longrightarrow>
    searchSlotLoop p k cmp low high = Some (cellRank cmp k es, cellFound cmp k es)"
proof (induction "high - low" arbitrary: low high rule: less_induct)
  case less
  let ?r = "cellRank cmp k es"
  have part: "partitioned (\<lambda>c. cmp (fst c) k) es" using inc by (rule partitioned_keys)
  show ?case
  proof (cases "low < high")
    case False
    then have "?r = low" "\<not> cellFound cmp k es" using less.prems by auto
    then show ?thesis using False by (subst searchSlotLoop.simps) auto
  next
    case True
    let ?m = "low + (high - low) div 2"
    have m: "low \<le> ?m" "?m < high" "?m < length es" using True less.prems by auto
    obtain k' v g where e: "es ! ?m = (k', v, g)" by (cases "es ! ?m") auto
    have read: "compareCellKeyWithComparator p ?m k cmp = Some (cmp k' k)"
      by (rule holds_reads(5) [OF h m(3) e])
    consider (below) "cmp k' k < 0" | (above) "0 < cmp k' k" | (eq) "cmp k' k = 0" by linarith
    then show ?thesis
    proof cases
      case below
      then have "?m < ?r"
        using rank_above [OF part, of ?m] m e unfolding cellRank_def by (metis fst_conv leI not_less)
      then have "searchSlotLoop p k cmp (?m + 1) high = Some (?r, cellFound cmp k es)"
        using less.prems m by (intro less.hyps) auto
      then show ?thesis using True below read by (subst searchSlotLoop.simps) (simp add: Let_def)
    next
      case above
      then have ge: "?r \<le> ?m" using rank_below [of ?m "\<lambda>c. cmp (fst c) k" es] e
        unfolding cellRank_def by (metis fst_conv leI less_asym)
      have "cellFound cmp k es \<Longrightarrow> ?r \<noteq> ?m" using above e by (auto simp: cellFound_def)
      then have "searchSlotLoop p k cmp low ?m = Some (?r, cellFound cmp k es)"
        using less.prems m ge by (intro less.hyps) auto
      then show ?thesis using True above read by (subst searchSlotLoop.simps) (simp add: Let_def)
    next
      case eq
      then have "?r = ?m" using cell_hit [OF inc m(3)] e by simp
      moreover have "cellFound cmp k es"
        using eq e m \<open>?r = ?m\<close> by (simp add: cellFound_def cmp_eq)
      ultimately show ?thesis using True eq read
        by (subst searchSlotLoop.simps) (simp add: Let_def)
    qed
  qed
qed

lemma searchSlot_rank:
  assumes "holds p f es" "increasing (map fst es)"
  shows "searchSlotWithComparator p k cmp = Some (cellRank cmp k es, cellFound cmp k es)"
  unfolding searchSlotWithComparator_def
  using assms holdsD(3) [OF assms(1)]
  by (intro searchSlotLoop_rank) (auto simp: cellRank_def cellFound_def)

lemma searchLeafCell_holds:
  assumes h: "holds p f es" and inc: "increasing (map fst es)"
  shows "searchLeafCellWithComparator p k cmp = Some (map_of es k)"
proof (cases "cellFound cmp k es")
  case True
  let ?r = "cellRank cmp k es"
  obtain v g where e: "?r < length es" "es ! ?r = (k, v, g)"
    using True by (cases "es ! ?r") (auto simp: cellFound_def)
  have "map_of es k = Some (v, g)"
    using e increasing_distinct [OF inc] by (metis map_of_is_SomeI nth_mem)
  then show ?thesis
    using searchSlot_rank [OF assms, of k] True holds_reads(3,4) [OF h e]
    by (auto simp: searchLeafCellWithComparator_def)
next
  case False
  have "k \<notin> fst ` set es"
  proof
    assume "k \<in> fst ` set es"
    then obtain i where i: "i < length es" "fst (es ! i) = k" by (auto simp: in_set_conv_nth)
    then have "cellRank cmp k es = i" using cell_hit [OF inc i(1)] by simp
    then show False using False i by (simp add: cellFound_def)
  qed
  then have "map_of es k = None" by (simp add: map_of_eq_None_iff)
  then show ?thesis
    using searchSlot_rank [OF assms, of k] False by (simp add: searchLeafCellWithComparator_def)
qed

text \<open>Branch routing on the page is \<open>childIndex\<close> on its separators.\<close>

lemma childIndex_cells:
  assumes "increasing (map fst es)"
  shows "childIndex (map fst es) k cmp =
    (if cellFound cmp k es then cellRank cmp k es + 1 else cellRank cmp k es)"
  using assms partitioned_keys [of "\<lambda>x. x" "map fst es" k]
  by (auto simp: childIndex_def binarySearchFunc_rank cellRank_def cellFound_def
      rank_keys [of fst] cmp_eq)

lemma searchBranchChild_holds:
  assumes h: "holds p f (branchCells keys cs)" and len: "length keys = length cs"
    and inc: "increasing keys"
  shows "searchBranchChildWithComparator p k cmp = Some ((leftmostChild p # cs) ! childIndex keys k cmp)"
proof -
  let ?es = "branchCells keys cs" and ?r = "cellRank cmp k (branchCells keys cs)"
  have keys: "map fst ?es = keys" using len
    by (simp add: branchCells_def comp_def case_prod_beta)
  have inc': "increasing (map fst ?es)" using inc keys by simp
  have nth: "?es ! i = (keys ! i, encodePageIDValue (cs ! i), 0)" "i < length ?es"
    if "i < length keys" for i
    using that len by (simp_all add: branchCells_def)
  have rd: "readCellPageID p i = Some (cs ! i)" if "i < length keys" for i
    using holds_reads(3) [OF h nth(2) [OF that] nth(1) [OF that]] by (simp add: readCellPageID_def)
  have le: "?r \<le> length keys" unfolding cellRank_def
    by (metis keys length_map rank_le)
  have lt: "?r < length keys" if "cellFound cmp k ?es"
    using that keys by (metis cellFound_def length_map)
  show ?thesis
    using searchSlot_rank [OF h inc', of k] childIndex_cells [OF inc', of k] rd le lt
    by (cases "cellFound cmp k ?es") (auto simp: searchBranchChildWithComparator_def keys nth_Cons')
qed

end

section \<open>Filling a page\<close>

fun appendCells :: "page \<Rightarrow> cell list \<Rightarrow> page \<times> bool" where
  "appendCells p [] = (p, True)"
| "appendCells p ((k, v, f) # es) =
     (let (p', ok) = appendCellWithFlags p k v f
      in if ok then appendCells p' es else (p', False))"

definition writeEncodedLeafEntries :: "page \<Rightarrow> leafEntry list \<Rightarrow> page \<times> bool" where
  "writeEncodedLeafEntries p entries =
     (let (p', ok) = appendCells (reset p flagLeaf) (map leCell entries)
      in if ok then (updateChecksum p', True) else (p', False))"

definition mustWriteLeafEntries :: "page \<Rightarrow> leafEntry list \<Rightarrow> page option" where
  "mustWriteLeafEntries p entries =
     (let (p', ok) = appendCells (reset p flagLeaf) (map (\<lambda>e. (le_key e, le_value e, 0)) entries)
      in if ok then Some (updateChecksum p') else None)"

definition newLeaf :: "PageID \<Rightarrow> key \<Rightarrow> bytes \<Rightarrow> page option" where
  "newLeaf i k v = mustWriteLeafEntries (newPage i flagLeaf)
     [\<lparr>le_key = k, le_value = v, le_encoded = False, le_slotFlags = 0\<rparr>]"

definition mustWriteBranchParts :: "page \<Rightarrow> key list \<Rightarrow> PageID list \<Rightarrow> page option" where
  "mustWriteBranchParts p keys children = do {
     check (length children = length keys + 1);
     let p0 = setLeftmostChild (reset p flagBranch) (hd children);
     let (p', ok) = appendCells p0 (branchCells keys (tl children));
     check ok;
     Some (updateChecksum p')
   }"

lemma appendCells_holds:
  assumes "holds p f es"
  shows "if fits (es @ cs)
    then \<exists>p'. appendCells p cs = (p', True) \<and> holds p' f (es @ cs) \<and>
           leftmostChild p' = leftmostChild p \<and> pid p' = pid p
    else \<exists>p'. appendCells p cs = (p', False) \<and> wf_page p' \<and> pid p' = pid p"
  using assms
proof (induction cs arbitrary: p es)
  case Nil
  then show ?case by (auto simp: holds_def)
next
  case (Cons c cs)
  obtain k v g where c: "c = (k, v, g)" by (cases c) auto
  show ?case
  proof (cases "fits (es @ [(k, v, g)])")
    case True
    obtain p' where p': "appendCellWithFlags p k v g = (p', True)" "holds p' f (es @ [(k, v, g)])"
      "leftmostChild p' = leftmostChild p" "pid p' = pid p"
      using appendCell_fits [OF Cons.prems True] by metis
    then show ?thesis using Cons.IH [OF p'(2)] by (simp add: c split: if_splits)
  next
    case False
    then have "\<not> fits (es @ c # cs)" using fits_prefix [of "es @ [c]" cs] c by auto
    then show ?thesis
      using appendCell_full [OF Cons.prems False] Cons.prems c by (auto simp: holds_def)
  qed
qed

lemma writeEncodedLeafEntries_fits:
  assumes "wf_page p" "fits (map leCell es)"
  obtains p' where "writeEncodedLeafEntries p es = (p', True)" "holds p' flagLeaf (map leCell es)"
    "pid p' = pid p" "validChecksum p'"
proof -
  obtain q where "appendCells (reset p flagLeaf) (map leCell es) = (q, True)"
    "holds q flagLeaf (map leCell es)" "pid q = pid p"
    using appendCells_holds [OF holds_reset [OF assms(1)], of "map leCell es" flagLeaf] assms(2)
    by auto
  then show thesis
    using that [of "updateChecksum q"] holds_header(2) holdsD(1)
    by (auto simp: writeEncodedLeafEntries_def)
qed

lemma writeEncodedLeafEntries_full:
  assumes "wf_page p" "\<not> fits (map leCell es)"
  obtains p' where "writeEncodedLeafEntries p es = (p', False)" "wf_page p'" "pid p' = pid p"
  using appendCells_holds [OF holds_reset [OF assms(1)], of "map leCell es" flagLeaf] assms
  by (auto simp: writeEncodedLeafEntries_def)

lemma mustWriteBranchParts_fits:
  assumes "wf_page p" "length cs = length keys" "fits (branchCells keys cs)"
  obtains p' where "mustWriteBranchParts p keys (c # cs) = Some p'"
    "holds p' flagBranch (branchCells keys cs)" "leftmostChild p' = c" "pid p' = pid p"
    "validChecksum p'"
proof -
  let ?p0 = "setLeftmostChild (reset p flagBranch) c"
  have "holds ?p0 flagBranch []" "leftmostChild ?p0 = c" "pid ?p0 = pid p"
    using holds_header(1) [OF holds_reset [OF assms(1)]] assms(1) by simp_all
  moreover obtain q where "appendCells ?p0 (branchCells keys cs) = (q, True)"
    "holds q flagBranch (branchCells keys cs)" "leftmostChild q = c" "pid q = pid p"
    using appendCells_holds [OF calculation(1), of "branchCells keys cs"] calculation(2,3) assms(3)
    by auto
  ultimately show thesis
    using that [of "updateChecksum q"] assms(2) holds_header(2) holdsD(1)
    by (auto simp: mustWriteBranchParts_def)
qed

lemma mustWriteBranchParts_overflow:
  assumes "wf_page p" "length cs = length keys" "\<not> fits (branchCells keys cs)"
  shows "mustWriteBranchParts p keys (c # cs) = None"
proof -
  have "holds (setLeftmostChild (reset p flagBranch) c) flagBranch []"
    using holds_header(1) [OF holds_reset [OF assms(1)]] by simp
  from appendCells_holds [OF this, of "branchCells keys cs"] show ?thesis
    using assms by (auto simp: mustWriteBranchParts_def)
qed

section \<open>Kinds of pages\<close>

lemma holds_kind [simp]:
  "holds p flagLeaf es \<Longrightarrow> isLeaf p" "holds p flagLeaf es \<Longrightarrow> \<not> isBranch p"
  "holds p flagBranch es \<Longrightarrow> isBranch p" "holds p flagBranch es \<Longrightarrow> \<not> isLeaf p"
  by (simp_all add: isLeaf_def isBranch_def holds_def flag_defs)

text \<open>The byte accounting of a page: header, slots and cells.\<close>

lemma slottedBytesUsed_holds:
  "holds p f es \<Longrightarrow>
     slottedBytesUsed p = int (pageHeaderSize + slotSize * length es + used es)"
  using used_le_PageSize [of es]
  by (auto simp: slottedBytesUsed_def holds_def)

end
