(* ===== verification/PageKinds.thy ===== *)
theory PageKinds
  imports PageEntries
begin

text \<open>
  The fixed-payload pages: overflow pages and references (\<^verbatim>\<open>pagebtree/overflow.go\<close>),
  freelist pages (\<^verbatim>\<open>freelist_pages.go\<close>) and reclaim pages (\<^verbatim>\<open>reclaim_pages.go\<close>), each
  with its writer, its reader and the law that the reader returns what was written.
\<close>

section \<open>Overflow references\<close>

definition overflowRefMagic :: bytes where "overflowRefMagic = str ''OVF1''"
definition overflowRefSize :: nat where [page_consts]: "overflowRefSize = 20"
definition overflowPayloadOffset :: nat where [page_consts]: "overflowPayloadOffset = pageHeaderSize"
definition overflowPayloadSize :: nat where
  [page_consts]: "overflowPayloadSize = PageSize - overflowPayloadOffset"
definition slotFlagOverflow :: u16 where "slotFlagOverflow = 1"

record overflowRef =
  or_first :: PageID
  or_length :: int

definition encodeOverflowRef :: "overflowRef \<Rightarrow> bytes" where
  "encodeOverflowRef r =
     overflowRefMagic @ word_to_le 8 (or_first r) @ word_to_le 8 (word_of_int (or_length r) :: u64)"

text \<open>Go's \<^verbatim>\<open>int(uint64)\<close> reads the length as two's complement.\<close>

definition decodeOverflowRef :: "bytes \<Rightarrow> u16 \<Rightarrow> overflowRef option" where
  "decodeOverflowRef v f =
     (if and f slotFlagOverflow = 0 then None
      else if length v \<noteq> overflowRefSize \<or> take 4 v \<noteq> overflowRefMagic then None
      else Some \<lparr>or_first = getU64 v 4, or_length = sint (getU64 v 12)\<rparr>)"

lemma length_overflowRefMagic [simp]: "length overflowRefMagic = 4"
  by (simp add: overflowRefMagic_def str_def)

lemma length_encodeOverflowRef [simp]: "length (encodeOverflowRef r) = 20"
  by (simp add: encodeOverflowRef_def)

lemma slice_append_right: "length a \<le> off \<Longrightarrow> slice (a @ b) off n = slice b (off - length a) n"
  by (simp add: slice_def)

lemma slice_all: "slice a 0 (length a) = a"
  by (simp add: slice_def)

lemma sint_word_of_int_64:
  assumes "- (2 ^ 63) \<le> x" "x < 2 ^ 63"
  shows "sint (word_of_int x :: u64) = x"
  using assms by (simp add: signed_of_int signed_take_bit_int_eq_self)

lemma decode_encode_overflowRef:
  assumes "0 \<le> or_length r" "or_length r < 2 ^ 63" "and f slotFlagOverflow \<noteq> 0"
  shows "decodeOverflowRef (encodeOverflowRef r) f = Some r"
proof -
  have "getU64 (encodeOverflowRef r) 4 = or_first r"
    by (simp add: getU64_def encodeOverflowRef_def slice_append_right slice_append_left)
       (simp add: slice_def)
  moreover have "getU64 (encodeOverflowRef r) 12 = word_of_int (or_length r)"
    by (simp add: getU64_def encodeOverflowRef_def slice_append_right slice_append_left)
       (simp add: slice_def)
  moreover have "sint (word_of_int (or_length r) :: u64) = or_length r"
    using assms(1,2) by (simp add: sint_word_of_int_64)
  moreover have "take 4 (encodeOverflowRef r) = overflowRefMagic"
    by (simp add: encodeOverflowRef_def)
  ultimately show ?thesis
    using assms(3) by (simp add: decodeOverflowRef_def page_consts)
qed

lemma decodeOverflowRef_inline [simp]: "decodeOverflowRef v 0 = None"
  by (simp add: decodeOverflowRef_def)

section \<open>Overflow pages\<close>

definition overflowNext :: "page \<Rightarrow> PageID" where
  "overflowNext p = leftmostChild p"

definition overflowPayloadLen :: "page \<Rightarrow> nat" where
  "overflowPayloadLen p = unat (slotCount p)"

definition setOverflowPayloadLen :: "page \<Rightarrow> nat \<Rightarrow> page" where
  "setOverflowPayloadLen p n = setSlotCount p (of_nat n)"

definition overflowBytesUsed :: "page \<Rightarrow> nat" where
  "overflowBytesUsed p = pageHeaderSize + overflowPayloadLen p"

definition overflowPayload :: "page \<Rightarrow> bytes option" where
  "overflowPayload p = do {
     check (overflowPayloadOffset + overflowPayloadLen p \<le> length (data p));
     Some (slice (data p) overflowPayloadOffset (overflowPayloadLen p))
   }"

definition writeOverflowPage :: "page \<Rightarrow> PageID \<Rightarrow> bytes \<Rightarrow> page option" where
  "writeOverflowPage p next chunk = do {
     check (length chunk \<le> overflowPayloadSize);
     let p1 = setOverflowPayloadLen (setLeftmostChild (reset p flagOverflow) next) (length chunk);
     Some (updateChecksum (p1\<lparr>data := splice (data p1) overflowPayloadOffset chunk\<rparr>))
   }"

text \<open>A page written over past the header keeps its header fields.\<close>

lemma payload_write:
  assumes "wf_page p" "pageHeaderSize + length bs \<le> PageSize"
  shows "wf_page (p\<lparr>data := splice (data p) pageHeaderSize bs\<rparr>)"
    "flags (p\<lparr>data := splice (data p) pageHeaderSize bs\<rparr>) = flags p"
    "slotCount (p\<lparr>data := splice (data p) pageHeaderSize bs\<rparr>) = slotCount p"
    "freeUpper (p\<lparr>data := splice (data p) pageHeaderSize bs\<rparr>) = freeUpper p"
    "leftmostChild (p\<lparr>data := splice (data p) pageHeaderSize bs\<rparr>) = leftmostChild p"
    "slice (data (p\<lparr>data := splice (data p) pageHeaderSize bs\<rparr>)) pageHeaderSize (length bs) = bs"
  using assms
  by (simp_all add: wf_page_def header_defs page_consts slice_splice_same slice_splice_disjoint)

lemma data_updateChecksum_payload:
  "wf_page p \<Longrightarrow> pageHeaderSize \<le> off \<Longrightarrow> slice (data (updateChecksum p)) off n = slice (data p) off n"
  by (simp add: wf_page_def updateChecksum_def putU32_def page_consts slice_splice_disjoint)

definition overflow_page :: "page \<Rightarrow> PageID \<Rightarrow> bytes \<Rightarrow> bool" where
  "overflow_page p next chunk \<longleftrightarrow>
     wf_page p \<and> flags p = flagOverflow \<and> freeUpper p = of_nat PageSize \<and> overflowNext p = next \<and>
     overflowPayloadLen p = length chunk \<and> length chunk \<le> overflowPayloadSize \<and>
     slice (data p) overflowPayloadOffset (length chunk) = chunk \<and> validChecksum p"

lemma writeOverflowPage_ok:
  assumes "wf_page p" "length chunk \<le> overflowPayloadSize"
  obtains p' where "writeOverflowPage p next chunk = Some p'" "overflow_page p' next chunk"
    "pid p' = pid p"
proof -
  define q where "q = setOverflowPayloadLen (setLeftmostChild (reset p flagOverflow) next) (length chunk)"
  have q: "wf_page q" "flags q = flagOverflow" "freeUpper q = of_nat PageSize"
    "leftmostChild q = next" "slotCount q = of_nat (length chunk)" "pid q = pid p"
    using assms(1) by (simp_all add: q_def setOverflowPayloadLen_def reset_newPage)
  have len: "pageHeaderSize + length chunk \<le> PageSize"
    using assms(2) by (simp add: page_consts)
  let ?r = "q\<lparr>data := splice (data q) pageHeaderSize chunk\<rparr>"
  note r = payload_write [OF q(1) len]
  have "unat (of_nat (length chunk) :: u16) = length chunk"
    by (rule unat_of_nat16) (use len in simp)
  then have "overflow_page (updateChecksum ?r) next chunk"
    using r q assms(2)
    by (simp add: overflow_page_def overflowNext_def overflowPayloadLen_def
        overflowPayloadOffset_def data_updateChecksum_payload)
  moreover have "writeOverflowPage p next chunk = Some (updateChecksum ?r)"
    using assms(2) by (simp add: writeOverflowPage_def q_def overflowPayloadOffset_def Let_def)
  ultimately show thesis using that q(6) by simp
qed

lemma overflow_page_reads:
  assumes "overflow_page p next chunk"
  shows "overflowPayload p = Some chunk" "overflowNext p = next" "isOverflow p" "\<not> isLeaf p"
    "\<not> isBranch p" "wf_page p"
  using assms
  by (auto simp: overflow_page_def overflowPayload_def wf_page_def isOverflow_def isLeaf_def
      isBranch_def flag_defs page_consts)

section \<open>Freelist pages\<close>

definition freelistPayloadOffset :: nat where [page_consts]: "freelistPayloadOffset = pageHeaderSize"
definition freelistPageCapacity :: nat where
  [page_consts]: "freelistPageCapacity = (PageSize - freelistPayloadOffset) div 8"

definition freelistNext :: "page \<Rightarrow> PageID" where "freelistNext p = leftmostChild p"
definition freelistCount :: "page \<Rightarrow> nat" where "freelistCount p = unat (slotCount p)"
definition setFreelistCount :: "page \<Rightarrow> nat \<Rightarrow> page" where
  "setFreelistCount p n = setSlotCount p (of_nat n)"

fun putIDs :: "bytes \<Rightarrow> nat \<Rightarrow> u64 list \<Rightarrow> bytes option" where
  "putIDs d off [] = Some d"
| "putIDs d off (i # is) =
     (if off + 8 \<le> length d then putIDs (putU64 d off i) (off + 8) is else None)"

definition getID :: "bytes \<Rightarrow> nat \<Rightarrow> u64 option" where
  "getID d off = (if off + 8 \<le> length d then Some (getU64 d off) else None)"

definition writeFreelistPage :: "page \<Rightarrow> PageID \<Rightarrow> PageID list \<Rightarrow> page option" where
  "writeFreelistPage p next ids = do {
     let p1 = setFreelistCount (setLeftmostChild (reset p flagFreelist) next) (length ids);
     d \<leftarrow> putIDs (data p1) freelistPayloadOffset ids;
     Some (updateChecksum (p1\<lparr>data := d\<rparr>))
   }"

definition freelistIDs :: "page \<Rightarrow> PageID list option" where
  "freelistIDs p =
     mapM (\<lambda>i. getID (data p) (freelistPayloadOffset + i * 8)) [0..<freelistCount p]"

lemma putIDs_splice:
  "putIDs d off is =
     (if is = [] \<or> off + 8 * length is \<le> length d
      then Some (splice d off (concat (map (word_to_le 8) is))) else None)"
proof (induction "is" arbitrary: d off)
  case Nil
  then show ?case by (simp add: splice_def)
next
  case (Cons i "is")
  have "splice (putU64 d off i) (off + 8) (concat (map (word_to_le 8) is)) =
      splice d off (word_to_le 8 i @ concat (map (word_to_le 8) is))" if "off + 8 \<le> length d"
    using that by (simp add: putU64_def splice_def min_absorb2 ac_simps)
  then show ?case using Cons.IH [of "putU64 d off i" "off + 8"]
    by (auto simp: putU64_def)
qed

lemma length_concat_le8: "length (concat (map (word_to_le 8) is)) = 8 * length is"
  by (induction "is") simp_all

lemma slice_concat_le8:
  "i < length is \<Longrightarrow> slice (concat (map (word_to_le 8) is)) (8 * i) 8 = word_to_le 8 (is ! i)"
proof (induction "is" arbitrary: i)
  case Nil
  then show ?case by simp
next
  case (Cons x xs)
  then show ?case by (cases i) (simp_all add: slice_def)
qed

text \<open>Eight-byte words written to the payload read back by index.\<close>

lemma payload_words:
  assumes "wf_page p" "pageHeaderSize + 8 * length ws \<le> PageSize"
  obtains d where "putIDs (data p) pageHeaderSize ws = Some d" "wf_page (p\<lparr>data := d\<rparr>)"
    "flags (p\<lparr>data := d\<rparr>) = flags p" "slotCount (p\<lparr>data := d\<rparr>) = slotCount p"
    "freeUpper (p\<lparr>data := d\<rparr>) = freeUpper p" "leftmostChild (p\<lparr>data := d\<rparr>) = leftmostChild p"
    "\<And>i. i < length ws \<Longrightarrow>
       getID (data (updateChecksum (p\<lparr>data := d\<rparr>))) (pageHeaderSize + 8 * i) = Some (ws ! i)"
proof -
  let ?bs = "concat (map (word_to_le 8) ws)" and ?d = "splice (data p) pageHeaderSize (concat (map (word_to_le 8) ws))"
  have len: "pageHeaderSize + length ?bs \<le> PageSize" using assms(2) by (simp add: length_concat_le8)
  note w = payload_write [OF assms(1) len]
  have put: "putIDs (data p) pageHeaderSize ws = Some ?d"
    using assms by (simp add: putIDs_splice wf_page_def)
  have get: "getID (data (updateChecksum (p\<lparr>data := ?d\<rparr>))) (pageHeaderSize + 8 * i) = Some (ws ! i)"
    if i: "i < length ws" for i
  proof -
    have "slice (data (updateChecksum (p\<lparr>data := ?d\<rparr>))) (pageHeaderSize + 8 * i) 8 =
        slice ?d (pageHeaderSize + 8 * i) 8"
      using w(1) by (simp add: data_updateChecksum_payload)
    also have "\<dots> = slice ?bs (8 * i) 8"
      using i len assms(1) by (simp add: slice_splice_within length_concat_le8 wf_page_def)
    also have "\<dots> = word_to_le 8 (ws ! i)" using i by (rule slice_concat_le8)
    finally have "getU64 (data (updateChecksum (p\<lparr>data := ?d\<rparr>))) (pageHeaderSize + 8 * i) = ws ! i"
      by (simp add: getU64_def)
    moreover have "wf_page (updateChecksum (p\<lparr>data := ?d\<rparr>))" using w(1) by simp
    ultimately show ?thesis using i assms(2) by (simp add: getID_def wf_page_def)
  qed
  show thesis using that [OF put w(1-5) get] by blast
qed

definition freelist_page :: "page \<Rightarrow> PageID \<Rightarrow> PageID list \<Rightarrow> bool" where
  "freelist_page p next ids \<longleftrightarrow>
     wf_page p \<and> flags p = flagFreelist \<and> freeUpper p = of_nat PageSize \<and> freelistNext p = next \<and>
     freelistIDs p = Some ids \<and> freelistCount p = length ids \<and> validChecksum p"

lemma writeFreelistPage_ok:
  assumes "wf_page p" "length ids \<le> freelistPageCapacity"
  obtains p' where "writeFreelistPage p next ids = Some p'" "freelist_page p' next ids"
    "pid p' = pid p"
proof -
  define q where "q = setFreelistCount (setLeftmostChild (reset p flagFreelist) next) (length ids)"
  have q: "wf_page q" "flags q = flagFreelist" "freeUpper q = of_nat PageSize"
    "leftmostChild q = next" "slotCount q = of_nat (length ids)" "pid q = pid p"
    using assms(1) by (simp_all add: q_def setFreelistCount_def reset_newPage)
  have len: "pageHeaderSize + 8 * length ids \<le> PageSize"
    using assms(2) by (simp add: page_consts)
  obtain d where d: "putIDs (data q) pageHeaderSize ids = Some d" "wf_page (q\<lparr>data := d\<rparr>)"
    "flags (q\<lparr>data := d\<rparr>) = flags q" "slotCount (q\<lparr>data := d\<rparr>) = slotCount q"
    "freeUpper (q\<lparr>data := d\<rparr>) = freeUpper q" "leftmostChild (q\<lparr>data := d\<rparr>) = leftmostChild q"
    "\<And>i. i < length ids \<Longrightarrow>
       getID (data (updateChecksum (q\<lparr>data := d\<rparr>))) (pageHeaderSize + 8 * i) = Some (ids ! i)"
    by (rule payload_words [OF q(1) len]) (rule that)
  have n: "unat (of_nat (length ids) :: u16) = length ids"
    by (rule unat_of_nat16) (use len in simp)
  have "freelistIDs (updateChecksum (q\<lparr>data := d\<rparr>)) = Some ids"
    unfolding freelistIDs_def mapM_Some_iff
    using d q n by (simp add: freelistCount_def freelistPayloadOffset_def mult.commute)
  then have "freelist_page (updateChecksum (q\<lparr>data := d\<rparr>)) next ids"
    using d q n by (simp add: freelist_page_def freelistNext_def freelistCount_def)
  moreover have "writeFreelistPage p next ids = Some (updateChecksum (q\<lparr>data := d\<rparr>))"
    using d(1) by (simp add: writeFreelistPage_def q_def freelistPayloadOffset_def Let_def)
  ultimately show thesis using that q(6) by simp
qed

section \<open>Reclaim pages\<close>

definition reclaimPayloadOffset :: nat where [page_consts]: "reclaimPayloadOffset = pageHeaderSize"
definition reclaimRecordSize :: nat where [page_consts]: "reclaimRecordSize = 16"
definition reclaimPageCapacity :: nat where
  [page_consts]: "reclaimPageCapacity = (PageSize - reclaimPayloadOffset) div reclaimRecordSize"

record reclaimRecord =
  rr_id :: PageID
  rr_revision :: u64

definition reclaimNext :: "page \<Rightarrow> PageID" where "reclaimNext p = leftmostChild p"
definition reclaimCount :: "page \<Rightarrow> nat" where "reclaimCount p = unat (slotCount p)"
definition setReclaimCount :: "page \<Rightarrow> nat \<Rightarrow> page" where
  "setReclaimCount p n = setSlotCount p (of_nat n)"

definition writeReclaimPage :: "page \<Rightarrow> PageID \<Rightarrow> reclaimRecord list \<Rightarrow> page option" where
  "writeReclaimPage p next records = do {
     let p1 = setReclaimCount (setLeftmostChild (reset p flagReclaim) next) (length records);
     d \<leftarrow> putIDs (data p1) reclaimPayloadOffset
           (concat (map (\<lambda>r. [rr_id r, rr_revision r]) records));
     Some (updateChecksum (p1\<lparr>data := d\<rparr>))
   }"

definition reclaimRecords :: "page \<Rightarrow> reclaimRecord list option" where
  "reclaimRecords p = mapM (\<lambda>i. do {
     let off = reclaimPayloadOffset + i * reclaimRecordSize;
     a \<leftarrow> getID (data p) off;
     b \<leftarrow> getID (data p) (off + 8);
     Some \<lparr>rr_id = a, rr_revision = b\<rparr>
   }) [0..<reclaimCount p]"

definition reclaim_page :: "page \<Rightarrow> PageID \<Rightarrow> reclaimRecord list \<Rightarrow> bool" where
  "reclaim_page p next records \<longleftrightarrow>
     wf_page p \<and> flags p = flagReclaim \<and> freeUpper p = of_nat PageSize \<and> reclaimNext p = next \<and>
     reclaimRecords p = Some records \<and> reclaimCount p = length records \<and> validChecksum p"

lemma length_pairs: "length (concat (map (\<lambda>r. [f r, g r]) rs)) = 2 * length rs"
  by (induction rs) simp_all

lemma nth_pairs:
  "i < length rs \<Longrightarrow> concat (map (\<lambda>r. [f r, g r]) rs) ! (2 * i) = f (rs ! i)"
  "i < length rs \<Longrightarrow> concat (map (\<lambda>r. [f r, g r]) rs) ! (2 * i + 1) = g (rs ! i)"
proof (induction rs arbitrary: i)
  case (Cons r rs)
  { case 1 then show ?case using Cons by (cases i) simp_all }
  { case 2 then show ?case using Cons by (cases i) simp_all }
qed simp_all

lemma writeReclaimPage_ok:
  assumes "wf_page p" "length rs \<le> reclaimPageCapacity"
  obtains p' where "writeReclaimPage p next rs = Some p'" "reclaim_page p' next rs" "pid p' = pid p"
proof -
  let ?ws = "concat (map (\<lambda>r. [rr_id r, rr_revision r]) rs)"
  define q where "q = setReclaimCount (setLeftmostChild (reset p flagReclaim) next) (length rs)"
  have q: "wf_page q" "flags q = flagReclaim" "freeUpper q = of_nat PageSize"
    "leftmostChild q = next" "slotCount q = of_nat (length rs)" "pid q = pid p"
    using assms(1) by (simp_all add: q_def setReclaimCount_def reset_newPage)
  have len: "pageHeaderSize + 8 * length ?ws \<le> PageSize"
    using assms(2) by (simp add: length_pairs page_consts)
  obtain d where d: "putIDs (data q) pageHeaderSize ?ws = Some d" "wf_page (q\<lparr>data := d\<rparr>)"
    "flags (q\<lparr>data := d\<rparr>) = flags q" "slotCount (q\<lparr>data := d\<rparr>) = slotCount q"
    "freeUpper (q\<lparr>data := d\<rparr>) = freeUpper q" "leftmostChild (q\<lparr>data := d\<rparr>) = leftmostChild q"
    and get: "\<And>i. i < length ?ws \<Longrightarrow>
       getID (data (updateChecksum (q\<lparr>data := d\<rparr>))) (pageHeaderSize + 8 * i) = Some (?ws ! i)"
    by (rule payload_words [OF q(1) len]) (rule that)
  let ?p' = "updateChecksum (q\<lparr>data := d\<rparr>)"
  have n: "unat (of_nat (length rs) :: u16) = length rs"
    by (rule unat_of_nat16) (use len in \<open>simp add: length_pairs page_consts\<close>)
  have off: "reclaimPayloadOffset + i * reclaimRecordSize = pageHeaderSize + 8 * (2 * i)"
    "reclaimPayloadOffset + i * reclaimRecordSize + 8 = pageHeaderSize + 8 * (2 * i + 1)" for i
    by (simp_all add: reclaimPayloadOffset_def reclaimRecordSize_def)
  have rd: "getID (data ?p') (reclaimPayloadOffset + i * reclaimRecordSize) = Some (rr_id (rs ! i))"
    "getID (data ?p') (reclaimPayloadOffset + i * reclaimRecordSize + 8) = Some (rr_revision (rs ! i))"
    if i: "i < length rs" for i
  proof -
    have "2 * i < length ?ws" "2 * i + 1 < length ?ws" using i by (simp_all add: length_pairs)
    note g = get [OF this(1)] get [OF this(2)]
    show "getID (data ?p') (reclaimPayloadOffset + i * reclaimRecordSize) = Some (rr_id (rs ! i))"
      unfolding off(1) g(1) nth_pairs(1) [OF i] ..
    show "getID (data ?p') (reclaimPayloadOffset + i * reclaimRecordSize + 8) = Some (rr_revision (rs ! i))"
      unfolding off(2) g(2) nth_pairs(2) [OF i] ..
  qed
  have "reclaimRecords ?p' = Some rs"
    unfolding reclaimRecords_def mapM_Some_iff
    using d q n rd by (simp add: reclaimCount_def Let_def)
  then have "reclaim_page ?p' next rs"
    using d q n by (simp add: reclaim_page_def reclaimNext_def reclaimCount_def)
  moreover have "writeReclaimPage p next rs = Some ?p'"
    using d(1) by (simp add: writeReclaimPage_def q_def reclaimPayloadOffset_def Let_def)
  ultimately show thesis using that q(6) by simp
qed

end
