(* ===== verification/PageCache.thy ===== *)
theory PageCache
  imports PageKinds "HOL-Library.AList"
begin

text \<open>
  The branch-page cache of \<^verbatim>\<open>pagebtree/page_cache.go\<close>: decoded branch pages keyed by page id,
  each with the checksum of the bytes it was decoded from, evicted in least-recently-used
  order.  \<open>coherent\<close> says that an entry whose checksum equals the page's checksum is that
  page's decoding; under it a cached search equals the search of the page, and the cache
  stays coherent.  The second group of lemmas bounds its size.
\<close>

section \<open>State\<close>

record cachedBranch =
  cb_checksum :: u32
  cb_keys :: "key list"
  cb_children :: "PageID list"

record pageCacheStats =
  Entries :: nat
  Capacity :: int
  Hits :: nat
  Misses :: nat
  Invalidations :: nat
  Evictions :: nat

text \<open>
  \<open>pc_branches\<close> is the Go map, \<open>pc_lru\<close> the ids of the linked list from its front.  A nil map
  and a nil list are empty.
\<close>

record pageCache =
  pc_capacity :: int
  pc_initialized :: bool
  pc_branches :: "(PageID \<times> cachedBranch) list"
  pc_lru :: "PageID list"
  pc_stats :: pageCacheStats

definition DefaultPageCacheCapacity :: int where "DefaultPageCacheCapacity = 128"

definition normalizePageCacheCapacity :: "int \<Rightarrow> int" where
  "normalizePageCacheCapacity capacity =
     (if capacity = 0 then DefaultPageCacheCapacity else if capacity < 0 then 0 else capacity)"

definition zeroStats :: pageCacheStats where
  "zeroStats = \<lparr>Entries = 0, Capacity = 0, Hits = 0, Misses = 0, Invalidations = 0, Evictions = 0\<rparr>"

definition newPageCache :: "int \<Rightarrow> pageCache" where
  "newPageCache capacity =
     \<lparr>pc_capacity = normalizePageCacheCapacity capacity, pc_initialized = True,
      pc_branches = [], pc_lru = [], pc_stats = zeroStats\<rparr>"

section \<open>Operations\<close>

definition init_pageCache :: "pageCache \<Rightarrow> pageCache" where
  "init_pageCache c =
     (let c1 = (if pc_initialized c then c
                else c\<lparr>pc_capacity := DefaultPageCacheCapacity, pc_initialized := True\<rparr>)
      in c1\<lparr>pc_stats := (pc_stats c1)\<lparr>Capacity := pc_capacity c1\<rparr>\<rparr>)"

definition setEntries :: "pageCache \<Rightarrow> pageCache" where
  "setEntries c = c\<lparr>pc_stats := (pc_stats c)\<lparr>Entries := length (pc_branches c)\<rparr>\<rparr>"

definition touch :: "PageID \<Rightarrow> pageCache \<Rightarrow> pageCache" where
  "touch i c = (if i \<in> set (pc_lru c) then c\<lparr>pc_lru := i # remove1 i (pc_lru c)\<rparr> else c)"

definition remove_entry :: "PageID \<Rightarrow> pageCache \<Rightarrow> pageCache" where
  "remove_entry i c =
     setEntries (c\<lparr>pc_branches := AList.delete i (pc_branches c), pc_lru := remove1 i (pc_lru c)\<rparr>)"

definition evictOldest :: "pageCache \<Rightarrow> pageCache" where
  "evictOldest c =
     (if pc_lru c = [] then c
      else let c1 = c\<lparr>pc_branches := AList.delete (last (pc_lru c)) (pc_branches c),
                      pc_lru := butlast (pc_lru c),
                      pc_stats := (pc_stats c)\<lparr>Evictions := Evictions (pc_stats c) + 1\<rparr>\<rparr>
           in setEntries c1)"

text \<open>
  \<^verbatim>\<open>for len(c.branches) >= c.capacity { c.evictOldest() }\<close>: with an empty list the loop
  would not end.
\<close>

function evictLoop :: "pageCache \<Rightarrow> pageCache option" where
  "evictLoop c =
     (if pc_capacity c \<le> int (length (pc_branches c)) then
        (if pc_lru c = [] then None else evictLoop (evictOldest c))
      else Some c)"
  by pat_completeness auto
termination
  by (relation "measure (\<lambda>c. length (pc_lru c))") (auto simp: evictOldest_def setEntries_def Let_def)

declare evictLoop.simps [simp del]

definition insert_entry :: "PageID \<Rightarrow> cachedBranch \<Rightarrow> pageCache \<Rightarrow> pageCache option" where
  "insert_entry i e c =
     (if pc_capacity c = 0 then Some (c\<lparr>pc_stats := (pc_stats c)\<lparr>Entries := 0\<rparr>\<rparr>)
      else do {
        c1 \<leftarrow> evictLoop c;
        Some (setEntries (c1\<lparr>pc_lru := i # pc_lru c1,
                             pc_branches := AList.update i e (pc_branches c1)\<rparr>))
      })"

definition missBranch :: "pageCache \<Rightarrow> page \<Rightarrow> (cachedBranch \<times> pageCache) option" where
  "missBranch c p = do {
     (keys, children) \<leftarrow> branchParts p;
     let e = \<lparr>cb_checksum = checksum p, cb_keys = keys, cb_children = children\<rparr>;
     let c1 = c\<lparr>pc_stats := (pc_stats c)\<lparr>Misses := Misses (pc_stats c) + 1\<rparr>\<rparr>;
     c2 \<leftarrow> insert_entry (pid p) e c1;
     Some (e, c2)
   }"

definition branch :: "pageCache \<Rightarrow> page \<Rightarrow> (cachedBranch \<times> pageCache) option" where
  "branch c p = (let c0 = init_pageCache c in
     case map_of (pc_branches c0) (pid p) of
       Some e \<Rightarrow>
         if cb_checksum e = checksum p then
           Some (e, touch (pid p) (c0\<lparr>pc_stats := (pc_stats c0)\<lparr>Hits := Hits (pc_stats c0) + 1\<rparr>\<rparr>))
         else missBranch (remove_entry (pid p)
           (c0\<lparr>pc_stats := (pc_stats c0)\<lparr>Invalidations := Invalidations (pc_stats c0) + 1\<rparr>\<rparr>)) p
     | None \<Rightarrow> missBranch c0 p)"

definition cacheSearchBranchChild ::
  "pageCache \<Rightarrow> page \<Rightarrow> key \<Rightarrow> comparator \<Rightarrow> (PageID \<times> pageCache) option" where
  "cacheSearchBranchChild c p k cmp = do {
     (e, c') \<leftarrow> branch c p;
     let i = childIndex (cb_keys e) k cmp;
     check (i < length (cb_children e));
     Some (cb_children e ! i, c')
   }"

definition cacheSnapshot :: "pageCache \<Rightarrow> pageCacheStats \<times> pageCache" where
  "cacheSnapshot c =
     (let c0 = init_pageCache c;
          st = (pc_stats c0)\<lparr>Capacity := pc_capacity c0\<rparr>
      in (if 0 < pc_capacity c0 then st\<lparr>Entries := length (pc_branches c0)\<rparr> else st, c0))"

section \<open>Well-formed caches\<close>

definition cache_ok :: "pageCache \<Rightarrow> bool" where
  "cache_ok c \<longleftrightarrow>
     distinct (map fst (pc_branches c)) \<and> distinct (pc_lru c) \<and>
     set (pc_lru c) = fst ` set (pc_branches c) \<and> 0 \<le> pc_capacity c \<and> pc_initialized c \<and>
     int (length (pc_branches c)) \<le> pc_capacity c"

definition coherent :: "(PageID \<Rightarrow> page option) \<Rightarrow> pageCache \<Rightarrow> bool" where
  "coherent pgs c \<longleftrightarrow>
     (\<forall>i e p. (i, e) \<in> set (pc_branches c) \<and> pgs i = Some p \<and> checksum p = cb_checksum e \<longrightarrow>
        branchParts p = Some (cb_keys e, cb_children e))"

lemma cache_ok_newPageCache [simp]: "cache_ok (newPageCache n)"
  by (simp add: cache_ok_def newPageCache_def normalizePageCacheCapacity_def DefaultPageCacheCapacity_def)

lemma coherent_newPageCache [simp]: "coherent pgs (newPageCache n)"
  by (simp add: coherent_def newPageCache_def)

lemma cache_fields [simp]:
  "pc_branches (setEntries c) = pc_branches c" "pc_lru (setEntries c) = pc_lru c"
  "pc_capacity (setEntries c) = pc_capacity c" "pc_initialized (setEntries c) = pc_initialized c"
  "pc_branches (touch i c) = pc_branches c" "pc_capacity (touch i c) = pc_capacity c"
  "pc_initialized (touch i c) = pc_initialized c"
  by (simp_all add: setEntries_def touch_def)

lemma init_ok [simp]:
  "cache_ok c \<Longrightarrow> cache_ok (init_pageCache c)"
  "cache_ok c \<Longrightarrow> pc_branches (init_pageCache c) = pc_branches c"
  "cache_ok c \<Longrightarrow> pc_capacity (init_pageCache c) = pc_capacity c"
  by (simp_all add: cache_ok_def init_pageCache_def Let_def)

lemma touch_ok: "cache_ok c \<Longrightarrow> cache_ok (touch i c)"
  by (auto simp: cache_ok_def touch_def set_remove1_eq)

lemma dom_delete: "fst ` set (AList.delete k al) = fst ` set al - {k}"
  by (metis delete_keys image_set set_removeAll)

lemma update_new: "k \<notin> fst ` set al \<Longrightarrow> AList.update k v al = al @ [(k, v)]"
  by (induction al) auto

lemma set_delete_subset: "set (AList.delete k al) \<subseteq> set al"
  by (auto simp: AList.delete_eq)

lemma remove_entry_ok:
  assumes "cache_ok c" shows "cache_ok (remove_entry i c)"
  using assms length_delete_le [of i "pc_branches c"]
  by (auto simp: cache_ok_def remove_entry_def distinct_delete dom_delete set_remove1_eq)

lemma evictOldest_ok:
  assumes "cache_ok c" "pc_lru c \<noteq> []"
  shows "cache_ok (evictOldest c)" "set (pc_branches (evictOldest c)) \<subseteq> set (pc_branches c)"
    "pc_capacity (evictOldest c) = pc_capacity c"
proof -
  obtain xs i where lru: "pc_lru c = xs @ [i]" using assms(2) by (metis rev_exhaust)
  then have "i \<notin> set xs" "distinct xs" "fst ` set (pc_branches c) = insert i (set xs)"
    using assms(1) by (auto simp: cache_ok_def)
  then show "cache_ok (evictOldest c)"
    using assms lru length_delete_le [of i "pc_branches c"]
    by (simp add: cache_ok_def evictOldest_def Let_def distinct_delete dom_delete)
  show "set (pc_branches (evictOldest c)) \<subseteq> set (pc_branches c)"
    "pc_capacity (evictOldest c) = pc_capacity c"
    using set_delete_subset [of "last (pc_lru c)"] by (auto simp: evictOldest_def Let_def)
qed

lemma evictLoop_ok:
  "cache_ok c \<Longrightarrow> 0 < pc_capacity c \<Longrightarrow>
     \<exists>c'. evictLoop c = Some c' \<and> cache_ok c' \<and> int (length (pc_branches c')) < pc_capacity c' \<and>
       set (pc_branches c') \<subseteq> set (pc_branches c) \<and> pc_capacity c' = pc_capacity c"
proof (induction c rule: evictLoop.induct)
  case (1 c)
  show ?case
  proof (cases "pc_capacity c \<le> int (length (pc_branches c))")
    case True
    then have ne: "pc_lru c \<noteq> []" using "1.prems" by (auto simp: cache_ok_def)
    note e = evictOldest_ok [OF "1.prems"(1) ne]
    from "1.IH" [OF True ne e(1)] e "1.prems"(2) True ne show ?thesis
      by (subst evictLoop.simps) auto
  next
    case False
    then show ?thesis using "1.prems" by (subst evictLoop.simps) auto
  qed
qed

lemma insert_entry_ok:
  assumes "cache_ok c" "i \<notin> fst ` set (pc_branches c)"
  obtains c' where "insert_entry i e c = Some c'" "cache_ok c'"
    "set (pc_branches c') \<subseteq> insert (i, e) (set (pc_branches c))" "pc_capacity c' = pc_capacity c"
proof (cases "pc_capacity c = 0")
  case True
  then show thesis using that [of "c\<lparr>pc_stats := (pc_stats c)\<lparr>Entries := 0\<rparr>\<rparr>"] assms
    by (auto simp: insert_entry_def cache_ok_def)
next
  case False
  then have "0 < pc_capacity c" using assms by (simp add: cache_ok_def)
  then obtain c1 where c1: "evictLoop c = Some c1" "cache_ok c1"
    "int (length (pc_branches c1)) < pc_capacity c1" "set (pc_branches c1) \<subseteq> set (pc_branches c)"
    "pc_capacity c1 = pc_capacity c"
    using evictLoop_ok [OF assms(1)] by auto
  have notin: "i \<notin> fst ` set (pc_branches c1)" using c1(4) assms(2) by auto
  then have upd: "AList.update i e (pc_branches c1) = pc_branches c1 @ [(i, e)]"
    by (rule update_new)
  show thesis
    using c1 notin False
    by (intro that [of "setEntries (c1\<lparr>pc_lru := i # pc_lru c1,
          pc_branches := AList.update i e (pc_branches c1)\<rparr>)"])
       (auto simp: insert_entry_def cache_ok_def upd)
qed

section \<open>A cached decoding is the page's decoding\<close>

lemma coherent_subset:
  "coherent pgs c \<Longrightarrow> set (pc_branches c') \<subseteq> set (pc_branches c) \<Longrightarrow> coherent pgs c'"
  unfolding coherent_def by blast

lemma missBranch_ok:
  assumes c: "cache_ok c" "coherent pgs c" "pid p \<notin> fst ` set (pc_branches c)"
    and p: "pgs (pid p) = Some p" "branchParts p = Some (keys, children)"
  obtains e c' where "missBranch c p = Some (e, c')" "cb_keys e = keys" "cb_children e = children"
    "cache_ok c'" "coherent pgs c'" "pc_capacity c' = pc_capacity c"
proof -
  let ?e = "\<lparr>cb_checksum = checksum p, cb_keys = keys, cb_children = children\<rparr>"
  let ?c1 = "c\<lparr>pc_stats := (pc_stats c)\<lparr>Misses := Misses (pc_stats c) + 1\<rparr>\<rparr>"
  have c1: "cache_ok ?c1" "pid p \<notin> fst ` set (pc_branches ?c1)"
    using c by (simp_all add: cache_ok_def)
  obtain c' where c': "insert_entry (pid p) ?e ?c1 = Some c'" "cache_ok c'"
    "set (pc_branches c') \<subseteq> insert (pid p, ?e) (set (pc_branches c))"
    "pc_capacity c' = pc_capacity c"
    using insert_entry_ok [OF c1, of ?e] by auto
  have "coherent pgs c'"
    unfolding coherent_def
  proof (intro allI impI, elim conjE)
    fix i e q assume ie: "(i, e) \<in> set (pc_branches c')" "pgs i = Some q" "checksum q = cb_checksum e"
    then consider "i = pid p" "e = ?e" | "(i, e) \<in> set (pc_branches c)" using c'(3) by auto
    then show "branchParts q = Some (cb_keys e, cb_children e)"
    proof cases
      case 1
      then show ?thesis using ie p by simp
    next
      case 2
      then show ?thesis using ie c(2) by (auto simp: coherent_def)
    qed
  qed
  then show thesis
    using that [of ?e c'] c' p(2) by (simp add: missBranch_def Let_def)
qed

lemma branch_ok:
  assumes c: "cache_ok c" "coherent pgs c"
    and p: "pgs (pid p) = Some p" "branchParts p = Some (keys, children)"
  obtains e c' where "branch c p = Some (e, c')" "cb_keys e = keys" "cb_children e = children"
    "cache_ok c'" "coherent pgs c'" "pc_capacity c' = pc_capacity c"
proof (cases "map_of (pc_branches c) (pid p)")
  case None
  let ?c0 = "init_pageCache c"
  have c0: "cache_ok ?c0" "coherent pgs ?c0" "pid p \<notin> fst ` set (pc_branches ?c0)"
    using c None coherent_subset [OF c(2), of ?c0] by (simp_all add: map_of_eq_None_iff)
  obtain e c' where "missBranch ?c0 p = Some (e, c')" "cb_keys e = keys" "cb_children e = children"
    "cache_ok c'" "coherent pgs c'" "pc_capacity c' = pc_capacity ?c0"
    by (rule missBranch_ok [OF c0 p])
  then show thesis using that [of e c'] None c by (simp add: branch_def Let_def)
next
  case (Some e)
  let ?c0 = "init_pageCache c"
  have mem: "(pid p, e) \<in> set (pc_branches c)" using Some by (rule map_of_SomeD)
  show thesis
  proof (cases "cb_checksum e = checksum p")
    case True
    let ?c1 = "touch (pid p) (?c0\<lparr>pc_stats := (pc_stats ?c0)\<lparr>Hits := Hits (pc_stats ?c0) + 1\<rparr>\<rparr>)"
    have "branchParts p = Some (cb_keys e, cb_children e)"
      using c(2) mem p(1) True by (auto simp: coherent_def)
    moreover have "cache_ok ?c1" using c by (intro touch_ok) (simp add: cache_ok_def init_pageCache_def)
    moreover have "coherent pgs ?c1" using c by (intro coherent_subset [OF c(2)]) simp
    ultimately show thesis using that [of e ?c1] True Some c p(2) by (simp add: branch_def Let_def)
  next
    case False
    let ?c1 = "remove_entry (pid p) (?c0\<lparr>pc_stats :=
      (pc_stats ?c0)\<lparr>Invalidations := Invalidations (pc_stats ?c0) + 1\<rparr>\<rparr>)"
    have "cache_ok ?c1" using c by (intro remove_entry_ok) (simp add: cache_ok_def init_pageCache_def)
    moreover have "pc_branches ?c1 = AList.delete (pid p) (pc_branches c)" "pc_capacity ?c1 = pc_capacity c"
      using c by (simp_all add: remove_entry_def)
    moreover from this have "coherent pgs ?c1" "pid p \<notin> fst ` set (pc_branches ?c1)"
      using coherent_subset [OF c(2), of ?c1] set_delete_subset [of "pid p" "pc_branches c"]
      by (simp_all add: dom_delete)
    ultimately obtain e' c' where "missBranch ?c1 p = Some (e', c')" "cb_keys e' = keys"
      "cb_children e' = children" "cache_ok c'" "coherent pgs c'" "pc_capacity c' = pc_capacity c"
      using missBranch_ok [of ?c1 pgs p keys children] p by metis
    then show thesis using that [of e' c'] False Some c by (simp add: branch_def Let_def)
  qed
qed

lemma branchParts_length:
  "branchParts p = Some (keys, children) \<Longrightarrow> length children = Suc (length keys)"
  by (auto simp: branchParts_def bind_Some_iff)

text \<open>A cached search routes as \<open>childIndex\<close> on the page's own separators.\<close>

context key_comparator
begin

lemma cacheSearch_ok:
  assumes c: "cache_ok c" "coherent pgs c"
    and p: "pgs (pid p) = Some p" "branchParts p = Some (keys, children)"
    and inc: "increasing keys"
  obtains c' where "cacheSearchBranchChild c p k cmp = Some (children ! childIndex keys k cmp, c')"
    "cache_ok c'" "coherent pgs c'" "pc_capacity c' = pc_capacity c"
proof -
  obtain e c' where e: "branch c p = Some (e, c')" "cb_keys e = keys" "cb_children e = children"
    "cache_ok c'" "coherent pgs c'" "pc_capacity c' = pc_capacity c"
    by (rule branch_ok [OF c p])
  then show thesis
    using that [of c'] childIndex_cases(1) [OF inc, of k] branchParts_length [OF p(2)]
    by (simp add: cacheSearchBranchChild_def Let_def)
qed

end

text \<open>A cache of capacity zero holds no entries, so it is coherent with every page map.\<close>

lemma disabled_coherent: "cache_ok c \<Longrightarrow> pc_capacity c = 0 \<Longrightarrow> coherent pgs c"
  by (simp add: cache_ok_def coherent_def)

end
