(* ===== verification/TreeState.thy ===== *)
theory TreeState
  imports PageCache "HOL-Library.Multiset"
begin

text \<open>
  The tree's state (\<^verbatim>\<open>pagebtree/tree.go\<close>), its page allocator (\<^verbatim>\<open>allocPage\<close>, \<^verbatim>\<open>newPage\<close>,
  \<^verbatim>\<open>copyPage\<close>, \<^verbatim>\<open>growMmapForPage\<close>) and the retire/reclaim protocol of \<^verbatim>\<open>freelist.go\<close>.

  \<open>t.pages\<close> maps an id to the page object; the Go code never shares one page object between
  two ids, so a page mutated in place is written back under its id.  The bytes of an mmap
  arena are the bytes of these pages.  What the operating system does when the file grows
  (\<^verbatim>\<open>Truncate\<close>, \<^verbatim>\<open>fsync\<close>, \<^verbatim>\<open>mmap\<close>, \<^verbatim>\<open>munmap\<close>, \<^verbatim>\<open>madvise\<close>) is the parameter \<open>os_grow\<close>: whether
  growing to a capacity succeeds.  What other processes hold in the reader table is the
  parameter \<open>readerTable\<close>.

  The last section states page ownership: every allocated id is in exactly one of the tree,
  the free list and the retired list (\<open>owned\<close>), and an operation changes only fresh pages
  (\<open>ext\<close>).
\<close>

section \<open>State\<close>

definition DefaultRangePrefetchLeafWindow :: int where "DefaultRangePrefetchLeafWindow = 2"
definition DefaultMinRepairPageFillPercent :: int where "DefaultMinRepairPageFillPercent = 25"
definition metaPageCount :: nat where "metaPageCount = 2"
definition minMmapPageCount :: int where "minMmapPageCount = 2"
definition firstTreePageID :: PageID where "firstTreePageID = of_nat metaPageCount"

record retiredPage =
  rp_id :: PageID
  rp_revision :: u64

record mmapArena =
  maxPages :: int
  ar_readOnly :: bool
  dirtyPages :: "PageID set"
  os_grow :: "int \<Rightarrow> bool"
  readerTable :: "(u64 \<Rightarrow> (u64 \<times> bool) option) option"

record Tree =
  pages :: "PageID \<Rightarrow> page option"
  root :: PageID
  nextPage :: PageID
  treeLen :: int
  revision :: u64
  syncedRevision :: u64
  degree :: nat
  keyOrder :: KeyOrder
  keyComparator :: "comparator option"
  customComparator :: bool
  activeReaders :: "(u64 \<times> int) list"
  retired :: "retiredPage list"
  free :: "PageID list"
  metaFreelistRoot :: PageID
  metaFreelistPages :: "PageID list"
  metadataUpgradePending :: bool
  reusedPages :: int
  arena :: "mmapArena option"
  closed :: bool
  readOnly :: bool
  treeCache :: pageCache
  rangePrefetchLeafWindow :: int
  minRepairPageFillPercent :: int
  rangePrefetchHints :: int
  rangePrefetchPages :: int
  mmapWarmupHints :: int
  mmapWarmupPages :: int

record Options =
  opt_PageCacheCapacity :: int
  opt_RangePrefetchLeafWindow :: int
  opt_MinRepairPageFillPercent :: int
  opt_KeyComparator :: "comparator option"

definition normalizeRangePrefetchLeafWindow :: "int \<Rightarrow> int" where
  "normalizeRangePrefetchLeafWindow w =
     (if w < 0 then 0 else if w = 0 then DefaultRangePrefetchLeafWindow else w)"

definition normalizeMinRepairPageFillPercent :: "int \<Rightarrow> int" where
  "normalizeMinRepairPageFillPercent percent =
     (if percent < 0 then 0 else if percent = 0 then DefaultMinRepairPageFillPercent
      else if 100 < percent then 100 else percent)"

definition NewWithOptions :: "int \<Rightarrow> Options \<Rightarrow> Tree" where
  "NewWithOptions d opts =
     \<lparr>pages = Map.empty, root = 0, nextPage = 1, treeLen = 0, revision = 0, syncedRevision = 0,
      degree = normalizeDegree d, keyOrder = KeyOrderBytewise,
      keyComparator = Some (normalizeKeyComparator (opt_KeyComparator opts)),
      customComparator = (opt_KeyComparator opts \<noteq> None), activeReaders = [], retired = [],
      free = [], metaFreelistRoot = 0, metaFreelistPages = [], metadataUpgradePending = False,
      reusedPages = 0, arena = None, closed = False, readOnly = False,
      treeCache = newPageCache (opt_PageCacheCapacity opts),
      rangePrefetchLeafWindow = normalizeRangePrefetchLeafWindow (opt_RangePrefetchLeafWindow opts),
      minRepairPageFillPercent =
        normalizeMinRepairPageFillPercent (opt_MinRepairPageFillPercent opts),
      rangePrefetchHints = 0, rangePrefetchPages = 0, mmapWarmupHints = 0, mmapWarmupPages = 0\<rparr>"

definition New :: "int \<Rightarrow> Tree" where
  "New d = NewWithOptions d
     \<lparr>opt_PageCacheCapacity = 0, opt_RangePrefetchLeafWindow = 0,
      opt_MinRepairPageFillPercent = 0, opt_KeyComparator = None\<rparr>"

definition compareKeys :: "Tree \<Rightarrow> comparator" where
  "compareKeys t = (case keyComparator t of None \<Rightarrow> compareStrings | Some c \<Rightarrow> c)"

text \<open>\<^verbatim>\<open>t.pages[p.id] = p\<close>, or a change of the page object stored there.\<close>

definition putPage :: "Tree \<Rightarrow> page \<Rightarrow> Tree" where
  "putPage t p = t\<lparr>pages := (pages t)(pid p \<mapsto> p)\<rparr>"

section \<open>Readers, retired and free pages\<close>

definition readerCount :: "Tree \<Rightarrow> u64 \<Rightarrow> int" where
  "readerCount t r = (case map_of (activeReaders t) r of None \<Rightarrow> 0 | Some n \<Rightarrow> n)"

definition beginRead :: "Tree \<Rightarrow> u64 \<Rightarrow> Tree" where
  "beginRead t r = t\<lparr>activeReaders := AList.update r (readerCount t r + 1) (activeReaders t)\<rparr>"

definition minReader :: "(u64 \<times> int) list \<Rightarrow> (u64 \<times> bool)" where
  "minReader rs =
     foldl (\<lambda>(oldest, found) (r, n). if \<not> found \<or> r < oldest then (r, True) else (oldest, found))
       (0, False) rs"

text \<open>\<open>None\<close> is the error of a failed reader-table scan.\<close>

definition oldestReaderRevisionDetailed :: "Tree \<Rightarrow> (u64 \<times> bool) option" where
  "oldestReaderRevisionDetailed t =
     (let (oldest, found) = minReader (activeReaders t) in
      case arena t of
        None \<Rightarrow> Some (oldest, found)
      | Some a \<Rightarrow> (case readerTable a of
          None \<Rightarrow> Some (oldest, found)
        | Some scan \<Rightarrow> (case scan (revision t) of
            None \<Rightarrow> None
          | Some (r, hasReader) \<Rightarrow>
              if hasReader \<and> (\<not> found \<or> r < oldest) then Some (r, True)
              else Some (oldest, found))))"

definition oldestReaderRevision :: "Tree \<Rightarrow> u64 \<times> bool" where
  "oldestReaderRevision t =
     (case oldestReaderRevisionDetailed t of None \<Rightarrow> (0, True) | Some r \<Rightarrow> r)"

definition retirePage :: "Tree \<Rightarrow> PageID \<Rightarrow> Tree" where
  "retirePage t i = t\<lparr>retired := retired t @ [\<lparr>rp_id = i, rp_revision = revision t\<rparr>]\<rparr>"

definition reclaimRetiredPages :: "Tree \<Rightarrow> Tree" where
  "reclaimRetiredPages t =
     (if retired t = [] then t
      else let (oldest, hasReader) = oldestReaderRevision t;
               pinned = (\<lambda>r. hasReader \<and> oldest \<le> rp_revision r)
           in t\<lparr>free := free t @ map rp_id (filter (\<lambda>r. \<not> pinned r) (retired t)),
                retired := filter pinned (retired t)\<rparr>)"

definition endRead :: "Tree \<Rightarrow> u64 \<Rightarrow> Tree" where
  "endRead t r =
     (let n = readerCount t r;
          t1 = (if n \<le> 1 then t\<lparr>activeReaders := AList.delete r (activeReaders t)\<rparr>
                else t\<lparr>activeReaders := AList.update r (n - 1) (activeReaders t)\<rparr>)
      in reclaimRetiredPages t1)"

definition activeReaderCount :: "Tree \<Rightarrow> int" where
  "activeReaderCount t = sum_list (map snd (activeReaders t))"

section \<open>Page allocation\<close>

text \<open>The doubling loop of \<^verbatim>\<open>growMmapForPage\<close>; it starts at \<open>minMmapPageCount\<close> or above.\<close>

function growCapacity :: "int \<Rightarrow> int \<Rightarrow> int" where
  "growCapacity needed n = (if n < needed \<and> 0 < n then growCapacity needed (2 * n) else n)"
  by pat_completeness auto
termination
  by (relation "measure (\<lambda>(needed, n). nat (needed - n))") auto

declare growCapacity.simps [simp del]

definition remapMmap :: "Tree \<Rightarrow> mmapArena \<Rightarrow> int \<Rightarrow> Tree option" where
  "remapMmap t a newMax =
     (if newMax \<le> maxPages a then Some t
      else if os_grow a newMax then
        Some (t\<lparr>arena := Some (a\<lparr>maxPages := newMax,
          dirtyPages := (if nextPage t \<le> firstTreePageID then dirtyPages a else {})\<rparr>)\<rparr>)
      else None)"

definition growMmapForPage :: "Tree \<Rightarrow> PageID \<Rightarrow> Tree option" where
  "growMmapForPage t i =
     (case arena t of
        None \<Rightarrow> Some t
      | Some a \<Rightarrow>
          if sint i < maxPages a + int metaPageCount then Some t
          else if ar_readOnly a then None
          else remapMmap t a (growCapacity (sint i - int metaPageCount + 1)
                 (max (maxPages a) minMmapPageCount)))"

definition allocPage :: "Tree \<Rightarrow> (PageID \<times> Tree) option" where
  "allocPage t =
     (if free t \<noteq> [] then
        Some (last (free t), t\<lparr>free := butlast (free t), reusedPages := reusedPages t + 1\<rparr>)
      else do {
        let i = nextPage t;
        t1 \<leftarrow> growMmapForPage t i;
        Some (i, t1\<lparr>nextPage := nextPage t1 + 1\<rparr>)
      })"

definition markDirtyPage :: "mmapArena \<Rightarrow> PageID \<Rightarrow> mmapArena" where
  "markDirtyPage a i = (if ar_readOnly a then a else a\<lparr>dirtyPages := insert i (dirtyPages a)\<rparr>)"

definition pageBytesOk :: "mmapArena \<Rightarrow> PageID \<Rightarrow> bool" where
  "pageBytesOk a i \<longleftrightarrow> \<not> (i < firstTreePageID \<or> maxPages a + int metaPageCount \<le> sint i)"

text \<open>A page of the arena is reset in place, which leaves what a fresh page holds.\<close>

definition treeNewPage :: "Tree \<Rightarrow> PageID \<Rightarrow> u16 \<Rightarrow> (page \<times> Tree) option" where
  "treeNewPage t i f =
     (case arena t of
        None \<Rightarrow> Some (newPage i f, t)
      | Some a \<Rightarrow> do {
          check (pageBytesOk a i);
          let p = reset \<lparr>pid = i, data = replicate PageSize 0\<rparr> f;
          Some (p, t\<lparr>arena := Some (markDirtyPage a i)\<rparr>)
        })"

definition copyPage :: "Tree \<Rightarrow> PageID \<Rightarrow> (PageID \<times> Tree) option" where
  "copyPage t i = do {
     (newID, t1) \<leftarrow> allocPage t;
     src \<leftarrow> pages t1 i;
     (dst, t2) \<leftarrow> treeNewPage t1 newID (flags src);
     let t3 = putPage t2 (dst\<lparr>data := data src\<rparr>);
     Some (newID, retirePage t3 i)
   }"

end
