(* ===== verification/Ownership.thy ===== *)
theory Ownership
  imports TreeState
begin

text \<open>
  Page ownership.  \<open>owned t M\<close>: the ids in use \<open>M\<close>, the free ids and the retired ids together
  are the allocated ids, each exactly once, so no page leaks and none has two owners.
  \<open>room t n\<close>: at least \<open>n\<close> further pages can be allocated.  \<open>ext X t t'\<close>: \<open>t'\<close> comes from \<open>t\<close> by
  steps that change only the pages \<open>X\<close> and pages that were free or unallocated, keep the
  settings of the tree and only add to the retired list.
\<close>

section \<open>Definitions\<close>

definition base :: "Tree \<Rightarrow> PageID" where
  "base t = (case arena t of None \<Rightarrow> 1 | Some _ \<Rightarrow> firstTreePageID)"

definition owned :: "Tree \<Rightarrow> PageID multiset \<Rightarrow> bool" where
  "owned t M \<longleftrightarrow>
     M + mset (free t) + mset (map rp_id (retired t)) = mset_set {base t..<nextPage t}"

definition room :: "Tree \<Rightarrow> nat \<Rightarrow> bool" where
  "room t n \<longleftrightarrow> base t \<le> nextPage t \<and> unat (nextPage t) + n < 2 ^ 63 \<and>
     (case arena t of None \<Rightarrow> True
      | Some a \<Rightarrow> \<not> ar_readOnly a \<and> (\<forall>c. os_grow a c) \<and>
          sint (nextPage t) \<le> maxPages a + int metaPageCount)"

definition fresh :: "Tree \<Rightarrow> PageID set" where
  "fresh t = set (free t) \<union> {i. nextPage t \<le> i}"

definition settings where
  "settings t =
     (degree t, keyComparator t, revision t, activeReaders t, closed t, readOnly t,
      treeCache t, minRepairPageFillPercent t, root t, treeLen t, base t)"

definition ext :: "PageID set \<Rightarrow> Tree \<Rightarrow> Tree \<Rightarrow> bool" where
  "ext X t t' \<longleftrightarrow>
     settings t' = settings t \<and> nextPage t \<le> nextPage t' \<and> set (free t') \<subseteq> set (free t) \<and>
     (\<forall>i. i \<notin> X \<and> i \<notin> fresh t \<longrightarrow> pages t' i = pages t i) \<and>
     (\<exists>is. retired t' = retired t @ map (\<lambda>i. \<lparr>rp_id = i, rp_revision = revision t\<rparr>) is)"

section \<open>Laws of \<open>ext\<close>\<close>

lemma settingsD [frame]:
  assumes "settings t' = settings t"
  shows "degree t' = degree t" "keyComparator t' = keyComparator t" "revision t' = revision t"
    "activeReaders t' = activeReaders t" "closed t' = closed t" "readOnly t' = readOnly t"
    "treeCache t' = treeCache t" "minRepairPageFillPercent t' = minRepairPageFillPercent t"
    "root t' = root t" "treeLen t' = treeLen t" "base t' = base t"
    "compareKeys t' = compareKeys t"
  using assms by (simp_all add: settings_def compareKeys_def)

lemma extD:
  assumes "ext X t t'"
  shows "settings t' = settings t" "nextPage t \<le> nextPage t'" "set (free t') \<subseteq> set (free t)"
    "i \<notin> X \<Longrightarrow> i \<notin> fresh t \<Longrightarrow> pages t' i = pages t i" "fresh t' \<subseteq> fresh t"
    "set (retired t) \<subseteq> set (retired t')"
  using assms by (auto simp: ext_def fresh_def)

lemmas ext_settings = extD(1) [THEN settingsD(1)] extD(1) [THEN settingsD(2)]
  extD(1) [THEN settingsD(3)] extD(1) [THEN settingsD(4)] extD(1) [THEN settingsD(5)]
  extD(1) [THEN settingsD(6)] extD(1) [THEN settingsD(7)] extD(1) [THEN settingsD(8)]
  extD(1) [THEN settingsD(9)] extD(1) [THEN settingsD(10)] extD(1) [THEN settingsD(11)]
  extD(1) [THEN settingsD(12)]

lemma ext_refl [simp]: "ext X t t"
  by (auto simp: ext_def)

lemma ext_mono: "ext X t t' \<Longrightarrow> X \<subseteq> Y \<Longrightarrow> ext Y t t'"
  by (auto simp: ext_def)

lemma ext_trans:
  assumes a: "ext X t t1" and b: "ext Y t1 t2" and Y: "Y \<subseteq> X \<union> fresh t"
  shows "ext X t t2"
proof -
  obtain xs ys where r: "retired t1 = retired t @ map (\<lambda>i. \<lparr>rp_id = i, rp_revision = revision t\<rparr>) xs"
    "retired t2 = retired t1 @ map (\<lambda>i. \<lparr>rp_id = i, rp_revision = revision t1\<rparr>) ys"
    using a b by (auto simp: ext_def)
  then have "retired t2 = retired t @ map (\<lambda>i. \<lparr>rp_id = i, rp_revision = revision t\<rparr>) (xs @ ys)"
    using ext_settings(3) [OF a] by simp
  moreover have "pages t2 i = pages t i" if "i \<notin> X" "i \<notin> fresh t" for i
    using that Y extD(4) [OF a] extD(4) [OF b] extD(5) [OF a] by (metis UnE subsetD)
  ultimately show ?thesis
    using extD(1-3) [OF a] extD(1-3) [OF b] unfolding ext_def by (auto simp del: map_append)
qed

lemma ext_putPage:
  assumes "pid p \<in> X" shows "ext X t (putPage t p)"
  using assms by (auto simp: ext_def putPage_def settings_def base_def fresh_def)

lemma ext_retirePage: "ext X t (retirePage t i)"
  by (auto simp: ext_def retirePage_def settings_def base_def intro: exI [of _ "[i]"])

lemma putPage_fields [simp]:
  "pages (putPage t p) = (pages t)(pid p \<mapsto> p)" "retired (putPage t p) = retired t"
  "free (putPage t p) = free t" "nextPage (putPage t p) = nextPage t"
  "degree (putPage t p) = degree t" "revision (putPage t p) = revision t"
  "arena (putPage t p) = arena t" "compareKeys (putPage t p) = compareKeys t"
  "base (putPage t p) = base t" "fresh (putPage t p) = fresh t"
  "owned (putPage t p) M = owned t M" "room (putPage t p) n = room t n"
  "settings (putPage t p) = settings t"
  by (simp_all add: putPage_def base_def fresh_def owned_def room_def compareKeys_def settings_def
      split: option.split)

lemma retirePage_fields [simp]:
  "pages (retirePage t i) = pages t" "free (retirePage t i) = free t"
  "nextPage (retirePage t i) = nextPage t" "degree (retirePage t i) = degree t"
  "revision (retirePage t i) = revision t" "arena (retirePage t i) = arena t"
  "compareKeys (retirePage t i) = compareKeys t" "base (retirePage t i) = base t"
  "fresh (retirePage t i) = fresh t" "room (retirePage t i) n = room t n"
  "settings (retirePage t i) = settings t"
  by (simp_all add: retirePage_def base_def fresh_def room_def compareKeys_def settings_def
      split: option.split)

lemma owned_retirePage: "owned (retirePage t i) M \<longleftrightarrow> owned t (add_mset i M)"
  by (simp add: owned_def retirePage_def base_def)

section \<open>What ownership implies\<close>

lemma in_interval: "i \<in># mset_set {a..<b::PageID} \<longleftrightarrow> a \<le> i \<and> i < b"
  by simp

lemma owned_range:
  assumes "owned t M" "i \<in># M \<or> i \<in> set (free t) \<or> i \<in> rp_id ` set (retired t)"
  shows "base t \<le> i" "i < nextPage t" "i \<noteq> 0"
proof -
  have "i \<in># M + mset (free t) + mset (map rp_id (retired t))" using assms(2) by auto
  then have "base t \<le> i \<and> i < nextPage t" using assms(1) unfolding owned_def by (metis in_interval)
  then show "base t \<le> i" "i < nextPage t" by auto
  then show "i \<noteq> 0"
    by (auto simp: base_def firstTreePageID_def metaPageCount_def split: option.splits)
qed

lemma owned_once:
  assumes "owned t M"
  shows "count M i + count (mset (free t)) i + count (mset (map rp_id (retired t))) i \<le> 1"
proof -
  have "count (mset_set {base t..<nextPage t}) i \<le> 1"
    by (cases "i \<in> {base t..<nextPage t}") simp_all
  then show ?thesis using assms unfolding owned_def by (metis count_union)
qed

lemma owned_disjoint:
  assumes "owned t M"
  shows "i \<in># M \<Longrightarrow> i \<notin> set (free t)" "i \<in># M \<Longrightarrow> i \<notin> rp_id ` set (retired t)"
    "i \<in> rp_id ` set (retired t) \<Longrightarrow> i \<notin> set (free t)"
proof -
  have m: "i \<in> set (free t) \<Longrightarrow> 1 \<le> count (mset (free t)) i"
    "i \<in> rp_id ` set (retired t) \<Longrightarrow> 1 \<le> count (mset (map rp_id (retired t))) i"
    "i \<in># M \<Longrightarrow> 1 \<le> count M i"
    by (simp_all only: count_greater_eq_one_iff set_mset_mset list.set_map)
  note once = owned_once [OF assms, of i]
  show "i \<in># M \<Longrightarrow> i \<notin> set (free t)" using m(1,3) once by linarith
  show "i \<in># M \<Longrightarrow> i \<notin> rp_id ` set (retired t)" using m(2,3) once by linarith
  show "i \<in> rp_id ` set (retired t) \<Longrightarrow> i \<notin> set (free t)" using m(1,2) once by linarith
qed

lemma owned_not_fresh: "owned t M \<Longrightarrow> i \<in># M \<Longrightarrow> i \<notin> fresh t"
  using owned_disjoint(1) owned_range(2) by (auto simp: fresh_def not_le)

lemma retired_not_fresh: "owned t M \<Longrightarrow> r \<in> set (retired t) \<Longrightarrow> rp_id r \<notin> fresh t"
  using owned_disjoint(3) owned_range(2) by (auto simp: fresh_def not_le)

lemma owned_distinct: "owned t M \<Longrightarrow> count M i \<le> 1"
  using owned_once [of t M i] by simp

section \<open>Allocation\<close>

definition pageable :: "Tree \<Rightarrow> PageID \<Rightarrow> bool" where
  "pageable t i = (case arena t of None \<Rightarrow> True | Some a \<Rightarrow> pageBytesOk a i)"

lemma sint_small: "unat (w :: u64) < 2 ^ 63 \<Longrightarrow> sint w = int (unat w)"
proof -
  assume "unat w < 2 ^ 63"
  then have "int (unat w) < 2 ^ 63" by (metis of_nat_less_iff of_nat_numeral of_nat_power)
  moreover have "- (2 ^ 63) \<le> int (unat w)" by (rule order_trans [of _ 0]) simp_all
  ultimately have "sint (word_of_int (int (unat w)) :: u64) = int (unat w)"
    by (intro sint_word_of_int_64)
  then show ?thesis by simp
qed

lemma growCapacity_ge: "0 < n \<Longrightarrow> needed \<le> growCapacity needed n \<and> n \<le> growCapacity needed n"
proof (induction needed n rule: growCapacity.induct)
  case (1 needed n)
  then show ?case by (subst (1 2) growCapacity.simps) force
qed

lemma growMmapForPage_ok:
  assumes "room t (Suc n)"
  obtains ar where "growMmapForPage t (nextPage t) = Some (t\<lparr>arena := ar\<rparr>)"
    "base (t\<lparr>arena := ar\<rparr>) = base t"
    "case ar of None \<Rightarrow> True | Some a \<Rightarrow> \<not> ar_readOnly a \<and> (\<forall>c. os_grow a c) \<and>
       sint (nextPage t) < maxPages a + int metaPageCount"
proof (cases "arena t")
  case None
  then show thesis using that [of None] by (simp add: growMmapForPage_def base_def)
next
  case (Some a)
  let ?i = "sint (nextPage t)" and ?m = "max (maxPages a) minMmapPageCount"
  let ?c = "growCapacity (?i - int metaPageCount + 1) ?m"
  have a: "\<not> ar_readOnly a" "\<forall>c. os_grow a c" using assms Some by (simp_all add: room_def)
  show thesis
  proof (cases "?i < maxPages a + int metaPageCount")
    case True
    have "t = t\<lparr>arena := Some a\<rparr>" using Some by simp
    then show thesis using that [of "Some a"] True a Some
      by (simp add: growMmapForPage_def base_def)
  next
    case False
    have "?i - int metaPageCount + 1 \<le> ?c"
      using growCapacity_ge [of ?m "?i - int metaPageCount + 1"] by (simp add: minMmapPageCount_def)
    then have c: "?i < ?c + int metaPageCount" "maxPages a < ?c" using False by linarith+
    let ?a = "a\<lparr>maxPages := ?c,
      dirtyPages := (if nextPage t \<le> firstTreePageID then dirtyPages a else {})\<rparr>"
    have "growMmapForPage t (nextPage t) = Some (t\<lparr>arena := Some ?a\<rparr>)"
      using False Some a c by (simp add: growMmapForPage_def remapMmap_def)
    then show thesis using that [of "Some ?a"] a c Some by (simp add: base_def)
  qed
qed

lemma interval_Suc:
  fixes n :: PageID assumes "a \<le> n" "unat n + 1 < 2 ^ 63"
  shows "{a..<n + 1} = insert n {a..<n}" "n < n + 1"
proof -
  have n1: "unat (n + 1) = unat n + 1"
    using assms(2) by (simp add: unat_word_ariths)
  then show "n < n + 1" by (simp add: word_less_nat_alt)
  show "{a..<n + 1} = insert n {a..<n}"
    using assms(1) n1 by (auto simp: word_less_nat_alt word_le_nat_alt) (metis less_SucE word_unat_eq_iff)
qed

lemma owned_pageable:
  assumes own: "owned t M" and room: "room t n" and i: "i \<in># M \<or> i \<in> set (free t)"
  shows "pageable t i"
proof (cases "arena t")
  case (Some a)
  have range: "base t \<le> i" "i < nextPage t" using owned_range [OF own] i by blast+
  have "unat (nextPage t) < 2 ^ 63" "sint (nextPage t) \<le> maxPages a + int metaPageCount"
    using room Some by (simp_all add: room_def)
  moreover have "unat i < 2 ^ 63"
    using range(2) calculation(1) by (simp add: word_less_nat_alt)
  ultimately show ?thesis
    using range Some sint_small [of i] sint_small [of "nextPage t"]
    by (simp add: pageable_def pageBytesOk_def base_def word_less_alt word_le_def not_less)
qed (simp add: pageable_def)

lemma allocPage_ok:
  assumes own: "owned t M" and room: "room t (Suc n)"
  obtains i t' where "allocPage t = Some (i, t')" "owned t' (add_mset i M)" "room t' n"
    "ext {} t t'" "i \<in> fresh t" "i \<notin># M" "i \<noteq> 0" "pages t' = pages t" "retired t' = retired t"
    "pageable t' i"
proof (cases "free t = []")
  case False
  let ?i = "last (free t)"
  let ?t = "t\<lparr>free := butlast (free t), reusedPages := reusedPages t + 1\<rparr>"
  have in_free: "?i \<in> set (free t)" using False by simp
  have "mset (free t) = add_mset ?i (mset (butlast (free t)))"
    using False by (metis append_butlast_last_id mset.simps(1) mset_append mset.simps(2) union_mset_add_mset_right add_0_right)
  then have own': "owned ?t (add_mset ?i M)" using own by (simp add: owned_def base_def)
  have range: "base t \<le> ?i" "?i < nextPage t" "?i \<noteq> 0" using owned_range [OF own] in_free by blast+
  have "pageable ?t ?i"
    using owned_pageable [OF own room, of ?i] in_free by (simp add: pageable_def)
  moreover have "ext {} t ?t"
    by (auto simp: ext_def settings_def base_def dest: in_set_butlastD)
  moreover have "room ?t n" using room by (auto simp: room_def base_def split: option.splits)
  moreover have "?i \<notin># M" using in_free owned_disjoint(1) [OF own] by blast
  ultimately show thesis
    using that [of ?i ?t] own' range in_free False by (simp add: allocPage_def fresh_def)
next
  case True
  let ?i = "nextPage t"
  obtain ar where g: "growMmapForPage t ?i = Some (t\<lparr>arena := ar\<rparr>)" "base (t\<lparr>arena := ar\<rparr>) = base t"
    "case ar of None \<Rightarrow> True | Some a \<Rightarrow> \<not> ar_readOnly a \<and> (\<forall>c. os_grow a c) \<and>
       sint ?i < maxPages a + int metaPageCount"
    by (rule growMmapForPage_ok [OF room])
  let ?t = "t\<lparr>arena := ar, nextPage := ?i + 1\<rparr>"
  have b: "base t \<le> ?i" "unat ?i + Suc n < 2 ^ 63" using room by (simp_all add: room_def)
  then have iv: "{base t..<?i + 1} = insert ?i {base t..<?i}" "?i < ?i + 1"
    by (simp_all add: interval_Suc)
  have base: "base ?t = base t" using g(2) by (simp add: base_def)
  have un: "unat (?i + 1) = Suc (unat ?i)" using b(2) by (simp add: unat_word_ariths)
  have "owned ?t (add_mset ?i M)" using own base by (simp add: owned_def iv)
  moreover have "room ?t n"
    using base b iv(2) un g(3) sint_small [of ?i] sint_small [of "?i + 1"]
    by (auto simp: room_def split: option.splits)
  moreover have "ext {} t ?t" using base iv(2) True by (auto simp: ext_def settings_def)
  moreover have nz: "?i \<noteq> 0" using b(1)
    by (auto simp: base_def firstTreePageID_def metaPageCount_def split: option.splits)
  moreover have "pageable ?t ?i"
    using g(2,3) b(1) by (auto simp: pageable_def pageBytesOk_def base_def not_less split: option.splits)
  moreover have "?i \<notin># M" using owned_range(2) [OF own, of ?i] by auto
  ultimately show thesis
    using that [of ?i ?t] g(1) True by (simp add: allocPage_def Let_def fresh_def)
qed

text \<open>A page object for an allocated id; only the arena's dirty set may change.\<close>

lemma treeNewPage_ok:
  assumes "pageable t i"
  obtains ar where "treeNewPage t i f = Some (newPage i f, t\<lparr>arena := ar\<rparr>)"
    "\<And>M. owned (t\<lparr>arena := ar\<rparr>) M = owned t M" "\<And>n. room (t\<lparr>arena := ar\<rparr>) n = room t n"
    "\<And>t0 X. ext X t0 (t\<lparr>arena := ar\<rparr>) = ext X t0 t" "\<And>j. pageable (t\<lparr>arena := ar\<rparr>) j = pageable t j"
proof (cases "arena t")
  case None
  then have e: "t\<lparr>arena := None\<rparr> = t" by simp
  show thesis using that [of None] None unfolding e by (simp add: treeNewPage_def)
next
  case (Some a)
  have "base (t\<lparr>arena := Some (markDirtyPage a i)\<rparr>) = base t" using Some by (simp add: base_def)
  moreover have "maxPages (markDirtyPage a i) = maxPages a"
    "ar_readOnly (markDirtyPage a i) = ar_readOnly a" "os_grow (markDirtyPage a i) = os_grow a"
    by (simp_all add: markDirtyPage_def)
  moreover have "reset \<lparr>pid = i, data = replicate PageSize 0\<rparr> f = newPage i f"
    by (simp add: reset_newPage wf_page_def)
  ultimately show thesis
    using assms Some
    by (intro that [of "Some (markDirtyPage a i)"])
       (simp_all add: treeNewPage_def owned_def room_def ext_def settings_def pageable_def pageBytesOk_def)
qed

lemma copyPage_ok:
  assumes own: "owned t (add_mset i M)" and room: "room t (Suc n)"
    and p: "pages t i = Some p"
  obtains j t' where "copyPage t i = Some (j, t')" "owned t' (add_mset j M)" "room t' n"
    "ext {} t t'" "pages t' = (pages t)(j \<mapsto> p\<lparr>pid := j\<rparr>)" "j \<in> fresh t" "j \<noteq> 0"
    "j \<notin># add_mset i M"
proof -
  obtain j t1 where a: "allocPage t = Some (j, t1)" "owned t1 (add_mset j (add_mset i M))" "room t1 n"
    "ext {} t t1" "j \<in> fresh t" "j \<notin># add_mset i M" "j \<noteq> 0" "pages t1 = pages t" "pageable t1 j"
    by (rule allocPage_ok [OF own room]) (rule that)
  obtain ar where b: "treeNewPage t1 j (flags p) = Some (newPage j (flags p), t1\<lparr>arena := ar\<rparr>)"
    "\<And>M. owned (t1\<lparr>arena := ar\<rparr>) M = owned t1 M" "\<And>n. room (t1\<lparr>arena := ar\<rparr>) n = room t1 n"
    "\<And>t0 X. ext X t0 (t1\<lparr>arena := ar\<rparr>) = ext X t0 t1"
    by (rule treeNewPage_ok [OF a(9), of "flags p"]) (rule that)
  let ?q = "(newPage j (flags p))\<lparr>data := data p\<rparr>"
  let ?t3 = "putPage (t1\<lparr>arena := ar\<rparr>) ?q"
  have q: "?q = p\<lparr>pid := j\<rparr>" by (rule page.equality) simp_all
  have "ext {j} (t1\<lparr>arena := ar\<rparr>) ?t3" by (rule ext_putPage) simp
  with a(4,5) b(4) have "ext {} t ?t3" by (intro ext_trans [OF _ \<open>ext {j} _ ?t3\<close>]) simp_all
  then have "ext {} t (retirePage ?t3 i)"
    by (rule ext_trans [OF _ ext_retirePage [of "{}"]]) simp
  moreover have "owned (retirePage ?t3 i) (add_mset j M)"
    using a(2) b(2) by (simp add: owned_retirePage add_mset_commute)
  moreover have "copyPage t i = Some (j, retirePage ?t3 i)"
    using a(1,8) b(1) p by (simp add: copyPage_def Let_def)
  ultimately show thesis using that [of j "retirePage ?t3 i"] a b(3) q by simp
qed

end
