(* ===== verification/OverflowChain.thy ===== *)
theory OverflowChain
  imports Ownership
begin

text \<open>
  Values too large for a leaf cell (\<^verbatim>\<open>pagebtree/overflow.go\<close>): a chain of overflow pages and
  the reference stored in the cell.  \<open>chain pgs is v\<close> says that the pages \<open>is\<close> carry the value
  \<open>v\<close>; the writer builds such a chain from fresh pages, the reader returns its value, and
  retiring walks exactly its pages.

  \<^verbatim>\<open>readOverflowChain\<close> and \<^verbatim>\<open>retireOverflowValue\<close> follow page links, so on arbitrary pages they
  may not end; they are partial functions whose \<open>None\<close> covers that and a nil page.
\<close>

section \<open>Operations\<close>

definition shouldStoreOverflow :: "key \<Rightarrow> bytes \<Rightarrow> bool" where
  "shouldStoreOverflow k v \<longleftrightarrow> PageSize div 2 < length k + length v + slotSize"

fun allocPages :: "nat \<Rightarrow> Tree \<Rightarrow> (PageID list \<times> Tree) option" where
  "allocPages 0 t = Some ([], t)"
| "allocPages (Suc n) t = do {
     (i, t1) \<leftarrow> allocPage t;
     (is, t2) \<leftarrow> allocPages n t1;
     Some (i # is, t2)
   }"

text \<open>The loop over the ids: page \<open>i\<close> takes the next chunk and links to the id after it.\<close>

fun writeOverflowPages :: "Tree \<Rightarrow> PageID list \<Rightarrow> bytes \<Rightarrow> Tree option" where
  "writeOverflowPages t [] v = Some t"
| "writeOverflowPages t (i # is) v = do {
     (p, t1) \<leftarrow> treeNewPage t i flagOverflow;
     p' \<leftarrow> writeOverflowPage p (if is = [] then 0 else hd is) (take overflowPayloadSize v);
     writeOverflowPages (putPage t1 p') is (drop overflowPayloadSize v)
   }"

definition writeOverflowChain :: "Tree \<Rightarrow> bytes \<Rightarrow> (PageID \<times> Tree) option" where
  "writeOverflowChain t v = do {
     (is, t1) \<leftarrow> allocPages ((length v + overflowPayloadSize - 1) div overflowPayloadSize) t;
     t2 \<leftarrow> writeOverflowPages t1 is v;
     check (is \<noteq> []);
     Some (hd is, t2)
   }"

definition overflowCellValue :: "Tree \<Rightarrow> bytes \<Rightarrow> (bytes \<times> Tree) option" where
  "overflowCellValue t v = do {
     (first, t1) \<leftarrow> writeOverflowChain t v;
     Some (encodeOverflowRef \<lparr>or_first = first, or_length = int (length v)\<rparr>, t1)
   }"

definition leafCellValue :: "Tree \<Rightarrow> key \<Rightarrow> bytes \<Rightarrow> (bytes \<times> u16 \<times> Tree) option" where
  "leafCellValue t k v =
     (if \<not> shouldStoreOverflow k v then Some (v, 0, t)
      else do {
        (raw, t1) \<leftarrow> overflowCellValue t v;
        Some (raw, slotFlagOverflow, t1)
      })"

partial_function (option) readOverflowLoop ::
  "(PageID \<Rightarrow> page option) \<Rightarrow> PageID \<Rightarrow> bytes \<Rightarrow> bytes option" where
  "readOverflowLoop pgs i out =
     (if i = 0 then Some out
      else do {
        p \<leftarrow> pgs i;
        chunk \<leftarrow> overflowPayload p;
        readOverflowLoop pgs (overflowNext p) (out @ chunk)
      })"

text \<open>\<^verbatim>\<open>make([]byte, 0, ref.length)\<close> panics on a negative length; a too long chain is cut.\<close>

definition readOverflowChain :: "(PageID \<Rightarrow> page option) \<Rightarrow> overflowRef \<Rightarrow> bytes option" where
  "readOverflowChain pgs r = do {
     check (0 \<le> or_length r);
     out \<leftarrow> readOverflowLoop pgs (or_first r) [];
     Some (if or_length r < int (length out) then take (nat (or_length r)) out else out)
   }"

definition resolveLeafValue :: "(PageID \<Rightarrow> page option) \<Rightarrow> bytes \<Rightarrow> u16 \<Rightarrow> bytes option" where
  "resolveLeafValue pgs raw f =
     (case decodeOverflowRef raw f of None \<Rightarrow> Some raw | Some r \<Rightarrow> readOverflowChain pgs r)"

partial_function (option) retireOverflowLoop :: "Tree \<Rightarrow> PageID \<Rightarrow> Tree option" where
  "retireOverflowLoop t i =
     (if i = 0 then Some t
      else do {
        p \<leftarrow> pages t i;
        retireOverflowLoop (retirePage t i) (overflowNext p)
      })"

definition retireOverflowValue :: "Tree \<Rightarrow> bytes \<Rightarrow> u16 \<Rightarrow> Tree option" where
  "retireOverflowValue t raw f =
     (case decodeOverflowRef raw f of None \<Rightarrow> Some t | Some r \<Rightarrow> retireOverflowLoop t (or_first r))"

section \<open>Chains\<close>

fun chain :: "(PageID \<Rightarrow> page option) \<Rightarrow> PageID list \<Rightarrow> bytes \<Rightarrow> bool" where
  "chain pgs [] v \<longleftrightarrow> v = []"
| "chain pgs (i # is) v \<longleftrightarrow>
     i \<noteq> 0 \<and> (\<exists>p. pgs i = Some p \<and> pid p = i \<and>
       overflow_page p (if is = [] then 0 else hd is) (take overflowPayloadSize v)) \<and>
     chain pgs is (drop overflowPayloadSize v)"

lemma chain_frame: "chain pgs is v \<Longrightarrow> (\<And>i. i \<in> set is \<Longrightarrow> pgs' i = pgs i) \<Longrightarrow> chain pgs' is v"
  by (induction "is" arbitrary: v) auto

lemma readOverflowLoop_chain:
  "chain pgs is v \<Longrightarrow> readOverflowLoop pgs (if is = [] then 0 else hd is) out = Some (out @ v)"
proof (induction "is" arbitrary: v out)
  case Nil
  then show ?case by (subst readOverflowLoop.simps) simp
next
  case (Cons i "is")
  then obtain p where p: "i \<noteq> 0" "pgs i = Some p"
    "overflow_page p (if is = [] then 0 else hd is) (take overflowPayloadSize v)"
    "chain pgs is (drop overflowPayloadSize v)"
    by auto
  from Cons.IH [OF p(4), of "out @ take overflowPayloadSize v"] show ?case
    using p(1,2) overflow_page_reads(1,2) [OF p(3)]
    by (subst readOverflowLoop.simps) simp
qed

lemma readOverflowChain_chain:
  assumes "chain pgs is v" "is \<noteq> []"
  shows "readOverflowChain pgs \<lparr>or_first = hd is, or_length = int (length v)\<rparr> = Some v"
  using readOverflowLoop_chain [OF assms(1), of "[]"] assms(2) by (simp add: readOverflowChain_def)

definition retireAll :: "Tree \<Rightarrow> PageID list \<Rightarrow> Tree" where
  "retireAll t is = foldl retirePage t is"

lemma retireAll_simps [simp]: "retireAll t [] = t" "retireAll t (i # is) = retireAll (retirePage t i) is"
  by (simp_all add: retireAll_def)

lemma retireAll_fields [simp]:
  "pages (retireAll t is) = pages t" "room (retireAll t is) n = room t n"
  "fresh (retireAll t is) = fresh t" "compareKeys (retireAll t is) = compareKeys t"
  "degree (retireAll t is) = degree t"
  by (induction "is" arbitrary: t) simp_all

lemma owned_retireAll: "owned (retireAll t is) M \<longleftrightarrow> owned t (mset is + M)"
  by (induction "is" arbitrary: t) (simp_all add: owned_retirePage)

lemma ext_retireAll: "ext {} t (retireAll t is)"
proof (induction "is" arbitrary: t)
  case (Cons i "is")
  show ?case using ext_trans [OF ext_retirePage [of "{}"] Cons.IH] by simp
qed simp

lemma retireOverflowLoop_chain:
  "chain (pages t) is v \<Longrightarrow>
     retireOverflowLoop t (if is = [] then 0 else hd is) = Some (retireAll t is)"
proof (induction "is" arbitrary: v t)
  case Nil
  then show ?case by (subst retireOverflowLoop.simps) simp
next
  case (Cons i "is")
  then obtain p where p: "i \<noteq> 0" "pages t i = Some p"
    "overflow_page p (if is = [] then 0 else hd is) (take overflowPayloadSize v)"
    "chain (pages t) is (drop overflowPayloadSize v)"
    by auto
  from Cons.IH [of "retirePage t i"] p(4)
  show ?case
    using p(1,2) overflow_page_reads(2) [OF p(3)]
    by (subst retireOverflowLoop.simps) simp
qed

section \<open>Writing a chain\<close>

definition chainPages :: "nat \<Rightarrow> nat" where
  "chainPages n = (n + overflowPayloadSize - 1) div overflowPayloadSize"

lemma allocPages_ok:
  assumes "owned t M" "room t (k + n)"
  obtains "is" t' where "allocPages k t = Some (is, t')" "owned t' (mset is + M)" "room t' n"
    "ext {} t t'" "set is \<subseteq> fresh t" "length is = k" "0 \<notin> set is" "pages t' = pages t"
    "distinct is"
proof -
  have "\<exists>is t'. allocPages k t = Some (is, t') \<and> owned t' (mset is + M) \<and> room t' n \<and>
      ext {} t t' \<and> set is \<subseteq> fresh t \<and> length is = k \<and> 0 \<notin> set is \<and> pages t' = pages t \<and>
      distinct is"
    using assms
  proof (induction k arbitrary: t M)
    case 0
    then show ?case by simp
  next
    case (Suc k)
    obtain i t1 where i: "allocPage t = Some (i, t1)" "owned t1 (add_mset i M)" "room t1 (k + n)"
      "ext {} t t1" "i \<in> fresh t" "i \<noteq> 0" "pages t1 = pages t"
      using allocPage_ok [of t M "k + n"] Suc.prems by (metis add_Suc)
    obtain "is" t2 where r: "allocPages k t1 = Some (is, t2)" "owned t2 (mset is + add_mset i M)"
      "room t2 n" "ext {} t1 t2" "set is \<subseteq> fresh t1" "length is = k" "0 \<notin> set is"
      "pages t2 = pages t1" "distinct is"
      using Suc.IH [OF i(2,3)] by blast
    have "i \<notin> set is"
      using r(5) owned_not_fresh [OF i(2), of i] by auto
    moreover have "ext {} t t2" by (rule ext_trans [OF i(4) r(4)]) simp
    ultimately show ?case
      using i r extD(5) [OF i(4)] by (intro exI [of _ "i # is"] exI [of _ t2]) auto
  qed
  then show thesis using that by blast
qed

lemma writeOverflowPages_ok:
  assumes "owned t (mset is + M)" "room t n" "distinct is" "0 \<notin> set is"
    "length v \<le> length is * overflowPayloadSize"
  obtains t' where "writeOverflowPages t is v = Some t'" "owned t' (mset is + M)" "room t' n"
    "ext (set is) t t'" "chain (pages t') is v"
proof -
  have "\<exists>t'. writeOverflowPages t is v = Some t' \<and> owned t' (mset is + M) \<and> room t' n \<and>
      ext (set is) t t' \<and> chain (pages t') is v"
    using assms
  proof (induction "is" arbitrary: t v M)
    case Nil
    then show ?case by simp
  next
    case (Cons i "is")
    let ?next = "if is = [] then 0 else hd is"
    have "pageable t i" using owned_pageable [OF Cons.prems(1,2)] by simp
    then obtain ar where np: "treeNewPage t i flagOverflow = Some (newPage i flagOverflow, t\<lparr>arena := ar\<rparr>)"
      "\<And>M. owned (t\<lparr>arena := ar\<rparr>) M = owned t M" "\<And>n. room (t\<lparr>arena := ar\<rparr>) n = room t n"
      "\<And>t0 X. ext X t0 (t\<lparr>arena := ar\<rparr>) = ext X t0 t"
      by (rule treeNewPage_ok [where f = flagOverflow]) (rule that)
    obtain p where p: "writeOverflowPage (newPage i flagOverflow) ?next (take overflowPayloadSize v) = Some p"
      "overflow_page p ?next (take overflowPayloadSize v)" "pid p = i"
      by (rule writeOverflowPage_ok [of "newPage i flagOverflow" "take overflowPayloadSize v" ?next])
        (simp_all add: that)
    let ?t1 = "putPage (t\<lparr>arena := ar\<rparr>) p"
    have t1: "owned ?t1 (mset is + add_mset i M)" "room ?t1 n" using Cons.prems(1,2) np by simp_all
    have "length (drop overflowPayloadSize v) \<le> length is * overflowPayloadSize"
      using Cons.prems(5) by simp
    then obtain t' where t': "writeOverflowPages ?t1 is (drop overflowPayloadSize v) = Some t'"
      "owned t' (mset is + add_mset i M)" "room t' n" "ext (set is) ?t1 t'"
      "chain (pages t') is (drop overflowPayloadSize v)"
      using Cons.IH [OF t1 _ _ \<open>length (drop _ v) \<le> _\<close>] Cons.prems(3,4) by auto
    have "ext {i} t (t\<lparr>arena := ar\<rparr>)" unfolding np(4) by simp
    then have "ext {i} t ?t1"
      by (rule ext_trans [OF _ ext_putPage [of p "{i}"]]) (simp_all add: p(3))
    then have "ext (set (i # is)) t ?t1" by (rule ext_mono) simp
    then have e: "ext (set (i # is)) t t'" using t'(4) by (rule ext_trans) auto
    have "i \<notin> fresh ?t1" using owned_not_fresh [OF t1(1), of i] by simp
    then have "pages t' i = Some p" using extD(4) [OF t'(4), of i] Cons.prems(3) p(3) by simp
    then show ?case
      using np(1) p t' e Cons.prems(4) by (intro exI [of _ t']) auto
  qed
  then show thesis using that by blast
qed

lemma length_chainPages: "n \<le> chainPages n * overflowPayloadSize"
  "0 < n \<Longrightarrow> 0 < chainPages n"
  by (auto simp: chainPages_def page_consts)

lemma writeOverflowChain_ok:
  assumes own: "owned t M" and room: "room t (chainPages (length v) + n)" and v: "v \<noteq> []"
  obtains "is" t' where "writeOverflowChain t v = Some (hd is, t')" "is \<noteq> []"
    "chain (pages t') is v" "owned t' (mset is + M)" "room t' n" "ext {} t t'"
proof -
  obtain "is" t1 where a: "allocPages (chainPages (length v)) t = Some (is, t1)"
    "owned t1 (mset is + M)" "room t1 n" "ext {} t t1" "set is \<subseteq> fresh t"
    "length is = chainPages (length v)" "0 \<notin> set is" "distinct is"
    by (rule allocPages_ok [OF own room]) (rule that)
  obtain t2 where b: "writeOverflowPages t1 is v = Some t2" "owned t2 (mset is + M)" "room t2 n"
    "ext (set is) t1 t2" "chain (pages t2) is v"
    by (rule writeOverflowPages_ok [OF a(2,3,8,7), of v])
      (use length_chainPages(1) [of "length v"] a(6) that in simp_all)
  have "is \<noteq> []" using a(6) v length_chainPages(2) [of "length v"] by auto
  moreover have "ext {} t t2" using a(4) b(4) by (rule ext_trans) (use a(5) in simp)
  ultimately show thesis
    using that [of "is" t2] a(1) b by (simp add: writeOverflowChain_def chainPages_def)
qed

text \<open>An empty value has no chain: the first id is read from an empty slice.\<close>

lemma writeOverflowChain_empty: "writeOverflowChain t [] = None"
  by (simp add: writeOverflowChain_def page_consts)

end
