(* ===== verification/SortedKeys.thy ===== *)
theory SortedKeys
  imports KeyOrder
begin

text \<open>
  The ordered-map contract the tree implements, as functions on lists of pairs sorted by a
  comparator: \<open>put_list\<close>, \<open>del_list\<close> and lookup by \<open>map_of\<close>.  The laws about appended lists
  are what lets an operation on one child stand for the operation on the whole tree.
\<close>

fun put_list :: "comparator \<Rightarrow> key \<Rightarrow> 'v \<Rightarrow> (key \<times> 'v) list \<Rightarrow> (key \<times> 'v) list" where
  "put_list cmp k v [] = [(k, v)]"
| "put_list cmp k v ((a, b) # ps) =
     (if cmp k a < 0 then (k, v) # (a, b) # ps
      else if cmp k a = 0 then (k, v) # ps
      else (a, b) # put_list cmp k v ps)"

definition del_list :: "key \<Rightarrow> (key \<times> 'v) list \<Rightarrow> (key \<times> 'v) list" where
  "del_list k ps = filter (\<lambda>p. fst p \<noteq> k) ps"

definition sorted_by :: "comparator \<Rightarrow> (key \<times> 'v) list \<Rightarrow> bool" where
  "sorted_by cmp ps \<longleftrightarrow> sorted_wrt (\<lambda>a b. cmp (fst a) (fst b) < 0) ps"

lemma sorted_by_map: "sorted_by cmp ps \<longleftrightarrow> sorted_wrt (\<lambda>a b. cmp a b < 0) (map fst ps)"
  by (simp add: sorted_by_def sorted_wrt_map)

lemma sorted_by_simps [simp]:
  "sorted_by cmp []" "sorted_by cmp (p # ps) \<longleftrightarrow> (\<forall>q\<in>set ps. cmp (fst p) (fst q) < 0) \<and> sorted_by cmp ps"
  by (simp_all add: sorted_by_def)

lemma sorted_by_append:
  "sorted_by cmp (ps @ qs) \<longleftrightarrow>
     sorted_by cmp ps \<and> sorted_by cmp qs \<and> (\<forall>p\<in>set ps. \<forall>q\<in>set qs. cmp (fst p) (fst q) < 0)"
  by (simp add: sorted_by_def sorted_wrt_append)

lemma del_list_simps [simp]:
  "del_list k [] = []" "del_list k (ps @ qs) = del_list k ps @ del_list k qs"
  by (simp_all add: del_list_def)

lemma map_of_del_list: "map_of (del_list k ps) = (map_of ps)(k := None)"
  by (rule ext) (induction ps, auto simp: del_list_def)

lemma del_list_notin: "k \<notin> fst ` set ps \<Longrightarrow> del_list k ps = ps"
  by (induction ps) (auto simp: del_list_def)

lemma sorted_by_del_list: "sorted_by cmp ps \<Longrightarrow> sorted_by cmp (del_list k ps)"
  by (simp add: sorted_by_def del_list_def sorted_wrt_filter)

lemma set_put_list: "set (put_list cmp k v ps) \<subseteq> insert (k, v) (set ps)"
  by (induction cmp k v ps rule: put_list.induct) auto

lemma put_list_nonempty [simp]: "put_list cmp k v ps \<noteq> []"
  by (cases "(cmp, k, v, ps)" rule: put_list.cases) auto

context key_comparator
begin

lemma sorted_distinct: "sorted_by cmp ps \<Longrightarrow> distinct (map fst ps)"
  by (simp add: sorted_by_map increasing_distinct)

lemma sorted_put_list: "sorted_by cmp ps \<Longrightarrow> sorted_by cmp (put_list cmp k v ps)"
proof (induction ps)
  case (Cons p ps)
  obtain a b where p: "p = (a, b)" by (cases p)
  have "set (put_list cmp k v ps) \<subseteq> insert (k, v) (set ps)" by (rule set_put_list)
  moreover have "cmp a k < 0" if "\<not> cmp k a < 0" "cmp k a \<noteq> 0"
    using that cmp_swap [of a k] by linarith
  ultimately show ?case
    using Cons p cmp_trans [of k a] by (auto simp: cmp_eq)
qed simp

lemma map_of_put_list: "sorted_by cmp ps \<Longrightarrow> map_of (put_list cmp k v ps) = (map_of ps)(k \<mapsto> v)"
proof (induction ps)
  case (Cons p ps)
  obtain a b where p: "p = (a, b)" by (cases p)
  show ?case using Cons p by (auto simp: cmp_eq fun_upd_twist)
qed (simp add: fun_eq_iff)

lemma length_put_list:
  "sorted_by cmp ps \<Longrightarrow>
     length (put_list cmp k v ps) = (if k \<in> fst ` set ps then length ps else Suc (length ps))"
proof (induction ps)
  case (Cons p ps)
  obtain a b where p: "p = (a, b)" by (cases p)
  have "k \<notin> fst ` set (p # ps)" if "cmp k a < 0"
  proof -
    have "cmp k (fst q) < 0" if "q \<in> set (p # ps)" for q
      using that Cons.prems p \<open>cmp k a < 0\<close> cmp_trans [of k a] by auto
    then show ?thesis by fastforce
  qed
  moreover have "k \<noteq> a" if "cmp k a \<noteq> 0" using that by (simp add: cmp_eq)
  ultimately show ?case using Cons p by (auto simp: cmp_eq)
qed simp

lemma length_del_list:
  "sorted_by cmp ps \<Longrightarrow> k \<in> fst ` set ps \<Longrightarrow> Suc (length (del_list k ps)) = length ps"
proof (induction ps)
  case (Cons p ps)
  then have "\<forall>q\<in>set ps. fst q \<noteq> fst p" by fastforce
  then show ?case using Cons by (auto simp: del_list_def filter_id_conv)
qed simp

lemma put_list_left:
  "(\<And>p. p \<in> set ps \<Longrightarrow> cmp (fst p) k < 0) \<Longrightarrow>
     put_list cmp k v (ps @ qs) = ps @ put_list cmp k v qs"
proof (induction ps)
  case (Cons p ps)
  obtain a b where p: "p = (a, b)" by (cases p)
  then have "cmp a k < 0" using Cons.prems [of p] by simp
  then have "\<not> cmp k a < 0" "cmp k a \<noteq> 0" using cmp_not_both cmp_eq by fastforce+
  then show ?case using Cons p by simp
qed simp

lemma put_list_right:
  "(\<And>q. q \<in> set qs \<Longrightarrow> cmp k (fst q) < 0) \<Longrightarrow>
     put_list cmp k v (ps @ qs) = put_list cmp k v ps @ qs"
proof (induction ps)
  case Nil
  show ?case
  proof (cases qs)
    case (Cons q qs')
    then show ?thesis using Nil [of q] by (cases q) simp
  qed simp
next
  case (Cons p ps)
  then show ?case by (cases p) simp
qed

lemma hd_put_list:
  "ps \<noteq> [] \<Longrightarrow> cmp (fst (hd ps)) k \<le> 0 \<Longrightarrow> fst (hd (put_list cmp k v ps)) = fst (hd ps)"
proof (cases ps)
  case (Cons p qs)
  moreover assume "cmp (fst (hd ps)) k \<le> 0"
  ultimately show ?thesis using cmp_swap [of k "fst p"] cmp_eq [of k "fst p"]
    by (cases p) auto
qed simp

text \<open>Replacing or inserting at the rank of a key, as the leaf does.\<close>

lemma put_list_rank:
  fixes ps :: "(key \<times> 'v) list"
  assumes "sorted_by cmp ps"
  shows "put_list cmp k v ps =
    (let r = rank (\<lambda>p. cmp (fst p) k) ps
     in if r < length ps \<and> fst (ps ! r) = k then ps[r := (k, v)] else insertAt ps r (k, v))"
  using assms
proof (induction ps)
  case Nil
  then show ?case by (simp add: rank_def insertAt_def)
next
  case (Cons p ps)
  obtain a b where p: "p = (a, b)" by (cases p)
  consider "cmp k a < 0" | "k = a" | "cmp a k < 0" using cmp_total [of k a] by blast
  then show ?case
  proof cases
    case 1
    then have "\<not> cmp a k < 0" "k \<noteq> a" using cmp_not_both cmp_eq [of k a] by auto
    then show ?thesis using 1 p by (simp add: rank_def insertAt_def)
  next
    case 2
    then show ?thesis using p by (simp add: rank_def)
  next
    case 3
    then have "\<not> cmp k a < 0" "cmp k a \<noteq> 0" "rank (\<lambda>p. cmp (fst p) k) (p # ps) = Suc (rank (\<lambda>p. cmp (fst p) k) ps)"
      using cmp_not_both cmp_eq [of k a] cmp_eq [of a k] p by (auto simp: rank_def)
    then show ?thesis using Cons p by (simp add: Let_def insertAt_def)
  qed
qed

lemma del_list_rank:
  assumes "sorted_by cmp ps" "rank (\<lambda>p. cmp (fst p) k) ps = r" "r < length ps" "fst (ps ! r) = k"
  shows "del_list k ps = removeAt ps r"
proof -
  have s: "ps = take r ps @ ps ! r # drop (Suc r) ps" using assms(3) by (rule split_at)
  then have "sorted_by cmp (take r ps @ ps ! r # drop (Suc r) ps)" using assms(1) by simp
  then have "k \<notin> fst ` set (take r ps)" "k \<notin> fst ` set (drop (Suc r) ps)"
    using assms(4) by (auto simp: sorted_by_append)
  then have "del_list k (take r ps) = take r ps" "del_list k (drop (Suc r) ps) = drop (Suc r) ps"
    by (simp_all add: del_list_notin)
  moreover have "del_list k (take r ps @ ps ! r # drop (Suc r) ps) =
      del_list k (take r ps) @ del_list k (drop (Suc r) ps)"
    using assms(4) by (simp add: del_list_def)
  ultimately show ?thesis using s by (simp add: removeAt_def)
qed

lemma rank_found:
  assumes "sorted_by cmp ps"
  shows "rank (\<lambda>p. cmp (fst p) k) ps < length ps \<and> fst (ps ! rank (\<lambda>p. cmp (fst p) k) ps) = k
    \<longleftrightarrow> k \<in> fst ` set ps"
proof
  assume "k \<in> fst ` set ps"
  then obtain i where i: "i < length ps" "fst (ps ! i) = k" by (auto simp: in_set_conv_nth)
  have "rank (\<lambda>p. cmp (fst p) k) ps = i"
  proof (rule rank_unique)
    fix j assume "j < i"
    then show "cmp (fst (ps ! j)) k < 0"
      using assms i by (auto simp: sorted_by_def sorted_wrt_iff_nth_less)
  qed (use i in simp_all)
  then show "rank (\<lambda>p. cmp (fst p) k) ps < length ps \<and> fst (ps ! rank (\<lambda>p. cmp (fst p) k) ps) = k"
    using i by simp
qed (metis image_eqI nth_mem)

end

end
