(* ===== verification/TreeRep.thy ===== *)
theory TreeRep
  imports OverflowChain SortedKeys
begin

text \<open>
  The abstraction of the page graph: a tree of leaf and branch nodes with their page ids and
  the overflow chains of their values.  \<open>rep pgs T\<close> says that the pages represent \<open>T\<close>;
  \<open>gentries T\<close> is the map the tree stores, in key order.
\<close>

section \<open>Trees of pages\<close>

text \<open>A leaf entry: key, value and the ids of its overflow chain, empty for an inline value.\<close>

type_synonym gentry = "key \<times> bytes \<times> PageID list"

datatype gtree = GLeaf PageID "gentry list" | GBranch PageID "gtree list"

fun gid :: "gtree \<Rightarrow> PageID" where
  "gid (GLeaf i es) = i"
| "gid (GBranch i ts) = i"

definition chainIDs :: "gentry list \<Rightarrow> PageID multiset" where
  "chainIDs es = mset (concat (map (\<lambda>(k, v, c). c) es))"

fun gids :: "gtree \<Rightarrow> PageID multiset" where
  "gids (GLeaf i es) = add_mset i (chainIDs es)"
| "gids (GBranch i ts) = add_mset i (sum_list (map gids ts))"

definition kv :: "gentry \<Rightarrow> key \<times> bytes" where
  "kv e = (fst e, fst (snd e))"

fun gentries :: "gtree \<Rightarrow> (key \<times> bytes) list" where
  "gentries (GLeaf i es) = map kv es"
| "gentries (GBranch i ts) = concat (map gentries ts)"

definition firstkey :: "gtree \<Rightarrow> key" where
  "firstkey T = fst (hd (gentries T))"

fun gheight :: "gtree \<Rightarrow> nat" where
  "gheight (GLeaf i es) = 0"
| "gheight (GBranch i ts) = Suc (case map gheight ts of [] \<Rightarrow> 0 | h # _ \<Rightarrow> h)"

fun balanced :: "gtree \<Rightarrow> bool" where
  "balanced (GLeaf i es) \<longleftrightarrow> True"
| "balanced (GBranch i ts) \<longleftrightarrow>
     (\<forall>t\<in>set ts. balanced t) \<and> (\<forall>t\<in>set ts. gheight t = gheight (hd ts))"

text \<open>
  Node sizes: at most \<open>2 d - 1\<close> keys, of at most \<open>K\<close> bytes, no empty node, and values whose
  length is a Go \<^verbatim>\<open>int\<close>.
\<close>

fun shape :: "nat \<Rightarrow> nat \<Rightarrow> gtree \<Rightarrow> bool" where
  "shape d K (GLeaf i es) \<longleftrightarrow>
     es \<noteq> [] \<and> length es \<le> maxKeys d \<and>
     (\<forall>e\<in>set es. length (fst e) \<le> K \<and> length (fst (snd e)) < 2 ^ 63)"
| "shape d K (GBranch i ts) \<longleftrightarrow>
     ts \<noteq> [] \<and> length ts \<le> Suc (maxKeys d) \<and> (\<forall>t\<in>set ts. shape d K t)"

text \<open>Minimum fill: every node but the root has at least \<open>d - 1\<close> keys.\<close>

fun filled :: "nat \<Rightarrow> gtree \<Rightarrow> bool" where
  "filled d (GLeaf i es) \<longleftrightarrow> minKeys d \<le> length es"
| "filled d (GBranch i ts) \<longleftrightarrow> Suc (minKeys d) \<le> length ts \<and> (\<forall>t\<in>set ts. filled d t)"

fun kidsfilled :: "nat \<Rightarrow> gtree \<Rightarrow> bool" where
  "kidsfilled d (GLeaf i es) \<longleftrightarrow> True"
| "kidsfilled d (GBranch i ts) \<longleftrightarrow> (\<forall>t\<in>set ts. filled d t)"

definition filledOf :: "nat \<Rightarrow> gtree option \<Rightarrow> bool" where
  "filledOf d To \<longleftrightarrow> (\<forall>T. To = Some T \<longrightarrow> kidsfilled d T)"

section \<open>Representation\<close>

definition gcell :: "gentry \<Rightarrow> cell" where
  "gcell e = (case e of (k, v, c) \<Rightarrow>
     if c = [] then (k, v, 0)
     else (k, encodeOverflowRef \<lparr>or_first = hd c, or_length = int (length v)\<rparr>, slotFlagOverflow))"

definition entry_ok :: "(PageID \<Rightarrow> page option) \<Rightarrow> gentry \<Rightarrow> bool" where
  "entry_ok pgs e = (case e of (k, v, c) \<Rightarrow> c \<noteq> [] \<longrightarrow> chain pgs c v \<and> length v < 2 ^ 63)"

definition leafPage :: "page \<Rightarrow> PageID \<Rightarrow> gentry list \<Rightarrow> bool" where
  "leafPage p i es \<longleftrightarrow> pid p = i \<and> i \<noteq> 0 \<and> holds p flagLeaf (map gcell es) \<and> validChecksum p"

definition branchPage :: "page \<Rightarrow> PageID \<Rightarrow> key list \<Rightarrow> PageID list \<Rightarrow> bool" where
  "branchPage p i keys cs \<longleftrightarrow> pid p = i \<and> i \<noteq> 0 \<and> cs \<noteq> [] \<and> length cs = Suc (length keys) \<and>
     holds p flagBranch (branchCells keys (tl cs)) \<and> leftmostChild p = hd cs \<and> validChecksum p"

fun rep :: "(PageID \<Rightarrow> page option) \<Rightarrow> gtree \<Rightarrow> bool" where
  "rep pgs (GLeaf i es) \<longleftrightarrow>
     (\<exists>p. pgs i = Some p \<and> leafPage p i es) \<and> (\<forall>e\<in>set es. entry_ok pgs e)"
| "rep pgs (GBranch i ts) \<longleftrightarrow>
     (\<exists>p. pgs i = Some p \<and> branchPage p i (map firstkey (tl ts)) (map gid ts)) \<and>
     (\<forall>t\<in>set ts. rep pgs t)"

lemma kv_simps [simp]: "kv (k, v, c) = (k, v)" "fst (kv e) = fst e"
  by (simp_all add: kv_def)

lemma gid_in_gids [simp]: "gid T \<in># gids T"
  by (cases T) simp_all

lemma gid_nonzero: "rep pgs T \<Longrightarrow> gid T \<noteq> 0"
  by (cases T) (auto simp: leafPage_def branchPage_def)

lemma in_gids_child: "T \<in> set ts \<Longrightarrow> i \<in># gids T \<Longrightarrow> i \<in># sum_list (map gids ts)"
  by (induction ts) auto

lemma chainIDs_simps [simp]:
  "chainIDs [] = {#}" "chainIDs ((k, v, c) # es) = mset c + chainIDs es"
  "chainIDs (es @ es') = chainIDs es + chainIDs es'"
  by (simp_all add: chainIDs_def)

lemma chainIDs_Cons: "chainIDs (e # es) = mset (snd (snd e)) + chainIDs es"
  by (cases e) simp

lemma in_chainIDs: "e \<in> set es \<Longrightarrow> i \<in> set (snd (snd e)) \<Longrightarrow> i \<in># chainIDs es"
  by (induction es) (auto simp: chainIDs_Cons)

text \<open>A representation depends only on the pages of its tree.\<close>

lemma entry_ok_frame:
  "entry_ok pgs e \<Longrightarrow> (\<And>i. i \<in> set (snd (snd e)) \<Longrightarrow> pgs' i = pgs i) \<Longrightarrow> entry_ok pgs' e"
  by (auto simp: entry_ok_def intro: chain_frame split: prod.splits)

lemma rep_frame:
  "rep pgs T \<Longrightarrow> (\<And>i. i \<in># gids T \<Longrightarrow> pgs' i = pgs i) \<Longrightarrow> rep pgs' T"
proof (induction T)
  case (GLeaf i es)
  have "entry_ok pgs' e" if "e \<in> set es" for e
  proof (rule entry_ok_frame [of pgs e])
    show "entry_ok pgs e" using GLeaf(1) that by simp
    show "pgs' j = pgs j" if "j \<in> set (snd (snd e))" for j
      using GLeaf(2) in_chainIDs [OF \<open>e \<in> set es\<close> that] by simp
  qed
  then show ?case using GLeaf by auto
next
  case (GBranch i ts)
  have "rep pgs' T" if "T \<in> set ts" for T
    using GBranch.prems that in_gids_child [OF that] by (intro GBranch.IH [OF that]) auto
  then show ?case using GBranch.prems by auto
qed

section \<open>Reading a node\<close>

lemma holds_pid [simp]:
  "holds (p\<lparr>pid := i\<rparr>) f es = holds p f es" "leftmostChild (p\<lparr>pid := i\<rparr>) = leftmostChild p"
  "validChecksum (p\<lparr>pid := i\<rparr>) = validChecksum p" "isLeaf (p\<lparr>pid := i\<rparr>) = isLeaf p"
  "isBranch (p\<lparr>pid := i\<rparr>) = isBranch p" "slotCount (p\<lparr>pid := i\<rparr>) = slotCount p"
  "nextLeaf (p\<lparr>pid := i\<rparr>) = nextLeaf p"
  by (simp_all add: holds_def wf_page_def flags_def slotCount_def freeUpper_def cell_at_def
      readSlot_def leftmostChild_def validChecksum_def checksum_def computeChecksum_def
      isLeaf_def isBranch_def nextLeaf_def)

lemma leafPage_pid [simp]: "leafPage p i es \<Longrightarrow> j \<noteq> 0 \<Longrightarrow> leafPage (p\<lparr>pid := j\<rparr>) j es"
  by (simp add: leafPage_def)

lemma branchPage_pid [simp]:
  "branchPage p i keys cs \<Longrightarrow> j \<noteq> 0 \<Longrightarrow> branchPage (p\<lparr>pid := j\<rparr>) j keys cs"
  by (simp add: branchPage_def)

lemma leafPage_kind:
  assumes "leafPage p i es"
  shows "isLeaf p" "\<not> isBranch p" "pid p = i" "unat (slotCount p) = length es" "wf_page p" "i \<noteq> 0"
proof -
  have "holds p flagLeaf (map gcell es)" "pid p = i" "i \<noteq> 0"
    using assms by (auto simp: leafPage_def)
  then show "isLeaf p" "\<not> isBranch p" "pid p = i" "unat (slotCount p) = length es" "wf_page p" "i \<noteq> 0"
    using holdsD(1,3) [of p flagLeaf "map gcell es"] by simp_all
qed

lemma branchPage_kind:
  assumes "branchPage p i keys cs"
  shows "isBranch p" "\<not> isLeaf p" "pid p = i" "unat (slotCount p) = length keys" "wf_page p" "i \<noteq> 0"
proof -
  have h: "holds p flagBranch (branchCells keys (tl cs))" "pid p = i" "i \<noteq> 0"
    and "length cs = Suc (length keys)"
    using assms by (auto simp: branchPage_def)
  then have "length (branchCells keys (tl cs)) = length keys" by (simp add: branchCells_def)
  with h show "isBranch p" "\<not> isLeaf p" "pid p = i" "unat (slotCount p) = length keys" "wf_page p" "i \<noteq> 0"
    using holdsD(1,3) [OF h(1)] by simp_all
qed

text \<open>The entries read from a leaf: encoded cells.\<close>

definition rawEntry :: "gentry \<Rightarrow> leafEntry" where
  "rawEntry e = (case gcell e of (k, v, f) \<Rightarrow>
     \<lparr>le_key = k, le_value = v, le_encoded = True, le_slotFlags = f\<rparr>)"

lemma rawEntry_simps [simp]:
  "le_key (rawEntry e) = fst e" "le_encoded (rawEntry e)" "leCell (rawEntry e) = gcell e"
  by (auto simp: rawEntry_def gcell_def leCell_def split: prod.splits)

lemma fst_gcell [simp]: "fst (gcell e) = fst e"
  by (simp add: gcell_def split: prod.splits)

lemma leafEntries_leafPage: "leafPage p i es \<Longrightarrow> leafEntries p = Some (map rawEntry es)"
proof -
  assume "leafPage p i es"
  then have "leafEntries p = Some (map cellEntry (map gcell es))"
    using leafEntries_holds [of p flagLeaf "map gcell es"] by (simp add: leafPage_def)
  moreover have "cellEntry (gcell e) = rawEntry e" for e
    by (simp add: rawEntry_def cellEntry_def split: prod.split)
  ultimately show ?thesis by simp
qed

lemma branchParts_branchPage: "branchPage p i keys cs \<Longrightarrow> branchParts p = Some (keys, cs)"
  using branchParts_holds [of p flagBranch keys "tl cs"]
  by (cases cs) (simp_all add: branchPage_def)

lemma childIDs_branchPage: "branchPage p i keys cs \<Longrightarrow> childIDs p = Some cs"
  using branchParts_branchPage [of p i keys cs] branchPage_kind(1) [of p i keys cs]
  by (simp add: childIDs_def)

text \<open>A cell resolves to the value of its entry.\<close>

lemma resolve_gcell:
  assumes "entry_ok pgs (k, v, c)" "gcell (k, v, c) = (k', raw, f)"
  shows "resolveLeafValue pgs raw f = Some v"
proof (cases "c = []")
  case True
  then show ?thesis using assms(2) by (simp add: gcell_def resolveLeafValue_def)
next
  case False
  then have "chain pgs c v" "length v < 2 ^ 63" using assms(1) by (simp_all add: entry_ok_def)
  moreover have "int (length v) < 2 ^ 63" using calculation(2) by simp
  moreover have "and slotFlagOverflow slotFlagOverflow \<noteq> 0" by (simp add: slotFlagOverflow_def)
  ultimately show ?thesis
    using False assms(2) readOverflowChain_chain [of pgs c v]
    by (auto simp: gcell_def resolveLeafValue_def decode_encode_overflowRef)
qed

section \<open>Ordered trees\<close>

definition ordered :: "comparator \<Rightarrow> gtree \<Rightarrow> bool" where
  "ordered cmp T \<longleftrightarrow> sorted_by cmp (gentries T)"

lemma gentries_nonempty [simp]: "shape d K T \<Longrightarrow> gentries T \<noteq> []"
  by (induction T) (auto simp: neq_Nil_conv)

lemma gentries_split:
  "i < length ts \<Longrightarrow> concat (map gentries ts) =
     concat (map gentries (take i ts)) @ gentries (ts ! i) @ concat (map gentries (drop (Suc i) ts))"
  by (subst (1) split_at [of i ts]) simp_all

lemma sorted_child:
  "sorted_by cmp (concat (map gentries ts)) \<Longrightarrow> T \<in> set ts \<Longrightarrow> sorted_by cmp (gentries T)"
  by (induction ts) (auto simp: sorted_by_append)

lemma sorted_between:
  "sorted_by cmp (concat (map gentries ts)) \<Longrightarrow> m < n \<Longrightarrow> n < length ts \<Longrightarrow>
     x \<in> set (gentries (ts ! m)) \<Longrightarrow> y \<in> set (gentries (ts ! n)) \<Longrightarrow> cmp (fst x) (fst y) < 0"
proof (induction ts arbitrary: m n)
  case (Cons T ts)
  then obtain n' where n': "n = Suc n'" by (cases n) auto
  show ?case
  proof (cases m)
    case 0
    moreover have "ts ! n' \<in> set ts" using Cons.prems n' by simp
    ultimately show ?thesis
      using Cons.prems n' by (simp add: sorted_by_append) (metis nth_mem)
  next
    case (Suc m')
    then show ?thesis using Cons.prems Cons.IH [of m' n'] n' by (simp add: sorted_by_append)
  qed
qed simp

lemma hd_entry: "gentries T \<noteq> [] \<Longrightarrow> hd (gentries T) \<in> set (gentries T) \<and> fst (hd (gentries T)) = firstkey T"
  by (simp add: firstkey_def)

context key_comparator
begin

lemma firstkey_least:
  "sorted_by cmp (gentries T) \<Longrightarrow> x \<in> set (gentries T) \<Longrightarrow> cmp (firstkey T) (fst x) \<le> 0"
  by (cases "gentries T") (auto simp: firstkey_def)

lemma increasing_firstkeys:
  assumes "sorted_by cmp (concat (map gentries ts))" "\<forall>T\<in>set ts. gentries T \<noteq> []"
  shows "increasing (map firstkey ts)"
  unfolding sorted_wrt_iff_nth_less
proof (intro allI impI)
  fix i j assume "i < j" "j < length (map firstkey ts)"
  then show "cmp (map firstkey ts ! i) (map firstkey ts ! j) < 0"
    using sorted_between [OF assms(1), of i j "hd (gentries (ts ! i))" "hd (gentries (ts ! j))"]
      assms(2) by (simp add: firstkey_def)
qed

lemma increasing_separators:
  assumes "sorted_by cmp (concat (map gentries ts))" "\<forall>T\<in>set ts. gentries T \<noteq> []"
  shows "increasing (map firstkey (tl ts))"
  using increasing_firstkeys [OF assms] by (cases ts) simp_all

text \<open>The child a key is routed to is the only one that may hold it.\<close>

lemma route:
  fixes k :: key
  assumes srt: "sorted_by cmp (concat (map gentries ts))" and ne: "\<forall>T\<in>set ts. gentries T \<noteq> []"
    and ts: "ts \<noteq> []"
  defines "i \<equiv> childIndex (map firstkey (tl ts)) k cmp"
  shows "i < length ts"
    and "x \<in> set (concat (map gentries (take i ts))) \<Longrightarrow> cmp (fst x) k < 0"
    and "x \<in> set (concat (map gentries (drop (Suc i) ts))) \<Longrightarrow> cmp k (fst x) < 0"
    and "0 < i \<Longrightarrow> cmp (firstkey (ts ! i)) k \<le> 0"
proof -
  let ?seps = "map firstkey (tl ts)"
  have inc: "increasing ?seps" using srt ne by (rule increasing_separators)
  note ci = childIndex_cases [OF inc, where k = k, folded i_def]
  have sep: "?seps ! m = firstkey (ts ! Suc m)" if "Suc m < length ts" for m
    using that by (simp add: nth_tl)
  show i: "i < length ts" using ci(1) ts by (cases ts) auto
  show "cmp (firstkey (ts ! i)) k \<le> 0" if "0 < i"
    using ci(2) [of "i - 1"] sep [of "i - 1"] that i by simp
  show "cmp (fst x) k < 0" if x: "x \<in> set (concat (map gentries (take i ts)))"
  proof -
    obtain T where "T \<in> set (take i ts)" "x \<in> set (gentries T)" using x by auto
    then obtain m where m: "m < i" "x \<in> set (gentries (ts ! m))"
      using i by (metis in_set_conv_nth length_take min.strict_boundedE nth_take)
    have "gentries (ts ! i) \<noteq> []" using ne i by simp
    then have "cmp (fst x) (firstkey (ts ! i)) < 0"
      using sorted_between [OF srt m(1) i m(2), of "hd (gentries (ts ! i))"] by (simp add: firstkey_def)
    moreover have "cmp (firstkey (ts ! i)) k \<le> 0"
      using ci(2) [of "i - 1"] sep [of "i - 1"] m(1) i by simp
    ultimately show ?thesis by (rule cmp_less_le_trans)
  qed
  show "cmp k (fst x) < 0" if x: "x \<in> set (concat (map gentries (drop (Suc i) ts)))"
  proof -
    obtain T where "T \<in> set (drop (Suc i) ts)" "x \<in> set (gentries T)" using x by auto
    then obtain m where "m < length (drop (Suc i) ts)" "x \<in> set (gentries (drop (Suc i) ts ! m))"
      by (metis in_set_conv_nth)
    then have m: "Suc (i + m) < length ts" "x \<in> set (gentries (ts ! Suc (i + m)))" by auto
    have "ts ! Suc (i + m) \<in> set ts" using m(1) by simp
    then have "cmp (firstkey (ts ! Suc (i + m))) (fst x) \<le> 0"
      using firstkey_least [OF sorted_child [OF srt]] m(2) by blast
    moreover have "cmp k (firstkey (ts ! Suc (i + m))) < 0"
      using ci(3) [of "i + m"] sep [OF m(1)] m(1) by simp
    ultimately show ?thesis by (metis cmp_less_le_trans)
  qed
qed

text \<open>Lookup and update of the routed child are lookup and update of the tree.\<close>

lemma map_of_route:
  assumes "sorted_by cmp (concat (map gentries ts))" "\<forall>T\<in>set ts. gentries T \<noteq> []" "ts \<noteq> []"
  shows "map_of (concat (map gentries ts)) k =
    map_of (gentries (ts ! childIndex (map firstkey (tl ts)) k cmp)) k"
proof -
  let ?i = "childIndex (map firstkey (tl ts)) k cmp"
  note r = route [OF assms, where k = k]
  have "map_of (concat (map gentries (take ?i ts))) k = None"
    "map_of (concat (map gentries (drop (Suc ?i) ts))) k = None"
    using r(2,3) by (fastforce simp: map_of_eq_None_iff)+
  then show ?thesis
    unfolding gentries_split [OF r(1)] by (simp add: map_add_def split: option.split)
qed

lemma put_route:
  fixes k :: key
  assumes "sorted_by cmp (concat (map gentries ts))" "\<forall>T\<in>set ts. gentries T \<noteq> []" "ts \<noteq> []"
  defines "i \<equiv> childIndex (map firstkey (tl ts)) k cmp"
  shows "put_list cmp k v (concat (map gentries ts)) =
    concat (map gentries (take i ts)) @ put_list cmp k v (gentries (ts ! i)) @
      concat (map gentries (drop (Suc i) ts))"
proof -
  note r = route [OF assms(1-3), where k = k, folded i_def]
  show ?thesis
    unfolding gentries_split [OF r(1)] by (subst put_list_left [OF r(2)], assumption,
      subst put_list_right [OF r(3)], simp_all)
qed

lemma del_route:
  fixes k :: key
  assumes "sorted_by cmp (concat (map gentries ts))" "\<forall>T\<in>set ts. gentries T \<noteq> []" "ts \<noteq> []"
  defines "i \<equiv> childIndex (map firstkey (tl ts)) k cmp"
  shows "del_list k (concat (map gentries ts)) =
    concat (map gentries (take i ts)) @ del_list k (gentries (ts ! i)) @
      concat (map gentries (drop (Suc i) ts))"
proof -
  note r = route [OF assms(1-3), where k = k, folded i_def]
  have "k \<notin> fst ` set (concat (map gentries (take i ts)))"
    "k \<notin> fst ` set (concat (map gentries (drop (Suc i) ts)))"
    using r(2,3) by fastforce+
  then show ?thesis using r(1) by (simp add: gentries_split del_list_notin)
qed

end

end
