(* ===== verification/Search.thy ===== *)
theory Search
  imports TreeRep
begin

text \<open>
  Point lookups and range scans over the page graph (\<^verbatim>\<open>pagebtree/search.go\<close>): the descent with
  and without the branch cache, the recursive range scans, the scans along the leaf links and
  their prefetch hints.

  A visitor callback is a state transformer \<open>'s \<Rightarrow> key \<Rightarrow> bytes \<Rightarrow> 's \<times> bool\<close>; a prefetch
  callback is \<open>'s \<Rightarrow> PageID \<Rightarrow> PageID \<Rightarrow> 's\<close>.  The scans and the descent follow page links, so
  they are partial functions: \<open>None\<close> is a panic or a call that does not return.
\<close>

type_synonym pagemap = "PageID \<Rightarrow> page option"
type_synonym 's visitor = "'s \<Rightarrow> key \<Rightarrow> bytes \<Rightarrow> 's \<times> bool"

section \<open>Lookup\<close>

text \<open>The leaf case: the inner option is the found flag.\<close>

definition searchLeaf :: "pagemap \<Rightarrow> page \<Rightarrow> key \<Rightarrow> comparator \<Rightarrow> bytes option option" where
  "searchLeaf pgs p k cmp = do {
     r \<leftarrow> searchLeafCellWithComparator p k cmp;
     (case r of
        None \<Rightarrow> Some None
      | Some (raw, f) \<Rightarrow> do { v \<leftarrow> resolveLeafValue pgs raw f; Some (Some v) })
   }"

partial_function (option) searchPage ::
  "pagemap \<Rightarrow> PageID \<Rightarrow> key \<Rightarrow> comparator \<Rightarrow> bytes option option" where
  "searchPage pgs i k cmp =
     (if i = 0 then Some None
      else do {
        p \<leftarrow> pgs i;
        (if isLeaf p then searchLeaf pgs p k cmp
         else do {
           c \<leftarrow> searchBranchChildWithComparator p k cmp;
           searchPage pgs c k cmp
         })
      })"

partial_function (option) searchPageWithCache ::
  "pagemap \<Rightarrow> PageID \<Rightarrow> key \<Rightarrow> comparator \<Rightarrow> pageCache \<Rightarrow> (bytes option \<times> pageCache) option" where
  "searchPageWithCache pgs i k cmp cache =
     (if i = 0 then Some (None, cache)
      else do {
        p \<leftarrow> pgs i;
        (if isLeaf p then do { r \<leftarrow> searchLeaf pgs p k cmp; Some (r, cache) }
         else do {
           (c, cache') \<leftarrow> cacheSearchBranchChild cache p k cmp;
           searchPageWithCache pgs c k cmp cache'
         })
      })"

section \<open>Recursive range scans\<close>

definition rangeLeafSlots ::
  "pagemap \<Rightarrow> page \<Rightarrow> nat \<Rightarrow> key \<Rightarrow> bool \<Rightarrow> comparator \<Rightarrow> 's visitor \<Rightarrow> 's \<Rightarrow> ('s \<times> bool) option" where
  "rangeLeafSlots pgs p startIndex bound hasEnd cmp visit s = do {
     (s', r) \<leftarrow> loopM (\<lambda>s i. do {
         stop \<leftarrow> (if hasEnd then map_option (\<lambda>c. 0 \<le> c) (compareCellKeyWithComparator p i bound cmp)
                 else Some False);
         (if stop then Some (s, Some True)
          else do {
            sl \<leftarrow> readSlot p i;
            k \<leftarrow> readCellKey p i;
            raw \<leftarrow> readCellValue p i;
            v \<leftarrow> resolveLeafValue pgs raw (slotFlags sl);
            let (s', ok) = visit s k v;
            Some (s', if ok then None else Some False)
          })
       }) s [startIndex..<unat (slotCount p)];
     Some (s', case r of None \<Rightarrow> True | Some b \<Rightarrow> b)
   }"

partial_function (option) rangePage ::
  "pagemap \<Rightarrow> PageID \<Rightarrow> comparator \<Rightarrow> 's visitor \<Rightarrow> 's \<Rightarrow> ('s \<times> bool) option" where
  "rangePage pgs i cmp visit s =
     (if i = 0 then Some (s, True)
      else do {
        p \<leftarrow> pgs i;
        (if isLeaf p then rangeLeafSlots pgs p 0 [] False cmp visit s
         else do {
           (s', r) \<leftarrow> loopM (\<lambda>s j. do {
               c \<leftarrow> branchChild p j;
               (s', ok) \<leftarrow> rangePage pgs c cmp visit s;
               Some (s', if ok then None else Some False)
             }) s [0..<Suc (unat (slotCount p))];
           Some (s', case r of None \<Rightarrow> True | Some b \<Rightarrow> b)
         })
      })"

definition branchChildIndex :: "page \<Rightarrow> key \<Rightarrow> comparator \<Rightarrow> nat option" where
  "branchChildIndex p k cmp = do {
     (index, found) \<leftarrow> searchSlotWithComparator p k cmp;
     Some (if found then index + 1 else index)
   }"

definition branchChildLowerBoundAtOrAfter :: "page \<Rightarrow> nat \<Rightarrow> key \<Rightarrow> comparator \<Rightarrow> bool option" where
  "branchChildLowerBoundAtOrAfter p index k cmp =
     (if index = 0 then Some False
      else map_option (\<lambda>c. 0 \<le> c) (compareCellKeyWithComparator p (index - 1) k cmp))"

partial_function (option) rangePageFrom ::
  "pagemap \<Rightarrow> PageID \<Rightarrow> key \<Rightarrow> comparator \<Rightarrow> 's visitor \<Rightarrow> 's \<Rightarrow> ('s \<times> bool) option" where
  "rangePageFrom pgs i start cmp visit s =
     (if i = 0 then Some (s, True)
      else do {
        p \<leftarrow> pgs i;
        (if isLeaf p then do {
           (index, found) \<leftarrow> searchSlotWithComparator p start cmp;
           rangeLeafSlots pgs p index [] False cmp visit s
         }
         else do {
           index \<leftarrow> branchChildIndex p start cmp;
           (s', r) \<leftarrow> loopM (\<lambda>s j. do {
               c \<leftarrow> branchChild p j;
               (s', ok) \<leftarrow> rangePageFrom pgs c start cmp visit s;
               Some (s', if ok then None else Some False)
             }) s [index..<Suc (unat (slotCount p))];
           Some (s', case r of None \<Rightarrow> True | Some b \<Rightarrow> b)
         })
      })"

partial_function (option) rangePageBetween ::
  "pagemap \<Rightarrow> PageID \<Rightarrow> key \<Rightarrow> key \<Rightarrow> comparator \<Rightarrow> 's visitor \<Rightarrow> 's \<Rightarrow> ('s \<times> bool) option" where
  "rangePageBetween pgs i start bound cmp visit s =
     (if i = 0 \<or> 0 \<le> cmp start bound then Some (s, True)
      else do {
        p \<leftarrow> pgs i;
        (if isLeaf p then do {
           (index, found) \<leftarrow> searchSlotWithComparator p start cmp;
           rangeLeafSlots pgs p index bound True cmp visit s
         }
         else do {
           index \<leftarrow> branchChildIndex p start cmp;
           (s', r) \<leftarrow> loopM (\<lambda>s j. do {
               stop \<leftarrow> branchChildLowerBoundAtOrAfter p j bound cmp;
               (if stop then Some (s, Some True)
                else do {
                  c \<leftarrow> branchChild p j;
                  (s', ok) \<leftarrow> rangePageBetween pgs c start bound cmp visit s;
                  Some (s', if ok then None else Some False)
                })
             }) s [index..<Suc (unat (slotCount p))];
           Some (s', case r of None \<Rightarrow> True | Some b \<Rightarrow> b)
         })
      })"

section \<open>Scans along the leaf links\<close>

partial_function (option) leftmostLeaf :: "pagemap \<Rightarrow> PageID \<Rightarrow> PageID option" where
  "leftmostLeaf pgs i =
     (if i = 0 then Some 0
      else (case pgs i of
          None \<Rightarrow> Some 0
        | Some p \<Rightarrow> if isLeaf p then Some i else leftmostLeaf pgs (leftmostChild p)))"

partial_function (option) leafForKey :: "pagemap \<Rightarrow> PageID \<Rightarrow> key \<Rightarrow> comparator \<Rightarrow> PageID option" where
  "leafForKey pgs i k cmp =
     (if i = 0 then Some 0
      else (case pgs i of
          None \<Rightarrow> Some 0
        | Some p \<Rightarrow>
            if isLeaf p then Some i
            else do {
              c \<leftarrow> searchBranchChildWithComparator p k cmp;
              leafForKey pgs c k cmp
            }))"

definition firstLeafKey :: "page \<Rightarrow> key option option" where
  "firstLeafKey p =
     (if \<not> isLeaf p \<or> slotCount p = 0 then Some None else map_option Some (readCellKey p 0))"

text \<open>A run of pages \<open>[start, end)\<close> to prefetch; start 0 is no run.\<close>

definition flushRange :: "('s \<Rightarrow> PageID \<Rightarrow> PageID \<Rightarrow> 's) \<Rightarrow> PageID \<times> PageID \<Rightarrow> 's \<Rightarrow> 's" where
  "flushRange prefetch cur s = (if fst cur \<noteq> 0 then prefetch s (fst cur) (snd cur) else s)"

fun prefetchLoop :: "pagemap \<Rightarrow> ('s \<Rightarrow> PageID \<Rightarrow> PageID \<Rightarrow> 's) \<Rightarrow> (page \<Rightarrow> bool option) \<Rightarrow>
    PageID set \<Rightarrow> PageID \<times> PageID \<Rightarrow> PageID \<Rightarrow> nat \<Rightarrow> 's \<Rightarrow> 's option" where
  "prefetchLoop pgs prefetch stop seen cur next 0 s = Some (flushRange prefetch cur s)"
| "prefetchLoop pgs prefetch stop seen cur next (Suc n) s =
     (if next = 0 \<or> next \<in> seen then Some (flushRange prefetch cur s)
      else (case pgs next of
          None \<Rightarrow> Some (flushRange prefetch cur s)
        | Some p \<Rightarrow>
            if \<not> isLeaf p then Some (flushRange prefetch cur s)
            else do {
              b \<leftarrow> stop p;
              (if b then Some (flushRange prefetch cur s)
               else
                 let (cur', s') =
                   (if fst cur = 0 then ((next, next + 1), s)
                    else if next = snd cur then ((fst cur, next + 1), s)
                    else ((next, next + 1), flushRange prefetch cur s))
                 in prefetchLoop pgs prefetch stop (insert next seen) cur' (nextLeaf p) n s')
            }))"

definition prefetchNextLeafRanges ::
  "pagemap \<Rightarrow> PageID \<Rightarrow> int \<Rightarrow> ('s \<Rightarrow> PageID \<Rightarrow> PageID \<Rightarrow> 's) option \<Rightarrow> 's \<Rightarrow> 's option" where
  "prefetchNextLeafRanges pgs next window prefetch s =
     (case prefetch of
        None \<Rightarrow> Some s
      | Some f \<Rightarrow> if window \<le> 0 then Some s
                   else prefetchLoop pgs f (\<lambda>p. Some False) {} (0, 0) next (nat window) s)"

definition prefetchNextLeafRangesBefore ::
  "pagemap \<Rightarrow> PageID \<Rightarrow> int \<Rightarrow> key \<Rightarrow> comparator \<Rightarrow> ('s \<Rightarrow> PageID \<Rightarrow> PageID \<Rightarrow> 's) option \<Rightarrow> 's \<Rightarrow> 's option" where
  "prefetchNextLeafRangesBefore pgs next window bound cmp prefetch s =
     (case prefetch of
        None \<Rightarrow> Some s
      | Some f \<Rightarrow> if window \<le> 0 then Some s
                   else prefetchLoop pgs f
                     (\<lambda>p. map_option (\<lambda>r. case r of None \<Rightarrow> True | Some first \<Rightarrow> 0 \<le> cmp first bound)
                            (firstLeafKey p)) {} (0, 0) next (nat window) s)"

text \<open>
  The loop the three linked scans share: \<open>pre\<close> is the prefetch of the leaves after this one,
  \<open>index\<close> where to start in the current leaf (the searched slot in the first leaf, then 0).
  The result is \<open>False\<close> only when the links lead to a page that is not a leaf.
\<close>

partial_function (option) linkedLoop ::
  "pagemap \<Rightarrow> key \<Rightarrow> bool \<Rightarrow> comparator \<Rightarrow> (PageID \<Rightarrow> 's \<Rightarrow> 's option) \<Rightarrow> 's visitor \<Rightarrow>
   (page \<Rightarrow> nat option) \<Rightarrow> PageID set \<Rightarrow> PageID \<Rightarrow> 's \<Rightarrow> ('s \<times> bool) option" where
  "linkedLoop pgs bound hasEnd cmp pre visit index seen leaf s =
     (if leaf = 0 \<or> leaf \<in> seen then Some (s, True)
      else (case pgs leaf of
          None \<Rightarrow> Some (s, False)
        | Some p \<Rightarrow>
            if \<not> isLeaf p then Some (s, False)
            else do {
              stop \<leftarrow> (if hasEnd
                 then map_option (\<lambda>r. case r of None \<Rightarrow> False | Some first \<Rightarrow> 0 \<le> cmp first bound)
                        (firstLeafKey p)
                 else Some False);
              (if stop then Some (s, True)
               else do {
                 s1 \<leftarrow> pre (nextLeaf p) s;
                 i \<leftarrow> index p;
                 (s2, ok) \<leftarrow> rangeLeafSlots pgs p i bound hasEnd cmp visit s1;
                 (if \<not> ok then Some (s2, True)
                  else linkedLoop pgs bound hasEnd cmp pre visit (\<lambda>p. Some 0) (insert leaf seen)
                         (nextLeaf p) s2)
               })
            }))"

definition rangeLinkedLeaves ::
  "pagemap \<Rightarrow> PageID \<Rightarrow> comparator \<Rightarrow> int \<Rightarrow> ('s \<Rightarrow> PageID \<Rightarrow> PageID \<Rightarrow> 's) option \<Rightarrow> 's visitor \<Rightarrow>
   's \<Rightarrow> ('s \<times> bool) option" where
  "rangeLinkedLeaves pgs i cmp window prefetch visit s = do {
     leaf \<leftarrow> leftmostLeaf pgs i;
     linkedLoop pgs [] False cmp (\<lambda>next. prefetchNextLeafRanges pgs next window prefetch) visit
       (\<lambda>p. Some 0) {} leaf s
   }"

definition rangeLinkedLeavesFrom ::
  "pagemap \<Rightarrow> PageID \<Rightarrow> key \<Rightarrow> comparator \<Rightarrow> int \<Rightarrow> ('s \<Rightarrow> PageID \<Rightarrow> PageID \<Rightarrow> 's) option \<Rightarrow>
   's visitor \<Rightarrow> 's \<Rightarrow> ('s \<times> bool) option" where
  "rangeLinkedLeavesFrom pgs i start cmp window prefetch visit s = do {
     leaf \<leftarrow> leafForKey pgs i start cmp;
     linkedLoop pgs [] False cmp (\<lambda>next. prefetchNextLeafRanges pgs next window prefetch) visit
       (\<lambda>p. map_option fst (searchSlotWithComparator p start cmp)) {} leaf s
   }"

definition rangeLinkedLeavesBetween ::
  "pagemap \<Rightarrow> PageID \<Rightarrow> key \<Rightarrow> key \<Rightarrow> comparator \<Rightarrow> int \<Rightarrow> ('s \<Rightarrow> PageID \<Rightarrow> PageID \<Rightarrow> 's) option \<Rightarrow>
   's visitor \<Rightarrow> 's \<Rightarrow> ('s \<times> bool) option" where
  "rangeLinkedLeavesBetween pgs i start bound cmp window prefetch visit s =
     (if 0 \<le> cmp start bound then Some (s, True)
      else do {
        leaf \<leftarrow> leafForKey pgs i start cmp;
        linkedLoop pgs bound True cmp
          (\<lambda>next. prefetchNextLeafRangesBefore pgs next window bound cmp prefetch) visit
          (\<lambda>p. map_option fst (searchSlotWithComparator p start cmp)) {} leaf s
      })"

end
