(* ===== verification/SearchCorrect.thy ===== *)
theory SearchCorrect
  imports Search
begin

text \<open>
  On pages that represent an ordered tree, a lookup is \<open>map_of\<close> of its entries, with or
  without the branch cache, and every range scan visits exactly the entries in its range, in
  key order, until the visitor stops.
\<close>

section \<open>Lookup\<close>

lemma searchLeaf_aux:
  "\<forall>e\<in>set es. entry_ok pgs e \<Longrightarrow>
     (case map_of (map gcell es) k of
        None \<Rightarrow> Some None
      | Some (raw, f) \<Rightarrow> do { v \<leftarrow> resolveLeafValue pgs raw f; Some (Some v) }) =
     Some (map_of (map kv es) k)"
proof (induction es)
  case (Cons e es)
  obtain k' v c where e: "e = (k', v, c)" by (cases e)
  obtain raw f where g: "gcell e = (k', raw, f)" by (metis e fst_conv fst_gcell prod.exhaust)
  have "resolveLeafValue pgs raw f = Some v"
    using Cons.prems resolve_gcell [of pgs k' v c k' raw f] g e by simp
  then show ?case using Cons g e by auto
qed simp

context key_comparator
begin

lemma searchLeaf_ok:
  assumes p: "leafPage p i es" and ok: "\<forall>e\<in>set es. entry_ok pgs e"
    and srt: "sorted_by cmp (map kv es)"
  shows "searchLeaf pgs p k cmp = Some (map_of (map kv es) k)"
proof -
  have "increasing (map fst (map gcell es))" using srt by (simp add: sorted_by_map comp_def)
  then have "searchLeafCellWithComparator p k cmp = Some (map_of (map gcell es) k)"
    using p searchLeafCell_holds [of p flagLeaf "map gcell es" k] by (simp add: leafPage_def)
  then show ?thesis using searchLeaf_aux [OF ok, of k] by (simp add: searchLeaf_def)
qed

lemma branch_search_ok:
  assumes p: "branchPage p i (map firstkey (tl ts)) (map gid ts)" and ts: "ts \<noteq> []"
    and srt: "sorted_by cmp (concat (map gentries ts))" and ne: "\<forall>T\<in>set ts. gentries T \<noteq> []"
  shows "searchBranchChildWithComparator p k cmp =
    Some (gid (ts ! childIndex (map firstkey (tl ts)) k cmp))"
proof -
  have "holds p flagBranch (branchCells (map firstkey (tl ts)) (map gid (tl ts)))"
    "leftmostChild p = gid (hd ts)" using p ts by (simp_all add: branchPage_def map_tl hd_map)
  then have "searchBranchChildWithComparator p k cmp =
      Some ((gid (hd ts) # map gid (tl ts)) ! childIndex (map firstkey (tl ts)) k cmp)"
    using searchBranchChild_holds [of p flagBranch "map firstkey (tl ts)" "map gid (tl ts)" k]
      increasing_separators [OF srt ne] by simp
  moreover have "gid (hd ts) # map gid (tl ts) = map gid ts" using ts by (cases ts) simp_all
  ultimately show ?thesis using route(1) [OF srt ne ts, of k] by simp
qed

lemma searchPage_ok:
  "rep pgs T \<Longrightarrow> shape d K T \<Longrightarrow> ordered cmp T \<Longrightarrow>
     searchPage pgs (gid T) k cmp = Some (map_of (gentries T) k)"
proof (induction T)
  case (GLeaf i es)
  then obtain p where p: "pgs i = Some p" "leafPage p i es" by auto
  then show ?case
    using GLeaf.prems searchLeaf_ok [OF p(2), of pgs k] leafPage_kind [OF p(2)]
    by (subst searchPage.simps) (simp add: ordered_def)
next
  case (GBranch i ts)
  then obtain p where p: "pgs i = Some p" "branchPage p i (map firstkey (tl ts)) (map gid ts)" by auto
  have ts: "ts \<noteq> []" "\<forall>T\<in>set ts. gentries T \<noteq> []" and srt: "sorted_by cmp (concat (map gentries ts))"
    using GBranch.prems by (auto simp: ordered_def)
  let ?c = "ts ! childIndex (map firstkey (tl ts)) k cmp"
  have c: "?c \<in> set ts" using route(1) [OF srt ts(2,1), of k] by simp
  then have "searchPage pgs (gid ?c) k cmp = Some (map_of (gentries ?c) k)"
    using GBranch sorted_child [OF srt c] by (simp add: ordered_def)
  then show ?case
    using p(1) branch_search_ok [OF p(2) ts(1) srt ts(2), of k] branchPage_kind [OF p(2)]
      map_of_route [OF srt ts(2,1), of k]
    by (subst searchPage.simps) simp
qed

text \<open>The same with the branch cache, which stays coherent.\<close>

lemma searchPageWithCache_ok:
  "rep pgs T \<Longrightarrow> shape d K T \<Longrightarrow> ordered cmp T \<Longrightarrow> cache_ok c \<Longrightarrow> coherent pgs c \<Longrightarrow>
     \<exists>c'. searchPageWithCache pgs (gid T) k cmp c = Some (map_of (gentries T) k, c') \<and>
       cache_ok c' \<and> coherent pgs c' \<and> pc_capacity c' = pc_capacity c"
proof (induction T arbitrary: c)
  case (GLeaf i es)
  then obtain p where p: "pgs i = Some p" "leafPage p i es" by auto
  then show ?case
    using GLeaf.prems searchLeaf_ok [OF p(2), of pgs k] leafPage_kind [OF p(2)]
    by (subst searchPageWithCache.simps) (simp add: ordered_def)
next
  case (GBranch i ts)
  let ?seps = "map firstkey (tl ts)"
  obtain p where p: "pgs i = Some p" "branchPage p i ?seps (map gid ts)"
    using GBranch.prems(1) by auto
  have ts: "ts \<noteq> []" "\<forall>T\<in>set ts. gentries T \<noteq> []" and srt: "sorted_by cmp (concat (map gentries ts))"
    using GBranch.prems by (auto simp: ordered_def)
  let ?c = "ts ! childIndex ?seps k cmp"
  have r: "childIndex ?seps k cmp < length ts" using route(1) [OF srt ts(2,1)] .
  have pp: "pgs (pid p) = Some p" using p branchPage_kind(3) [OF p(2)] by simp
  obtain c1 where c1: "cacheSearchBranchChild c p k cmp = Some (map gid ts ! childIndex ?seps k cmp, c1)"
    "cache_ok c1" "coherent pgs c1" "pc_capacity c1 = pc_capacity c"
    by (rule cacheSearch_ok [OF GBranch.prems(4,5) pp branchParts_branchPage [OF p(2)]
          increasing_separators [OF srt ts(2)], of k])
  have m: "?c \<in> set ts" using r by simp
  obtain c2 where "searchPageWithCache pgs (gid ?c) k cmp c1 = Some (map_of (gentries ?c) k, c2)"
    "cache_ok c2" "coherent pgs c2" "pc_capacity c2 = pc_capacity c1"
    using GBranch.IH [OF m _ _ _ c1(2,3)] GBranch.prems(1,2) m sorted_child [OF srt m]
    by (auto simp: ordered_def)
  then show ?case
    using p(1) c1 r branchPage_kind [OF p(2)] map_of_route [OF srt ts(2,1), of k]
    by (subst searchPageWithCache.simps) simp
qed

end

section \<open>Visiting\<close>

fun visitList :: "'s visitor \<Rightarrow> 's \<Rightarrow> (key \<times> bytes) list \<Rightarrow> 's \<times> bool" where
  "visitList visit s [] = (s, True)"
| "visitList visit s ((k, v) # ps) =
     (let (s', ok) = visit s k v in if ok then visitList visit s' ps else (s', False))"

lemma visitList_append:
  "visitList visit s (ps @ qs) =
     (case visitList visit s ps of (s', ok) \<Rightarrow> if ok then visitList visit s' qs else (s', False))"
  by (induction visit s ps rule: visitList.induct) (auto split: prod.splits)

text \<open>A visitor that collects the entries sees the whole list.\<close>

lemma visitList_collect:
  "visitList (\<lambda>acc k v. (acc @ [(k, v)], True)) acc ps = (acc @ ps, True)"
  by (induction ps arbitrary: acc) auto

definition goOn :: "'s \<times> bool \<Rightarrow> 's \<times> bool option" where
  "goOn r = (fst r, if snd r then None else Some False)"

text \<open>
  A loop whose body visits the list \<open>f j\<close> visits their concatenation; it may also stop with
  \<open>True\<close> once the rest is empty.
\<close>

lemma loopM_visit:
  assumes "\<And>s j. a \<le> j \<Longrightarrow> j < n \<Longrightarrow> body s j = Some (goOn (visitList visit s (f j))) \<or>
    (body s j = Some (s, Some True) \<and> (\<forall>m. j \<le> m \<longrightarrow> m < n \<longrightarrow> f m = []))"
  obtains r where
    "loopM body s [a..<n] = Some (fst (visitList visit s (concat (map f [a..<n]))), r)"
    "(case r of None \<Rightarrow> True | Some b \<Rightarrow> b) = snd (visitList visit s (concat (map f [a..<n])))"
proof -
  have "\<exists>r. loopM body s [a..<n] = Some (fst (visitList visit s (concat (map f [a..<n]))), r) \<and>
      (case r of None \<Rightarrow> True | Some b \<Rightarrow> b) = snd (visitList visit s (concat (map f [a..<n])))"
    using assms
  proof (induction "n - a" arbitrary: a s)
    case 0
    then show ?case by simp
  next
    case (Suc m)
    then have a: "a < n" by simp
    then have upt: "[a..<n] = a # [Suc a..<n]" by (simp add: upt_conv_Cons)
    consider (go) "body s a = Some (goOn (visitList visit s (f a)))"
      | (stop) "body s a = Some (s, Some True)" "\<forall>m. a \<le> m \<longrightarrow> m < n \<longrightarrow> f m = []"
      using Suc.prems [of a s] a by auto
    then show ?case
    proof cases
      case go
      obtain s' ok where v: "visitList visit s (f a) = (s', ok)" by (cases "visitList visit s (f a)")
      show ?thesis
      proof (cases ok)
        case True
        then show ?thesis
          using Suc.hyps(1) [of "Suc a" s'] Suc.hyps(2) Suc.prems go v
          by (auto simp: upt goOn_def visitList_append)
      next
        case False
        then show ?thesis using go v by (simp add: upt goOn_def visitList_append)
      qed
    next
      case stop
      then have e: "concat (map f [a..<n]) = []" by auto
      show ?thesis using stop(1) a unfolding e by (simp add: upt)
    qed
  qed
  then show thesis using that by blast
qed

section \<open>Ranges of a sorted list\<close>

definition atLeast_key :: "comparator \<Rightarrow> key \<Rightarrow> (key \<times> 'v) list \<Rightarrow> (key \<times> 'v) list" where
  "atLeast_key cmp lo ps = filter (\<lambda>p. 0 \<le> cmp (fst p) lo) ps"

definition below_key :: "comparator \<Rightarrow> key \<Rightarrow> (key \<times> 'v) list \<Rightarrow> (key \<times> 'v) list" where
  "below_key cmp hi ps = filter (\<lambda>p. cmp (fst p) hi < 0) ps"

lemma range_append [simp]:
  "atLeast_key cmp lo (ps @ qs) = atLeast_key cmp lo ps @ atLeast_key cmp lo qs"
  "below_key cmp hi (ps @ qs) = below_key cmp hi ps @ below_key cmp hi qs"
  "atLeast_key cmp lo [] = []" "below_key cmp hi [] = []"
  by (simp_all add: atLeast_key_def below_key_def)

lemma range_concat:
  "atLeast_key cmp lo (concat pss) = concat (map (atLeast_key cmp lo) pss)"
  "below_key cmp hi (concat pss) = concat (map (below_key cmp hi) pss)"
  by (induction pss) simp_all

lemma range_empty_iff:
  "atLeast_key cmp lo ps = [] \<longleftrightarrow> (\<forall>p\<in>set ps. cmp (fst p) lo < 0)"
  "below_key cmp hi ps = [] \<longleftrightarrow> (\<forall>p\<in>set ps. 0 \<le> cmp (fst p) hi)"
  by (auto simp: atLeast_key_def below_key_def filter_empty_conv not_le not_less)

lemma concat_map_filter_aux:
  "concat (map (\<lambda>e. if P (fst e) then [] else [kv e]) es) = filter (\<lambda>p. \<not> P (fst p)) (map kv es)"
  by (induction es) simp_all

lemma concat_upt_nth: "concat (map (\<lambda>j. g (xs ! j)) [a..<length xs]) = concat (map g (drop a xs))"
proof -
  have "map (\<lambda>j. g (xs ! j)) [a..<length xs] = map g (drop a xs)"
    by (rule nth_equalityI) simp_all
  then show ?thesis by simp
qed

context key_comparator
begin

lemma atLeast_rank:
  "sorted_by cmp ps \<Longrightarrow> atLeast_key cmp lo ps = drop (rank (\<lambda>p. cmp (fst p) lo) ps) ps"
proof (induction ps)
  case (Cons p ps)
  show ?case
  proof (cases "cmp (fst p) lo < 0")
    case True
    then show ?thesis using Cons by (simp add: atLeast_key_def rank_def)
  next
    case False
    have "0 \<le> cmp (fst q) lo" if "q \<in> set ps" for q
      using Cons.prems that False cmp_trans [of "fst p" "fst q" lo] by force
    then show ?thesis using False by (simp add: atLeast_key_def rank_def filter_id_conv)
  qed
qed (simp add: rank_def)

lemma below_takeWhile:
  "sorted_by cmp ps \<Longrightarrow> takeWhile (\<lambda>p. cmp (fst p) hi < 0) ps = below_key cmp hi ps"
proof (induction ps)
  case (Cons p ps)
  show ?case
  proof (cases "cmp (fst p) hi < 0")
    case True
    then show ?thesis using Cons by (simp add: below_key_def)
  next
    case False
    have "\<not> cmp (fst q) hi < 0" if "q \<in> set ps" for q
      using Cons.prems that False cmp_trans [of "fst p" "fst q" hi] by force
    then show ?thesis using False by (simp add: below_key_def filter_empty_conv)
  qed
qed simp

lemma sorted_atLeast: "sorted_by cmp ps \<Longrightarrow> sorted_by cmp (atLeast_key cmp lo ps)"
  by (simp add: sorted_by_def atLeast_key_def sorted_wrt_filter)

lemma sorted_drop: "sorted_by cmp ps \<Longrightarrow> sorted_by cmp (drop n ps)"
  by (simp add: sorted_by_def sorted_wrt_drop)

section \<open>Leaf slots\<close>

lemma rangeLeafSlots_ok:
  assumes p: "leafPage p i es" and ok: "\<forall>e\<in>set es. entry_ok pgs e"
    and srt: "sorted_by cmp (map kv es)"
  shows "rangeLeafSlots pgs p n bound hasEnd cmp visit s =
    Some (visitList visit s
      (if hasEnd then below_key cmp bound (drop n (map kv es)) else drop n (map kv es)))"
proof -
  let ?f = "\<lambda>j. if hasEnd \<and> 0 \<le> cmp (fst (es ! j)) bound then [] else [kv (es ! j)]"
  let ?body = "\<lambda>s i. do {
         stop \<leftarrow> (if hasEnd then map_option (\<lambda>c. 0 \<le> c) (compareCellKeyWithComparator p i bound cmp)
                 else Some False);
         (if stop then Some (s, Some True)
          else do {
            sl \<leftarrow> readSlot p i;
            k \<leftarrow> readCellKey p i;
            raw \<leftarrow> readCellValue p i;
            v \<leftarrow> resolveLeafValue pgs raw (slotFlags sl);
            let (s', ok) = visit s k v;
            Some (s', if ok then None else Some False)
          })
       }"
  have h: "holds p flagLeaf (map gcell es)" and n: "unat (slotCount p) = length es"
    using p leafPage_kind(4) [OF p] by (simp_all add: leafPage_def)
  have body: "?body s j = Some (goOn (visitList visit s (?f j))) \<or>
      (?body s j = Some (s, Some True) \<and> (\<forall>m. j \<le> m \<longrightarrow> m < length es \<longrightarrow> ?f m = []))"
    if j: "j < length es" for s j
  proof -
    obtain k v c where e: "es ! j = (k, v, c)" by (cases "es ! j")
    obtain raw f where g: "gcell (es ! j) = (k, raw, f)" by (metis e fst_conv fst_gcell prod.exhaust)
    have "resolveLeafValue pgs raw f = Some v"
      using ok j resolve_gcell [of pgs k v c k raw f] g e by (metis nth_mem)
    moreover note reads = holds_reads [OF h, of j k raw f]
    moreover have "0 \<le> cmp (fst (es ! m)) bound" if "0 \<le> cmp k bound" "j \<le> m" "m < length es" for m
    proof (cases "j = m")
      case False
      then have "cmp (fst (es ! j)) (fst (es ! m)) < 0"
        using srt that by (simp add: sorted_by_def sorted_wrt_iff_nth_less)
      then have "cmp k (fst (es ! m)) < 0" using e by simp
      then show ?thesis using that(1) cmp_trans [of k "fst (es ! m)" bound] by force
    qed (use that e in simp)
    ultimately show ?thesis
      using j g e by (auto simp: goOn_def split: prod.splits)
  qed
  obtain r where r: "loopM ?body s [n..<length es] = Some (fst (visitList visit s (concat (map ?f [n..<length es]))), r)"
    "(case r of None \<Rightarrow> True | Some b \<Rightarrow> b) = snd (visitList visit s (concat (map ?f [n..<length es])))"
    by (rule loopM_visit [of n "length es" ?body visit ?f s]) (use body in auto)
  have "concat (map ?f [n..<length es]) = filter (\<lambda>p. \<not> (hasEnd \<and> 0 \<le> cmp (fst p) bound)) (drop n (map kv es))"
    using concat_upt_nth [of "\<lambda>e. if hasEnd \<and> 0 \<le> cmp (fst e) bound then [] else [kv e]" es n]
      concat_map_filter_aux [of "\<lambda>k. hasEnd \<and> 0 \<le> cmp k bound" "drop n es"]
    by (simp add: drop_map)
  then have "concat (map ?f [n..<length es]) =
      (if hasEnd then below_key cmp bound (drop n (map kv es)) else drop n (map kv es))"
    by (auto simp: below_key_def not_le)
  with r show ?thesis unfolding rangeLeafSlots_def n by (simp add: prod_eq_iff)
qed

end

section \<open>Recursive scans\<close>

lemma branchPage_cell:
  assumes p: "branchPage p i keys cs" and j: "j < length keys"
  shows "holds p flagBranch (branchCells keys (tl cs))" "j < length (branchCells keys (tl cs))"
    "branchCells keys (tl cs) ! j = (keys ! j, encodePageIDValue (tl cs ! j), 0)"
  using p j by (simp_all add: branchPage_def branchCells_def)

lemma branchChild_ok:
  assumes p: "branchPage p i keys cs" and j: "j < length cs"
  shows "branchChild p j = Some (cs ! j)"
proof (cases j)
  case 0
  then show ?thesis using p by (simp add: branchChild_def branchPage_def hd_conv_nth)
next
  case (Suc m)
  have m: "m < length keys" using p j Suc by (simp add: branchPage_def)
  note c = branchPage_cell [OF p m]
  have "tl cs ! m = cs ! j" using Suc j p by (cases cs) (simp_all add: branchPage_def)
  then show ?thesis
    using holds_reads(3) [OF c] Suc by (simp add: branchChild_def readCellPageID_def)
qed

lemma branchKey_ok:
  assumes p: "branchPage p i keys cs" and j: "j < length keys"
  shows "compareCellKeyWithComparator p j k cmp = Some (cmp (keys ! j) k)"
  by (rule holds_reads(5) [OF branchPage_cell [OF p j]])

lemma goOn_bind:
  "m = Some r \<Longrightarrow>
     do { (s', ok) \<leftarrow> m; Some (s', if ok then None else Some False) } = Some (goOn r)"
  by (cases r) (simp add: goOn_def)

context key_comparator
begin

lemma rangePage_ok:
  "rep pgs T \<Longrightarrow> shape d K T \<Longrightarrow> ordered cmp T \<Longrightarrow>
     rangePage pgs (gid T) cmp visit s = Some (visitList visit s (gentries T))"
proof (induction T arbitrary: s)
  case (GLeaf i es)
  then obtain p where p: "pgs i = Some p" "leafPage p i es" by auto
  then show ?case
    using GLeaf.prems rangeLeafSlots_ok [OF p(2), of pgs 0 "[]" False visit s] leafPage_kind [OF p(2)]
    by (subst rangePage.simps) (simp add: ordered_def)
next
  case (GBranch i ts)
  then obtain p where p: "pgs i = Some p" "branchPage p i (map firstkey (tl ts)) (map gid ts)" by auto
  have n: "Suc (unat (slotCount p)) = length ts"
    using branchPage_kind(4) [OF p(2)] p(2) by (simp add: branchPage_def)
  let ?body = "\<lambda>s j. do {
       c \<leftarrow> branchChild p j;
       (s', ok) \<leftarrow> rangePage pgs c cmp visit s;
       Some (s', if ok then None else Some False) }"
  have body: "?body s j = Some (goOn (visitList visit s (gentries (ts ! j))))" if j: "j < length ts" for s j
  proof -
    have m: "ts ! j \<in> set ts" using j by simp
    then have "rangePage pgs (gid (ts ! j)) cmp visit s = Some (visitList visit s (gentries (ts ! j)))"
      using GBranch sorted_child [of cmp ts "ts ! j"] by (simp add: ordered_def)
    from goOn_bind [OF this] show ?thesis using branchChild_ok [OF p(2), of j] j by simp
  qed
  obtain r where r: "loopM ?body s [0..<length ts] =
      Some (fst (visitList visit s (concat (map (\<lambda>j. gentries (ts ! j)) [0..<length ts]))), r)"
    "(case r of None \<Rightarrow> True | Some b \<Rightarrow> b) =
      snd (visitList visit s (concat (map (\<lambda>j. gentries (ts ! j)) [0..<length ts])))"
    by (rule loopM_visit [of 0 "length ts" ?body visit "\<lambda>j. gentries (ts ! j)" s]) (use body in auto)
  have cc: "concat (map (\<lambda>j. gentries (ts ! j)) [0..<length ts]) = gentries (GBranch i ts)"
    using concat_upt_nth [of gentries ts 0] by simp
  have "rangePage pgs i cmp visit s = do {
      (s', r) \<leftarrow> loopM ?body s [0..<length ts];
      Some (s', case r of None \<Rightarrow> True | Some b \<Rightarrow> b) }"
    using p(1) branchPage_kind(2,6) [OF p(2)] n by (subst rangePage.simps) simp
  then show ?case using r unfolding cc by (simp add: prod_eq_iff)
qed

lemma branchChildIndex_ok:
  assumes p: "branchPage p i (map firstkey (tl ts)) (map gid ts)"
    and srt: "sorted_by cmp (concat (map gentries ts))" and ne: "\<forall>T\<in>set ts. gentries T \<noteq> []"
  shows "branchChildIndex p k cmp = Some (childIndex (map firstkey (tl ts)) k cmp)"
proof -
  let ?es = "branchCells (map firstkey (tl ts)) (map gid (tl ts))"
  have h: "holds p flagBranch ?es" using p by (simp add: branchPage_def map_tl)
  have keys: "map fst ?es = map firstkey (tl ts)"
    by (simp add: branchCells_def comp_def case_prod_beta)
  have inc: "increasing (map fst ?es)" unfolding keys by (rule increasing_separators [OF srt ne])
  show ?thesis
    using searchSlot_rank [OF h inc, of k] childIndex_cells [OF inc, of k]
    by (simp add: branchChildIndex_def keys)
qed

lemma searchSlot_leaf:
  assumes "leafPage p i es" "sorted_by cmp (map kv es)"
  shows "searchSlotWithComparator p k cmp =
    Some (rank (\<lambda>p. cmp (fst p) k) (map kv es), cellFound cmp k (map gcell es))"
proof -
  have inc: "increasing (map fst (map gcell es))" using assms(2) by (simp add: sorted_by_map comp_def)
  have "cellRank cmp k (map gcell es) = rank (\<lambda>p. cmp (fst p) k) (map kv es)"
    by (simp add: cellRank_def rank_def takeWhile_map comp_def)
  then show ?thesis
    using searchSlot_rank [OF _ inc, of p flagLeaf k] assms(1) by (simp add: leafPage_def)
qed

text \<open>Children left of the routed one hold nothing at or above the start key.\<close>

lemma atLeast_route:
  assumes "sorted_by cmp (concat (map gentries ts))" "\<forall>T\<in>set ts. gentries T \<noteq> []" "ts \<noteq> []"
  shows "atLeast_key cmp lo (concat (map gentries ts)) =
    concat (map (\<lambda>T. atLeast_key cmp lo (gentries T)) (drop (childIndex (map firstkey (tl ts)) lo cmp) ts))"
proof -
  let ?i = "childIndex (map firstkey (tl ts)) lo cmp"
  have "atLeast_key cmp lo (concat (map gentries (take ?i ts))) = []"
    unfolding range_empty_iff using route(2) [OF assms, where k = lo] by blast
  moreover have "concat (map gentries ts) = concat (map gentries (take ?i ts)) @ concat (map gentries (drop ?i ts))"
    by (metis append_take_drop_id concat_append map_append)
  ultimately show ?thesis by (simp add: range_concat comp_def)
qed

lemma rangePageFrom_ok:
  "rep pgs T \<Longrightarrow> shape d K T \<Longrightarrow> ordered cmp T \<Longrightarrow>
     rangePageFrom pgs (gid T) lo cmp visit s = Some (visitList visit s (atLeast_key cmp lo (gentries T)))"
proof (induction T arbitrary: s)
  case (GLeaf i es)
  then obtain p where p: "pgs i = Some p" "leafPage p i es" by auto
  have srt: "sorted_by cmp (map kv es)" using GLeaf.prems by (simp add: ordered_def)
  show ?case
    using p(1) GLeaf.prems leafPage_kind [OF p(2)] searchSlot_leaf [OF p(2) srt, of lo]
      rangeLeafSlots_ok [OF p(2) _ srt, of pgs "rank (\<lambda>p. cmp (fst p) lo) (map kv es)" "[]" False visit s]
    by (subst rangePageFrom.simps) (simp add: atLeast_rank [OF srt])
next
  case (GBranch i ts)
  then obtain p where p: "pgs i = Some p" "branchPage p i (map firstkey (tl ts)) (map gid ts)" by auto
  have ts: "ts \<noteq> []" "\<forall>T\<in>set ts. gentries T \<noteq> []" and srt: "sorted_by cmp (concat (map gentries ts))"
    using GBranch.prems by (auto simp: ordered_def)
  have n: "Suc (unat (slotCount p)) = length ts"
    using branchPage_kind(4) [OF p(2)] p(2) by (simp add: branchPage_def)
  let ?i = "childIndex (map firstkey (tl ts)) lo cmp"
  let ?body = "\<lambda>s j. do {
       c \<leftarrow> branchChild p j;
       (s', ok) \<leftarrow> rangePageFrom pgs c lo cmp visit s;
       Some (s', if ok then None else Some False) }"
  let ?f = "\<lambda>j. atLeast_key cmp lo (gentries (ts ! j))"
  have body: "?body s j = Some (goOn (visitList visit s (?f j)))" if j: "j < length ts" for s j
  proof -
    have m: "ts ! j \<in> set ts" using j by simp
    then have "rangePageFrom pgs (gid (ts ! j)) lo cmp visit s = Some (visitList visit s (?f j))"
      using GBranch sorted_child [OF srt m] by (simp add: ordered_def)
    from goOn_bind [OF this] show ?thesis using branchChild_ok [OF p(2), of j] j by simp
  qed
  obtain r where r: "loopM ?body s [?i..<length ts] =
      Some (fst (visitList visit s (concat (map ?f [?i..<length ts]))), r)"
    "(case r of None \<Rightarrow> True | Some b \<Rightarrow> b) = snd (visitList visit s (concat (map ?f [?i..<length ts])))"
    by (rule loopM_visit [of ?i "length ts" ?body visit ?f s]) (use body in auto)
  have cc: "concat (map ?f [?i..<length ts]) = atLeast_key cmp lo (gentries (GBranch i ts))"
    using concat_upt_nth [of "\<lambda>T. atLeast_key cmp lo (gentries T)" ts ?i]
      atLeast_route [OF srt ts(2,1), of lo] by simp
  have "rangePageFrom pgs i lo cmp visit s = do {
      (s', r) \<leftarrow> loopM ?body s [?i..<length ts];
      Some (s', case r of None \<Rightarrow> True | Some b \<Rightarrow> b) }"
    using p(1) branchPage_kind(2,6) [OF p(2)] n branchChildIndex_ok [OF p(2) srt ts(2), of lo]
    by (subst rangePageFrom.simps) simp
  then show ?case using r unfolding cc by (simp add: prod_eq_iff)
qed

text \<open>Children from one whose least key reaches the bound hold nothing below it.\<close>

lemma below_rest:
  assumes srt: "sorted_by cmp (concat (map gentries ts))" and ne: "\<forall>T\<in>set ts. gentries T \<noteq> []"
    and hi: "0 \<le> cmp (firstkey (ts ! j)) hi" and m: "j \<le> m" "m < length ts"
  shows "below_key cmp hi (gentries (ts ! m)) = []"
  unfolding range_empty_iff
proof
  fix x assume x: "x \<in> set (gentries (ts ! m))"
  have "ts ! j \<in> set ts" "ts ! m \<in> set ts" using m by simp_all
  have "cmp (firstkey (ts ! j)) (fst x) \<le> 0"
  proof (cases "j = m")
    case True
    then show ?thesis using firstkey_least [OF sorted_child [OF srt \<open>ts ! m \<in> set ts\<close>] x] by simp
  next
    case False
    then show ?thesis
      using sorted_between [OF srt _ m(2) _ x, of j "hd (gentries (ts ! j))"] m ne \<open>ts ! j \<in> set ts\<close>
      by (simp add: firstkey_def)
  qed
  then show "0 \<le> cmp (fst x) hi" using hi by (metis cmp_le_less_trans not_less)
qed

lemma rangePageBetween_ok:
  "rep pgs T \<Longrightarrow> shape d K T \<Longrightarrow> ordered cmp T \<Longrightarrow>
     rangePageBetween pgs (gid T) lo hi cmp visit s =
       Some (visitList visit s (if cmp lo hi < 0 then below_key cmp hi (atLeast_key cmp lo (gentries T)) else []))"
proof (induction T arbitrary: s)
  case (GLeaf i es)
  then obtain p where p: "pgs i = Some p" "leafPage p i es" by auto
  have srt: "sorted_by cmp (map kv es)" using GLeaf.prems by (simp add: ordered_def)
  show ?case
    using p(1) GLeaf.prems leafPage_kind [OF p(2)] searchSlot_leaf [OF p(2) srt, of lo]
      rangeLeafSlots_ok [OF p(2) _ srt, of pgs "rank (\<lambda>p. cmp (fst p) lo) (map kv es)" hi True visit s]
    by (subst rangePageBetween.simps) (simp add: atLeast_rank [OF srt])
next
  case (GBranch i ts)
  then obtain p where p: "pgs i = Some p" "branchPage p i (map firstkey (tl ts)) (map gid ts)" by auto
  have ts: "ts \<noteq> []" "\<forall>T\<in>set ts. gentries T \<noteq> []" and srt: "sorted_by cmp (concat (map gentries ts))"
    using GBranch.prems by (auto simp: ordered_def)
  have n: "Suc (unat (slotCount p)) = length ts"
    using branchPage_kind(4) [OF p(2)] p(2) by (simp add: branchPage_def)
  let ?i = "childIndex (map firstkey (tl ts)) lo cmp"
  let ?body = "\<lambda>s j. do {
       stop \<leftarrow> branchChildLowerBoundAtOrAfter p j hi cmp;
       (if stop then Some (s, Some True)
        else do {
          c \<leftarrow> branchChild p j;
          (s', ok) \<leftarrow> rangePageBetween pgs c lo hi cmp visit s;
          Some (s', if ok then None else Some False) }) }"
  let ?f = "\<lambda>j. below_key cmp hi (atLeast_key cmp lo (gentries (ts ! j)))"
  show ?case
  proof (cases "cmp lo hi < 0")
    case False
    then show ?thesis by (subst rangePageBetween.simps) simp
  next
    case lt: True
    have body: "?body s j = Some (goOn (visitList visit s (?f j))) \<or>
        (?body s j = Some (s, Some True) \<and> (\<forall>m. j \<le> m \<longrightarrow> m < length ts \<longrightarrow> ?f m = []))"
      if j: "j < length ts" for s j
    proof -
      have m: "ts ! j \<in> set ts" using j by simp
      then have "rangePageBetween pgs (gid (ts ! j)) lo hi cmp visit s = Some (visitList visit s (?f j))"
        using GBranch sorted_child [OF srt m] lt by (simp add: ordered_def)
      note run = goOn_bind [OF this]
      have stop: "branchChildLowerBoundAtOrAfter p j hi cmp = Some (j \<noteq> 0 \<and> 0 \<le> cmp (firstkey (ts ! j)) hi)"
        using branchKey_ok [OF p(2), of "j - 1" hi cmp] j
        by (cases j) (simp_all add: branchChildLowerBoundAtOrAfter_def nth_tl)
      show ?thesis
      proof (cases "j \<noteq> 0 \<and> 0 \<le> cmp (firstkey (ts ! j)) hi")
        case True
        then have "?f m = []" if "j \<le> m" "m < length ts" for m
          using below_rest [OF srt ts(2) _ that, of hi]
          by (fastforce simp: range_empty_iff(2) atLeast_key_def)
        then show ?thesis using stop True by simp
      next
        case False
        then show ?thesis using stop run branchChild_ok [OF p(2), of j] j by auto
      qed
    qed
    obtain r where r: "loopM ?body s [?i..<length ts] =
        Some (fst (visitList visit s (concat (map ?f [?i..<length ts]))), r)"
      "(case r of None \<Rightarrow> True | Some b \<Rightarrow> b) = snd (visitList visit s (concat (map ?f [?i..<length ts])))"
      by (rule loopM_visit [of ?i "length ts" ?body visit ?f s]) (use body in auto)
    have cc: "concat (map ?f [?i..<length ts]) = below_key cmp hi (atLeast_key cmp lo (gentries (GBranch i ts)))"
      using concat_upt_nth [of "\<lambda>T. below_key cmp hi (atLeast_key cmp lo (gentries T))" ts ?i]
        atLeast_route [OF srt ts(2,1), of lo] by (simp add: range_concat comp_def)
    have "rangePageBetween pgs i lo hi cmp visit s = do {
        (s', r) \<leftarrow> loopM ?body s [?i..<length ts];
        Some (s', case r of None \<Rightarrow> True | Some b \<Rightarrow> b) }"
      using p(1) branchPage_kind(2,6) [OF p(2)] n lt branchChildIndex_ok [OF p(2) srt ts(2), of lo]
      by (subst rangePageBetween.simps) simp
    then show ?thesis using r lt unfolding cc by (simp add: prod_eq_iff)
  qed
qed

end

end
