(* ===== verification/LeafLinks.thy ===== *)
theory LeafLinks
  imports SearchCorrect
begin

text \<open>
  Leaf links (\<^verbatim>\<open>pagebtree/leaf_links.go\<close>) and the scans that follow them.  \<^verbatim>\<open>relinkLeaves\<close>
  collects the leaves in order and sets each next pointer; afterwards the links run through
  the leaves in key order (\<open>linked\<close>), the tree represents the same map, and a linked scan
  visits what the recursive scan visits.
\<close>

section \<open>Operations\<close>

partial_function (option) collectLeavesInOrder :: "pagemap \<Rightarrow> PageID \<Rightarrow> PageID list option" where
  "collectLeavesInOrder pgs i =
     (if i = 0 then Some []
      else do {
        p \<leftarrow> pgs i;
        (if isLeaf p then Some [i]
         else do {
           cs \<leftarrow> childIDs p;
           ls \<leftarrow> mapM (\<lambda>c. collectLeavesInOrder pgs c) cs;
           Some (concat ls)
         })
      })"

definition markDirty :: "Tree \<Rightarrow> PageID \<Rightarrow> Tree" where
  "markDirty t i = (case arena t of None \<Rightarrow> t | Some a \<Rightarrow> t\<lparr>arena := Some (markDirtyPage a i)\<rparr>)"

fun linkLeaves :: "Tree \<Rightarrow> PageID list \<Rightarrow> Tree option" where
  "linkLeaves t [] = Some t"
| "linkLeaves t (i # is) = do {
     p \<leftarrow> pages t i;
     let next = (if is = [] then 0 else hd is);
     (if nextLeaf p = next then linkLeaves t is
      else linkLeaves (markDirty (putPage t (setNextLeaf p next)) i) is)
   }"

definition relinkLeaves :: "Tree \<Rightarrow> Tree option" where
  "relinkLeaves t =
     (if root t = 0 \<or> 0 < activeReaderCount t then Some t
      else do {
        leaves \<leftarrow> collectLeavesInOrder (pages t) (root t);
        linkLeaves t leaves
      })"

section \<open>Leaves in order\<close>

fun gleaves :: "gtree \<Rightarrow> (PageID \<times> gentry list) list" where
  "gleaves (GLeaf i es) = [(i, es)]"
| "gleaves (GBranch i ts) = concat (map gleaves ts)"

definition leavesEntries :: "(PageID \<times> gentry list) list \<Rightarrow> (key \<times> bytes) list" where
  "leavesEntries ls = concat (map (\<lambda>(i, es). map kv es) ls)"

lemma leavesEntries_simps [simp]:
  "leavesEntries [] = []" "leavesEntries ((i, es) # ls) = map kv es @ leavesEntries ls"
  "leavesEntries (ls @ ls') = leavesEntries ls @ leavesEntries ls'"
  by (simp_all add: leavesEntries_def)

lemma leavesEntries_concat: "leavesEntries (concat lss) = concat (map leavesEntries lss)"
  by (induction lss) simp_all

lemma leavesEntries_gleaves [simp]: "leavesEntries (gleaves T) = gentries T"
proof (induction T)
  case (GBranch i ts)
  then have "map leavesEntries (map gleaves ts) = map gentries ts" by simp
  then show ?case by (simp only: gleaves.simps gentries.simps leavesEntries_concat)
qed simp

lemma gleaves_nonempty: "shape d K T \<Longrightarrow> gleaves T \<noteq> []"
  by (induction T) (auto simp: neq_Nil_conv)

lemma count_leafIDs: "count (mset (map fst (gleaves T))) i \<le> count (gids T) i"
proof (induction T)
  case (GBranch j ts)
  have "count (mset (map fst (concat (map gleaves ts)))) i \<le> count (sum_list (map gids ts)) i"
    using GBranch by (induction ts) (auto intro: add_mono)
  then show ?case by simp
qed simp

lemma leafIDs_in: "i \<in> set (map fst (gleaves T)) \<Longrightarrow> i \<in># gids T"
proof -
  assume "i \<in> set (map fst (gleaves T))"
  then have "0 < count (mset (map fst (gleaves T))) i" by (simp only: count_greater_zero_iff set_mset_mset)
  then have "0 < count (gids T) i" using count_leafIDs [of T i] by linarith
  then show "i \<in># gids T" by simp
qed

lemma leafIDs_distinct:
  assumes "\<And>i. count (gids T) i \<le> 1" shows "distinct (map fst (gleaves T))"
proof -
  have "count (mset (map fst (gleaves T))) i \<le> 1" for i
    using assms [of i] count_leafIDs [of T i] by linarith
  moreover have "0 < count (mset (map fst (gleaves T))) i" if "i \<in> set (map fst (gleaves T))" for i
    using that by (simp only: count_greater_zero_iff set_mset_mset)
  ultimately show ?thesis
    unfolding distinct_count_atmost_1 by (metis One_nat_def Suc_leI count_eq_zero_iff le_antisym set_mset_mset)
qed

definition leafAt :: "pagemap \<Rightarrow> PageID \<times> gentry list \<Rightarrow> bool" where
  "leafAt pgs l \<longleftrightarrow> (\<exists>p. pgs (fst l) = Some p \<and> leafPage p (fst l) (snd l)) \<and>
     (\<forall>e\<in>set (snd l). entry_ok pgs e)"

lemma rep_leafAt: "rep pgs T \<Longrightarrow> l \<in> set (gleaves T) \<Longrightarrow> leafAt pgs l"
  by (induction T) (auto simp: leafAt_def)

lemma collectLeaves_ok:
  "rep pgs T \<Longrightarrow> collectLeavesInOrder pgs (gid T) = Some (map fst (gleaves T))"
proof (induction T)
  case (GLeaf i es)
  then obtain p where p: "pgs i = Some p" "leafPage p i es" by auto
  then show ?case
    using leafPage_kind [OF p(2)] by (subst collectLeavesInOrder.simps) simp
next
  case (GBranch i ts)
  then obtain p where p: "pgs i = Some p" "branchPage p i (map firstkey (tl ts)) (map gid ts)" by auto
  have "mapM (\<lambda>c. collectLeavesInOrder pgs c) (map gid ts) = Some (map (\<lambda>T. map fst (gleaves T)) ts)"
    using GBranch by (auto simp: mapM_Some_iff)
  then show ?case
    using p(1) branchPage_kind(2,6) [OF p(2)] childIDs_branchPage [OF p(2)]
    by (subst collectLeavesInOrder.simps) (simp add: map_concat comp_def)
qed

section \<open>Relinking keeps the tree\<close>

text \<open>\<open>relinked pgs pgs'\<close>: only the links and checksums of leaf pages differ.\<close>

definition sameLeaf :: "page \<Rightarrow> page \<Rightarrow> bool" where
  "sameLeaf p q \<longleftrightarrow> pid q = pid p \<and> (\<forall>es. holds p flagLeaf es \<longrightarrow> holds q flagLeaf es) \<and>
     isLeaf p \<and> isLeaf q \<and> validChecksum q"

definition relinked :: "pagemap \<Rightarrow> pagemap \<Rightarrow> bool" where
  "relinked pgs pgs' \<longleftrightarrow>
     (\<forall>i. pgs' i = pgs i \<or> (\<exists>p q. pgs i = Some p \<and> pgs' i = Some q \<and> sameLeaf p q))"

lemma relinked_refl [simp]: "relinked pgs pgs"
  by (simp add: relinked_def)

lemma sameLeaf_trans: "sameLeaf p q \<Longrightarrow> sameLeaf q r \<Longrightarrow> sameLeaf p r"
  by (simp add: sameLeaf_def)

lemma relinked_cases:
  assumes "relinked pgs pgs'" "pgs i = Some p"
  obtains "pgs' i = Some p" | q where "pgs' i = Some q" "sameLeaf p q"
  using assms unfolding relinked_def by (metis option.inject)

lemma relinked_other: "relinked pgs pgs' \<Longrightarrow> pgs i = Some p \<Longrightarrow> \<not> isLeaf p \<Longrightarrow> pgs' i = Some p"
  by (erule relinked_cases, assumption) (auto simp: sameLeaf_def)

lemma relinked_trans:
  assumes "relinked a b" "relinked b c" shows "relinked a c"
  unfolding relinked_def
proof
  fix i
  show "c i = a i \<or> (\<exists>p q. a i = Some p \<and> c i = Some q \<and> sameLeaf p q)"
  proof (cases "a i")
    case None
    then have "b i = None" using assms(1) unfolding relinked_def by (metis option.distinct(1))
    then have "c i = None" using assms(2) unfolding relinked_def by (metis option.distinct(1))
    then show ?thesis using None by simp
  next
    case (Some p)
    then obtain q where q: "b i = Some q" "q = p \<or> sameLeaf p q"
      using relinked_cases [OF assms(1)] by metis
    obtain r where "c i = Some r" "r = q \<or> sameLeaf q r"
      using relinked_cases [OF assms(2) q(1)] by metis
    then show ?thesis using Some q by (auto intro: sameLeaf_trans)
  qed
qed

lemma chain_relinked: "chain pgs is v \<Longrightarrow> relinked pgs pgs' \<Longrightarrow> chain pgs' is v"
proof (induction "is" arbitrary: v)
  case (Cons i "is")
  then obtain p where p: "pgs i = Some p"
    "overflow_page p (if is = [] then 0 else hd is) (take overflowPayloadSize v)" by auto
  then have "pgs' i = pgs i"
    using relinked_other [OF Cons.prems(2) p(1)] overflow_page_reads(4) [OF p(2)] by simp
  then show ?case using Cons by auto
qed simp

lemma entry_ok_relinked: "entry_ok pgs e \<Longrightarrow> relinked pgs pgs' \<Longrightarrow> entry_ok pgs' e"
  by (auto simp: entry_ok_def intro: chain_relinked split: prod.splits)

lemma leafPage_sameLeaf: "leafPage p i es \<Longrightarrow> sameLeaf p q \<Longrightarrow> leafPage q i es"
  by (simp add: leafPage_def sameLeaf_def)

lemma rep_relinked: "rep pgs T \<Longrightarrow> relinked pgs pgs' \<Longrightarrow> rep pgs' T"
proof (induction T)
  case (GLeaf i es)
  then obtain p where p: "pgs i = Some p" "leafPage p i es" by auto
  have "\<exists>q. pgs' i = Some q \<and> leafPage q i es"
    by (rule relinked_cases [OF GLeaf.prems(2) p(1)]) (use p(2) leafPage_sameLeaf in blast)+
  then show ?case using GLeaf.prems entry_ok_relinked by auto
next
  case (GBranch i ts)
  then obtain p where p: "pgs i = Some p" "branchPage p i (map firstkey (tl ts)) (map gid ts)" by auto
  have "pgs' i = Some p"
    using relinked_other [OF GBranch.prems(2) p(1)] branchPage_kind(2) [OF p(2)] by simp
  then show ?case using GBranch p(2) by auto
qed

section \<open>Relinking links\<close>

fun linked :: "pagemap \<Rightarrow> PageID list \<Rightarrow> bool" where
  "linked pgs [] \<longleftrightarrow> True"
| "linked pgs (i # is) \<longleftrightarrow>
     (\<exists>p. pgs i = Some p \<and> nextLeaf p = (if is = [] then 0 else hd is)) \<and> linked pgs is"

lemma linked_frame: "linked pgs is \<Longrightarrow> (\<And>i. i \<in> set is \<Longrightarrow> pgs' i = pgs i) \<Longrightarrow> linked pgs' is"
  by (induction "is") auto

lemma markDirty_fields [simp]:
  "pages (markDirty t i) = pages t" "owned (markDirty t i) M = owned t M"
  "room (markDirty t i) n = room t n" "settings (markDirty t i) = settings t"
  "free (markDirty t i) = free t" "retired (markDirty t i) = retired t"
  "nextPage (markDirty t i) = nextPage t" "activeReaders (markDirty t i) = activeReaders t"
  "root (markDirty t i) = root t" "treeLen (markDirty t i) = treeLen t"
  by (simp_all add: markDirty_def markDirtyPage_def owned_def room_def settings_def base_def
      split: option.splits)

lemma sameLeaf_setNextLeaf:
  "leafPage p i es \<Longrightarrow> sameLeaf p (setNextLeaf p n)"
  using holds_header(3) leafPage_kind(1,5) [of p i es]
  by (auto simp: sameLeaf_def setNextLeaf_def isLeaf_def)

lemma nextLeaf_setNextLeaf [simp]: "wf_page p \<Longrightarrow> nextLeaf (setNextLeaf p n) = n"
  by (simp add: nextLeaf_def setNextLeaf_def)

lemma linkLeaves_ok:
  assumes "distinct is" "\<And>i. i \<in> set is \<Longrightarrow> \<exists>p es. pages t i = Some p \<and> leafPage p i es"
  obtains t' where "linkLeaves t is = Some t'" "relinked (pages t) (pages t')"
    "linked (pages t') is" "\<And>i. i \<notin> set is \<Longrightarrow> pages t' i = pages t i"
    "settings t' = settings t" "\<And>M. owned t' M = owned t M" "\<And>n. room t' n = room t n"
    "free t' = free t" "retired t' = retired t" "nextPage t' = nextPage t"
proof -
  have "\<exists>t'. linkLeaves t is = Some t' \<and> relinked (pages t) (pages t') \<and> linked (pages t') is \<and>
      (\<forall>i. i \<notin> set is \<longrightarrow> pages t' i = pages t i) \<and> settings t' = settings t \<and>
      (\<forall>M. owned t' M = owned t M) \<and> (\<forall>n. room t' n = room t n) \<and> free t' = free t \<and>
      retired t' = retired t \<and> nextPage t' = nextPage t"
    using assms
  proof (induction "is" arbitrary: t)
    case Nil
    then show ?case by simp
  next
    case (Cons i "is")
    let ?next = "if is = [] then 0 else hd is"
    obtain p es where p: "pages t i = Some p" "leafPage p i es" using Cons.prems(2) [of i] by auto
    note k = leafPage_kind [OF p(2)]
    define t1 where "t1 = (if nextLeaf p = ?next then t
      else markDirty (putPage t (setNextLeaf p ?next)) i)"
    have pid: "pid (setNextLeaf p ?next) = i" using k(3) by simp
    have pages1: "pages t1 i = Some (if nextLeaf p = ?next then p else setNextLeaf p ?next)"
      "\<And>j. j \<noteq> i \<Longrightarrow> pages t1 j = pages t j"
      using p(1) pid by (simp_all add: t1_def)
    have rel1: "relinked (pages t) (pages t1)"
      unfolding relinked_def
    proof
      fix j
      show "pages t1 j = pages t j \<or>
          (\<exists>p q. pages t j = Some p \<and> pages t1 j = Some q \<and> sameLeaf p q)"
        using pages1 p sameLeaf_setNextLeaf [OF p(2)] by (cases "j = i") auto
    qed
    have "linkLeaves t (i # is) = linkLeaves t1 is" using p(1) by (simp add: t1_def Let_def)
    moreover have "\<exists>p es. pages t1 j = Some p \<and> leafPage p j es" if "j \<in> set is" for j
    proof -
      have "j \<noteq> i" using that Cons.prems(1) by auto
      then show ?thesis using Cons.prems(2) [of j] that pages1(2) [of j] by simp
    qed
    with Cons.IH [of t1] Cons.prems(1) obtain t' where t': "linkLeaves t1 is = Some t'"
      "relinked (pages t1) (pages t')" "linked (pages t') is"
      "\<forall>i. i \<notin> set is \<longrightarrow> pages t' i = pages t1 i" "settings t' = settings t1"
      "\<forall>M. owned t' M = owned t1 M" "\<forall>n. room t' n = room t1 n" "free t' = free t1"
      "retired t' = retired t1" "nextPage t' = nextPage t1"
      by auto
    moreover have "\<exists>q. pages t' i = Some q \<and> nextLeaf q = ?next"
      using t'(4) Cons.prems(1) pages1(1) k(5) by auto
    moreover have "settings t1 = settings t" "owned t1 M = owned t M" "room t1 n = room t n"
      "free t1 = free t" "retired t1 = retired t" "nextPage t1 = nextPage t" for M n
      by (simp_all add: t1_def)
    ultimately show ?case
      using relinked_trans [OF rel1 t'(2)] pages1(2) by (intro exI [of _ t']) auto
  qed
  then show thesis using that by blast
qed

section \<open>Scanning along the links\<close>

lemma leftmostLeaf_ok:
  "rep pgs T \<Longrightarrow> shape d K T \<Longrightarrow> leftmostLeaf pgs (gid T) = Some (fst (hd (gleaves T)))"
proof (induction T)
  case (GLeaf i es)
  then obtain p where p: "pgs i = Some p" "leafPage p i es" by auto
  then show ?case using leafPage_kind [OF p(2)] by (subst leftmostLeaf.simps) simp
next
  case (GBranch i ts)
  then obtain p where p: "pgs i = Some p" "branchPage p i (map firstkey (tl ts)) (map gid ts)" by auto
  obtain T0 ts' where ts: "ts = T0 # ts'" using GBranch.prems by (cases ts) auto
  have "leftmostChild p = gid T0" using p(2) ts by (simp add: branchPage_def)
  moreover have "leftmostLeaf pgs (gid T0) = Some (fst (hd (gleaves T0)))"
    using GBranch ts by simp
  moreover have "gleaves T0 \<noteq> []" using GBranch.prems ts gleaves_nonempty [of d K T0] by simp
  ultimately show ?case
    using p(1) branchPage_kind(2,6) [OF p(2)] by (subst leftmostLeaf.simps) (simp add: ts)
qed

text \<open>
  The state of a scan holds the visitor's state and, where the caller prefetches, the hints
  given so far.  \<open>f\<close> projects it to what the visitor sees; prefetching is silent there.
\<close>

definition sees :: "('s \<Rightarrow> 'u) \<Rightarrow> 's visitor \<Rightarrow> 'u visitor \<Rightarrow> bool" where
  "sees f visit visit0 \<longleftrightarrow>
     (\<forall>s k v. f (fst (visit s k v)) = fst (visit0 (f s) k v) \<and> snd (visit s k v) = snd (visit0 (f s) k v))"

definition silent :: "('s \<Rightarrow> 'u) \<Rightarrow> ('s \<Rightarrow> PageID \<Rightarrow> PageID \<Rightarrow> 's) option \<Rightarrow> bool" where
  "silent f prefetch \<longleftrightarrow> (\<forall>g s a b. prefetch = Some g \<longrightarrow> f (g s a b) = f s)"

definition quiet :: "('s \<Rightarrow> 'u) \<Rightarrow> (PageID \<Rightarrow> 's \<Rightarrow> 's option) \<Rightarrow> PageID list \<Rightarrow> bool" where
  "quiet f pre is \<longleftrightarrow> (\<forall>us vs s. is = us @ vs \<longrightarrow>
     (\<exists>s'. pre (if vs = [] then 0 else hd vs) s = Some s' \<and> f s' = f s))"

lemma visitList_sees:
  "sees f visit visit0 \<Longrightarrow> f (fst (visitList visit s ps)) = fst (visitList visit0 (f s) ps) \<and>
     snd (visitList visit s ps) = snd (visitList visit0 (f s) ps)"
proof (induction ps arbitrary: s)
  case (Cons p ps)
  obtain k v where "p = (k, v)" by (cases p)
  then show ?case using Cons.IH [OF Cons.prems] Cons.prems
    by (auto simp: sees_def Let_def split: prod.splits) (metis fst_conv snd_conv)+
qed simp

lemma sees_refl [simp]: "sees (\<lambda>s. s) visit visit"
  by (simp add: sees_def)

lemma quiet_Cons: "quiet f pre (i # is) \<Longrightarrow> quiet f pre is"
  unfolding quiet_def by (metis append_Cons)

lemma quiet_next:
  assumes "quiet f pre (i # is)"
  obtains s' where "pre (if is = [] then 0 else hd is) s = Some s'" "f s' = f s"
  using assms unfolding quiet_def by (metis append_Cons append_Nil)

lemma quiet_suffix: "quiet f pre (us @ is) \<Longrightarrow> quiet f pre is"
  by (induction us) (auto dest: quiet_Cons)

lemma flushRange_silent: "silent f (Some g) \<Longrightarrow> f (flushRange g cur s) = f s"
  by (simp add: silent_def flushRange_def)

lemma linked_suffix: "linked pgs (is @ js) \<Longrightarrow> linked pgs js"
  by (induction "is") auto

lemma prefetchLoop_ok:
  "silent f (Some g) \<Longrightarrow> linked pgs vs \<Longrightarrow>
   \<forall>i\<in>set vs. \<forall>p. pgs i = Some p \<longrightarrow> (\<exists>b. stop p = Some b) \<Longrightarrow>
     \<exists>s'. prefetchLoop pgs g stop seen cur (if vs = [] then 0 else hd vs) n s = Some s' \<and> f s' = f s"
proof (induction n arbitrary: vs seen cur s)
  case 0
  then show ?case by (simp add: flushRange_silent)
next
  case (Suc n)
  note flush = flushRange_silent [OF Suc.prems(1)]
  show ?case
  proof (cases vs)
    case Nil
    then show ?thesis by (simp add: flush)
  next
    case (Cons i vs')
    obtain p where p: "pgs i = Some p" "nextLeaf p = (if vs' = [] then 0 else hd vs')" "linked pgs vs'"
      using Suc.prems(2) Cons by auto
    obtain b where b: "stop p = Some b" using Suc.prems(3) Cons p(1) by auto
    have ok: "\<forall>i\<in>set vs'. \<forall>p. pgs i = Some p \<longrightarrow> (\<exists>b. stop p = Some b)" using Suc.prems(3) Cons by simp
    note IH = Suc.IH [OF Suc.prems(1) p(3) ok, folded p(2)]
    show ?thesis
      using p(1) b IH [of "insert i seen" "(i, i + 1)" s] IH [of "insert i seen" "(fst cur, i + 1)" s]
        IH [of "insert i seen" "(i, i + 1)" "flushRange g cur s"]
      by (auto simp: Cons flush)
  qed
qed

lemma firstLeafKey_leafPage:
  assumes p: "leafPage p i es" and ne: "es \<noteq> []"
  shows "firstLeafKey p = Some (Some (fst (hd es)))"
proof -
  note k = leafPage_kind [OF p]
  obtain e es' where e: "es = e # es'" using ne by (cases es) auto
  obtain raw f where g: "gcell e = (fst e, raw, f)" by (metis fst_gcell prod.collapse)
  have h: "holds p flagLeaf (map gcell es)" using p by (simp add: leafPage_def)
  have "readCellKey p 0 = Some (fst e)"
    using holds_reads(2) [OF h, of 0 "fst e" raw f] e g by simp
  moreover have "slotCount p \<noteq> 0" using k(4) e by auto
  ultimately show ?thesis using k(1) e by (simp add: firstLeafKey_def)
qed

lemma quiet_prefetch:
  assumes s: "silent f prefetch" and l: "linked pgs (map fst ls)"
    and ok: "\<forall>l\<in>set ls. leafAt pgs l \<and> snd l \<noteq> []"
  shows "quiet f (\<lambda>next. prefetchNextLeafRanges pgs next window prefetch) (map fst ls)"
    "quiet f (\<lambda>next. prefetchNextLeafRangesBefore pgs next window hi cmp prefetch) (map fst ls)"
proof -
  have *: "\<exists>b. map_option (\<lambda>r. case r of None \<Rightarrow> True | Some first \<Rightarrow> 0 \<le> cmp first hi) (firstLeafKey p) = Some b"
    if "map fst ls = us @ vs" "i \<in> set vs" "pgs i = Some p" for us vs i p
  proof -
    have "i \<in> set (map fst ls)" using that(1,2) by simp
    then obtain es where "(i, es) \<in> set ls" by auto
    then have "leafPage p i es" "es \<noteq> []" using ok that(3) by (force simp: leafAt_def)+
    from firstLeafKey_leafPage [OF this] show ?thesis by simp
  qed
  have linked: "linked pgs vs" if "map fst ls = us @ vs" for us vs
    using l linked_suffix that by metis
  show "quiet f (\<lambda>next. prefetchNextLeafRanges pgs next window prefetch) (map fst ls)"
    unfolding quiet_def
  proof (intro allI impI)
    fix us vs s assume vs: "map fst ls = us @ vs"
    show "\<exists>s'. prefetchNextLeafRanges pgs (if vs = [] then 0 else hd vs) window prefetch s = Some s' \<and> f s' = f s"
    proof (cases prefetch)
      case (Some g)
      have "\<forall>i\<in>set vs. \<forall>p. pgs i = Some p \<longrightarrow> (\<exists>b. (\<lambda>p. Some False) p = Some b)" by blast
      from prefetchLoop_ok [OF s [unfolded Some] linked [OF vs] this, of "{}" "(0, 0)" "nat window" s]
      show ?thesis unfolding Some prefetchNextLeafRanges_def by simp
    qed (simp add: prefetchNextLeafRanges_def)
  qed
  show "quiet f (\<lambda>next. prefetchNextLeafRangesBefore pgs next window hi cmp prefetch) (map fst ls)"
    unfolding quiet_def
  proof (intro allI impI)
    fix us vs s assume vs: "map fst ls = us @ vs"
    let ?stop = "\<lambda>p. map_option (\<lambda>r. case r of None \<Rightarrow> True | Some first \<Rightarrow> 0 \<le> cmp first hi) (firstLeafKey p)"
    show "\<exists>s'. prefetchNextLeafRangesBefore pgs (if vs = [] then 0 else hd vs) window hi cmp prefetch s = Some s' \<and>
        f s' = f s"
    proof (cases prefetch)
      case (Some g)
      have "\<forall>i\<in>set vs. \<forall>p. pgs i = Some p \<longrightarrow> (\<exists>b. ?stop p = Some b)" using * [OF vs] by blast
      from prefetchLoop_ok [OF s [unfolded Some] linked [OF vs] this, of "{}" "(0, 0)" "nat window" s]
      show ?thesis unfolding Some prefetchNextLeafRangesBefore_def by simp
    qed (simp add: prefetchNextLeafRangesBefore_def)
  qed
qed

context key_comparator
begin

lemma leafForKey_ok:
  "rep pgs T \<Longrightarrow> shape d K T \<Longrightarrow> ordered cmp T \<Longrightarrow>
     \<exists>pre i es post. gleaves T = pre @ (i, es) # post \<and> leafForKey pgs (gid T) k cmp = Some i \<and>
       (\<forall>x\<in>set (leavesEntries pre). cmp (fst x) k < 0) \<and>
       (\<forall>x\<in>set (leavesEntries post). cmp k (fst x) < 0)"
proof (induction T)
  case (GLeaf i es)
  then obtain p where p: "pgs i = Some p" "leafPage p i es" by auto
  then have "leafForKey pgs i k cmp = Some i" using leafPage_kind [OF p(2)]
    by (subst leafForKey.simps) simp
  then show ?case by (intro exI [of _ "[]"] exI [of _ i] exI [of _ es]) simp
next
  case (GBranch i ts)
  then obtain p where p: "pgs i = Some p" "branchPage p i (map firstkey (tl ts)) (map gid ts)" by auto
  have ts: "ts \<noteq> []" "\<forall>T\<in>set ts. gentries T \<noteq> []" and srt: "sorted_by cmp (concat (map gentries ts))"
    using GBranch.prems by (auto simp: ordered_def)
  let ?n = "childIndex (map firstkey (tl ts)) k cmp"
  note r = route [OF srt ts(2,1), where k = k]
  have m: "ts ! ?n \<in> set ts" using r(1) by simp
  then obtain pre j es post where c: "gleaves (ts ! ?n) = pre @ (j, es) # post"
    "leafForKey pgs (gid (ts ! ?n)) k cmp = Some j" "\<forall>x\<in>set (leavesEntries pre). cmp (fst x) k < 0"
    "\<forall>x\<in>set (leavesEntries post). cmp k (fst x) < 0"
    using GBranch.IH [OF m] GBranch.prems sorted_child [OF srt m] by (auto simp: ordered_def)
  let ?pre = "concat (map gleaves (take ?n ts)) @ pre"
  have "gleaves (GBranch i ts) = ?pre @ (j, es) # post @ concat (map gleaves (drop (Suc ?n) ts))"
    by (simp, subst split_at [OF r(1)]) (simp add: c(1))
  moreover have "leafForKey pgs i k cmp = Some j"
    using p(1) branchPage_kind(2,6) [OF p(2)] branch_search_ok [OF p(2) ts(1) srt ts(2), of k] c(2)
    by (subst leafForKey.simps) simp
  moreover have "leavesEntries (concat (map gleaves us)) = concat (map gentries us)" for us
    by (simp add: leavesEntries_concat comp_def)
  then have "\<forall>x\<in>set (leavesEntries ?pre). cmp (fst x) k < 0"
    "\<forall>x\<in>set (leavesEntries (post @ concat (map gleaves (drop (Suc ?n) ts)))). cmp k (fst x) < 0"
    using r(2,3) c(3,4) by (fastforce simp del: set_concat)+
  ultimately show ?case by (metis gid.simps(2))
qed

text \<open>The shared loop from any suffix of the leaves.\<close>

lemma linkedLoop_ok:
  fixes f :: "'s \<Rightarrow> 'u" and visit :: "'s visitor" and visit0 :: "'u visitor"
  assumes sees: "sees f visit visit0"
  shows "\<forall>l\<in>set ls. leafAt pgs l \<and> snd l \<noteq> [] \<Longrightarrow> linked pgs (map fst ls) \<Longrightarrow> distinct (map fst ls) \<Longrightarrow>
   sorted_by cmp (leavesEntries ls) \<Longrightarrow> fst ` set ls \<inter> seen = {} \<Longrightarrow>
   quiet f pre (map fst ls) \<Longrightarrow> n \<le> length (leavesEntries (take 1 ls)) \<Longrightarrow>
   (\<And>p. ls \<noteq> [] \<Longrightarrow> pgs (fst (hd ls)) = Some p \<Longrightarrow> index p = Some n) \<Longrightarrow>
     \<exists>s'. linkedLoop pgs bound hasEnd cmp pre visit index seen (if ls = [] then 0 else fst (hd ls)) s =
       Some (s', True) \<and>
     f s' = fst (visitList visit0 (f s) (if hasEnd then below_key cmp bound (drop n (leavesEntries ls))
                                   else drop n (leavesEntries ls)))"
proof (induction ls arbitrary: index seen n s)
  case Nil
  then show ?case by (subst linkedLoop.simps) simp
next
  case (Cons l ls)
  obtain i es where l: "l = (i, es)" by (cases l)
  obtain p where p: "pgs i = Some p" "leafPage p i es" and ok: "\<forall>e\<in>set es. entry_ok pgs e"
    and ne: "es \<noteq> []" and next': "nextLeaf p = (if ls = [] then 0 else fst (hd ls))"
    using Cons.prems(1,2) l by (auto simp: leafAt_def hd_map)
  note k = leafPage_kind [OF p(2)]
  have srt: "sorted_by cmp (map kv es)" "sorted_by cmp (leavesEntries ls)"
    and le: "\<And>x y. x \<in> set (map kv es) \<Longrightarrow> y \<in> set (leavesEntries ls) \<Longrightarrow> cmp (fst x) (fst y) < 0"
    using Cons.prems(4) l by (simp_all add: sorted_by_append) fastforce
  have n: "n \<le> length es" using Cons.prems(7) l by simp
  have i: "i \<noteq> 0" "i \<notin> seen" using k(6) Cons.prems(5) l by auto
  have idx: "index p = Some n" using Cons.prems(8) p(1) l by simp
  let ?E = "drop n (map kv es)" and ?R = "leavesEntries ls"
  let ?b = "\<lambda>xs. if hasEnd then below_key cmp bound xs else xs"
  have slots: "rangeLeafSlots pgs p n bound hasEnd cmp visit s' = Some (visitList visit s' (?b ?E))" for s'
    by (rule rangeLeafSlots_ok [OF p(2) ok srt(1)])
  have first: "firstLeafKey p = Some (Some (fst (hd es)))"
    by (rule firstLeafKey_leafPage [OF p(2) ne])
  have stop: "?b (drop n (leavesEntries (l # ls))) = []"
    if "hasEnd" "0 \<le> cmp (fst (hd es)) bound"
  proof -
    have "0 \<le> cmp (fst x) bound" if "x \<in> set (map kv es) \<union> set ?R" for x
    proof -
      have hd: "kv (hd es) \<in> set (map kv es)" using ne by simp
      have "cmp (fst (hd es)) (fst x) \<le> 0"
      proof (cases "x \<in> set (map kv es)")
        case True
        then show ?thesis using srt(1) ne by (cases es) auto
      next
        case False
        then show ?thesis using le [OF hd, of x] \<open>x \<in> _\<close> by simp
      qed
      then show ?thesis using \<open>0 \<le> cmp (fst (hd es)) bound\<close> by (metis cmp_le_less_trans not_less)
    qed
    moreover have "set (drop n (leavesEntries (l # ls))) \<subseteq> set (map kv es) \<union> set ?R"
      using l by (auto dest!: in_set_dropD)
    ultimately have "\<forall>x\<in>set (drop n (leavesEntries (l # ls))). 0 \<le> cmp (fst x) bound" by blast
    then show ?thesis using \<open>hasEnd\<close> unfolding range_empty_iff(2) [symmetric] by simp
  qed
  have split: "?b (drop n (leavesEntries (l # ls))) = ?b ?E @ ?b ?R"
    using n l by simp
  have q: "quiet f pre (i # map fst ls)" using Cons.prems(6) l by simp
  obtain s1 where s1: "pre (nextLeaf p) s = Some s1" "f s1 = f s"
    using quiet_next [OF q, of s] next' by (auto simp: hd_map split: if_splits)
  have rec: "\<exists>s2. linkedLoop pgs bound hasEnd cmp pre visit (\<lambda>p. Some 0) (insert i seen) (nextLeaf p) s' =
      Some (s2, True) \<and> f s2 = fst (visitList visit0 (f s') (?b ?R))" for s'
    unfolding next'
    using Cons.IH [of "insert i seen" 0 "\<lambda>p. Some 0" s'] Cons.prems srt(2) l quiet_Cons [OF q] by auto
  show ?case
  proof (cases "hasEnd \<and> 0 \<le> cmp (fst (hd es)) bound")
    case True
    then have e: "?b (drop n (leavesEntries (l # ls))) = []" using stop by blast
    show ?thesis unfolding e using True p(1) i k(1) first l
      by (subst linkedLoop.simps) simp
  next
    case False
    obtain s2 ok where vl: "visitList visit s1 (?b ?E) = (s2, ok)" by (cases "visitList visit s1 (?b ?E)")
    have vl0: "visitList visit0 (f s) (?b ?E) = (f s2, ok)"
      using visitList_sees [OF sees, of s1 "?b ?E"] vl s1(2)
      by (cases "visitList visit0 (f s) (?b ?E)") auto
    obtain s3 where s3: "linkedLoop pgs bound hasEnd cmp pre visit (\<lambda>p. Some 0) (insert i seen) (nextLeaf p) s2 =
      Some (s3, True)" "f s3 = fst (visitList visit0 (f s2) (?b ?R))" using rec by blast
    show ?thesis
      unfolding split visitList_append vl0
      using False p(1) i k(1) first l idx slots [of s1] s1(1) vl s3
      by (subst linkedLoop.simps) auto
  qed
qed

lemma gleaves_ok:
  "rep pgs T \<Longrightarrow> shape d K T \<Longrightarrow> \<forall>l\<in>set (gleaves T). leafAt pgs l \<and> snd l \<noteq> []"
proof (induction T)
  case (GLeaf i es)
  then show ?case by (auto simp: leafAt_def)
next
  case (GBranch i ts)
  then show ?case by auto
qed

lemma rangeLinkedLeaves_ok:
  assumes T: "rep pgs T" "shape d K T" "ordered cmp T" "linked pgs (map fst (gleaves T))"
    "distinct (map fst (gleaves T))" and v: "sees f visit visit0" "silent f prefetch"
  shows "\<exists>s'. rangeLinkedLeaves pgs (gid T) cmp window prefetch visit s = Some (s', True) \<and>
    f s' = fst (visitList visit0 (f s) (gentries T))"
  using linkedLoop_ok [OF v(1) gleaves_ok [OF T(1,2)] T(4,5) _ _
      quiet_prefetch(1) [OF v(2) T(4) gleaves_ok [OF T(1,2)], of window], of "{}" 0
      "\<lambda>p. Some 0" "[]" False s] T(3) leftmostLeaf_ok [OF T(1,2)] gleaves_nonempty [OF T(2)]
  by (simp add: rangeLinkedLeaves_def ordered_def)

text \<open>The suffix of the leaves from the one the start key is routed to.\<close>

lemma linked_from:
  fixes f :: "'s \<Rightarrow> 'u" and visit :: "'s visitor" and visit0 :: "'u visitor"
  assumes T: "rep pgs T" "shape d K T" "ordered cmp T" "linked pgs (map fst (gleaves T))"
    "distinct (map fst (gleaves T))"
    and sees: "sees f visit visit0" and pre: "quiet f pre (map fst (gleaves T))"
  obtains i s' where "leafForKey pgs (gid T) lo cmp = Some i"
    "linkedLoop pgs bound hasEnd cmp pre visit
       (\<lambda>p. map_option fst (searchSlotWithComparator p lo cmp)) {} i s = Some (s', True)"
    "f s' = fst (visitList visit0 (f s)
       (if hasEnd then below_key cmp bound (atLeast_key cmp lo (gentries T))
        else atLeast_key cmp lo (gentries T)))"
proof -
  obtain ls0 i es ls where g: "gleaves T = ls0 @ (i, es) # ls" "leafForKey pgs (gid T) lo cmp = Some i"
    "\<forall>x\<in>set (leavesEntries ls0). cmp (fst x) lo < 0"
    "\<forall>x\<in>set (leavesEntries ls). cmp lo (fst x) < 0"
    using leafForKey_ok [OF T(1-3), of lo] by blast
  let ?ls = "(i, es) # ls" and ?r = "rank (\<lambda>p. cmp (fst p) lo) (map kv es)"
  have E: "gentries T = leavesEntries ls0 @ map kv es @ leavesEntries ls"
    using leavesEntries_gleaves [of T] g(1) by simp
  have srt: "sorted_by cmp (leavesEntries ?ls)" "sorted_by cmp (map kv es)"
    using T(3) E by (simp_all add: ordered_def sorted_by_append)
  obtain p where p: "pgs i = Some p" "leafPage p i es"
    using gleaves_ok [OF T(1,2)] g(1) by (auto simp: leafAt_def)
  have r: "?r \<le> length es" using rank_le [of _ "map kv es"] by simp
  have "0 \<le> cmp (fst x) lo" if "x \<in> set (leavesEntries ls)" for x
    using g(4) that cmp_swap [of lo "fst x"] by force
  then have "atLeast_key cmp lo (leavesEntries ls) = leavesEntries ls"
    by (simp add: atLeast_key_def filter_id_conv)
  then have "atLeast_key cmp lo (leavesEntries ?ls) = drop ?r (leavesEntries ?ls)"
    using atLeast_rank [OF srt(2), of lo] r by simp
  moreover have "atLeast_key cmp lo (leavesEntries ls0) = []" using g(3) by (simp add: range_empty_iff)
  ultimately have at: "atLeast_key cmp lo (gentries T) = drop ?r (leavesEntries ?ls)" using E by simp
  have "\<exists>s'. linkedLoop pgs bound hasEnd cmp pre visit
       (\<lambda>p. map_option fst (searchSlotWithComparator p lo cmp)) {} (if ?ls = [] then 0 else fst (hd ?ls)) s =
     Some (s', True) \<and>
     f s' = fst (visitList visit0 (f s) (if hasEnd then below_key cmp bound (drop ?r (leavesEntries ?ls))
                                   else drop ?r (leavesEntries ?ls)))"
  proof (rule linkedLoop_ok [OF sees])
    show "quiet f pre (map fst ?ls)"
      using pre g(1) quiet_suffix [of f pre "map fst ls0" "map fst ?ls"] by simp
    show "\<forall>l\<in>set ?ls. leafAt pgs l \<and> snd l \<noteq> []" using gleaves_ok [OF T(1,2)] g(1) by auto
    show "linked pgs (map fst ?ls)" 
      using T(4) g(1) linked_suffix [of pgs "map fst ls0" "map fst ?ls"] by (simp del: linked.simps)
    show "distinct (map fst ?ls)" using T(5) g(1) by simp
    show "?r \<le> length (leavesEntries (take 1 ?ls))" using r by simp
    show "map_option fst (searchSlotWithComparator q lo cmp) = Some ?r"
      if "pgs (fst (hd ?ls)) = Some q" for q
      using that p(1) searchSlot_leaf [OF p(2) srt(2), of lo] by simp
  qed (use srt in simp_all)
  then show thesis using that [of i] g(2) at by auto
qed

lemma rangeLinkedLeavesFrom_ok:
  assumes T: "rep pgs T" "shape d K T" "ordered cmp T" "linked pgs (map fst (gleaves T))"
    "distinct (map fst (gleaves T))" and v: "sees f visit visit0" "silent f prefetch"
  shows "\<exists>s'. rangeLinkedLeavesFrom pgs (gid T) lo cmp window prefetch visit s = Some (s', True) \<and>
    f s' = fst (visitList visit0 (f s) (atLeast_key cmp lo (gentries T)))"
  by (rule linked_from [OF T v(1) quiet_prefetch(1) [OF v(2) T(4) gleaves_ok [OF T(1,2)], of window],
        where lo = lo and bound = "[]" and hasEnd = False and s = s])
    (simp add: rangeLinkedLeavesFrom_def)

lemma rangeLinkedLeavesBetween_ok:
  assumes T: "rep pgs T" "shape d K T" "ordered cmp T" "linked pgs (map fst (gleaves T))"
    "distinct (map fst (gleaves T))" and v: "sees f visit visit0" "silent f prefetch"
  shows "\<exists>s'. rangeLinkedLeavesBetween pgs (gid T) lo hi cmp window prefetch visit s = Some (s', True) \<and>
    f s' = fst (visitList visit0 (f s)
      (if cmp lo hi < 0 then below_key cmp hi (atLeast_key cmp lo (gentries T)) else []))"
  by (rule linked_from [OF T v(1) quiet_prefetch(2) [OF v(2) T(4) gleaves_ok [OF T(1,2)], of window hi cmp],
        where lo = lo and bound = hi and hasEnd = True and s = s])
    (simp add: rangeLinkedLeavesBetween_def)

end

section \<open>Relinking the tree\<close>

lemma relinkLeaves_ok:
  assumes rep: "rep (pages t) T" and root: "root t = gid T" and d: "\<And>i. count (gids T) i \<le> 1"
  obtains t' where "relinkLeaves t = Some t'" "relinked (pages t) (pages t')"
    "activeReaderCount t \<le> 0 \<Longrightarrow> linked (pages t') (map fst (gleaves T))"
    "\<And>i. i \<notin># gids T \<Longrightarrow> pages t' i = pages t i"
    "settings t' = settings t" "\<And>M. owned t' M = owned t M" "\<And>n. room t' n = room t n"
    "free t' = free t" "retired t' = retired t" "nextPage t' = nextPage t"
proof (cases "0 < activeReaderCount t")
  case True
  then show thesis using that [of t] by (simp add: relinkLeaves_def)
next
  case False
  let ?is = "map fst (gleaves T)"
  have d': "distinct ?is" by (rule leafIDs_distinct [OF d])
  have lp: "\<exists>p es. pages t i = Some p \<and> leafPage p i es" if i: "i \<in> set ?is" for i
  proof -
    obtain l where "l \<in> set (gleaves T)" "i = fst l" using i by auto
    then show ?thesis using rep_leafAt [OF rep, of l] by (auto simp: leafAt_def)
  qed
  obtain t' where t': "linkLeaves t ?is = Some t'" "relinked (pages t) (pages t')"
    "linked (pages t') ?is" "\<And>i. i \<notin> set ?is \<Longrightarrow> pages t' i = pages t i"
    "settings t' = settings t" "\<And>M. owned t' M = owned t M" "\<And>n. room t' n = room t n"
    "free t' = free t" "retired t' = retired t" "nextPage t' = nextPage t"
    by (rule linkLeaves_ok [OF d' lp]) (assumption, rule that)
  have "relinkLeaves t = Some t'"
    using t'(1) collectLeaves_ok [OF rep] root gid_nonzero [OF rep] False
    by (simp add: relinkLeaves_def)
  moreover have "pages t' i = pages t i" if "i \<notin># gids T" for i
    using that t'(4) [of i] leafIDs_in by blast
  ultimately show thesis using that [of t'] t' by blast
qed

end
