(* ===== verification/Insert.thy ===== *)
theory Insert
  imports LeafLinks
begin

text \<open>
  Insertion (\<^verbatim>\<open>pagebtree/insert.go\<close>): writing leaf entries with overflow of large values,
  splitting leaves and branches, and the copy-on-write descent.  A page object \<open>p\<close> that the
  Go code mutates through a pointer is returned by the model and stored back under its id.

  A result is \<open>(t, old, replaced, split)\<close>; a nil old value is the empty one.
\<close>

section \<open>Writing leaf entries\<close>

definition leafEntryCellBytes :: "leafEntry \<Rightarrow> nat" where
  "leafEntryCellBytes e = slotSize + length (le_key e) + length (le_value e)"

definition inlineEntry :: "leafEntry \<Rightarrow> bool" where
  "inlineEntry e \<longleftrightarrow> and (le_slotFlags e) slotFlagOverflow = 0"

text \<open>The loop keeps the index and size of the largest inline entry so far.\<close>

fun largestInlineLoop :: "nat \<Rightarrow> leafEntry list \<Rightarrow> (nat \<times> nat) option \<Rightarrow> (nat \<times> nat) option" where
  "largestInlineLoop i [] best = best"
| "largestInlineLoop i (e # es) best =
     (if \<not> inlineEntry e then largestInlineLoop (Suc i) es best
      else let size = length (le_key e) + length (le_value e) in
           if (case best of None \<Rightarrow> True | Some (_, s) \<Rightarrow> s < size)
           then largestInlineLoop (Suc i) es (Some (i, size))
           else largestInlineLoop (Suc i) es best)"

definition largestInlineLeafEntry :: "leafEntry list \<Rightarrow> nat option" where
  "largestInlineLeafEntry es = map_option fst (largestInlineLoop 0 es None)"

lemma largestInlineLoop_inv:
  assumes "largestInlineLoop i es best = Some (j, s)"
  shows "(best = Some (j, s) \<or> (\<exists>m<length es. j = i + m \<and> inlineEntry (es ! m) \<and>
            s = length (le_key (es ! m)) + length (le_value (es ! m)))) \<and>
    (\<forall>e\<in>set es. inlineEntry e \<longrightarrow> length (le_key e) + length (le_value e) \<le> s) \<and>
    (\<forall>j' s'. best = Some (j', s') \<longrightarrow> s' \<le> s)"
  using assms
proof (induction es arbitrary: i best)
  case (Cons e es)
  let ?size = "length (le_key e) + length (le_value e)"
  let ?take = "inlineEntry e \<and> (case best of None \<Rightarrow> True | Some (_, s) \<Rightarrow> s < ?size)"
  define b where "b = (if ?take then Some (i, ?size) else best)"
  have "largestInlineLoop (Suc i) es b = Some (j, s)"
    using Cons.prems by (auto simp: b_def Let_def split: if_splits)
  note ih = Cons.IH [OF this]
  have shift: "(\<exists>m<length es. j = Suc i + m \<and> Q (es ! m)) \<Longrightarrow> (\<exists>m<length (e # es). j = i + m \<and> Q ((e # es) ! m))" for Q
    by (metis add_Suc_shift length_Cons not_less_eq nth_Cons_Suc)
  show ?case
  proof (cases ?take)
    case True
    then have b: "b = Some (i, ?size)" by (simp add: b_def)
    have "best = Some (j, s) \<or> (\<exists>m<length (e # es). j = i + m \<and> inlineEntry ((e # es) ! m) \<and>
            s = length (le_key ((e # es) ! m)) + length (le_value ((e # es) ! m)))"
      using ih b True shift [of "\<lambda>x. inlineEntry x \<and> s = length (le_key x) + length (le_value x)"] by auto
    then show ?thesis using ih b True by (auto split: option.splits)
  next
    case False
    then have b: "b = best" unfolding b_def by (rule if_not_P)
    have "best = Some (j, s) \<or> (\<exists>m<length (e # es). j = i + m \<and> inlineEntry ((e # es) ! m) \<and>
            s = length (le_key ((e # es) ! m)) + length (le_value ((e # es) ! m)))"
      using ih b shift [of "\<lambda>x. inlineEntry x \<and> s = length (le_key x) + length (le_value x)"] by auto
    moreover have "inlineEntry e \<longrightarrow> ?size \<le> s"
      using False ih b by (auto split: option.splits)
    ultimately show ?thesis using ih b by auto
  qed
qed simp

lemma largestInlineLoop_None:
  "largestInlineLoop i es best = None \<longleftrightarrow> best = None \<and> (\<forall>e\<in>set es. \<not> inlineEntry e)"
  by (induction i es best rule: largestInlineLoop.induct) (auto simp: Let_def split: option.splits)

lemma largestInlineLeafEntry_Some:
  assumes "largestInlineLeafEntry es = Some i"
  shows "i < length es" "inlineEntry (es ! i)"
    "e \<in> set es \<Longrightarrow> inlineEntry e \<Longrightarrow> length (le_key e) + length (le_value e)
       \<le> length (le_key (es ! i)) + length (le_value (es ! i))"
proof -
  obtain s where "largestInlineLoop 0 es None = Some (i, s)"
    using assms by (auto simp: largestInlineLeafEntry_def)
  from largestInlineLoop_inv [OF this]
  show "i < length es" "inlineEntry (es ! i)"
    "e \<in> set es \<Longrightarrow> inlineEntry e \<Longrightarrow> length (le_key e) + length (le_value e)
       \<le> length (le_key (es ! i)) + length (le_value (es ! i))"
    by auto
qed

lemma largestInlineLeafEntry_None:
  "largestInlineLeafEntry es = None \<longleftrightarrow> (\<forall>e\<in>set es. \<not> inlineEntry e)"
  by (simp add: largestInlineLeafEntry_def largestInlineLoop_None)

text \<open>The first loop of \<^verbatim>\<open>writeLeafEntries\<close>: entries not yet encoded get their cell value.\<close>

fun encodeEntries :: "Tree \<Rightarrow> leafEntry list \<Rightarrow> (leafEntry list \<times> Tree) option" where
  "encodeEntries t [] = Some ([], t)"
| "encodeEntries t (e # es) = do {
     (e', t1) \<leftarrow> (if le_encoded e then Some (e, t)
        else do {
          (raw, f, t1) \<leftarrow> leafCellValue t (le_key e) (le_value e);
          Some (e\<lparr>le_value := raw, le_slotFlags := f, le_encoded := True\<rparr>, t1)
        });
     (es', t2) \<leftarrow> encodeEntries t1 es;
     Some (e' # es', t2)
   }"

text \<open>The second loop: while the page is too full, the largest inline value moves out.\<close>

definition spillEntry :: "leafEntry list \<Rightarrow> nat \<Rightarrow> bytes \<Rightarrow> leafEntry list" where
  "spillEntry es i raw =
     es[i := (es ! i)\<lparr>le_value := raw, le_slotFlags := slotFlagOverflow\<rparr>]"

lemma spillEntry_less:
  assumes "i < length es" "inlineEntry (es ! i)"
  shows "length (filter inlineEntry (spillEntry es i raw)) < length (filter inlineEntry es)"
proof -
  have "\<not> inlineEntry ((es ! i)\<lparr>le_value := raw, le_slotFlags := slotFlagOverflow\<rparr>)"
    by (simp add: inlineEntry_def slotFlagOverflow_def)
  then show ?thesis
    using assms by (simp add: spillEntry_def upd_conv_take_nth_drop) (subst (2) split_at [OF assms(1)], simp)
qed

function writeLeafLoop :: "Tree \<Rightarrow> page \<Rightarrow> PageID \<Rightarrow> leafEntry list \<Rightarrow> (page \<times> Tree) option" where
  "writeLeafLoop t p next es =
     (case writeEncodedLeafEntries p es of
        (p', True) \<Rightarrow> Some (setNextLeaf p' next, t)
      | (p', False) \<Rightarrow>
          (case largestInlineLeafEntry es of
             None \<Rightarrow> None
           | Some i \<Rightarrow>
               (case overflowCellValue t (le_value (es ! i)) of
                  None \<Rightarrow> None
                | Some (raw, t') \<Rightarrow> writeLeafLoop t' p' next (spillEntry es i raw))))"
  by pat_completeness auto
termination
  by (relation "measure (\<lambda>(t, p, next, es). length (filter inlineEntry es))")
    (auto intro!: spillEntry_less dest: largestInlineLeafEntry_Some)

declare writeLeafLoop.simps [simp del]

definition writeLeafEntries :: "Tree \<Rightarrow> page \<Rightarrow> leafEntry list \<Rightarrow> (page \<times> Tree) option" where
  "writeLeafEntries t p es = do {
     let next = nextLeaf p;
     (es', t1) \<leftarrow> encodeEntries t es;
     writeLeafLoop t1 p next es'
   }"

section \<open>Split points\<close>

definition absInt :: "int \<Rightarrow> int" where
  "absInt v = (if v < 0 then - v else v)"

text \<open>
  The loop over the entries: \<open>i\<close> is the index, \<open>prefix\<close> the bytes before it, and a split after
  entry \<open>i\<close> is taken when it lies in the window and balances the bytes better.
\<close>

fun leafSplitLoop :: "int \<Rightarrow> int \<Rightarrow> int \<Rightarrow> int \<Rightarrow> int \<Rightarrow> leafEntry list \<Rightarrow> int \<Rightarrow> int \<Rightarrow> int" where
  "leafSplitLoop minLeft maxLeft whole i prefix [] best bestDistance = best"
| "leafSplitLoop minLeft maxLeft whole i prefix (e # es) best bestDistance =
     (let prefix = prefix + int (leafEntryCellBytes e); split = i + 1 in
      if split < minLeft \<or> maxLeft < split
      then leafSplitLoop minLeft maxLeft whole (i + 1) prefix es best bestDistance
      else let distance = absInt (whole - 2 * prefix) in
        if distance < bestDistance
        then leafSplitLoop minLeft maxLeft whole (i + 1) prefix es split distance
        else leafSplitLoop minLeft maxLeft whole (i + 1) prefix es best bestDistance)"

definition leafSplitIndex :: "leafEntry list \<Rightarrow> nat \<Rightarrow> int" where
  "leafSplitIndex entries d =
     (let n = int (length entries) in
      if n < 2 then n
      else
        let minLeft = max 1 (int d - 1);
            minLeft = (if n - 1 < minLeft then n div 2 else minLeft);
            maxLeft = min (n - minLeft) (int (maxKeys d));
            minNeeded = n - int (maxKeys d);
            minLeft = (if minLeft < minNeeded then minNeeded else minLeft)
        in if maxLeft < minLeft then n div 2
           else let whole = int (sum_list (map leafEntryCellBytes entries))
                in leafSplitLoop minLeft maxLeft whole 0 0 entries minLeft whole)"

definition branchCellBytes :: "key \<Rightarrow> nat" where
  "branchCellBytes k = slotSize + length k + 8"

text \<open>\<^verbatim>\<open>prefix[i]\<close>: the bytes of the first \<open>i\<close> separators.\<close>

definition branchPrefix :: "key list \<Rightarrow> int list" where
  "branchPrefix keys = map (\<lambda>i. int (sum_list (map branchCellBytes (take i keys)))) [0..<Suc (length keys)]"

definition branchPageBytes :: "int list \<Rightarrow> nat \<Rightarrow> int" where
  "branchPageBytes prefix keyCount = int pageHeaderSize + prefix ! keyCount"

definition branchPageBytesSuffix :: "int list \<Rightarrow> nat \<Rightarrow> int" where
  "branchPageBytesSuffix prefix start = int pageHeaderSize + last prefix - prefix ! start"

text \<open>The best of a list of candidates under a distance, the first one winning ties.\<close>

fun bestSplit :: "('a \<Rightarrow> int) \<Rightarrow> 'a \<Rightarrow> 'a list \<Rightarrow> 'a" where
  "bestSplit dist best [] = best"
| "bestSplit dist best (i # is) =
     (if dist i < dist best then bestSplit dist i is else bestSplit dist best is)"

definition branchSplitIndex :: "key list \<Rightarrow> nat \<Rightarrow> nat" where
  "branchSplitIndex keys d =
     (let n = int (length keys) in
      if n < 3 then length keys div 2
      else
        let minK = max 1 (int d - 1);
            lo = max minK (n - 1 - int (maxKeys d));
            hi = min (int (maxKeys d)) (n - 1 - minK)
        in if hi < lo then length keys div 2
           else let prefix = branchPrefix keys;
                    dist = (\<lambda>i. absInt (branchPageBytes prefix (nat i)
                                        - branchPageBytesSuffix prefix (nat i + 1)))
                in nat (bestSplit dist lo [lo + 1..hi]))"

section \<open>Inserting\<close>

record splitResult =
  separator :: key
  right :: PageID

type_synonym insertResult = "bytes \<times> bool \<times> splitResult option"

definition newEntry :: "key \<Rightarrow> bytes \<Rightarrow> leafEntry" where
  "newEntry k v = \<lparr>le_key = k, le_value = v, le_encoded = False, le_slotFlags = 0\<rparr>"

text \<open>The split of a leaf that overflowed: \<open>p\<close> keeps the entries before \<open>mid\<close>.\<close>

definition splitLeaf :: "Tree \<Rightarrow> page \<Rightarrow> leafEntry list \<Rightarrow> (Tree \<times> insertResult) option" where
  "splitLeaf t p entries = do {
     let next = nextLeaf p;
     let mid = nat (leafSplitIndex entries (degree t));
     (rightID, t1) \<leftarrow> allocPage t;
     (r, t2) \<leftarrow> treeNewPage t1 rightID flagLeaf;
     (p', t3) \<leftarrow> writeLeafEntries (putPage t2 r) p (take mid entries);
     (r', t4) \<leftarrow> writeLeafEntries (putPage t3 p') r (drop mid entries);
     check (mid < length entries);
     Some (putPage (putPage t4 (setNextLeaf p' rightID)) (setNextLeaf r' next),
           [], False, Some \<lparr>separator = le_key (entries ! mid), right = rightID\<rparr>)
   }"

definition insertLeaf :: "Tree \<Rightarrow> PageID \<Rightarrow> key \<Rightarrow> bytes \<Rightarrow> (Tree \<times> insertResult) option" where
  "insertLeaf t i k v = do {
     p \<leftarrow> pages t i;
     entries \<leftarrow> leafEntries p;
     let (index, found) = binarySearchFunc (\<lambda>e. compareKeys t (le_key e) k) entries;
     (if found then do {
        let e = entries ! index;
        old \<leftarrow> resolveLeafValue (pages t) (le_value e) (le_slotFlags e);
        t1 \<leftarrow> retireOverflowValue t (le_value e) (le_slotFlags e);
        (p', t2) \<leftarrow> writeLeafEntries t1 p (entries[index := newEntry k v]);
        Some (putPage t2 p', old, True, None)
      }
      else do {
        let entries = insertAt entries index (newEntry k v);
        (if length entries \<le> maxKeys (degree t) then do {
           (p', t1) \<leftarrow> writeLeafEntries t p entries;
           Some (putPage t1 p', [], False, None)
         }
         else splitLeaf t p entries)
      })
   }"

text \<open>What \<^verbatim>\<open>insertBranch\<close> does before it descends: copy the child and point at the copy.\<close>

definition insertBranchDescend ::
  "Tree \<Rightarrow> page \<Rightarrow> key \<Rightarrow> (key list \<times> PageID list \<times> nat \<times> PageID \<times> Tree) option" where
  "insertBranchDescend t p k = do {
     (keys, children) \<leftarrow> branchParts p;
     let index = childIndex keys k (compareKeys t);
     check (index < length children);
     (copied, t1) \<leftarrow> copyPage t (children ! index);
     let children = children[index := copied];
     p' \<leftarrow> mustWriteBranchParts p keys children;
     Some (keys, children, index, copied, putPage t1 p')
   }"

text \<open>What it does with the child's split.\<close>

definition insertBranchFinish ::
  "Tree \<Rightarrow> PageID \<Rightarrow> key list \<Rightarrow> PageID list \<Rightarrow> nat \<Rightarrow> bytes \<Rightarrow> bool \<Rightarrow> splitResult option \<Rightarrow>
   (Tree \<times> insertResult) option" where
  "insertBranchFinish t i keys children index old replaced split =
     (case split of
        None \<Rightarrow> Some (t, old, replaced, None)
      | Some sr \<Rightarrow> do {
          p \<leftarrow> pages t i;
          let keys = insertAt keys index (separator sr);
          let children = insertAt children (index + 1) (right sr);
          (if length keys \<le> maxKeys (degree t) then do {
             p' \<leftarrow> mustWriteBranchParts p keys children;
             Some (putPage t p', old, replaced, None)
           }
           else do {
             let mid = branchSplitIndex keys (degree t);
             check (mid < length keys);
             (rightID, t1) \<leftarrow> allocPage t;
             (r, t2) \<leftarrow> treeNewPage t1 rightID flagBranch;
             p' \<leftarrow> mustWriteBranchParts p (take mid keys) (take (mid + 1) children);
             r' \<leftarrow> mustWriteBranchParts r (drop (mid + 1) keys) (drop (mid + 1) children);
             Some (putPage (putPage t2 p') r', old, replaced,
                   Some \<lparr>separator = keys ! mid, right = rightID\<rparr>)
           })
        })"

partial_function (option) treeInsert ::
  "Tree \<Rightarrow> PageID \<Rightarrow> key \<Rightarrow> bytes \<Rightarrow> (Tree \<times> insertResult) option" where
  "treeInsert t i k v = do {
     p \<leftarrow> pages t i;
     (if isLeaf p then insertLeaf t i k v
      else do {
        (keys, children, index, copied, t1) \<leftarrow> insertBranchDescend t p k;
        (t2, old, replaced, split) \<leftarrow> treeInsert t1 copied k v;
        insertBranchFinish t2 i keys children index old replaced split
      })
   }"

end
