(* ===== verification/LeafInsert.thy ===== *)
theory LeafInsert
  imports Insert
begin

text \<open>
  Writing leaf entries and inserting into a leaf: the split points lie where the fill bounds
  need them, a written leaf holds the same keys and values whatever moved out of line, and
  \<^verbatim>\<open>insert\<close> on a leaf meets the contract \<open>insert_post\<close>.
\<close>

section \<open>Split points\<close>

lemma leafSplitLoop_bounds:
  "lo \<le> best \<Longrightarrow> best \<le> hi \<Longrightarrow>
     lo \<le> leafSplitLoop lo hi whole i prefix es best dist \<and>
     leafSplitLoop lo hi whole i prefix es best dist \<le> hi"
  by (induction es arbitrary: i prefix best dist) (simp_all add: Let_def)

lemma leafSplitIndex_bounds:
  assumes d: "2 \<le> d" and n: "2 \<le> length es" "length es \<le> 2 * maxKeys d"
  shows "1 \<le> leafSplitIndex es d" "leafSplitIndex es d < int (length es)"
    "leafSplitIndex es d \<le> int (maxKeys d)" "int (length es) - leafSplitIndex es d \<le> int (maxKeys d)"
    "2 * (d - 1) \<le> length es \<Longrightarrow>
       int (d - 1) \<le> leafSplitIndex es d \<and> leafSplitIndex es d \<le> int (length es) - int (d - 1)"
proof -
  let ?n = "int (length es)" and ?m = "int (maxKeys d)"
  define a where "a = (if ?n - 1 < int d - 1 then ?n div 2 else int d - 1)"
  define lo where "lo = (if a < ?n - ?m then ?n - ?m else a)"
  define hi where "hi = min (?n - a) ?m"
  have m: "?m = 2 * int d - 1" using d by (simp add: maxKeys_def)
  have a: "1 \<le> a" "a < ?n" using d n by (auto simp: a_def)
  have eq: "leafSplitIndex es d = (if hi < lo then ?n div 2
      else leafSplitLoop lo hi (int (sum_list (map leafEntryCellBytes es))) 0 0 es lo
             (int (sum_list (map leafEntryCellBytes es))))"
    using d n by (simp add: leafSplitIndex_def Let_def a_def lo_def hi_def max_def)
  have half: "1 \<le> ?n div 2" "?n div 2 < ?n" "?n div 2 \<le> ?m" "?n - ?n div 2 \<le> ?m"
    using n by linarith+
  define s where "s = leafSplitIndex es d"
  have s: "(hi < lo \<and> s = ?n div 2) \<or> (lo \<le> hi \<and> lo \<le> s \<and> s \<le> hi)"
    using leafSplitLoop_bounds [of lo lo hi] by (auto simp: s_def eq)
  have lo: "1 \<le> lo" "?n - ?m \<le> lo" "a \<le> lo" using a by (auto simp: lo_def)
  have hi: "hi \<le> ?n - a" "hi \<le> ?m" by (auto simp: hi_def)
  show "1 \<le> leafSplitIndex es d" "leafSplitIndex es d < ?n"
    "leafSplitIndex es d \<le> ?m" "?n - leafSplitIndex es d \<le> ?m"
    unfolding s_def [symmetric] using s lo hi a half by linarith+
  show "int (d - 1) \<le> leafSplitIndex es d \<and> leafSplitIndex es d \<le> ?n - int (d - 1)"
    if "2 * (d - 1) \<le> length es"
  proof -
    have a': "a = int d - 1" using that d n unfolding a_def by auto
    then have "lo \<le> hi" using that d n m by (auto simp: lo_def hi_def)
    then have "lo \<le> s" "s \<le> hi" using s by auto
    moreover have "int (d - 1) = int d - 1" using d by auto
    ultimately show ?thesis unfolding s_def [symmetric] using lo hi a' by linarith
  qed
qed

lemma bestSplit_in: "bestSplit dist best is \<in> insert best (set is)"
  by (induction "is" arbitrary: best) auto

lemma branchSplitIndex_bounds:
  assumes d: "2 \<le> d" and n: "length keys = Suc (maxKeys d)"
  shows "d - 1 \<le> branchSplitIndex keys d" "branchSplitIndex keys d + d \<le> length keys"
    "branchSplitIndex keys d \<le> maxKeys d"
proof -
  let ?n = "int (length keys)" and ?lo = "int d - 1" and ?hi = "int d"
  have len: "?n = 2 * int d" "length keys = 2 * d" using d n by (auto simp: maxKeys_def)
  have lohi: "max (max 1 (int d - 1)) (?n - 1 - int (maxKeys d)) = ?lo"
    "min (int (maxKeys d)) (?n - 1 - max 1 (int d - 1)) = ?hi"
    using d len by (auto simp: maxKeys_def)
  have c: "\<not> ?n < 3" "\<not> ?hi < ?lo" using d len by auto
  have "\<exists>dist. branchSplitIndex keys d = nat (bestSplit dist ?lo [?lo + 1..?hi])"
    unfolding branchSplitIndex_def Let_def lohi if_not_P [OF c(1)] if_not_P [OF c(2)]
    by (rule exI, rule refl)
  then obtain dist where "branchSplitIndex keys d = nat (bestSplit dist ?lo [?lo + 1..?hi])" ..
  moreover have "bestSplit dist ?lo [?lo + 1..?hi] \<in> insert ?lo (set [?lo + 1..?hi])"
    by (rule bestSplit_in)
  ultimately have "branchSplitIndex keys d = d - 1 \<or> branchSplitIndex keys d = d"
    using d by auto
  then show "d - 1 \<le> branchSplitIndex keys d" "branchSplitIndex keys d + d \<le> length keys"
    "branchSplitIndex keys d \<le> maxKeys d"
    using d len by (auto simp: maxKeys_def)
qed

section \<open>Writing leaf entries\<close>

text \<open>Keys short enough that a full node of overflow references or separators fits a page.\<close>

definition roomy :: "nat \<Rightarrow> nat \<Rightarrow> bool" where
  "roomy d K \<longleftrightarrow> 2 \<le> d \<and> pageHeaderSize + maxKeys d * (28 + K) \<le> PageSize"

lemma roomy_key: "roomy d K \<Longrightarrow> K \<le> 2000"
proof -
  assume r: "roomy d K"
  then have "3 \<le> maxKeys d" by (auto simp: roomy_def maxKeys_def)
  then have "3 * (28 + K) \<le> maxKeys d * (28 + K)" by (rule mult_right_mono) simp
  then show ?thesis using r by (simp add: roomy_def page_consts)
qed

text \<open>A leaf entry about to be written: encoded already, or a new inline value.\<close>

definition pend :: "leafEntry \<Rightarrow> gentry \<Rightarrow> bool" where
  "pend le e \<longleftrightarrow> le = rawEntry e \<or> (snd (snd e) = [] \<and> le = newEntry (fst e) (fst (snd e)))"

text \<open>Pages that moving every inline value out would take.\<close>

definition wcost :: "gentry list \<Rightarrow> nat" where
  "wcost es = sum_list (map (\<lambda>e. if snd (snd e) = [] then chainPages (length (fst (snd e))) else 0) es)"

lemma wcost_simps [simp]: "wcost [] = 0"
  "wcost (e # es) = (if snd (snd e) = [] then chainPages (length (fst (snd e))) else 0) + wcost es"
  "wcost (es @ es') = wcost es + wcost es'"
  by (simp_all add: wcost_def)

definition entries_ok :: "Tree \<Rightarrow> gentry list \<Rightarrow> bool" where
  "entries_ok t es \<longleftrightarrow> (\<forall>e\<in>set es. entry_ok (pages t) e \<and> length (fst (snd e)) < 2 ^ 63)"

lemma entry_ok_ext:
  assumes "entry_ok (pages t) e" "owned t M" "ext X t t'" "set (snd (snd e)) \<subseteq> set_mset M"
    "X \<inter> set (snd (snd e)) = {}"
  shows "entry_ok (pages t') e"
  using assms(1)
proof (rule entry_ok_frame)
  fix i assume "i \<in> set (snd (snd e))"
  then have "i \<in># M" "i \<notin> X" using assms(4,5) by auto
  then show "pages t' i = pages t i"
    using owned_not_fresh [OF assms(2)] extD(4) [OF assms(3)] by blast
qed

lemma entries_ok_ext:
  assumes "entries_ok t es" "owned t (chainIDs es + R)" "ext X t t'" "\<And>i. i \<in> X \<Longrightarrow> i \<notin># chainIDs es"
  shows "entries_ok t' es"
  unfolding entries_ok_def
proof
  fix e assume e: "e \<in> set es"
  have s: "i \<in># chainIDs es" if "i \<in> set (snd (snd e))" for i using in_chainIDs [OF e that] .
  show "entry_ok (pages t') e \<and> length (fst (snd e)) < 2 ^ 63"
    using assms(1) e s assms(4) entry_ok_ext [OF _ assms(2,3), of e] by (auto simp: entries_ok_def)
qed

lemma entries_ok_simps [simp]:
  "entries_ok t []"
  "entries_ok t (e # es) \<longleftrightarrow> entry_ok (pages t) e \<and> length (fst (snd e)) < 2 ^ 63 \<and> entries_ok t es"
  "entries_ok t (es @ es') \<longleftrightarrow> entries_ok t es \<and> entries_ok t es'"
  by (auto simp: entries_ok_def)

lemma encodeEntries_ok:
  assumes "list_all2 pend les es" "owned t (chainIDs es + R)" "room t (wcost es + n)"
    "entries_ok t es" "\<forall>e\<in>set es. length (fst e) \<le> 2000"
  shows "\<exists>es' t'. encodeEntries t les = Some (map rawEntry es', t') \<and> map kv es' = map kv es \<and>
    owned t' (chainIDs es' + R) \<and> room t' (wcost es' + n) \<and> ext {} t t' \<and> entries_ok t' es'"
  using assms
proof (induction les es arbitrary: t R n rule: list_all2_induct)
  case Nil
  then show ?case by simp
next
  case (Cons le les e es)
  obtain k v c where e: "e = (k, v, c)" by (cases e)
  consider (raw) "le = rawEntry e" | (inl) "c = []" "le = newEntry k v" "\<not> shouldStoreOverflow k v"
    | (big) "c = []" "le = newEntry k v" "shouldStoreOverflow k v"
    using Cons.hyps(1) e by (auto simp: pend_def)
  then show ?case
  proof cases
    case raw
    have own: "owned t (chainIDs es + (mset c + R))"
      using Cons.prems(1) e by (simp add: union_commute union_lcomm)
    have room: "room t (wcost es + ((if c = [] then chainPages (length v) else 0) + n))"
      using Cons.prems(2) e by (simp add: ac_simps split: if_splits)
    obtain es' t' where r: "encodeEntries t les = Some (map rawEntry es', t')" "map kv es' = map kv es"
      "owned t' (chainIDs es' + (mset c + R))"
      "room t' (wcost es' + ((if c = [] then chainPages (length v) else 0) + n))"
      "ext {} t t'" "entries_ok t' es'"
      using Cons.IH [OF own room] Cons.prems by auto
    have "entry_ok (pages t') e"
      by (rule entry_ok_ext [OF _ own r(5)]) (use Cons.prems e in auto)
    then show ?thesis
      using r raw e Cons.prems(3)
      by (intro exI [of _ "e # es'"] exI [of _ t']) (auto simp: union_commute union_lcomm ac_simps split: if_splits)
  next
    case inl
    have own: "owned t (chainIDs es + R)" using Cons.prems(1) e inl by simp
    have room: "room t (wcost es + (chainPages (length v) + n))"
      using Cons.prems(2) e inl by (simp add: ac_simps)
    obtain es' t' where r: "encodeEntries t les = Some (map rawEntry es', t')" "map kv es' = map kv es"
      "owned t' (chainIDs es' + R)" "room t' (wcost es' + (chainPages (length v) + n))"
      "ext {} t t'" "entries_ok t' es'"
      using Cons.IH [OF own room] Cons.prems by auto
    have "rawEntry e = (newEntry k v)\<lparr>le_value := v, le_slotFlags := 0, le_encoded := True\<rparr>"
      using e inl by (simp add: rawEntry_def gcell_def newEntry_def)
    then show ?thesis
      using r inl e Cons.prems(3)
      by (intro exI [of _ "e # es'"] exI [of _ t'])
         (simp add: leafCellValue_def newEntry_def ac_simps entry_ok_def)
  next
    case big
    have v: "v \<noteq> []"
      using big(3) Cons.prems(4) e by (auto simp: shouldStoreOverflow_def page_consts)
    have own: "owned t (chainIDs es + R)" using Cons.prems(1) e big by simp
    have room: "room t (chainPages (length v) + (wcost es + n))"
      using Cons.prems(2) e big by (simp add: ac_simps)
    obtain "is" t1 where w: "writeOverflowChain t v = Some (hd is, t1)" "is \<noteq> []"
      "chain (pages t1) is v" "owned t1 (mset is + (chainIDs es + R))" "room t1 (wcost es + n)" "ext {} t t1"
      by (rule writeOverflowChain_ok [OF own room v])
    have own1: "owned t1 (chainIDs es + (mset is + R))" using w(4) by (simp add: union_commute union_lcomm)
    have "entries_ok t1 es" by (rule entries_ok_ext [OF _ own w(6)]) (use Cons.prems in auto)
    then obtain es' t' where r: "encodeEntries t1 les = Some (map rawEntry es', t')" "map kv es' = map kv es"
      "owned t' (chainIDs es' + (mset is + R))" "room t' (wcost es' + n)" "ext {} t1 t'" "entries_ok t' es'"
      using Cons.IH [OF own1 w(5)] Cons.prems by auto
    let ?e = "(k, v, is)"
    have "entry_ok (pages t1) ?e" using w(2,3) Cons.prems(3) e by (simp add: entry_ok_def)
    then have ok: "entry_ok (pages t') ?e"
      by (rule entry_ok_ext [OF _ own1 r(5)]) auto
    have raw: "rawEntry ?e = (newEntry k v)\<lparr>
        le_value := encodeOverflowRef \<lparr>or_first = hd is, or_length = int (length v)\<rparr>,
        le_slotFlags := slotFlagOverflow, le_encoded := True\<rparr>"
      using w(2) by (simp add: rawEntry_def gcell_def newEntry_def)
    have ext: "ext {} t t'" by (rule ext_trans [OF w(6) r(5)]) simp
    have "encodeEntries t (le # les) = Some (map rawEntry (?e # es'), t')"
      using big w(1) r(1) raw by (simp add: leafCellValue_def overflowCellValue_def newEntry_def)
    then show ?thesis
      using r(2-4,6) ok ext w(2) e Cons.prems(3)
      by (intro exI [of _ "?e # es'"] exI [of _ t']) (simp add: union_commute union_lcomm)
  qed
qed

text \<open>Once every value is out of line, a node of short keys fits its page.\<close>

lemma used_bound: "\<forall>c\<in>set es. cellBytes c \<le> b \<Longrightarrow> used es \<le> length es * b"
  by (induction es) auto

lemma cells_fit:
  assumes r: "roomy d K" and n: "length es \<le> maxKeys d" and b: "\<forall>c\<in>set es. cellBytes c \<le> 20 + K"
  shows "fits es"
proof -
  have "used es \<le> length es * (20 + K)" using b by (rule used_bound)
  then have "slotSize * length es + used es \<le> length es * (28 + K)"
    by (simp add: page_consts algebra_simps)
  also have "\<dots> \<le> maxKeys d * (28 + K)" using n by (rule mult_right_mono) simp
  finally show ?thesis using r by (simp add: fits_def roomy_def)
qed

lemma cellBytes_gcell:
  "cellBytes (gcell e) = length (fst e) + (if snd (snd e) = [] then length (fst (snd e)) else 20)"
  by (cases e) (simp add: gcell_def)

lemma inline_rawEntry: "inlineEntry (rawEntry e) \<longleftrightarrow> snd (snd e) = []"
  by (cases e) (simp add: inlineEntry_def rawEntry_def gcell_def slotFlagOverflow_def)

lemma le_value_rawEntry: "snd (snd e) = [] \<Longrightarrow> le_value (rawEntry e) = fst (snd e)"
  by (cases e) (simp add: rawEntry_def gcell_def)

lemma chainIDs_update:
  "i < length es \<Longrightarrow> es ! i = (k, v, []) \<Longrightarrow> chainIDs (es[i := (k, v, c)]) = mset c + chainIDs es"
proof (induction es arbitrary: i)
  case (Cons e es)
  then show ?case by (cases i) (auto simp: chainIDs_Cons)
qed simp

lemma wcost_update:
  "i < length es \<Longrightarrow> es ! i = (k, v, []) \<Longrightarrow> c \<noteq> [] \<Longrightarrow>
     wcost es = chainPages (length v) + wcost (es[i := (k, v, c)])"
proof (induction es arbitrary: i)
  case (Cons e es)
  then show ?case by (cases i) auto
qed simp

lemma kv_update: "i < length es \<Longrightarrow> es ! i = (k, v, c0) \<Longrightarrow> map kv (es[i := (k, v, c)]) = map kv es"
  by (rule nth_equalityI) (auto simp: nth_list_update)

lemma nextLeaf_cell [simp]: "nextLeaf p = leftmostChild p"
  by (simp add: nextLeaf_def)

text \<open>The loop ends, and the page it leaves holds the same keys and values.\<close>

lemma writeLeafLoop_ok:
  assumes "wf_page p" "owned t (chainIDs es + R)" "room t (wcost es + n)" "entries_ok t es"
    "\<forall>e\<in>set es. length (fst e) \<le> K" "length es \<le> maxKeys d" "roomy d K" "pid p \<noteq> 0"
  shows "\<exists>es' p' t'. writeLeafLoop t p next (map rawEntry es) = Some (p', t') \<and>
    map kv es' = map kv es \<and> leafPage p' (pid p) es' \<and> nextLeaf p' = next \<and>
    owned t' (chainIDs es' + R) \<and> room t' (wcost es' + n) \<and> ext {} t t' \<and> entries_ok t' es'"
  using assms
proof (induction "length (filter inlineEntry (map rawEntry es))" arbitrary: t p es R n rule: less_induct)
  case less
  have cells: "map leCell (map rawEntry es) = map gcell es" by simp
  show ?case
  proof (cases "fits (map gcell es)")
    case True
    obtain p' where p': "writeEncodedLeafEntries p (map rawEntry es) = (p', True)"
      "holds p' flagLeaf (map gcell es)" "pid p' = pid p"
      using writeEncodedLeafEntries_fits [OF less.prems(1), of "map rawEntry es"] True cells by metis
    have wf: "wf_page p'" using holdsD(1) [OF p'(2)] .
    then have "leafPage (setNextLeaf p' next) (pid p) es"
      using p' less.prems(8) holds_header(3) [OF p'(2)] by (simp add: leafPage_def setNextLeaf_def)
    moreover have "leftmostChild (setNextLeaf p' next) = next" using wf by (simp add: setNextLeaf_def)
    ultimately show ?thesis
      using less.prems p'(1) by (subst writeLeafLoop.simps) auto
  next
    case False
    obtain p' where p': "writeEncodedLeafEntries p (map rawEntry es) = (p', False)" "wf_page p'" "pid p' = pid p"
      using writeEncodedLeafEntries_full [OF less.prems(1), of "map rawEntry es"] False cells by metis
    obtain i where i: "largestInlineLeafEntry (map rawEntry es) = Some i"
    proof (cases "largestInlineLeafEntry (map rawEntry es)")
      case None
      then have "\<forall>e\<in>set es. snd (snd e) \<noteq> []"
        by (simp add: largestInlineLeafEntry_None inline_rawEntry)
      then have "\<forall>c\<in>set (map gcell es). cellBytes c \<le> 20 + K"
        using less.prems(5) by (simp add: cellBytes_gcell)
      then have "fits (map gcell es)" using cells_fit [OF less.prems(7)] less.prems(6) by simp
      then show ?thesis using False by simp
    qed
    have il: "i < length es" using largestInlineLeafEntry_Some(1) [OF i] by simp
    obtain k v c where e: "es ! i = (k, v, c)" by (cases "es ! i")
    have c: "c = []" using largestInlineLeafEntry_Some(2) [OF i] il e by (simp add: inline_rawEntry)
    have max: "length (fst e') + length (fst (snd e')) \<le> length k + length v"
      if "e' \<in> set es" "snd (snd e') = []" for e'
      using largestInlineLeafEntry_Some(3) [OF i, of "rawEntry e'"] that il e c
      by (simp add: inline_rawEntry le_value_rawEntry)
    have kK: "length k \<le> K" using less.prems(5) il e by (metis fst_conv nth_mem)
    have v: "v \<noteq> []"
    proof
      assume v: "v = []"
      have "cellBytes (gcell e') \<le> 20 + K" if "e' \<in> set es" for e'
        using max [OF that] kK less.prems(5) that v by (auto simp: cellBytes_gcell)
      then have "\<forall>c\<in>set (map gcell es). cellBytes c \<le> 20 + K" by simp
      then have "fits (map gcell es)" using cells_fit [OF less.prems(7)] less.prems(6) by simp
      then show False using False by simp
    qed
    have own: "owned t (chainIDs es + R)" by fact
    have room: "room t (chainPages (length v) + ((wcost es - chainPages (length v)) + n))"
      using less.prems(3) wcost_update [OF il, of k v "[0]"] e c by (simp add: ac_simps)
    obtain "is" t1 where w: "writeOverflowChain t v = Some (hd is, t1)" "is \<noteq> []"
      "chain (pages t1) is v" "owned t1 (mset is + (chainIDs es + R))"
      "room t1 ((wcost es - chainPages (length v)) + n)" "ext {} t t1"
      by (rule writeOverflowChain_ok [OF own room v])
    define es1 where "es1 = es[i := (k, v, is)]"
    have ei: "es ! i = (k, v, [])" using e c by simp
    have raw: "spillEntry (map rawEntry es) i (encodeOverflowRef \<lparr>or_first = hd is, or_length = int (length v)\<rparr>)
        = map rawEntry es1"
      using il ei w(2)
      by (simp add: spillEntry_def es1_def map_update rawEntry_def gcell_def)
    have own1: "owned t1 (chainIDs es1 + R)"
      using w(4) chainIDs_update [OF il ei, of "is"] by (simp add: es1_def union_assoc)
    have room1: "room t1 (wcost es1 + n)"
      using w(5) wcost_update [OF il ei w(2)] by (simp add: es1_def)
    have vlen: "length v < 2 ^ 63" using less.prems(4) il ei unfolding entries_ok_def by (metis fst_conv nth_mem snd_conv)
    have ok1: "entries_ok t1 es1"
    proof -
      have "entries_ok t1 es" by (rule entries_ok_ext [OF less.prems(4) own w(6)]) simp
      moreover have "entry_ok (pages t1) (k, v, is)" using w(3) vlen by (simp add: entry_ok_def)
      moreover have "set es1 \<subseteq> insert (k, v, is) (set es)" unfolding es1_def by (rule set_update_subset_insert)
      ultimately show ?thesis using vlen by (auto simp: entries_ok_def)
    qed
    have keys1: "\<forall>e\<in>set es1. length (fst e) \<le> K"
      using less.prems(5) kK set_update_subset_insert [of es i "(k, v, is)"] by (auto simp: es1_def)
    have fewer: "length (filter inlineEntry (map rawEntry es1)) < length (filter inlineEntry (map rawEntry es))"
      using spillEntry_less [of i "map rawEntry es"] largestInlineLeafEntry_Some(1,2) [OF i] raw by metis
    have "length es1 \<le> maxKeys d" "pid p' \<noteq> 0" using less.prems(6,8) p'(3) by (simp_all add: es1_def)
    from less.hyps [OF fewer p'(2) own1 room1 ok1 keys1 this(1) less.prems(7) this(2)]
    obtain es' p'' t' where r: "writeLeafLoop t1 p' next (map rawEntry es1) = Some (p'', t')"
      "map kv es' = map kv es1" "leafPage p'' (pid p') es'" "nextLeaf p'' = next"
      "owned t' (chainIDs es' + R)" "room t' (wcost es' + n)" "ext {} t1 t'" "entries_ok t' es'"
      by blast
    have "overflowCellValue t (le_value (map rawEntry es ! i)) =
        Some (encodeOverflowRef \<lparr>or_first = hd is, or_length = int (length v)\<rparr>, t1)"
      using w(1) il ei by (simp add: overflowCellValue_def le_value_rawEntry)
    then have "writeLeafLoop t p next (map rawEntry es) = Some (p'', t')"
      using p'(1) i raw r(1) by (subst writeLeafLoop.simps) simp
    moreover have "ext {} t t'" by (rule ext_trans [OF w(6) r(7)]) simp
    moreover have "map kv es' = map kv es" using r(2) kv_update [OF il ei] by (simp add: es1_def)
    ultimately show ?thesis using r p'(3) by auto
  qed
qed

lemma writeLeafEntries_ok:
  assumes "list_all2 pend les es" "wf_page p" "pid p \<noteq> 0"
    "owned t (chainIDs es + R)" "room t (wcost es + n)" "entries_ok t es"
    "\<forall>e\<in>set es. length (fst e) \<le> K" "length es \<le> maxKeys d" "roomy d K"
  obtains es' p' t' where "writeLeafEntries t p les = Some (p', t')" "map kv es' = map kv es"
    "leafPage p' (pid p) es'" "nextLeaf p' = nextLeaf p" "owned t' (chainIDs es' + R)"
    "room t' (wcost es' + n)" "ext {} t t'" "entries_ok t' es'"
proof -
  have "\<forall>e\<in>set es. length (fst e) \<le> 2000" using assms(7) roomy_key [OF assms(9)] by force
  from encodeEntries_ok [OF assms(1,4,5,6) this]
  obtain es1 t1 where e: "encodeEntries t les = Some (map rawEntry es1, t1)" "map kv es1 = map kv es"
    "owned t1 (chainIDs es1 + R)" "room t1 (wcost es1 + n)" "ext {} t t1" "entries_ok t1 es1"
    by blast
  have keys: "map fst es1 = map fst es" and len: "length es1 = length es"
    using e(2) by (metis (no_types, lifting) comp_apply kv_simps(2) map_eq_conv map_map, metis length_map)
  have "\<forall>k\<in>set (map fst es1). length k \<le> K" using assms(7) unfolding keys by auto
  then have keys1: "\<forall>e\<in>set es1. length (fst e) \<le> K" by simp
  have "length es1 \<le> maxKeys d" using len assms(8) by simp
  from writeLeafLoop_ok [OF assms(2) e(3,4,6) keys1 this assms(9,3), of "nextLeaf p"]
  obtain es' p' t' where r: "writeLeafLoop t1 p (nextLeaf p) (map rawEntry es1) = Some (p', t')"
    "map kv es' = map kv es1" "leafPage p' (pid p) es'" "nextLeaf p' = nextLeaf p"
    "owned t' (chainIDs es' + R)" "room t' (wcost es' + n)" "ext {} t1 t'" "entries_ok t' es'"
    by blast
  have "ext {} t t'" by (rule ext_trans [OF e(5) r(7)]) simp
  then show thesis using that [of p' t' es'] r e(1,2) by (simp add: writeLeafEntries_def)
qed

section \<open>The contract of an insertion\<close>

text \<open>
  \<open>insert_post\<close>: the trees \<open>Ts\<close> replace \<open>T\<close> after inserting \<open>k\<close> with value \<open>v\<close>; the first keeps
  \<open>T\<close>'s page id, a second comes with the separator and the id the split result reports.
\<close>

definition insert_post :: "comparator \<Rightarrow> nat \<Rightarrow> nat \<Rightarrow> key \<Rightarrow> bytes \<Rightarrow> Tree \<Rightarrow> gtree \<Rightarrow>
    PageID multiset \<Rightarrow> nat \<Rightarrow> Tree \<times> insertResult \<Rightarrow> gtree list \<Rightarrow> bool" where
  "insert_post cmp d K k v t T R n res Ts \<longleftrightarrow> (case res of (t', old, replaced, split) \<Rightarrow>
     (\<forall>T'\<in>set Ts. rep (pages t') T' \<and> shape d K T' \<and> gheight T' = gheight T \<and> balanced T') \<and>
     concat (map gentries Ts) = put_list cmp k v (gentries T) \<and>
     owned t' (sum_list (map gids Ts) + R) \<and> room t' n \<and> ext {gid T} t t' \<and>
     (old, replaced) = (case map_of (gentries T) k of None \<Rightarrow> ([], False) | Some w \<Rightarrow> (w, True)) \<and>
     (case split of
        None \<Rightarrow> (\<exists>T1. Ts = [T1] \<and> gid T1 = gid T \<and>
          (kidsfilled d T \<longrightarrow> kidsfilled d T1 \<and> (filled d T \<longrightarrow> filled d T1)))
      | Some sr \<Rightarrow> (\<exists>T1 T2. Ts = [T1, T2] \<and> gid T1 = gid T \<and> separator sr = firstkey T2 \<and>
          right sr = gid T2 \<and> (kidsfilled d T \<longrightarrow> filled d T1 \<and> filled d T2))))"

lemma ext_put: "ext X t t1 \<Longrightarrow> pid p \<in> X \<union> fresh t \<Longrightarrow> ext X t (putPage t1 p)"
  by (rule ext_trans [OF _ ext_putPage [of p "{pid p}"]]) simp_all

lemma ext_then: "ext X t t1 \<Longrightarrow> ext {} t1 t2 \<Longrightarrow> ext X t t2"
  by (rule ext_trans [where Y = "{}"]) simp_all

section \<open>Leaves\<close>

lemma leafPage_setNextLeaf:
  "leafPage p i es \<Longrightarrow> leafPage (setNextLeaf p n) i es"
  using leafPage_kind(3,5) [of p i es] holds_header(3) [of p flagLeaf "map gcell es" n]
  by (auto simp: leafPage_def setNextLeaf_def)

lemma leafPage_newPage: "i \<noteq> 0 \<Longrightarrow> leafPage (newPage i flagLeaf) i []"
  by (simp add: leafPage_def holds_newPage)

lemma used_member: "c \<in> set cs \<Longrightarrow> cellBytes c \<le> used cs"
  by (induction cs) auto

lemma wcost_leafPage: "leafPage p i es \<Longrightarrow> wcost es \<le> 2 * length es"
proof -
  assume p: "leafPage p i es"
  then have fits: "fits (map gcell es)" using holdsD(4) by (auto simp: leafPage_def)
  have "(if snd (snd e) = [] then chainPages (length (fst (snd e))) else 0) \<le> 2" if "e \<in> set es" for e
  proof -
    have "cellBytes (gcell e) \<le> used (map gcell es)" using that by (intro used_member) simp
    then have "cellBytes (gcell e) \<le> 4096" using used_le_PageSize [OF fits] by (simp add: page_consts)
    then show ?thesis by (auto simp: cellBytes_gcell chainPages_def page_consts)
  qed
  then show ?thesis by (induction es) (auto, fastforce)
qed

lemma retireOverflowValue_gcell:
  assumes "entry_ok (pages t) (k, v, c)" "length v < 2 ^ 63" "gcell (k, v, c) = (k', raw, f)"
  shows "retireOverflowValue t raw f = Some (retireAll t c)"
proof (cases "c = []")
  case True
  then show ?thesis using assms(3) by (simp add: gcell_def retireOverflowValue_def)
next
  case False
  then have "chain (pages t) c v" using assms(1) by (simp add: entry_ok_def)
  moreover have "int (length v) < 2 ^ 63" using assms(2) by simp
  moreover have "and slotFlagOverflow slotFlagOverflow \<noteq> 0" by (simp add: slotFlagOverflow_def)
  ultimately show ?thesis
    using False assms(3) retireOverflowLoop_chain [of t c v]
    by (auto simp: gcell_def retireOverflowValue_def decode_encode_overflowRef)
qed

lemma chainIDs_replace:
  "i < length es \<Longrightarrow> es ! i = (k, v, c) \<Longrightarrow> chainIDs es = mset c + chainIDs (es[i := (k', v', [])])"
proof (induction es arbitrary: i)
  case (Cons e es)
  then show ?case by (cases i) (auto simp: chainIDs_Cons)
qed simp

lemma chainIDs_insertAt [simp]: "chainIDs (insertAt es i (k, v, [])) = chainIDs es"
proof -
  have "chainIDs es = chainIDs (take i es) + chainIDs (drop i es)"
    by (metis append_take_drop_id chainIDs_simps(3))
  then show ?thesis by (simp add: insertAt_def)
qed

lemma wcost_insertAt: "wcost (insertAt es i (k, v, [])) = chainPages (length v) + wcost es"
proof -
  have "wcost es = wcost (take i es) + wcost (drop i es)"
    by (metis append_take_drop_id wcost_simps(3))
  then show ?thesis by (simp add: insertAt_def)
qed

lemma wcost_replace: "i < length es \<Longrightarrow> wcost (es[i := (k, v, [])]) \<le> chainPages (length v) + wcost es"
proof (induction es arbitrary: i)
  case (Cons e es)
  then show ?case using Cons.IH [of "i - 1"] by (cases i) auto
qed simp

lemma map_insertAt: "map f (insertAt xs i x) = insertAt (map f xs) i (f x)"
  by (simp add: insertAt_def take_map drop_map)

lemma pend_raw: "list_all2 pend (map rawEntry es) es"
  by (simp add: list_all2_conv_all_nth pend_def)

lemma pend_update: "list_all2 pend ((map rawEntry es)[i := newEntry k v]) (es[i := (k, v, [])])"
  by (rule list_all2_update_cong [OF pend_raw]) (simp add: pend_def)

lemma pend_insertAt: "list_all2 pend (insertAt (map rawEntry es) i (newEntry k v)) (insertAt es i (k, v, []))"
proof -
  have "pend (newEntry k v) (k, v, [])" by (simp add: pend_def)
  then show ?thesis
    unfolding insertAt_def take_map drop_map
    by (intro list_all2_appendI list.rel_intros pend_raw)
qed

lemma leaf_rep_frame:
  assumes "leafPage p i es" "pages t i = Some p" "entries_ok t es"
  shows "rep (pages t) (GLeaf i es)"
  using assms by (auto simp: entries_ok_def)

definition leafCost :: "nat \<Rightarrow> bytes \<Rightarrow> nat" where
  "leafCost d v = 2 * maxKeys d + chainPages (length v) + 1"

lemma room_le: "room t m \<Longrightarrow> n \<le> m \<Longrightarrow> room t n"
  by (auto simp: room_def)

lemma kv_keys: "map kv es' = map kv es \<Longrightarrow> map fst es' = map fst es"
  by (metis (no_types, lifting) comp_apply kv_simps(2) map_eq_conv map_map)

text \<open>What a written leaf represents: any node with the same keys and values.\<close>

lemma written_leaf:
  assumes kv: "map kv es' = map kv es" and keys: "\<forall>e\<in>set es. length (fst e) \<le> K"
    and ok: "entries_ok t es'" and len: "length es \<le> maxKeys d" and ne: "es \<noteq> []"
    and p: "leafPage p i es'" "pages t i = Some p"
  shows "rep (pages t) (GLeaf i es')" "shape d K (GLeaf i es')" "length es' = length es"
proof -
  show "rep (pages t) (GLeaf i es')" by (rule leaf_rep_frame [OF p ok])
  show l: "length es' = length es" using kv by (metis length_map)
  have "\<forall>k\<in>set (map fst es'). length k \<le> K" using keys kv_keys [OF kv] by auto
  then show "shape d K (GLeaf i es')" using ok len ne l by (auto simp: entries_ok_def)
qed

text \<open>Writing one leaf page and storing it back.\<close>

lemma writeLeaf_store:
  assumes pend: "list_all2 pend les es" and p: "leafPage p i es0" "pages t i = Some p"
    and own: "owned t (add_mset i (chainIDs es + R))" and room: "room t (wcost es + n)"
    and ok: "entries_ok t es" and keys: "\<forall>e\<in>set es. length (fst e) \<le> K"
    and len: "length es \<le> maxKeys d" and ne: "es \<noteq> []" and r: "roomy d K"
  obtains es' p' t' where "writeLeafEntries t p les = Some (p', t')" "map kv es' = map kv es"
    "leafPage p' i es'" "nextLeaf p' = nextLeaf p" "ext {i} t (putPage t' p')" "ext {} t t'"
    "owned (putPage t' p') (add_mset i (chainIDs es' + R))" "room (putPage t' p') (wcost es' + n)"
    "rep (pages (putPage t' p')) (GLeaf i es')" "shape d K (GLeaf i es')" "entries_ok (putPage t' p') es'"
    "pid p' = i" "length es' = length es"
proof -
  note k = leafPage_kind [OF p(1)]
  have own': "owned t (chainIDs es + add_mset i R)" using own by simp
  have "pid p \<noteq> 0" using k by simp
  obtain es' p' t' where w: "writeLeafEntries t p les = Some (p', t')" "map kv es' = map kv es"
    "leafPage p' (pid p) es'" "nextLeaf p' = nextLeaf p" "owned t' (chainIDs es' + add_mset i R)"
    "room t' (wcost es' + n)" "ext {} t t'" "entries_ok t' es'"
    by (rule writeLeafEntries_ok [OF pend k(5) \<open>pid p \<noteq> 0\<close> own' room ok keys len r])
  have p': "leafPage p' i es'" "pid p' = i" using w(3) k(3) leafPage_kind(3) [OF w(3)] by simp_all
  have notin: "i \<notin># chainIDs es'"
    using owned_distinct [OF w(5), of i] by (auto simp: count_eq_zero_iff [symmetric])
  have ok': "entries_ok (putPage t' p') es'"
  proof (rule entries_ok_ext [OF w(8) w(5) ext_putPage [of p' "{i}"]])
    show "pid p' \<in> {i}" using p'(2) by simp
  qed (use notin in auto)
  have at: "pages (putPage t' p') i = Some p'" using p'(2) by simp
  have "ext {i} t (putPage t' p')"
    by (rule ext_put) (use ext_mono [OF w(7), of "{i}"] p'(2) in simp_all)
  with w p' ok' written_leaf [OF w(2) keys ok' len ne p'(1) at] show thesis
    by (intro that [of p' t' es']) simp_all
qed

context key_comparator
begin

lemma leaf_search:
  fixes k :: key
  assumes "sorted_by cmp (map kv es)"
  defines "r \<equiv> rank (\<lambda>p. cmp (fst p) k) (map kv es)"
  shows "binarySearchFunc (\<lambda>e. cmp (le_key e) k) (map rawEntry es) = (r, k \<in> fst ` set es)"
    "r \<le> length es" "k \<in> fst ` set es \<Longrightarrow> r < length es \<and> fst (es ! r) = k"
proof -
  have rank: "rank (\<lambda>e. cmp (le_key e) k) (map rawEntry es) = r"
    by (simp add: r_def rank_def takeWhile_map comp_def)
  have "increasing (map le_key (map rawEntry es))" using assms(1) by (simp add: sorted_by_map comp_def)
  then have part: "partitioned (\<lambda>e. cmp (le_key e) k) (map rawEntry es)" by (rule partitioned_keys)
  show le: "r \<le> length es" unfolding r_def by (metis length_map rank_le)
  have found: "r < length es \<and> fst (es ! r) = k \<longleftrightarrow> k \<in> fst ` set es"
    using rank_found [OF assms(1), of k] by (auto simp: r_def image_image)
  then show "k \<in> fst ` set es \<Longrightarrow> r < length es \<and> fst (es ! r) = k" by blast
  have "r < length es \<and> cmp (fst (es ! r)) k = 0 \<longleftrightarrow> k \<in> fst ` set es"
    using found by (simp add: cmp_eq)
  then show "binarySearchFunc (\<lambda>e. cmp (le_key e) k) (map rawEntry es) = (r, k \<in> fst ` set es)"
    by (subst binarySearchFunc_rank [OF part]) (auto simp: rank)
qed

lemma put_leaf:
  fixes k :: key
  assumes "sorted_by cmp (map kv es)"
  defines "r \<equiv> rank (\<lambda>p. cmp (fst p) k) (map kv es)"
  shows "k \<in> fst ` set es \<Longrightarrow> map kv (es[r := (k, v, c)]) = put_list cmp k v (map kv es)"
    "k \<notin> fst ` set es \<Longrightarrow> map kv (insertAt es r (k, v, c)) = put_list cmp k v (map kv es)"
  using put_list_rank [OF assms(1), of k v] rank_found [OF assms(1), of k]
  by (auto simp: Let_def map_update map_insertAt image_image r_def)

lemma map_of_leaf_hit:
  assumes "sorted_by cmp (map kv es)" "r < length es" "es ! r = (k, v, c)"
  shows "map_of (map kv es) k = Some v"
proof -
  have "(k, v) \<in> set (map kv es)" using assms(2,3) by (metis kv_simps(1) length_map nth_map nth_mem)
  then show ?thesis using sorted_distinct [OF assms(1)] by simp
qed

lemma insertLeaf_replace:
  assumes cmp: "compareKeys t = cmp" and deg: "degree t = d"
    and T: "rep (pages t) (GLeaf i es)" "shape d K (GLeaf i es)" "sorted_by cmp (map kv es)"
    and own: "owned t (add_mset i (chainIDs es) + R)" and room: "room t (leafCost d v + n)"
    and r: "roomy d K" and k: "length k \<le> K" and v: "length v < 2 ^ 63" and hit: "k \<in> fst ` set es"
  shows "\<exists>res Ts. insertLeaf t i k v = Some res \<and> insert_post cmp d K k v t (GLeaf i es) R n res Ts"
proof -
  obtain p where p: "pages t i = Some p" "leafPage p i es" using T(1) by auto
  let ?r = "rank (\<lambda>p. cmp (fst p) k) (map kv es)"
  note s = leaf_search [OF T(3), where k = k]
  have rl: "?r < length es" and rk: "fst (es ! ?r) = k" using s(3) hit by blast+
  obtain w c where e: "es ! ?r = (k, w, c)" using rk by (cases "es ! ?r") auto
  obtain raw f where g: "gcell (es ! ?r) = (k, raw, f)" by (metis e fst_conv fst_gcell prod.exhaust)
  have ok: "entries_ok t es" using T(1,2) by (auto simp: entries_ok_def)
  have eok: "entry_ok (pages t) (k, w, c)" "length w < 2 ^ 63"
    using ok rl e unfolding entries_ok_def by (metis nth_mem, metis fst_conv nth_mem snd_conv)
  have old: "resolveLeafValue (pages t) raw f = Some w"
    using resolve_gcell [OF eok(1), of k raw f] g e by simp
  have ret: "retireOverflowValue t raw f = Some (retireAll t c)"
    using retireOverflowValue_gcell [OF eok, of k raw f] g e by simp
  let ?es = "es[?r := (k, v, [])]" and ?t = "retireAll t c"
  have chain: "chainIDs es = mset c + chainIDs ?es" by (rule chainIDs_replace [OF rl e])
  have own1: "owned ?t (add_mset i (chainIDs ?es + R))"
    using own by (simp add: owned_retireAll chain union_assoc)
  have "wcost ?es \<le> chainPages (length v) + 2 * length es"
    using wcost_replace [OF rl, of k v] wcost_leafPage [OF p(2)] by simp
  then have room1: "room ?t (wcost ?es + n)"
    using room T(2) by (simp, intro room_le [OF room]) (simp add: leafCost_def)
  have ok1: "entries_ok ?t ?es"
    using ok v set_update_subset_insert [of es ?r "(k, v, [])"]
    by (auto simp: entries_ok_def entry_ok_def)
  have keys1: "\<forall>e\<in>set ?es. length (fst e) \<le> K"
    using T(2) k set_update_subset_insert [of es ?r "(k, v, [])"] by auto
  have len1: "length ?es \<le> maxKeys d" "?es \<noteq> []" using T(2) by simp_all
  obtain es' p' t' where w: "writeLeafEntries ?t p ((map rawEntry es)[?r := newEntry k v]) = Some (p', t')"
    "map kv es' = map kv ?es" "leafPage p' i es'" "nextLeaf p' = nextLeaf p" "ext {i} ?t (putPage t' p')"
    "ext {} ?t t'" "owned (putPage t' p') (add_mset i (chainIDs es' + R))"
    "room (putPage t' p') (wcost es' + n)" "rep (pages (putPage t' p')) (GLeaf i es')"
    "shape d K (GLeaf i es')" "entries_ok (putPage t' p') es'" "pid p' = i" "length es' = length ?es"
    by (rule writeLeaf_store [OF pend_update p(2) _ own1 room1 ok1 keys1 len1 r]) (use p(1) in auto)
  let ?res = "(putPage t' p', w, True, None)"
  have "insertLeaf t i k v = Some ?res"
    using p(1) leafEntries_leafPage [OF p(2)] s(1) hit cmp old ret w(1) rl g
    by (simp add: insertLeaf_def rawEntry_def)
  moreover have "ext {i} t (putPage t' p')"
    by (rule ext_trans [OF ext_mono [OF ext_retireAll] w(5)]) simp_all
  moreover have "room (putPage t' p') n" using room_le [OF w(8)] by simp
  moreover have "map_of (map kv es) k = Some w" by (rule map_of_leaf_hit [OF T(3) rl e])
  ultimately have "insert_post cmp d K k v t (GLeaf i es) R n ?res [GLeaf i es']"
    using w put_leaf(1) [OF T(3) hit, of v "[]"] by (simp add: insert_post_def union_assoc)
  then show ?thesis using \<open>insertLeaf t i k v = Some ?res\<close> by blast
qed

lemma insertLeaf_add:
  assumes cmp: "compareKeys t = cmp" and deg: "degree t = d"
    and T: "rep (pages t) (GLeaf i es)" "shape d K (GLeaf i es)" "sorted_by cmp (map kv es)"
    and own: "owned t (add_mset i (chainIDs es) + R)" and room: "room t (leafCost d v + n)"
    and r: "roomy d K" and k: "length k \<le> K" and v: "length v < 2 ^ 63" and miss: "k \<notin> fst ` set es"
    and fit: "length es < maxKeys d"
  shows "\<exists>res Ts. insertLeaf t i k v = Some res \<and> insert_post cmp d K k v t (GLeaf i es) R n res Ts"
proof -
  obtain p where p: "pages t i = Some p" "leafPage p i es" using T(1) by auto
  let ?r = "rank (\<lambda>p. cmp (fst p) k) (map kv es)"
  note s = leaf_search [OF T(3), where k = k]
  let ?es = "insertAt es ?r (k, v, [])"
  have own1: "owned t (add_mset i (chainIDs ?es + R))" using own by simp
  have "wcost ?es \<le> chainPages (length v) + 2 * length es"
    using wcost_leafPage [OF p(2)] by (simp add: wcost_insertAt)
  then have room1: "room t (wcost ?es + n)"
    by (intro room_le [OF room]) (use T(2) in \<open>simp add: leafCost_def\<close>)
  have ok: "entries_ok t es" using T(1,2) by (auto simp: entries_ok_def)
  then have ok1: "entries_ok t ?es" using v s(2) by (auto simp: entries_ok_def entry_ok_def)
  have keys1: "\<forall>e\<in>set ?es. length (fst e) \<le> K" using T(2) k s(2) by auto
  have len1: "length ?es \<le> maxKeys d" "?es \<noteq> []" using fit s(2) by (auto simp: insertAt_def)
  obtain es' p' t' where w: "writeLeafEntries t p (insertAt (map rawEntry es) ?r (newEntry k v)) = Some (p', t')"
    "map kv es' = map kv ?es" "leafPage p' i es'" "nextLeaf p' = nextLeaf p" "ext {i} t (putPage t' p')"
    "ext {} t t'" "owned (putPage t' p') (add_mset i (chainIDs es' + R))"
    "room (putPage t' p') (wcost es' + n)" "rep (pages (putPage t' p')) (GLeaf i es')"
    "shape d K (GLeaf i es')" "entries_ok (putPage t' p') es'" "pid p' = i" "length es' = length ?es"
    by (rule writeLeaf_store [OF pend_insertAt p(2,1) own1 room1 ok1 keys1 len1 r])
  let ?res = "(putPage t' p', [], False, None)"
  have len2: "length (insertAt (map rawEntry es) ?r (newEntry k v)) \<le> maxKeys (degree t)"
    using fit s(2) deg by simp
  then have run: "insertLeaf t i k v = Some ?res"
    using p(1) leafEntries_leafPage [OF p(2)] s(1) miss cmp w(1)
    by (simp add: insertLeaf_def)
  have "map_of (map kv es) k = None" using miss by (simp add: map_of_eq_None_iff image_image)
  moreover have "room (putPage t' p') n" using room_le [OF w(8)] by simp
  moreover have "minKeys d \<le> length es \<Longrightarrow> minKeys d \<le> length es'" using w(13) s(2) by simp
  ultimately have "insert_post cmp d K k v t (GLeaf i es) R n ?res [GLeaf i es']"
    using w put_leaf(2) [OF T(3) miss, of v "[]"] by (simp add: insert_post_def union_assoc)
  then show ?thesis using run by blast
qed

lemma insertLeaf_split:
  assumes cmp: "compareKeys t = cmp" and deg: "degree t = d"
    and T: "rep (pages t) (GLeaf i es)" "shape d K (GLeaf i es)" "sorted_by cmp (map kv es)"
    and own: "owned t (add_mset i (chainIDs es) + R)" and room: "room t (leafCost d v + n)"
    and r: "roomy d K" and k: "length k \<le> K" and v: "length v < 2 ^ 63" and miss: "k \<notin> fst ` set es"
    and full: "length es = maxKeys d"
  shows "\<exists>res Ts. insertLeaf t i k v = Some res \<and> insert_post cmp d K k v t (GLeaf i es) R n res Ts"
proof -
  obtain p where p: "pages t i = Some p" "leafPage p i es" using T(1) by auto
  have d: "2 \<le> d" using r by (simp add: roomy_def)
  let ?r = "rank (\<lambda>p. cmp (fst p) k) (map kv es)"
  note s = leaf_search [OF T(3), where k = k]
  define ls where "ls = insertAt (map rawEntry es) ?r (newEntry k v)"
  define es0 where "es0 = insertAt es ?r (k, v, [])"
  have len: "length ls = Suc (maxKeys d)" "length es0 = Suc (maxKeys d)"
    using full s(2) by (simp_all add: ls_def es0_def)
  define mid where "mid = nat (leafSplitIndex ls d)"
  have "2 \<le> length ls" "length ls \<le> 2 * maxKeys d" "2 * (d - 1) \<le> length ls"
    using d len by (auto simp: maxKeys_def)
  note b = leafSplitIndex_bounds [OF d this(1,2)] and b5 = leafSplitIndex_bounds(5) [OF d this]
  have mid: "1 \<le> mid" "mid < length ls" "mid \<le> maxKeys d" "length ls - mid \<le> maxKeys d"
    "d - 1 \<le> mid" "d - 1 \<le> length ls - mid"
    using b b5 by (auto simp: mid_def)
  define L where "L = take mid es0"
  define Q where "Q = drop mid es0"
  have LQ: "es0 = L @ Q" by (simp add: L_def Q_def)
  have lenLQ: "length L = mid" "length Q = length ls - mid" using mid len by (simp_all add: L_def Q_def)
  have pend: "list_all2 pend ls es0" unfolding ls_def es0_def by (rule pend_insertAt)
  have pendL: "list_all2 pend (take mid ls) L" "list_all2 pend (drop mid ls) Q"
    unfolding L_def Q_def using pend by (rule list_all2_takeI, rule list_all2_dropI)
  have keys0: "\<forall>e\<in>set es0. length (fst e) \<le> K" using T(2) k s(2) by (auto simp: es0_def)
  have ok: "entries_ok t es" using T(1,2) by (auto simp: entries_ok_def)
  then have ok0: "entries_ok t es0" using v s(2) by (auto simp: es0_def entries_ok_def entry_ok_def)
  have cost: "wcost L + wcost Q \<le> chainPages (length v) + 2 * length es"
    using wcost_leafPage [OF p(2)] wcost_insertAt [of es ?r k v] LQ by (simp add: es0_def)
  have room1: "room t (Suc (wcost L + (wcost Q + n)))"
    by (rule room_le [OF room]) (use cost T(2) in \<open>simp add: leafCost_def\<close>)
  have own1: "owned t (add_mset i (chainIDs L + (chainIDs Q + R)))"
    using own by (simp add: es0_def [symmetric] chainIDs_insertAt [of es ?r k v, symmetric] LQ union_assoc
        del: chainIDs_insertAt)
  obtain rid t1 where a: "allocPage t = Some (rid, t1)"
    "owned t1 (add_mset rid (add_mset i (chainIDs L + (chainIDs Q + R))))"
    "room t1 (wcost L + (wcost Q + n))" "ext {} t t1" "rid \<in> fresh t"
    "rid \<notin># add_mset i (chainIDs L + (chainIDs Q + R))" "rid \<noteq> 0" "pages t1 = pages t" "pageable t1 rid"
    by (rule allocPage_ok [OF own1 room1]) (rule that)
  obtain ar where np: "treeNewPage t1 rid flagLeaf = Some (newPage rid flagLeaf, t1\<lparr>arena := ar\<rparr>)"
    "\<And>M. owned (t1\<lparr>arena := ar\<rparr>) M = owned t1 M" "\<And>n. room (t1\<lparr>arena := ar\<rparr>) n = room t1 n"
    "\<And>t0 X. ext X t0 (t1\<lparr>arena := ar\<rparr>) = ext X t0 t1"
    by (rule treeNewPage_ok [OF a(9), of flagLeaf]) (rule that)
  let ?np = "newPage rid flagLeaf"
  define t2 where "t2 = putPage (t1\<lparr>arena := ar\<rparr>) ?np"
  have e2: "ext {} t t2" unfolding t2_def
    by (rule ext_put) (use a(4,5) np(4) in simp_all)
  have rid_i: "rid \<noteq> i" using a(6) by auto
  have p2: "pages t2 i = Some p" "pages t2 rid = Some ?np"
    using p(1) a(8) rid_i by (simp_all add: t2_def)
  have own2: "owned t2 (add_mset i (chainIDs L + add_mset rid (chainIDs Q + R)))"
    using a(2) np(2) by (simp add: t2_def add_mset_commute)
  have room2: "room t2 (wcost L + (wcost Q + n))" using a(3) np(3) by (simp add: t2_def)
  have ok2: "entries_ok t2 L" "entries_ok t2 Q"
  proof -
    have "entries_ok t2 es0"
      by (rule entries_ok_ext [OF ok0 _ e2, of "add_mset i R"]) (use own1 LQ in \<open>simp_all add: union_assoc\<close>)
    then show "entries_ok t2 L" "entries_ok t2 Q" by (simp_all add: LQ)
  qed
  have keysLQ: "\<forall>e\<in>set L. length (fst e) \<le> K" "\<forall>e\<in>set Q. length (fst e) \<le> K"
    using keys0 by (auto simp: LQ)
  have lenL: "length L \<le> maxKeys d" "L \<noteq> []" "length Q \<le> maxKeys d" "Q \<noteq> []"
    using lenLQ mid by auto
  obtain es1 p' t3 where w: "writeLeafEntries t2 p (take mid ls) = Some (p', t3)"
    "map kv es1 = map kv L" "leafPage p' i es1" "nextLeaf p' = nextLeaf p" "ext {i} t2 (putPage t3 p')"
    "ext {} t2 t3" "owned (putPage t3 p') (add_mset i (chainIDs es1 + add_mset rid (chainIDs Q + R)))"
    "room (putPage t3 p') (wcost es1 + (wcost Q + n))" "rep (pages (putPage t3 p')) (GLeaf i es1)"
    "shape d K (GLeaf i es1)" "entries_ok (putPage t3 p') es1" "pid p' = i" "length es1 = length L"
    by (rule writeLeaf_store [OF pendL(1) p(2) p2(1) own2 room2 ok2(1) keysLQ(1) lenL(1,2) r])
  let ?t3 = "putPage t3 p'"
  have p3: "pages ?t3 rid = Some ?np"
    using extD(4) [OF w(5), of rid] owned_not_fresh [OF own2, of rid] rid_i p2(2) by simp
  have own3: "owned ?t3 (add_mset rid (chainIDs Q + add_mset i (chainIDs es1 + R)))"
    using w(7) by (simp add: add_mset_commute union_lcomm union_commute)
  have room3: "room ?t3 (wcost Q + n)" by (rule room_le [OF w(8)]) simp
  have iQ: "i \<notin># chainIDs Q"
    using owned_distinct [OF own2, of i] rid_i by (auto simp: count_eq_zero_iff [symmetric])
  have ok3: "entries_ok ?t3 Q"
    by (rule entries_ok_ext [OF ok2(2) _ w(5), of "add_mset i (chainIDs L + add_mset rid R)"])
      (use own2 iQ in \<open>auto simp: union_lcomm union_commute add_mset_commute\<close>)
  have lp: "leafPage ?np rid []" by (rule leafPage_newPage [OF a(7)])
  obtain es2 r' t4 where x: "writeLeafEntries ?t3 ?np (drop mid ls) = Some (r', t4)"
    "map kv es2 = map kv Q" "leafPage r' rid es2" "nextLeaf r' = nextLeaf ?np" "ext {rid} ?t3 (putPage t4 r')"
    "ext {} ?t3 t4" "owned (putPage t4 r') (add_mset rid (chainIDs es2 + add_mset i (chainIDs es1 + R)))"
    "room (putPage t4 r') (wcost es2 + n)" "rep (pages (putPage t4 r')) (GLeaf rid es2)"
    "shape d K (GLeaf rid es2)" "entries_ok (putPage t4 r') es2" "pid r' = rid" "length es2 = length Q"
    by (rule writeLeaf_store [OF pendL(2) lp p3 own3 room3 ok3 keysLQ(2) lenL(3,4) r])
  define p'' where "p'' = setNextLeaf p' rid"
  define r'' where "r'' = setNextLeaf r' (nextLeaf p)"
  let ?t = "putPage (putPage t4 p'') r''"
  have pids: "pid p'' = i" "pid r'' = rid" using w(12) x(12) by (simp_all add: p''_def r''_def)
  have e4: "ext {i} t t4"
    by (rule ext_then [OF ext_trans [OF ext_mono [OF e2] w(5)] x(6)]) simp_all
  have ext: "ext {i} t ?t"
    by (rule ext_put [OF ext_put [OF e4]]) (use pids a(5) in simp_all)
  have own4: "owned ?t (add_mset i (chainIDs es1) + (add_mset rid (chainIDs es2) + R))"
    using x(7) by (simp add: add_mset_commute union_lcomm union_commute)
  have dist: "i \<notin># chainIDs es1" "i \<notin># chainIDs es2" "rid \<notin># chainIDs es1" "rid \<notin># chainIDs es2"
    using owned_distinct [OF own4, of i] owned_distinct [OF own4, of rid] rid_i
    by (auto simp: count_eq_zero_iff [symmetric])
  have e3: "ext {i, rid} ?t3 ?t"
    by (rule ext_put [OF ext_put [OF ext_mono [OF x(6)]]]) (use pids in simp_all)
  have ok4: "entries_ok ?t es1"
    by (rule entries_ok_ext [OF w(11) _ e3, of "add_mset i (add_mset rid (chainIDs Q + R))"])
      (use own3 dist in \<open>auto simp: add_mset_commute union_lcomm union_commute\<close>)
  have e5: "ext {i, rid} (putPage t4 r') ?t"
  proof -
    have "pages ?t j = pages (putPage t4 r') j" if "j \<notin> {i, rid}" for j
      using that pids x(12) by simp
    then show ?thesis by (auto simp: ext_def)
  qed
  have ok5: "entries_ok ?t es2"
    by (rule entries_ok_ext [OF x(11) _ e5, of "add_mset rid (add_mset i (chainIDs es1 + R))"])
      (use x(7) dist in \<open>auto simp: add_mset_commute union_lcomm union_commute\<close>)
  have at: "pages ?t i = Some p''" "pages ?t rid = Some r''" using pids rid_i by simp_all
  have lps: "leafPage p'' i es1" "leafPage r'' rid es2"
    using leafPage_setNextLeaf w(3) x(3) by (simp_all add: p''_def r''_def)
  note T1 = written_leaf [OF w(2) keysLQ(1) ok4 lenL(1,2) lps(1) at(1)]
    and T2 = written_leaf [OF x(2) keysLQ(2) ok5 lenL(3,4) lps(2) at(2)]
  let ?res = "(?t, [], False, Some \<lparr>separator = le_key (ls ! mid), right = rid\<rparr>)"
  have "splitLeaf t p ls = Some ?res"
    using a(1) np(1) w(1) x(1) mid(2) deg
    by (simp add: splitLeaf_def mid_def [symmetric] t2_def p''_def r''_def Let_def)
  moreover have "\<not> length ls \<le> maxKeys (degree t)" using len(1) deg by simp
  ultimately have run: "insertLeaf t i k v = Some ?res"
    using p(1) leafEntries_leafPage [OF p(2)] s(1) miss cmp
    by (simp add: insertLeaf_def ls_def [symmetric])
  have kvs: "map kv es1 @ map kv es2 = put_list cmp k v (map kv es)"
    using w(2) x(2) put_leaf(2) [OF T(3) miss, of v "[]"] LQ by (simp add: es0_def [symmetric])
  have "le_key (ls ! mid) = fst (es0 ! mid)"
    using list_all2_nthD [OF pend mid(2)] by (auto simp: pend_def newEntry_def)
  also have "\<dots> = fst (hd Q)" using mid len by (simp add: Q_def hd_drop_conv_nth)
  also have "\<dots> = firstkey (GLeaf rid es2)"
    using x(2) lenL(4) by (cases es2; cases Q) (auto simp: firstkey_def)
  finally have sep: "le_key (ls ! mid) = firstkey (GLeaf rid es2)" .
  have "map_of (map kv es) k = None" using miss by (simp add: map_of_eq_None_iff image_image)
  moreover have "room ?t n" using room_le [OF x(8)] by simp
  moreover have "minKeys d \<le> length es1" "minKeys d \<le> length es2"
    using w(13) x(13) lenLQ mid by (simp_all add: minKeys_def)
  ultimately have "insert_post cmp d K k v t (GLeaf i es) R n ?res [GLeaf i es1, GLeaf rid es2]"
    using T1 T2 kvs sep ext own4 by (simp add: insert_post_def union_assoc)
  then show ?thesis using run by blast
qed

lemma insertLeaf_ok:
  assumes "compareKeys t = cmp" "degree t = d"
    "rep (pages t) (GLeaf i es)" "shape d K (GLeaf i es)" "sorted_by cmp (map kv es)"
    "owned t (add_mset i (chainIDs es) + R)" "room t (leafCost d v + n)"
    "roomy d K" "length k \<le> K" "length v < 2 ^ 63"
  shows "\<exists>res Ts. insertLeaf t i k v = Some res \<and> insert_post cmp d K k v t (GLeaf i es) R n res Ts"
proof -
  consider "k \<in> fst ` set es" | "k \<notin> fst ` set es" "length es < maxKeys d"
    | "k \<notin> fst ` set es" "length es = maxKeys d"
    using assms(4) by fastforce
  then show ?thesis
    using insertLeaf_replace [OF assms] insertLeaf_add [OF assms] insertLeaf_split [OF assms]
    by cases blast+
qed

end

end
