(* ===== verification/BranchSteps.thy ===== *)
theory BranchSteps
  imports LeafInsert
begin

text \<open>
  The steps every copy-on-write descent makes on a branch: copying the child under a new id,
  writing the branch page again, and carrying the representation of the untouched siblings
  over to the new state.  Insertion and deletion share these lemmas.
\<close>

section \<open>A node under another id\<close>

fun setgid :: "PageID \<Rightarrow> gtree \<Rightarrow> gtree" where
  "setgid j (GLeaf i es) = GLeaf j es"
| "setgid j (GBranch i ts) = GBranch j ts"

text \<open>The pages of a tree besides the one of its root node.\<close>

fun grest :: "gtree \<Rightarrow> PageID multiset" where
  "grest (GLeaf i es) = chainIDs es"
| "grest (GBranch i ts) = sum_list (map gids ts)"

lemma gids_grest: "gids T = add_mset (gid T) (grest T)"
  by (cases T) simp_all

lemma setgid_simps [simp]:
  "gid (setgid j T) = j" "gentries (setgid j T) = gentries T" "gheight (setgid j T) = gheight T"
  "balanced (setgid j T) = balanced T" "shape d K (setgid j T) = shape d K T"
  "filled d (setgid j T) = filled d T" "kidsfilled d (setgid j T) = kidsfilled d T"
  "grest (setgid j T) = grest T" "gids (setgid j T) = add_mset j (grest T)"
  "firstkey (setgid j T) = firstkey T"
  by (cases T; simp add: firstkey_def)+

lemma rep_root: "rep pgs T \<Longrightarrow> \<exists>p. pgs (gid T) = Some p \<and> pid p = gid T \<and> wf_page p \<and> gid T \<noteq> 0"
proof (cases T)
  case (GLeaf i es)
  moreover assume "rep pgs T"
  ultimately obtain p where "pgs i = Some p" "leafPage p i es" by auto
  then show ?thesis using leafPage_kind [of p i es] GLeaf by simp
next
  case (GBranch i ts)
  moreover assume "rep pgs T"
  ultimately obtain p where "pgs i = Some p" "branchPage p i (map firstkey (tl ts)) (map gid ts)" by auto
  then show ?thesis using branchPage_kind [of p i] GBranch by simp
qed

lemma rep_setgid:
  assumes T: "rep pgs T" and p: "pgs (gid T) = Some p" and j: "pgs' j = Some (p\<lparr>pid := j\<rparr>)" "j \<noteq> 0"
    and same: "\<And>i. i \<in># grest T \<Longrightarrow> pgs' i = pgs i"
  shows "rep pgs' (setgid j T)"
proof (cases T)
  case (GLeaf i es)
  have "entry_ok pgs' e" if "e \<in> set es" for e
  proof (rule entry_ok_frame [of pgs e])
    show "entry_ok pgs e" using T GLeaf that by simp
    show "pgs' i = pgs i" if "i \<in> set (snd (snd e))" for i
      using same [of i] in_chainIDs [OF \<open>e \<in> set es\<close> that] GLeaf by simp
  qed
  then show ?thesis using T p j GLeaf by auto
next
  case (GBranch i ts)
  have "rep pgs' C" if "C \<in> set ts" for C
  proof (rule rep_frame [of pgs])
    show "rep pgs C" using T GBranch that by simp
    show "pgs' i = pgs i" if "i \<in># gids C" for i
      using same [of i] in_gids_child [OF \<open>C \<in> set ts\<close> that] GBranch by simp
  qed
  then show ?thesis using T p j GBranch by auto
qed

lemma rep_ext:
  assumes "rep (pages t) T" "owned t M" "ext X t t'" "\<And>i. i \<in># gids T \<Longrightarrow> i \<in># M \<and> i \<notin> X"
  shows "rep (pages t') T"
  using assms(1)
proof (rule rep_frame)
  fix i assume "i \<in># gids T"
  then show "pages t' i = pages t i"
    using assms(4) owned_not_fresh [OF assms(2)] extD(4) [OF assms(3)] by blast
qed

section \<open>Children of a branch\<close>

definition others :: "gtree list \<Rightarrow> nat \<Rightarrow> gtree list" where
  "others ts x = take x ts @ drop (Suc x) ts"

lemma others_gids:
  "x < length ts \<Longrightarrow> sum_list (map gids ts) = gids (ts ! x) + sum_list (map gids (others ts x))"
  by (subst (1) split_at [of x ts]) (simp_all add: others_def)

lemma others_update_gids:
  "x < length ts \<Longrightarrow>
     sum_list (map gids (ts[x := T])) = gids T + sum_list (map gids (others ts x))"
  by (simp add: upd_conv_take_nth_drop others_def)

lemma set_others: "x < length ts \<Longrightarrow> set ts = insert (ts ! x) (set (others ts x))"
  by (subst (1) split_at [of x ts]) (simp_all add: others_def)

lemma set_others_subset: "set (others ts x) \<subseteq> set ts"
  by (auto simp: others_def dest: in_set_takeD in_set_dropD)

lemma set_update_others: "x < length ts \<Longrightarrow> set (ts[x := T]) = insert T (set (others ts x))"
  by (simp add: upd_conv_take_nth_drop others_def)

lemma set_insert_others:
  "x < length ts \<Longrightarrow> set (insertAt (ts[x := T1]) (Suc x) T2) = insert T1 (insert T2 (set (others ts x)))"
  by (simp add: set_update_others) auto

lemma insertAt_update:
  "x < length ts \<Longrightarrow> insertAt (ts[x := T1]) (Suc x) T2 = take x ts @ T1 # T2 # drop (Suc x) ts"
  by (simp add: insertAt_def upd_conv_take_nth_drop)

lemma insertAt_update_gids:
  "x < length ts \<Longrightarrow> sum_list (map gids (insertAt (ts[x := T1]) (Suc x) T2)) =
     gids T1 + gids T2 + sum_list (map gids (others ts x))"
  by (simp add: insertAt_update others_def ac_simps)

text \<open>Separators after a child was replaced by one or two nodes with the same first key.\<close>

lemma separators_update:
  assumes "x < length ts" "0 < x \<Longrightarrow> firstkey T = firstkey (ts ! x)"
  shows "map firstkey (tl (ts[x := T])) = map firstkey (tl ts)"
proof (cases x)
  case 0
  then show ?thesis using assms(1) by (cases ts) simp_all
next
  case (Suc y)
  have "firstkey (tl ts ! y) = firstkey T" using assms Suc by (simp add: nth_tl)
  then show ?thesis using assms(1) Suc
    by (cases ts) (simp_all add: map_update list_update_same_conv)
qed

lemma separators_insert:
  assumes "x < length ts" "0 < x \<Longrightarrow> firstkey T1 = firstkey (ts ! x)"
  shows "map firstkey (tl (insertAt (ts[x := T1]) (Suc x) T2)) =
    insertAt (map firstkey (tl ts)) x (firstkey T2)"
proof -
  have "tl (insertAt (ts[x := T1]) (Suc x) T2) = insertAt (tl (ts[x := T1])) x T2"
    using assms(1) by (cases "ts[x := T1]") (auto simp: insertAt_def)
  then show ?thesis using separators_update [OF assms] by (simp add: map_insertAt)
qed

lemma balanced_child: "balanced (GBranch i ts) \<Longrightarrow> T \<in> set ts \<Longrightarrow> balanced T"
  by simp

lemma gheight_branch: "balanced (GBranch i ts) \<Longrightarrow> T \<in> set ts \<Longrightarrow> gheight (GBranch i ts) = Suc (gheight T)"
  by (cases ts) auto

lemma gheight_branchI:
  "ts \<noteq> [] \<Longrightarrow> (\<And>T. T \<in> set ts \<Longrightarrow> gheight T = h \<and> balanced T) \<Longrightarrow>
     gheight (GBranch i ts) = Suc h \<and> balanced (GBranch i ts)"
  by (cases ts) auto

section \<open>Writing a branch page\<close>

lemma fits_branch:
  assumes "roomy d K" "length keys \<le> maxKeys d" "\<forall>k\<in>set keys. length k \<le> K"
  shows "fits (branchCells keys cs)"
proof (rule cells_fit [OF assms(1)])
  show "length (branchCells keys cs) \<le> maxKeys d" using assms(2) by (simp add: branchCells_def)
  show "\<forall>c\<in>set (branchCells keys cs). cellBytes c \<le> 20 + K"
    using assms(3) by (fastforce simp: branchCells_def dest: set_zip_leftD)
qed

lemma firstkey_short: "shape d K T \<Longrightarrow> length (firstkey T) \<le> K"
proof (induction T)
  case (GLeaf i es)
  then show ?case by (cases es) (auto simp: firstkey_def)
next
  case (GBranch i ts)
  obtain T ts' where ts: "ts = T # ts'" using GBranch.prems by (cases ts) auto
  then have T: "shape d K T" using GBranch.prems by simp
  have "firstkey (GBranch i ts) = firstkey T"
    using gentries_nonempty [OF T] ts by (simp add: firstkey_def)
  then show ?case using GBranch.IH [OF _ T] ts by simp
qed

lemma writeBranch_ok:
  assumes p: "wf_page p" "pid p = i" "i \<noteq> 0" and r: "roomy d K"
    and ts: "ts \<noteq> []" "length ts \<le> Suc (maxKeys d)" "\<forall>T\<in>set ts. shape d K T"
  obtains p' where "mustWriteBranchParts p (map firstkey (tl ts)) (map gid ts) = Some p'"
    "branchPage p' i (map firstkey (tl ts)) (map gid ts)" "pid p' = i"
proof -
  obtain T us where tu: "ts = T # us" using ts(1) by (cases ts) auto
  have "fits (branchCells (map firstkey us) (map gid us))"
    by (rule fits_branch [OF r]) (use ts tu firstkey_short in auto)
  then obtain p' where w: "mustWriteBranchParts p (map firstkey us) (gid T # map gid us) = Some p'"
    "holds p' flagBranch (branchCells (map firstkey us) (map gid us))" "leftmostChild p' = gid T"
    "pid p' = pid p" "validChecksum p'"
    by (rule mustWriteBranchParts_fits [OF p(1)  _ _, of "map gid us" "map firstkey us" "gid T", simplified])
  then show thesis using that [of p'] p tu by (simp add: branchPage_def)
qed

lemma branchPage_newPage_kind: "i \<noteq> 0 \<Longrightarrow> wf_page (newPage i f) \<and> pid (newPage i f) = i"
  using holdsD(1) [OF holds_newPage] by simp

end
