(* ===== verification/InsertCorrect.thy ===== *)
theory InsertCorrect
  imports BranchSteps
begin

text \<open>
  Insertion is correct: on pages that represent an ordered tree, \<^verbatim>\<open>insert\<close> returns one or two
  trees that represent \<open>put_list\<close> of the entries, returns the old value, keeps node sizes,
  balance and minimum fill, owns exactly the pages it uses, and changes only fresh pages.
\<close>

text \<open>Pages an insertion may allocate: a copy and a split per level, and the leaf's.\<close>

definition insertCost :: "nat \<Rightarrow> bytes \<Rightarrow> gtree \<Rightarrow> nat" where
  "insertCost d v T = leafCost d v + 2 * gheight T"

text \<open>
  The state between descent and return: the copied child \<open>setgid j (ts ! x)\<close> is owned apart, the
  branch page names it, and its siblings are untouched.
\<close>

lemma descend_step:
  fixes k :: key and cmp :: comparator
  assumes ts: "rep (pages t) (GBranch i ts)" "shape d K (GBranch i ts)" and x: "x < length ts"
    and own: "owned t (gids (GBranch i ts) + R)" and room: "room t (Suc n)" and r: "roomy d K"
  obtains j p p' t1 where "pages t i = Some p" "\<not> isLeaf p"
    "branchParts p = Some (map firstkey (tl ts), map gid ts)"
    "copyPage t (gid (ts ! x)) = Some (j, t1)"
    "mustWriteBranchParts p (map firstkey (tl ts)) ((map gid ts)[x := j]) = Some p'"
    "branchPage p' i (map firstkey (tl ts)) ((map gid ts)[x := j])" "pid p' = i"
    "rep (pages (putPage t1 p')) (setgid j (ts ! x))"
    "owned (putPage t1 p') (gids (setgid j (ts ! x)) + (add_mset i (sum_list (map gids (others ts x))) + R))"
    "room (putPage t1 p') n" "ext {i} t (putPage t1 p')" "j \<in> fresh t" "j \<noteq> i"
    "\<And>T. T \<in> set (others ts x) \<Longrightarrow> rep (pages (putPage t1 p')) T"
    "pages (putPage t1 p') i = Some p'"
proof -
  let ?C = "ts ! x" and ?M = "sum_list (map gids (others ts x))"
  obtain p where p: "pages t i = Some p" "branchPage p i (map firstkey (tl ts)) (map gid ts)"
    using ts(1) by auto
  note kind = branchPage_kind [OF p(2)]
  have C: "rep (pages t) ?C" using ts(1) x by simp
  have own0: "owned t (add_mset (gid ?C) (grest ?C + (add_mset i ?M + R)))"
    using own x by (simp add: others_gids [OF x] gids_grest [of ?C] add_mset_commute ac_simps)
  obtain q where q: "pages t (gid ?C) = Some q" using rep_root [OF C] by blast
  obtain j t1 where c: "copyPage t (gid ?C) = Some (j, t1)"
    "owned t1 (add_mset j (grest ?C + (add_mset i ?M + R)))" "room t1 n"
    "ext {} t t1" "pages t1 = (pages t)(j \<mapsto> q\<lparr>pid := j\<rparr>)" "j \<in> fresh t" "j \<noteq> 0"
    "j \<notin># add_mset (gid ?C) (grest ?C + (add_mset i ?M + R))"
    by (rule copyPage_ok [OF own0 room q]) (rule that)
  have ji: "j \<noteq> i" using c(8) by auto
  have len: "length ts \<le> Suc (maxKeys d)" "ts \<noteq> []" "\<forall>T\<in>set ts. shape d K T" using ts(2) by simp_all
  have upd: "map gid (ts[x := setgid j ?C]) = (map gid ts)[x := j]" by (simp add: map_update)
  have seps: "map firstkey (tl (ts[x := setgid j ?C])) = map firstkey (tl ts)"
    by (rule separators_update [OF x]) simp
  have sh: "ts[x := setgid j ?C] \<noteq> []" "length (ts[x := setgid j ?C]) \<le> Suc (maxKeys d)"
    "\<forall>T\<in>set (ts[x := setgid j ?C]). shape d K T"
    using len(1,2) len(3) x set_update_subset_insert [of ts x "setgid j ?C"] by auto
  obtain p' where w: "mustWriteBranchParts p (map firstkey (tl ts)) ((map gid ts)[x := j]) = Some p'"
    "branchPage p' i (map firstkey (tl ts)) ((map gid ts)[x := j])" "pid p' = i"
    by (rule writeBranch_ok [OF kind(5,3,6) r sh, unfolded upd seps]) (rule that)
  let ?t = "putPage t1 p'"
  have own1: "owned ?t (gids (setgid j ?C) + (add_mset i ?M + R))"
    using c(2) by (simp add: add_mset_commute)
  have "count (grest ?C) i = 0" "count ?M i = 0" using owned_distinct [OF own1, of i] ji by auto
  then have dist: "i \<notin># grest ?C" "i \<notin># ?M" by (simp_all only: not_in_iff)
  have ext: "ext {i} t ?t" by (rule ext_put [OF ext_mono [OF c(4)]]) (use w(3) in simp_all)
  have "rep (pages ?t) (setgid j ?C)"
  proof (rule rep_setgid [OF C q _ c(7)])
    show "pages ?t j = Some (q\<lparr>pid := j\<rparr>)" using c(5) w(3) ji by simp
    show "pages ?t a = pages t a" if "a \<in># grest ?C" for a
      using that c(5,8) w(3) dist by auto
  qed
  moreover have "rep (pages ?t) T" if T: "T \<in> set (others ts x)" for T
  proof (rule rep_ext [OF _ own0 ext])
    show "rep (pages t) T" using T set_others_subset [of ts x] ts(1) by auto
    show "a \<in># add_mset (gid ?C) (grest ?C + (add_mset i ?M + R)) \<and> a \<notin> {i}" if "a \<in># gids T" for a
      using in_gids_child [OF T that] dist by auto
  qed
  moreover have "pages ?t i = Some p'" using w(3) by simp
  moreover have "room ?t n" using c(3) by simp
  ultimately show thesis
    using that [OF p(1) kind(2) branchParts_branchPage [OF p(2)] c(1) w _ own1 _ ext c(6) ji] by blast
qed

text \<open>The contract with its parts as premises.\<close>

lemma insert_post_one:
  assumes "rep (pages t') T1" "shape d K T1" "gheight T1 = gheight T \<and> balanced T1"
    "gentries T1 = put_list cmp k v (gentries T)" "owned t' (gids T1 + R)" "room t' n" "ext {gid T} t t'"
    "(old, replaced) = (case map_of (gentries T) k of None \<Rightarrow> ([], False) | Some w \<Rightarrow> (w, True))"
    "gid T1 = gid T" "kidsfilled d T \<longrightarrow> kidsfilled d T1 \<and> (filled d T \<longrightarrow> filled d T1)"
  shows "insert_post cmp d K k v t T R n (t', old, replaced, None) [T1]"
  using assms by (simp add: insert_post_def)

lemma insert_post_two:
  assumes "rep (pages t') T1" "shape d K T1" "gheight T1 = gheight T \<and> balanced T1"
    "rep (pages t') T2" "shape d K T2" "gheight T2 = gheight T \<and> balanced T2"
    "gentries T1 @ gentries T2 = put_list cmp k v (gentries T)" "owned t' (gids T1 + gids T2 + R)"
    "room t' n" "ext {gid T} t t'"
    "(old, replaced) = (case map_of (gentries T) k of None \<Rightarrow> ([], False) | Some w \<Rightarrow> (w, True))"
    "gid T1 = gid T" "s = firstkey T2" "kidsfilled d T \<longrightarrow> filled d T1 \<and> filled d T2"
  shows "insert_post cmp d K k v t T R n (t', old, replaced, Some \<lparr>separator = s, right = gid T2\<rparr>) [T1, T2]"
  using assms by (simp add: insert_post_def)

lemma filled_kidsfilled: "filled d T \<Longrightarrow> kidsfilled d T"
  by (cases T) auto

text \<open>Writing the node page of \<open>us\<close> at id \<open>i\<close>.\<close>

lemma write_node:
  assumes p: "wf_page p" "pid p = i" "i \<noteq> 0" and r: "roomy d K"
    and us: "us \<noteq> []" "length us \<le> Suc (maxKeys d)" "\<forall>T\<in>set us. shape d K T" "\<forall>T\<in>set us. rep (pages t) T"
    and own: "owned t (add_mset i (sum_list (map gids us)) + R)"
  obtains p' where "mustWriteBranchParts p (map firstkey (tl us)) (map gid us) = Some p'" "pid p' = i"
    "rep (pages (putPage t p')) (GBranch i us)" "ext {i} t (putPage t p')"
proof -
  obtain p' where w: "mustWriteBranchParts p (map firstkey (tl us)) (map gid us) = Some p'"
    "branchPage p' i (map firstkey (tl us)) (map gid us)" "pid p' = i"
    by (rule writeBranch_ok [OF p r us(1-3)]) (rule that)
  have ext: "ext {i} t (putPage t p')" by (rule ext_putPage) (simp add: w(3))
  have i: "count (sum_list (map gids us)) i = 0" using owned_distinct [OF own, of i] by simp
  have "rep (pages (putPage t p')) T" if T: "T \<in> set us" for T
  proof (rule rep_ext [OF _ own ext])
    show "rep (pages t) T" using us(4) T by blast
    show "a \<in># add_mset i (sum_list (map gids us)) + R \<and> a \<notin> {i}" if "a \<in># gids T" for a
    proof -
      have "a \<in># sum_list (map gids us)" by (rule in_gids_child [OF T that])
      then show ?thesis using i by (metis not_in_iff singletonD union_iff insert_iff set_mset_add_mset_insert)
    qed
  qed
  then have "rep (pages (putPage t p')) (GBranch i us)" using w(2,3) by simp
  then show thesis using that [of p'] w(1,3) ext by blast
qed

lemma rep_ext_all:
  assumes "\<forall>T\<in>set us. rep (pages t) T" "owned t (sum_list (map gids us) + R)" "ext X t t'"
    "\<And>i. i \<in> X \<Longrightarrow> i \<notin># sum_list (map gids us)"
  shows "\<forall>T\<in>set us. rep (pages t') T"
proof
  fix T assume T: "T \<in> set us"
  show "rep (pages t') T"
    by (rule rep_ext [OF _ assms(2,3)]) (use assms(1,4) T in_gids_child [OF T] in auto)
qed

text \<open>Two node pages of the halves of \<open>us\<close>, the second under a new id.\<close>

lemma write_split:
  assumes p: "pages t i = Some p" "wf_page p" "pid p = i" "i \<noteq> 0" and r: "roomy d K"
    and us: "length us = Suc (Suc (maxKeys d))" "\<forall>T\<in>set us. shape d K T" "\<forall>T\<in>set us. rep (pages t) T"
    and own: "owned t (add_mset i (sum_list (map gids us)) + R)" and room: "room t (Suc n)"
    and mid: "1 \<le> mid" "mid \<le> maxKeys d"
  obtains rid t1 t2 p' r' where "allocPage t = Some (rid, t1)"
    "treeNewPage t1 rid flagBranch = Some (newPage rid flagBranch, t2)"
    "mustWriteBranchParts p (map firstkey (tl (take (Suc mid) us))) (map gid (take (Suc mid) us)) = Some p'"
    "mustWriteBranchParts (newPage rid flagBranch) (map firstkey (tl (drop (Suc mid) us)))
       (map gid (drop (Suc mid) us)) = Some r'"
    "rep (pages (putPage (putPage t2 p') r')) (GBranch i (take (Suc mid) us))"
    "rep (pages (putPage (putPage t2 p') r')) (GBranch rid (drop (Suc mid) us))"
    "owned (putPage (putPage t2 p') r') (gids (GBranch i (take (Suc mid) us)) +
       gids (GBranch rid (drop (Suc mid) us)) + R)"
    "room (putPage (putPage t2 p') r') n" "ext {i} t (putPage (putPage t2 p') r')"
proof -
  define us1 where "us1 = take (Suc mid) us"
  define us2 where "us2 = drop (Suc mid) us"
  have us12: "us = us1 @ us2" by (simp add: us1_def us2_def)
  have sh: "us1 \<noteq> []" "length us1 \<le> Suc (maxKeys d)" "us2 \<noteq> []" "length us2 \<le> Suc (maxKeys d)"
    using us(1) mid by (auto simp: us1_def us2_def)
  have all: "\<forall>T\<in>set us1. shape d K T" "\<forall>T\<in>set us2. shape d K T"
    using us(2) by (auto simp: us12)
  obtain rid t1 where a: "allocPage t = Some (rid, t1)"
    "owned t1 (add_mset rid (add_mset i (sum_list (map gids us)) + R))" "room t1 n" "ext {} t t1"
    "rid \<in> fresh t" "rid \<notin># add_mset i (sum_list (map gids us)) + R" "rid \<noteq> 0" "pages t1 = pages t"
    "pageable t1 rid"
    by (rule allocPage_ok [OF own room]) (rule that)
  obtain ar where b: "treeNewPage t1 rid flagBranch = Some (newPage rid flagBranch, t1\<lparr>arena := ar\<rparr>)"
    "\<And>M. owned (t1\<lparr>arena := ar\<rparr>) M = owned t1 M" "\<And>n. room (t1\<lparr>arena := ar\<rparr>) n = room t1 n"
    "\<And>t0 X. ext X t0 (t1\<lparr>arena := ar\<rparr>) = ext X t0 t1"
    by (rule treeNewPage_ok [OF a(9), of flagBranch]) (rule that)
  let ?t2 = "t1\<lparr>arena := ar\<rparr>"
  have own2: "owned ?t2 (add_mset i (sum_list (map gids us1)) + (add_mset rid (sum_list (map gids us2)) + R))"
    using a(2) b(2) by (simp add: us12 ac_simps add_mset_commute)
  have reps: "\<forall>T\<in>set us1. rep (pages ?t2) T" "\<forall>T\<in>set us2. rep (pages ?t2) T"
    using us(3) a(8) by (auto simp: us12)
  obtain p' where w1: "mustWriteBranchParts p (map firstkey (tl us1)) (map gid us1) = Some p'" "pid p' = i"
    "rep (pages (putPage ?t2 p')) (GBranch i us1)" "ext {i} ?t2 (putPage ?t2 p')"
    by (rule write_node [OF p(2-4) r sh(1,2) all(1) reps(1) own2]) (rule that)
  let ?t3 = "putPage ?t2 p'"
  have own3: "owned ?t3 (add_mset rid (sum_list (map gids us2)) + (gids (GBranch i us1) + R))"
    using own2 by (simp add: ac_simps add_mset_commute)
  have own3': "owned ?t3 (sum_list (map gids us2) + (add_mset rid (gids (GBranch i us1) + R)))"
    using own3 by (simp add: ac_simps add_mset_commute)
  have c: "count (sum_list (map gids us2)) i = 0"
    using owned_distinct [OF own3', of i] by (simp split: if_splits)
  have reps3: "\<forall>T\<in>set us2. rep (pages ?t3) T"
    by (rule rep_ext_all [OF reps(2) _ w1(4), of "add_mset rid (gids (GBranch i us1) + R)"])
      (use own3' c in \<open>simp, simp only: singleton_iff not_in_iff\<close>)
  note np = branchPage_newPage_kind [OF a(7), of flagBranch]
  obtain r' where w2: "mustWriteBranchParts (newPage rid flagBranch) (map firstkey (tl us2)) (map gid us2) = Some r'"
    "pid r' = rid" "rep (pages (putPage ?t3 r')) (GBranch rid us2)" "ext {rid} ?t3 (putPage ?t3 r')"
    by (rule write_node [OF np [THEN conjunct1] np [THEN conjunct2] a(7) r sh(3,4) all(2) reps3 own3]) (rule that)
  let ?t4 = "putPage ?t3 r'"
  have c2: "count (gids (GBranch i us1)) rid = 0"
    using owned_distinct [OF own3', of rid] by (simp split: if_splits)
  have "rep (pages ?t4) (GBranch i us1)"
  proof (rule rep_ext [OF w1(3) own3 w2(4)])
    fix a assume "a \<in># gids (GBranch i us1)"
    then show "a \<in># add_mset rid (sum_list (map gids us2)) + (gids (GBranch i us1) + R) \<and> a \<notin> {rid}"
      using c2 by (metis not_in_iff singletonD union_iff)
  qed
  moreover have "ext {i} t ?t4"
  proof (rule ext_trans [OF ext_trans [OF _ w1(4)] w2(4)])
    show "ext {i} t ?t2" using b(4) ext_mono [OF a(4), of "{i}"] by simp
  qed (use a(5) in simp_all)
  moreover have "owned ?t4 (gids (GBranch i us1) + gids (GBranch rid us2) + R)"
    using own3 by (simp add: ac_simps add_mset_commute)
  moreover have "room ?t4 n" using a(3) b(3) by simp
  ultimately show thesis
    using that [of rid t1 ?t2 p' r'] a(1) b(1) w1(1) w2(1,3) unfolding us1_def us2_def by blast
qed

context key_comparator
begin

lemma child_sorted: "sorted_by cmp (gentries (GBranch i ts)) \<Longrightarrow> T \<in> set ts \<Longrightarrow> sorted_by cmp (gentries T)"
  using sorted_child by simp

text \<open>The first key of the node put back at \<open>x\<close>.\<close>

lemma put_firstkey:
  assumes "gentries T1 @ es = put_list cmp k v (gentries C)" "gentries T1 \<noteq> []" "gentries C \<noteq> []"
    "cmp (firstkey C) k \<le> 0"
  shows "firstkey T1 = firstkey C"
proof -
  have "hd (gentries T1) = hd (put_list cmp k v (gentries C))"
    using assms(1,2) by (metis hd_append2)
  then show ?thesis using hd_put_list [of "gentries C" k v] assms(3,4) by (simp add: firstkey_def)
qed

lemma insert_finish_none:
  fixes k :: key
  assumes x: "x = childIndex (map firstkey (tl ts)) k cmp"
    and T: "shape d K (GBranch i ts)" "sorted_by cmp (gentries (GBranch i ts))" "balanced (GBranch i ts)"
    and at: "pages t1 i = Some p'" "branchPage p' i (map firstkey (tl ts)) ((map gid ts)[x := j])"
    and sib: "\<forall>T\<in>set (others ts x). rep (pages t1) T" and e1: "ext {i} t t1" and j: "j \<in> fresh t" "j \<noteq> i"
    and own1: "owned t1 (gids (setgid j (ts ! x)) + (add_mset i (sum_list (map gids (others ts x))) + R))"
    and post: "insert_post cmp d K k v t1 (setgid j (ts ! x)) (add_mset i (sum_list (map gids (others ts x))) + R)
      (Suc n) (t2, old, replaced, None) Ts"
  shows "\<exists>Us. insert_post cmp d K k v t (GBranch i ts) R n (t2, old, replaced, None) Us"
proof -
  let ?C = "ts ! x" and ?M = "sum_list (map gids (others ts x))"
  have sh: "ts \<noteq> []" "length ts \<le> Suc (maxKeys d)" "\<forall>T\<in>set ts. shape d K T" using T(1) by simp_all
  have srt: "sorted_by cmp (concat (map gentries ts))" "\<forall>T\<in>set ts. gentries T \<noteq> []"
    using T(2) sh(3) by auto
  have xl: "x < length ts" unfolding x by (rule route(1) [OF srt sh(1)])
  have C: "?C \<in> set ts" using xl by simp
  obtain T1 where T1: "Ts = [T1]" "gid T1 = j" "kidsfilled d ?C \<longrightarrow> kidsfilled d T1 \<and> (filled d ?C \<longrightarrow> filled d T1)"
    and r1: "rep (pages t2) T1" "shape d K T1" "gheight T1 = gheight ?C" "balanced T1"
    and c1: "gentries T1 = put_list cmp k v (gentries ?C)"
    and own2: "owned t2 (gids T1 + (add_mset i ?M + R))" and rm: "room t2 (Suc n)" and e2: "ext {j} t1 t2"
    and old: "(old, replaced) = (case map_of (gentries ?C) k of None \<Rightarrow> ([], False) | Some w \<Rightarrow> (w, True))"
    using post by (auto simp: insert_post_def)
  have fk: "firstkey T1 = firstkey ?C" if "0 < x"
  proof (rule put_firstkey)
    show "gentries T1 @ [] = put_list cmp k v (gentries ?C)" using c1 by simp
    show "cmp (firstkey ?C) k \<le> 0" using route(4) [OF srt sh(1), where k = k] that by (simp add: x)
  qed (use r1(2) srt(2) C in auto)
  let ?us = "ts[x := T1]" and ?U = "GBranch i (ts[x := T1])"
  have gids: "map gid ?us = (map gid ts)[x := j]" by (simp add: map_update T1(2))
  have seps: "map firstkey (tl ?us) = map firstkey (tl ts)" by (rule separators_update [OF xl fk])
  have own1': "owned t1 (?M + (add_mset j (add_mset i (grest ?C + R))))"
    using own1 by (simp add: ac_simps add_mset_commute)
  have "j \<noteq> i" "count ?M j = 0" using owned_distinct [OF own1', of j] j by auto
  then have "\<forall>T\<in>set (others ts x). rep (pages t2) T"
    by (intro rep_ext_all [OF sib own1' e2]) (simp only: singleton_iff not_in_iff)
  moreover have "pages t2 i = Some p'"
    using extD(4) [OF e2, of i] owned_not_fresh [OF own1, of i] \<open>j \<noteq> i\<close> at(1) by simp
  ultimately have "rep (pages t2) ?U"
    using at(2) r1(1) by (auto simp: gids seps set_update_others [OF xl])
  moreover have "gentries ?U = put_list cmp k v (gentries (GBranch i ts))"
    using put_route [OF srt sh(1), where k = k and v = v] c1 xl
    by (simp add: upd_conv_take_nth_drop x [symmetric])
  moreover have "owned t2 (gids ?U + R)"
    using own2 by (simp add: others_update_gids [OF xl] ac_simps)
  moreover have "map_of (gentries (GBranch i ts)) k = map_of (gentries ?C) k"
    using map_of_route [OF srt sh(1), where k = k] by (simp add: x)
  moreover have "gheight ?U = gheight (GBranch i ts) \<and> balanced ?U"
  proof -
    have h: "gheight (GBranch i ts) = Suc (gheight ?C)" by (rule gheight_branch [OF T(3) C])
    have "gheight ?U = Suc (gheight ?C) \<and> balanced ?U"
    proof (rule gheight_branchI)
      fix T' assume "T' \<in> set ?us"
      then consider "T' = T1" | "T' \<in> set ts" using set_update_others [OF xl] set_others_subset by blast
      then show "gheight T' = gheight ?C \<and> balanced T'"
        using r1(3,4) T(3) h gheight_branch [OF T(3)] by cases auto
    qed (use sh(1) in simp)
    then show ?thesis using h by simp
  qed
  moreover have "shape d K ?U"
    using sh r1(2) set_others_subset [of ts x] by (auto simp: set_update_others [OF xl])
  moreover have "ext {i} t t2" by (rule ext_trans [OF e1 e2]) (use j in simp)
  moreover have "kidsfilled d (GBranch i ts) \<longrightarrow> kidsfilled d ?U \<and> (filled d (GBranch i ts) \<longrightarrow> filled d ?U)"
    using T1(3) C filled_kidsfilled [of d ?C] set_others_subset [of ts x]
    by (auto simp: set_update_others [OF xl])
  moreover have "room t2 n" using room_le [OF rm] by simp
  ultimately have "insert_post cmp d K k v t (GBranch i ts) R n (t2, old, replaced, None) [?U]"
    by (intro insert_post_one) (use old in \<open>simp_all only: gid.simps\<close>)
  then show ?thesis by blast
qed

lemma insert_finish_split:
  fixes k :: key
  assumes x: "x = childIndex (map firstkey (tl ts)) k cmp"
    and T: "shape d K (GBranch i ts)" "sorted_by cmp (gentries (GBranch i ts))" "balanced (GBranch i ts)"
    and at: "pages t1 i = Some p'" "branchPage p' i (map firstkey (tl ts)) ((map gid ts)[x := j])"
    and sib: "\<forall>T\<in>set (others ts x). rep (pages t1) T" and e1: "ext {i} t t1" and j: "j \<in> fresh t" "j \<noteq> i"
    and own1: "owned t1 (gids (setgid j (ts ! x)) + (add_mset i (sum_list (map gids (others ts x))) + R))"
    and post: "insert_post cmp d K k v t1 (setgid j (ts ! x)) (add_mset i (sum_list (map gids (others ts x))) + R)
      (Suc n) (t2, old, replaced, Some sr) Ts"
    and deg: "degree t1 = d" and r: "roomy d K"
  shows "\<exists>res Us. insertBranchFinish t2 i (map firstkey (tl ts)) ((map gid ts)[x := j]) x old replaced (Some sr)
      = Some res \<and> insert_post cmp d K k v t (GBranch i ts) R n res Us"
proof -
  let ?C = "ts ! x" and ?M = "sum_list (map gids (others ts x))"
  have sh: "ts \<noteq> []" "length ts \<le> Suc (maxKeys d)" "\<forall>T\<in>set ts. shape d K T" using T(1) by simp_all
  have srt: "sorted_by cmp (concat (map gentries ts))" "\<forall>T\<in>set ts. gentries T \<noteq> []"
    using T(2) sh(3) by auto
  have xl: "x < length ts" unfolding x by (rule route(1) [OF srt sh(1)])
  have C: "?C \<in> set ts" using xl by simp
  have d: "2 \<le> d" using r by (simp add: roomy_def)
  obtain T1 T2 where Ts: "Ts = [T1, T2]" "gid T1 = j" "sr = \<lparr>separator = firstkey T2, right = gid T2\<rparr>"
      "kidsfilled d ?C \<longrightarrow> filled d T1 \<and> filled d T2"
    and r1: "rep (pages t2) T1" "shape d K T1" "gheight T1 = gheight ?C" "balanced T1"
    and r2: "rep (pages t2) T2" "shape d K T2" "gheight T2 = gheight ?C" "balanced T2"
    and c1: "gentries T1 @ gentries T2 = put_list cmp k v (gentries ?C)"
    and own2: "owned t2 (gids T1 + gids T2 + (add_mset i ?M + R))" and rm: "room t2 (Suc n)"
    and e2: "ext {j} t1 t2"
    and old: "(old, replaced) = (case map_of (gentries ?C) k of None \<Rightarrow> ([], False) | Some w \<Rightarrow> (w, True))"
    using post by (cases sr) (auto simp: insert_post_def)
  have fk: "firstkey T1 = firstkey ?C" if "0 < x"
  proof (rule put_firstkey [OF c1])
    show "cmp (firstkey ?C) k \<le> 0" using route(4) [OF srt sh(1), where k = k] that by (simp add: x)
  qed (use r1(2) srt(2) C in auto)
  define us where "us = insertAt (ts[x := T1]) (Suc x) T2"
  have gids: "map gid us = insertAt ((map gid ts)[x := j]) (Suc x) (gid T2)"
    by (simp add: us_def map_insertAt map_update Ts(2))
  have seps: "map firstkey (tl us) = insertAt (map firstkey (tl ts)) x (firstkey T2)"
    unfolding us_def by (rule separators_insert [OF xl fk])
  have lus: "length us = Suc (length ts)" using xl by (simp add: us_def)
  have setus: "set us = insert T1 (insert T2 (set (others ts x)))"
    unfolding us_def by (rule set_insert_others [OF xl])
  have own1': "owned t1 (?M + (add_mset j (add_mset i (grest ?C + R))))"
    using own1 by (simp add: ac_simps add_mset_commute)
  have cM: "count ?M j = 0" using owned_distinct [OF own1', of j] j by auto
  have "\<forall>T\<in>set (others ts x). rep (pages t2) T"
    by (intro rep_ext_all [OF sib own1' e2]) (use cM in \<open>simp only: singleton_iff not_in_iff\<close>)
  then have reps: "\<forall>T\<in>set us. rep (pages t2) T" using r1(1) r2(1) by (simp add: setus)
  have at2: "pages t2 i = Some p'"
    using extD(4) [OF e2, of i] owned_not_fresh [OF own1, of i] j(2) at(1) by simp
  note kind = branchPage_kind [OF at(2)]
  have shapes: "\<forall>T\<in>set us. shape d K T" using sh(3) r1(2) r2(2) set_others_subset [of ts x] by (auto simp: setus)
  have own: "owned t2 (add_mset i (sum_list (map gids us)) + R)"
    using own2 by (simp add: us_def insertAt_update_gids [OF xl] ac_simps)
  have ents: "concat (map gentries us) = put_list cmp k v (gentries (GBranch i ts))"
    using put_route [OF srt sh(1), where k = k and v = v] c1 xl
    by (simp add: us_def insertAt_update x [symmetric])
  have mo: "map_of (gentries (GBranch i ts)) k = map_of (gentries ?C) k"
    using map_of_route [OF srt sh(1), where k = k] by (simp add: x)
  have h: "gheight (GBranch i ts) = Suc (gheight ?C)" by (rule gheight_branch [OF T(3) C])
  have hs: "gheight T' = gheight ?C \<and> balanced T'" if "T' \<in> set us" for T'
  proof -
    consider "T' = T1" | "T' = T2" | "T' \<in> set ts"
      using \<open>T' \<in> set us\<close> set_others_subset [of ts x] unfolding setus by blast
    then show ?thesis
    proof cases
      case 3
      then have "gheight T' = gheight ?C" using gheight_branch [OF T(3) 3] h by (simp only: nat.inject)
      then show ?thesis using balanced_child [OF T(3) 3] by (rule conjI)
    qed (use r1(3,4) r2(3,4) in simp_all)
  qed
  have hus: "gheight (GBranch a vs) = gheight (GBranch i ts) \<and> balanced (GBranch a vs)"
    if "vs \<noteq> []" "set vs \<subseteq> set us" for a vs
    unfolding h by (rule gheight_branchI [OF that(1)]) (use that(2) hs in blast)
  have fill: "kidsfilled d (GBranch i ts) \<Longrightarrow> \<forall>T\<in>set us. filled d T"
    using Ts(4) C filled_kidsfilled [of d ?C] set_others_subset [of ts x] by (auto simp: setus)
  have e: "ext {i} t t2" by (rule ext_trans [OF e1 e2]) (use j in simp)
  have deg2: "degree t2 = d" using ext_settings(1) [OF e2] deg by simp
  have run: "insertBranchFinish t2 i (map firstkey (tl ts)) ((map gid ts)[x := j]) x old replaced (Some sr) =
     (if length ts \<le> maxKeys d then do {
        q \<leftarrow> mustWriteBranchParts p' (map firstkey (tl us)) (map gid us);
        Some (putPage t2 q, old, replaced, None)
      } else do {
        let mid = branchSplitIndex (map firstkey (tl us)) d;
        check (mid < length (tl us));
        (rightID, t3) \<leftarrow> allocPage t2;
        (r, t4) \<leftarrow> treeNewPage t3 rightID flagBranch;
        q \<leftarrow> mustWriteBranchParts p' (take mid (map firstkey (tl us))) (take (mid + 1) (map gid us));
        q' \<leftarrow> mustWriteBranchParts r (drop (mid + 1) (map firstkey (tl us))) (drop (mid + 1) (map gid us));
        Some (putPage (putPage t4 q) q', old, replaced,
          Some \<lparr>separator = map firstkey (tl us) ! mid, right = rightID\<rparr>)
      })"
    using at2 deg2 lus by (simp add: insertBranchFinish_def Ts(3) seps [symmetric] gids [symmetric] Let_def)
  show ?thesis
  proof (cases "length ts \<le> maxKeys d")
    case True
    have ne: "us \<noteq> []" "length us \<le> Suc (maxKeys d)" using lus True by auto
    obtain q where q: "mustWriteBranchParts p' (map firstkey (tl us)) (map gid us) = Some q" "pid q = i"
      "rep (pages (putPage t2 q)) (GBranch i us)" "ext {i} t2 (putPage t2 q)"
      by (rule write_node [OF kind(5,3,6) r ne shapes reps own]) (rule that)
    have "insert_post cmp d K k v t (GBranch i ts) R n (putPage t2 q, old, replaced, None) [GBranch i us]"
    proof (rule insert_post_one [OF q(3)])
      show "shape d K (GBranch i us)" using ne shapes by simp
      show "gheight (GBranch i us) = gheight (GBranch i ts) \<and> balanced (GBranch i us)"
        using gheight_branchI [OF ne(1) hs] h by simp
      show "ext {gid (GBranch i ts)} t (putPage t2 q)" using ext_trans [OF e q(4)] by simp
      show "kidsfilled d (GBranch i ts) \<longrightarrow> kidsfilled d (GBranch i us) \<and>
          (filled d (GBranch i ts) \<longrightarrow> filled d (GBranch i us))"
        using fill lus by auto
    qed (use ents own room_le [OF rm] old mo in simp_all)
    then show ?thesis using run True q(1) by auto
  next
    case False
    define mid where "mid = branchSplitIndex (map firstkey (tl us)) d"
    have full: "length us = Suc (Suc (maxKeys d))" using False sh(2) lus by simp
    then have "length (map firstkey (tl us)) = Suc (maxKeys d)" by simp
    note b = branchSplitIndex_bounds [OF d this, folded mid_def]
    have mid: "1 \<le> mid" "mid \<le> maxKeys d" using b d by auto
    obtain rid t3 t4 q q' where w: "allocPage t2 = Some (rid, t3)"
      "treeNewPage t3 rid flagBranch = Some (newPage rid flagBranch, t4)"
      "mustWriteBranchParts p' (map firstkey (tl (take (Suc mid) us))) (map gid (take (Suc mid) us)) = Some q"
      "mustWriteBranchParts (newPage rid flagBranch) (map firstkey (tl (drop (Suc mid) us)))
         (map gid (drop (Suc mid) us)) = Some q'"
      "rep (pages (putPage (putPage t4 q) q')) (GBranch i (take (Suc mid) us))"
      "rep (pages (putPage (putPage t4 q) q')) (GBranch rid (drop (Suc mid) us))"
      "owned (putPage (putPage t4 q) q') (gids (GBranch i (take (Suc mid) us)) +
         gids (GBranch rid (drop (Suc mid) us)) + R)"
      "room (putPage (putPage t4 q) q') n" "ext {i} t2 (putPage (putPage t4 q) q')"
      by (rule write_split [OF at2 kind(5,3,6) r full shapes reps own rm mid]) (rule that)
    let ?U1 = "GBranch i (take (Suc mid) us)" and ?U2 = "GBranch rid (drop (Suc mid) us)"
    let ?res = "(putPage (putPage t4 q) q', old, replaced, Some \<lparr>separator = firstkey ?U2, right = gid ?U2\<rparr>)"
    have m: "Suc mid < length us" using mid full by simp
    have "firstkey ?U2 = firstkey (us ! Suc mid)"
    proof -
      have "gentries (us ! Suc mid) \<noteq> []" using shapes m by (metis gentries_nonempty nth_mem)
      then show ?thesis using m by (simp add: firstkey_def Cons_nth_drop_Suc [symmetric])
    qed
    then have sep: "map firstkey (tl us) ! mid = firstkey ?U2" using m by (simp add: nth_tl)
    have "take mid (map firstkey (tl us)) = map firstkey (tl (take (Suc mid) us))"
      "drop (Suc mid) (map firstkey (tl us)) = map firstkey (tl (drop (Suc mid) us))"
      by (simp_all add: take_map drop_map tl_take tl_drop [symmetric] drop_Suc)
    then have go: "insertBranchFinish t2 i (map firstkey (tl ts)) ((map gid ts)[x := j]) x old replaced (Some sr)
        = Some ?res"
      unfolding run using False w(1-4) m less_diff_conv [of mid "length us" 1] sep
      by (simp add: mid_def [symmetric] take_map drop_map)
    have lens: "d \<le> length (take (Suc mid) us)" "length (take (Suc mid) us) \<le> Suc (maxKeys d)"
      "d \<le> length (drop (Suc mid) us)" "length (drop (Suc mid) us) \<le> Suc (maxKeys d)"
      using b full mid d by (auto simp: maxKeys_def)
    have "insert_post cmp d K k v t (GBranch i ts) R n ?res [?U1, ?U2]"
    proof (rule insert_post_two [OF w(5) _ _ w(6)])
      show "shape d K ?U1" "shape d K ?U2" using lens shapes d by (auto dest: in_set_takeD in_set_dropD)
      show "gheight ?U1 = gheight (GBranch i ts) \<and> balanced ?U1"
        by (rule hus [OF _ set_take_subset]) (use m in auto)
      show "gheight ?U2 = gheight (GBranch i ts) \<and> balanced ?U2"
        by (rule hus [OF _ set_drop_subset]) (use m in simp)
      have "gentries ?U1 @ gentries ?U2 = concat (map gentries us)"
        by (metis append_take_drop_id concat_append gentries.simps(2) map_append)
      then show "gentries ?U1 @ gentries ?U2 = put_list cmp k v (gentries (GBranch i ts))" using ents by simp
      show "ext {gid (GBranch i ts)} t (putPage (putPage t4 q) q')" using ext_trans [OF e w(9)] by simp
      show "kidsfilled d (GBranch i ts) \<longrightarrow> filled d ?U1 \<and> filled d ?U2"
        using fill lens d by (auto simp: minKeys_def dest: in_set_takeD in_set_dropD)
    qed (use w(7,8) old mo in simp_all)
    then show ?thesis using go by blast
  qed
qed

theorem treeInsert_ok:
  assumes "compareKeys t = cmp" "degree t = d" "rep (pages t) T" "shape d K T" "balanced T"
    "sorted_by cmp (gentries T)" "owned t (gids T + R)" "room t (insertCost d v T + n)"
    "roomy d K" "length k \<le> K" "length v < 2 ^ 63"
  shows "\<exists>res Ts. treeInsert t (gid T) k v = Some res \<and> insert_post cmp d K k v t T R n res Ts"
  using assms
proof (induction "gheight T" arbitrary: t T R n rule: less_induct)
  case less
  show ?case
  proof (cases T)
    case (GLeaf i es)
    then obtain p where p: "pages t i = Some p" "leafPage p i es" using less.prems(3) by auto
    have "treeInsert t i k v = insertLeaf t i k v"
      using p leafPage_kind(1) [OF p(2)] by (subst treeInsert.simps) simp
    then show ?thesis
      using insertLeaf_ok [of t d i es K R v n k] less.prems GLeaf by (simp add: insertCost_def)
  next
    case (GBranch i ts)
    note prems = less.prems [unfolded GBranch]
    have sh: "ts \<noteq> []" "\<forall>T\<in>set ts. shape d K T" using prems(4) by simp_all
    have srt: "sorted_by cmp (concat (map gentries ts))" "\<forall>T\<in>set ts. gentries T \<noteq> []"
      using prems(6) sh(2) by auto
    define x where "x = childIndex (map firstkey (tl ts)) k cmp"
    have xl: "x < length ts" unfolding x_def by (rule route(1) [OF srt sh(1)])
    let ?C = "ts ! x" and ?R = "add_mset i (sum_list (map gids (others ts x))) + R"
    have C: "?C \<in> set ts" using xl by simp
    have h: "gheight (GBranch i ts) = Suc (gheight ?C)" by (rule gheight_branch [OF prems(5) C])
    have room: "room t (Suc (insertCost d v (setgid j ?C) + Suc n))" for j
      using prems(8) h by (simp add: insertCost_def)
    obtain j p p' t1 where s: "pages t i = Some p" "\<not> isLeaf p"
      "branchParts p = Some (map firstkey (tl ts), map gid ts)"
      "copyPage t (gid ?C) = Some (j, t1)"
      "mustWriteBranchParts p (map firstkey (tl ts)) ((map gid ts)[x := j]) = Some p'"
      "branchPage p' i (map firstkey (tl ts)) ((map gid ts)[x := j])" "pid p' = i"
      "rep (pages (putPage t1 p')) (setgid j ?C)"
      "owned (putPage t1 p') (gids (setgid j ?C) + ?R)"
      "room (putPage t1 p') (insertCost d v (setgid 0 ?C) + Suc n)" "ext {i} t (putPage t1 p')"
      "j \<in> fresh t" "j \<noteq> i" "\<And>T. T \<in> set (others ts x) \<Longrightarrow> rep (pages (putPage t1 p')) T"
      "pages (putPage t1 p') i = Some p'"
      by (rule descend_step [OF prems(3,4) xl prems(7) room [of 0] prems(9)]) (rule that)
    let ?t = "putPage t1 p'"
    have set1: "compareKeys ?t = cmp" "degree ?t = d" using ext_settings(1,12) [OF s(11)] prems(1,2) by simp_all
    have lt: "gheight (setgid j ?C) < gheight T" using h GBranch by simp
    have C1: "shape d K (setgid j ?C)" "balanced (setgid j ?C)" "sorted_by cmp (gentries (setgid j ?C))"
      using sh(2) C balanced_child [OF prems(5) C] child_sorted [OF prems(6) C] by simp_all
    have rm: "room ?t (insertCost d v (setgid j ?C) + Suc n)" using s(10) by (simp add: insertCost_def)
    from less.hyps [OF lt set1 s(8) C1 s(9) rm prems(9-11)]
    obtain t2 old replaced split Ts where rec: "treeInsert ?t j k v = Some (t2, old, replaced, split)"
      "insert_post cmp d K k v ?t (setgid j ?C) ?R (Suc n) (t2, old, replaced, split) Ts"
      by (auto simp: setgid_simps(1))
    have desc: "insertBranchDescend t p k =
        Some (map firstkey (tl ts), (map gid ts)[x := j], x, j, ?t)"
      using s(3-5) xl prems(1) by (simp add: insertBranchDescend_def x_def [symmetric])
    have run: "treeInsert t i k v = insertBranchFinish t2 i (map firstkey (tl ts)) ((map gid ts)[x := j]) x old replaced split"
      using s(1,2) desc rec(1) by (subst treeInsert.simps) simp
    have sib: "\<forall>T\<in>set (others ts x). rep (pages ?t) T" using s(14) by blast
    show ?thesis
    proof (cases split)
      case None
      have "\<exists>Us. insert_post cmp d K k v t (GBranch i ts) R n (t2, old, replaced, None) Us"
        by (rule insert_finish_none [OF x_def prems(4,6,5) s(15,6) sib s(11-13,9) rec(2) [unfolded None]])
      then show ?thesis using run None GBranch by (auto simp: insertBranchFinish_def)
    next
      case (Some sr)
      show ?thesis
        using insert_finish_split [OF x_def prems(4,6,5) s(15,6) sib s(11-13,9) rec(2) [unfolded Some] set1(2) prems(9)]
          run Some GBranch by simp
    qed
  qed
qed

end

end
