(* ===== verification/Delete.thy ===== *)
theory Delete
  imports InsertCorrect
begin

text \<open>
  Deletion (\<^verbatim>\<open>pagebtree/delete.go\<close>): the copy-on-write descent, borrowing before a minimum
  branch, merging and redistributing underfull siblings, rebuilding separators and
  collapsing the root.  As in the model of insertion, a page object changed through a pointer
  is stored back under its id.
\<close>

section \<open>First keys\<close>

text \<open>
  The inner option is Go's second result; the outer one is \<open>None\<close> for a panic of \<^verbatim>\<open>readCell\<close> or a
  cycle of leftmost children.
\<close>

partial_function (option) firstKey :: "(PageID \<Rightarrow> page option) \<Rightarrow> PageID \<Rightarrow> key option option" where
  "firstKey pgs i =
     (if i = 0 then Some None
      else (case pgs i of
        None \<Rightarrow> Some None
      | Some p \<Rightarrow>
          if isLeaf p then
            (if slotCount p = 0 then Some None
             else do { (k, v) \<leftarrow> readCell p 0; Some (Some k) })
          else firstKey pgs (leftmostChild p)))"

definition firstKeys :: "(PageID \<Rightarrow> page option) \<Rightarrow> PageID list \<Rightarrow> key list option" where
  "firstKeys pgs cs = map_option (List.map_filter id) (mapM (firstKey pgs) cs)"

definition branchChildrenBytes :: "Tree \<Rightarrow> PageID list \<Rightarrow> int option" where
  "branchChildrenBytes t children = do {
     check (children \<noteq> []);
     keys \<leftarrow> firstKeys (pages t) (tl children);
     Some (int pageHeaderSize + int (sum_list (map branchCellBytes keys)))
   }"

definition branchChildrenFitPage :: "Tree \<Rightarrow> PageID list \<Rightarrow> bool option" where
  "branchChildrenFitPage t children = do {
     b \<leftarrow> branchChildrenBytes t children;
     Some (b \<le> int PageSize)
   }"

definition writeBranchChildren :: "Tree \<Rightarrow> page \<Rightarrow> PageID list \<Rightarrow> page option" where
  "writeBranchChildren t p children =
     (if children = [] then Some (reset p flagLeaf)
      else do {
        keys \<leftarrow> firstKeys (pages t) (tl children);
        mustWriteBranchParts p keys children
      })"

section \<open>When a node needs repair\<close>

definition minRepairPageFillBytes :: "Tree \<Rightarrow> int" where
  "minRepairPageFillBytes t = int PageSize * minRepairPageFillPercent t div 100"

definition isBelowMinRepairFill :: "Tree \<Rightarrow> page \<Rightarrow> bool" where
  "isBelowMinRepairFill t p =
     (let threshold = minRepairPageFillBytes t in 0 < threshold \<and> slottedBytesUsed p < threshold)"

definition leafNeedsRepair :: "Tree \<Rightarrow> page \<Rightarrow> bool" where
  "leafNeedsRepair t p =
     (let n = unat (slotCount p) in
      if n < minKeys (degree t) then True
      else n \<le> minKeys (degree t) \<and> isBelowMinRepairFill t p)"

definition branchNeedsRepair :: "Tree \<Rightarrow> page \<Rightarrow> bool" where
  "branchNeedsRepair t p =
     (let n = unat (slotCount p) in
      if n < minKeys (degree t) then True
      else n \<le> minKeys (degree t) \<and> isBelowMinRepairFill t p)"

definition leafEntriesFitPage :: "leafEntry list \<Rightarrow> bool" where
  "leafEntriesFitPage es \<longleftrightarrow> pageHeaderSize + sum_list (map leafEntryCellBytes es) \<le> PageSize"

text \<open>
  The split of a list of children: the distances are computed for every candidate, and the
  first best one wins.
\<close>

definition branchChildSplitIndex :: "Tree \<Rightarrow> PageID list \<Rightarrow> nat option" where
  "branchChildSplitIndex t children =
     (let n = int (length children) in
      if n < 2 then Some (length children)
      else
        let minChildren = max 1 (int (degree t));
            lo = max minChildren (n - (int (maxKeys (degree t)) + 1));
            hi = min (int (maxKeys (degree t)) + 1) (n - minChildren)
        in if hi < lo then Some (length children div 2)
           else do {
             ds \<leftarrow> mapM (\<lambda>s. do {
                 l \<leftarrow> branchChildrenBytes t (take (nat s) children);
                 r \<leftarrow> branchChildrenBytes t (drop (nat s) children);
                 Some (absInt (l - r), s)
               }) [lo..hi];
             Some (nat (snd (bestSplit fst (hd ds) (tl ds))))
           })"

section \<open>Emptiness and the root\<close>

partial_function (option) subtreeEmpty :: "(PageID \<Rightarrow> page option) \<Rightarrow> PageID \<Rightarrow> bool option" where
  "subtreeEmpty pgs i =
     (case pgs i of
        None \<Rightarrow> Some True
      | Some p \<Rightarrow>
          if isLeaf p then Some (slotCount p = 0)
          else do {
            cs \<leftarrow> childIDs p;
            (u, r) \<leftarrow> loopM (\<lambda>u c. do {
                e \<leftarrow> subtreeEmpty pgs c;
                Some ((), if e then None else Some ())
              }) () cs;
            Some (r = None)
          })"

partial_function (option) collapseRoot :: "Tree \<Rightarrow> PageID \<Rightarrow> (PageID \<times> Tree) option" where
  "collapseRoot t rootID =
     (if rootID = 0 then Some (0, t)
      else do {
        p \<leftarrow> pages t rootID;
        (if isLeaf p then
           (if slotCount p = 0 then Some (0, retirePage t rootID) else Some (rootID, t))
         else if \<not> isBranch p then Some (rootID, t)
         else do {
           cs \<leftarrow> childIDs p;
           (case cs of
              [] \<Rightarrow> Some (0, retirePage t rootID)
            | [c] \<Rightarrow> collapseRoot (retirePage t rootID) c
            | _ \<Rightarrow> Some (rootID, t))
         })
      })"

section \<open>Borrowing, merging and redistributing\<close>

text \<open>A sibling that exists and satisfies \<open>P\<close>.\<close>

definition pageHas :: "Tree \<Rightarrow> PageID \<Rightarrow> (page \<Rightarrow> bool) \<Rightarrow> bool" where
  "pageHas t i P = (case pages t i of None \<Rightarrow> False | Some p \<Rightarrow> P p)"

definition lends :: "Tree \<Rightarrow> page \<Rightarrow> bool" where
  "lends t p \<longleftrightarrow> isBranch p \<and> minKeys (degree t) < unat (slotCount p)"

definition borrowFromLeft :: "Tree \<Rightarrow> PageID list \<Rightarrow> nat \<Rightarrow> (PageID list \<times> PageID \<times> Tree) option" where
  "borrowFromLeft t children index = do {
     (leftID, t1) \<leftarrow> copyPage t (children ! (index - 1));
     (childID, t2) \<leftarrow> copyPage t1 (children ! index);
     left \<leftarrow> pages t2 leftID;
     child \<leftarrow> pages t2 childID;
     let children = children[index - 1 := leftID, index := childID];
     leftChildren \<leftarrow> childIDs left;
     childChildren \<leftarrow> childIDs child;
     check (leftChildren \<noteq> []);
     let borrowed = last leftChildren;
     left \<leftarrow> writeBranchChildren t2 left (butlast leftChildren);
     let t3 = putPage t2 left;
     child \<leftarrow> writeBranchChildren t3 child (borrowed # childChildren);
     Some (children, childID, putPage t3 child)
   }"

definition borrowFromRight :: "Tree \<Rightarrow> PageID list \<Rightarrow> nat \<Rightarrow> (PageID list \<times> PageID \<times> Tree) option" where
  "borrowFromRight t children index = do {
     (childID, t1) \<leftarrow> copyPage t (children ! index);
     (rightID, t2) \<leftarrow> copyPage t1 (children ! (index + 1));
     child \<leftarrow> pages t2 childID;
     r \<leftarrow> pages t2 rightID;
     let children = children[index := childID, index + 1 := rightID];
     childChildren \<leftarrow> childIDs child;
     rightChildren \<leftarrow> childIDs r;
     check (rightChildren \<noteq> []);
     let borrowed = hd rightChildren;
     child \<leftarrow> writeBranchChildren t2 child (childChildren @ [borrowed]);
     let t3 = putPage t2 child;
     r \<leftarrow> writeBranchChildren t3 r (tl rightChildren);
     Some (children, childID, putPage t3 r)
   }"

definition borrowBranchChildBeforeDescent ::
  "Tree \<Rightarrow> PageID list \<Rightarrow> nat \<Rightarrow> (PageID list \<times> PageID \<times> Tree) option" where
  "borrowBranchChildBeforeDescent t children index =
     (if length children \<le> index then Some (children, 0, t)
      else if \<not> pageHas t (children ! index) (\<lambda>p. isBranch p \<and> unat (slotCount p) \<le> minKeys (degree t))
      then Some (children, 0, t)
      else if 0 < index \<and> pageHas t (children ! (index - 1)) (lends t)
      then borrowFromLeft t children index
      else if index + 1 < length children \<and> pageHas t (children ! (index + 1)) (lends t)
      then borrowFromRight t children index
      else Some (children, 0, t))"

text \<open>The left sibling takes the child's entries, or both share them again.\<close>

definition repairLeafLeft :: "Tree \<Rightarrow> PageID list \<Rightarrow> nat \<Rightarrow> page \<Rightarrow> page \<Rightarrow> (PageID list \<times> Tree) option" where
  "repairLeafLeft t children index left child = do {
     leftEntries \<leftarrow> leafEntries left;
     childEntries \<leftarrow> leafEntries child;
     let merged = leftEntries @ childEntries;
     (leftID, t1) \<leftarrow> copyPage t (children ! (index - 1));
     left \<leftarrow> pages t1 leftID;
     let children = children[index - 1 := leftID];
     (if length merged \<le> maxKeys (degree t) \<and> leafEntriesFitPage merged then do {
        (left, t2) \<leftarrow> writeLeafEntries t1 left merged;
        let t3 = putPage t2 (setNextLeaf left (nextLeaf child));
        Some (removeAt children index, retirePage t3 (children ! index))
      }
      else do {
        let split = nat (leafSplitIndex merged (degree t));
        (left, t2) \<leftarrow> writeLeafEntries t1 left (take split merged);
        let t3 = putPage t2 (setNextLeaf left (children ! index));
        (child, t4) \<leftarrow> writeLeafEntries t3 child (drop split merged);
        Some (children, putPage t4 child)
      })
   }"

definition repairLeafRight :: "Tree \<Rightarrow> PageID list \<Rightarrow> nat \<Rightarrow> page \<Rightarrow> page \<Rightarrow> (PageID list \<times> Tree) option" where
  "repairLeafRight t children index child r = do {
     childEntries \<leftarrow> leafEntries child;
     rightEntries \<leftarrow> leafEntries r;
     let merged = childEntries @ rightEntries;
     (rightID, t1) \<leftarrow> copyPage t (children ! (index + 1));
     r \<leftarrow> pages t1 rightID;
     let children = children[index + 1 := rightID];
     (if length merged \<le> maxKeys (degree t) \<and> leafEntriesFitPage merged then do {
        (child, t2) \<leftarrow> writeLeafEntries t1 child merged;
        let t3 = putPage t2 (setNextLeaf child (nextLeaf r));
        Some (removeAt children (index + 1), retirePage t3 rightID)
      }
      else do {
        let split = nat (leafSplitIndex merged (degree t));
        (child, t2) \<leftarrow> writeLeafEntries t1 child (take split merged);
        let t3 = putPage t2 (setNextLeaf child rightID);
        (r, t4) \<leftarrow> writeLeafEntries t3 r (drop split merged);
        Some (children, putPage t4 r)
      })
   }"

definition mergeUnderfullLeaf :: "Tree \<Rightarrow> PageID list \<Rightarrow> nat \<Rightarrow> (PageID list \<times> Tree) option" where
  "mergeUnderfullLeaf t children index =
     (if length children \<le> 1 \<or> length children \<le> index then Some (children, t)
      else (case pages t (children ! index) of
        None \<Rightarrow> Some (children, t)
      | Some child \<Rightarrow>
          if \<not> isLeaf child \<or> \<not> leafNeedsRepair t child then Some (children, t)
          else if 0 < index \<and> pageHas t (children ! (index - 1)) isLeaf then do {
            left \<leftarrow> pages t (children ! (index - 1));
            repairLeafLeft t children index left child
          }
          else if index + 1 < length children \<and> pageHas t (children ! (index + 1)) isLeaf then do {
            r \<leftarrow> pages t (children ! (index + 1));
            repairLeafRight t children index child r
          }
          else Some (children, t)))"

text \<open>The condition on the merged children: few enough and small enough for one page.\<close>

definition branchesMerge :: "Tree \<Rightarrow> PageID list \<Rightarrow> bool option" where
  "branchesMerge t merged =
     (if length merged \<le> maxKeys (degree t) + 1 then branchChildrenFitPage t merged else Some False)"

definition repairBranchLeft :: "Tree \<Rightarrow> PageID list \<Rightarrow> nat \<Rightarrow> page \<Rightarrow> page \<Rightarrow> (PageID list \<times> Tree) option" where
  "repairBranchLeft t children index left child = do {
     leftChildren \<leftarrow> childIDs left;
     childChildren \<leftarrow> childIDs child;
     let merged = leftChildren @ childChildren;
     fit \<leftarrow> branchesMerge t merged;
     (leftID, t1) \<leftarrow> copyPage t (children ! (index - 1));
     left \<leftarrow> pages t1 leftID;
     let children = children[index - 1 := leftID];
     (if fit then do {
        left \<leftarrow> writeBranchChildren t1 left merged;
        Some (removeAt children index, retirePage (putPage t1 left) (children ! index))
      }
      else do {
        split \<leftarrow> branchChildSplitIndex t1 merged;
        left \<leftarrow> writeBranchChildren t1 left (take split merged);
        let t2 = putPage t1 left;
        child \<leftarrow> writeBranchChildren t2 child (drop split merged);
        Some (children, putPage t2 child)
      })
   }"

text \<open>Merging to the right writes the child in place and retires the sibling uncopied.\<close>

definition repairBranchRight :: "Tree \<Rightarrow> PageID list \<Rightarrow> nat \<Rightarrow> page \<Rightarrow> page \<Rightarrow> (PageID list \<times> Tree) option" where
  "repairBranchRight t children index child r = do {
     childChildren \<leftarrow> childIDs child;
     rightChildren \<leftarrow> childIDs r;
     let merged = childChildren @ rightChildren;
     fit \<leftarrow> branchesMerge t merged;
     (if fit then do {
        child \<leftarrow> writeBranchChildren t child merged;
        Some (removeAt children (index + 1), retirePage (putPage t child) (children ! (index + 1)))
      }
      else do {
        (rightID, t1) \<leftarrow> copyPage t (children ! (index + 1));
        r \<leftarrow> pages t1 rightID;
        let children = children[index + 1 := rightID];
        split \<leftarrow> branchChildSplitIndex t1 merged;
        child \<leftarrow> writeBranchChildren t1 child (take split merged);
        let t2 = putPage t1 child;
        r \<leftarrow> writeBranchChildren t2 r (drop split merged);
        Some (children, putPage t2 r)
      })
   }"

definition mergeUnderfullBranch :: "Tree \<Rightarrow> PageID list \<Rightarrow> nat \<Rightarrow> (PageID list \<times> Tree) option" where
  "mergeUnderfullBranch t children index =
     (if length children \<le> 1 \<or> length children \<le> index then Some (children, t)
      else (case pages t (children ! index) of
        None \<Rightarrow> Some (children, t)
      | Some child \<Rightarrow>
          if \<not> isBranch child \<or> \<not> branchNeedsRepair t child then Some (children, t)
          else if 0 < index \<and> pageHas t (children ! (index - 1)) isBranch then do {
            left \<leftarrow> pages t (children ! (index - 1));
            repairBranchLeft t children index left child
          }
          else if index + 1 < length children \<and> pageHas t (children ! (index + 1)) isBranch then do {
            r \<leftarrow> pages t (children ! (index + 1));
            repairBranchRight t children index child r
          }
          else Some (children, t)))"

section \<open>The descent\<close>

definition deleteFromLeaf :: "Tree \<Rightarrow> page \<Rightarrow> key \<Rightarrow> (bool \<times> Tree) option" where
  "deleteFromLeaf t p k = do {
     entries \<leftarrow> leafEntries p;
     let (index, found) = binarySearchFunc (\<lambda>e. compareKeys t (le_key e) k) entries;
     (if \<not> found then Some (False, t)
      else do {
        let e = entries ! index;
        t1 \<leftarrow> retireOverflowValue t (le_value e) (le_slotFlags e);
        (p', t2) \<leftarrow> writeLeafEntries t1 p (removeAt entries index);
        Some (True, putPage t2 p')
      })
   }"

text \<open>Before the recursive call: borrow, or copy the child.\<close>

definition deleteDescend :: "Tree \<Rightarrow> page \<Rightarrow> key \<Rightarrow> (PageID list \<times> nat \<times> PageID \<times> Tree) option" where
  "deleteDescend t p k = do {
     (keys, children) \<leftarrow> branchParts p;
     let index = childIndex keys k (compareKeys t);
     (children, copied, t1) \<leftarrow> borrowBranchChildBeforeDescent t children index;
     (if copied \<noteq> 0 then Some (children, index, copied, t1)
      else do {
        check (index < length children);
        (copied, t2) \<leftarrow> copyPage t1 (children ! index);
        Some (children[index := copied], index, copied, t2)
      })
   }"

text \<open>After it: drop an empty child, or repair, and write the children back.\<close>

definition deleteFinish :: "Tree \<Rightarrow> PageID \<Rightarrow> PageID list \<Rightarrow> nat \<Rightarrow> PageID \<Rightarrow> (bool \<times> Tree) option" where
  "deleteFinish t i children index copied = do {
     gone \<leftarrow> subtreeEmpty (pages t) copied;
     (children, t1) \<leftarrow> (if gone then Some (removeAt children index, retirePage t copied)
        else do {
          (children, t1) \<leftarrow> mergeUnderfullLeaf t children index;
          mergeUnderfullBranch t1 children index
        });
     p \<leftarrow> pages t1 i;
     p' \<leftarrow> writeBranchChildren t1 p children;
     Some (True, putPage t1 p')
   }"

partial_function (option) deleteFrom :: "Tree \<Rightarrow> PageID \<Rightarrow> key \<Rightarrow> (bool \<times> Tree) option" where
  "deleteFrom t i k = do {
     p \<leftarrow> pages t i;
     (if isLeaf p then deleteFromLeaf t p k
      else do {
        (children, index, copied, t1) \<leftarrow> deleteDescend t p k;
        (ok, t2) \<leftarrow> deleteFrom t1 copied k;
        (if \<not> ok then Some (False, t2) else deleteFinish t2 i children index copied)
      })
   }"

end
