(* ===== verification/DeleteRepair.thy ===== *)
theory DeleteRepair
  imports Delete
begin

text \<open>
  Borrowing, merging and redistributing keep what the tree holds: each replaces two adjacent
  nodes by one or two nodes with the same entries in the same order, and touches only
  copies and the child that was copied before.
\<close>

section \<open>First keys and emptiness\<close>

lemma readCell_first:
  assumes "leafPage p i es" "es \<noteq> []"
  shows "slotCount p \<noteq> 0" "\<exists>v. readCell p 0 = Some (fst (hd es), v)"
proof -
  have h: "holds p flagLeaf (map gcell es)" using assms(1) by (simp add: leafPage_def)
  have n: "unat (slotCount p) = length es" by (rule leafPage_kind(4) [OF assms(1)])
  then show "slotCount p \<noteq> 0" using assms(2) by auto
  obtain k v f where g: "gcell (hd es) = (k, v, f)" by (metis prod.exhaust)
  have "readCell p 0 = Some (k, v)"
    using holds_reads(1) [OF h, of 0 k v f] g assms(2) by (simp add: hd_conv_nth)
  moreover have "k = fst (hd es)" using g by (metis fst_conv fst_gcell)
  ultimately show "\<exists>v. readCell p 0 = Some (fst (hd es), v)" by blast
qed

lemma firstKey_ok: "rep pgs T \<Longrightarrow> shape d K T \<Longrightarrow> firstKey pgs (gid T) = Some (Some (firstkey T))"
proof (induction T)
  case (GLeaf i es)
  then obtain p where p: "pgs i = Some p" "leafPage p i es" "es \<noteq> []" by auto
  note r = readCell_first [OF p(2,3)] and k = leafPage_kind [OF p(2)]
  have "firstkey (GLeaf i es) = fst (hd es)" using p(3) by (cases es) (auto simp: firstkey_def)
  then show ?case using p(1) r k by (subst firstKey.simps) auto
next
  case (GBranch i ts)
  then obtain p where p: "pgs i = Some p" "branchPage p i (map firstkey (tl ts)) (map gid ts)" "ts \<noteq> []"
    by auto
  note k = branchPage_kind [OF p(2)]
  have T: "hd ts \<in> set ts" using p(3) by simp
  then have sub: "rep pgs (hd ts)" "shape d K (hd ts)" using GBranch.prems by auto
  have left: "leftmostChild p = gid (hd ts)" using p(2,3) by (simp add: branchPage_def hd_map)
  have "firstkey (GBranch i ts) = firstkey (hd ts)"
    using p(3) gentries_nonempty [OF sub(2)] by (cases ts) (auto simp: firstkey_def)
  then show ?case using GBranch.IH [OF T sub] p(1) k left by (subst firstKey.simps) simp
qed

lemma firstKeys_ok:
  assumes "\<forall>T\<in>set us. rep pgs T" "\<forall>T\<in>set us. shape d K T"
  shows "firstKeys pgs (map gid us) = Some (map firstkey us)"
proof -
  have "mapM (firstKey pgs) (map gid us) = Some (map (\<lambda>T. Some (firstkey T)) us)"
    using assms firstKey_ok by (induction us) auto
  moreover have "List.map_filter id (map (\<lambda>T. Some (firstkey T)) us) = map firstkey us"
    by (induction us) (simp_all add: List.map_filter_simps)
  ultimately show ?thesis by (simp add: firstKeys_def)
qed

lemma writeBranchChildren_ok:
  assumes "us \<noteq> []" "\<forall>T\<in>set us. rep (pages t) T" "\<forall>T\<in>set us. shape d K T"
  shows "writeBranchChildren t p (map gid us) = mustWriteBranchParts p (map firstkey (tl us)) (map gid us)"
proof -
  have "firstKeys (pages t) (map gid (tl us)) = Some (map firstkey (tl us))"
    by (rule firstKeys_ok) (use assms in \<open>auto dest: list.set_sel(2)\<close>)
  then show ?thesis using assms(1) by (simp add: writeBranchChildren_def map_tl)
qed

lemma branchChildrenBytes_ok:
  assumes "us \<noteq> []" "\<forall>T\<in>set us. rep (pages t) T" "\<forall>T\<in>set us. shape d K T"
  shows "\<exists>b. branchChildrenBytes t (map gid us) = Some b"
proof -
  have "firstKeys (pages t) (map gid (tl us)) = Some (map firstkey (tl us))"
    by (rule firstKeys_ok) (use assms in \<open>auto dest: list.set_sel(2)\<close>)
  then show ?thesis using assms(1) by (simp add: branchChildrenBytes_def map_tl)
qed

lemma mapM_Some_all:
  "(\<And>x. x \<in> set xs \<Longrightarrow> \<exists>y. f x = Some y \<and> P x y) \<Longrightarrow> \<exists>ys. mapM f xs = Some ys \<and> list_all2 P xs ys"
proof (induction xs)
  case (Cons x xs)
  obtain y where "f x = Some y" "P x y" using Cons.prems [of x] by auto
  moreover obtain ys where "mapM f xs = Some ys" "list_all2 P xs ys" using Cons by auto
  ultimately show ?case by auto
qed simp

lemma branchChildSplitIndex_ok:
  assumes reps: "\<forall>T\<in>set us. rep (pages t) T" "\<forall>T\<in>set us. shape d K T" and deg: "degree t = d" "2 \<le> d"
    and n: "2 \<le> length us" "length us \<le> 2 * Suc (maxKeys d)"
  obtains s where "branchChildSplitIndex t (map gid us) = Some s" "1 \<le> s" "s < length us"
    "s \<le> Suc (maxKeys d)" "length us - s \<le> Suc (maxKeys d)"
proof -
  let ?n = "int (length us)"
  define lo where "lo = max (max 1 (int d)) (?n - (int (maxKeys d) + 1))"
  define hi where "hi = min (int (maxKeys d) + 1) (?n - max 1 (int d))"
  let ?f = "\<lambda>s. do {
      l \<leftarrow> branchChildrenBytes t (take (nat s) (map gid us));
      r \<leftarrow> branchChildrenBytes t (drop (nat s) (map gid us));
      Some (absInt (l - r), s) }"
  have eq: "branchChildSplitIndex t (map gid us) =
      (if hi < lo then Some (length us div 2)
       else do { ds \<leftarrow> mapM ?f [lo..hi]; Some (nat (snd (bestSplit fst (hd ds) (tl ds)))) })"
    using n deg by (simp add: branchChildSplitIndex_def Let_def lo_def hi_def)
  show thesis
  proof (cases "hi < lo")
    case True
    then show thesis using that [of "length us div 2"] eq n by auto
  next
    case False
    have "\<exists>ds. mapM ?f [lo..hi] = Some ds \<and> list_all2 (\<lambda>s y. snd y = s) [lo..hi] ds"
    proof (rule mapM_Some_all)
      fix s assume "s \<in> set [lo..hi]"
      then have s: "0 < nat s" "nat s < length us" using deg by (auto simp: lo_def hi_def)
      have "\<exists>b. branchChildrenBytes t (take (nat s) (map gid us)) = Some b"
        "\<exists>b. branchChildrenBytes t (drop (nat s) (map gid us)) = Some b"
        unfolding take_map drop_map
        by (rule branchChildrenBytes_ok; use s reps in \<open>auto dest: in_set_takeD in_set_dropD\<close>)+
      then show "\<exists>y. ?f s = Some y \<and> snd y = s" by auto
    qed
    then obtain ds where ds: "mapM ?f [lo..hi] = Some ds" "list_all2 (\<lambda>s y. snd y = s) [lo..hi] ds" by blast
    have "ds \<noteq> []" using False ds(2) by (auto dest: list_all2_lengthD)
    then have "bestSplit fst (hd ds) (tl ds) \<in> set ds"
      using bestSplit_in [of fst "hd ds" "tl ds"] by (cases ds) auto
    then obtain m where "m < length ds" "bestSplit fst (hd ds) (tl ds) = ds ! m" by (metis in_set_conv_nth)
    then have "snd (bestSplit fst (hd ds) (tl ds)) \<in> set [lo..hi]"
      using list_all2_nthD2 [OF ds(2)] list_all2_lengthD [OF ds(2)] by (metis nth_mem)
    then have b: "lo \<le> snd (bestSplit fst (hd ds) (tl ds))" "snd (bestSplit fst (hd ds) (tl ds)) \<le> hi" by auto
    have "int (nat (snd (bestSplit fst (hd ds) (tl ds)))) = snd (bestSplit fst (hd ds) (tl ds))"
      using b(1) by (auto simp: lo_def)
    then show thesis
      using that [of "nat (snd (bestSplit fst (hd ds) (tl ds)))"] eq False ds(1) b deg(2)
      by (auto simp: lo_def hi_def)
  qed
qed

lemma subtreeEmpty_empty: "rep pgs (GLeaf i []) \<Longrightarrow> subtreeEmpty pgs i = Some True"
proof -
  assume "rep pgs (GLeaf i [])"
  then obtain p where "pgs i = Some p" "leafPage p i []" by auto
  then show ?thesis
    using leafPage_kind(1,4) [of p i "[]"] by (subst subtreeEmpty.simps) (simp add: unat_eq_0)
qed

lemma subtreeEmpty_shape: "rep pgs T \<Longrightarrow> shape d K T \<Longrightarrow> subtreeEmpty pgs (gid T) = Some False"
proof (induction T)
  case (GLeaf i es)
  then obtain p where p: "pgs i = Some p" "leafPage p i es" "es \<noteq> []" by auto
  then show ?case
    using leafPage_kind(1) [OF p(2)] readCell_first(1) [OF p(2,3)] by (subst subtreeEmpty.simps) simp
next
  case (GBranch i ts)
  then obtain p where p: "pgs i = Some p" "branchPage p i (map firstkey (tl ts)) (map gid ts)" by auto
  obtain T us where ts: "ts = T # us" using GBranch.prems(2) by (cases ts) auto
  have "subtreeEmpty pgs (gid T) = Some False"
    using GBranch.IH [of T] GBranch.prems ts by simp
  then show ?case
    using p(1) branchPage_kind(2) [OF p(2)] childIDs_branchPage [OF p(2)] ts
    by (subst subtreeEmpty.simps) simp
qed

section \<open>Regrouping nodes\<close>

text \<open>
  \<open>good\<close>: the nodes of one level, each represented.  \<open>regroup X t ps R n t' qs\<close>: in \<open>t'\<close> the
  nodes \<open>qs\<close> stand for what \<open>ps\<close> stood for in \<open>t\<close>; besides fresh pages only \<open>X\<close> changed.
\<close>

definition good :: "nat \<Rightarrow> nat \<Rightarrow> nat \<Rightarrow> Tree \<Rightarrow> gtree list \<Rightarrow> bool" where
  "good d K h t us \<longleftrightarrow>
     (\<forall>T\<in>set us. rep (pages t) T \<and> shape d K T \<and> gheight T = h \<and> balanced T)"

definition regroup :: "nat \<Rightarrow> nat \<Rightarrow> nat \<Rightarrow> PageID set \<Rightarrow> Tree \<Rightarrow> gtree list \<Rightarrow> PageID multiset \<Rightarrow> nat \<Rightarrow>
    Tree \<Rightarrow> gtree list \<Rightarrow> bool" where
  "regroup d K h X t ps R n t' qs \<longleftrightarrow>
     good d K h t' qs \<and> concat (map gentries qs) = concat (map gentries ps) \<and>
     owned t' (sum_list (map gids qs) + R) \<and> room t' n \<and> ext X t t' \<and>
     qs \<noteq> [] \<and> length qs \<le> length ps"

lemma goodD:
  assumes "good d K h t us"
  shows "\<forall>T\<in>set us. rep (pages t) T" "\<forall>T\<in>set us. shape d K T"
    "T \<in> set us \<Longrightarrow> gheight T = h" "T \<in> set us \<Longrightarrow> balanced T"
  using assms by (simp_all add: good_def)

lemma good_append [simp]: "good d K h t (us @ vs) \<longleftrightarrow> good d K h t us \<and> good d K h t vs"
  by (auto simp: good_def)

lemma good_retirePage [simp]: "good d K h (retirePage t i) us = good d K h t us"
  by (simp add: good_def)

lemma good_two: "good d K h t [T, T'] \<longleftrightarrow> good d K h t [T] \<and> good d K h t [T']"
  by (auto simp: good_def)

lemma good_frame:
  assumes "good d K h t us" "owned t (sum_list (map gids us) + R)" "ext X t t'"
    "\<And>i. i \<in> X \<Longrightarrow> i \<notin># sum_list (map gids us)"
  shows "good d K h t' us"
  using rep_ext_all [OF goodD(1) [OF assms(1)] assms(2-4)] assms(1) by (auto simp: good_def)

lemma regroup_refl: "good d K h t us \<Longrightarrow> owned t (sum_list (map gids us) + R) \<Longrightarrow> room t n \<Longrightarrow>
    us \<noteq> [] \<Longrightarrow> regroup d K h X t us R n t us"
  by (simp add: regroup_def)

lemma regroup_splice:
  assumes g: "regroup d K h X t ps (sum_list (map gids A) + sum_list (map gids B) + R) n t' qs"
    and AB: "good d K h t A" "good d K h t B"
    and own: "owned t (sum_list (map gids (A @ ps @ B)) + R)" and X: "X \<subseteq> set_mset (sum_list (map gids ps))"
  shows "regroup d K h X t (A @ ps @ B) R n t' (A @ qs @ B)"
proof -
  let ?A = "sum_list (map gids A)" and ?B = "sum_list (map gids B)" and ?P = "sum_list (map gids ps)"
  have e: "ext X t t'" using g by (simp add: regroup_def)
  have oA: "owned t (?A + (?P + ?B + R))" and oB: "owned t (?B + (?P + ?A + R))"
    using own by (simp_all add: ac_simps)
  have no: "i \<notin># ?A \<and> i \<notin># ?B" if "i \<in> X" for i
  proof -
    have "0 < count ?P i" using X that by (metis count_greater_zero_iff subsetD)
    then have "count ?A i = 0" "count ?B i = 0"
      using owned_distinct [OF oA, of i] unfolding count_union by linarith+
    then show ?thesis by (simp only: not_in_iff)
  qed
  have "good d K h t' A" "good d K h t' B"
    using good_frame [OF AB(1) oA e] good_frame [OF AB(2) oB e] no by blast+
  then show ?thesis using g by (simp add: regroup_def ac_simps)
qed

section \<open>Copying and writing nodes\<close>

lemma copy_tree:
  assumes T: "rep (pages t) T" and own: "owned t (gids T + R)" and room: "room t (Suc n)"
  obtains j t1 q where "copyPage t (gid T) = Some (j, t1)" "pages t (gid T) = Some q"
    "pages t1 = (pages t)(j \<mapsto> q\<lparr>pid := j\<rparr>)" "rep (pages t1) (setgid j T)"
    "owned t1 (gids (setgid j T) + R)" "room t1 n" "ext {} t t1" "j \<in> fresh t" "j \<noteq> 0"
    "j \<notin># gids T + R"
proof -
  obtain q where q: "pages t (gid T) = Some q" using rep_root [OF T] by blast
  have own': "owned t (add_mset (gid T) (grest T + R))" using own by (simp add: gids_grest [of T])
  obtain j t1 where c: "copyPage t (gid T) = Some (j, t1)" "owned t1 (add_mset j (grest T + R))"
    "room t1 n" "ext {} t t1" "pages t1 = (pages t)(j \<mapsto> q\<lparr>pid := j\<rparr>)" "j \<in> fresh t" "j \<noteq> 0"
    "j \<notin># add_mset (gid T) (grest T + R)"
    by (rule copyPage_ok [OF own' room q]) (rule that)
  have "rep (pages t1) (setgid j T)"
    by (rule rep_setgid [OF T q _ c(7)]) (use c(5,8) in auto)
  then show thesis using that [of j t1 q] c q by (simp add: gids_grest [of T])
qed

text \<open>Writing two adjacent branch nodes.\<close>

lemma write_two_nodes:
  assumes p1: "wf_page p1" "pid p1 = a" "a \<noteq> 0" and p2: "wf_page p2" "pid p2 = b" "b \<noteq> 0" and r: "roomy d K"
    and us1: "us1 \<noteq> []" "length us1 \<le> Suc (maxKeys d)" and us2: "us2 \<noteq> []" "length us2 \<le> Suc (maxKeys d)"
    and g: "good d K h t (us1 @ us2)" and room: "room t n"
    and own: "owned t (add_mset a (sum_list (map gids us1)) + (add_mset b (sum_list (map gids us2)) + R))"
  obtains p1' p2' where "writeBranchChildren t p1 (map gid us1) = Some p1'" "pid p1' = a"
    "writeBranchChildren (putPage t p1') p2 (map gid us2) = Some p2'" "pid p2' = b"
    "good d K (Suc h) (putPage (putPage t p1') p2') [GBranch a us1, GBranch b us2]"
    "owned (putPage (putPage t p1') p2') (gids (GBranch a us1) + gids (GBranch b us2) + R)"
    "ext {a, b} t (putPage (putPage t p1') p2')" "room (putPage (putPage t p1') p2') n"
proof -
  have g12: "good d K h t us1" "good d K h t us2" using g by simp_all
  obtain p1' where w1: "mustWriteBranchParts p1 (map firstkey (tl us1)) (map gid us1) = Some p1'" "pid p1' = a"
    "rep (pages (putPage t p1')) (GBranch a us1)" "ext {a} t (putPage t p1')"
    by (rule write_node [OF p1 r us1 goodD(2,1) [OF g12(1)] own]) (rule that)
  let ?t = "putPage t p1'"
  have own2: "owned ?t (add_mset b (sum_list (map gids us2)) + (gids (GBranch a us1) + R))"
    using own by (simp add: ac_simps add_mset_commute)
  have own2': "owned t (sum_list (map gids us2) + (add_mset b (gids (GBranch a us1) + R)))"
    using own by (simp add: ac_simps add_mset_commute)
  have ab: "a \<noteq> b" "count (sum_list (map gids us2)) a = 0" "count (sum_list (map gids us1)) b = 0"
    using owned_distinct [OF own2', of a] owned_distinct [OF own2', of b] by (auto split: if_splits)
  have g2: "good d K h ?t us2"
    by (rule good_frame [OF g12(2) own2' w1(4)]) (use ab(2) in \<open>simp only: singleton_iff not_in_iff\<close>)
  obtain p2' where w2: "mustWriteBranchParts p2 (map firstkey (tl us2)) (map gid us2) = Some p2'" "pid p2' = b"
    "rep (pages (putPage ?t p2')) (GBranch b us2)" "ext {b} ?t (putPage ?t p2')"
    by (rule write_node [OF p2 r us2 goodD(2,1) [OF g2] own2]) (rule that)
  let ?t' = "putPage ?t p2'"
  have "rep (pages ?t') (GBranch a us1)"
  proof (rule rep_ext [OF w1(3) own2 w2(4)])
    fix i assume i: "i \<in># gids (GBranch a us1)"
    moreover have "count (gids (GBranch a us1)) b = 0" using ab(1,3) by simp
    ultimately show "i \<in># add_mset b (sum_list (map gids us2)) + (gids (GBranch a us1) + R) \<and> i \<notin> {b}"
      by (metis not_in_iff singletonD union_iff)
  qed
  moreover have "gheight (GBranch a us1) = Suc h \<and> balanced (GBranch a us1)"
    "gheight (GBranch b us2) = Suc h \<and> balanced (GBranch b us2)"
    using g12 goodD(3,4) by (intro gheight_branchI us1(1) us2(1); blast)+
  moreover have "shape d K (GBranch a us1)" "shape d K (GBranch b us2)"
    using us1 us2 goodD(2) [OF g12(1)] goodD(2) [OF g12(2)] by simp_all
  ultimately have "good d K (Suc h) ?t' [GBranch a us1, GBranch b us2]"
    using w2(3) unfolding good_def by (metis empty_iff empty_set set_ConsD)
  moreover have "ext {a, b} t ?t'"
    by (rule ext_trans [OF ext_mono [OF w1(4)] w2(4)]) simp_all
  moreover have "writeBranchChildren t p1 (map gid us1) = Some p1'"
    using writeBranchChildren_ok [OF us1(1) goodD(1,2) [OF g12(1)]] w1(1) by simp
  moreover have "writeBranchChildren ?t p2 (map gid us2) = Some p2'"
    using writeBranchChildren_ok [OF us2(1) goodD(1,2) [OF g2]] w2(1) by simp
  moreover have "owned ?t' (gids (GBranch a us1) + gids (GBranch b us2) + R)"
    using own by (simp add: ac_simps add_mset_commute)
  ultimately show thesis using that [of p1' p2'] w1(2) w2(2) room by simp
qed

section \<open>Leaves\<close>

lemma putPage_twice: "pid p = pid q \<Longrightarrow> putPage (putPage t p) q = putPage t q"
  by (simp add: putPage_def)

text \<open>Writing a leaf; the page stored may have its link set afterwards.\<close>

lemma write_leaf_linked:
  assumes pend: "list_all2 pend les es" and p: "leafPage p i es0" "pages t i = Some p"
    and own: "owned t (add_mset i (chainIDs es + R))" and room: "room t (wcost es + n)"
    and ok: "entries_ok t es" and keys: "\<forall>e\<in>set es. length (fst e) \<le> K"
    and len: "length es \<le> maxKeys d" and ne: "es \<noteq> []" and r: "roomy d K"
  obtains es' p' t' where "writeLeafEntries t p les = Some (p', t')" "map kv es' = map kv es"
    "\<And>q. q \<in> insert p' (range (setNextLeaf p')) \<Longrightarrow> pid q = i \<and> good d K 0 (putPage t' q) [GLeaf i es'] \<and>
       owned (putPage t' q) (gids (GLeaf i es') + R) \<and> room (putPage t' q) n \<and> ext {i} t (putPage t' q)"
proof -
  obtain es' p' t' where w: "writeLeafEntries t p les = Some (p', t')" "map kv es' = map kv es"
    "leafPage p' i es'" "nextLeaf p' = nextLeaf p" "ext {i} t (putPage t' p')" "ext {} t t'"
    "owned (putPage t' p') (add_mset i (chainIDs es' + R))" "room (putPage t' p') (wcost es' + n)"
    "rep (pages (putPage t' p')) (GLeaf i es')" "shape d K (GLeaf i es')" "entries_ok (putPage t' p') es'"
    "pid p' = i" "length es' = length es"
    by (rule writeLeaf_store [OF pend p own room ok keys len ne r])
  have "pid q = i \<and> good d K 0 (putPage t' q) [GLeaf i es'] \<and> owned (putPage t' q) (gids (GLeaf i es') + R) \<and>
      room (putPage t' q) n \<and> ext {i} t (putPage t' q)" if q: "q \<in> insert p' (range (setNextLeaf p'))" for q
  proof -
    have lp: "leafPage q i es'" using q w(3) leafPage_setNextLeaf by auto
    then have pid: "pid q = i" by (rule leafPage_kind(3))
    let ?t = "putPage t' q"
    have eq: "putPage (putPage t' p') q = ?t" by (rule putPage_twice) (simp add: w(12) pid)
    have e: "ext {i} (putPage t' p') ?t"
      using ext_putPage [of q "{i}" "putPage t' p'"] unfolding eq by (simp add: pid)
    have "count (chainIDs es') i = 0" using owned_distinct [OF w(7), of i] by simp
    then have "entries_ok ?t es'"
      by (intro entries_ok_ext [OF w(11) _ e, of "add_mset i R"]) (use w(7) in \<open>auto simp: not_in_iff\<close>)
    then have "rep (pages ?t) (GLeaf i es')" by (intro leaf_rep_frame [OF lp]) (simp_all add: pid)
    moreover have "ext {i} t ?t" by (rule ext_put [OF ext_mono [OF w(6)]]) (simp_all add: pid)
    ultimately show ?thesis using w(7,8,10) pid room_le [OF w(8), of n] by (simp add: good_def)
  qed
  then show thesis using that [of p' t' es'] w(1,2) by blast
qed

lemma good_leaf:
  assumes "good d K h t [GLeaf i es]"
  shows "entries_ok t es" "\<forall>e\<in>set es. length (fst e) \<le> K" "es \<noteq> []" "length es \<le> maxKeys d" "h = 0"
  using assms by (auto simp: good_def entries_ok_def)

lemma good_leaf_page:
  assumes "good d K h t [GLeaf i es]" "pages t i = Some p"
  shows "leafPage p i es" "leafEntries p = Some (map rawEntry es)" "wcost es \<le> 2 * length es"
  using assms leafEntries_leafPage [of p i es] wcost_leafPage [of p i es] by (auto simp: good_def)

lemma insert_self: "p \<in> insert p A" "setNextLeaf p n \<in> insert q (range (setNextLeaf p))"
  by auto

text \<open>The two writes of a redistribution.\<close>

lemma write_two_leaves:
  assumes ab: "pages t a = Some p1" "leafPage p1 a as0" "pages t b = Some p2" "leafPage p2 b bs0"
    and es: "entries_ok t es" "\<forall>e\<in>set es. length (fst e) \<le> K" and r: "roomy d K" and deg: "2 \<le> d"
    and n: "2 \<le> length es" "length es \<le> 2 * maxKeys d"
    and own: "owned t (add_mset a (chainIDs es) + (add_mset b R))" and room: "room t (wcost es + n)"
  defines "s \<equiv> nat (leafSplitIndex (map rawEntry es) d)"
  obtains es1 es2 p1' p2' t1 t2 where "writeLeafEntries t p1 (take s (map rawEntry es)) = Some (p1', t1)"
    "writeLeafEntries (putPage t1 (setNextLeaf p1' x)) p2 (drop s (map rawEntry es)) = Some (p2', t2)"
    "map kv es1 @ map kv es2 = map kv es"
    "good d K 0 (putPage t2 p2') [GLeaf a es1, GLeaf b es2]"
    "owned (putPage t2 p2') (gids (GLeaf a es1) + gids (GLeaf b es2) + R)" "room (putPage t2 p2') n"
    "ext {a, b} t (putPage t2 p2')"
proof -
  have "2 \<le> length (map rawEntry es)" "length (map rawEntry es) \<le> 2 * maxKeys d" using n by simp_all
  note b = leafSplitIndex_bounds [OF deg this]
  have s: "1 \<le> s" "s < length es" "s \<le> maxKeys d" "length es - s \<le> maxKeys d" using b by (auto simp: s_def)
  define L where "L = take s es"
  define Q where "Q = drop s es"
  have LQ: "es = L @ Q" by (simp add: L_def Q_def)
  have len: "length L \<le> maxKeys d" "L \<noteq> []" "length Q \<le> maxKeys d" "Q \<noteq> []" using s by (auto simp: L_def Q_def)
  have ok: "entries_ok t L" "entries_ok t Q" and keys: "\<forall>e\<in>set L. length (fst e) \<le> K" "\<forall>e\<in>set Q. length (fst e) \<le> K"
    using es by (auto simp: LQ)
  have own1: "owned t (add_mset a (chainIDs L + (add_mset b (chainIDs Q) + R)))"
    using own by (simp add: LQ ac_simps add_mset_commute)
  have room1: "room t (wcost L + (wcost Q + n))" using room by (simp add: LQ add.assoc)
  obtain es1 p1' t1 where w: "writeLeafEntries t p1 (map rawEntry L) = Some (p1', t1)" "map kv es1 = map kv L"
    "\<And>q. q \<in> insert p1' (range (setNextLeaf p1')) \<Longrightarrow> pid q = a \<and> good d K 0 (putPage t1 q) [GLeaf a es1] \<and>
       owned (putPage t1 q) (gids (GLeaf a es1) + (add_mset b (chainIDs Q) + R)) \<and>
       room (putPage t1 q) (wcost Q + n) \<and> ext {a} t (putPage t1 q)"
    by (rule write_leaf_linked [OF pend_raw ab(2,1) own1 room1 ok(1) keys(1) len(1,2) r]) (rule that)
  let ?q = "setNextLeaf p1' x" and ?t = "putPage t1 (setNextLeaf p1' x)"
  have w': "pid ?q = a" "good d K 0 ?t [GLeaf a es1]" "owned ?t (gids (GLeaf a es1) + (add_mset b (chainIDs Q) + R))"
    "room ?t (wcost Q + n)" "ext {a} t ?t"
    using w(3) [of ?q] by simp_all
  have own2: "owned ?t (add_mset b (chainIDs Q + (gids (GLeaf a es1) + R)))"
    using w'(3) by (simp add: ac_simps add_mset_commute)
  have own2': "owned t (chainIDs Q + (add_mset b (add_mset a (chainIDs L) + R)))"
    using own1 by (simp add: ac_simps add_mset_commute)
  have ne: "a \<noteq> b" "count (chainIDs Q) a = 0" "count (gids (GLeaf a es1)) b = 0"
    using owned_distinct [OF own2', of a] owned_distinct [OF own2', of b] owned_distinct [OF own2, of b]
    by (auto split: if_splits)
  have okQ: "entries_ok ?t Q"
    by (rule entries_ok_ext [OF ok(2) own2' w'(5)]) (use ne(2) in \<open>simp only: singleton_iff not_in_iff\<close>)
  have at: "pages ?t b = Some p2"
    using extD(4) [OF w'(5), of b] owned_not_fresh [OF own1, of b] ne(1) ab(3) by simp
  obtain es2 p2' t2 where v: "writeLeafEntries ?t p2 (map rawEntry Q) = Some (p2', t2)" "map kv es2 = map kv Q"
    "\<And>q. q \<in> insert p2' (range (setNextLeaf p2')) \<Longrightarrow> pid q = b \<and> good d K 0 (putPage t2 q) [GLeaf b es2] \<and>
       owned (putPage t2 q) (gids (GLeaf b es2) + (gids (GLeaf a es1) + R)) \<and>
       room (putPage t2 q) n \<and> ext {b} ?t (putPage t2 q)"
    by (rule write_leaf_linked [OF pend_raw ab(4) at own2 w'(4) okQ keys(2) len(3,4) r]) (rule that)
  note v' = v(3) [OF insert_self(1)]
  have "good d K 0 (putPage t2 p2') [GLeaf a es1]"
  proof (rule good_frame [OF w'(2)])
    show "owned ?t (sum_list (map gids [GLeaf a es1]) + (add_mset b (chainIDs Q) + R))" using w'(3) by simp
    show "ext {b} ?t (putPage t2 p2')" using v' by blast
    show "i \<notin># sum_list (map gids [GLeaf a es1])" if "i \<in> {b}" for i
      using that ne(3) by (simp add: not_in_iff del: gids.simps)
  qed
  then have g: "good d K 0 (putPage t2 p2') [GLeaf a es1, GLeaf b es2]" using v' good_two by blast
  have e: "ext {a, b} t (putPage t2 p2')"
    by (rule ext_trans [OF ext_mono [OF w'(5)], of "{a, b}" "{b}"]) (use v' in simp_all)
  have "take s (map rawEntry es) = map rawEntry L" "drop s (map rawEntry es) = map rawEntry Q"
    by (simp_all add: L_def Q_def take_map drop_map)
  then have "writeLeafEntries t p1 (take s (map rawEntry es)) = Some (p1', t1)"
    "writeLeafEntries ?t p2 (drop s (map rawEntry es)) = Some (p2', t2)" using w(1) v(1) by simp_all
  moreover have "map kv es1 @ map kv es2 = map kv es" using w(2) v(2) by (simp add: LQ)
  moreover have "owned (putPage t2 p2') (gids (GLeaf a es1) + gids (GLeaf b es2) + R)"
    using v' by (simp add: ac_simps add_mset_commute)
  moreover have "room (putPage t2 p2') n" using v' by blast
  ultimately show thesis using that [of p1' t1 p2' t2 es1 es2] g e by blast
qed

section \<open>Merging and redistributing leaves\<close>

definition repairCost :: "nat \<Rightarrow> nat" where
  "repairCost d = 4 * maxKeys d + 2"

lemma nth_pair [simp]:
  "(pre @ a # b # post) ! length pre = a" "(pre @ a # b # post) ! Suc (length pre) = b"
  "(pre @ a # b # post)[length pre := x] = pre @ x # b # post"
  "(pre @ a # b # post)[Suc (length pre) := y] = pre @ a # y # post"
  "removeAt (pre @ a # b # post) (Suc (length pre)) = pre @ a # post"
  by (simp_all add: nth_append removeAt_def list_update_append)

lemma owned_pair_nodes: "owned t (sum_list (map gids [L, C]) + R) \<longleftrightarrow> owned t (gids L + (gids C + R))"
  by (simp add: add.assoc)

lemma pair_frames:
  assumes own: "owned t (gids L + (gids C + R))" and e: "ext {} t t'" and g: "good d K h t [L, C]"
  shows "good d K h t' [L]" "good d K h t' [C]" "\<And>p. pages t (gid C) = Some p \<Longrightarrow> pages t' (gid C) = Some p"
    "\<And>p. pages t (gid L) = Some p \<Longrightarrow> pages t' (gid L) = Some p"
proof -
  have g12: "good d K h t [L]" "good d K h t [C]" using g good_two by blast+
  have ownC: "owned t (gids C + (gids L + R))" using own by (simp add: ac_simps)
  show "good d K h t' [L]" by (rule good_frame [OF g12(1) _ e]) (use own in simp_all)
  show "good d K h t' [C]" by (rule good_frame [OF g12(2) _ e]) (use ownC in simp_all)
  show "pages t' (gid C) = Some p" if "pages t (gid C) = Some p" for p
    using that extD(4) [OF e, of "gid C"] owned_not_fresh [OF own, of "gid C"] by simp
  show "pages t' (gid L) = Some p" if "pages t (gid L) = Some p" for p
    using that extD(4) [OF e, of "gid L"] owned_not_fresh [OF own, of "gid L"] by simp
qed

lemma repairLeafLeft_ok:
  assumes g: "good d K h t [GLeaf l ls, GLeaf c cs]" and r: "roomy d K" and deg: "degree t = d"
    and own: "owned t (sum_list (map gids [GLeaf l ls, GLeaf c cs]) + R)" and room: "room t (repairCost d + n)"
    and p: "pages t l = Some left" "pages t c = Some child"
  obtains qs t' where "repairLeafLeft t (pre @ l # c # post) (Suc (length pre)) left child =
      Some (pre @ map gid qs @ post, t')"
    "regroup d K h {c} t [GLeaf l ls, GLeaf c cs] R n t' qs"
proof -
  have g12: "good d K h t [GLeaf l ls]" "good d K h t [GLeaf c cs]" using g good_two by blast+
  note L = good_leaf [OF g12(1)] and C = good_leaf [OF g12(2)]
  note lp = good_leaf_page [OF g12(1) p(1)] and cp = good_leaf_page [OF g12(2) p(2)]
  have d2: "2 \<le> d" using r by (simp add: roomy_def)
  define merged where "merged = ls @ cs"
  have own0: "owned t (gids (GLeaf l ls) + (gids (GLeaf c cs) + R))" using own unfolding owned_pair_nodes .
  have "room t (Suc (4 * maxKeys d + 1 + n))" using room by (simp add: repairCost_def)
  then obtain j t1 q where cp1: "copyPage t l = Some (j, t1)" "pages t l = Some q"
    "pages t1 = (pages t)(j \<mapsto> q\<lparr>pid := j\<rparr>)" "rep (pages t1) (setgid j (GLeaf l ls))"
    "owned t1 (gids (setgid j (GLeaf l ls)) + (gids (GLeaf c cs) + R))" "room t1 (4 * maxKeys d + 1 + n)"
    "ext {} t t1" "j \<in> fresh t" "j \<noteq> 0" "j \<notin># gids (GLeaf l ls) + (gids (GLeaf c cs) + R)"
    using copy_tree [of t "GLeaf l ls" "gids (GLeaf c cs) + R"] own0 g12(1)
    by (metis gid.simps(1) goodD(1) list.set_intros(1))
  have q: "q = left" using cp1(2) p(1) by simp
  let ?p1 = "left\<lparr>pid := j\<rparr>"
  have p1: "pages t1 j = Some ?p1" "leafPage ?p1 j ls" using cp1(3,9) lp(1) q by simp_all
  note fr = pair_frames [OF own0 cp1(7) g]
  have pc: "pages t1 c = Some child" using fr(3) [of child] p(2) by simp
  have ok: "entries_ok t1 merged"
    using good_leaf(1) [OF fr(1)] good_leaf(1) [OF fr(2)] by (simp add: merged_def)
  have keys: "\<forall>e\<in>set merged. length (fst e) \<le> K" using L(2) C(2) by (auto simp: merged_def)
  have len: "2 \<le> length merged" "length merged \<le> 2 * maxKeys d" "merged \<noteq> []"
    using L(3,4) C(3,4) by (cases ls; cases cs; simp add: merged_def)+
  have room1: "room t1 (wcost merged + n)"
    by (rule room_le [OF cp1(6)]) (use lp(3) cp(3) L(4) C(4) in \<open>simp add: merged_def\<close>)
  have raw: "map rawEntry ls @ map rawEntry cs = map rawEntry merged"
    "length ls + length cs = length merged" by (simp_all add: merged_def)
  have own1: "owned t1 (add_mset j (chainIDs merged) + (add_mset c R))"
    using cp1(5) by (simp add: merged_def ac_simps add_mset_commute)
  show thesis
  proof (cases "length merged \<le> maxKeys d \<and> leafEntriesFitPage (map rawEntry merged)")
    case True
    have own1': "owned t1 (add_mset j (chainIDs merged + (add_mset c R)))"
      using own1 by (simp add: ac_simps add_mset_commute)
    obtain es' p' t2 where w: "writeLeafEntries t1 ?p1 (map rawEntry merged) = Some (p', t2)"
      "map kv es' = map kv merged"
      "\<And>q. q \<in> insert p' (range (setNextLeaf p')) \<Longrightarrow> pid q = j \<and> good d K 0 (putPage t2 q) [GLeaf j es'] \<and>
        owned (putPage t2 q) (gids (GLeaf j es') + add_mset c R) \<and> room (putPage t2 q) n \<and>
        ext {j} t1 (putPage t2 q)"
      by (rule write_leaf_linked [OF pend_raw p1(2,1) own1' room1 ok keys True [THEN conjunct1] len(3) r])
        (rule that)
    let ?q = "setNextLeaf p' (nextLeaf child)"
    let ?t = "retirePage (putPage t2 ?q) c"
    note w' = w(3) [OF insert_self(2), of "nextLeaf child"]
    have run: "repairLeafLeft t (pre @ l # c # post) (Suc (length pre)) left child =
        Some (pre @ map gid [GLeaf j es'] @ post, ?t)"
      using lp(2) cp(2) raw cp1(1) p1(1) w(1) True deg
      by (simp add: repairLeafLeft_def Let_def)
    have "ext {c} t ?t"
    proof (rule ext_trans [OF _ ext_retirePage [of "{}"]])
      show "ext {c} t (putPage t2 ?q)"
        by (rule ext_trans [OF ext_mono [OF cp1(7)], of "{c}" "{j}"]) (use w' cp1(8) in simp_all)
    qed simp
    moreover have "good d K h ?t [GLeaf j es']" using w' L(5) by simp
    moreover have "owned ?t (gids (GLeaf j es') + R)" using w' by (simp add: owned_retirePage)
    ultimately have "regroup d K h {c} t [GLeaf l ls, GLeaf c cs] R n ?t [GLeaf j es']"
      using w' w(2) by (simp add: regroup_def merged_def)
    then show thesis using that [of "[GLeaf j es']" ?t] run by simp
  next
    case False
    obtain es1 es2 p1' p2' t2 t3 where w:
      "writeLeafEntries t1 ?p1 (take (nat (leafSplitIndex (map rawEntry merged) d)) (map rawEntry merged)) = Some (p1', t2)"
      "writeLeafEntries (putPage t2 (setNextLeaf p1' c)) child
         (drop (nat (leafSplitIndex (map rawEntry merged) d)) (map rawEntry merged)) = Some (p2', t3)"
      "map kv es1 @ map kv es2 = map kv merged" "good d K 0 (putPage t3 p2') [GLeaf j es1, GLeaf c es2]"
      "owned (putPage t3 p2') (gids (GLeaf j es1) + gids (GLeaf c es2) + R)" "room (putPage t3 p2') n"
      "ext {j, c} t1 (putPage t3 p2')"
      by (rule write_two_leaves [OF p1 pc cp(1) ok keys r d2 len(1,2) own1 room1, of c]) (rule that)
    let ?t = "putPage t3 p2'"
    have run: "repairLeafLeft t (pre @ l # c # post) (Suc (length pre)) left child =
        Some (pre @ map gid [GLeaf j es1, GLeaf c es2] @ post, ?t)"
      using lp(2) cp(2) raw cp1(1) p1(1) w(1,2) False deg
      by (auto simp: repairLeafLeft_def Let_def)
    have "ext {c} t ?t"
      by (rule ext_trans [OF ext_mono [OF cp1(7)] w(7)]) (use cp1(8) in auto)
    then have "regroup d K h {c} t [GLeaf l ls, GLeaf c cs] R n ?t [GLeaf j es1, GLeaf c es2]"
      using w(3-6) L(5) by (simp add: regroup_def merged_def add.assoc)
    then show thesis using that [of "[GLeaf j es1, GLeaf c es2]" ?t] run by simp
  qed
qed

lemma repairLeafRight_ok:
  assumes g: "good d K h t [GLeaf c cs, GLeaf u us]" and r: "roomy d K" and deg: "degree t = d"
    and own: "owned t (sum_list (map gids [GLeaf c cs, GLeaf u us]) + R)" and room: "room t (repairCost d + n)"
    and p: "pages t c = Some child" "pages t u = Some rgt"
  obtains qs t' where "repairLeafRight t (pre @ c # u # post) (length pre) child rgt =
      Some (pre @ map gid qs @ post, t')"
    "regroup d K h {c} t [GLeaf c cs, GLeaf u us] R n t' qs"
proof -
  have g12: "good d K h t [GLeaf c cs]" "good d K h t [GLeaf u us]" using g good_two by blast+
  note C = good_leaf [OF g12(1)] and U = good_leaf [OF g12(2)]
  note cp = good_leaf_page [OF g12(1) p(1)] and up = good_leaf_page [OF g12(2) p(2)]
  have d2: "2 \<le> d" using r by (simp add: roomy_def)
  define merged where "merged = cs @ us"
  have own0: "owned t (gids (GLeaf c cs) + (gids (GLeaf u us) + R))" using own unfolding owned_pair_nodes .
  then have own0': "owned t (gids (GLeaf u us) + (gids (GLeaf c cs) + R))"
    by (simp add: ac_simps add_mset_commute)
  have "room t (Suc (4 * maxKeys d + 1 + n))" using room by (simp add: repairCost_def)
  then obtain j t1 q where cp1: "copyPage t u = Some (j, t1)" "pages t u = Some q"
    "pages t1 = (pages t)(j \<mapsto> q\<lparr>pid := j\<rparr>)" "rep (pages t1) (setgid j (GLeaf u us))"
    "owned t1 (gids (setgid j (GLeaf u us)) + (gids (GLeaf c cs) + R))" "room t1 (4 * maxKeys d + 1 + n)"
    "ext {} t t1" "j \<in> fresh t" "j \<noteq> 0" "j \<notin># gids (GLeaf u us) + (gids (GLeaf c cs) + R)"
    using copy_tree [of t "GLeaf u us" "gids (GLeaf c cs) + R"] own0' g12(2)
    by (metis gid.simps(1) goodD(1) list.set_intros(1))
  have q: "q = rgt" using cp1(2) p(2) by simp
  let ?p1 = "rgt\<lparr>pid := j\<rparr>"
  have p1: "pages t1 j = Some ?p1" "leafPage ?p1 j us" using cp1(3,9) up(1) q by simp_all
  note fr = pair_frames [OF own0 cp1(7) g]
  have pc: "pages t1 c = Some child" using fr(4) [of child] p(1) by simp
  have ok: "entries_ok t1 merged"
    using good_leaf(1) [OF fr(1)] good_leaf(1) [OF fr(2)] by (simp add: merged_def)
  have keys: "\<forall>e\<in>set merged. length (fst e) \<le> K" using C(2) U(2) by (auto simp: merged_def)
  have len: "2 \<le> length merged" "length merged \<le> 2 * maxKeys d" "merged \<noteq> []"
    using C(3,4) U(3,4) by (cases cs; cases us; simp add: merged_def)+
  have room1: "room t1 (wcost merged + n)"
    by (rule room_le [OF cp1(6)]) (use cp(3) up(3) C(4) U(4) in \<open>simp add: merged_def\<close>)
  have raw: "map rawEntry cs @ map rawEntry us = map rawEntry merged"
    "length cs + length us = length merged" by (simp_all add: merged_def)
  have own1: "owned t1 (add_mset c (chainIDs merged) + (add_mset j R))"
    using cp1(5) by (simp add: merged_def ac_simps add_mset_commute)
  show thesis
  proof (cases "length merged \<le> maxKeys d \<and> leafEntriesFitPage (map rawEntry merged)")
    case True
    have own1': "owned t1 (add_mset c (chainIDs merged + (add_mset j R)))"
      using own1 by (simp add: ac_simps add_mset_commute)
    obtain es' p' t2 where w: "writeLeafEntries t1 child (map rawEntry merged) = Some (p', t2)"
      "map kv es' = map kv merged"
      "\<And>q. q \<in> insert p' (range (setNextLeaf p')) \<Longrightarrow> pid q = c \<and> good d K 0 (putPage t2 q) [GLeaf c es'] \<and>
        owned (putPage t2 q) (gids (GLeaf c es') + add_mset j R) \<and> room (putPage t2 q) n \<and>
        ext {c} t1 (putPage t2 q)"
      by (rule write_leaf_linked [OF pend_raw cp(1) pc own1' room1 ok keys True [THEN conjunct1] len(3) r])
        (rule that)
    let ?q = "setNextLeaf p' (nextLeaf ?p1)"
    let ?t = "retirePage (putPage t2 ?q) j"
    note w' = w(3) [OF insert_self(2), of "nextLeaf ?p1"]
    have run: "repairLeafRight t (pre @ c # u # post) (length pre) child rgt =
        Some (pre @ map gid [GLeaf c es'] @ post, ?t)"
      using cp(2) up(2) raw cp1(1) p1(1) w(1) True deg
      by (simp add: repairLeafRight_def Let_def)
    have "ext {c} t ?t"
    proof (rule ext_trans [OF _ ext_retirePage [of "{}"]])
      show "ext {c} t (putPage t2 ?q)"
        by (rule ext_trans [OF ext_mono [OF cp1(7)], of "{c}" "{c}"]) (use w' in simp_all)
    qed simp
    moreover have "good d K h ?t [GLeaf c es']" using w' C(5) by simp
    moreover have "owned ?t (gids (GLeaf c es') + R)" using w' by (simp add: owned_retirePage)
    ultimately have "regroup d K h {c} t [GLeaf c cs, GLeaf u us] R n ?t [GLeaf c es']"
      using w' w(2) by (simp add: regroup_def merged_def)
    then show thesis using that [of "[GLeaf c es']" ?t] run by simp
  next
    case False
    obtain es1 es2 p1' p2' t2 t3 where w:
      "writeLeafEntries t1 child (take (nat (leafSplitIndex (map rawEntry merged) d)) (map rawEntry merged)) = Some (p1', t2)"
      "writeLeafEntries (putPage t2 (setNextLeaf p1' j)) ?p1
         (drop (nat (leafSplitIndex (map rawEntry merged) d)) (map rawEntry merged)) = Some (p2', t3)"
      "map kv es1 @ map kv es2 = map kv merged" "good d K 0 (putPage t3 p2') [GLeaf c es1, GLeaf j es2]"
      "owned (putPage t3 p2') (gids (GLeaf c es1) + gids (GLeaf j es2) + R)" "room (putPage t3 p2') n"
      "ext {c, j} t1 (putPage t3 p2')"
      by (rule write_two_leaves [OF pc cp(1) p1 ok keys r d2 len(1,2) own1 room1, of j]) (rule that)
    let ?t = "putPage t3 p2'"
    have run: "repairLeafRight t (pre @ c # u # post) (length pre) child rgt =
        Some (pre @ map gid [GLeaf c es1, GLeaf j es2] @ post, ?t)"
      using cp(2) up(2) raw cp1(1) p1(1) w(1,2) False deg
      by (auto simp: repairLeafRight_def Let_def)
    have "ext {c} t ?t"
      by (rule ext_trans [OF ext_mono [OF cp1(7)] w(7)]) (use cp1(8) in auto)
    then have "regroup d K h {c} t [GLeaf c cs, GLeaf u us] R n ?t [GLeaf c es1, GLeaf j es2]"
      using w(3-6) C(5) by (simp add: regroup_def merged_def add.assoc)
    then show thesis using that [of "[GLeaf c es1, GLeaf j es2]" ?t] run by simp
  qed
qed

section \<open>Merging and redistributing branches\<close>

lemma good_branch:
  assumes "good d K (Suc h) t [GBranch i ts]"
  shows "good d K h t ts" "ts \<noteq> []" "length ts \<le> Suc (maxKeys d)"
proof -
  have b: "balanced (GBranch i ts)" "gheight (GBranch i ts) = Suc h" and "shape d K (GBranch i ts)"
    "rep (pages t) (GBranch i ts)"
    using assms by (simp_all add: good_def del: balanced.simps gheight.simps)
  then show "ts \<noteq> []" "length ts \<le> Suc (maxKeys d)" by simp_all
  have "gheight T = h" if "T \<in> set ts" for T
    using gheight_branch [OF b(1) that] b(2) by simp
  moreover have "rep (pages t) T" "shape d K T" if "T \<in> set ts" for T
    using that \<open>shape d K _\<close> \<open>rep (pages t) _\<close> by simp_all
  ultimately show "good d K h t ts" using balanced_child [OF b(1)] unfolding good_def by blast
qed

lemma good_branch_page:
  assumes "good d K h t [GBranch i ts]" "pages t i = Some p"
  shows "branchPage p i (map firstkey (tl ts)) (map gid ts)" "childIDs p = Some (map gid ts)"
  using assms childIDs_branchPage by (auto simp: good_def)

text \<open>Writing one branch node over its page.\<close>

lemma write_one_node:
  assumes p: "wf_page p" "pid p = i" "i \<noteq> 0" and r: "roomy d K" and us: "us \<noteq> []" "length us \<le> Suc (maxKeys d)"
    and g: "good d K h t us" and room: "room t n"
    and own: "owned t (add_mset i (sum_list (map gids us)) + R)"
  obtains p' where "writeBranchChildren t p (map gid us) = Some p'" "pid p' = i"
    "good d K (Suc h) (putPage t p') [GBranch i us]" "owned (putPage t p') (gids (GBranch i us) + R)"
    "ext {i} t (putPage t p')" "room (putPage t p') n"
proof -
  obtain p' where w: "mustWriteBranchParts p (map firstkey (tl us)) (map gid us) = Some p'" "pid p' = i"
    "rep (pages (putPage t p')) (GBranch i us)" "ext {i} t (putPage t p')"
    by (rule write_node [OF p r us goodD(2,1) [OF g] own]) (rule that)
  have "gheight (GBranch i us) = Suc h \<and> balanced (GBranch i us)"
    using g by (intro gheight_branchI us(1)) (auto simp: good_def)
  moreover have "shape d K (GBranch i us)" using us g by (simp add: good_def)
  ultimately have "good d K (Suc h) (putPage t p') [GBranch i us]"
    using w(3) unfolding good_def by (metis empty_iff empty_set set_ConsD)
  moreover have "writeBranchChildren t p (map gid us) = Some p'"
    using writeBranchChildren_ok [OF us(1) goodD(1,2) [OF g]] w(1) by simp
  ultimately show thesis using that [of p'] w(2,4) own room by simp
qed

lemma branchFit_ok:
  assumes "good d K h t us" "us \<noteq> []" "degree t = d"
  obtains b where "branchesMerge t (map gid us) = Some b"
    "b \<Longrightarrow> length us \<le> Suc (maxKeys d)"
proof -
  obtain n where "branchChildrenBytes t (map gid us) = Some n"
    using branchChildrenBytes_ok [OF assms(2) goodD(1,2) [OF assms(1)]] by blast
  then show thesis using that assms(3) by (cases "length us \<le> maxKeys d + 1") (auto simp: branchesMerge_def branchChildrenFitPage_def)
qed

lemma repairBranchLeft_ok:
  assumes g: "good d K (Suc h) t [GBranch l ls, GBranch c cs]" and r: "roomy d K" and deg: "degree t = d"
    and own: "owned t (sum_list (map gids [GBranch l ls, GBranch c cs]) + R)" and room: "room t (Suc n)"
    and p: "pages t l = Some left" "pages t c = Some child"
  obtains qs t' where "repairBranchLeft t (pre @ l # c # post) (Suc (length pre)) left child =
      Some (pre @ map gid qs @ post, t')"
    "regroup d K (Suc h) {c} t [GBranch l ls, GBranch c cs] R n t' qs"
proof -
  have g12: "good d K (Suc h) t [GBranch l ls]" "good d K (Suc h) t [GBranch c cs]" using g good_two by blast+
  note L = good_branch [OF g12(1)] and C = good_branch [OF g12(2)]
  note lp = good_branch_page [OF g12(1) p(1)] and cp = good_branch_page [OF g12(2) p(2)]
  note kc = branchPage_kind [OF cp(1)]
  have d2: "2 \<le> d" using r by (simp add: roomy_def)
  define us where "us = ls @ cs"
  have own0: "owned t (gids (GBranch l ls) + (gids (GBranch c cs) + R))" using own unfolding owned_pair_nodes .
  have gu: "good d K h t us" using L(1) C(1) by (simp add: us_def)
  have len: "us \<noteq> []" "2 \<le> length us" "length us \<le> 2 * Suc (maxKeys d)"
    using L(2,3) C(2,3) by (cases ls; cases cs; simp add: us_def)+
  have ids: "map gid ls @ map gid cs = map gid us" "length ls + length cs = length us" by (simp_all add: us_def)
  obtain b where b: "branchesMerge t (map gid us) = Some b"
    "b \<Longrightarrow> length us \<le> Suc (maxKeys d)"
    by (rule branchFit_ok [OF gu len(1) deg]) (rule that)
  obtain j t1 q where cp1: "copyPage t l = Some (j, t1)" "pages t l = Some q"
    "pages t1 = (pages t)(j \<mapsto> q\<lparr>pid := j\<rparr>)" "rep (pages t1) (setgid j (GBranch l ls))"
    "owned t1 (gids (setgid j (GBranch l ls)) + (gids (GBranch c cs) + R))" "room t1 n"
    "ext {} t t1" "j \<in> fresh t" "j \<noteq> 0" "j \<notin># gids (GBranch l ls) + (gids (GBranch c cs) + R)"
    using copy_tree [of t "GBranch l ls" "gids (GBranch c cs) + R"] own0 g12(1) room
    by (metis gid.simps(2) goodD(1) list.set_intros(1))
  have q: "q = left" using cp1(2) p(1) by simp
  let ?p1 = "left\<lparr>pid := j\<rparr>"
  have p1: "pages t1 j = Some ?p1" "wf_page ?p1" "pid ?p1 = j"
    using cp1(3) q branchPage_kind(5) [OF lp(1)] by (simp_all add: wf_page_def)
  note fr = pair_frames [OF own0 cp1(7) g]
  have g1: "good d K h t1 us" using good_branch(1) [OF fr(1)] good_branch(1) [OF fr(2)] by (simp add: us_def)
  show thesis
  proof (cases b)
    case True
    have own1: "owned t1 (add_mset j (sum_list (map gids us)) + add_mset c R)"
      using cp1(5) by (simp add: us_def ac_simps add_mset_commute)
    obtain p' where w: "writeBranchChildren t1 ?p1 (map gid us) = Some p'" "pid p' = j"
      "good d K (Suc h) (putPage t1 p') [GBranch j us]" "owned (putPage t1 p') (gids (GBranch j us) + add_mset c R)"
      "ext {j} t1 (putPage t1 p')" "room (putPage t1 p') n"
      by (rule write_one_node [OF p1(2,3) cp1(9) r len(1) b(2) [OF True] g1 cp1(6) own1]) (rule that)
    let ?t = "retirePage (putPage t1 p') c"
    have run: "repairBranchLeft t (pre @ l # c # post) (Suc (length pre)) left child =
        Some (pre @ map gid [GBranch j us] @ post, ?t)"
      using lp(2) cp(2) ids cp1(1) p1(1) w(1) True b(1)
      by (simp add: repairBranchLeft_def Let_def)
    have "ext {c} t ?t"
    proof (rule ext_trans [OF _ ext_retirePage [of "{}"]])
      show "ext {c} t (putPage t1 p')"
        by (rule ext_trans [OF ext_mono [OF cp1(7)] w(5)]) (use cp1(8) in simp_all)
    qed simp
    then have "regroup d K (Suc h) {c} t [GBranch l ls, GBranch c cs] R n ?t [GBranch j us]"
      using w(3,4,6) by (simp add: regroup_def us_def owned_retirePage)
    then show thesis using that [of "[GBranch j us]" ?t] run by simp
  next
    case False
    have deg1: "degree t1 = d" using ext_settings(1) [OF cp1(7)] deg by simp
    obtain s where s: "branchChildSplitIndex t1 (map gid us) = Some s" "1 \<le> s" "s < length us"
      "s \<le> Suc (maxKeys d)" "length us - s \<le> Suc (maxKeys d)"
      by (rule branchChildSplitIndex_ok [OF goodD(1,2) [OF g1] deg1 d2 len(2,3)])
    have l12: "take s us \<noteq> []" "length (take s us) \<le> Suc (maxKeys d)" "drop s us \<noteq> []"
      "length (drop s us) \<le> Suc (maxKeys d)" using s by auto
    have gs: "good d K h t1 (take s us @ drop s us)" using g1 by simp
    have "sum_list (map gids us) = sum_list (map gids (take s us)) + sum_list (map gids (drop s us))"
      by (metis append_take_drop_id map_append sum_list_append)
    then have own1: "owned t1 (add_mset j (sum_list (map gids (take s us))) + (add_mset c (sum_list (map gids (drop s us))) + R))"
      using cp1(5) by (simp add: us_def ac_simps add_mset_commute)
    obtain p1' p2' where w: "writeBranchChildren t1 ?p1 (map gid (take s us)) = Some p1'" "pid p1' = j"
      "writeBranchChildren (putPage t1 p1') child (map gid (drop s us)) = Some p2'" "pid p2' = c"
      "good d K (Suc h) (putPage (putPage t1 p1') p2') [GBranch j (take s us), GBranch c (drop s us)]"
      "owned (putPage (putPage t1 p1') p2') (gids (GBranch j (take s us)) + gids (GBranch c (drop s us)) + R)"
      "ext {j, c} t1 (putPage (putPage t1 p1') p2')" "room (putPage (putPage t1 p1') p2') n"
      by (rule write_two_nodes [OF p1(2,3) cp1(9) kc(5,3,6) r l12 gs cp1(6) own1]) (rule that)
    let ?t = "putPage (putPage t1 p1') p2'" and ?qs = "[GBranch j (take s us), GBranch c (drop s us)]"
    have run: "repairBranchLeft t (pre @ l # c # post) (Suc (length pre)) left child =
        Some (pre @ map gid ?qs @ post, ?t)"
      using lp(2) cp(2) ids cp1(1) p1(1) w(1,3) False b(1) s(1)
      by (simp add: repairBranchLeft_def Let_def take_map drop_map)
    have "concat (map gentries (take s us)) @ concat (map gentries (drop s us)) = concat (map gentries us)"
      by (metis append_take_drop_id concat_append map_append)
    moreover have "ext {c} t ?t"
      by (rule ext_trans [OF ext_mono [OF cp1(7)] w(7)]) (use cp1(8) in auto)
    ultimately have "regroup d K (Suc h) {c} t [GBranch l ls, GBranch c cs] R n ?t ?qs"
      using w(5,6,8) by (simp add: regroup_def us_def add.assoc)
    then show thesis using that [of ?qs ?t] run by simp
  qed
qed

lemma repairBranchRight_ok:
  assumes g: "good d K (Suc h) t [GBranch c cs, GBranch u vs]" and r: "roomy d K" and deg: "degree t = d"
    and own: "owned t (sum_list (map gids [GBranch c cs, GBranch u vs]) + R)" and room: "room t (Suc n)"
    and p: "pages t c = Some child" "pages t u = Some rgt"
  obtains qs t' where "repairBranchRight t (pre @ c # u # post) (length pre) child rgt =
      Some (pre @ map gid qs @ post, t')"
    "regroup d K (Suc h) {c} t [GBranch c cs, GBranch u vs] R n t' qs"
proof -
  have g12: "good d K (Suc h) t [GBranch c cs]" "good d K (Suc h) t [GBranch u vs]" using g good_two by blast+
  note C = good_branch [OF g12(1)] and U = good_branch [OF g12(2)]
  note cp = good_branch_page [OF g12(1) p(1)] and up = good_branch_page [OF g12(2) p(2)]
  note kc = branchPage_kind [OF cp(1)]
  have d2: "2 \<le> d" using r by (simp add: roomy_def)
  define us where "us = cs @ vs"
  have own0: "owned t (gids (GBranch c cs) + (gids (GBranch u vs) + R))" using own unfolding owned_pair_nodes .
  have gu: "good d K h t us" using U(1) C(1) by (simp add: us_def)
  have len: "us \<noteq> []" "2 \<le> length us" "length us \<le> 2 * Suc (maxKeys d)"
    using U(2,3) C(2,3) by (cases vs; cases cs; simp add: us_def)+
  have ids: "map gid cs @ map gid vs = map gid us" "length cs + length vs = length us" by (simp_all add: us_def)
  obtain b where b: "branchesMerge t (map gid us) = Some b" "b \<Longrightarrow> length us \<le> Suc (maxKeys d)"
    by (rule branchFit_ok [OF gu len(1) deg]) (rule that)
  show thesis
  proof (cases b)
    case True
    have own1: "owned t (add_mset c (sum_list (map gids us)) + add_mset u R)"
      using own0 by (simp add: us_def ac_simps add_mset_commute)
    obtain p' where w: "writeBranchChildren t child (map gid us) = Some p'" "pid p' = c"
      "good d K (Suc h) (putPage t p') [GBranch c us]" "owned (putPage t p') (gids (GBranch c us) + add_mset u R)"
      "ext {c} t (putPage t p')" "room (putPage t p') (Suc n)"
      by (rule write_one_node [OF kc(5,3,6) r len(1) b(2) [OF True] gu room own1]) (rule that)
    let ?t = "retirePage (putPage t p') u"
    have run: "repairBranchRight t (pre @ c # u # post) (length pre) child rgt =
        Some (pre @ map gid [GBranch c us] @ post, ?t)"
      using up(2) cp(2) ids w(1) True b(1) by (simp add: repairBranchRight_def Let_def)
    have "ext {c} t ?t" by (rule ext_trans [OF w(5) ext_retirePage [of "{}"]]) simp
    then have "regroup d K (Suc h) {c} t [GBranch c cs, GBranch u vs] R n ?t [GBranch c us]"
      using w(3,4) room_le [OF w(6)] by (simp add: regroup_def us_def owned_retirePage)
    then show thesis using that [of "[GBranch c us]" ?t] run by simp
  next
    case False
    have own0': "owned t (gids (GBranch u vs) + (gids (GBranch c cs) + R))"
      using own0 by (simp add: ac_simps add_mset_commute)
    obtain j t1 q where cp1: "copyPage t u = Some (j, t1)" "pages t u = Some q"
      "pages t1 = (pages t)(j \<mapsto> q\<lparr>pid := j\<rparr>)" "rep (pages t1) (setgid j (GBranch u vs))"
      "owned t1 (gids (setgid j (GBranch u vs)) + (gids (GBranch c cs) + R))" "room t1 n"
      "ext {} t t1" "j \<in> fresh t" "j \<noteq> 0" "j \<notin># gids (GBranch u vs) + (gids (GBranch c cs) + R)"
      using copy_tree [of t "GBranch u vs" "gids (GBranch c cs) + R"] own0' g12(2) room
      by (metis gid.simps(2) goodD(1) list.set_intros(1))
    have q: "q = rgt" using cp1(2) p(2) by simp
    let ?p1 = "rgt\<lparr>pid := j\<rparr>"
    have p1: "pages t1 j = Some ?p1" "wf_page ?p1" "pid ?p1 = j"
      using cp1(3) q branchPage_kind(5) [OF up(1)] by (simp_all add: wf_page_def)
    note fr = pair_frames [OF own0 cp1(7) g]
    have g1: "good d K h t1 us" using good_branch(1) [OF fr(1)] good_branch(1) [OF fr(2)] by (simp add: us_def)
    have deg1: "degree t1 = d" using ext_settings(1) [OF cp1(7)] deg by simp
    obtain s where s: "branchChildSplitIndex t1 (map gid us) = Some s" "1 \<le> s" "s < length us"
      "s \<le> Suc (maxKeys d)" "length us - s \<le> Suc (maxKeys d)"
      by (rule branchChildSplitIndex_ok [OF goodD(1,2) [OF g1] deg1 d2 len(2,3)])
    have l12: "take s us \<noteq> []" "length (take s us) \<le> Suc (maxKeys d)" "drop s us \<noteq> []"
      "length (drop s us) \<le> Suc (maxKeys d)" using s by auto
    have gs: "good d K h t1 (take s us @ drop s us)" using g1 by simp
    have "sum_list (map gids us) = sum_list (map gids (take s us)) + sum_list (map gids (drop s us))"
      by (metis append_take_drop_id map_append sum_list_append)
    then have own1: "owned t1 (add_mset c (sum_list (map gids (take s us))) + (add_mset j (sum_list (map gids (drop s us))) + R))"
      using cp1(5) by (simp add: us_def ac_simps add_mset_commute)
    obtain p1' p2' where w: "writeBranchChildren t1 child (map gid (take s us)) = Some p1'" "pid p1' = c"
      "writeBranchChildren (putPage t1 p1') ?p1 (map gid (drop s us)) = Some p2'" "pid p2' = j"
      "good d K (Suc h) (putPage (putPage t1 p1') p2') [GBranch c (take s us), GBranch j (drop s us)]"
      "owned (putPage (putPage t1 p1') p2') (gids (GBranch c (take s us)) + gids (GBranch j (drop s us)) + R)"
      "ext {c, j} t1 (putPage (putPage t1 p1') p2')" "room (putPage (putPage t1 p1') p2') n"
      by (rule write_two_nodes [OF kc(5,3,6) p1(2,3) cp1(9) r l12 gs cp1(6) own1]) (rule that)
    let ?t = "putPage (putPage t1 p1') p2'" and ?qs = "[GBranch c (take s us), GBranch j (drop s us)]"
    have run: "repairBranchRight t (pre @ c # u # post) (length pre) child rgt =
        Some (pre @ map gid ?qs @ post, ?t)"
      using up(2) cp(2) ids cp1(1) p1(1) w(1,3) False b(1) s(1)
      by (simp add: repairBranchRight_def Let_def take_map drop_map)
    have "concat (map gentries (take s us)) @ concat (map gentries (drop s us)) = concat (map gentries us)"
      by (metis append_take_drop_id concat_append map_append)
    moreover have "ext {c} t ?t"
      by (rule ext_trans [OF ext_mono [OF cp1(7)] w(7)]) (use cp1(8) in auto)
    ultimately have "regroup d K (Suc h) {c} t [GBranch c cs, GBranch u vs] R n ?t ?qs"
      using w(5,6,8) by (simp add: regroup_def us_def add.assoc)
    then show thesis using that [of ?qs ?t] run by simp
  qed
qed

section \<open>Borrowing\<close>

text \<open>Copies of two adjacent branches.\<close>

lemma copy_two:
  assumes g: "good d K (Suc h) t [GBranch a as, GBranch b bs]" and own: "owned t (sum_list (map gids [GBranch a as, GBranch b bs]) + R)"
    and room: "room t (Suc (Suc n))"
  obtains a' b' t1 t2 p q where "copyPage t a = Some (a', t1)" "copyPage t1 b = Some (b', t2)"
    "pages t2 a' = Some p" "pages t2 b' = Some q" "childIDs p = Some (map gid as)" "childIDs q = Some (map gid bs)"
    "wf_page p" "pid p = a'" "a' \<noteq> 0" "wf_page q" "pid q = b'" "b' \<noteq> 0"
    "good d K h t2 as" "good d K h t2 bs" "ext {} t t2" "room t2 n" "a' \<in> fresh t" "b' \<in> fresh t"
    "owned t2 (gids (GBranch a' as) + (gids (GBranch b' bs) + R))"
proof -
  have own0: "owned t (gids (GBranch a as) + (gids (GBranch b bs) + R))" using own unfolding owned_pair_nodes .
  have g12: "good d K (Suc h) t [GBranch a as]" "good d K (Suc h) t [GBranch b bs]" using g good_two by blast+
  obtain a' t1 pa where A: "copyPage t a = Some (a', t1)" "pages t a = Some pa"
    "pages t1 = (pages t)(a' \<mapsto> pa\<lparr>pid := a'\<rparr>)" "rep (pages t1) (setgid a' (GBranch a as))"
    "owned t1 (gids (setgid a' (GBranch a as)) + (gids (GBranch b bs) + R))" "room t1 (Suc n)"
    "ext {} t t1" "a' \<in> fresh t" "a' \<noteq> 0" "a' \<notin># gids (GBranch a as) + (gids (GBranch b bs) + R)"
    using copy_tree [of t "GBranch a as" "gids (GBranch b bs) + R"] own0 g12(1) room
    by (metis gid.simps(2) goodD(1) list.set_intros(1))
  note fr = pair_frames [OF own0 A(7) g]
  have own1: "owned t1 (gids (GBranch b bs) + (gids (GBranch a' as) + R))"
    using A(5) by (simp add: ac_simps add_mset_commute)
  obtain b' t2 pb where B: "copyPage t1 b = Some (b', t2)" "pages t1 b = Some pb"
    "pages t2 = (pages t1)(b' \<mapsto> pb\<lparr>pid := b'\<rparr>)" "rep (pages t2) (setgid b' (GBranch b bs))"
    "owned t2 (gids (setgid b' (GBranch b bs)) + (gids (GBranch a' as) + R))" "room t2 n"
    "ext {} t1 t2" "b' \<in> fresh t1" "b' \<noteq> 0" "b' \<notin># gids (GBranch b bs) + (gids (GBranch a' as) + R)"
    using copy_tree [of t1 "GBranch b bs" "gids (GBranch a' as) + R"] own1 fr(2) A(6)
    by (metis gid.simps(2) goodD(1) list.set_intros(1))
  have ab: "a' \<noteq> b'" using B(10) by auto
  have pgs: "pages t2 a' = Some (pa\<lparr>pid := a'\<rparr>)" "pages t2 b' = Some (pb\<lparr>pid := b'\<rparr>)"
    using A(3) B(3) ab by simp_all
  note pa = good_branch_page [OF g12(1) A(2)] and pb = good_branch_page [OF fr(2) B(2)]
  have kids: "childIDs (pa\<lparr>pid := a'\<rparr>) = Some (map gid as)" "childIDs (pb\<lparr>pid := b'\<rparr>) = Some (map gid bs)"
    using childIDs_branchPage [OF branchPage_pid [OF pa(1) A(9)]] childIDs_branchPage [OF branchPage_pid [OF pb(1) B(9)]]
    by simp_all
  have wf: "wf_page (pa\<lparr>pid := a'\<rparr>)" "wf_page (pb\<lparr>pid := b'\<rparr>)"
    using branchPage_kind(5) [OF pa(1)] branchPage_kind(5) [OF pb(1)] by (simp_all add: wf_page_def)
  have ga: "good d K h t1 as" and gb: "good d K h t1 bs"
    using good_branch(1) [OF fr(1)] good_branch(1) [OF fr(2)] by simp_all
  have "good d K h t2 as" by (rule good_frame [OF ga _ B(7), of "add_mset a' (gids (GBranch b bs) + R)"])
      (use A(5) in \<open>simp_all add: ac_simps add_mset_commute\<close>)
  moreover have "good d K h t2 bs" by (rule good_frame [OF gb _ B(7), of "add_mset b (gids (GBranch a' as) + R)"])
      (use own1 in \<open>simp_all add: ac_simps add_mset_commute\<close>)
  moreover have "ext {} t t2" by (rule ext_trans [OF A(7) B(7)]) simp
  moreover have "owned t2 (gids (GBranch a' as) + (gids (GBranch b' bs) + R))"
    using B(5) by (simp add: ac_simps add_mset_commute)
  moreover have "b' \<in> fresh t" using extD(5) [OF A(7)] B(8) by blast
  ultimately show thesis
    using that [of a' t1 b' t2 "pa\<lparr>pid := a'\<rparr>" "pb\<lparr>pid := b'\<rparr>"] A(1,8,9) B(1,6,9) pgs kids wf by simp
qed

lemma borrowFromLeft_ok:
  assumes g: "good d K (Suc h) t [GBranch l ls, GBranch c cs]" and r: "roomy d K"
    and own: "owned t (sum_list (map gids [GBranch l ls, GBranch c cs]) + R)" and room: "room t (Suc (Suc n))"
    and len: "2 \<le> length ls" "length cs \<le> maxKeys d"
  obtains j j' t' where "borrowFromLeft t (pre @ l # c # post) (Suc (length pre)) = Some (pre @ j # j' # post, j', t')"
    "regroup d K (Suc h) {} t [GBranch l ls, GBranch c cs] R n t' [GBranch j (butlast ls), GBranch j' (last ls # cs)]"
    "j' \<in> fresh t" "j' \<noteq> 0"
proof -
  obtain l' c' t1 t2 p q where s: "copyPage t l = Some (l', t1)" "copyPage t1 c = Some (c', t2)"
    "pages t2 l' = Some p" "pages t2 c' = Some q" "childIDs p = Some (map gid ls)" "childIDs q = Some (map gid cs)"
    "wf_page p" "pid p = l'" "l' \<noteq> 0" "wf_page q" "pid q = c'" "c' \<noteq> 0"
    "good d K h t2 ls" "good d K h t2 cs" "ext {} t t2" "room t2 n" "l' \<in> fresh t" "c' \<in> fresh t"
    "owned t2 (gids (GBranch l' ls) + (gids (GBranch c' cs) + R))"
    by (rule copy_two [OF g own room]) (rule that)
  have "ls \<noteq> []" using len(1) by auto
  then have ls: "ls = butlast ls @ [last ls]" "ls \<noteq> []" by simp_all
  have L: "length ls \<le> Suc (maxKeys d)" using good_branch(3) g good_two by blast
  have b: "butlast ls \<noteq> []" "length (butlast ls) \<le> Suc (maxKeys d)" "last ls # cs \<noteq> []"
    "length (last ls # cs) \<le> Suc (maxKeys d)"
    using len L by (auto simp: butlast_conv_take)
  have gg: "good d K h t2 (butlast ls @ (last ls # cs))"
    using s(13,14) ls by (metis append.assoc append_Cons append_Nil good_append)
  have "sum_list (map gids ls) = sum_list (map gids (butlast ls)) + gids (last ls)"
    by (subst ls(1)) simp
  then have own1: "owned t2 (add_mset l' (sum_list (map gids (butlast ls))) + (add_mset c' (sum_list (map gids (last ls # cs))) + R))"
    using s(19) by (simp add: ac_simps add_mset_commute)
  obtain p' q' where w: "writeBranchChildren t2 p (map gid (butlast ls)) = Some p'" "pid p' = l'"
    "writeBranchChildren (putPage t2 p') q (map gid (last ls # cs)) = Some q'" "pid q' = c'"
    "good d K (Suc h) (putPage (putPage t2 p') q') [GBranch l' (butlast ls), GBranch c' (last ls # cs)]"
    "owned (putPage (putPage t2 p') q') (gids (GBranch l' (butlast ls)) + gids (GBranch c' (last ls # cs)) + R)"
    "ext {l', c'} t2 (putPage (putPage t2 p') q')" "room (putPage (putPage t2 p') q') n"
    by (rule write_two_nodes [OF s(7-12) r b gg s(16) own1]) (rule that)
  let ?t = "putPage (putPage t2 p') q'" and ?qs = "[GBranch l' (butlast ls), GBranch c' (last ls # cs)]"
  have run: "borrowFromLeft t (pre @ l # c # post) (Suc (length pre)) = Some (pre @ l' # c' # post, c', ?t)"
    using s(1-6) w(1,3) ls(2) by (simp add: borrowFromLeft_def Let_def map_butlast last_map)
  have "concat (map gentries ls) = concat (map gentries (butlast ls)) @ gentries (last ls)"
    by (subst ls(1)) simp
  moreover have "ext {} t ?t" by (rule ext_trans [OF s(15) w(7)]) (use s(17,18) in simp)
  ultimately have "regroup d K (Suc h) {} t [GBranch l ls, GBranch c cs] R n ?t ?qs"
    using w(5,6,8) by (simp add: regroup_def add.assoc)
  then show thesis using that run s(12,18) by blast
qed

lemma borrowFromRight_ok:
  assumes g: "good d K (Suc h) t [GBranch c cs, GBranch u us]" and r: "roomy d K"
    and own: "owned t (sum_list (map gids [GBranch c cs, GBranch u us]) + R)" and room: "room t (Suc (Suc n))"
    and len: "2 \<le> length us" "length cs \<le> maxKeys d"
  obtains j j' t' where "borrowFromRight t (pre @ c # u # post) (length pre) = Some (pre @ j # j' # post, j, t')"
    "regroup d K (Suc h) {} t [GBranch c cs, GBranch u us] R n t' [GBranch j (cs @ [hd us]), GBranch j' (tl us)]"
    "j \<in> fresh t" "j \<noteq> 0"
proof -
  obtain c' u' t1 t2 p q where s: "copyPage t c = Some (c', t1)" "copyPage t1 u = Some (u', t2)"
    "pages t2 c' = Some p" "pages t2 u' = Some q" "childIDs p = Some (map gid cs)" "childIDs q = Some (map gid us)"
    "wf_page p" "pid p = c'" "c' \<noteq> 0" "wf_page q" "pid q = u'" "u' \<noteq> 0"
    "good d K h t2 cs" "good d K h t2 us" "ext {} t t2" "room t2 n" "c' \<in> fresh t" "u' \<in> fresh t"
    "owned t2 (gids (GBranch c' cs) + (gids (GBranch u' us) + R))"
    by (rule copy_two [OF g own room]) (rule that)
  obtain U vs where us: "us = U # vs" "vs \<noteq> []" using len(1) by (cases us) (auto simp: Suc_le_eq)
  have U: "length us \<le> Suc (maxKeys d)" using good_branch(3) g good_two by blast
  have b: "cs @ [U] \<noteq> []" "length (cs @ [U]) \<le> Suc (maxKeys d)" "vs \<noteq> []" "length vs \<le> Suc (maxKeys d)"
    using len U us by simp_all
  have gg: "good d K h t2 ((cs @ [U]) @ vs)" using s(13,14) us by (metis append_Cons append_Nil good_append append.assoc)
  have own1: "owned t2 (add_mset c' (sum_list (map gids (cs @ [U]))) + (add_mset u' (sum_list (map gids vs)) + R))"
    using s(19) us by (simp add: ac_simps add_mset_commute)
  obtain p' q' where w: "writeBranchChildren t2 p (map gid (cs @ [U])) = Some p'" "pid p' = c'"
    "writeBranchChildren (putPage t2 p') q (map gid vs) = Some q'" "pid q' = u'"
    "good d K (Suc h) (putPage (putPage t2 p') q') [GBranch c' (cs @ [U]), GBranch u' vs]"
    "owned (putPage (putPage t2 p') q') (gids (GBranch c' (cs @ [U])) + gids (GBranch u' vs) + R)"
    "ext {c', u'} t2 (putPage (putPage t2 p') q')" "room (putPage (putPage t2 p') q') n"
    by (rule write_two_nodes [OF s(7-12) r b gg s(16) own1]) (rule that)
  let ?t = "putPage (putPage t2 p') q'" and ?qs = "[GBranch c' (cs @ [hd us]), GBranch u' (tl us)]"
  have run: "borrowFromRight t (pre @ c # u # post) (length pre) = Some (pre @ c' # u' # post, c', ?t)"
    using s(1-6) w(1,3) us by (simp add: borrowFromRight_def Let_def)
  have "ext {} t ?t" by (rule ext_trans [OF s(15) w(7)]) (use s(17,18) in simp)
  then have "regroup d K (Suc h) {} t [GBranch c cs, GBranch u us] R n ?t ?qs"
    using w(5,6,8) us by (simp add: regroup_def add.assoc)
  then show thesis using that run s(9,17) by blast
qed

end
