(* ===== verification/DeleteCorrect.thy ===== *)
theory DeleteCorrect
  imports DeleteRepair
begin

text \<open>
  Deletion is correct: \<^verbatim>\<open>deleteFrom\<close> on an ordered tree that holds the key leaves a tree that
  represents \<open>del_list\<close> of the entries, or an empty leaf; it keeps node sizes and balance,
  owns exactly the pages it uses, retires what it replaces and changes only fresh pages.
\<close>

section \<open>Repair in a list of children\<close>

lemma split_pair: "Suc y < length us \<Longrightarrow> us = take y us @ [us ! y, us ! Suc y] @ drop (Suc (Suc y)) us"
  by (metis Cons_nth_drop_Suc Suc_lessD append_Cons append_Nil append_take_drop_id)

lemma good_nth: "good d K h t us \<Longrightarrow> x < length us \<Longrightarrow> good d K h t [us ! x]"
  by (simp add: good_def)

lemma good_leafE:
  assumes "good d K 0 t us" "x < length us"
  obtains i es p where "us ! x = GLeaf i es" "pages t i = Some p" "leafPage p i es"
  using good_nth [OF assms] by (cases "us ! x") (auto simp: good_def)

lemma good_branchE:
  assumes "good d K (Suc h) t us" "x < length us"
  obtains i ts p where "us ! x = GBranch i ts" "pages t i = Some p"
    "branchPage p i (map firstkey (tl ts)) (map gid ts)" "ts \<noteq> []" "length ts \<le> Suc (maxKeys d)"
  using good_nth [OF assms] by (cases "us ! x") (auto simp: good_def)

lemma pair_setup:
  assumes g: "good d K h t us" and y: "Suc y < length us" and own: "owned t (sum_list (map gids us) + R)"
  defines "A \<equiv> take y us" and "B \<equiv> drop (Suc (Suc y)) us"
  shows "us = A @ [us ! y, us ! Suc y] @ B" "length A = y" "good d K h t A" "good d K h t B"
    "good d K h t [us ! y, us ! Suc y]"
    "owned t (sum_list (map gids [us ! y, us ! Suc y]) + (sum_list (map gids A) + sum_list (map gids B) + R))"
    "owned t (sum_list (map gids (A @ [us ! y, us ! Suc y] @ B)) + R)"
proof -
  show s: "us = A @ [us ! y, us ! Suc y] @ B" unfolding A_def B_def by (rule split_pair [OF y])
  show "length A = y" using y by (simp add: A_def)
  have "good d K h t (A @ [us ! y, us ! Suc y] @ B)" using g s by simp
  then show "good d K h t A" "good d K h t B" "good d K h t [us ! y, us ! Suc y]"
    unfolding good_append by blast+
  show "owned t (sum_list (map gids (A @ [us ! y, us ! Suc y] @ B)) + R)" using own s by simp
  then show "owned t (sum_list (map gids [us ! y, us ! Suc y]) + (sum_list (map gids A) + sum_list (map gids B) + R))"
    by (simp add: ac_simps)
qed

lemma regroup_pair:
  assumes g: "good d K h t us" and y: "Suc y < length us" and own: "owned t (sum_list (map gids us) + R)"
    and p: "regroup d K h X t [us ! y, us ! Suc y]
      (sum_list (map gids (take y us)) + sum_list (map gids (drop (Suc (Suc y)) us)) + R) n t' qs"
    and X: "X \<subseteq> set_mset (gids (us ! y) + gids (us ! Suc y))"
  shows "regroup d K h X t us R n t' (take y us @ qs @ drop (Suc (Suc y)) us)"
proof -
  note s = pair_setup [OF g y own]
  have "regroup d K h X t (take y us @ [us ! y, us ! Suc y] @ drop (Suc (Suc y)) us) R n t'
      (take y us @ qs @ drop (Suc (Suc y)) us)"
    by (rule regroup_splice [OF p s(3,4,7)]) (use X in simp)
  then show ?thesis using s(1) by simp
qed

text \<open>Which repair is run.\<close>

lemma mergeUnderfullLeaf_left:
  assumes "cs = A @ l # c # B" "length A = y" "pages t l = Some lp" "isLeaf lp" "pages t c = Some child"
    "isLeaf child" "leafNeedsRepair t child"
  shows "mergeUnderfullLeaf t cs (Suc y) = repairLeafLeft t (A @ l # c # B) (Suc (length A)) lp child"
  using assms by (auto simp: mergeUnderfullLeaf_def pageHas_def nth_append)

lemma mergeUnderfullLeaf_right:
  assumes "cs = c # u # B" "pages t u = Some up" "isLeaf up" "pages t c = Some child"
    "isLeaf child" "leafNeedsRepair t child"
  shows "mergeUnderfullLeaf t cs 0 = repairLeafRight t ([] @ c # u # B) (length ([] :: PageID list)) child up"
  using assms by (auto simp: mergeUnderfullLeaf_def pageHas_def)

lemma mergeUnderfullBranch_left:
  assumes "cs = A @ l # c # B" "length A = y" "pages t l = Some lp" "isBranch lp" "pages t c = Some child"
    "isBranch child" "branchNeedsRepair t child"
  shows "mergeUnderfullBranch t cs (Suc y) = repairBranchLeft t (A @ l # c # B) (Suc (length A)) lp child"
  using assms by (auto simp: mergeUnderfullBranch_def pageHas_def nth_append)

lemma mergeUnderfullBranch_right:
  assumes "cs = c # u # B" "pages t u = Some up" "isBranch up" "pages t c = Some child"
    "isBranch child" "branchNeedsRepair t child"
  shows "mergeUnderfullBranch t cs 0 = repairBranchRight t ([] @ c # u # B) (length ([] :: PageID list)) child up"
  using assms by (auto simp: mergeUnderfullBranch_def pageHas_def)

lemma mergeUnderfullLeaf_ok:
  assumes g: "good d K 0 t us" and x: "x < length us" and own: "owned t (sum_list (map gids us) + R)"
    and room: "room t (repairCost d + n)" and r: "roomy d K" and deg: "degree t = d"
  shows "\<exists>us' t'. mergeUnderfullLeaf t (map gid us) x = Some (map gid us', t') \<and>
    regroup d K 0 {gid (us ! x)} t us R n t' us'"
proof -
  obtain c cs child where C: "us ! x = GLeaf c cs" "pages t c = Some child" "leafPage child c cs"
    by (rule good_leafE [OF g x])
  note kc = leafPage_kind [OF C(3)]
  have stay: "regroup d K 0 {gid (us ! x)} t us R n t us"
    by (rule regroup_refl [OF g own]) (use room_le [OF room] x in auto)
  have idc: "map gid us ! x = c" using x C(1) by simp
  consider (stay) "length us \<le> 1 \<or> \<not> leafNeedsRepair t child"
    | (left) y where "\<not> length us \<le> 1" "leafNeedsRepair t child" "x = Suc y"
    | (right) "\<not> length us \<le> 1" "leafNeedsRepair t child" "x = 0"
    by (cases x) blast+
  then show ?thesis
  proof cases
    case stay
    then have "mergeUnderfullLeaf t (map gid us) x = Some (map gid us, t)"
      using C(2) kc x idc by (auto simp: mergeUnderfullLeaf_def)
    then show ?thesis using \<open>regroup _ _ _ _ _ _ _ _ _ _\<close> by blast
  next
    case left
    have y: "Suc y < length us" "y < length us" using x left(3) by simp_all
    obtain l ls lp where L: "us ! y = GLeaf l ls" "pages t l = Some lp" "leafPage lp l ls"
      by (rule good_leafE [OF g y(2)])
    let ?A = "take y us" and ?B = "drop (Suc (Suc y)) us"
    note s = pair_setup [OF g y(1) own]
    have pair: "[us ! y, us ! Suc y] = [GLeaf l ls, GLeaf c cs]" using L(1) C(1) left(3) by simp
    obtain qs t' where q: "repairLeafLeft t (map gid ?A @ l # c # map gid ?B) (Suc (length (map gid ?A))) lp child =
        Some (map gid ?A @ map gid qs @ map gid ?B, t')"
      "regroup d K 0 {c} t [GLeaf l ls, GLeaf c cs] (sum_list (map gids ?A) + sum_list (map gids ?B) + R) n t' qs"
      by (rule repairLeafLeft_ok [OF s(5) [unfolded pair] r deg s(6) [unfolded pair] room L(2) C(2)])
    have ids: "map gid us = map gid ?A @ l # c # map gid ?B" "length (map gid ?A) = y"
      using arg_cong [OF s(1), of "map gid"] pair s(2) by simp_all
    have "mergeUnderfullLeaf t (map gid us) x = Some (map gid (?A @ qs @ ?B), t')"
      using mergeUnderfullLeaf_left [OF ids L(2) leafPage_kind(1) [OF L(3)] C(2) kc(1) left(2)] q(1) left(3)
      by simp
    moreover have "regroup d K 0 {c} t us R n t' (?A @ qs @ ?B)"
      by (rule regroup_pair [OF g y(1) own]) (use q(2) pair L C(1) left(3) in simp_all)
    ultimately show ?thesis unfolding C(1) gid.simps by blast
  next
    case right
    have y: "Suc 0 < length us" using right(1) by simp
    obtain u vs up where U: "us ! Suc 0 = GLeaf u vs" "pages t u = Some up" "leafPage up u vs"
      by (rule good_leafE [OF g y]) (rule that)
    let ?B = "drop (Suc (Suc 0)) us"
    note s = pair_setup [OF g y own]
    have pair: "[us ! 0, us ! Suc 0] = [GLeaf c cs, GLeaf u vs]" using U(1) C(1) right(3) by simp
    obtain qs t' where q: "repairLeafRight t ([] @ c # u # map gid ?B) (length ([] :: PageID list)) child up =
        Some ([] @ map gid qs @ map gid ?B, t')"
      "regroup d K 0 {c} t [GLeaf c cs, GLeaf u vs] (sum_list (map gids (take 0 us)) + sum_list (map gids ?B) + R) n t' qs"
      by (rule repairLeafRight_ok [OF s(5) [unfolded pair] r deg s(6) [unfolded pair] room C(2) U(2),
            where pre = "[]" and post = "map gid ?B"]) (rule that)
    have ids: "map gid us = c # u # map gid ?B"
      using arg_cong [OF s(1), of "map gid"] pair s(2) by simp
    have "mergeUnderfullLeaf t (map gid us) x = Some (map gid (take 0 us @ qs @ ?B), t')"
      using mergeUnderfullLeaf_right [OF ids U(2) leafPage_kind(1) [OF U(3)] C(2) kc(1) right(2)] q(1) right(3)
      by simp
    moreover have "regroup d K 0 {c} t us R n t' (take 0 us @ qs @ ?B)"
      by (rule regroup_pair [OF g y own]) (use q(2) pair U C(1) right(3) in simp_all)
    ultimately show ?thesis unfolding C(1) gid.simps by blast
  qed
qed

lemma mergeUnderfullBranch_ok:
  assumes g: "good d K (Suc h) t us" and x: "x < length us" and own: "owned t (sum_list (map gids us) + R)"
    and room: "room t (Suc n)" and r: "roomy d K" and deg: "degree t = d"
  shows "\<exists>us' t'. mergeUnderfullBranch t (map gid us) x = Some (map gid us', t') \<and>
    regroup d K (Suc h) {gid (us ! x)} t us R n t' us'"
proof -
  obtain c cs child where C: "us ! x = GBranch c cs" "pages t c = Some child"
    "branchPage child c (map firstkey (tl cs)) (map gid cs)"
    by (rule good_branchE [OF g x]) (rule that)
  note kc = branchPage_kind [OF C(3)]
  have stay: "regroup d K (Suc h) {gid (us ! x)} t us R n t us"
    by (rule regroup_refl [OF g own]) (use room_le [OF room] x in auto)
  have idc: "map gid us ! x = c" using x C(1) by simp
  consider (stay) "length us \<le> 1 \<or> \<not> branchNeedsRepair t child"
    | (left) y where "\<not> length us \<le> 1" "branchNeedsRepair t child" "x = Suc y"
    | (right) "\<not> length us \<le> 1" "branchNeedsRepair t child" "x = 0"
    by (cases x) blast+
  then show ?thesis
  proof cases
    case stay
    then have "mergeUnderfullBranch t (map gid us) x = Some (map gid us, t)"
      using C(2) kc x idc by (auto simp: mergeUnderfullBranch_def)
    then show ?thesis using \<open>regroup _ _ _ _ _ _ _ _ _ _\<close> by blast
  next
    case left
    have y: "Suc y < length us" "y < length us" using x left(3) by simp_all
    obtain l ls lp where L: "us ! y = GBranch l ls" "pages t l = Some lp"
      "branchPage lp l (map firstkey (tl ls)) (map gid ls)"
      by (rule good_branchE [OF g y(2)]) (rule that)
    let ?A = "take y us" and ?B = "drop (Suc (Suc y)) us"
    note s = pair_setup [OF g y(1) own]
    have pair: "[us ! y, us ! Suc y] = [GBranch l ls, GBranch c cs]" using L(1) C(1) left(3) by simp
    obtain qs t' where q: "repairBranchLeft t (map gid ?A @ l # c # map gid ?B) (Suc (length (map gid ?A))) lp child =
        Some (map gid ?A @ map gid qs @ map gid ?B, t')"
      "regroup d K (Suc h) {c} t [GBranch l ls, GBranch c cs] (sum_list (map gids ?A) + sum_list (map gids ?B) + R) n t' qs"
      by (rule repairBranchLeft_ok [OF s(5) [unfolded pair] r deg s(6) [unfolded pair] room L(2) C(2)])
    have ids: "map gid us = map gid ?A @ l # c # map gid ?B" "length (map gid ?A) = y"
      using arg_cong [OF s(1), of "map gid"] pair s(2) by simp_all
    have "mergeUnderfullBranch t (map gid us) x = Some (map gid (?A @ qs @ ?B), t')"
      using mergeUnderfullBranch_left [OF ids L(2) branchPage_kind(1) [OF L(3)] C(2) kc(1) left(2)] q(1) left(3)
      by simp
    moreover have "regroup d K (Suc h) {c} t us R n t' (?A @ qs @ ?B)"
      by (rule regroup_pair [OF g y(1) own]) (use q(2) pair L C(1) left(3) in simp_all)
    ultimately show ?thesis unfolding C(1) gid.simps by blast
  next
    case right
    have y: "Suc 0 < length us" using right(1) by simp
    obtain u vs up where U: "us ! Suc 0 = GBranch u vs" "pages t u = Some up"
      "branchPage up u (map firstkey (tl vs)) (map gid vs)"
      by (rule good_branchE [OF g y]) (rule that)
    let ?B = "drop (Suc (Suc 0)) us"
    note s = pair_setup [OF g y own]
    have pair: "[us ! 0, us ! Suc 0] = [GBranch c cs, GBranch u vs]" using U(1) C(1) right(3) by simp
    obtain qs t' where q: "repairBranchRight t ([] @ c # u # map gid ?B) (length ([] :: PageID list)) child up =
        Some ([] @ map gid qs @ map gid ?B, t')"
      "regroup d K (Suc h) {c} t [GBranch c cs, GBranch u vs] (sum_list (map gids (take 0 us)) + sum_list (map gids ?B) + R) n t' qs"
      by (rule repairBranchRight_ok [OF s(5) [unfolded pair] r deg s(6) [unfolded pair] room C(2) U(2),
            where pre = "[]" and post = "map gid ?B"]) (rule that)
    have ids: "map gid us = c # u # map gid ?B"
      using arg_cong [OF s(1), of "map gid"] pair s(2) by simp
    have "mergeUnderfullBranch t (map gid us) x = Some (map gid (take 0 us @ qs @ ?B), t')"
      using mergeUnderfullBranch_right [OF ids U(2) branchPage_kind(1) [OF U(3)] C(2) kc(1) right(2)] q(1) right(3)
      by simp
    moreover have "regroup d K (Suc h) {c} t us R n t' (take 0 us @ qs @ ?B)"
      by (rule regroup_pair [OF g y own]) (use q(2) pair U C(1) right(3) in simp_all)
    ultimately show ?thesis unfolding C(1) gid.simps by blast
  qed
qed

text \<open>On the wrong kind of node a repair does nothing.\<close>

lemma mergeUnderfullBranch_leaves:
  assumes "good d K 0 t us"
  shows "mergeUnderfullBranch t (map gid us) x = Some (map gid us, t)"
proof (cases "x < length us")
  case True
  then obtain i es p where "us ! x = GLeaf i es" "pages t i = Some p" "leafPage p i es"
    using good_leafE [OF assms] by blast
  then show ?thesis using True leafPage_kind(2) [of p i es] by (simp add: mergeUnderfullBranch_def)
qed (simp add: mergeUnderfullBranch_def)

lemma mergeUnderfullLeaf_branches:
  assumes "good d K (Suc h) t us"
  shows "mergeUnderfullLeaf t (map gid us) x = Some (map gid us, t)"
proof (cases "x < length us")
  case True
  then obtain i ts p where "us ! x = GBranch i ts" "pages t i = Some p"
    "branchPage p i (map firstkey (tl ts)) (map gid ts)"
    using good_branchE [OF assms] by blast
  then show ?thesis using True branchPage_kind(2) [of p i] by (simp add: mergeUnderfullLeaf_def)
qed (simp add: mergeUnderfullLeaf_def)

lemma merge_ok:
  assumes g: "good d K h t us" and x: "x < length us" and own: "owned t (sum_list (map gids us) + R)"
    and room: "room t (repairCost d + n)" and r: "roomy d K" and deg: "degree t = d"
  shows "\<exists>us' t'. do { (cs, t1) \<leftarrow> mergeUnderfullLeaf t (map gid us) x; mergeUnderfullBranch t1 cs x } =
      Some (map gid us', t') \<and> regroup d K h {gid (us ! x)} t us R n t' us'"
proof (cases h)
  case 0
  obtain us' t' where m: "mergeUnderfullLeaf t (map gid us) x = Some (map gid us', t')"
    "regroup d K 0 {gid (us ! x)} t us R n t' us'"
    using mergeUnderfullLeaf_ok [OF g [unfolded 0] x own room r deg] by blast
  have "good d K 0 t' us'" using m(2) by (simp add: regroup_def)
  then show ?thesis using m mergeUnderfullBranch_leaves 0 by auto
next
  case (Suc m)
  have "room t (Suc n)" by (rule room_le [OF room]) (simp add: repairCost_def)
  from mergeUnderfullBranch_ok [OF g [unfolded Suc] x own this r deg]
  show ?thesis using mergeUnderfullLeaf_branches [OF g [unfolded Suc]] Suc by simp
qed

section \<open>The leaf\<close>

text \<open>
  The contract of a deletion: \<open>T'\<close> replaces \<open>T\<close> under the same id and holds its entries
  without \<open>k\<close>; it is empty or has the height and node sizes of \<open>T\<close>.
\<close>

definition delete_post :: "nat \<Rightarrow> nat \<Rightarrow> key \<Rightarrow> Tree \<Rightarrow> gtree \<Rightarrow> PageID multiset \<Rightarrow> nat \<Rightarrow>
    Tree \<Rightarrow> gtree \<Rightarrow> bool" where
  "delete_post d K k t T R n t' T' \<longleftrightarrow>
     gid T' = gid T \<and> gentries T' = del_list k (gentries T) \<and> rep (pages t') T' \<and>
     (T' = GLeaf (gid T) [] \<or> good d K (gheight T) t' [T']) \<and>
     owned t' (gids T' + R) \<and> room t' n \<and> ext {gid T} t t'"

text \<open>Pages a deletion may allocate: copies and rewritten leaves on every level.\<close>

definition deleteCost :: "nat \<Rightarrow> nat \<Rightarrow> nat" where
  "deleteCost d h = (repairCost d + 2) * Suc h"

lemma chainIDs_removeAt:
  "i < length es \<Longrightarrow> chainIDs es = mset (snd (snd (es ! i))) + chainIDs (removeAt es i)"
  by (subst (1) split_at [of i es]) (simp_all add: removeAt_def chainIDs_Cons)

lemma wcost_removeAt: "i < length es \<Longrightarrow> wcost (removeAt es i) \<le> wcost es"
  by (subst (2) split_at [of i es]) (simp_all add: removeAt_def)

lemma map_removeAt: "map f (removeAt xs i) = removeAt (map f xs) i"
  by (simp add: removeAt_def take_map drop_map)

lemma set_removeAt: "set (removeAt xs i) \<subseteq> set xs"
  by (auto simp: removeAt_def dest: in_set_takeD in_set_dropD)

section \<open>The descent\<close>

lemma good_others:
  assumes "good d K h t us" "owned t (sum_list (map gids us) + R)" "ext X t t'" "x < length us"
    "\<And>i. i \<in> X \<Longrightarrow> i \<notin># sum_list (map gids (others us x))"
  shows "good d K h t' (others us x)"
proof (rule good_frame [OF _ _ assms(3,5)])
  show "good d K h t (others us x)"
    using assms(1) set_others_subset [of us x] unfolding good_def by blast
  show "owned t (sum_list (map gids (others us x)) + (gids (us ! x) + R))"
    using assms(2) by (simp add: others_gids [OF assms(4)] ac_simps)
qed simp

lemma good_set: "set us \<subseteq> set vs \<Longrightarrow> good d K h t vs \<Longrightarrow> good d K h t us"
  by (auto simp: good_def)

lemma good_update:
  assumes "x < length us" "good d K h t (others us x)" "good d K h t [T]"
  shows "good d K h t (us[x := T])"
proof (rule good_set)
  show "set (us[x := T]) \<subseteq> set (others us x @ [T])" using set_update_others [OF assms(1), of T] by auto
qed (use assms in simp)

text \<open>The borrowing step, with what the child it prepares holds.\<close>

lemma borrow_before_ok:
  assumes g: "good d K h t ts" and x: "x < length ts" and own: "owned t (sum_list (map gids ts) + R)"
    and room: "room t (Suc (Suc n))" and r: "roomy d K" and deg: "degree t = d"
  shows "borrowBranchChildBeforeDescent t (map gid ts) x = Some (map gid ts, 0, t) \<or>
    (\<exists>us t'. borrowBranchChildBeforeDescent t (map gid ts) x = Some (map gid us, gid (us ! x), t') \<and>
      regroup d K h {} t ts R n t' us \<and> length us = length ts \<and> gid (us ! x) \<in> fresh t \<and> gid (us ! x) \<noteq> 0 \<and>
      set (gentries (ts ! x)) \<subseteq> set (gentries (us ! x)))"
proof (cases h)
  case 0
  then obtain i es p where "ts ! x = GLeaf i es" "pages t i = Some p" "leafPage p i es"
    using good_leafE [OF g [unfolded 0] x] by blast
  then show ?thesis
    using x leafPage_kind(2) [of p i es] by (simp add: borrowBranchChildBeforeDescent_def pageHas_def)
next
  case (Suc m)
  note g' = g [unfolded Suc]
  obtain c cs child where C: "ts ! x = GBranch c cs" "pages t c = Some child"
    "branchPage child c (map firstkey (tl cs)) (map gid cs)" "cs \<noteq> []"
    by (rule good_branchE [OF g' x]) (rule that)
  note kc = branchPage_kind [OF C(3)]
  have nc: "unat (slotCount child) = length cs - 1" using kc(4) by simp
  have d2: "2 \<le> d" using r by (simp add: roomy_def)
  have lendlen: "2 \<le> length ls" if "pageHas t l (lends t)" "pages t l = Some lp"
    "branchPage lp l (map firstkey (tl ls)) (map gid ls)" for l ls lp
    using that branchPage_kind(4) [OF that(3)] deg d2 by (simp add: pageHas_def lends_def minKeys_def) linarith
  let ?small = "pageHas t c (\<lambda>p. isBranch p \<and> unat (slotCount p) \<le> minKeys (degree t))"
  have small: "?small \<Longrightarrow> length cs \<le> maxKeys d"
    using C(2) nc deg d2 by (simp add: pageHas_def minKeys_def maxKeys_def) linarith
  consider (no) "\<not> ?small \<or> \<not> (0 < x \<and> pageHas t (map gid ts ! (x - 1)) (lends t)) \<and>
      \<not> (x + 1 < length ts \<and> pageHas t (map gid ts ! (x + 1)) (lends t))"
    | (left) "?small" "0 < x" "pageHas t (map gid ts ! (x - 1)) (lends t)"
    | (right) "?small" "\<not> (0 < x \<and> pageHas t (map gid ts ! (x - 1)) (lends t))" "x + 1 < length ts"
        "pageHas t (map gid ts ! (x + 1)) (lends t)"
    by blast
  then show ?thesis
  proof cases
    case no
    then show ?thesis using x C(1) by (auto simp: borrowBranchChildBeforeDescent_def)
  next
    case left': left
    then obtain y where left: "?small" "x = Suc y" "pageHas t (map gid ts ! y) (lends t)"
      by (cases x) simp_all
    have y: "Suc y < length ts" "y < length ts" using x left(2) by simp_all
    obtain l ls lp where L: "ts ! y = GBranch l ls" "pages t l = Some lp"
      "branchPage lp l (map firstkey (tl ls)) (map gid ls)"
      by (rule good_branchE [OF g' y(2)]) (rule that)
    let ?A = "take y ts" and ?B = "drop (Suc (Suc y)) ts"
    note s = pair_setup [OF g' y(1) own]
    have pair: "[ts ! y, ts ! Suc y] = [GBranch l ls, GBranch c cs]" using L(1) C(1) left(2) by simp
    have len: "2 \<le> length ls" "length cs \<le> maxKeys d"
      using lendlen [OF _ L(2,3)] left small y L(1) by simp_all
    obtain j j' t' where q: "borrowFromLeft t (map gid ?A @ l # c # map gid ?B) (Suc (length (map gid ?A))) =
        Some (map gid ?A @ j # j' # map gid ?B, j', t')"
      "regroup d K (Suc m) {} t [GBranch l ls, GBranch c cs] (sum_list (map gids ?A) + sum_list (map gids ?B) + R)
        n t' [GBranch j (butlast ls), GBranch j' (last ls # cs)]" "j' \<in> fresh t" "j' \<noteq> 0"
      by (rule borrowFromLeft_ok [OF s(5) [unfolded pair] r s(6) [unfolded pair] room len,
          where pre = "map gid ?A" and post = "map gid ?B"]) (rule that)
    define us where "us = ?A @ [GBranch j (butlast ls), GBranch j' (last ls # cs)] @ ?B"
    have us: "us ! x = GBranch j' (last ls # cs)" "length us = length ts"
      using y left(2) by (simp_all add: us_def nth_append)
    have ids: "map gid ts = map gid ?A @ l # c # map gid ?B" "length (map gid ?A) = y"
      using arg_cong [OF s(1), of "map gid"] pair s(2) by simp_all
    have "borrowBranchChildBeforeDescent t (map gid ts) x = borrowFromLeft t (map gid ts) x"
      using left x C(1) by (simp add: borrowBranchChildBeforeDescent_def)
    also have "\<dots> = borrowFromLeft t (map gid ?A @ l # c # map gid ?B) (Suc (length (map gid ?A)))"
      by (simp only: ids(2) left(2) ids(1) [symmetric])
    also have "\<dots> = Some (map gid us, gid (us ! x), t')" unfolding us(1) using q(1) by (simp add: us_def)
    finally have run: "borrowBranchChildBeforeDescent t (map gid ts) x = Some (map gid us, gid (us ! x), t')" .
    have "regroup d K (Suc m) {} t ts R n t' us"
      unfolding us_def by (rule regroup_pair [OF g' y(1) own]) (use q(2) pair in simp_all)
    moreover have "set (gentries (ts ! x)) \<subseteq> set (gentries (us ! x))" using us(1) C(1) by auto
    moreover have "gid (us ! x) \<in> fresh t" "gid (us ! x) \<noteq> 0" using q(3,4) us(1) by simp_all
    ultimately show ?thesis unfolding Suc using run us(2) by blast
  next
    case right
    have y: "Suc x < length ts" using right(3) by simp
    obtain u vs up where U: "ts ! Suc x = GBranch u vs" "pages t u = Some up"
      "branchPage up u (map firstkey (tl vs)) (map gid vs)"
      by (rule good_branchE [OF g' y]) (rule that)
    let ?A = "take x ts" and ?B = "drop (Suc (Suc x)) ts"
    note s = pair_setup [OF g' y own]
    have pair: "[ts ! x, ts ! Suc x] = [GBranch c cs, GBranch u vs]" using U(1) C(1) by simp
    have len: "2 \<le> length vs" "length cs \<le> maxKeys d"
      using lendlen [OF _ U(2,3)] right small y U(1) by simp_all
    obtain j j' t' where q: "borrowFromRight t (map gid ?A @ c # u # map gid ?B) (length (map gid ?A)) =
        Some (map gid ?A @ j # j' # map gid ?B, j, t')"
      "regroup d K (Suc m) {} t [GBranch c cs, GBranch u vs] (sum_list (map gids ?A) + sum_list (map gids ?B) + R)
        n t' [GBranch j (cs @ [hd vs]), GBranch j' (tl vs)]" "j \<in> fresh t" "j \<noteq> 0"
      by (rule borrowFromRight_ok [OF s(5) [unfolded pair] r s(6) [unfolded pair] room len,
          where pre = "map gid ?A" and post = "map gid ?B"]) (rule that)
    define us where "us = ?A @ [GBranch j (cs @ [hd vs]), GBranch j' (tl vs)] @ ?B"
    have us: "us ! x = GBranch j (cs @ [hd vs])" "length us = length ts"
      using y x by (simp_all add: us_def nth_append)
    have ids: "map gid ts = map gid ?A @ c # u # map gid ?B" "length (map gid ?A) = x"
      using arg_cong [OF s(1), of "map gid"] pair s(2) by simp_all
    have "borrowBranchChildBeforeDescent t (map gid ts) x = borrowFromRight t (map gid ts) x"
      using right x C(1) by (auto simp: borrowBranchChildBeforeDescent_def)
    also have "\<dots> = borrowFromRight t (map gid ?A @ c # u # map gid ?B) (length (map gid ?A))"
      by (simp only: ids(2) ids(1) [symmetric])
    also have "\<dots> = Some (map gid us, gid (us ! x), t')" unfolding us(1) using q(1) by (simp add: us_def)
    finally have run: "borrowBranchChildBeforeDescent t (map gid ts) x = Some (map gid us, gid (us ! x), t')" .
    have "regroup d K (Suc m) {} t ts R n t' us"
      unfolding us_def by (rule regroup_pair [OF g' y own]) (use q(2) pair in simp_all)
    moreover have "set (gentries (ts ! x)) \<subseteq> set (gentries (us ! x))" using us(1) C(1) by auto
    moreover have "gid (us ! x) \<in> fresh t" "gid (us ! x) \<noteq> 0" using q(3,4) us(1) by simp_all
    ultimately show ?thesis unfolding Suc using run us(2) by blast
  qed
qed

lemma deleteDescend_ok:
  assumes cmp: "compareKeys t = cmp" and g: "good d K (Suc h) t [GBranch i ts]" and p: "pages t i = Some p"
    and own: "owned t (gids (GBranch i ts) + R)" and room: "room t (Suc (Suc n))" and r: "roomy d K"
    and deg: "degree t = d" and x: "x = childIndex (map firstkey (tl ts)) k cmp" "x < length ts"
  obtains us t' where "deleteDescend t p k = Some (map gid us, x, gid (us ! x), t')"
    "regroup d K h {} t ts (add_mset i R) n t' us" "length us = length ts" "gid (us ! x) \<in> fresh t"
    "set (gentries (ts ! x)) \<subseteq> set (gentries (us ! x))"
proof -
  note B = good_branch [OF g] and bp = good_branch_page [OF g p]
  note parts = branchParts_branchPage [OF bp(1)]
  have own1: "owned t (sum_list (map gids ts) + add_mset i R)" using own by simp
  consider (none) "borrowBranchChildBeforeDescent t (map gid ts) x = Some (map gid ts, 0, t)"
    | (lent) us t' where "borrowBranchChildBeforeDescent t (map gid ts) x = Some (map gid us, gid (us ! x), t')"
      "regroup d K h {} t ts (add_mset i R) n t' us" "length us = length ts" "gid (us ! x) \<in> fresh t" "gid (us ! x) \<noteq> 0"
      "set (gentries (ts ! x)) \<subseteq> set (gentries (us ! x))"
    using borrow_before_ok [OF B(1) x(2) own1 room r deg] by blast
  then show thesis
  proof cases
    case lent
    have "deleteDescend t p k = Some (map gid us, x, gid (us ! x), t')"
      using parts cmp lent(1,5) by (simp add: deleteDescend_def Let_def x(1) [symmetric])
    then show thesis using that lent by blast
  next
    case none
    let ?C = "ts ! x"
    have repC: "rep (pages t) ?C" "good d K h t [?C]" using B(1) x(2) by (simp_all add: good_def)
    have own2: "owned t (gids ?C + (sum_list (map gids (others ts x)) + add_mset i R))"
      using own1 by (simp add: others_gids [OF x(2)] ac_simps)
    obtain j t1 q where c: "copyPage t (gid ?C) = Some (j, t1)" "pages t (gid ?C) = Some q"
      "pages t1 = (pages t)(j \<mapsto> q\<lparr>pid := j\<rparr>)" "rep (pages t1) (setgid j ?C)"
      "owned t1 (gids (setgid j ?C) + (sum_list (map gids (others ts x)) + add_mset i R))" "room t1 (Suc n)"
      "ext {} t t1" "j \<in> fresh t" "j \<noteq> 0" "j \<notin># gids ?C + (sum_list (map gids (others ts x)) + add_mset i R)"
      by (rule copy_tree [OF repC(1) own2 room]) (rule that)
    let ?us = "ts[x := setgid j ?C]"
    have "good d K h t1 [setgid j ?C]" using c(4) repC(2) by (simp add: good_def)
    moreover have "good d K h t1 (others ts x)" by (rule good_others [OF B(1) own1 c(7) x(2)]) simp
    ultimately have g1: "good d K h t1 ?us" by (intro good_update x(2))
    have "concat (map gentries ?us) = concat (map gentries ts)"
    proof -
      have "map gentries ?us = map gentries ts"
        using x(2) by (simp add: map_update list_update_same_conv)
      then show ?thesis by simp
    qed
    moreover have "owned t1 (sum_list (map gids ?us) + add_mset i R)"
      using c(5) by (simp add: others_update_gids [OF x(2)] ac_simps del: setgid_simps)
    moreover have "?us \<noteq> []" using x(2) by auto
    ultimately have "regroup d K h {} t ts (add_mset i R) n t1 ?us"
      using g1 c(7) room_le [OF c(6), of n] by (simp add: regroup_def)
    moreover have "deleteDescend t p k = Some (map gid ?us, x, gid (?us ! x), t1)"
      using parts cmp none c(1) x(2) by (simp add: deleteDescend_def Let_def x(1) [symmetric] map_update)
    ultimately show thesis using that [of ?us t1] c(8) x(2) by simp
  qed
qed

section \<open>The return\<close>

lemma leafPage_reset: "wf_page p \<Longrightarrow> pid p = i \<Longrightarrow> i \<noteq> 0 \<Longrightarrow> leafPage (reset p flagLeaf) i []"
  by (simp add: reset_newPage leafPage_newPage)

lemma removeAt_others: "removeAt us x = others us x"
  by (simp add: removeAt_def others_def)

lemma deleteFinish_ok:
  assumes x: "x < length us" and len: "length us \<le> Suc (maxKeys d)" and r: "roomy d K" and deg: "degree t = d"
    and sib: "good d K h t (others us x)" and C: "gid C = gid (us ! x)" "rep (pages t) C"
    and kind: "C = GLeaf (gid (us ! x)) [] \<or> good d K h t [C]"
    and own: "owned t (gids C + (sum_list (map gids (others us x)) + add_mset i R))"
    and room: "room t (repairCost d + n)" and p: "pages t i = Some p" "wf_page p" "pid p = i" "i \<noteq> 0"
  shows "\<exists>t' T'. deleteFinish t i (map gid us) x (gid (us ! x)) = Some (True, t') \<and> gid T' = i \<and>
    gentries T' = concat (map gentries (us[x := C])) \<and> rep (pages t') T' \<and>
    (T' = GLeaf i [] \<or> good d K (Suc h) t' [T']) \<and> owned t' (gids T' + R) \<and> room t' n \<and>
    ext {gid (us ! x), i} t t'"
proof -
  let ?j = "gid (us ! x)" and ?M = "sum_list (map gids (others us x))"
  have roomn: "room t n" using room_le [OF room] by simp
  show ?thesis
  proof (cases "C = GLeaf ?j []")
    case True
    let ?t = "retirePage t ?j"
    have "subtreeEmpty (pages t) ?j = Some True" using C(2) True subtreeEmpty_empty by metis
    then have run: "deleteFinish t i (map gid us) x ?j =
        do { p' \<leftarrow> writeBranchChildren ?t p (map gid (others us x)); Some (True, putPage ?t p') }"
      using p(1) by (simp add: deleteFinish_def map_removeAt [symmetric] removeAt_others)
    have ents: "concat (map gentries (us[x := C])) = concat (map gentries (others us x))"
      using x True by (simp add: upd_conv_take_nth_drop others_def)
    have own': "owned ?t (add_mset i ?M + R)" using own True by (simp add: owned_retirePage ac_simps add_mset_commute)
    show ?thesis
    proof (cases "others us x = []")
      case True
      let ?q = "reset p flagLeaf"
      have lp: "leafPage ?q i []" by (rule leafPage_reset [OF p(2-4)])
      then have pid: "pid ?q = i" by (rule leafPage_kind(3))
      have "ext {?j, i} t (putPage ?t ?q)"
        by (rule ext_trans [OF ext_retirePage ext_putPage [of ?q "{i}"]]) (use pid in simp_all)
      moreover have "rep (pages (putPage ?t ?q)) (GLeaf i [])" using lp pid by simp
      ultimately show ?thesis
        using run True ents own' roomn
        by (intro exI [of _ "putPage ?t ?q"] exI [of _ "GLeaf i []"]) (simp add: writeBranchChildren_def)
    next
      case False
      have l: "length (others us x) \<le> Suc (maxKeys d)" using len x by (simp add: others_def)
      have g: "good d K h ?t (others us x)" using sib by simp
      have rm: "room ?t n" using roomn by simp
      obtain p' where w: "writeBranchChildren ?t p (map gid (others us x)) = Some p'" "pid p' = i"
        "good d K (Suc h) (putPage ?t p') [GBranch i (others us x)]"
        "owned (putPage ?t p') (gids (GBranch i (others us x)) + R)" "ext {i} ?t (putPage ?t p')" "room (putPage ?t p') n"
        by (rule write_one_node [OF p(2-4) r False l g rm own']) (rule that)
      have "ext {?j, i} t (putPage ?t p')" by (rule ext_trans [OF ext_retirePage w(5)]) simp
      moreover have "rep (pages (putPage ?t p')) (GBranch i (others us x))" using goodD(1) [OF w(3)] by simp
      ultimately show ?thesis
        using run w ents
        by (intro exI [of _ "putPage ?t p'"] exI [of _ "GBranch i (others us x)"]) (simp del: rep.simps)
    qed
  next
    case False
    then have gC: "good d K h t [C]" using kind by blast
    let ?us = "us[x := C]"
    have ids: "map gid ?us = map gid us" using x C(1) by (simp add: map_update list_update_same_conv)
    have g: "good d K h t ?us" by (rule good_update [OF x sib gC])
    have own1: "owned t (sum_list (map gids ?us) + add_mset i R)"
      using own by (simp add: others_update_gids [OF x] ac_simps)
    have xl: "x < length ?us" using x by simp
    obtain us' t1 where m: "do { (cs, t1) \<leftarrow> mergeUnderfullLeaf t (map gid us) x; mergeUnderfullBranch t1 cs x } =
        Some (map gid us', t1)" "regroup d K h {?j} t ?us (add_mset i R) n t1 us'"
      using merge_ok [OF g xl own1 room r deg] ids x C(1) by auto
    have gt: "good d K h t1 us'" "concat (map gentries us') = concat (map gentries ?us)"
      "owned t1 (sum_list (map gids us') + add_mset i R)" "room t1 n" "ext {?j} t t1" "us' \<noteq> []"
      "length us' \<le> Suc (maxKeys d)"
      using m(2) len by (simp_all add: regroup_def)
    have "subtreeEmpty (pages t) ?j = Some False"
      using subtreeEmpty_shape [of "pages t" C d K] gC C(1) by (simp add: good_def)
    moreover have "pages t1 i = Some p"
    proof -
      have "i \<noteq> ?j"
        using owned_distinct [OF own1, of i] own1 others_update_gids [OF x, of C] gids_grest [of C] C(1)
        by (auto split: if_splits)
      then show ?thesis using extD(4) [OF gt(5), of i] owned_not_fresh [OF own1, of i] p(1) by simp
    qed
    ultimately have run: "deleteFinish t i (map gid us) x ?j =
        do { p' \<leftarrow> writeBranchChildren t1 p (map gid us'); Some (True, putPage t1 p') }"
      using m(1) by (simp add: deleteFinish_def bind_assoc case_prod_beta)
    have own2: "owned t1 (add_mset i (sum_list (map gids us')) + R)" using gt(3) by simp
    obtain p' where w: "writeBranchChildren t1 p (map gid us') = Some p'" "pid p' = i"
      "good d K (Suc h) (putPage t1 p') [GBranch i us']"
      "owned (putPage t1 p') (gids (GBranch i us') + R)" "ext {i} t1 (putPage t1 p')" "room (putPage t1 p') n"
      by (rule write_one_node [OF p(2-4) r gt(6,7,1,4) own2]) (rule that)
    have "ext {?j, i} t (putPage t1 p')" by (rule ext_trans [OF ext_mono [OF gt(5)] w(5)]) simp_all
    moreover have "rep (pages (putPage t1 p')) (GBranch i us')" using goodD(1) [OF w(3)] by simp
    ultimately show ?thesis
      using run w gt(2) by (intro exI [of _ "putPage t1 p'"] exI [of _ "GBranch i us'"]) (simp del: rep.simps)
  qed
qed

context key_comparator
begin

lemma deleteFromLeaf_ok:
  assumes cmp: "compareKeys t = cmp" and g: "good d K 0 t [GLeaf i es]" and p: "pages t i = Some p"
    and srt: "sorted_by cmp (map kv es)" and own: "owned t (gids (GLeaf i es) + R)"
    and room: "room t (deleteCost d 0 + n)" and r: "roomy d K" and hit: "k \<in> fst ` set es"
  shows "\<exists>t' T'. deleteFromLeaf t p k = Some (True, t') \<and> delete_post d K k t (GLeaf i es) R n t' T'"
proof -
  note G = good_leaf [OF g] and P = good_leaf_page [OF g p]
  note kp = leafPage_kind [OF P(1)]
  let ?r = "rank (\<lambda>p. cmp (fst p) k) (map kv es)"
  note s = leaf_search [OF srt, where k = k]
  have rl: "?r < length es" and rk: "fst (es ! ?r) = k" using s(3) hit by blast+
  obtain w c where e: "es ! ?r = (k, w, c)" using rk by (cases "es ! ?r") auto
  obtain raw f where gc: "gcell (es ! ?r) = (k, raw, f)" by (metis e fst_conv fst_gcell prod.exhaust)
  have eok: "entry_ok (pages t) (k, w, c)" "length w < 2 ^ 63"
    using G(1) rl e unfolding entries_ok_def by (metis nth_mem, metis fst_conv nth_mem snd_conv)
  have ret: "retireOverflowValue t raw f = Some (retireAll t c)"
    using retireOverflowValue_gcell [OF eok, of k raw f] gc e by simp
  let ?es = "removeAt es ?r" and ?t = "retireAll t c"
  have sub: "set ?es \<subseteq> set es" by (rule set_removeAt)
  have own1: "owned ?t (chainIDs ?es + add_mset i R)"
    using own chainIDs_removeAt [OF rl] e by (simp add: owned_retireAll ac_simps)
  have room1: "room ?t (wcost ?es + n)"
    using room_le [OF room, of "wcost ?es + n"] wcost_removeAt [OF rl] P(3) G(4)
    by (simp add: deleteCost_def repairCost_def)
  have ok1: "entries_ok ?t ?es" using G(1) sub by (auto simp: entries_ok_def)
  have keys1: "\<forall>e\<in>set ?es. length (fst e) \<le> K" using G(2) sub by blast
  have len1: "length ?es \<le> maxKeys d" using G(4) rl by simp
  have "pid p \<noteq> 0" using kp by simp
  obtain es' p' t' where v: "writeLeafEntries ?t p (map rawEntry ?es) = Some (p', t')" "map kv es' = map kv ?es"
    "leafPage p' (pid p) es'" "nextLeaf p' = nextLeaf p" "owned t' (chainIDs es' + add_mset i R)"
    "room t' (wcost es' + n)" "ext {} ?t t'" "entries_ok t' es'"
    by (rule writeLeafEntries_ok [OF pend_raw kp(5) \<open>pid p \<noteq> 0\<close> own1 room1 ok1 keys1 len1 r])
  have p': "leafPage p' i es'" "pid p' = i" using v(3) kp(3) leafPage_kind(3) [OF v(3)] by simp_all
  let ?t' = "putPage t' p'"
  have "count (chainIDs es') i = 0" using owned_distinct [OF v(5), of i] by simp
  then have ok': "entries_ok ?t' es'"
    by (intro entries_ok_ext [OF v(8,5) ext_putPage [of p' "{i}"]]) (use p'(2) in \<open>auto simp: not_in_iff\<close>)
  have at: "pages ?t' i = Some p'" using p'(2) by simp
  have run: "deleteFromLeaf t p k = Some (True, ?t')"
    using P(2) s(1) hit cmp ret v(1) rl gc
    by (simp add: deleteFromLeaf_def rawEntry_def map_removeAt)
  have "del_list k (map kv es) = removeAt (map kv es) ?r"
    by (rule del_list_rank [OF srt refl]) (use rl rk in simp_all)
  then have ents: "map kv es' = del_list k (map kv es)" using v(2) by (simp add: map_removeAt)
  have rep: "rep (pages ?t') (GLeaf i es')" by (rule leaf_rep_frame [OF p'(1) at ok'])
  have shape: "good d K 0 ?t' [GLeaf i es']" if "es' \<noteq> []"
  proof -
    have "?es \<noteq> []" using v(2) that by auto
    from written_leaf [OF v(2) keys1 ok' len1 this p'(1) at] show ?thesis by (simp add: good_def)
  qed
  have "ext {i} t ?t'"
    by (rule ext_put [OF ext_mono [OF ext_trans [OF ext_retireAll v(7)]]]) (use p'(2) in simp_all)
  moreover have "owned ?t' (gids (GLeaf i es') + R)" using v(5) by simp
  ultimately have "delete_post d K k t (GLeaf i es) R n ?t' (GLeaf i es')"
    using ents rep shape room_le [OF v(6), of n] unfolding delete_post_def
    by (cases "es' = []") (simp_all del: rep.simps)
  then show ?thesis using run by blast
qed

lemma del_list_middle:
  assumes "distinct (map fst (A @ M @ B))" "k \<in> fst ` set M"
  shows "del_list k (A @ M @ B) = A @ del_list k M @ B"
proof -
  have "fst ` set A \<inter> fst ` set M = {}" "fst ` set M \<inter> fst ` set B = {}" using assms(1) by auto
  then have "k \<notin> fst ` set A" "k \<notin> fst ` set B" using assms(2) by blast+
  then show ?thesis by (simp add: del_list_notin)
qed

lemma del_list_child:
  assumes srt: "sorted_by cmp (concat (map gentries us))" and x: "x < length us"
    and k: "k \<in> fst ` set (gentries (us ! x))" and C: "gentries C = del_list k (gentries (us ! x))"
  shows "concat (map gentries (us[x := C])) = del_list k (concat (map gentries us))"
proof -
  note s = gentries_split [OF x]
  have "del_list k (concat (map gentries us)) = concat (map gentries (take x us)) @
      del_list k (gentries (us ! x)) @ concat (map gentries (drop (Suc x) us))"
    unfolding s by (rule del_list_middle [OF sorted_distinct [OF srt, unfolded s] k])
  then show ?thesis using C x by (simp add: upd_conv_take_nth_drop)
qed

lemma route_mem:
  assumes "sorted_by cmp (concat (map gentries ts))" "\<forall>T\<in>set ts. gentries T \<noteq> []" "ts \<noteq> []"
    "k \<in> fst ` set (concat (map gentries ts))"
  shows "k \<in> fst ` set (gentries (ts ! childIndex (map firstkey (tl ts)) k cmp))"
proof -
  have "map_of (concat (map gentries ts)) k \<noteq> None" using assms(4) by (simp add: map_of_eq_None_iff)
  then show ?thesis using map_of_route [OF assms(1-3), of k] by (metis map_of_eq_None_iff)
qed

theorem deleteFrom_ok:
  assumes "compareKeys t = cmp" "degree t = d" "good d K (gheight T) t [T]" "sorted_by cmp (gentries T)"
    "owned t (gids T + R)" "room t (deleteCost d (gheight T) + n)" "roomy d K" "k \<in> fst ` set (gentries T)"
  shows "\<exists>t' T'. deleteFrom t (gid T) k = Some (True, t') \<and> delete_post d K k t T R n t' T'"
  using assms
proof (induction "gheight T" arbitrary: t T R n rule: less_induct)
  case less
  show ?case
  proof (cases T)
    case (GLeaf i es)
    have g: "good d K 0 t [GLeaf i es]" using less.prems(3) GLeaf by simp
    then obtain p where p: "pages t i = Some p" "leafPage p i es" by (auto simp: good_def)
    have "deleteFrom t i k = deleteFromLeaf t p k"
      using p leafPage_kind(1) [OF p(2)] by (subst deleteFrom.simps) simp
    moreover have "k \<in> fst ` set es" using less.prems(8) GLeaf by (simp add: image_image)
    ultimately show ?thesis
      using deleteFromLeaf_ok [of t d K i es p R n k] less.prems g p(1) GLeaf by simp
  next
    case (GBranch i ts)
    define h where "h = gheight T - 1"
    have h: "gheight T = Suc h" using GBranch by (simp add: h_def)
    have g: "good d K (Suc h) t [GBranch i ts]" using less.prems(3) h GBranch by simp
    note B = good_branch [OF g]
    obtain p where p: "pages t i = Some p" using g by (auto simp: good_def)
    note bp = good_branch_page [OF g p] and kp = branchPage_kind [OF good_branch_page(1) [OF g p]]
    have srt: "sorted_by cmp (concat (map gentries ts))" "\<forall>T\<in>set ts. gentries T \<noteq> []"
      using less.prems(4) GBranch goodD(2) [OF B(1)] by auto
    define x where "x = childIndex (map firstkey (tl ts)) k cmp"
    have x: "x < length ts" unfolding x_def by (rule route(1) [OF srt B(2)])
    have own: "owned t (gids (GBranch i ts) + R)" using less.prems(5) GBranch by simp
    have rm: "room t (Suc (Suc (deleteCost d h + (repairCost d + n))))"
      using less.prems(6) h by (simp add: deleteCost_def add_ac)
    obtain us t1 where D: "deleteDescend t p k = Some (map gid us, x, gid (us ! x), t1)"
      "regroup d K h {} t ts (add_mset i R) (deleteCost d h + (repairCost d + n)) t1 us" "length us = length ts"
      "gid (us ! x) \<in> fresh t" "set (gentries (ts ! x)) \<subseteq> set (gentries (us ! x))"
      by (rule deleteDescend_ok [OF less.prems(1) g p own rm less.prems(7,2) x_def x]) (rule that)
    let ?C = "us ! x" and ?j = "gid (us ! x)" and ?M = "sum_list (map gids (others us x))"
    have xu: "x < length us" using x D(3) by simp
    have r1: "good d K h t1 us" "concat (map gentries us) = concat (map gentries ts)"
      "owned t1 (sum_list (map gids us) + add_mset i R)" "room t1 (deleteCost d h + (repairCost d + n))"
      "ext {} t t1" "us \<noteq> []" using D(2) by (simp_all add: regroup_def)
    have C: "gheight ?C = h" using goodD(3) [OF r1(1)] xu by simp
    have gC: "good d K (gheight ?C) t1 [?C]" using good_nth [OF r1(1) xu] C by simp
    have srtC: "sorted_by cmp (gentries ?C)" using sorted_child [of cmp us ?C] srt(1) r1(2) xu by simp
    have "k \<in> fst ` set (concat (map gentries ts))" using less.prems(8) GBranch by simp
    then have "k \<in> fst ` set (gentries (ts ! x))"
      unfolding x_def by (rule route_mem [OF srt B(2)])
    then have kC: "k \<in> fst ` set (gentries ?C)" using D(5) by (rule subsetD [OF image_mono, rotated])
    have ownC: "owned t1 (gids ?C + (?M + add_mset i R))"
      using r1(3) by (simp add: others_gids [OF xu] ac_simps)
    have rmC: "room t1 (deleteCost d (gheight ?C) + (repairCost d + n))" using r1(4) C by simp
    have set1: "compareKeys t1 = cmp" "degree t1 = d"
      using ext_settings(1,12) [OF r1(5)] less.prems(1,2) by simp_all
    have lt: "gheight ?C < gheight T" using C h by simp
    obtain t2 C' where rec: "deleteFrom t1 ?j k = Some (True, t2)"
      "delete_post d K k t1 ?C (?M + add_mset i R) (repairCost d + n) t2 C'"
      using less.hyps [OF lt set1 gC srtC ownC rmC less.prems(7) kC] by blast
    have P: "gid C' = ?j" "gentries C' = del_list k (gentries ?C)" "rep (pages t2) C'"
      "C' = GLeaf ?j [] \<or> good d K h t2 [C']" "owned t2 (gids C' + (?M + add_mset i R))"
      "room t2 (repairCost d + n)" "ext {?j} t1 t2"
      using rec(2) C by (simp_all add: delete_post_def)
    have cj: "count ?M ?j = 0" "i \<noteq> ?j"
      using owned_distinct [OF ownC, of ?j] by (auto simp: gids_grest [of ?C] split: if_splits)
    have sib: "good d K h t2 (others us x)"
      by (rule good_others [OF r1(1,3) P(7) xu]) (use cj(1) in \<open>simp only: singleton_iff not_in_iff\<close>)
    have at1: "pages t1 i = Some p"
      using extD(4) [OF r1(5), of i] owned_not_fresh [OF own, of i] p by simp
    have at2: "pages t2 i = Some p"
      using extD(4) [OF P(7), of i] owned_not_fresh [OF ownC, of i] cj(2) at1 by simp
    have deg2: "degree t2 = d" using ext_settings(1) [OF P(7)] set1(2) by simp
    have len: "length us \<le> Suc (maxKeys d)" using D(3) B(3) by simp
    obtain t' T' where F: "deleteFinish t2 i (map gid us) x ?j = Some (True, t')" "gid T' = i"
      "gentries T' = concat (map gentries (us[x := C']))" "rep (pages t') T'"
      "T' = GLeaf i [] \<or> good d K (Suc h) t' [T']" "owned t' (gids T' + R)" "room t' n" "ext {?j, i} t2 t'"
      using deleteFinish_ok [OF xu len less.prems(7) deg2 sib P(1,3,4,5,6) at2 kp(5,3,6)] by blast
    have "deleteFrom t i k = Some (True, t')"
      using p kp(2) D(1) rec(1) F(1) by (subst deleteFrom.simps) simp
    moreover have "gentries T' = del_list k (gentries T)"
      using F(3) del_list_child [OF _ xu kC P(2)] srt(1) r1(2) GBranch by simp
    moreover have "ext {i} t t'"
      by (rule ext_trans [OF ext_trans [OF ext_mono [OF r1(5)] P(7)] F(8)]) (use D(4) in auto)
    ultimately show ?thesis
      using F(2,4-7) h GBranch by (auto simp: delete_post_def)
  qed
qed

end

end
