(* ===== verification/TreeOps.thy ===== *)
theory TreeOps
  imports Insert Delete LeafLinks
begin

text \<open>
  The operations of a tree (\<^verbatim>\<open>pagebtree/tree.go\<close>, \<^verbatim>\<open>delete.go\<close>) and of a snapshot
  (\<^verbatim>\<open>snapshot.go\<close>): lookup, staged and published mutations, range scans with their prefetch
  hints, and the reader bookkeeping.  \<open>None\<close> is a panic or a call that does not return.

  A Go snapshot shares the tree's page map, so the snapshot operations take that map as an
  argument: the pages of the tree at the time of the call.  A \<^verbatim>\<open>([]byte, bool)\<close> result is an
  option for lookups and a pair for mutations.
\<close>

section \<open>Reading\<close>

definition treeGet :: "Tree \<Rightarrow> key \<Rightarrow> (bytes option \<times> Tree) option" where
  "treeGet t k =
     (if closed t then Some (None, t)
      else do {
        (r, c) \<leftarrow> searchPageWithCache (pages t) (root t) k (compareKeys t) (treeCache t);
        Some (r, t\<lparr>treeCache := c\<rparr>)
      })"

text \<open>
  Range prefetching.  \<open>os_advise\<close> is the operating system's answer to \<^verbatim>\<open>madvise\<close> and to the file
  advice for a byte range of the mapping; the mapping holds the meta pages and \<open>maxPages\<close> pages.
\<close>

definition mmapSize :: "mmapArena \<Rightarrow> int" where
  "mmapSize a = (maxPages a + int metaPageCount) * int PageSize"

definition advisePageRange :: "(PageID \<Rightarrow> PageID \<Rightarrow> bool) \<Rightarrow> mmapArena \<Rightarrow> PageID \<Rightarrow> PageID \<Rightarrow> bool" where
  "advisePageRange os_advise a startPage endPage \<longleftrightarrow>
     (if mmapSize a = 0 then True
      else if startPage < firstTreePageID \<or> endPage < startPage then False
      else if mmapSize a < sint (endPage * of_nat PageSize) then False
      else os_advise startPage endPage)"

definition flushRun :: "(PageID \<Rightarrow> PageID \<Rightarrow> bool) \<Rightarrow> PageID \<Rightarrow> PageID \<times> Tree \<Rightarrow> PageID \<times> Tree" where
  "flushRun os_advise runEnd r = (case r of (runStart, t) \<Rightarrow>
     if runStart = 0 then (runStart, t)
     else (0, if (case arena t of None \<Rightarrow> True | Some a \<Rightarrow> advisePageRange os_advise a runStart runEnd)
              then t\<lparr>rangePrefetchHints := rangePrefetchHints t + 1,
                     rangePrefetchPages := rangePrefetchPages t + sint (runEnd - runStart)\<rparr>
              else t))"

fun prefetchRun :: "(PageID \<Rightarrow> PageID \<Rightarrow> bool) \<Rightarrow> PageID list \<Rightarrow> PageID set \<Rightarrow> PageID \<times> Tree \<Rightarrow>
    PageID set \<times> PageID \<times> Tree" where
  "prefetchRun os_advise [] advised r = (advised, r)"
| "prefetchRun os_advise (i # is) advised r =
     (if i \<in> advised then prefetchRun os_advise is advised (flushRun os_advise i r)
      else prefetchRun os_advise is (insert i advised) (if fst r = 0 then (i, snd r) else r))"

definition pageRange :: "PageID \<Rightarrow> PageID \<Rightarrow> PageID list" where
  "pageRange a b = map of_nat [unat a..<unat b]"

definition rangePrefetcher :: "(PageID \<Rightarrow> PageID \<Rightarrow> bool) \<Rightarrow> Tree \<Rightarrow>
    ('s \<times> PageID set \<times> Tree \<Rightarrow> PageID \<Rightarrow> PageID \<Rightarrow> 's \<times> PageID set \<times> Tree) option" where
  "rangePrefetcher os_advise t =
     (if arena t = None \<or> rangePrefetchLeafWindow t \<le> 0 then None
      else Some (\<lambda>(s, advised, t) startPage endPage.
        if endPage \<le> startPage then (s, advised, t)
        else let (advised', r) = prefetchRun os_advise (pageRange startPage endPage) advised (0, t)
             in (s, advised', snd (flushRun os_advise endPage r))))"

text \<open>The visitor of a scan that also carries the prefetcher's state.\<close>

definition withHints :: "'s visitor \<Rightarrow> ('s \<times> PageID set \<times> Tree) visitor" where
  "withHints visit = (\<lambda>(s, w) k v. let (s', ok) = visit s k v in ((s', w), ok))"

text \<open>
  The three scans differ only in what they call: the linked scan when no reader is active, and
  the recursive scan with readers, or after a linked scan that met a page that is no leaf.
\<close>

definition rangeWith ::
  "Tree \<Rightarrow> (('s \<times> PageID set \<times> Tree) \<Rightarrow> (('s \<times> PageID set \<times> Tree) \<times> bool) option) \<Rightarrow>
   ('s \<Rightarrow> ('s \<times> bool) option) \<Rightarrow> 's \<Rightarrow> ('s \<times> Tree) option" where
  "rangeWith t linkedScan recursiveScan s =
     (if closed t then Some (s, t)
      else if activeReaderCount t = 0 then do {
        ((s', _, t'), ok) \<leftarrow> linkedScan (s, {}, t);
        (if ok then Some (s', t')
         else do { (s'', _) \<leftarrow> recursiveScan s'; Some (s'', t') })
      }
      else do { (s', _) \<leftarrow> recursiveScan s; Some (s', t) })"

definition treeRange ::
  "(PageID \<Rightarrow> PageID \<Rightarrow> bool) \<Rightarrow> Tree \<Rightarrow> 's visitor \<Rightarrow> 's \<Rightarrow> ('s \<times> Tree) option" where
  "treeRange os_advise t visit s =
     rangeWith t
       (rangeLinkedLeaves (pages t) (root t) (compareKeys t) (rangePrefetchLeafWindow t)
          (rangePrefetcher os_advise t) (withHints visit))
       (rangePage (pages t) (root t) (compareKeys t) visit) s"

definition treeRangeFrom ::
  "(PageID \<Rightarrow> PageID \<Rightarrow> bool) \<Rightarrow> Tree \<Rightarrow> key \<Rightarrow> 's visitor \<Rightarrow> 's \<Rightarrow> ('s \<times> Tree) option" where
  "treeRangeFrom os_advise t start visit s =
     rangeWith t
       (rangeLinkedLeavesFrom (pages t) (root t) start (compareKeys t) (rangePrefetchLeafWindow t)
          (rangePrefetcher os_advise t) (withHints visit))
       (rangePageFrom (pages t) (root t) start (compareKeys t) visit) s"

definition treeRangeBetween ::
  "(PageID \<Rightarrow> PageID \<Rightarrow> bool) \<Rightarrow> Tree \<Rightarrow> key \<Rightarrow> key \<Rightarrow> 's visitor \<Rightarrow> 's \<Rightarrow> ('s \<times> Tree) option" where
  "treeRangeBetween os_advise t start bound visit s =
     rangeWith t
       (rangeLinkedLeavesBetween (pages t) (root t) start bound (compareKeys t)
          (rangePrefetchLeafWindow t) (rangePrefetcher os_advise t) (withHints visit))
       (rangePageBetween (pages t) (root t) start bound (compareKeys t) visit) s"

section \<open>Writing\<close>

text \<open>The result of a staged mutation: old value, whether it existed, whether the tree changed.\<close>

type_synonym staged = "bytes \<times> bool \<times> bool"

definition putFirst :: "Tree \<Rightarrow> key \<Rightarrow> bytes \<Rightarrow> (Tree \<times> staged) option" where
  "putFirst t k v = do {
     (i, t1) \<leftarrow> allocPage t;
     (leaf, t2) \<leftarrow> treeNewPage t1 i flagLeaf;
     (leaf, t3) \<leftarrow> writeLeafEntries t2 leaf [newEntry k v];
     Some ((putPage t3 leaf)\<lparr>root := i, treeLen := 1\<rparr>, [], False, True)
   }"

definition growRoot :: "Tree \<Rightarrow> PageID \<Rightarrow> splitResult \<Rightarrow> (PageID \<times> Tree) option" where
  "growRoot t rootID sr = do {
     (newRootID, t1) \<leftarrow> allocPage t;
     (newRoot, t2) \<leftarrow> treeNewPage t1 newRootID flagBranch;
     newRoot \<leftarrow> mustWriteBranchParts newRoot [separator sr] [rootID, right sr];
     Some (newRootID, putPage t2 newRoot)
   }"

definition putStaged :: "Tree \<Rightarrow> key \<Rightarrow> bytes \<Rightarrow> (Tree \<times> staged) option" where
  "putStaged t k v =
     (if closed t \<or> readOnly t then Some (t, [], False, False)
      else if root t = 0 then putFirst t k v
      else do {
        (rootID, t1) \<leftarrow> copyPage t (root t);
        (t2, old, replaced, split) \<leftarrow> treeInsert t1 rootID k v;
        (rootID, t3) \<leftarrow> (case split of None \<Rightarrow> Some (rootID, t2) | Some sr \<Rightarrow> growRoot t2 rootID sr);
        Some (t3\<lparr>root := rootID, treeLen := (if replaced then treeLen t3 else treeLen t3 + 1)\<rparr>,
              old, replaced, True)
      })"

definition deleteStaged :: "Tree \<Rightarrow> key \<Rightarrow> (Tree \<times> staged) option" where
  "deleteStaged t k =
     (if closed t \<or> readOnly t \<or> root t = 0 then Some (t, [], False, False)
      else do {
        (found, t) \<leftarrow> treeGet t k;
        (case found of
           None \<Rightarrow> Some (t, [], False, False)
         | Some old \<Rightarrow> do {
             (rootID, t1) \<leftarrow> copyPage t (root t);
             (ok, t2) \<leftarrow> deleteFrom t1 rootID k;
             (if \<not> ok then Some (t2, [], False, False)
              else do {
                (rootID, t3) \<leftarrow> collapseRoot t2 rootID;
                Some (t3\<lparr>root := rootID, treeLen := treeLen t3 - 1\<rparr>, old, True, True)
              })
           })
      })"

definition publishStagedMutation :: "Tree \<Rightarrow> Tree option" where
  "publishStagedMutation t = relinkLeaves (reclaimRetiredPages (t\<lparr>revision := revision t + 1\<rparr>))"

definition publishIf :: "Tree \<times> staged \<Rightarrow> (Tree \<times> bytes \<times> bool) option" where
  "publishIf r = (case r of (t, old, existed, changed) \<Rightarrow> do {
     t' \<leftarrow> (if changed then publishStagedMutation t else Some t);
     Some (t', old, existed)
   })"

definition treePut :: "Tree \<Rightarrow> key \<Rightarrow> bytes \<Rightarrow> (Tree \<times> bytes \<times> bool) option" where
  "treePut t k v = do { r \<leftarrow> putStaged t k v; publishIf r }"

definition treeDelete :: "Tree \<Rightarrow> key \<Rightarrow> (Tree \<times> bytes \<times> bool) option" where
  "treeDelete t k = do { r \<leftarrow> deleteStaged t k; publishIf r }"

section \<open>Snapshots\<close>

record Snapshot =
  sn_hasTree :: bool
  sn_root :: PageID
  sn_length :: int
  sn_revision :: u64
  sn_degree :: nat
  sn_keyComparator :: "comparator option"
  sn_closed :: bool

definition treeSnapshot :: "Tree \<Rightarrow> Snapshot \<times> Tree" where
  "treeSnapshot t =
     (if closed t then
        (\<lparr>sn_hasTree = False, sn_root = 0, sn_length = 0, sn_revision = 0, sn_degree = 0,
          sn_keyComparator = None, sn_closed = True\<rparr>, t)
      else
        (\<lparr>sn_hasTree = True, sn_root = root t, sn_length = treeLen t, sn_revision = revision t,
          sn_degree = degree t, sn_keyComparator = Some (compareKeys t), sn_closed = False\<rparr>,
         beginRead t (revision t)))"

definition snapCompareKeys :: "Snapshot \<Rightarrow> comparator" where
  "snapCompareKeys s = (case sn_keyComparator s of None \<Rightarrow> compareStrings | Some c \<Rightarrow> c)"

definition snapGet :: "pagemap \<Rightarrow> Snapshot \<Rightarrow> key \<Rightarrow> bytes option option" where
  "snapGet pgs s k =
     (if sn_closed s then Some None else searchPage pgs (sn_root s) k (snapCompareKeys s))"

definition snapRange :: "pagemap \<Rightarrow> Snapshot \<Rightarrow> 's visitor \<Rightarrow> 's \<Rightarrow> 's option" where
  "snapRange pgs s visit x =
     (if sn_closed s then Some x
      else map_option fst (rangePage pgs (sn_root s) (snapCompareKeys s) visit x))"

definition snapRangeFrom :: "pagemap \<Rightarrow> Snapshot \<Rightarrow> key \<Rightarrow> 's visitor \<Rightarrow> 's \<Rightarrow> 's option" where
  "snapRangeFrom pgs s start visit x =
     (if sn_closed s then Some x
      else map_option fst (rangePageFrom pgs (sn_root s) start (snapCompareKeys s) visit x))"

definition snapRangeBetween :: "pagemap \<Rightarrow> Snapshot \<Rightarrow> key \<Rightarrow> key \<Rightarrow> 's visitor \<Rightarrow> 's \<Rightarrow> 's option" where
  "snapRangeBetween pgs s start bound visit x =
     (if sn_closed s then Some x
      else map_option fst (rangePageBetween pgs (sn_root s) start bound (snapCompareKeys s) visit x))"

definition snapClose :: "Snapshot \<Rightarrow> Tree \<Rightarrow> (Snapshot \<times> Tree) option" where
  "snapClose s t =
     (if sn_closed s then Some (s, t)
      else
        let s' = s\<lparr>sn_closed := True\<rparr> in
        if \<not> sn_hasTree s then Some (s', t)
        else
          let t1 = endRead t (sn_revision s) in
          if closed t1 \<or> readOnly t1 then Some (s', t1)
          else map_option (\<lambda>t2. (s', t2)) (relinkLeaves t1))"

end
