(* ===== verification/StagedOps.thy ===== *)
theory StagedOps
  imports TreeOps InsertCorrect DeleteCorrect
begin

text \<open>
  A staged mutation is correct: from a root that represents a map, \<^verbatim>\<open>putStaged\<close> and
  \<^verbatim>\<open>deleteStaged\<close> reach a root that represents the updated map, own exactly the pages the new
  root uses, and leave every page of the old root as it was.
\<close>

section \<open>The version a tree holds\<close>

text \<open>No root page stands for the empty map.\<close>

definition entsOf :: "gtree option \<Rightarrow> (key \<times> bytes) list" where
  "entsOf To = (case To of None \<Rightarrow> [] | Some T \<Rightarrow> gentries T)"

definition idsOf :: "gtree option \<Rightarrow> PageID multiset" where
  "idsOf To = (case To of None \<Rightarrow> {#} | Some T \<Rightarrow> gids T)"

definition rootOf :: "gtree option \<Rightarrow> PageID" where
  "rootOf To = (case To of None \<Rightarrow> 0 | Some T \<Rightarrow> gid T)"

definition heightOf :: "gtree option \<Rightarrow> nat" where
  "heightOf To = (case To of None \<Rightarrow> 0 | Some T \<Rightarrow> Suc (gheight T))"

lemmas versionOf_defs = entsOf_def idsOf_def rootOf_def heightOf_def

lemma versionOf_simps [simp]:
  "entsOf None = []" "entsOf (Some T) = gentries T" "idsOf None = {#}" "idsOf (Some T) = gids T"
  "rootOf None = 0" "rootOf (Some T) = gid T" "heightOf None = 0" "heightOf (Some T) = Suc (gheight T)"
  by (simp_all add: versionOf_defs)

definition repOf :: "comparator \<Rightarrow> nat \<Rightarrow> nat \<Rightarrow> pagemap \<Rightarrow> gtree option \<Rightarrow> bool" where
  "repOf cmp d K pgs To \<longleftrightarrow> (\<forall>T. To = Some T \<longrightarrow>
     rep pgs T \<and> shape d K T \<and> balanced T \<and> sorted_by cmp (gentries T))"

lemma repOf_simps [simp]:
  "repOf cmp d K pgs None"
  "repOf cmp d K pgs (Some T) \<longleftrightarrow> rep pgs T \<and> shape d K T \<and> balanced T \<and> sorted_by cmp (gentries T)"
  by (simp_all add: repOf_def)

definition version :: "comparator \<Rightarrow> nat \<Rightarrow> Tree \<Rightarrow> gtree option \<Rightarrow> bool" where
  "version cmp K t To \<longleftrightarrow> compareKeys t = cmp \<and> repOf cmp (degree t) K (pages t) To \<and>
     root t = rootOf To \<and> treeLen t = int (length (entsOf To))"

text \<open>
  What staged mutations do to the rest of the state: only fresh pages change, the settings stay,
  pages are only added to the retired list.  The root, the length and the branch cache move.
\<close>

definition grows :: "Tree \<Rightarrow> Tree \<Rightarrow> bool" where
  "grows t t' \<longleftrightarrow> ext {} t (t'\<lparr>root := root t, treeLen := treeLen t, treeCache := treeCache t\<rparr>)"

lemma grows_refl [simp]: "grows t t"
  by (simp add: grows_def)

lemma settings_eq:
  "settings t = settings t' \<longleftrightarrow> degree t = degree t' \<and> keyComparator t = keyComparator t' \<and>
     revision t = revision t' \<and> activeReaders t = activeReaders t' \<and> closed t = closed t' \<and>
     readOnly t = readOnly t' \<and> treeCache t = treeCache t' \<and>
     minRepairPageFillPercent t = minRepairPageFillPercent t' \<and> root t = root t' \<and>
     treeLen t = treeLen t' \<and> base t = base t'"
  by (auto simp: settings_def)

lemma base_update [simp]:
  "base (t\<lparr>root := r\<rparr>) = base t" "base (t\<lparr>treeLen := l\<rparr>) = base t" "base (t\<lparr>treeCache := c\<rparr>) = base t"
  "base (t\<lparr>revision := v\<rparr>) = base t" "base (t\<lparr>activeReaders := ar\<rparr>) = base t"
  "base (t\<lparr>free := fr\<rparr>) = base t" "base (t\<lparr>retired := rt\<rparr>) = base t"
  by (simp_all add: base_def)

lemma grows_iff:
  "grows t t' \<longleftrightarrow> degree t' = degree t \<and> keyComparator t' = keyComparator t \<and> revision t' = revision t \<and>
     activeReaders t' = activeReaders t \<and> closed t' = closed t \<and> readOnly t' = readOnly t \<and>
     minRepairPageFillPercent t' = minRepairPageFillPercent t \<and> base t' = base t \<and>
     nextPage t \<le> nextPage t' \<and> set (free t') \<subseteq> set (free t) \<and>
     (\<forall>i. i \<notin> fresh t \<longrightarrow> pages t' i = pages t i) \<and>
     (\<exists>is. retired t' = retired t @ map (\<lambda>i. \<lparr>rp_id = i, rp_revision = revision t\<rparr>) is)"
  by (auto simp: grows_def ext_def settings_eq)

lemma ext_grows: "ext {} t t' \<Longrightarrow> grows t t'"
  by (auto simp: grows_iff ext_def settings_eq)

lemma growsD:
  assumes "grows t t'"
  shows "degree t' = degree t" "compareKeys t' = compareKeys t" "revision t' = revision t"
    "activeReaders t' = activeReaders t" "closed t' = closed t" "readOnly t' = readOnly t"
    "base t' = base t" "nextPage t \<le> nextPage t'" "set (free t') \<subseteq> set (free t)"
    "i \<notin> fresh t \<Longrightarrow> pages t' i = pages t i" "fresh t' \<subseteq> fresh t"
  using assms by (auto simp: grows_iff fresh_def compareKeys_def)

lemma grows_trans: "grows t t1 \<Longrightarrow> grows t1 t2 \<Longrightarrow> grows t t2"
  unfolding grows_def
proof -
  let ?u = "\<lambda>a b. a\<lparr>root := root b, treeLen := treeLen b, treeCache := treeCache b\<rparr>"
  assume a: "ext {} t (?u t1 t)" and b: "ext {} t1 (?u t2 t1)"
  have "ext {} (?u t1 t) (?u t2 t)"
    using b by (auto simp: ext_def settings_eq fresh_def)
  from ext_trans [OF a this] show "ext {} t (?u t2 t)" by simp
qed

lemma owned_update [simp]:
  "owned (t\<lparr>root := r\<rparr>) M = owned t M" "owned (t\<lparr>treeLen := l\<rparr>) M = owned t M"
  "owned (t\<lparr>treeCache := c\<rparr>) M = owned t M" "owned (t\<lparr>revision := v\<rparr>) M = owned t M"
  "owned (t\<lparr>activeReaders := ar\<rparr>) M = owned t M"
  by (simp_all add: owned_def base_def)

lemma room_update [simp]:
  "room (t\<lparr>root := r\<rparr>) n = room t n" "room (t\<lparr>treeLen := l\<rparr>) n = room t n"
  "room (t\<lparr>treeCache := c\<rparr>) n = room t n" "room (t\<lparr>revision := v\<rparr>) n = room t n"
  "room (t\<lparr>activeReaders := ar\<rparr>) n = room t n" "room (t\<lparr>free := fr\<rparr>) n = room t n"
  "room (t\<lparr>retired := rt\<rparr>) n = room t n"
  by (simp_all add: room_def base_def split: option.split)

lemma grows_update [simp]:
  "grows t (t'\<lparr>root := r\<rparr>) = grows t t'" "grows t (t'\<lparr>treeLen := l\<rparr>) = grows t t'"
  "grows t (t'\<lparr>treeCache := c\<rparr>) = grows t t'"
  by (simp_all add: grows_iff)

lemma compareKeys_update [simp]:
  "compareKeys (t\<lparr>root := r\<rparr>) = compareKeys t" "compareKeys (t\<lparr>treeLen := l\<rparr>) = compareKeys t"
  "compareKeys (t\<lparr>treeCache := c\<rparr>) = compareKeys t" "compareKeys (t\<lparr>revision := v\<rparr>) = compareKeys t"
  "compareKeys (t\<lparr>activeReaders := ar\<rparr>) = compareKeys t" "compareKeys (t\<lparr>free := fr\<rparr>) = compareKeys t"
  "compareKeys (t\<lparr>retired := rt\<rparr>) = compareKeys t"
  by (simp_all add: compareKeys_def)

section \<open>The root after a deletion\<close>

lemma retirePage_ids: "pages (retirePage t i) = pages t" by simp

lemma collapseRoot_ok:
  "good d K h t [T] \<or> (T = GLeaf i [] \<and> rep (pages t) T) \<Longrightarrow> owned t (gids T + R) \<Longrightarrow> room t n \<Longrightarrow>
     \<exists>t' To. collapseRoot t (gid T) = Some (rootOf To, t') \<and> pages t' = pages t \<and>
       (\<forall>T'. To = Some T' \<longrightarrow> rep (pages t) T' \<and> shape d K T' \<and> balanced T') \<and>
       entsOf To = gentries T \<and> owned t' (idsOf To + R) \<and> room t' n \<and> ext {} t t' \<and>
       heightOf To \<le> Suc (gheight T)"
proof (induction T arbitrary: t h i)
  case (GLeaf j es)
  then have rep: "rep (pages t) (GLeaf j es)" by (auto simp: good_def)
  then obtain p where p: "pages t j = Some p" "leafPage p j es" by auto
  note k = leafPage_kind [OF p(2)]
  show ?case
  proof (cases "es = []")
    case True
    then have "collapseRoot t (gid (GLeaf j es)) = Some (0, retirePage t j)"
      using p(1) k by (subst collapseRoot.simps) (simp add: unat_eq_zero)
    then show ?thesis
      using True GLeaf.prems ext_retirePage [of "{}" t j]
      by (intro exI [of _ "retirePage t j"] exI [of _ None]) (simp add: owned_retirePage)
  next
    case False
    then have "slotCount p \<noteq> 0" using k(4) by auto
    then have "collapseRoot t (gid (GLeaf j es)) = Some (j, t)"
      using p(1) k by (subst collapseRoot.simps) simp
    then show ?thesis
      using False GLeaf.prems
      by (intro exI [of _ t] exI [of _ "Some (GLeaf j es)"]) (auto simp: good_def)
  qed
next
  case (GBranch j ts)
  have g: "good d K h t [GBranch j ts]" using GBranch.prems(1) by auto
  have T: "rep (pages t) (GBranch j ts)" "shape d K (GBranch j ts)" "balanced (GBranch j ts)"
    using goodD(1,2) [OF g] goodD(4) [OF g, of "GBranch j ts"]
    by (simp_all del: rep.simps shape.simps balanced.simps)
  then obtain p where p: "pages t j = Some p" "branchPage p j (map firstkey (tl ts)) (map gid ts)"
    by auto
  note k = branchPage_kind [OF p(2)] and cs = childIDs_branchPage [OF p(2)]
  have ne: "ts \<noteq> []" using T(2) by simp
  show ?case
  proof (cases "length ts = 1")
    case True
    then obtain C where ts: "ts = [C]" by (cases ts) auto
    have gC: "good d K (gheight C) (retirePage t j) [C]"
      using T(1,2) ts balanced_child [OF T(3), of C] by (simp add: good_def del: balanced.simps)
    have own: "owned (retirePage t j) (gids C + R)" using GBranch.prems(2) ts
      by (simp add: owned_retirePage)
    have room: "room (retirePage t j) n" using GBranch.prems(3) by simp
    obtain t' To where r: "collapseRoot (retirePage t j) (gid C) = Some (rootOf To, t')"
      "pages t' = pages t" "\<forall>T'. To = Some T' \<longrightarrow> rep (pages t) T' \<and> shape d K T' \<and> balanced T'"
      "entsOf To = gentries C" "owned t' (idsOf To + R)" "room t' n" "ext {} (retirePage t j) t'"
      "heightOf To \<le> Suc (gheight C)"
      using GBranch.IH [of C "gheight C" "retirePage t j"] gC own room ts by auto
    have "collapseRoot t (gid (GBranch j ts)) = collapseRoot (retirePage t j) (gid C)"
      using p(1) k cs ts by (subst collapseRoot.simps) simp
    moreover have "ext {} t t'" by (rule ext_trans [OF ext_retirePage r(7)]) simp
    ultimately show ?thesis using r ts by auto
  next
    case False
    then obtain c1 c2 cs' where "map gid ts = c1 # c2 # cs'"
      using ne by (cases ts; cases "tl ts") auto
    then have "collapseRoot t (gid (GBranch j ts)) = Some (j, t)"
      using p(1) k cs by (subst collapseRoot.simps) simp
    then show ?thesis using GBranch.prems(2,3) T
      by (intro exI [of _ t] exI [of _ "Some (GBranch j ts)"]) (simp del: rep.simps shape.simps balanced.simps)
  qed
qed

section \<open>Insertion\<close>

definition putCost :: "nat \<Rightarrow> bytes \<Rightarrow> nat \<Rightarrow> nat" where
  "putCost d v h = leafCost d v + 2 * h + 2"

definition putResult :: "key \<Rightarrow> (key \<times> bytes) list \<Rightarrow> bytes \<times> bool" where
  "putResult k es = (case map_of es k of None \<Rightarrow> ([], False) | Some w \<Rightarrow> (w, True))"

lemma growRoot_ok:
  assumes T: "rep (pages t) T1" "shape d K T1" "balanced T1" "rep (pages t) T2" "shape d K T2"
      "balanced T2" "gheight T1 = gheight T2"
    and sr: "separator sr = firstkey T2" "right sr = gid T2"
    and own: "owned t (gids T1 + gids T2 + R)" and room: "room t (Suc n)" and r: "roomy d K"
  obtains i t' where "growRoot t (gid T1) sr = Some (i, t')" "rep (pages t') (GBranch i [T1, T2])"
    "shape d K (GBranch i [T1, T2])" "balanced (GBranch i [T1, T2])"
    "owned t' (gids (GBranch i [T1, T2]) + R)" "room t' n" "ext {} t t'"
proof -
  obtain i t1 where a: "allocPage t = Some (i, t1)" "owned t1 (add_mset i (gids T1 + gids T2 + R))"
    "room t1 n" "ext {} t t1" "i \<in> fresh t" "i \<notin># gids T1 + gids T2 + R" "i \<noteq> 0"
    "pages t1 = pages t" "retired t1 = retired t" "pageable t1 i"
    by (rule allocPage_ok [OF own room])
  obtain ar where b: "treeNewPage t1 i flagBranch = Some (newPage i flagBranch, t1\<lparr>arena := ar\<rparr>)"
    "\<And>M. owned (t1\<lparr>arena := ar\<rparr>) M = owned t1 M" "\<And>n. room (t1\<lparr>arena := ar\<rparr>) n = room t1 n"
    "\<And>t0 X. ext X t0 (t1\<lparr>arena := ar\<rparr>) = ext X t0 t1"
    by (rule treeNewPage_ok [OF a(10), of flagBranch]) (rule that)
  let ?t2 = "t1\<lparr>arena := ar\<rparr>"
  have two: "length [T1, T2] \<le> Suc (maxKeys d)" using r by (auto simp: roomy_def maxKeys_def)
  have kind: "wf_page (newPage i flagBranch)" "pid (newPage i flagBranch) = i"
    using branchPage_newPage_kind [OF a(7)] by auto
  have sh: "\<forall>T\<in>set [T1, T2]. shape d K T" and rp: "\<forall>T\<in>set [T1, T2]. rep (pages ?t2) T"
    using T a(8) by auto
  have own2: "owned ?t2 (add_mset i (sum_list (map gids [T1, T2])) + R)"
    using a(2) b(2) by (simp add: add.assoc)
  obtain p' where w: "mustWriteBranchParts (newPage i flagBranch) (map firstkey (tl [T1, T2])) (map gid [T1, T2]) = Some p'"
    "pid p' = i" "rep (pages (putPage ?t2 p')) (GBranch i [T1, T2])" "ext {i} ?t2 (putPage ?t2 p')"
    by (rule write_node [OF kind a(7) r _ two sh rp own2]) (rule list.discI, rule refl, rule that)
  have e: "ext {} t (putPage ?t2 p')" by (rule ext_put) (use b(4) a(4,5) w(2) in auto)
  have shp: "shape d K (GBranch i [T1, T2])" using T(2,5) two by simp
  have "gheight (GBranch i [T1, T2]) = Suc (gheight T2) \<and> balanced (GBranch i [T1, T2])"
  proof (rule gheight_branchI)
    show "gheight T = gheight T2 \<and> balanced T" if "T \<in> set [T1, T2]" for T
      using that T(3,6,7) by (metis empty_iff list.set(1) set_ConsD)
  qed simp
  then have bal: "balanced (GBranch i [T1, T2])" by (rule conjunct2)
  have own': "owned (putPage ?t2 p') (gids (GBranch i [T1, T2]) + R)" using own2 by simp
  have run: "growRoot t (gid T1) sr = Some (i, putPage ?t2 p')"
    using a(1) b(1) w(1) sr by (simp add: growRoot_def)
  have room': "room (putPage ?t2 p') n" using a(3) b(3) by simp
  show thesis by (rule that [OF run w(3) shp bal own' room' e])
qed

context key_comparator
begin

lemma putFirst_ok:
  assumes own: "owned t R" and room: "room t (putCost (degree t) v 0 + n)"
    and r: "roomy (degree t) K" and k: "length k \<le> K" and v: "length v < 2 ^ 63" and c: "compareKeys t = cmp"
  shows "\<exists>t' T'. putFirst t k v = Some (t', [], False, True) \<and> version cmp K t' (Some T') \<and>
    gentries T' = [(k, v)] \<and> owned t' (gids T' + R) \<and> room t' n \<and> grows t t' \<and> treeCache t' = treeCache t \<and>
    gheight T' = 0"
proof -
  let ?m = "chainPages (length v) + n"
  have room': "room t (Suc ?m)" by (rule room_le [OF room]) (simp add: putCost_def leafCost_def)
  obtain i t1 where a: "allocPage t = Some (i, t1)" "owned t1 (add_mset i R)" "room t1 ?m" "ext {} t t1"
    "i \<in> fresh t" "i \<notin># R" "i \<noteq> 0" "pages t1 = pages t" "retired t1 = retired t" "pageable t1 i"
    by (rule allocPage_ok [OF own room'])
  obtain ar where b: "treeNewPage t1 i flagLeaf = Some (newPage i flagLeaf, t1\<lparr>arena := ar\<rparr>)"
    "\<And>M. owned (t1\<lparr>arena := ar\<rparr>) M = owned t1 M" "\<And>n. room (t1\<lparr>arena := ar\<rparr>) n = room t1 n"
    "\<And>t0 X. ext X t0 (t1\<lparr>arena := ar\<rparr>) = ext X t0 t1"
    by (rule treeNewPage_ok [OF a(10), of flagLeaf]) (rule that)
  let ?t2 = "t1\<lparr>arena := ar\<rparr>" and ?es = "[(k, v, [])] :: gentry list" and ?p = "newPage i flagLeaf"
  have pend: "list_all2 pend [newEntry k v] ?es" by (simp add: pend_def)
  have own2: "owned ?t2 (chainIDs ?es + add_mset i R)" using a(2) b(2) by simp
  have room2: "room ?t2 (wcost ?es + n)" using a(3) b(3) by simp
  have ok: "entries_ok ?t2 ?es" using v by (simp add: entry_ok_def)
  have keys: "\<forall>e\<in>set ?es. length (fst e) \<le> K" using k by simp
  have len: "length ?es \<le> maxKeys (degree t)" using r by (auto simp: roomy_def maxKeys_def)
  have pid0: "pid ?p \<noteq> 0" using a(7) by simp
  have wf: "wf_page ?p" using branchPage_newPage_kind [OF a(7)] by blast
  obtain es' p' t3 where w: "writeLeafEntries ?t2 ?p [newEntry k v] = Some (p', t3)"
    "map kv es' = map kv ?es" "leafPage p' (pid ?p) es'" "nextLeaf p' = nextLeaf ?p"
    "owned t3 (chainIDs es' + add_mset i R)" "room t3 (wcost es' + n)" "ext {} ?t2 t3" "entries_ok t3 es'"
    by (rule writeLeafEntries_ok [OF pend wf pid0 own2 room2 ok keys len r])
  have lp: "leafPage p' i es'" "pid p' = i" using w(3) leafPage_kind(3) [OF w(3)] by simp_all
  let ?t4 = "putPage t3 p'"
  have i: "count (chainIDs es') i = 0" using owned_distinct [OF w(5), of i] by simp
  have ok4: "entries_ok ?t4 es'"
    by (intro entries_ok_ext [OF w(8,5) ext_putPage [of p' "{i}"]]) (use lp(2) i in \<open>auto simp: not_in_iff\<close>)
  have at: "pages ?t4 i = Some p'" using lp(2) by simp
  have rs: "rep (pages ?t4) (GLeaf i es')" "shape (degree t) K (GLeaf i es')" "length es' = length ?es"
    using written_leaf [OF w(2) keys ok4 len _ lp(1) at] by auto
  have room4: "room ?t4 n" using room_le [OF w(6)] by simp
  have "ext {} t t3" by (rule ext_trans [OF _ w(7)]) (use b(4) a(4) in auto)
  then have e4: "ext {} t ?t4" by (rule ext_put) (use lp(2) a(5) in auto)
  note g = growsD [OF ext_grows [OF e4]]
  have "version cmp K (?t4\<lparr>root := i, treeLen := 1\<rparr>) (Some (GLeaf i es'))"
    using rs w(2) g(1,2) c by (simp add: version_def)
  moreover have "putFirst t k v = Some (?t4\<lparr>root := i, treeLen := 1\<rparr>, [], False, True)"
    using a(1) b(1) w(1) by (simp add: putFirst_def)
  ultimately show ?thesis using w(2,5) room4 ext_grows [OF e4] ext_settings(7) [OF e4]
    by (intro exI [of _ "?t4\<lparr>root := i, treeLen := 1\<rparr>"] exI [of _ "GLeaf i es'"]) simp
qed

end

text \<open>The copied root: the same tree under a fresh root id.\<close>

lemma copyRoot_ok:
  assumes T: "rep (pages t) T" and own: "owned t (gids T + R)" and room: "room t (Suc n)"
  obtains j t1 where "copyPage t (gid T) = Some (j, t1)" "rep (pages t1) (setgid j T)"
    "owned t1 (gids (setgid j T) + R)" "room t1 n" "ext {} t t1" "j \<in> fresh t"
proof -
  obtain p where p: "pages t (gid T) = Some p" using rep_root [OF T] by blast
  have own0: "owned t (add_mset (gid T) (grest T + R))" using own by (simp add: gids_grest [of T])
  obtain j t1 where c: "copyPage t (gid T) = Some (j, t1)" "owned t1 (add_mset j (grest T + R))" "room t1 n"
    "ext {} t t1" "pages t1 = (pages t)(j \<mapsto> p\<lparr>pid := j\<rparr>)" "j \<in> fresh t" "j \<noteq> 0"
    "j \<notin># add_mset (gid T) (grest T + R)"
    by (rule copyPage_ok [OF own0 room p])
  have "rep (pages t1) (setgid j T)"
    by (rule rep_setgid [OF T p]) (use c(5,7,8) in auto)
  then show thesis using that [OF c(1)] c by simp
qed

context key_comparator
begin

lemma putNext_ok:
  assumes T: "version cmp K t (Some T)" and own: "owned t (gids T + R)"
    and room: "room t (putCost (degree t) v (Suc (gheight T)) + n)" and run: "\<not> closed t" "\<not> readOnly t"
    and r: "roomy (degree t) K" and k: "length k \<le> K" and v: "length v < 2 ^ 63"
  shows "\<exists>t' old existed T'. putStaged t k v = Some (t', old, existed, True) \<and>
    (old, existed) = putResult k (gentries T) \<and> version cmp K t' (Some T') \<and>
    gentries T' = put_list cmp k v (gentries T) \<and> owned t' (gids T' + R) \<and> room t' n \<and> grows t t' \<and> treeCache t' = treeCache t \<and>
    gheight T' \<le> Suc (gheight T) \<and> (kidsfilled (degree t) T \<longrightarrow> kidsfilled (degree t) T')"
proof -
  note V = T [unfolded version_def]
  have rep: "rep (pages t) T" and root: "root t = gid T" and len: "treeLen t = int (length (gentries T))"
    and shp: "shape (degree t) K T" and bal: "balanced T" and srt: "sorted_by cmp (gentries T)"
    using V by simp_all
  have nz: "gid T \<noteq> 0" by (rule gid_nonzero [OF rep])
  let ?d = "degree t" and ?m = "insertCost (degree t) v T + Suc n"
  have room1: "room t (Suc ?m)" by (rule room_le [OF room]) (simp add: putCost_def insertCost_def)
  obtain j t1 where c: "copyPage t (gid T) = Some (j, t1)" "rep (pages t1) (setgid j T)"
    "owned t1 (gids (setgid j T) + R)" "room t1 ?m" "ext {} t t1" "j \<in> fresh t"
    by (rule copyRoot_ok [OF rep own room1])
  let ?J = "setgid j T"
  note S1 = ext_settings [OF c(5)]
  have pre: "compareKeys t1 = cmp" "degree t1 = ?d" "shape ?d K ?J" "balanced ?J" "sorted_by cmp (gentries ?J)"
    "room t1 (insertCost ?d v ?J + Suc n)"
    using V S1 shp bal srt c(4) by (simp_all add: insertCost_def)
  obtain res Ts where ins: "treeInsert t1 (gid ?J) k v = Some res" "insert_post cmp ?d K k v t1 ?J R (Suc n) res Ts"
    using treeInsert_ok [OF pre(1,2) c(2) pre(3-5) c(3) pre(6) r k v] by blast
  obtain t2 old existed split where res: "res = (t2, old, existed, split)" by (cases res)
  note post = ins(2) [unfolded insert_post_def res prod.case]
  have e2: "ext {j} t1 t2" "concat (map gentries Ts) = put_list cmp k v (gentries T)" "room t2 (Suc n)"
    "owned t2 (sum_list (map gids Ts) + R)" "(old, existed) = putResult k (gentries T)"
    using post by (simp_all add: putResult_def)
  have e: "ext {} t t2" by (rule ext_trans [OF c(5) e2(1)]) (use c(6) in simp)
  note S2 = ext_settings [OF e]
  have len2: "(if existed then treeLen t2 else treeLen t2 + 1) = int (length (put_list cmp k v (gentries T)))"
    using e2(5) S2(10) len length_put_list [OF srt, of k v]
    by (auto simp: putResult_def map_of_eq_None_iff split: option.splits dest: map_of_SomeD)
      (metis fst_conv image_eqI map_of_SomeD)
  have srt2: "sorted_by cmp (put_list cmp k v (gentries T))" by (rule sorted_put_list [OF srt])
  note unf = putStaged_def run root nz c(1) ins(1) [simplified] res
  show ?thesis
  proof (cases split)
    case None
    obtain T1 where T1: "Ts = [T1]" "gid T1 = j" "rep (pages t2) T1" "shape ?d K T1" "balanced T1"
      "gheight T1 = gheight T" "kidsfilled ?d T \<longrightarrow> kidsfilled ?d T1"
      using post None by auto
    let ?t' = "t2\<lparr>root := j, treeLen := (if existed then treeLen t2 else treeLen t2 + 1)\<rparr>"
    have "putStaged t k v = Some (?t', old, existed, True)" using None by (simp add: unf)
    moreover have "version cmp K ?t' (Some T1)"
      using T1 V S2 len2 srt2 e2(2) by (simp add: version_def del: rep.simps shape.simps balanced.simps)
    ultimately show ?thesis
      using T1(1,6,7) e2(2-5) S2(7) ext_grows [OF e] room_le [OF e2(3), of n]
      by (intro exI [of _ ?t'] exI [of _ old] exI [of _ existed] exI [of _ T1]) simp
  next
    case (Some sr)
    obtain T1 T2 where T1: "Ts = [T1, T2]" "gid T1 = j" "separator sr = firstkey T2" "right sr = gid T2"
      using post Some by auto
    have T12: "rep (pages t2) T1" "shape ?d K T1" "balanced T1" "rep (pages t2) T2" "shape ?d K T2"
      "balanced T2" "gheight T1 = gheight T2"
      using post T1(1) by (simp_all del: rep.simps shape.simps balanced.simps)
    have own2: "owned t2 (gids T1 + gids T2 + R)" using e2(4) T1(1) by simp
    obtain i t3 where g: "growRoot t2 (gid T1) sr = Some (i, t3)" "rep (pages t3) (GBranch i [T1, T2])"
      "shape ?d K (GBranch i [T1, T2])" "balanced (GBranch i [T1, T2])"
      "owned t3 (gids (GBranch i [T1, T2]) + R)" "room t3 n" "ext {} t2 t3"
      by (rule growRoot_ok [OF T12 T1(3,4) own2 e2(3) r])
    let ?t' = "t3\<lparr>root := i, treeLen := (if existed then treeLen t3 else treeLen t3 + 1)\<rparr>"
    have e3: "ext {} t t3" by (rule ext_trans [OF e g(7)]) simp
    note S3 = ext_settings [OF e3]
    have "gheight T1 = gheight T" using post T1(1) by simp
    then have ht: "gheight (GBranch i [T1, T2]) \<le> Suc (gheight T)" by simp
    have fill: "kidsfilled ?d T \<longrightarrow> kidsfilled ?d (GBranch i [T1, T2])" using post T1(1) Some by simp
    have ent: "gentries (GBranch i [T1, T2]) = put_list cmp k v (gentries T)" using e2(2) T1(1) by simp
    have run': "putStaged t k v = Some (?t', old, existed, True)" using Some g(1) T1(2) by (simp add: unf)
    have len3: "treeLen ?t' = int (length (put_list cmp k v (gentries T)))"
      using len2 [unfolded S2(10)] S3(10) by (cases existed) simp_all
    have "version cmp K ?t' (Some (GBranch i [T1, T2]))"
      unfolding version_def len3
      using g(2-4) V S3 srt2 ent by (simp del: rep.simps shape.simps balanced.simps gentries.simps)
    then show ?thesis
      using run' ent ht fill e2(5) g(5,6) S3(7) ext_grows [OF e3]
      by (intro exI [of _ ?t'] exI [of _ old] exI [of _ existed] exI [of _ "GBranch i [T1, T2]"])
         (simp del: gentries.simps gids.simps gheight.simps kidsfilled.simps)
  qed
qed

lemma putStaged_ok:
  assumes ver: "version cmp K t To" and own: "owned t (idsOf To + R)"
    and room: "room t (putCost (degree t) v (heightOf To) + n)" and run: "\<not> closed t" "\<not> readOnly t"
    and r: "roomy (degree t) K" and k: "length k \<le> K" and v: "length v < 2 ^ 63"
  shows "\<exists>t' old existed To'. putStaged t k v = Some (t', old, existed, True) \<and>
    (old, existed) = putResult k (entsOf To) \<and> version cmp K t' To' \<and>
    entsOf To' = put_list cmp k v (entsOf To) \<and> owned t' (idsOf To' + R) \<and> room t' n \<and> grows t t' \<and> treeCache t' = treeCache t \<and>
    heightOf To' \<le> Suc (heightOf To) \<and> (filledOf (degree t) To \<longrightarrow> filledOf (degree t) To')"
proof (cases To)
  case None
  have c: "compareKeys t = cmp" "root t = 0" using ver None by (simp_all add: version_def)
  have own': "owned t R" and room': "room t (putCost (degree t) v 0 + n)" using own room None by simp_all
  obtain t' T' where p: "putFirst t k v = Some (t', [], False, True)" "version cmp K t' (Some T')"
    "gentries T' = [(k, v)]" "owned t' (gids T' + R)" "room t' n" "grows t t'" "treeCache t' = treeCache t" "gheight T' = 0"
    using putFirst_ok [OF own' room' r k v c(1)] by blast
  have "putStaged t k v = Some (t', [], False, True)" using p(1) run c(2) by (simp add: putStaged_def)
  moreover have "kidsfilled (degree t) T'" using p(8) by (cases T') simp_all
  ultimately show ?thesis using p None
    by (intro exI [of _ t'] exI [of _ "[]"] exI [of _ False] exI [of _ "Some T'"]) (simp add: putResult_def filledOf_def)
next
  case (Some T)
  have "version cmp K t (Some T)" "owned t (gids T + R)" "room t (putCost (degree t) v (Suc (gheight T)) + n)"
    using assms Some by simp_all
  from putNext_ok [OF this run r k v] obtain t' old existed T' where
    "putStaged t k v = Some (t', old, existed, True)" "(old, existed) = putResult k (gentries T)"
    "version cmp K t' (Some T')" "gentries T' = put_list cmp k v (gentries T)" "owned t' (gids T' + R)"
    "room t' n" "grows t t'" "treeCache t' = treeCache t" "gheight T' \<le> Suc (gheight T)"
    "kidsfilled (degree t) T \<longrightarrow> kidsfilled (degree t) T'" by blast
  then show ?thesis unfolding Some
    by (intro exI [of _ t'] exI [of _ old] exI [of _ existed] exI [of _ "Some T'"]) (simp add: filledOf_def)
qed

end

section \<open>Lookup and deletion\<close>

definition delCost :: "nat \<Rightarrow> nat \<Rightarrow> nat" where
  "delCost d h = Suc (deleteCost d h)"

definition deleteResult :: "key \<Rightarrow> (key \<times> bytes) list \<Rightarrow> staged" where
  "deleteResult k es = (case map_of es k of None \<Rightarrow> ([], False, False) | Some w \<Rightarrow> (w, True, True))"

context key_comparator
begin

lemma treeGet_ok:
  assumes ver: "version cmp K t To" and cache: "cache_ok (treeCache t)" "coherent (pages t) (treeCache t)"
    and run: "\<not> closed t"
  shows "\<exists>c. treeGet t k = Some (map_of (entsOf To) k, t\<lparr>treeCache := c\<rparr>) \<and> cache_ok c \<and> coherent (pages t) c"
proof (cases To)
  case None
  then have "treeGet t k = Some (None, t\<lparr>treeCache := treeCache t\<rparr>)"
    using ver run by (simp add: treeGet_def version_def searchPageWithCache.simps)
  then show ?thesis using cache None by (intro exI [of _ "treeCache t"]) simp
next
  case (Some T)
  have "rep (pages t) T" "shape (degree t) K T" "ordered cmp T"
    using ver Some by (simp_all add: version_def ordered_def)
  from searchPageWithCache_ok [OF this cache, of k] show ?thesis
    using ver run Some by (auto simp: treeGet_def version_def)
qed

lemma deleteStaged_ok:
  assumes ver: "version cmp K t To" and own: "owned t (idsOf To + R)"
    and room: "room t (delCost (degree t) (heightOf To) + n)" and run: "\<not> closed t" "\<not> readOnly t"
    and r: "roomy (degree t) K" and cache: "cache_ok (treeCache t)" "coherent (pages t) (treeCache t)"
  shows "\<exists>t' To'. deleteStaged t k = Some (t', deleteResult k (entsOf To)) \<and> version cmp K t' To' \<and>
    entsOf To' = del_list k (entsOf To) \<and> owned t' (idsOf To' + R) \<and> room t' n \<and> grows t t' \<and>
    cache_ok (treeCache t') \<and> heightOf To' \<le> heightOf To \<and>
    (map_of (entsOf To) k = None \<longrightarrow> To' = To \<and> (\<exists>c. t' = t\<lparr>treeCache := c\<rparr>))"
proof -
  obtain c where get: "treeGet t k = Some (map_of (entsOf To) k, t\<lparr>treeCache := c\<rparr>)" "cache_ok c"
    using treeGet_ok [OF ver cache run(1), of k] by blast
  let ?t = "t\<lparr>treeCache := c\<rparr>"
  show ?thesis
  proof (cases "map_of (entsOf To) k")
    case None
    have nil: "del_list k (entsOf To) = entsOf To"
      using None by (intro del_list_notin) (simp add: map_of_eq_None_iff)
    obtain t' where t': "deleteStaged t k = Some (t', [], False, False)" "t' = t \<or> t' = ?t"
      using get None run by (cases "root t = 0") (simp_all add: deleteStaged_def)
    moreover have "\<exists>c. t' = t\<lparr>treeCache := c\<rparr>" using t'(2) by (metis Tree.surjective Tree.update_convs(21))
    ultimately show ?thesis
      using None nil ver own room_le [OF room, of n] get(2) cache(1)
      by (intro exI [of _ t'] exI [of _ To]) (auto simp: deleteResult_def version_def)
  next
    case (Some w)
    then obtain T where To: "To = Some T" by (cases To) auto
    note V = ver [unfolded version_def To]
    have rep: "rep (pages t) T" and root: "root t = gid T" and len: "treeLen t = int (length (gentries T))"
      and shp: "shape (degree t) K T" and bal: "balanced T" and srt: "sorted_by cmp (gentries T)"
      using V by simp_all
    have nz: "gid T \<noteq> 0" by (rule gid_nonzero [OF rep])
    have k: "k \<in> fst ` set (gentries T)" using Some To by (force dest: map_of_SomeD)
    let ?d = "degree t" and ?m = "deleteCost (degree t) (gheight T) + n"
    have room1: "room ?t (Suc ?m)"
      by (simp, rule room_le [OF room]) (simp add: To delCost_def deleteCost_def)
    obtain j t1 where cp: "copyPage ?t (gid T) = Some (j, t1)" "rep (pages t1) (setgid j T)"
      "owned t1 (gids (setgid j T) + R)" "room t1 ?m" "ext {} ?t t1" "j \<in> fresh ?t"
      by (rule copyRoot_ok [of ?t T R ?m]) (use rep own room1 To in simp_all)
    let ?J = "setgid j T"
    note S1 = ext_settings [OF cp(5)]
    have g: "good ?d K (gheight ?J) t1 [?J]" using cp(2) shp bal by (simp add: good_def)
    have pre: "compareKeys t1 = cmp" "degree t1 = ?d" "sorted_by cmp (gentries ?J)"
      "room t1 (deleteCost ?d (gheight ?J) + n)" "k \<in> fst ` set (gentries ?J)"
      using V S1 srt cp(4) k by simp_all
    obtain t2 T2 where del: "deleteFrom t1 (gid ?J) k = Some (True, t2)" "delete_post ?d K k t1 ?J R n t2 T2"
      using deleteFrom_ok [OF pre(1,2) g pre(3) cp(3) pre(4) r pre(5)] by blast
    note post = del(2) [unfolded delete_post_def]
    have T2: "gid T2 = j" "gentries T2 = del_list k (gentries T)" "rep (pages t2) T2"
      "owned t2 (gids T2 + R)" "room t2 n" "ext {j} t1 t2"
      using post by simp_all
    have kind: "good ?d K (gheight T) t2 [T2] \<or> (T2 = GLeaf j [] \<and> rep (pages t2) T2)" using post by auto
    obtain t3 To' where col: "collapseRoot t2 (gid T2) = Some (rootOf To', t3)" "pages t3 = pages t2"
      "\<forall>T'. To' = Some T' \<longrightarrow> rep (pages t2) T' \<and> shape ?d K T' \<and> balanced T'"
      "entsOf To' = gentries T2" "owned t3 (idsOf To' + R)" "room t3 n" "ext {} t2 t3"
      "heightOf To' \<le> Suc (gheight T2)"
      using collapseRoot_ok [OF kind T2(4,5)] by blast
    have e: "ext {} ?t t3"
      by (rule ext_trans [OF ext_trans [OF cp(5) T2(6)] col(7)]) (use cp(6) in simp_all)
    note S3 = ext_settings [OF e]
    let ?t' = "t3\<lparr>root := rootOf To', treeLen := treeLen t3 - 1\<rparr>"
    have run': "deleteStaged t k = Some (?t', deleteResult k (entsOf To))"
      using get(1) run root nz cp(1) del(1) T2(1) col(1) Some To
      by (simp add: deleteStaged_def deleteResult_def)
    have lenD: "treeLen ?t' = int (length (entsOf To'))"
      using length_del_list [OF srt k] S3(10) len col(4) T2(2) by simp
    have "sorted_by cmp (entsOf To')" using sorted_by_del_list [OF srt] col(4) T2(2) by simp
    then have "repOf cmp ?d K (pages ?t') To'" using col(2,3) by (auto simp: repOf_def)
    then have "version cmp K ?t' To'" using lenD S3 V by (simp add: version_def)
    moreover have "grows t ?t'" using ext_grows [OF e] by (simp add: grows_iff fresh_def)
    moreover have "cache_ok (treeCache ?t')" using S3 get(2) by simp
    moreover have "heightOf To' \<le> heightOf To"
      using col(8) kind goodD(3) [of ?d K "gheight T" t2 "[T2]" T2] To by auto
    ultimately show ?thesis using run' col(4-6) T2(2) To Some
      by (intro exI [of _ ?t'] exI [of _ To']) simp
  qed
qed

end

end
