(* ===== verification/Stats.thy ===== *)
theory Stats
  imports TreeOps
begin

text \<open>
  Statistics (\<^verbatim>\<open>pagebtree/stats.go\<close>): the walk over the reachable pages, the height, the
  reclaim pressure and the two reports.  On pages that represent a tree the walk counts every
  page of the tree once.
\<close>

section \<open>Walking the reachable pages\<close>

record reachableStats =
  rs_leafPages :: int
  rs_branchPages :: int
  rs_overflowPages :: int
  rs_keys :: int
  rs_separators :: int
  rs_leafBytesUsed :: int
  rs_branchBytesUsed :: int
  rs_overflowBytesUsed :: int

definition noStats :: reachableStats where
  "noStats = \<lparr>rs_leafPages = 0, rs_branchPages = 0, rs_overflowPages = 0, rs_keys = 0,
     rs_separators = 0, rs_leafBytesUsed = 0, rs_branchBytesUsed = 0, rs_overflowBytesUsed = 0\<rparr>"

definition statsPages :: "reachableStats \<Rightarrow> int" where
  "statsPages s = rs_leafPages s + rs_branchPages s + rs_overflowPages s"

definition bytesUsed :: "reachableStats \<Rightarrow> int" where
  "bytesUsed s = rs_leafBytesUsed s + rs_branchBytesUsed s + rs_overflowBytesUsed s"

definition bytesCapacity :: "reachableStats \<Rightarrow> int" where
  "bytesCapacity s = statsPages s * int PageSize"

definition addStats :: "reachableStats \<Rightarrow> reachableStats \<Rightarrow> reachableStats" where
  "addStats s other =
     \<lparr>rs_leafPages = rs_leafPages s + rs_leafPages other,
      rs_branchPages = rs_branchPages s + rs_branchPages other,
      rs_overflowPages = rs_overflowPages s + rs_overflowPages other,
      rs_keys = rs_keys s + rs_keys other,
      rs_separators = rs_separators s + rs_separators other,
      rs_leafBytesUsed = rs_leafBytesUsed s + rs_leafBytesUsed other,
      rs_branchBytesUsed = rs_branchBytesUsed s + rs_branchBytesUsed other,
      rs_overflowBytesUsed = rs_overflowBytesUsed s + rs_overflowBytesUsed other\<rparr>"

partial_function (option) overflowStatsLoop ::
  "pagemap \<Rightarrow> PageID \<Rightarrow> PageID set \<Rightarrow> reachableStats \<Rightarrow> (reachableStats \<times> PageID set) option" where
  "overflowStatsLoop pgs i seen st =
     (if i = 0 \<or> i \<in> seen then Some (st, seen)
      else do {
        p \<leftarrow> pgs i;
        overflowStatsLoop pgs (overflowNext p) (insert i seen)
          (st\<lparr>rs_overflowPages := rs_overflowPages st + 1,
              rs_overflowBytesUsed := rs_overflowBytesUsed st + int (overflowBytesUsed p)\<rparr>)
      })"

definition collectOverflowStats ::
  "pagemap \<Rightarrow> bytes \<Rightarrow> u16 \<Rightarrow> PageID set \<Rightarrow> (reachableStats \<times> PageID set) option" where
  "collectOverflowStats pgs raw f seen =
     (case decodeOverflowRef raw f of
        None \<Rightarrow> Some (noStats, seen)
      | Some r \<Rightarrow> overflowStatsLoop pgs (or_first r) seen noStats)"

text \<open>\<open>sumStats f\<close>: add up what \<open>f\<close> reports for each element, threading the seen set.\<close>

definition sumStats :: "('a \<Rightarrow> PageID set \<Rightarrow> (reachableStats \<times> PageID set) option) \<Rightarrow>
    reachableStats \<times> PageID set \<Rightarrow> 'a list \<Rightarrow> (reachableStats \<times> PageID set) option" where
  "sumStats f s xs = map_option fst (loopM (\<lambda>(st, seen) x. do {
       (st', seen') \<leftarrow> f x seen;
       Some ((addStats st st', seen'), None :: unit option)
     }) s xs)"

partial_function (option) collectReachableStats ::
  "pagemap \<Rightarrow> PageID \<Rightarrow> PageID set \<Rightarrow> (reachableStats \<times> PageID set) option" where
  "collectReachableStats pgs i seen =
     (if i = 0 \<or> i \<in> seen then Some (noStats, seen)
      else do {
        p \<leftarrow> pgs i;
        let seen = insert i seen;
        (st, seen) \<leftarrow>
          (if isLeaf p then do {
             es \<leftarrow> leafEntries p;
             sumStats (\<lambda>e. collectOverflowStats pgs (le_value e) (le_slotFlags e))
               (noStats\<lparr>rs_leafPages := 1, rs_keys := int (unat (slotCount p)),
                        rs_leafBytesUsed := slottedBytesUsed p\<rparr>, seen) es
           }
           else Some (noStats\<lparr>rs_branchPages := 1, rs_separators := int (unat (slotCount p)),
                              rs_branchBytesUsed := slottedBytesUsed p\<rparr>, seen));
        cs \<leftarrow> childIDs p;
        (st', r) \<leftarrow> loopM (\<lambda>(st, seen) c. do {
            (st', seen') \<leftarrow> collectReachableStats pgs c seen;
            Some ((addStats st st', seen'), None :: unit option)
          }) (st, seen) cs;
        Some st'
      })"

partial_function (option) height :: "pagemap \<Rightarrow> PageID \<Rightarrow> int option" where
  "height pgs i =
     (if i = 0 then Some 0
      else do {
        p \<leftarrow> pgs i;
        (if isLeaf p then Some 1 else do { h \<leftarrow> height pgs (leftmostChild p); Some (1 + h) })
      })"

section \<open>The reports\<close>

record ReclaimPressureStats =
  rp_RetiredPages :: int
  rp_ReaderPinnedRetiredPages :: int
  rp_ReclaimableRetiredPages :: int
  rp_OldestReaderRevision :: u64
  rp_HasOldestReaderRevision :: bool
  rp_BlockedByReaders :: bool
  rp_ReaderTableScanFailed :: bool

definition noPressure :: ReclaimPressureStats where
  "noPressure = \<lparr>rp_RetiredPages = 0, rp_ReaderPinnedRetiredPages = 0,
     rp_ReclaimableRetiredPages = 0, rp_OldestReaderRevision = 0,
     rp_HasOldestReaderRevision = False, rp_BlockedByReaders = False,
     rp_ReaderTableScanFailed = False\<rparr>"

definition reclaimPressureStats :: "Tree \<Rightarrow> ReclaimPressureStats" where
  "reclaimPressureStats t =
     (let st = noPressure\<lparr>rp_RetiredPages := int (length (retired t))\<rparr> in
      if retired t = [] then st
      else
        let (oldest, hasReader, failed) = (case oldestReaderRevisionDetailed t of
              None \<Rightarrow> (0, True, True) | Some (oldest, hasReader) \<Rightarrow> (oldest, hasReader, False));
            pinned = length (filter (\<lambda>r. hasReader \<and> oldest \<le> rp_revision r) (retired t))
        in st\<lparr>rp_ReaderTableScanFailed := failed, rp_OldestReaderRevision := oldest,
              rp_HasOldestReaderRevision := hasReader, rp_ReaderPinnedRetiredPages := int pinned,
              rp_ReclaimableRetiredPages := int (length (retired t) - pinned),
              rp_BlockedByReaders := 0 < pinned\<rparr>)"

record Stats =
  st_Root :: PageID
  st_Len :: int
  st_Revision :: u64
  st_SyncedRevision :: u64
  st_Degree :: int
  st_Height :: int
  st_reachable :: reachableStats
  st_AllocatedPages :: int
  st_RetiredPages :: int
  st_FreePages :: int
  st_ActiveReaders :: int
  st_ReclaimPressure :: ReclaimPressureStats
  st_ReusedPages :: int
  st_Mmap :: bool
  st_PageCache :: pageCacheStats
  st_RangePrefetchLeafWindow :: int
  st_MinRepairPageFillPercent :: int
  st_RangePrefetchHints :: int
  st_RangePrefetchPages :: int
  st_MmapWarmupHints :: int
  st_MmapWarmupPages :: int

definition emptyStats :: Stats where
  "emptyStats = \<lparr>st_Root = 0, st_Len = 0, st_Revision = 0, st_SyncedRevision = 0, st_Degree = 0,
     st_Height = 0, st_reachable = noStats, st_AllocatedPages = 0, st_RetiredPages = 0,
     st_FreePages = 0, st_ActiveReaders = 0, st_ReclaimPressure = noPressure, st_ReusedPages = 0,
     st_Mmap = False, st_PageCache = zeroStats, st_RangePrefetchLeafWindow = 0,
     st_MinRepairPageFillPercent = 0, st_RangePrefetchHints = 0, st_RangePrefetchPages = 0,
     st_MmapWarmupHints = 0, st_MmapWarmupPages = 0\<rparr>"

text \<open>\<open>allocated\<close> is the number of pages in the page map, Go's \<^verbatim>\<open>len(pages)\<close>.\<close>

definition statsForSnapshot ::
  "nat \<Rightarrow> pagemap \<Rightarrow> PageID \<Rightarrow> int \<Rightarrow> u64 \<Rightarrow> nat \<Rightarrow> Stats option" where
  "statsForSnapshot allocated pgs i len version d = do {
     (reachable, seen) \<leftarrow> collectReachableStats pgs i {};
     h \<leftarrow> height pgs i;
     Some (emptyStats\<lparr>st_Root := i, st_Len := len, st_Revision := version, st_Degree := int d,
       st_Height := h, st_reachable := reachable, st_AllocatedPages := int allocated\<rparr>)
   }"

definition statsFor :: "nat \<Rightarrow> Tree \<Rightarrow> (Stats \<times> Tree) option" where
  "statsFor allocated t = do {
     st \<leftarrow> statsForSnapshot allocated (pages t) (root t) (treeLen t) (revision t) (degree t);
     let (cacheStats, cache) = cacheSnapshot (treeCache t);
     Some (st\<lparr>st_SyncedRevision := syncedRevision t, st_RetiredPages := int (length (retired t)),
              st_FreePages := int (length (free t)), st_ActiveReaders := activeReaderCount t,
              st_ReclaimPressure := reclaimPressureStats t, st_ReusedPages := reusedPages t,
              st_Mmap := (arena t \<noteq> None), st_PageCache := cacheStats,
              st_RangePrefetchLeafWindow := rangePrefetchLeafWindow t,
              st_MinRepairPageFillPercent := minRepairPageFillPercent t,
              st_RangePrefetchHints := rangePrefetchHints t,
              st_RangePrefetchPages := rangePrefetchPages t,
              st_MmapWarmupHints := mmapWarmupHints t,
              st_MmapWarmupPages := mmapWarmupPages t\<rparr>, t\<lparr>treeCache := cache\<rparr>)
   }"

definition treeStats :: "nat \<Rightarrow> Tree \<Rightarrow> (Stats \<times> Tree) option" where
  "treeStats allocated t = (if closed t then Some (emptyStats, t) else statsFor allocated t)"

definition snapStats :: "nat \<Rightarrow> pagemap \<Rightarrow> Snapshot \<Rightarrow> Stats option" where
  "snapStats allocated pgs s =
     (if sn_closed s then Some emptyStats
      else statsForSnapshot allocated pgs (sn_root s) (sn_length s) (sn_revision s) (sn_degree s))"

section \<open>The walk counts every page once\<close>

fun gbranches :: "gtree \<Rightarrow> (PageID \<times> gtree list) list" where
  "gbranches (GLeaf i es) = []"
| "gbranches (GBranch i ts) = (i, ts) # concat (map gbranches ts)"

definition leafStats :: "gentry list \<Rightarrow> reachableStats" where
  "leafStats es = noStats\<lparr>rs_leafPages := 1, rs_keys := int (length es),
     rs_leafBytesUsed := int (pageHeaderSize + slotSize * length es + used (map gcell es)),
     rs_overflowPages := int (size (chainIDs es)),
     rs_overflowBytesUsed := sum_list (map (\<lambda>(k, v, c). if c = [] then 0
        else int (pageHeaderSize * length c + length v)) es)\<rparr>"

definition branchStats :: "gtree list \<Rightarrow> reachableStats" where
  "branchStats ts = noStats\<lparr>rs_branchPages := 1, rs_separators := int (length ts - 1),
     rs_branchBytesUsed := int (pageHeaderSize + slotSize * (length ts - 1) +
        used (branchCells (map firstkey (tl ts)) (tl (map gid ts))))\<rparr>"

fun gstats :: "gtree \<Rightarrow> reachableStats" where
  "gstats (GLeaf i es) = leafStats es"
| "gstats (GBranch i ts) = foldl addStats (branchStats ts) (map gstats ts)"

lemma addStats_simps [simp]:
  "addStats noStats s = s" "addStats s noStats = s" "addStats (addStats a b) c = addStats a (addStats b c)"
  by (simp_all add: addStats_def noStats_def add.assoc)

lemma statsPages_add [simp]:
  "statsPages (addStats a b) = statsPages a + statsPages b" "rs_keys (addStats a b) = rs_keys a + rs_keys b"
  by (simp_all add: addStats_def statsPages_def)

lemma sumStats_simps [simp]:
  "sumStats f s [] = Some s"
  "sumStats f (st, seen) (x # xs) =
     do { (st', seen') \<leftarrow> f x seen; sumStats f (addStats st st', seen') xs }"
  by (simp add: sumStats_def) (cases "f x seen"; simp add: sumStats_def split: prod.splits)


lemma overflowStatsLoop_ok:
  "chain pgs is v \<Longrightarrow> distinct is \<Longrightarrow> set is \<inter> seen = {} \<Longrightarrow>
     overflowStatsLoop pgs (if is = [] then 0 else hd is) seen st =
       Some (st\<lparr>rs_overflowPages := rs_overflowPages st + int (length is),
                rs_overflowBytesUsed := rs_overflowBytesUsed st + int (pageHeaderSize * length is + length v)\<rparr>,
             seen \<union> set is)"
proof (induction pgs "is" v arbitrary: seen st rule: chain.induct)
  case (1 pgs v)
  then show ?case by (subst overflowStatsLoop.simps) simp
next
  case (2 pgs i "is" v)
  obtain p where p: "pgs i = Some p" "i \<noteq> 0"
    "overflow_page p (if is = [] then 0 else hd is) (take overflowPayloadSize v)"
    and rest: "chain pgs is (drop overflowPayloadSize v)" using 2 by auto
  have next': "overflowNext p = (if is = [] then 0 else hd is)"
    and used: "overflowBytesUsed p = pageHeaderSize + length (take overflowPayloadSize v)"
    using p(3) by (simp_all add: overflow_page_def overflowBytesUsed_def)
  let ?st = "st\<lparr>rs_overflowPages := rs_overflowPages st + 1,
    rs_overflowBytesUsed := rs_overflowBytesUsed st + int (overflowBytesUsed p)\<rparr>"
  have "overflowStatsLoop pgs (overflowNext p) (insert i seen) ?st =
      Some (?st\<lparr>rs_overflowPages := rs_overflowPages ?st + int (length is),
                rs_overflowBytesUsed := rs_overflowBytesUsed ?st +
                  int (pageHeaderSize * length is + length (drop overflowPayloadSize v))\<rparr>,
             insert i seen \<union> set is)"
    unfolding next' using 2 rest by (intro 2(1)) auto
  moreover have "i \<notin> seen" using 2 by auto
  ultimately show ?case using p(1,2)
    by (subst overflowStatsLoop.simps) (simp add: used min_def Un_insert_left)
qed

lemma decode_gcell:
  assumes "entry_ok pgs (k, v, c)" "gcell (k, v, c) = (k', raw, f)"
  shows "decodeOverflowRef raw f =
    (if c = [] then None else Some \<lparr>or_first = hd c, or_length = int (length v)\<rparr>)"
proof (cases "c = []")
  case True
  then show ?thesis using assms(2) by (simp add: gcell_def)
next
  case False
  then have "length v < 2 ^ 63" using assms(1) by (simp add: entry_ok_def)
  then have "int (length v) < 2 ^ 63" by simp
  moreover have "and slotFlagOverflow slotFlagOverflow \<noteq> 0" by (simp add: slotFlagOverflow_def)
  ultimately show ?thesis using False assms(2) by (auto simp: gcell_def decode_encode_overflowRef)
qed

definition entryStats :: "gentry \<Rightarrow> reachableStats" where
  "entryStats e = (case e of (k, v, c) \<Rightarrow> noStats\<lparr>rs_overflowPages := int (length c),
     rs_overflowBytesUsed := (if c = [] then 0 else int (pageHeaderSize * length c + length v))\<rparr>)"

lemma entryStats_ok:
  assumes ok: "entry_ok pgs e" and d: "distinct (snd (snd e))" "set (snd (snd e)) \<inter> seen = {}"
  shows "collectOverflowStats pgs (le_value (rawEntry e)) (le_slotFlags (rawEntry e)) seen =
    Some (entryStats e, seen \<union> set (snd (snd e)))"
proof -
  obtain k v c where e: "e = (k, v, c)" by (cases e)
  obtain k' raw f where g: "gcell e = (k', raw, f)" by (cases "gcell e")
  have r: "le_value (rawEntry e) = raw" "le_slotFlags (rawEntry e) = f"
    using g by (simp_all add: rawEntry_def)
  note dec = decode_gcell [OF ok [unfolded e] g [unfolded e]]
  show ?thesis
  proof (cases "c = []")
    case True
    then show ?thesis unfolding r collectOverflowStats_def dec using e by (simp add: entryStats_def noStats_def)
  next
    case False
    then have "chain pgs c v" using ok e by (simp add: entry_ok_def)
    from overflowStatsLoop_ok [OF this, of seen noStats] show ?thesis
      unfolding r collectOverflowStats_def dec using e d False by (simp add: entryStats_def noStats_def)
  qed
qed

text \<open>Both loops of the walk: each element adds its statistics and its ids.\<close>

lemma statsLoop_ok:
  assumes "\<And>x seen. x \<in> set xs \<Longrightarrow> set_mset (ids x) \<inter> seen = {} \<Longrightarrow> (\<And>i. count (ids x) i \<le> 1) \<Longrightarrow>
      f x seen = Some (st x, seen \<union> set_mset (ids x))"
    and "\<And>i. count (sum_list (map ids xs)) i \<le> 1" and "set_mset (sum_list (map ids xs)) \<inter> seen = {}"
  shows "loopM (\<lambda>(s, seen) x. do { (s', seen') \<leftarrow> f x seen; Some ((addStats s s', seen'), None :: unit option) })
      (s, seen) xs = Some ((foldl addStats s (map st xs), seen \<union> set_mset (sum_list (map ids xs))), None)"
  using assms
proof (induction xs arbitrary: s seen)
  case Nil
  then show ?case by simp
next
  case (Cons x xs)
  have c: "count (ids x) i + count (sum_list (map ids xs)) i \<le> 1" for i using Cons.prems(2) [of i] by simp
  then have c1: "count (ids x) i \<le> 1" "count (sum_list (map ids xs)) i \<le> 1" for i
    by (metis add_leD1, metis add_leD2)
  have x: "f x seen = Some (st x, seen \<union> set_mset (ids x))"
  proof (rule Cons.prems(1))
    show "set_mset (ids x) \<inter> seen = {}" using Cons.prems(3) by auto
  qed (simp_all only: list.set_intros c1)
  have disj: "i \<notin># sum_list (map ids xs)" if "i \<in># ids x" for i
  proof -
    have "1 \<le> count (ids x) i" using that by simp
    then have "count (sum_list (map ids xs)) i = 0" using c [of i] by linarith
    then show ?thesis by (simp only: not_in_iff)
  qed
  have "loopM (\<lambda>(s, seen) x. do { (s', seen') \<leftarrow> f x seen; Some ((addStats s s', seen'), None :: unit option) })
      (addStats s (st x), seen \<union> set_mset (ids x)) xs =
      Some ((foldl addStats (addStats s (st x)) (map st xs),
        (seen \<union> set_mset (ids x)) \<union> set_mset (sum_list (map ids xs))), None)"
    using Cons.prems c1 disj by (intro Cons.IH) auto
  then show ?case using x by (simp add: Un_assoc)
qed

lemma foldl_addStats: "foldl addStats s xs = addStats s (foldl addStats noStats xs)"
  by (induction xs arbitrary: s) (simp, metis (no_types, lifting) addStats_simps(1,3) foldl_Cons)

lemma foldl_entryStats:
  "foldl addStats noStats (map entryStats es) = noStats\<lparr>rs_overflowPages := int (size (chainIDs es)),
     rs_overflowBytesUsed := sum_list (map (\<lambda>(k, v, c). if c = [] then 0
        else int (pageHeaderSize * length c + length v)) es)\<rparr>"
proof (induction es)
  case Nil
  then show ?case by (simp add: noStats_def)
next
  case (Cons e es)
  obtain k v c where e: "e = (k, v, c)" by (cases e)
  have step: "foldl addStats noStats (map entryStats (e # es)) =
      addStats (entryStats e) (foldl addStats noStats (map entryStats es))"
    by (simp only: list.map foldl_Cons addStats_simps foldl_addStats [of "entryStats e"])
  show ?case unfolding step Cons.IH by (simp add: e addStats_def entryStats_def noStats_def)
qed

lemma chainIDs_sum: "chainIDs es = sum_list (map (\<lambda>e. mset (snd (snd e))) es)"
  by (induction es) (simp_all add: chainIDs_Cons)

lemma loopM_map:
  "loopM (\<lambda>(a, b) x. F a b x) s (map g xs) = loopM (\<lambda>(a, b) x. F a b (g x)) s xs"
  by (induction xs arbitrary: s) (simp_all add: case_prod_unfold cong: option.case_cong)

lemma distinct_mset: "(\<And>i. count (mset xs) i \<le> 1) \<Longrightarrow> distinct xs"
proof (induction xs)
  case (Cons x xs)
  have x: "count (mset xs) x = 0" using Cons.prems [of x] by simp
  moreover have "count (mset xs) i \<le> count (mset (x # xs)) i" for i by simp
  then have "count (mset xs) i \<le> 1" for i using Cons.prems [of i] le_trans by blast
  ultimately show ?case using Cons.IH by (simp add: count_eq_zero_iff)
qed simp

lemma collectReachableStats_ok:
  "rep pgs T \<Longrightarrow> (\<And>i. count (gids T) i \<le> 1) \<Longrightarrow> set_mset (gids T) \<inter> seen = {} \<Longrightarrow>
     collectReachableStats pgs (gid T) seen = Some (gstats T, seen \<union> set_mset (gids T))"
proof (induction T arbitrary: seen)
  case (GLeaf i es)
  obtain p where p: "pgs i = Some p" "leafPage p i es" and ok: "\<forall>e\<in>set es. entry_ok pgs e"
    using GLeaf.prems by auto
  note k = leafPage_kind [OF p(2)]
  have cnt: "count (chainIDs es) j \<le> 1" "j = i \<Longrightarrow> count (chainIDs es) j = 0" for j
    using GLeaf.prems(2) [of j] by (auto split: if_splits)
  have h: "holds p flagLeaf (map gcell es)" using p(2) by (simp add: leafPage_def)
  have used: "slottedBytesUsed p = int (pageHeaderSize + slotSize * length es + used (map gcell es))"
    using slottedBytesUsed_holds [OF h] by simp
  let ?st = "noStats\<lparr>rs_leafPages := 1, rs_keys := int (length es), rs_leafBytesUsed := slottedBytesUsed p\<rparr>"
  have loop: "loopM (\<lambda>(s, seen) e. do {
        (s', seen') \<leftarrow> collectOverflowStats pgs (le_value (rawEntry e)) (le_slotFlags (rawEntry e)) seen;
        Some ((addStats s s', seen'), None :: unit option) }) (?st, insert i seen) es =
      Some ((foldl addStats ?st (map entryStats es), insert i seen \<union> set_mset (chainIDs es)), None)"
    unfolding chainIDs_sum
  proof (rule statsLoop_ok)
    fix e seen assume "e \<in> set es" "set_mset (mset (snd (snd e))) \<inter> seen = {}"
      "\<And>j. count (mset (snd (snd e))) j \<le> 1"
    then show "collectOverflowStats pgs (le_value (rawEntry e)) (le_slotFlags (rawEntry e)) seen =
        Some (entryStats e, seen \<union> set_mset (mset (snd (snd e))))"
      using ok by (simp only: set_mset_mset, intro entryStats_ok) (auto intro: distinct_mset)
  next
    show "count (sum_list (map (\<lambda>e. mset (snd (snd e))) es)) j \<le> 1" for j
      using cnt(1) [of j] by (simp add: chainIDs_sum)
    show "set_mset (sum_list (map (\<lambda>e. mset (snd (snd e))) es)) \<inter> insert i seen = {}"
      using GLeaf.prems(3) cnt(2) [of i] unfolding chainIDs_sum [symmetric] by (auto simp: not_in_iff)
  qed
  have "foldl addStats ?st (map entryStats es) = leafStats es"
    by (subst foldl_addStats, subst foldl_entryStats) (simp add: addStats_def noStats_def leafStats_def used)
  moreover have "i \<noteq> 0" "i \<notin> seen" using k(6) GLeaf.prems(3) by auto
  moreover have "childIDs p = Some []" using k(2) by (simp add: childIDs_def)
  ultimately show ?case
    using p(1) k leafEntries_leafPage [OF p(2)] loop
    by (subst collectReachableStats.simps) (simp add: sumStats_def loopM_map Un_insert_left)
next
  case (GBranch i ts)
  then obtain p where p: "pgs i = Some p" "branchPage p i (map firstkey (tl ts)) (map gid ts)"
    and kids: "\<forall>T\<in>set ts. rep pgs T" by auto
  note k = branchPage_kind [OF p(2)]
  have cnt: "count (sum_list (map gids ts)) j \<le> 1" "j = i \<Longrightarrow> count (sum_list (map gids ts)) j = 0" for j
    using GBranch.prems(2) [of j] by (auto split: if_splits)
  have h: "holds p flagBranch (branchCells (map firstkey (tl ts)) (tl (map gid ts)))" and ne: "ts \<noteq> []"
    using p(2) by (simp_all add: branchPage_def)
  have used: "slottedBytesUsed p = int (pageHeaderSize + slotSize * (length ts - 1) +
      used (branchCells (map firstkey (tl ts)) (tl (map gid ts))))"
    using slottedBytesUsed_holds [OF h] by (simp add: branchCells_def)
  let ?st = "noStats\<lparr>rs_branchPages := 1, rs_separators := int (length ts - 1),
    rs_branchBytesUsed := slottedBytesUsed p\<rparr>"
  have st: "?st = branchStats ts" by (simp add: branchStats_def used noStats_def)
  have loop: "loopM (\<lambda>(s, seen) T. do {
        (s', seen') \<leftarrow> collectReachableStats pgs (gid T) seen;
        Some ((addStats s s', seen'), None :: unit option) }) (?st, insert i seen) ts =
      Some ((foldl addStats ?st (map gstats ts), insert i seen \<union> set_mset (sum_list (map gids ts))), None)"
  proof (rule statsLoop_ok)
    show "collectReachableStats pgs (gid T) seen = Some (gstats T, seen \<union> set_mset (gids T))"
      if "T \<in> set ts" "set_mset (gids T) \<inter> seen = {}" "\<And>j. count (gids T) j \<le> 1" for T seen
      using GBranch.IH [OF that(1)] kids that by blast
    show "count (sum_list (map gids ts)) j \<le> 1" for j by (rule cnt(1))
    show "set_mset (sum_list (map gids ts)) \<inter> insert i seen = {}"
      using GBranch.prems(3) cnt(2) [of i] by (simp add: count_eq_zero_iff disjoint_iff)
  qed
  have "i \<noteq> 0" "i \<notin> seen" using k(6) GBranch.prems(3) by auto
  then show ?case
    using p(1) k childIDs_branchPage [OF p(2)] loop st
    by (subst collectReachableStats.simps) (simp add: loopM_map Un_insert_left)
qed

lemma gstats_counts:
  "statsPages (gstats T) = int (size (gids T))" "rs_keys (gstats T) = int (length (gentries T))"
proof -
  have "statsPages (foldl addStats s (map gstats ts)) = statsPages s + int (size (sum_list (map gids ts)))"
    if "\<And>T. T \<in> set ts \<Longrightarrow> statsPages (gstats T) = int (size (gids T))" for s ts
    using that by (induction ts arbitrary: s) simp_all
  then show "statsPages (gstats T) = int (size (gids T))"
    by (induction T) (simp_all add: leafStats_def branchStats_def statsPages_def noStats_def)
  have "rs_keys (foldl addStats s (map gstats ts)) = rs_keys s + int (length (concat (map gentries ts)))"
    if "\<And>T. T \<in> set ts \<Longrightarrow> rs_keys (gstats T) = int (length (gentries T))" for s ts
    using that by (induction ts arbitrary: s) simp_all
  then show "rs_keys (gstats T) = int (length (gentries T))"
    by (induction T) (simp_all add: leafStats_def branchStats_def noStats_def)
qed

lemma height_ok:
  "rep pgs T \<Longrightarrow> shape d K T \<Longrightarrow> height pgs (gid T) = Some (int (Suc (gheight T)))"
proof (induction T)
  case (GLeaf i es)
  then obtain p where p: "pgs i = Some p" "leafPage p i es" by auto
  then show ?case using leafPage_kind [OF p(2)] by (subst height.simps) simp
next
  case (GBranch i ts)
  then obtain p where p: "pgs i = Some p" "branchPage p i (map firstkey (tl ts)) (map gid ts)" by auto
  obtain T0 ts' where ts: "ts = T0 # ts'" using GBranch.prems by (cases ts) auto
  have "leftmostChild p = gid T0" using p(2) ts by (simp add: branchPage_def)
  moreover have "height pgs (gid T0) = Some (int (Suc (gheight T0)))" using GBranch ts by simp
  ultimately show ?case
    using p(1) branchPage_kind(2,6) [OF p(2)] by (subst height.simps) (simp add: ts)
qed

end
