(* ===== verification/Versions.thy ===== *)
theory Versions
  imports StagedOps Stats
begin

text \<open>
  Versions and readers.  \<open>tree_ok\<close> is the invariant of a tree between operations: the root
  represents a version, page ownership is exact, the reader counts are positive, and without
  readers the leaf links run through the leaves.  \<open>pins\<close> says that a version is safe for a
  reader of its revision: every page it uses is a page of the current version or a retired page
  that the reader holds back.  Publishing, reclaiming and closing readers keep both.
\<close>

section \<open>Readers\<close>

definition readers_ok :: "Tree \<Rightarrow> bool" where
  "readers_ok t \<longleftrightarrow> distinct (map fst (activeReaders t)) \<and>
     (\<forall>(r, n)\<in>set (activeReaders t). 1 \<le> n \<and> r \<le> revision t)"

lemma minReader_aux:
  "foldl (\<lambda>(oldest, found) (r, n). if \<not> found \<or> r < oldest then (r, True) else (oldest, found)) (acc :: u64 \<times> bool) rs = (m, f) \<Longrightarrow>
     (snd acc \<longrightarrow> f \<and> m \<le> fst acc) \<and> (\<forall>r\<in>fst ` set rs. f \<and> m \<le> r)"
proof (induction rs arbitrary: acc)
  case (Cons p rs)
  obtain a b where acc: "acc = (a, b)" by (cases acc)
  obtain r n where p: "p = (r, n)" by (cases p)
  let ?acc = "if \<not> b \<or> r < a then (r, True) else (a, b)"
  have "(snd ?acc \<longrightarrow> f \<and> m \<le> fst ?acc) \<and> (\<forall>r\<in>fst ` set rs. f \<and> m \<le> r)"
    by (rule Cons.IH) (use Cons.prems acc p in simp)
  then show ?case using acc p by (auto split: if_splits)
qed auto

lemma minReader_le:
  assumes "r \<in> fst ` set rs"
  shows "snd (minReader rs) \<and> fst (minReader rs) \<le> r"
  using minReader_aux [of "(0, False)" rs] assms unfolding minReader_def
  by (cases "foldl (\<lambda>(oldest, found) (r, n). if \<not> found \<or> r < oldest then (r, True) else (oldest, found)) (0, False) rs") auto

text \<open>The watermark never passes an active reader.\<close>

lemma oldest_le_reader:
  assumes "r \<in> fst ` set (activeReaders t)"
  shows "snd (oldestReaderRevision t) \<and> fst (oldestReaderRevision t) \<le> r"
  using minReader_le [OF assms]
  by (auto simp: oldestReaderRevision_def oldestReaderRevisionDetailed_def Let_def
      split: option.splits prod.splits)

lemma readerCount_in:
  assumes "readers_ok t"
  shows "1 \<le> readerCount t r \<longleftrightarrow> r \<in> fst ` set (activeReaders t)" "0 \<le> readerCount t r"
proof -
  show "1 \<le> readerCount t r \<longleftrightarrow> r \<in> fst ` set (activeReaders t)"
  proof
    assume "1 \<le> readerCount t r"
    then show "r \<in> fst ` set (activeReaders t)"
      by (auto simp: readerCount_def split: option.splits dest!: map_of_SomeD) (metis fst_conv image_eqI)
  next
    assume "r \<in> fst ` set (activeReaders t)"
    then obtain n where "(r, n) \<in> set (activeReaders t)" by auto
    then show "1 \<le> readerCount t r"
      using assms by (auto simp: readers_ok_def readerCount_def)
  qed
  show "0 \<le> readerCount t r"
    using assms by (auto simp: readers_ok_def readerCount_def split: option.splits dest!: map_of_SomeD)
qed

lemma activeReaderCount_pos:
  assumes "readers_ok t" shows "0 \<le> activeReaderCount t" "activeReaderCount t = 0 \<longleftrightarrow> activeReaders t = []"
proof -
  have "0 \<le> sum_list (map snd rs) \<and> (sum_list (map snd rs) = 0 \<longleftrightarrow> rs = [])"
    if "\<forall>(r, n)\<in>set rs. 1 \<le> n \<and> r \<le> m" for rs :: "(u64 \<times> int) list" and m
    using that by (induction rs) auto
  then show "0 \<le> activeReaderCount t" "activeReaderCount t = 0 \<longleftrightarrow> activeReaders t = []"
    using assms by (auto simp: readers_ok_def activeReaderCount_def)
qed

lemma beginRead_fields [simp]:
  "pages (beginRead t r) = pages t" "owned (beginRead t r) M = owned t M" "room (beginRead t r) n = room t n"
  "root (beginRead t r) = root t" "treeLen (beginRead t r) = treeLen t" "degree (beginRead t r) = degree t"
  "compareKeys (beginRead t r) = compareKeys t" "retired (beginRead t r) = retired t"
  "revision (beginRead t r) = revision t" "treeCache (beginRead t r) = treeCache t"
  "closed (beginRead t r) = closed t" "readOnly (beginRead t r) = readOnly t" "free (beginRead t r) = free t"
  by (simp_all add: beginRead_def)

lemma set_update_distinct:
  "distinct (map fst al) \<Longrightarrow> set (AList.update k v al) = insert (k, v) {p \<in> set al. fst p \<noteq> k}"
  by (induction al) (auto simp: image_iff)

lemma readers_ok_beginRead:
  assumes "readers_ok t" "r \<le> revision t" shows "readers_ok (beginRead t r)"
  using assms readerCount_in(2) [OF assms(1), of r]
  by (auto simp: readers_ok_def beginRead_def set_update_distinct distinct_update)

lemma readerCount_beginRead:
  "readerCount (beginRead t r) q = readerCount t q + (if q = r then 1 else 0)"
  by (simp add: readerCount_def beginRead_def update_conv)

section \<open>Reclaiming\<close>

lemma reclaim_fields [simp]:
  "pages (reclaimRetiredPages t) = pages t" "room (reclaimRetiredPages t) n = room t n"
  "root (reclaimRetiredPages t) = root t" "treeLen (reclaimRetiredPages t) = treeLen t"
  "degree (reclaimRetiredPages t) = degree t" "compareKeys (reclaimRetiredPages t) = compareKeys t"
  "revision (reclaimRetiredPages t) = revision t" "treeCache (reclaimRetiredPages t) = treeCache t"
  "closed (reclaimRetiredPages t) = closed t" "readOnly (reclaimRetiredPages t) = readOnly t"
  "activeReaders (reclaimRetiredPages t) = activeReaders t" "nextPage (reclaimRetiredPages t) = nextPage t"
  "readerCount (reclaimRetiredPages t) r = readerCount t r"
  "readers_ok (reclaimRetiredPages t) = readers_ok t" "arena (reclaimRetiredPages t) = arena t"
  "activeReaderCount (reclaimRetiredPages t) = activeReaderCount t"
  by (simp_all add: reclaimRetiredPages_def Let_def readerCount_def readers_ok_def activeReaderCount_def
      split: prod.split)

lemma mset_filter_split: "mset (map f (filter (\<lambda>x. \<not> P x) xs)) + mset (map f (filter P xs)) = mset (map f xs)"
  by (induction xs) simp_all

lemma owned_reclaim [simp]: "owned (reclaimRetiredPages t) M = owned t M"
proof -
  let ?p = "\<lambda>r. snd (oldestReaderRevision t) \<and> fst (oldestReaderRevision t) \<le> rp_revision r"
  have "reclaimRetiredPages t = t\<lparr>free := free t @ map rp_id (filter (\<lambda>r. \<not> ?p r) (retired t)),
      retired := filter ?p (retired t)\<rparr>"
    by (simp add: reclaimRetiredPages_def Let_def split: prod.split)
  then show ?thesis
    using mset_filter_split [of rp_id ?p "retired t"] by (simp add: owned_def base_def union_assoc)
qed

lemma reclaim_keeps:
  assumes "x \<in> set (retired t)" "r \<in> fst ` set (activeReaders t)" "r \<le> rp_revision x"
  shows "x \<in> set (retired (reclaimRetiredPages t))"
  using assms oldest_le_reader [OF assms(2)]
  by (auto simp: reclaimRetiredPages_def Let_def split: prod.split)

text \<open>Without any reader every retired page becomes free.\<close>

definition noReaders :: "Tree \<Rightarrow> bool" where
  "noReaders t \<longleftrightarrow> activeReaders t = [] \<and>
     (\<forall>a scan. arena t = Some a \<longrightarrow> readerTable a = Some scan \<longrightarrow> (\<exists>r. scan (revision t) = Some (r, False)))"

lemma oldest_noReaders: "noReaders t \<Longrightarrow> \<not> snd (oldestReaderRevision t)"
  by (auto simp: noReaders_def oldestReaderRevision_def oldestReaderRevisionDetailed_def minReader_def
      split: option.splits prod.splits)

lemma reclaim_noReaders: "noReaders t \<Longrightarrow> retired (reclaimRetiredPages t) = []"
  by (drule oldest_noReaders) (auto simp: reclaimRetiredPages_def Let_def split: prod.splits)

section \<open>Versions held by readers\<close>

definition pins :: "comparator \<Rightarrow> nat \<Rightarrow> Tree \<Rightarrow> gtree option \<Rightarrow> u64 \<Rightarrow> gtree option \<Rightarrow> bool" where
  "pins cmp K t Cur r To \<longleftrightarrow> repOf cmp (degree t) K (pages t) To \<and>
     (\<forall>i. i \<in># idsOf To \<longrightarrow> i \<in># idsOf Cur \<or> (\<exists>x\<in>set (retired t). rp_id x = i \<and> r \<le> rp_revision x))"

lemma pins_current: "repOf cmp (degree t) K (pages t) To \<Longrightarrow> pins cmp K t To r To"
  by (simp add: pins_def)

lemma repOf_frame:
  "repOf cmp d K pgs To \<Longrightarrow> (\<And>i. i \<in># idsOf To \<Longrightarrow> pgs' i = pgs i) \<Longrightarrow> repOf cmp d K pgs' To"
  by (cases To) (auto intro: rep_frame)

text \<open>Staged mutations: what a reader sees stays, and what leaves the version is retired for it.\<close>

lemma pins_grows:
  assumes pin: "pins cmp K t A r To" and own: "owned t (idsOf A + R)" and own': "owned t' (idsOf B + R)"
    and g: "grows t t'" and r: "r \<le> revision t"
  shows "pins cmp K t' B r To"
proof -
  have nf: "i \<notin> fresh t" if "i \<in># idsOf To" for i
    using pin that owned_not_fresh [OF own, of i] retired_not_fresh [OF own]
    unfolding pins_def by auto
  have "repOf cmp (degree t') K (pages t') To"
    using pin growsD(1) [OF g] growsD(10) [OF g] nf unfolding pins_def by (auto intro: repOf_frame)
  moreover have "i \<in># idsOf B \<or> (\<exists>x\<in>set (retired t'). rp_id x = i \<and> r \<le> rp_revision x)"
    if i: "i \<in># idsOf To" for i
  proof -
    obtain xs where ret: "retired t' = retired t @ map (\<lambda>i. \<lparr>rp_id = i, rp_revision = revision t\<rparr>) xs"
      using g by (auto simp: grows_iff)
    consider (cur) "i \<in># idsOf A" | (old) x where "x \<in> set (retired t)" "rp_id x = i" "r \<le> rp_revision x"
      using pin i unfolding pins_def by blast
    then show ?thesis
    proof cases
      case old
      then show ?thesis using ret by auto
    next
      case cur
      have "base t' \<le> i" "i < nextPage t'"
        using owned_range [OF own, of i] cur growsD(7,8) [OF g] by auto
      then have "i \<in># mset_set {base t'..<nextPage t'}" by simp
      then have "i \<in># idsOf B + R + mset (free t') + mset (map rp_id (retired t'))"
        using own' unfolding owned_def by metis
      moreover have "count R i = 0"
      proof -
        have "1 \<le> count (idsOf A) i" using cur by (simp only: count_greater_eq_one_iff)
        moreover have "count (idsOf A) i + count R i \<le> 1"
          using owned_distinct [OF own, of i] by (simp only: count_union)
        ultimately show ?thesis by linarith
      qed
      then have "i \<notin># R" by (simp only: not_in_iff)
      moreover from this have "i \<notin># R" .
      moreover have "i \<notin> set (free t')" using owned_disjoint(1) [OF own, of i] cur growsD(9) [OF g] by auto
      moreover have "i \<notin> rp_id ` set (retired t)" using owned_disjoint(2) [OF own, of i] cur by auto
      ultimately have "i \<in># idsOf B \<or> i \<in> set xs" using ret by (auto simp: image_iff)
      moreover have "\<lparr>rp_id = i, rp_revision = revision t\<rparr> \<in> set (retired t')" if "i \<in> set xs"
        using that ret by auto
      ultimately show ?thesis using r by fastforce
    qed
  qed
  ultimately show ?thesis by (simp add: pins_def)
qed

lemma pins_reclaim:
  assumes "pins cmp K t Cur r To" "r \<in> fst ` set (activeReaders t)"
  shows "pins cmp K (reclaimRetiredPages t) Cur r To"
  using assms reclaim_keeps [OF _ assms(2)] unfolding pins_def by fastforce


section \<open>The invariant\<close>

definition linkedOf :: "pagemap \<Rightarrow> gtree option \<Rightarrow> bool" where
  "linkedOf pgs To \<longleftrightarrow> (\<forall>T. To = Some T \<longrightarrow> linked pgs (map fst (gleaves T)))"

text \<open>\<open>state_ok\<close> also holds between the staged mutations of a batch, \<open>tree_ok\<close> after publishing.\<close>

definition state_ok :: "comparator \<Rightarrow> nat \<Rightarrow> PageID multiset \<Rightarrow> Tree \<Rightarrow> gtree option \<Rightarrow> bool" where
  "state_ok cmp K R t To \<longleftrightarrow> version cmp K t To \<and> owned t (idsOf To + R) \<and> roomy (degree t) K \<and>
     readers_ok t \<and> cache_ok (treeCache t)"

definition tree_ok :: "comparator \<Rightarrow> nat \<Rightarrow> PageID multiset \<Rightarrow> Tree \<Rightarrow> gtree option \<Rightarrow> bool" where
  "tree_ok cmp K R t To \<longleftrightarrow> state_ok cmp K R t To \<and> (activeReaders t = [] \<longrightarrow> linkedOf (pages t) To)"

lemma state_okD:
  assumes "state_ok cmp K R t To"
  shows "version cmp K t To" "owned t (idsOf To + R)" "roomy (degree t) K" "readers_ok t"
    "cache_ok (treeCache t)" "compareKeys t = cmp" "root t = rootOf To"
    "treeLen t = int (length (entsOf To))" "repOf cmp (degree t) K (pages t) To"
  using assms by (simp_all add: state_ok_def version_def)

lemma tree_okD: "tree_ok cmp K R t To \<Longrightarrow> state_ok cmp K R t To"
  "tree_ok cmp K R t To \<Longrightarrow> activeReaders t = [] \<Longrightarrow> linkedOf (pages t) To"
  by (simp_all add: tree_ok_def)

text \<open>A new tree is empty and owns no page.\<close>

lemma tree_ok_New:
  assumes "roomy (normalizeDegree d) K"
  shows "tree_ok (normalizeKeyComparator (opt_KeyComparator opts)) K {#} (NewWithOptions d opts) None"
  using assms
  by (simp add: tree_ok_def state_ok_def version_def NewWithOptions_def compareKeys_def owned_def base_def
      readers_ok_def linkedOf_def)

text \<open>What every operation leaves alone.\<close>

definition sameTree :: "Tree \<Rightarrow> Tree \<Rightarrow> bool" where
  "sameTree t t' \<longleftrightarrow> degree t' = degree t \<and> keyComparator t' = keyComparator t \<and> closed t' = closed t \<and>
     readOnly t' = readOnly t"

lemma sameTree_refl [simp]: "sameTree t t"
  by (simp add: sameTree_def)

lemma sameTree_trans: "sameTree t t1 \<Longrightarrow> sameTree t1 t2 \<Longrightarrow> sameTree t t2"
  by (simp add: sameTree_def)

lemma grows_sameTree: "grows t t' \<Longrightarrow> sameTree t t'"
  by (simp add: grows_iff sameTree_def)

lemma settings_sameTree: "settings t = settings t' \<Longrightarrow> sameTree t' t"
  by (simp add: settings_eq sameTree_def)

lemma gids_once:
  assumes "owned t (idsOf (Some T) + R)" shows "count (gids T) i \<le> 1"
proof -
  have "count (gids T) i \<le> count (idsOf (Some T) + R) i" by simp
  then show ?thesis using owned_distinct [OF assms, of i] by (rule le_trans)
qed

lemma repOf_relinked: "repOf cmp d K pgs To \<Longrightarrow> relinked pgs pgs' \<Longrightarrow> repOf cmp d K pgs' To"
  by (cases To) (auto intro: rep_relinked)

lemma relink_ok:
  assumes ok: "state_ok cmp K R t To"
  obtains t' where "relinkLeaves t = Some t'" "tree_ok cmp K R t' To" "\<And>n. room t' n = room t n"
    "revision t' = revision t" "activeReaders t' = activeReaders t" "treeCache t' = treeCache t"
    "sameTree t t'" "\<And>r A. pins cmp K t To r A \<Longrightarrow> pins cmp K t' To r A" "retired t' = retired t"
    "free t' = free t" "relinked (pages t) (pages t')" "nextPage t' = nextPage t"
proof (cases To)
  case None
  then have "root t = 0" using state_okD(7) [OF ok] by simp
  then have "relinkLeaves t = Some t" by (simp add: relinkLeaves_def)
  moreover have "tree_ok cmp K R t To" using ok None by (simp add: tree_ok_def linkedOf_def)
  ultimately show thesis using that [of t] by simp
next
  case (Some T)
  note S = state_okD [OF ok]
  have rep: "rep (pages t) T" and root: "root t = gid T" using S(7,9) Some by simp_all
  have once: "count (gids T) i \<le> 1" for i using gids_once S(2) unfolding Some by blast
  obtain t' where t': "relinkLeaves t = Some t'" "relinked (pages t) (pages t')"
    "activeReaderCount t \<le> 0 \<Longrightarrow> linked (pages t') (map fst (gleaves T))"
    "\<And>i. i \<notin># gids T \<Longrightarrow> pages t' i = pages t i"
    "settings t' = settings t" "\<And>M. owned t' M = owned t M" "\<And>n. room t' n = room t n"
    "free t' = free t" "retired t' = retired t" "nextPage t' = nextPage t"
    by (rule relinkLeaves_ok [OF rep root once]) (rule that)
  note F = settingsD [OF t'(5)]
  have rp: "repOf cmp (degree t') K (pages t') A" if "repOf cmp (degree t) K (pages t) A" for A
    using repOf_relinked [OF that t'(2)] F(1) by simp
  have "readers_ok t'" using S(4) F(3,4) by (simp add: readers_ok_def)
  then have "state_ok cmp K R t' To"
    using S F rp [OF S(9)] t'(6) by (simp add: state_ok_def version_def)
  moreover have "linkedOf (pages t') To" if "activeReaders t' = []"
    using t'(3) that F(4) Some by (simp add: linkedOf_def activeReaderCount_def)
  ultimately have "tree_ok cmp K R t' To" by (simp add: tree_ok_def)
  moreover have "pins cmp K t' To r A" if "pins cmp K t To r A" for r A
    using that rp t'(9) by (auto simp: pins_def)
  ultimately show thesis using that [OF t'(1)] t' F settings_sameTree [OF t'(5)] by blast
qed

definition lastRevision :: u64 where "lastRevision = - 1"

lemma revision_Suc: "revision t \<noteq> lastRevision \<Longrightarrow> revision t < revision t + 1"
proof -
  assume "revision t \<noteq> lastRevision"
  then have "revision t < - 1" unfolding lastRevision_def by (simp add: word_order.not_eq_extremum [symmetric])
  then have "unat (revision t) < unat (- 1 :: u64)" by (simp only: word_less_nat_alt)
  then have "unat (revision t) + 1 < 2 ^ 64" by (simp add: unsigned_minus_1_eq_mask mask_eq_exp_minus_1)
  then show "revision t < revision t + 1" by (simp add: word_less_nat_alt unat_word_ariths)
qed

lemma publish_ok:
  assumes ok: "state_ok cmp K R t To" and rv: "revision t \<noteq> lastRevision"
  obtains t' where "publishStagedMutation t = Some t'" "tree_ok cmp K R t' To" "\<And>n. room t' n = room t n"
    "revision t' = revision t + 1" "activeReaders t' = activeReaders t" "treeCache t' = treeCache t"
    "sameTree t t'" "\<And>r A. r \<in> fst ` set (activeReaders t) \<Longrightarrow> pins cmp K t To r A \<Longrightarrow> pins cmp K t' To r A"
    "\<And>r A. r \<in> fst ` set (activeReaders t) \<Longrightarrow> pins cmp K t To r A \<Longrightarrow> pages t' = pages t"
proof -
  let ?t = "t\<lparr>revision := revision t + 1\<rparr>"
  have "r \<le> revision t + 1" if "r \<le> revision t" for r
    using revision_Suc [OF rv] that by simp
  then have "readers_ok ?t" using state_okD(4) [OF ok] by (auto simp: readers_ok_def)
  then have ok1: "state_ok cmp K R (reclaimRetiredPages ?t) To"
    using state_okD [OF ok] by (simp add: state_ok_def version_def)
  obtain t' where t': "relinkLeaves (reclaimRetiredPages ?t) = Some t'" "tree_ok cmp K R t' To"
    "\<And>n. room t' n = room (reclaimRetiredPages ?t) n"
    "revision t' = revision (reclaimRetiredPages ?t)" "activeReaders t' = activeReaders (reclaimRetiredPages ?t)"
    "treeCache t' = treeCache (reclaimRetiredPages ?t)"
    "sameTree (reclaimRetiredPages ?t) t'"
    "\<And>r A. pins cmp K (reclaimRetiredPages ?t) To r A \<Longrightarrow> pins cmp K t' To r A"
    "retired t' = retired (reclaimRetiredPages ?t)" "free t' = free (reclaimRetiredPages ?t)"
    "relinked (pages (reclaimRetiredPages ?t)) (pages t')" "nextPage t' = nextPage (reclaimRetiredPages ?t)"
    by (rule relink_ok [OF ok1]) (rule that)
  have pin: "pins cmp K t' To r A" if "r \<in> fst ` set (activeReaders t)" "pins cmp K t To r A" for r A
  proof (rule t'(8), rule pins_reclaim)
    show "pins cmp K ?t To r A" using that(2) by (simp add: pins_def)
    show "r \<in> fst ` set (activeReaders ?t)" using that(1) by simp
  qed
  have same: "pages t' = pages t" if "r \<in> fst ` set (activeReaders t)" for r
  proof -
    have "activeReaders (reclaimRetiredPages ?t) \<noteq> []" using that by auto
    then have "0 < activeReaderCount (reclaimRetiredPages ?t)"
      using activeReaderCount_pos [OF state_okD(4) [OF ok1]] by linarith
    then have "t' = reclaimRetiredPages ?t" using t'(1) by (auto simp: relinkLeaves_def split: if_splits)
    then show ?thesis by simp
  qed
  have "sameTree t t'" using t'(7) by (simp add: sameTree_def reclaimRetiredPages_def Let_def split: prod.splits)
  then show thesis using that [of t'] t'(1-6) pin same by (simp add: publishStagedMutation_def)
qed

end
