(* ===== verification/TreeCorrect.thy ===== *)
theory TreeCorrect
  imports Versions
begin

text \<open>
  The public operations of a tree and of its snapshots are correct: each keeps the invariant
  \<open>tree_ok\<close>, acts on the stored map as its name says, and leaves the versions that open
  snapshots hold.  The costs are upper bounds of the pages an operation may allocate.
\<close>

section \<open>Mutations\<close>

text \<open>What a published mutation leaves: the new entries, and every version a reader holds.\<close>

definition mutated :: "comparator \<Rightarrow> nat \<Rightarrow> PageID multiset \<Rightarrow> nat \<Rightarrow> Tree \<Rightarrow> gtree option \<Rightarrow>
    (key \<times> bytes) list \<Rightarrow> Tree \<Rightarrow> gtree option \<Rightarrow> bool" where
  "mutated cmp K R n t To es t' To' \<longleftrightarrow>
     tree_ok cmp K R t' To' \<and> entsOf To' = es \<and> room t' n \<and> sameTree t t' \<and>
     activeReaders t' = activeReaders t \<and> revision t \<le> revision t' \<and>
     (\<forall>r A. r \<in> fst ` set (activeReaders t) \<longrightarrow> r \<le> revision t \<longrightarrow> pins cmp K t To r A \<longrightarrow>
        pins cmp K t' To' r A)"

lemma mutatedD:
  assumes "mutated cmp K R n t To es t' To'"
  shows "tree_ok cmp K R t' To'" "entsOf To' = es" "room t' n" "sameTree t t'"
    "activeReaders t' = activeReaders t" "revision t \<le> revision t'"
    "r \<in> fst ` set (activeReaders t) \<Longrightarrow> r \<le> revision t \<Longrightarrow> pins cmp K t To r A \<Longrightarrow> pins cmp K t' To' r A"
  using assms by (simp_all add: mutated_def)

lemma publish_mutated:
  assumes own: "owned t (idsOf To + R)" and ok: "state_ok cmp K R t1 To'" and g: "grows t t1"
    and rv: "revision t \<noteq> lastRevision" and room: "room t1 n"
  obtains t' where "publishStagedMutation t1 = Some t'" "mutated cmp K R n t To (entsOf To') t' To'"
    "revision t' = revision t + 1" "treeCache t' = treeCache t1"
    "\<And>r A. r \<in> fst ` set (activeReaders t) \<Longrightarrow> pages t' = pages t1"
proof -
  have rv1: "revision t1 \<noteq> lastRevision" using rv growsD(3) [OF g] by simp
  obtain t' where t': "publishStagedMutation t1 = Some t'" "tree_ok cmp K R t' To'" "\<And>n. room t' n = room t1 n"
    "revision t' = revision t1 + 1" "activeReaders t' = activeReaders t1" "treeCache t' = treeCache t1"
    "sameTree t1 t'" "\<And>r A. r \<in> fst ` set (activeReaders t1) \<Longrightarrow> pins cmp K t1 To' r A \<Longrightarrow> pins cmp K t' To' r A"
    "\<And>r A. r \<in> fst ` set (activeReaders t1) \<Longrightarrow> pins cmp K t1 To' r A \<Longrightarrow> pages t' = pages t1"
    by (rule publish_ok [OF ok rv1]) (rule that)
  have own1: "owned t1 (idsOf To' + R)" using state_okD(2) [OF ok] .
  have pin: "pins cmp K t' To' r A"
    if "r \<in> fst ` set (activeReaders t)" "r \<le> revision t" "pins cmp K t To r A" for r A
    using t'(8) [of r A] that pins_grows [OF that(3) own own1 g that(2)] growsD(4) [OF g] by simp
  have le: "revision t \<le> revision t'" using revision_Suc [OF rv] t'(4) growsD(3) [OF g] by simp
  have m: "mutated cmp K R n t To (entsOf To') t' To'"
    unfolding mutated_def
    using t'(2,3,5) room pin le growsD(4) [OF g] sameTree_trans [OF grows_sameTree [OF g] t'(7)] by simp
  have "pins cmp K t1 To' r To'" for r by (rule pins_current) (rule state_okD(9) [OF ok])
  then have "pages t' = pages t1" if "r \<in> fst ` set (activeReaders t)" for r
    using t'(9) [of r To'] that growsD(4) [OF g] by simp
  then show thesis using that [OF t'(1) m] t'(4,6) growsD(3) [OF g] by simp
qed

lemma state_ok_grows:
  assumes "state_ok cmp K R t To" "version cmp K t' To'" "owned t' (idsOf To' + R)" "grows t t'"
    "cache_ok (treeCache t')"
  shows "state_ok cmp K R t' To'"
  using assms growsD(1,3,4) [OF assms(4)] by (auto simp: state_ok_def readers_ok_def)

context key_comparator
begin

lemma putStaged_state:
  assumes ok: "state_ok cmp K R t To" and run: "\<not> closed t" "\<not> readOnly t"
    and room: "room t (putCost (degree t) v (heightOf To) + n)"
    and k: "length k \<le> K" and v: "length v < 2 ^ 63"
  shows "\<exists>t' old existed To'. putStaged t k v = Some (t', old, existed, True) \<and>
    (old, existed) = putResult k (entsOf To) \<and> state_ok cmp K R t' To' \<and>
    entsOf To' = put_list cmp k v (entsOf To) \<and> room t' n \<and> grows t t' \<and> treeCache t' = treeCache t \<and>
    heightOf To' \<le> Suc (heightOf To) \<and> (filledOf (degree t) To \<longrightarrow> filledOf (degree t) To')"
proof -
  note S = state_okD [OF ok]
  obtain t' old existed To' where p: "putStaged t k v = Some (t', old, existed, True)"
    "(old, existed) = putResult k (entsOf To)" "version cmp K t' To'"
    "entsOf To' = put_list cmp k v (entsOf To)" "owned t' (idsOf To' + R)" "room t' n" "grows t t'" "treeCache t' = treeCache t"
    "heightOf To' \<le> Suc (heightOf To)" "filledOf (degree t) To \<longrightarrow> filledOf (degree t) To'"
    using putStaged_ok [OF S(1,2) room run S(3) k v] by blast
  show ?thesis using p state_ok_grows [OF ok p(3,5,7)] S(5) by auto
qed

theorem treePut_ok:
  assumes ok: "tree_ok cmp K R t To" and run: "\<not> closed t" "\<not> readOnly t"
    and room: "room t (putCost (degree t) v (heightOf To) + n)" and rv: "revision t \<noteq> lastRevision"
    and k: "length k \<le> K" and v: "length v < 2 ^ 63"
  shows "\<exists>t' To'. treePut t k v = Some (t', putResult k (entsOf To)) \<and>
    mutated cmp K R n t To (put_list cmp k v (entsOf To)) t' To' \<and> revision t' = revision t + 1"
proof -
  note S = tree_okD(1) [OF ok]
  obtain t1 old existed To' where p: "putStaged t k v = Some (t1, old, existed, True)"
    "(old, existed) = putResult k (entsOf To)" "state_ok cmp K R t1 To'"
    "entsOf To' = put_list cmp k v (entsOf To)" "room t1 n" "grows t t1"
    using putStaged_state [OF S run room k v] by blast
  obtain t' where t': "publishStagedMutation t1 = Some t'" "mutated cmp K R n t To (entsOf To') t' To'"
    "revision t' = revision t + 1" "treeCache t' = treeCache t1"
    by (rule publish_mutated [OF state_okD(2) [OF S] p(3,6) rv p(5)]) (rule that)
  have "treePut t k v = Some (t', putResult k (entsOf To))"
    using p(1) t'(1) by (simp add: treePut_def publishIf_def p(2) [symmetric])
  then show ?thesis using p(4) t'(2,3) by auto
qed

lemma deleteStaged_state:
  assumes ok: "state_ok cmp K R t To" and run: "\<not> closed t" "\<not> readOnly t"
    and room: "room t (delCost (degree t) (heightOf To) + n)" and coh: "coherent (pages t) (treeCache t)"
  shows "\<exists>t' To'. deleteStaged t k = Some (t', deleteResult k (entsOf To)) \<and> state_ok cmp K R t' To' \<and>
    entsOf To' = del_list k (entsOf To) \<and> room t' n \<and> grows t t' \<and> heightOf To' \<le> heightOf To \<and>
    (map_of (entsOf To) k = None \<longrightarrow> To' = To \<and> (\<exists>c. t' = t\<lparr>treeCache := c\<rparr>))"
proof -
  note S = state_okD [OF ok]
  obtain t' To' where d: "deleteStaged t k = Some (t', deleteResult k (entsOf To))" "version cmp K t' To'"
    "entsOf To' = del_list k (entsOf To)" "owned t' (idsOf To' + R)" "room t' n" "grows t t'"
    "cache_ok (treeCache t')" "heightOf To' \<le> heightOf To" "map_of (entsOf To) k = None \<longrightarrow> To' = To \<and> (\<exists>c. t' = t\<lparr>treeCache := c\<rparr>)"
    using deleteStaged_ok [OF S(1,2) room run S(3,5) coh] by blast
  then show ?thesis using state_ok_grows [OF ok d(2,4,6,7)] by (intro exI [of _ t'] exI [of _ To']) simp
qed

lemma tree_ok_cache:
  assumes "tree_ok cmp K R t To" "cache_ok c"
  shows "tree_ok cmp K R (t\<lparr>treeCache := c\<rparr>) To"
  using assms by (simp add: tree_ok_def state_ok_def version_def readers_ok_def)

lemma pins_cache [simp]: "pins cmp K (t\<lparr>treeCache := c\<rparr>) Cur r A = pins cmp K t Cur r A"
  by (simp add: pins_def)

lemma mutated_cache:
  assumes "tree_ok cmp K R t To" "cache_ok c" "room t n"
  shows "mutated cmp K R n t To (entsOf To) (t\<lparr>treeCache := c\<rparr>) To"
  using tree_ok_cache [OF assms(1,2)] assms(3) by (simp add: mutated_def sameTree_def)

theorem treeDelete_ok:
  assumes ok: "tree_ok cmp K R t To" and run: "\<not> closed t" "\<not> readOnly t"
    and room: "room t (delCost (degree t) (heightOf To) + n)" and rv: "revision t \<noteq> lastRevision"
    and coh: "coherent (pages t) (treeCache t)"
  shows "\<exists>t' To'. treeDelete t k = Some (t', putResult k (entsOf To)) \<and>
    mutated cmp K R n t To (del_list k (entsOf To)) t' To' \<and>
    revision t' = (if map_of (entsOf To) k = None then revision t else revision t + 1)"
proof -
  note S = tree_okD(1) [OF ok]
  obtain t1 To' where d: "deleteStaged t k = Some (t1, deleteResult k (entsOf To))" "state_ok cmp K R t1 To'"
    "entsOf To' = del_list k (entsOf To)" "room t1 n" "grows t t1"
    "map_of (entsOf To) k = None \<longrightarrow> To' = To \<and> (\<exists>c. t1 = t\<lparr>treeCache := c\<rparr>)"
    using deleteStaged_state [OF S run room coh] by blast
  show ?thesis
  proof (cases "map_of (entsOf To) k")
    case None
    then obtain c where c: "t1 = t\<lparr>treeCache := c\<rparr>" using d(6) by blast
    have "del_list k (entsOf To) = entsOf To"
      using None by (intro del_list_notin) (simp add: map_of_eq_None_iff)
    moreover have "cache_ok c" using state_okD(5) [OF d(2)] c by simp
    moreover have "room t n" by (rule room_le [OF room]) simp
    ultimately show ?thesis
      using None d(1) c mutated_cache [OF ok]
      by (intro exI [of _ t1] exI [of _ To]) (simp add: treeDelete_def publishIf_def deleteResult_def putResult_def)
  next
    case (Some w)
    obtain t' where t': "publishStagedMutation t1 = Some t'" "mutated cmp K R n t To (entsOf To') t' To'"
      "revision t' = revision t + 1" "treeCache t' = treeCache t1"
      by (rule publish_mutated [OF state_okD(2) [OF S] d(2,5) rv d(4)]) (rule that)
    have "treeDelete t k = Some (t', putResult k (entsOf To))"
      using d(1) t'(1) Some by (simp add: treeDelete_def publishIf_def deleteResult_def putResult_def)
    then show ?thesis using Some d(3) t'(2,3) by auto
  qed
qed

section \<open>Reading\<close>

theorem treeGet_tree_ok:
  assumes ok: "tree_ok cmp K R t To" and run: "\<not> closed t" and coh: "coherent (pages t) (treeCache t)"
  shows "\<exists>c. treeGet t k = Some (map_of (entsOf To) k, t\<lparr>treeCache := c\<rparr>) \<and>
    tree_ok cmp K R (t\<lparr>treeCache := c\<rparr>) To \<and> coherent (pages t) c"
  using treeGet_ok [OF state_okD(1,5) [OF tree_okD(1) [OF ok]] coh run, of k] tree_ok_cache [OF ok] by blast

end

text \<open>Scans change the hint counters of the tree and nothing else.\<close>

definition plain :: "Tree \<Rightarrow> Tree" where
  "plain t = t\<lparr>rangePrefetchHints := 0, rangePrefetchPages := 0\<rparr>"

lemma plain_eq:
  "plain t' = plain t \<longleftrightarrow> (\<exists>a b. t' = t\<lparr>rangePrefetchHints := a, rangePrefetchPages := b\<rparr>)"
proof
  assume e: "plain t' = plain t"
  have "t' = (plain t')\<lparr>rangePrefetchHints := rangePrefetchHints t', rangePrefetchPages := rangePrefetchPages t'\<rparr>"
    by (simp add: plain_def)
  then show "\<exists>a b. t' = t\<lparr>rangePrefetchHints := a, rangePrefetchPages := b\<rparr>"
    unfolding e by (auto simp: plain_def)
qed (auto simp: plain_def)

lemma plain_flushRun: "plain (snd (flushRun os_advise e r)) = plain (snd r)"
  by (auto simp: flushRun_def plain_def split: prod.split)

lemma plain_prefetchRun: "plain (snd (snd (prefetchRun os_advise is advised r))) = plain (snd r)"
  by (induction "is" arbitrary: advised r) (simp_all add: plain_flushRun)

lemma silent_prefetcher:
  "silent (\<lambda>(s, advised, t). (s, plain t)) (rangePrefetcher os_advise t)"
  unfolding silent_def
proof (intro allI impI)
  fix g :: "'a \<times> PageID set \<times> Tree \<Rightarrow> PageID \<Rightarrow> PageID \<Rightarrow> 'a \<times> PageID set \<times> Tree"
    and x :: "'a \<times> PageID set \<times> Tree" and i j
  assume g: "rangePrefetcher os_advise t = Some g"
  obtain s :: 'a and ad :: "PageID set" and u where x: "x = (s, ad, u)" by (cases x) auto
  obtain ad' r where r: "prefetchRun os_advise (pageRange i j) ad (0, u) = (ad', r)"
    by (cases "prefetchRun os_advise (pageRange i j) ad (0, u)")
  have "plain (snd (flushRun os_advise j r)) = plain u"
    using plain_prefetchRun [of os_advise "pageRange i j" ad "(0, u)"] r by (simp add: plain_flushRun)
  then show "(case g x i j of (s, advised, t) \<Rightarrow> (s, plain t)) = (case x of (s, advised, t) \<Rightarrow> (s, plain t))"
    using g x r by (auto simp: rangePrefetcher_def split: if_splits)
qed

definition keepSnd :: "'s visitor \<Rightarrow> ('s \<times> 'w) visitor" where
  "keepSnd visit = (\<lambda>(s, w) k v. ((fst (visit s k v), w), snd (visit s k v)))"

lemma sees_withHints: "sees (\<lambda>(s, advised, t). (s, plain t)) (withHints visit) (keepSnd visit)"
  by (auto simp: sees_def withHints_def keepSnd_def split: prod.splits)

lemma visitList_keepSnd: "fst (visitList (keepSnd visit) (s, w) ps) = (fst (visitList visit s ps), w)"
  by (induction ps arbitrary: s) (auto simp: keepSnd_def split: prod.splits)

lemma rangeWith_ok:
  assumes run: "\<not> closed t"
    and lnk: "activeReaderCount t = 0 \<Longrightarrow> \<exists>x. linked_scan (s, {}, t) = Some (x, True) \<and>
      (case x of (s', advised, t') \<Rightarrow> (s', plain t')) = fst (visitList (keepSnd visit) (s, plain t) ps)"
    and recu: "recursive_scan s = Some (visitList visit s ps)"
  shows "\<exists>a b. rangeWith t linked_scan recursive_scan s =
    Some (fst (visitList visit s ps), t\<lparr>rangePrefetchHints := a, rangePrefetchPages := b\<rparr>)"
proof (cases "activeReaderCount t = 0")
  case True
  then obtain s' ad t' where x: "linked_scan (s, {}, t) = Some ((s', ad, t'), True)"
    "(s', plain t') = (fst (visitList visit s ps), plain t)"
    using lnk by (auto simp: visitList_keepSnd)
  then obtain a b where "t' = t\<lparr>rangePrefetchHints := a, rangePrefetchPages := b\<rparr>"
    using plain_eq [of t' t] by auto
  then show ?thesis using x True run by (auto simp: rangeWith_def)
next
  case False
  obtain s' ok where v: "visitList visit s ps = (s', ok)" by (cases "visitList visit s ps")
  show ?thesis
    by (rule exI [of _ "rangePrefetchHints t"], rule exI [of _ "rangePrefetchPages t"])
       (use False run recu v in \<open>simp add: rangeWith_def\<close>)
qed

lemma tree_ok_hints [simp]:
  "tree_ok cmp K R (t\<lparr>rangePrefetchHints := a, rangePrefetchPages := b\<rparr>) To = tree_ok cmp K R t To"
  by (simp add: tree_ok_def state_ok_def version_def compareKeys_def owned_def base_def readers_ok_def)

context key_comparator
begin

lemma root_leaves:
  assumes ok: "tree_ok cmp K R t (Some T)"
  shows "rep (pages t) T" "shape (degree t) K T" "ordered cmp T" "distinct (map fst (gleaves T))"
    "activeReaderCount t = 0 \<Longrightarrow> linked (pages t) (map fst (gleaves T))" "root t = gid T" "compareKeys t = cmp"
proof -
  note S = state_okD [OF tree_okD(1) [OF ok]]
  show "rep (pages t) T" "shape (degree t) K T" "ordered cmp T" "root t = gid T" "compareKeys t = cmp"
    using S(6,7,9) by (simp_all add: ordered_def)
  show "distinct (map fst (gleaves T))" by (rule leafIDs_distinct [OF gids_once [OF S(2)]])
  show "linked (pages t) (map fst (gleaves T))" if "activeReaderCount t = 0"
    using tree_okD(2) [OF ok] activeReaderCount_pos(2) [OF S(4)] that by (simp add: linkedOf_def)
qed

lemma empty_scans:
  "rangeLinkedLeaves pgs 0 c w pf visit s = Some (s, True)"
  "rangeLinkedLeavesFrom pgs 0 lo c w pf visit s = Some (s, True)"
  "rangeLinkedLeavesBetween pgs 0 lo hi c w pf visit s = Some (s, True)"
  "rangePage pgs 0 c visit2 s2 = Some (s2, True)" "rangePageFrom pgs 0 lo c visit2 s2 = Some (s2, True)"
  "rangePageBetween pgs 0 lo hi c visit2 s2 = Some (s2, True)"
  by (simp_all add: rangeLinkedLeaves_def rangeLinkedLeavesFrom_def rangeLinkedLeavesBetween_def
      leftmostLeaf.simps leafForKey.simps linkedLoop.simps rangePage.simps rangePageFrom.simps
      rangePageBetween.simps)

theorem treeRange_ok:
  assumes ok: "tree_ok cmp K R t To" and run: "\<not> closed t"
  shows "\<exists>a b. treeRange os_advise t visit s =
    Some (fst (visitList visit s (entsOf To)), t\<lparr>rangePrefetchHints := a, rangePrefetchPages := b\<rparr>)"
  unfolding treeRange_def
proof (rule rangeWith_ok [OF run])
  note S = state_okD [OF tree_okD(1) [OF ok]]
  show "\<exists>x. rangeLinkedLeaves (pages t) (root t) (compareKeys t) (rangePrefetchLeafWindow t)
      (rangePrefetcher os_advise t) (withHints visit) (s, {}, t) = Some (x, True) \<and>
      (case x of (s', advised, t') \<Rightarrow> (s', plain t')) = fst (visitList (keepSnd visit) (s, plain t) (entsOf To))"
    if "activeReaderCount t = 0"
  proof (cases To)
    case None
    then show ?thesis using S(7) by (simp add: empty_scans)
  next
    case (Some T)
    note L = root_leaves [OF ok [unfolded Some]]
    show ?thesis
      using rangeLinkedLeaves_ok [OF L(1-3) L(5) [OF that] L(4) sees_withHints silent_prefetcher, where s = "(s, {}, t)"]
      using Some L(6,7) by simp
  qed
  show "rangePage (pages t) (root t) (compareKeys t) visit s = Some (visitList visit s (entsOf To))"
    using S(7) rangePage_ok root_leaves ok by (cases To) (fastforce simp: empty_scans)+
qed

text \<open>The entries a scan from \<open>lo\<close>, or between \<open>lo\<close> and \<open>hi\<close>, visits.\<close>

definition between :: "key \<Rightarrow> key \<Rightarrow> (key \<times> bytes) list \<Rightarrow> (key \<times> bytes) list" where
  "between lo hi es = (if cmp lo hi < 0 then below_key cmp hi (atLeast_key cmp lo es) else [])"

theorem treeRangeFrom_ok:
  assumes ok: "tree_ok cmp K R t To" and run: "\<not> closed t"
  shows "\<exists>a b. treeRangeFrom os_advise t lo visit s =
    Some (fst (visitList visit s (atLeast_key cmp lo (entsOf To))),
          t\<lparr>rangePrefetchHints := a, rangePrefetchPages := b\<rparr>)"
  unfolding treeRangeFrom_def
proof (rule rangeWith_ok [OF run])
  note S = state_okD [OF tree_okD(1) [OF ok]]
  show "\<exists>x. rangeLinkedLeavesFrom (pages t) (root t) lo (compareKeys t) (rangePrefetchLeafWindow t)
      (rangePrefetcher os_advise t) (withHints visit) (s, {}, t) = Some (x, True) \<and>
      (case x of (s', advised, t') \<Rightarrow> (s', plain t')) =
        fst (visitList (keepSnd visit) (s, plain t) (atLeast_key cmp lo (entsOf To)))"
    if "activeReaderCount t = 0"
  proof (cases To)
    case None
    then show ?thesis using S(7) by (simp add: empty_scans)
  next
    case (Some T)
    note L = root_leaves [OF ok [unfolded Some]]
    show ?thesis
      using rangeLinkedLeavesFrom_ok [OF L(1-3) L(5) [OF that] L(4) sees_withHints silent_prefetcher, where s = "(s, {}, t)"]
      using Some L(6,7) by simp
  qed
  show "rangePageFrom (pages t) (root t) lo (compareKeys t) visit s =
      Some (visitList visit s (atLeast_key cmp lo (entsOf To)))"
    using S(7) rangePageFrom_ok root_leaves ok by (cases To) (fastforce simp: empty_scans)+
qed

theorem treeRangeBetween_ok:
  assumes ok: "tree_ok cmp K R t To" and run: "\<not> closed t"
  shows "\<exists>a b. treeRangeBetween os_advise t lo hi visit s =
    Some (fst (visitList visit s (between lo hi (entsOf To))),
          t\<lparr>rangePrefetchHints := a, rangePrefetchPages := b\<rparr>)"
  unfolding treeRangeBetween_def
proof (rule rangeWith_ok [OF run])
  note S = state_okD [OF tree_okD(1) [OF ok]]
  show "\<exists>x. rangeLinkedLeavesBetween (pages t) (root t) lo hi (compareKeys t) (rangePrefetchLeafWindow t)
      (rangePrefetcher os_advise t) (withHints visit) (s, {}, t) = Some (x, True) \<and>
      (case x of (s', advised, t') \<Rightarrow> (s', plain t')) =
        fst (visitList (keepSnd visit) (s, plain t) (between lo hi (entsOf To)))"
    if "activeReaderCount t = 0"
  proof (cases To)
    case None
    then show ?thesis using S(7) by (simp add: empty_scans between_def)
  next
    case (Some T)
    note L = root_leaves [OF ok [unfolded Some]]
    show ?thesis
      using rangeLinkedLeavesBetween_ok [OF L(1-3) L(5) [OF that] L(4) sees_withHints silent_prefetcher, where s = "(s, {}, t)"]
      using Some L(6,7) by (simp add: between_def)
  qed
  show "rangePageBetween (pages t) (root t) lo hi (compareKeys t) visit s =
      Some (visitList visit s (between lo hi (entsOf To)))"
  proof (cases To)
    case None
    then show ?thesis using S(7) by (simp add: empty_scans between_def)
  next
    case (Some T)
    note L = root_leaves [OF ok [unfolded Some]]
    show ?thesis using rangePageBetween_ok [OF L(1-3), of lo hi visit s] Some L(6,7) by (simp add: between_def)
  qed
qed

section \<open>Snapshots\<close>

text \<open>\<open>holds_view pgs s To\<close>: an open snapshot whose version is \<open>To\<close> on these pages.\<close>

definition holds_view :: "Snapshot \<Rightarrow> gtree option \<Rightarrow> bool" where
  "holds_view s To \<longleftrightarrow> \<not> sn_closed s \<and> sn_hasTree s \<and> sn_root s = rootOf To \<and>
     sn_length s = int (length (entsOf To)) \<and> sn_keyComparator s = Some cmp"

theorem treeSnapshot_ok:
  assumes ok: "tree_ok cmp K R t To" and run: "\<not> closed t"
  shows "\<exists>s t'. treeSnapshot t = (s, t') \<and> holds_view s To \<and> sn_revision s = revision t \<and>
    tree_ok cmp K R t' To \<and> pins cmp K t' To (revision t) To \<and>
    (\<forall>r A. pins cmp K t To r A \<longrightarrow> pins cmp K t' To r A) \<and>
    (\<forall>r. readerCount t' r = readerCount t r + (if r = revision t then 1 else 0)) \<and>
    pages t' = pages t \<and> revision t' = revision t \<and> (\<forall>n. room t' n = room t n) \<and> sameTree t t' \<and>
    treeCache t' = treeCache t"
proof -
  note S = state_okD [OF tree_okD(1) [OF ok]]
  let ?t = "beginRead t (revision t)"
  have "readers_ok ?t" by (rule readers_ok_beginRead [OF S(4)]) simp
  then have st: "state_ok cmp K R ?t To" using S by (simp add: state_ok_def version_def)
  have "readerCount ?t (revision t) = readerCount t (revision t) + 1" by (simp add: readerCount_beginRead)
  then have "activeReaders ?t \<noteq> []"
    using readerCount_in [OF S(4), of "revision t"] readerCount_in(1) [OF \<open>readers_ok ?t\<close>, of "revision t"] by auto
  then have "tree_ok cmp K R ?t To" using st by (simp add: tree_ok_def)
  moreover have "pins cmp K ?t To (revision t) To" by (rule pins_current) (use S(9) in simp)
  moreover have "\<forall>r A. pins cmp K t To r A \<longrightarrow> pins cmp K ?t To r A" by (simp add: pins_def)
  moreover have "sameTree t ?t" by (simp add: sameTree_def beginRead_def)
  ultimately show ?thesis using S run
    by (auto simp: treeSnapshot_def holds_view_def readerCount_beginRead)
qed

lemma snap_root:
  assumes "holds_view s To" "repOf cmp d K pgs To"
  shows "snapCompareKeys s = cmp" "sn_root s = rootOf To" "\<not> sn_closed s"
    "To = Some T \<Longrightarrow> rep pgs T \<and> shape d K T \<and> ordered cmp T"
  using assms by (auto simp: holds_view_def snapCompareKeys_def ordered_def)

lemma searchPage_root0: "searchPage pgs 0 k c = Some None"
  by (simp add: searchPage.simps)

theorem snapGet_ok:
  assumes "holds_view s To" "repOf cmp d K pgs To"
  shows "snapGet pgs s k = Some (map_of (entsOf To) k)"
  using snap_root [OF assms] searchPage_ok searchPage_root0 by (cases To) (auto simp: snapGet_def)

theorem snapRange_ok:
  assumes "holds_view s To" "repOf cmp d K pgs To"
  shows "snapRange pgs s visit x = Some (fst (visitList visit x (entsOf To)))"
    "snapRangeFrom pgs s lo visit x = Some (fst (visitList visit x (atLeast_key cmp lo (entsOf To))))"
    "snapRangeBetween pgs s lo hi visit x = Some (fst (visitList visit x (between lo hi (entsOf To))))"
proof -
  note S = snap_root [OF assms]
  show "snapRange pgs s visit x = Some (fst (visitList visit x (entsOf To)))"
  proof (cases To)
    case (Some T)
    then show ?thesis using S rangePage_ok [of pgs T d K visit x] by (simp add: snapRange_def)
  qed (use S in \<open>simp add: snapRange_def empty_scans\<close>)
  show "snapRangeFrom pgs s lo visit x = Some (fst (visitList visit x (atLeast_key cmp lo (entsOf To))))"
  proof (cases To)
    case (Some T)
    then show ?thesis using S rangePageFrom_ok [of pgs T d K lo visit x] by (simp add: snapRangeFrom_def)
  qed (use S in \<open>simp add: snapRangeFrom_def empty_scans\<close>)
  show "snapRangeBetween pgs s lo hi visit x = Some (fst (visitList visit x (between lo hi (entsOf To))))"
  proof (cases To)
    case (Some T)
    then show ?thesis using S rangePageBetween_ok [of pgs T d K lo hi visit x]
      by (simp add: snapRangeBetween_def between_def)
  qed (use S in \<open>simp add: snapRangeBetween_def empty_scans between_def\<close>)
qed

text \<open>Closing a reader reclaims what only it held, and relinks the leaves after the last one.\<close>

lemma endRead_readers:
  assumes ok: "readers_ok t" and in_use: "1 \<le> readerCount t r"
  shows "readers_ok (endRead t r)" "readerCount (endRead t r) q = readerCount t q - (if q = r then 1 else 0)"
    "endRead t r = reclaimRetiredPages (t\<lparr>activeReaders := activeReaders (endRead t r)\<rparr>)"
proof -
  let ?ar = "if readerCount t r \<le> 1 then AList.delete r (activeReaders t)
    else AList.update r (readerCount t r - 1) (activeReaders t)"
  have e: "endRead t r = reclaimRetiredPages (t\<lparr>activeReaders := ?ar\<rparr>)"
    by (simp add: endRead_def Let_def)
  then have ar: "activeReaders (endRead t r) = ?ar" by simp
  show "endRead t r = reclaimRetiredPages (t\<lparr>activeReaders := activeReaders (endRead t r)\<rparr>)"
    using e ar by simp
  have d: "distinct (map fst (activeReaders t))" using ok by (simp add: readers_ok_def)
  have "r \<in> fst ` set (activeReaders t)" using readerCount_in(1) [OF ok] in_use by blast
  then have r: "r \<le> revision t" using ok by (auto simp: readers_ok_def)
  have "readers_ok (t\<lparr>activeReaders := ?ar\<rparr>)"
    using ok r d set_delete_subset [of r "activeReaders t"]
    by (auto simp: readers_ok_def distinct_delete distinct_update set_update_distinct)
  then show "readers_ok (endRead t r)" by (simp add: e)
  have "readerCount (endRead t r) q = readerCount (t\<lparr>activeReaders := ?ar\<rparr>) q"
    by (simp only: e reclaim_fields)
  also have "\<dots> = readerCount t q - (if q = r then 1 else 0)"
    using in_use by (auto simp: readerCount_def delete_conv update_conv split: if_splits)
  finally show "readerCount (endRead t r) q = readerCount t q - (if q = r then 1 else 0)" .
qed

lemma endRead_state:
  assumes ok: "tree_ok cmp K R t To" and count: "1 \<le> readerCount t r"
  shows "state_ok cmp K R (endRead t r) To"
proof -
  note S = state_okD [OF tree_okD(1) [OF ok]] and E = endRead_readers [OF state_okD(4) [OF tree_okD(1) [OF ok]] count]
  define u where "u = t\<lparr>activeReaders := activeReaders (endRead t r)\<rparr>"
  have t1: "endRead t r = reclaimRetiredPages u" using E(3) by (simp add: u_def)
  have "readers_ok u" using E(1) unfolding t1 by simp
  then have "state_ok cmp K R u To" using S by (simp add: u_def state_ok_def version_def)
  then show ?thesis unfolding t1 by (simp add: state_ok_def version_def)
qed

theorem snapClose_ok:
  assumes ok: "tree_ok cmp K R t To" and run: "\<not> closed t" "\<not> readOnly t"
    and s: "\<not> sn_closed s" "sn_hasTree s" and count: "1 \<le> readerCount t (sn_revision s)"
  shows "\<exists>t'. snapClose s t = Some (s\<lparr>sn_closed := True\<rparr>, t') \<and> tree_ok cmp K R t' To \<and>
    (\<forall>r. readerCount t' r = readerCount t r - (if r = sn_revision s then 1 else 0)) \<and>
    (\<forall>r A. 1 \<le> readerCount t' r \<longrightarrow> pins cmp K t To r A \<longrightarrow> pins cmp K t' To r A) \<and>
    revision t' = revision t \<and> (\<forall>n. room t' n = room t n) \<and> sameTree t t' \<and> treeCache t' = treeCache t"
proof -
  note S = state_okD [OF tree_okD(1) [OF ok]]
  let ?t1 = "endRead t (sn_revision s)"
  note E = endRead_readers [OF S(4) count]
  define u where "u = t\<lparr>activeReaders := activeReaders ?t1\<rparr>"
  have t1: "?t1 = reclaimRetiredPages u" using E(3) by (simp add: u_def)
  have U: "activeReaders u = activeReaders ?t1" "closed u = closed t" "readOnly u = readOnly t"
    "revision u = revision t" "room u n = room t n" "treeCache u = treeCache t" "sameTree t u"
    "pins cmp K u To r A = pins cmp K t To r A" for n r A
    by (simp_all add: u_def sameTree_def pins_def)
  have ru: "readers_ok u" using E(1) unfolding t1 by simp
  have ok1: "state_ok cmp K R ?t1 To" by (rule endRead_state [OF ok count])
  obtain t' where t': "relinkLeaves ?t1 = Some t'" "tree_ok cmp K R t' To" "\<And>n. room t' n = room ?t1 n"
    "revision t' = revision ?t1" "activeReaders t' = activeReaders ?t1" "treeCache t' = treeCache ?t1"
    "sameTree ?t1 t'" "\<And>r A. pins cmp K ?t1 To r A \<Longrightarrow> pins cmp K t' To r A" "retired t' = retired ?t1"
    "free t' = free ?t1" "relinked (pages ?t1) (pages t')" "nextPage t' = nextPage ?t1"
    by (rule relink_ok [OF ok1]) (rule that)
  have cnt: "readerCount t' r = readerCount t r - (if r = sn_revision s then 1 else 0)" for r
    using E(2) [of r] t'(5) by (simp add: readerCount_def)
  have pin: "pins cmp K t' To r A" if "1 \<le> readerCount t' r" "pins cmp K t To r A" for r A
  proof (rule t'(8))
    have "readerCount u r = readerCount t' r" using t'(5) U(1) by (simp add: readerCount_def)
    then have "1 \<le> readerCount u r" using that(1) by simp
    then have "r \<in> fst ` set (activeReaders u)" by (simp only: readerCount_in(1) [OF ru])
    moreover have "pins cmp K u To r A" using that(2) U(8) by simp
    ultimately show "pins cmp K ?t1 To r A" unfolding t1 by (intro pins_reclaim)
  qed
  have cl: "closed ?t1 = closed t" "readOnly ?t1 = readOnly t" by (simp_all add: t1 U)
  have "snapClose s t = Some (s\<lparr>sn_closed := True\<rparr>, t')"
    using s run cl t'(1) by (simp add: snapClose_def Let_def)
  moreover have "sameTree t t'"
    using t'(7) U(7) unfolding t1
    by (simp add: sameTree_def reclaimRetiredPages_def Let_def split: prod.splits)
  moreover have "revision t' = revision t" "room t' n = room t n" "treeCache t' = treeCache t" for n
    using t'(3,4,6) by (simp_all add: t1 U)
  ultimately show ?thesis using t'(2) cnt pin by (intro exI [of _ t'] conjI allI impI) simp_all
qed

end

end
