(* ===== verification/Batch.thy ===== *)
theory Batch
  imports TreeCorrect
begin

text \<open>
  Write batches (\<^verbatim>\<open>pagebtree/batch.go\<close>): operations are staged in a list and replayed by
  \<^verbatim>\<open>CommitDetailed\<close> as one revision; a panic during the replay restores the saved state.

  A panic is \<open>None\<close> in the model, so the tree a recovered panic leaves behind is the argument
  \<open>crashed\<close> of the commit; \<open>restore\<close> overwrites the fields it saves and keeps the others.
\<close>

section \<open>Staging\<close>

datatype batchOpKind = BatchPutKind | BatchDeleteKind

record batchOp =
  bo_kind :: batchOpKind
  bo_key :: key
  bo_value :: bytes

record BatchOperationResult =
  br_Kind :: batchOpKind
  br_Key :: key
  br_OldValue :: bytes
  br_Existed :: bool
  br_Changed :: bool

record BatchCommitResult =
  bc_Changed :: bool
  bc_Operations :: "BatchOperationResult list"

datatype batchError = ErrBatchClosed | ErrTreeClosed | ErrReadOnly | ErrBatchPanic | ErrTxConflict | ErrSync

record WriteBatch =
  wb_hasTree :: bool
  wb_ops :: "batchOp list"
  wb_closed :: bool

definition treeBatch :: WriteBatch where
  "treeBatch = \<lparr>wb_hasTree = True, wb_ops = [], wb_closed = False\<rparr>"

definition batchPut :: "WriteBatch \<Rightarrow> key \<Rightarrow> bytes \<Rightarrow> WriteBatch" where
  "batchPut b k v =
     (if wb_closed b then b
      else b\<lparr>wb_ops := wb_ops b @ [\<lparr>bo_kind = BatchPutKind, bo_key = k, bo_value = v\<rparr>]\<rparr>)"

definition batchDelete :: "WriteBatch \<Rightarrow> key \<Rightarrow> WriteBatch" where
  "batchDelete b k =
     (if wb_closed b then b
      else b\<lparr>wb_ops := wb_ops b @ [\<lparr>bo_kind = BatchDeleteKind, bo_key = k, bo_value = []\<rparr>]\<rparr>)"

text \<open>The bounds are compared as strings, whatever the comparator of the tree is.\<close>

definition batchDeleteRange ::
  "(PageID \<Rightarrow> PageID \<Rightarrow> bool) \<Rightarrow> Tree \<Rightarrow> WriteBatch \<Rightarrow> key \<Rightarrow> key \<Rightarrow> (WriteBatch \<times> Tree) option" where
  "batchDeleteRange os_advise t b start bound =
     (if wb_closed b \<or> \<not> wb_hasTree b \<or> 0 \<le> compareStrings start bound then Some (b, t)
      else do {
        (ks, t') \<leftarrow> treeRangeBetween os_advise t start bound (\<lambda>ks k v. (ks @ [k], True)) [];
        Some (foldl batchDelete b ks, t')
      })"

definition batchRollback :: "WriteBatch \<Rightarrow> WriteBatch" where
  "batchRollback b = b\<lparr>wb_ops := [], wb_closed := True\<rparr>"

section \<open>Saving and restoring\<close>

record batchTreeState =
  bs_pages :: pagemap
  bs_root :: PageID
  bs_nextPage :: PageID
  bs_length :: int
  bs_revision :: u64
  bs_syncedRevision :: u64
  bs_retired :: "retiredPage list"
  bs_free :: "PageID list"
  bs_metaFreelistRoot :: PageID
  bs_metaFreelistPages :: "PageID list"
  bs_metadataUpgradePending :: bool
  bs_reusedPages :: int
  bs_dirtyPages :: "PageID set"

definition saveBatchTreeState :: "Tree \<Rightarrow> batchTreeState" where
  "saveBatchTreeState t =
     \<lparr>bs_pages = pages t, bs_root = root t, bs_nextPage = nextPage t, bs_length = treeLen t,
      bs_revision = revision t, bs_syncedRevision = syncedRevision t, bs_retired = retired t,
      bs_free = free t, bs_metaFreelistRoot = metaFreelistRoot t,
      bs_metaFreelistPages = metaFreelistPages t,
      bs_metadataUpgradePending = metadataUpgradePending t, bs_reusedPages = reusedPages t,
      bs_dirtyPages = (case arena t of None \<Rightarrow> {} | Some a \<Rightarrow> dirtyPages a)\<rparr>"

definition restoreBatchTreeState :: "batchTreeState \<Rightarrow> Tree \<Rightarrow> Tree" where
  "restoreBatchTreeState s t =
     t\<lparr>pages := bs_pages s, root := bs_root s, nextPage := bs_nextPage s, treeLen := bs_length s,
       revision := bs_revision s, syncedRevision := bs_syncedRevision s, retired := bs_retired s,
       free := bs_free s, metaFreelistRoot := bs_metaFreelistRoot s,
       metaFreelistPages := bs_metaFreelistPages s,
       metadataUpgradePending := bs_metadataUpgradePending s, reusedPages := bs_reusedPages s,
       treeCache := newPageCache (pc_capacity (treeCache t)),
       arena := map_option (\<lambda>a. a\<lparr>dirtyPages := bs_dirtyPages s\<rparr>) (arena t)\<rparr>"

section \<open>Committing\<close>

definition stagedResult :: "batchOp \<Rightarrow> staged \<Rightarrow> BatchOperationResult" where
  "stagedResult op r = (case r of (old, existed, changed) \<Rightarrow>
     \<lparr>br_Kind = bo_kind op, br_Key = bo_key op, br_OldValue = old, br_Existed = existed,
      br_Changed = changed\<rparr>)"

definition applyOp :: "Tree \<Rightarrow> batchOp \<Rightarrow> (Tree \<times> staged) option" where
  "applyOp t op = (case bo_kind op of
     BatchPutKind \<Rightarrow> putStaged t (bo_key op) (bo_value op)
   | BatchDeleteKind \<Rightarrow> deleteStaged t (bo_key op))"

fun replayOps :: "Tree \<Rightarrow> batchOp list \<Rightarrow> (Tree \<times> BatchOperationResult list \<times> bool) option" where
  "replayOps t [] = Some (t, [], False)"
| "replayOps t (op # ops) = do {
     (t1, r) \<leftarrow> applyOp t op;
     (t2, rs, changed) \<leftarrow> replayOps t1 ops;
     Some (t2, stagedResult op r # rs, snd (snd r) \<or> changed)
   }"

definition replayAndPublish :: "Tree \<Rightarrow> batchOp list \<Rightarrow> (Tree \<times> BatchCommitResult) option" where
  "replayAndPublish t ops = do {
     (t1, rs, changed) \<leftarrow> replayOps t ops;
     t2 \<leftarrow> (if changed then publishStagedMutation t1 else Some t1);
     Some (t2, \<lparr>bc_Changed = changed, bc_Operations = rs\<rparr>)
   }"

definition noResult :: BatchCommitResult where
  "noResult = \<lparr>bc_Changed = False, bc_Operations = []\<rparr>"

definition commitDetailed ::
  "Tree \<Rightarrow> Tree \<Rightarrow> WriteBatch \<Rightarrow> WriteBatch \<times> Tree \<times> (batchError + BatchCommitResult)" where
  "commitDetailed crashed t b =
     (if wb_closed b then (b, t, Inl ErrBatchClosed)
      else
        let b' = b\<lparr>wb_ops := [], wb_closed := True\<rparr> in
        if \<not> wb_hasTree b then (b', t, Inl ErrTreeClosed)
        else if closed t then (b', t, Inl ErrTreeClosed)
        else if readOnly t then (b', t, Inl ErrReadOnly)
        else if wb_ops b = [] then (b', t, Inr noResult)
        else (case replayAndPublish t (wb_ops b) of
            None \<Rightarrow> (b', restoreBatchTreeState (saveBatchTreeState t) crashed, Inl ErrBatchPanic)
          | Some (t', r) \<Rightarrow> (b', t', Inr r)))"

definition batchCommit :: "Tree \<Rightarrow> Tree \<Rightarrow> WriteBatch \<Rightarrow> WriteBatch \<times> Tree \<times> bool" where
  "batchCommit crashed t b = (case commitDetailed crashed t b of
     (b', t', r) \<Rightarrow> (b', t', case r of Inl e \<Rightarrow> False | Inr c \<Rightarrow> bc_Changed c))"

text \<open>
  \<open>sync\<close> is the tree's \<^verbatim>\<open>Sync\<close>: the new state and whether it succeeded.  With a failed sync
  the result still describes the commit.
\<close>

definition commitSyncDetailed ::
  "(Tree \<Rightarrow> Tree \<times> bool) \<Rightarrow> Tree \<Rightarrow> Tree \<Rightarrow> WriteBatch \<Rightarrow>
   WriteBatch \<times> Tree \<times> BatchCommitResult \<times> batchError option" where
  "commitSyncDetailed sync crashed t b = (case commitDetailed crashed t b of
     (b', t', Inl e) \<Rightarrow> (b', t', noResult, Some e)
   | (b', t', Inr r) \<Rightarrow>
       if \<not> bc_Changed r then (b', t', r, None)
       else (case sync t' of
           (t'', True) \<Rightarrow> (b', t'', r, None)
         | (t'', False) \<Rightarrow> (b', t'', r, Some ErrSync)))"

definition commitSync ::
  "(Tree \<Rightarrow> Tree \<times> bool) \<Rightarrow> Tree \<Rightarrow> Tree \<Rightarrow> WriteBatch \<Rightarrow> WriteBatch \<times> Tree \<times> bool \<times> batchError option" where
  "commitSync sync crashed t b = (case commitSyncDetailed sync crashed t b of
     (b', t', r, e) \<Rightarrow> (b', t', e = None \<and> bc_Changed r, e))"

section \<open>What a batch does to the map\<close>

definition absOp :: "comparator \<Rightarrow> batchOp \<Rightarrow> (key \<times> bytes) list \<Rightarrow> (key \<times> bytes) list" where
  "absOp cmp op es = (case bo_kind op of
     BatchPutKind \<Rightarrow> put_list cmp (bo_key op) (bo_value op) es
   | BatchDeleteKind \<Rightarrow> del_list (bo_key op) es)"

definition absResult :: "batchOp \<Rightarrow> (key \<times> bytes) list \<Rightarrow> BatchOperationResult" where
  "absResult op es = (case bo_kind op of
     BatchPutKind \<Rightarrow> stagedResult op (fst (putResult (bo_key op) es), snd (putResult (bo_key op) es), True)
   | BatchDeleteKind \<Rightarrow> stagedResult op (deleteResult (bo_key op) es))"

fun absOps :: "comparator \<Rightarrow> batchOp list \<Rightarrow> (key \<times> bytes) list \<Rightarrow> (key \<times> bytes) list" where
  "absOps cmp [] es = es"
| "absOps cmp (op # ops) es = absOps cmp ops (absOp cmp op es)"

fun absResults :: "comparator \<Rightarrow> batchOp list \<Rightarrow> (key \<times> bytes) list \<Rightarrow> BatchOperationResult list" where
  "absResults cmp [] es = []"
| "absResults cmp (op # ops) es = absResult op es # absResults cmp ops (absOp cmp op es)"

text \<open>
  The branch cache has no stale entry whenever the batch looks up the key of a deletion; with
  the cache disabled this always holds.
\<close>

fun coherentOps :: "Tree \<Rightarrow> batchOp list \<Rightarrow> bool" where
  "coherentOps t [] \<longleftrightarrow> True"
| "coherentOps t (op # ops) \<longleftrightarrow>
     (bo_kind op = BatchDeleteKind \<longrightarrow> coherent (pages t) (treeCache t)) \<and>
     (\<forall>t' r. applyOp t op = Some (t', r) \<longrightarrow> coherentOps t' ops)"

definition opOk :: "nat \<Rightarrow> batchOp \<Rightarrow> bool" where
  "opOk K op \<longleftrightarrow> length (bo_key op) \<le> K \<and> length (bo_value op) < 2 ^ 63"

definition opCost :: "nat \<Rightarrow> nat \<Rightarrow> batchOp \<Rightarrow> nat" where
  "opCost d h op = max (putCost d (bo_value op) h) (delCost d h)"

end
