(* ===== verification/BatchCorrect.thy ===== *)
theory BatchCorrect
  imports Batch
begin

text \<open>
  A commit is atomic: it applies the staged operations in order and publishes one revision, or,
  when the replay panics, leaves the root, the map and the page ownership it started from.
\<close>

definition openBatch :: "WriteBatch \<Rightarrow> bool" where
  "openBatch b \<longleftrightarrow> wb_hasTree b \<and> \<not> wb_closed b"

text \<open>
  After a panic the tree goes back to the state before the commit.  Of the crashed tree only
  what a staged operation cannot change is left, besides the arena's size.
\<close>

definition unsaved where
  "unsaved t = (degree t, keyOrder t, keyComparator t, customComparator t, activeReaders t, closed t,
     readOnly t, rangePrefetchLeafWindow t, minRepairPageFillPercent t)"

section \<open>Replaying\<close>

fun opsCost :: "nat \<Rightarrow> nat \<Rightarrow> batchOp list \<Rightarrow> nat" where
  "opsCost d h [] = 0"
| "opsCost d h (op # ops) = opCost d h op + opsCost d (Suc h) ops"

lemma opsCost_mono: "h \<le> h' \<Longrightarrow> opsCost d h ops \<le> opsCost d h' ops"
proof (induction ops arbitrary: h h')
  case (Cons op ops)
  have "putCost d (bo_value op) h \<le> putCost d (bo_value op) h'" "delCost d h \<le> delCost d h'"
    using Cons.prems mult_le_mono2 [of "Suc h" "Suc h'" "repairCost d + 2"]
    by (simp_all only: putCost_def delCost_def deleteCost_def) linarith+
  then have "opCost d h op \<le> opCost d h' op" unfolding opCost_def by (rule max.mono)
  then show ?case using Cons.IH [of "Suc h" "Suc h'"] Cons.prems by (simp add: add_mono)
qed simp

definition anyChanged :: "BatchOperationResult list \<Rightarrow> bool" where
  "anyChanged rs \<longleftrightarrow> (\<exists>r\<in>set rs. br_Changed r)"

context key_comparator
begin

lemma applyOp_ok:
  assumes ok: "state_ok cmp K R t To" and run: "\<not> closed t" "\<not> readOnly t" and op: "opOk K op"
    and room: "room t (opCost (degree t) (heightOf To) op + n)"
    and coh: "bo_kind op = BatchDeleteKind \<longrightarrow> coherent (pages t) (treeCache t)"
  shows "\<exists>t' r To'. applyOp t op = Some (t', r) \<and> stagedResult op r = absResult op (entsOf To) \<and>
    state_ok cmp K R t' To' \<and> entsOf To' = absOp cmp op (entsOf To) \<and> room t' n \<and> grows t t' \<and>
    heightOf To' \<le> Suc (heightOf To) \<and> (\<not> snd (snd r) \<longrightarrow> To' = To \<and> (\<exists>c. t' = t\<lparr>treeCache := c\<rparr>))"
proof (cases "bo_kind op")
  case BatchPutKind
  have kv: "length (bo_key op) \<le> K" "length (bo_value op) < 2 ^ 63" using op by (simp_all add: opOk_def)
  have room': "room t (putCost (degree t) (bo_value op) (heightOf To) + n)"
    by (rule room_le [OF room]) (simp add: opCost_def)
  obtain t' old existed To' where p: "putStaged t (bo_key op) (bo_value op) = Some (t', old, existed, True)"
    "(old, existed) = putResult (bo_key op) (entsOf To)" "state_ok cmp K R t' To'"
    "entsOf To' = put_list cmp (bo_key op) (bo_value op) (entsOf To)" "room t' n" "grows t t'"
    "treeCache t' = treeCache t" "heightOf To' \<le> Suc (heightOf To)"
    using putStaged_state [OF ok run room' kv] by blast
  have "stagedResult op (old, existed, True) = absResult op (entsOf To)"
    using BatchPutKind p(2) by (simp add: absResult_def flip: p(2))
  then show ?thesis using p BatchPutKind
    by (intro exI [of _ t'] exI [of _ "(old, existed, True)"] exI [of _ To']) (simp add: applyOp_def absOp_def)
next
  case BatchDeleteKind
  have room': "room t (delCost (degree t) (heightOf To) + n)"
    by (rule room_le [OF room]) (simp add: opCost_def)
  have coh': "coherent (pages t) (treeCache t)" using coh BatchDeleteKind by blast
  obtain t' To' where d: "deleteStaged t (bo_key op) = Some (t', deleteResult (bo_key op) (entsOf To))"
    "state_ok cmp K R t' To'" "entsOf To' = del_list (bo_key op) (entsOf To)" "room t' n" "grows t t'"
    "heightOf To' \<le> heightOf To"
    "map_of (entsOf To) (bo_key op) = None \<longrightarrow> To' = To \<and> (\<exists>c. t' = t\<lparr>treeCache := c\<rparr>)"
    using deleteStaged_state [OF ok run room' coh'] by blast
  then show ?thesis using BatchDeleteKind
    by (intro exI [of _ t'] exI [of _ "deleteResult (bo_key op) (entsOf To)"] exI [of _ To'])
       (auto simp: applyOp_def absOp_def absResult_def deleteResult_def split: option.splits)
qed

lemma replayOps_ok:
  assumes "state_ok cmp K R t To" "\<not> closed t" "\<not> readOnly t" "\<forall>op\<in>set ops. opOk K op"
    "room t (opsCost (degree t) (heightOf To) ops + n)" "coherentOps t ops"
  shows "\<exists>t' To'. replayOps t ops = Some (t', absResults cmp ops (entsOf To),
      anyChanged (absResults cmp ops (entsOf To))) \<and>
    state_ok cmp K R t' To' \<and> entsOf To' = absOps cmp ops (entsOf To) \<and> room t' n \<and> grows t t' \<and>
    (\<not> anyChanged (absResults cmp ops (entsOf To)) \<longrightarrow> To' = To \<and> (\<exists>c. t' = t\<lparr>treeCache := c\<rparr>))"
  using assms
proof (induction ops arbitrary: t To)
  case Nil
  then show ?case
    by (intro exI [of _ t] exI [of _ To] conjI impI exI [of _ "treeCache t"]) (simp_all add: anyChanged_def)
next
  case (Cons op ops)
  have room1: "room t (opCost (degree t) (heightOf To) op + (opsCost (degree t) (Suc (heightOf To)) ops + n))"
    using Cons.prems(5) by (simp add: add.assoc)
  have op: "opOk K op" "bo_kind op = BatchDeleteKind \<longrightarrow> coherent (pages t) (treeCache t)"
    using Cons.prems(4,6) by simp_all
  obtain t1 r To1 where a: "applyOp t op = Some (t1, r)" "stagedResult op r = absResult op (entsOf To)"
    "state_ok cmp K R t1 To1" "entsOf To1 = absOp cmp op (entsOf To)"
    "room t1 (opsCost (degree t) (Suc (heightOf To)) ops + n)" "grows t t1"
    "heightOf To1 \<le> Suc (heightOf To)" "\<not> snd (snd r) \<longrightarrow> To1 = To \<and> (\<exists>c. t1 = t\<lparr>treeCache := c\<rparr>)"
    using applyOp_ok [OF Cons.prems(1-3) op(1) room1 op(2)] by blast
  note g = growsD [OF a(6)]
  have room2: "room t1 (opsCost (degree t1) (heightOf To1) ops + n)"
    by (rule room_le [OF a(5)]) (simp add: g(1) opsCost_mono [OF a(7)])
  have coh: "coherentOps t1 ops" using Cons.prems(6) a(1) by (cases r) auto
  obtain t2 To2 where b: "replayOps t1 ops = Some (t2, absResults cmp ops (entsOf To1),
      anyChanged (absResults cmp ops (entsOf To1)))" "state_ok cmp K R t2 To2"
    "entsOf To2 = absOps cmp ops (entsOf To1)" "room t2 n" "grows t1 t2"
    "\<not> anyChanged (absResults cmp ops (entsOf To1)) \<longrightarrow> To2 = To1 \<and> (\<exists>c. t2 = t1\<lparr>treeCache := c\<rparr>)"
    using Cons.IH [OF a(3) _ _ _ room2 coh] Cons.prems(2-4) g(5,6) by auto
  have ch: "br_Changed (absResult op (entsOf To)) = snd (snd r)"
    unfolding a(2) [symmetric] by (simp add: stagedResult_def split: prod.split)
  have "To2 = To \<and> (\<exists>c. t2 = t\<lparr>treeCache := c\<rparr>)"
    if nr: "\<not> snd (snd r)" and na: "\<not> anyChanged (absResults cmp ops (entsOf To1))"
  proof -
    obtain c where "t1 = t\<lparr>treeCache := c\<rparr>" "To1 = To" using a(8) nr by blast
    moreover obtain c' where "t2 = t1\<lparr>treeCache := c'\<rparr>" "To2 = To1" using b(6) na by blast
    ultimately show ?thesis by auto
  qed
  then show ?case
    using a(1,2,4) b grows_trans [OF a(6) b(5)] ch
    by (intro exI [of _ t2] exI [of _ To2]) (auto simp: anyChanged_def)
qed

section \<open>Committing\<close>

theorem commit_ok:
  assumes ok: "tree_ok cmp K R t To" and run: "\<not> closed t" "\<not> readOnly t" and b: "openBatch b"
    and ops: "\<forall>op\<in>set (wb_ops b). opOk K op" and rv: "revision t \<noteq> lastRevision"
    and room: "room t (opsCost (degree t) (heightOf To) (wb_ops b) + n)" and coh: "coherentOps t (wb_ops b)"
  shows "\<exists>t' To'. commitDetailed crashed t b = (b\<lparr>wb_ops := [], wb_closed := True\<rparr>, t',
      Inr \<lparr>bc_Changed = anyChanged (absResults cmp (wb_ops b) (entsOf To)),
           bc_Operations = absResults cmp (wb_ops b) (entsOf To)\<rparr>) \<and>
    mutated cmp K R n t To (absOps cmp (wb_ops b) (entsOf To)) t' To' \<and>
    revision t' = (if anyChanged (absResults cmp (wb_ops b) (entsOf To)) then revision t + 1 else revision t)"
proof -
  note S = tree_okD(1) [OF ok]
  let ?rs = "absResults cmp (wb_ops b) (entsOf To)"
  obtain t1 To' where r: "replayOps t (wb_ops b) = Some (t1, ?rs, anyChanged ?rs)" "state_ok cmp K R t1 To'"
    "entsOf To' = absOps cmp (wb_ops b) (entsOf To)" "room t1 n" "grows t t1"
    "\<not> anyChanged ?rs \<longrightarrow> To' = To \<and> (\<exists>c. t1 = t\<lparr>treeCache := c\<rparr>)"
    using replayOps_ok [OF S run ops room coh] by blast
  have cd: "commitDetailed crashed t b = (b\<lparr>wb_ops := [], wb_closed := True\<rparr>, t',
      Inr \<lparr>bc_Changed = anyChanged ?rs, bc_Operations = ?rs\<rparr>)"
    if "replayAndPublish t (wb_ops b) = Some (t', \<lparr>bc_Changed = anyChanged ?rs, bc_Operations = ?rs\<rparr>)"
      "wb_ops b \<noteq> []" for t'
    using that b run by (simp add: commitDetailed_def openBatch_def Let_def)
  show ?thesis
  proof (cases "wb_ops b = []")
    case True
    then have "commitDetailed crashed t b = (b\<lparr>wb_ops := [], wb_closed := True\<rparr>, t,
        Inr \<lparr>bc_Changed = anyChanged ?rs, bc_Operations = ?rs\<rparr>)"
      using b run by (simp add: commitDetailed_def openBatch_def Let_def noResult_def anyChanged_def)
    moreover have "mutated cmp K R n t To (entsOf To) t To"
      using ok room True by (simp add: mutated_def)
    ultimately show ?thesis using True by (auto simp: anyChanged_def)
  next
    case False
    show ?thesis
    proof (cases "anyChanged ?rs")
      case True
      obtain t' where t': "publishStagedMutation t1 = Some t'" "mutated cmp K R n t To (entsOf To') t' To'"
        "revision t' = revision t + 1" "treeCache t' = treeCache t1"
        by (rule publish_mutated [OF state_okD(2) [OF S] r(2,5) rv r(4)]) (rule that)
      have "replayAndPublish t (wb_ops b) = Some (t', \<lparr>bc_Changed = anyChanged ?rs, bc_Operations = ?rs\<rparr>)"
        using r(1) t'(1) True by (simp add: replayAndPublish_def)
      from cd [OF this False] show ?thesis using t'(2,3) r(3) True by auto
    next
      case nc: False
      then obtain c where c: "t1 = t\<lparr>treeCache := c\<rparr>" "To' = To" using r(6) by blast
      have "replayAndPublish t (wb_ops b) = Some (t1, \<lparr>bc_Changed = anyChanged ?rs, bc_Operations = ?rs\<rparr>)"
        using r(1) nc by (simp add: replayAndPublish_def)
      note cd1 = cd [OF this False]
      have "cache_ok c" using state_okD(5) [OF r(2)] c(1) by simp
      moreover have "room t n" using r(4) c(1) by simp
      ultimately have "mutated cmp K R n t To (entsOf To) t1 To" unfolding c(1) by (intro mutated_cache [OF ok])
      then show ?thesis using cd1 nc r(3) c by auto
    qed
  qed
qed

theorem commit_panic:
  assumes ok: "tree_ok cmp K R t To" and run: "\<not> closed t" "\<not> readOnly t" and b: "openBatch b"
    and fail: "replayAndPublish t (wb_ops b) = None"
    and crashed: "unsaved crashed = unsaved t" "base crashed = base t"
  shows "\<exists>t'. commitDetailed crashed t b = (b\<lparr>wb_ops := [], wb_closed := True\<rparr>, t', Inl ErrBatchPanic) \<and>
    tree_ok cmp K R t' To \<and> pages t' = pages t \<and> root t' = root t \<and> revision t' = revision t \<and>
    retired t' = retired t \<and> free t' = free t \<and> nextPage t' = nextPage t"
proof -
  let ?t = "restoreBatchTreeState (saveBatchTreeState t) crashed"
  note S = state_okD [OF tree_okD(1) [OF ok]]
  have f: "degree ?t = degree t" "keyComparator ?t = keyComparator t" "activeReaders ?t = activeReaders t"
    "base ?t = base t" "pages ?t = pages t" "root ?t = root t" "treeLen ?t = treeLen t" "revision ?t = revision t"
    "retired ?t = retired t" "free ?t = free t" "nextPage ?t = nextPage t"
    "treeCache ?t = newPageCache (pc_capacity (treeCache crashed))"
    using crashed by (simp_all add: restoreBatchTreeState_def saveBatchTreeState_def unsaved_def base_def split: option.splits)
  have "wb_ops b \<noteq> []" using fail by (auto simp: replayAndPublish_def)
  then have "commitDetailed crashed t b = (b\<lparr>wb_ops := [], wb_closed := True\<rparr>, ?t, Inl ErrBatchPanic)"
    using b run fail by (simp add: commitDetailed_def openBatch_def Let_def)
  moreover have "compareKeys ?t = compareKeys t" using f(2) by (simp add: compareKeys_def)
  then have "tree_ok cmp K R ?t To"
    using ok f by (simp add: tree_ok_def state_ok_def version_def owned_def readers_ok_def)
  ultimately show ?thesis using f by (intro exI [of _ ?t]) simp
qed

end

text \<open>Restoring recreates the branch cache from its capacity, which turns a disabled cache on.\<close>

lemma restore_cache_capacity:
  "pc_capacity (treeCache t) = 0 \<Longrightarrow>
     pc_capacity (treeCache (restoreBatchTreeState s t)) = DefaultPageCacheCapacity"
  by (simp add: restoreBatchTreeState_def newPageCache_def normalizePageCacheCapacity_def)

end
