(* ===== verification/Tx.thy ===== *)
theory Tx
  imports BatchCorrect
begin

text \<open>
  Read-write transactions (\<^verbatim>\<open>pagebtree/tx.go\<close>) and their cursors (\<^verbatim>\<open>tx_cursor.go\<close>): an
  overlay of staged values over a base snapshot, committed through a write batch when the tree
  still has the revision the transaction began with.

  \<open>pgs\<close> is the page map the base snapshot shares.  The overlay is an association list; Go
  iterates its map in any order, which the sort of the visible keys hides.
\<close>

section \<open>Transactions\<close>

record txValue =
  tv_value :: bytes
  tv_deleted :: bool

record ReadWriteTx =
  tx_hasTree :: bool
  tx_base :: "Snapshot option"
  tx_baseRevision :: u64
  tx_batch :: "WriteBatch option"
  tx_staged :: "(key \<times> txValue) list"
  tx_closed :: bool

definition beginReadWrite :: "Tree \<Rightarrow> ReadWriteTx \<times> Tree" where
  "beginReadWrite t =
     (let (s, t') = treeSnapshot t in
      (\<lparr>tx_hasTree = True, tx_base = Some s, tx_baseRevision = revision t',
        tx_batch = Some treeBatch, tx_staged = [], tx_closed = False\<rparr>, t'))"

definition txCompareKeys :: "Tree \<Rightarrow> ReadWriteTx \<Rightarrow> comparator" where
  "txCompareKeys t tx =
     (if tx_hasTree tx then compareKeys t
      else (case tx_base tx of Some s \<Rightarrow> snapCompareKeys s | None \<Rightarrow> compareStrings))"

definition txGet :: "pagemap \<Rightarrow> ReadWriteTx \<Rightarrow> key \<Rightarrow> bytes option option" where
  "txGet pgs tx k =
     (if tx_closed tx then Some None
      else (case map_of (tx_staged tx) k of
          Some v \<Rightarrow> Some (if tv_deleted v then None else Some (tv_value v))
        | None \<Rightarrow> (case tx_base tx of None \<Rightarrow> Some None | Some s \<Rightarrow> snapGet pgs s k)))"

definition txPut :: "ReadWriteTx \<Rightarrow> key \<Rightarrow> bytes \<Rightarrow> ReadWriteTx" where
  "txPut tx k v =
     (if tx_closed tx then tx
      else (case tx_batch tx of None \<Rightarrow> tx
        | Some b \<Rightarrow> tx\<lparr>tx_batch := Some (batchPut b k v),
            tx_staged := AList.update k \<lparr>tv_value = v, tv_deleted = False\<rparr> (tx_staged tx)\<rparr>))"

definition txDelete :: "ReadWriteTx \<Rightarrow> key \<Rightarrow> ReadWriteTx" where
  "txDelete tx k =
     (if tx_closed tx then tx
      else (case tx_batch tx of None \<Rightarrow> tx
        | Some b \<Rightarrow> tx\<lparr>tx_batch := Some (batchDelete b k),
            tx_staged := AList.update k \<lparr>tv_value = [], tv_deleted = True\<rparr> (tx_staged tx)\<rparr>))"

text \<open>Sorting the visible keys; they are distinct, so every sorting function agrees.\<close>

fun insertKey :: "comparator \<Rightarrow> key \<Rightarrow> key list \<Rightarrow> key list" where
  "insertKey cmp k [] = [k]"
| "insertKey cmp k (a # ks) = (if cmp a k < 0 then a # insertKey cmp k ks else k # a # ks)"

definition sortKeys :: "comparator \<Rightarrow> key list \<Rightarrow> key list" where
  "sortKeys cmp ks = foldr (insertKey cmp) ks []"

definition visibleKeysBetween ::
  "pagemap \<Rightarrow> comparator \<Rightarrow> ReadWriteTx \<Rightarrow> key \<Rightarrow> key \<Rightarrow> key list option" where
  "visibleKeysBetween pgs cmp tx start bound = do {
     (seen, ks) \<leftarrow> (case tx_base tx of
         None \<Rightarrow> Some ([], [])
       | Some s \<Rightarrow> snapRangeBetween pgs s start bound
           (\<lambda>(seen, ks) k v. ((seen @ [k],
              if (case map_of (tx_staged tx) k of None \<Rightarrow> False | Some w \<Rightarrow> tv_deleted w) then ks
              else ks @ [k]), True)) ([], []));
     Some (sortKeys cmp (ks @ map fst (filter (\<lambda>(k, w). \<not> tv_deleted w \<and> k \<notin> set seen \<and>
       0 \<le> cmp k start \<and> cmp k bound < 0) (tx_staged tx))))
   }"

definition txDeleteRange :: "pagemap \<Rightarrow> comparator \<Rightarrow> ReadWriteTx \<Rightarrow> key \<Rightarrow> key \<Rightarrow> ReadWriteTx option" where
  "txDeleteRange pgs cmp tx start bound =
     (if tx_closed tx \<or> tx_batch tx = None \<or> 0 \<le> cmp start bound then Some tx
      else do { ks \<leftarrow> visibleKeysBetween pgs cmp tx start bound; Some (foldl txDelete tx ks) })"

definition txRangeBetween ::
  "pagemap \<Rightarrow> comparator \<Rightarrow> ReadWriteTx \<Rightarrow> key \<Rightarrow> key \<Rightarrow> 's visitor \<Rightarrow> 's \<Rightarrow> 's option" where
  "txRangeBetween pgs cmp tx start bound visit s =
     (if tx_closed tx \<or> 0 \<le> cmp start bound then Some s
      else do {
        ks \<leftarrow> visibleKeysBetween pgs cmp tx start bound;
        (s', r) \<leftarrow> loopM (\<lambda>s k. do {
            w \<leftarrow> txGet pgs tx k;
            (case w of None \<Rightarrow> Some (s, None)
             | Some v \<Rightarrow> let (s', ok) = visit s k v in Some (s', if ok then None else Some ()))
          }) s ks;
        Some s'
      })"

definition txClose :: "ReadWriteTx \<Rightarrow> Tree \<Rightarrow> (ReadWriteTx \<times> Tree) option" where
  "txClose tx t = do {
     t' \<leftarrow> (case tx_base tx of None \<Rightarrow> Some t | Some s \<Rightarrow> map_option snd (snapClose s t));
     Some (tx\<lparr>tx_staged := [], tx_closed := True, tx_base := None\<rparr>, t')
   }"

definition txRollback :: "ReadWriteTx \<Rightarrow> Tree \<Rightarrow> (ReadWriteTx \<times> Tree) option" where
  "txRollback tx t =
     (if tx_closed tx then Some (tx, t)
      else txClose (tx\<lparr>tx_batch := map_option batchRollback (tx_batch tx)\<rparr>) t)"

definition txCommitDetailed :: "Tree \<Rightarrow> ReadWriteTx \<Rightarrow> Tree \<Rightarrow>
    (ReadWriteTx \<times> Tree \<times> (batchError + BatchCommitResult)) option" where
  "txCommitDetailed crashed tx t =
     (if tx_closed tx then Some (tx, t, Inl ErrBatchClosed)
      else (case tx_batch tx of
          None \<Rightarrow> Some (tx, t, Inl ErrBatchClosed)
        | Some b \<Rightarrow>
            let (b', t', r) =
              (if tx_hasTree tx \<and> revision t \<noteq> tx_baseRevision tx
               then (batchRollback b, t, Inl ErrTxConflict)
               else commitDetailed crashed t b)
            in do {
              (tx', t'') \<leftarrow> txClose (tx\<lparr>tx_batch := Some b'\<rparr>) t';
              Some (tx', t'', r)
            }))"

definition txCommit :: "Tree \<Rightarrow> ReadWriteTx \<Rightarrow> Tree \<Rightarrow> (ReadWriteTx \<times> Tree \<times> bool) option" where
  "txCommit crashed tx t = do {
     (tx', t', r) \<leftarrow> txCommitDetailed crashed tx t;
     Some (tx', t', case r of Inl e \<Rightarrow> False | Inr c \<Rightarrow> bc_Changed c)
   }"

definition txCommitSyncDetailed ::
  "(Tree \<Rightarrow> Tree \<times> bool) \<Rightarrow> Tree \<Rightarrow> ReadWriteTx \<Rightarrow> Tree \<Rightarrow>
   (ReadWriteTx \<times> Tree \<times> BatchCommitResult \<times> batchError option) option" where
  "txCommitSyncDetailed sync crashed tx t = do {
     (tx', t', r) \<leftarrow> txCommitDetailed crashed tx t;
     (case r of
        Inl e \<Rightarrow> Some (tx', t', noResult, Some e)
      | Inr c \<Rightarrow>
          if \<not> bc_Changed c then Some (tx', t', c, None)
          else if \<not> tx_hasTree tx then Some (tx', t', c, Some ErrTreeClosed)
          else (case sync t' of
              (t'', True) \<Rightarrow> Some (tx', t'', c, None)
            | (t'', False) \<Rightarrow> Some (tx', t'', c, Some ErrSync)))
   }"

definition txCommitSync ::
  "(Tree \<Rightarrow> Tree \<times> bool) \<Rightarrow> Tree \<Rightarrow> ReadWriteTx \<Rightarrow> Tree \<Rightarrow>
   (ReadWriteTx \<times> Tree \<times> bool \<times> batchError option) option" where
  "txCommitSync sync crashed tx t = do {
     (tx', t', c, e) \<leftarrow> txCommitSyncDetailed sync crashed tx t;
     Some (tx', t', e = None \<and> bc_Changed c, e)
   }"

section \<open>Transaction cursors\<close>

text \<open>The cursor holds the transaction it deletes through; an operation returns it updated.\<close>

record TxCursor =
  tc_tx :: "ReadWriteTx option"
  tc_entries :: "(key \<times> bytes) list"
  tc_index :: int
  tc_valid :: bool
  tc_closed :: bool

definition tcUsable :: "TxCursor \<Rightarrow> bool" where
  "tcUsable c \<longleftrightarrow> \<not> tc_closed c \<and> (case tc_tx c of None \<Rightarrow> False | Some tx \<Rightarrow> \<not> tx_closed tx)"

definition tcInvalidate :: "TxCursor \<Rightarrow> TxCursor \<times> bool" where
  "tcInvalidate c = (c\<lparr>tc_valid := False, tc_index := - 1\<rparr>, False)"

definition tcFirst :: "TxCursor \<Rightarrow> TxCursor \<times> bool" where
  "tcFirst c =
     (if \<not> tcUsable c \<or> tc_entries c = [] then tcInvalidate c
      else (c\<lparr>tc_index := 0, tc_valid := True\<rparr>, True))"

definition txCursorBetween :: "pagemap \<Rightarrow> comparator \<Rightarrow> ReadWriteTx \<Rightarrow> key \<Rightarrow> key \<Rightarrow> TxCursor option" where
  "txCursorBetween pgs cmp tx start bound =
     (let c = \<lparr>tc_tx = Some tx, tc_entries = [], tc_index = - 1, tc_valid = False,
               tc_closed = (tx_closed tx \<or> 0 \<le> cmp start bound)\<rparr>
      in if tc_closed c then Some c
         else do {
           es \<leftarrow> txRangeBetween pgs cmp tx start bound (\<lambda>es k v. (es @ [(k, v)], True)) [];
           Some (fst (tcFirst (c\<lparr>tc_entries := es\<rparr>)))
         })"

fun tcSeekLoop :: "comparator \<Rightarrow> key \<Rightarrow> int \<Rightarrow> (key \<times> bytes) list \<Rightarrow> int option" where
  "tcSeekLoop cmp k i [] = None"
| "tcSeekLoop cmp k i (e # es) = (if 0 \<le> cmp (fst e) k then Some i else tcSeekLoop cmp k (i + 1) es)"

definition tcSeek :: "comparator \<Rightarrow> TxCursor \<Rightarrow> key \<Rightarrow> TxCursor \<times> bool" where
  "tcSeek cmp c k =
     (if \<not> tcUsable c then (c, False)
      else (case tcSeekLoop cmp k 0 (tc_entries c) of
          Some i \<Rightarrow> (c\<lparr>tc_index := i, tc_valid := True\<rparr>, True)
        | None \<Rightarrow> tcInvalidate c))"

definition tcValid :: "TxCursor \<Rightarrow> bool" where
  "tcValid c \<longleftrightarrow> tc_valid c \<and> tcUsable c"

definition tcNext :: "TxCursor \<Rightarrow> TxCursor \<times> bool" where
  "tcNext c =
     (if \<not> tcValid c then (c, False)
      else let c' = c\<lparr>tc_index := tc_index c + 1\<rparr> in
        if int (length (tc_entries c')) \<le> tc_index c' then tcInvalidate c'
        else (c'\<lparr>tc_valid := True\<rparr>, True))"

definition tcLast :: "TxCursor \<Rightarrow> TxCursor \<times> bool" where
  "tcLast c =
     (if \<not> tcUsable c \<or> tc_entries c = [] then tcInvalidate c
      else (c\<lparr>tc_index := int (length (tc_entries c)) - 1, tc_valid := True\<rparr>, True))"

definition tcPrev :: "TxCursor \<Rightarrow> TxCursor \<times> bool" where
  "tcPrev c =
     (if \<not> tcValid c then (c, False)
      else let c' = c\<lparr>tc_index := tc_index c - 1\<rparr> in
        if tc_index c' < 0 then tcInvalidate c' else (c'\<lparr>tc_valid := True\<rparr>, True))"

text \<open>An index out of range would panic.\<close>

definition tcEntry :: "TxCursor \<Rightarrow> (key \<times> bytes) option" where
  "tcEntry c = do {
     check (0 \<le> tc_index c \<and> tc_index c < int (length (tc_entries c)));
     Some (tc_entries c ! nat (tc_index c))
   }"

definition tcKey :: "TxCursor \<Rightarrow> key option" where
  "tcKey c = (if \<not> tcValid c then Some [] else map_option fst (tcEntry c))"

definition tcValue :: "TxCursor \<Rightarrow> bytes option" where
  "tcValue c = (if \<not> tcValid c then Some [] else map_option snd (tcEntry c))"

definition tcDelete :: "pagemap \<Rightarrow> TxCursor \<Rightarrow> (TxCursor \<times> bytes option) option" where
  "tcDelete pgs c =
     (case tc_tx c of
        None \<Rightarrow> Some (c, None)
      | Some tx \<Rightarrow>
          if \<not> tcValid c then Some (c, None)
          else do {
            (k, v0) \<leftarrow> tcEntry c;
            w \<leftarrow> txGet pgs tx k;
            (case w of
               None \<Rightarrow> Some (c, None)
             | Some v \<Rightarrow> Some (c\<lparr>tc_tx := Some (txDelete tx k)\<rparr>, Some v))
          })"

definition tcClose :: "TxCursor \<Rightarrow> TxCursor" where
  "tcClose c =
     (if tc_closed c then c
      else (fst (tcInvalidate (c\<lparr>tc_closed := True\<rparr>)))\<lparr>tc_tx := None, tc_entries := []\<rparr>)"

end
