(* ===== verification/Cursor.thy ===== *)
theory Cursor
  imports TreeCorrect
begin

text \<open>
  Read cursors (\<^verbatim>\<open>pagebtree/cursor.go\<close>): a stack of page ids and indices over the pages of a
  snapshot.  \<open>descendLeft\<close> and \<open>loadForward\<close> call each other, as do \<open>descendRight\<close> and
  \<open>loadBackward\<close>; each pair is one partial function whose argument says which of the two runs:
  \<open>Some i\<close> descends from page \<open>i\<close>, \<open>None\<close> loads from the stack.
\<close>

section \<open>State\<close>

record Cursor =
  cu_snapshot :: "Snapshot option"
  cu_owned :: bool
  cu_root :: PageID
  cu_stack :: "(PageID \<times> int) list"
  cu_key :: key
  cu_value :: bytes
  cu_lower :: key
  cu_end :: key
  cu_hasLower :: bool
  cu_hasEnd :: bool
  cu_valid :: bool
  cu_closed :: bool

definition newCursor :: "Snapshot \<Rightarrow> bool \<Rightarrow> Cursor" where
  "newCursor s owns =
     \<lparr>cu_snapshot = Some s, cu_owned = owns, cu_root = sn_root s, cu_stack = [], cu_key = [],
      cu_value = [], cu_lower = [], cu_end = [], cu_hasLower = False, cu_hasEnd = False,
      cu_valid = False, cu_closed = sn_closed s\<rparr>"

definition cuCompareKeys :: "Cursor \<Rightarrow> comparator" where
  "cuCompareKeys c = (case cu_snapshot c of None \<Rightarrow> compareStrings | Some s \<Rightarrow> snapCompareKeys s)"

definition cuUsable :: "Cursor \<Rightarrow> bool" where
  "cuUsable c \<longleftrightarrow> \<not> cu_closed c \<and> (case cu_snapshot c of None \<Rightarrow> False | Some s \<Rightarrow> \<not> sn_closed s)"

definition cuInvalidate :: "Cursor \<Rightarrow> Cursor \<times> bool" where
  "cuInvalidate c = (c\<lparr>cu_key := [], cu_value := [], cu_valid := False\<rparr>, False)"

definition cuValid :: "Cursor \<Rightarrow> bool" where
  "cuValid c \<longleftrightarrow> cu_valid c \<and> cuUsable c"

definition cuKey :: "Cursor \<Rightarrow> key" where
  "cuKey c = (if \<not> cuValid c then [] else cu_key c)"

definition cuValue :: "Cursor \<Rightarrow> bytes" where
  "cuValue c = (if \<not> cuValid c then [] else cu_value c)"

definition push :: "Cursor \<Rightarrow> PageID \<Rightarrow> int \<Rightarrow> Cursor" where
  "push c i n = c\<lparr>cu_stack := cu_stack c @ [(i, n)]\<rparr>"

definition pop :: "Cursor \<Rightarrow> Cursor" where
  "pop c = c\<lparr>cu_stack := butlast (cu_stack c)\<rparr>"

definition setTop :: "Cursor \<Rightarrow> int \<Rightarrow> Cursor" where
  "setTop c n = c\<lparr>cu_stack := butlast (cu_stack c) @ [(fst (last (cu_stack c)), n)]\<rparr>"

definition loadLeafSlot :: "pagemap \<Rightarrow> Cursor \<Rightarrow> page \<Rightarrow> nat \<Rightarrow> Cursor option" where
  "loadLeafSlot pgs c p index = do {
     sl \<leftarrow> readSlot p index;
     k \<leftarrow> readCellKey p index;
     raw \<leftarrow> readCellValue p index;
     v \<leftarrow> resolveLeafValue pgs raw (slotFlags sl);
     Some (c\<lparr>cu_key := k, cu_value := v, cu_valid := True\<rparr>)
   }"

section \<open>Moving\<close>

partial_function (option) forward ::
  "pagemap \<Rightarrow> comparator \<Rightarrow> PageID option \<Rightarrow> Cursor \<Rightarrow> (Cursor \<times> bool) option" where
  "forward pgs cmp m c =
     (case m of
        Some i \<Rightarrow>
          if i = 0 then Some (cuInvalidate c)
          else (case pgs i of
              None \<Rightarrow> Some (cuInvalidate c)
            | Some p \<Rightarrow>
                if isLeaf p then forward pgs cmp None (push c i 0)
                else forward pgs cmp (Some (leftmostChild p)) (push c i 0))
      | None \<Rightarrow>
          if cu_stack c = [] then Some (cuInvalidate c)
          else let (i, index) = last (cu_stack c) in
            (case pgs i of
               None \<Rightarrow> Some (cuInvalidate c)
             | Some p \<Rightarrow>
                 if isLeaf p then
                   (if index < int (unat (slotCount p)) then do {
                      check (0 \<le> index);
                      c' \<leftarrow> loadLeafSlot pgs c p (nat index);
                      Some (if cu_hasEnd c' \<and> 0 \<le> cmp (cu_key c') (cu_end c') then cuInvalidate c'
                            else (c', True))
                    }
                    else forward pgs cmp None (pop c))
                 else if index + 1 \<le> int (unat (slotCount p)) then do {
                   child \<leftarrow> branchChild p (nat (index + 1));
                   forward pgs cmp (Some child) (setTop c (index + 1))
                 }
                 else forward pgs cmp None (pop c)))"

definition descendLeft :: "pagemap \<Rightarrow> comparator \<Rightarrow> Cursor \<Rightarrow> PageID \<Rightarrow> (Cursor \<times> bool) option" where
  "descendLeft pgs cmp c i = forward pgs cmp (Some i) c"

definition loadForward :: "pagemap \<Rightarrow> comparator \<Rightarrow> Cursor \<Rightarrow> (Cursor \<times> bool) option" where
  "loadForward pgs cmp c = forward pgs cmp None c"

partial_function (option) backward ::
  "pagemap \<Rightarrow> comparator \<Rightarrow> PageID option \<Rightarrow> Cursor \<Rightarrow> (Cursor \<times> bool) option" where
  "backward pgs cmp m c =
     (case m of
        Some i \<Rightarrow>
          if i = 0 then Some (cuInvalidate c)
          else (case pgs i of
              None \<Rightarrow> Some (cuInvalidate c)
            | Some p \<Rightarrow>
                if isLeaf p then backward pgs cmp None (push c i (int (unat (slotCount p)) - 1))
                else do {
                  child \<leftarrow> branchChild p (unat (slotCount p));
                  backward pgs cmp (Some child) (push c i (int (unat (slotCount p))))
                })
      | None \<Rightarrow>
          if cu_stack c = [] then Some (cuInvalidate c)
          else let (i, index) = last (cu_stack c) in
            (case pgs i of
               None \<Rightarrow> Some (cuInvalidate c)
             | Some p \<Rightarrow>
                 if isLeaf p then
                   (if 0 \<le> index then do {
                      c' \<leftarrow> loadLeafSlot pgs c p (nat index);
                      Some (if cu_hasLower c' \<and> cmp (cu_key c') (cu_lower c') < 0 then cuInvalidate c'
                            else (c', True))
                    }
                    else backward pgs cmp None (pop c))
                 else if 0 \<le> index - 1 then do {
                   child \<leftarrow> branchChild p (nat (index - 1));
                   backward pgs cmp (Some child) (setTop c (index - 1))
                 }
                 else backward pgs cmp None (pop c)))"

definition descendRight :: "pagemap \<Rightarrow> comparator \<Rightarrow> Cursor \<Rightarrow> PageID \<Rightarrow> (Cursor \<times> bool) option" where
  "descendRight pgs cmp c i = backward pgs cmp (Some i) c"

definition loadBackward :: "pagemap \<Rightarrow> comparator \<Rightarrow> Cursor \<Rightarrow> (Cursor \<times> bool) option" where
  "loadBackward pgs cmp c = backward pgs cmp None c"

partial_function (option) seekFrom ::
  "pagemap \<Rightarrow> comparator \<Rightarrow> key \<Rightarrow> PageID \<Rightarrow> Cursor \<Rightarrow> (Cursor \<times> bool) option" where
  "seekFrom pgs cmp k i c =
     (if i = 0 then Some (cuInvalidate c)
      else (case pgs i of
          None \<Rightarrow> Some (cuInvalidate c)
        | Some p \<Rightarrow>
            if isLeaf p then do {
              (index, found) \<leftarrow> searchSlotWithComparator p k cmp;
              loadForward pgs cmp (push c i (int index))
            }
            else do {
              index \<leftarrow> branchChildIndex p k cmp;
              child \<leftarrow> branchChild p index;
              seekFrom pgs cmp k child (push c i (int index))
            }))"

partial_function (option) seekBeforeFrom ::
  "pagemap \<Rightarrow> comparator \<Rightarrow> key \<Rightarrow> PageID \<Rightarrow> Cursor \<Rightarrow> (Cursor \<times> bool) option" where
  "seekBeforeFrom pgs cmp k i c =
     (if i = 0 then Some (cuInvalidate c)
      else (case pgs i of
          None \<Rightarrow> Some (cuInvalidate c)
        | Some p \<Rightarrow> do {
            (index, equal) \<leftarrow> searchSlotWithComparator p k cmp;
            (if isLeaf p then loadBackward pgs cmp (push c i (int index - 1))
             else do {
               child \<leftarrow> branchChild p index;
               seekBeforeFrom pgs cmp k child (push c i (int index))
             })
          }))"

definition seekBefore :: "pagemap \<Rightarrow> comparator \<Rightarrow> Cursor \<Rightarrow> key \<Rightarrow> (Cursor \<times> bool) option" where
  "seekBefore pgs cmp c k =
     (if cu_hasLower c \<and> cmp k (cu_lower c) \<le> 0 then Some (cuInvalidate c)
      else seekBeforeFrom pgs cmp k (cu_root c) (c\<lparr>cu_stack := []\<rparr>))"

definition cuSeek :: "pagemap \<Rightarrow> Cursor \<Rightarrow> key \<Rightarrow> (Cursor \<times> bool) option" where
  "cuSeek pgs c k =
     (if \<not> cuUsable c then Some (c, False)
      else
        let cmp = cuCompareKeys c;
            k = (if cu_hasLower c \<and> cmp k (cu_lower c) < 0 then cu_lower c else k)
        in if cu_hasEnd c \<and> 0 \<le> cmp k (cu_end c) then Some (cuInvalidate c)
           else seekFrom pgs cmp k (cu_root c) (c\<lparr>cu_stack := []\<rparr>))"

definition cuFirst :: "pagemap \<Rightarrow> Cursor \<Rightarrow> (Cursor \<times> bool) option" where
  "cuFirst pgs c =
     (if \<not> cuUsable c then Some (c, False)
      else if cu_hasLower c then cuSeek pgs c (cu_lower c)
      else descendLeft pgs (cuCompareKeys c) (c\<lparr>cu_stack := []\<rparr>) (cu_root c))"

text \<open>A valid cursor has a frame; \<open>None\<close> would be an index panic.\<close>

definition cuNext :: "pagemap \<Rightarrow> Cursor \<Rightarrow> (Cursor \<times> bool) option" where
  "cuNext pgs c =
     (if \<not> cuValid c then Some (c, False)
      else do {
        check (cu_stack c \<noteq> []);
        loadForward pgs (cuCompareKeys c) (setTop c (snd (last (cu_stack c)) + 1))
      })"

definition cuLast :: "pagemap \<Rightarrow> Cursor \<Rightarrow> (Cursor \<times> bool) option" where
  "cuLast pgs c =
     (if \<not> cuUsable c then Some (c, False)
      else
        let c = c\<lparr>cu_stack := []\<rparr> in
        if cu_hasEnd c then seekBefore pgs (cuCompareKeys c) c (cu_end c)
        else descendRight pgs (cuCompareKeys c) c (cu_root c))"

definition cuPrev :: "pagemap \<Rightarrow> Cursor \<Rightarrow> (Cursor \<times> bool) option" where
  "cuPrev pgs c =
     (if \<not> cuValid c then Some (c, False)
      else do {
        check (cu_stack c \<noteq> []);
        loadBackward pgs (cuCompareKeys c) (setTop c (snd (last (cu_stack c)) - 1))
      })"

section \<open>Opening, deleting and closing\<close>

definition newCursorBetween :: "pagemap \<Rightarrow> Snapshot \<Rightarrow> bool \<Rightarrow> key \<Rightarrow> key \<Rightarrow> Cursor option" where
  "newCursorBetween pgs s owns start bound =
     (let c = (newCursor s owns)\<lparr>cu_lower := start, cu_end := bound, cu_hasLower := True, cu_hasEnd := True\<rparr>
      in if 0 \<le> cuCompareKeys c start bound then Some c else map_option fst (cuFirst pgs c))"

definition treeCursor :: "Tree \<Rightarrow> Cursor \<times> Tree" where
  "treeCursor t = (let (s, t') = treeSnapshot t in (newCursor s True, t'))"

definition treeCursorBetween :: "Tree \<Rightarrow> key \<Rightarrow> key \<Rightarrow> (Cursor \<times> Tree) option" where
  "treeCursorBetween t start bound =
     (let (s, t') = treeSnapshot t
      in map_option (\<lambda>c. (c, t')) (newCursorBetween (pages t') s True start bound))"

definition snapCursor :: "Snapshot \<Rightarrow> Cursor" where
  "snapCursor s = newCursor s False"

definition snapCursorBetween :: "pagemap \<Rightarrow> Snapshot \<Rightarrow> key \<Rightarrow> key \<Rightarrow> Cursor option" where
  "snapCursorBetween pgs s start bound = newCursorBetween pgs s False start bound"

definition cuDelete :: "Cursor \<Rightarrow> Tree \<Rightarrow> (Tree \<times> bytes \<times> bool) option" where
  "cuDelete c t =
     (if \<not> cuValid c \<or> \<not> cu_owned c \<or>
         (case cu_snapshot c of None \<Rightarrow> True | Some s \<Rightarrow> \<not> sn_hasTree s)
      then Some (t, [], False)
      else treeDelete t (cu_key c))"

definition cuClose :: "Cursor \<Rightarrow> Tree \<Rightarrow> (Cursor \<times> Tree) option" where
  "cuClose c t =
     (if cu_closed c then Some (c, t)
      else do {
        t' \<leftarrow> (case cu_snapshot c of
            Some s \<Rightarrow> if cu_owned c then map_option snd (snapClose s t) else Some t
          | None \<Rightarrow> Some t);
        Some ((fst (cuInvalidate (c\<lparr>cu_closed := True\<rparr>)))\<lparr>cu_snapshot := None, cu_stack := []\<rparr>, t')
      })"

end
