(* ===== verification/KeyBytes.thy ===== *)
theory KeyBytes
  imports Tx Cursor
begin

text \<open>
  The byte-key interface (\<^verbatim>\<open>pagebtree/key_bytes.go\<close>).  A Go string and a byte slice are both
  byte lists here, so the conversions are identities and each operation is the string one.
\<close>

definition keyFromBytes :: "bytes \<Rightarrow> key" where
  "keyFromBytes k = k"

definition bytesFromKey :: "key \<Rightarrow> bytes" where
  "bytesFromKey k = k"

text \<open>A visitor of byte keys; a nil visitor makes a scan return at once.\<close>

definition bytesVisitor :: "('s \<Rightarrow> bytes \<Rightarrow> bytes \<Rightarrow> 's \<times> bool) \<Rightarrow> 's visitor" where
  "bytesVisitor visit = (\<lambda>s k v. visit s (bytesFromKey k) v)"

section \<open>Trees\<close>

definition treePutBytes :: "Tree \<Rightarrow> bytes \<Rightarrow> bytes \<Rightarrow> (Tree \<times> bytes \<times> bool) option" where
  "treePutBytes t k v = treePut t (keyFromBytes k) v"

definition treeGetBytes :: "Tree \<Rightarrow> bytes \<Rightarrow> (bytes option \<times> Tree) option" where
  "treeGetBytes t k = treeGet t (keyFromBytes k)"

definition treeDeleteBytes :: "Tree \<Rightarrow> bytes \<Rightarrow> (Tree \<times> bytes \<times> bool) option" where
  "treeDeleteBytes t k = treeDelete t (keyFromBytes k)"

definition treeRangeBytes :: "(PageID \<Rightarrow> PageID \<Rightarrow> bool) \<Rightarrow> Tree \<Rightarrow> ('s \<Rightarrow> bytes \<Rightarrow> bytes \<Rightarrow> 's \<times> bool) option \<Rightarrow> 's \<Rightarrow> ('s \<times> Tree) option" where
  "treeRangeBytes os_advise t visit s = (case visit of None \<Rightarrow> Some (s, t)
     | Some f \<Rightarrow> treeRange os_advise t (bytesVisitor f) s)"

definition treeRangeBytesFrom :: "(PageID \<Rightarrow> PageID \<Rightarrow> bool) \<Rightarrow> Tree \<Rightarrow> bytes \<Rightarrow> ('s \<Rightarrow> bytes \<Rightarrow> bytes \<Rightarrow> 's \<times> bool) option \<Rightarrow> 's \<Rightarrow> ('s \<times> Tree) option" where
  "treeRangeBytesFrom os_advise t start visit s = (case visit of None \<Rightarrow> Some (s, t)
     | Some f \<Rightarrow> treeRangeFrom os_advise t (keyFromBytes start) (bytesVisitor f) s)"

definition treeRangeBytesBetween :: "(PageID \<Rightarrow> PageID \<Rightarrow> bool) \<Rightarrow> Tree \<Rightarrow> bytes \<Rightarrow> bytes \<Rightarrow> ('s \<Rightarrow> bytes \<Rightarrow> bytes \<Rightarrow> 's \<times> bool) option \<Rightarrow> 's \<Rightarrow> ('s \<times> Tree) option" where
  "treeRangeBytesBetween os_advise t start bound visit s = (case visit of None \<Rightarrow> Some (s, t)
     | Some f \<Rightarrow> treeRangeBetween os_advise t (keyFromBytes start) (keyFromBytes bound) (bytesVisitor f) s)"

section \<open>Batches and transactions\<close>

definition batchPutBytes :: "WriteBatch \<Rightarrow> bytes \<Rightarrow> bytes \<Rightarrow> WriteBatch" where
  "batchPutBytes b k v = batchPut b (keyFromBytes k) v"

definition batchDeleteBytes :: "WriteBatch \<Rightarrow> bytes \<Rightarrow> WriteBatch" where
  "batchDeleteBytes b k = batchDelete b (keyFromBytes k)"

definition batchDeleteBytesRange :: "(PageID \<Rightarrow> PageID \<Rightarrow> bool) \<Rightarrow> Tree \<Rightarrow> WriteBatch \<Rightarrow> bytes \<Rightarrow> bytes \<Rightarrow> (WriteBatch \<times> Tree) option" where
  "batchDeleteBytesRange os_advise t b start bound =
     batchDeleteRange os_advise t b (keyFromBytes start) (keyFromBytes bound)"

definition txPutBytes :: "ReadWriteTx \<Rightarrow> bytes \<Rightarrow> bytes \<Rightarrow> ReadWriteTx" where
  "txPutBytes tx k v = txPut tx (keyFromBytes k) v"

definition txGetBytes :: "pagemap \<Rightarrow> ReadWriteTx \<Rightarrow> bytes \<Rightarrow> bytes option option" where
  "txGetBytes pgs tx k = txGet pgs tx (keyFromBytes k)"

definition txDeleteBytes :: "ReadWriteTx \<Rightarrow> bytes \<Rightarrow> ReadWriteTx" where
  "txDeleteBytes tx k = txDelete tx (keyFromBytes k)"

definition txDeleteBytesRange :: "pagemap \<Rightarrow> comparator \<Rightarrow> ReadWriteTx \<Rightarrow> bytes \<Rightarrow> bytes \<Rightarrow> ReadWriteTx option" where
  "txDeleteBytesRange pgs cmp tx start bound =
     txDeleteRange pgs cmp tx (keyFromBytes start) (keyFromBytes bound)"

section \<open>Snapshots and cursors\<close>

definition snapGetBytes :: "pagemap \<Rightarrow> Snapshot \<Rightarrow> bytes \<Rightarrow> bytes option option" where
  "snapGetBytes pgs s k = snapGet pgs s (keyFromBytes k)"

definition snapRangeBytes :: "pagemap \<Rightarrow> Snapshot \<Rightarrow> ('s \<Rightarrow> bytes \<Rightarrow> bytes \<Rightarrow> 's \<times> bool) option \<Rightarrow> 's \<Rightarrow> 's option" where
  "snapRangeBytes pgs s visit x = (case visit of None \<Rightarrow> Some x
     | Some f \<Rightarrow> snapRange pgs s (bytesVisitor f) x)"

definition snapRangeBytesFrom :: "pagemap \<Rightarrow> Snapshot \<Rightarrow> bytes \<Rightarrow> ('s \<Rightarrow> bytes \<Rightarrow> bytes \<Rightarrow> 's \<times> bool) option \<Rightarrow> 's \<Rightarrow> 's option" where
  "snapRangeBytesFrom pgs s start visit x = (case visit of None \<Rightarrow> Some x
     | Some f \<Rightarrow> snapRangeFrom pgs s (keyFromBytes start) (bytesVisitor f) x)"

definition snapRangeBytesBetween :: "pagemap \<Rightarrow> Snapshot \<Rightarrow> bytes \<Rightarrow> bytes \<Rightarrow> ('s \<Rightarrow> bytes \<Rightarrow> bytes \<Rightarrow> 's \<times> bool) option \<Rightarrow> 's \<Rightarrow> 's option" where
  "snapRangeBytesBetween pgs s start bound visit x = (case visit of None \<Rightarrow> Some x
     | Some f \<Rightarrow> snapRangeBetween pgs s (keyFromBytes start) (keyFromBytes bound) (bytesVisitor f) x)"

definition treeCursorBytesBetween :: "Tree \<Rightarrow> bytes \<Rightarrow> bytes \<Rightarrow> (Cursor \<times> Tree) option" where
  "treeCursorBytesBetween t start bound = treeCursorBetween t (keyFromBytes start) (keyFromBytes bound)"

definition snapCursorBytesBetween :: "pagemap \<Rightarrow> Snapshot \<Rightarrow> bytes \<Rightarrow> bytes \<Rightarrow> Cursor option" where
  "snapCursorBytesBetween pgs s start bound =
     snapCursorBetween pgs s (keyFromBytes start) (keyFromBytes bound)"

definition txCursorBytesBetween :: "pagemap \<Rightarrow> comparator \<Rightarrow> ReadWriteTx \<Rightarrow> bytes \<Rightarrow> bytes \<Rightarrow> TxCursor option" where
  "txCursorBytesBetween pgs cmp tx start bound =
     txCursorBetween pgs cmp tx (keyFromBytes start) (keyFromBytes bound)"

definition cuSeekBytes :: "pagemap \<Rightarrow> Cursor \<Rightarrow> bytes \<Rightarrow> (Cursor \<times> bool) option" where
  "cuSeekBytes pgs c k = cuSeek pgs c (keyFromBytes k)"

definition cuKeyBytes :: "Cursor \<Rightarrow> bytes option" where
  "cuKeyBytes c = (if \<not> cuValid c then None else Some (bytesFromKey (cu_key c)))"

definition tcSeekBytes :: "comparator \<Rightarrow> TxCursor \<Rightarrow> bytes \<Rightarrow> TxCursor \<times> bool" where
  "tcSeekBytes cmp c k = tcSeek cmp c (keyFromBytes k)"

definition tcKeyBytes :: "TxCursor \<Rightarrow> bytes option option" where
  "tcKeyBytes c = (if \<not> tcValid c then Some None else map_option (\<lambda>k. Some (bytesFromKey k)) (tcKey c))"

end
