(* ===== verification/Refinement.thy ===== *)
theory Refinement
  imports BatchCorrect
begin

text \<open>
  The tree implements a multiversion map.  \<open>store\<close> is the specification: the current entries and
  the entries each open snapshot sees.  \<open>cstep\<close> are the calls a program makes on a tree and its
  snapshots, with their results as labels; \<open>astep\<close> are the same events on the specification.
  Every run of calls is a run of the specification with the same results (\<open>runs_refine\<close>).

  The guards of \<open>cstep\<close> are the limits of the model: keys of at most \<open>K\<close> bytes, room in the
  file, a revision counter that does not wrap, and no stale branch-cache entry at a lookup.
\<close>

section \<open>Calls\<close>

datatype event =
    EPut key bytes "bytes \<times> bool"
  | EDelete key "bytes \<times> bool"
  | EGet key "bytes option"
  | ERange key key "(key \<times> bytes) list"
  | ECommit "batchOp list" "BatchOperationResult list"
  | EOpen
  | EView nat key "bytes option"
  | EScan nat key key "(key \<times> bytes) list"
  | EClose nat

record world =
  w_tree :: Tree
  w_snaps :: "Snapshot list"

definition collect :: "(key \<times> bytes) list visitor" where
  "collect = (\<lambda>es k v. (es @ [(k, v)], True))"

definition batchOf :: "batchOp list \<Rightarrow> WriteBatch" where
  "batchOf ops = treeBatch\<lparr>wb_ops := ops\<rparr>"

inductive cstep :: "nat \<Rightarrow> event \<Rightarrow> world \<Rightarrow> world \<Rightarrow> bool" for K where
  put: "treePut (w_tree w) k v = Some (t', r) \<Longrightarrow> length k \<le> K \<Longrightarrow> length v < 2 ^ 63 \<Longrightarrow>
    height (pages (w_tree w)) (root (w_tree w)) = Some h \<Longrightarrow>
    room (w_tree w) (putCost (degree (w_tree w)) v (nat h)) \<Longrightarrow> revision (w_tree w) \<noteq> lastRevision \<Longrightarrow>
    cstep K (EPut k v r) w (w\<lparr>w_tree := t'\<rparr>)"
| delete: "treeDelete (w_tree w) k = Some (t', r) \<Longrightarrow>
    height (pages (w_tree w)) (root (w_tree w)) = Some h \<Longrightarrow>
    room (w_tree w) (delCost (degree (w_tree w)) (nat h)) \<Longrightarrow> revision (w_tree w) \<noteq> lastRevision \<Longrightarrow>
    coherent (pages (w_tree w)) (treeCache (w_tree w)) \<Longrightarrow>
    cstep K (EDelete k r) w (w\<lparr>w_tree := t'\<rparr>)"
| get: "treeGet (w_tree w) k = Some (r, t') \<Longrightarrow> coherent (pages (w_tree w)) (treeCache (w_tree w)) \<Longrightarrow>
    cstep K (EGet k r) w (w\<lparr>w_tree := t'\<rparr>)"
| range: "treeRangeBetween os_advise (w_tree w) lo hi collect [] = Some (es, t') \<Longrightarrow>
    cstep K (ERange lo hi es) w (w\<lparr>w_tree := t'\<rparr>)"
| commit: "commitDetailed crashed (w_tree w) (batchOf ops) = (b', t', Inr c) \<Longrightarrow> \<forall>op\<in>set ops. opOk K op \<Longrightarrow>
    height (pages (w_tree w)) (root (w_tree w)) = Some h \<Longrightarrow>
    room (w_tree w) (opsCost (degree (w_tree w)) (nat h) ops) \<Longrightarrow> revision (w_tree w) \<noteq> lastRevision \<Longrightarrow>
    coherentOps (w_tree w) ops \<Longrightarrow>
    cstep K (ECommit ops (bc_Operations c)) w (w\<lparr>w_tree := t'\<rparr>)"
| openSnap: "treeSnapshot (w_tree w) = (s, t') \<Longrightarrow>
    cstep K EOpen w (w\<lparr>w_tree := t', w_snaps := w_snaps w @ [s]\<rparr>)"
| view: "i < length (w_snaps w) \<Longrightarrow> \<not> sn_closed (w_snaps w ! i) \<Longrightarrow>
    snapGet (pages (w_tree w)) (w_snaps w ! i) k = Some r \<Longrightarrow> cstep K (EView i k r) w w"
| scan: "i < length (w_snaps w) \<Longrightarrow> \<not> sn_closed (w_snaps w ! i) \<Longrightarrow>
    snapRangeBetween (pages (w_tree w)) (w_snaps w ! i) lo hi collect [] = Some es \<Longrightarrow>
    cstep K (EScan i lo hi es) w w"
| closeSnap: "i < length (w_snaps w) \<Longrightarrow> \<not> sn_closed (w_snaps w ! i) \<Longrightarrow>
    snapClose (w_snaps w ! i) (w_tree w) = Some (s', t') \<Longrightarrow>
    cstep K (EClose i) w (w\<lparr>w_tree := t', w_snaps := (w_snaps w)[i := s']\<rparr>)"

section \<open>Specification\<close>

record store =
  s_map :: "(key \<times> bytes) list"
  s_views :: "(key \<times> bytes) list option list"

definition rangeOf :: "comparator \<Rightarrow> key \<Rightarrow> key \<Rightarrow> (key \<times> bytes) list \<Rightarrow> (key \<times> bytes) list" where
  "rangeOf cmp lo hi es = filter (\<lambda>e. 0 \<le> cmp (fst e) lo \<and> cmp (fst e) hi < 0) es"

inductive astep :: "comparator \<Rightarrow> event \<Rightarrow> store \<Rightarrow> store \<Rightarrow> bool" for cmp where
  put: "astep cmp (EPut k v (putResult k (s_map s))) s (s\<lparr>s_map := put_list cmp k v (s_map s)\<rparr>)"
| delete: "astep cmp (EDelete k (putResult k (s_map s))) s (s\<lparr>s_map := del_list k (s_map s)\<rparr>)"
| get: "astep cmp (EGet k (map_of (s_map s) k)) s s"
| range: "astep cmp (ERange lo hi (rangeOf cmp lo hi (s_map s))) s s"
| commit: "astep cmp (ECommit ops (absResults cmp ops (s_map s))) s
    (s\<lparr>s_map := absOps cmp ops (s_map s)\<rparr>)"
| openSnap: "astep cmp EOpen s (s\<lparr>s_views := s_views s @ [Some (s_map s)]\<rparr>)"
| view: "i < length (s_views s) \<Longrightarrow> s_views s ! i = Some es \<Longrightarrow> astep cmp (EView i k (map_of es k)) s s"
| scan: "i < length (s_views s) \<Longrightarrow> s_views s ! i = Some es \<Longrightarrow>
    astep cmp (EScan i lo hi (rangeOf cmp lo hi es)) s s"
| closeSnap: "i < length (s_views s) \<Longrightarrow> s_views s ! i = Some es \<Longrightarrow>
    astep cmp (EClose i) s (s\<lparr>s_views := (s_views s)[i := None]\<rparr>)"

inductive_cases cstepE: "cstep K e w w'"

inductive run :: "('e \<Rightarrow> 's \<Rightarrow> 's \<Rightarrow> bool) \<Rightarrow> 'e list \<Rightarrow> 's \<Rightarrow> 's \<Rightarrow> bool" for stp where
  refl: "run stp [] s s"
| step: "stp e s s' \<Longrightarrow> run stp es s' s'' \<Longrightarrow> run stp (e # es) s s''"

section \<open>Simulation\<close>

definition viewOk :: "comparator \<Rightarrow> nat \<Rightarrow> Tree \<Rightarrow> gtree option \<Rightarrow> Snapshot \<Rightarrow> (key \<times> bytes) list option \<Rightarrow> bool" where
  "viewOk cmp K t To s v = (case v of
     None \<Rightarrow> sn_closed s
   | Some es \<Rightarrow> \<not> sn_closed s \<and> sn_hasTree s \<and> sn_keyComparator s = Some cmp \<and>
       (\<exists>A. sn_root s = rootOf A \<and> sn_length s = int (length es) \<and> entsOf A = es \<and>
          pins cmp K t To (sn_revision s) A))"

definition openAt :: "Snapshot list \<Rightarrow> u64 \<Rightarrow> nat" where
  "openAt ss r = length (filter (\<lambda>s. \<not> sn_closed s \<and> sn_revision s = r) ss)"

definition sim :: "comparator \<Rightarrow> nat \<Rightarrow> PageID multiset \<Rightarrow> world \<Rightarrow> store \<Rightarrow> bool" where
  "sim cmp K R w s \<longleftrightarrow> (\<exists>To. tree_ok cmp K R (w_tree w) To \<and> \<not> closed (w_tree w) \<and> \<not> readOnly (w_tree w) \<and>
     entsOf To = s_map s \<and> list_all2 (viewOk cmp K (w_tree w) To) (w_snaps w) (s_views s) \<and>
     (\<forall>r. int (openAt (w_snaps w) r) \<le> readerCount (w_tree w) r))"

text \<open>A view stays as long as its reader is counted.\<close>

lemma open_counted: "s \<in> set ss \<Longrightarrow> \<not> sn_closed s \<Longrightarrow> 1 \<le> openAt ss (sn_revision s)"
  by (induction ss) (auto simp: openAt_def)

lemma views_keep:
  assumes v: "list_all2 (viewOk cmp K t To) ss vs"
    and pin: "\<And>s A. s \<in> set ss \<Longrightarrow> \<not> sn_closed s \<Longrightarrow> pins cmp K t To (sn_revision s) A \<Longrightarrow>
      pins cmp K t' To' (sn_revision s) A"
  shows "list_all2 (viewOk cmp K t' To') ss vs"
  using v
proof (rule list.rel_mono_strong)
  fix s v assume s: "s \<in> set ss" and ok: "viewOk cmp K t To s v"
  show "viewOk cmp K t' To' s v"
    using ok pin [OF s] by (auto simp: viewOk_def split: option.splits)
qed


lemma height_version:
  assumes "version cmp K t To" shows "height (pages t) (root t) = Some (int (heightOf To))"
proof (cases To)
  case None
  then show ?thesis using assms by (simp add: version_def height.simps)
next
  case (Some T)
  then show ?thesis using assms height_ok [of "pages t" T "degree t" K] by (simp add: version_def)
qed

lemma readerCount_same: "activeReaders t' = activeReaders t \<Longrightarrow> readerCount t' r = readerCount t r"
  by (simp add: readerCount_def)

lemma sim_mutated:
  assumes ok: "tree_ok cmp K R (w_tree w) To" and run: "\<not> closed (w_tree w)" "\<not> readOnly (w_tree w)"
    and views: "list_all2 (viewOk cmp K (w_tree w) To) (w_snaps w) (s_views s)"
    and cnt: "\<forall>r. int (openAt (w_snaps w) r) \<le> readerCount (w_tree w) r"
    and m: "mutated cmp K R n (w_tree w) To es t' To'"
  shows "sim cmp K R (w\<lparr>w_tree := t'\<rparr>) (s\<lparr>s_map := es\<rparr>)"
proof -
  note M = mutatedD [OF m] and S = state_okD [OF tree_okD(1) [OF ok]]
  have "list_all2 (viewOk cmp K t' To') (w_snaps w) (s_views s)"
  proof (rule views_keep [OF views])
    fix sn A assume sn: "sn \<in> set (w_snaps w)" "\<not> sn_closed sn" and pin: "pins cmp K (w_tree w) To (sn_revision sn) A"
    have "1 \<le> readerCount (w_tree w) (sn_revision sn)"
      using open_counted [OF sn] spec [OF cnt, of "sn_revision sn"] by linarith
    then have r: "sn_revision sn \<in> fst ` set (activeReaders (w_tree w))"
      by (simp only: readerCount_in(1) [OF S(4)])
    then have "sn_revision sn \<le> revision (w_tree w)" using S(4) by (auto simp: readers_ok_def)
    then show "pins cmp K t' To' (sn_revision sn) A" using M(7) r pin by blast
  qed
  then show ?thesis
    unfolding sim_def using M run cnt readerCount_same [OF M(5)]
    by (intro exI [of _ To']) (simp add: sameTree_def)
qed

text \<open>Steps that move only counters or the branch cache.\<close>

lemma sim_same:
  assumes s: "sim cmp K R w s" and t: "pages t' = pages (w_tree w)" "retired t' = retired (w_tree w)"
    "degree t' = degree (w_tree w)" "activeReaders t' = activeReaders (w_tree w)"
    "closed t' = closed (w_tree w)" "readOnly t' = readOnly (w_tree w)"
    and ok: "\<And>To. tree_ok cmp K R (w_tree w) To \<Longrightarrow> tree_ok cmp K R t' To"
  shows "sim cmp K R (w\<lparr>w_tree := t'\<rparr>) s"
proof -
  obtain To where To: "tree_ok cmp K R (w_tree w) To" "\<not> closed (w_tree w)" "\<not> readOnly (w_tree w)"
    "entsOf To = s_map s" "list_all2 (viewOk cmp K (w_tree w) To) (w_snaps w) (s_views s)"
    "\<forall>r. int (openAt (w_snaps w) r) \<le> readerCount (w_tree w) r"
    using s by (auto simp: sim_def)
  have "list_all2 (viewOk cmp K t' To) (w_snaps w) (s_views s)"
    by (rule views_keep [OF To(5)]) (simp add: pins_def t)
  then show ?thesis using To ok t readerCount_same [OF t(4)] by (auto simp: sim_def)
qed

context key_comparator
begin

lemma between_rangeOf:
  assumes "sorted_by cmp es" shows "between lo hi es = rangeOf cmp lo hi es"
proof (cases "cmp lo hi < 0")
  case True
  then show ?thesis
    by (simp add: between_def rangeOf_def below_key_def atLeast_key_def conj_commute)
next
  case False
  have "\<not> (0 \<le> cmp (fst e) lo \<and> cmp (fst e) hi < 0)" for e :: "key \<times> bytes"
    using False cmp_le_less_trans [of lo "fst e" hi] cmp_le_swap [of lo "fst e"] by blast
  then show ?thesis using False by (simp add: between_def rangeOf_def)
qed

lemma entries_sorted: "tree_ok cmp K R t To \<Longrightarrow> sorted_by cmp (entsOf To)"
  by (cases To) (auto dest!: tree_okD(1) state_okD(9))

lemma visitList_collect': "visitList collect es ps = (es @ ps, True)"
  unfolding collect_def by (rule visitList_collect)

lemma step_tree:
  assumes sim: "sim cmp K R w s" and step: "cstep K e w w'"
    and e: "\<nexists>i. e = EClose i" "e \<noteq> EOpen" "\<nexists>i k r. e = EView i k r" "\<nexists>i lo hi es. e = EScan i lo hi es"
  shows "\<exists>s'. astep cmp e s s' \<and> sim cmp K R w' s'"
proof -
  obtain To where To: "tree_ok cmp K R (w_tree w) To" "\<not> closed (w_tree w)" "\<not> readOnly (w_tree w)"
    "entsOf To = s_map s" "list_all2 (viewOk cmp K (w_tree w) To) (w_snaps w) (s_views s)"
    "\<forall>r. int (openAt (w_snaps w) r) \<le> readerCount (w_tree w) r"
    using sim by (auto simp: sim_def)
  have ht: "height (pages (w_tree w)) (root (w_tree w)) = Some (int (heightOf To))"
    by (rule height_version [OF state_okD(1) [OF tree_okD(1) [OF To(1)]]])
  note next' = sim_mutated [OF To(1,2,3,5,6)]
  from step show ?thesis
  proof (cases rule: cstep.cases)
    case (put k v t' r h)
    have "room (w_tree w) (putCost (degree (w_tree w)) v (heightOf To) + 0)" using put(6,7) ht by (auto simp: nat_eq_iff)
    from treePut_ok [OF To(1-3) this put(8,4,5)] put(3)
    obtain To' where "mutated cmp K R 0 (w_tree w) To (put_list cmp k v (entsOf To)) t' To'"
      "r = putResult k (entsOf To)" by auto
    then show ?thesis using put(1,2) astep.put [of cmp k v s] next' To(4) by auto
  next
    case (delete k t' r h)
    have "room (w_tree w) (delCost (degree (w_tree w)) (heightOf To) + 0)" using delete(4,5) ht by (auto simp: nat_eq_iff)
    from treeDelete_ok [OF To(1-3) this delete(6,7), of k] delete(3)
    obtain To' where "mutated cmp K R 0 (w_tree w) To (del_list k (entsOf To)) t' To'"
      "r = putResult k (entsOf To)" by auto
    then show ?thesis using delete(1,2) astep.delete [of cmp k s] next' To(4) by auto
  next
    case (get k r t')
    from treeGet_tree_ok [OF To(1,2) get(4), of k] get(3)
    obtain c where c: "t' = (w_tree w)\<lparr>treeCache := c\<rparr>" "r = map_of (s_map s) k"
      "cache_ok c" using To(4) by (auto dest: tree_okD(1) [THEN state_okD(5)])
    have "sim cmp K R (w\<lparr>w_tree := t'\<rparr>) s"
      by (rule sim_same [OF sim]) (use c tree_ok_cache in auto)
    then show ?thesis using get(1,2) c(2) astep.get [of cmp k s] by blast
  next
    case (range os_advise lo hi es t')
    obtain a b where t': "t' = (w_tree w)\<lparr>rangePrefetchHints := a, rangePrefetchPages := b\<rparr>"
      "es = between lo hi (entsOf To)"
      using treeRangeBetween_ok [OF To(1,2), of os_advise lo hi collect "[]"] range(3)
      by (auto simp: visitList_collect')
    have "es = rangeOf cmp lo hi (s_map s)"
      using t'(2) between_rangeOf [OF entries_sorted [OF To(1)]] To(4) by simp
    moreover have "sim cmp K R (w\<lparr>w_tree := t'\<rparr>) s"
      by (rule sim_same [OF sim]) (use t' in auto)
    ultimately show ?thesis using range(1,2) astep.range [of cmp lo hi s] by blast
  next
    case (commit crashed ops b' t' c h)
    have b: "openBatch (batchOf ops)" "wb_ops (batchOf ops) = ops"
      by (simp_all add: openBatch_def batchOf_def treeBatch_def)
    have "room (w_tree w) (opsCost (degree (w_tree w)) (heightOf To) ops + 0)" using commit(5,6) ht by (auto simp: nat_eq_iff)
    from commit_ok [OF To(1-3) b(1), unfolded b(2), OF commit(4,7) this commit(8), of crashed] commit(3)
    obtain To' where "mutated cmp K R 0 (w_tree w) To (absOps cmp ops (entsOf To)) t' To'"
      "bc_Operations c = absResults cmp ops (entsOf To)" by auto
    then show ?thesis using commit(1,2) astep.commit [of cmp ops s] next' To(4) by auto
  qed (use e in auto)
qed

lemma openAt_append: "openAt (ss @ [s]) r = openAt ss r + (if \<not> sn_closed s \<and> sn_revision s = r then 1 else 0)"
  by (simp add: openAt_def)

lemma openAt_Cons: "openAt (s # ss) r = (if \<not> sn_closed s \<and> sn_revision s = r then 1 else 0) + openAt ss r"
  by (simp add: openAt_def)

lemma openAt_close:
  "i < length ss \<Longrightarrow> \<not> sn_closed (ss ! i) \<Longrightarrow> sn_closed s' \<Longrightarrow>
     int (openAt (ss[i := s']) r) = int (openAt ss r) - (if r = sn_revision (ss ! i) then 1 else 0)"
proof (induction ss arbitrary: i)
  case (Cons a ss)
  show ?case
  proof (cases i)
    case 0
    then show ?thesis using Cons.prems by (auto simp: openAt_Cons)
  next
    case (Suc j)
    then show ?thesis using Cons.IH [of j] Cons.prems by (simp add: openAt_Cons)
  qed
qed simp

lemma viewOk_snap:
  assumes v: "viewOk cmp K t To sn v" and o: "\<not> sn_closed sn"
  obtains A where "v = Some (entsOf A)" "holds_view sn A" "repOf cmp (degree t) K (pages t) A"
    "pins cmp K t To (sn_revision sn) A"
  using assms by (auto simp: viewOk_def holds_view_def pins_def split: option.splits)

lemma step_snap:
  assumes sim: "sim cmp K R w s" and step: "cstep K e w w'"
    and e: "(\<exists>i. e = EClose i) \<or> e = EOpen \<or> (\<exists>i k r. e = EView i k r) \<or> (\<exists>i lo hi es. e = EScan i lo hi es)"
  shows "\<exists>s'. astep cmp e s s' \<and> sim cmp K R w' s'"
proof -
  obtain To where To: "tree_ok cmp K R (w_tree w) To" "\<not> closed (w_tree w)" "\<not> readOnly (w_tree w)"
    "entsOf To = s_map s" "list_all2 (viewOk cmp K (w_tree w) To) (w_snaps w) (s_views s)"
    "\<forall>r. int (openAt (w_snaps w) r) \<le> readerCount (w_tree w) r"
    using sim by (auto simp: sim_def)
  note len = list_all2_lengthD [OF To(5)] and nth = list_all2_nthD [OF To(5)]
  from step show ?thesis
  proof (cases rule: cstep.cases)
    case (openSnap sn t')
    obtain sn' t'' where sp: "treeSnapshot (w_tree w) = (sn', t'')" "holds_view sn' To"
      "sn_revision sn' = revision (w_tree w)" "tree_ok cmp K R t'' To" "pins cmp K t'' To (revision (w_tree w)) To"
      "\<forall>r A. pins cmp K (w_tree w) To r A \<longrightarrow> pins cmp K t'' To r A"
      "\<forall>r. readerCount t'' r = readerCount (w_tree w) r + (if r = revision (w_tree w) then 1 else 0)"
      "sameTree (w_tree w) t''"
      using treeSnapshot_ok [OF To(1,2)] by blast
    then have eq: "sn = sn'" "t' = t''" using openSnap(3) by simp_all
    have "list_all2 (viewOk cmp K t' To) (w_snaps w) (s_views s)"
      by (rule views_keep [OF To(5)]) (use sp(6) eq in blast)
    moreover have "viewOk cmp K t' To sn (Some (s_map s))"
      using sp(2,3,5) To(4) unfolding eq by (auto simp: viewOk_def holds_view_def)
    ultimately have "list_all2 (viewOk cmp K t' To) (w_snaps w @ [sn]) (s_views s @ [Some (s_map s)])"
      by (simp add: list_all2_appendI)
    moreover have "int (openAt (w_snaps w @ [sn]) r) \<le> readerCount t' r" for r
      using spec [OF To(6), of r] sp(3,7) unfolding eq by (cases "r = revision (w_tree w)") (auto simp: openAt_append)
    ultimately have "sim cmp K R w' (s\<lparr>s_views := s_views s @ [Some (s_map s)]\<rparr>)"
      unfolding sim_def using sp(4,8) To(2,3,4) eq openSnap(2)
      by (intro exI [of _ To]) (simp add: sameTree_def)
    then show ?thesis using openSnap(1) astep.openSnap [of cmp s] by blast
  next
    case (view i k r)
    have v: "viewOk cmp K (w_tree w) To (w_snaps w ! i) (s_views s ! i)" using nth view(3) by simp
    obtain A where A: "s_views s ! i = Some (entsOf A)" "holds_view (w_snaps w ! i) A"
      "repOf cmp (degree (w_tree w)) K (pages (w_tree w)) A"
      by (rule viewOk_snap [OF v view(4)])
    have "r = map_of (entsOf A) k" using snapGet_ok [OF A(2,3), of k] view(5) by simp
    then show ?thesis using view(1,2) astep.view [of i s "entsOf A" cmp k] A(1) view(3) len sim by auto
  next
    case (scan i lo hi es)
    have v: "viewOk cmp K (w_tree w) To (w_snaps w ! i) (s_views s ! i)" using nth scan(3) by simp
    obtain A where A: "s_views s ! i = Some (entsOf A)" "holds_view (w_snaps w ! i) A"
      "repOf cmp (degree (w_tree w)) K (pages (w_tree w)) A"
      by (rule viewOk_snap [OF v scan(4)])
    have "sorted_by cmp (entsOf A)" using A(3) by (cases A) auto
    then have "es = rangeOf cmp lo hi (entsOf A)"
      using snapRange_ok(3) [OF A(2,3), of lo hi collect "[]"] scan(5) between_rangeOf
      by (simp add: visitList_collect')
    then show ?thesis using scan(1,2) astep.scan [of i s "entsOf A" cmp lo hi] A(1) scan(3) len sim by auto
  next
    case (closeSnap i sn' t')
    let ?sn = "w_snaps w ! i"
    have v: "viewOk cmp K (w_tree w) To ?sn (s_views s ! i)" using nth closeSnap(3) by simp
    obtain A where A: "s_views s ! i = Some (entsOf A)" "holds_view ?sn A"
      by (rule viewOk_snap [OF v closeSnap(4)])
    have "?sn \<in> set (w_snaps w)" using closeSnap(3) by simp
    then have cnt: "1 \<le> readerCount (w_tree w) (sn_revision ?sn)"
      using open_counted [OF _ closeSnap(4), of "w_snaps w"] spec [OF To(6), of "sn_revision ?sn"] by linarith
    have ht: "sn_hasTree ?sn" using A(2) by (simp add: holds_view_def)
    obtain t'' where c: "snapClose ?sn (w_tree w) = Some (?sn\<lparr>sn_closed := True\<rparr>, t'')" "tree_ok cmp K R t'' To"
      "\<forall>r. readerCount t'' r = readerCount (w_tree w) r - (if r = sn_revision ?sn then 1 else 0)"
      "\<forall>r A. 1 \<le> readerCount t'' r \<longrightarrow> pins cmp K (w_tree w) To r A \<longrightarrow> pins cmp K t'' To r A"
      "sameTree (w_tree w) t''"
      using snapClose_ok [OF To(1-3) closeSnap(4) ht cnt] by blast
    then have eq: "sn' = ?sn\<lparr>sn_closed := True\<rparr>" "t' = t''" using closeSnap(5) by simp_all
    let ?ss = "(w_snaps w)[i := sn']" and ?vs = "(s_views s)[i := None]"
    have "viewOk cmp K (w_tree w) To sn' None" by (simp add: viewOk_def eq)
    then have up: "list_all2 (viewOk cmp K (w_tree w) To) ?ss ?vs"
      by (rule list_all2_update_cong [OF To(5)])
    have cnt': "int (openAt ?ss r) \<le> readerCount t' r" for r
      using openAt_close [OF closeSnap(3,4), of sn' r] spec [OF To(6), of r] c(3) unfolding eq by simp
    have "list_all2 (viewOk cmp K t' To) ?ss ?vs"
    proof (rule views_keep [OF up])
      fix sn B assume sn: "sn \<in> set ?ss" "\<not> sn_closed sn" and pin: "pins cmp K (w_tree w) To (sn_revision sn) B"
      have "1 \<le> readerCount t' (sn_revision sn)" using open_counted [OF sn] cnt' [of "sn_revision sn"] by linarith
      then show "pins cmp K t' To (sn_revision sn) B" using c(4) pin unfolding eq by blast
    qed
    then have "sim cmp K R w' (s\<lparr>s_views := ?vs\<rparr>)"
      unfolding sim_def using c(2,5) To(2-4) cnt' eq closeSnap(2)
      by (intro exI [of _ To]) (simp add: sameTree_def)
    then show ?thesis using closeSnap(1,3) astep.closeSnap [of i s "entsOf A" cmp] A(1) len by auto
  qed (use e in auto)
qed

lemma step_refines:
  assumes "sim cmp K R w s" "cstep K e w w'"
  shows "\<exists>s'. astep cmp e s s' \<and> sim cmp K R w' s'"
  using step_tree [OF assms] step_snap [OF assms] by blast

lemma runs_refine:
  "run (cstep K) es w w' \<Longrightarrow> sim cmp K R w s \<Longrightarrow> \<exists>s'. run (astep cmp) es s s' \<and> sim cmp K R w' s'"
proof (induction arbitrary: s rule: run.induct)
  case (refl w)
  then show ?case by (blast intro: run.refl)
next
  case (step e w w1 es w2)
  then show ?case using step_refines [OF step.prems step.hyps(1)] by (blast intro: run.step)
qed

end

lemma sim_New:
  assumes "roomy (normalizeDegree d) K"
  shows "sim (normalizeKeyComparator (opt_KeyComparator opts)) K {#}
    \<lparr>w_tree = NewWithOptions d opts, w_snaps = []\<rparr> \<lparr>s_map = [], s_views = []\<rparr>"
  unfolding sim_def using tree_ok_New [OF assms, of opts]
  by (intro exI [of _ None])
     (simp add: NewWithOptions_def openAt_def readerCount_def)

end
