(* ===== verification/TxCorrect.thy ===== *)
theory TxCorrect
  imports Tx Refinement
begin

text \<open>
  A transaction reads its own writes over the version it began with, expands ranges against that
  view in key order, and commits exactly the operations it staged, or nothing on a conflict.
\<close>

section \<open>The view of a transaction\<close>

definition overlay :: "(key \<times> txValue) list \<Rightarrow> (key \<times> bytes) list \<Rightarrow> key \<Rightarrow> bytes option" where
  "overlay staged es k = (case map_of staged k of
     Some w \<Rightarrow> if tv_deleted w then None else Some (tv_value w)
   | None \<Rightarrow> map_of es k)"

text \<open>An open transaction over the entries \<open>es\<close> of version \<open>A\<close> that has staged \<open>ops\<close>.\<close>

definition tx_view :: "comparator \<Rightarrow> nat \<Rightarrow> nat \<Rightarrow> pagemap \<Rightarrow> gtree option \<Rightarrow> batchOp list \<Rightarrow> ReadWriteTx \<Rightarrow> bool" where
  "tx_view cmp d K pgs A ops tx \<longleftrightarrow> \<not> tx_closed tx \<and> tx_hasTree tx \<and>
     (\<exists>s. tx_base tx = Some s \<and> \<not> sn_closed s \<and> sn_hasTree s \<and> sn_root s = rootOf A \<and>
        sn_length s = int (length (entsOf A)) \<and> sn_keyComparator s = Some cmp) \<and>
     repOf cmp d K pgs A \<and>
     (\<exists>b. tx_batch tx = Some b \<and> openBatch b \<and> wb_ops b = ops) \<and> distinct (map fst (tx_staged tx)) \<and>
     (\<forall>k. overlay (tx_staged tx) (entsOf A) k = map_of (absOps cmp ops (entsOf A)) k)"

definition putOp :: "key \<Rightarrow> bytes \<Rightarrow> batchOp" where
  "putOp k v = \<lparr>bo_kind = BatchPutKind, bo_key = k, bo_value = v\<rparr>"

definition deleteOp :: "key \<Rightarrow> batchOp" where
  "deleteOp k = \<lparr>bo_kind = BatchDeleteKind, bo_key = k, bo_value = []\<rparr>"

lemma absOps_append: "absOps cmp (ops @ ops') es = absOps cmp ops' (absOps cmp ops es)"
  by (induction ops arbitrary: es) simp_all

lemma overlay_update:
  "overlay (AList.update k w staged) es =
     (overlay staged es)(k := if tv_deleted w then None else Some (tv_value w))"
  by (rule ext) (simp add: overlay_def update_conv)

text \<open>Staging a whole list of operations.\<close>

definition stageOp :: "ReadWriteTx \<Rightarrow> batchOp \<Rightarrow> ReadWriteTx" where
  "stageOp tx op = (case bo_kind op of
     BatchPutKind \<Rightarrow> txPut tx (bo_key op) (bo_value op) | BatchDeleteKind \<Rightarrow> txDelete tx (bo_key op))"

definition wellOp :: "batchOp \<Rightarrow> bool" where
  "wellOp op \<longleftrightarrow> bo_kind op = BatchDeleteKind \<longrightarrow> bo_value op = []"

lemma op_cases: "wellOp op \<Longrightarrow> op = putOp (bo_key op) (bo_value op) \<and> bo_kind op = BatchPutKind \<or>
    op = deleteOp (bo_key op) \<and> bo_kind op = BatchDeleteKind"
  by (cases op; cases "bo_kind op") (auto simp: wellOp_def putOp_def deleteOp_def)

context key_comparator
begin

lemma sorted_absOp: "sorted_by cmp es \<Longrightarrow> sorted_by cmp (absOp cmp op es)"
  by (simp add: absOp_def sorted_put_list sorted_by_del_list split: batchOpKind.split)

lemma sorted_absOps: "sorted_by cmp es \<Longrightarrow> sorted_by cmp (absOps cmp ops es)"
  by (induction ops arbitrary: es) (simp_all add: sorted_absOp)

lemma repOf_sorted: "repOf cmp d K pgs A \<Longrightarrow> sorted_by cmp (entsOf A)"
  by (cases A) auto

theorem tx_begin:
  assumes ok: "tree_ok cmp K R t To" and run: "\<not> closed t"
  shows "\<exists>tx t'. beginReadWrite t = (tx, t') \<and> tx_view cmp (degree t') K (pages t') To [] tx \<and>
    tx_baseRevision tx = revision t' \<and> tree_ok cmp K R t' To \<and> pages t' = pages t \<and> sameTree t t' \<and>
    (\<forall>n. room t' n = room t n)"
proof -
  obtain s t' where s: "treeSnapshot t = (s, t')" "holds_view s To" "sn_revision s = revision t"
    "tree_ok cmp K R t' To" "pages t' = pages t" "revision t' = revision t" "\<forall>n. room t' n = room t n"
    "sameTree t t'"
    using treeSnapshot_ok [OF ok run] by blast
  have "repOf cmp (degree t') K (pages t') To" by (rule state_okD(9) [OF tree_okD(1) [OF s(4)]])
  then have "tx_view cmp (degree t') K (pages t') To []
      \<lparr>tx_hasTree = True, tx_base = Some s, tx_baseRevision = revision t', tx_batch = Some treeBatch,
       tx_staged = [], tx_closed = False\<rparr>"
    using s(2) by (simp add: tx_view_def holds_view_def treeBatch_def openBatch_def overlay_def)
  then show ?thesis using s by (auto simp: beginReadWrite_def)
qed

theorem tx_get:
  assumes "tx_view cmp d K pgs A ops tx"
  shows "txGet pgs tx k = Some (map_of (absOps cmp ops (entsOf A)) k)"
proof -
  obtain s where s: "tx_base tx = Some s" "holds_view s A" using assms by (auto simp: tx_view_def holds_view_def)
  have v: "\<not> tx_closed tx" "repOf cmp d K pgs A"
    "overlay (tx_staged tx) (entsOf A) k = map_of (absOps cmp ops (entsOf A)) k"
    using assms by (simp_all add: tx_view_def)
  show ?thesis
    unfolding v(3) [symmetric] using v(1) s(1) snapGet_ok [OF s(2) v(2), of k]
    by (simp add: txGet_def overlay_def split: option.split)
qed

theorem tx_put:
  assumes v: "tx_view cmp d K pgs A ops tx"
  shows "tx_view cmp d K pgs A (ops @ [putOp k v]) (txPut tx k v)"
proof -
  have srt: "sorted_by cmp (absOps cmp ops (entsOf A))"
    using v by (intro sorted_absOps repOf_sorted) (auto simp: tx_view_def)
  have o: "overlay (tx_staged tx) (entsOf A) = map_of (absOps cmp ops (entsOf A))"
    using v by (auto simp: tx_view_def)
  show ?thesis
    using v o map_of_put_list [OF srt, of k v]
    by (auto simp: tx_view_def txPut_def batchPut_def openBatch_def putOp_def overlay_update absOps_append
        absOp_def distinct_update)
qed

theorem tx_delete:
  assumes v: "tx_view cmp d K pgs A ops tx"
  shows "tx_view cmp d K pgs A (ops @ [deleteOp k]) (txDelete tx k)"
proof -
  have o: "overlay (tx_staged tx) (entsOf A) = map_of (absOps cmp ops (entsOf A))"
    using v by (auto simp: tx_view_def)
  show ?thesis
    using v o map_of_del_list [of k "absOps cmp ops (entsOf A)"]
    by (auto simp: tx_view_def txDelete_def batchDelete_def openBatch_def deleteOp_def overlay_update absOps_append
        absOp_def distinct_update)
qed

lemma tx_stage:
  "tx_view cmp d K pgs A ops tx \<Longrightarrow> \<forall>op\<in>set ops'. wellOp op \<Longrightarrow>
     tx_view cmp d K pgs A (ops @ ops') (foldl stageOp tx ops')"
proof (induction ops' arbitrary: tx ops)
  case (Cons op ops')
  have "tx_view cmp d K pgs A (ops @ [op]) (stageOp tx op)"
    using op_cases [of op] Cons.prems tx_put [OF Cons.prems(1), of "bo_key op" "bo_value op"]
      tx_delete [OF Cons.prems(1), of "bo_key op"] by (auto simp: stageOp_def)
  from Cons.IH [OF this] show ?case using Cons.prems by simp
qed simp

section \<open>Ranges\<close>

lemma insertKey_ok:
  "increasing ks \<Longrightarrow> k \<notin> set ks \<Longrightarrow> increasing (insertKey cmp k ks) \<and> set (insertKey cmp k ks) = insert k (set ks)"
proof (induction ks)
  case (Cons a ks)
  then have "cmp a k < 0 \<or> cmp k a < 0" using cmp_total [of a k] by auto
  then show ?case using Cons cmp_not_both [of a k] by (auto intro: cmp_trans)
qed simp

lemma sortKeys_ok: "distinct ks \<Longrightarrow> increasing (sortKeys cmp ks) \<and> set (sortKeys cmp ks) = set ks"
  unfolding sortKeys_def by (induction ks) (simp_all add: insertKey_ok)

lemma sorted_keys: "sorted_by cmp es \<Longrightarrow> increasing (map fst es)"
  by (simp add: sorted_by_map)

lemma sorted_rangeOf: "sorted_by cmp es \<Longrightarrow> sorted_by cmp (rangeOf cmp lo hi es)"
  unfolding sorted_by_def rangeOf_def by (rule sorted_wrt_filter)

lemma in_rangeOf:
  "k \<in> fst ` set (rangeOf cmp lo hi es) \<longleftrightarrow> 0 \<le> cmp k lo \<and> cmp k hi < 0 \<and> map_of es k \<noteq> None"
  unfolding map_of_eq_None_iff rangeOf_def by force

lemma visit_seen:
  "visitList (\<lambda>(seen, ks) k v. ((seen @ [k], if P k then ks else ks @ [k]), True)) (seen, ks) es =
     ((seen @ map fst es, ks @ map fst (filter (\<lambda>e. \<not> P (fst e)) es)), True)"
  by (induction es arbitrary: seen ks) auto

lemma tx_visible:
  assumes v: "tx_view cmp d K pgs A ops tx"
  shows "visibleKeysBetween pgs cmp tx lo hi = Some (map fst (rangeOf cmp lo hi (absOps cmp ops (entsOf A))))"
proof -
  obtain s where s: "tx_base tx = Some s" "holds_view s A" using v by (auto simp: tx_view_def holds_view_def)
  have V: "repOf cmp d K pgs A" "distinct (map fst (tx_staged tx))"
    "\<And>k. overlay (tx_staged tx) (entsOf A) k = map_of (absOps cmp ops (entsOf A)) k"
    using v by (simp_all add: tx_view_def)
  have srt: "sorted_by cmp (entsOf A)" by (rule repOf_sorted [OF V(1)])
  let ?del = "\<lambda>k. case map_of (tx_staged tx) k of None \<Rightarrow> False | Some w \<Rightarrow> tv_deleted w"
  let ?in = "\<lambda>k. 0 \<le> cmp k lo \<and> cmp k hi < 0"
  let ?base = "rangeOf cmp lo hi (entsOf A)"
  let ?k1 = "map fst (filter (\<lambda>e. \<not> ?del (fst e)) ?base)"
  let ?k2 = "map fst (filter (\<lambda>(k, w). \<not> tv_deleted w \<and> k \<notin> set (map fst ?base) \<and> 0 \<le> cmp k lo \<and> cmp k hi < 0) (tx_staged tx))"
  have "snapRangeBetween pgs s lo hi (\<lambda>(seen, ks) k v. ((seen @ [k], if ?del k then ks else ks @ [k]), True)) ([], []) =
      Some (map fst ?base, ?k1)"
    unfolding snapRange_ok(3) [OF s(2) V(1)] between_rangeOf [OF srt] visit_seen [where P = ?del] by simp
  then have run: "visibleKeysBetween pgs cmp tx lo hi = Some (sortKeys cmp (?k1 @ ?k2))"
    using s(1) by (simp add: visibleKeysBetween_def)
  have d1: "distinct ?k1"
    using sorted_distinct [OF sorted_rangeOf [OF srt]] by (rule distinct_map_filter)
  have "distinct ?k2" by (rule distinct_map_filter [OF V(2)])
  moreover have "set ?k1 \<inter> set ?k2 = {}" by (auto simp: image_iff)
  ultimately have d: "distinct (?k1 @ ?k2)" using d1 by simp
  let ?final = "rangeOf cmp lo hi (absOps cmp ops (entsOf A))"
  have keys: "k \<in> set (map fst ?final) \<longleftrightarrow> ?in k \<and> overlay (tx_staged tx) (entsOf A) k \<noteq> None" for k
    unfolding V(3) set_map in_rangeOf by simp
  have base: "k \<in> set (map fst ?base) \<longleftrightarrow> ?in k \<and> map_of (entsOf A) k \<noteq> None" for k
    unfolding set_map in_rangeOf by simp
  have k1: "k \<in> set ?k1 \<longleftrightarrow> ?in k \<and> map_of (entsOf A) k \<noteq> None \<and> \<not> ?del k" for k
    using base [of k] by auto
  have k2: "k \<in> set ?k2 \<longleftrightarrow> ?in k \<and> map_of (entsOf A) k = None \<and>
      (\<exists>w. map_of (tx_staged tx) k = Some w \<and> \<not> tv_deleted w)" for k
    using base [of k] map_of_eq_Some_iff [OF V(2), of k] by (auto simp: image_iff)
  have "k \<in> set (?k1 @ ?k2) \<longleftrightarrow> k \<in> set (map fst ?final)" for k
    unfolding set_append Un_iff k1 k2 keys by (auto simp: overlay_def split: option.splits)
  then have "set (?k1 @ ?k2) = set (map fst ?final)" by blast
  then have "sortKeys cmp (?k1 @ ?k2) = map fst ?final"
    using sortKeys_ok [OF d] sorted_keys [OF sorted_rangeOf [OF sorted_absOps [OF srt, of ops], of lo hi]]
    by (intro ord.strict_sorted_equal) simp_all
  then show ?thesis using run by simp
qed

theorem tx_range:
  assumes v: "tx_view cmp d K pgs A ops tx" and le: "cmp lo hi < 0"
  shows "txRangeBetween pgs cmp tx lo hi visit s =
    Some (fst (visitList visit s (rangeOf cmp lo hi (absOps cmp ops (entsOf A)))))"
proof -
  let ?E = "absOps cmp ops (entsOf A)"
  have "repOf cmp d K pgs A" using v by (simp add: tx_view_def)
  then have srt: "sorted_by cmp ?E" by (intro sorted_absOps repOf_sorted)
  have "loopM (\<lambda>s k. do { w \<leftarrow> txGet pgs tx k; (case w of None \<Rightarrow> Some (s, None)
        | Some x \<Rightarrow> let (s', ok) = visit s k x in Some (s', if ok then None else Some ())) }) s (map fst es) =
      Some (fst (visitList visit s es), if snd (visitList visit s es) then None else Some ())"
    if "set es \<subseteq> set ?E" for es s
    using that
  proof (induction es arbitrary: s)
    case (Cons e es)
    obtain k x where e: "e = (k, x)" by (cases e)
    have "map_of ?E k = Some x" using Cons.prems e sorted_distinct [OF srt] by (intro map_of_is_SomeI) auto
    then have "txGet pgs tx k = Some (Some x)" using tx_get [OF v, of k] by simp
    then show ?case using Cons.IH Cons.prems e by (auto simp: Let_def split: prod.splits)
  qed simp
  from this [of "rangeOf cmp lo hi ?E" s] show ?thesis
    using v le tx_visible [OF v, of lo hi]
    by (simp add: txRangeBetween_def tx_view_def rangeOf_def)
qed

lemma tx_deletes:
  "tx_view cmp d K pgs A ops tx \<Longrightarrow> tx_view cmp d K pgs A (ops @ map deleteOp ks) (foldl txDelete tx ks)"
proof (induction ks arbitrary: tx ops)
  case (Cons k ks)
  from Cons.IH [OF tx_delete [OF Cons.prems]] show ?case by simp
qed simp

lemma absOps_deletes: "absOps cmp (map deleteOp ks) es = filter (\<lambda>e. fst e \<notin> set ks) es"
  by (induction ks arbitrary: es) (simp_all add: absOp_def deleteOp_def del_list_def conj_commute)

theorem tx_deleteRange:
  assumes v: "tx_view cmp d K pgs A ops tx" and le: "cmp lo hi < 0"
  shows "\<exists>tx' ops'. txDeleteRange pgs cmp tx lo hi = Some tx' \<and> tx_view cmp d K pgs A ops' tx' \<and>
    absOps cmp ops' (entsOf A) =
      filter (\<lambda>e. \<not> (0 \<le> cmp (fst e) lo \<and> cmp (fst e) hi < 0)) (absOps cmp ops (entsOf A))"
proof -
  let ?E = "absOps cmp ops (entsOf A)" and ?ks = "map fst (rangeOf cmp lo hi (absOps cmp ops (entsOf A)))"
  have "txDeleteRange pgs cmp tx lo hi = Some (foldl txDelete tx ?ks)"
    using v le tx_visible [OF v, of lo hi] by (auto simp: txDeleteRange_def tx_view_def)
  moreover have "absOps cmp (ops @ map deleteOp ?ks) (entsOf A) =
      filter (\<lambda>e. \<not> (0 \<le> cmp (fst e) lo \<and> cmp (fst e) hi < 0)) ?E"
    unfolding absOps_append absOps_deletes by (rule filter_cong) (auto simp: rangeOf_def image_iff)
  ultimately show ?thesis using tx_deletes [OF v] by blast
qed

section \<open>Commit\<close>

text \<open>The base reader is still counted while the commit runs; closing it afterwards releases it.\<close>

theorem tx_commit:
  assumes v: "tx_view cmp (degree t) K (pages t) A ops tx" and ok: "tree_ok cmp K R t To"
    and run: "\<not> closed t" "\<not> readOnly t" and same: "revision t = tx_baseRevision tx"
    and opsOk: "\<forall>op\<in>set ops. opOk K op" and rv: "revision t \<noteq> lastRevision"
    and room: "room t (opsCost (degree t) (heightOf To) ops + n)" and coh: "coherentOps t ops"
    and base: "tx_base tx = Some s" "1 \<le> readerCount t (sn_revision s)"
  shows "\<exists>tx' t' To'. txCommitDetailed crashed tx t = Some (tx', t',
      Inr \<lparr>bc_Changed = anyChanged (absResults cmp ops (entsOf To)), bc_Operations = absResults cmp ops (entsOf To)\<rparr>) \<and>
    tx_closed tx' \<and> tree_ok cmp K R t' To' \<and> entsOf To' = absOps cmp ops (entsOf To) \<and> room t' n \<and>
    readerCount t' (sn_revision s) = readerCount t (sn_revision s) - 1 \<and>
    revision t' = (if anyChanged (absResults cmp ops (entsOf To)) then revision t + 1 else revision t)"
proof -
  let ?rs = "absResults cmp ops (entsOf To)"
  obtain b where b: "tx_batch tx = Some b" "openBatch b" "wb_ops b = ops" using v by (auto simp: tx_view_def)
  have s: "\<not> sn_closed s" "sn_hasTree s" "\<not> tx_closed tx" using v base(1) by (auto simp: tx_view_def)
  obtain t1 To' where c: "commitDetailed crashed t b = (b\<lparr>wb_ops := [], wb_closed := True\<rparr>, t1,
      Inr \<lparr>bc_Changed = anyChanged ?rs, bc_Operations = ?rs\<rparr>)"
    "mutated cmp K R n t To (absOps cmp ops (entsOf To)) t1 To'"
    "revision t1 = (if anyChanged ?rs then revision t + 1 else revision t)"
    using commit_ok [OF ok run b(2) _ rv, of n crashed] opsOk room coh unfolding b(3) by blast
  note M = mutatedD [OF c(2)]
  have run1: "\<not> closed t1" "\<not> readOnly t1" using M(4) run by (simp_all add: sameTree_def)
  have cnt: "readerCount t1 r = readerCount t r" for r by (rule readerCount_same [OF M(5)])
  have cnt1: "1 \<le> readerCount t1 (sn_revision s)" using base(2) cnt by simp
  obtain t2 where cl: "snapClose s t1 = Some (s\<lparr>sn_closed := True\<rparr>, t2)" "tree_ok cmp K R t2 To'"
    "\<forall>r. readerCount t2 r = readerCount t1 r - (if r = sn_revision s then 1 else 0)"
    "revision t2 = revision t1" "\<forall>n. room t2 n = room t1 n"
    using snapClose_ok [OF M(1) run1 s(1,2) cnt1] by blast
  define tx' where "tx' = tx\<lparr>tx_batch := Some (b\<lparr>wb_ops := [], wb_closed := True\<rparr>), tx_staged := [],
    tx_closed := True, tx_base := None\<rparr>"
  have "txCommitDetailed crashed tx t = Some (tx', t2, Inr \<lparr>bc_Changed = anyChanged ?rs, bc_Operations = ?rs\<rparr>)"
    using s(3) b(1) c(1) cl(1) base(1) same by (simp add: txCommitDetailed_def txClose_def tx'_def)
  moreover have "tx_closed tx'" by (simp add: tx'_def)
  ultimately show ?thesis using cl(2-5) c(3) cnt M(2,3) by (intro exI [of _ tx'] exI [of _ t2] exI [of _ To']) simp
qed

text \<open>A transaction that began before the last publication changes nothing.\<close>

theorem tx_conflict:
  assumes v: "tx_view cmp (degree t) K (pages t) A ops tx" and ok: "tree_ok cmp K R t To"
    and run: "\<not> closed t" "\<not> readOnly t" and moved: "revision t \<noteq> tx_baseRevision tx"
    and base: "tx_base tx = Some s" "1 \<le> readerCount t (sn_revision s)"
  shows "\<exists>tx' t'. txCommitDetailed crashed tx t = Some (tx', t', Inl ErrTxConflict) \<and> tx_closed tx' \<and>
    tree_ok cmp K R t' To \<and> revision t' = revision t"
proof -
  obtain b where b: "tx_batch tx = Some b" using v by (auto simp: tx_view_def)
  have s: "\<not> sn_closed s" "sn_hasTree s" "\<not> tx_closed tx" "tx_hasTree tx" using v base(1) by (auto simp: tx_view_def)
  obtain t2 where cl: "snapClose s t = Some (s\<lparr>sn_closed := True\<rparr>, t2)" "tree_ok cmp K R t2 To"
    "revision t2 = revision t"
    using snapClose_ok [OF ok run s(1,2) base(2)] by blast
  define tx' where "tx' = tx\<lparr>tx_batch := Some (batchRollback b), tx_staged := [], tx_closed := True, tx_base := None\<rparr>"
  have "txCommitDetailed crashed tx t = Some (tx', t2, Inl ErrTxConflict)"
    using s b cl(1) base(1) moved by (simp add: txCommitDetailed_def txClose_def tx'_def)
  moreover have "tx_closed tx'" by (simp add: tx'_def)
  ultimately show ?thesis using cl(2,3) by blast
qed

end

section \<open>Transaction cursors\<close>

text \<open>A cursor over sorted entries: seeking finds the first entry at or above the key.\<close>

lemma tcSeekLoop_find:
  "tcSeekLoop cmp k j es = map_option (\<lambda>i. j + int i) (find (\<lambda>i. 0 \<le> cmp (fst (es ! i)) k) [0..<length es])"
proof (induction es arbitrary: j)
  case (Cons e es)
  have "find P (map Suc xs) = map_option Suc (find (P \<circ> Suc) xs)" for P and xs :: "nat list"
    by (induction xs) auto
  from this [of _ "[0..<length es]"] show ?case
    using Cons by (cases "find (\<lambda>i. 0 \<le> cmp (fst (es ! i)) k) [0..<length es]")
      (auto simp: upt_conv_Cons map_Suc_upt [symmetric] comp_def simp del: upt_Suc)
qed simp

definition tc_at :: "TxCursor \<Rightarrow> (key \<times> bytes) list \<Rightarrow> nat \<Rightarrow> bool" where
  "tc_at c es i \<longleftrightarrow> tcValid c \<and> tc_entries c = es \<and> tc_index c = int i \<and> i < length es"

lemma tc_at_entry: "tc_at c es i \<Longrightarrow> tcKey c = Some (fst (es ! i)) \<and> tcValue c = Some (snd (es ! i))"
  by (simp add: tc_at_def tcKey_def tcValue_def tcEntry_def)

theorem tcNext_ok:
  assumes "tc_at c es i"
  shows "if Suc i < length es then \<exists>c'. tcNext c = (c', True) \<and> tc_at c' es (Suc i)
    else \<exists>c'. tcNext c = (c', False) \<and> \<not> tcValid c'"
  using assms by (auto simp: tc_at_def tcNext_def Let_def tcInvalidate_def tcValid_def tcUsable_def)

theorem tcPrev_ok:
  assumes "tc_at c es i"
  shows "if 0 < i then \<exists>c'. tcPrev c = (c', True) \<and> tc_at c' es (i - 1)
    else \<exists>c'. tcPrev c = (c', False) \<and> \<not> tcValid c'"
  using assms by (auto simp: tc_at_def tcPrev_def Let_def tcInvalidate_def tcValid_def tcUsable_def)

theorem tcSeek_ok:
  assumes "tcUsable c"
  shows "case find (\<lambda>i. 0 \<le> cmp (fst (tc_entries c ! i)) k) [0..<length (tc_entries c)] of
      Some i \<Rightarrow> \<exists>c'. tcSeek cmp c k = (c', True) \<and> tc_at c' (tc_entries c) i
    | None \<Rightarrow> \<exists>c'. tcSeek cmp c k = (c', False) \<and> \<not> tcValid c'"
proof (cases "find (\<lambda>i. 0 \<le> cmp (fst (tc_entries c ! i)) k) [0..<length (tc_entries c)]")
  case None
  then show ?thesis using assms
    by (auto simp: tcSeek_def tcSeekLoop_find tcInvalidate_def tcValid_def)
next
  case (Some i)
  then have "i < length (tc_entries c)" by (auto simp: find_Some_iff)
  then show ?thesis using assms Some
    by (auto simp: tcSeek_def tcSeekLoop_find tc_at_def tcValid_def tcUsable_def)
qed
end
