(* ===== verification/Isolation.thy ===== *)
theory Isolation
  imports Refinement
begin

text \<open>
  What the refinement gives a reader: the first snapshot of a program keeps its version through
  every later call that does not close it, and every page of the file stays accounted for.
\<close>

lemma snap_kept:
  assumes "cstep K e w w'" "e \<noteq> EClose 0" "w_snaps w = s # ss"
  shows "\<exists>ss'. w_snaps w' = s # ss'"
  using assms by (cases rule: cstep.cases) (auto split: nat.splits)

lemma view_kept:
  assumes "astep cmp e s s'" "e \<noteq> EClose 0" "s_views s = v # vs"
  shows "\<exists>vs'. s_views s' = v # vs'"
  using assms by (cases rule: astep.cases) (auto split: nat.splits)

lemma run_keeps:
  assumes "run stp es w w'" "E \<notin> set es" "P w"
    and "\<And>e w w'. stp e w w' \<Longrightarrow> e \<noteq> E \<Longrightarrow> P w \<Longrightarrow> P w'"
  shows "P w'"
  using assms by (induction rule: run.induct) auto

lemma run_snaps: "run (cstep K) es w w' \<Longrightarrow> EClose 0 \<notin> set es \<Longrightarrow> \<exists>ss. w_snaps w = s # ss \<Longrightarrow> \<exists>ss. w_snaps w' = s # ss"
  by (erule (1) run_keeps) (use snap_kept in blast)+

lemma run_views: "run (astep cmp) es w w' \<Longrightarrow> EClose 0 \<notin> set es \<Longrightarrow> \<exists>vs. s_views w = v # vs \<Longrightarrow> \<exists>vs. s_views w' = v # vs"
  by (erule (1) run_keeps) (use view_kept in blast)+

lemma run_trans: "run stp es w w1 \<Longrightarrow> run stp es' w1 w2 \<Longrightarrow> run stp (es @ es') w w2"
  by (induction rule: run.induct) (auto intro: run.step)

section \<open>Reclaiming\<close>

text \<open>In a tree without a shared reader table the watermark is the oldest revision still read.\<close>

lemma minReader_fold:
  fixes acc :: "u64 \<times> bool"
  shows "snd acc \<Longrightarrow> fst (foldl (\<lambda>(oldest, found) (r, n).
    if \<not> found \<or> r < oldest then (r, True) else (oldest, found)) acc rs) \<in> insert (fst acc) (fst ` set rs)"
proof (induction rs arbitrary: acc)
  case (Cons x rs)
  obtain r n where x: "x = (r, n)" by (cases x)
  obtain m where acc: "acc = (m, True)" using Cons.prems by (cases acc) simp
  show ?case using Cons.IH [of "(r, True)"] Cons.IH [of acc] by (cases "r < m") (auto simp: x acc)
qed simp

lemma minReader_in: "rs \<noteq> [] \<Longrightarrow> fst (minReader rs) \<in> fst ` set rs"
proof (cases rs)
  case (Cons x xs)
  obtain r n where x: "x = (r, n)" by (cases x)
  show ?thesis using minReader_fold [of "(r, True)" xs] by (simp add: minReader_def Cons x)
qed simp

lemma minReader_Min: "rs \<noteq> [] \<Longrightarrow> minReader rs = (Min (fst ` set rs), True)"
proof -
  assume rs: "rs \<noteq> []"
  have "fst (minReader rs) = Min (fst ` set rs)"
    by (rule sym, rule Min_eqI) (use minReader_le minReader_in [OF rs] in auto)
  moreover have "snd (minReader rs)" using minReader_le minReader_in [OF rs] by blast
  ultimately show ?thesis by (simp add: prod_eq_iff)
qed

lemma reclaim_watermark:
  assumes mem: "arena t = None" and readers: "activeReaders t \<noteq> []"
  shows "retired (reclaimRetiredPages t) = filter (\<lambda>x. Min (fst ` set (activeReaders t)) \<le> rp_revision x) (retired t)"
    "free (reclaimRetiredPages t) =
       free t @ map rp_id (filter (\<lambda>x. rp_revision x < Min (fst ` set (activeReaders t))) (retired t))"
  using minReader_Min [OF readers] mem
  by (auto simp: reclaimRetiredPages_def oldestReaderRevision_def oldestReaderRevisionDetailed_def not_le)

lemma reclaim_all:
  assumes "arena t = None" "activeReaders t = []"
  shows "retired (reclaimRetiredPages t) = []" "free (reclaimRetiredPages t) = free t @ map rp_id (retired t)"
  using assms
  by (simp_all add: reclaimRetiredPages_def oldestReaderRevision_def oldestReaderRevisionDetailed_def minReader_def)

text \<open>The world right after a snapshot of a tree in a well-formed state.\<close>

context key_comparator
begin

lemma sim_snapshot:
  assumes ok: "tree_ok cmp K R t To" and run: "\<not> closed t" "\<not> readOnly t" and s: "treeSnapshot t = (s, t1)"
  shows "sim cmp K R \<lparr>w_tree = t1, w_snaps = [s]\<rparr> \<lparr>s_map = entsOf To, s_views = [Some (entsOf To)]\<rparr>"
proof -
  have rd: "readers_ok t" by (rule state_okD(4) [OF tree_okD(1) [OF ok]])
  have S: "holds_view s To" "sn_revision s = revision t" "tree_ok cmp K R t1 To" "pins cmp K t1 To (revision t) To"
    "\<And>r. readerCount t1 r = readerCount t r + (if r = revision t then 1 else 0)" "sameTree t t1"
    using treeSnapshot_ok [OF ok run(1)] s by auto
  have "viewOk cmp K t1 To s (Some (entsOf To))"
    using S(1,2,4) by (auto simp: viewOk_def holds_view_def)
  moreover have "int (openAt [s] r) \<le> readerCount t1 r" for r
    using S(2) S(5) [of r] readerCount_in(2) [OF rd, of r] by (auto simp: openAt_def)
  ultimately show ?thesis
    unfolding sim_def using S(3,6) run by (intro exI [of _ To]) (simp add: sameTree_def)
qed

lemma snapshot_stable:
  assumes ok: "tree_ok cmp K R t To" and run: "\<not> closed t" "\<not> readOnly t" and s: "treeSnapshot t = (s, t1)"
    and es: "run (cstep K) es \<lparr>w_tree = t1, w_snaps = [s]\<rparr> w" "EClose 0 \<notin> set es"
  obtains A where "holds_view s A" "repOf cmp (degree (w_tree w)) K (pages (w_tree w)) A" "entsOf A = entsOf To"
proof -
  obtain s' where s': "run (astep cmp) es \<lparr>s_map = entsOf To, s_views = [Some (entsOf To)]\<rparr> s'" "sim cmp K R w s'"
    using runs_refine [OF es(1) sim_snapshot [OF ok run s]] by blast
  obtain ss where ss: "w_snaps w = s # ss" using run_snaps [OF es] by fastforce
  obtain vs where vs: "s_views s' = Some (entsOf To) # vs" using run_views [OF s'(1) es(2)] by fastforce
  obtain To' where "list_all2 (viewOk cmp K (w_tree w) To') (w_snaps w) (s_views s')" using s'(2) by (auto simp: sim_def)
  then have "viewOk cmp K (w_tree w) To' s (Some (entsOf To))" by (simp add: ss vs)
  then show ?thesis by (auto simp: viewOk_def pins_def holds_view_def intro!: that)
qed

lemma snapshot_reads:
  assumes "tree_ok cmp K R t To" "\<not> closed t" "\<not> readOnly t" "treeSnapshot t = (s, t1)"
    and "run (cstep K) es \<lparr>w_tree = t1, w_snaps = [s]\<rparr> w" "EClose 0 \<notin> set es"
  shows "snapGet (pages (w_tree w)) s k = Some (map_of (entsOf To) k)"
    "snapRangeBetween (pages (w_tree w)) s lo hi visit x =
      Some (fst (visitList visit x (rangeOf cmp lo hi (entsOf To))))"
proof -
  obtain A where A: "holds_view s A" "repOf cmp (degree (w_tree w)) K (pages (w_tree w)) A" "entsOf A = entsOf To"
    by (rule snapshot_stable [OF assms])
  have "sorted_by cmp (entsOf A)" using A(2) by (cases A) auto
  then show "snapGet (pages (w_tree w)) s k = Some (map_of (entsOf To) k)"
    "snapRangeBetween (pages (w_tree w)) s lo hi visit x =
      Some (fst (visitList visit x (rangeOf cmp lo hi (entsOf To))))"
    using snapGet_ok [OF A(1,2)] snapRange_ok(3) [OF A(1,2)] between_rangeOf A(3) by simp_all
qed

text \<open>Full and lower-bounded scans of the live tree.\<close>

lemma scans_ok:
  assumes "tree_ok cmp K R t To" "\<not> closed t"
  shows "map_option fst (treeRange os_advise t visit s) = Some (fst (visitList visit s (entsOf To)))"
    "map_option fst (treeRangeFrom os_advise t lo visit s) =
       Some (fst (visitList visit s (filter (\<lambda>e. 0 \<le> cmp (fst e) lo) (entsOf To))))"
    "map_option fst (treeRangeBetween os_advise t lo hi visit s) =
       Some (fst (visitList visit s (rangeOf cmp lo hi (entsOf To))))"
proof -
  show "map_option fst (treeRange os_advise t visit s) = Some (fst (visitList visit s (entsOf To)))"
    using treeRange_ok [OF assms, of os_advise visit s] by (elim exE) simp
  show "map_option fst (treeRangeFrom os_advise t lo visit s) =
       Some (fst (visitList visit s (filter (\<lambda>e. 0 \<le> cmp (fst e) lo) (entsOf To))))"
    using treeRangeFrom_ok [OF assms, of os_advise lo visit s] by (elim exE) (simp add: atLeast_key_def)
  show "map_option fst (treeRangeBetween os_advise t lo hi visit s) =
       Some (fst (visitList visit s (rangeOf cmp lo hi (entsOf To))))"
    using treeRangeBetween_ok [OF assms, of os_advise lo hi visit s] between_rangeOf [OF entries_sorted [OF assms(1)]]
    by (elim exE) simp
qed

text \<open>Closing the last snapshot leaves nothing retired in a tree kept in memory.\<close>

lemma last_close:
  assumes ok: "tree_ok cmp K R t To" and run: "\<not> closed t" "\<not> readOnly t" and mem: "arena t = None"
    and s: "\<not> sn_closed s" "sn_hasTree s" "activeReaders t = [(sn_revision s, 1)]"
  shows "\<exists>t'. snapClose s t = Some (s\<lparr>sn_closed := True\<rparr>, t') \<and> tree_ok cmp K R t' To \<and>
    retired t' = [] \<and> free t' = free t @ map rp_id (retired t) \<and> activeReaders t' = []"
proof -
  have count: "1 \<le> readerCount t (sn_revision s)" using s(3) by (simp add: readerCount_def)
  let ?t1 = "endRead t (sn_revision s)"
  have e: "?t1 = reclaimRetiredPages (t\<lparr>activeReaders := []\<rparr>)"
    using s(3) by (simp add: endRead_def readerCount_def)
  have r: "retired ?t1 = []" "free ?t1 = free t @ map rp_id (retired t)" "activeReaders ?t1 = []"
    "closed ?t1 = closed t" "readOnly ?t1 = readOnly t"
    unfolding e using reclaim_all [of "t\<lparr>activeReaders := []\<rparr>"] mem by simp_all
  obtain t' where t': "relinkLeaves ?t1 = Some t'" "tree_ok cmp K R t' To" "retired t' = retired ?t1"
    "free t' = free ?t1" "activeReaders t' = activeReaders ?t1"
    by (rule relink_ok [OF endRead_state [OF ok count]]) (rule that)
  then show ?thesis using s run r by (simp add: snapClose_def Let_def)
qed

end

lemma sim_owned:
  assumes "sim cmp K R w s"
  obtains To where "entsOf To = s_map s" "root (w_tree w) = rootOf To" "owned (w_tree w) (idsOf To + R)"
    "repOf cmp (degree (w_tree w)) K (pages (w_tree w)) To"
proof -
  obtain To where To: "tree_ok cmp K R (w_tree w) To" "entsOf To = s_map s" using assms by (auto simp: sim_def)
  note S = state_okD [OF tree_okD(1) [OF To(1)]]
  show ?thesis by (rule that [OF To(2) S(7,2,9)])
qed

end
