(* ===== verification/TxRuns.thy ===== *)
theory TxRuns
  imports TxCorrect Isolation
begin

text \<open>
  Whole transactions: begun on a tree, given a list of operations, read, and committed either
  against the tree they began on or after somebody else published.
\<close>

lemma stageOps_base [simp]:
  "tx_base (foldl stageOp tx ops) = tx_base tx" "tx_baseRevision (foldl stageOp tx ops) = tx_baseRevision tx"
  by (induction ops arbitrary: tx)
     (auto simp: stageOp_def txPut_def txDelete_def split: batchOpKind.split option.split)

context key_comparator
begin

lemma tx_started:
  assumes ok: "tree_ok cmp K R t To" and run: "\<not> closed t" and b: "beginReadWrite t = (tx, t1)"
  obtains s where "tx_view cmp (degree t1) K (pages t1) To [] tx" "tx_baseRevision tx = revision t1"
    "tree_ok cmp K R t1 To" "tx_base tx = Some s" "sn_revision s = revision t" "revision t1 = revision t"
    "\<And>r. readerCount t1 r = readerCount t r + (if r = revision t then 1 else 0)" "sameTree t t1"
    "\<And>n. room t1 n = room t n" "pins cmp K t1 To (revision t) To" "1 \<le> readerCount t1 (revision t)"
    "pages t1 = pages t" "treeCache t1 = treeCache t"
proof -
  obtain s t' where s: "treeSnapshot t = (s, t')" "holds_view s To" "sn_revision s = revision t"
    "tree_ok cmp K R t' To" "pins cmp K t' To (revision t) To"
    "\<forall>r. readerCount t' r = readerCount t r + (if r = revision t then 1 else 0)" "pages t' = pages t"
    "revision t' = revision t" "\<forall>n. room t' n = room t n" "sameTree t t'" "treeCache t' = treeCache t"
    using treeSnapshot_ok [OF ok run] by blast
  have "readers_ok t" by (rule state_okD(4) [OF tree_okD(1) [OF ok]])
  then have "0 \<le> readerCount t (revision t)" by (rule readerCount_in(2))
  moreover have "t1 = t'" "tx_base tx = Some s" "tx_baseRevision tx = revision t'"
    using b s(1) by (auto simp: beginReadWrite_def)
  moreover have "tx_view cmp (degree t') K (pages t') To [] tx"
    using tx_begin [OF ok run] b \<open>t1 = t'\<close> by auto
  ultimately show ?thesis using s(3-) by (intro that [of s]) auto
qed

lemma tx_staged_view:
  assumes "tree_ok cmp K R t To" "\<not> closed t" "beginReadWrite t = (tx, t1)" "\<forall>op\<in>set ops. wellOp op"
  shows "tx_view cmp (degree t1) K (pages t1) To ops (foldl stageOp tx ops)"
proof -
  obtain s where "tx_view cmp (degree t1) K (pages t1) To [] tx" by (rule tx_started [OF assms(1-3)])
  from tx_stage [OF this assms(4)] show ?thesis by simp
qed

lemma tx_reads:
  assumes "tree_ok cmp K R t To" "\<not> closed t" "beginReadWrite t = (tx, t1)" "\<forall>op\<in>set ops. wellOp op"
  shows "txGet (pages t1) (foldl stageOp tx ops) k = Some (map_of (absOps cmp ops (entsOf To)) k)"
    "cmp lo hi < 0 \<Longrightarrow> txRangeBetween (pages t1) cmp (foldl stageOp tx ops) lo hi visit s =
       Some (fst (visitList visit s (rangeOf cmp lo hi (absOps cmp ops (entsOf To)))))"
  using tx_get [OF tx_staged_view [OF assms]] tx_range [OF tx_staged_view [OF assms]] by simp_all

lemma tx_committed:
  assumes ok: "tree_ok cmp K R t To" and run: "\<not> closed t" "\<not> readOnly t" and b: "beginReadWrite t = (tx, t1)"
    and ops: "\<forall>op\<in>set ops. wellOp op \<and> opOk K op" and rv: "revision t \<noteq> lastRevision"
    and room: "room t (opsCost (degree t) (heightOf To) ops + n)" and coh: "coherentOps t1 ops"
  shows "\<exists>tx' t' To'. txCommitDetailed crashed (foldl stageOp tx ops) t1 = Some (tx', t',
      Inr \<lparr>bc_Changed = anyChanged (absResults cmp ops (entsOf To)), bc_Operations = absResults cmp ops (entsOf To)\<rparr>) \<and>
    tx_closed tx' \<and> tree_ok cmp K R t' To' \<and> entsOf To' = absOps cmp ops (entsOf To) \<and>
    readerCount t' (revision t) = readerCount t (revision t) \<and>
    revision t' = (if anyChanged (absResults cmp ops (entsOf To)) then revision t + 1 else revision t)"
proof -
  obtain s where s: "tx_baseRevision tx = revision t1" "tree_ok cmp K R t1 To" "tx_base tx = Some s"
    "sn_revision s = revision t" "revision t1 = revision t"
    "\<And>r. readerCount t1 r = readerCount t r + (if r = revision t then 1 else 0)" "sameTree t t1"
    "\<And>n. room t1 n = room t n" "1 \<le> readerCount t1 (revision t)"
    by (rule tx_started [OF ok run(1) b]) (rule that)
  have v: "tx_view cmp (degree t1) K (pages t1) To ops (foldl stageOp tx ops)"
    using ops by (intro tx_staged_view [OF ok run(1) b]) simp
  have run1: "\<not> closed t1" "\<not> readOnly t1" using s(7) run by (simp_all add: sameTree_def)
  have "room t1 (opsCost (degree t1) (heightOf To) ops + n)" using room s(7,8) by (simp add: sameTree_def)
  from tx_commit [OF v s(2) run1 _ _ _ this coh, of s crashed] s ops rv
  obtain tx' t' To' where c: "txCommitDetailed crashed (foldl stageOp tx ops) t1 = Some (tx', t',
      Inr \<lparr>bc_Changed = anyChanged (absResults cmp ops (entsOf To)), bc_Operations = absResults cmp ops (entsOf To)\<rparr>)"
    "tx_closed tx'" "tree_ok cmp K R t' To'" "entsOf To' = absOps cmp ops (entsOf To)"
    "readerCount t' (revision t) = readerCount t1 (revision t) - 1"
    "revision t' = (if anyChanged (absResults cmp ops (entsOf To)) then revision t + 1 else revision t)"
    by auto
  then show ?thesis using s(6) [of "revision t"] by (intro exI [of _ tx'] exI [of _ t'] exI [of _ To']) simp
qed

lemma tx_overtaken:
  assumes ok: "tree_ok cmp K R t To" and run: "\<not> closed t" "\<not> readOnly t" and b: "beginReadWrite t = (tx, t1)"
    and ops: "\<forall>op\<in>set ops. wellOp op" and rv: "revision t \<noteq> lastRevision"
    and room: "room t (putCost (degree t) v (heightOf To) + n)" and k: "length k \<le> K" and v: "length v < 2 ^ 63"
    and put: "treePut t1 k v = Some (t2, r)"
  shows "\<exists>tx' t' To'. txCommitDetailed crashed (foldl stageOp tx ops) t2 = Some (tx', t', Inl ErrTxConflict) \<and>
    tx_closed tx' \<and> tree_ok cmp K R t' To' \<and> entsOf To' = put_list cmp k v (entsOf To) \<and> revision t' = revision t2"
proof -
  obtain s where s: "tx_baseRevision tx = revision t1" "tree_ok cmp K R t1 To" "tx_base tx = Some s"
    "sn_revision s = revision t" "revision t1 = revision t" "sameTree t t1" "\<And>n. room t1 n = room t n"
    "pins cmp K t1 To (revision t) To" "1 \<le> readerCount t1 (revision t)"
    by (rule tx_started [OF ok run(1) b]) (rule that)
  have run1: "\<not> closed t1" "\<not> readOnly t1" using s(6) run by (simp_all add: sameTree_def)
  have "room t1 (putCost (degree t1) v (heightOf To) + n)" using room s(6,7) by (simp add: sameTree_def)
  from treePut_ok [OF s(2) run1 this _ k v] s(5) rv put
  obtain To2 where p: "mutated cmp K R n t1 To (put_list cmp k v (entsOf To)) t2 To2" "revision t2 = revision t1 + 1"
    by auto
  note M = mutatedD [OF p(1)]
  have run2: "\<not> closed t2" "\<not> readOnly t2" "degree t2 = degree t1" using M(4) run1 by (simp_all add: sameTree_def)
  have rd: "readers_ok t1" by (rule state_okD(4) [OF tree_okD(1) [OF s(2)]])
  have "revision t \<in> fst ` set (activeReaders t1)" using readerCount_in(1) [OF rd] s(9) by blast
  then have "pins cmp K t2 To2 (revision t) To" using M(7) s(5,8) by auto
  then have "repOf cmp (degree t2) K (pages t2) To" by (simp add: pins_def)
  then have view: "tx_view cmp (degree t2) K (pages t2) To ops (foldl stageOp tx ops)"
    using tx_staged_view [OF ok run(1) b ops] by (simp add: tx_view_def)
  have moved: "revision t2 \<noteq> tx_baseRevision (foldl stageOp tx ops)"
    using p(2) revision_Suc [of t1] rv s(1,5) by auto
  have cnt: "1 \<le> readerCount t2 (sn_revision s)" using readerCount_same [OF M(5)] s(4,9) by simp
  show ?thesis
    using tx_conflict [OF view M(1) run2(1,2) moved _ cnt, of crashed] s(3) M(2) by auto
qed

text \<open>
  The range of a batch is expanded when it is staged, and only if the bounds are in bytewise order.
\<close>

lemma visitList_keys: "visitList (\<lambda>ks k v. (ks @ [k], True)) ks es = (ks @ map fst es, True)"
  by (induction es arbitrary: ks) auto

lemma batchDelete_list:
  "openBatch b \<Longrightarrow> openBatch (foldl batchDelete b ks) \<and> wb_ops (foldl batchDelete b ks) = wb_ops b @ map deleteOp ks"
  by (induction ks arbitrary: b) (auto simp: batchDelete_def openBatch_def deleteOp_def)

lemma batch_deleteRange:
  assumes ok: "tree_ok cmp K R t To" and run: "\<not> closed t" and b: "openBatch b"
  shows "\<exists>b' t'. batchDeleteRange os_advise t b lo hi = Some (b', t') \<and> openBatch b' \<and>
    wb_ops b' = wb_ops b @ (if compareStrings lo hi < 0 then map (deleteOp \<circ> fst) (rangeOf cmp lo hi (entsOf To)) else [])"
proof (cases "compareStrings lo hi < 0")
  case True
  obtain t' where t': "treeRangeBetween os_advise t lo hi (\<lambda>ks k v. (ks @ [k], True)) [] =
      Some (map fst (rangeOf cmp lo hi (entsOf To)), t')"
    using scans_ok(3) [OF ok run, of os_advise lo hi "\<lambda>ks k v. (ks @ [k], True)" "[]"]
    by (auto simp: visitList_keys)
  then show ?thesis using True b batchDelete_list [OF b]
    by (auto simp: batchDeleteRange_def openBatch_def)
next
  case False
  then show ?thesis using b by (auto simp: batchDeleteRange_def)
qed

end

end
