(* ===== verification/Limits.thy ===== *)
theory Limits
  imports TreeOps
begin

text \<open>
  Keys that leave no room beside them: a cell of more than half a page moves its value to an
  overflow chain, and the chain of the empty value has no page to refer to, so the write panics.
\<close>

definition wideKey :: "key \<Rightarrow> bool" where
  "wideKey k \<longleftrightarrow> shouldStoreOverflow k []"

lemma leafCellValue_wide: "wideKey k \<Longrightarrow> leafCellValue t k [] = None"
  by (simp add: wideKey_def leafCellValue_def overflowCellValue_def writeOverflowChain_empty)

lemma encodeEntries_wide:
  "wideKey k \<Longrightarrow> newEntry k [] \<in> set es \<Longrightarrow> encodeEntries t es = None"
proof (induction es arbitrary: t)
  case (Cons e es)
  show ?case
  proof (cases "e = newEntry k []")
    case True
    then show ?thesis using leafCellValue_wide [OF Cons.prems(1)] by (simp add: newEntry_def)
  next
    case False
    then show ?thesis using Cons by (simp add: bind_eq_None_conv split: prod.splits)
  qed
qed simp

lemma writeLeafEntries_wide:
  "wideKey k \<Longrightarrow> newEntry k [] \<in> set es \<Longrightarrow> writeLeafEntries t p es = None"
  by (simp add: writeLeafEntries_def encodeEntries_wide Let_def)

lemma splitLeaf_wide:
  assumes "wideKey k" "newEntry k [] \<in> set es"
  shows "splitLeaf t p es = None"
proof -
  let ?m = "nat (leafSplitIndex es (degree t))"
  have "set es = set (take ?m es) \<union> set (drop ?m es)" by (metis append_take_drop_id set_append)
  then consider "newEntry k [] \<in> set (take ?m es)" | "newEntry k [] \<in> set (drop ?m es)" using assms(2) by blast
  then show ?thesis
    by cases (auto simp: splitLeaf_def Let_def bind_eq_None_conv writeLeafEntries_wide [OF assms(1)] split: prod.splits)
qed

lemma insertLeaf_wide:
  assumes w: "wideKey k" shows "insertLeaf t i k [] = None"
proof (rule ccontr)
  assume "insertLeaf t i k [] \<noteq> None"
  then obtain r where r: "insertLeaf t i k [] = Some r" by blast
  have "newEntry k [] \<in> set (es[x := newEntry k []])" if "x < length es" for x es
    using that by (rule set_update_memI)
  moreover have "newEntry k [] \<in> set (insertAt es x (newEntry k []))" for x es by (simp add: insertAt_def)
  ultimately show False using r
    by (auto simp: insertLeaf_def bind_Some_iff Let_def binarySearchFunc_def writeLeafEntries_wide [OF w]
        splitLeaf_wide [OF w] split: if_splits)
qed

lemma treeInsert_wide: assumes w: "wideKey k" shows "treeInsert t i k [] = None"
proof -
  have never: "wideKey k \<longrightarrow> v \<noteq> []" if "treeInsert t i k v = Some r" for t i k v r
    using _ that
  proof (rule treeInsert.raw_induct [where P = "\<lambda>t i k v r. wideKey k \<longrightarrow> v \<noteq> []"])
    fix rec :: "Tree \<Rightarrow> PageID \<Rightarrow> key \<Rightarrow> bytes \<Rightarrow> (Tree \<times> insertResult) option" and t i k v r
    assume rec: "\<And>t i k v r. rec t i k v = Some r \<Longrightarrow> wideKey k \<longrightarrow> v \<noteq> []"
    have ih: "rec t i k [] = None" if "wideKey k" for t i k
      using rec [of t i k "[]"] that by (cases "rec t i k []") blast+
    assume "pages t i \<bind> (\<lambda>p. if isLeaf p then insertLeaf t i k v
          else insertBranchDescend t p k \<bind> (\<lambda>(keys, children, index, copied, t1).
             rec t1 copied k v \<bind> (\<lambda>(t2, old, replaced, split).
               insertBranchFinish t2 i keys children index old replaced split))) = Some r"
    then show "wideKey k \<longrightarrow> v \<noteq> []"
      by (auto simp: bind_Some_iff insertLeaf_wide ih split: if_splits prod.splits)
  qed
  show ?thesis using never [of t i k "[]"] w by (cases "treeInsert t i k []") blast+
qed

text \<open>On every tree that accepts writes the put of such a key without a value panics.\<close>

theorem putStaged_wide:
  assumes "wideKey k" "\<not> closed t" "\<not> readOnly t"
  shows "putStaged t k [] = None"
  using assms
  by (auto simp: putStaged_def putFirst_def treeInsert_wide writeLeafEntries_wide bind_eq_None_conv split: prod.splits)

end
