(* ===== verification/CursorCorrect.thy ===== *)
theory CursorCorrect
  imports Cursor
begin

text \<open>
  A positioned cursor is a place in the sorted entries of the version it reads.  Its stack is a
  spine: a path of pages from the root to a leaf, each with the index of the child or the slot.
  What lies behind the spine and what lies ahead of it are the entries of the tree, so moving the
  cursor moves the place by one, and the bounds stop it at the right entries.
\<close>

section \<open>Spines\<close>

type_synonym frame = "gtree \<times> nat"

text \<open>Frames are listed from the top of the stack.\<close>

definition enc :: "frame list \<Rightarrow> (PageID \<times> int) list" where
  "enc fs = rev (map (\<lambda>(U, n). (gid U, int n)) fs)"

fun isB :: "gtree \<Rightarrow> bool" where
  "isB (GLeaf i es) \<longleftrightarrow> False"
| "isB (GBranch i ts) \<longleftrightarrow> True"

fun pendingOf :: "gtree \<Rightarrow> frame list \<Rightarrow> gtree" where
  "pendingOf T [] = T"
| "pendingOf T ((GBranch i ts, n) # fs) = ts ! n"
| "pendingOf T ((GLeaf i es, n) # fs) = T"

fun inside :: "frame \<Rightarrow> bool" where
  "inside (GLeaf i es, n) \<longleftrightarrow> n \<le> length es"
| "inside (GBranch i ts, n) \<longleftrightarrow> n < length ts"

fun spine :: "gtree \<Rightarrow> frame list \<Rightarrow> bool" where
  "spine T [] \<longleftrightarrow> True"
| "spine T ((U, n) # fs) \<longleftrightarrow> spine T fs \<and> (\<forall>f\<in>set fs. isB (fst f)) \<and> U = pendingOf T fs \<and> inside (U, n)"

fun aheadOf :: "frame \<Rightarrow> (key \<times> bytes) list" where
  "aheadOf (GLeaf i es, n) = drop n (map kv es)"
| "aheadOf (GBranch i ts, n) = concat (map gentries (drop (Suc n) ts))"

fun behindOf :: "frame \<Rightarrow> (key \<times> bytes) list" where
  "behindOf (GLeaf i es, n) = take n (map kv es)"
| "behindOf (GBranch i ts, n) = concat (map gentries (take n ts))"

definition ahead :: "frame list \<Rightarrow> (key \<times> bytes) list" where
  "ahead fs = concat (map aheadOf fs)"

definition behind :: "frame list \<Rightarrow> (key \<times> bytes) list" where
  "behind fs = concat (map behindOf (rev fs))"

definition inner :: "frame list \<Rightarrow> bool" where
  "inner fs \<longleftrightarrow> (\<forall>f\<in>set fs. isB (fst f))"

lemma spine_simps [simp]:
  "ahead [] = []" "behind [] = []" "ahead (f # fs) = aheadOf f @ ahead fs" "behind (f # fs) = behind fs @ behindOf f"
  "enc [] = []" "enc ((U, n) # fs) = enc fs @ [(gid U, int n)]" "inner []" "inner (f # fs) = (isB (fst f) \<and> inner fs)"
  by (simp_all add: ahead_def behind_def enc_def inner_def)

lemma branch_split:
  "n < length ts \<Longrightarrow> concat (map gentries (take n ts)) @ gentries (ts ! n) @ concat (map gentries (drop (Suc n) ts)) =
     concat (map gentries ts)"
  using gentries_split [of n ts] by simp

lemma spine_entries:
  "spine T fs \<Longrightarrow> inner fs \<Longrightarrow> behind fs @ gentries (pendingOf T fs) @ ahead fs = gentries T"
proof (induction fs)
  case (Cons f fs)
  obtain i ts n where f: "f = (GBranch i ts, n)"
    using Cons.prems(2) by (metis inner_def isB.elims(2) list.set_intros(1) prod.collapse)
  then have "GBranch i ts = pendingOf T fs" "n < length ts" "spine T fs" using Cons.prems(1) by auto
  then have "gentries (pendingOf T fs) = behindOf f @ gentries (ts ! n) @ aheadOf f"
    using branch_split [of n ts] f by (metis behindOf.simps(2) aheadOf.simps(2) gentries.simps(2))
  then show ?case using Cons.IH \<open>spine T fs\<close> Cons.prems(2) f by simp
qed simp

lemma spine_leaf:
  assumes "spine T ((GLeaf j es, n) # fs)"
  shows "behind fs @ map kv es @ ahead fs = gentries T" "inner fs" "spine T fs" "n \<le> length es"
  using assms spine_entries [of T fs] by (auto simp: inner_def) (metis gentries.simps(1))

lemma spine_rep:
  "spine T fs \<Longrightarrow> inner fs \<Longrightarrow> rep pgs T \<Longrightarrow> shape d K T \<Longrightarrow>
     rep pgs (pendingOf T fs) \<and> shape d K (pendingOf T fs)"
proof (induction fs)
  case (Cons f fs)
  obtain i ts n where f: "f = (GBranch i ts, n)"
    using Cons.prems(2) by (metis inner_def isB.elims(2) list.set_intros(1) prod.collapse)
  then have "rep pgs (GBranch i ts)" "shape d K (GBranch i ts)" "n < length ts"
    using Cons by auto
  then show ?case using f by auto
qed simp

section \<open>Positions\<close>

definition sameCursor :: "Cursor \<Rightarrow> Cursor \<Rightarrow> bool" where
  "sameCursor c c' \<longleftrightarrow> cu_snapshot c' = cu_snapshot c \<and> cu_owned c' = cu_owned c \<and> cu_root c' = cu_root c \<and>
     cu_lower c' = cu_lower c \<and> cu_end c' = cu_end c \<and> cu_hasLower c' = cu_hasLower c \<and>
     cu_hasEnd c' = cu_hasEnd c \<and> cu_closed c' = cu_closed c"

definition cu_at :: "gtree \<Rightarrow> Cursor \<Rightarrow> nat \<Rightarrow> bool" where
  "cu_at T c i \<longleftrightarrow> cu_valid c \<and> (\<exists>j es n fs. spine T ((GLeaf j es, n) # fs) \<and> n < length es \<and>
     cu_stack c = enc ((GLeaf j es, n) # fs) \<and> i = length (behind fs) + n) \<and>
     i < length (gentries T) \<and> cu_key c = fst (gentries T ! i) \<and> cu_value c = snd (gentries T ! i)"

text \<open>Where a forward or a backward move ends that reaches place \<open>i\<close>, or the place before \<open>i\<close>.\<close>

definition moved :: "gtree \<Rightarrow> Cursor \<Rightarrow> bool \<Rightarrow> nat \<Rightarrow> (Cursor \<times> bool) option \<Rightarrow> bool" where
  "moved T c ok i r \<longleftrightarrow> (\<exists>c'. r = Some (c', ok) \<and> sameCursor c c' \<and> (if ok then cu_at T c' i else \<not> cu_valid c'))"

definition forwardTo :: "comparator \<Rightarrow> gtree \<Rightarrow> Cursor \<Rightarrow> nat \<Rightarrow> (Cursor \<times> bool) option \<Rightarrow> bool" where
  "forwardTo cmp T c i = moved T c (i < length (gentries T) \<and>
     \<not> (cu_hasEnd c \<and> 0 \<le> cmp (fst (gentries T ! i)) (cu_end c))) i"

definition backwardTo :: "comparator \<Rightarrow> gtree \<Rightarrow> Cursor \<Rightarrow> nat \<Rightarrow> (Cursor \<times> bool) option \<Rightarrow> bool" where
  "backwardTo cmp T c i = moved T c (0 < i \<and> i \<le> length (gentries T) \<and>
     \<not> (cu_hasLower c \<and> cmp (fst (gentries T ! (i - 1))) (cu_lower c) < 0)) (i - 1)"

lemma moved_invalid: "\<not> ok \<Longrightarrow> sameCursor c0 c \<Longrightarrow> moved T c0 ok i (Some (cuInvalidate c))"
  by (simp add: moved_def cuInvalidate_def sameCursor_def)

lemma sameCursor_refl [simp]: "sameCursor c c"
  by (simp add: sameCursor_def)

lemma moved_same: "moved T c ok i r \<Longrightarrow> sameCursor c0 c \<Longrightarrow> moved T c0 ok i r"
  by (auto simp: moved_def sameCursor_def)

lemma forwardTo_same: "forwardTo cmp T c i r \<Longrightarrow> sameCursor c0 c \<Longrightarrow> forwardTo cmp T c0 i r"
  using moved_same [of T c _ i r c0] by (simp add: forwardTo_def sameCursor_def)

lemma backwardTo_same: "backwardTo cmp T c i r \<Longrightarrow> sameCursor c0 c \<Longrightarrow> backwardTo cmp T c0 i r"
  using moved_same [of T c _ "i - 1" r c0] by (simp add: backwardTo_def sameCursor_def)

lemma stack_fields [simp]:
  "sameCursor c (push c' i n) = sameCursor c c'" "sameCursor c (pop c') = sameCursor c c'"
  "sameCursor c (setTop c' n) = sameCursor c c'" "sameCursor c (c'\<lparr>cu_stack := s\<rparr>) = sameCursor c c'"
  "cu_stack (push c i n) = cu_stack c @ [(i, n)]" "cu_stack (pop c) = butlast (cu_stack c)"
  "cu_stack (setTop c n) = butlast (cu_stack c) @ [(fst (last (cu_stack c)), n)]"
  by (simp_all add: push_def pop_def setTop_def sameCursor_def)

lemma loadLeafSlot_ok:
  assumes p: "leafPage p i es" and ok: "\<forall>e\<in>set es. entry_ok pgs e" and n: "n < length es"
  shows "loadLeafSlot pgs c p n =
    Some (c\<lparr>cu_key := fst (kv (es ! n)), cu_value := snd (kv (es ! n)), cu_valid := True\<rparr>)"
proof -
  obtain k v ch where e: "es ! n = (k, v, ch)" by (cases "es ! n")
  obtain raw f where g: "gcell (es ! n) = (k, raw, f)" by (metis e fst_conv fst_gcell prod.exhaust)
  have h: "holds p flagLeaf (map gcell es)" using p by (simp add: leafPage_def)
  have "resolveLeafValue pgs raw f = Some v"
    using ok n resolve_gcell [of pgs k v ch k raw f] g e by (metis nth_mem)
  moreover note reads = holds_reads [OF h, of n k raw f]
  ultimately show ?thesis using n g e by (auto simp: loadLeafSlot_def kv_def)
qed

text \<open>Landing on a slot of a leaf.\<close>

lemma land:
  assumes T: "rep pgs T" "shape d K T" and sp: "spine T ((GLeaf j es, n) # fs)" and n: "n < length es"
    and c: "cu_stack c = enc ((GLeaf j es, n) # fs)"
    and key: "cu_key c = fst (kv (es ! n))" "cu_value c = snd (kv (es ! n))" "cu_valid c"
  shows "cu_at T c (length (behind fs) + n)"
    "gentries T ! (length (behind fs) + n) = kv (es ! n)" "length (behind fs) + n < length (gentries T)"
proof -
  note E = spine_leaf(1) [OF sp, symmetric]
  show nth: "gentries T ! (length (behind fs) + n) = kv (es ! n)" unfolding E using n by (simp add: nth_append)
  show "length (behind fs) + n < length (gentries T)" unfolding E using n by simp
  moreover have "\<exists>j' es' m gs. spine T ((GLeaf j' es', m) # gs) \<and> m < length es' \<and>
      cu_stack c = enc ((GLeaf j' es', m) # gs) \<and> length (behind fs) + n = length (behind gs) + m"
    using sp n c by blast
  ultimately show "cu_at T c (length (behind fs) + n)" using key nth by (simp add: cu_at_def)
qed

section \<open>Forward\<close>

text \<open>Loading at a spine whose top is a leaf slot.\<close>

lemma forward_slot:
  assumes T: "rep pgs T" "shape d K T" and sp: "spine T ((GLeaf j es, n) # fs)" and n: "n < length es"
    and c: "cu_stack c = enc ((GLeaf j es, n) # fs)"
  shows "forwardTo cmp T c (length (behind fs) + n) (forward pgs cmp None c)"
proof -
  have leaf: "rep pgs (GLeaf j es)" using spine_rep [OF spine_leaf(3,2) [OF sp] T] sp by simp
  then obtain p where p: "pgs j = Some p" "leafPage p j es" by auto
  let ?c = "c\<lparr>cu_key := fst (kv (es ! n)), cu_value := snd (kv (es ! n)), cu_valid := True\<rparr>"
  have ld: "loadLeafSlot pgs c p n = Some ?c" using loadLeafSlot_ok [OF p(2) _ n] leaf by simp
  have "cu_stack ?c = enc ((GLeaf j es, n) # fs)" using c by simp
  note L = land [OF T sp n this]
  have "forward pgs cmp None c = Some (if cu_hasEnd c \<and> 0 \<le> cmp (fst (es ! n)) (cu_end c) then cuInvalidate ?c else (?c, True))"
    using c p n leafPage_kind(1,4) [OF p(2)] ld by (subst forward.simps) (simp add: Let_def)
  then show ?thesis
    using L by (auto simp: forwardTo_def moved_def cuInvalidate_def sameCursor_def)
qed

lemma forward_descend:
  assumes T: "rep pgs T" "shape d K T"
  shows "spine T fs \<Longrightarrow> inner fs \<Longrightarrow> pendingOf T fs = U \<Longrightarrow> cu_stack c = enc fs \<Longrightarrow>
    forwardTo cmp T c (length (behind fs)) (forward pgs cmp (Some (gid U)) c)"
proof (induction U arbitrary: fs c)
  case (GLeaf j es)
  have U: "rep pgs (GLeaf j es)" "es \<noteq> []" using spine_rep [OF GLeaf.prems(1,2) T] GLeaf.prems(3) by auto
  then obtain p where p: "pgs j = Some p" "leafPage p j es" by auto
  have sp: "spine T ((GLeaf j es, 0) # fs)" using GLeaf.prems(1-3) by (simp add: inner_def)
  have "forward pgs cmp (Some j) c = forward pgs cmp None (push c j 0)"
    using p leafPage_kind(1,6) [OF p(2)] by (subst forward.simps) simp
  moreover have "forwardTo cmp T (push c j 0) (length (behind fs) + 0) (forward pgs cmp None (push c j 0))"
    by (rule forward_slot [OF T sp]) (use U(2) GLeaf.prems(4) in simp_all)
  ultimately show ?case by (simp add: forwardTo_same)
next
  case (GBranch i ts)
  have U: "rep pgs (GBranch i ts)" "ts \<noteq> []" using spine_rep [OF GBranch.prems(1,2) T] GBranch.prems(3) by auto
  then obtain p where p: "pgs i = Some p" "branchPage p i (map firstkey (tl ts)) (map gid ts)" by auto
  have lm: "leftmostChild p = gid (ts ! 0)" using p(2) U(2) by (cases ts) (simp_all add: branchPage_def)
  have "forward pgs cmp (Some i) c = forward pgs cmp (Some (gid (ts ! 0))) (push c i 0)"
    using p branchPage_kind(2,6) [OF p(2)] lm by (subst forward.simps) simp
  moreover have "forwardTo cmp T (push c i 0) (length (behind ((GBranch i ts, 0) # fs)))
      (forward pgs cmp (Some (gid (ts ! 0))) (push c i 0))"
    by (rule GBranch.IH) (use U(2) GBranch.prems in \<open>simp_all add: inner_def\<close>)
  ultimately show ?case by (simp add: forwardTo_same)
qed

text \<open>From any spine: a leaf is read at its slot, a branch has done with its child.\<close>

lemma forward_load:
  assumes T: "rep pgs T" "shape d K T"
  shows "spine T fs \<Longrightarrow> cu_stack c = enc fs \<Longrightarrow>
    forwardTo cmp T c (length (gentries T) - length (ahead fs)) (forward pgs cmp None c)"
proof (induction fs arbitrary: c)
  case Nil
  then show ?case by (subst forward.simps) (simp add: forwardTo_def moved_invalid)
next
  case (Cons f fs)
  have sp: "spine T fs" "inner fs" using Cons.prems(1) by (cases f; simp add: inner_def)+
  have popped: "forwardTo cmp T c (length (gentries T) - length (ahead fs)) (forward pgs cmp None (pop c))"
    by (rule forwardTo_same [OF Cons.IH]) (use sp Cons.prems(2) in \<open>cases f; simp\<close>)+
  show ?case
  proof (cases "fst f")
    case (GLeaf j es)
    then obtain n where f: "f = (GLeaf j es, n)" by (cases f) simp
    note S = spine_leaf [OF Cons.prems(1) [unfolded f]]
    have leaf: "rep pgs (GLeaf j es)" using spine_rep [OF S(3,2) T] Cons.prems(1) f by simp
    then obtain p where p: "pgs j = Some p" "leafPage p j es" by auto
    show ?thesis
    proof (cases "n < length es")
      case True
      have "length (gentries T) - length (ahead (f # fs)) = length (behind fs) + n"
        unfolding S(1) [symmetric] using True f by simp
      then show ?thesis using forward_slot [OF T Cons.prems(1) [unfolded f] True] Cons.prems(2) f by simp
    next
      case False
      then have "forward pgs cmp None c = forward pgs cmp None (pop c)"
        using Cons.prems(2) p f leafPage_kind(1,4) [OF p(2)] by (subst forward.simps) (simp add: Let_def)
      then show ?thesis using popped False f by simp
    qed
  next
    case (GBranch i ts)
    then obtain n where f: "f = (GBranch i ts, n)" by (cases f) simp
    have n: "n < length ts" and pend: "GBranch i ts = pendingOf T fs" using Cons.prems(1) f by auto
    have U: "rep pgs (GBranch i ts)" using spine_rep [OF sp T] pend by simp
    then obtain p where p: "pgs i = Some p" "branchPage p i (map firstkey (tl ts)) (map gid ts)" by auto
    have cnt: "unat (slotCount p) = length ts - 1" using branchPage_kind(4) [OF p(2)] by simp
    show ?thesis
    proof (cases "Suc n < length ts")
      case True
      let ?fs = "(GBranch i ts, Suc n) # fs"
      have "forward pgs cmp None c = forward pgs cmp (Some (gid (ts ! Suc n))) (setTop c (int (Suc n)))"
        using Cons.prems(2) p f branchPage_kind(2) [OF p(2)] cnt True branchChild_ok [OF p(2), of "Suc n"]
        by (subst forward.simps) (simp add: Let_def nat_add_distrib add.commute)
      moreover have "forwardTo cmp T (setTop c (int (Suc n))) (length (behind ?fs))
          (forward pgs cmp (Some (gid (ts ! Suc n))) (setTop c (int (Suc n))))"
        by (rule forward_descend [OF T]) (use True sp Cons.prems(2) f in \<open>simp_all add: inner_def pend [symmetric]\<close>)
      moreover have "length (gentries T) - length (ahead (f # fs)) = length (behind ?fs)"
      proof -
        have "behind ?fs @ gentries (ts ! Suc n) @ ahead ?fs = gentries T"
          using spine_entries [of T ?fs] True sp by (simp add: inner_def pend [symmetric])
        moreover have "ahead (f # fs) = gentries (ts ! Suc n) @ ahead ?fs"
          using f True by (simp add: Cons_nth_drop_Suc [symmetric])
        ultimately show ?thesis by (metis add_diff_cancel_right' length_append)
      qed
      ultimately show ?thesis by (simp add: forwardTo_same)
    next
      case False
      then have "forward pgs cmp None c = forward pgs cmp None (pop c)"
        using Cons.prems(2) p f branchPage_kind(2) [OF p(2)] cnt n by (subst forward.simps) (simp add: Let_def)
      then show ?thesis using popped False f by simp
    qed
  qed
qed

section \<open>Backward\<close>

text \<open>
  Going backward a leaf is left by the slot before it, so its frame with \<open>n\<close> entries behind is
  stored with the index \<open>n - 1\<close>, which is \<open>- 1\<close> at its start.
\<close>

fun encb :: "frame list \<Rightarrow> (PageID \<times> int) list" where
  "encb [] = []"
| "encb ((GLeaf i es, n) # fs) = enc fs @ [(i, int n - 1)]"
| "encb ((GBranch i ts, n) # fs) = enc fs @ [(i, int n)]"

lemma encb_inner: "inner fs \<Longrightarrow> encb fs = enc fs"
  by (induction fs rule: encb.induct) auto

lemma backward_slot:
  assumes T: "rep pgs T" "shape d K T" and sp: "spine T ((GLeaf j es, n) # fs)" and n: "0 < n"
    and c: "cu_stack c = encb ((GLeaf j es, n) # fs)"
  shows "backwardTo cmp T c (length (behind fs) + n) (backward pgs cmp None c)"
proof -
  obtain m where m: "n = Suc m" using n by (cases n) auto
  have sp': "spine T ((GLeaf j es, m) # fs)" and lt: "m < length es"
    using sp m unfolding spine.simps inside.simps by linarith+
  have leaf: "rep pgs (GLeaf j es)" using spine_rep [OF spine_leaf(3,2) [OF sp] T] sp by simp
  then obtain p where p: "pgs j = Some p" "leafPage p j es" by auto
  let ?c = "c\<lparr>cu_key := fst (kv (es ! m)), cu_value := snd (kv (es ! m)), cu_valid := True\<rparr>"
  have ld: "loadLeafSlot pgs c p m = Some ?c" using loadLeafSlot_ok [OF p(2) _ lt] leaf by simp
  have "cu_stack ?c = enc ((GLeaf j es, m) # fs)" using c m by simp
  note L = land [OF T sp' lt this]
  have "backward pgs cmp None c =
      Some (if cu_hasLower c \<and> cmp (fst (es ! m)) (cu_lower c) < 0 then cuInvalidate ?c else (?c, True))"
    using c p m leafPage_kind(1,4) [OF p(2)] ld by (subst backward.simps) (simp add: Let_def)
  then show ?thesis
    using L m by (auto simp: backwardTo_def moved_def cuInvalidate_def sameCursor_def)
qed

lemma backward_descend:
  assumes T: "rep pgs T" "shape d K T"
  shows "spine T fs \<Longrightarrow> inner fs \<Longrightarrow> pendingOf T fs = U \<Longrightarrow> cu_stack c = enc fs \<Longrightarrow>
    backwardTo cmp T c (length (behind fs) + length (gentries U)) (backward pgs cmp (Some (gid U)) c)"
proof (induction U arbitrary: fs c)
  case (GLeaf j es)
  have U: "rep pgs (GLeaf j es)" "es \<noteq> []" using spine_rep [OF GLeaf.prems(1,2) T] GLeaf.prems(3) by auto
  then obtain p where p: "pgs j = Some p" "leafPage p j es" by auto
  have sp: "spine T ((GLeaf j es, length es) # fs)" using GLeaf.prems(1-3) by (simp add: inner_def)
  have "backward pgs cmp (Some j) c = backward pgs cmp None (push c j (int (length es) - 1))"
    using p leafPage_kind(1,4,6) [OF p(2)] by (subst backward.simps) simp
  moreover have "backwardTo cmp T (push c j (int (length es) - 1)) (length (behind fs) + length es)
      (backward pgs cmp None (push c j (int (length es) - 1)))"
    by (rule backward_slot [OF T sp]) (use U(2) GLeaf.prems(4) in simp_all)
  ultimately show ?case by (simp add: backwardTo_same add.assoc)
next
  case (GBranch i ts)
  have U: "rep pgs (GBranch i ts)" "ts \<noteq> []" using spine_rep [OF GBranch.prems(1,2) T] GBranch.prems(3) by auto
  then obtain p where p: "pgs i = Some p" "branchPage p i (map firstkey (tl ts)) (map gid ts)" by auto
  let ?n = "length ts - 1"
  have cnt: "unat (slotCount p) = ?n" using branchPage_kind(4) [OF p(2)] by simp
  have n: "?n < length ts" using U(2) by simp
  have "backward pgs cmp (Some i) c = backward pgs cmp (Some (gid (ts ! ?n))) (push c i (int ?n))"
    using p branchPage_kind(2,6) [OF p(2)] cnt branchChild_ok [OF p(2), of ?n] n by (subst backward.simps) simp
  moreover have "backwardTo cmp T (push c i (int ?n)) (length (behind ((GBranch i ts, ?n) # fs)) + length (gentries (ts ! ?n)))
      (backward pgs cmp (Some (gid (ts ! ?n))) (push c i (int ?n)))"
    by (rule GBranch.IH) (use n GBranch.prems in \<open>simp_all add: inner_def\<close>)
  moreover have "concat (map gentries ts) = concat (map gentries (take ?n ts)) @ gentries (ts ! ?n)"
    using branch_split [OF n] by simp
  ultimately show ?case by (simp add: backwardTo_same add.assoc)
qed

lemma backward_load:
  assumes T: "rep pgs T" "shape d K T"
  shows "spine T fs \<Longrightarrow> cu_stack c = encb fs \<Longrightarrow>
    backwardTo cmp T c (length (behind fs)) (backward pgs cmp None c)"
proof (induction fs arbitrary: c)
  case Nil
  then show ?case by (subst backward.simps) (simp add: backwardTo_def moved_invalid)
next
  case (Cons f fs)
  have sp: "spine T fs" "inner fs" using Cons.prems(1) by (cases f; simp add: inner_def)+
  have popped: "backwardTo cmp T c (length (behind fs)) (backward pgs cmp None (pop c))"
  proof (rule backwardTo_same [OF Cons.IH])
    show "cu_stack (pop c) = encb fs"
      using Cons.prems(2) encb_inner [OF sp(2)] by (cases f; cases "fst f") auto
  qed (use sp in simp_all)
  show ?case
  proof (cases "fst f")
    case (GLeaf j es)
    then obtain n where f: "f = (GLeaf j es, n)" by (cases f) simp
    note S = spine_leaf [OF Cons.prems(1) [unfolded f]]
    have leaf: "rep pgs (GLeaf j es)" using spine_rep [OF S(3,2) T] Cons.prems(1) f by simp
    then obtain p where p: "pgs j = Some p" "leafPage p j es" by auto
    show ?thesis
    proof (cases "0 < n")
      case True
      then show ?thesis using backward_slot [OF T Cons.prems(1) [unfolded f] True] Cons.prems(2) f S(4) by simp
    next
      case False
      then have "backward pgs cmp None c = backward pgs cmp None (pop c)"
        using Cons.prems(2) p f leafPage_kind(1,4) [OF p(2)] by (subst backward.simps) (simp add: Let_def)
      then show ?thesis using popped False f by simp
    qed
  next
    case (GBranch i ts)
    then obtain n where f: "f = (GBranch i ts, n)" by (cases f) simp
    have n: "n < length ts" and pend: "GBranch i ts = pendingOf T fs" using Cons.prems(1) f by auto
    have U: "rep pgs (GBranch i ts)" using spine_rep [OF sp T] pend by simp
    then obtain p where p: "pgs i = Some p" "branchPage p i (map firstkey (tl ts)) (map gid ts)" by auto
    show ?thesis
    proof (cases n)
      case (Suc m)
      let ?fs = "(GBranch i ts, m) # fs"
      have "backward pgs cmp None c = backward pgs cmp (Some (gid (ts ! m))) (setTop c (int m))"
        using Cons.prems(2) p f branchPage_kind(2) [OF p(2)] Suc n branchChild_ok [OF p(2), of m]
        by (subst backward.simps) (simp add: Let_def)
      moreover have "backwardTo cmp T (setTop c (int m)) (length (behind ?fs) + length (gentries (ts ! m)))
          (backward pgs cmp (Some (gid (ts ! m))) (setTop c (int m)))"
        by (rule backward_descend [OF T]) (use Suc n sp Cons.prems(2) f in \<open>simp_all add: inner_def pend [symmetric]\<close>)
      moreover have "length (behind (f # fs)) = length (behind ?fs) + length (gentries (ts ! m))"
        using f Suc n by (simp add: take_Suc_conv_app_nth)
      ultimately show ?thesis by (simp add: backwardTo_same add.assoc)
    next
      case 0
      then have "backward pgs cmp None c = backward pgs cmp None (pop c)"
        using Cons.prems(2) p f branchPage_kind(2) [OF p(2)] by (subst backward.simps) (simp add: Let_def)
      then show ?thesis using popped 0 f by simp
    qed
  qed
qed

section \<open>Cursors over a version\<close>

text \<open>A cursor that can be used on a version: open, over its root and its order.\<close>

definition cu_reads :: "comparator \<Rightarrow> nat \<Rightarrow> nat \<Rightarrow> pagemap \<Rightarrow> gtree \<Rightarrow> Cursor \<Rightarrow> bool" where
  "cu_reads cmp d K pgs T c \<longleftrightarrow> cuUsable c \<and> cuCompareKeys c = cmp \<and> cu_root c = gid T \<and>
     rep pgs T \<and> shape d K T \<and> sorted_by cmp (gentries T)"

text \<open>Seeking moves the key up to the lower bound, and stops at the end.\<close>

definition fromKey :: "comparator \<Rightarrow> Cursor \<Rightarrow> key \<Rightarrow> key" where
  "fromKey cmp c k = (if cu_hasLower c \<and> cmp k (cu_lower c) < 0 then cu_lower c else k)"

section \<open>Seeking\<close>

context key_comparator
begin

lemma below_split:
  assumes srt: "sorted_by cmp (concat (map gentries ts))" and ne: "\<forall>T\<in>set ts. gentries T \<noteq> []"
    and x: "x < length ts" and lo: "0 < x \<Longrightarrow> cmp (firstkey (ts ! x)) k \<le> 0"
    and hi: "Suc x < length ts \<Longrightarrow> 0 \<le> cmp (firstkey (ts ! Suc x)) k"
  shows "below_key cmp k (concat (map gentries ts)) =
    concat (map gentries (take x ts)) @ below_key cmp k (gentries (ts ! x))"
proof -
  have "cmp (fst e) k < 0" if e: "e \<in> set (concat (map gentries (take x ts)))" for e
  proof -
    obtain V where V: "V \<in> set (take x ts)" "e \<in> set (gentries V)" using e by auto
    then obtain m where m: "m < x" "e \<in> set (gentries (ts ! m))" using x by (auto simp: in_set_conv_nth [of V])
    have "ts ! x \<in> set ts" using x by simp
    then have "cmp (fst e) (firstkey (ts ! x)) < 0"
      using sorted_between [OF srt m(1) x m(2), of "hd (gentries (ts ! x))"] ne hd_entry by force
    then show ?thesis using cmp_less_le_trans [OF _ lo] m(1) by simp
  qed
  then have "below_key cmp k (concat (map gentries (take x ts))) = concat (map gentries (take x ts))"
    by (auto simp: below_key_def intro!: filter_True)
  moreover have "below_key cmp k (concat (map gentries (drop (Suc x) ts))) = []"
    unfolding range_empty_iff(2)
  proof
    fix e assume "e \<in> set (concat (map gentries (drop (Suc x) ts)))"
    then obtain V where V: "V \<in> set (drop (Suc x) ts)" "e \<in> set (gentries V)" by auto
    then obtain j where "j < length ts - Suc x" "V = ts ! (Suc x + j)" by (auto simp: in_set_conv_nth [of V])
    then obtain m where m: "Suc x \<le> m" "m < length ts" "e \<in> set (gentries (ts ! m))"
      using V(2) by (intro that [of "Suc x + j"]) simp_all
    then have "below_key cmp k (gentries (ts ! m)) = []" using below_rest [OF srt ne hi m(1,2)] by simp
    then show "0 \<le> cmp (fst e) k" using m(3) range_empty_iff(2) by blast
  qed
  moreover have "concat (map gentries ts) = concat (map gentries (take x ts)) @ gentries (ts ! x) @
      concat (map gentries (drop (Suc x) ts))" using branch_split [OF x] by simp
  ultimately show ?thesis by simp
qed

lemma leaf_rank:
  "sorted_by cmp es \<Longrightarrow> rank (\<lambda>p. cmp (fst p) k) es = length (below_key cmp k es)"
  unfolding rank_def by (simp add: below_takeWhile)

lemma seekFrom_ok:
  assumes T: "rep pgs T" "shape d K T" "sorted_by cmp (gentries T)"
  shows "spine T fs \<Longrightarrow> inner fs \<Longrightarrow> pendingOf T fs = U \<Longrightarrow> sorted_by cmp (gentries U) \<Longrightarrow> cu_stack c = enc fs \<Longrightarrow>
    forwardTo cmp T c (length (behind fs) + length (below_key cmp k (gentries U))) (seekFrom pgs cmp k (gid U) c)"
proof (induction U arbitrary: fs c)
  case (GLeaf j es)
  have U: "rep pgs (GLeaf j es)" "es \<noteq> []" using spine_rep [OF GLeaf.prems(1,2) T(1,2)] GLeaf.prems(3) by auto
  then obtain p where p: "pgs j = Some p" "leafPage p j es" by auto
  let ?r = "rank (\<lambda>p. cmp (fst p) k) (map kv es)"
  have r: "?r = length (below_key cmp k (gentries (GLeaf j es)))" "?r \<le> length es"
    using leaf_rank [of "map kv es" k] GLeaf.prems(4) by (simp_all add: below_key_def)
  let ?fs = "(GLeaf j es, ?r) # fs"
  have sp: "spine T ?fs" using GLeaf.prems(1-3) r(2) by (simp add: inner_def)
  have "seekFrom pgs cmp k j c = forward pgs cmp None (push c j (int ?r))"
    using p leafPage_kind(1,6) [OF p(2)] searchSlot_leaf [OF p(2), of k] GLeaf.prems(4)
    by (subst seekFrom.simps) (simp add: loadForward_def)
  moreover have "forwardTo cmp T (push c j (int ?r)) (length (gentries T) - length (ahead ?fs))
      (forward pgs cmp None (push c j (int ?r)))"
    by (rule forward_load [OF T(1,2) sp]) (use GLeaf.prems(5) in simp)
  moreover have "length (gentries T) - length (ahead ?fs) = length (behind fs) + ?r"
    unfolding spine_leaf(1) [OF sp, symmetric] using r(2) by simp
  ultimately show ?case using r(1) by (simp add: forwardTo_same)
next
  case (GBranch i ts)
  have U: "rep pgs (GBranch i ts)" "shape d K (GBranch i ts)"
    using spine_rep [OF GBranch.prems(1,2) T(1,2)] GBranch.prems(3) by auto
  then obtain p where p: "pgs i = Some p" "branchPage p i (map firstkey (tl ts)) (map gid ts)" by auto
  have ts: "ts \<noteq> []" "\<forall>T\<in>set ts. gentries T \<noteq> []" and srt: "sorted_by cmp (concat (map gentries ts))"
    using U(2) GBranch.prems(4) by auto
  let ?x = "childIndex (map firstkey (tl ts)) k cmp"
  note R = route [OF srt ts(2,1), where k = k] and C = branchChildIndex_ok [OF p(2) srt ts(2), of k]
  have "0 \<le> cmp (firstkey (ts ! Suc ?x)) k" if "Suc ?x < length ts"
  proof -
    have "ts ! Suc ?x \<in> set (drop (Suc ?x) ts)" using that by (metis Cons_nth_drop_Suc list.set_intros(1))
    then have "hd (gentries (ts ! Suc ?x)) \<in> set (concat (map gentries (drop (Suc ?x) ts)))"
      using hd_entry ts(2) that unfolding set_concat set_map by (metis UN_I image_eqI nth_mem)
    from R(3) [OF this] show ?thesis
      using cmp_swap [of k "firstkey (ts ! Suc ?x)"] by (simp add: firstkey_def)
  qed
  from below_split [OF srt ts(2) R(1) R(4) this]
  have B: "below_key cmp k (gentries (GBranch i ts)) =
    concat (map gentries (take ?x ts)) @ below_key cmp k (gentries (ts ! ?x))" by simp
  let ?fs = "(GBranch i ts, ?x) # fs"
  have "seekFrom pgs cmp k i c = seekFrom pgs cmp k (gid (ts ! ?x)) (push c i (int ?x))"
    using p branchPage_kind(2,6) [OF p(2)] C branchChild_ok [OF p(2), of ?x] R(1)
    by (subst seekFrom.simps) simp
  moreover have "forwardTo cmp T (push c i (int ?x)) (length (behind ?fs) + length (below_key cmp k (gentries (ts ! ?x))))
      (seekFrom pgs cmp k (gid (ts ! ?x)) (push c i (int ?x)))"
    by (rule GBranch.IH) (use R(1) GBranch.prems sorted_child [OF srt] in \<open>simp_all add: inner_def\<close>)
  ultimately show ?case unfolding B by (simp add: forwardTo_same add.assoc)
qed

lemma seekBeforeFrom_ok:
  assumes T: "rep pgs T" "shape d K T" "sorted_by cmp (gentries T)"
  shows "spine T fs \<Longrightarrow> inner fs \<Longrightarrow> pendingOf T fs = U \<Longrightarrow> sorted_by cmp (gentries U) \<Longrightarrow> cu_stack c = enc fs \<Longrightarrow>
    backwardTo cmp T c (length (behind fs) + length (below_key cmp k (gentries U))) (seekBeforeFrom pgs cmp k (gid U) c)"
proof (induction U arbitrary: fs c)
  case (GLeaf j es)
  have U: "rep pgs (GLeaf j es)" "es \<noteq> []" using spine_rep [OF GLeaf.prems(1,2) T(1,2)] GLeaf.prems(3) by auto
  then obtain p where p: "pgs j = Some p" "leafPage p j es" by auto
  let ?r = "rank (\<lambda>p. cmp (fst p) k) (map kv es)"
  have r: "?r = length (below_key cmp k (gentries (GLeaf j es)))" "?r \<le> length es"
    using leaf_rank [of "map kv es" k] GLeaf.prems(4) by (simp_all add: below_key_def)
  let ?fs = "(GLeaf j es, ?r) # fs"
  have sp: "spine T ?fs" using GLeaf.prems(1-3) r(2) by (simp add: inner_def)
  have "seekBeforeFrom pgs cmp k j c = backward pgs cmp None (push c j (int ?r - 1))"
    using p leafPage_kind(1,6) [OF p(2)] searchSlot_leaf [OF p(2), of k] GLeaf.prems(4)
    by (subst seekBeforeFrom.simps) (simp add: loadBackward_def)
  moreover have "backwardTo cmp T (push c j (int ?r - 1)) (length (behind ?fs)) (backward pgs cmp None (push c j (int ?r - 1)))"
    by (rule backward_load [OF T(1,2) sp]) (use GLeaf.prems(5) in simp)
  ultimately show ?case using r by (simp add: backwardTo_same)
next
  case (GBranch i ts)
  have U: "rep pgs (GBranch i ts)" "shape d K (GBranch i ts)"
    using spine_rep [OF GBranch.prems(1,2) T(1,2)] GBranch.prems(3) by auto
  then obtain p where p: "pgs i = Some p" "branchPage p i (map firstkey (tl ts)) (map gid ts)" by auto
  have ts: "ts \<noteq> []" "\<forall>T\<in>set ts. gentries T \<noteq> []" and srt: "sorted_by cmp (concat (map gentries ts))"
    using U(2) GBranch.prems(4) by auto
  let ?seps = "map firstkey (tl ts)"
  let ?x = "rank (\<lambda>s. cmp s k) ?seps"
  let ?es = "branchCells ?seps (map gid (tl ts))"
  have keys: "map fst ?es = ?seps" by (simp add: branchCells_def comp_def case_prod_beta)
  have inc: "increasing ?seps" by (rule increasing_separators [OF srt ts(2)])
  have "cellRank cmp k ?es = rank (\<lambda>s. cmp s k) (map fst ?es)" unfolding cellRank_def by (rule rank_keys)
  then have "cellRank cmp k ?es = ?x" unfolding keys .
  then obtain found where C: "searchSlotWithComparator p k cmp = Some (?x, found)"
    using searchSlot_rank [of p flagBranch ?es k] inc keys p(2) by (auto simp: branchPage_def map_tl)
  have part: "partitioned (\<lambda>s. cmp s k) ?seps" using partitioned_keys [of "\<lambda>s. s" ?seps k] inc by simp
  have x: "?x < length ts" using rank_le [of "\<lambda>s. cmp s k" ?seps] ts(1) by (cases ts) simp_all
  have lo: "cmp (firstkey (ts ! ?x)) k \<le> 0" if "0 < ?x"
    using rank_below [of "?x - 1" "\<lambda>s. cmp s k" ?seps] that x by (simp add: nth_tl)
  have hi: "0 \<le> cmp (firstkey (ts ! Suc ?x)) k" if "Suc ?x < length ts"
    using rank_at [of "\<lambda>s. cmp s k" ?seps] that by (auto simp: nth_tl not_less)
  from below_split [OF srt ts(2) x lo hi]
  have B: "below_key cmp k (gentries (GBranch i ts)) =
    concat (map gentries (take ?x ts)) @ below_key cmp k (gentries (ts ! ?x))" by simp
  let ?fs = "(GBranch i ts, ?x) # fs"
  have "seekBeforeFrom pgs cmp k i c = seekBeforeFrom pgs cmp k (gid (ts ! ?x)) (push c i (int ?x))"
    using p branchPage_kind(2,6) [OF p(2)] C branchChild_ok [OF p(2), of ?x] x
    by (subst seekBeforeFrom.simps) simp
  moreover have "backwardTo cmp T (push c i (int ?x)) (length (behind ?fs) + length (below_key cmp k (gentries (ts ! ?x))))
      (seekBeforeFrom pgs cmp k (gid (ts ! ?x)) (push c i (int ?x)))"
    by (rule GBranch.IH) (use x GBranch.prems sorted_child [OF srt] in \<open>simp_all add: inner_def\<close>)
  ultimately show ?case unfolding B by (simp add: backwardTo_same add.assoc)
qed

section \<open>The operations\<close>

lemma cu_readsD:
  assumes "cu_reads cmp d K pgs T c"
  shows "cuUsable c" "cuCompareKeys c = cmp" "cu_root c = gid T" "rep pgs T" "shape d K T" "sorted_by cmp (gentries T)"
  using assms by (simp_all add: cu_reads_def)

lemma cu_reads_same: "sameCursor c c' \<Longrightarrow> cu_reads cmp d K pgs T c \<Longrightarrow> cu_reads cmp d K pgs T c'"
  by (auto simp: cu_reads_def sameCursor_def cuUsable_def cuCompareKeys_def)

lemma start [simp]: "sameCursor c (c\<lparr>cu_stack := []\<rparr>)"
  by (simp add: sameCursor_def)

lemma cu_Next_ok:
  assumes r: "cu_reads cmp d K pgs T c" and at: "cu_at T c i"
  shows "forwardTo cmp T c (Suc i) (cuNext pgs c)"
proof -
  note R = cu_readsD [OF r]
  obtain j es n fs where a: "spine T ((GLeaf j es, n) # fs)" "n < length es" "cu_stack c = enc ((GLeaf j es, n) # fs)"
    "i = length (behind fs) + n" "cu_valid c" using at by (auto simp: cu_at_def simp del: spine.simps)
  have sp: "spine T ((GLeaf j es, Suc n) # fs)" using a(1,2) unfolding spine.simps inside.simps by simp
  have "cuNext pgs c = forward pgs cmp None (setTop c (int n + 1))"
    using R(1,2) a(3,5) by (simp add: cuNext_def cuValid_def loadForward_def)
  moreover have "forwardTo cmp T (setTop c (int n + 1)) (length (gentries T) - length (ahead ((GLeaf j es, Suc n) # fs)))
      (forward pgs cmp None (setTop c (int n + 1)))"
    by (rule forward_load [OF R(4,5) sp]) (use a(3) in simp)
  moreover have "length (gentries T) - length (ahead ((GLeaf j es, Suc n) # fs)) = Suc i"
    unfolding spine_leaf(1) [OF sp, symmetric] using a(2,4) by simp
  ultimately show ?thesis by (simp add: forwardTo_same)
qed

lemma cu_Prev_ok:
  assumes r: "cu_reads cmp d K pgs T c" and at: "cu_at T c i"
  shows "backwardTo cmp T c i (cuPrev pgs c)"
proof -
  note R = cu_readsD [OF r]
  obtain j es n fs where a: "spine T ((GLeaf j es, n) # fs)" "n < length es" "cu_stack c = enc ((GLeaf j es, n) # fs)"
    "i = length (behind fs) + n" "cu_valid c" using at by (auto simp: cu_at_def simp del: spine.simps)
  have "cuPrev pgs c = backward pgs cmp None (setTop c (int n - 1))"
    using R(1,2) a(3,5) by (simp add: cuPrev_def cuValid_def loadBackward_def)
  moreover have "backwardTo cmp T (setTop c (int n - 1)) (length (behind ((GLeaf j es, n) # fs)))
      (backward pgs cmp None (setTop c (int n - 1)))"
    by (rule backward_load [OF R(4,5) a(1)]) (use a(3) in simp)
  moreover have "length (behind ((GLeaf j es, n) # fs)) = i" using a(2,4) by simp
  ultimately show ?thesis by (simp add: backwardTo_same)
qed

lemma nth_below: 
  assumes "sorted_by cmp es" "length (below_key cmp k es) < length es"
  shows "0 \<le> cmp (fst (es ! length (below_key cmp k es))) k"
  using rank_at [of "\<lambda>p. cmp (fst p) k" es] assms leaf_rank [of es k] by (simp add: not_less)

lemma cu_Seek_ok:
  assumes r: "cu_reads cmp d K pgs T c"
  shows "forwardTo cmp T c (length (below_key cmp (fromKey cmp c k) (gentries T))) (cuSeek pgs c k)"
proof -
  note R = cu_readsD [OF r]
  let ?k = "fromKey cmp c k" and ?i = "length (below_key cmp (fromKey cmp c k) (gentries T))"
  show ?thesis
  proof (cases "cu_hasEnd c \<and> 0 \<le> cmp ?k (cu_end c)")
    case True
    have "0 \<le> cmp (fst (gentries T ! ?i)) (cu_end c)" if "?i < length (gentries T)"
      using nth_below [OF R(6) that] True cmp_le_trans cmp_le_swap by meson
    then show ?thesis using True R(1,2) by (auto simp: cuSeek_def Let_def fromKey_def forwardTo_def intro!: moved_invalid)
  next
    case False
    have "cuSeek pgs c k = seekFrom pgs cmp ?k (gid T) (c\<lparr>cu_stack := []\<rparr>)"
      using False R(1-3) by (auto simp: cuSeek_def Let_def fromKey_def)
    moreover have "forwardTo cmp T (c\<lparr>cu_stack := []\<rparr>) (length (behind []) + length (below_key cmp ?k (gentries T)))
        (seekFrom pgs cmp ?k (gid T) (c\<lparr>cu_stack := []\<rparr>))"
      by (rule seekFrom_ok [OF R(4-6)]) (use R(6) in simp_all)
    ultimately show ?thesis by (simp add: forwardTo_same)
  qed
qed

lemma cu_First_ok:
  assumes r: "cu_reads cmp d K pgs T c"
  shows "forwardTo cmp T c (if cu_hasLower c then length (below_key cmp (cu_lower c) (gentries T)) else 0) (cuFirst pgs c)"
proof (cases "cu_hasLower c")
  case True
  then show ?thesis using cu_Seek_ok [OF r, of "cu_lower c"] cu_readsD(1) [OF r] by (simp add: cuFirst_def fromKey_def)
next
  case False
  note R = cu_readsD [OF r]
  have "cuFirst pgs c = forward pgs cmp (Some (gid T)) (c\<lparr>cu_stack := []\<rparr>)"
    using False R(1-3) by (simp add: cuFirst_def descendLeft_def)
  moreover have "forwardTo cmp T (c\<lparr>cu_stack := []\<rparr>) (length (behind [])) (forward pgs cmp (Some (gid T)) (c\<lparr>cu_stack := []\<rparr>))"
    by (rule forward_descend [OF R(4,5)]) simp_all
  ultimately show ?thesis using False by (simp add: forwardTo_same)
qed

lemma cu_Last_ok:
  assumes r: "cu_reads cmp d K pgs T c"
  shows "backwardTo cmp T c (if cu_hasEnd c then length (below_key cmp (cu_end c) (gentries T)) else length (gentries T))
    (cuLast pgs c)"
proof (cases "cu_hasEnd c")
  case True
  note R = cu_readsD [OF r]
  let ?i = "length (below_key cmp (cu_end c) (gentries T))"
  show ?thesis
  proof (cases "cu_hasLower c \<and> cmp (cu_end c) (cu_lower c) \<le> 0")
    case lower: True
    have "cmp (fst (gentries T ! (?i - 1))) (cu_lower c) < 0" if "0 < ?i"
    proof -
      have "rank (\<lambda>p. cmp (fst p) (cu_end c)) (gentries T) = ?i" by (rule leaf_rank [OF R(6)])
      then have "cmp (fst (gentries T ! (?i - 1))) (cu_end c) < 0"
        using rank_below [of "?i - 1" "\<lambda>p. cmp (fst p) (cu_end c)" "gentries T"] that by simp
      then show ?thesis using cmp_less_le_trans lower by blast
    qed
    then show ?thesis using True lower R(1,2)
      by (auto simp: cuLast_def seekBefore_def Let_def cuCompareKeys_def backwardTo_def intro!: moved_invalid)
  next
    case False
    have "cuLast pgs c = seekBeforeFrom pgs cmp (cu_end c) (gid T) (c\<lparr>cu_stack := []\<rparr>)"
      using True False R(1-3) by (auto simp: cuLast_def seekBefore_def Let_def cuCompareKeys_def)
    moreover have "backwardTo cmp T (c\<lparr>cu_stack := []\<rparr>) (length (behind []) + ?i)
        (seekBeforeFrom pgs cmp (cu_end c) (gid T) (c\<lparr>cu_stack := []\<rparr>))"
      by (rule seekBeforeFrom_ok [OF R(4-6)]) (use R(6) in simp_all)
    ultimately show ?thesis using True by (simp add: backwardTo_same)
  qed
next
  case False
  note R = cu_readsD [OF r]
  have "cuLast pgs c = backward pgs cmp (Some (gid T)) (c\<lparr>cu_stack := []\<rparr>)"
    using False R(1-3) by (simp add: cuLast_def descendRight_def cuCompareKeys_def)
  moreover have "backwardTo cmp T (c\<lparr>cu_stack := []\<rparr>) (length (behind []) + length (gentries T))
      (backward pgs cmp (Some (gid T)) (c\<lparr>cu_stack := []\<rparr>))"
    by (rule backward_descend [OF R(4,5)]) simp_all
  ultimately show ?thesis using False by (simp add: backwardTo_same)
qed

end

end
