(* ===== verification/Layout.thy ===== *)
theory Layout
  imports TreeRep
begin

text \<open>
  The layout checks of a page (\<^verbatim>\<open>validateLayout\<close> and the functions it calls in
  \<^verbatim>\<open>pagebtree/page.go\<close>), run on every page before recovery or \<^verbatim>\<open>Check\<close> trusts its bytes.

  They never panic, whatever the bytes of the page are; they accept what the page writers
  write; and what they accept can be read: every slot, key, value and child of an accepted
  page is inside the page.
\<close>

section \<open>Errors\<close>

text \<open>
  The sentinel errors of the package, as \<^verbatim>\<open>errors.Is\<close> finds them in a wrapped error;
  \<open>ErrOther\<close> is an error that wraps none.  A Go \<^verbatim>\<open>error\<close> result is a \<open>dbError option\<close>.
\<close>

datatype dbError =
  ErrPageLayout | ErrPageChecksum | ErrTreeInvariant | ErrOverflowInvariant | ErrFreelist
  | ErrMetaInvariant | ErrActiveReaders | ErrReaderTable | ErrOther

section \<open>Layout checks\<close>

record cellRange =
  cr_start :: nat
  cr_end :: nat

definition overlaps :: "cellRange \<Rightarrow> cellRange \<Rightarrow> bool" where
  "overlaps r other \<longleftrightarrow> cr_start r < cr_end other \<and> cr_start other < cr_end r"

text \<open>The check of one slot: the rest of the loop runs with the key and the range it read.\<close>

definition validateSlot ::
  "page \<Rightarrow> comparator \<Rightarrow> key \<times> cellRange list \<Rightarrow> nat \<Rightarrow>
     ((key \<times> cellRange list) \<times> dbError option) option" where
  "validateSlot p compare st i = (case st of (previousKey, ranges) \<Rightarrow> do {
     s \<leftarrow> readSlot p i;
     let cellStart = unat (offset s);
     let keyEnd = cellStart + unat (keyLen s);
     let cellEnd = keyEnd + unat (valueLen s);
     (if cellStart < unat (freeUpper p) \<or> PageSize < cellStart \<or> PageSize < keyEnd \<or> PageSize < cellEnd
      then Some (st, Some ErrPageLayout)
      else do {
        badChild \<leftarrow> (if \<not> isBranch p then Some False
          else if unat (valueLen s) \<noteq> 8 then Some True
          else do { c \<leftarrow> readCellPageID p i; Some (c = 0 \<or> slotFlags s \<noteq> 0) });
        (if badChild then Some (st, Some ErrPageLayout)
         else if isLeaf p \<and> and (slotFlags s) (not slotFlagOverflow) \<noteq> 0
         then Some (st, Some ErrPageLayout)
         else do {
           k \<leftarrow> readCellKey p i;
           (if 0 < i \<and> 0 \<le> compare previousKey k then Some (st, Some ErrPageLayout)
            else Some ((k, ranges @ [\<lparr>cr_start = cellStart, cr_end = cellEnd\<rparr>]), None))
         })
      })
   })"

fun overlapping :: "cellRange list \<Rightarrow> bool" where
  "overlapping [] \<longleftrightarrow> False"
| "overlapping (r # rs) \<longleftrightarrow> list_ex (overlaps r) rs \<or> overlapping rs"

definition validateSlottedLayoutWithComparator :: "page \<Rightarrow> comparator \<Rightarrow> dbError option option" where
  "validateSlottedLayoutWithComparator p compare =
     (let n = unat (slotCount p);
          slotEnd = pageHeaderSize + n * slotSize;
          upper = unat (freeUpper p) in
      if PageSize < slotEnd then Some (Some ErrPageLayout)
      else if upper < slotEnd \<or> PageSize < upper then Some (Some ErrPageLayout)
      else do {
        ((_, ranges), err) \<leftarrow> loopM (validateSlot p compare) ([], []) [0..<n];
        Some (if err \<noteq> None then err
              else if overlapping ranges then Some ErrPageLayout else None)
      })"

definition validateFixedPayloadLayout :: "page \<Rightarrow> dbError option" where
  "validateFixedPayloadLayout p =
     (if unat (freeUpper p) \<noteq> PageSize then Some ErrPageLayout else None)"

definition validateOverflowLayout :: "page \<Rightarrow> dbError option" where
  "validateOverflowLayout p =
     (case validateFixedPayloadLayout p of
        Some e \<Rightarrow> Some e
      | None \<Rightarrow> if overflowPayloadSize < overflowPayloadLen p then Some ErrPageLayout else None)"

definition validateFreelistLayout :: "page \<Rightarrow> dbError option" where
  "validateFreelistLayout p =
     (case validateFixedPayloadLayout p of
        Some e \<Rightarrow> Some e
      | None \<Rightarrow> if freelistPageCapacity < freelistCount p then Some ErrPageLayout else None)"

definition validateReclaimLayout :: "page \<Rightarrow> dbError option" where
  "validateReclaimLayout p =
     (case validateFixedPayloadLayout p of
        Some e \<Rightarrow> Some e
      | None \<Rightarrow> if reclaimPageCapacity < reclaimCount p then Some ErrPageLayout else None)"

definition validateLayoutWithComparator :: "page \<Rightarrow> comparator \<Rightarrow> dbError option option" where
  "validateLayoutWithComparator p compare =
     (if flags p = flagLeaf then validateSlottedLayoutWithComparator p compare
      else if flags p = flagBranch then
        (if leftmostChild p = 0 then Some (Some ErrPageLayout)
         else validateSlottedLayoutWithComparator p compare)
      else if flags p = flagOverflow then Some (validateOverflowLayout p)
      else if flags p = flagFreelist then Some (validateFreelistLayout p)
      else if flags p = flagReclaim then Some (validateReclaimLayout p)
      else Some (Some ErrPageLayout))"

definition validateLayout :: "page \<Rightarrow> dbError option option" where
  "validateLayout p = validateLayoutWithComparator p compareStrings"


section \<open>Loops\<close>

lemma loopM_total:
  "(\<And>s x. x \<in> set xs \<Longrightarrow> f s x \<noteq> None) \<Longrightarrow> loopM f s xs \<noteq> None"
proof (induction xs arbitrary: s)
  case (Cons x xs)
  then obtain s' r where "f s x = Some (s', r)" by (metis list.set_intros(1) not_None_eq surj_pair)
  then show ?case using Cons by (cases r) auto
qed simp

lemma loopM_append:
  "loopM f s (xs @ ys) = do {
     (s', r) \<leftarrow> loopM f s xs;
     (case r of None \<Rightarrow> loopM f s' ys | Some b \<Rightarrow> Some (s', Some b)) }"
proof (induction xs arbitrary: s)
  case (Cons x xs)
  show ?case
  proof (cases "f s x")
    case (Some y)
    then show ?thesis using Cons by (cases y; cases "snd y") auto
  qed simp
qed simp

lemma loopM_upt:
  assumes "\<And>i. i < n \<Longrightarrow> f (st i) i = Some (st (Suc i), None)"
  shows "loopM f (st 0) [0..<n] = Some (st n, None)"
  using assms by (induction n) (simp_all add: loopM_append)

text \<open>A loop that ends normally took every step normally.\<close>

lemma loopM_done:
  assumes "loopM f s xs = Some (s', None)"
  obtains st where "st 0 = s" "st (length xs) = s'"
    "\<And>i. i < length xs \<Longrightarrow> f (st i) (xs ! i) = Some (st (Suc i), None)"
  using assms
proof (induction xs arbitrary: s thesis)
  case Nil
  then show ?case by (auto intro: Nil(1) [of "\<lambda>_. s"])
next
  case (Cons x xs)
  from Cons.prems(2) obtain s1 where s1: "f s x = Some (s1, None)" "loopM f s1 xs = Some (s', None)"
    by (auto simp: bind_Some_iff split: option.splits)
  obtain st where st: "st 0 = s1" "st (length xs) = s'"
    "\<And>i. i < length xs \<Longrightarrow> f (st i) (xs ! i) = Some (st (Suc i), None)"
    by (rule Cons.IH [OF _ s1(2)]) (rule that)
  show ?case
    by (rule Cons.prems(1) [of "\<lambda>i. case i of 0 \<Rightarrow> s | Suc j \<Rightarrow> st j"])
       (use s1(1) st in \<open>auto split: nat.splits\<close>)
qed

section \<open>The checks never panic\<close>

lemma readSlot_inside:
  "wf_page p \<Longrightarrow> pageHeaderSize + n * slotSize \<le> PageSize \<Longrightarrow> i < n \<Longrightarrow>
     \<exists>s. readSlot p i = Some s"
  by (simp add: readSlot_def slotBase_def wf_page_def page_consts Let_def)

lemma read_inside:
  assumes "wf_page p" "readSlot p i = Some s"
    "unat (offset s) + unat (keyLen s) + unat (valueLen s) \<le> PageSize"
  shows "\<exists>k. readCellKey p i = Some k" "\<exists>v. readCellValue p i = Some v \<and> length v = unat (valueLen s)"
    "\<exists>k v. readCell p i = Some (k, v)"
  using assms
  by (simp_all add: readCellKey_def readCellValue_def readCell_def wf_page_def Let_def length_slice)

lemma readCellPageID_inside:
  assumes "wf_page p" "readSlot p i = Some s"
    "unat (offset s) + unat (keyLen s) + unat (valueLen s) \<le> PageSize" "unat (valueLen s) = 8"
  shows "\<exists>c. readCellPageID p i = Some c"
  using read_inside(2) [OF assms(1-3)] assms(4)
  by (auto simp: readCellPageID_def decodePageID_def)

lemma validateSlot_total:
  assumes "wf_page p" "pageHeaderSize + n * slotSize \<le> PageSize" "i < n"
  shows "validateSlot p compare st i \<noteq> None"
proof -
  obtain s where s: "readSlot p i = Some s" using readSlot_inside [OF assms] by auto
  show ?thesis
    using read_inside [OF assms(1) s] readCellPageID_inside [OF assms(1) s] s
    by (cases st) (auto simp: validateSlot_def Let_def add.assoc)
qed

lemma validateLayout_total:
  assumes "wf_page p" shows "\<exists>v. validateLayoutWithComparator p compare = Some v"
proof -
  have "\<exists>v. validateSlottedLayoutWithComparator p compare = Some v"
  proof (cases "pageHeaderSize + unat (slotCount p) * slotSize \<le> PageSize")
    case True
    have "loopM (validateSlot p compare) ([], []) [0..<unat (slotCount p)] \<noteq> None"
      by (rule loopM_total) (use validateSlot_total [OF assms True] in auto)
    then show ?thesis
      by (auto simp: validateSlottedLayoutWithComparator_def Let_def)
  next
    case False
    then show ?thesis by (simp add: validateSlottedLayoutWithComparator_def Let_def)
  qed
  then show ?thesis by (simp add: validateLayoutWithComparator_def)
qed

section \<open>What is accepted can be read\<close>

text \<open>
  \<open>sound p cmp\<close>: every slot points inside the page, the keys increase from slot to slot, and a
  branch has a child in every slot.
\<close>

definition sound :: "page \<Rightarrow> comparator \<Rightarrow> bool" where
  "sound p cmp \<longleftrightarrow>
     (\<forall>i<unat (slotCount p). \<exists>s k v. readSlot p i = Some s \<and> readCell p i = Some (k, v) \<and>
        readCellKey p i = Some k \<and> readCellValue p i = Some v \<and>
        (isBranch p \<longrightarrow> (\<exists>c. decodePageID v = Some c \<and> readCellPageID p i = Some c \<and> c \<noteq> 0)) \<and>
        (0 < i \<longrightarrow> (\<exists>k'. readCellKey p (i - 1) = Some k' \<and> cmp k' k < 0)))"

lemma readCell_parts:
  assumes "readCellKey p i = Some k" "readCellValue p i = Some v"
  shows "readCell p i = Some (k, v)"
  using assms by (auto simp: readCellKey_def readCellValue_def readCell_def bind_Some_iff Let_def)

lemma validateSlot_accepts:
  assumes "validateSlot p cmp st i = Some (st', None)" "wf_page p"
  shows "\<exists>s k v. readSlot p i = Some s \<and> readCell p i = Some (k, v) \<and> readCellKey p i = Some k \<and>
      readCellValue p i = Some v \<and> fst st' = k \<and>
      (isBranch p \<longrightarrow> (\<exists>c. decodePageID v = Some c \<and> readCellPageID p i = Some c \<and> c \<noteq> 0)) \<and>
      (0 < i \<longrightarrow> cmp (fst st) k < 0)"
proof -
  obtain s where s: "readSlot p i = Some s"
    "unat (offset s) + unat (keyLen s) + unat (valueLen s) \<le> PageSize"
    using assms(1) by (auto simp: validateSlot_def bind_Some_iff Let_def split: prod.splits if_splits)
  obtain k where k: "readCellKey p i = Some k" using read_inside(1) [OF assms(2) s] by blast
  obtain v where v: "readCellValue p i = Some v" using read_inside(2) [OF assms(2) s] by blast
  have "readCellPageID p i = decodePageID v" using v by (simp add: readCellPageID_def)
  then show ?thesis
    using assms(1) s k v readCell_parts [OF k v]
    by (auto simp: validateSlot_def bind_Some_iff Let_def split: prod.splits if_splits)
qed

lemma validateSlotted_accepts:
  assumes v: "validateSlottedLayoutWithComparator p cmp = Some None" and wf: "wf_page p"
  shows "sound p cmp"
proof -
  let ?n = "unat (slotCount p)"
  obtain st' where "loopM (validateSlot p cmp) ([], []) [0..<?n] = Some (st', None)"
    using v by (auto simp: validateSlottedLayoutWithComparator_def bind_Some_iff Let_def
        split: if_splits)
  then obtain st where st: "\<And>i. i < ?n \<Longrightarrow> validateSlot p cmp (st i) i = Some (st (Suc i), None)"
    by (rule loopM_done) auto
  note acc = validateSlot_accepts [OF st wf]
  show ?thesis unfolding sound_def
  proof (intro allI impI)
    fix i assume i: "i < ?n"
    obtain s k v where r: "readSlot p i = Some s" "readCell p i = Some (k, v)" "readCellKey p i = Some k"
      "readCellValue p i = Some v"
      "isBranch p \<longrightarrow> (\<exists>c. decodePageID v = Some c \<and> readCellPageID p i = Some c \<and> c \<noteq> 0)"
      "0 < i \<longrightarrow> cmp (fst (st i)) k < 0"
      using acc [OF i] by blast
    moreover have "\<exists>k'. readCellKey p (i - 1) = Some k' \<and> cmp k' k < 0" if pos: "0 < i"
    proof -
      have "i - 1 < ?n" using i by simp
      from acc [OF this] obtain k' where "readCellKey p (i - 1) = Some k'" "fst (st (Suc (i - 1))) = k'"
        by blast
      then show ?thesis using r(6) pos by simp
    qed
    ultimately show "\<exists>s k v. readSlot p i = Some s \<and> readCell p i = Some (k, v) \<and>
        readCellKey p i = Some k \<and> readCellValue p i = Some v \<and>
        (isBranch p \<longrightarrow> (\<exists>c. decodePageID v = Some c \<and> readCellPageID p i = Some c \<and> c \<noteq> 0)) \<and>
        (0 < i \<longrightarrow> (\<exists>k'. readCellKey p (i - 1) = Some k' \<and> cmp k' k < 0))"
      by blast
  qed
qed

text \<open>An accepted page is of one kind, and its slots are sound where it has slots.\<close>

lemma validateLayout_accepts:
  assumes "validateLayoutWithComparator p cmp = Some None" "wf_page p"
  shows "flags p \<in> {flagLeaf, flagBranch, flagOverflow, flagFreelist, flagReclaim}"
    "isLeaf p \<or> isBranch p \<Longrightarrow> sound p cmp"
    "isBranch p \<Longrightarrow> leftmostChild p \<noteq> 0"
    "isOverflow p \<Longrightarrow> overflowPayloadLen p \<le> overflowPayloadSize"
proof -
  show "flags p \<in> {flagLeaf, flagBranch, flagOverflow, flagFreelist, flagReclaim}"
    using assms(1) by (auto simp: validateLayoutWithComparator_def split: if_splits)
  then show "isLeaf p \<or> isBranch p \<Longrightarrow> sound p cmp" "isBranch p \<Longrightarrow> leftmostChild p \<noteq> 0"
    "isOverflow p \<Longrightarrow> overflowPayloadLen p \<le> overflowPayloadSize"
    using assms validateSlotted_accepts [OF _ assms(2), of cmp]
    by (auto simp: validateLayoutWithComparator_def validateOverflowLayout_def isLeaf_def
        isBranch_def isOverflow_def flag_defs split: if_splits option.splits)
qed

section \<open>What the writers write is accepted\<close>

definition cellRangeOf :: "cell list \<Rightarrow> nat \<Rightarrow> cellRange" where
  "cellRangeOf es i = \<lparr>cr_start = cellOff es i, cr_end = cellOff es i + cellBytes (es ! i)\<rparr>"

lemma cellRange_before:
  assumes "fits es" "i < j" "j < length es"
  shows "cr_end (cellRangeOf es j) \<le> cr_start (cellRangeOf es i)"
proof -
  have "take (Suc j) es = take j es @ [es ! j]" using assms(3) by (simp add: take_Suc_conv_app_nth)
  then have "used (take (Suc j) es) = used (take j es) + cellBytes (es ! j)" by simp
  moreover have "used (take (Suc i) es) \<le> used (take j es)"
    using used_take_mono [of "Suc i" "take j es"] assms(2) by (simp add: min_absorb1)
  moreover have "used (take (Suc j) es) \<le> PageSize"
    using used_take_mono [of "Suc j" es] used_le_PageSize [OF assms(1)] by linarith
  ultimately show ?thesis by (simp add: cellRangeOf_def cellOff_def)
qed

lemma not_overlapping:
  "(\<And>i j. i < j \<Longrightarrow> j < length rs \<Longrightarrow> cr_end (rs ! j) \<le> cr_start (rs ! i)) \<Longrightarrow> \<not> overlapping rs"
proof (induction rs)
  case (Cons r rs)
  have "\<not> overlaps r x" if "x \<in> set rs" for x
  proof -
    obtain j where "j < length rs" "x = rs ! j" using \<open>x \<in> set rs\<close> by (auto simp: in_set_conv_nth)
    then show ?thesis using Cons.prems [of 0 "Suc j"] by (simp add: overlaps_def)
  qed
  moreover have "\<not> overlapping rs" using Cons.prems by (intro Cons.IH) (metis Suc_less_eq length_Cons nth_Cons_Suc)
  ultimately show ?case by (simp add: list_ex_iff)
qed simp

text \<open>The cells the two kinds of page may hold.\<close>

definition legal :: "u16 \<Rightarrow> cell \<Rightarrow> bool" where
  "legal f c \<longleftrightarrow> (case c of (k, v, g) \<Rightarrow>
     if f = flagBranch then (\<exists>i. v = encodePageIDValue i \<and> i \<noteq> 0) \<and> g = 0
     else g = 0 \<or> g = slotFlagOverflow)"

context key_comparator
begin

lemma validateSlot_holds:
  assumes h: "holds p f es" and f: "f = flagLeaf \<or> f = flagBranch" and leg: "\<forall>c\<in>set es. legal f c"
    and inc: "increasing (map fst es)" and i: "i < length es"
  shows "validateSlot p cmp (if i = 0 then [] else fst (es ! (i - 1)), rs) i =
    Some ((fst (es ! i), rs @ [cellRangeOf es i]), None)"
proof -
  obtain k v g where e: "es ! i = (k, v, g)" by (cases "es ! i")
  obtain s where s: "readSlot p i = Some s" "unat (offset s) = cellOff es i"
    "unat (keyLen s) = length k" "unat (valueLen s) = length v" "slotFlags s = g"
    using cell_at_slot [OF holdsD(6) [OF h i, unfolded e] holdsD(1) [OF h]] by metis
  note b = cellOff_bounds [OF holdsD(4) [OF h] i]
  have inside: "unat (freeUpper p) \<le> cellOff es i" "cellOff es i + length k + length v \<le> PageSize"
    using b holdsD(5) [OF h] e by simp_all
  have lg: "legal f (k, v, g)" using leg i e by (metis nth_mem)
  have child: "readCellPageID p i = Some c" if "v = encodePageIDValue c" for c
    using holds_reads(3) [OF h i e] that by (simp add: readCellPageID_def)
  have kinds: "isBranch p = (f = flagBranch)" "isLeaf p = (f = flagLeaf)"
    using f h by (auto simp: isLeaf_def isBranch_def holds_def flag_defs)
  have ord: "cmp (fst (es ! (i - 1))) k < 0" if "0 < i"
    using inc i that e sorted_wrt_nth_less [OF inc, of "i - 1" i] by simp
  have flg: "and g (not slotFlagOverflow) = 0" if "f = flagLeaf"
    using lg that by (auto simp: legal_def flag_defs slotFlagOverflow_def)
  show ?thesis
    using s inside holds_reads(2) [OF h i e] lg child ord flg e kinds
    by (auto simp: validateSlot_def Let_def legal_def cellRangeOf_def not_le flag_defs)
qed

lemma validateSlotted_holds:
  assumes h: "holds p f es" and f: "f = flagLeaf \<or> f = flagBranch" and leg: "\<forall>c\<in>set es. legal f c"
    and inc: "increasing (map fst es)"
  shows "validateSlottedLayoutWithComparator p cmp = Some None"
proof -
  let ?n = "length es"
  define st where "st j = (if j = 0 then [] else fst (es ! (j - 1)), map (cellRangeOf es) [0..<j])" for j
  have "validateSlot p cmp (st i) i = Some (st (Suc i), None)" if "i < ?n" for i
    using validateSlot_holds [OF h f leg inc that, of "map (cellRangeOf es) [0..<i]"]
    by (simp add: st_def)
  then have "loopM (validateSlot p cmp) (st 0) [0..<?n] = Some (st ?n, None)" by (rule loopM_upt)
  then have l: "loopM (validateSlot p cmp) ([], []) [0..<?n] = Some (st ?n, None)"
    by (simp add: st_def)
  have no: "\<not> overlapping (map (cellRangeOf es) [0..<?n])"
    by (rule not_overlapping) (use cellRange_before [OF holdsD(4) [OF h]] in simp)
  have "pageHeaderSize + slotSize * ?n \<le> PageSize - used es"
    using holdsD(4) [OF h] by (simp add: fits_def)
  then show ?thesis
    using l no holdsD(3,5) [OF h]
    by (simp add: validateSlottedLayoutWithComparator_def Let_def st_def mult.commute not_less)
qed

lemma validateLayout_leafPage:
  assumes "leafPage p i es" "increasing (map fst es)"
  shows "validateLayoutWithComparator p cmp = Some None"
proof -
  have h: "holds p flagLeaf (map gcell es)" using assms(1) by (simp add: leafPage_def)
  have "map fst (map gcell es) = map fst es" by (simp add: comp_def)
  moreover have "\<forall>c\<in>set (map gcell es). legal flagLeaf c"
    by (auto simp: legal_def gcell_def flag_defs slotFlagOverflow_def split: prod.splits)
  ultimately have "validateSlottedLayoutWithComparator p cmp = Some None"
    using validateSlotted_holds [OF h] assms(2) by (simp only: simp_thms)
  then show ?thesis using holdsD(2) [OF h] by (simp add: validateLayoutWithComparator_def)
qed

lemma validateLayout_branchPage:
  assumes "branchPage p i keys cs" "increasing keys" "0 \<notin> set cs"
  shows "validateLayoutWithComparator p cmp = Some None"
proof -
  have h: "holds p flagBranch (branchCells keys (tl cs))" "leftmostChild p = hd cs"
    and cs: "cs \<noteq> []" "length (tl cs) = length keys"
    using assms(1) by (auto simp: branchPage_def)
  have nz: "leftmostChild p \<noteq> 0" "0 \<notin> set (tl cs)"
    using h(2) cs(1) assms(3) by (cases cs; auto)+
  have keys: "map fst (branchCells keys (tl cs)) = keys"
    using cs(2) by (simp add: branchCells_def comp_def case_prod_beta)
  have "\<forall>c\<in>set (branchCells keys (tl cs)). legal flagBranch c"
    using nz(2) by (auto simp: legal_def branchCells_def dest: set_zip_rightD)
  then have "validateSlottedLayoutWithComparator p cmp = Some None"
    using validateSlotted_holds [OF h(1)] assms(2) keys by simp
  then show ?thesis
    using holdsD(2) [OF h(1)] nz(1) by (simp add: validateLayoutWithComparator_def flag_defs)
qed

end

lemma validateLayout_fixed:
  "overflow_page p next chunk \<Longrightarrow> validateLayoutWithComparator p cmp = Some None"
  "freelist_page p next ids \<Longrightarrow> length ids \<le> freelistPageCapacity \<Longrightarrow>
     validateLayoutWithComparator p cmp = Some None"
  "reclaim_page p next rs \<Longrightarrow> length rs \<le> reclaimPageCapacity \<Longrightarrow>
     validateLayoutWithComparator p cmp = Some None"
  by (auto simp: validateLayoutWithComparator_def overflow_page_def freelist_page_def
      reclaim_page_def flag_defs validateOverflowLayout_def validateFreelistLayout_def
      validateReclaimLayout_def validateFixedPayloadLayout_def unat_of_nat16)

end
