(* ===== verification/Integrity.thy ===== *)
theory Integrity
  imports Layout Stats
begin

text \<open>
  The integrity checks of \<^verbatim>\<open>pagebtree/integrity.go\<close>: the walk that validates every page
  reachable from the root, the checks of the reusable pages and of the leaf links, the page
  summaries and the report \<^verbatim>\<open>Audit\<close> with \<^verbatim>\<open>Check\<close>.

  The Go walk marks pages in a map \<^verbatim>\<open>seen\<close> shared by the whole recursion; the model threads
  the set of marked ids.  A walk returns the set with the error it found, if any.
\<close>

type_synonym walk = "PageID set \<times> dbError option"

section \<open>Overflow chains\<close>

partial_function (option) validateOverflowLoop ::
  "pagemap \<Rightarrow> int \<Rightarrow> PageID \<Rightarrow> PageID set \<Rightarrow> int \<Rightarrow> walk option" where
  "validateOverflowLoop pgs want i seen len =
     (if i = 0 then Some (seen, if len \<noteq> want then Some ErrOverflowInvariant else None)
      else if i \<in> seen then Some (seen, Some ErrOverflowInvariant)
      else (case pgs i of
          None \<Rightarrow> Some (insert i seen, Some ErrOverflowInvariant)
        | Some p \<Rightarrow>
            if \<not> validChecksum p then Some (insert i seen, Some ErrPageChecksum)
            else do {
              v \<leftarrow> validateLayout p;
              (if v \<noteq> None then Some (insert i seen, v)
               else if \<not> isOverflow p then Some (insert i seen, Some ErrOverflowInvariant)
               else validateOverflowLoop pgs want (overflowNext p) (insert i seen)
                 (len + int (overflowPayloadLen p)))
            }))"

definition validateOverflowValue :: "pagemap \<Rightarrow> bytes \<Rightarrow> u16 \<Rightarrow> PageID set \<Rightarrow> walk option" where
  "validateOverflowValue pgs raw f seen =
     (case decodeOverflowRef raw f of
        None \<Rightarrow> Some (seen, None)
      | Some ref \<Rightarrow>
          if or_first ref = 0 then Some (seen, Some ErrOverflowInvariant)
          else validateOverflowLoop pgs (or_length ref) (or_first ref) seen 0)"

section \<open>Pages reachable from the root\<close>

text \<open>\<open>lower\<close> and \<open>upper\<close> are the optional bounds \<^verbatim>\<open>(lower, hasLower)\<close> and \<^verbatim>\<open>(upper, hasUpper)\<close>.\<close>

definition validateLeafSlot ::
  "Tree \<Rightarrow> page \<Rightarrow> key option \<Rightarrow> key option \<Rightarrow> PageID set \<Rightarrow> nat \<Rightarrow> walk option" where
  "validateLeafSlot t p lower upper seen i = do {
     k \<leftarrow> readCellKey p i;
     (if (case lower of None \<Rightarrow> False | Some l \<Rightarrow> compareKeys t k l < 0)
      then Some (seen, Some ErrTreeInvariant)
      else if (case upper of None \<Rightarrow> False | Some u \<Rightarrow> 0 \<le> compareKeys t k u)
      then Some (seen, Some ErrTreeInvariant)
      else do {
        s \<leftarrow> readSlot p i;
        v \<leftarrow> readCellValue p i;
        validateOverflowValue (pages t) v (slotFlags s) seen
      })
   }"

definition childBound :: "page \<Rightarrow> bool \<Rightarrow> nat \<Rightarrow> key option \<Rightarrow> key option option" where
  "childBound p inner i b = (if inner then map_option Some (readCellKey p i) else Some b)"

definition emptyBounds :: "Tree \<Rightarrow> key option \<Rightarrow> key option \<Rightarrow> bool" where
  "emptyBounds t lower upper =
     (case (lower, upper) of (Some l, Some u) \<Rightarrow> 0 \<le> compareKeys t l u | _ \<Rightarrow> False)"

text \<open>What is checked of a child after its own walk: the separator is its first key.\<close>

definition validateSeparator :: "pagemap \<Rightarrow> page \<Rightarrow> nat \<Rightarrow> PageID \<Rightarrow> dbError option option" where
  "validateSeparator pgs p index child =
     (if index = 0 then Some None
      else do {
        separator \<leftarrow> readCellKey p (index - 1);
        first \<leftarrow> firstKey pgs child;
        Some (if first = Some separator then None else Some ErrTreeInvariant)
      })"

partial_function (option) validatePageBounds ::
  "Tree \<Rightarrow> PageID \<Rightarrow> PageID set \<Rightarrow> key option \<Rightarrow> key option \<Rightarrow> walk option" where
  "validatePageBounds t i seen lower upper =
     (if i = 0 then Some (seen, None)
      else if i \<in> seen then Some (seen, Some ErrTreeInvariant)
      else (case pages t i of
          None \<Rightarrow> Some (insert i seen, Some ErrTreeInvariant)
        | Some p \<Rightarrow>
            if \<not> validChecksum p then Some (insert i seen, Some ErrPageChecksum)
            else do {
              v \<leftarrow> validateLayoutWithComparator p (compareKeys t);
              (if v \<noteq> None then Some (insert i seen, v)
               else if isLeaf p then
                 (if i \<noteq> root t \<and> unat (slotCount p) < minKeys (degree t)
                  then Some (insert i seen, Some ErrTreeInvariant)
                  else loopM (validateLeafSlot t p lower upper) (insert i seen)
                         [0..<unat (slotCount p)])
               else if \<not> isBranch p then Some (insert i seen, Some ErrTreeInvariant)
               else if i \<noteq> root t \<and> unat (slotCount p) < minKeys (degree t)
               then Some (insert i seen, Some ErrTreeInvariant)
               else do {
                 children \<leftarrow> childIDs p;
                 loopM (\<lambda>seen index. do {
                   let child = children ! index;
                   (if child = 0 then Some (seen, Some ErrTreeInvariant)
                    else do {
                      childLower \<leftarrow> childBound p (0 < index) (index - 1) lower;
                      childUpper \<leftarrow> childBound p (index < length children - 1) index upper;
                      (if emptyBounds t childLower childUpper
                       then Some (seen, Some ErrTreeInvariant)
                       else do {
                         (seen', err) \<leftarrow> validatePageBounds t child seen childLower childUpper;
                         (if err \<noteq> None then Some (seen', err)
                          else do {
                            sep \<leftarrow> validateSeparator (pages t) p index child;
                            Some (seen', sep)
                          })
                       })
                    })
                 }) (insert i seen) [0..<length children]
               })
            }))"

definition validatePage :: "Tree \<Rightarrow> PageID \<Rightarrow> PageID set \<Rightarrow> walk option" where
  "validatePage t i seen = validatePageBounds t i seen None None"

definition validateReachablePages :: "Tree \<Rightarrow> walk option" where
  "validateReachablePages t = validatePage t (root t) {}"

section \<open>Reusable pages, leaf links, key count\<close>

text \<open>
  The loops over the free and the retired pages; \<open>seen\<close> holds the ids of the list met so far.
\<close>

fun validateFreePages :: "Tree \<Rightarrow> PageID set \<Rightarrow> PageID set \<Rightarrow> PageID list \<Rightarrow> walk" where
  "validateFreePages t reachable seen [] = (seen, None)"
| "validateFreePages t reachable seen (i # is) =
     (if i = 0 \<or> nextPage t \<le> i \<or> i \<in> reachable \<or> i \<in> seen then (seen, Some ErrFreelist)
      else validateFreePages t reachable (insert i seen) is)"

fun validateRetiredList ::
  "Tree \<Rightarrow> PageID set \<Rightarrow> PageID set \<Rightarrow> PageID set \<Rightarrow> retiredPage list \<Rightarrow> dbError option" where
  "validateRetiredList t reachable seenFree seen [] = None"
| "validateRetiredList t reachable seenFree seen (r # rs) =
     (if rp_revision r = 0 \<or> rp_id r = 0 \<or> nextPage t \<le> rp_id r \<or> rp_id r \<in> reachable \<or>
         rp_id r \<in> seenFree \<or> rp_id r \<in> seen
      then Some ErrFreelist
      else validateRetiredList t reachable seenFree (insert (rp_id r) seen) rs)"

definition validateReusablePages :: "Tree \<Rightarrow> PageID set \<Rightarrow> dbError option" where
  "validateReusablePages t reachable =
     (case validateFreePages t reachable {} (free t) of
        (seenFree, Some e) \<Rightarrow> Some e
      | (seenFree, None) \<Rightarrow> validateRetiredList t reachable seenFree {} (retired t))"

fun validateLinks :: "pagemap \<Rightarrow> PageID list \<Rightarrow> dbError option option" where
  "validateLinks pgs [] = Some None"
| "validateLinks pgs (i # is) = do {
     p \<leftarrow> pgs i;
     (if nextLeaf p \<noteq> (if is = [] then 0 else hd is) then Some (Some ErrTreeInvariant)
      else validateLinks pgs is)
   }"

definition validateLeafLinks :: "Tree \<Rightarrow> dbError option option" where
  "validateLeafLinks t = do {
     leaves \<leftarrow> collectLeavesInOrder (pages t) (root t);
     validateLinks (pages t) leaves
   }"

partial_function (option) countReachableKeys ::
  "pagemap \<Rightarrow> PageID \<Rightarrow> PageID set \<Rightarrow> (int \<times> PageID set) option" where
  "countReachableKeys pgs i seen =
     (if i = 0 \<or> i \<in> seen then Some (0, seen)
      else (case pgs i of
          None \<Rightarrow> Some (0, insert i seen)
        | Some p \<Rightarrow>
            if isLeaf p then Some (int (unat (slotCount p)), insert i seen)
            else do {
              children \<leftarrow> childIDs p;
              ((count, seen'), _) \<leftarrow> loopM (\<lambda>(count, seen) child. do {
                  (n, seen') \<leftarrow> countReachableKeys pgs child seen;
                  Some ((count + n, seen'), None :: unit option)
                }) (0, insert i seen) children;
              Some (count, seen')
            }))"

section \<open>Page summaries\<close>

text \<open>
  \<^verbatim>\<open>Role\<close> and \<^verbatim>\<open>Kind\<close> are strings of a fixed set; the roles are ordered as their strings are:
  free, metadata, reachable, retired.
\<close>

datatype role = RoleFree | RoleMetadata | RoleReachable | RoleRetired
datatype kind = KindMissing | KindLeaf | KindBranch | KindOverflow | KindFreelist | KindReclaim | KindUnknown

primrec roleRank :: "role \<Rightarrow> nat" where
  "roleRank RoleFree = 0"
| "roleRank RoleMetadata = 1"
| "roleRank RoleReachable = 2"
| "roleRank RoleRetired = 3"

instantiation role :: linorder
begin

definition less_eq_role :: "role \<Rightarrow> role \<Rightarrow> bool" where
  "r \<le> r' \<longleftrightarrow> roleRank r \<le> roleRank r'"

definition less_role :: "role \<Rightarrow> role \<Rightarrow> bool" where
  "r < r' \<longleftrightarrow> roleRank r < roleRank r'"

instance
proof
  fix x y z :: role
  show "x = y" if "x \<le> y" "y \<le> x"
    using that by (cases x; cases y) (simp_all add: less_eq_role_def)
qed (auto simp: less_eq_role_def less_role_def)

end

record PageSummary =
  ps_ID :: PageID
  ps_Role :: role
  ps_Kind :: kind
  ps_Keys :: int
  ps_Separators :: int
  ps_Children :: "PageID list"
  ps_NextPage :: PageID
  ps_MetadataRecords :: int
  ps_MinRetiredRevision :: u64
  ps_MaxRetiredRevision :: u64
  ps_BytesUsed :: int
  ps_BytesFree :: int
  ps_BytesCapacity :: int
  ps_RetiredRevision :: u64

definition pageKind :: "page option \<Rightarrow> kind" where
  "pageKind mp = (case mp of
     None \<Rightarrow> KindMissing
   | Some p \<Rightarrow>
       if isLeaf p then KindLeaf
       else if isBranch p then KindBranch
       else if isOverflow p then KindOverflow
       else if and (flags p) flagFreelist \<noteq> 0 then KindFreelist
       else if and (flags p) flagReclaim \<noteq> 0 then KindReclaim
       else KindUnknown)"

fun reclaimRevisionBounds :: "u64 \<times> u64 \<Rightarrow> reclaimRecord list \<Rightarrow> u64 \<times> u64" where
  "reclaimRevisionBounds b [] = b"
| "reclaimRevisionBounds (minRevision, maxRevision) (r # rs) =
     (if rr_revision r = 0 then reclaimRevisionBounds (minRevision, maxRevision) rs
      else reclaimRevisionBounds
        (if minRevision = 0 \<or> rr_revision r < minRevision then rr_revision r else minRevision,
         if maxRevision < rr_revision r then rr_revision r else maxRevision) rs)"

definition emptySummary :: "PageID \<Rightarrow> role \<Rightarrow> u64 \<Rightarrow> PageSummary" where
  "emptySummary i r retiredRevision =
     \<lparr>ps_ID = i, ps_Role = r, ps_Kind = KindMissing, ps_Keys = 0, ps_Separators = 0,
      ps_Children = [], ps_NextPage = 0, ps_MetadataRecords = 0, ps_MinRetiredRevision = 0,
      ps_MaxRetiredRevision = 0, ps_BytesUsed = 0, ps_BytesFree = 0, ps_BytesCapacity = 0,
      ps_RetiredRevision = retiredRevision\<rparr>"

definition summarizePage :: "PageID \<Rightarrow> page option \<Rightarrow> role \<Rightarrow> u64 \<Rightarrow> PageSummary option" where
  "summarizePage i mp r retiredRevision = (case mp of
     None \<Rightarrow> Some (emptySummary i r retiredRevision)
   | Some p \<Rightarrow> do {
       let s0 = (emptySummary i r retiredRevision)\<lparr>ps_Kind := pageKind mp,
                   ps_BytesCapacity := int PageSize\<rparr>;
       s \<leftarrow> (if isLeaf p then
                Some (s0\<lparr>ps_Keys := int (unat (slotCount p)), ps_NextPage := nextLeaf p,
                         ps_BytesUsed := slottedBytesUsed p\<rparr>)
              else if isBranch p then do {
                cs \<leftarrow> childIDs p;
                Some (s0\<lparr>ps_Separators := int (unat (slotCount p)), ps_Children := cs,
                         ps_BytesUsed := slottedBytesUsed p\<rparr>)
              }
              else if isOverflow p then
                Some (s0\<lparr>ps_NextPage := overflowNext p, ps_BytesUsed := int (overflowBytesUsed p)\<rparr>)
              else if and (flags p) flagFreelist \<noteq> 0 then
                Some (s0\<lparr>ps_NextPage := freelistNext p, ps_MetadataRecords := int (freelistCount p),
                         ps_BytesUsed := int (freelistPayloadOffset + freelistCount p * 8)\<rparr>)
              else if and (flags p) flagReclaim \<noteq> 0 then do {
                rs \<leftarrow> reclaimRecords p;
                let (lo, hi) = reclaimRevisionBounds (0, 0) rs;
                Some (s0\<lparr>ps_NextPage := reclaimNext p, ps_MetadataRecords := int (reclaimCount p),
                         ps_MinRetiredRevision := lo, ps_MaxRetiredRevision := hi,
                         ps_BytesUsed := int (reclaimPayloadOffset + reclaimCount p * reclaimRecordSize)\<rparr>)
              }
              else Some (s0\<lparr>ps_BytesUsed := int PageSize\<rparr>));
       Some (s\<lparr>ps_BytesFree := ps_BytesCapacity s - ps_BytesUsed s\<rparr>)
     })"

text \<open>
  \<^verbatim>\<open>sort.Slice\<close> does not promise an order of equal elements; the model keeps theirs.
\<close>

definition sortedPageIDs :: "PageID set \<Rightarrow> PageID list" where
  "sortedPageIDs ids = sorted_list_of_set ids"

definition sortedPageIDsFromSlice :: "PageID list \<Rightarrow> PageID list" where
  "sortedPageIDsFromSlice ids = sort ids"

definition sortedRetiredPageIDs :: "retiredPage list \<Rightarrow> PageID list" where
  "sortedRetiredPageIDs rs = sort (map rp_id rs)"

definition pageSummaries :: "Tree \<Rightarrow> PageID set \<Rightarrow> PageSummary list option" where
  "pageSummaries t reachable = do {
     a \<leftarrow> mapM (\<lambda>i. summarizePage i (pages t i) RoleReachable 0) (sortedPageIDs reachable);
     b \<leftarrow> mapM (\<lambda>i. summarizePage i (pages t i) RoleMetadata 0) (metaFreelistPages t);
     c \<leftarrow> mapM (\<lambda>i. summarizePage i (pages t i) RoleFree 0) (sortedPageIDsFromSlice (free t));
     d \<leftarrow> mapM (\<lambda>r. summarizePage (rp_id r) (pages t (rp_id r)) RoleRetired (rp_revision r))
            (sort_key rp_id (retired t));
     Some (sort_key ps_ID (sort_key ps_Role (a @ b @ c @ d)))
   }"

section \<open>The report\<close>

record AuditReport =
  au_Stats :: Stats
  au_ReachablePageIDs :: "PageID list"
  au_FreePageIDs :: "PageID list"
  au_RetiredPageIDs :: "PageID list"
  au_MetadataPageIDs :: "PageID list"
  au_PageSummaries :: "PageSummary list"
  au_LeafLinksChecked :: bool
  au_LeafLinksSkipped :: bool
  au_Error :: "dbError option"

definition emptyReport :: AuditReport where
  "emptyReport = \<lparr>au_Stats = emptyStats, au_ReachablePageIDs = [], au_FreePageIDs = [],
     au_RetiredPageIDs = [], au_MetadataPageIDs = [], au_PageSummaries = [],
     au_LeafLinksChecked = False, au_LeafLinksSkipped = False, au_Error = None\<rparr>"

definition Valid :: "AuditReport \<Rightarrow> bool" where
  "Valid r \<longleftrightarrow> au_Error r = None"

definition auditBaseStats :: "nat \<Rightarrow> Tree \<Rightarrow> Stats \<times> Tree" where
  "auditBaseStats allocated t =
     (let (cacheStats, cache) = cacheSnapshot (treeCache t) in
      (emptyStats\<lparr>st_Root := root t, st_Len := treeLen t, st_Revision := revision t,
         st_SyncedRevision := syncedRevision t, st_Degree := int (degree t),
         st_AllocatedPages := int allocated, st_RetiredPages := int (length (retired t)),
         st_FreePages := int (length (free t)), st_ActiveReaders := activeReaderCount t,
         st_ReclaimPressure := reclaimPressureStats t, st_ReusedPages := reusedPages t,
         st_PageCache := zeroStats\<lparr>Capacity := Capacity cacheStats\<rparr>,
         st_Mmap := (arena t \<noteq> None)\<rparr>,
       t\<lparr>treeCache := cache\<rparr>))"

text \<open>The last step of \<^verbatim>\<open>Audit\<close>: the reusable pages, and full statistics when all is well.\<close>

definition finishAudit ::
  "nat \<Rightarrow> AuditReport \<Rightarrow> Tree \<Rightarrow> PageID set \<Rightarrow> (AuditReport \<times> Tree) option" where
  "finishAudit allocated report t reachable =
     (case validateReusablePages t reachable of
        Some e \<Rightarrow> Some (report\<lparr>au_Error := Some e\<rparr>, t)
      | None \<Rightarrow> do { (st, t') \<leftarrow> statsFor allocated t; Some (report\<lparr>au_Stats := st\<rparr>, t') })"

definition Audit :: "nat \<Rightarrow> Tree \<Rightarrow> (AuditReport \<times> Tree) option" where
  "Audit allocated t0 =
     (if closed t0 then Some (emptyReport, t0)
      else
        let (st, t) = auditBaseStats allocated t0;
            report = emptyReport\<lparr>au_Stats := st, au_FreePageIDs := sortedPageIDsFromSlice (free t),
              au_RetiredPageIDs := sortedRetiredPageIDs (retired t),
              au_MetadataPageIDs := metaFreelistPages t\<rparr> in
        if root t = 0 then do {
          ss \<leftarrow> pageSummaries t {};
          let report = report\<lparr>au_PageSummaries := ss\<rparr>;
          (if treeLen t \<noteq> 0 then Some (report\<lparr>au_Error := Some ErrTreeInvariant\<rparr>, t)
           else finishAudit allocated report t {})
        }
        else do {
          (reachable, err) \<leftarrow> validateReachablePages t;
          ss \<leftarrow> pageSummaries t reachable;
          let report = report\<lparr>au_ReachablePageIDs := sortedPageIDs reachable, au_PageSummaries := ss\<rparr>;
          (if err \<noteq> None then Some (report\<lparr>au_Error := err\<rparr>, t)
           else do {
             let check = (activeReaderCount t = 0);
             links \<leftarrow> (if check then validateLeafLinks t else Some None);
             let report = report\<lparr>au_LeafLinksChecked := check, au_LeafLinksSkipped := \<not> check\<rparr>;
             (if links \<noteq> None then Some (report\<lparr>au_Error := links\<rparr>, t)
              else do {
                (keyCount, _) \<leftarrow> countReachableKeys (pages t) (root t) {};
                (if keyCount \<noteq> treeLen t then Some (report\<lparr>au_Error := Some ErrTreeInvariant\<rparr>, t)
                 else finishAudit allocated report t reachable)
              })
           })
        })"

definition Check :: "nat \<Rightarrow> Tree \<Rightarrow> dbError option option" where
  "Check allocated t = map_option (\<lambda>(report, t'). au_Error report) (Audit allocated t)"

end
