(* ===== verification/IntegrityCorrect.thy ===== *)
theory IntegrityCorrect
  imports Integrity TreeCorrect
begin

text \<open>
  What the integrity checks are worth.  On any pages of the right length, whatever their
  bytes, the walk over the reachable pages ends without a panic: it marks a new page at every
  step, and it reads a page only after its layout was accepted.  On pages that represent a
  tree whose nodes are filled the walk, the link check and the key count accept, and they mark
  and count exactly the pages and keys of the tree.
\<close>

section \<open>The walk ends and does not panic\<close>

definition wfPages :: "pagemap \<Rightarrow> bool" where
  "wfPages pgs \<longleftrightarrow> finite (dom pgs) \<and> (\<forall>i p. pgs i = Some p \<longrightarrow> wf_page p)"

lemma loopM_inv:
  assumes "P s" "\<And>s x. x \<in> set xs \<Longrightarrow> P s \<Longrightarrow> \<exists>s' r. f s x = Some (s', r) \<and> P s'"
  shows "\<exists>s' r. loopM f s xs = Some (s', r) \<and> P s'"
  using assms
proof (induction xs arbitrary: s)
  case (Cons x xs)
  then obtain s' r where s': "f s x = Some (s', r)" "P s'" by (metis list.set_intros(1))
  show ?case
  proof (cases r)
    case None
    then show ?thesis using Cons.IH [OF s'(2)] Cons.prems(2) s'(1) by simp
  next
    case (Some b)
    then show ?thesis using s' by simp
  qed
qed auto

definition unseen :: "pagemap \<Rightarrow> PageID set \<Rightarrow> nat" where
  "unseen pgs seen = card (dom pgs - seen)"

lemma unseen_insert: "wfPages pgs \<Longrightarrow> pgs i = Some p \<Longrightarrow> i \<notin> seen \<Longrightarrow> unseen pgs (insert i seen) < unseen pgs seen"
  unfolding unseen_def wfPages_def by (intro psubset_card_mono) auto

lemma unseen_mono: "wfPages pgs \<Longrightarrow> seen \<subseteq> seen' \<Longrightarrow> unseen pgs seen' \<le> unseen pgs seen"
  unfolding unseen_def wfPages_def by (intro card_mono) auto

lemma validateOverflowLoop_total:
  assumes "wfPages pgs"
  shows "\<exists>seen' e. validateOverflowLoop pgs want i seen len = Some (seen', e) \<and> seen \<subseteq> seen'"
proof (induction "unseen pgs seen" arbitrary: i seen len rule: less_induct)
  case less
  show ?case
  proof (cases "i = 0 \<or> i \<in> seen \<or> pgs i = None")
    case True
    then show ?thesis by (subst validateOverflowLoop.simps) auto
  next
    case False
    then obtain p where p: "i \<noteq> 0" "i \<notin> seen" "pgs i = Some p" by auto
    then have wf: "wf_page p" using assms by (simp add: wfPages_def)
    obtain v where v: "validateLayout p = Some v"
      using validateLayout_total [OF wf] by (auto simp: validateLayout_def)
    obtain seen' e where "validateOverflowLoop pgs want (overflowNext p) (insert i seen)
        (len + int (overflowPayloadLen p)) = Some (seen', e)" "insert i seen \<subseteq> seen'"
      using less [OF unseen_insert [OF assms p(3,2)]] by blast
    then show ?thesis using p v by (subst validateOverflowLoop.simps) auto
  qed
qed

lemma validateOverflowValue_total:
  assumes "wfPages pgs"
  shows "\<exists>seen' e. validateOverflowValue pgs raw f seen = Some (seen', e) \<and> seen \<subseteq> seen'"
  using validateOverflowLoop_total [OF assms] by (auto simp: validateOverflowValue_def split: option.split)

lemma sound_reads:
  assumes "sound p cmp" "i < unat (slotCount p)"
  obtains s k v where "readSlot p i = Some s" "readCell p i = Some (k, v)" "readCellKey p i = Some k"
    "readCellValue p i = Some v"
    "isBranch p \<Longrightarrow> \<exists>c. decodePageID v = Some c \<and> readCellPageID p i = Some c \<and> c \<noteq> 0"
    "0 < i \<Longrightarrow> \<exists>k'. readCellKey p (i - 1) = Some k' \<and> cmp k' k < 0"
  using assms unfolding sound_def by metis

lemma childIDs_sound:
  assumes "sound p cmp" "isBranch p"
  obtains cs where "childIDs p = Some cs" "length cs = Suc (unat (slotCount p))" "hd cs = leftmostChild p"
proof -
  let ?f = "\<lambda>i. do { (k, ec) \<leftarrow> readCell p i; c \<leftarrow> decodePageID ec; Some (k, c) }"
  have "\<forall>i\<in>set [0..<unat (slotCount p)]. \<exists>y. ?f i = Some y"
  proof
    fix i assume "i \<in> set [0..<unat (slotCount p)]"
    then have "i < unat (slotCount p)" by simp
    then show "\<exists>y. ?f i = Some y" by (rule sound_reads [OF assms(1)]) (use assms(2) in auto)
  qed
  then have "mapM ?f [0..<unat (slotCount p)] =
      Some (map (\<lambda>i. the (?f i)) [0..<unat (slotCount p)])"
    by (intro mapM_map_Some) force
  then show thesis using assms(2)
    by (intro that [of "leftmostChild p # map snd (map (\<lambda>i. the (?f i)) [0..<unat (slotCount p)])"])
       (simp_all add: childIDs_def branchParts_def)
qed

lemma validateLeafSlot_total:
  assumes "wfPages (pages t)" "sound p cmp" "i < unat (slotCount p)"
  shows "\<exists>seen' e. validateLeafSlot t p lower upper seen i = Some (seen', e) \<and> seen \<subseteq> seen'"
proof -
  obtain s k v where "readSlot p i = Some s" "readCellKey p i = Some k" "readCellValue p i = Some v"
    using sound_reads [OF assms(2,3)] by metis
  then show ?thesis
    using validateOverflowValue_total [OF assms(1), of v "slotFlags s" seen]
    by (auto simp: validateLeafSlot_def)
qed

text \<open>After its walk returned without an error, the first key of a subtree can be read.\<close>

definition walked :: "Tree \<Rightarrow> PageID \<Rightarrow> PageID set \<Rightarrow> walk option \<Rightarrow> bool" where
  "walked t i seen r \<longleftrightarrow> (\<exists>seen' e. r = Some (seen', e) \<and> seen \<subseteq> seen' \<and>
     (e = None \<longrightarrow> firstKey (pages t) i \<noteq> None))"

text \<open>The body of the loop over the children, with the walk of a child as a parameter.\<close>

definition childStep ::
  "Tree \<Rightarrow> (PageID \<Rightarrow> PageID set \<Rightarrow> key option \<Rightarrow> key option \<Rightarrow> walk option) \<Rightarrow> page \<Rightarrow> PageID list \<Rightarrow>
     key option \<Rightarrow> key option \<Rightarrow> PageID set \<Rightarrow> nat \<Rightarrow> walk option" where
  "childStep t rec p children lower upper seen index = do {
     let child = children ! index;
     (if child = 0 then Some (seen, Some ErrTreeInvariant)
      else do {
        childLower \<leftarrow> childBound p (0 < index) (index - 1) lower;
        childUpper \<leftarrow> childBound p (index < length children - 1) index upper;
        (if emptyBounds t childLower childUpper
         then Some (seen, Some ErrTreeInvariant)
         else do {
           (seen', err) \<leftarrow> rec child seen childLower childUpper;
           (if err \<noteq> None then Some (seen', err)
            else do {
              sep \<leftarrow> validateSeparator (pages t) p index child;
              Some (seen', sep)
            })
         })
      })
   }"

lemma validatePageBounds_branch:
  assumes "i \<noteq> 0" "i \<notin> seen" "pages t i = Some p" "validChecksum p"
    "validateLayoutWithComparator p (compareKeys t) = Some None" "\<not> isLeaf p" "isBranch p"
    "i \<noteq> root t \<Longrightarrow> minKeys (degree t) \<le> unat (slotCount p)" "childIDs p = Some cs"
  shows "validatePageBounds t i seen lower upper =
    loopM (childStep t (validatePageBounds t) p cs lower upper) (insert i seen) [0..<length cs]"
proof -
  have "\<not> (i \<noteq> root t \<and> unat (slotCount p) < minKeys (degree t))" using assms(8) by auto
  then show ?thesis
    using assms(1-7,9)
    by (subst validatePageBounds.simps) (auto simp: childStep_def [abs_def] Let_def)
qed

lemma validatePageBounds_leaf:
  assumes "i \<noteq> 0" "i \<notin> seen" "pages t i = Some p" "validChecksum p"
    "validateLayoutWithComparator p (compareKeys t) = Some None" "isLeaf p"
    "i \<noteq> root t \<Longrightarrow> minKeys (degree t) \<le> unat (slotCount p)"
  shows "validatePageBounds t i seen lower upper =
    loopM (validateLeafSlot t p lower upper) (insert i seen) [0..<unat (slotCount p)]"
  using assms by (subst validatePageBounds.simps) auto

text \<open>What stops the walk at a page, before it looks at cells or children.\<close>

lemma validatePageBounds_stop:
  assumes "i \<noteq> 0" "i \<notin> seen" "pages t i = Some p"
    "validateLayoutWithComparator p (compareKeys t) = Some v"
    "\<not> validChecksum p \<or> v \<noteq> None \<or> \<not> isLeaf p \<and> \<not> isBranch p \<or>
       i \<noteq> root t \<and> unat (slotCount p) < minKeys (degree t)"
  shows "\<exists>e. validatePageBounds t i seen lower upper = Some (insert i seen, Some e)"
  using assms by (subst validatePageBounds.simps) auto

lemma childStep_total:
  assumes rec: "\<And>c s lo hi. seen \<subseteq> s \<Longrightarrow> walked t c s (rec c s lo hi)" and "seen \<subseteq> s"
    and p: "sound p cmp" "length cs = Suc (unat (slotCount p))" and index: "index < length cs"
  shows "\<exists>s' e. childStep t rec p cs lower upper s index = Some (s', e) \<and> seen \<subseteq> s'"
proof (cases "cs ! index = 0")
  case True
  then show ?thesis using assms(2) by (simp add: childStep_def)
next
  case False
  have key: "\<exists>k. readCellKey p j = Some k" if "j < unat (slotCount p)" for j
    using sound_reads [OF p(1) that] by metis
  have "\<exists>lo. childBound p (0 < index) (index - 1) lower = Some lo"
    using key [of "index - 1"] index p(2) by (auto simp: childBound_def)
  then obtain lo where lo: "childBound p (0 < index) (index - 1) lower = Some lo" ..
  have "\<exists>hi. childBound p (index < length cs - 1) index upper = Some hi"
    using key [of index] p(2) by (auto simp: childBound_def)
  then obtain hi where hi: "childBound p (index < length cs - 1) index upper = Some hi" ..
  obtain s' e where s': "rec (cs ! index) s lo hi = Some (s', e)" "s \<subseteq> s'"
    "e = None \<longrightarrow> firstKey (pages t) (cs ! index) \<noteq> None"
    using rec [OF assms(2)] unfolding walked_def by metis
  have "\<exists>v. validateSeparator (pages t) p index (cs ! index) = Some v" if "e = None"
  proof (cases "index = 0")
    case False
    then have "index - 1 < unat (slotCount p)" using index p(2) by simp
    then obtain k where "readCellKey p (index - 1) = Some k" using key by blast
    then show ?thesis using s'(3) that by (auto simp: validateSeparator_def)
  qed (simp add: validateSeparator_def)
  then show ?thesis
    using s' lo hi False assms(2) by (cases e) (auto simp: childStep_def Let_def)
qed

lemma walkedI:
  "\<exists>s' e. r = Some (s', e) \<and> seen \<subseteq> s' \<Longrightarrow> (\<And>s'. r = Some (s', None) \<Longrightarrow> firstKey (pages t) i \<noteq> None) \<Longrightarrow>
     walked t i seen r"
  by (auto simp: walked_def)

lemma validatePageBounds_total:
  assumes wf: "wfPages (pages t)"
  shows "walked t i seen (validatePageBounds t i seen lower upper)"
proof (induction "unseen (pages t) seen" arbitrary: i seen lower upper rule: less_induct)
  case less
  consider "i = 0" | "i \<noteq> 0" "i \<in> seen \<or> pages t i = None"
    | p where "i \<noteq> 0" "i \<notin> seen" "pages t i = Some p" by auto
  then show ?case
  proof cases
    case 1
    then show ?thesis
      by (subst validatePageBounds.simps, subst walked_def) (simp add: firstKey.simps)
  next
    case 2
    then show ?thesis by (subst validatePageBounds.simps) (auto simp: walked_def)
  next
    case (3 p)
    have wfp: "wf_page p" using wf 3(3) by (simp add: wfPages_def)
    obtain v where v: "validateLayoutWithComparator p (compareKeys t) = Some v"
      using validateLayout_total [OF wfp] by blast
    show ?thesis
    proof (cases "\<not> validChecksum p \<or> v \<noteq> None \<or> \<not> isLeaf p \<and> \<not> isBranch p \<or>
        i \<noteq> root t \<and> unat (slotCount p) < minKeys (degree t)")
      case True
      then show ?thesis
        using validatePageBounds_stop [OF 3 v True, of lower upper] by (auto simp: walked_def)
    next
      case False
      then have ok: "validChecksum p" "validateLayoutWithComparator p (compareKeys t) = Some None"
        "isLeaf p \<or> isBranch p" "i \<noteq> root t \<Longrightarrow> minKeys (degree t) \<le> unat (slotCount p)"
        using v by auto
      have snd: "sound p (compareKeys t)" using validateLayout_accepts(2) [OF ok(2) wfp ok(3)] .
      show ?thesis
      proof (cases "isLeaf p")
        case True
        have "firstKey (pages t) i \<noteq> None"
        proof (cases "slotCount p = 0")
          case False
          then have "0 < unat (slotCount p)" by (simp add: unat_gt_0)
          then obtain k v where "readCell p 0 = Some (k, v)" using sound_reads [OF snd] by metis
          then show ?thesis using True 3 False by (subst firstKey.simps) simp
        qed (use True 3 in \<open>subst firstKey.simps, simp\<close>)
        moreover have "\<exists>s' e. loopM (validateLeafSlot t p lower upper) (insert i seen)
            [0..<unat (slotCount p)] = Some (s', e) \<and> insert i seen \<subseteq> s'"
          by (rule loopM_inv) (use validateLeafSlot_total [OF wf snd] in fastforce)+
        ultimately show ?thesis
          using validatePageBounds_leaf [OF 3 ok(1,2) True ok(4)] by (intro walkedI) auto
      next
        case False
        then have br: "isBranch p" using ok(3) by simp
        obtain cs where cs: "childIDs p = Some cs" "length cs = Suc (unat (slotCount p))"
          "hd cs = leftmostChild p" by (rule childIDs_sound [OF snd br])
        let ?f = "childStep t (validatePageBounds t) p cs lower upper"
        have rec: "walked t c s (validatePageBounds t c s lo hi)" if "insert i seen \<subseteq> s" for c s lo hi
          using unseen_mono [OF wf that] unseen_insert [OF wf 3(3,2)] by (intro less) linarith
        note run = validatePageBounds_branch [OF 3 ok(1,2) False br ok(4) cs(1), of lower upper]
        have "\<exists>s' e. loopM ?f (insert i seen) [0..<length cs] = Some (s', e) \<and> insert i seen \<subseteq> s'"
          by (rule loopM_inv) (use childStep_total [OF rec _ snd cs(2)] in fastforce)+
        moreover have "firstKey (pages t) i \<noteq> None"
          if fin: "loopM ?f (insert i seen) [0..<length cs] = Some (s', None)" for s'
        proof -
          obtain st where st: "st 0 = insert i seen" "\<And>j. j < length [0..<length cs] \<Longrightarrow>
              ?f (st j) ([0..<length cs] ! j) = Some (st (Suc j), None)"
            using loopM_done [OF fin] by metis
          have len: "0 < length [0..<length cs]" "[0..<length cs] ! 0 = 0" using cs(2) by (simp_all del: upt_Suc)
          have "?f (insert i seen) 0 = Some (st (Suc 0), None)"
            using st(2) [OF len(1)] by (simp only: st(1) len(2))
          then obtain lo hi s1 where
            "validatePageBounds t (cs ! 0) (insert i seen) lo hi = Some (s1, None)"
            by (auto simp: childStep_def bind_Some_iff Let_def split: if_splits)
          then have "firstKey (pages t) (cs ! 0) \<noteq> None"
            using rec [of "insert i seen" "cs ! 0" lo hi] by (auto simp: walked_def)
          moreover have "cs ! 0 = leftmostChild p" using cs(2,3) by (cases cs) simp_all
          ultimately show ?thesis using 3 False by (subst firstKey.simps) simp
        qed
        ultimately show ?thesis by (intro walkedI) (simp_all add: run, blast)
      qed
    qed
  qed
qed

lemma validateReachablePages_total:
  "wfPages (pages t) \<Longrightarrow> \<exists>seen e. validateReachablePages t = Some (seen, e)"
  using validatePageBounds_total [of t "root t" "{}" None None]
  by (auto simp: validateReachablePages_def validatePage_def walked_def)

section \<open>Represented trees are accepted\<close>

lemma chainLens: "chain pgs is v \<Longrightarrow> overflow_page p n chunk \<Longrightarrow> overflowPayloadLen p = length chunk"
  by (simp add: overflow_page_def)

lemma overflow_page_checks:
  assumes "overflow_page p next chunk"
  shows "validChecksum p" "validateLayout p = Some None" "isOverflow p" "overflowNext p = next"
    "overflowPayloadLen p = length chunk"
  using assms overflow_page_reads(2,3) [OF assms] validateLayout_fixed(1) [OF assms]
  by (simp_all add: overflow_page_def validateLayout_def)

lemma validateOverflowLoop_ok:
  "chain pgs is v \<Longrightarrow> distinct is \<Longrightarrow> set is \<inter> seen = {} \<Longrightarrow> want = len + int (length v) \<Longrightarrow>
     validateOverflowLoop pgs want (if is = [] then 0 else hd is) seen len = Some (seen \<union> set is, None)"
proof (induction "is" arbitrary: v seen len)
  case Nil
  then show ?case by (subst validateOverflowLoop.simps) simp
next
  case (Cons i "is")
  then obtain p where p: "i \<noteq> 0" "pgs i = Some p"
    "overflow_page p (if is = [] then 0 else hd is) (take overflowPayloadSize v)"
    "chain pgs is (drop overflowPayloadSize v)" by auto
  note c = overflow_page_checks [OF p(3)]
  have "validateOverflowLoop pgs want (if is = [] then 0 else hd is) (insert i seen)
      (len + int (length (take overflowPayloadSize v))) = Some (insert i seen \<union> set is, None)"
  proof (rule Cons.IH [OF p(4)])
    show "want = len + int (length (take overflowPayloadSize v)) + int (length (drop overflowPayloadSize v))"
      using Cons.prems(4) by simp
  qed (use Cons.prems in auto)
  then show ?case
    using p(1,2) c Cons.prems(3) by (subst validateOverflowLoop.simps) simp
qed

lemma validateOverflowValue_ok:
  assumes "entry_ok pgs e" "distinct (snd (snd e))" "set (snd (snd e)) \<inter> seen = {}"
    "snd (gcell e) = (raw, f)"
  shows "validateOverflowValue pgs raw f seen = Some (seen \<union> set (snd (snd e)), None)"
proof -
  obtain k v c where e: "e = (k, v, c)" by (cases e)
  show ?thesis
  proof (cases "c = []")
    case True
    then show ?thesis using assms(4) e by (simp add: gcell_def validateOverflowValue_def)
  next
    case False
    then have ch: "chain pgs c v" "length v < 2 ^ 63" using assms(1) e by (simp_all add: entry_ok_def)
    have "gcell (k, v, c) = (k, raw, f)" using assms(4) e by (auto simp: gcell_def split: if_splits)
    from decode_gcell [OF assms(1) [unfolded e] this]
    have "decodeOverflowRef raw f = Some \<lparr>or_first = hd c, or_length = int (length v)\<rparr>"
      using False by simp
    moreover have "hd c \<noteq> 0" using ch(1) False by (cases c) auto
    ultimately show ?thesis
      using validateOverflowLoop_ok [OF ch(1), of seen "int (length v)" 0] assms(2,3) e False
      by (simp add: validateOverflowValue_def)
  qed
qed

text \<open>The bounds a parent gives: every key is at least \<open>lower\<close> and below \<open>upper\<close>.\<close>

definition within :: "comparator \<Rightarrow> key option \<Rightarrow> key option \<Rightarrow> key \<Rightarrow> bool" where
  "within cmp lower upper k \<longleftrightarrow>
     (\<forall>l. lower = Some l \<longrightarrow> \<not> cmp k l < 0) \<and> (\<forall>u. upper = Some u \<longrightarrow> cmp k u < 0)"

lemma validateLeafSlot_ok:
  assumes p: "leafPage p i es" and j: "j < length es" and ok: "entry_ok (pages t) (es ! j)"
    and b: "within (compareKeys t) lower upper (fst (es ! j))"
    and d: "distinct (snd (snd (es ! j)))" "set (snd (snd (es ! j))) \<inter> seen = {}"
  shows "validateLeafSlot t p lower upper seen j = Some (seen \<union> set (snd (snd (es ! j))), None)"
proof -
  have h: "holds p flagLeaf (map gcell es)" using p by (simp add: leafPage_def)
  obtain k raw f where c: "gcell (es ! j) = (k, raw, f)" by (cases "gcell (es ! j)")
  then have k: "k = fst (es ! j)" using fst_gcell [of "es ! j"] by simp
  have nth: "map gcell es ! j = (k, raw, f)" "j < length (map gcell es)" using j c by simp_all
  note r = holds_reads [OF h nth(2,1)]
  obtain s where s: "readSlot p j = Some s" "slotFlags s = f" using holds_slot [OF h nth(2,1)] .
  have "validateOverflowValue (pages t) raw f seen = Some (seen \<union> set (snd (snd (es ! j))), None)"
    by (rule validateOverflowValue_ok [OF ok d]) (simp add: c)
  then show ?thesis
    using r(2,3) s b k
    by (auto simp: validateLeafSlot_def within_def split: option.splits)
qed

text \<open>The state of the two loops after \<open>j\<close> steps.\<close>

lemma take_Suc_chainIDs:
  "j < length es \<Longrightarrow> chainIDs (take (Suc j) es) = chainIDs (take j es) + mset (snd (snd (es ! j)))"
  by (cases "es ! j") (simp add: take_Suc_conv_app_nth)

lemma chainIDs_take_disjoint:
  assumes "\<And>x. count (chainIDs es) x \<le> 1" "j < length es"
  shows "distinct (snd (snd (es ! j)))" "set (snd (snd (es ! j))) \<inter> set_mset (chainIDs (take j es)) = {}"
proof -
  have "chainIDs es = chainIDs (take j es) + mset (snd (snd (es ! j))) + chainIDs (drop (Suc j) es)"
    using assms(2) by (metis append_take_drop_id chainIDs_simps(3) take_Suc_chainIDs)
  then have c: "count (chainIDs (take j es)) x + count (mset (snd (snd (es ! j)))) x \<le> 1" for x
    using assms(1) [of x] by simp
  then have "count (mset (snd (snd (es ! j)))) x \<le> 1" for x by (meson add_leE)
  then show "distinct (snd (snd (es ! j)))" by (rule distinct_mset)
  show "set (snd (snd (es ! j))) \<inter> set_mset (chainIDs (take j es)) = {}"
  proof (rule ccontr)
    assume "\<not> ?thesis"
    then obtain x where "x \<in># mset (snd (snd (es ! j)))" "x \<in># chainIDs (take j es)" by auto
    then show False using c [of x] by (simp only: count_greater_zero_iff [symmetric])
  qed
qed

lemma sum_take_Suc:
  "j < length ts \<Longrightarrow> sum_list (map gids (take (Suc j) ts)) = sum_list (map gids (take j ts)) + gids (ts ! j)"
  by (simp add: take_Suc_conv_app_nth)

lemma gids_take_disjoint:
  assumes "\<And>x. count (sum_list (map gids ts)) x \<le> 1" "j < length ts"
  shows "\<And>x. count (gids (ts ! j)) x \<le> 1" "set_mset (gids (ts ! j)) \<inter> set_mset (sum_list (map gids (take j ts))) = {}"
proof -
  have "sum_list (map gids ts) = sum_list (map gids (take (Suc j) ts)) + sum_list (map gids (drop (Suc j) ts))"
    by (metis append_take_drop_id map_append sum_list_append)
  then have c: "count (sum_list (map gids (take j ts))) x + count (gids (ts ! j)) x \<le> 1" for x
    using assms(1) [of x] assms(2) by (simp add: sum_take_Suc)
  then show "\<And>x. count (gids (ts ! j)) x \<le> 1" by (meson add_leE)
  show "set_mset (gids (ts ! j)) \<inter> set_mset (sum_list (map gids (take j ts))) = {}"
  proof (rule ccontr)
    assume "\<not> ?thesis"
    then obtain x where "x \<in># gids (ts ! j)" "x \<in># sum_list (map gids (take j ts))" by auto
    then show False using c [of x] by (simp only: count_greater_zero_iff [symmetric])
  qed
qed

text \<open>A node that is large enough for the walk: the root, or a filled one.\<close>

definition enough :: "Tree \<Rightarrow> gtree \<Rightarrow> bool" where
  "enough t T \<longleftrightarrow> filled (degree t) T \<or> gid T = root t \<and> kidsfilled (degree t) T"

lemma enough_kids: "enough t (GBranch i ts) \<Longrightarrow> T \<in> set ts \<Longrightarrow> enough t T"
  by (auto simp: enough_def)

lemma validate_leaf_ok:
  assumes p: "pages t i = Some p" "leafPage p i es" and ok: "\<forall>e\<in>set es. entry_ok (pages t) e"
    and inc: "validateLayoutWithComparator p (compareKeys t) = Some None"
    and fill: "enough t (GLeaf i es)"
    and cnt: "\<And>x. count (gids (GLeaf i es)) x \<le> 1"
    and fresh: "set_mset (gids (GLeaf i es)) \<inter> seen = {}"
    and b: "\<forall>e\<in>set es. within (compareKeys t) lower upper (fst e)"
  shows "validatePageBounds t i seen lower upper = Some (seen \<union> set_mset (gids (GLeaf i es)), None)"
proof -
  note k = leafPage_kind [OF p(2)]
  have cnt': "count (chainIDs es) x \<le> 1" "x = i \<Longrightarrow> count (chainIDs es) x = 0" for x
    using cnt [of x] by (auto split: if_splits)
  have i: "i \<notin> seen" "i \<notin># chainIDs es" "set_mset (chainIDs es) \<inter> seen = {}"
    using fresh cnt'(2) [of i] by (auto simp: not_in_iff)
  let ?st = "\<lambda>j. insert i seen \<union> set_mset (chainIDs (take j es))"
  have "loopM (validateLeafSlot t p lower upper) (?st 0) [0..<length es] = Some (?st (length es), None)"
  proof (rule loopM_upt)
    fix j assume j: "j < length es"
    note d = chainIDs_take_disjoint [OF cnt'(1) j]
    have sub: "set (snd (snd (es ! j))) \<subseteq> set_mset (chainIDs es)"
      using in_chainIDs [OF nth_mem [OF j]] by auto
    have "validateLeafSlot t p lower upper (?st j) j = Some (?st j \<union> set (snd (snd (es ! j))), None)"
      using ok b j d sub i by (intro validateLeafSlot_ok [OF p(2) j]) auto
    then show "validateLeafSlot t p lower upper (?st j) j = Some (?st (Suc j), None)"
      using j by (simp add: take_Suc_chainIDs Un_assoc)
  qed
  moreover have "i \<noteq> root t \<Longrightarrow> minKeys (degree t) \<le> unat (slotCount p)"
    using fill k(4) by (simp add: enough_def)
  ultimately show ?thesis
    using validatePageBounds_leaf [OF k(6) i(1) p(1) _ inc k(1), of lower upper] k(4) p(2)
    by (simp add: leafPage_def)
qed

context key_comparator
begin

lemma within_child:
  fixes ts :: "gtree list"
  assumes srt: "sorted_by cmp (concat (map gentries ts))" and ne: "\<forall>T\<in>set ts. gentries T \<noteq> []"
    and b: "\<forall>x\<in>set (concat (map gentries ts)). within cmp lower upper (fst x)"
    and j: "j < length ts" and x: "x \<in> set (gentries (ts ! j))"
  shows "within cmp (if 0 < j then Some (firstkey (ts ! j)) else lower)
    (if j < length ts - 1 then Some (firstkey (ts ! Suc j)) else upper) (fst x)"
proof -
  have T: "ts ! j \<in> set ts" using j by simp
  have "\<not> cmp (fst x) (firstkey (ts ! j)) < 0"
    using firstkey_least [OF sorted_child [OF srt T] x] cmp_le_swap by (metis not_less)
  moreover have "cmp (fst x) (firstkey (ts ! Suc j)) < 0" if n: "j < length ts - 1"
  proof -
    have n': "Suc j < length ts" using n by simp
    then have "gentries (ts ! Suc j) \<noteq> []" using ne nth_mem [OF n'] by blast
    then show ?thesis
      using sorted_between [OF srt lessI n' x] by (simp add: firstkey_def)
  qed
  moreover have "within cmp lower upper (fst x)" using b x T by auto
  ultimately show ?thesis by (auto simp: within_def)
qed

lemma validatePageBounds_ok:
  assumes cmp: "compareKeys t = cmp"
  shows "rep (pages t) T \<Longrightarrow> shape d K T \<Longrightarrow> sorted_by cmp (gentries T) \<Longrightarrow> enough t T \<Longrightarrow>
    (\<And>x. count (gids T) x \<le> 1) \<Longrightarrow> set_mset (gids T) \<inter> seen = {} \<Longrightarrow>
    (\<forall>x\<in>set (gentries T). within cmp lower upper (fst x)) \<Longrightarrow>
    validatePageBounds t (gid T) seen lower upper = Some (seen \<union> set_mset (gids T), None)"
proof (induction T arbitrary: seen lower upper)
  case (GLeaf i es)
  then obtain p where p: "pages t i = Some p" "leafPage p i es" by auto
  have "increasing (map fst es)"
    using GLeaf.prems(3) by (simp add: sorted_by_map comp_def)
  then have lay: "validateLayoutWithComparator p (compareKeys t) = Some None"
    unfolding cmp by (rule validateLayout_leafPage [OF p(2)])
  have "validatePageBounds t i seen lower upper = Some (seen \<union> set_mset (gids (GLeaf i es)), None)"
  proof (rule validate_leaf_ok [OF p _ lay GLeaf.prems(4-6)])
    show "\<forall>e\<in>set es. entry_ok (pages t) e" using GLeaf.prems(1) by simp
    show "\<forall>e\<in>set es. within (compareKeys t) lower upper (fst e)"
      using GLeaf.prems(7) unfolding cmp by (simp add: image_iff)
  qed
  then show ?case by (simp only: gid.simps)
next
  case (GBranch i ts)
  then obtain p where p: "pages t i = Some p" "branchPage p i (map firstkey (tl ts)) (map gid ts)"
    and kids: "\<forall>T\<in>set ts. rep (pages t) T" "\<forall>T\<in>set ts. shape d K T" by auto
  note k = branchPage_kind [OF p(2)]
  have srt: "sorted_by cmp (concat (map gentries ts))" using GBranch.prems(3) by simp
  have ne: "\<forall>T\<in>set ts. gentries T \<noteq> []" using kids(2) by auto
  have len: "unat (slotCount p) = length ts - 1" using k(4) by simp
  have nots: "ts \<noteq> []" using p(2) by (simp add: branchPage_def)
  have cs: "childIDs p = Some (map gid ts)" by (rule childIDs_branchPage [OF p(2)])
  have nz: "0 \<notin> set (map gid ts)" using kids(1) gid_nonzero by fastforce
  have lay: "validateLayoutWithComparator p (compareKeys t) = Some None"
    unfolding cmp by (rule validateLayout_branchPage [OF p(2) increasing_separators [OF srt ne] nz])
  have cnt: "count (sum_list (map gids ts)) x \<le> 1" "x = i \<Longrightarrow> count (sum_list (map gids ts)) x = 0" for x
    using GBranch.prems(5) [of x] by (auto split: if_splits)
  have i: "i \<notin> seen" "i \<notin># sum_list (map gids ts)" "set_mset (sum_list (map gids ts)) \<inter> seen = {}"
    using GBranch.prems(6) cnt(2) [of i] by (auto simp del: set_mset_sum_list simp: not_in_iff)
  have key: "readCellKey p m = Some (firstkey (ts ! Suc m))" if m: "Suc m < length ts" for m
    using holds_reads(2) [OF branchPage_cell [OF p(2), of m]] m by (simp add: nth_tl)
  let ?st = "\<lambda>j. insert i seen \<union> set_mset (sum_list (map gids (take j ts)))"
  let ?f = "childStep t (validatePageBounds t) p (map gid ts) lower upper"
  have "loopM ?f (?st 0) [0..<length ts] = Some (?st (length ts), None)"
  proof (rule loopM_upt)
    fix j assume j: "j < length ts"
    define lo where "lo = (if 0 < j then Some (firstkey (ts ! j)) else lower)"
    define hi where "hi = (if j < length ts - 1 then Some (firstkey (ts ! Suc j)) else upper)"
    have T: "ts ! j \<in> set ts" using j by simp
    note d = gids_take_disjoint [OF cnt(1) j]
    have sub: "set_mset (gids (ts ! j)) \<subseteq> set_mset (sum_list (map gids ts))"
      using in_gids_child [OF T] by auto
    have w: "\<forall>x\<in>set (gentries (ts ! j)). within cmp lo hi (fst x)"
      unfolding lo_def hi_def using within_child [OF srt ne _ j] GBranch.prems(7) by simp
    have "validatePageBounds t (gid (ts ! j)) (?st j) lo hi = Some (?st j \<union> set_mset (gids (ts ! j)), None)"
    proof (rule GBranch.IH [OF T])
      show "rep (pages t) (ts ! j)" "shape d K (ts ! j)" using kids T by auto
      show "sorted_by cmp (gentries (ts ! j))" by (rule sorted_child [OF srt T])
      show "enough t (ts ! j)" by (rule enough_kids [OF GBranch.prems(4) T])
      show "count (gids (ts ! j)) x \<le> 1" for x by (rule d(1))
      show "set_mset (gids (ts ! j)) \<inter> ?st j = {}" using d(2) sub i by auto
    qed (rule w)
    moreover have "childBound p (0 < j) (j - 1) lower = Some lo"
      using key [of "j - 1"] j by (simp add: childBound_def lo_def)
    moreover have "childBound p (j < length (map gid ts) - 1) j upper = Some hi"
      using key [of j] by (auto simp: childBound_def hi_def)
    moreover have "\<not> emptyBounds t lo hi"
    proof -
      have "within cmp lo hi (firstkey (ts ! j))"
        using w hd_entry [of "ts ! j"] ne T by metis
      then show ?thesis
        using cmp_le_less_trans unfolding emptyBounds_def cmp within_def
        by (fastforce split: option.splits simp: not_less cmp_le_swap)
    qed
    moreover have "validateSeparator (pages t) p j (gid (ts ! j)) = Some None"
      using firstKey_ok [OF bspec [OF kids(1) T] bspec [OF kids(2) T]] key [of "j - 1"] j
      by (auto simp: validateSeparator_def)
    moreover have "gid (ts ! j) \<noteq> 0" using nz T by auto
    ultimately show "?f (?st j) j = Some (?st (Suc j), None)"
      using j by (simp add: childStep_def Let_def sum_take_Suc Un_assoc)
  qed
  moreover have "i \<noteq> root t \<Longrightarrow> minKeys (degree t) \<le> unat (slotCount p)"
    using GBranch.prems(4) len by (auto simp: enough_def)
  moreover have "validChecksum p" using p(2) by (simp add: branchPage_def)
  ultimately show ?case
    using validatePageBounds_branch [OF k(6) i(1) p(1) _ lay k(2,1) _ cs, of lower upper]
    by simp
qed

lemma validateReachablePages_ok:
  assumes "compareKeys t = cmp" "root t = gid T" "rep (pages t) T" "shape d K T"
    "sorted_by cmp (gentries T)" "kidsfilled (degree t) T" "\<And>x. count (gids T) x \<le> 1"
  shows "validateReachablePages t = Some (set_mset (gids T), None)"
  using validatePageBounds_ok [OF assms(1,3-5), of "{}" None None] assms(2,6,7)
  by (simp add: validateReachablePages_def validatePage_def enough_def within_def)

end

section \<open>Links, keys and reusable pages\<close>

lemma validateLinks_ok: "linked pgs is \<Longrightarrow> validateLinks pgs is = Some None"
  by (induction "is") auto

lemma validateLeafLinks_ok:
  assumes "root t = gid T" "rep (pages t) T" "linked (pages t) (map fst (gleaves T))"
  shows "validateLeafLinks t = Some None"
  using collectLeaves_ok [OF assms(2)] validateLinks_ok [OF assms(3)] assms(1)
  by (simp add: validateLeafLinks_def)

lemma countReachableKeys_ok:
  "rep pgs T \<Longrightarrow> (\<And>x. count (gids T) x \<le> 1) \<Longrightarrow> set_mset (gids T) \<inter> seen = {} \<Longrightarrow>
     \<exists>seen'. countReachableKeys pgs (gid T) seen = Some (int (length (gentries T)), seen') \<and>
       seen \<subseteq> seen' \<and> seen' \<subseteq> seen \<union> set_mset (gids T)"
proof (induction T arbitrary: seen)
  case (GLeaf i es)
  then obtain p where p: "pgs i = Some p" "leafPage p i es" by auto
  then show ?case
    using leafPage_kind [OF p(2)] GLeaf.prems(3)
    by (subst countReachableKeys.simps) auto
next
  case (GBranch i ts)
  then obtain p where p: "pgs i = Some p" "branchPage p i (map firstkey (tl ts)) (map gid ts)"
    and kids: "\<forall>T\<in>set ts. rep pgs T" by auto
  note k = branchPage_kind [OF p(2)]
  have cnt: "count (sum_list (map gids ts)) x \<le> 1" "x = i \<Longrightarrow> count (sum_list (map gids ts)) x = 0" for x
    using GBranch.prems(2) [of x] by (auto split: if_splits)
  have i: "i \<notin> seen" "set_mset (sum_list (map gids ts)) \<inter> insert i seen = {}"
    using GBranch.prems(3) cnt(2) [of i] by (auto simp del: set_mset_sum_list simp: not_in_iff)
  let ?f = "\<lambda>(count, seen) child. do {
      (n, seen') \<leftarrow> countReachableKeys pgs child seen;
      Some ((count + n, seen'), None :: unit option) }"
  have loop: "\<exists>seen'. loopM ?f (n, seen) (map gid us) =
      Some ((n + int (length (concat (map gentries us))), seen'), None) \<and>
      seen \<subseteq> seen' \<and> seen' \<subseteq> seen \<union> set_mset (sum_list (map gids us))"
    if "set us \<subseteq> set ts" "\<And>x. count (sum_list (map gids us)) x \<le> 1"
      "set_mset (sum_list (map gids us)) \<inter> seen = {}" for us n seen
    using that
  proof (induction us arbitrary: n seen)
    case (Cons U us)
    have c: "count (gids U) x + count (sum_list (map gids us)) x \<le> 1" for x
      using Cons.prems(2) [of x] by simp
    then have c1: "count (gids U) x \<le> 1" "count (sum_list (map gids us)) x \<le> 1" for x
      by (meson add_leE)+
    have dis: "set_mset (gids U) \<inter> set_mset (sum_list (map gids us)) = {}"
    proof (rule ccontr)
      assume "\<not> ?thesis"
      then obtain x where "x \<in># gids U" "x \<in># sum_list (map gids us)" by auto
      then show False using c [of x] by (simp only: count_greater_zero_iff [symmetric])
    qed
    have U: "U \<in> set ts" "rep pgs U" using Cons.prems(1) kids by auto
    have fresh: "set_mset (gids U) \<inter> seen = {}" "set_mset (sum_list (map gids us)) \<inter> seen = {}"
      using Cons.prems(3) by auto
    obtain s1 where s1: "countReachableKeys pgs (gid U) seen = Some (int (length (gentries U)), s1)"
      "seen \<subseteq> s1" "s1 \<subseteq> seen \<union> set_mset (gids U)"
      using GBranch.IH [OF U c1(1) fresh(1)] by blast
    have "set us \<subseteq> set ts" "set_mset (sum_list (map gids us)) \<inter> s1 = {}"
      using Cons.prems(1) fresh(2) s1(3) dis by auto
    from Cons.IH [OF this(1) c1(2) this(2), of "n + int (length (gentries U))"]
    obtain s2 where "loopM ?f (n + int (length (gentries U)), s1) (map gid us) =
        Some ((n + int (length (gentries U)) + int (length (concat (map gentries us))), s2), None)"
      "s1 \<subseteq> s2" "s2 \<subseteq> s1 \<union> set_mset (sum_list (map gids us))" by blast
    then show ?case using s1 by (auto simp del: set_mset_sum_list)
  qed auto
  obtain s' where s': "loopM ?f (0, insert i seen) (map gid ts) =
      Some ((int (length (concat (map gentries ts))), s'), None)"
    "insert i seen \<subseteq> s'" "s' \<subseteq> insert i seen \<union> set_mset (sum_list (map gids ts))"
    using loop [of ts "insert i seen" 0, OF order_refl cnt(1) i(2)] by auto
  show ?case
    using s' p(1) k i(1) childIDs_branchPage [OF p(2)]
    by (subst countReachableKeys.simps) (auto simp del: set_mset_sum_list)
qed

lemma validateFreePages_iff:
  "snd (validateFreePages t reachable seen is) = None \<longleftrightarrow>
     distinct is \<and> set is \<inter> (reachable \<union> seen) = {} \<and> (\<forall>i\<in>set is. i \<noteq> 0 \<and> i < nextPage t)"
  by (induction "is" arbitrary: seen) (auto simp: not_le)

lemma validateFreePages_seen:
  "validateFreePages t reachable seen is = (seen', None) \<Longrightarrow> seen' = seen \<union> set is"
  by (induction "is" arbitrary: seen) (auto split: if_splits)

lemma validateRetiredList_iff:
  "validateRetiredList t reachable seenFree seen rs = None \<longleftrightarrow>
     distinct (map rp_id rs) \<and> set (map rp_id rs) \<inter> (reachable \<union> seenFree \<union> seen) = {} \<and>
     (\<forall>r\<in>set rs. rp_id r \<noteq> 0 \<and> rp_id r < nextPage t \<and> rp_revision r \<noteq> 0)"
  by (induction rs arbitrary: seen) (auto simp: not_le)

text \<open>The verdict on the reusable pages, in terms of sets.\<close>

lemma validateReusablePages_iff:
  "validateReusablePages t reachable = None \<longleftrightarrow>
     distinct (free t @ map rp_id (retired t)) \<and>
     (set (free t) \<union> rp_id ` set (retired t)) \<inter> reachable = {} \<and>
     (\<forall>i\<in>set (free t) \<union> rp_id ` set (retired t). i \<noteq> 0 \<and> i < nextPage t) \<and>
     (\<forall>r\<in>set (retired t). rp_revision r \<noteq> 0)"
proof (cases "validateFreePages t reachable {} (free t)")
  case (Pair seen e)
  then have e: "e = None \<longleftrightarrow> distinct (free t) \<and> set (free t) \<inter> reachable = {} \<and>
      (\<forall>i\<in>set (free t). i \<noteq> 0 \<and> i < nextPage t)"
    using validateFreePages_iff [of t reachable "{}" "free t"] by simp
  show ?thesis
  proof (cases e)
    case None
    then have "seen = set (free t)" using validateFreePages_seen [of t reachable "{}" "free t" seen] Pair by simp
    then show ?thesis
      using Pair None e by (auto simp: validateReusablePages_def validateRetiredList_iff)
  next
    case (Some x)
    then show ?thesis using Pair e by (auto simp: validateReusablePages_def)
  qed
qed

section \<open>The report on a well-formed tree\<close>

text \<open>
  Every page of the tree and every reusable page can be summarised: a summary decodes the
  children of a branch and the records of a reclaim page without checking the page first.
\<close>

definition summarizable :: "pagemap \<Rightarrow> PageID \<Rightarrow> bool" where
  "summarizable pgs i \<longleftrightarrow> (\<forall>p. pgs i = Some p \<longrightarrow> (isBranch p \<longrightarrow> isLeaf p \<or> childIDs p \<noteq> None) \<and>
     (and (flags p) flagReclaim \<noteq> 0 \<longrightarrow>
        isLeaf p \<or> isBranch p \<or> isOverflow p \<or> and (flags p) flagFreelist \<noteq> 0 \<or> reclaimRecords p \<noteq> None))"

lemma summarizePage_total: "summarizable pgs i \<Longrightarrow> summarizePage i (pgs i) r n \<noteq> None"
  by (auto simp: summarizable_def summarizePage_def Let_def split: option.splits prod.splits)

lemma mapM_total: "(\<And>x. x \<in> set xs \<Longrightarrow> f x \<noteq> None) \<Longrightarrow> mapM f xs \<noteq> None"
proof -
  assume "\<And>x. x \<in> set xs \<Longrightarrow> f x \<noteq> None"
  then have "mapM f xs = Some (map (\<lambda>x. the (f x)) xs)" by (intro mapM_map_Some) force
  then show "mapM f xs \<noteq> None" by simp
qed

lemma pageSummaries_total:
  assumes "finite reachable"
    "\<And>i. i \<in> reachable \<union> set (metaFreelistPages t) \<union> set (free t) \<union> rp_id ` set (retired t) \<Longrightarrow>
       summarizable (pages t) i"
  shows "\<exists>ss. pageSummaries t reachable = Some ss"
proof -
  have "mapM (\<lambda>i. summarizePage i (pages t i) RoleReachable 0) (sortedPageIDs reachable) \<noteq> None"
    "mapM (\<lambda>i. summarizePage i (pages t i) RoleMetadata 0) (metaFreelistPages t) \<noteq> None"
    "mapM (\<lambda>i. summarizePage i (pages t i) RoleFree 0) (sortedPageIDsFromSlice (free t)) \<noteq> None"
    "mapM (\<lambda>r. summarizePage (rp_id r) (pages t (rp_id r)) RoleRetired (rp_revision r))
       (sort_key rp_id (retired t)) \<noteq> None"
    by (rule mapM_total, rule summarizePage_total, rule assms(2),
        simp add: sortedPageIDs_def sortedPageIDsFromSlice_def assms(1))+
  then show ?thesis by (auto simp: pageSummaries_def)
qed

lemma chain_summarizable: "chain pgs is v \<Longrightarrow> i \<in> set is \<Longrightarrow> summarizable pgs i"
proof (induction "is" arbitrary: v)
  case (Cons j "is")
  then obtain p where "pgs j = Some p" "overflow_page p (if is = [] then 0 else hd is) (take overflowPayloadSize v)"
    by auto
  then have "summarizable pgs j" using overflow_page_reads(3,5) by (auto simp: summarizable_def)
  then show ?case using Cons by auto
qed simp

lemma rep_summarizable: "rep pgs T \<Longrightarrow> i \<in># gids T \<Longrightarrow> summarizable pgs i"
proof (induction T)
  case (GLeaf j es)
  then obtain p where p: "pgs j = Some p" "leafPage p j es" and ok: "\<forall>e\<in>set es. entry_ok pgs e" by auto
  have "summarizable pgs i" if "e \<in> set es" "i \<in> set (snd (snd e))" for e
    using ok that chain_summarizable [of pgs "snd (snd e)"] by (cases e) (fastforce simp: entry_ok_def)
  moreover have "\<exists>e\<in>set es. i \<in> set (snd (snd e))" if "i \<in># chainIDs es"
    using that by (auto simp: chainIDs_def case_prod_beta)
  moreover have "summarizable pgs j" using p leafPage_kind(1) [OF p(2)] by (simp add: summarizable_def)
  ultimately show ?case using GLeaf.prems(2) by auto
next
  case (GBranch j ts)
  then obtain p where p: "pgs j = Some p" "branchPage p j (map firstkey (tl ts)) (map gid ts)" by auto
  have "summarizable pgs j"
    using p branchPage_kind(1) [OF p(2)] childIDs_branchPage [OF p(2)] by (simp add: summarizable_def)
  then show ?case using GBranch by auto
qed

lemma statsFor_ok:
  assumes "root t = rootOf To" "repOf cmp d K (pages t) To" "\<And>x. count (idsOf To) x \<le> 1"
  shows "\<exists>st c. statsFor n t = Some (st, t\<lparr>treeCache := c\<rparr>)"
proof (cases To)
  case None
  then show ?thesis
    using assms(1) by (cases "cacheSnapshot (treeCache t)")
      (auto simp: statsFor_def statsForSnapshot_def collectReachableStats.simps height.simps)
next
  case (Some T)
  then have T: "rep (pages t) T" "shape d K T" "root t = gid T" "\<And>x. count (gids T) x \<le> 1"
    using assms by simp_all
  show ?thesis
    using collectReachableStats_ok [OF T(1,4), of "{}"] height_ok [OF T(1,2)] T(3)
    by (cases "cacheSnapshot (treeCache t)") (auto simp: statsFor_def statsForSnapshot_def)
qed

text \<open>What the audit finds wrong with the reusable pages of an otherwise sound tree.\<close>

lemma reusable_owned:
  assumes "owned t (M + R)"
  shows "validateReusablePages t (set_mset M) = None \<longleftrightarrow> (\<forall>r\<in>set (retired t). rp_revision r \<noteq> 0)"
proof -
  note o = owned_once [OF assms] and dis = owned_disjoint [OF assms] and rng = owned_range [OF assms]
  have c: "count (mset (free t @ map rp_id (retired t))) i \<le> 1" for i using o [of i] by simp
  have "distinct (free t @ map rp_id (retired t))" using c by (rule distinct_mset)
  moreover have "(set (free t) \<union> rp_id ` set (retired t)) \<inter> set_mset M = {}"
    using dis(1,2) by (auto simp del: set_mset_eq_empty_iff)
  moreover have "\<forall>i\<in>set (free t) \<union> rp_id ` set (retired t). i \<noteq> 0 \<and> i < nextPage t"
    using rng by blast
  ultimately show ?thesis unfolding validateReusablePages_iff by blast
qed

lemma validateReusablePages_error:
  "validateReusablePages t X = None \<or> validateReusablePages t X = Some ErrFreelist"
proof -
  have f: "snd (validateFreePages t X seen is) \<in> {None, Some ErrFreelist}" for seen "is"
    by (induction "is" arbitrary: seen) auto
  have r: "validateRetiredList t X seenFree seen rs \<in> {None, Some ErrFreelist}" for seenFree seen rs
    by (induction rs arbitrary: seen) auto
  show ?thesis
    using f [of "{}" "free t"] r
    by (auto simp: validateReusablePages_def split: prod.split option.split)
qed

context key_comparator
begin

lemma Audit_ok:
  assumes ok: "tree_ok cmp K R t To" and opn: "\<not> closed t" and fill: "filledOf (degree t) To"
    and spare: "\<And>i. i \<in> set (metaFreelistPages t) \<union> set (free t) \<union> rp_id ` set (retired t) \<Longrightarrow>
      summarizable (pages t) i"
  shows "\<exists>report t'. Audit n t = Some (report, t') \<and>
    Valid report = (\<forall>r\<in>set (retired t). rp_revision r \<noteq> 0) \<and>
    (au_Error report = None \<or> au_Error report = Some ErrFreelist) \<and>
    au_ReachablePageIDs report = sorted_list_of_set (set_mset (idsOf To)) \<and>
    au_LeafLinksChecked report = (To \<noteq> None \<and> activeReaders t = []) \<and>
    (\<exists>c. t' = t\<lparr>treeCache := c\<rparr>)"
proof -
  note S = state_okD [OF tree_okD(1) [OF ok]]
  obtain c where aud: "auditBaseStats n t = (fst (auditBaseStats n t), t\<lparr>treeCache := c\<rparr>)"
    by (cases "cacheSnapshot (treeCache t)") (simp add: auditBaseStats_def)
  let ?t = "t\<lparr>treeCache := c\<rparr>" and ?good = "\<forall>r\<in>set (retired t). rp_revision r \<noteq> 0"
  have once: "count (idsOf To) x \<le> 1" for x
    using owned_distinct [OF S(2), of x] by (metis count_union add_leE)
  obtain st c' where st: "statsFor n ?t = Some (st, ?t\<lparr>treeCache := c'\<rparr>)"
    using statsFor_ok [of ?t To cmp "degree t" K n] S(7,9) once by auto
  have reuse: "validateReusablePages ?t (set_mset (idsOf To)) = None \<longleftrightarrow> ?good"
    using reusable_owned [OF S(2)] by (simp add: validateReusablePages_iff)
  have err: "validateReusablePages ?t X = None \<or> validateReusablePages ?t X = Some ErrFreelist" for X
    using validateReusablePages_error by blast
  obtain ss where ss: "pageSummaries ?t (set_mset (idsOf To)) = Some ss"
  proof -
    have "summarizable (pages t) i" if "i \<in># idsOf To" for i
      using that S(9) rep_summarizable by (cases To) auto
    then have "\<exists>ss. pageSummaries ?t (set_mset (idsOf To)) = Some ss"
      using spare by (intro pageSummaries_total) auto
    then show thesis using that by blast
  qed
  define fine where "fine rep r t' \<longleftrightarrow>
      (au_Error rep = None \<longrightarrow> Valid r = ?good \<and> (au_Error r = None \<or> au_Error r = Some ErrFreelist)) \<and>
      au_ReachablePageIDs r = au_ReachablePageIDs rep \<and> au_LeafLinksChecked r = au_LeafLinksChecked rep \<and>
      (\<exists>c. t' = t\<lparr>treeCache := c\<rparr>)" for rep r :: AuditReport and t' :: Tree
  have fin: "\<exists>r t'. finishAudit n rep ?t (set_mset (idsOf To)) = Some (r, t') \<and> fine rep r t'" for rep
  proof (cases "validateReusablePages ?t (set_mset (idsOf To))")
    case None
    then have "finishAudit n rep ?t (set_mset (idsOf To)) = Some (rep\<lparr>au_Stats := st\<rparr>, t\<lparr>treeCache := c'\<rparr>)"
      using st by (simp add: finishAudit_def)
    moreover have "fine rep (rep\<lparr>au_Stats := st\<rparr>) (t\<lparr>treeCache := c'\<rparr>)"
      using None reuse unfolding fine_def Valid_def by (intro conjI exI [of _ c']) simp_all
    ultimately show ?thesis by blast
  next
    case (Some e)
    then have "finishAudit n rep ?t (set_mset (idsOf To)) = Some (rep\<lparr>au_Error := Some e\<rparr>, ?t)"
      by (simp add: finishAudit_def)
    moreover have "fine rep (rep\<lparr>au_Error := Some e\<rparr>) ?t"
      using Some reuse err [of "set_mset (idsOf To)"] unfolding fine_def Valid_def
      by (intro conjI exI [of _ c]) simp_all
    ultimately show ?thesis by blast
  qed
  show ?thesis
  proof (cases To)
    case None
    have root: "root ?t = 0" "treeLen ?t = 0" using S(7,8) None by simp_all
    obtain b where b: "auditBaseStats n t = (b, ?t)" using aud by metis
    let ?rep = "emptyReport\<lparr>au_Stats := b, au_FreePageIDs := sortedPageIDsFromSlice (free ?t),
        au_RetiredPageIDs := sortedRetiredPageIDs (retired ?t),
        au_MetadataPageIDs := metaFreelistPages ?t, au_PageSummaries := ss\<rparr>"
    have "Audit n t = finishAudit n ?rep ?t {}"
      using b root ss None opn by (simp add: Audit_def)
    then show ?thesis
      using fin [of ?rep] None by (auto simp: fine_def emptyReport_def)
  next
    case (Some T)
    then have T: "rep (pages ?t) T" "shape (degree ?t) K T" "sorted_by cmp (gentries T)" "root ?t = gid T"
      "kidsfilled (degree ?t) T" "compareKeys ?t = cmp" "gid T \<noteq> 0" "treeLen ?t = int (length (gentries T))"
      using S(6-9) fill gid_nonzero by (auto simp: filledOf_def compareKeys_def)
    have cnt: "count (gids T) x \<le> 1" for x using once [of x] Some by simp
    have w: "validateReachablePages ?t = Some (set_mset (gids T), None)"
      by (rule validateReachablePages_ok [OF T(6,4,1,2,3,5) cnt])
    have links: "validateLeafLinks ?t = Some None" if "activeReaders t = []"
      using tree_okD(2) [OF ok that] Some T(4,1)
      by (intro validateLeafLinks_ok [where T = T]) (simp_all add: linkedOf_def)
    have arc: "activeReaderCount ?t = 0 \<longleftrightarrow> activeReaders t = []"
      using activeReaderCount_pos(2) [OF S(4)] by (simp add: activeReaderCount_def)
    obtain seen' where keys: "countReachableKeys (pages ?t) (gid T) {} = Some (int (length (gentries T)), seen')"
      using countReachableKeys_ok [OF T(1) cnt, of "{}"] by auto
    obtain b where b: "auditBaseStats n t = (b, ?t)" using aud by metis
    have ss': "pageSummaries ?t (set_mset (gids T)) = Some ss" using ss Some by simp
    define chk where "chk = (activeReaders t = [])"
    have links': "(if activeReaderCount ?t = 0 then validateLeafLinks ?t else Some None) = Some None"
      using links arc by simp
    let ?rep = "emptyReport\<lparr>au_Stats := b, au_FreePageIDs := sortedPageIDsFromSlice (free ?t),
        au_RetiredPageIDs := sortedRetiredPageIDs (retired ?t),
        au_MetadataPageIDs := metaFreelistPages ?t,
        au_ReachablePageIDs := sortedPageIDs (set_mset (gids T)), au_PageSummaries := ss,
        au_LeafLinksChecked := chk, au_LeafLinksSkipped := \<not> chk\<rparr>"
    have "Audit n t = finishAudit n ?rep ?t (set_mset (gids T))"
      using b w ss' links' keys arc opn T(4,7,8) by (simp add: Audit_def chk_def Let_def)
    then show ?thesis
      using fin [of ?rep] Some by (auto simp: fine_def emptyReport_def sortedPageIDs_def chk_def)
  qed
qed

end

section \<open>The report on a torn branch\<close>

text \<open>
  The summaries of the marked pages are made before the verdict of the walk is looked at.  A
  branch page whose slot directory runs past the page is rejected by the walk, but it is
  marked, and its summary then decodes its children.
\<close>

lemma mapM_None: "x \<in> set xs \<Longrightarrow> f x = None \<Longrightarrow> mapM f xs = None"
  by (induction xs) (auto simp: bind_eq_None_conv)

lemma Audit_torn_branch:
  assumes opn: "\<not> closed t" and p: "root t \<noteq> 0" "pages t (root t) = Some p" "wf_page p"
    and br: "isBranch p" "\<not> isLeaf p" and torn: "PageSize < pageHeaderSize + unat (slotCount p) * slotSize"
  shows "validateReachablePages t = Some ({root t}, Some (if validChecksum p then ErrPageLayout else ErrPageChecksum))"
    and "Audit n t = None"
proof -
  have n: "0 < unat (slotCount p)" using torn by (cases "unat (slotCount p)") (simp_all add: page_consts)
  then have last: "unat (slotCount p) - 1 \<in> set [0..<unat (slotCount p)]" by simp
  have "readSlot p (unat (slotCount p) - 1) = None"
    using torn p(3) n by (simp add: readSlot_def slotBase_def wf_page_def page_consts check_def Let_def)
  then have "readCell p (unat (slotCount p) - 1) = None" by (simp add: readCell_def)
  then have "branchParts p = None"
    unfolding branchParts_def by (subst mapM_None [OF last]) simp_all
  then have cs: "childIDs p = None" using br by (simp add: childIDs_def)
  have lay: "validateLayoutWithComparator p (compareKeys t) = Some (Some ErrPageLayout)"
    using br torn by (auto simp: validateLayoutWithComparator_def validateSlottedLayoutWithComparator_def
        isLeaf_def isBranch_def flag_defs Let_def)
  show walk: "validateReachablePages t = Some ({root t}, Some (if validChecksum p then ErrPageLayout else ErrPageChecksum))"
    using p lay unfolding validateReachablePages_def validatePage_def
    by (subst validatePageBounds.simps) auto
  obtain st c where aud: "auditBaseStats n t = (st, t\<lparr>treeCache := c\<rparr>)"
    by (cases "cacheSnapshot (treeCache t)") (simp add: auditBaseStats_def)
  let ?t = "t\<lparr>treeCache := c\<rparr>"
  have "pageSummaries ?t {root t} = None"
    using p br cs by (simp add: pageSummaries_def sortedPageIDs_def summarizePage_def)
  moreover have "validateReachablePages ?t = Some ({root t}, Some (if validChecksum p then ErrPageLayout else ErrPageChecksum))"
    using p lay unfolding validateReachablePages_def validatePage_def
    by (subst validatePageBounds.simps) (auto simp: compareKeys_def)
  ultimately show "Audit n t = None"
    using opn aud p(1) by (simp add: Audit_def)
qed


section \<open>Accepted pages decode\<close>

text \<open>Whatever kind of page the layout check accepts, the decoder of that kind does not panic on it.\<close>

lemma accepted_reads:
  assumes acc: "validateLayoutWithComparator p cmp = Some None" and wf: "wf_page p"
  shows "isLeaf p \<Longrightarrow> leafEntries p \<noteq> None" "isBranch p \<Longrightarrow> childIDs p \<noteq> None"
    "isOverflow p \<Longrightarrow> overflowPayload p \<noteq> None" "flags p = flagFreelist \<Longrightarrow> freelistIDs p \<noteq> None"
    "flags p = flagReclaim \<Longrightarrow> reclaimRecords p \<noteq> None"
proof -
  note A = validateLayout_accepts [OF acc wf]
  have len: "length (data p) = 4096" using wf by (simp add: wf_page_def page_consts)
  show "leafEntries p \<noteq> None" if l: "isLeaf p"
  proof -
    have s: "sound p cmp" using A(2) l by blast
    show ?thesis unfolding leafEntries_def
      by (rule mapM_total) (use sound_reads [OF s] in fastforce)
  qed
  show "childIDs p \<noteq> None" if b: "isBranch p"
    using A(2) b by (auto elim: childIDs_sound [of p cmp])
  show "overflowPayload p \<noteq> None" if "isOverflow p"
    using A(4) that len by (simp add: overflowPayload_def page_consts)
  show "freelistIDs p \<noteq> None" if f: "flags p = flagFreelist"
  proof -
    have "freelistCount p \<le> freelistPageCapacity"
      using acc f by (auto simp: validateLayoutWithComparator_def validateFreelistLayout_def flag_defs split: if_splits option.splits)
    then show ?thesis unfolding freelistIDs_def
      by (intro mapM_total) (use len in \<open>auto simp: page_consts getID_def\<close>)
  qed
  show "reclaimRecords p \<noteq> None" if f: "flags p = flagReclaim"
  proof -
    have "reclaimCount p \<le> reclaimPageCapacity"
      using acc f by (auto simp: validateLayoutWithComparator_def validateReclaimLayout_def flag_defs split: if_splits option.splits)
    then show ?thesis unfolding reclaimRecords_def
      by (intro mapM_total) (use len in \<open>auto simp: page_consts getID_def Let_def\<close>)
  qed
qed

end
