(* ===== verification/MetaPage.thy ===== *)
theory MetaPage
  imports Layout TreeState
begin

text \<open>
  The checked metadata page of an mmap file (\<^verbatim>\<open>readMetaPageChecked\<close>, \<^verbatim>\<open>writeMetaPage\<close> and
  \<^verbatim>\<open>metaChecksum\<close> in \<^verbatim>\<open>pagebtree/mmap.go\<close>): the record of one published version, at fixed
  offsets under a CRC-32 that covers the whole page but itself.  What is written is read back
  (\<open>meta_roundtrip\<close>), and bytes that fail the checksum are refused, never read as a record.
\<close>

section \<open>Constants and the record\<close>

definition metaMagic :: bytes where "metaMagic = str ''COWBTREE''"
definition metaVersion :: u64 where "metaVersion = 3"
definition minMetaVersion :: u64 where "minMetaVersion = 1"
definition metaMagicOffset :: nat where [page_consts]: "metaMagicOffset = 0"
definition metaVersionOff :: nat where [page_consts]: "metaVersionOff = 8"
definition metaPageSizeOff :: nat where [page_consts]: "metaPageSizeOff = 16"
definition metaRootOff :: nat where [page_consts]: "metaRootOff = 24"
definition metaNextPageOff :: nat where [page_consts]: "metaNextPageOff = 32"
definition metaLengthOff :: nat where [page_consts]: "metaLengthOff = 40"
definition metaRevisionOff :: nat where [page_consts]: "metaRevisionOff = 48"
definition metaDegreeOff :: nat where [page_consts]: "metaDegreeOff = 56"
definition metaMaxPagesOff :: nat where [page_consts]: "metaMaxPagesOff = 64"
definition metaChecksumOff :: nat where [page_consts]: "metaChecksumOff = 72"
definition metaKeyOrderOff :: nat where [page_consts]: "metaKeyOrderOff = 76"
definition metaFreeCountOff :: nat where [page_consts]: "metaFreeCountOff = 80"
definition metaFreeListOff :: nat where [page_consts]: "metaFreeListOff = 88"
definition maxMetaFreePages :: nat where
  [page_consts]: "maxMetaFreePages = (PageSize - metaFreeListOff) div 8"

record metaRecord =
  mr_version :: u64
  mr_root :: PageID
  mr_nextPage :: PageID
  mr_length :: int
  mr_revision :: u64
  mr_degree :: int
  mr_keyOrder :: KeyOrder
  mr_maxPages :: int
  mr_free :: "PageID list"
  mr_retired :: "retiredPage list"
  mr_freeCount :: int
  mr_freeRoot :: PageID
  mr_freelistPages :: "PageID list"

section \<open>Reading and writing\<close>

definition isZeroPage :: "bytes \<Rightarrow> bool" where
  "isZeroPage d \<longleftrightarrow> list_all (\<lambda>b. b = 0) d"

definition metaChecksum :: "bytes \<Rightarrow> u32" where
  "metaChecksum d = crc32_ieee (take metaChecksumOff d
     @ slice d (metaChecksumOff + 4) (PageSize - (metaChecksumOff + 4)))"

definition validateMmapKeyOrder :: "KeyOrder \<Rightarrow> dbError + KeyOrder" where
  "validateMmapKeyOrder order =
     (let order = normalizeKeyOrder order in
      if order = KeyOrderBytewise \<or> order = KeyOrderReverse then Inr order else Inl ErrMetaInvariant)"

text \<open>
  \<open>Inr None\<close> is a page that was never written.  \<open>None\<close> is the panic of \<^verbatim>\<open>make\<close> on a negative
  capacity: the count is the conversion of an unsigned field and its sign is not checked.
\<close>

definition readMetaPageChecked :: "bytes \<Rightarrow> (dbError + metaRecord option) option" where
  "readMetaPageChecked d =
     (if length d < PageSize then Some (Inl ErrMetaInvariant)
      else if isZeroPage (take PageSize d) then Some (Inr None)
      else if slice d metaMagicOffset (length metaMagic) \<noteq> metaMagic then Some (Inl ErrMetaInvariant)
      else
        let version = getU64 d metaVersionOff in
        if version < minMetaVersion \<or> metaVersion < version then Some (Inl ErrMetaInvariant)
        else if getU64 d metaPageSizeOff \<noteq> of_nat PageSize then Some (Inl ErrMetaInvariant)
        else if metaChecksum d \<noteq> getU32 d metaChecksumOff then Some (Inl ErrMetaInvariant)
        else case validateMmapKeyOrder (getU32 d metaKeyOrderOff) of
          Inl e \<Rightarrow> Some (Inl e)
        | Inr order \<Rightarrow>
            let freeCount = sint (getU64 d metaFreeCountOff);
                rootField = getU64 d metaFreeListOff;
                accept = (\<lambda>free freeRoot. Some (Inr (Some
                  \<lparr>mr_version = version, mr_root = getU64 d metaRootOff,
                   mr_nextPage = getU64 d metaNextPageOff,
                   mr_length = sint (getU64 d metaLengthOff),
                   mr_revision = getU64 d metaRevisionOff,
                   mr_degree = sint (getU64 d metaDegreeOff), mr_keyOrder = order,
                   mr_maxPages = sint (getU64 d metaMaxPagesOff), mr_free = free,
                   mr_retired = [], mr_freeCount = freeCount, mr_freeRoot = freeRoot,
                   mr_freelistPages = []\<rparr>))) in
            if version = 1 \<and> int maxMetaFreePages < freeCount then Some (Inl ErrMetaInvariant)
            else if 3 \<le> version then
              (if freeCount = 0 \<and> rootField \<noteq> 0 then Some (Inl ErrMetaInvariant)
               else if 0 < freeCount \<and> rootField = 0 then Some (Inl ErrMetaInvariant)
               else accept [] rootField)
            else if freeCount \<le> int maxMetaFreePages then
              (if freeCount < 0 then None
               else accept (map (\<lambda>i. getU64 d (metaFreeListOff + i * 8)) [0..<nat freeCount]) 0)
            else if rootField = 0 then Some (Inl ErrMetaInvariant)
            else accept [] rootField)"

definition readMetaPage :: "bytes \<Rightarrow> metaRecord option option" where
  "readMetaPage d = map_option (\<lambda>r. case r of Inl e \<Rightarrow> None | Inr m \<Rightarrow> m) (readMetaPageChecked d)"

definition writeMetaPage :: "bytes \<Rightarrow> metaRecord \<Rightarrow> (dbError + bytes) option" where
  "writeMetaPage d r =
     (let version = (if mr_version r = 0 then metaVersion else mr_version r);
          reclaimCount = (if version < 3 \<and> mr_freeRoot r = 0 \<and> mr_retired r = []
            then length (mr_free r) else length (mr_free r) + length (mr_retired r)) in
      if version < 3 \<and> mr_retired r \<noteq> [] then Some (Inl ErrMetaInvariant)
      else if 3 \<le> version \<and> mr_freeRoot r = 0 \<and> 0 < reclaimCount then Some (Inl ErrMetaInvariant)
      else if mr_freeRoot r = 0 \<and> maxMetaFreePages < reclaimCount then Some (Inl ErrMetaInvariant)
      else if mr_freeRoot r \<noteq> 0 \<and> reclaimCount = 0 then Some (Inl ErrMetaInvariant)
      else case validateMmapKeyOrder (mr_keyOrder r) of
        Inl e \<Rightarrow> Some (Inl e)
      | Inr order \<Rightarrow>
          let d = splice (replicate (length d) 0) metaMagicOffset metaMagic;
              d = putU64 d metaVersionOff version;
              d = putU64 d metaPageSizeOff (of_nat PageSize);
              d = putU64 d metaRootOff (mr_root r);
              d = putU64 d metaNextPageOff (mr_nextPage r);
              d = putU64 d metaLengthOff (word_of_int (mr_length r));
              d = putU64 d metaRevisionOff (mr_revision r);
              d = putU64 d metaDegreeOff (word_of_int (mr_degree r));
              d = putU64 d metaMaxPagesOff (word_of_int (mr_maxPages r));
              d = putU32 d metaKeyOrderOff order;
              d = putU64 d metaFreeCountOff (of_nat reclaimCount) in
          map_option (\<lambda>d. Inr (putU32 d metaChecksumOff (metaChecksum d)))
            (if mr_freeRoot r \<noteq> 0 then Some (putU64 d metaFreeListOff (mr_freeRoot r))
             else putIDs d metaFreeListOff (mr_free r)))"

section \<open>Writing several fields\<close>

definition putFields :: "bytes \<Rightarrow> (nat \<times> bytes) list \<Rightarrow> bytes" where
  "putFields d fs = foldl (\<lambda>d (off, bs). splice d off bs) d fs"

definition apart :: "nat \<times> bytes \<Rightarrow> nat \<times> bytes \<Rightarrow> bool" where
  "apart f g \<longleftrightarrow> fst f + length (snd f) \<le> fst g \<or> fst g + length (snd g) \<le> fst f"

definition inside :: "nat \<Rightarrow> (nat \<times> bytes) list \<Rightarrow> bool" where
  "inside n fs \<longleftrightarrow> (\<forall>f\<in>set fs. fst f + length (snd f) \<le> n) \<and> sorted_wrt apart fs"

lemma putFields_simps [simp]:
  "putFields d [] = d" "putFields d ((off, bs) # fs) = putFields (splice d off bs) fs"
  by (simp_all add: putFields_def)

lemma inside_simps [simp]:
  "inside n []" "inside n (f # fs) \<longleftrightarrow> fst f + length (snd f) \<le> n \<and> (\<forall>g\<in>set fs. apart f g) \<and> inside n fs"
  by (auto simp: inside_def)

lemma length_putFields: "inside (length d) fs \<Longrightarrow> length (putFields d fs) = length d"
  by (induction fs arbitrary: d) auto

lemma slice_putFields_apart:
  "inside (length d) fs \<Longrightarrow> (\<forall>g\<in>set fs. off + n \<le> fst g \<or> fst g + length (snd g) \<le> off) \<Longrightarrow>
     slice (putFields d fs) off n = slice d off n"
proof (induction fs arbitrary: d)
  case (Cons f fs)
  obtain o' bs' where f: "f = (o', bs')" by (cases f)
  then have "length (splice d o' bs') = length d" using Cons.prems(1) by simp
  then have "slice (putFields d (f # fs)) off n = slice (splice d o' bs') off n"
    using Cons f by simp
  also have "\<dots> = slice d off n"
    using Cons.prems f by (intro slice_splice_disjoint) auto
  finally show ?case .
qed simp

lemma slice_putFields:
  "inside (length d) fs \<Longrightarrow> (off, bs) \<in> set fs \<Longrightarrow> n = length bs \<Longrightarrow> slice (putFields d fs) off n = bs"
proof (induction fs arbitrary: d)
  case (Cons f fs)
  obtain o' bs' where f: "f = (o', bs')" by (cases f)
  show ?case
  proof (cases "f = (off, bs)")
    case True
    then have "\<forall>g\<in>set fs. off + n \<le> fst g \<or> fst g + length (snd g) \<le> off"
      using Cons.prems by (auto simp: apart_def)
    then show ?thesis
      using Cons.prems True by (simp add: slice_putFields_apart slice_splice_same)
  next
    case False
    have "length (splice d o' bs') = length d" using Cons.prems(1) f by simp
    then show ?thesis using Cons f False by auto
  qed
qed simp

section \<open>The round trip\<close>

text \<open>The fields of a written page, the checksum apart, for the list of bytes \<open>tail\<close> at the end.\<close>

definition metaFields :: "metaRecord \<Rightarrow> u64 \<Rightarrow> KeyOrder \<Rightarrow> u64 \<Rightarrow> bytes \<Rightarrow> (nat \<times> bytes) list" where
  "metaFields r version order cnt tail =
     [(0, metaMagic), (8, word_to_le 8 version), (16, word_to_le 8 (of_nat PageSize :: u64)),
      (24, word_to_le 8 (mr_root r)), (32, word_to_le 8 (mr_nextPage r)),
      (40, word_to_le 8 (word_of_int (mr_length r) :: u64)), (48, word_to_le 8 (mr_revision r)),
      (56, word_to_le 8 (word_of_int (mr_degree r) :: u64)),
      (64, word_to_le 8 (word_of_int (mr_maxPages r) :: u64)), (76, word_to_le 4 order),
      (80, word_to_le 8 cnt), (88, tail)]"

lemma length_metaMagic [simp]: "length metaMagic = 8"
  by (simp add: metaMagic_def str_def)

lemma metaMagic_nonzero: "\<not> list_all (\<lambda>b. b = 0) metaMagic"
  by (simp add: metaMagic_def str_def)

lemma metaFields_inside: "length tail \<le> 4008 \<Longrightarrow> inside 4096 (metaFields r version order cnt tail)"
  by (simp add: metaFields_def apart_def)

definition sealMeta :: "bytes \<Rightarrow> bytes" where
  "sealMeta x = putU32 x metaChecksumOff (metaChecksum x)"

lemma sealMeta:
  assumes "length x = PageSize"
  shows "length (sealMeta x) = PageSize" "metaChecksum (sealMeta x) = getU32 (sealMeta x) metaChecksumOff"
    "off + n \<le> 72 \<or> 76 \<le> off \<Longrightarrow> slice (sealMeta x) off n = slice x off n"
proof -
  let ?c = "word_to_le 4 (metaChecksum x)"
  have len: "length x = 4096" using assms by (simp add: page_consts)
  have "take 72 (splice x 72 ?c) = take 72 x"
    using slice_splice_before [of 0 72 72 ?c x] len by (simp add: slice_def)
  moreover have "slice (splice x 72 ?c) 76 4020 = slice x 76 4020"
    by (rule slice_splice_after) (use len in simp_all)
  moreover have "slice (splice x 72 ?c) 72 4 = ?c"
    by (rule slice_splice_same) (use len in simp_all)
  ultimately show "metaChecksum (sealMeta x) = getU32 (sealMeta x) metaChecksumOff"
    by (simp add: sealMeta_def metaChecksum_def getU32_def putU32_def page_consts)
  show "length (sealMeta x) = PageSize"
    using len by (simp add: sealMeta_def putU32_def page_consts)
  show "off + n \<le> 72 \<or> 76 \<le> off \<Longrightarrow> slice (sealMeta x) off n = slice x off n"
    using len by (simp add: sealMeta_def putU32_def page_consts slice_splice_disjoint)
qed

lemma writeMetaPage_fields:
  assumes d: "length d = PageSize" and w: "writeMetaPage d r = Some (Inr d')"
  obtains version order cnt tail where
    "version = (if mr_version r = 0 then metaVersion else mr_version r)"
    "validateMmapKeyOrder (mr_keyOrder r) = Inr order"
    "cnt = length (mr_free r) + length (mr_retired r)"
    "tail = (if mr_freeRoot r \<noteq> 0 then word_to_le 8 (mr_freeRoot r) else concat (map (word_to_le 8) (mr_free r)))"
    "version < 3 \<Longrightarrow> mr_retired r = []"
    "mr_freeRoot r = 0 \<Longrightarrow> cnt \<le> maxMetaFreePages \<and> (3 \<le> version \<longrightarrow> cnt = 0)"
    "mr_freeRoot r \<noteq> 0 \<Longrightarrow> 0 < cnt"
    "length tail \<le> 4008"
    "d' = sealMeta (putFields (replicate PageSize 0) (metaFields r version order (of_nat cnt) tail))"
proof -
  define version where "version = (if mr_version r = 0 then metaVersion else mr_version r)"
  define cnt where "cnt = length (mr_free r) + length (mr_retired r)"
  define tail where "tail = (if mr_freeRoot r \<noteq> 0 then word_to_le 8 (mr_freeRoot r) else concat (map (word_to_le 8) (mr_free r)))"
  have cntq: "(if version < 3 \<and> mr_freeRoot r = 0 \<and> mr_retired r = []
      then length (mr_free r) else length (mr_free r) + length (mr_retired r)) = cnt"
    by (simp add: cnt_def)
  note W = w [unfolded writeMetaPage_def Let_def, folded version_def, unfolded cntq]
  obtain order where order: "validateMmapKeyOrder (mr_keyOrder r) = Inr order"
    using W by (auto split: if_splits sum.splits)
  have g: "version < 3 \<Longrightarrow> mr_retired r = []" "mr_freeRoot r = 0 \<Longrightarrow> cnt \<le> maxMetaFreePages \<and> (3 \<le> version \<longrightarrow> cnt = 0)"
    "mr_freeRoot r \<noteq> 0 \<Longrightarrow> 0 < cnt"
    using W by (auto split: if_splits)
  have tl: "length tail \<le> 4008"
    using g(2) by (auto simp: tail_def cnt_def length_concat_le8 page_consts)
  define fs where "fs = butlast (metaFields r version order (of_nat cnt) tail)"
  have ins: "inside 4096 (metaFields r version order (of_nat cnt) tail)" by (rule metaFields_inside [OF tl])
  have fs: "metaFields r version order (of_nat cnt) tail = fs @ [(88, tail)]"
    by (simp add: metaFields_def fs_def)
  have "inside 4096 fs" using ins unfolding fs by (auto simp: inside_def sorted_wrt_append)
  then have len: "length (putFields (replicate PageSize 0) fs) = 4096"
    using length_putFields [of "replicate PageSize 0" fs] by (simp add: page_consts)
  have last: "putFields (replicate PageSize 0) (metaFields r version order (of_nat cnt) tail) =
      splice (putFields (replicate PageSize 0) fs) 88 tail"
    unfolding fs putFields_def by simp
  have put: "putIDs (putFields (replicate PageSize 0) fs) 88 (mr_free r) =
      Some (splice (putFields (replicate PageSize 0) fs) 88 tail)" if "mr_freeRoot r = 0"
    using that tl len by (auto simp: putIDs_splice tail_def length_concat_le8)
  have "d' = sealMeta (putFields (replicate PageSize 0) (metaFields r version order (of_nat cnt) tail))"
    using W order put d unfolding last
    by (auto simp: sealMeta_def fs_def metaFields_def putU64_def putU32_def page_consts tail_def split: if_splits)
  then show thesis
    by (intro that [OF version_def order cnt_def tail_def g tl]) simp_all
qed

text \<open>
  What a written record reads back as: the lists of page ids that live in chained pages are
  not in the metadata page, only their number and the root of the chain.  \<open>storable\<close> says that
  the Go \<^verbatim>\<open>int\<close>s fit, that the version is one the reader knows, and that a version-2 record with
  a chain has more free pages than the page holds inline, which is how the reader tells.
\<close>

definition storedMeta :: "metaRecord \<Rightarrow> metaRecord" where
  "storedMeta r = r\<lparr>mr_version := (if mr_version r = 0 then metaVersion else mr_version r),
     mr_keyOrder := normalizeKeyOrder (mr_keyOrder r),
     mr_freeCount := int (length (mr_free r) + length (mr_retired r)),
     mr_free := (if mr_freeRoot r = 0 then mr_free r else []), mr_retired := [],
     mr_freelistPages := []\<rparr>"

definition goInt :: "int \<Rightarrow> bool" where
  "goInt x \<longleftrightarrow> - (2 ^ 63) \<le> x \<and> x < 2 ^ 63"

definition storable :: "metaRecord \<Rightarrow> bool" where
  "storable r \<longleftrightarrow> goInt (mr_length r) \<and> goInt (mr_degree r) \<and> goInt (mr_maxPages r) \<and>
     length (mr_free r) + length (mr_retired r) < 2 ^ 63 \<and> mr_version r \<in> {0, 1, 2, 3} \<and>
     (mr_freeRoot r \<noteq> 0 \<and> mr_version r \<in> {1, 2} \<longrightarrow>
        mr_version r = 2 \<and> maxMetaFreePages < length (mr_free r))"

lemma goInt_sint: "goInt x \<Longrightarrow> sint (word_of_int x :: u64) = x"
  by (simp add: goInt_def sint_word_of_int_64)

lemma getU64_field:
  assumes "inside PageSize fs" "(off, word_to_le 8 w) \<in> set fs" "off + 8 \<le> 72 \<or> 76 \<le> off"
  shows "getU64 (sealMeta (putFields (replicate PageSize 0) fs)) off = w"
proof -
  let ?x = "putFields (replicate PageSize 0) fs"
  have "length ?x = PageSize" using length_putFields [of "replicate PageSize 0" fs] assms(1) by simp
  then have "slice (sealMeta ?x) off 8 = slice ?x off 8" by (rule sealMeta(3)) (use assms(3) in simp)
  also have "\<dots> = word_to_le 8 w"
    by (rule slice_putFields) (use assms in simp_all)
  finally show ?thesis by (simp add: getU64_def)
qed

theorem meta_roundtrip:
  assumes d: "length d = PageSize" and w: "writeMetaPage d r = Some (Inr d')" and r: "storable r"
  shows "length d' = PageSize" "readMetaPageChecked d' = Some (Inr (Some (storedMeta r)))"
proof -
  obtain version order cnt tail where W:
    "version = (if mr_version r = 0 then metaVersion else mr_version r)"
    "validateMmapKeyOrder (mr_keyOrder r) = Inr order"
    "cnt = length (mr_free r) + length (mr_retired r)"
    "tail = (if mr_freeRoot r \<noteq> 0 then word_to_le 8 (mr_freeRoot r) else concat (map (word_to_le 8) (mr_free r)))"
    "version < 3 \<Longrightarrow> mr_retired r = []"
    "mr_freeRoot r = 0 \<Longrightarrow> cnt \<le> maxMetaFreePages \<and> (3 \<le> version \<longrightarrow> cnt = 0)"
    "mr_freeRoot r \<noteq> 0 \<Longrightarrow> 0 < cnt" "length tail \<le> 4008"
    "d' = sealMeta (putFields (replicate PageSize 0) (metaFields r version order (of_nat cnt) tail))"
    by (rule writeMetaPage_fields [OF d w]) (rule that)
  let ?fs = "metaFields r version order (of_nat cnt) tail" and ?x = "putFields (replicate PageSize 0) (metaFields r version order (of_nat cnt) tail)"
  have ins: "inside PageSize ?fs" using metaFields_inside [OF W(8)] by (simp add: page_consts)
  have x: "length ?x = PageSize" using length_putFields [of "replicate PageSize 0" ?fs] ins by simp
  show len: "length d' = PageSize" unfolding W(9) by (rule sealMeta(1) [OF x])
  note u64 = getU64_field [OF ins, folded W(9)]
  have F: "getU64 d' 8 = version" "getU64 d' 16 = of_nat PageSize" "getU64 d' 24 = mr_root r"
    "getU64 d' 32 = mr_nextPage r" "getU64 d' 40 = word_of_int (mr_length r)"
    "getU64 d' 48 = mr_revision r" "getU64 d' 56 = word_of_int (mr_degree r)"
    "getU64 d' 64 = word_of_int (mr_maxPages r)" "getU64 d' 80 = of_nat cnt"
    by (rule u64, simp add: metaFields_def, simp)+
  have raw: "slice d' off n = slice ?x off n" if "off + n \<le> 72 \<or> 76 \<le> off" for off n
    unfolding W(9) by (rule sealMeta(3) [OF x that])
  have "slice ?x 76 4 = word_to_le 4 order"
    by (rule slice_putFields) (use ins in \<open>simp_all add: metaFields_def\<close>)
  then have ord: "getU32 d' 76 = order" using raw [of 76 4] by (simp add: getU32_def)
  have "slice ?x 0 8 = metaMagic"
    by (rule slice_putFields) (use ins in \<open>simp_all add: metaFields_def\<close>)
  then have magic: "slice d' 0 8 = metaMagic" using raw [of 0 8] by simp
  have tl: "slice d' 88 (length tail) = tail"
    using raw [of 88 "length tail"] slice_putFields [of "replicate PageSize 0" ?fs 88 tail "length tail"] ins
    by (simp add: metaFields_def)
  have nz: "\<not> isZeroPage (take PageSize d')"
  proof
    assume "isZeroPage (take PageSize d')"
    then have "\<forall>b\<in>set d'. b = 0" using len by (simp add: isZeroPage_def list_all_iff)
    then have "list_all (\<lambda>b. b = 0) (slice d' 0 8)"
      using set_take_subset [of 8 d'] by (auto simp: slice_def list_all_iff)
    then show False using magic metaMagic_nonzero by simp
  qed
  have ok: "validateMmapKeyOrder order = Inr order" "order = normalizeKeyOrder (mr_keyOrder r)"
    using W(2) by (auto simp: validateMmapKeyOrder_def normalizeKeyOrder_def Let_def
        KeyOrderBytewise_def KeyOrderReverse_def split: if_splits)
  have ver: "version = 1 \<or> version = 2 \<or> version = 3" using r W(1) by (auto simp: storable_def metaVersion_def)
  have cs: "sint (of_nat cnt :: u64) = int cnt"
    using r W(3) sint_word_of_int_64 [of "int cnt"] by (simp add: storable_def)
  have ints: "sint (word_of_int (mr_length r) :: u64) = mr_length r"
    "sint (word_of_int (mr_degree r) :: u64) = mr_degree r"
    "sint (word_of_int (mr_maxPages r) :: u64) = mr_maxPages r"
    using r by (simp_all add: storable_def goInt_sint)
  have sum: "metaChecksum d' = getU32 d' 72"
    using sealMeta(2) [OF x] unfolding W(9) by (simp add: metaChecksum_def metaChecksumOff_def)
  have root: "getU64 d' 88 = mr_freeRoot r" if "mr_freeRoot r \<noteq> 0"
    using tl W(4) that by (simp add: getU64_def)
  have ids: "map (\<lambda>i. getU64 d' (88 + i * 8)) [0..<cnt] = mr_free r" if "mr_freeRoot r = 0" "version < 3"
  proof (rule nth_equalityI)
    have cnt: "cnt = length (mr_free r)" using W(3,5) that(2) by simp
    then show "length (map (\<lambda>i. getU64 d' (88 + i * 8)) [0..<cnt]) = length (mr_free r)" by simp
    fix i assume "i < length (map (\<lambda>i. getU64 d' (88 + i * 8)) [0..<cnt])"
    then have i: "i < length (mr_free r)" using cnt by simp
    have "slice d' (88 + 8 * i) 8 = slice (slice d' 88 (length tail)) (8 * i) 8"
      using i W(4) that(1) by (simp add: slice_slice length_concat_le8)
    also have "\<dots> = word_to_le 8 (mr_free r ! i)"
      using tl W(4) that(1) slice_concat_le8 [OF i] by simp
    finally show "map (\<lambda>i. getU64 d' (88 + i * 8)) [0..<cnt] ! i = mr_free r ! i"
      using i cnt by (simp add: getU64_def mult.commute)
  qed
  have empty: "getU64 d' 88 = 0" if "mr_freeRoot r = 0" "version = 3"
  proof -
    have "tail = []" using W(3,4,6) that by simp
    then have "slice ?x 88 8 = slice (replicate PageSize 0) 88 8"
      using ins by (intro slice_putFields_apart) (simp_all add: metaFields_def)
    also have "\<dots> = replicate 8 0" by (simp add: slice_def page_consts)
    finally show ?thesis using raw [of 88 8] by (simp add: getU64_def le_to_word_zeros)
  qed
  note R = len nz magic F ord ok sum cs ints W(1) W(3) [symmetric]
  show "readMetaPageChecked d' = Some (Inr (Some (storedMeta r)))"
  proof (cases "version = 3")
    case True
    then have "mr_freeRoot r = 0 \<longleftrightarrow> cnt = 0" using W(6,7) by auto
    then show ?thesis
      using R True root empty
      by (cases "mr_freeRoot r = 0")
         (simp_all add: readMetaPageChecked_def storedMeta_def page_consts Let_def minMetaVersion_def metaVersion_def)
  next
    case False
    then have v: "version = 1 \<or> version = 2" "version < 3" using ver by auto
    show ?thesis
    proof (cases "mr_freeRoot r = 0")
      case True
      have rt: "mr_retired r = []" "cnt \<le> 501" using W(5) [OF v(2)] W(6) [OF True] by (simp_all add: page_consts)
      have vv: "\<not> version < 1" "\<not> 3 < version" "\<not> 3 \<le> version" using v by auto
      note ids' = ids [OF True v(2)]
      show ?thesis
        using R vv rt True ids'
        by (simp add: readMetaPageChecked_def storedMeta_def page_consts Let_def minMetaVersion_def metaVersion_def)
    next
      case False
      then have big: "version = 2" "maxMetaFreePages < cnt"
        using r v W(1,3,5) by (auto simp: storable_def metaVersion_def split: if_splits)
      have vv: "\<not> version < 1" "\<not> 3 < version" "\<not> 3 \<le> version" "version \<noteq> 1" using big(1) by simp_all
      have rt: "mr_retired r = []" "\<not> cnt \<le> 501" using W(5) [OF v(2)] big(2) by (simp_all add: page_consts)
      show ?thesis
        using R root [OF False] False vv rt
        by (simp add: readMetaPageChecked_def storedMeta_def page_consts Let_def minMetaVersion_def metaVersion_def)
    qed
  qed
qed

end
