(* ===== verification/Metadata.thy ===== *)
theory Metadata
  imports MetaPage Integrity
begin

text \<open>
  Publishing a version of an mmap tree (\<^verbatim>\<open>syncMmap\<close>, \<^verbatim>\<open>compactMmapTail\<close> and what they call in
  \<^verbatim>\<open>pagebtree/mmap.go\<close>; \<^verbatim>\<open>Sync\<close>, \<^verbatim>\<open>Compact\<close> and \<^verbatim>\<open>Close\<close> in \<^verbatim>\<open>tree.go\<close>): chain the free and retired
  pages into metadata pages, flush the dirty pages, write the metadata record into the slot of
  the revision's parity, flush it, and hand back the metadata pages no slot refers to.

  The mapped file is the tree's pages and its two metadata pages, the list \<open>slots\<close>.  What the
  operating system answers is the parameter \<open>io\<close>: \<open>io pt\<close> says that the system calls after
  the fault point \<open>pt\<close> succeed and that no fault is injected there.
\<close>

section \<open>Fault points and flushing\<close>

datatype mmapFaultPoint =
  mmapFaultBeforeDataSync | mmapFaultAfterMetaWrite | mmapFaultBeforeMetaSync
  | mmapFaultBeforeFileSizeSync | mmapFaultBeforeDirectorySync | mmapFaultBeforeRemap

text \<open>The runs of consecutive ids in a sorted list, each flushed by one call.\<close>

fun pageRanges :: "PageID list \<Rightarrow> (PageID \<times> PageID) list" where
  "pageRanges [] = []"
| "pageRanges (i # is) =
     (case pageRanges is of
        [] \<Rightarrow> [(i, i + 1)]
      | (a, b) # rs \<Rightarrow> if a = i + 1 then (i, b) # rs else (i, i + 1) # (a, b) # rs)"

definition syncDataPages ::
  "(mmapFaultPoint \<Rightarrow> bool) \<Rightarrow> mmapArena \<Rightarrow> PageID \<Rightarrow> dbError option \<times> mmapArena \<times> (PageID \<times> PageID) list" where
  "syncDataPages io a next =
     (if ar_readOnly a \<or> next \<le> firstTreePageID \<or> dirtyPages a = {} then (None, a, [])
      else
        let ids = sorted_list_of_set {i \<in> dirtyPages a. firstTreePageID \<le> i \<and> i < next} in
        if ids = [] then (None, a\<lparr>dirtyPages := {}\<rparr>, [])
        else if \<not> io mmapFaultBeforeDataSync then (Some ErrOther, a, [])
        else if \<exists>r\<in>set (pageRanges ids). maxPages a + int metaPageCount < sint (snd r)
        then (Some ErrOther, a, [])
        else (None, a\<lparr>dirtyPages := {}\<rparr>, pageRanges ids))"

definition syncMetaPage :: "(mmapFaultPoint \<Rightarrow> bool) \<Rightarrow> mmapArena \<Rightarrow> nat \<Rightarrow> dbError option" where
  "syncMetaPage io a index =
     (if ar_readOnly a then None
      else if metaPageCount \<le> index then Some ErrOther
      else if io mmapFaultBeforeMetaSync then None else Some ErrOther)"

definition syncFileSize :: "(mmapFaultPoint \<Rightarrow> bool) \<Rightarrow> mmapArena \<Rightarrow> dbError option" where
  "syncFileSize io a =
     (if ar_readOnly a then None
      else if io mmapFaultBeforeFileSizeSync \<and> io mmapFaultBeforeDirectorySync then None
      else Some ErrOther)"

section \<open>Metadata pages\<close>

definition divideRoundUp :: "nat \<Rightarrow> nat \<Rightarrow> nat" where
  "divideRoundUp v by' = (if v = 0 then 0 else (v + by' - 1) div by')"

definition reclaimRecordsFor :: "PageID list \<Rightarrow> retiredPage list \<Rightarrow> reclaimRecord list" where
  "reclaimRecordsFor fs rs =
     map (\<lambda>i. \<lparr>rr_id = i, rr_revision = 0\<rparr>) fs @
     map (\<lambda>r. \<lparr>rr_id = rp_id r, rr_revision = rp_revision r\<rparr>) rs"

definition mmapWriterMetaVersion :: "retiredPage list \<Rightarrow> u64" where
  "mmapWriterMetaVersion rs = (if rs \<noteq> [] then metaVersion else 2)"

text \<open>
  The loop that allocates the pages of a chain at the end of the file; \<open>Inl\<close> is the state in
  which the file could not grow.
\<close>

fun allocMetaPages :: "u16 \<Rightarrow> nat \<Rightarrow> Tree \<Rightarrow> (Tree + PageID list \<times> Tree) option" where
  "allocMetaPages f 0 t = Some (Inr ([], t))"
| "allocMetaPages f (Suc n) t =
     (let i = nextPage t in
      case growMmapForPage t i of
        None \<Rightarrow> Some (Inl t)
      | Some t1 \<Rightarrow> do {
          (p, t2) \<leftarrow> treeNewPage (t1\<lparr>nextPage := nextPage t1 + 1\<rparr>) i f;
          r \<leftarrow> allocMetaPages f n (putPage t2 p);
          Some (case r of Inl u \<Rightarrow> Inl u | Inr (ids, u) \<Rightarrow> Inr (i # ids, u))
        })"

text \<open>The loop that writes the chain: \<open>cap\<close> entries to a page, each page naming the next.\<close>

fun writeMetaChain ::
  "(page \<Rightarrow> PageID \<Rightarrow> 'a list \<Rightarrow> page option) \<Rightarrow> nat \<Rightarrow> Tree \<Rightarrow> PageID list \<Rightarrow> 'a list \<Rightarrow> Tree option" where
  "writeMetaChain w cap t [] xs = Some t"
| "writeMetaChain w cap t (i # is) xs = do {
     p \<leftarrow> pages t i;
     p' \<leftarrow> w p (if is = [] then 0 else hd is) (take cap xs);
     writeMetaChain w cap (markDirty (putPage t p') i) is (drop cap xs)
   }"

definition restoreDirty :: "Tree \<Rightarrow> Tree \<Rightarrow> Tree" where
  "restoreDirty old t = t\<lparr>arena := (case (arena t, arena old) of
     (Some a, Some b) \<Rightarrow> Some (a\<lparr>dirtyPages := dirtyPages b\<rparr>) | (m, _) \<Rightarrow> m)\<rparr>"

text \<open>\<^verbatim>\<open>restore()\<close>: the pages added since \<open>old\<close> are those from its \<^verbatim>\<open>nextPage\<close> on.\<close>

definition restoreMetaPages :: "Tree \<Rightarrow> PageID set \<Rightarrow> Tree \<Rightarrow> Tree" where
  "restoreMetaPages old added t = restoreDirty old
     (t\<lparr>nextPage := nextPage old, metaFreelistRoot := metaFreelistRoot old,
        metaFreelistPages := metaFreelistPages old,
        pages := (\<lambda>i. if i \<in> added then None else pages t i)\<rparr>)"

definition addedSince :: "Tree \<Rightarrow> Tree \<Rightarrow> PageID set" where
  "addedSince old t = {nextPage old..<nextPage t}"

text \<open>The chain for one kind of entry; the two callers differ in the writer and the flag.\<close>

definition prepareChain ::
  "u16 \<Rightarrow> (page \<Rightarrow> PageID \<Rightarrow> 'a list \<Rightarrow> page option) \<Rightarrow> nat \<Rightarrow> 'a list \<Rightarrow> Tree \<Rightarrow> (Tree + Tree) option" where
  "prepareChain f w cap xs t = do {
     r \<leftarrow> allocMetaPages f (divideRoundUp (length xs) cap) t;
     (case r of
        Inl u \<Rightarrow> Some (Inl (restoreMetaPages t (addedSince t u) u))
      | Inr (ids, u) \<Rightarrow> do {
          u' \<leftarrow> writeMetaChain w cap u ids xs;
          check (ids \<noteq> []);
          Some (Inr (u'\<lparr>metaFreelistRoot := hd ids, metaFreelistPages := ids\<rparr>))
        })
   }"

definition prepareMetaFreePages :: "Tree \<Rightarrow> (Tree + Tree) option" where
  "prepareMetaFreePages t =
     (if length (free t) \<le> maxMetaFreePages
      then Some (Inr (t\<lparr>metaFreelistRoot := 0, metaFreelistPages := []\<rparr>))
      else prepareChain flagFreelist writeFreelistPage freelistPageCapacity (free t) t)"

definition prepareMetaFreelistPages :: "Tree \<Rightarrow> (Tree + Tree) option" where
  "prepareMetaFreelistPages t =
     (if retired t = [] then prepareMetaFreePages t
      else prepareChain flagReclaim writeReclaimPage reclaimPageCapacity
             (reclaimRecordsFor (free t) (retired t)) t)"

section \<open>The metadata slots\<close>

definition metaSlot :: "u64 \<Rightarrow> nat" where
  "metaSlot n = unat (n mod of_nat metaPageCount)"

definition metaRecordOf :: "Tree \<Rightarrow> mmapArena \<Rightarrow> metaRecord" where
  "metaRecordOf t a =
     \<lparr>mr_version = mmapWriterMetaVersion (retired t), mr_root = root t, mr_nextPage = nextPage t,
      mr_length = treeLen t, mr_revision = revision t, mr_degree = int (degree t),
      mr_keyOrder = keyOrder t, mr_maxPages = maxPages a, mr_free = free t, mr_retired = retired t,
      mr_freeCount = 0, mr_freeRoot = metaFreelistRoot t, mr_freelistPages = []\<rparr>"

definition persistMeta :: "Tree \<Rightarrow> bytes list \<Rightarrow> (dbError + bytes list) option" where
  "persistMeta t slots =
     (case arena t of
        None \<Rightarrow> Some (Inr slots)
      | Some a \<Rightarrow>
          if ar_readOnly a then Some (Inr slots)
          else do {
            let index = metaSlot (revision t);
            r \<leftarrow> writeMetaPage (slots ! index) (metaRecordOf t a);
            Some (case r of Inl e \<Rightarrow> Inl e | Inr d \<Rightarrow> Inr (slots[index := d]))
          })"

text \<open>On every error the bytes of the slot are put back.\<close>

definition publishMeta ::
  "(mmapFaultPoint \<Rightarrow> bool) \<Rightarrow> Tree \<Rightarrow> bytes list \<Rightarrow> (dbError option \<times> bytes list) option" where
  "publishMeta io t slots =
     (case arena t of
        None \<Rightarrow> Some (None, slots)
      | Some a \<Rightarrow>
          if ar_readOnly a then Some (None, slots)
          else do {
            let index = metaSlot (revision t);
            let previous = slots ! index;
            r \<leftarrow> persistMeta t slots;
            Some (case r of
                Inl e \<Rightarrow> (Some e, slots[index := previous])
              | Inr slots' \<Rightarrow>
                  if \<not> io mmapFaultAfterMetaWrite then (Some ErrOther, slots'[index := previous])
                  else (case syncMetaPage io a index of
                      Some e \<Rightarrow> (Some e, slots'[index := previous])
                    | None \<Rightarrow> (None, slots')))
          })"

section \<open>Obsolete metadata pages\<close>

definition isMetadataReclaimPage :: "page \<Rightarrow> bool option" where
  "isMetadataReclaimPage p =
     (if \<not> validChecksum p then Some False
      else do {
        v \<leftarrow> validateLayout p;
        Some (v = None \<and> (flags p = flagFreelist \<or> flags p = flagReclaim))
      })"

partial_function (option) collectFreelistChainLenient ::
  "pagemap \<Rightarrow> PageID \<Rightarrow> PageID set \<Rightarrow> PageID set option" where
  "collectFreelistChainLenient pgs i seen =
     (if i = 0 \<or> i \<in> seen then Some seen
      else (case pgs i of
          None \<Rightarrow> Some (insert i seen)
        | Some p \<Rightarrow>
            if \<not> validChecksum p then Some (insert i seen)
            else do {
              v \<leftarrow> validateLayout p;
              (if v \<noteq> None then Some (insert i seen)
               else if flags p = flagFreelist then collectFreelistChainLenient pgs (freelistNext p) (insert i seen)
               else if flags p = flagReclaim then collectFreelistChainLenient pgs (reclaimNext p) (insert i seen)
               else Some (insert i seen))
            }))"

fun referencedPages :: "pagemap \<Rightarrow> bytes list \<Rightarrow> PageID set option" where
  "referencedPages pgs [] = Some {}"
| "referencedPages pgs (d # ds) = do {
     r \<leftarrow> readMetaPageChecked d;
     here \<leftarrow> (case r of
         Inr (Some m) \<Rightarrow> if mr_freeRoot m = 0 then Some {} else collectFreelistChainLenient pgs (mr_freeRoot m) {}
       | _ \<Rightarrow> Some {});
     rest \<leftarrow> referencedPages pgs ds;
     Some (here \<union> rest)
   }"

text \<open>
  The loop over the page map, whose order Go leaves open: \<open>ord\<close> lists the ids of the map in
  the order of one iteration.
\<close>

fun appendObsolete :: "pagemap \<Rightarrow> PageID set \<Rightarrow> PageID list \<Rightarrow> PageID list \<Rightarrow> PageID list option" where
  "appendObsolete pgs referenced fs [] = Some fs"
| "appendObsolete pgs referenced fs (i # is) =
     (case pgs i of
        None \<Rightarrow> appendObsolete pgs referenced fs is
      | Some p \<Rightarrow>
          if i < firstTreePageID then appendObsolete pgs referenced fs is
          else do {
            m \<leftarrow> isMetadataReclaimPage p;
            appendObsolete pgs referenced
              (if \<not> m \<or> i \<in> referenced \<or> i \<in> set fs then fs else fs @ [i]) is
          })"

definition reclaimObsoleteMetaFreelistPages :: "PageID list \<Rightarrow> bytes list \<Rightarrow> Tree \<Rightarrow> Tree option" where
  "reclaimObsoleteMetaFreelistPages ord slots t =
     (case arena t of
        None \<Rightarrow> Some t
      | Some a \<Rightarrow> do {
          referenced \<leftarrow> referencedPages (pages t) slots;
          free' \<leftarrow> appendObsolete (pages t) (referenced \<union> set (metaFreelistPages t)) (free t) ord;
          Some (t\<lparr>free := free'\<rparr>)
        })"

section \<open>Sync\<close>

text \<open>The result is the error, the tree and the metadata slots.\<close>

definition syncMmap ::
  "(mmapFaultPoint \<Rightarrow> bool) \<Rightarrow> PageID list \<Rightarrow> Tree \<Rightarrow> bytes list \<Rightarrow>
     (dbError option \<times> Tree \<times> bytes list) option" where
  "syncMmap io ord t slots =
     (case arena t of
        None \<Rightarrow> Some (None, t, slots)
      | Some a0 \<Rightarrow>
          if ar_readOnly a0 then Some (None, t, slots)
          else do {
            let oldRevision = revision t;
            let t1 = (if metadataUpgradePending t \<and> revision t = syncedRevision t
                      then t\<lparr>revision := revision t + 1\<rparr> else t);
            prep \<leftarrow> prepareMetaFreelistPages t1;
            (case prep of
               Inl t2 \<Rightarrow> Some (Some ErrOther, t2\<lparr>revision := oldRevision\<rparr>, slots)
             | Inr t2 \<Rightarrow> do {
                 a2 \<leftarrow> arena t2;
                 let restore = (\<lambda>u. (restoreMetaPages t1 (addedSince t1 t2) u)\<lparr>revision := oldRevision\<rparr>);
                 (case syncDataPages io a2 (nextPage t2) of
                    (Some e, _, _) \<Rightarrow> Some (Some e, restore t2, slots)
                  | (None, a3, _) \<Rightarrow> do {
                      let t3 = t2\<lparr>arena := Some a3\<rparr>;
                      (err, slots') \<leftarrow> publishMeta io t3 slots;
                      (case err of
                         Some e \<Rightarrow> Some (Some e, restore t3, slots')
                       | None \<Rightarrow> do {
                           t4 \<leftarrow> reclaimObsoleteMetaFreelistPages ord slots' (t3\<lparr>metadataUpgradePending := False\<rparr>);
                           Some (None, t4, slots')
                         })
                    })
               })
          })"

definition Sync ::
  "(mmapFaultPoint \<Rightarrow> bool) \<Rightarrow> PageID list \<Rightarrow> Tree \<Rightarrow> bytes list \<Rightarrow>
     (dbError option \<times> Tree \<times> bytes list) option" where
  "Sync io ord t slots =
     (if closed t \<or> readOnly t then Some (None, t, slots)
      else do {
        (err, t', slots') \<leftarrow>
          (if arena t = None
           then map_option (\<lambda>r. case r of Inl e \<Rightarrow> (Some e, t, slots) | Inr s \<Rightarrow> (None, t, s)) (persistMeta t slots)
           else syncMmap io ord t slots);
        Some (if err \<noteq> None then (err, t', slots')
              else (None, t'\<lparr>syncedRevision := revision t'\<rparr>, slots'))
      })"

section \<open>Compact and Close\<close>

function trailingFreeLoop :: "PageID set \<Rightarrow> PageID \<Rightarrow> PageID" where
  "trailingFreeLoop fs next =
     (if firstTreePageID < next \<and> next - 1 \<in> fs then trailingFreeLoop fs (next - 1) else next)"
  by pat_completeness auto
termination
proof (relation "measure (\<lambda>(fs, next). unat next)")
  fix fs :: "PageID set" and n :: PageID
  assume "firstTreePageID < n \<and> n - 1 \<in> fs"
  then have "n \<noteq> 0" by auto
  then have "unat (n - 1) < unat n" by (rule measure_unat)
  then show "((fs, n - 1), fs, n) \<in> measure (\<lambda>(fs, next). unat next)" by simp
qed simp

declare trailingFreeLoop.simps [simp del]

definition trailingFreeNextPage :: "Tree \<Rightarrow> PageID" where
  "trailingFreeNextPage t = trailingFreeLoop (set (free t)) (nextPage t)"

definition removeFreePagesAtOrAbove :: "PageID \<Rightarrow> Tree \<Rightarrow> Tree" where
  "removeFreePagesAtOrAbove limit t = t\<lparr>free := filter (\<lambda>i. i < limit) (free t)\<rparr>"

text \<open>A page outside the new mapping cannot be bound to its bytes.\<close>

definition rebindMmapPages :: "Tree \<Rightarrow> mmapArena \<Rightarrow> dbError option" where
  "rebindMmapPages t a =
     (if \<exists>i. pages t i \<noteq> None \<and> \<not> pageBytesOk a i then Some ErrOther else None)"

definition shrinkMmap ::
  "(mmapFaultPoint \<Rightarrow> bool) \<Rightarrow> Tree \<Rightarrow> mmapArena \<Rightarrow> int \<Rightarrow> dbError option \<times> Tree" where
  "shrinkMmap io t a newMax =
     (if syncFileSize io a \<noteq> None \<or> \<not> io mmapFaultBeforeRemap then (Some ErrOther, t)
      else let a' = a\<lparr>maxPages := newMax\<rparr> in
        (rebindMmapPages t a', t\<lparr>arena := Some a'\<rparr>))"

text \<open>\<^verbatim>\<open>restoreState()\<close> of \<^verbatim>\<open>compactMmapTail\<close>: the trimmed pages come back.\<close>

definition restoreCompact :: "Tree \<Rightarrow> mmapArena \<Rightarrow> PageID \<Rightarrow> Tree \<Rightarrow> Tree" where
  "restoreCompact old a limit t =
     t\<lparr>nextPage := nextPage old, free := free old, metaFreelistRoot := metaFreelistRoot old,
       metaFreelistPages := metaFreelistPages old,
       arena := map_option (\<lambda>b. b\<lparr>maxPages := maxPages a, dirtyPages := dirtyPages a\<rparr>) (arena t),
       pages := (\<lambda>i. if limit \<le> i \<and> pages old i \<noteq> None then pages old i else pages t i)\<rparr>"

definition compactMmapTail ::
  "(mmapFaultPoint \<Rightarrow> bool) \<Rightarrow> PageID list \<Rightarrow> Tree \<Rightarrow> bytes list \<Rightarrow>
     (dbError option \<times> Tree \<times> bytes list) option" where
  "compactMmapTail io ord t slots =
     (case arena t of
        None \<Rightarrow> Some (None, t, slots)
      | Some a \<Rightarrow>
          let limit = trailingFreeNextPage t;
              newMax = max (sint (limit - firstTreePageID)) minMmapPageCount;
              oldMax = maxPages a in
          if ar_readOnly a \<or> limit = nextPage t \<and> oldMax \<le> newMax then Some (None, t, slots)
          else do {
            let t1 = (removeFreePagesAtOrAbove limit t)
              \<lparr>pages := (\<lambda>i. if limit \<le> i then None else pages t i), nextPage := limit,
               arena := Some (a\<lparr>maxPages := newMax, dirtyPages := {i \<in> dirtyPages a. i < limit}\<rparr>)\<rparr>;
            prep \<leftarrow> prepareMetaFreelistPages t1;
            (case prep of
               Inl t2 \<Rightarrow> Some (Some ErrOther, restoreCompact t a limit t2, slots)
             | Inr t2 \<Rightarrow> do {
                 a2 \<leftarrow> arena t2;
                 let restore = (\<lambda>u. restoreCompact t a limit (restoreMetaPages t1 (addedSince t1 t2) u));
                 (case syncDataPages io a2 (nextPage t2) of
                    (Some e, _, _) \<Rightarrow> Some (Some e, restore t2, slots)
                  | (None, a3, _) \<Rightarrow> do {
                      let t3 = t2\<lparr>arena := Some a3\<rparr>;
                      (err, slots') \<leftarrow> publishMeta io t3 slots;
                      (case err of
                         Some e \<Rightarrow> Some (Some e, restore t3, slots')
                       | None \<Rightarrow> do {
                           t4 \<leftarrow> reclaimObsoleteMetaFreelistPages ord slots' t3;
                           (if oldMax \<le> newMax then Some (None, t4, slots')
                            else
                              let (err, t5) = shrinkMmap io t4 a3 newMax in
                              Some (err, t5, slots'))
                         })
                    })
               })
          })"

definition Compact ::
  "(mmapFaultPoint \<Rightarrow> bool) \<Rightarrow> PageID list \<Rightarrow> Tree \<Rightarrow> bytes list \<Rightarrow>
     (dbError option \<times> Tree \<times> bytes list) option" where
  "Compact io ord t slots =
     (if closed t \<or> readOnly t \<or> snd (oldestReaderRevision t) then Some (None, t, slots)
      else compactMmapTail io ord (reclaimRetiredPages t) slots)"

text \<open>\<open>released\<close> says whether the mapping, the locks and the file could be closed.\<close>

definition treeClose ::
  "(mmapFaultPoint \<Rightarrow> bool) \<Rightarrow> bool \<Rightarrow> PageID list \<Rightarrow> Tree \<Rightarrow> bytes list \<Rightarrow>
     (dbError option \<times> Tree \<times> bytes list) option" where
  "treeClose io released ord t slots =
     (if closed t then Some (None, t, slots)
      else if arena t \<noteq> None \<and> 0 < activeReaderCount t then Some (Some ErrActiveReaders, t, slots)
      else do {
        let t1 = (if arena t \<noteq> None \<and> \<not> readOnly t then reclaimRetiredPages t else t);
        (err, t2, slots') \<leftarrow> (if readOnly t1 then Some (None, t1, slots) else Sync io ord t1 slots);
        Some (case err of
            Some e \<Rightarrow>
              if arena t2 = None then (Some e, t2, slots')
              else (Some e, (if released then t2\<lparr>closed := True\<rparr> else t2), slots')
          | None \<Rightarrow>
              (if arena t2 = None \<or> released then None else Some ErrOther, t2\<lparr>closed := True\<rparr>, slots'))
      })"

end
