(* ===== verification/Recovery.thy ===== *)
theory Recovery
  imports Metadata
begin

text \<open>
  Recovery of an mmap tree (\<^verbatim>\<open>loadMeta\<close> and what it calls in \<^verbatim>\<open>pagebtree/mmap.go\<close>): read the two
  metadata slots, keep the records that pass the checks that need no pages, and take the
  newest one whose pages, free list, retired list, leaf links and key count validate.

  The mapped bytes are \<open>img\<close>, the bytes of each page id, and the two metadata slots.
\<close>

section \<open>Errors of rejected slots\<close>

text \<open>\<^verbatim>\<open>(lastMetaErr, lastMetaErrRevision, lastMetaErrHasRevision)\<close>\<close>

type_synonym metaErr = "dbError option \<times> u64 \<times> bool"

definition trustedMetaRevision :: "bytes \<Rightarrow> u64 option" where
  "trustedMetaRevision d =
     (if length d < PageSize \<or> isZeroPage (take PageSize d) then None
      else if slice d metaMagicOffset (length metaMagic) \<noteq> metaMagic then None
      else Some (getU64 d metaRevisionOff))"

definition newestMetaErrorForRevision :: "metaErr \<Rightarrow> dbError \<Rightarrow> u64 \<Rightarrow> metaErr" where
  "newestMetaErrorForRevision current err nextRevision =
     (case current of (e, r, hasRevision) \<Rightarrow>
        if e = None \<or> \<not> hasRevision \<or> r < nextRevision then (Some err, nextRevision, True) else current)"

definition newestMetaError :: "metaErr \<Rightarrow> dbError \<Rightarrow> bytes \<Rightarrow> metaErr" where
  "newestMetaError current err d =
     (case trustedMetaRevision d of
        Some r \<Rightarrow> newestMetaErrorForRevision current err r
      | None \<Rightarrow> if fst current = None then (Some err, 0, False) else current)"

section \<open>Checks of a record\<close>

definition validateMetaSlot :: "metaRecord \<Rightarrow> nat \<Rightarrow> dbError option" where
  "validateMetaSlot r index = (if metaSlot (mr_revision r) \<noteq> index then Some ErrMetaInvariant else None)"

text \<open>\<open>requested\<close> is \<^verbatim>\<open>t.requestedKeyOrder\<close>, 0 when the caller asked for no order.\<close>

definition validateMetaKeyOrder :: "KeyOrder \<Rightarrow> metaRecord \<Rightarrow> dbError option" where
  "validateMetaKeyOrder requested r =
     (if requested \<noteq> 0 \<and> mr_keyOrder r \<noteq> requested then Some ErrMetaInvariant else None)"

definition maxOwnedPage :: "int \<Rightarrow> PageID" where
  "maxOwnedPage n = firstTreePageID + word_of_int n"

definition validateMetaBounds :: "mmapArena \<Rightarrow> metaRecord \<Rightarrow> dbError option" where
  "validateMetaBounds a r =
     (let mappedNextPage = (word_of_int (maxPages a + int metaPageCount) :: PageID) in
      if mr_maxPages r < minMmapPageCount then Some ErrMetaInvariant
      else if maxOwnedPage (mr_maxPages r) < mr_nextPage r then Some ErrMetaInvariant
      else if mr_nextPage r < firstTreePageID then Some ErrMetaInvariant
      else if mappedNextPage < mr_nextPage r then Some ErrMetaInvariant
      else if mr_root r \<noteq> 0 \<and> (mr_root r < firstTreePageID \<or> mr_nextPage r \<le> mr_root r)
      then Some ErrMetaInvariant
      else None)"

definition validatePersistedDegree :: "int \<Rightarrow> dbError option" where
  "validatePersistedDegree d =
     (if d < 2 then Some ErrMetaInvariant
      else if int maxPageDegree < d then Some ErrMetaInvariant
      else None)"

definition validateMetaInvariants :: "Tree \<Rightarrow> mmapArena \<Rightarrow> metaRecord \<Rightarrow> dbError option option" where
  "validateMetaInvariants t a r =
     (if validateMetaBounds a r \<noteq> None then Some (validateMetaBounds a r)
      else if mr_length r < 0 then Some (Some ErrMetaInvariant)
      else if validatePersistedDegree (mr_degree r) \<noteq> None then Some (validatePersistedDegree (mr_degree r))
      else do {
        (keyCount, _) \<leftarrow> countReachableKeys (pages t) (root t) {};
        Some (if keyCount \<noteq> mr_length r then Some ErrMetaInvariant else None)
      })"

text \<open>
  \<open>claimed\<close> grows with every id, as the Go map \<^verbatim>\<open>reachable\<close> does, so an id of the free list
  that appears twice is also refused as reachable.
\<close>

fun validateFreelist :: "Tree \<Rightarrow> int \<Rightarrow> PageID set \<Rightarrow> PageID list \<Rightarrow> PageID set \<times> dbError option" where
  "validateFreelist t maxP claimed [] = (claimed, None)"
| "validateFreelist t maxP claimed (i # is) =
     (if maxOwnedPage maxP \<le> i \<or> i < firstTreePageID \<or> nextPage t \<le> i \<or> i \<in> claimed
      then (claimed, Some ErrFreelist)
      else validateFreelist t maxP (insert i claimed) is)"

fun validateRetiredPages ::
  "Tree \<Rightarrow> u64 \<Rightarrow> int \<Rightarrow> PageID set \<Rightarrow> retiredPage list \<Rightarrow> PageID set \<times> dbError option" where
  "validateRetiredPages t n maxP claimed [] = (claimed, None)"
| "validateRetiredPages t n maxP claimed (r # rs) =
     (if rp_revision r = 0 \<or> n < rp_revision r \<or> maxOwnedPage maxP \<le> rp_id r \<or>
         rp_id r < firstTreePageID \<or> nextPage t \<le> rp_id r \<or> rp_id r \<in> claimed
      then (claimed, Some ErrFreelist)
      else validateRetiredPages t n maxP (insert (rp_id r) claimed) rs)"

section \<open>Resolving the chains\<close>

text \<open>
  One page of a chain: its checks, in the order of the code, then its entries and the next id.
\<close>

definition chainPage ::
  "u16 \<Rightarrow> (page \<Rightarrow> 'a list option) \<Rightarrow> metaRecord \<Rightarrow> pagemap \<Rightarrow> PageID set \<Rightarrow> PageID \<Rightarrow>
     (dbError + 'a list \<times> PageID) option" where
  "chainPage f entries r pgs seen i =
     (if i < firstTreePageID \<or> mr_nextPage r \<le> i \<or> maxOwnedPage (mr_maxPages r) \<le> i
      then Some (Inl ErrFreelist)
      else if i \<in> seen then Some (Inl ErrFreelist)
      else case pgs i of
        None \<Rightarrow> Some (Inl ErrFreelist)
      | Some p \<Rightarrow>
          if \<not> validChecksum p then Some (Inl ErrPageChecksum)
          else do {
            v \<leftarrow> validateLayout p;
            (case v of
               Some e \<Rightarrow> Some (Inl e)
             | None \<Rightarrow>
                 if flags p \<noteq> f then Some (Inl ErrFreelist)
                 else if slotCount p = 0 then Some (Inl ErrFreelist)
                 else do { xs \<leftarrow> entries p; Some (Inr (xs, leftmostChild p)) })
          })"

text \<open>
  The loop over a chain.  A page that brings the number of entries above the count of the
  record is refused; at the end the numbers must agree.
\<close>

partial_function (option) chainLoop ::
  "u16 \<Rightarrow> (page \<Rightarrow> 'a list option) \<Rightarrow> metaRecord \<Rightarrow> pagemap \<Rightarrow> PageID list \<Rightarrow> 'a list \<Rightarrow> PageID \<Rightarrow>
     (dbError + 'a list \<times> PageID list) option" where
  "chainLoop f entries r pgs done xs i =
     (if i = 0 then
        Some (if int (length xs) \<noteq> mr_freeCount r then Inl ErrFreelist else Inr (xs, done))
      else do {
        c \<leftarrow> chainPage f entries r pgs (set done) i;
        (case c of
           Inl e \<Rightarrow> Some (Inl e)
         | Inr (ys, nxt) \<Rightarrow>
             if mr_freeCount r < int (length (xs @ ys)) then Some (Inl ErrFreelist)
             else chainLoop f entries r pgs (done @ [i]) (xs @ ys) nxt)
      })"

text \<open>\<^verbatim>\<open>make\<close> panics on a negative capacity.\<close>

definition resolveMetaReclaim :: "pagemap \<Rightarrow> metaRecord \<Rightarrow> (dbError + metaRecord) option" where
  "resolveMetaReclaim pgs r = do {
     check (0 \<le> mr_freeCount r);
     c \<leftarrow> chainLoop flagReclaim reclaimRecords r pgs [] [] (mr_freeRoot r);
     Some (case c of
         Inl e \<Rightarrow> Inl e
       | Inr (xs, ids) \<Rightarrow> Inr (r\<lparr>
           mr_free := map rr_id (filter (\<lambda>x. rr_revision x = 0) xs),
           mr_retired := map (\<lambda>x. \<lparr>rp_id = rr_id x, rp_revision = rr_revision x\<rparr>)
                           (filter (\<lambda>x. rr_revision x \<noteq> 0) xs),
           mr_freelistPages := ids\<rparr>))
   }"

definition resolveMetaFreelist :: "pagemap \<Rightarrow> metaRecord \<Rightarrow> (dbError + metaRecord) option" where
  "resolveMetaFreelist pgs r =
     (if mr_freeRoot r = 0 then Some (Inr (r\<lparr>mr_freelistPages := []\<rparr>))
      else if 3 \<le> mr_version r then resolveMetaReclaim pgs r
      else do {
        check (0 \<le> mr_freeCount r);
        c \<leftarrow> chainLoop flagFreelist freelistIDs r pgs [] [] (mr_freeRoot r);
        Some (case c of
            Inl e \<Rightarrow> Inl e
          | Inr (xs, ids) \<Rightarrow> Inr (r\<lparr>mr_free := xs, mr_freelistPages := ids\<rparr>))
      })"

section \<open>The candidates\<close>

text \<open>The loop over the slots: the records kept and the error of the newest rejected slot.\<close>

fun scanSlots ::
  "KeyOrder \<Rightarrow> mmapArena \<Rightarrow> nat \<Rightarrow> bytes list \<Rightarrow> metaErr \<Rightarrow> (metaRecord list \<times> metaErr) option" where
  "scanSlots requested a index [] err = Some ([], err)"
| "scanSlots requested a index (d # ds) err = do {
     c \<leftarrow> readMetaPageChecked d;
     (case c of
        Inl e \<Rightarrow> scanSlots requested a (Suc index) ds (newestMetaError err e d)
      | Inr None \<Rightarrow> scanSlots requested a (Suc index) ds err
      | Inr (Some r) \<Rightarrow>
          (case (validateMetaSlot r index, validateMetaKeyOrder requested r, validateMetaBounds a r) of
             (Some e, _, _) \<Rightarrow>
               scanSlots requested a (Suc index) ds (newestMetaErrorForRevision err e (mr_revision r))
           | (None, Some e, _) \<Rightarrow>
               scanSlots requested a (Suc index) ds (newestMetaErrorForRevision err e (mr_revision r))
           | (None, None, Some e) \<Rightarrow>
               scanSlots requested a (Suc index) ds (newestMetaErrorForRevision err e (mr_revision r))
           | (None, None, None) \<Rightarrow> do {
               (rs, err') \<leftarrow> scanSlots requested a (Suc index) ds err;
               Some (r # rs, err')
             }))
   }"

definition applyMetaRecord :: "Tree \<Rightarrow> metaRecord \<Rightarrow> Tree" where
  "applyMetaRecord t r =
     t\<lparr>root := mr_root r,
       nextPage := (if mr_nextPage r < firstTreePageID then firstTreePageID else mr_nextPage r),
       treeLen := mr_length r, revision := mr_revision r, syncedRevision := mr_revision r,
       degree := normalizeDegree (mr_degree r), keyOrder := mr_keyOrder r,
       keyComparator := Some (keyComparatorForOrder (mr_keyOrder r)), customComparator := False,
       free := [], retired := [], metaFreelistRoot := 0, metaFreelistPages := []\<rparr>"

definition mappedPages :: "(PageID \<Rightarrow> bytes) \<Rightarrow> PageID \<Rightarrow> pagemap" where
  "mappedPages img limit i =
     (if firstTreePageID \<le> i \<and> i < limit then Some \<lparr>pid = i, data = img i\<rparr> else None)"

text \<open>One candidate: \<open>Inl\<close> is the error that rejects it.\<close>

definition tryCandidate :: "mmapArena \<Rightarrow> Tree \<Rightarrow> metaRecord \<Rightarrow> (dbError + Tree) option" where
  "tryCandidate a t0 r0 = do {
     let t = applyMetaRecord t0 r0;
     res \<leftarrow> resolveMetaFreelist (pages t) r0;
     (case res of
        Inl e \<Rightarrow> Some (Inl e)
      | Inr r \<Rightarrow> do {
          (reachable, err) \<leftarrow> validateReachablePages t;
          (case err of
             Some e \<Rightarrow> Some (Inl e)
           | None \<Rightarrow>
               if set (mr_freelistPages r) \<inter> reachable \<noteq> {} \<or> \<not> distinct (mr_freelistPages r)
               then Some (Inl ErrFreelist)
               else
                 let owned = reachable \<union> set (mr_freelistPages r);
                     (claimed, err1) = validateFreelist t (mr_maxPages r) owned (mr_free r);
                     (claimed2, err2) = validateRetiredPages t (mr_revision r) (mr_maxPages r) claimed (mr_retired r) in
                 if err1 \<noteq> None then Some (Inl (the err1))
                 else if err2 \<noteq> None then Some (Inl (the err2))
                 else do {
                   links \<leftarrow> validateLeafLinks t;
                   (case links of
                      Some e \<Rightarrow> Some (Inl e)
                    | None \<Rightarrow> do {
                        inv \<leftarrow> validateMetaInvariants t a r;
                        Some (case inv of
                            Some e \<Rightarrow> Inl e
                          | None \<Rightarrow> Inr (t\<lparr>free := mr_free r, retired := mr_retired r,
                              metaFreelistRoot := mr_freeRoot r, metaFreelistPages := mr_freelistPages r,
                              metadataUpgradePending :=
                                (mr_version r < mmapWriterMetaVersion (mr_retired r))\<rparr>))
                      })
                 })
        })
   }"

text \<open>The loop over the candidates; \<open>first\<close> is the error of the newest one.\<close>

fun tryCandidates ::
  "mmapArena \<Rightarrow> Tree \<Rightarrow> dbError option \<Rightarrow> metaRecord list \<Rightarrow> (dbError + Tree) option" where
  "tryCandidates a t first [] = Some (Inl (case first of Some e \<Rightarrow> e | None \<Rightarrow> ErrOther))"
| "tryCandidates a t first (r # rs) = do {
     c \<leftarrow> tryCandidate a t r;
     (case c of
        Inl e \<Rightarrow> tryCandidates a t (if first = None then Some e else first) rs
      | Inr t' \<Rightarrow> Some (Inr t'))
   }"

definition newestFirst :: "metaRecord list \<Rightarrow> metaRecord list" where
  "newestFirst rs = sort_key (\<lambda>r. - uint (mr_revision r)) rs"

definition loadMeta ::
  "(PageID \<Rightarrow> bytes) \<Rightarrow> bytes list \<Rightarrow> KeyOrder \<Rightarrow> PageID list \<Rightarrow> Tree \<Rightarrow> mmapArena \<Rightarrow>
     (dbError + Tree) option" where
  "loadMeta img slots requested ord t a = do {
     (records, err) \<leftarrow> scanSlots requested a 0 slots (None, 0, False);
     (if records = [] then Some (Inl (case fst err of Some e \<Rightarrow> e | None \<Rightarrow> ErrOther))
      else
        let maxNext = Max (set (firstTreePageID # map mr_nextPage records));
            t1 = t\<lparr>pages := mappedPages img maxNext\<rparr> in do {
        c \<leftarrow> tryCandidates a t1 None (newestFirst records);
        (case c of
           Inl e \<Rightarrow> Some (Inl e)
         | Inr t2 \<Rightarrow> map_option Inr (reclaimObsoleteMetaFreelistPages ord slots t2))
      })
   }"

section \<open>Opening a file\<close>

record MmapOptions =
  mo_Degree :: int
  mo_MaxPages :: int
  mo_KeyOrder :: KeyOrder
  mo_KeyComparator :: "comparator option"
  mo_PageCacheCapacity :: int
  mo_RangePrefetchLeafWindow :: int
  mo_MinRepairPageFillPercent :: int

definition validateExistingMmapFileSize :: "int \<Rightarrow> dbError option" where
  "validateExistingMmapFileSize n =
     (if n mod int PageSize \<noteq> 0 then Some ErrOther
      else if n < (int metaPageCount + minMmapPageCount) * int PageSize then Some ErrMetaInvariant
      else None)"

definition mmapTree :: "MmapOptions \<Rightarrow> KeyOrder \<Rightarrow> mmapArena \<Rightarrow> Tree" where
  "mmapTree opts order a =
     \<lparr>pages = Map.empty, root = 0, nextPage = firstTreePageID, treeLen = 0, revision = 0,
      syncedRevision = 0, degree = normalizeDegree (mo_Degree opts), keyOrder = order,
      keyComparator = Some (keyComparatorForOrder order), customComparator = False,
      activeReaders = [], retired = [], free = [], metaFreelistRoot = 0, metaFreelistPages = [],
      metadataUpgradePending = False, reusedPages = 0, arena = Some a, closed = False,
      readOnly = False, treeCache = newPageCache (mo_PageCacheCapacity opts),
      rangePrefetchLeafWindow = normalizeRangePrefetchLeafWindow (mo_RangePrefetchLeafWindow opts),
      minRepairPageFillPercent = normalizeMinRepairPageFillPercent (mo_MinRepairPageFillPercent opts),
      rangePrefetchHints = 0, rangePrefetchPages = 0, mmapWarmupHints = 0, mmapWarmupPages = 0\<rparr>"

text \<open>
  \<open>fsize\<close> is the size of the file, \<open>img\<close> and \<open>slots\<close> are its bytes (zeros where the file was
  extended), \<open>grow\<close> and \<open>readers\<close> what the system will answer to growth and to reader-table
  scans.  The locks, the mapping and the two validations of the reader table succeed.
\<close>

definition OpenMmap ::
  "(mmapFaultPoint \<Rightarrow> bool) \<Rightarrow> (int \<Rightarrow> bool) \<Rightarrow> (u64 \<Rightarrow> (u64 \<times> bool) option) \<Rightarrow> MmapOptions \<Rightarrow>
     int \<Rightarrow> (PageID \<Rightarrow> bytes) \<Rightarrow> bytes list \<Rightarrow> PageID list \<Rightarrow> (dbError + Tree \<times> bytes list) option" where
  "OpenMmap io grow readers opts fsize img slots ord =
     (if mo_KeyComparator opts \<noteq> None then Some (Inl ErrMetaInvariant)
      else case validateMmapKeyOrder (mo_KeyOrder opts) of
        Inl e \<Rightarrow> Some (Inl e)
      | Inr order \<Rightarrow>
          let requested = (if mo_KeyOrder opts \<noteq> 0 then order else 0) in
          if 0 < fsize \<and> validateExistingMmapFileSize fsize \<noteq> None
          then Some (Inl (the (validateExistingMmapFileSize fsize)))
          else
            let maxP = (if 0 < fsize then fsize div int PageSize - int metaPageCount
                        else if mo_MaxPages opts < minMmapPageCount then 1024 else mo_MaxPages opts);
                a = \<lparr>maxPages = maxP, ar_readOnly = False, dirtyPages = {}, os_grow = grow,
                     readerTable = Some readers\<rparr>;
                t = mmapTree opts order a in
            if 0 < fsize then
              map_option (\<lambda>c. case c of Inl e \<Rightarrow> Inl e | Inr u \<Rightarrow> Inr (u, slots))
                (loadMeta img slots requested ord t a)
            else do {
              (err, t', slots') \<leftarrow> Sync io ord t slots;
              Some (case err of Some e \<Rightarrow> Inl e | None \<Rightarrow> Inr (t', slots'))
            })"

definition OpenMmapReadOnly ::
  "(u64 \<Rightarrow> (u64 \<times> bool) option) \<Rightarrow> int \<Rightarrow> (PageID \<Rightarrow> bytes) \<Rightarrow> bytes list \<Rightarrow> PageID list \<Rightarrow>
     (dbError + Tree) option" where
  "OpenMmapReadOnly readers fsize img slots ord =
     (if validateExistingMmapFileSize fsize \<noteq> None
      then Some (Inl (the (validateExistingMmapFileSize fsize)))
      else
        let a = \<lparr>maxPages = fsize div int PageSize - int metaPageCount, ar_readOnly = True,
                 dirtyPages = {}, os_grow = (\<lambda>_. False), readerTable = Some readers\<rparr>;
            t = (mmapTree \<lparr>mo_Degree = 0, mo_MaxPages = 0, mo_KeyOrder = 0, mo_KeyComparator = None,
                   mo_PageCacheCapacity = DefaultPageCacheCapacity,
                   mo_RangePrefetchLeafWindow = DefaultRangePrefetchLeafWindow,
                   mo_MinRepairPageFillPercent = DefaultMinRepairPageFillPercent\<rparr> KeyOrderBytewise a)
                \<lparr>degree := 0, readOnly := True\<rparr>
        in loadMeta img slots 0 ord t a)"

end
