(* ===== verification/MetaChain.thy ===== *)
theory MetaChain
  imports Recovery IntegrityCorrect
begin

text \<open>
  The chains of metadata pages that hold the free and the retired pages of a version: what
  \<^verbatim>\<open>prepareMetaFreelistPages\<close> writes at the end of the file, \<^verbatim>\<open>resolveMetaFreelist\<close> reads back
  (\<open>prepare_resolves\<close>), and no page of the tree is touched.
\<close>

section \<open>A mapped tree\<close>

text \<open>A tree over a mapping that can grow, with \<open>n\<close> ids to spare and every bound far from 64 bits.\<close>

definition mapped :: "Tree \<Rightarrow> nat \<Rightarrow> bool" where
  "mapped t n \<longleftrightarrow> room t n \<and> unat (nextPage t) + n < 2 ^ 60 \<and>
     (case arena t of None \<Rightarrow> False | Some a \<Rightarrow> minMmapPageCount \<le> maxPages a \<and> maxPages a < 2 ^ 62)"

lemma mappedD:
  assumes "mapped t n" "arena t = Some a"
  shows "room t n" "minMmapPageCount \<le> maxPages a" "maxPages a < 2 ^ 62" "\<not> ar_readOnly a"
    "firstTreePageID \<le> nextPage t" "unat (nextPage t) + n < 2 ^ 60" "os_grow a c"
    "int (unat (nextPage t)) \<le> maxPages a + int metaPageCount"
  using assms sint_small [of "nextPage t"]
  by (auto simp: mapped_def room_def base_def)

lemma mapped_le: "mapped t n \<Longrightarrow> m \<le> n \<Longrightarrow> mapped t m"
  by (auto simp: mapped_def elim: room_le)

lemma growCapacity_le: "0 < n \<Longrightarrow> growCapacity needed n \<le> max n (2 * needed)"
proof (induction needed n rule: growCapacity.induct)
  case (1 needed n)
  then show ?case by (subst growCapacity.simps) force
qed

text \<open>Growing for the next page, and taking its id.\<close>

lemma grow_mapped:
  assumes "mapped t (Suc n)" "arena t = Some a" "owned t M"
  obtains b where "growMmapForPage t (nextPage t) = Some (t\<lparr>arena := Some b\<rparr>)"
    "os_grow b = os_grow a" "readerTable b = readerTable a" "maxPages a \<le> maxPages b"
    "mapped (t\<lparr>arena := Some b, nextPage := nextPage t + 1\<rparr>) n" "pageBytesOk b (nextPage t)"
    "owned (t\<lparr>arena := Some b, nextPage := nextPage t + 1\<rparr>) (add_mset (nextPage t) M)"
proof -
  let ?i = "sint (nextPage t)" and ?m = "max (maxPages a) minMmapPageCount"
  let ?c = "growCapacity (?i - int metaPageCount + 1) ?m"
  note D = mappedD [OF assms(1,2)]
  have i: "?i = int (unat (nextPage t))" using D(6) by (intro sint_small) simp
  have iv: "{base t..<nextPage t + 1} = insert (nextPage t) {base t..<nextPage t}"
    using D(5,6) assms(2) by (intro interval_Suc) (simp_all add: base_def)
  have "unat (nextPage t) < 2 ^ 60" using D(6) by linarith
  then have "int (unat (nextPage t)) < 2 ^ 60" by (metis of_nat_less_iff of_nat_numeral of_nat_power)
  then have ui: "uint (nextPage t) < 2 ^ 60" by simp
  have un: "unat (nextPage t + 1) = Suc (unat (nextPage t))" using D(6) by (simp add: unat_word_ariths)
  have si: "sint (nextPage t + 1) = int (unat (nextPage t)) + 1"
    using D(6) un sint_small [of "nextPage t + 1"] by simp
  have first: "firstTreePageID \<le> nextPage t + 1"
    using D(5) un by (simp add: word_le_nat_alt firstTreePageID_def metaPageCount_def)
  define b where "b = (if ?i < maxPages a + int metaPageCount then a
      else a\<lparr>maxPages := ?c, dirtyPages := (if nextPage t \<le> firstTreePageID then dirtyPages a else {})\<rparr>)"
  have "?i - int metaPageCount + 1 \<le> ?c" "?c \<le> max ?m (2 * (?i - int metaPageCount + 1))"
    using growCapacity_ge [of ?m "?i - int metaPageCount + 1"] growCapacity_le [of ?m "?i - int metaPageCount + 1"]
    by (simp_all add: minMmapPageCount_def)
  then have c: "\<not> ?i < maxPages a + int metaPageCount \<Longrightarrow> ?i < ?c + int metaPageCount \<and> maxPages a < ?c \<and> ?c < 2 ^ 62"
    using D(3) ui i by (auto simp: minMmapPageCount_def metaPageCount_def)
  have g: "growMmapForPage t (nextPage t) = Some (t\<lparr>arena := Some b\<rparr>)"
  proof (cases "?i < maxPages a + int metaPageCount")
    case True
    have "t = t\<lparr>arena := Some a\<rparr>" using assms(2) by simp
    then show ?thesis using True assms(2) by (simp add: growMmapForPage_def b_def)
  next
    case False
    then show ?thesis using c D(4,7) assms(2) by (simp add: growMmapForPage_def remapMmap_def b_def)
  qed
  have b: "?i < maxPages b + int metaPageCount" "maxPages a \<le> maxPages b" "maxPages b < 2 ^ 62"
    "os_grow b = os_grow a" "readerTable b = readerTable a" "ar_readOnly b = ar_readOnly a"
    using c D(3) by (auto simp: b_def)
  let ?t = "t\<lparr>arena := Some b, nextPage := nextPage t + 1\<rparr>"
  have "\<forall>c. os_grow a c" using D(7) by blast
  then have "mapped ?t n"
    using b D(2,4,6) i si un first by (simp add: mapped_def room_def base_def)
  moreover have "owned ?t (add_mset (nextPage t) M)"
    using assms(2,3) iv by (simp add: owned_def base_def)
  moreover have "pageBytesOk b (nextPage t)"
    using b(1) D(5) by (simp add: pageBytesOk_def not_less)
  ultimately show thesis using that [OF g b(4,5,2)] by blast
qed

text \<open>The pages of a chain are the next \<open>k\<close> ids.\<close>

definition metaIds :: "PageID \<Rightarrow> nat \<Rightarrow> PageID list" where
  "metaIds i k = map (\<lambda>j. i + of_nat j) [0..<k]"

lemma metaIds_Suc: "metaIds i (Suc k) = i # metaIds (i + 1) k"
proof -
  have "[0..<Suc k] = 0 # map Suc [0..<k]" by (simp add: map_Suc_upt upt_conv_Cons del: upt_Suc)
  then show ?thesis by (simp add: metaIds_def ac_simps)
qed

lemma metaIds_simps [simp]: "metaIds i 0 = []" "length (metaIds i k) = k" "metaIds i k = [] \<longleftrightarrow> k = 0"
  by (simp_all add: metaIds_def)

text \<open>What changes when a chain is allocated and written.\<close>

definition rechained :: "Tree \<Rightarrow> mmapArena \<Rightarrow> nat \<Rightarrow> pagemap \<Rightarrow> Tree" where
  "rechained t b k pgs = t\<lparr>arena := Some b, nextPage := nextPage t + of_nat k, pages := pgs\<rparr>"

definition grown :: "mmapArena \<Rightarrow> mmapArena \<Rightarrow> bool" where
  "grown a b \<longleftrightarrow> os_grow b = os_grow a \<and> readerTable b = readerTable a \<and> maxPages a \<le> maxPages b"

lemma allocMetaPages_ok:
  assumes "mapped t (k + n)" "arena t = Some a" "owned t M"
  obtains b where
    "allocMetaPages f k t = Some (Inr (metaIds (nextPage t) k, rechained t b k
       (\<lambda>i. if i \<in> set (metaIds (nextPage t) k) then Some (newPage i f) else pages t i)))"
    "grown a b" "mapped (rechained t b k pgs) n" "owned (rechained t b k pgs) (mset (metaIds (nextPage t) k) + M)"
  using assms
proof (induction k arbitrary: t a M thesis)
  case 0
  have re: "rechained t a 0 (pages t) = t" using 0(3) by (simp add: rechained_def)
  have "allocMetaPages f 0 t = Some (Inr (metaIds (nextPage t) 0, rechained t a 0
       (\<lambda>i. if i \<in> set (metaIds (nextPage t) 0) then Some (newPage i f) else pages t i)))"
    by (simp add: re)
  moreover have "mapped (rechained t a 0 pgs) n" "owned (rechained t a 0 pgs) (mset (metaIds (nextPage t) 0) + M)"
    using 0(2-4) by (auto simp: rechained_def mapped_def owned_def base_def room_def)
  ultimately show ?case using 0(1) [of a] by (simp add: grown_def)
next
  case (Suc k)
  have m: "mapped t (Suc (k + n))" using Suc.prems(2) by simp
  obtain b where g: "growMmapForPage t (nextPage t) = Some (t\<lparr>arena := Some b\<rparr>)"
    "os_grow b = os_grow a" "readerTable b = readerTable a" "maxPages a \<le> maxPages b"
    "mapped (t\<lparr>arena := Some b, nextPage := nextPage t + 1\<rparr>) (k + n)" "pageBytesOk b (nextPage t)"
    "owned (t\<lparr>arena := Some b, nextPage := nextPage t + 1\<rparr>) (add_mset (nextPage t) M)"
    by (rule grow_mapped [OF m Suc.prems(3,4)]) (rule that)
  let ?b = "markDirtyPage b (nextPage t)"
  have mb: "ar_readOnly ?b = ar_readOnly b" "maxPages ?b = maxPages b" "os_grow ?b = os_grow b"
    "readerTable ?b = readerTable b" by (simp_all add: markDirtyPage_def)
  let ?t = "t\<lparr>arena := Some ?b, nextPage := nextPage t + 1, pages := (pages t)(nextPage t \<mapsto> newPage (nextPage t) f)\<rparr>"
  have "reset \<lparr>pid = nextPage t, data = replicate PageSize 0\<rparr> f = newPage (nextPage t) f"
    by (simp add: reset_newPage wf_page_def)
  then have np: "treeNewPage (t\<lparr>arena := Some b, nextPage := nextPage t + 1\<rparr>) (nextPage t) f =
      Some (newPage (nextPage t) f, t\<lparr>arena := Some ?b, nextPage := nextPage t + 1\<rparr>)"
    using g(6) by (simp add: treeNewPage_def)
  have t: "mapped ?t (k + n)" "arena ?t = Some ?b" "owned ?t (add_mset (nextPage t) M)"
    using g(5,7) mb by (auto simp: mapped_def room_def base_def owned_def)
  obtain c where c: "allocMetaPages f k ?t = Some (Inr (metaIds (nextPage ?t) k, rechained ?t c k
       (\<lambda>i. if i \<in> set (metaIds (nextPage ?t) k) then Some (newPage i f) else pages ?t i)))"
    "grown ?b c" "mapped (rechained ?t c k pgs) n"
    "owned (rechained ?t c k pgs) (mset (metaIds (nextPage ?t) k) + add_mset (nextPage t) M)"
    by (rule Suc.IH [OF _ t]) (rule that)
  have re: "rechained ?t c k pgs' = rechained t c (Suc k) pgs'" for pgs'
    by (simp add: rechained_def ac_simps)
  have pg: "(\<lambda>i. if i \<in> set (metaIds (nextPage ?t) k) then Some (newPage i f) else pages ?t i) =
      (\<lambda>i. if i \<in> set (metaIds (nextPage t) (Suc k)) then Some (newPage i f) else pages t i)"
    by (auto simp: metaIds_Suc)
  show ?case
  proof (rule Suc.prems(1))
    show "allocMetaPages f (Suc k) t = Some (Inr (metaIds (nextPage t) (Suc k), rechained t c (Suc k)
       (\<lambda>i. if i \<in> set (metaIds (nextPage t) (Suc k)) then Some (newPage i f) else pages t i)))"
      using g(1) np c(1) [unfolded pg re] by (simp add: putPage_def metaIds_Suc Let_def)
    show "grown a c" using c(2) g(2-4) mb by (simp add: grown_def)
    show "mapped (rechained t c (Suc k) pgs) n" using c(3) re by simp
    show "owned (rechained t c (Suc k) pgs) (mset (metaIds (nextPage t) (Suc k)) + M)"
      using c(4) re by (simp add: metaIds_Suc)
  qed
qed

text \<open>The chain of \<open>xs\<close> over the pages \<open>ids\<close>, \<open>cap\<close> to a page; \<open>P\<close> is the page format.\<close>

fun metaChain :: "(page \<Rightarrow> PageID \<Rightarrow> 'a list \<Rightarrow> bool) \<Rightarrow> nat \<Rightarrow> pagemap \<Rightarrow> PageID list \<Rightarrow> 'a list \<Rightarrow> bool" where
  "metaChain P cap pgs [] xs \<longleftrightarrow> xs = []"
| "metaChain P cap pgs (i # is) xs \<longleftrightarrow> xs \<noteq> [] \<and>
     (\<exists>p. pgs i = Some p \<and> pid p = i \<and> P p (if is = [] then 0 else hd is) (take cap xs)) \<and>
     metaChain P cap pgs is (drop cap xs)"

lemma metaChain_frame:
  "metaChain P cap pgs is xs \<Longrightarrow> (\<And>i. i \<in> set is \<Longrightarrow> pgs' i = pgs i) \<Longrightarrow> metaChain P cap pgs' is xs"
  by (induction "is" arbitrary: xs) auto

text \<open>A page writer establishes its format on any page of the page size.\<close>

definition writes :: "(page \<Rightarrow> PageID \<Rightarrow> 'a list \<Rightarrow> page option) \<Rightarrow> (page \<Rightarrow> PageID \<Rightarrow> 'a list \<Rightarrow> bool) \<Rightarrow> nat \<Rightarrow> bool" where
  "writes w P cap \<longleftrightarrow> 0 < cap \<and> (\<forall>p n xs. wf_page p \<longrightarrow> length xs \<le> cap \<longrightarrow>
     (\<exists>p'. w p n xs = Some p' \<and> P p' n xs \<and> pid p' = pid p))"

lemma writes_freelist: "writes writeFreelistPage freelist_page freelistPageCapacity"
  unfolding writes_def
proof (intro conjI allI impI)
  fix p n and xs :: "PageID list" assume "wf_page p" "length xs \<le> freelistPageCapacity"
  then show "\<exists>p'. writeFreelistPage p n xs = Some p' \<and> freelist_page p' n xs \<and> pid p' = pid p"
    by (rule writeFreelistPage_ok) blast
qed (simp add: page_consts)

lemma writes_reclaim: "writes writeReclaimPage reclaim_page reclaimPageCapacity"
  unfolding writes_def
proof (intro conjI allI impI)
  fix p n and xs :: "reclaimRecord list" assume "wf_page p" "length xs \<le> reclaimPageCapacity"
  then show "\<exists>p'. writeReclaimPage p n xs = Some p' \<and> reclaim_page p' n xs \<and> pid p' = pid p"
    by (rule writeReclaimPage_ok) blast
qed (simp add: page_consts)

lemma divideRoundUp_step:
  assumes "0 < c" "0 < v" shows "divideRoundUp v c = Suc (divideRoundUp (v - c) c)"
proof (cases "v \<le> c")
  case True
  then have "(v + c - 1) div c = 1" using assms by (intro div_nat_eqI) auto
  then show ?thesis using True assms by (simp add: divideRoundUp_def)
next
  case False
  then have "v + c - 1 = (v - c + c - 1) + c" using assms by simp
  then have "(v + c - 1) div c = (v - c + c - 1 + c) div c" by (rule arg_cong)
  also have "\<dots> = Suc ((v - c + c - 1) div c)" by (subst div_add_self2) (use assms(1) in simp_all)
  finally show ?thesis using False by (simp add: divideRoundUp_def)
qed

lemma chunks_Cons:
  assumes "0 < cap" "Suc n = divideRoundUp (length xs) cap"
  shows "xs \<noteq> []" "n = divideRoundUp (length (drop cap xs)) cap"
proof -
  show ne: "xs \<noteq> []" using assms(2) by (auto simp: divideRoundUp_def)
  then show "n = divideRoundUp (length (drop cap xs)) cap"
    using divideRoundUp_step [OF assms(1), of "length xs"] assms(2) by simp
qed

lemma writeMetaChain_ok:
  assumes "writes w P cap" "arena t = Some b" "distinct ids" "length ids = divideRoundUp (length xs) cap"
    "\<forall>i\<in>set ids. \<exists>p. pages t i = Some p \<and> wf_page p \<and> pid p = i"
  obtains b' pgs where "writeMetaChain w cap t ids xs = Some (t\<lparr>arena := Some b', pages := pgs\<rparr>)"
    "b' = b\<lparr>dirtyPages := dirtyPages b'\<rparr>" "metaChain P cap pgs ids xs"
    "\<And>j. j \<notin> set ids \<Longrightarrow> pgs j = pages t j"
  using assms
proof (induction ids arbitrary: t b xs thesis)
  case Nil
  have cap: "0 < cap" using Nil.prems(2) by (simp add: writes_def)
  have "xs = []" using divideRoundUp_step [OF cap, of "length xs"] Nil.prems(5) by (cases xs) auto
  moreover have "t\<lparr>arena := Some b, pages := pages t\<rparr> = t" using Nil.prems(3) by simp
  ultimately show ?case using Nil.prems(1) [of "pages t" b] by simp
next
  case (Cons i "is")
  have cap: "0 < cap" using Cons.prems(2) by (simp add: writes_def)
  have xs: "xs \<noteq> []" "length is = divideRoundUp (length (drop cap xs)) cap"
    using chunks_Cons [OF cap, of "length is" xs] Cons.prems(5) by simp_all
  let ?next = "if is = [] then 0 else hd is"
  obtain p where p: "pages t i = Some p" "wf_page p" "pid p = i" using Cons.prems(6) by auto
  have "\<exists>p'. w p ?next (take cap xs) = Some p' \<and> P p' ?next (take cap xs) \<and> pid p' = pid p"
    using Cons.prems(2) p(2) by (simp add: writes_def)
  then obtain p' where p': "w p ?next (take cap xs) = Some p'" "P p' ?next (take cap xs)" "pid p' = i"
    using p(3) by auto
  let ?b = "markDirtyPage b i"
  let ?t = "t\<lparr>arena := Some ?b, pages := (pages t)(i \<mapsto> p')\<rparr>"
  have t: "markDirty (putPage t p') i = ?t"
    using Cons.prems(3) p'(3) by (simp add: markDirty_def putPage_def)
  obtain b' pgs where r: "writeMetaChain w cap ?t is (drop cap xs) = Some (?t\<lparr>arena := Some b', pages := pgs\<rparr>)"
    "b' = ?b\<lparr>dirtyPages := dirtyPages b'\<rparr>" "metaChain P cap pgs is (drop cap xs)"
    "\<And>j. j \<notin> set is \<Longrightarrow> pgs j = pages ?t j"
    by (rule Cons.IH [OF _ Cons.prems(2) _ _ xs(2), of ?t ?b]) (use Cons.prems(4,6) in auto)
  show ?case
  proof (rule Cons.prems(1))
    show "writeMetaChain w cap t (i # is) xs = Some (t\<lparr>arena := Some b', pages := pgs\<rparr>)"
      using p(1) p'(1) r(1) t by simp
    show "b' = b\<lparr>dirtyPages := dirtyPages b'\<rparr>"
      using r(2) by (cases b'; cases b) (simp add: markDirtyPage_def split: if_splits)
    have "i \<notin> set is" using Cons.prems(4) by simp
    then have "pgs i = Some p'" using r(4) by simp
    then show "metaChain P cap pgs (i # is) xs" using xs(1) p'(2,3) r(3) by auto
    show "\<And>j. j \<notin> set (i # is) \<Longrightarrow> pgs j = pages t j" using r(4) by simp
  qed
qed

section \<open>Reading a chain\<close>

text \<open>What the checks of \<open>chainPage\<close> need of a page format.\<close>

definition reads_page :: "u16 \<Rightarrow> (page \<Rightarrow> 'a list option) \<Rightarrow> (page \<Rightarrow> PageID \<Rightarrow> 'a list \<Rightarrow> bool) \<Rightarrow> nat \<Rightarrow> bool" where
  "reads_page f entries P cap \<longleftrightarrow> (\<forall>p n xs. P p n xs \<longrightarrow> length xs \<le> cap \<longrightarrow> xs \<noteq> [] \<longrightarrow>
     wf_page p \<and> validChecksum p \<and> validateLayout p = Some None \<and> flags p = f \<and> slotCount p \<noteq> 0 \<and>
     entries p = Some xs \<and> leftmostChild p = n)"

lemma reads_freelist: "reads_page flagFreelist freelistIDs freelist_page freelistPageCapacity"
  using validateLayout_fixed(2) [of _ _ _ compareStrings]
  by (auto simp: reads_page_def freelist_page_def validateLayout_def freelistNext_def freelistCount_def)

lemma reads_reclaim: "reads_page flagReclaim reclaimRecords reclaim_page reclaimPageCapacity"
  using validateLayout_fixed(3) [of _ _ _ compareStrings]
  by (auto simp: reads_page_def reclaim_page_def validateLayout_def reclaimNext_def reclaimCount_def)

definition in_file :: "metaRecord \<Rightarrow> PageID \<Rightarrow> bool" where
  "in_file r i \<longleftrightarrow> firstTreePageID \<le> i \<and> i < mr_nextPage r \<and> i < maxOwnedPage (mr_maxPages r)"

lemma in_file_nonzero: "in_file r i \<Longrightarrow> i \<noteq> 0"
  by (auto simp: in_file_def firstTreePageID_def metaPageCount_def)

lemma chainLoop_ok:
  assumes "metaChain P cap pgs ids ys" "reads_page f entries P cap" "0 < cap" "distinct ids"
    "\<forall>i\<in>set ids. in_file r i \<and> i \<notin> set old" "mr_freeCount r = int (length (xs @ ys))"
  shows "chainLoop f entries r pgs old xs (if ids = [] then 0 else hd ids) = Some (Inr (xs @ ys, old @ ids))"
  using assms
proof (induction ids arbitrary: ys old xs)
  case Nil
  then show ?case by (subst chainLoop.simps) simp
next
  case (Cons i "is")
  let ?next = "if is = [] then 0 else hd is" and ?now = "take cap ys" and ?rest = "drop cap ys"
  obtain p where p: "pgs i = Some p" "P p ?next ?now" "ys \<noteq> []" "metaChain P cap pgs is ?rest"
    using Cons.prems(1) by auto
  have ne: "?now \<noteq> []" "length ?now \<le> cap" using p(3) Cons.prems(3) by (cases ys; cases cap; simp)+
  have q: "validChecksum p" "validateLayout p = Some None" "flags p = f" "slotCount p \<noteq> 0"
    "entries p = Some ?now" "leftmostChild p = ?next"
    using Cons.prems(2) p(2) ne unfolding reads_page_def by blast+
  have i: "in_file r i" "i \<notin> set old" "i \<noteq> 0" using Cons.prems(5) in_file_nonzero by auto
  have page: "chainPage f entries r pgs (set old) i = Some (Inr (?now, ?next))"
    using p(1) q i(1,2) by (simp add: chainPage_def in_file_def not_less not_le)
  have cnt: "mr_freeCount r = int (length ((xs @ ?now) @ ?rest))" using Cons.prems(6) by simp
  then have fit: "\<not> mr_freeCount r < int (length (xs @ ?now))" by simp
  have "chainLoop f entries r pgs (old @ [i]) (xs @ ?now) ?next = Some (Inr ((xs @ ?now) @ ?rest, (old @ [i]) @ is))"
    by (rule Cons.IH [OF p(4) Cons.prems(2,3) _ _ cnt]) (use Cons.prems(4,5) in auto)
  then have rest: "chainLoop f entries r pgs (old @ [i]) (xs @ ?now) ?next = Some (Inr (xs @ ys, old @ i # is))"
    by simp
  show ?case
    using i(3) page fit rest by (subst chainLoop.simps) simp
qed

lemma metaChain_pages:
  assumes "metaChain P cap pgs ids ys" "reads_page f entries P cap" "0 < cap" "i \<in> set ids"
  shows "\<exists>p. pgs i = Some p \<and> pid p = i \<and> wf_page p"
  using assms
proof (induction ids arbitrary: ys)
  case (Cons j "is")
  have "take cap ys \<noteq> []" using Cons.prems(1,3) by (cases ys; cases cap) auto
  then show ?case
    using Cons.prems Cons.IH [of "drop cap ys"] by (auto simp: reads_page_def)
qed simp

section \<open>The chain of a version\<close>

definition metaCost :: "Tree \<Rightarrow> nat" where
  "metaCost t =
     (if retired t \<noteq> [] then divideRoundUp (length (free t) + length (retired t)) reclaimPageCapacity
      else if length (free t) \<le> maxMetaFreePages then 0
      else divideRoundUp (length (free t)) freelistPageCapacity)"

definition prepared :: "Tree \<Rightarrow> mmapArena \<Rightarrow> nat \<Rightarrow> pagemap \<Rightarrow> Tree" where
  "prepared t b k pgs = (rechained t b k pgs)
     \<lparr>metaFreelistRoot := (if k = 0 then 0 else nextPage t), metaFreelistPages := metaIds (nextPage t) k\<rparr>"

lemma prepared_fields [simp]:
  "free (prepared t b k pgs) = free t" "retired (prepared t b k pgs) = retired t"
  "pages (prepared t b k pgs) = pgs" "arena (prepared t b k pgs) = Some b"
  "nextPage (prepared t b k pgs) = nextPage t + of_nat k" "revision (prepared t b k pgs) = revision t"
  "root (prepared t b k pgs) = root t" "treeLen (prepared t b k pgs) = treeLen t"
  "degree (prepared t b k pgs) = degree t" "keyOrder (prepared t b k pgs) = keyOrder t"
  "keyComparator (prepared t b k pgs) = keyComparator t" "activeReaders (prepared t b k pgs) = activeReaders t"
  "closed (prepared t b k pgs) = closed t" "readOnly (prepared t b k pgs) = readOnly t"
  "treeCache (prepared t b k pgs) = treeCache t"
  "metaFreelistRoot (prepared t b k pgs) = (if k = 0 then 0 else nextPage t)"
  "metaFreelistPages (prepared t b k pgs) = metaIds (nextPage t) k"
  by (simp_all add: prepared_def rechained_def)

text \<open>\<open>t2\<close> is \<open>t\<close> with the chain for its free and retired pages written at its end.\<close>

definition chained :: "Tree \<Rightarrow> mmapArena \<Rightarrow> PageID multiset \<Rightarrow> nat \<Rightarrow> mmapArena \<Rightarrow> pagemap \<Rightarrow> bool" where
  "chained t a M n b pgs \<longleftrightarrow> grown a b \<and> mapped (prepared t b (metaCost t) pgs) n \<and>
     owned (prepared t b (metaCost t) pgs) (mset (metaIds (nextPage t) (metaCost t)) + M) \<and>
     (\<forall>j\<in>set (metaIds (nextPage t) (metaCost t)). \<exists>p. pgs j = Some p \<and> pid p = j \<and> wf_page p) \<and>
     (\<forall>j. j \<notin> set (metaIds (nextPage t) (metaCost t)) \<longrightarrow> pgs j = pages t j)"

lemma prepareChain_ok:
  assumes "mapped t (divideRoundUp (length xs) cap + n)" "arena t = Some a" "owned t M" "writes w P cap" "xs \<noteq> []"
    and k: "k = divideRoundUp (length xs) cap"
  obtains b pgs where "prepareChain f w cap xs t = Some (Inr (prepared t b k pgs))" "grown a b"
    "mapped (prepared t b k pgs) n" "owned (prepared t b k pgs) (mset (metaIds (nextPage t) k) + M)"
    "metaChain P cap pgs (metaIds (nextPage t) k) xs" "distinct (metaIds (nextPage t) k)"
    "\<And>j. j \<notin> set (metaIds (nextPage t) k) \<Longrightarrow> pgs j = pages t j"
proof -
  let ?ids = "metaIds (nextPage t) k"
  let ?new = "\<lambda>i. if i \<in> set ?ids then Some (newPage i f) else pages t i"
  obtain b where al: "allocMetaPages f k t = Some (Inr (?ids, rechained t b k ?new))"
    "grown a b" "mapped (rechained t b k ?new) n" "owned (rechained t b k ?new) (mset ?ids + M)"
    by (rule allocMetaPages_ok [OF assms(1) [folded k] assms(2,3), where f = f and pgs = ?new]) (rule that)
  let ?u = "rechained t b k ?new"
  have "count (mset ?ids) i \<le> 1" for i using owned_distinct [OF al(4), of i] by simp
  then have dist: "distinct ?ids" by (rule distinct_mset)
  have cap: "0 < cap" using assms(4) by (simp add: writes_def)
  have k0: "k \<noteq> 0" using divideRoundUp_step [OF cap, of "length xs"] assms(5) k by simp
  then have hd: "?ids \<noteq> []" "hd ?ids = nextPage t" by (cases k; simp add: metaIds_Suc)+
  obtain b' pgs where w: "writeMetaChain w cap ?u ?ids xs = Some (?u\<lparr>arena := Some b', pages := pgs\<rparr>)"
    "b' = b\<lparr>dirtyPages := dirtyPages b'\<rparr>" "metaChain P cap pgs ?ids xs" "\<And>j. j \<notin> set ?ids \<Longrightarrow> pgs j = pages ?u j"
    by (rule writeMetaChain_ok [OF assms(4) _ dist, of ?u b xs]) (use k in \<open>auto simp: rechained_def\<close>)
  have b': "os_grow b' = os_grow b" "readerTable b' = readerTable b" "maxPages b' = maxPages b"
    "ar_readOnly b' = ar_readOnly b" 
    using arg_cong [OF w(2), of os_grow] arg_cong [OF w(2), of readerTable]
      arg_cong [OF w(2), of maxPages] arg_cong [OF w(2), of ar_readOnly] by simp_all
  have p: "(?u\<lparr>arena := Some b', pages := pgs\<rparr>)\<lparr>metaFreelistRoot := nextPage t, metaFreelistPages := ?ids\<rparr> =
      prepared t b' k pgs"
    using k0 by (simp add: prepared_def rechained_def)
  show thesis
  proof (rule that [OF _ _ _ _ w(3) dist])
    show "prepareChain f w cap xs t = Some (Inr (prepared t b' k pgs))"
      using al(1) w(1) hd p by (simp add: prepareChain_def k [symmetric])
    show "grown a b'" using al(2) b' by (simp add: grown_def)
    show "mapped (prepared t b' k pgs) n"
      using al(3) b' by (auto simp: mapped_def prepared_def rechained_def room_def base_def)
    show "owned (prepared t b' k pgs) (mset ?ids + M)"
      using al(4) by (simp add: owned_def prepared_def rechained_def base_def)
    show "pgs j = pages t j" if "j \<notin> set ?ids" for j using w(4) [OF that] that by (simp add: rechained_def)
  qed
qed

lemma below_maxOwned:
  assumes "mapped t n" "arena t = Some a" "i < nextPage t"
  shows "i < maxOwnedPage (maxPages a)"
proof -
  note D = mappedD [OF assms(1,2)]
  have pos: "0 \<le> maxPages a" using D(2) by (simp add: minMmapPageCount_def)
  have "uint (word_of_int (maxPages a) :: u64) = maxPages a"
    using D(3) pos by (simp add: uint_word_of_int)
  then have "uint (maxOwnedPage (maxPages a)) = maxPages a + 2"
    using D(3) pos by (simp add: maxOwnedPage_def firstTreePageID_def metaPageCount_def uint_word_ariths)
  moreover have "uint i < uint (nextPage t)" using assms(3) by (simp add: word_less_def)
  ultimately show ?thesis using D(8) by (simp add: word_less_def metaPageCount_def)
qed

text \<open>The record that is published and what the reader makes of it.\<close>

definition published :: "Tree \<Rightarrow> mmapArena \<Rightarrow> metaRecord" where
  "published t b = storedMeta (metaRecordOf t b)"

lemma published_fields [simp]:
  "mr_root (published t b) = root t" "mr_nextPage (published t b) = nextPage t"
  "mr_length (published t b) = treeLen t" "mr_revision (published t b) = revision t"
  "mr_degree (published t b) = int (degree t)" "mr_keyOrder (published t b) = normalizeKeyOrder (keyOrder t)"
  "mr_maxPages (published t b) = maxPages b" "mr_freeRoot (published t b) = metaFreelistRoot t"
  "mr_freeCount (published t b) = int (length (free t) + length (retired t))"
  "mr_version (published t b) = (if retired t \<noteq> [] then 3 else 2)"
  "mr_free (published t b) = (if metaFreelistRoot t = 0 then free t else [])"
  "mr_retired (published t b) = []" "mr_freelistPages (published t b) = []"
  by (simp_all add: published_def storedMeta_def metaRecordOf_def mmapWriterMetaVersion_def metaVersion_def)

definition resolvedRecord :: "Tree \<Rightarrow> mmapArena \<Rightarrow> metaRecord" where
  "resolvedRecord t b = (published t b)\<lparr>mr_free := free t, mr_retired := retired t,
     mr_freelistPages := metaFreelistPages t\<rparr>"

lemma split_records:
  "map rr_id (filter (\<lambda>x. rr_revision x = 0) (reclaimRecordsFor fs rs)) =
     fs @ map rp_id (filter (\<lambda>r. rp_revision r = 0) rs)"
  "map (\<lambda>x. \<lparr>rp_id = rr_id x, rp_revision = rr_revision x\<rparr>) (filter (\<lambda>x. rr_revision x \<noteq> 0) (reclaimRecordsFor fs rs)) =
     filter (\<lambda>r. rp_revision r \<noteq> 0) rs"
proof -
  have "(\<lambda>x. \<lparr>rp_id = rp_id x, rp_revision = rp_revision x\<rparr>) = (\<lambda>x :: retiredPage. x)"
    by (rule HOL.ext) (rule retiredPage.equality, simp_all)
  then show "map (\<lambda>x. \<lparr>rp_id = rr_id x, rp_revision = rr_revision x\<rparr>) (filter (\<lambda>x. rr_revision x \<noteq> 0) (reclaimRecordsFor fs rs)) =
     filter (\<lambda>r. rp_revision r \<noteq> 0) rs"
    by (simp add: reclaimRecordsFor_def filter_map comp_def)
qed (simp add: reclaimRecordsFor_def filter_map comp_def)

lemma prepare_resolves:
  assumes m: "mapped t (metaCost t + n)" and a: "arena t = Some a" and own: "owned t M"
    and rv: "\<forall>r\<in>set (retired t). rp_revision r \<noteq> 0"
  obtains b pgs where "prepareMetaFreelistPages t = Some (Inr (prepared t b (metaCost t) pgs))"
    "chained t a M n b pgs"
    "\<And>pgs'. (\<And>i. i \<in> set (metaIds (nextPage t) (metaCost t)) \<Longrightarrow> pgs' i = pgs i) \<Longrightarrow>
       resolveMetaFreelist pgs' (published (prepared t b (metaCost t) pgs) b) =
         Some (Inr (resolvedRecord (prepared t b (metaCost t) pgs) b))"
proof -
  let ?n = "nextPage t"
  have nz: "?n \<noteq> 0" using mappedD(5) [OF m a] by (auto simp: firstTreePageID_def metaPageCount_def)
  have inf: "\<forall>i\<in>set (metaIds ?n k). in_file (published (prepared t b k pgs) b) i \<and> i \<notin> set []"
    if "mapped (prepared t b k pgs) n" "owned (prepared t b k pgs) (mset (metaIds ?n k) + M)" for b k pgs
  proof
    fix i assume "i \<in> set (metaIds ?n k)"
    then have "base (prepared t b k pgs) \<le> i" "i < nextPage (prepared t b k pgs)"
      using owned_range(1,2) [OF that(2), of i] by (simp_all del: prepared_fields)
    then show "in_file (published (prepared t b k pgs) b) i \<and> i \<notin> set []"
      using below_maxOwned [OF that(1), of b i] by (simp add: in_file_def base_def)
  qed
  have hd: "(if metaIds ?n k = [] then 0 else hd (metaIds ?n k)) = (if k = 0 then 0 else ?n)" for k
    by (cases k) (simp_all add: metaIds_Suc)
  have caps: "0 < freelistPageCapacity" "0 < reclaimPageCapacity" by (simp_all add: page_consts)
  consider (r) "retired t \<noteq> []" | (s) "retired t = []" "length (free t) \<le> maxMetaFreePages"
    | (f) "retired t = []" "maxMetaFreePages < length (free t)" by linarith
  then show thesis
  proof cases
    case r
    let ?xs = "reclaimRecordsFor (free t) (retired t)"
    have xs: "?xs \<noteq> []" "length ?xs = length (free t) + length (retired t)"
      using r by (simp_all add: reclaimRecordsFor_def)
    have k: "metaCost t = divideRoundUp (length ?xs) reclaimPageCapacity" using r xs(2) by (simp add: metaCost_def)
    have k0: "metaCost t \<noteq> 0" using divideRoundUp_step [OF caps(2), of "length ?xs"] xs(1) k by simp
    obtain b pgs where p: "prepareChain flagReclaim writeReclaimPage reclaimPageCapacity ?xs t = Some (Inr (prepared t b (metaCost t) pgs))"
      "grown a b" "mapped (prepared t b (metaCost t) pgs) n"
      "owned (prepared t b (metaCost t) pgs) (mset (metaIds ?n (metaCost t)) + M)"
      "metaChain reclaim_page reclaimPageCapacity pgs (metaIds ?n (metaCost t)) ?xs"
      "distinct (metaIds ?n (metaCost t))" "\<And>j. j \<notin> set (metaIds ?n (metaCost t)) \<Longrightarrow> pgs j = pages t j"
      by (rule prepareChain_ok [OF m [unfolded k] a own writes_reclaim xs(1) k]) (rule that)
    let ?t = "prepared t b (metaCost t) pgs"
    show thesis
    proof (rule that [of b pgs])
      show "prepareMetaFreelistPages t = Some (Inr ?t)" using p(1) r by (simp add: prepareMetaFreelistPages_def)
      show "chained t a M n b pgs"
        using p(2-4,7) metaChain_pages [OF p(5) reads_reclaim caps(2)] by (simp add: chained_def)
      fix pgs' assume same: "\<And>i. i \<in> set (metaIds ?n (metaCost t)) \<Longrightarrow> pgs' i = pgs i"
      have cnt: "mr_freeCount (published ?t b) = int (length ([] @ ?xs))" by (simp add: xs(2))
      have "chainLoop flagReclaim reclaimRecords (published ?t b) pgs' [] [] (if metaIds ?n (metaCost t) = [] then 0 else hd (metaIds ?n (metaCost t)))
          = Some (Inr ([] @ ?xs, [] @ metaIds ?n (metaCost t)))"
        by (rule chainLoop_ok [OF metaChain_frame [OF p(5) same] reads_reclaim caps(2) p(6) inf [OF p(3,4)] cnt])
      then have "chainLoop flagReclaim reclaimRecords (published ?t b) pgs' [] [] ?n = Some (Inr (?xs, metaIds ?n (metaCost t)))"
        unfolding hd using k0 by simp
      moreover have "filter (\<lambda>r. rp_revision r = 0) (retired t) = []" "filter (\<lambda>r. rp_revision r \<noteq> 0) (retired t) = retired t"
        using rv by simp_all
      ultimately show "resolveMetaFreelist pgs' (published ?t b) = Some (Inr (resolvedRecord ?t b))"
        using r nz k0 split_records [of "free t" "retired t"]
        by (simp add: resolveMetaFreelist_def resolveMetaReclaim_def resolvedRecord_def check_def)
    qed
  next
    case s
    have k: "metaCost t = 0" using s by (simp add: metaCost_def)
    have e: "t\<lparr>metaFreelistRoot := 0, metaFreelistPages := []\<rparr> = prepared t a 0 (pages t)"
      using a by (simp add: prepared_def rechained_def)
    show thesis
    proof (rule that [of a "pages t"], unfold k)
      show "prepareMetaFreelistPages t = Some (Inr (prepared t a 0 (pages t)))"
        using s e by (simp add: prepareMetaFreelistPages_def prepareMetaFreePages_def)
      have "mapped (prepared t a 0 (pages t)) n" "owned (prepared t a 0 (pages t)) M"
        using m own a k by (auto simp: mapped_def room_def owned_def base_def prepared_def rechained_def)
      then show "chained t a M n a (pages t)" by (simp add: chained_def grown_def k)
      show "resolveMetaFreelist pgs' (published (prepared t a 0 (pages t)) a) =
          Some (Inr (resolvedRecord (prepared t a 0 (pages t)) a))" for pgs'
        using s by (simp add: resolveMetaFreelist_def resolvedRecord_def)
    qed
  next
    case f
    let ?xs = "free t"
    have xs: "?xs \<noteq> []" using f by auto
    have k: "metaCost t = divideRoundUp (length ?xs) freelistPageCapacity" using f by (simp add: metaCost_def)
    have k0: "metaCost t \<noteq> 0" using divideRoundUp_step [OF caps(1), of "length ?xs"] xs(1) k by simp
    obtain b pgs where p: "prepareChain flagFreelist writeFreelistPage freelistPageCapacity ?xs t = Some (Inr (prepared t b (metaCost t) pgs))"
      "grown a b" "mapped (prepared t b (metaCost t) pgs) n"
      "owned (prepared t b (metaCost t) pgs) (mset (metaIds ?n (metaCost t)) + M)"
      "metaChain freelist_page freelistPageCapacity pgs (metaIds ?n (metaCost t)) ?xs"
      "distinct (metaIds ?n (metaCost t))" "\<And>j. j \<notin> set (metaIds ?n (metaCost t)) \<Longrightarrow> pgs j = pages t j"
      by (rule prepareChain_ok [OF m [unfolded k] a own writes_freelist xs k]) (rule that)
    let ?t = "prepared t b (metaCost t) pgs"
    show thesis
    proof (rule that [of b pgs])
      show "prepareMetaFreelistPages t = Some (Inr ?t)"
        using p(1) f by (simp add: prepareMetaFreelistPages_def prepareMetaFreePages_def)
      show "chained t a M n b pgs"
        using p(2-4,7) metaChain_pages [OF p(5) reads_freelist caps(1)] by (simp add: chained_def)
      fix pgs' assume same: "\<And>i. i \<in> set (metaIds ?n (metaCost t)) \<Longrightarrow> pgs' i = pgs i"
      have cnt: "mr_freeCount (published ?t b) = int (length ([] @ ?xs))" by (simp add: f(1))
      have "chainLoop flagFreelist freelistIDs (published ?t b) pgs' [] [] (if metaIds ?n (metaCost t) = [] then 0 else hd (metaIds ?n (metaCost t)))
          = Some (Inr ([] @ ?xs, [] @ metaIds ?n (metaCost t)))"
        by (rule chainLoop_ok [OF metaChain_frame [OF p(5) same] reads_freelist caps(1) p(6) inf [OF p(3,4)] cnt])
      then have "chainLoop flagFreelist freelistIDs (published ?t b) pgs' [] [] ?n = Some (Inr (?xs, metaIds ?n (metaCost t)))"
        unfolding hd using k0 by simp
      then show "resolveMetaFreelist pgs' (published ?t b) = Some (Inr (resolvedRecord ?t b))"
        using f nz k0 by (simp add: resolveMetaFreelist_def resolvedRecord_def check_def)
    qed
  qed
qed

end
