(* ===== verification/SyncCorrect.thy ===== *)
theory SyncCorrect
  imports MetaChain
begin

text \<open>
  \<^verbatim>\<open>Sync\<close> of an mmap tree: when the system calls succeed it returns without an error, leaves a
  tree of the same entries whose spare metadata pages became free, and a metadata slot that
  names exactly this version (\<open>Sync_ok\<close>); when a flush fails, the slots are unchanged.
\<close>

section \<open>The metadata page is accepted\<close>

lemma length_putU64: "off + 8 \<le> length d \<Longrightarrow> length (putU64 d off w) = length d"
  by (simp add: putU64_def)

lemma length_putU32: "off + 4 \<le> length d \<Longrightarrow> length (putU32 d off w) = length d"
  by (simp add: putU32_def)

lemma writeMetaPage_accepts:
  assumes d: "length d = PageSize" and order: "validateMmapKeyOrder (mr_keyOrder r) = Inr order"
    and v: "(if mr_version r = 0 then metaVersion else mr_version r) < 3 \<Longrightarrow> mr_retired r = []"
    and inline: "mr_freeRoot r = 0 \<Longrightarrow> length (mr_free r) + length (mr_retired r) \<le> maxMetaFreePages"
      "mr_freeRoot r = 0 \<Longrightarrow> 3 \<le> (if mr_version r = 0 then metaVersion else mr_version r) \<Longrightarrow>
         mr_free r = [] \<and> mr_retired r = []"
    and chain: "mr_freeRoot r \<noteq> 0 \<Longrightarrow> 0 < length (mr_free r) + length (mr_retired r)"
  shows "\<exists>d'. writeMetaPage d r = Some (Inr d')"
proof -
  define version where "version = (if mr_version r = 0 then metaVersion else mr_version r)"
  define n where "n = length (mr_free r) + length (mr_retired r)"
  have n: "(if version < 3 \<and> mr_freeRoot r = 0 \<and> mr_retired r = []
      then length (mr_free r) else length (mr_free r) + length (mr_retired r)) = n"
    by (simp add: n_def)
  have g: "\<not> (version < 3 \<and> mr_retired r \<noteq> [])" "\<not> (3 \<le> version \<and> mr_freeRoot r = 0 \<and> 0 < n)"
    "\<not> (mr_freeRoot r = 0 \<and> maxMetaFreePages < n)" "\<not> (mr_freeRoot r \<noteq> 0 \<and> n = 0)"
    using assms(3-6) by (auto simp: n_def version_def [symmetric])
  have "\<exists>x. putIDs e 88 (mr_free r) = Some x" if "length e = 4096" "mr_freeRoot r = 0" for e
    using that g(3) by (auto simp: putIDs_splice n_def page_consts)
  then show ?thesis
    unfolding writeMetaPage_def Let_def version_def [symmetric] n if_not_P [OF g(1)] if_not_P [OF g(2)]
      if_not_P [OF g(3)] if_not_P [OF g(4)] order sum.case
    by (simp add: length_putU64 length_putU32 d page_consts)
qed

lemma keyOrder_accepted:
  "order = KeyOrderBytewise \<or> order = KeyOrderReverse \<Longrightarrow>
     validateMmapKeyOrder order = Inr order \<and> normalizeKeyOrder order = order"
  by (auto simp: validateMmapKeyOrder_def normalizeKeyOrder_def KeyOrderBytewise_def KeyOrderReverse_def Let_def)

section \<open>Flushing the data pages\<close>

lemma pageRanges_in: "(x, y) \<in> set (pageRanges is) \<Longrightarrow> y - 1 \<in> set is"
  by (induction "is" arbitrary: x y rule: pageRanges.induct) (auto split: list.splits if_splits)

lemma syncDataPages_ok:
  assumes m: "mapped t n" and a: "arena t = Some a" and io: "\<And>pt. io pt"
  obtains d rs where "syncDataPages io a (nextPage t) = (None, a\<lparr>dirtyPages := d\<rparr>, rs)"
proof -
  note D = mappedD [OF m a]
  let ?ids = "sorted_list_of_set {i \<in> dirtyPages a. firstTreePageID \<le> i \<and> i < nextPage t}"
  have "sint y \<le> maxPages a + int metaPageCount" if "(x, y) \<in> set (pageRanges ?ids)" for x y
  proof -
    have "unat (nextPage t) < 2 ^ 60" using D(6) by simp
    moreover have "y - 1 < nextPage t" using pageRanges_in [OF that] by simp
    ultimately have "unat (y - 1) < unat (nextPage t)" "unat (y - 1) + 1 < 2 ^ 63"
      by (simp_all add: word_less_nat_alt)
    then have "unat y \<le> unat (nextPage t)" using unat_word_ariths(1) [of "y - 1" 1] by simp
    then have "sint y = int (unat y)" "unat y \<le> unat (nextPage t)"
      using \<open>unat (nextPage t) < 2 ^ 60\<close> by (simp_all add: sint_small)
    then show ?thesis using D(8) by linarith
  qed
  then have ok: "\<not> (\<exists>r\<in>set (pageRanges ?ids). maxPages a + int metaPageCount < sint (snd r))" by force
  show thesis
  proof (cases "nextPage t \<le> firstTreePageID \<or> dirtyPages a = {}")
    case True
    then show thesis using that [of "dirtyPages a" "[]"] by (simp add: syncDataPages_def)
  next
    case False
    then show thesis
      using that [of "{}" "[]"] that [of "{}" "pageRanges ?ids"] ok io D(4)
      by (cases "?ids = []") (simp_all add: syncDataPages_def Let_def del: sorted_list_of_set_eq_Nil_iff)
  qed
qed

section \<open>Publishing the record\<close>

definition slots_ok :: "bytes list \<Rightarrow> bool" where
  "slots_ok slots \<longleftrightarrow> length slots = metaPageCount \<and> (\<forall>d\<in>set slots. length d = PageSize \<and> readMetaPageChecked d \<noteq> None)"

lemma metaSlot_less: "metaSlot n < metaPageCount"
proof -
  have "unat (n mod 2) < 2" by (simp add: unat_mod)
  then show ?thesis by (simp add: metaSlot_def metaPageCount_def)
qed

lemma owned_short:
  assumes "owned t M" shows "length (free t) + length (retired t) \<le> unat (nextPage t)"
proof -
  let ?is = "free t @ map rp_id (retired t)"
  have "count (mset ?is) i \<le> 1" for i using owned_once [OF assms, of i] by simp
  then have "distinct ?is" by (rule distinct_mset)
  then have "distinct (map unat ?is)" unfolding distinct_map
    by (intro conjI inj_onI) (simp_all only: word_unat_eq_iff)
  moreover have "set (map unat ?is) \<subseteq> {..<unat (nextPage t)}"
    using owned_range(2) [OF assms] by (auto simp: word_less_nat_alt [symmetric])
  ultimately have "length (map unat ?is) \<le> unat (nextPage t)"
    by (metis card_lessThan card_mono distinct_card finite_lessThan)
  then show ?thesis by simp
qed

text \<open>What the metadata page can hold of a tree.\<close>

definition recordable :: "Tree \<Rightarrow> bool" where
  "recordable t \<longleftrightarrow> (keyOrder t = KeyOrderBytewise \<or> keyOrder t = KeyOrderReverse) \<and> goInt (treeLen t) \<and>
     degree t \<le> maxPageDegree \<and> (retired t = [] \<longrightarrow> metaFreelistRoot t = 0 \<longrightarrow> length (free t) \<le> maxMetaFreePages) \<and>
     (retired t = [] \<longrightarrow> metaFreelistRoot t \<noteq> 0 \<longrightarrow> maxMetaFreePages < length (free t)) \<and>
     (retired t \<noteq> [] \<longrightarrow> metaFreelistRoot t \<noteq> 0)"

lemma recordable_accepted:
  assumes d: "length d = PageSize" and r: "recordable t"
  shows "\<exists>d'. writeMetaPage d (metaRecordOf t a) = Some (Inr d')"
proof -
  let ?r = "metaRecordOf t a"
  have v: "(if mr_version ?r = 0 then metaVersion else mr_version ?r) = (if retired t \<noteq> [] then 3 else 2)"
    by (simp add: metaRecordOf_def mmapWriterMetaVersion_def metaVersion_def)
  show ?thesis
    by (rule writeMetaPage_accepts [where r = ?r, OF d, of "keyOrder t", unfolded v])
       (use r in \<open>auto simp: recordable_def metaRecordOf_def keyOrder_accepted split: if_splits\<close>)
qed

lemma publishMeta_ok:
  assumes io: "\<And>pt. io pt" and m: "mapped t n" and a: "arena t = Some a" and own: "owned t M"
    and r: "recordable t" and slots: "slots_ok slots"
  obtains d where "publishMeta io t slots = Some (None, slots[metaSlot (revision t) := d])"
    "length d = PageSize" "readMetaPageChecked d = Some (Inr (Some (published t a)))"
proof -
  note D = mappedD [OF m a]
  let ?r = "metaRecordOf t a" and ?i = "metaSlot (revision t)"
  have i: "?i < length slots" using metaSlot_less slots by (simp add: slots_ok_def)
  then have d: "length (slots ! ?i) = PageSize" using slots by (simp add: slots_ok_def)
  note R = r [unfolded recordable_def]
  have "\<exists>d'. writeMetaPage (slots ! ?i) ?r = Some (Inr d')" by (rule recordable_accepted [OF d r])
  then obtain d' where w: "writeMetaPage (slots ! ?i) ?r = Some (Inr d')" ..
  have "length (free t) + length (retired t) < 2 ^ 63" using owned_short [OF own] D(6) by simp
  moreover have "int (degree t) < 2 ^ 63" using R by (simp add: maxPageDegree_def maxPageSlots_def page_consts)
  ultimately have "storable ?r"
    using R D(2,3) by (auto simp: storable_def metaRecordOf_def mmapWriterMetaVersion_def metaVersion_def
        goInt_def minMmapPageCount_def)
  note rt = meta_roundtrip [OF d w this]
  have "publishMeta io t slots = Some (None, slots[?i := d'])"
    using a D(4) i w io slots by (simp add: publishMeta_def persistMeta_def syncMetaPage_def Let_def slots_ok_def)
  then show thesis using that rt by (simp add: published_def)
qed

section \<open>Obsolete metadata pages\<close>

definition metaKind :: "page \<Rightarrow> bool" where
  "metaKind p \<longleftrightarrow> flags p = flagFreelist \<or> flags p = flagReclaim"

lemma isMetadataReclaimPage_ok:
  assumes "wf_page p"
  shows "\<exists>b. isMetadataReclaimPage p = Some b \<and> (b \<longrightarrow> metaKind p)"
  using validateLayout_total [OF assms, of compareStrings]
  by (auto simp: isMetadataReclaimPage_def validateLayout_def metaKind_def)

lemma collectFreelistChainLenient_total:
  assumes "wfPages pgs" shows "\<exists>s. collectFreelistChainLenient pgs i seen = Some s"
proof (induction "unseen pgs seen" arbitrary: i seen rule: less_induct)
  case less
  show ?case
  proof (cases "i = 0 \<or> i \<in> seen \<or> pgs i = None")
    case True
    then show ?thesis by (subst collectFreelistChainLenient.simps) auto
  next
    case False
    then obtain p where p: "pgs i = Some p" "i \<noteq> 0" "i \<notin> seen" by auto
    obtain v where v: "validateLayout p = Some v"
      using validateLayout_total [of p compareStrings] assms p(1) by (auto simp: wfPages_def validateLayout_def)
    have "\<exists>s. collectFreelistChainLenient pgs j (insert i seen) = Some s" for j
      using less [OF unseen_insert [OF assms p(1,3)]] by blast
    then show ?thesis using p v by (subst collectFreelistChainLenient.simps) auto
  qed
qed

lemma referencedPages_total:
  assumes "wfPages pgs" "\<forall>d\<in>set ds. readMetaPageChecked d \<noteq> None"
  shows "\<exists>s. referencedPages pgs ds = Some s"
  using assms(2)
proof (induction ds)
  case (Cons d ds)
  then obtain r where "readMetaPageChecked d = Some r" by auto
  moreover obtain s where "referencedPages pgs ds = Some s" using Cons by auto
  moreover obtain c where "\<And>i. collectFreelistChainLenient pgs i {} = Some (c i)"
    using collectFreelistChainLenient_total [OF assms(1), of _ "{}"] by metis
  ultimately show ?case by (simp split: sum.split option.split)
qed simp

text \<open>The ids added to the free list: each once, not there before, a metadata page not referenced.\<close>

definition obsolete :: "pagemap \<Rightarrow> PageID set \<Rightarrow> PageID list \<Rightarrow> PageID list \<Rightarrow> bool" where
  "obsolete pgs referenced fs extra \<longleftrightarrow> distinct extra \<and> set extra \<inter> (set fs \<union> referenced) = {} \<and>
     (\<forall>i\<in>set extra. firstTreePageID \<le> i \<and> (\<exists>p. pgs i = Some p \<and> metaKind p))"

lemma appendObsolete_ok:
  assumes "wfPages pgs"
  shows "\<exists>extra. appendObsolete pgs referenced fs ord = Some (fs @ extra) \<and> obsolete pgs referenced fs extra"
proof (induction ord arbitrary: fs)
  case Nil
  then show ?case by (simp add: obsolete_def)
next
  case (Cons i "is")
  show ?case
  proof (cases "pgs i")
    case None
    then show ?thesis using Cons by simp
  next
    case (Some p)
    then have "wf_page p" using assms by (simp add: wfPages_def)
    then obtain b where b: "isMetadataReclaimPage p = Some b" "b \<longrightarrow> metaKind p"
      using isMetadataReclaimPage_ok by blast
    show ?thesis
    proof (cases "i < firstTreePageID \<or> \<not> b \<or> i \<in> referenced \<or> i \<in> set fs")
      case True
      then show ?thesis using Cons [of fs] Some b(1) by auto
    next
      case False
      obtain extra where e: "appendObsolete pgs referenced (fs @ [i]) is = Some ((fs @ [i]) @ extra)"
        "obsolete pgs referenced (fs @ [i]) extra" using Cons by blast
      have "obsolete pgs referenced fs (i # extra)"
        using e(2) False Some b(2) by (auto simp: obsolete_def not_less)
      then show ?thesis using e(1) False Some b(1) by auto
    qed
  qed
qed

lemma reclaimObsolete_ok:
  assumes "arena t = Some a" "wfPages (pages t)" "\<forall>d\<in>set slots. readMetaPageChecked d \<noteq> None"
  obtains extra referenced where "reclaimObsoleteMetaFreelistPages ord slots t = Some (t\<lparr>free := free t @ extra\<rparr>)"
    "obsolete (pages t) (referenced \<union> set (metaFreelistPages t)) (free t) extra"
proof -
  obtain s where s: "referencedPages (pages t) slots = Some s"
    using referencedPages_total [OF assms(2,3)] by blast
  obtain extra where "appendObsolete (pages t) (s \<union> set (metaFreelistPages t)) (free t) ord = Some (free t @ extra)"
    "obsolete (pages t) (s \<union> set (metaFreelistPages t)) (free t) extra"
    using appendObsolete_ok [OF assms(2)] by blast
  then show thesis using that [of extra s] assms(1) s by (simp add: reclaimObsoleteMetaFreelistPages_def)
qed

section \<open>The invariant across Sync\<close>

lemma count_outside: "i \<notin> set xs \<Longrightarrow> count (mset xs) i = 0"
  by (simp only: count_eq_zero_iff set_mset_mset not_False_eq_True)

lemma subset_outside:
  assumes "mset extra \<subseteq># R + mset ids" "set extra \<inter> set ids = {}"
  shows "mset extra \<subseteq># R"
proof (rule mset_subset_eqI)
  fix i
  have "count (mset extra) i \<le> count (R + mset ids) i" using assms(1) by (rule mset_subset_eq_count)
  then have le: "count (mset extra) i \<le> count R i + count (mset ids) i" by (simp only: count_union)
  show "count (mset extra) i \<le> count R i"
  proof (cases "i \<in> set extra")
    case True
    then have "i \<notin> set ids" using assms(2) by auto
    then show ?thesis using le count_outside [of i ids] by linarith
  next
    case False
    then show ?thesis using count_outside [of i extra] by linarith
  qed
qed

lemma tree_ok_frame:
  assumes ok: "tree_ok cmp K R t To" and pgs: "\<And>i. i \<in># idsOf To \<Longrightarrow> pages u i = pages t i"
    and own: "owned u (idsOf To + R')" and same: "root u = root t" "treeLen u = treeLen t" "degree u = degree t"
    "compareKeys u = compareKeys t" "activeReaders u = activeReaders t" "revision t \<le> revision u" "cache_ok (treeCache u)"
  shows "tree_ok cmp K R' u To"
proof -
  note S = state_okD [OF tree_okD(1) [OF ok]]
  have "repOf cmp (degree u) K (pages u) To"
    unfolding same(3) by (rule repOf_frame [OF S(9)]) (rule pgs)
  then have v: "version cmp K u To" using S same by (simp add: version_def)
  have "readers_ok u" using S(4) same(5,6) by (auto simp: readers_ok_def)
  moreover have "linkedOf (pages u) To" if "activeReaders u = []"
  proof -
    have "linkedOf (pages t) To" using tree_okD(2) [OF ok] that same(5) by simp
    moreover have "i \<in># idsOf To" if "To = Some T" "i \<in> set (map fst (gleaves T))" for T i
    proof -
      have "0 < count (mset (map fst (gleaves T))) i" using that(2) by (simp only: count_greater_zero_iff set_mset_mset)
      then have "0 < count (gids T) i" using count_leafIDs [of T i] by linarith
      then show ?thesis using that(1) by simp
    qed
    ultimately show ?thesis using pgs by (auto simp: linkedOf_def intro: linked_frame)
  qed
  ultimately show ?thesis using v own S(3) same(3,7) by (simp add: tree_ok_def state_ok_def)
qed

lemma tree_ok_chained:
  assumes ok: "tree_ok cmp K R t To" and a: "arena t = Some a" and ch: "chained t a (idsOf To + R) n b pgs"
  shows "tree_ok cmp K (R + mset (metaIds (nextPage t) (metaCost t))) (prepared t b (metaCost t) pgs) To"
proof -
  let ?ids = "metaIds (nextPage t) (metaCost t)" and ?u = "prepared t b (metaCost t) pgs"
  have own: "owned ?u (mset ?ids + (idsOf To + R))" using ch by (simp add: chained_def)
  then have own': "owned ?u (idsOf To + (R + mset ?ids))" by (simp add: ac_simps)
  show ?thesis
  proof (rule tree_ok_frame [OF ok _ own'])
    fix i assume i: "i \<in># idsOf To"
    then have "1 \<le> count (idsOf To) i" by (simp only: count_greater_eq_one_iff)
    moreover have "count (mset ?ids) i + (count (idsOf To) i + count R i) \<le> 1"
      using owned_distinct [OF own, of i] by (simp only: count_union)
    ultimately have "count (mset ?ids) i = 0" by linarith
    then have "i \<notin> set ?ids" by (simp only: count_eq_zero_iff set_mset_mset not_False_eq_True)
    then show "pages ?u i = pages t i" using ch by (simp add: chained_def)
  qed (use state_okD(5) [OF tree_okD(1) [OF ok]] in \<open>simp_all add: compareKeys_def\<close>)
qed

text \<open>The pages of a tree are leaves, branches and overflow pages.\<close>

lemma rep_kind:
  assumes "rep pgs T" "i \<in># gids T" "pgs i = Some p"
  shows "\<not> metaKind p"
proof -
  have ov: "\<not> metaKind p" if "chain pgs is v" "i \<in> set is" for "is" v
    using that
  proof (induction "is" arbitrary: v)
    case (Cons j "is")
    then show ?case using assms(3) by (auto simp: overflow_page_def metaKind_def flag_defs)
  qed simp
  show ?thesis using assms(1,2)
  proof (induction T)
    case (GLeaf j es)
    show ?case
    proof (cases "i = j")
      case True
      then show ?thesis using GLeaf.prems(1) assms(3)
        by (auto simp: leafPage_def metaKind_def flag_defs dest!: holdsD(2))
    next
      case False
      then obtain e where e: "e \<in> set es" "i \<in> set (snd (snd e))"
        using GLeaf.prems(2) by (auto simp: chainIDs_def case_prod_beta)
      then have "entry_ok pgs e" using GLeaf.prems(1) by auto
      then show ?thesis using e(2) ov [of "snd (snd e)"] by (cases e) (auto simp: entry_ok_def)
    qed
  next
    case (GBranch j ts)
    show ?case
    proof (cases "i = j")
      case True
      then show ?thesis using GBranch.prems(1) assms(3)
        by (auto simp: branchPage_def metaKind_def flag_defs dest!: holdsD(2))
    next
      case False
      then show ?thesis using GBranch by auto
    qed
  qed
qed

text \<open>Freeing obsolete metadata pages keeps the invariant: they were owned by no tree page.\<close>

lemma tree_ok_obsolete:
  assumes ok: "tree_ok cmp K R t To" and a: "arena t = Some a" and ob: "obsolete (pages t) X (free t) extra"
    and dom: "\<And>i p. pages t i = Some p \<Longrightarrow> metaKind p \<Longrightarrow> i < nextPage t"
    and ret: "\<And>r p. r \<in> set (retired t) \<Longrightarrow> pages t (rp_id r) = Some p \<Longrightarrow> \<not> metaKind p"
  shows "mset extra \<subseteq># R" "tree_ok cmp K (R - mset extra) (t\<lparr>free := free t @ extra\<rparr>) To"
proof -
  note S = state_okD [OF tree_okD(1) [OF ok]]
  have in_R: "i \<in># R" if i: "i \<in> set extra" for i
  proof -
    obtain p where p: "firstTreePageID \<le> i" "pages t i = Some p" "metaKind p" "i \<notin> set (free t)"
      using ob i by (auto simp: obsolete_def)
    have "i \<in># mset_set {base t..<nextPage t}" using p(1) dom [OF p(2,3)] a by (simp add: base_def)
    then have "i \<in># idsOf To + R + mset (free t) + mset (map rp_id (retired t))"
      using S(2) unfolding owned_def by simp
    moreover have "i \<notin> rp_id ` set (retired t)" using ret p(2,3) by blast
    moreover have "i \<notin># idsOf To" using S(9) rep_kind [of "pages t" _ i p] p(2,3) by (cases To) auto
    ultimately show ?thesis using p(4) by auto
  qed
  have "count (mset extra) i \<le> count R i" for i
  proof (cases "i \<in> set extra")
    case True
    then have "count (mset extra) i = 1" using ob by (simp add: obsolete_def distinct_count_atmost_1)
    then show ?thesis using in_R [OF True] by (simp add: Suc_le_eq)
  next
    case False
    then show ?thesis using count_outside [of i extra] by linarith
  qed
  then show sub: "mset extra \<subseteq># R" by (simp add: subseteq_mset_def)
  have "owned (t\<lparr>free := free t @ extra\<rparr>) (idsOf To + (R - mset extra))"
  proof -
    have e: "idsOf To + (R - mset extra) + (mset (free t) + mset extra) + mset (map rp_id (retired t)) =
        idsOf To + R + mset (free t) + mset (map rp_id (retired t))"
      using subset_mset.diff_add [OF sub] by (simp add: ac_simps)
    show ?thesis using trans [OF e S(2) [unfolded owned_def]] by (simp add: owned_def base_def)
  qed
  then show "tree_ok cmp K (R - mset extra) (t\<lparr>free := free t @ extra\<rparr>) To"
    by (rule tree_ok_frame [OF ok, rotated]) (use S(5) in \<open>simp_all add: compareKeys_def\<close>)
qed

section \<open>Sync succeeds\<close>

text \<open>What \<^verbatim>\<open>Sync\<close> needs of a tree beyond the invariant, and what it keeps.\<close>

definition syncable :: "bytes list \<Rightarrow> Tree \<Rightarrow> bool" where
  "syncable slots t \<longleftrightarrow> \<not> closed t \<and> \<not> readOnly t \<and>
     (keyOrder t = KeyOrderBytewise \<or> keyOrder t = KeyOrderReverse) \<and> goInt (treeLen t) \<and> degree t \<le> maxPageDegree \<and>
     (\<forall>r\<in>set (retired t). rp_revision r \<noteq> 0 \<and> rp_revision r \<le> revision t \<and>
        (\<exists>p. pages t (rp_id r) = Some p \<and> \<not> metaKind p)) \<and>
     wfPages (pages t) \<and> (\<forall>i p. pages t i = Some p \<longrightarrow> pid p = i \<and> i < nextPage t) \<and> slots_ok slots"

lemma syncableD:
  assumes "syncable slots t"
  shows "\<not> closed t" "\<not> readOnly t" "keyOrder t = KeyOrderBytewise \<or> keyOrder t = KeyOrderReverse"
    "goInt (treeLen t)" "degree t \<le> maxPageDegree" "\<forall>r\<in>set (retired t). rp_revision r \<noteq> 0"
    "r \<in> set (retired t) \<Longrightarrow> rp_revision r \<le> revision t"
    "r \<in> set (retired t) \<Longrightarrow> \<exists>p. pages t (rp_id r) = Some p \<and> \<not> metaKind p"
    "wfPages (pages t)" "pages t i = Some p \<Longrightarrow> pid p = i" "pages t i = Some p \<Longrightarrow> i < nextPage t" "slots_ok slots"
  using assms by (simp_all add: syncable_def)

text \<open>The file holds the version \<open>t\<close>: its record is in its slot, and its chain can be followed.\<close>

definition on_file :: "Tree \<Rightarrow> mmapArena \<Rightarrow> bytes list \<Rightarrow> bool" where
  "on_file t b slots \<longleftrightarrow> slots_ok slots \<and>
     readMetaPageChecked (slots ! metaSlot (revision t)) = Some (Inr (Some (published t b))) \<and>
     (\<forall>i\<in>set (metaFreelistPages t). pages t i \<noteq> None) \<and>
     (\<forall>pgs. (\<forall>i\<in>set (metaFreelistPages t). pgs i = pages t i) \<longrightarrow>
        resolveMetaFreelist pgs (published t b) = Some (Inr (resolvedRecord t b)))"

text \<open>The revision of the version that \<^verbatim>\<open>Sync\<close> publishes.\<close>

definition syncRevision :: "Tree \<Rightarrow> u64" where
  "syncRevision t = (if metadataUpgradePending t \<and> revision t = syncedRevision t then revision t + 1 else revision t)"

text \<open>The version to publish is the tree at its sync revision.\<close>

lemma sync_version:
  assumes ok: "tree_ok cmp K R t To" and sy: "syncable slots t" and m: "mapped t (metaCost t + n)"
    and a: "arena t = Some a" and rv: "revision t \<noteq> lastRevision"
    and t1: "t1 = t\<lparr>revision := syncRevision t\<rparr>"
  shows "tree_ok cmp K R t1 To" "syncable slots t1" "mapped t1 (metaCost t1 + n)" "arena t1 = Some a"
    "metaCost t1 = metaCost t" "revision t \<le> revision t1"
proof -
  note S = state_okD [OF tree_okD(1) [OF ok]]
  have le: "revision t \<le> syncRevision t" using revision_Suc [OF rv] by (auto simp: syncRevision_def)
  have own1: "owned t1 (idsOf To + R)" using S(2) a by (simp add: owned_def base_def t1)
  show "tree_ok cmp K R t1 To"
    by (rule tree_ok_frame [OF ok _ own1]) (use S(5) le in \<open>simp_all add: compareKeys_def t1\<close>)
  show "syncable slots t1" using sy le by (auto simp: syncable_def t1 intro: order_trans)
  show c: "metaCost t1 = metaCost t" by (simp add: t1 metaCost_def)
  show "mapped t1 (metaCost t1 + n)" unfolding c using m a by (auto simp: mapped_def room_def base_def t1)
  show "arena t1 = Some a" "revision t \<le> revision t1" using a le by (simp_all add: t1)
qed

text \<open>The chain of its free and retired pages goes to its end, and the record can be written.\<close>

lemma metaCost_zero:
  "retired t = [] \<Longrightarrow> length (free t) \<le> maxMetaFreePages \<longleftrightarrow> metaCost t = 0"
  "retired t \<noteq> [] \<Longrightarrow> metaCost t \<noteq> 0"
proof -
  have pos: "0 < c \<Longrightarrow> 0 < v \<Longrightarrow> divideRoundUp v c \<noteq> 0" for c v using divideRoundUp_step [of c v] by simp
  have caps: "0 < freelistPageCapacity" "0 < reclaimPageCapacity" by (simp_all add: page_consts)
  show "length (free t) \<le> maxMetaFreePages \<longleftrightarrow> metaCost t = 0" if "retired t = []"
  proof (cases "length (free t) \<le> maxMetaFreePages")
    case False
    then have "0 < length (free t)" by linarith
    then show ?thesis using pos [OF caps(1)] False that by (simp add: metaCost_def)
  qed (use that in \<open>simp add: metaCost_def\<close>)
  show "metaCost t \<noteq> 0" if "retired t \<noteq> []"
    using pos [OF caps(2), of "length (free t) + length (retired t)"] that by (simp add: metaCost_def)
qed

lemma prepare_ok:
  assumes ok: "tree_ok cmp K R t To" and sy: "syncable slots t" and m: "mapped t (metaCost t + n)"
    and a: "arena t = Some a"
  obtains b pgs where "prepareMetaFreelistPages t = Some (Inr (prepared t b (metaCost t) pgs))"
    "chained t a (idsOf To + R) n b pgs"
    "\<forall>pgs'. (\<forall>i\<in>set (metaIds (nextPage t) (metaCost t)). pgs' i = pgs i) \<longrightarrow>
       resolveMetaFreelist pgs' (published (prepared t b (metaCost t) pgs) b) =
         Some (Inr (resolvedRecord (prepared t b (metaCost t) pgs) b))"
    "tree_ok cmp K (R + mset (metaIds (nextPage t) (metaCost t))) (prepared t b (metaCost t) pgs) To"
    "recordable (prepared t b (metaCost t) pgs)"
proof -
  note Y = syncableD [OF sy]
  have own: "owned t (idsOf To + R)" by (rule state_okD(2) [OF tree_okD(1) [OF ok]])
  obtain b pgs where p: "prepareMetaFreelistPages t = Some (Inr (prepared t b (metaCost t) pgs))"
    "chained t a (idsOf To + R) n b pgs"
    "\<And>pgs'. (\<And>i. i \<in> set (metaIds (nextPage t) (metaCost t)) \<Longrightarrow> pgs' i = pgs i) \<Longrightarrow>
       resolveMetaFreelist pgs' (published (prepared t b (metaCost t) pgs) b) =
         Some (Inr (resolvedRecord (prepared t b (metaCost t) pgs) b))"
    by (rule prepare_resolves [OF m a own]) (use Y(6) in \<open>auto\<close>)
  have nz: "nextPage t \<noteq> 0" using mappedD(5) [OF m a] by (auto simp: firstTreePageID_def metaPageCount_def)
  have rec: "recordable (prepared t b (metaCost t) pgs)"
  proof (cases "retired t = []")
    case True
    then show ?thesis using metaCost_zero(1) [OF True] Y(3-5) nz by (auto simp: recordable_def not_le)
  next
    case False
    then show ?thesis using metaCost_zero(2) [OF False] Y(3-5) nz by (auto simp: recordable_def)
  qed
  show thesis by (rule that [OF p(1,2) _ tree_ok_chained [OF ok a p(2)] rec]) (use p(3) in blast)
qed

lemma Sync_prefix:
  assumes ok: "tree_ok cmp K R t To" and sy: "syncable slots t" and m: "mapped t (metaCost t + n)"
    and a: "arena t = Some a" and rv: "revision t \<noteq> lastRevision"
    and t1: "t1 = t\<lparr>revision := syncRevision t\<rparr>"
  obtains b pgs where "prepareMetaFreelistPages t1 = Some (Inr (prepared t1 b (metaCost t1) pgs))"
    "chained t1 a (idsOf To + R) n b pgs"
    "tree_ok cmp K (R + mset (metaIds (nextPage t1) (metaCost t1))) (prepared t1 b (metaCost t1) pgs) To"
    "recordable (prepared t1 b (metaCost t1) pgs)" "metaCost t1 = metaCost t" "revision t \<le> revision t1"
  by (rule prepare_ok [OF sync_version(1-4) [OF assms]]) (rule that [OF _ _ _ _ sync_version(5,6) [OF assms]])

section \<open>The steps that publish a version\<close>

lemma reclaimObsolete_flag:
  "reclaimObsoleteMetaFreelistPages ord slots (t\<lparr>metadataUpgradePending := p\<rparr>) =
     map_option (\<lambda>u. u\<lparr>metadataUpgradePending := p\<rparr>) (reclaimObsoleteMetaFreelistPages ord slots t)"
proof -
  have eq: "t\<lparr>metadataUpgradePending := p, free := fs\<rparr> = t\<lparr>free := fs, metadataUpgradePending := p\<rparr>" for fs
    by (rule Tree.equality) simp_all
  show ?thesis
    unfolding reclaimObsoleteMetaFreelistPages_def
    by (simp add: map_option_bind comp_def split: option.split) (simp only: eq simp_thms)
qed

lemma chained_pages:
  assumes sy: "syncable slots t" and a: "arena t = Some a" and ch: "chained t a M n b pgs" and m: "nextPage t \<noteq> 0"
  shows "nextPage t \<le> nextPage (prepared t b (metaCost t) pgs)" "wfPages pgs"
    "pgs i = Some p \<Longrightarrow> pid p = i \<and> i < nextPage (prepared t b (metaCost t) pgs)"
    "r \<in> set (retired t) \<Longrightarrow> \<exists>p. pgs (rp_id r) = Some p \<and> \<not> metaKind p"
proof -
  note Y = syncableD [OF sy] and C = ch [unfolded chained_def]
  let ?t2 = "prepared t b (metaCost t) pgs" and ?ids = "metaIds (nextPage t) (metaCost t)"
  have own: "owned ?t2 (mset ?ids + M)" using C by simp
  have in_ids: "i < nextPage ?t2" if "i \<in> set ?ids" for i using owned_range(2) [OF own, of i] that by simp
  show np: "nextPage t \<le> nextPage ?t2"
  proof (cases "metaCost t")
    case (Suc k)
    then have "nextPage t \<in> set ?ids" by (simp add: metaIds_Suc)
    then show ?thesis using in_ids by fastforce
  qed simp
  have out: "i < nextPage ?t2" if "i < nextPage t" for i using that np by simp
  show "pgs i = Some p \<Longrightarrow> pid p = i \<and> i < nextPage ?t2"
    using C Y(10,11) in_ids out by (cases "i \<in> set ?ids") fastforce+
  have "dom pgs \<subseteq> set ?ids \<union> dom (pages t)" using C by (auto simp: dom_def)
  then have "finite (dom pgs)" using Y(9) finite_subset by (auto simp: wfPages_def)
  moreover have "wf_page p" if "pgs i = Some p" for i p
    using that C Y(9) by (cases "i \<in> set ?ids") (fastforce simp: wfPages_def)+
  ultimately show "wfPages pgs" by (simp add: wfPages_def)
  show "\<exists>p. pgs (rp_id r) = Some p \<and> \<not> metaKind p" if r: "r \<in> set (retired t)"
  proof -
    have "rp_id r \<notin> set ?ids" using owned_disjoint(2) [OF own, of "rp_id r"] r by auto
    then show ?thesis using Y(8) [OF r] C by simp
  qed
qed

text \<open>
  When the system calls succeed, every step does: \<open>t3\<close> is the version that was published, \<open>extra\<close>
  the metadata pages that no slot refers to any more.
\<close>

lemma publish_steps:
  assumes ok: "tree_ok cmp K R t To" and sy: "syncable slots t" and m: "mapped t (metaCost t + n)"
    and a: "arena t = Some a" and io: "\<And>pt. io pt"
  obtains b0 pgs dd rs t3 extra d where
    "prepareMetaFreelistPages t = Some (Inr (prepared t b0 (metaCost t) pgs))"
    "syncDataPages io b0 (nextPage (prepared t b0 (metaCost t) pgs)) = (None, b0\<lparr>dirtyPages := dd\<rparr>, rs)"
    "t3 = (prepared t b0 (metaCost t) pgs)\<lparr>arena := Some (b0\<lparr>dirtyPages := dd\<rparr>)\<rparr>"
    "publishMeta io t3 slots = Some (None, slots[metaSlot (revision t) := d])"
    "reclaimObsoleteMetaFreelistPages ord (slots[metaSlot (revision t) := d]) t3 = Some (t3\<lparr>free := free t3 @ extra\<rparr>)"
    "tree_ok cmp K (R + mset (metaFreelistPages t3)) t3 To"
    "mset extra \<subseteq># R" "set extra \<inter> set (metaFreelistPages t3) = {}"
    "tree_ok cmp K (R + mset (metaFreelistPages t3) - mset extra) (t3\<lparr>free := free t3 @ extra\<rparr>) To"
    "grown a b0" "mapped t3 n" "syncable (slots[metaSlot (revision t) := d]) t3"
    "on_file t3 (b0\<lparr>dirtyPages := dd\<rparr>) (slots[metaSlot (revision t) := d])" "nextPage t \<le> nextPage t3"
proof -
  note Y = syncableD [OF sy]
  have nz: "nextPage t \<noteq> 0" using mappedD(5) [OF m a] by (auto simp: firstTreePageID_def metaPageCount_def)
  obtain b pgs where p: "prepareMetaFreelistPages t = Some (Inr (prepared t b (metaCost t) pgs))"
    "chained t a (idsOf To + R) n b pgs"
    "\<forall>pgs'. (\<forall>i\<in>set (metaIds (nextPage t) (metaCost t)). pgs' i = pgs i) \<longrightarrow>
       resolveMetaFreelist pgs' (published (prepared t b (metaCost t) pgs) b) =
         Some (Inr (resolvedRecord (prepared t b (metaCost t) pgs) b))"
    and ok2: "tree_ok cmp K (R + mset (metaIds (nextPage t) (metaCost t))) (prepared t b (metaCost t) pgs) To"
    and rec2: "recordable (prepared t b (metaCost t) pgs)"
    by (rule prepare_ok [OF ok sy m a])
  let ?t2 = "prepared t b (metaCost t) pgs" and ?ids = "metaIds (nextPage t) (metaCost t)"
  note C = p(2) [unfolded chained_def] and P = chained_pages [OF sy a p(2) nz]
  have m2: "mapped ?t2 n" using C by simp
  obtain dd rs where sd: "syncDataPages io b (nextPage ?t2) = (None, b\<lparr>dirtyPages := dd\<rparr>, rs)"
    by (rule syncDataPages_ok [OF m2 prepared_fields(4) io])
  let ?b = "b\<lparr>dirtyPages := dd\<rparr>"
  let ?t3 = "?t2\<lparr>arena := Some ?b\<rparr>"
  have ok3: "tree_ok cmp K (R + mset ?ids) ?t3 To"
    by (rule tree_ok_frame [OF ok2])
       (use state_okD(2,5) [OF tree_okD(1) [OF ok2]] in \<open>simp_all add: compareKeys_def owned_def base_def\<close>)
  have m3: "mapped ?t3 n" using m2 by (auto simp: mapped_def room_def base_def)
  have pub: "published ?t3 ?b = published ?t2 b" "resolvedRecord ?t3 ?b = resolvedRecord ?t2 b"
    by (simp_all add: resolvedRecord_def published_def metaRecordOf_def)
  have rec: "recordable ?t3" using rec2 by (simp add: recordable_def)
  have own3: "owned ?t3 (idsOf To + (R + mset ?ids))" by (rule state_okD(2) [OF tree_okD(1) [OF ok3]])
  obtain d where d: "publishMeta io ?t3 slots = Some (None, slots[metaSlot (revision ?t3) := d])"
    "length d = PageSize" "readMetaPageChecked d = Some (Inr (Some (published ?t3 ?b)))"
    by (rule publishMeta_ok [OF io m3 _ own3 rec Y(12), of ?b]) (simp, rule that)
  let ?slots = "slots[metaSlot (revision t) := d]"
  have slots: "slots_ok ?slots" "?slots ! metaSlot (revision t) = d"
    using Y(12) d(2,3) metaSlot_less [of "revision t"] set_update_subset_insert [of slots "metaSlot (revision t)" d]
    by (auto simp: slots_ok_def)
  obtain extra X where ob: "reclaimObsoleteMetaFreelistPages ord ?slots ?t3 = Some (?t3\<lparr>free := free ?t3 @ extra\<rparr>)"
    "obsolete (pages ?t3) (X \<union> set (metaFreelistPages ?t3)) (free ?t3) extra"
    by (rule reclaimObsolete_ok [of ?t3 ?b ?slots]) (use P(2) slots(1) in \<open>simp_all add: slots_ok_def\<close>)
  have dom3: "i < nextPage ?t3" if "pages ?t3 i = Some p" "metaKind p" for i p using P(3) [of i p] that by simp
  have ret3: "\<not> metaKind p" if "r \<in> set (retired ?t3)" "pages ?t3 (rp_id r) = Some p" for r p
    using P(4) [of r] that by fastforce
  have ar3: "arena ?t3 = Some ?b" by simp
  have T: "mset extra \<subseteq># R + mset ?ids"
    "tree_ok cmp K (R + mset ?ids - mset extra) (?t3\<lparr>free := free ?t3 @ extra\<rparr>) To"
    by (rule tree_ok_obsolete [OF ok3 ar3 ob(2)]; (rule dom3 ret3; assumption))+
  have off: "set extra \<inter> set (metaFreelistPages ?t3) = {}" using ob(2) by (auto simp: obsolete_def)
  have sub: "mset extra \<subseteq># R" by (rule subset_outside [OF T(1)]) (use off in simp)
  show thesis
  proof (rule that [of b pgs dd rs ?t3 d extra])
    show "syncable ?slots ?t3" using Y P(2-4) slots(1) by (auto simp: syncable_def)
    show "on_file ?t3 ?b ?slots"
      unfolding on_file_def pub using slots d(3) [unfolded pub] p(3) C by fastforce
  qed (use p(1) sd d(1) ob(1) ok3 T off sub m3 C P(1) in \<open>simp_all add: mset_map\<close>)
qed

section \<open>Sync succeeds\<close>

lemma Sync_ok:
  assumes ok: "tree_ok cmp K R t To" and sy: "syncable slots t" and m: "mapped t (metaCost t + n)"
    and a: "arena t = Some a" and rv: "revision t \<noteq> lastRevision" and io: "\<And>pt. io pt"
  obtains t3 b extra d where
    "Sync io ord t slots = Some (None, t3\<lparr>metadataUpgradePending := False, free := free t3 @ extra,
       syncedRevision := revision t3\<rparr>, slots[metaSlot (revision t3) := d])"
    "tree_ok cmp K (R + mset (metaFreelistPages t3)) t3 To"
    "mset extra \<subseteq># R" "set extra \<inter> set (metaFreelistPages t3) = {}"
    "tree_ok cmp K (R + mset (metaFreelistPages t3) - mset extra) (t3\<lparr>free := free t3 @ extra\<rparr>) To"
    "arena t3 = Some b" "grown a b" "mapped t3 n" "syncable (slots[metaSlot (revision t3) := d]) t3"
    "on_file t3 b (slots[metaSlot (revision t3) := d])"
    "revision t3 = syncRevision t" "free t3 = free t" "retired t3 = retired t"
    "keyComparator t3 = keyComparator t" "activeReaders t3 = activeReaders t" "keyOrder t3 = keyOrder t" "degree t3 = degree t"
    "nextPage t \<le> nextPage t3"
proof -
  note Y = syncableD [OF sy]
  define t1 where "t1 = (if metadataUpgradePending t \<and> revision t = syncedRevision t
      then t\<lparr>revision := revision t + 1\<rparr> else t)"
  have t1: "t1 = t\<lparr>revision := syncRevision t\<rparr>" by (simp add: t1_def syncRevision_def)
  note V = sync_version [OF ok sy m a rv t1]
  obtain b0 pgs dd rs t3 extra d where P:
    "prepareMetaFreelistPages t1 = Some (Inr (prepared t1 b0 (metaCost t1) pgs))"
    "syncDataPages io b0 (nextPage (prepared t1 b0 (metaCost t1) pgs)) = (None, b0\<lparr>dirtyPages := dd\<rparr>, rs)"
    "t3 = (prepared t1 b0 (metaCost t1) pgs)\<lparr>arena := Some (b0\<lparr>dirtyPages := dd\<rparr>)\<rparr>"
    "publishMeta io t3 slots = Some (None, slots[metaSlot (revision t1) := d])"
    "reclaimObsoleteMetaFreelistPages ord (slots[metaSlot (revision t1) := d]) t3 = Some (t3\<lparr>free := free t3 @ extra\<rparr>)"
    and Q: "tree_ok cmp K (R + mset (metaFreelistPages t3)) t3 To"
    "mset extra \<subseteq># R" "set extra \<inter> set (metaFreelistPages t3) = {}"
    "tree_ok cmp K (R + mset (metaFreelistPages t3) - mset extra) (t3\<lparr>free := free t3 @ extra\<rparr>) To"
    "grown a b0" "mapped t3 n" "syncable (slots[metaSlot (revision t1) := d]) t3"
    "on_file t3 (b0\<lparr>dirtyPages := dd\<rparr>) (slots[metaSlot (revision t1) := d])" "nextPage t1 \<le> nextPage t3"
    by (rule publish_steps [OF V(1-4) io]) (rule that)
  have F: "revision t3 = syncRevision t" "revision t1 = syncRevision t" "free t3 = free t" "retired t3 = retired t"
    "keyComparator t3 = keyComparator t" "activeReaders t3 = activeReaders t" "keyOrder t3 = keyOrder t" "degree t3 = degree t"
    "nextPage t1 = nextPage t"
    by (simp_all add: P(3) t1)
  have ob: "reclaimObsoleteMetaFreelistPages ord (slots[metaSlot (revision t1) := d]) (t3\<lparr>metadataUpgradePending := False\<rparr>) =
      Some (t3\<lparr>metadataUpgradePending := False, free := free t3 @ extra\<rparr>)"
    by (simp add: reclaimObsolete_flag P(5))
  have "syncMmap io ord t slots = Some (None, t3\<lparr>metadataUpgradePending := False, free := free t3 @ extra\<rparr>,
      slots[metaSlot (revision t1) := d])"
    using a mappedD(4) [OF m a] P(1,2,4) ob unfolding syncMmap_def t1_def [symmetric]
    by (simp add: Let_def t1_def [symmetric] P(3))
  then have "Sync io ord t slots = Some (None, t3\<lparr>metadataUpgradePending := False, free := free t3 @ extra,
      syncedRevision := revision t3\<rparr>, slots[metaSlot (revision t3) := d])"
    using Y(1,2) a by (simp add: Sync_def F(1,2))
  then show thesis
    by (rule that [of t3 extra d "b0\<lparr>dirtyPages := dd\<rparr>"])
       (use Q F in \<open>simp_all add: grown_def P(3)\<close>)
qed

section \<open>Sync fails\<close>

lemma metaIds_range:
  assumes "i \<in> set (metaIds n k)" "unat n + k < 2 ^ 60"
  shows "n \<le> i" "i < n + of_nat k"
proof -
  obtain j where j: "i = n + of_nat j" "j < k" using assms(1) by (auto simp: metaIds_def)
  have small: "unat (of_nat m :: u64) = m" "unat (n + of_nat m) = unat n + m" if "m \<le> k" for m
  proof -
    show u: "unat (of_nat m :: u64) = m" using that assms(2) by (simp add: unat_of_nat)
    show "unat (n + of_nat m) = unat n + m" using that assms(2) u by (simp add: unat_word_ariths)
  qed
  show "n \<le> i" "i < n + of_nat k"
    using j small(2) [of j] small(2) [of k] by (simp_all add: word_le_nat_alt word_less_nat_alt)
qed

lemma publishMeta_any:
  assumes "slots_ok slots" "arena t = Some a" "\<not> ar_readOnly a"
    and w: "\<exists>d'. writeMetaPage (slots ! metaSlot (revision t)) (metaRecordOf t a) = Some (Inr d')"
  shows "\<exists>err slots'. publishMeta io t slots = Some (err, slots') \<and> (err \<noteq> None \<longrightarrow> slots' = slots)"
proof -
  have "metaSlot (revision t) < length slots" using assms(1) metaSlot_less by (simp add: slots_ok_def)
  then show ?thesis
    using w assms(2,3) by (auto simp: publishMeta_def persistMeta_def Let_def split: option.split)
qed

lemma syncDataPages_any:
  obtains err d rs where "syncDataPages io a n = (err, a\<lparr>dirtyPages := d\<rparr>, rs)"
proof -
  have "fst (snd (syncDataPages io a n)) = a \<or> fst (snd (syncDataPages io a n)) = a\<lparr>dirtyPages := {}\<rparr>"
    by (simp add: syncDataPages_def Let_def)
  moreover have "a\<lparr>dirtyPages := dirtyPages a\<rparr> = a" by simp
  ultimately obtain d where "fst (snd (syncDataPages io a n)) = a\<lparr>dirtyPages := d\<rparr>" by metis
  then show thesis using that by (cases "syncDataPages io a n") auto
qed

text \<open>A step that succeeded is the step that succeeds when every system call does.\<close>

lemma syncDataPages_mono:
  "syncDataPages io a n = (None, b, rs) \<Longrightarrow> syncDataPages (\<lambda>_. True) a n = (None, b, rs)"
  by (auto simp: syncDataPages_def Let_def split: if_splits)

lemma publishMeta_mono:
  "publishMeta io t slots = Some (None, s) \<Longrightarrow> publishMeta (\<lambda>_. True) t slots = Some (None, s)"
  by (auto simp: publishMeta_def syncMetaPage_def Let_def bind_Some_iff split: option.splits if_splits sum.splits)

text \<open>Whatever the system calls do, \<^verbatim>\<open>Sync\<close> returns; after an error only the mapping may have grown.\<close>

lemma Sync_total:
  assumes ok: "tree_ok cmp K R t To" and sy: "syncable slots t" and m: "mapped t (metaCost t + n)"
    and a: "arena t = Some a" and rv: "revision t \<noteq> lastRevision"
  shows "\<exists>err t' slots'. Sync io ord t slots = Some (err, t', slots') \<and>
    (err \<noteq> None \<longrightarrow> slots' = slots \<and> (\<exists>b. t' = t\<lparr>arena := Some b\<rparr> \<and> grown a b \<and> dirtyPages b = dirtyPages a))"
proof -
  note Y = syncableD [OF sy] and A = mappedD [OF m a]
  define t1 where "t1 = (if metadataUpgradePending t \<and> revision t = syncedRevision t
      then t\<lparr>revision := revision t + 1\<rparr> else t)"
  have t1: "t1 = t\<lparr>revision := syncRevision t\<rparr>" by (simp add: t1_def syncRevision_def)
  have F: "pages t1 = pages t" "nextPage t1 = nextPage t" "metaFreelistRoot t1 = metaFreelistRoot t"
    "metaFreelistPages t1 = metaFreelistPages t" "arena t1 = Some a" using a by (simp_all add: t1)
  obtain b pgs where p: "prepareMetaFreelistPages t1 = Some (Inr (prepared t1 b (metaCost t1) pgs))"
    and ch: "chained t1 a (idsOf To + R) n b pgs"
    and ok2: "tree_ok cmp K (R + mset (metaIds (nextPage t1) (metaCost t1))) (prepared t1 b (metaCost t1) pgs) To"
    and rec2: "recordable (prepared t1 b (metaCost t1) pgs)" and cost: "metaCost t1 = metaCost t"
    by (rule Sync_prefix [OF ok sy m a rv t1]) (rule that)
  let ?k = "metaCost t1"
  let ?t2 = "prepared t1 b ?k pgs" and ?ids = "metaIds (nextPage t1) ?k"
  note C = ch [unfolded chained_def]
  have undone: "\<exists>c. (restoreMetaPages t1 (addedSince t1 ?t2) (?t2\<lparr>arena := Some c'\<rparr>))\<lparr>revision := revision t\<rparr> = t\<lparr>arena := Some c\<rparr> \<and>
      grown a c \<and> dirtyPages c = dirtyPages a" if "grown a c'" for c'
  proof -
    have new: "pages t i = None" if "nextPage t1 \<le> i" for i
      using Y(11) [of i] F(2) that by (cases "pages t i") fastforce+
    have old: "pgs i = pages t i" if "\<not> (nextPage t1 \<le> i \<and> i < nextPage t1 + of_nat ?k)" for i
    proof -
      have "i \<notin> set ?ids" using metaIds_range [of i "nextPage t1" ?k] A(6) cost F(2) that by auto
      then show ?thesis using C F(1) by auto
    qed
    have pg: "(\<lambda>i. if i \<in> addedSince t1 ?t2 then None else pages (?t2\<lparr>arena := Some c'\<rparr>) i) = pages t"
      by (rule HOL.ext) (use new old in \<open>auto simp: addedSince_def\<close>)
    have "(restoreMetaPages t1 (addedSince t1 ?t2) (?t2\<lparr>arena := Some c'\<rparr>))\<lparr>revision := revision t\<rparr> =
        t\<lparr>arena := Some (c'\<lparr>dirtyPages := dirtyPages a\<rparr>)\<rparr>"
      unfolding restoreMetaPages_def pg using F
      by (simp add: restoreDirty_def prepared_def rechained_def) (simp add: t1)
    moreover have "grown a (c'\<lparr>dirtyPages := dirtyPages a\<rparr>)" using that by (simp add: grown_def)
    ultimately show ?thesis by (metis mmapArena.select_convs(3) mmapArena.surjective mmapArena.update_convs(3))
  qed
  obtain err d rs where sd: "syncDataPages io b (nextPage ?t2) = (err, b\<lparr>dirtyPages := d\<rparr>, rs)"
    by (rule syncDataPages_any)
  let ?b = "b\<lparr>dirtyPages := d\<rparr>"
  have gb: "grown a b" "grown a ?b" using C by (simp_all add: grown_def)
  have "?t2\<lparr>arena := Some b\<rparr> = ?t2" by (rule Tree.equality) simp_all
  then have g2: "restoreMetaPages t1 (addedSince t1 ?t2) ?t2 = restoreMetaPages t1 (addedSince t1 ?t2) (?t2\<lparr>arena := Some b\<rparr>)"
    by (simp only:)
  show ?thesis
  proof (cases err)
    case (Some e)
    obtain c where c: "(restoreMetaPages t1 (addedSince t1 ?t2) ?t2)\<lparr>revision := revision t\<rparr> = t\<lparr>arena := Some c\<rparr>"
      "grown a c" "dirtyPages c = dirtyPages a" using undone [OF gb(1)] g2 by auto
    have "syncMmap io ord t slots =
        Some (Some e, (restoreMetaPages t1 (addedSince t1 ?t2) ?t2)\<lparr>revision := revision t\<rparr>, slots)"
      unfolding syncMmap_def Let_def t1_def [symmetric] a option.case if_not_P [OF A(4)] p bind.bind_lunit sum.case
        prepared_fields(4) sd [unfolded Some] prod.case by (rule refl)
    then have "Sync io ord t slots = Some (Some e, t\<lparr>arena := Some c\<rparr>, slots)"
      unfolding c(1) using Y(1,2) a by (simp add: Sync_def)
    then show ?thesis using c(2,3) by blast
  next
    case None
    let ?t3 = "?t2\<lparr>arena := Some ?b\<rparr>"
    have slots: "slots_ok slots" by (rule Y(12))
    have "metaSlot (revision ?t3) < length slots" "\<forall>d\<in>set slots. length d = PageSize"
      using slots metaSlot_less by (simp_all add: slots_ok_def)
    then have "length (slots ! metaSlot (revision ?t3)) = PageSize" by simp
    from recordable_accepted [OF this, of ?t3 ?b] have w:
      "\<exists>d'. writeMetaPage (slots ! metaSlot (revision ?t3)) (metaRecordOf ?t3 ?b) = Some (Inr d')"
      using rec2 by (simp add: recordable_def)
    have ro: "\<not> ar_readOnly ?b" using C mappedD(4) [of ?t2 n b] by simp
    obtain err2 slots' where pm: "publishMeta io ?t3 slots = Some (err2, slots')" "err2 \<noteq> None \<longrightarrow> slots' = slots"
      using publishMeta_any [OF slots _ ro w, of io] by auto
    show ?thesis
    proof (cases err2)
      case (Some e)
      obtain c where c: "(restoreMetaPages t1 (addedSince t1 ?t2) ?t3)\<lparr>revision := revision t\<rparr> = t\<lparr>arena := Some c\<rparr>"
        "grown a c" "dirtyPages c = dirtyPages a" using undone [OF gb(2)] by auto
      have "syncMmap io ord t slots =
          Some (Some e, (restoreMetaPages t1 (addedSince t1 ?t2) ?t3)\<lparr>revision := revision t\<rparr>, slots)"
        using a A(4) p sd None Some pm unfolding syncMmap_def t1_def [symmetric]
        by (simp add: Let_def t1_def [symmetric])
      then have "Sync io ord t slots = Some (Some e, t\<lparr>arena := Some c\<rparr>, slots)"
      unfolding c(1) using Y(1,2) a by (simp add: Sync_def)
    then show ?thesis using c(2,3) by blast
    next
      case None
      note sd' = syncDataPages_mono [OF sd [unfolded \<open>err = None\<close>]]
        and pm' = publishMeta_mono [OF pm(1) [unfolded None]]
      have "syncMmap io ord t slots = syncMmap (\<lambda>_. True) ord t slots"
        using a A(4) p sd sd' \<open>err = None\<close> None pm(1) pm' unfolding syncMmap_def t1_def [symmetric]
        by (simp add: Let_def t1_def [symmetric])
      then have "Sync io ord t slots = Sync (\<lambda>_. True) ord t slots" by (simp add: Sync_def)
      then show ?thesis using Sync_ok [OF ok sy m a rv, of "\<lambda>_. True" ord] by fastforce
    qed
  qed
qed

end
