(* ===== verification/RecoveryCorrect.thy ===== *)
theory RecoveryCorrect
  imports SyncCorrect
begin

text \<open>
  Recovery of a version that the file holds (\<open>on_file\<close>): the scan of the slots, the checks of
  the candidate and the rebuilt lists give back the tree that was published, with its entries,
  its free and its retired pages (\<open>loadMeta_ok\<close>, \<open>OpenMmap_ok\<close>).
\<close>

section \<open>The lists of a sound record pass\<close>

lemma validateFreelist_ok:
  "(\<forall>i\<in>set is. firstTreePageID \<le> i \<and> i < nextPage t \<and> i < maxOwnedPage n) \<Longrightarrow> distinct is \<Longrightarrow>
     set is \<inter> claimed = {} \<Longrightarrow> validateFreelist t n claimed is = (claimed \<union> set is, None)"
  by (induction "is" arbitrary: claimed) (auto simp: not_le)

lemma validateRetiredPages_ok:
  "(\<forall>r\<in>set rs. firstTreePageID \<le> rp_id r \<and> rp_id r < nextPage t \<and> rp_id r < maxOwnedPage n \<and>
      rp_revision r \<noteq> 0 \<and> rp_revision r \<le> v) \<Longrightarrow> distinct (map rp_id rs) \<Longrightarrow>
     rp_id ` set rs \<inter> claimed = {} \<Longrightarrow> validateRetiredPages t v n claimed rs = (claimed \<union> rp_id ` set rs, None)"
  by (induction rs arbitrary: claimed) (auto simp: not_le not_less)

section \<open>Bounds\<close>

lemma validateMetaBounds_ok:
  assumes m: "mapped t n" and b: "arena t = Some b" and a: "maxPages b \<le> maxPages a" "maxPages a < 2 ^ 62"
    and rt: "root t \<noteq> 0 \<Longrightarrow> firstTreePageID \<le> root t \<and> root t < nextPage t"
  shows "validateMetaBounds a (published t b) = None"
proof -
  note D = mappedD [OF m b]
  have u: "uint (word_of_int x :: u64) = x" if "0 \<le> x" "x < 2 ^ 63" for x
    using that by (simp add: uint_word_of_int)
  have pos: "0 \<le> maxPages b" using D(2) by (simp add: minMmapPageCount_def)
  have "uint (maxOwnedPage (maxPages b)) = maxPages b + 2"
    using D(3) pos u [of "maxPages b"] by (simp add: maxOwnedPage_def firstTreePageID_def metaPageCount_def uint_word_ariths)
  then have o: "nextPage t \<le> maxOwnedPage (maxPages b)"
    using D(8) by (simp add: word_le_def metaPageCount_def)
  have "nextPage t \<le> word_of_int (maxPages a + int metaPageCount)"
    using D(8) a pos u [of "maxPages a + int metaPageCount"] by (simp add: word_le_def metaPageCount_def)
  then show ?thesis using D(2,5) o rt by (auto simp: validateMetaBounds_def Let_def not_less not_le)
qed

section \<open>The candidate\<close>

definition recovered :: "Tree \<Rightarrow> Tree \<Rightarrow> Tree" where
  "recovered u t = u\<lparr>root := root t, nextPage := nextPage t, treeLen := treeLen t, revision := revision t,
     syncedRevision := revision t, degree := degree t, keyOrder := keyOrder t,
     keyComparator := Some (keyComparatorForOrder (keyOrder t)), customComparator := False,
     free := free t, retired := retired t, metaFreelistRoot := metaFreelistRoot t,
     metaFreelistPages := metaFreelistPages t, metadataUpgradePending := False\<rparr>"

lemma recovered_fields [simp]:
  "root (recovered u t) = root t" "nextPage (recovered u t) = nextPage t" "treeLen (recovered u t) = treeLen t"
  "revision (recovered u t) = revision t" "degree (recovered u t) = degree t" "keyOrder (recovered u t) = keyOrder t"
  "syncedRevision (recovered u t) = revision t"
  "compareKeys (recovered u t) = keyComparatorForOrder (keyOrder t)" "free (recovered u t) = free t"
  "retired (recovered u t) = retired t" "pages (recovered u t) = pages u" "arena (recovered u t) = arena u"
  "activeReaders (recovered u t) = activeReaders u" "treeCache (recovered u t) = treeCache u"
  "metaFreelistPages (recovered u t) = metaFreelistPages t" "closed (recovered u t) = closed u"
  "readOnly (recovered u t) = readOnly u"
  by (simp_all add: recovered_def compareKeys_def)

text \<open>A version that can be recovered: published from a sound, filled tree while no reader was active.\<close>

definition version_on_file :: "comparator \<Rightarrow> nat \<Rightarrow> PageID multiset \<Rightarrow> nat \<Rightarrow> Tree \<Rightarrow> mmapArena \<Rightarrow> bytes list \<Rightarrow> gtree option \<Rightarrow> bool" where
  "version_on_file cmp K R n t b slots To \<longleftrightarrow>
     tree_ok cmp K (R + mset (metaFreelistPages t)) t To \<and> filledOf (degree t) To \<and> activeReaders t = [] \<and>
     cmp = keyComparatorForOrder (keyOrder t) \<and> arena t = Some b \<and> mapped t n \<and> syncable slots t \<and> on_file t b slots"

lemma applyMetaRecord_published:
  assumes "2 \<le> degree t" "firstTreePageID \<le> nextPage t" "keyOrder t = KeyOrderBytewise \<or> keyOrder t = KeyOrderReverse"
  shows "(applyMetaRecord u (published t b))\<lparr>free := free t, retired := retired t, metaFreelistRoot := metaFreelistRoot t,
      metaFreelistPages := metaFreelistPages t, metadataUpgradePending := False\<rparr> = recovered u t"
  using assms keyOrder_accepted [OF assms(3)]
  by (simp add: applyMetaRecord_def recovered_def normalizeDegree_def not_less)

lemma recovered_tree_ok:
  assumes v: "version_on_file cmp K R n t b slots To" and u: "arena u = Some a" "activeReaders u = []" "cache_ok (treeCache u)"
    and pgs: "\<And>i. i \<in># idsOf To \<Longrightarrow> pages u i = pages t i"
  shows "tree_ok cmp K (R + mset (metaFreelistPages t)) (recovered u t) To"
proof -
  have ok: "tree_ok cmp K (R + mset (metaFreelistPages t)) t To" and ar: "arena t = Some b" "activeReaders t = []"
    and kc: "cmp = keyComparatorForOrder (keyOrder t)"
    using v unfolding version_on_file_def by blast+
  note S = state_okD [OF tree_okD(1) [OF ok]]
  have own: "owned (recovered u t) (idsOf To + (R + mset (metaFreelistPages t)))"
    using S(2) u(1) ar(1) by (simp add: owned_def base_def)
  show ?thesis
    by (rule tree_ok_frame [OF ok _ own]) (use pgs S(6) kc u ar in simp_all)
qed

context key_comparator
begin

lemma tryCandidate_ok:
  assumes v: "version_on_file cmp K R n t b slots To" and a: "maxPages b \<le> maxPages a" "maxPages a < 2 ^ 62"
    and pgs: "\<And>i. i \<in># idsOf To + mset (metaFreelistPages t) \<Longrightarrow> pages u i = pages t i"
    and u: "arena u = Some a'" "activeReaders u = []" "cache_ok (treeCache u)"
  shows "tryCandidate a u (published t b) = Some (Inr (recovered u t))"
proof -
  have ok: "tree_ok cmp K (R + mset (metaFreelistPages t)) t To" and ar: "arena t = Some b" "activeReaders t = []"
    and fill: "filledOf (degree t) To" and m: "mapped t n" and sy: "syncable slots t" and of: "on_file t b slots"
    and kc: "cmp = keyComparatorForOrder (keyOrder t)"
    using v unfolding version_on_file_def by blast+
  note S = state_okD [OF tree_okD(1) [OF ok]]
  note Y = syncableD [OF sy] and D = mappedD [OF m ar(1)]
  let ?r = "published t b" and ?t = "applyMetaRecord u (published t b)" and ?m = "metaFreelistPages t"
  have d: "2 \<le> degree t" using S(3) by (simp add: roomy_def)
  have ko: "normalizeKeyOrder (keyOrder t) = keyOrder t" using keyOrder_accepted [OF Y(3)] by simp
  have F: "root ?t = root t" "nextPage ?t = nextPage t" "degree ?t = degree t" "pages ?t = pages u"
    "compareKeys ?t = cmp" "treeLen ?t = treeLen t"
    using d leD [OF D(5)] ko kc by (simp_all add: applyMetaRecord_def normalizeDegree_def compareKeys_def)
  have res: "resolveMetaFreelist (pages u) ?r = Some (Inr (resolvedRecord t b))"
    using of pgs by (simp add: on_file_def)
  have base: "base t = firstTreePageID" using ar by (simp add: base_def)
  have rng: "firstTreePageID \<le> i \<and> i < nextPage t \<and> i < maxOwnedPage (maxPages b)"
    if "i \<in># idsOf To + (R + mset ?m) \<or> i \<in> set (free t) \<or> i \<in> rp_id ` set (retired t)" for i
    using owned_range(1,2) [OF S(2) that] below_maxOwned [OF m ar(1)] base by simp
  note once = owned_once [OF S(2)] and dis = owned_disjoint [OF S(2)]
  have cnt: "count (idsOf To) x + (count R x + count (mset ?m) x) \<le> 1" for x
    using owned_distinct [OF S(2), of x] by (simp only: count_union)
  have once_To: "count (idsOf To) x \<le> 1" for x using cnt [of x] by linarith
  have "count (mset ?m) x \<le> 1" for x using cnt [of x] by linarith
  then have dm: "distinct ?m" by (rule distinct_mset)
  have apart: "set ?m \<inter> set_mset (idsOf To) = {}"
  proof (rule ccontr)
    assume "set ?m \<inter> set_mset (idsOf To) \<noteq> {}"
    then obtain x where "x \<in># mset ?m" "x \<in># idsOf To" by auto
    then have "1 \<le> count (mset ?m) x" "1 \<le> count (idsOf To) x" by (simp_all only: count_greater_eq_one_iff)
    then show False using cnt [of x] by linarith
  qed
  have lists: "count (mset (free t @ map rp_id (retired t))) x \<le> 1" for x using once [of x] by simp
  then have "distinct (free t @ map rp_id (retired t))" by (rule distinct_mset)
  then have dl: "distinct (free t)" "distinct (map rp_id (retired t))" "set (free t) \<inter> rp_id ` set (retired t) = {}" by auto
  let ?own = "set_mset (idsOf To) \<union> set ?m"
  have off: "set (free t) \<inter> ?own = {}" "rp_id ` set (retired t) \<inter> ?own = {}" using dis(1,2) by fastforce+
  have f: "validateFreelist ?t (maxPages b) ?own (free t) = (?own \<union> set (free t), None)"
    by (rule validateFreelist_ok [OF _ dl(1) off(1)]) (use rng F(2) in simp)
  have rt: "validateRetiredPages ?t (revision t) (maxPages b) (?own \<union> set (free t)) (retired t) =
      (?own \<union> set (free t) \<union> rp_id ` set (retired t), None)"
    by (rule validateRetiredPages_ok [OF _ dl(2)]) (use rng F(2) Y(6,7) off dl(3) in auto)
  have pages_ok: "repOf cmp (degree t) K (pages u) To" by (rule repOf_frame [OF S(9)]) (simp add: pgs)
  have "tree_ok cmp K (R + mset ?m) (recovered u t) To"
    by (rule recovered_tree_ok [OF v u]) (simp add: pgs)
  then have links: "linkedOf (pages u) To" using tree_okD(2) u(2) by fastforce
  have walks: "validateReachablePages ?t = Some (set_mset (idsOf To), None) \<and> validateLeafLinks ?t = Some None \<and>
      (\<exists>seen. countReachableKeys (pages u) (root t) {} = Some (treeLen t, seen))"
  proof (cases To)
    case None
    then show ?thesis using F(1) S(7,8)
      by (simp add: validateReachablePages_def validatePage_def validatePageBounds.simps validateLeafLinks_def
          collectLeavesInOrder.simps countReachableKeys.simps)
  next
    case (Some T)
    have T: "root ?t = gid T" "rep (pages ?t) T" "shape (degree ?t) K T" "sorted_by cmp (gentries T)"
      "kidsfilled (degree ?t) T" "linked (pages ?t) (map fst (gleaves T))"
      using Some F S(7) pages_ok fill links by (simp_all add: filledOf_def linkedOf_def)
    have once: "count (gids T) x \<le> 1" for x using once_To [of x] Some by simp
    show ?thesis
      using validateReachablePages_ok [OF F(5) T(1-5) once] validateLeafLinks_ok [OF T(1,2,6)]
        countReachableKeys_ok [OF T(2) once, of "{}"] T(1) F Some S(7,8) by auto
  qed
  have rng_root: "firstTreePageID \<le> root t \<and> root t < nextPage t" if nz: "root t \<noteq> 0"
  proof -
    obtain T where "To = Some T" using nz S(7) by (cases To) auto
    then show ?thesis using rng [of "gid T"] S(7) by (simp add: gids_grest [of T])
  qed
  have "validateMetaBounds a (resolvedRecord t b) = validateMetaBounds a (published t b)"
    by (simp add: resolvedRecord_def validateMetaBounds_def cong: if_cong)
  also have "\<dots> = None" by (rule validateMetaBounds_ok [OF m ar(1) a]) (use rng_root in blast)+
  finally have "validateMetaBounds a (resolvedRecord t b) = None" .
  moreover have "0 \<le> treeLen t" using S(8) by simp
  ultimately have inv: "validateMetaInvariants ?t a (resolvedRecord t b) = Some None"
    using walks F d Y(5) by (auto simp: validateMetaInvariants_def resolvedRecord_def validatePersistedDegree_def)
  have v3: "\<not> mr_version (resolvedRecord t b) < mmapWriterMetaVersion (retired t)"
    by (simp add: resolvedRecord_def mmapWriterMetaVersion_def metaVersion_def)
  have R: "mr_free (resolvedRecord t b) = free t" "mr_retired (resolvedRecord t b) = retired t"
    "mr_freelistPages (resolvedRecord t b) = ?m" "mr_maxPages (resolvedRecord t b) = maxPages b"
    "mr_revision (resolvedRecord t b) = revision t" "mr_freeRoot (resolvedRecord t b) = metaFreelistRoot t"
    by (simp_all add: resolvedRecord_def)
  show ?thesis
    unfolding tryCandidate_def Let_def
    using res walks f rt inv v3 apart dm F(4)
    by (simp add: R applyMetaRecord_published [OF d D(5) Y(3), symmetric, of u b])
qed

end

section \<open>Scanning the slots\<close>

text \<open>What a slot contributes to the candidates.\<close>

definition slotRecords :: "KeyOrder \<Rightarrow> mmapArena \<Rightarrow> nat \<Rightarrow> bytes \<Rightarrow> metaRecord list" where
  "slotRecords requested a index d =
     (case readMetaPageChecked d of
        Some (Inr (Some r)) \<Rightarrow>
          (if validateMetaSlot r index = None \<and> validateMetaKeyOrder requested r = None \<and> validateMetaBounds a r = None
           then [r] else [])
      | _ \<Rightarrow> [])"

lemma scanSlots_Cons:
  assumes "readMetaPageChecked d \<noteq> None" "\<And>e. \<exists>err. scanSlots requested a (Suc k) ds e = Some (rs, err)"
  shows "\<exists>err. scanSlots requested a k (d # ds) e = Some (slotRecords requested a k d @ rs, err)"
proof -
  obtain err where rest: "\<And>e. scanSlots requested a (Suc k) ds e = Some (rs, err e)" using assms(2) by metis
  obtain c where c: "readMetaPageChecked d = Some c" using assms(1) by auto
  show ?thesis
    by (cases c) (simp_all add: c rest slotRecords_def split: option.split del: split_paired_Ex)
qed

lemma scanSlots_two:
  assumes "readMetaPageChecked d0 \<noteq> None" "readMetaPageChecked d1 \<noteq> None"
  shows "\<exists>err. scanSlots requested a 0 [d0, d1] e = Some (slotRecords requested a 0 d0 @ slotRecords requested a 1 d1, err)"
proof (rule scanSlots_Cons [OF assms(1)])
  have "\<exists>err. scanSlots requested a (Suc 0) [d1] e = Some (slotRecords requested a (Suc 0) d1 @ [], err)" for e
    by (rule scanSlots_Cons [OF assms(2)]) (simp del: split_paired_Ex)
  then show "\<exists>err. scanSlots requested a (Suc 0) [d1] e = Some (slotRecords requested a 1 d1, err)" for e
    by (simp only: append_Nil2 One_nat_def)
qed

lemma newestFirst_two:
  "newestFirst [r] = [r]"
  "mr_revision r' < mr_revision r \<Longrightarrow> newestFirst [r, r'] = [r, r'] \<and> newestFirst [r', r] = [r, r']"
  by (auto simp: newestFirst_def word_less_def)

text \<open>
  \<open>older\<close>: the other slot holds no record that fits the mapping, or one of an older revision that does not reach
  further into the file, or one of a newer revision whose pages do not validate.
\<close>

definition older :: "mmapArena \<Rightarrow> Tree \<Rightarrow> Tree \<Rightarrow> bytes \<Rightarrow> bool" where
  "older a u t d \<longleftrightarrow> (\<forall>r. readMetaPageChecked d = Some (Inr (Some r)) \<longrightarrow> validateMetaBounds a r = None \<longrightarrow> mr_nextPage r \<le> nextPage t \<and>
     (mr_revision r < revision t \<or> revision t < mr_revision r \<and> (\<exists>e. tryCandidate a u r = Some (Inl e))))"

lemma tryCandidates_two:
  assumes ok: "tryCandidate a u (published t b) = Some (Inr u')" and old: "older a u t d"
    and rs: "rs = published t b # slotRecords q a j d \<or> rs = slotRecords q a j d @ [published t b]"
  shows "tryCandidates a u None (newestFirst rs) = Some (Inr u')"
proof (cases "slotRecords q a j d = []")
  case True
  then show ?thesis using rs ok by (auto simp: newestFirst_two(1))
next
  case False
  then obtain r where r: "readMetaPageChecked d = Some (Inr (Some r))" "slotRecords q a j d = [r]" "validateMetaBounds a r = None"
    by (auto simp: slotRecords_def split: option.splits sum.splits if_splits)
  let ?p = "published t b"
  from old r(1,3) consider (less) "mr_revision r < mr_revision ?p"
    | (more) e where "mr_revision ?p < mr_revision r" "tryCandidate a u r = Some (Inl e)"
    by (auto simp: older_def)
  then show ?thesis
  proof cases
    case less
    then show ?thesis using newestFirst_two(2) [OF less] rs r(2) ok by auto
  next
    case more
    then show ?thesis using newestFirst_two(2) [OF more(1)] rs r(2) ok by auto
  qed
qed

section \<open>Loading\<close>

text \<open>The bytes of the file: the pages of \<open>t\<close> at their ids, anything elsewhere.\<close>

definition imageOf :: "Tree \<Rightarrow> (PageID \<Rightarrow> bytes) \<Rightarrow> bool" where
  "imageOf t img \<longleftrightarrow> (\<forall>i. length (img i) = PageSize) \<and> (\<forall>i p. pages t i = Some p \<longrightarrow> img i = data p)"

lemma wf_mappedPages: "(\<forall>i. length (img i) = PageSize) \<Longrightarrow> wfPages (mappedPages img n)"
  by (auto simp: wfPages_def mappedPages_def wf_page_def split: if_splits)

lemma mappedPages_image:
  assumes "imageOf t img" "syncable slots t" "firstTreePageID \<le> i" "i < n" "pages t i = Some p"
  shows "mappedPages img n i = pages t i"
proof -
  have "pid p = i" by (rule syncableD(10) [OF assms(2,5)])
  moreover have "img i = data p" using assms(1,5) by (simp add: imageOf_def)
  ultimately have "\<lparr>pid = i, data = img i\<rparr> = p" by (cases p) simp
  then show ?thesis using assms by (simp add: mappedPages_def)
qed

lemma rep_at: "rep pgs T \<Longrightarrow> i \<in># gids T \<Longrightarrow> \<exists>p. pgs i = Some p"
proof -
  have ch: "\<exists>p. pgs i = Some p" if "chain pgs is v" "i \<in> set is" for "is" v
    using that by (induction "is" arbitrary: v) auto
  show "rep pgs T \<Longrightarrow> i \<in># gids T \<Longrightarrow> \<exists>p. pgs i = Some p"
  proof (induction T)
    case (GLeaf j es)
    show ?case
    proof (cases "i = j")
      case False
      then obtain e where e: "e \<in> set es" "i \<in> set (snd (snd e))"
        using GLeaf.prems(2) by (auto simp: chainIDs_def case_prod_beta)
      then have "entry_ok pgs e" using GLeaf.prems(1) by auto
      then show ?thesis using e(2) ch [of "snd (snd e)"] by (cases e) (auto simp: entry_ok_def)
    qed (use GLeaf.prems in auto)
  next
    case (GBranch j ts)
    then show ?case by auto
  qed
qed

context key_comparator
begin

lemma loadMeta_ok:
  assumes v: "version_on_file cmp K R n t b slots To" and a: "maxPages b \<le> maxPages a" "maxPages a < 2 ^ 62"
    and img: "imageOf t img" and u: "arena u = Some a" "activeReaders u = []" "cache_ok (treeCache u)"
    and req: "requested = 0 \<or> requested = keyOrder t"
    and old: "older a (u\<lparr>pages := mappedPages img (nextPage t)\<rparr>) t (slots ! (1 - metaSlot (revision t)))"
  shows "\<exists>extra u'. loadMeta img slots requested ord u a = Some (Inr u') \<and>
    u' = (recovered (u\<lparr>pages := mappedPages img (nextPage t)\<rparr>) t)\<lparr>free := free t @ extra\<rparr> \<and>
    mset extra \<subseteq># R \<and> tree_ok cmp K (R + mset (metaFreelistPages t) - mset extra) u' To"
proof -
  have ok: "tree_ok cmp K (R + mset (metaFreelistPages t)) t To" and ar: "arena t = Some b"
    and m: "mapped t n" and sy: "syncable slots t" and of: "on_file t b slots"
    using v unfolding version_on_file_def by blast+
  note S = state_okD [OF tree_okD(1) [OF ok]]
  note Y = syncableD [OF sy] and D = mappedD [OF m ar] and O = of [unfolded on_file_def]
  let ?u = "u\<lparr>pages := mappedPages img (nextPage t)\<rparr>" and ?i = "metaSlot (revision t)" and ?m = "metaFreelistPages t"
  have base: "base t = firstTreePageID" using ar by (simp add: base_def)
  have same: "mappedPages img (nextPage t) i = pages t i"
    if "i \<in># idsOf To + (R + mset ?m) \<or> i \<in> rp_id ` set (retired t)" "pages t i = Some p" for i p
    by (rule mappedPages_image [OF img sy _ _ that(2)]) (use owned_range(1,2) [OF S(2), of i] that(1) base in auto)
  have pgs: "pages ?u i = pages t i" if i: "i \<in># idsOf To + mset ?m" for i
  proof -
    obtain p where "pages t i = Some p"
    proof (cases "i \<in># idsOf To")
      case True
      then obtain T where "To = Some T" "i \<in># gids T" by (cases To) auto
      then show thesis using rep_at [of "pages t" T i] S(9) that by auto
    next
      case False
      then show thesis using i O that by auto
    qed
    then show ?thesis using same [of i] i by auto
  qed
  have cand: "tryCandidate a ?u (published t b) = Some (Inr (recovered ?u t))"
    by (rule tryCandidate_ok [OF v a, where a' = a]) (use pgs u in simp_all)
  obtain d0 d1 where slots: "slots = [d0, d1]"
    using Y(12) by (auto simp: slots_ok_def metaPageCount_def length_Suc_conv numeral_2_eq_2)
  have reads: "readMetaPageChecked d0 \<noteq> None" "readMetaPageChecked d1 \<noteq> None"
    using Y(12) slots by (simp_all add: slots_ok_def)
  have root: "root t \<noteq> 0 \<Longrightarrow> firstTreePageID \<le> root t \<and> root t < nextPage t"
    using owned_range(1,2) [OF S(2), of "root t"] S(7) base by (cases To) (auto simp: gids_grest)
  have "validateMetaKeyOrder requested (published t b) = None"
    using req keyOrder_accepted [OF Y(3)] by (auto simp: validateMetaKeyOrder_def)
  then have mine: "slotRecords requested a ?i (slots ! ?i) = [published t b]"
    using O validateMetaBounds_ok [OF m ar a root] by (simp add: slotRecords_def validateMetaSlot_def)
  let ?rs = "slotRecords requested a 0 d0 @ slotRecords requested a 1 d1"
  define j where "j = 1 - ?i"
  have ij: "?i = 0 \<and> j = 1 \<or> ?i = 1 \<and> j = 0" using metaSlot_less [of "revision t"] by (auto simp: j_def metaPageCount_def)
  then have rs: "?rs = published t b # slotRecords requested a j (slots ! j) \<or>
      ?rs = slotRecords requested a j (slots ! j) @ [published t b]"
    using mine slots by auto
  define rss where "rss = ?rs"
  have recs: "set rss = insert (published t b) (set (slotRecords requested a j (slots ! j)))"
    unfolding rss_def using rs by (rule disjE) (drule arg_cong [of _ _ set], simp)+
  have bound: "mr_nextPage r \<le> nextPage t" if "r \<in> set rss" for r
  proof -
    from that recs consider "r = published t b" | "r \<in> set (slotRecords requested a j (slots ! j))" by blast
    then show ?thesis
    proof cases
      case 2
      then have "readMetaPageChecked (slots ! j) = Some (Inr (Some r))" "validateMetaBounds a r = None"
        by (auto simp: slotRecords_def split: option.splits sum.splits if_splits)
      then show ?thesis using old [folded j_def] by (simp add: older_def)
    qed simp
  qed
  have lim: "Max (set (firstTreePageID # map mr_nextPage rss)) = nextPage t"
  proof (rule Max_eqI)
    show "nextPage t \<in> set (firstTreePageID # map mr_nextPage rss)" using recs by auto
    show "y \<le> nextPage t" if "y \<in> set (firstTreePageID # map mr_nextPage rss)" for y
      using that bound D(5) by auto
  qed simp
  obtain err where scan: "scanSlots requested a 0 slots (None, 0, False) = Some (rss, err)"
    using scanSlots_two [OF reads] slots unfolding rss_def by blast
  have ne: "rss \<noteq> []" using recs by auto
  have cands: "tryCandidates a ?u None (newestFirst rss) = Some (Inr (recovered ?u t))"
    by (rule tryCandidates_two [OF cand old [folded j_def] rs [folded rss_def]])
  have ok': "tree_ok cmp K (R + mset ?m) (recovered ?u t) To"
    by (rule recovered_tree_ok [OF v]) (use u pgs in simp_all)
  have ar': "arena (recovered ?u t) = Some a" using u by simp
  obtain extra X where ob: "reclaimObsoleteMetaFreelistPages ord slots (recovered ?u t) =
      Some ((recovered ?u t)\<lparr>free := free t @ extra\<rparr>)" "obsolete (pages ?u) (X \<union> set ?m) (free t) extra"
    by (rule reclaimObsolete_ok [OF ar', where slots = slots and ord = ord])
       (use wf_mappedPages [of img "nextPage t"] img Y(12) in \<open>simp_all add: imageOf_def slots_ok_def\<close>)
  have ob': "obsolete (pages (recovered ?u t)) (X \<union> set ?m) (free (recovered ?u t)) extra" using ob(2) by simp
  have dom: "i < nextPage (recovered ?u t)" if "pages (recovered ?u t) i = Some p" "metaKind p" for i p
    using that by (auto simp: mappedPages_def split: if_splits)
  have ret: "\<not> metaKind p" if "r \<in> set (retired (recovered ?u t))" "pages (recovered ?u t) (rp_id r) = Some p" for r p
    using that Y(8) [of r] same [of "rp_id r"] by auto
  have T: "mset extra \<subseteq># R + mset ?m"
    "tree_ok cmp K (R + mset ?m - mset extra) ((recovered ?u t)\<lparr>free := free (recovered ?u t) @ extra\<rparr>) To"
    by (rule tree_ok_obsolete [OF ok' ar' ob']; (rule dom ret; assumption))+
  have sub: "mset extra \<subseteq># R" by (rule subset_outside [OF T(1)]) (use ob(2) in \<open>auto simp: obsolete_def\<close>)
  have "loadMeta img slots requested ord u a = Some (Inr ((recovered ?u t)\<lparr>free := free t @ extra\<rparr>))"
    using scan ne lim cands ob(1) by (simp add: loadMeta_def Let_def del: list.set)
  then show ?thesis using T(2) sub by auto
qed

end

lemma published_flags:
  "tree_ok cmp K R (t\<lparr>metadataUpgradePending := b, free := fs, syncedRevision := r\<rparr>) To \<longleftrightarrow> tree_ok cmp K R (t\<lparr>free := fs\<rparr>) To"
  "syncable slots (t\<lparr>metadataUpgradePending := b, free := fs, syncedRevision := r\<rparr>) \<longleftrightarrow> syncable slots t"
  "mapped (t\<lparr>metadataUpgradePending := b, free := fs, syncedRevision := r\<rparr>) n \<longleftrightarrow> mapped t n"
  by (simp_all add: tree_ok_def state_ok_def version_def compareKeys_def owned_def base_def readers_ok_def
      syncable_def mapped_def room_def cong: option.case_cong)

lemma metaSlot_other: "metaSlot n \<noteq> 1 - metaSlot n"
proof -
  have "metaSlot n = 0 \<or> metaSlot n = 1" using metaSlot_less [of n] by (auto simp: metaPageCount_def)
  then show ?thesis by auto
qed

text \<open>The other slot may be overwritten, by anything the reader can refuse or read.\<close>

lemma version_on_file_other:
  assumes "version_on_file cmp K R n t b slots To" "length d = PageSize" "readMetaPageChecked d \<noteq> None"
  shows "version_on_file cmp K R n t b (slots[1 - metaSlot (revision t) := d]) To"
    "slots[1 - metaSlot (revision t) := d] ! (1 - metaSlot (revision t)) = d"
proof -
  let ?i = "metaSlot (revision t)"
  have sy: "syncable slots t" and of: "on_file t b slots" using assms(1) unfolding version_on_file_def by blast+
  note O = syncableD(12) [OF sy]
  have i: "?i \<noteq> 1 - ?i" "1 - ?i < length slots"
    using metaSlot_other [of "revision t"] O by (auto simp: metaPageCount_def slots_ok_def)
  have so: "slots_ok (slots[1 - ?i := d])"
    using O assms(2,3) set_update_subset_insert [of slots "1 - ?i" d] by (auto simp: slots_ok_def)
  then have "syncable (slots[1 - ?i := d]) t" "on_file t b (slots[1 - ?i := d])"
    using sy of i by (simp_all add: syncable_def on_file_def)
  then show "version_on_file cmp K R n t b (slots[1 - ?i := d]) To"
    using assms(1) unfolding version_on_file_def by blast
  show "slots[1 - ?i := d] ! (1 - ?i) = d" using i(2) by simp
qed

section \<open>Opening a file\<close>

text \<open>The options under which a file of capacity for \<open>b\<close> is opened again.\<close>

definition opens :: "MmapOptions \<Rightarrow> int \<Rightarrow> KeyOrder \<Rightarrow> mmapArena \<Rightarrow> bool" where
  "opens opts fsize order b \<longleftrightarrow> mo_KeyComparator opts = None \<and> (mo_KeyOrder opts = 0 \<or> mo_KeyOrder opts = order) \<and>
     0 < fsize \<and> validateExistingMmapFileSize fsize = None \<and>
     maxPages b \<le> fsize div int PageSize - int metaPageCount \<and> fsize div int PageSize - int metaPageCount < 2 ^ 62"

lemma opens_some:
  assumes "mapped t n" "arena t = Some b" "order = KeyOrderBytewise \<or> order = KeyOrderReverse"
  shows "opens opts ((maxPages b + int metaPageCount) * int PageSize) order b \<longleftrightarrow>
    mo_KeyComparator opts = None \<and> (mo_KeyOrder opts = 0 \<or> mo_KeyOrder opts = order)"
  using mappedD(2,3) [OF assms(1,2)]
  by (auto simp: opens_def validateExistingMmapFileSize_def page_consts metaPageCount_def minMmapPageCount_def)

definition openArena :: "int \<Rightarrow> (int \<Rightarrow> bool) \<Rightarrow> (u64 \<Rightarrow> (u64 \<times> bool) option) \<Rightarrow> mmapArena" where
  "openArena fsize grow readers = \<lparr>maxPages = fsize div int PageSize - int metaPageCount, ar_readOnly = False,
     dirtyPages = {}, os_grow = grow, readerTable = Some readers\<rparr>"

text \<open>The other slot holds no record, or one of an older revision that does not reach further.\<close>

definition outdated :: "Tree \<Rightarrow> bytes \<Rightarrow> bool" where
  "outdated t d \<longleftrightarrow> (\<forall>r. readMetaPageChecked d = Some (Inr (Some r)) \<longrightarrow>
     mr_nextPage r \<le> nextPage t \<and> mr_revision r < revision t)"

lemma outdated_older: "outdated t d \<Longrightarrow> older a u t d"
  by (simp add: outdated_def older_def)

context key_comparator
begin

lemma OpenMmap_ok:
  assumes v: "version_on_file cmp K R n t b slots To" and img: "imageOf t img" and op: "opens opts fsize (keyOrder t) b"
    and old: "\<And>u. older (openArena fsize grow readers) u t (slots ! (1 - metaSlot (revision t)))"
  shows "\<exists>u R'. OpenMmap io grow readers opts fsize img slots ord = Some (Inr (u, slots)) \<and> R' \<subseteq># R \<and>
    tree_ok cmp K (R' + mset (metaFreelistPages t)) u To \<and> revision u = revision t \<and> syncedRevision u = revision t \<and>
    retired u = retired t \<and> set (free t) \<subseteq> set (free u) \<and> keyOrder u = keyOrder t \<and> degree u = degree t \<and>
    activeReaders u = [] \<and> \<not> closed u \<and> \<not> readOnly u"
proof -
  have sy: "syncable slots t" using v unfolding version_on_file_def by blast
  note Y = syncableD [OF sy]
  note P = op [unfolded opens_def]
  define order where "order = normalizeKeyOrder (mo_KeyOrder opts)"
  let ?a = "openArena fsize grow readers" and ?req = "if mo_KeyOrder opts \<noteq> 0 then order else 0"
  let ?u = "mmapTree opts order ?a"
  have ko: "validateMmapKeyOrder (mo_KeyOrder opts) = Inr order" "?req = 0 \<or> ?req = keyOrder t"
    using P Y(3) keyOrder_accepted [OF Y(3)]
    by (auto simp: order_def validateMmapKeyOrder_def normalizeKeyOrder_def KeyOrderBytewise_def KeyOrderReverse_def Let_def)
  have u: "arena ?u = Some ?a" "activeReaders ?u = []" "cache_ok (treeCache ?u)" "\<not> closed ?u" "\<not> readOnly ?u"
    by (simp_all add: mmapTree_def)
  have a: "maxPages b \<le> maxPages ?a" "maxPages ?a < 2 ^ 62"
    using P by (simp_all add: openArena_def metaPageCount_def)
  obtain extra u' where L: "loadMeta img slots ?req ord ?u ?a = Some (Inr u')"
    "u' = (recovered (?u\<lparr>pages := mappedPages img (nextPage t)\<rparr>) t)\<lparr>free := free t @ extra\<rparr>"
    "mset extra \<subseteq># R" "tree_ok cmp K (R + mset (metaFreelistPages t) - mset extra) u' To"
    using loadMeta_ok [OF v a img u(1-3) ko(2) old, of ord] by blast
  have "R + mset (metaFreelistPages t) - mset extra = R - mset extra + mset (metaFreelistPages t)"
    using L(3) by (simp add: subset_mset.add_diff_assoc2)
  moreover have "OpenMmap io grow readers opts fsize img slots ord = Some (Inr (u', slots))"
    using P ko(1) L(1) by (simp add: OpenMmap_def Let_def openArena_def)
  ultimately show ?thesis
    using L(2,4) u by (intro exI [of _ u'] exI [of _ "R - mset extra"]) simp
qed

text \<open>The version that a successful \<^verbatim>\<open>Sync\<close> leaves on the file.\<close>

lemma Sync_version:
  assumes ok: "tree_ok cmp K R t To" and sy: "syncable slots t" and m: "mapped t (metaCost t + n)"
    and a: "arena t = Some a" and rv: "revision t \<noteq> lastRevision" and quiet: "activeReaders t = []"
    and kc: "cmp = keyComparatorForOrder (keyOrder t)" and fill: "filledOf (degree t) To"
  obtains t3 b extra d where
    "Sync (\<lambda>_. True) ord t slots = Some (None, t3\<lparr>metadataUpgradePending := False, free := free t3 @ extra,
       syncedRevision := revision t3\<rparr>, slots[metaSlot (revision t3) := d])"
    "version_on_file cmp K R n t3 b (slots[metaSlot (revision t3) := d]) To" "mset extra \<subseteq># R" "grown a b"
    "tree_ok cmp K (R + mset (metaFreelistPages t3) - mset extra) (t3\<lparr>free := free t3 @ extra\<rparr>) To"
    "revision t3 = syncRevision t" "free t3 = free t" "retired t3 = retired t" "nextPage t \<le> nextPage t3"
    "keyOrder t3 = keyOrder t"
proof -
  obtain t3 b extra d where S:
    "Sync (\<lambda>_. True) ord t slots = Some (None, t3\<lparr>metadataUpgradePending := False, free := free t3 @ extra,
       syncedRevision := revision t3\<rparr>, slots[metaSlot (revision t3) := d])"
    "tree_ok cmp K (R + mset (metaFreelistPages t3)) t3 To"
    "mset extra \<subseteq># R" "set extra \<inter> set (metaFreelistPages t3) = {}"
    "tree_ok cmp K (R + mset (metaFreelistPages t3) - mset extra) (t3\<lparr>free := free t3 @ extra\<rparr>) To"
    "arena t3 = Some b" "grown a b" "mapped t3 n" "syncable (slots[metaSlot (revision t3) := d]) t3"
    "on_file t3 b (slots[metaSlot (revision t3) := d])"
    "revision t3 = syncRevision t" "free t3 = free t" "retired t3 = retired t"
    "keyComparator t3 = keyComparator t" "activeReaders t3 = activeReaders t" "keyOrder t3 = keyOrder t" "degree t3 = degree t"
    "nextPage t \<le> nextPage t3"
    by (rule Sync_ok [OF ok sy m a rv, of "\<lambda>_. True" ord]) (simp, rule that)
  show thesis
    by (rule that [OF S(1) _ S(3,7,5,11-13,18,16)]) (use S kc fill quiet in \<open>simp add: version_on_file_def\<close>)
qed

end

end
