(* ===== verification/Samples.thy ===== *)
theory Samples
  imports TxCorrect Isolation CursorCorrect
begin

text \<open>
  Small trees in memory, built by the operations themselves, at which the properties are applied:
  an empty tree of degree 3 under the bytewise order, and what is left after a few puts.
\<close>

definition sample :: "nat \<Rightarrow> nat \<Rightarrow> (key \<times> bytes) list \<Rightarrow> Tree \<Rightarrow> gtree option \<Rightarrow> bool" where
  "sample h n es t To \<longleftrightarrow> tree_ok compareStrings 8 {#} t To \<and> \<not> closed t \<and> \<not> readOnly t \<and>
     entsOf To = es \<and> heightOf To \<le> h \<and> room t n \<and> treeCache t = newPageCache 0 \<and>
     activeReaders t = [] \<and> degree t = 3 \<and> unat (revision t) \<le> h \<and> filledOf 3 To"

lemma sampleD:
  assumes "sample h n es t To"
  shows "tree_ok compareStrings 8 {#} t To" "\<not> closed t" "\<not> readOnly t" "entsOf To = es"
    "heightOf To \<le> h" "room t n" "treeCache t = newPageCache 0" "activeReaders t = []" "degree t = 3"
    "coherent pgs (treeCache t)" "unat (revision t) \<le> h" "filledOf 3 To"
  using assms by (simp_all add: sample_def)

lemma roomy_sample: "roomy 3 8"
  by (simp add: roomy_def maxKeys_def page_consts)

lemma sample_New: "sample 0 100000 [] (New 3) None"
proof -
  have "tree_ok compareStrings 8 {#} (New 3) None"
    using tree_ok_New [of 3 8 "\<lparr>opt_PageCacheCapacity = 0, opt_RangePrefetchLeafWindow = 0,
        opt_MinRepairPageFillPercent = 0, opt_KeyComparator = None\<rparr>"] roomy_sample
    by (simp add: New_def normalizeDegree_def normalizeKeyComparator_def)
  then show ?thesis
    by (simp add: sample_def New_def NewWithOptions_def entsOf_def heightOf_def room_def base_def normalizeDegree_def filledOf_def)
qed

lemma notLast: "unat r \<le> h \<Longrightarrow> h < 1000 \<Longrightarrow> r \<noteq> lastRevision"
proof -
  have "unat lastRevision = 18446744073709551615" by (simp add: lastRevision_def unsigned_minus_1_eq_mask mask_eq_exp_minus_1)
  then show "unat r \<le> h \<Longrightarrow> h < 1000 \<Longrightarrow> r \<noteq> lastRevision" by auto
qed

lemma sample_costs:
  "length v \<le> 100 \<Longrightarrow> putCost 3 v h \<le> 2 * h + 20" "delCost 3 h \<le> 100 * h + 100"
  by (simp_all add: putCost_def leafCost_def maxKeys_def chainPages_def page_consts delCost_def
      deleteCost_def repairCost_def)

lemma sample_put:
  assumes s: "sample h (2 * h + 20 + n) es t To" and h: "h < 1000" and k: "length k \<le> 8" and v: "length v \<le> 100"
  obtains t' To' where "treePut t k v = Some (t', putResult k es)"
    "sample (Suc h) n (put_list compareStrings k v es) t' To'"
proof -
  note S = sampleD [OF s]
  have ok: "state_ok compareStrings 8 {#} t To" by (rule tree_okD(1) [OF S(1)])
  have "putCost 3 v (heightOf To) \<le> 2 * heightOf To + 20" using v by (rule sample_costs)
  then have room: "room t (putCost (degree t) v (heightOf To) + n)"
    using S(5,9) by (intro room_le [OF S(6)]) simp
  obtain t1 old existed To' where p: "putStaged t k v = Some (t1, old, existed, True)"
    "(old, existed) = putResult k (entsOf To)" "state_ok compareStrings 8 {#} t1 To'"
    "entsOf To' = put_list compareStrings k v (entsOf To)" "room t1 n" "grows t t1" "treeCache t1 = treeCache t"
    "heightOf To' \<le> Suc (heightOf To)" "filledOf (degree t) To \<longrightarrow> filledOf (degree t) To'"
    using bytewise.putStaged_state [OF ok S(2,3) room k] v by auto
  have g: "revision t1 = revision t" "activeReaders t1 = []" "degree t1 = 3" "closed t1 = closed t" "readOnly t1 = readOnly t"
    using growsD [OF p(6)] S(8,9) by simp_all
  have rv: "revision t1 \<noteq> lastRevision" using notLast [OF S(11) h] g by simp
  obtain t' where q: "publishStagedMutation t1 = Some t'" "tree_ok compareStrings 8 {#} t' To'" "\<And>n. room t' n = room t1 n"
    "revision t' = revision t1 + 1" "activeReaders t' = activeReaders t1" "treeCache t' = treeCache t1" "sameTree t1 t'"
    by (rule publish_ok [OF p(3) rv]) (rule that)
  have "unat (revision t') \<le> Suc h" using S(11) h q(4) g(1) by (simp add: unat_word_ariths)
  then have "sample (Suc h) n (put_list compareStrings k v es) t' To'"
    using q g p(4,5,7,8,9) S(2-9,12) by (simp add: sample_def sameTree_def)
  moreover have "treePut t k v = Some (t', putResult k es)"
    using p(1,2) q(1) S(2,3,4) by (simp add: treePut_def publishIf_def split: prod.splits)
  ultimately show ?thesis by (rule that [rotated])
qed

lemma sample_le: "sample h m es t To \<Longrightarrow> n \<le> m \<Longrightarrow> sample h n es t To"
  by (auto simp: sample_def elim: room_le)

lemma sample_two: "\<exists>t To. sample 2 1000 [([1], [2]), ([3], [4])] t To"
proof -
  have "sample 0 (2 * 0 + 20 + 2000) [] (New 3) None" using sample_New by (rule sample_le) simp
  then obtain t1 T1 where "sample (Suc 0) 2000 (put_list compareStrings [1] [2] []) t1 T1"
    by (rule sample_put) auto
  then have "sample 1 (2 * 1 + 20 + 1000) [([1], [2])] t1 T1" by (auto elim: sample_le)
  then obtain t2 T2 where "sample (Suc 1) 1000 (put_list compareStrings [3] [4] [([1], [2])]) t2 T2"
    by (rule sample_put) auto
  moreover have "put_list compareStrings [3] [4 :: u8] [([1], [2])] = [([1], [2]), ([3], [4])]"
    by (simp add: compareStrings_def)
  ultimately show ?thesis by (simp only: Suc_1) blast
qed

lemma sample_room:
  assumes "sample 2 1000 es t To"
  shows "length v \<le> 100 \<Longrightarrow> room t (putCost (degree t) v (heightOf To) + 0)"
    "room t (delCost (degree t) (heightOf To) + 0)" "revision t \<noteq> lastRevision"
proof -
  note S = sampleD [OF assms]
  have d: "degree t = 3" "room t 1000" by (rule S)+
  show "room t (putCost (degree t) v (heightOf To) + 0)" if v: "length v \<le> 100"
  proof (rule room_le [OF d(2)])
    show "putCost (degree t) v (heightOf To) + 0 \<le> 1000"
      using sample_costs(1) [OF v, of "heightOf To"] S(5) unfolding d(1) by linarith
  qed
  show "room t (delCost (degree t) (heightOf To) + 0)"
  proof (rule room_le [OF d(2)])
    show "delCost (degree t) (heightOf To) + 0 \<le> 1000"
      using sample_costs(2) [of "heightOf To"] S(5) unfolding d(1) by linarith
  qed
  show "revision t \<noteq> lastRevision" using notLast [OF S(11)] by simp
qed

lemma sample_some: "\<exists>t T. sample 2 1000 [([1], [2]), ([3], [4])] t (Some T)"
proof -
  obtain t To where s: "sample 2 1000 [([1], [2]), ([3], [4])] t To" using sample_two by blast
  then obtain T where "To = Some T" using sampleD(4) [OF s] by (cases To) (auto simp: entsOf_def)
  then show ?thesis using s by blast
qed

lemma sample_insert_room:
  assumes "sample 2 1000 es t (Some T)" "length v \<le> 100"
  shows "room t (insertCost (degree t) v T + 0)"
  by (rule room_le [OF sample_room(1) [OF assms]]) (simp add: insertCost_def putCost_def heightOf_def)

lemma sample_ops_room:
  assumes "sample 2 1000 es t To" "length (bo_value op1) \<le> 100" "length (bo_value op2) \<le> 100"
  shows "room t (opsCost (degree t) (heightOf To) [op1, op2] + 0)"
proof -
  note S = sampleD [OF assms(1)]
  have "opCost 3 h op \<le> 100 * h + 100" if "length (bo_value op) \<le> 100" for h op
    using sample_costs(1) [OF that, of h] sample_costs(2) [of h] by (auto simp: opCost_def)
  from this [OF assms(2), of "heightOf To"] this [OF assms(3), of "Suc (heightOf To)"]
  have "opsCost 3 (heightOf To) [op1, op2] + 0 \<le> 1000" using S(5) by simp
  then show ?thesis using S(6,9) by (auto elim: room_le)
qed

lemma sample_ops_coherent:
  "sample h n es t To \<Longrightarrow> bo_kind op2 = BatchPutKind \<Longrightarrow> coherentOps t [op1, op2]"
  by (simp add: sampleD(10))

text \<open>A run of one put against an open snapshot.\<close>

lemma sample_run:
  "\<exists>t To s t1 w. sample 2 1000 [([1], [2]), ([3], [4])] t To \<and> treeSnapshot t = (s, t1) \<and>
     run (cstep 8) [EPut [1] [9] ([2], True)] \<lparr>w_tree = t1, w_snaps = [s]\<rparr> w"
proof -
  obtain t To where s: "sample 2 1000 [([1], [2]), ([3], [4])] t To" using sample_two by blast
  note S = sampleD [OF s]
  obtain sn t1 where sn: "treeSnapshot t = (sn, t1)" "tree_ok compareStrings 8 {#} t1 To"
    "revision t1 = revision t" "\<forall>n. room t1 n = room t n" "sameTree t t1"
    using bytewise.treeSnapshot_ok [OF S(1,2)] by blast
  have run: "\<not> closed t1" "\<not> readOnly t1" "degree t1 = 3" using S(2,3,9) sn(5) by (simp_all add: sameTree_def)
  have room: "room t1 (putCost (degree t1) [9] (heightOf To) + 0)"
    using sample_room(1) [OF s, of "[9]"] sn(4) run(3) S(9) by auto
  have rv: "revision t1 \<noteq> lastRevision" using sample_room(3) [OF s] sn(3) by simp
  obtain t' To' where p: "treePut t1 [1] [9] = Some (t', putResult [1] (entsOf To))"
    using bytewise.treePut_ok [OF sn(2) run(1,2) room rv, of "[1]"] by auto
  have "cstep 8 (EPut [1] [9] ([2], True)) \<lparr>w_tree = t1, w_snaps = [sn]\<rparr> \<lparr>w_tree = t', w_snaps = [sn]\<rparr>"
    using cstep.put [of "\<lparr>w_tree = t1, w_snaps = [sn]\<rparr>" "[1]" "[9]" t' "([2], True)" 8 "int (heightOf To)"]
      p S(4) room rv height_version [OF state_okD(1) [OF tree_okD(1) [OF sn(2)]]]
    by (simp add: putResult_def)
  then show ?thesis using s sn(1) by (blast intro: run.intros)
qed

lemma sample_cursor:
  "\<exists>(t :: Tree) T c. cu_reads compareStrings 3 8 (pages t) T c \<and> gentries T = [([1], [2]), ([3], [4])] \<and>
     \<not> cu_hasLower c \<and> \<not> cu_hasEnd c"
proof -
  obtain t T where s: "sample 2 1000 [([1], [2]), ([3], [4])] t (Some T)" using sample_some by blast
  note S = sampleD [OF s]
  note V = state_okD [OF tree_okD(1) [OF S(1)]]
  let ?c = "fst (treeCursor t)"
  have "cu_reads compareStrings 3 8 (pages t) T ?c"
    using S(2,9) V(6,7,9) by (simp add: cu_reads_def treeCursor_def treeSnapshot_def newCursor_def cuUsable_def
        cuCompareKeys_def snapCompareKeys_def rootOf_def)
  moreover have "\<not> cu_hasLower ?c" "\<not> cu_hasEnd ?c"
    using S(2) by (simp_all add: treeCursor_def treeSnapshot_def newCursor_def)
  moreover have "gentries T = [([1], [2]), ([3], [4])]" using S(4) by (simp add: entsOf_def)
  ultimately show ?thesis by blast
qed

lemma order_bytewise: "key_comparator compareStrings"
  by (rule bytewise.key_comparator_axioms)

end
