(* ===== verification/CompactCorrect.thy ===== *)
theory CompactCorrect
  imports RecoveryCorrect
begin

text \<open>
  \<^verbatim>\<open>Compact\<close> of an mmap tree: the free pages at the end of the file go, the file is truncated
  after the last page in use and the record that says so is published (\<open>Compact_ok\<close>), unless
  the free pages that stay need a metadata chain: then the chain itself is cut off
  (\<open>Compact_chain_cut\<close>).
\<close>

section \<open>The free pages at the end\<close>

lemma word_pred:
  fixes n :: PageID
  assumes "firstTreePageID < n"
  shows "firstTreePageID \<le> n - 1" "n - 1 < n" "i < n \<Longrightarrow> \<not> n - 1 \<le> i \<Longrightarrow> i < n - 1" "n - 1 \<le> i \<Longrightarrow> i < n \<Longrightarrow> i = n - 1"
proof -
  have f: "unat firstTreePageID = 2" by (simp add: firstTreePageID_def metaPageCount_def)
  have n: "2 < unat n" using assms f by (simp add: word_less_nat_alt)
  then have "n \<noteq> 0" by auto
  then have u: "unat (n - 1) = unat n - 1" by (rule unat_minus_one)
  show "firstTreePageID \<le> n - 1" "n - 1 < n" using n f u by (simp_all add: word_le_nat_alt word_less_nat_alt)
  show "i < n \<Longrightarrow> \<not> n - 1 \<le> i \<Longrightarrow> i < n - 1" by simp
  show "i = n - 1" if "n - 1 \<le> i" "i < n"
  proof -
    have "unat i = unat (n - 1)" using that u by (simp add: word_le_nat_alt word_less_nat_alt)
    then show ?thesis by (simp only: word_unat_eq_iff)
  qed
qed

lemma trailingFreeLoop_ok:
  assumes "firstTreePageID \<le> n"
  shows "firstTreePageID \<le> trailingFreeLoop fs n \<and> trailingFreeLoop fs n \<le> n \<and>
    (\<forall>i. trailingFreeLoop fs n \<le> i \<longrightarrow> i < n \<longrightarrow> i \<in> fs) \<and>
    (trailingFreeLoop fs n = firstTreePageID \<or> trailingFreeLoop fs n - 1 \<notin> fs)"
  using assms
proof (induction fs n rule: trailingFreeLoop.induct)
  case (1 fs n)
  show ?case
  proof (cases "firstTreePageID < n \<and> n - 1 \<in> fs")
    case True
    then have f: "firstTreePageID < n" "n - 1 \<in> fs" by simp_all
    note n = word_pred [OF f(1)]
    have eq: "trailingFreeLoop fs n = trailingFreeLoop fs (n - 1)"
      using True by (simp only: trailingFreeLoop.simps [of fs n] simp_thms if_True)
    note IH = 1(1) [OF True n(1)]
    have "i \<in> fs" if "trailingFreeLoop fs (n - 1) \<le> i" "i < n" for i
    proof (cases "i < n - 1")
      case False
      then have "i = n - 1" using n(4) that(2) by (simp add: not_less)
      then show ?thesis using f(2) by simp
    qed (use IH that in blast)
    moreover have "trailingFreeLoop fs (n - 1) \<le> n" using IH n(2) by (meson order_trans less_imp_le)
    ultimately show ?thesis unfolding eq using IH by blast
  next
    case False
    then have "trailingFreeLoop fs n = n" by (simp only: trailingFreeLoop.simps [of fs n] if_False)
    then show ?thesis using 1(2) False by auto
  qed
qed

text \<open>The number of data pages of a file that ends before \<open>limit\<close>.\<close>

definition trimCapacity :: "PageID \<Rightarrow> int" where
  "trimCapacity limit = max (sint (limit - firstTreePageID)) minMmapPageCount"

lemma trimCapacity_ok:
  assumes "firstTreePageID \<le> limit" "unat limit < 2 ^ 60"
  shows "trimCapacity limit = max (int (unat limit) - 2) 2"
proof -
  have "unat (limit - firstTreePageID) = unat limit - 2"
    using assms(1) by (simp add: unat_sub firstTreePageID_def metaPageCount_def)
  moreover have "2 \<le> unat limit"
    using assms(1) by (simp add: word_le_nat_alt firstTreePageID_def metaPageCount_def)
  ultimately show ?thesis
    using assms(2) by (simp add: trimCapacity_def minMmapPageCount_def sint_small of_nat_diff)
qed

section \<open>The trimmed tree\<close>

definition trimmed :: "Tree \<Rightarrow> mmapArena \<Rightarrow> PageID \<Rightarrow> Tree" where
  "trimmed t a limit = (removeFreePagesAtOrAbove limit t)
     \<lparr>pages := (\<lambda>i. if limit \<le> i then None else pages t i), nextPage := limit,
      arena := Some (a\<lparr>maxPages := trimCapacity limit, dirtyPages := {i \<in> dirtyPages a. i < limit}\<rparr>)\<rparr>"

lemma trimmed_fields [simp]:
  "free (trimmed t a l) = filter (\<lambda>i. i < l) (free t)" "retired (trimmed t a l) = retired t"
  "pages (trimmed t a l) = (\<lambda>i. if l \<le> i then None else pages t i)" "nextPage (trimmed t a l) = l"
  "arena (trimmed t a l) = Some (a\<lparr>maxPages := trimCapacity l, dirtyPages := {i \<in> dirtyPages a. i < l}\<rparr>)"
  "root (trimmed t a l) = root t" "treeLen (trimmed t a l) = treeLen t" "degree (trimmed t a l) = degree t"
  "keyOrder (trimmed t a l) = keyOrder t" "keyComparator (trimmed t a l) = keyComparator t"
  "activeReaders (trimmed t a l) = activeReaders t" "revision (trimmed t a l) = revision t"
  "closed (trimmed t a l) = closed t" "readOnly (trimmed t a l) = readOnly t" "treeCache (trimmed t a l) = treeCache t"
  by (simp_all add: trimmed_def removeFreePagesAtOrAbove_def)

lemma filter_interval:
  fixes l :: PageID
  assumes "l \<le> n" shows "filter_mset (\<lambda>i. i < l) (mset_set {b..<n}) = mset_set {b..<l}"
proof -
  have "{i \<in> {b..<n}. i < l} = {b..<l}" using assms by auto
  then show ?thesis by (simp add: filter_mset_mset_set)
qed

lemma owned_trimmed:
  assumes own: "owned t M" and a: "arena t = Some a" and l: "l \<le> nextPage t"
    and tail: "\<And>i. l \<le> i \<Longrightarrow> i < nextPage t \<Longrightarrow> i \<in> set (free t)"
  shows "owned (trimmed t a l) M" "i \<in># M \<Longrightarrow> i < l" "i \<in> rp_id ` set (retired t) \<Longrightarrow> i < l"
proof -
  have b: "base t = firstTreePageID" "base (trimmed t a l) = firstTreePageID" using a by (simp_all add: base_def)
  show M: "i < l" if "i \<in># M" for i
    using owned_range(2) [OF own, of i] owned_disjoint(1) [OF own, of i] tail [of i] that by force
  show ret: "i < l" if "i \<in> rp_id ` set (retired t)" for i
    using owned_range(2) [OF own, of i] owned_disjoint(3) [OF own, of i] tail [of i] that by force
  have "filter_mset (\<lambda>i. i < l) (M + mset (free t) + mset (map rp_id (retired t))) = mset_set {firstTreePageID..<l}"
    using own b(1) by (simp only: owned_def filter_interval [OF l])
  moreover have "filter_mset (\<lambda>i. i < l) M = M" using M by (simp add: filter_mset_eq_conv)
  moreover have "filter_mset (\<lambda>i. i < l) (mset (map rp_id (retired t))) = mset (map rp_id (retired t))"
    using ret by (simp only: filter_mset_eq_conv) auto
  ultimately show "owned (trimmed t a l) M" by (simp add: owned_def b)
qed

lemma trimmed_ok:
  assumes ok: "tree_ok cmp K R t To" and sy: "syncable slots t" and m: "mapped t n" and a: "arena t = Some a"
    and l: "l = trailingFreeNextPage t"
  shows "tree_ok cmp K R (trimmed t a l) To" "syncable slots (trimmed t a l)" "mapped (trimmed t a l) n"
    "trimCapacity l \<le> maxPages a" "l \<le> nextPage t" "l = firstTreePageID \<or> l - 1 \<notin> set (free t)" "firstTreePageID \<le> l"
proof -
  note S = state_okD [OF tree_okD(1) [OF ok]] and Y = syncableD [OF sy] and D = mappedD [OF m a]
  have L: "firstTreePageID \<le> l" "l \<le> nextPage t" "\<And>i. l \<le> i \<Longrightarrow> i < nextPage t \<Longrightarrow> i \<in> set (free t)"
    "l = firstTreePageID \<or> l - 1 \<notin> set (free t)"
    using trailingFreeLoop_ok [OF D(5), of "set (free t)"] by (auto simp: l trailingFreeNextPage_def)
  show "l \<le> nextPage t" "l = firstTreePageID \<or> l - 1 \<notin> set (free t)" "firstTreePageID \<le> l" by (fact L)+
  have u: "unat l \<le> unat (nextPage t)" using L(2) by (simp add: word_le_nat_alt)
  have small: "unat l < 2 ^ 60" using u D(6) by simp
  have c: "trimCapacity l = max (int (unat l) - 2) 2" by (rule trimCapacity_ok [OF L(1) small])
  show cap: "trimCapacity l \<le> maxPages a"
  proof -
    have "int (unat l) \<le> int (unat (nextPage t))" using u by (simp only: of_nat_le_iff)
    moreover have "int metaPageCount = 2" by (simp add: metaPageCount_def)
    ultimately show ?thesis using D(2,8) unfolding c minMmapPageCount_def by linarith
  qed
  have O: "owned (trimmed t a l) (idsOf To + R)" "\<And>i. i \<in># idsOf To + R \<Longrightarrow> i < l"
    "\<And>i. i \<in> rp_id ` set (retired t) \<Longrightarrow> i < l"
    by (rule owned_trimmed [OF S(2) a L(2)], rule L(3), assumption+)+
  show "tree_ok cmp K R (trimmed t a l) To"
  proof (rule tree_ok_frame [OF ok _ O(1)])
    fix i assume "i \<in># idsOf To"
    then have "i \<in># idsOf To + R" by (simp only: union_iff simp_thms)
    then have "i < l" by (rule O(2))
    then show "pages (trimmed t a l) i = pages t i" by auto
  qed (use S(5) in \<open>simp_all add: compareKeys_def\<close>)
  show "syncable slots (trimmed t a l)"
  proof -
    have "dom (pages (trimmed t a l)) \<subseteq> dom (pages t)" by (auto simp: dom_def)
    then have "finite (dom (pages (trimmed t a l)))" using Y(9) by (auto simp: wfPages_def intro: finite_subset)
    then have "wfPages (pages (trimmed t a l))" using Y(9) by (auto simp: wfPages_def split: if_splits)
    moreover have "rp_id r < l" if "r \<in> set (retired t)" for r using O(3) that by blast
    ultimately show ?thesis using sy Y(10) by (auto simp: syncable_def not_le)
  qed
  have "sint l = int (unat l)" using small by (simp add: sint_small)
  moreover have "int (unat l) \<le> trimCapacity l + 2" unfolding c by linarith
  ultimately show "mapped (trimmed t a l) n"
    using m a D(2-4,7) u cap small L(1) c by (auto simp: mapped_def room_def base_def minMmapPageCount_def metaPageCount_def)
qed

text \<open>Without a reader, all that was retired is free.\<close>

lemma reclaimed_fields:
  assumes "noReaders t"
  shows "reclaimRetiredPages t = t\<lparr>free := free t @ map rp_id (retired t), retired := []\<rparr>"
proof (cases "retired t = []")
  case True
  then have "t = t\<lparr>free := free t @ map rp_id (retired t), retired := []\<rparr>" by (intro Tree.equality) simp_all
  then show ?thesis using True by (simp add: reclaimRetiredPages_def)
next
  case False
  then show ?thesis using oldest_noReaders [OF assms]
    by (cases "oldestReaderRevision t") (simp add: reclaimRetiredPages_def)
qed

lemma reclaimed_ok:
  assumes ok: "tree_ok cmp K R t To" and sy: "syncable slots t" and m: "mapped t n" and q: "noReaders t"
  shows "tree_ok cmp K R (reclaimRetiredPages t) To" "syncable slots (reclaimRetiredPages t)" "mapped (reclaimRetiredPages t) n"
proof -
  note S = state_okD [OF tree_okD(1) [OF ok]] and E = reclaimed_fields [OF q]
  have own: "owned (reclaimRetiredPages t) (idsOf To + R)" using S(2) by simp
  show "tree_ok cmp K R (reclaimRetiredPages t) To"
    by (rule tree_ok_frame [OF ok _ own]) (use S(5) E in \<open>simp_all add: compareKeys_def\<close>)
  show "syncable slots (reclaimRetiredPages t)" using sy by (simp add: E syncable_def)
  show "mapped (reclaimRetiredPages t) n" using m by (auto simp: E mapped_def room_def base_def split: option.splits)
qed

section \<open>The steps of Compact\<close>

lemma shrinkMmap_ok:
  "shrinkMmap (\<lambda>_. True) t a n = (rebindMmapPages t (a\<lparr>maxPages := n\<rparr>), t\<lparr>arena := Some (a\<lparr>maxPages := n\<rparr>)\<rparr>)"
  by (simp add: shrinkMmap_def syncFileSize_def Let_def)

lemma compactMmapTail_run:
  assumes a: "arena u = Some a" "\<not> ar_readOnly a" and l: "l = trailingFreeNextPage u"
    and moved: "\<not> (l = nextPage u \<and> maxPages a \<le> trimCapacity l)"
    and p: "prepareMetaFreelistPages (trimmed u a l) = Some (Inr t2)" "arena t2 = Some b0"
    and sd: "syncDataPages (\<lambda>_. True) b0 (nextPage t2) = (None, b, rs)"
    and pub: "publishMeta (\<lambda>_. True) (t2\<lparr>arena := Some b\<rparr>) slots = Some (None, slots')"
    and ob: "reclaimObsoleteMetaFreelistPages ord slots' (t2\<lparr>arena := Some b\<rparr>) = Some t4"
  shows "compactMmapTail (\<lambda>_. True) ord u slots = Some
    (if maxPages a \<le> trimCapacity l then (None, t4, slots')
     else (rebindMmapPages t4 (b\<lparr>maxPages := trimCapacity l\<rparr>), t4\<lparr>arena := Some (b\<lparr>maxPages := trimCapacity l\<rparr>)\<rparr>, slots'))"
  using moved a p sd pub ob
  unfolding compactMmapTail_def l [symmetric] trimCapacity_def [symmetric] trimmed_def [symmetric] Let_def
  by (cases "l = nextPage u") (simp_all add: shrinkMmap_ok trimmed_def [symmetric])

lemma Compact_quiet:
  assumes "noReaders t" "\<not> closed t" "\<not> readOnly t"
  shows "Compact io ord t slots = compactMmapTail io ord (reclaimRetiredPages t) slots"
  using assms oldest_noReaders by (simp add: Compact_def)

section \<open>Compact\<close>

lemma rebind_ok:
  assumes "\<And>i p. pages t i = Some p \<Longrightarrow> firstTreePageID \<le> i \<and> int (unat i) < maxPages b + 2 \<and> unat i < 2 ^ 63"
  shows "rebindMmapPages t b = None"
proof -
  have "pageBytesOk b i" if p: "pages t i = Some p" for i p
  proof -
    have "sint i = int (unat i)" using assms [OF p] by (simp add: sint_small)
    then show ?thesis using assms [OF p] by (auto simp: pageBytesOk_def metaPageCount_def)
  qed
  then have "\<not> (\<exists>i. pages t i \<noteq> None \<and> \<not> pageBytesOk b i)" by blast
  then show ?thesis by (simp only: rebindMmapPages_def if_False)
qed

lemma Compact_moves:
  assumes ok: "tree_ok cmp K R t To" and sy: "syncable slots t" and m: "mapped t n" and a: "arena t = Some a"
    and q: "noReaders t" and kc: "cmp = keyComparatorForOrder (keyOrder t)" and fill: "filledOf (degree t) To"
    and low: "\<forall>i p. pages t i = Some p \<longrightarrow> firstTreePageID \<le> i"
    and u: "u = reclaimRetiredPages t" and l: "l = trailingFreeNextPage u"
    and moved: "l < nextPage t \<or> trimCapacity l < maxPages a"
    and few: "length (filter (\<lambda>i. i < l) (free u)) \<le> maxMetaFreePages"
  obtains t3 b extra d where
    "Compact (\<lambda>_. True) ord t slots = Some (None, t3\<lparr>free := free t3 @ extra\<rparr>, slots[metaSlot (revision t) := d])"
    "version_on_file cmp K R n t3 b (slots[metaSlot (revision t) := d]) To"
    "tree_ok cmp K (R - mset extra) (t3\<lparr>free := free t3 @ extra\<rparr>) To"
    "maxPages b = trimCapacity l" "nextPage t3 = l" "revision t3 = revision t" "retired t3 = []"
    "keyOrder t3 = keyOrder t" "metaFreelistPages t3 = []" "free t3 = filter (\<lambda>i. i < l) (free u)"
proof -
  note E = reclaimed_fields [OF q] and U = reclaimed_ok [OF ok sy m q, folded u]
  have ua: "arena u = Some a" "nextPage u = nextPage t" "retired u = []" "revision u = revision t" "keyOrder u = keyOrder t"
    "degree u = degree t" "activeReaders u = activeReaders t" "pages u = pages t"
    using a by (simp_all add: u E)
  let ?t1 = "trimmed u a l"
  note T = trimmed_ok [OF U ua(1) l] and D = mappedD [OF m a]
  have k: "metaCost ?t1 = 0" using few ua(3) by (simp add: metaCost_def)
  have m1: "mapped ?t1 (metaCost ?t1 + n)" using T(3) k by simp
  obtain b0 pgs dd rs t3 extra d where P:
    "prepareMetaFreelistPages ?t1 = Some (Inr (prepared ?t1 b0 (metaCost ?t1) pgs))"
    "syncDataPages (\<lambda>_. True) b0 (nextPage (prepared ?t1 b0 (metaCost ?t1) pgs)) = (None, b0\<lparr>dirtyPages := dd\<rparr>, rs)"
    "t3 = (prepared ?t1 b0 (metaCost ?t1) pgs)\<lparr>arena := Some (b0\<lparr>dirtyPages := dd\<rparr>)\<rparr>"
    "publishMeta (\<lambda>_. True) t3 slots = Some (None, slots[metaSlot (revision ?t1) := d])"
    "reclaimObsoleteMetaFreelistPages ord (slots[metaSlot (revision ?t1) := d]) t3 = Some (t3\<lparr>free := free t3 @ extra\<rparr>)"
    and Q: "tree_ok cmp K (R + mset (metaFreelistPages t3)) t3 To"
    "mset extra \<subseteq># R" "set extra \<inter> set (metaFreelistPages t3) = {}"
    "tree_ok cmp K (R + mset (metaFreelistPages t3) - mset extra) (t3\<lparr>free := free t3 @ extra\<rparr>) To"
    "grown (a\<lparr>maxPages := trimCapacity l, dirtyPages := {i \<in> dirtyPages a. i < l}\<rparr>) b0" "mapped t3 n"
    "syncable (slots[metaSlot (revision ?t1) := d]) t3"
    "on_file t3 (b0\<lparr>dirtyPages := dd\<rparr>) (slots[metaSlot (revision ?t1) := d])" "nextPage ?t1 \<le> nextPage t3"
    by (rule publish_steps [OF T(1,2) m1 trimmed_fields(5), of "\<lambda>_. True" ord]) (simp, rule that)
  let ?b = "b0\<lparr>dirtyPages := dd\<rparr>" and ?slots = "slots[metaSlot (revision t) := d]"
  have "prepareMetaFreelistPages ?t1 = Some (Inr (?t1\<lparr>metaFreelistRoot := 0, metaFreelistPages := []\<rparr>))"
    using few ua(3) by (simp add: prepareMetaFreelistPages_def prepareMetaFreePages_def)
  then have "?t1\<lparr>metaFreelistRoot := 0, metaFreelistPages := []\<rparr> = prepared ?t1 b0 (metaCost ?t1) pgs" using P(1) by simp
  from arg_cong [OF this, of arena] arg_cong [OF this, of pages]
  have b0: "maxPages b0 = trimCapacity l" and pgs: "pgs = pages ?t1" by auto
  have F: "nextPage t3 = l" "revision t3 = revision t" "retired t3 = []" "keyOrder t3 = keyOrder t" "metaFreelistPages t3 = []"
    "free t3 = filter (\<lambda>i. i < l) (free u)" "arena t3 = Some ?b" "degree t3 = degree t" "activeReaders t3 = []"
    using k ua q by (simp_all add: P(3) noReaders_def)
  have same: "?b\<lparr>maxPages := trimCapacity l\<rparr> = ?b" using b0 by (intro mmapArena.equality) simp_all
  let ?t4 = "t3\<lparr>free := free t3 @ extra\<rparr>"
  have t4: "?t4\<lparr>arena := Some ?b\<rparr> = ?t4" using F(7) by (intro Tree.equality) simp_all
  have rb: "rebindMmapPages ?t4 ?b = None"
  proof (rule rebind_ok)
    fix i p assume p: "pages ?t4 i = Some p"
    then have i: "i < l" "firstTreePageID \<le> i" using low ua by (auto simp: P(3) pgs split: if_splits)
    then have "unat i < unat l" by (simp add: word_less_nat_alt)
    moreover have "unat l < 2 ^ 60" using T(5) D(6) ua(2) by (simp add: word_le_nat_alt)
    ultimately have "int (unat i) < int (unat l)" "unat i < 2 ^ 63" "trimCapacity l = max (int (unat l) - 2) 2"
      using trimCapacity_ok [OF T(7)] by (simp_all only: of_nat_less_iff) simp
    moreover from this have "int (unat i) < trimCapacity l + 2" by linarith
    ultimately show "firstTreePageID \<le> i \<and> int (unat i) < maxPages ?b + 2 \<and> unat i < 2 ^ 63"
      using i(2) b0 by simp
  qed
  have "compactMmapTail (\<lambda>_. True) ord u slots = Some (None, ?t4, ?slots)"
    using compactMmapTail_run [OF ua(1) D(4) l _ P(1) prepared_fields(4) P(2), folded P(3), OF _ P(4,5)] moved ua(2,4)
    by (simp only: same t4 rb if_cancel trimmed_fields(12)) (auto simp: not_le)
  then have run: "Compact (\<lambda>_. True) ord t slots = Some (None, ?t4, ?slots)"
    using Compact_quiet [OF q syncableD(1,2) [OF sy], of "\<lambda>_. True" ord slots] by (simp add: u)
  show thesis
    by (rule that [OF run, of ?b]) (use Q F kc fill b0 ua in \<open>simp_all add: version_on_file_def\<close>)
qed

text \<open>Where the file is cut: just above a page in use.\<close>

lemma trim_limits:
  assumes ok: "tree_ok cmp K R t To" and sy: "syncable slots t" and m: "mapped t n" and a: "arena t = Some a"
    and q: "noReaders t" and u: "u = reclaimRetiredPages t" and l: "l = trailingFreeNextPage u"
  shows "firstTreePageID \<le> l" "unat l < 2 ^ 60" "l = firstTreePageID \<or> l - 1 \<in># idsOf To + R"
proof -
  note E = reclaimed_fields [OF q] and U = reclaimed_ok [OF ok sy m q, folded u]
  have ua: "arena u = Some a" "nextPage u = nextPage t" "retired u = []" using a by (simp_all add: u E)
  note T = trimmed_ok [OF U ua(1) l] and D = mappedD [OF m a]
  show f: "firstTreePageID \<le> l" by (rule T(7))
  show "unat l < 2 ^ 60" using T(5) D(6) ua(2) by (simp add: word_le_nat_alt)
  show "l = firstTreePageID \<or> l - 1 \<in># idsOf To + R"
  proof (cases "l = firstTreePageID")
    case False
    then have "firstTreePageID < l" using f by simp
    note n = word_pred(1,2) [OF this]
    have own: "owned u (idsOf To + R)" by (rule state_okD(2) [OF tree_okD(1) [OF U(1)]])
    have "l - 1 \<in># mset_set {base u..<nextPage u}" using n T(5) ua by (simp add: base_def)
    then have "l - 1 \<in># idsOf To + R + mset (free u)" using own ua(3) unfolding owned_def by simp
    moreover have "l - 1 \<notin> set (free u)" using T(6) False by simp
    ultimately show ?thesis by auto
  qed simp
qed

text \<open>
  A record in the other slot that reaches past the end of the truncated file is refused; with the
  smallest capacity the file may be longer than its pages.
\<close>

definition staleSlot :: "u64 \<Rightarrow> PageID \<Rightarrow> bytes \<Rightarrow> bool" where
  "staleSlot n l d \<longleftrightarrow> (\<forall>r. readMetaPageChecked d = Some (Inr (Some r)) \<longrightarrow>
     mr_revision r < n \<and> (mr_nextPage r \<le> l \<or> firstTreePageID + 2 \<le> l))"

lemma staleSlot_older:
  assumes "staleSlot (revision t) l d" "nextPage t = l" "firstTreePageID \<le> l" "unat l < 2 ^ 60" "maxPages a = trimCapacity l"
  shows "older a u t d"
  unfolding older_def
proof (intro allI impI)
  fix r assume r: "readMetaPageChecked d = Some (Inr (Some r))" and v: "validateMetaBounds a r = None"
  have b: "mr_nextPage r \<le> word_of_int (trimCapacity l + int metaPageCount)"
    using v assms(5) by (auto simp: validateMetaBounds_def Let_def not_less split: if_splits)
  have "mr_nextPage r \<le> l"
  proof (cases "firstTreePageID + 2 \<le> l")
    case True
    then have "4 \<le> unat l" by (simp add: word_le_nat_alt firstTreePageID_def metaPageCount_def)
    then have "trimCapacity l + int metaPageCount = int (unat l)"
      using trimCapacity_ok [OF assms(3,4)] unfolding metaPageCount_def by linarith
    then show ?thesis using b by simp
  qed (use assms(1) r in \<open>auto simp: staleSlot_def\<close>)
  then show "mr_nextPage r \<le> nextPage t \<and> (mr_revision r < revision t \<or>
      revision t < mr_revision r \<and> (\<exists>e. tryCandidate a u r = Some (Inl e)))"
    using assms(1,2) r by (simp add: staleSlot_def)
qed

text \<open>
  With more free pages than a record holds the chain is written after the page where the file
  is then cut: the error comes after the record, which no file of that size can be opened with.
\<close>

lemma Compact_chain_cut:
  assumes ok: "tree_ok cmp K R t To" and sy: "syncable slots t" and a: "arena t = Some a" and q: "noReaders t"
    and u: "u = reclaimRetiredPages t" and l: "l = trailingFreeNextPage u"
    and m: "mapped t (metaCost (trimmed u a l) + n)" and moved: "trimCapacity l < maxPages a"
    and many: "maxMetaFreePages < length (filter (\<lambda>i. i < l) (free u))"
  shows "\<exists>t' slots' r. Compact (\<lambda>_. True) ord t slots = Some (Some ErrOther, t', slots') \<and>
    readMetaPageChecked (slots' ! metaSlot (revision t)) = Some (Inr (Some r)) \<and> mr_revision r = revision t \<and>
    (\<exists>b. arena t' = Some b \<and> maxPages b = trimCapacity l) \<and>
    (\<forall>b. maxPages b = trimCapacity l \<longrightarrow> validateMetaBounds b r = Some ErrMetaInvariant)"
proof -
  note E = reclaimed_fields [OF q] and U = reclaimed_ok [OF ok sy m q, folded u]
  have ua: "arena u = Some a" "nextPage u = nextPage t" "retired u = []" "revision u = revision t"
    using a by (simp_all add: u E)
  let ?t1 = "trimmed u a l" and ?slots = "\<lambda>d. slots[metaSlot (revision t) := d]"
  note T = trimmed_ok [OF U ua(1) l] and D = mappedD [OF m a]
  have k: "metaCost ?t1 \<noteq> 0" using metaCost_zero(1) [of ?t1] many ua(3) by simp
  obtain b0 pgs dd rs t3 extra d where P:
    "prepareMetaFreelistPages ?t1 = Some (Inr (prepared ?t1 b0 (metaCost ?t1) pgs))"
    "syncDataPages (\<lambda>_. True) b0 (nextPage (prepared ?t1 b0 (metaCost ?t1) pgs)) = (None, b0\<lparr>dirtyPages := dd\<rparr>, rs)"
    "t3 = (prepared ?t1 b0 (metaCost ?t1) pgs)\<lparr>arena := Some (b0\<lparr>dirtyPages := dd\<rparr>)\<rparr>"
    "publishMeta (\<lambda>_. True) t3 slots = Some (None, slots[metaSlot (revision ?t1) := d])"
    "reclaimObsoleteMetaFreelistPages ord (slots[metaSlot (revision ?t1) := d]) t3 = Some (t3\<lparr>free := free t3 @ extra\<rparr>)"
    and Q: "tree_ok cmp K (R + mset (metaFreelistPages t3)) t3 To" "mapped t3 n"
    "on_file t3 (b0\<lparr>dirtyPages := dd\<rparr>) (slots[metaSlot (revision ?t1) := d])"
    by (rule publish_steps [OF T(1-3) trimmed_fields(5), of "\<lambda>_. True" ord]) (simp, rule that)
  let ?b = "(b0\<lparr>dirtyPages := dd\<rparr>)\<lparr>maxPages := trimCapacity l\<rparr>" and ?t4 = "t3\<lparr>free := free t3 @ extra\<rparr>"
    and ?r = "published t3 (b0\<lparr>dirtyPages := dd\<rparr>)"
  have F: "metaFreelistPages t3 = metaIds l (metaCost ?t1)" "revision t3 = revision t" "base t3 = firstTreePageID"
    using ua by (simp_all add: P(3) base_def)
  have head: "l \<in> set (metaFreelistPages t3)" using k unfolding F(1) by (cases "metaCost ?t1") (simp_all add: metaIds_Suc)
  have own3: "owned t3 (idsOf To + (R + mset (metaFreelistPages t3)))"
    by (rule state_okD(2) [OF tree_okD(1) [OF Q(1)]])
  have above: "l < nextPage t3" using owned_range(2) [OF own3, of l] head by simp
  have own1: "owned ?t1 (idsOf To + R)" by (rule state_okD(2) [OF tree_okD(1) [OF T(1)]])
  have "unat l \<le> unat (nextPage t)" "unat (nextPage t) < 2 ^ 60" using T(5) D(6) ua(2) by (simp_all add: word_le_nat_alt)
  then have small: "unat l < 2 ^ 60" by simp
  have big: "501 < unat l" using owned_short [OF own1] many ua(3) by (simp add: page_consts)
  have cap: "trimCapacity l = int (unat l) - 2" using trimCapacity_ok [OF T(7) small] big by linarith
  have "\<not> pageBytesOk ?b l" using small cap by (simp add: pageBytesOk_def sint_small metaPageCount_def)
  moreover have "pages ?t4 l \<noteq> None" using Q(3) head by (simp add: on_file_def)
  ultimately have rb: "rebindMmapPages ?t4 ?b = Some ErrOther" by (auto simp: rebindMmapPages_def)
  have "compactMmapTail (\<lambda>_. True) ord u slots = Some (Some ErrOther, ?t4\<lparr>arena := Some ?b\<rparr>, ?slots d)"
    using compactMmapTail_run [OF ua(1) D(4) l _ P(1) prepared_fields(4) P(2), folded P(3), OF _ P(4,5)] moved ua(2,4)
    by (simp only: rb trimmed_fields(12)) auto
  then have run: "Compact (\<lambda>_. True) ord t slots = Some (Some ErrOther, ?t4\<lparr>arena := Some ?b\<rparr>, ?slots d)"
    using Compact_quiet [OF q syncableD(1,2) [OF sy], of "\<lambda>_. True" ord slots] by (simp add: u)
  have rd: "readMetaPageChecked (?slots d ! metaSlot (revision t)) = Some (Inr (Some ?r))"
    using Q(3) F(2) ua(4) by (simp add: on_file_def)
  have refused: "validateMetaBounds b ?r = Some ErrMetaInvariant" if "maxPages b = trimCapacity l" for b
  proof -
    have "(word_of_int (maxPages b + int metaPageCount) :: PageID) = l" unfolding that cap by (simp add: metaPageCount_def)
    then have "(word_of_int (maxPages b + int metaPageCount) :: PageID) < mr_nextPage ?r" using above by simp
    then show ?thesis by (simp add: validateMetaBounds_def Let_def)
  qed
  have ar: "arena (?t4\<lparr>arena := Some ?b\<rparr>) = Some ?b" "maxPages ?b = trimCapacity l" "mr_revision ?r = revision t"
    using F(2) by simp_all
  show ?thesis using run rd refused ar by blast
qed

end
