(* ===== verification/MmapSamples.thy ===== *)
theory MmapSamples
  imports Samples CompactCorrect
begin

text \<open>
  Concrete trees whose pages are known one by one: the tree after the first put, in memory and
  over a mapped file, and a mapped tree with more free pages than a metadata record holds.  The
  properties about integrity checks, recovery and compaction are applied at them.
\<close>

section \<open>The first put\<close>

lemma firstLeaf:
  assumes i: "i \<noteq> 0" and short: "length k + length v \<le> 1000"
  obtains p where "writeLeafEntries t (newPage i flagLeaf) [newEntry k v] = Some (p, t)"
    "leafPage p i [(k, v, [])]" "nextLeaf p = 0"
proof -
  let ?e = "\<lparr>le_key = k, le_value = v, le_encoded = True, le_slotFlags = 0\<rparr>"
  have enc: "encodeEntries t [newEntry k v] = Some ([?e], t)"
    using short by (simp add: newEntry_def leafCellValue_def shouldStoreOverflow_def page_consts)
  have fit: "fits (map leCell [?e])" using short by (simp add: fits_def leCell_def page_consts)
  obtain p where p: "writeEncodedLeafEntries (newPage i flagLeaf) [?e] = (p, True)"
    "holds p flagLeaf (map leCell [?e])" "pid p = pid (newPage i flagLeaf)" "validChecksum p"
    by (rule writeEncodedLeafEntries_fits [OF wf_newPage fit]) (rule that)
  have lp: "leafPage p i [(k, v, [])]"
    using p i by (simp add: leafPage_def leCell_def gcell_def)
  have nl: "nextLeaf (newPage i flagLeaf) = 0" by (simp add: nextLeaf_def)
  have "writeLeafLoop t (newPage i flagLeaf) 0 [?e] = Some (setNextLeaf p 0, t)"
    using p(1) by (subst writeLeafLoop.simps) simp
  then have "writeLeafEntries t (newPage i flagLeaf) [newEntry k v] = Some (setNextLeaf p 0, t)"
    using enc nl by (simp add: writeLeafEntries_def Let_def)
  then show thesis
    by (rule that [OF _ leafPage_setNextLeaf [OF lp] nextLeaf_setNextLeaf [OF leafPage_kind(5) [OF lp]]])
qed

text \<open>The tree after the first put, field by field; \<open>ar\<close> is the mapping after one page was taken.\<close>

definition onePut :: "Tree \<Rightarrow> mmapArena option \<Rightarrow> page \<Rightarrow> Tree" where
  "onePut t ar p = t\<lparr>arena := ar, nextPage := nextPage t + 1, pages := [nextPage t \<mapsto> p], root := nextPage t,
     treeLen := 1, revision := revision t + 1\<rparr>"

lemma onePut_fields [simp]:
  "pages (onePut t ar p) = [nextPage t \<mapsto> p]" "nextPage (onePut t ar p) = nextPage t + 1" "arena (onePut t ar p) = ar"
  "root (onePut t ar p) = nextPage t" "revision (onePut t ar p) = revision t + 1" "treeLen (onePut t ar p) = 1"
  "free (onePut t ar p) = free t" "retired (onePut t ar p) = retired t" "degree (onePut t ar p) = degree t"
  "keyOrder (onePut t ar p) = keyOrder t" "closed (onePut t ar p) = closed t" "readOnly (onePut t ar p) = readOnly t"
  "activeReaders (onePut t ar p) = activeReaders t" "keyComparator (onePut t ar p) = keyComparator t"
  "metaFreelistPages (onePut t ar p) = metaFreelistPages t" "treeCache (onePut t ar p) = treeCache t"
  "metadataUpgradePending (onePut t ar p) = metadataUpgradePending t"
  by (simp_all add: onePut_def)

lemma firstPut:
  assumes t: "root t = 0" "pages t = Map.empty" "free t = []" "retired t = []" "activeReaders t = []"
      "\<not> closed t" "\<not> readOnly t"
    and g: "growMmapForPage t (nextPage t) = Some (t\<lparr>arena := ar\<rparr>)"
    and pb: "\<And>a. ar = Some a \<Longrightarrow> pageBytesOk a (nextPage t)" and nz: "nextPage t \<noteq> 0"
    and short: "length k + length v \<le> 1000"
  obtains p where "treePut t k v = Some (onePut t (map_option (\<lambda>a. markDirtyPage a (nextPage t)) ar) p, [], False)"
    "leafPage p (nextPage t) [(k, v, [])]"
proof -
  let ?i = "nextPage t" and ?ar = "map_option (\<lambda>a. markDirtyPage a (nextPage t)) ar"
  let ?t1 = "t\<lparr>arena := ?ar, nextPage := ?i + 1\<rparr>"
  have "allocPage t = Some (?i, t\<lparr>arena := ar, nextPage := ?i + 1\<rparr>)" using t(3) g by (simp add: allocPage_def Let_def)
  moreover have "reset \<lparr>pid = ?i, data = replicate PageSize 0\<rparr> flagLeaf = newPage ?i flagLeaf"
    by (simp add: reset_newPage wf_page_def)
  then have "treeNewPage (t\<lparr>arena := ar, nextPage := ?i + 1\<rparr>) ?i flagLeaf = Some (newPage ?i flagLeaf, ?t1)"
    using pb by (cases ar) (simp_all add: treeNewPage_def)
  moreover obtain p where p: "writeLeafEntries ?t1 (newPage ?i flagLeaf) [newEntry k v] = Some (p, ?t1)"
    "leafPage p ?i [(k, v, [])]" "nextLeaf p = 0"
    by (rule firstLeaf [OF nz short]) (rule that)
  ultimately have first: "putFirst t k v = Some ((putPage ?t1 p)\<lparr>root := ?i, treeLen := 1\<rparr>, [], False, True)"
    by (simp add: putFirst_def)
  let ?t2 = "(putPage ?t1 p)\<lparr>root := ?i, treeLen := 1, revision := revision t + 1\<rparr>"
  have pid: "pid p = ?i" by (rule leafPage_kind(3) [OF p(2)])
  have t2: "?t2 = onePut t ?ar p" using t(2) pid by (simp add: onePut_def putPage_def)
  have "collectLeavesInOrder (pages ?t2) ?i = Some [?i]"
    using pid leafPage_kind(1) [OF p(2)] nz by (subst collectLeavesInOrder.simps) simp
  moreover have "linkLeaves ?t2 [?i] = Some ?t2" using pid p(3) by simp
  ultimately have "publishStagedMutation ((putPage ?t1 p)\<lparr>root := ?i, treeLen := 1\<rparr>) = Some ?t2"
    using t(4,5) nz by (simp add: publishStagedMutation_def reclaimRetiredPages_def relinkLeaves_def activeReaderCount_def putPage_def)
  then have "treePut t k v = Some (?t2, [], False)"
    using first t(1,6,7) by (simp add: treePut_def putStaged_def publishIf_def)
  then show thesis using that [of p] p(2) t2 by simp
qed

lemma onePut_leaf:
  assumes "tree_ok cmp K R (onePut t ar p) (Some T)" "leafPage p (nextPage t) es"
  shows "filledOf d (Some T)"
proof -
  have T: "rep [nextPage t \<mapsto> p] T" "gid T = nextPage t"
    using state_okD(7,9) [OF tree_okD(1) [OF assms(1)]] by simp_all
  then have "\<exists>es. T = GLeaf (nextPage t) es"
    using leafPage_kind(1,2) [OF assms(2)] branchPage_kind(1) by (cases T) auto
  then show ?thesis by (auto simp: filledOf_def)
qed

section \<open>In memory\<close>

lemma sample_clean:
  "\<exists>t To. tree_ok compareStrings 8 {#} t To \<and> \<not> closed t \<and> entsOf To = [([1], [2])] \<and> filledOf (degree t) To \<and>
     free t = [] \<and> retired t = [] \<and> metaFreelistPages t = [] \<and> activeReaders t = []"
proof -
  note S = sampleD [OF sample_New]
  have N: "root (New 3) = 0" "pages (New 3) = Map.empty" "free (New 3) = []" "retired (New 3) = []"
    "activeReaders (New 3) = []" "nextPage (New 3) = 1" "arena (New 3) = None" "metaFreelistPages (New 3) = []"
    "revision (New 3) = 0" "growMmapForPage (New 3) (nextPage (New 3)) = Some ((New 3)\<lparr>arena := None\<rparr>)"
    by (simp_all add: New_def NewWithOptions_def growMmapForPage_def)
  obtain p where p: "treePut (New 3) [1] [2] = Some (onePut (New 3) None p, [], False)" "leafPage p (nextPage (New 3)) [([1], [2], [])]"
    by (rule firstPut [OF N(1-5) S(2,3) N(10), of "[1]" "[2]"]) (simp_all add: N(6))
  have room: "room (New 3) (putCost (degree (New 3)) [2] (heightOf None) + 0)"
    using sample_costs(1) [of "[2]" 0] S(9) by (intro room_le [OF S(6)]) (simp add: heightOf_def)
  obtain t' To' where t': "treePut (New 3) [1] [2] = Some (t', putResult [1] (entsOf None))"
    "mutated compareStrings 8 {#} 0 (New 3) None (put_list compareStrings [1] [2] (entsOf None)) t' To'"
    using bytewise.treePut_ok [OF S(1-3) room _, of "[1]"] N(9) by (auto simp: lastRevision_def)
  have m: "tree_ok compareStrings 8 {#} (onePut (New 3) None p) To'" "entsOf To' = [([1], [2])]"
    using mutatedD(1,2) [OF t'(2)] t'(1) p(1) by (simp_all add: entsOf_def)
  then obtain T where "To' = Some T" by (cases To') (simp_all add: entsOf_def)
  then show ?thesis
    using m onePut_leaf [OF _ p(2)] S(2) N
    by (intro exI [of _ "onePut (New 3) None p"] exI [of _ To']) auto
qed

section \<open>Over a mapped file\<close>

definition sampleOptions :: MmapOptions where
  "sampleOptions = \<lparr>mo_Degree = 3, mo_MaxPages = 64, mo_KeyOrder = 0, mo_KeyComparator = None,
     mo_PageCacheCapacity = 0, mo_RangePrefetchLeafWindow = 0, mo_MinRepairPageFillPercent = 0\<rparr>"

definition sampleReaders :: "u64 \<Rightarrow> (u64 \<times> bool) option" where "sampleReaders r = Some (r, False)"

definition sampleArena :: mmapArena where "sampleArena = openArena (66 * 4096) (\<lambda>_. True) sampleReaders"

definition sampleMmap :: Tree where "sampleMmap = mmapTree sampleOptions KeyOrderBytewise sampleArena"

definition emptySlots :: "bytes list" where "emptySlots = [replicate PageSize 0, replicate PageSize 0]"

lemma bytewise_order: "keyComparatorForOrder KeyOrderBytewise = compareStrings"
  by (simp add: keyComparatorForOrder_def normalizeKeyOrder_def KeyOrderBytewise_def KeyOrderReverse_def KeyComparatorBytewise_def)

lemma sampleMmap_fields:
  "root sampleMmap = 0" "pages sampleMmap = Map.empty" "free sampleMmap = []" "retired sampleMmap = []"
  "activeReaders sampleMmap = []" "nextPage sampleMmap = 2" "arena sampleMmap = Some sampleArena" "revision sampleMmap = 0"
  "\<not> closed sampleMmap" "\<not> readOnly sampleMmap" "degree sampleMmap = 3" "keyOrder sampleMmap = KeyOrderBytewise"
  "treeLen sampleMmap = 0" "metaFreelistPages sampleMmap = []" "\<not> metadataUpgradePending sampleMmap"
  "compareKeys sampleMmap = compareStrings" "treeCache sampleMmap = newPageCache 0"
  "metaFreelistRoot sampleMmap = 0"
  by (simp_all add: sampleMmap_def mmapTree_def sampleOptions_def normalizeDegree_def firstTreePageID_def metaPageCount_def
      compareKeys_def bytewise_order)

lemma sampleArena_fields:
  "maxPages sampleArena = 64" "\<not> ar_readOnly sampleArena" "os_grow sampleArena = (\<lambda>_. True)" "dirtyPages sampleArena = {}"
  "readerTable sampleArena = Some sampleReaders"
  by (simp_all add: sampleArena_def openArena_def metaPageCount_def page_consts)

lemma emptySlots_ok: "slots_ok emptySlots"
proof -
  have "readMetaPageChecked (replicate PageSize 0) = Some (Inr None)"
    by (simp add: readMetaPageChecked_def isZeroPage_def list_all_iff)
  then show ?thesis by (simp add: emptySlots_def slots_ok_def metaPageCount_def)
qed

lemma emptySlots_outdated: "i < 2 \<Longrightarrow> outdated t (emptySlots ! i)"
proof -
  have "readMetaPageChecked (replicate PageSize 0) = Some (Inr None)"
    by (simp add: readMetaPageChecked_def isZeroPage_def list_all_iff)
  then show "i < 2 \<Longrightarrow> outdated t (emptySlots ! i)"
    by (cases i) (auto simp: emptySlots_def outdated_def less_Suc_eq numeral_2_eq_2)
qed

lemma sampleMmap_ok: "tree_ok compareStrings 8 {#} sampleMmap None" "mapped sampleMmap 1000"
proof -
  show "tree_ok compareStrings 8 {#} sampleMmap None"
    using roomy_sample
    by (simp add: tree_ok_def state_ok_def version_def sampleMmap_fields owned_def base_def readers_ok_def linkedOf_def
        firstTreePageID_def metaPageCount_def)
  show "mapped sampleMmap 1000"
    by (simp add: mapped_def room_def base_def sampleMmap_fields sampleArena_fields firstTreePageID_def metaPageCount_def
        minMmapPageCount_def)
qed

text \<open>What the mapped sample is after its first put.\<close>

definition mmapSample :: "Tree \<Rightarrow> gtree option \<Rightarrow> mmapArena \<Rightarrow> bool" where
  "mmapSample t To a \<longleftrightarrow> tree_ok compareStrings 8 {#} t To \<and> syncable emptySlots t \<and> mapped t (metaCost t + 100) \<and>
     arena t = Some a \<and> revision t = 1 \<and> activeReaders t = [] \<and> keyOrder t = KeyOrderBytewise \<and>
     filledOf (degree t) To \<and> entsOf To = [([1], [2])] \<and> maxPages a = 64 \<and> \<not> metadataUpgradePending t \<and> nextPage t = 3 \<and>
     free t = [] \<and> retired t = [] \<and> readerTable a = Some sampleReaders \<and>
     (\<forall>i p. pages t i = Some p \<longrightarrow> firstTreePageID \<le> i)"

lemma sample_mmap: "\<exists>t To a. mmapSample t To a"
proof -
  note F = sampleMmap_fields and A = sampleArena_fields
  have g: "growMmapForPage sampleMmap (nextPage sampleMmap) = Some (sampleMmap\<lparr>arena := Some sampleArena\<rparr>)"
  proof -
    have "sampleMmap\<lparr>arena := Some sampleArena\<rparr> = sampleMmap" by (rule Tree.equality) (simp_all add: F)
    then show ?thesis by (simp add: growMmapForPage_def F A metaPageCount_def)
  qed
  have pb: "pageBytesOk a (nextPage sampleMmap)" if "Some sampleArena = Some a" for a
    using that A by (auto simp: pageBytesOk_def F firstTreePageID_def metaPageCount_def)
  let ?a = "markDirtyPage sampleArena (nextPage sampleMmap)"
  obtain p where p: "treePut sampleMmap [1] [2] = Some (onePut sampleMmap (map_option (\<lambda>a. markDirtyPage a (nextPage sampleMmap)) (Some sampleArena)) p, [], False)"
    "leafPage p (nextPage sampleMmap) [([1], [2], [])]"
    by (rule firstPut [OF F(1-5) F(9,10) g pb, of "[1]" "[2]"]) (simp_all add: F(6))
  let ?t = "onePut sampleMmap (Some ?a) p"
  have a: "maxPages ?a = 64" "\<not> ar_readOnly ?a" "os_grow ?a = (\<lambda>_. True)" "readerTable ?a = Some sampleReaders" by (simp_all add: markDirtyPage_def A)
  have room: "room sampleMmap (putCost (degree sampleMmap) [2] (heightOf None) + 0)"
    using sample_costs(1) [of "[2]" 0] mappedD(1) [OF sampleMmap_ok(2) F(7)]
    by (elim room_le) (simp add: heightOf_def F)
  obtain t' To' where t': "treePut sampleMmap [1] [2] = Some (t', putResult [1] (entsOf None))"
    "mutated compareStrings 8 {#} 0 sampleMmap None (put_list compareStrings [1] [2] (entsOf None)) t' To'"
    using bytewise.treePut_ok [OF sampleMmap_ok(1) F(9,10) room _, of "[1]"] F(8) by (auto simp: lastRevision_def)
  have m: "tree_ok compareStrings 8 {#} ?t To'" "entsOf To' = [([1], [2])]"
    using mutatedD(1,2) [OF t'(2)] t'(1) p(1) by (simp_all add: entsOf_def)
  then obtain T where "To' = Some T" by (cases To') (simp_all add: entsOf_def)
  then have fill: "filledOf 3 To'" using m onePut_leaf [OF _ p(2)] by blast
  have sy: "syncable emptySlots ?t"
    using emptySlots_ok leafPage_kind(3,5) [OF p(2)]
    by (simp add: syncable_def F goInt_def maxPageDegree_def maxPageSlots_def page_consts wfPages_def)
  have mp: "mapped ?t (metaCost ?t + 100)"
    using a by (simp add: mapped_def room_def base_def F firstTreePageID_def metaPageCount_def minMmapPageCount_def metaCost_def)
  show ?thesis
    by (intro exI [of _ ?t] exI [of _ To'] exI [of _ ?a]) (use m fill sy mp a F in \<open>simp add: mmapSample_def firstTreePageID_def metaPageCount_def\<close>)
qed

text \<open>When every system call fails, so does \<^verbatim>\<open>Sync\<close>.\<close>

lemma sample_sync_fails:
  assumes m: "mmapSample t To a" and s: "Sync (\<lambda>_. False) ord t slots = Some (err, t', slots')"
  shows "err \<noteq> None"
proof -
  note S = m [unfolded mmapSample_def]
  have c: "arena t = Some a" "\<not> closed t" "\<not> readOnly t" "\<not> ar_readOnly a" "\<not> metadataUpgradePending t"
    using S mappedD(4) [of t _ a] by (auto dest: syncableD(1,2))
  have p: "prepareMetaFreelistPages t = Some (Inr (t\<lparr>metaFreelistRoot := 0, metaFreelistPages := []\<rparr>))"
    using S by (simp add: prepareMetaFreelistPages_def prepareMetaFreePages_def)
  have pub: "e \<noteq> None" if h: "publishMeta (\<lambda>_. False) u slots = Some (e, s')" "arena u = Some b" "\<not> ar_readOnly b" for u b e s'
  proof -
    obtain r where "persistMeta u slots = Some r" using h by (auto simp: publishMeta_def Let_def bind_Some_iff)
    then show ?thesis using h by (cases r) (auto simp: publishMeta_def Let_def)
  qed
  obtain e d rs where sd: "syncDataPages (\<lambda>_. False) a (nextPage t) = (e, a\<lparr>dirtyPages := d\<rparr>, rs)" by (rule syncDataPages_any)
  show ?thesis
    using s c p sd pub [of "t\<lparr>metaFreelistRoot := 0, metaFreelistPages := [], arena := Some (a\<lparr>dirtyPages := d\<rparr>)\<rparr>" _ _ "a\<lparr>dirtyPages := d\<rparr>"]
    by (auto simp: Sync_def syncMmap_def bind_Some_iff Let_def split: option.splits if_splits)
qed

section \<open>More free pages than a metadata record holds\<close>

text \<open>An empty mapped tree: pages 2 to 503 are free, page 504 is a metadata page, the file has 600.\<close>

definition manyFree :: Tree where
  "manyFree = sampleMmap\<lparr>nextPage := 505, free := map of_nat [2..<504],
     arena := Some (sampleArena\<lparr>maxPages := 600\<rparr>)\<rparr>"

lemma unat_upto: "i \<le> n \<Longrightarrow> n < 2 ^ 64 \<Longrightarrow> unat (of_nat i :: u64) = i"
  by (simp add: unat_of_nat)

lemma distinct_upto:
  assumes "n < 2 ^ 64" shows "distinct (map (of_nat :: nat \<Rightarrow> u64) [m..<n])"
  unfolding distinct_map
proof (intro conjI inj_onI)
  fix x y assume xy: "x \<in> set [m..<n]" "y \<in> set [m..<n]" and eq: "(of_nat x :: u64) = of_nat y"
  from xy have "x \<le> n" "y \<le> n" by auto
  note u = unat_upto [OF this(1) assms] unat_upto [OF this(2) assms]
  show "x = y" using u(2) unfolding eq [symmetric] u(1) .
qed (rule distinct_upt)

lemma set_upto:
  assumes "m \<le> n" "n < 2 ^ 64"
  shows "set (map of_nat [m..<n]) = {of_nat m..<of_nat n :: u64}"
proof (intro set_eqI iffI)
  fix i :: u64 assume "i \<in> {of_nat m..<of_nat n}"
  then have "unat (of_nat m :: u64) \<le> unat i" "unat i < unat (of_nat n :: u64)"
    by (simp_all only: atLeastLessThan_iff word_le_nat_alt word_less_nat_alt)
  then have "unat i \<in> set [m..<n]"
    unfolding unat_upto [OF assms] unat_upto [OF order_refl assms(2)] by simp
  moreover have "i = of_nat (unat i)" by simp
  ultimately show "i \<in> set (map of_nat [m..<n])" unfolding set_map by (rule rev_image_eqI)
next
  fix i :: u64 assume "i \<in> set (map of_nat [m..<n])"
  then obtain j where j: "i = of_nat j" "m \<le> j" "j < n" by auto
  have "unat i = j" unfolding j(1) by (rule unat_upto [OF less_imp_le [OF j(3)] assms(2)])
  then show "i \<in> {of_nat m..<of_nat n}"
    unfolding atLeastLessThan_iff word_le_nat_alt word_less_nat_alt unat_upto [OF assms] unat_upto [OF order_refl assms(2)]
    using j by simp
qed

lemma manyFree_fields:
  "root manyFree = 0" "pages manyFree = Map.empty" "retired manyFree = []" "activeReaders manyFree = []"
  "nextPage manyFree = 505" "free manyFree = map of_nat [2..<504]" "revision manyFree = 0" "\<not> closed manyFree"
  "\<not> readOnly manyFree" "degree manyFree = 3" "keyOrder manyFree = KeyOrderBytewise" "treeLen manyFree = 0"
  "compareKeys manyFree = compareStrings" "treeCache manyFree = newPageCache 0"
  "arena manyFree = Some (sampleArena\<lparr>maxPages := 600\<rparr>)" "length (free manyFree) = 502"
  by (simp_all add: manyFree_def sampleMmap_fields compareKeys_def sampleMmap_fields(16) [unfolded compareKeys_def]
      del: upt_rec_numeral)

lemma manyFree_free: "set (free manyFree) = {2..<504}" "mset (free manyFree) = mset_set {2..<504}"
proof -
  show s: "set (free manyFree) = {2..<504}" using set_upto [of 2 504] by (simp only: manyFree_fields) simp
  have "distinct (free manyFree)" unfolding manyFree_fields by (rule distinct_upto) simp
  then show "mset (free manyFree) = mset_set {2..<504}" using mset_set_set [of "free manyFree"] s by simp
qed

lemma manyFree_tree: "tree_ok compareStrings 8 {#504#} manyFree None"
proof -
  have "{2..<505 :: u64} = insert 504 {2..<504}" by (auto simp: word_less_nat_alt word_le_nat_alt word_unat_eq_iff)
  then have "mset_set {2..<505 :: u64} = add_mset 504 (mset_set {2..<504})" by simp
  then have "owned manyFree (idsOf None + {#504#})"
    by (simp add: owned_def manyFree_free(2) manyFree_fields(3,5,15) base_def firstTreePageID_def metaPageCount_def)
  then show ?thesis
    using roomy_sample by (simp add: tree_ok_def state_ok_def version_def manyFree_fields(1-5,7-15) readers_ok_def linkedOf_def)
qed

lemma manyFree_ok:
  "tree_ok compareStrings 8 {#504#} manyFree None" "syncable emptySlots manyFree"
  "arena manyFree = Some (sampleArena\<lparr>maxPages := 600\<rparr>)" "noReaders manyFree"
  "trailingFreeNextPage manyFree = 505" "manyFree = reclaimRetiredPages manyFree"
  "mapped manyFree (metaCost (trimmed manyFree (sampleArena\<lparr>maxPages := 600\<rparr>) 505) + 0)"
  "503 < maxPages (sampleArena\<lparr>maxPages := 600\<rparr>)"
  "length (filter (\<lambda>i. i < 505) (free manyFree)) = 502"
proof -
  note F = manyFree_fields and A = sampleArena_fields
  show "tree_ok compareStrings 8 {#504#} manyFree None" by (rule manyFree_tree)
  show "syncable emptySlots manyFree"
    using emptySlots_ok by (simp add: syncable_def F(1-4,7-12) goInt_def wfPages_def maxPageDegree_def maxPageSlots_def page_consts)
  show "arena manyFree = Some (sampleArena\<lparr>maxPages := 600\<rparr>)" by (rule F(15))
  show "noReaders manyFree" by (simp add: noReaders_def F(4,15) A sampleReaders_def)
  show "trailingFreeNextPage manyFree = 505"
    by (simp add: trailingFreeNextPage_def F(5) manyFree_free trailingFreeLoop.simps)
  show "manyFree = reclaimRetiredPages manyFree" by (simp add: reclaimRetiredPages_def F(3))
  have "filter (\<lambda>i. i < 505) (free manyFree) = free manyFree"
  proof (rule filter_True)
    show "\<forall>i\<in>set (free manyFree). i < 505" unfolding manyFree_free by (auto simp: word_less_nat_alt)
  qed
  then show len: "length (filter (\<lambda>i. i < 505) (free manyFree)) = 502" using F(16) by simp
  have "metaCost (trimmed manyFree (sampleArena\<lparr>maxPages := 600\<rparr>) 505) \<le> 502"
    using len by (simp add: metaCost_def F(3) divideRoundUp_def page_consts)
  then show "mapped manyFree (metaCost (trimmed manyFree (sampleArena\<lparr>maxPages := 600\<rparr>) 505) + 0)"
    by (simp add: mapped_def room_def base_def F(5,15) A firstTreePageID_def metaPageCount_def minMmapPageCount_def)
qed simp

end
