(* ===== verification/ReaderTable.thy ===== *)
theory ReaderTable
  imports Layout TreeState
begin

text \<open>
  The reader table (\<^verbatim>\<open>pagebtree/reader_table_unix.go\<close>, \<^verbatim>\<open>mmap_readers.go\<close>): a file of 64 slots beside
  the database, shared by processes under \<^verbatim>\<open>flock\<close>, in which a reading process notes the revision
  it reads.  The file is its bytes; a handle is \<open>readerTable\<close>.

  \<open>host\<close> is what the package variables \<^verbatim>\<open>pidAlive\<close>, \<^verbatim>\<open>processStartToken\<close> and \<^verbatim>\<open>bootIDToken\<close> answer, \<open>me\<close>
  is \<^verbatim>\<open>os.Getpid()\<close>, and \<open>io op\<close> says that the system call \<open>op\<close> succeeds.  A failed write leaves the file
  as it was.  A handle is only used after \<^verbatim>\<open>setFormat\<close>; the operations of a nil handle do nothing and
  are left to the caller.
\<close>

section \<open>Format\<close>

definition readerTableMagic :: bytes where "readerTableMagic = str ''CBTRDR1'' @ [0]"
definition readerTableVersion :: u64 where "readerTableVersion = 3"
definition readerTableV2Version :: u64 where "readerTableV2Version = 2"
definition readerTableV1Version :: u64 where "readerTableV1Version = 1"
definition readerTableSlotCount :: nat where [page_consts]: "readerTableSlotCount = 64"
definition readerTableHeaderSize :: nat where [page_consts]: "readerTableHeaderSize = 32"
definition readerSlotV1Size :: nat where [page_consts]: "readerSlotV1Size = 32"
definition readerSlotV2Size :: nat where [page_consts]: "readerSlotV2Size = 40"
definition readerSlotSize :: nat where [page_consts]: "readerSlotSize = 48"
definition readerTableV1Size :: nat where
  [page_consts]: "readerTableV1Size = readerTableHeaderSize + readerTableSlotCount * readerSlotV1Size"
definition readerTableV2Size :: nat where
  [page_consts]: "readerTableV2Size = readerTableHeaderSize + readerTableSlotCount * readerSlotV2Size"
definition readerTableSize :: nat where
  [page_consts]: "readerTableSize = readerTableHeaderSize + readerTableSlotCount * readerSlotSize"

record readerTable =
  rt_slot :: int
  rt_token :: u64
  rt_revision :: u64
  rt_version :: u64
  rt_slotSize :: nat
  rt_tableSize :: nat

record readerSlot =
  rs_active :: bool
  rs_pid :: int
  rs_processStart :: u64
  rs_bootID :: u64
  rs_revision :: u64
  rs_token :: u64

record host =
  killOk :: "int \<Rightarrow> bool"
  processStartToken :: "int \<Rightarrow> u64"
  bootIDToken :: u64

datatype fileOp =
  LockTable | UnlockTable | StatTable | TruncateTable | ReadHeader | WriteTable
  | ReadSlot nat | WriteSlot nat | WriteActive nat

text \<open>\<^verbatim>\<open>ReadAt\<close> into a zeroed buffer, with \<^verbatim>\<open>io.EOF\<close> ignored; \<^verbatim>\<open>WriteAt\<close> extends the file.\<close>

definition readAt :: "bytes \<Rightarrow> nat \<Rightarrow> nat \<Rightarrow> bytes" where
  "readAt f off n = slice f off n @ replicate (n - length (slice f off n)) 0"

definition writeAt :: "bytes \<Rightarrow> nat \<Rightarrow> bytes \<Rightarrow> bytes" where
  "writeAt f off bs = splice (f @ replicate (off + length bs - length f) 0) off bs"

definition setFormat :: "readerTable \<Rightarrow> u64 \<Rightarrow> dbError + readerTable" where
  "setFormat r v =
     (if v = readerTableV1Version
      then Inr (r\<lparr>rt_version := v, rt_slotSize := readerSlotV1Size, rt_tableSize := readerTableV1Size\<rparr>)
      else if v = readerTableV2Version
      then Inr (r\<lparr>rt_version := v, rt_slotSize := readerSlotV2Size, rt_tableSize := readerTableV2Size\<rparr>)
      else if v = readerTableVersion
      then Inr (r\<lparr>rt_version := v, rt_slotSize := readerSlotSize, rt_tableSize := readerTableSize\<rparr>)
      else Inl ErrReaderTable)"

section \<open>Slots\<close>

definition decodeSlot :: "nat \<Rightarrow> bytes \<Rightarrow> readerSlot" where
  "decodeSlot width buf =
     \<lparr>rs_active = (getU64 buf 0 \<noteq> 0), rs_pid = sint (getU64 buf 8),
      rs_processStart = (if readerSlotV2Size \<le> width then getU64 buf 32 else 0),
      rs_bootID = (if readerSlotSize \<le> width then getU64 buf 40 else 0),
      rs_revision = getU64 buf 16, rs_token = getU64 buf 24\<rparr>"

definition encodeSlot :: "nat \<Rightarrow> readerSlot \<Rightarrow> bytes" where
  "encodeSlot width v =
     (let buf = replicate width 0;
          buf = (if rs_active v then putU64 buf 0 1 else buf);
          buf = putU64 buf 8 (word_of_int (rs_pid v));
          buf = putU64 buf 16 (rs_revision v);
          buf = putU64 buf 24 (rs_token v);
          buf = (if readerSlotV2Size \<le> width then putU64 buf 32 (rs_processStart v) else buf)
      in if readerSlotSize \<le> width then putU64 buf 40 (rs_bootID v) else buf)"

definition slotOffset :: "readerTable \<Rightarrow> nat \<Rightarrow> nat" where
  "slotOffset r i = readerTableHeaderSize + i * rt_slotSize r"

definition readSlotLocked ::
  "(fileOp \<Rightarrow> bool) \<Rightarrow> readerTable \<Rightarrow> bytes \<Rightarrow> nat \<Rightarrow> dbError + readerSlot" where
  "readSlotLocked io r f i =
     (if \<not> io (ReadSlot i) then Inl ErrOther
      else Inr (decodeSlot (rt_slotSize r) (readAt f (slotOffset r i) (rt_slotSize r))))"

definition writeSlotLocked ::
  "(fileOp \<Rightarrow> bool) \<Rightarrow> readerTable \<Rightarrow> bytes \<Rightarrow> nat \<Rightarrow> readerSlot \<Rightarrow> dbError option \<times> bytes" where
  "writeSlotLocked io r f i v =
     (if \<not> io (WriteSlot i) then (Some ErrOther, f)
      else (None, writeAt f (slotOffset r i) (encodeSlot (rt_slotSize r) v)))"

definition writeSlotActiveLocked ::
  "(fileOp \<Rightarrow> bool) \<Rightarrow> readerTable \<Rightarrow> bytes \<Rightarrow> nat \<Rightarrow> bool \<Rightarrow> dbError option \<times> bytes" where
  "writeSlotActiveLocked io r f i active =
     (if \<not> io (WriteActive i) then (Some ErrOther, f)
      else (None, writeAt f (slotOffset r i) (word_to_le 8 (if active then 1 else 0 :: u64))))"

text \<open>\<^verbatim>\<open>errors.Join\<close>: the sentinel of the body is kept.\<close>

definition withLock :: "(fileOp \<Rightarrow> bool) \<Rightarrow> 's \<Rightarrow> dbError option \<times> 's \<Rightarrow> dbError option \<times> 's" where
  "withLock io s0 body =
     (if \<not> io LockTable then (Some ErrOther, s0)
      else case body of (err, s) \<Rightarrow>
        (if err \<noteq> None then err else if io UnlockTable then None else Some ErrOther, s))"

section \<open>Owners\<close>

definition bootIDMatches :: "host \<Rightarrow> readerSlot \<Rightarrow> bool" where
  "bootIDMatches h s \<longleftrightarrow> rs_bootID s = 0 \<or> bootIDToken h = 0 \<or> bootIDToken h = rs_bootID s"

definition pidAlive :: "host \<Rightarrow> int \<Rightarrow> bool" where
  "pidAlive h p = (if p \<le> 0 then False else killOk h p)"

definition readerSlotAlive :: "host \<Rightarrow> readerSlot \<Rightarrow> bool" where
  "readerSlotAlive h s =
     (if \<not> pidAlive h (rs_pid s) then False
      else if rs_processStart s = 0 then bootIDMatches h s
      else let start = processStartToken h (rs_pid s) in
        (start = 0 \<or> start = rs_processStart s) \<and> bootIDMatches h s)"

definition ownsSlot :: "host \<Rightarrow> int \<Rightarrow> readerSlot \<Rightarrow> bool" where
  "ownsSlot h me s =
     (if rs_pid s \<noteq> me then False
      else if rs_processStart s = 0 then bootIDMatches h s
      else let start = processStartToken h (rs_pid s) in
        (start = 0 \<or> start = rs_processStart s) \<and> bootIDMatches h s)"

text \<open>\<open>counter\<close> is the counter after its atomic increment.\<close>

definition nextReaderToken :: "int \<Rightarrow> u64 \<Rightarrow> u64 \<Rightarrow> u64" where
  "nextReaderToken me now counter =
     (let token = push_bit 32 (word_of_int me) XOR now XOR counter in
      if token = 0 then 1 else token)"

section \<open>Opening\<close>

definition initializeFileLocked ::
  "(fileOp \<Rightarrow> bool) \<Rightarrow> readerTable \<Rightarrow> bytes \<Rightarrow> dbError option \<times> readerTable \<times> bytes" where
  "initializeFileLocked io r f =
     (case setFormat r readerTableVersion of
        Inl e \<Rightarrow> (Some e, r, f)
      | Inr r' \<Rightarrow>
          if \<not> io TruncateTable then (Some ErrOther, r', f)
          else
            let f1 = take (rt_tableSize r') f @ replicate (rt_tableSize r' - length f) 0;
                z = splice (replicate (rt_tableSize r') 0) 0 readerTableMagic;
                z = putU64 z 8 readerTableVersion;
                z = putU64 z 16 (of_nat readerTableSlotCount) in
            if \<not> io WriteTable then (Some ErrOther, r', f1) else (None, r', writeAt f1 0 z))"

definition ensureExistingFileLocked ::
  "(fileOp \<Rightarrow> bool) \<Rightarrow> readerTable \<Rightarrow> bytes \<Rightarrow> dbError option \<times> readerTable \<times> bytes" where
  "ensureExistingFileLocked io r f =
     (if \<not> io StatTable then (Some ErrOther, r, f)
      else if length f < readerTableHeaderSize then (Some ErrReaderTable, r, f)
      else if \<not> io ReadHeader then (Some ErrOther, r, f)
      else
        let header = readAt f 0 readerTableHeaderSize in
        if slice header 0 8 \<noteq> readerTableMagic \<or> getU64 header 16 \<noteq> of_nat readerTableSlotCount
        then (Some ErrReaderTable, r, f)
        else case setFormat r (getU64 header 8) of
            Inl e \<Rightarrow> (Some e, r, f)
          | Inr r' \<Rightarrow>
              if length f \<noteq> rt_tableSize r' then (Some ErrReaderTable, r', f) else (None, r', f))"

definition ensureFileLocked ::
  "(fileOp \<Rightarrow> bool) \<Rightarrow> readerTable \<Rightarrow> bytes \<Rightarrow> dbError option \<times> readerTable \<times> bytes" where
  "ensureFileLocked io r f =
     (if \<not> io StatTable then (Some ErrOther, r, f)
      else if length f = 0 then initializeFileLocked io r f
      else ensureExistingFileLocked io r f)"

definition closedHandle :: readerTable where
  "closedHandle = \<lparr>rt_slot = -1, rt_token = 0, rt_revision = 0, rt_version = 0, rt_slotSize = 0, rt_tableSize = 0\<rparr>"

text \<open>The file is empty when \<^verbatim>\<open>O_CREATE\<close> made it.\<close>

definition openReaderTable :: "(fileOp \<Rightarrow> bool) \<Rightarrow> bytes \<Rightarrow> (dbError + readerTable) \<times> bytes" where
  "openReaderTable io f =
     (case withLock io (closedHandle, f) (ensureFileLocked io closedHandle f) of
        (Some e, _, f') \<Rightarrow> (Inl e, f')
      | (None, r, f') \<Rightarrow> (Inr r, f'))"

text \<open>\<open>None\<close> is a file that does not exist.\<close>

definition openExistingReaderTable :: "(fileOp \<Rightarrow> bool) \<Rightarrow> bytes option \<Rightarrow> dbError + readerTable option" where
  "openExistingReaderTable io file =
     (case file of
        None \<Rightarrow> Inr None
      | Some f \<Rightarrow>
          (case withLock io (closedHandle, f) (ensureExistingFileLocked io closedHandle f) of
             (Some e, _) \<Rightarrow> Inl e
           | (None, r, _) \<Rightarrow> Inr (Some r)))"

section \<open>Claiming and releasing\<close>

fun claimLoop ::
  "(fileOp \<Rightarrow> bool) \<Rightarrow> host \<Rightarrow> int \<Rightarrow> u64 \<Rightarrow> u64 \<Rightarrow> nat list \<Rightarrow> readerTable \<Rightarrow> bytes \<Rightarrow>
     dbError option \<times> readerTable \<times> bytes" where
  "claimLoop io h me token want [] r f = (Some ErrActiveReaders, r, f)"
| "claimLoop io h me token want (i # is) r f =
     (case readSlotLocked io r f i of
        Inl e \<Rightarrow> (Some e, r, f)
      | Inr current \<Rightarrow>
          if rs_active current \<and> readerSlotAlive h current then claimLoop io h me token want is r f
          else
            (case (if rs_active current then writeSlotActiveLocked io r f i False else (None, f)) of
               (Some e, f1) \<Rightarrow> (Some e, r, f1)
             | (None, f1) \<Rightarrow>
                 (case writeSlotLocked io r f1 i
                        \<lparr>rs_active = True, rs_pid = me, rs_processStart = processStartToken h me,
                         rs_bootID = bootIDToken h, rs_revision = want, rs_token = token\<rparr> of
                    (Some e, f2) \<Rightarrow> (Some e, r, f2)
                  | (None, f2) \<Rightarrow>
                      (None, r\<lparr>rt_slot := int i, rt_token := token, rt_revision := want\<rparr>, f2))))"

definition claim ::
  "(fileOp \<Rightarrow> bool) \<Rightarrow> host \<Rightarrow> int \<Rightarrow> u64 \<Rightarrow> u64 \<Rightarrow> u64 \<Rightarrow> readerTable \<Rightarrow> bytes \<Rightarrow>
     dbError option \<times> readerTable \<times> bytes" where
  "claim io h me now counter want r f =
     (let token = nextReaderToken me now counter in
      withLock io (r, f) (claimLoop io h me token want [0..<readerTableSlotCount] r f))"

definition release ::
  "(fileOp \<Rightarrow> bool) \<Rightarrow> host \<Rightarrow> int \<Rightarrow> readerTable \<Rightarrow> bytes \<Rightarrow> dbError option \<times> readerTable \<times> bytes" where
  "release io h me r f =
     (if rt_slot r < 0 then (None, r, f)
      else
        let i = nat (rt_slot r);
            r' = r\<lparr>rt_slot := -1\<rparr>;
            (err, f') = withLock io f
              (case readSlotLocked io r f i of
                 Inl e \<Rightarrow> (Some e, f)
               | Inr current \<Rightarrow>
                   if rs_active current \<and> rs_token current = rt_token r \<and> ownsSlot h me current
                   then writeSlotActiveLocked io r f i False else (None, f))
        in (err, r', f'))"

definition updateRevision ::
  "(fileOp \<Rightarrow> bool) \<Rightarrow> host \<Rightarrow> int \<Rightarrow> u64 \<Rightarrow> readerTable \<Rightarrow> bytes \<Rightarrow> dbError option \<times> bytes" where
  "updateRevision io h me want r f =
     (if rt_slot r < 0 then (None, f)
      else
        let i = nat (rt_slot r) in
        withLock io f
          (case readSlotLocked io r f i of
             Inl e \<Rightarrow> (Some e, f)
           | Inr current \<Rightarrow>
               if rs_active current \<and> rs_token current = rt_token r \<and> ownsSlot h me current
               then writeSlotLocked io r f i (current\<lparr>rs_revision := want\<rparr>)
               else (Some ErrActiveReaders, f)))"

text \<open>\<open>closeOk\<close>: the file descriptor could be closed.\<close>

definition readerTableClose ::
  "(fileOp \<Rightarrow> bool) \<Rightarrow> bool \<Rightarrow> host \<Rightarrow> int \<Rightarrow> readerTable \<Rightarrow> bytes \<Rightarrow> dbError option \<times> readerTable \<times> bytes" where
  "readerTableClose io closeOk h me r f =
     (case release io h me r f of (err, r', f') \<Rightarrow>
        (if err \<noteq> None then err else if closeOk then None else Some ErrOther, r', f'))"

section \<open>Scans\<close>

definition validateReaderSlotRevision :: "readerSlot \<Rightarrow> u64 \<Rightarrow> dbError option" where
  "validateReaderSlotRevision current maxRevision =
     (if rs_token current = 0 then Some ErrReaderTable
      else if maxRevision < rs_revision current then Some ErrReaderTable
      else None)"

fun oldestLoop ::
  "(fileOp \<Rightarrow> bool) \<Rightarrow> host \<Rightarrow> u64 \<Rightarrow> readerTable \<Rightarrow> nat list \<Rightarrow> u64 \<times> bool \<times> bytes \<Rightarrow>
     dbError option \<times> u64 \<times> bool \<times> bytes" where
  "oldestLoop io h maxRevision r [] s = (None, s)"
| "oldestLoop io h maxRevision r (i # is) (least, found, f) =
     (case readSlotLocked io r f i of
        Inl e \<Rightarrow> (Some e, least, found, f)
      | Inr current \<Rightarrow>
          if \<not> rs_active current then oldestLoop io h maxRevision r is (least, found, f)
          else if \<not> readerSlotAlive h current then
            (case writeSlotActiveLocked io r f i False of
               (Some e, f1) \<Rightarrow> (Some e, least, found, f1)
             | (None, f1) \<Rightarrow> oldestLoop io h maxRevision r is (least, found, f1))
          else if validateReaderSlotRevision current maxRevision \<noteq> None then
            (validateReaderSlotRevision current maxRevision, least, found, f)
          else if \<not> found \<or> rs_revision current < least then
            oldestLoop io h maxRevision r is (rs_revision current, True, f)
          else oldestLoop io h maxRevision r is (least, found, f))"

definition oldestReader ::
  "(fileOp \<Rightarrow> bool) \<Rightarrow> host \<Rightarrow> u64 \<Rightarrow> readerTable \<Rightarrow> bytes \<Rightarrow> dbError option \<times> u64 \<times> bool \<times> bytes" where
  "oldestReader io h maxRevision r f =
     withLock io (0, False, f)
       (oldestLoop io h maxRevision r [0..<readerTableSlotCount] (0, False, f))"

record MmapReaderStats =
  ms_FormatVersion :: u64
  ms_ProcessStartTokenSupported :: bool
  ms_BootIDTokenSupported :: bool
  ms_Slots :: nat
  ms_ActiveSlots :: nat
  ms_StaleSlots :: nat
  ms_ProcessStartSlots :: nat
  ms_BootIDSlots :: nat
  ms_OldestRevision :: u64
  ms_HasOldestRevision :: bool

definition zeroReaderStats :: MmapReaderStats where
  "zeroReaderStats = \<lparr>ms_FormatVersion = 0, ms_ProcessStartTokenSupported = False,
     ms_BootIDTokenSupported = False, ms_Slots = 0, ms_ActiveSlots = 0, ms_StaleSlots = 0,
     ms_ProcessStartSlots = 0, ms_BootIDSlots = 0, ms_OldestRevision = 0, ms_HasOldestRevision = False\<rparr>"

text \<open>The counts every active slot adds to, before it is known to be alive.\<close>

definition countTags :: "readerSlot \<Rightarrow> MmapReaderStats \<Rightarrow> MmapReaderStats" where
  "countTags current s = s
     \<lparr>ms_ProcessStartSlots := ms_ProcessStartSlots s + (if rs_processStart current \<noteq> 0 then 1 else 0),
      ms_BootIDSlots := ms_BootIDSlots s + (if rs_bootID current \<noteq> 0 then 1 else 0)\<rparr>"

fun scanLoop ::
  "(fileOp \<Rightarrow> bool) \<Rightarrow> host \<Rightarrow> u64 \<Rightarrow> bool \<Rightarrow> readerTable \<Rightarrow> nat list \<Rightarrow>
     MmapReaderStats \<times> nat \<times> bytes \<Rightarrow> dbError option \<times> MmapReaderStats \<times> nat \<times> bytes" where
  "scanLoop io h maxRevision clean r [] s = (None, s)"
| "scanLoop io h maxRevision clean r (i # is) (s, cleared, f) =
     (case readSlotLocked io r f i of
        Inl e \<Rightarrow> (Some e, s, cleared, f)
      | Inr current \<Rightarrow>
          if \<not> rs_active current then scanLoop io h maxRevision clean r is (s, cleared, f)
          else
            let s1 = countTags current s in
            if \<not> readerSlotAlive h current then
              let s2 = s1\<lparr>ms_StaleSlots := ms_StaleSlots s1 + 1\<rparr> in
              if clean then
                (case writeSlotActiveLocked io r f i False of
                   (Some e, f1) \<Rightarrow> (Some e, s2, cleared, f1)
                 | (None, f1) \<Rightarrow> scanLoop io h maxRevision clean r is (s2, cleared + 1, f1))
              else scanLoop io h maxRevision clean r is (s2, cleared, f)
            else
              let s2 = s1\<lparr>ms_ActiveSlots := ms_ActiveSlots s1 + 1\<rparr> in
              if validateReaderSlotRevision current maxRevision \<noteq> None then
                (validateReaderSlotRevision current maxRevision, s2, cleared, f)
              else if \<not> ms_HasOldestRevision s2 \<or> rs_revision current < ms_OldestRevision s2 then
                scanLoop io h maxRevision clean r is
                  (s2\<lparr>ms_OldestRevision := rs_revision current, ms_HasOldestRevision := True\<rparr>, cleared, f)
              else scanLoop io h maxRevision clean r is (s2, cleared, f))"

definition scanReaders ::
  "(fileOp \<Rightarrow> bool) \<Rightarrow> host \<Rightarrow> int \<Rightarrow> u64 \<Rightarrow> bool \<Rightarrow> readerTable \<Rightarrow> bytes \<Rightarrow>
     dbError option \<times> MmapReaderStats \<times> nat \<times> bytes" where
  "scanReaders io h me maxRevision clean r f =
     (let s0 = zeroReaderStats\<lparr>ms_FormatVersion := rt_version r,
            ms_ProcessStartTokenSupported := (processStartToken h me \<noteq> 0),
            ms_BootIDTokenSupported := (bootIDToken h \<noteq> 0), ms_Slots := readerTableSlotCount\<rparr> in
      withLock io (s0, 0, f)
        (scanLoop io h maxRevision clean r [0..<readerTableSlotCount] (s0, 0, f)))"

definition readerStats ::
  "(fileOp \<Rightarrow> bool) \<Rightarrow> host \<Rightarrow> int \<Rightarrow> u64 \<Rightarrow> readerTable \<Rightarrow> bytes \<Rightarrow> dbError option \<times> MmapReaderStats" where
  "readerStats io h me maxRevision r f =
     (case scanReaders io h me maxRevision False r f of (err, s, _, _) \<Rightarrow> (err, s))"

definition cleanStale ::
  "(fileOp \<Rightarrow> bool) \<Rightarrow> host \<Rightarrow> int \<Rightarrow> u64 \<Rightarrow> readerTable \<Rightarrow> bytes \<Rightarrow> dbError option \<times> nat \<times> bytes" where
  "cleanStale io h me maxRevision r f =
     (case scanReaders io h me maxRevision True r f of (err, _, cleared, f') \<Rightarrow> (err, cleared, f'))"

definition validateReaders ::
  "(fileOp \<Rightarrow> bool) \<Rightarrow> host \<Rightarrow> int \<Rightarrow> u64 \<Rightarrow> readerTable \<Rightarrow> bytes \<Rightarrow> dbError option" where
  "validateReaders io h me maxRevision r f = fst (scanReaders io h me maxRevision False r f)"

text \<open>\<open>handle\<close> is the reader table of the tree's arena.\<close>

definition treeMmapReaderStats ::
  "(fileOp \<Rightarrow> bool) \<Rightarrow> host \<Rightarrow> int \<Rightarrow> Tree \<Rightarrow> readerTable option \<Rightarrow> bytes \<Rightarrow> dbError option \<times> MmapReaderStats" where
  "treeMmapReaderStats io h me t handle f =
     (case handle of
        Some r \<Rightarrow> if closed t \<or> arena t = None then (None, zeroReaderStats)
                  else readerStats io h me (revision t) r f
      | None \<Rightarrow> (None, zeroReaderStats))"

definition CleanStaleMmapReaders ::
  "(fileOp \<Rightarrow> bool) \<Rightarrow> host \<Rightarrow> int \<Rightarrow> Tree \<Rightarrow> readerTable option \<Rightarrow> bytes \<Rightarrow> dbError option \<times> nat \<times> bytes" where
  "CleanStaleMmapReaders io h me t handle f =
     (case handle of
        Some r \<Rightarrow> if closed t \<or> arena t = None then (None, 0, f)
                  else cleanStale io h me (revision t) r f
      | None \<Rightarrow> (None, 0, f))"

text \<open>What a scan answers to \<^verbatim>\<open>oldestReaderRevisionDetailed\<close>: the parameter \<open>readerTable\<close> of an arena.\<close>

definition readerScan :: "(fileOp \<Rightarrow> bool) \<Rightarrow> host \<Rightarrow> readerTable \<Rightarrow> bytes \<Rightarrow> u64 \<Rightarrow> (u64 \<times> bool) option" where
  "readerScan io h r f maxRevision =
     (case oldestReader io h maxRevision r f of
        (None, least, found, _) \<Rightarrow> Some (least, found)
      | (Some e, _) \<Rightarrow> None)"

end
