(* ===== verification/ReaderTableCorrect.thy ===== *)
theory ReaderTableCorrect
  imports ReaderTable
begin

text \<open>
  The reader table refines a list of 64 slots: \<open>slotsOf f\<close> reads the file, and each operation is
  an update of that list (\<open>slots_writeSlot\<close>, \<open>slots_writeActive\<close>, \<open>claimLoop_ok\<close>, \<open>oldestLoop_ok\<close>).
  The second half is the protocol: processes start, claim, move, release and die in any order,
  and a live reader's slot keeps standing for the revision it reads.
\<close>

section \<open>The slots of a file\<close>

definition widthOf :: "bytes \<Rightarrow> nat" where
  "widthOf f = (length f - readerTableHeaderSize) div readerTableSlotCount"

definition slotAt :: "bytes \<Rightarrow> nat \<Rightarrow> readerSlot" where
  "slotAt f i = decodeSlot (widthOf f) (slice f (readerTableHeaderSize + i * widthOf f) (widthOf f))"

definition slotsOf :: "bytes \<Rightarrow> readerSlot list" where
  "slotsOf f = map (slotAt f) [0..<readerTableSlotCount]"

definition formatted :: "readerTable \<Rightarrow> bytes \<Rightarrow> bool" where
  "formatted r f \<longleftrightarrow> rt_slotSize r \<in> {readerSlotV1Size, readerSlotV2Size, readerSlotSize} \<and>
     length f = rt_tableSize r \<and> rt_tableSize r = readerTableHeaderSize + readerTableSlotCount * rt_slotSize r"

text \<open>What a slot of the given width keeps of a record.\<close>

definition stored :: "nat \<Rightarrow> readerSlot \<Rightarrow> readerSlot" where
  "stored w v = v\<lparr>rs_pid := sint (word_of_int (rs_pid v) :: u64),
     rs_processStart := (if readerSlotV2Size \<le> w then rs_processStart v else 0),
     rs_bootID := (if readerSlotSize \<le> w then rs_bootID v else 0)\<rparr>"

lemma formattedD:
  assumes "formatted r f"
  shows "widthOf f = rt_slotSize r" "rt_slotSize r = 32 \<or> rt_slotSize r = 40 \<or> rt_slotSize r = 48"
    "length f = 32 + 64 * rt_slotSize r"
  using assms by (auto simp: formatted_def widthOf_def page_consts)

lemma formatted_length: "formatted r f \<Longrightarrow> length f' = length f \<Longrightarrow> formatted r f'"
  by (simp add: formatted_def)

lemma length_slotsOf [simp]: "length (slotsOf f) = 64"
  by (simp add: slotsOf_def page_consts)

lemma slotsOf_nth: "i < 64 \<Longrightarrow> slotsOf f ! i = slotAt f i"
  by (simp add: slotsOf_def page_consts)

lemma length_encodeSlot [simp]:
  "w = 32 \<or> w = 40 \<or> w = 48 \<Longrightarrow> length (encodeSlot w v) = w"
  by (auto simp: encodeSlot_def Let_def putU64_def page_consts)

lemma decode_encode:
  assumes "w = 32 \<or> w = 40 \<or> w = 48"
  shows "decodeSlot w (encodeSlot w v) = stored w v"
proof -
  have z: "slice (replicate n 0) 0 8 = word_to_le 8 (0 :: u64)" if "8 \<le> n" for n
    using that by (auto simp: slice_def word_to_le_def take_replicate intro!: nth_equalityI)
  show ?thesis
    using assms z [of 32] z [of 40] z [of 48]
    by (elim disjE)
      (simp_all add: decodeSlot_def encodeSlot_def stored_def Let_def putU64_def getU64_def page_consts
        slice_splice_same slice_splice_disjoint)
qed

lemma slot_room: "i < 64 \<Longrightarrow> 32 + i * w + w \<le> 32 + 64 * (w :: nat)"
proof -
  assume "i < 64"
  then have "Suc i * w \<le> 64 * w" by (intro mult_le_mono1) simp
  then show ?thesis by simp
qed

lemma slot_apart: "i \<noteq> j \<Longrightarrow> 32 + i * w + w \<le> 32 + j * w \<or> 32 + j * w + w \<le> 32 + i * (w :: nat)"
proof -
  assume "i \<noteq> j"
  then consider "Suc i \<le> j" | "Suc j \<le> i" by linarith
  then show ?thesis
  proof cases
    case 1
    then have "Suc i * w \<le> j * w" by (rule mult_le_mono1)
    then show ?thesis by simp
  next
    case 2
    then have "Suc j * w \<le> i * w" by (rule mult_le_mono1)
    then show ?thesis by simp
  qed
qed

lemma writeAt_within: "off + length bs \<le> length f \<Longrightarrow> writeAt f off bs = splice f off bs"
  by (simp add: writeAt_def)

lemma readAt_within: "off + n \<le> length f \<Longrightarrow> readAt f off n = slice f off n"
  by (simp add: readAt_def length_slice)

lemma slice_splice_inside:
  assumes "length bs \<le> n" "off + n \<le> length d"
  shows "slice (splice d off bs) off n = splice (slice d off n) 0 bs"
proof -
  have "length (take off d) = off" using assms by simp
  then have "drop off (splice d off bs) = bs @ drop (off + length bs) d" by (simp add: splice_def)
  then show ?thesis
    using assms(1) by (simp add: slice_def splice_def drop_take add.commute)
qed

text \<open>A write inside slot \<open>i\<close> changes that slot only.\<close>

lemma slots_splice:
  assumes f: "formatted r f" and i: "i < 64" and bs: "length bs \<le> rt_slotSize r"
  shows "formatted r (writeAt f (slotOffset r i) bs)"
    "slotsOf (writeAt f (slotOffset r i) bs) = (slotsOf f)
       [i := decodeSlot (rt_slotSize r) (splice (slice f (slotOffset r i) (rt_slotSize r)) 0 bs)]"
proof -
  let ?w = "rt_slotSize r" and ?off = "slotOffset r i"
  note F = formattedD [OF f]
  have off: "?off = 32 + i * ?w" by (simp add: slotOffset_def page_consts)
  have room: "?off + ?w \<le> length f" using slot_room [OF i, of ?w] F(3) off by simp
  then have w: "writeAt f ?off bs = splice f ?off bs" using bs by (simp add: writeAt_within)
  have len: "length (splice f ?off bs) = length f" using room bs by simp
  show "formatted r (writeAt f ?off bs)" unfolding w using formatted_length [OF f len] .
  have wid: "widthOf (splice f ?off bs) = ?w" using F(1) by (simp add: widthOf_def len)
  have same: "slice (splice f ?off bs) ?off ?w = splice (slice f ?off ?w) 0 bs"
    using room bs by (intro slice_splice_inside) simp_all
  have other: "slice (splice f ?off bs) (32 + j * ?w) ?w = slice f (32 + j * ?w) ?w" if "j \<noteq> i" for j
    using slot_apart [OF that, of ?w] room bs off
    by (intro slice_splice_disjoint) auto
  show "slotsOf (writeAt f ?off bs) = (slotsOf f)[i := decodeSlot ?w (splice (slice f ?off ?w) 0 bs)]"
    unfolding w
  proof (rule nth_equalityI)
    fix j
    assume "j < length (slotsOf (splice f ?off bs))"
    then have j: "j < 64" by simp
    show "slotsOf (splice f ?off bs) ! j = (slotsOf f)[i := decodeSlot ?w (splice (slice f ?off ?w) 0 bs)] ! j"
    proof (cases "j = i")
      case True
      then show ?thesis using j same by (simp add: slotsOf_nth slotAt_def wid [unfolded off] page_consts off)
    next
      case False
      then show ?thesis using j other [OF False] F(1) by (simp add: slotsOf_nth slotAt_def wid page_consts)
    qed
  qed simp
qed

lemma readSlot_ok:
  assumes "formatted r f" "i < 64"
  shows "readSlotLocked io r f i = (if io (ReadSlot i) then Inr (slotsOf f ! i) else Inl ErrOther)"
proof -
  note F = formattedD [OF assms(1)]
  have "slotOffset r i + rt_slotSize r \<le> length f"
    using slot_room [OF assms(2), of "rt_slotSize r"] F(3) by (simp add: slotOffset_def page_consts)
  then show ?thesis using assms(2) F(1)
    by (simp add: readSlotLocked_def readAt_within slotsOf_nth slotAt_def slotOffset_def page_consts)
qed

lemma slots_writeSlot:
  assumes "formatted r f" "i < 64"
  obtains "writeSlotLocked io r f i v = (Some ErrOther, f)"
  | f' where "writeSlotLocked io r f i v = (None, f')" "formatted r f'"
      "slotsOf f' = (slotsOf f)[i := stored (rt_slotSize r) v]"
proof (cases "io (WriteSlot i)")
  case True
  note F = formattedD [OF assms(1)]
  have len: "length (encodeSlot (rt_slotSize r) v) = rt_slotSize r" using F(2) by simp
  have "slotOffset r i + rt_slotSize r \<le> length f"
    using slot_room [OF assms(2), of "rt_slotSize r"] F(3) by (simp add: slotOffset_def page_consts)
  then have "splice (slice f (slotOffset r i) (rt_slotSize r)) 0 (encodeSlot (rt_slotSize r) v) =
      encodeSlot (rt_slotSize r) v"
    using len by (simp add: splice_def length_slice)
  then show ?thesis
    using that(2) True slots_splice [OF assms, of "encodeSlot (rt_slotSize r) v"] len decode_encode [OF F(2)]
    by (simp add: writeSlotLocked_def)
qed (use that(1) in \<open>simp add: writeSlotLocked_def\<close>)

lemma slots_writeActive:
  assumes "formatted r f" "i < 64"
  obtains "writeSlotActiveLocked io r f i False = (Some ErrOther, f)"
  | f' where "writeSlotActiveLocked io r f i False = (None, f')" "formatted r f'"
      "slotsOf f' = (slotsOf f)[i := (slotsOf f ! i)\<lparr>rs_active := False\<rparr>]"
proof (cases "io (WriteActive i)")
  case True
  note F = formattedD [OF assms(1)]
  let ?s = "slice f (slotOffset r i) (rt_slotSize r)" and ?z = "word_to_le 8 (0 :: u64)"
  have "slotOffset r i + rt_slotSize r \<le> length f"
    using slot_room [OF assms(2), of "rt_slotSize r"] F(3) by (simp add: slotOffset_def page_consts)
  then have len: "length ?s = rt_slotSize r" by (simp add: length_slice)
  have "decodeSlot (rt_slotSize r) (splice ?s 0 ?z) = (decodeSlot (rt_slotSize r) ?s)\<lparr>rs_active := False\<rparr>"
    using F(2) len
    by (elim disjE) (simp_all add: decodeSlot_def getU64_def page_consts slice_splice_same slice_splice_disjoint)
  moreover have "decodeSlot (rt_slotSize r) ?s = slotsOf f ! i"
    using assms(2) F(1) by (simp add: slotsOf_nth slotAt_def slotOffset_def page_consts)
  ultimately show ?thesis
    using that(2) True slots_splice [OF assms, of ?z] F(2)
    by (auto simp: writeSlotActiveLocked_def)
qed (use that(1) in \<open>simp add: writeSlotActiveLocked_def\<close>)

section \<open>The operations on the list of slots\<close>

definition live :: "host \<Rightarrow> readerSlot \<Rightarrow> bool" where
  "live h s \<longleftrightarrow> rs_active s \<and> readerSlotAlive h s"

definition clean :: "host \<Rightarrow> readerSlot \<Rightarrow> readerSlot" where
  "clean h s = (if readerSlotAlive h s then s else s\<lparr>rs_active := False\<rparr>)"

text \<open>What every operation, failed or not, does to the slots it does not own.\<close>

definition kept :: "host \<Rightarrow> readerSlot list \<Rightarrow> readerSlot list \<Rightarrow> bool" where
  "kept h ss ss' \<longleftrightarrow> length ss' = length ss \<and> (\<forall>i<length ss. live h (ss ! i) \<longrightarrow> ss' ! i = ss ! i)"

lemma kept_refl [simp, intro]: "kept h ss ss"
  by (simp add: kept_def)

lemma kept_trans: "kept h a b \<Longrightarrow> kept h b c \<Longrightarrow> kept h a c"
  by (auto simp: kept_def)

lemma kept_update: "\<not> live h (ss ! i) \<Longrightarrow> kept h ss (ss[i := x])"
  unfolding kept_def by (metis length_list_update nth_list_update_neq)

lemma keptD: "kept h ss ss' \<Longrightarrow> i < length ss \<Longrightarrow> live h (ss ! i) \<Longrightarrow> ss' ! i = ss ! i"
  by (simp add: kept_def)

definition claimed :: "host \<Rightarrow> int \<Rightarrow> u64 \<Rightarrow> u64 \<Rightarrow> readerSlot" where
  "claimed h me token want =
     \<lparr>rs_active = True, rs_pid = me, rs_processStart = processStartToken h me,
      rs_bootID = bootIDToken h, rs_revision = want, rs_token = token\<rparr>"

lemma clear_slot:
  assumes "formatted r f" "i < 64"
    "(if rs_active (slotsOf f ! i) then writeSlotActiveLocked io r f i False else (None, f)) = (e, f1)"
  shows "formatted r f1" "\<exists>x. slotsOf f1 = (slotsOf f)[i := x]"
proof -
  have "formatted r f1 \<and> (\<exists>x. slotsOf f1 = (slotsOf f)[i := x])"
  proof (cases "rs_active (slotsOf f ! i)")
    case True
    then have w: "writeSlotActiveLocked io r f i False = (e, f1)" using assms(3) by simp
    have id: "slotsOf f = (slotsOf f)[i := slotsOf f ! i]" by simp
    from slots_writeActive [OF assms(1,2), of io] show ?thesis
    proof cases
      case 1
      then show ?thesis using w assms(1) id by (metis Pair_inject)
    next
      case (2 f')
      then show ?thesis using w by auto
    qed
  next
    case False
    then show ?thesis using assms(1,3) list_update_id [of "slotsOf f" i] by (metis Pair_inject)
  qed
  then show "formatted r f1" "\<exists>x. slotsOf f1 = (slotsOf f)[i := x]" by blast+
qed

lemma claimLoop_ok:
  assumes "formatted r f" "set is \<subseteq> {..<64}" "claimLoop io h me token want is r f = (err, r', f')"
  shows "formatted r f' \<and>
    (r' = r \<and> err \<noteq> None \<and> kept h (slotsOf f) (slotsOf f') \<or>
     (\<exists>i\<in>set is. \<not> live h (slotsOf f ! i) \<and> err = None \<and>
        r' = r\<lparr>rt_slot := int i, rt_token := token, rt_revision := want\<rparr> \<and>
        slotsOf f' = (slotsOf f)[i := stored (rt_slotSize r) (claimed h me token want)]))"
  using assms(2,3)
proof (induction "is")
  case Nil
  then show ?case using assms(1) by auto
next
  case (Cons i "is")
  have i: "i < 64" using Cons.prems(1) by simp
  note rd = readSlot_ok [OF assms(1) i, of io]
  consider "\<not> io (ReadSlot i)" | "io (ReadSlot i)" "live h (slotsOf f ! i)" | "io (ReadSlot i)" "\<not> live h (slotsOf f ! i)" by blast
  then show ?case
  proof cases
    case 1
    then show ?thesis using Cons.prems(2) rd assms(1) by auto
  next
    case 2
    then have "claimLoop io h me token want is r f = (err, r', f')"
      using Cons.prems(2) rd by (simp add: live_def)
    then show ?thesis using Cons.IH Cons.prems(1) by auto
  next
    case 3
    obtain e1 f1 where w1: "(if rs_active (slotsOf f ! i) then writeSlotActiveLocked io r f i False else (None, f)) = (e1, f1)"
      by (cases "if rs_active (slotsOf f ! i) then writeSlotActiveLocked io r f i False else (None, f)")
    note f1 = clear_slot [OF assms(1) i w1]
    have k: "kept h (slotsOf f) (slotsOf f1)" using f1(2) kept_update [OF 3(2)] by auto
    show ?thesis
    proof (cases e1)
      case (Some e)
      then show ?thesis using Cons.prems(2) rd 3 w1 f1(1) k by (auto simp: live_def)
    next
      case None
      then have eq: "(case writeSlotLocked io r f1 i (claimed h me token want) of
            (Some e, f2) \<Rightarrow> (Some e, r, f2)
          | (None, f2) \<Rightarrow> (None, r\<lparr>rt_slot := int i, rt_token := token, rt_revision := want\<rparr>, f2)) = (err, r', f')"
        using Cons.prems(2) rd 3 w1 by (cases "rs_active (slotsOf f ! i)") (auto simp: live_def claimed_def)
      obtain x where x: "slotsOf f1 = (slotsOf f)[i := x]" using f1(2) by blast
      from slots_writeSlot [OF f1(1) i, of io "claimed h me token want"] show ?thesis
      proof cases
        case 1
        then show ?thesis using eq f1(1) k by auto
      next
        case (2 f2)
        then show ?thesis using eq 3(2) x by (intro conjI disjI2 bexI [of _ i]) auto
      qed
    qed
  qed
qed

lemma claimLoop_free:
  assumes "formatted r f" "set is \<subseteq> {..<64}" "\<exists>i\<in>set is. \<not> live h (slotsOf f ! i)"
  shows "fst (claimLoop (\<lambda>_. True) h me token want is r f) = None"
  using assms(2,3)
proof (induction "is")
  case (Cons i "is")
  then have i: "i < 64" by simp
  show ?case
    using Cons readSlot_ok [OF assms(1) i, of "\<lambda>_. True"]
    by (auto simp: live_def writeSlotActiveLocked_def writeSlotLocked_def)
qed simp

lemma claimLoop_full:
  assumes "formatted r f" "set is \<subseteq> {..<64}" "\<forall>i\<in>set is. live h (slotsOf f ! i)"
  shows "claimLoop (\<lambda>_. True) h me token want is r f = (Some ErrActiveReaders, r, f)"
  using assms(2,3)
proof (induction "is")
  case (Cons i "is")
  then have i: "i < 64" by simp
  show ?case
    using Cons readSlot_ok [OF assms(1) i, of "\<lambda>_. True"] by (simp add: live_def)
qed simp

lemma oldestLoop_ok:
  assumes "formatted r f" "set is \<subseteq> {..<64}"
    "oldestLoop io h maxRevision r is (least, found, f) = (err, least', found', f')"
  shows "formatted r f' \<and> kept h (slotsOf f) (slotsOf f') \<and>
    (err = None \<longrightarrow> (found \<longrightarrow> found' \<and> least' \<le> least) \<and>
      (\<forall>i\<in>set is. live h (slotsOf f ! i) \<longrightarrow> found' \<and> least' \<le> rs_revision (slotsOf f ! i)))"
  using assms
proof (induction "is" arbitrary: least found f)
  case Nil
  then show ?case by auto
next
  case (Cons i "is")
  have i: "i < 64" and ins: "set is \<subseteq> {..<64}" using Cons.prems(2) by simp_all
  note rd = readSlot_ok [OF Cons.prems(1) i, of io]
  let ?s = "slotsOf f ! i"
  show ?case
  proof (cases "io (ReadSlot i)")
    case False
    then show ?thesis using Cons.prems rd by auto
  next
    case True
    note rd = rd [simplified True if_True]
    consider "\<not> rs_active ?s" | "rs_active ?s" "\<not> readerSlotAlive h ?s" | "live h ?s" by (auto simp: live_def)
    then show ?thesis
    proof cases
      case 1
      then have "oldestLoop io h maxRevision r is (least, found, f) = (err, least', found', f')"
        using Cons.prems(3) rd by simp
      from Cons.IH [OF Cons.prems(1) ins this] 1 show ?thesis by (auto simp: live_def)
    next
      case 2
      then have nl: "\<not> live h ?s" by (simp add: live_def)
      from slots_writeActive [OF Cons.prems(1) i, of io] show ?thesis
      proof cases
        case w: 1
        then show ?thesis using Cons.prems rd 2 by auto
      next
        case (2 f1)
        then have "oldestLoop io h maxRevision r is (least, found, f1) = (err, least', found', f')"
          using Cons.prems(3) rd \<open>rs_active ?s\<close> \<open>\<not> readerSlotAlive h ?s\<close> by simp
        note IH = Cons.IH [OF 2(2) ins this]
        have k: "kept h (slotsOf f) (slotsOf f1)" unfolding 2(3) using nl by (rule kept_update)
        have "slotsOf f1 ! j = slotsOf f ! j" if "j \<in> set is" "live h (slotsOf f ! j)" for j
          using keptD [OF k, of j] that ins by auto
        then show ?thesis using IH kept_trans [OF k] nl by auto
      qed
    next
      case 3
      show ?thesis
      proof (cases "validateReaderSlotRevision ?s maxRevision = None")
        case False
        then show ?thesis using Cons.prems rd 3 by (auto simp: live_def)
      next
        case True
        let ?upd = "\<not> found \<or> rs_revision ?s < least"
        have "oldestLoop io h maxRevision r is ((if ?upd then rs_revision ?s else least), (?upd \<or> found), f) =
            (err, least', found', f')"
          using Cons.prems(3) rd 3 True by (auto simp: live_def split: if_splits)
        from Cons.IH [OF Cons.prems(1) ins this] show ?thesis by (auto split: if_splits)
      qed
    qed
  qed
qed

lemma oldestLoop_exact:
  assumes "formatted r f" "set is \<subseteq> {..<64}"
    "\<forall>i\<in>set is. live h (slotsOf f ! i) \<longrightarrow> validateReaderSlotRevision (slotsOf f ! i) maxRevision = None"
  shows "\<exists>least' found' f'. oldestLoop (\<lambda>_. True) h maxRevision r is (least, found, f) = (None, least', found', f') \<and>
    (\<forall>j<64. slotsOf f' ! j = (if j \<in> set is then clean h (slotsOf f ! j) else slotsOf f ! j)) \<and>
    (found' \<longrightarrow> found \<and> least' = least \<or> (\<exists>i\<in>set is. live h (slotsOf f ! i) \<and> least' = rs_revision (slotsOf f ! i)))"
  using assms
proof (induction "is" arbitrary: least found f)
  case Nil
  then show ?case by auto
next
  case (Cons i "is")
  have i: "i < 64" and ins: "set is \<subseteq> {..<64}" using Cons.prems(2) by simp_all
  note rd = readSlot_ok [OF Cons.prems(1) i, of "\<lambda>_. True", simplified if_True]
  let ?s = "slotsOf f ! i"
  consider "\<not> rs_active ?s" | "rs_active ?s" "\<not> readerSlotAlive h ?s" | "live h ?s" by (auto simp: live_def)
  then show ?case
  proof cases
    case 1
    have c: "clean h ?s = ?s" using 1 by (simp add: clean_def)
    obtain least' found' f' where L: "oldestLoop (\<lambda>_. True) h maxRevision r is (least, found, f) = (None, least', found', f')"
      "\<forall>j<64. slotsOf f' ! j = (if j \<in> set is then clean h (slotsOf f ! j) else slotsOf f ! j)"
      "found' \<longrightarrow> found \<and> least' = least \<or> (\<exists>i\<in>set is. live h (slotsOf f ! i) \<and> least' = rs_revision (slotsOf f ! i))"
      using Cons.IH [OF Cons.prems(1) ins, of least found] Cons.prems(3) by auto
    have "oldestLoop (\<lambda>_. True) h maxRevision r (i # is) (least, found, f) = (None, least', found', f')"
      using L(1) rd 1 by simp
    moreover have "\<forall>j<64. slotsOf f' ! j = (if j \<in> set (i # is) then clean h (slotsOf f ! j) else slotsOf f ! j)"
      using L(2) c by auto
    ultimately show ?thesis using L(3) by (intro exI conjI) auto
  next
    case 2
    from slots_writeActive [OF Cons.prems(1) i, of "\<lambda>_. True"] show ?thesis
    proof cases
      case 1
      then show ?thesis by (simp add: writeSlotActiveLocked_def)
    next
      case w: (2 f1)
      have s1: "slotsOf f1 ! j = (if j = i then clean h ?s else slotsOf f ! j)" if "j < 64" for j
        using that 2 unfolding w(3) by (simp add: clean_def nth_list_update)
      have nl: "\<not> live h (clean h ?s)" using 2 by (simp add: clean_def live_def)
      have cc: "clean h (clean h ?s) = clean h ?s" using 2 by (simp add: clean_def)
      have v: "\<forall>j\<in>set is. live h (slotsOf f1 ! j) \<longrightarrow> validateReaderSlotRevision (slotsOf f1 ! j) maxRevision = None"
      proof (intro ballI impI)
        fix j assume j: "j \<in> set is" "live h (slotsOf f1 ! j)"
        then have "j < 64" using ins by auto
        then show "validateReaderSlotRevision (slotsOf f1 ! j) maxRevision = None"
          using s1 [of j] j nl Cons.prems(3) by (auto split: if_splits)
      qed
      obtain least' found' f' where L: "oldestLoop (\<lambda>_. True) h maxRevision r is (least, found, f1) = (None, least', found', f')"
        "\<forall>j<64. slotsOf f' ! j = (if j \<in> set is then clean h (slotsOf f1 ! j) else slotsOf f1 ! j)"
        "found' \<longrightarrow> found \<and> least' = least \<or> (\<exists>i\<in>set is. live h (slotsOf f1 ! i) \<and> least' = rs_revision (slotsOf f1 ! i))"
        using Cons.IH [OF w(2) ins v, of least found] by blast
      have "oldestLoop (\<lambda>_. True) h maxRevision r (i # is) (least, found, f) = (None, least', found', f')"
        using L(1) rd w(1) 2 by simp
      moreover have "\<forall>j<64. slotsOf f' ! j = (if j \<in> set (i # is) then clean h (slotsOf f ! j) else slotsOf f ! j)"
        using L(2) s1 cc by auto
      moreover have "found' \<longrightarrow> found \<and> least' = least \<or>
          (\<exists>i\<in>set (i # is). live h (slotsOf f ! i) \<and> least' = rs_revision (slotsOf f ! i))"
      proof
        assume found'
        with L(3) consider "found \<and> least' = least"
          | j where "j \<in> set is" "live h (slotsOf f1 ! j)" "least' = rs_revision (slotsOf f1 ! j)" by blast
        then show "found \<and> least' = least \<or> (\<exists>i\<in>set (i # is). live h (slotsOf f ! i) \<and> least' = rs_revision (slotsOf f ! i))"
        proof cases
          case (2 j)
          then have "j < 64" using ins by auto
          then show ?thesis using s1 [of j] 2 nl by (auto split: if_splits)
        qed simp
      qed
      ultimately show ?thesis by blast
    qed
  next
    case 3
    have v: "validateReaderSlotRevision ?s maxRevision = None" using Cons.prems(3) 3 by simp
    have c: "clean h ?s = ?s" using 3 by (simp add: clean_def live_def)
    let ?upd = "\<not> found \<or> rs_revision ?s < least"
    obtain least' found' f' where L: "oldestLoop (\<lambda>_. True) h maxRevision r is
          ((if ?upd then rs_revision ?s else least), (?upd \<or> found), f) = (None, least', found', f')"
      "\<forall>j<64. slotsOf f' ! j = (if j \<in> set is then clean h (slotsOf f ! j) else slotsOf f ! j)"
      "found' \<longrightarrow> (?upd \<or> found) \<and> least' = (if ?upd then rs_revision ?s else least) \<or>
        (\<exists>i\<in>set is. live h (slotsOf f ! i) \<and> least' = rs_revision (slotsOf f ! i))"
      using Cons.IH [OF Cons.prems(1) ins, of "if ?upd then rs_revision ?s else least" "?upd \<or> found"] Cons.prems(3) by auto
    have "oldestLoop (\<lambda>_. True) h maxRevision r (i # is) (least, found, f) = (None, least', found', f')"
      using L(1) rd 3 v by (auto simp: live_def split: if_splits)
    moreover have "\<forall>j<64. slotsOf f' ! j = (if j \<in> set (i # is) then clean h (slotsOf f ! j) else slotsOf f ! j)"
      using L(2) c by auto
    moreover have "found' \<longrightarrow> found \<and> least' = least \<or>
        (\<exists>i\<in>set (i # is). live h (slotsOf f ! i) \<and> least' = rs_revision (slotsOf f ! i))"
      using L(3) 3 by (auto split: if_splits)
    ultimately show ?thesis by blast
  qed
qed

end
