(* ===== verification/ReaderProtocol.thy ===== *)
theory ReaderProtocol
  imports ReaderTableCorrect
begin

text \<open>
  The protocol of the reader table: processes start and die, open the table, claim a slot, move it
  to another revision, release it and scan, in any order and with any failing system calls.
  \<open>readerStep\<close> is one such event, \<open>tableInv\<close> the invariant (\<open>readerStep_inv\<close>), and
  \<open>live_reader_bounds_scan\<close> what a writer learns from a scan.
\<close>

section \<open>The calls as updates of the slots\<close>

lemma nextReaderToken_nonzero: "nextReaderToken me now counter \<noteq> 0"
  by (simp add: nextReaderToken_def Let_def)

lemma formatted_slot [simp]:
  "formatted (r\<lparr>rt_slot := i\<rparr>) f = formatted r f"
  "formatted (r\<lparr>rt_slot := i, rt_token := k, rt_revision := v\<rparr>) f = formatted r f"
  by (simp_all add: formatted_def)

lemma withLock_cases:
  assumes "withLock io s0 (e, s1) = (err, s)"
  obtains "err \<noteq> None" "s = s0" | "s = s1" "err = (if e \<noteq> None then e else if io UnlockTable then None else Some ErrOther)"
proof (cases "io LockTable")
  case True
  then have "s = s1 \<and> err = (if e \<noteq> None then e else if io UnlockTable then None else Some ErrOther)"
    using assms unfolding withLock_def by (simp only: not_True_eq_False if_False prod.case prod.inject)
  then show ?thesis using that(2) by blast
next
  case False
  then have "s = s0 \<and> err = Some ErrOther" using assms unfolding withLock_def by simp
  then show ?thesis using that(1) by blast
qed

lemma all_slots: "set [0..<readerTableSlotCount] \<subseteq> {..<64}"
  by (auto simp: page_consts)

lemma claim_ok:
  assumes "formatted r f" "claim io h me now counter want r f = (err, r', f')"
  obtains (refused) "r' = r" "err \<noteq> None" "formatted r f'" "kept h (slotsOf f) (slotsOf f')"
  | (slot) i where "i < 64" "\<not> live h (slotsOf f ! i)" "formatted r f'"
      "r' = r\<lparr>rt_slot := int i, rt_token := nextReaderToken me now counter, rt_revision := want\<rparr>"
      "slotsOf f' = (slotsOf f)[i := stored (rt_slotSize r) (claimed h me (nextReaderToken me now counter) want)]"
proof -
  obtain e r1 f1 where L: "claimLoop io h me (nextReaderToken me now counter) want [0..<readerTableSlotCount] r f = (e, r1, f1)"
    by (metis surj_pair)
  note O = claimLoop_ok [OF assms(1) all_slots L]
  have "withLock io (r, f) (e, (r1, f1)) = (err, (r', f'))"
    using assms(2) L by (simp add: claim_def Let_def)
  then show thesis
  proof (cases rule: withLock_cases)
    case 1
    then show ?thesis using refused assms(1) by simp
  next
    case 2
    from O show ?thesis
    proof (elim conjE disjE bexE)
      assume "r1 = r" "e \<noteq> None" "kept h (slotsOf f) (slotsOf f1)" "formatted r f1"
      then show ?thesis using refused 2 by simp
    next
      fix i
      assume "i \<in> set [0..<readerTableSlotCount]" "\<not> live h (slotsOf f ! i)" "formatted r f1"
        "r1 = r\<lparr>rt_slot := int i, rt_token := nextReaderToken me now counter, rt_revision := want\<rparr>"
        "slotsOf f1 = (slotsOf f)[i := stored (rt_slotSize r) (claimed h me (nextReaderToken me now counter) want)]"
      then show ?thesis using slot [of i] 2 by (auto simp: page_consts)
    qed
  qed
qed

text \<open>A handle's slot is its own: marked active under its token, by its process.\<close>

definition held :: "host \<Rightarrow> int \<Rightarrow> readerTable \<Rightarrow> readerSlot \<Rightarrow> bool" where
  "held h me r s \<longleftrightarrow> rs_active s \<and> rs_token s = rt_token r \<and> ownsSlot h me s"

lemma release_ok:
  assumes "formatted r f" "rt_slot r < 64" "release io h me r f = (err, r', f')"
  shows "formatted r f'" "rt_slot r' < 0" "rt_slotSize r' = rt_slotSize r" "formatted r' f'"
    "slotsOf f' = slotsOf f \<or> (0 \<le> rt_slot r \<and> held h me r (slotsOf f ! nat (rt_slot r)) \<and>
       slotsOf f' = (slotsOf f)[nat (rt_slot r) := (slotsOf f ! nat (rt_slot r))\<lparr>rs_active := False\<rparr>])"
proof -
  have "formatted r f' \<and> (r' = r\<lparr>rt_slot := -1\<rparr> \<and> 0 \<le> rt_slot r \<or> r' = r \<and> rt_slot r < 0) \<and>
    (slotsOf f' = slotsOf f \<or> (0 \<le> rt_slot r \<and> held h me r (slotsOf f ! nat (rt_slot r)) \<and>
       slotsOf f' = (slotsOf f)[nat (rt_slot r) := (slotsOf f ! nat (rt_slot r))\<lparr>rs_active := False\<rparr>]))"
  proof (cases "rt_slot r < 0")
    case True
    then show ?thesis using assms by (simp add: release_def)
  next
    case False
    let ?i = "nat (rt_slot r)"
    have i: "?i < 64" using assms(2) False by simp
    let ?body = "(if held h me r (slotsOf f ! ?i) then writeSlotActiveLocked io r f ?i False else (None, f))"
    obtain e f1 where b: "?body = (e, f1)" by (metis surj_pair)
    have f1: "formatted r f1 \<and> (slotsOf f1 = slotsOf f \<or> held h me r (slotsOf f ! ?i) \<and>
        slotsOf f1 = (slotsOf f)[?i := (slotsOf f ! ?i)\<lparr>rs_active := False\<rparr>])"
    proof (cases "held h me r (slotsOf f ! ?i)")
      case True
      from slots_writeActive [OF assms(1) i, of io] show ?thesis
        by cases (use True b assms(1) in auto)
    qed (use b assms(1) in auto)
    have "r' = r\<lparr>rt_slot := -1\<rparr> \<and> (f' = f \<or> f' = f1)"
      using assms(3) False b readSlot_ok [OF assms(1) i, of io]
      by (auto simp: release_def withLock_def held_def Let_def split: if_splits prod.splits)
    then show ?thesis using f1 assms(1) False by auto
  qed
  then show "formatted r f'" "rt_slot r' < 0" "rt_slotSize r' = rt_slotSize r" "formatted r' f'"
    "slotsOf f' = slotsOf f \<or> (0 \<le> rt_slot r \<and> held h me r (slotsOf f ! nat (rt_slot r)) \<and>
       slotsOf f' = (slotsOf f)[nat (rt_slot r) := (slotsOf f ! nat (rt_slot r))\<lparr>rs_active := False\<rparr>])"
    by auto
qed

lemma stored_revision:
  assumes "formatted r f" "i < 64"
  shows "stored (rt_slotSize r) ((slotsOf f ! i)\<lparr>rs_revision := v\<rparr>) = (slotsOf f ! i)\<lparr>rs_revision := v\<rparr>"
  using assms(2) formattedD(1) [OF assms(1)] by (simp add: stored_def slotsOf_nth slotAt_def decodeSlot_def)

lemma updateRevision_ok:
  assumes "formatted r f" "rt_slot r < 64" "updateRevision io h me want r f = (err, f')"
  shows "formatted r f'"
    "slotsOf f' = slotsOf f \<and> (0 \<le> rt_slot r \<longrightarrow> err \<noteq> None) \<or>
     0 \<le> rt_slot r \<and> held h me r (slotsOf f ! nat (rt_slot r)) \<and> (io UnlockTable \<longrightarrow> err = None) \<and>
       slotsOf f' = (slotsOf f)[nat (rt_slot r) := (slotsOf f ! nat (rt_slot r))\<lparr>rs_revision := want\<rparr>]"
proof -
  have "formatted r f' \<and> (slotsOf f' = slotsOf f \<and> (0 \<le> rt_slot r \<longrightarrow> err \<noteq> None) \<or>
     0 \<le> rt_slot r \<and> held h me r (slotsOf f ! nat (rt_slot r)) \<and> (io UnlockTable \<longrightarrow> err = None) \<and>
       slotsOf f' = (slotsOf f)[nat (rt_slot r) := (slotsOf f ! nat (rt_slot r))\<lparr>rs_revision := want\<rparr>])"
  proof (cases "rt_slot r < 0")
    case True
    then show ?thesis using assms by (simp add: updateRevision_def)
  next
    case False
    let ?i = "nat (rt_slot r)" and ?s = "slotsOf f ! nat (rt_slot r)"
    have i: "?i < 64" using assms(2) False by simp
    note rd = readSlot_ok [OF assms(1) i, of io]
    let ?body = "if \<not> io (ReadSlot ?i) then (Some ErrOther, f)
      else if held h me r ?s then writeSlotLocked io r f ?i (?s\<lparr>rs_revision := want\<rparr>) else (Some ErrActiveReaders, f)"
    obtain e f1 where b: "?body = (e, f1)" by (metis surj_pair)
    have f1: "formatted r f1 \<and> (f1 = f \<and> e \<noteq> None \<or> held h me r ?s \<and> e = None \<and> slotsOf f1 = (slotsOf f)[?i := ?s\<lparr>rs_revision := want\<rparr>])"
    proof (cases "io (ReadSlot ?i) \<and> held h me r ?s")
      case True
      from slots_writeSlot [OF assms(1) i, of io "?s\<lparr>rs_revision := want\<rparr>"] show ?thesis
        by cases (use True b assms(1) stored_revision [OF assms(1) i] in auto)
    qed (use b assms(1) in \<open>auto split: if_splits\<close>)
    have "withLock io f (e, f1) = (err, f')"
      using assms(3) False b rd by (auto simp: updateRevision_def held_def Let_def split: if_splits)
    then show ?thesis
      by (cases rule: withLock_cases) (use f1 assms(1) False in auto)
  qed
  then show "formatted r f'"
    "slotsOf f' = slotsOf f \<and> (0 \<le> rt_slot r \<longrightarrow> err \<noteq> None) \<or>
     0 \<le> rt_slot r \<and> held h me r (slotsOf f ! nat (rt_slot r)) \<and> (io UnlockTable \<longrightarrow> err = None) \<and>
       slotsOf f' = (slotsOf f)[nat (rt_slot r) := (slotsOf f ! nat (rt_slot r))\<lparr>rs_revision := want\<rparr>]"
    by blast+
qed

lemma oldestReader_ok:
  assumes "formatted r f" "oldestReader io h maxRevision r f = (err, least, found, f')"
  shows "formatted r f'" "kept h (slotsOf f) (slotsOf f')"
    "err = None \<Longrightarrow> i < 64 \<Longrightarrow> live h (slotsOf f ! i) \<Longrightarrow> found \<and> least \<le> rs_revision (slotsOf f ! i)"
proof -
  obtain e l1 d1 f1 where L: "oldestLoop io h maxRevision r [0..<readerTableSlotCount] (0, False, f) = (e, l1, d1, f1)"
    by (metis surj_pair)
  note O = oldestLoop_ok [OF assms(1) all_slots L]
  have "withLock io (0, False, f) (e, (l1, d1, f1)) = (err, (least, found, f'))"
    using assms(2) L by (simp add: oldestReader_def)
  then have "formatted r f' \<and> kept h (slotsOf f) (slotsOf f') \<and>
    (err = None \<longrightarrow> (\<forall>i\<in>set [0..<readerTableSlotCount]. live h (slotsOf f ! i) \<longrightarrow>
      found \<and> least \<le> rs_revision (slotsOf f ! i)))"
    by (cases rule: withLock_cases) (use O assms(1) in \<open>auto split: if_splits\<close>)
  then show "formatted r f'" "kept h (slotsOf f) (slotsOf f')"
    "err = None \<Longrightarrow> i < 64 \<Longrightarrow> live h (slotsOf f ! i) \<Longrightarrow> found \<and> least \<le> rs_revision (slotsOf f ! i)"
    by (auto simp: page_consts)
qed

lemma scanLoop_ok:
  assumes "formatted r f" "set is \<subseteq> {..<64}"
    "scanLoop io h maxRevision cleaning r is (s, cleared, f) = (err, s', cleared', f')"
  shows "formatted r f' \<and> kept h (slotsOf f) (slotsOf f') \<and> (\<not> cleaning \<longrightarrow> f' = f)"
  using assms
proof (induction "is" arbitrary: s cleared f)
  case (Cons i "is")
  have i: "i < 64" and ins: "set is \<subseteq> {..<64}" using Cons.prems(2) by simp_all
  note rd = readSlot_ok [OF Cons.prems(1) i, of io]
  let ?s = "slotsOf f ! i"
  show ?case
  proof (cases "io (ReadSlot i) \<and> rs_active ?s \<and> \<not> readerSlotAlive h ?s \<and> cleaning")
    case True
    then have nl: "\<not> live h ?s" by (simp add: live_def)
    from slots_writeActive [OF Cons.prems(1) i, of io] show ?thesis
    proof cases
      case 1
      then show ?thesis using Cons.prems rd True by (auto simp: Let_def)
    next
      case (2 f1)
      obtain s1 c1 where "scanLoop io h maxRevision cleaning r is (s1, c1, f1) = (err, s', cleared', f')"
        using Cons.prems(3) rd True 2(1) by (auto simp: Let_def)
      from Cons.IH [OF 2(2) ins this] show ?thesis
        using kept_trans [OF kept_update [OF nl]] True unfolding 2(3) by blast
    qed
  next
    case False
    then consider "f' = f" | s1 c1 where "scanLoop io h maxRevision cleaning r is (s1, c1, f) = (err, s', cleared', f')"
      using Cons.prems(3) rd by (auto simp: Let_def split: if_splits)
    then show ?thesis
    proof cases
      case 1
      then show ?thesis using Cons.prems(1) by simp
    next
      case 2
      from Cons.IH [OF Cons.prems(1) ins this] show ?thesis .
    qed
  qed
qed simp

lemma scanReaders_ok:
  assumes "formatted r f" "scanReaders io h me maxRevision cleaning r f = (err, s, cleared, f')"
  shows "formatted r f'" "kept h (slotsOf f) (slotsOf f')"
proof -
  obtain s0 where s0: "scanReaders io h me maxRevision cleaning r f = withLock io (s0, 0, f)
      (scanLoop io h maxRevision cleaning r [0..<readerTableSlotCount] (s0, 0, f))"
    by (simp add: scanReaders_def Let_def)
  obtain e s1 c1 f1 where L: "scanLoop io h maxRevision cleaning r [0..<readerTableSlotCount] (s0, 0, f) = (e, s1, c1, f1)"
    by (metis surj_pair)
  have "withLock io (s0, 0, f) (e, (s1, c1, f1)) = (err, (s, cleared, f'))"
    using assms(2) L s0 by simp
  then have "formatted r f' \<and> kept h (slotsOf f) (slotsOf f')"
    by (cases rule: withLock_cases) (use scanLoop_ok [OF assms(1) all_slots L] assms(1) in auto)
  then show "formatted r f'" "kept h (slotsOf f) (slotsOf f')" by blast+
qed

lemma initialize_ok:
  assumes "initializeFileLocked io r f = (e, r', f')"
  shows "rt_slot r' = rt_slot r" "e = None \<Longrightarrow> formatted r' f'"
    "io TruncateTable \<Longrightarrow> io WriteTable \<Longrightarrow> e = None \<and> rt_slotSize r' = readerSlotSize \<and> slice f' 32 48 = replicate 48 0"
proof -
  let ?z = "putU64 (putU64 (splice (replicate readerTableSize 0) 0 readerTableMagic) 8 readerTableVersion) 16
    (of_nat readerTableSlotCount)"
  have m: "length readerTableMagic = 8" by (simp add: readerTableMagic_def str_def)
  have z: "length ?z = readerTableSize" "slice ?z 32 48 = replicate 48 0"
    using m by (simp_all add: putU64_def page_consts slice_splice_after) (simp add: slice_def take_replicate)
  have f1: "length (take readerTableSize f @ replicate (readerTableSize - length f) 0) = readerTableSize" by simp
  have w: "writeAt (take readerTableSize f @ replicate (readerTableSize - length f) 0) 0 ?z = ?z"
    using z(1) f1 by (simp add: writeAt_within splice_def)
  have "rt_slot r' = rt_slot r \<and> (e = None \<longrightarrow> formatted r' f') \<and>
    (io TruncateTable \<longrightarrow> io WriteTable \<longrightarrow> e = None \<and> rt_slotSize r' = readerSlotSize \<and> slice f' 32 48 = replicate 48 0)"
    using assms w z
    by (auto simp: initializeFileLocked_def setFormat_def readerTableVersion_def readerTableV1Version_def
        readerTableV2Version_def formatted_def readerTableSize_def Let_def split: if_splits)
  then show "rt_slot r' = rt_slot r" "e = None \<Longrightarrow> formatted r' f'"
    "io TruncateTable \<Longrightarrow> io WriteTable \<Longrightarrow> e = None \<and> rt_slotSize r' = readerSlotSize \<and> slice f' 32 48 = replicate 48 0"
    by blast+
qed

lemma ensureExisting_ok:
  assumes "ensureExistingFileLocked io r f = (e, r', f')"
  shows "f' = f" "rt_slot r' = rt_slot r" "e = None \<Longrightarrow> formatted r' f'"
  using assms
  by (auto simp: ensureExistingFileLocked_def setFormat_def formatted_def readerTableV1Size_def
      readerTableV2Size_def readerTableSize_def Let_def split: if_splits)

lemma formatted_nonempty: "formatted r f \<Longrightarrow> f \<noteq> []"
  by (auto dest: formattedD(3))

lemma openReaderTable_ok:
  assumes "openReaderTable io f = (res, f')"
  shows "f \<noteq> [] \<Longrightarrow> f' = f" "res = Inr r \<Longrightarrow> formatted r f'" "res = Inr r \<Longrightarrow> rt_slot r = -1"
proof -
  obtain e r1 f1 where E: "ensureFileLocked io closedHandle f = (e, r1, f1)" by (metis surj_pair)
  have ok: "rt_slot r1 = -1 \<and> (e = None \<longrightarrow> formatted r1 f1) \<and> (f \<noteq> [] \<longrightarrow> f1 = f)"
    using E initialize_ok [of io closedHandle f e r1 f1] ensureExisting_ok [of io closedHandle f e r1 f1]
    by (auto simp: ensureFileLocked_def closedHandle_def split: if_splits)
  obtain err r2 f2 where W: "withLock io (closedHandle, f) (e, (r1, f1)) = (err, (r2, f2))" by (metis surj_pair)
  have res: "f' = f2 \<and> res = (case err of Some x \<Rightarrow> Inl x | None \<Rightarrow> Inr r2)"
    using assms E W by (auto simp: openReaderTable_def split: option.splits)
  have "(f \<noteq> [] \<longrightarrow> f2 = f) \<and> (err = None \<longrightarrow> formatted r2 f2 \<and> rt_slot r2 = -1)"
    using W by (cases rule: withLock_cases) (use ok in \<open>auto split: if_splits\<close>)
  then show "f \<noteq> [] \<Longrightarrow> f' = f" "res = Inr r \<Longrightarrow> formatted r f'" "res = Inr r \<Longrightarrow> rt_slot r = -1"
    using res by (auto split: option.splits)
qed

section \<open>The processes\<close>

record readerHandle =
  rh_pid :: int
  rh_table :: readerTable
  rh_revision :: u64

record readerSystem =
  sy_host :: host
  sy_file :: bytes
  sy_handles :: "nat \<Rightarrow> readerHandle option"

definition smallPid :: "int \<Rightarrow> bool" where
  "smallPid p \<longleftrightarrow> 0 < p \<and> p < 2 ^ 62"

definition unlocks :: "(fileOp \<Rightarrow> bool) \<Rightarrow> bool" where
  "unlocks io = io UnlockTable"

definition startProcess :: "int \<Rightarrow> u64 \<Rightarrow> readerSystem \<Rightarrow> readerSystem" where
  "startProcess p start s = s\<lparr>sy_host := (sy_host s)
     \<lparr>killOk := (killOk (sy_host s))(p := True),
      processStartToken := (processStartToken (sy_host s))(p := start)\<rparr>\<rparr>"

definition exitProcess :: "int \<Rightarrow> readerSystem \<Rightarrow> readerSystem" where
  "exitProcess p s = s\<lparr>sy_host := (sy_host s)\<lparr>killOk := (killOk (sy_host s))(p := False)\<rparr>,
     sy_handles := (\<lambda>k. case sy_handles s k of
       Some rh \<Rightarrow> if rh_pid rh = p then None else Some rh | None \<Rightarrow> None)\<rparr>"

definition setHandle :: "nat \<Rightarrow> readerHandle option \<Rightarrow> bytes \<Rightarrow> readerSystem \<Rightarrow> readerSystem" where
  "setHandle k rh f s = s\<lparr>sy_file := f, sy_handles := (sy_handles s)(k := rh)\<rparr>"

text \<open>
  One event.  A process that starts may take the id of a dead one, with any start token.  Only
  \<^verbatim>\<open>updateRevision\<close> is assumed to unlock: a failed unlock would report a move that took place as
  an error.
\<close>

inductive readerStep :: "readerSystem \<Rightarrow> readerSystem \<Rightarrow> bool" where
  started: "\<not> pidAlive (sy_host s) p \<Longrightarrow> smallPid p \<Longrightarrow> readerStep s (startProcess p start s)"
| exited: "readerStep s (exitProcess p s)"
| opened: "pidAlive (sy_host s) p \<Longrightarrow> sy_handles s k = None \<Longrightarrow>
    openReaderTable io (sy_file s) = (Inr r, f') \<Longrightarrow>
    readerStep s (setHandle k (Some \<lparr>rh_pid = p, rh_table = r, rh_revision = 0\<rparr>) f' s)"
| openFails: "openReaderTable io (sy_file s) = (Inl e, f') \<Longrightarrow> sy_handles s k = None \<Longrightarrow>
    readerStep s (setHandle k None f' s)"
| claims: "sy_handles s k = Some rh \<Longrightarrow> rt_slot (rh_table rh) < 0 \<Longrightarrow>
    claim io (sy_host s) (rh_pid rh) now counter want (rh_table rh) (sy_file s) = (err, r', f') \<Longrightarrow>
    readerStep s (setHandle k (Some (rh\<lparr>rh_table := r', rh_revision := want\<rparr>)) f' s)"
| moves: "sy_handles s k = Some rh \<Longrightarrow> unlocks io \<Longrightarrow>
    updateRevision io (sy_host s) (rh_pid rh) want (rh_table rh) (sy_file s) = (None, f') \<Longrightarrow>
    readerStep s (setHandle k (Some (rh\<lparr>rh_revision := want\<rparr>)) f' s)"
| moveFails: "sy_handles s k = Some rh \<Longrightarrow> unlocks io \<Longrightarrow>
    updateRevision io (sy_host s) (rh_pid rh) want (rh_table rh) (sy_file s) = (Some e, f') \<Longrightarrow>
    readerStep s (setHandle k (Some rh) f' s)"
| releases: "sy_handles s k = Some rh \<Longrightarrow>
    release io (sy_host s) (rh_pid rh) (rh_table rh) (sy_file s) = (err, r', f') \<Longrightarrow>
    readerStep s (setHandle k (Some (rh\<lparr>rh_table := r'\<rparr>)) f' s)"
| closes: "sy_handles s k = Some rh \<Longrightarrow>
    readerTableClose io closeOk (sy_host s) (rh_pid rh) (rh_table rh) (sy_file s) = (err, r', f') \<Longrightarrow>
    readerStep s (setHandle k None f' s)"
| scans: "sy_handles s k = Some rh \<Longrightarrow>
    oldestReader io (sy_host s) maxRevision (rh_table rh) (sy_file s) = (err, least, found, f') \<Longrightarrow>
    readerStep s (setHandle k (Some rh) f' s)"
| cleans: "sy_handles s k = Some rh \<Longrightarrow>
    scanReaders io (sy_host s) (rh_pid rh) maxRevision cleaning (rh_table rh) (sy_file s) = (err, st, cleared, f') \<Longrightarrow>
    readerStep s (setHandle k (Some rh) f' s)"

definition holdsSlot :: "readerHandle \<Rightarrow> bool" where
  "holdsSlot rh \<longleftrightarrow> 0 \<le> rt_slot (rh_table rh)"

definition handleInv :: "readerSystem \<Rightarrow> readerHandle \<Rightarrow> bool" where
  "handleInv s rh \<longleftrightarrow> pidAlive (sy_host s) (rh_pid rh) \<and> formatted (rh_table rh) (sy_file s) \<and>
     rt_slot (rh_table rh) < 64 \<and>
     (holdsSlot rh \<longrightarrow>
       (let x = slotsOf (sy_file s) ! nat (rt_slot (rh_table rh)) in
        live (sy_host s) x \<and> held (sy_host s) (rh_pid rh) (rh_table rh) x \<and> rs_revision x = rh_revision rh))"

definition tableInv :: "readerSystem \<Rightarrow> bool" where
  "tableInv s \<longleftrightarrow> (\<forall>p. pidAlive (sy_host s) p \<longrightarrow> smallPid p) \<and>
     (\<forall>k rh. sy_handles s k = Some rh \<longrightarrow> handleInv s rh) \<and>
     (\<forall>k k' rh rh'. sy_handles s k = Some rh \<longrightarrow> sy_handles s k' = Some rh' \<longrightarrow> k \<noteq> k' \<longrightarrow>
        holdsSlot rh \<longrightarrow> holdsSlot rh' \<longrightarrow> rt_slot (rh_table rh) \<noteq> rt_slot (rh_table rh'))"

lemma tableInvD:
  assumes "tableInv s" "sy_handles s k = Some rh"
  shows "pidAlive (sy_host s) (rh_pid rh)" "formatted (rh_table rh) (sy_file s)" "rt_slot (rh_table rh) < 64"
    "holdsSlot rh \<Longrightarrow> live (sy_host s) (slotsOf (sy_file s) ! nat (rt_slot (rh_table rh)))"
    "holdsSlot rh \<Longrightarrow> held (sy_host s) (rh_pid rh) (rh_table rh) (slotsOf (sy_file s) ! nat (rt_slot (rh_table rh)))"
    "holdsSlot rh \<Longrightarrow> rs_revision (slotsOf (sy_file s) ! nat (rt_slot (rh_table rh))) = rh_revision rh"
    "holdsSlot rh \<Longrightarrow> nat (rt_slot (rh_table rh)) < 64"
proof -
  have "handleInv s rh" using assms unfolding tableInv_def by blast
  then show "pidAlive (sy_host s) (rh_pid rh)" "formatted (rh_table rh) (sy_file s)" "rt_slot (rh_table rh) < 64"
    "holdsSlot rh \<Longrightarrow> live (sy_host s) (slotsOf (sy_file s) ! nat (rt_slot (rh_table rh)))"
    "holdsSlot rh \<Longrightarrow> held (sy_host s) (rh_pid rh) (rh_table rh) (slotsOf (sy_file s) ! nat (rt_slot (rh_table rh)))"
    "holdsSlot rh \<Longrightarrow> rs_revision (slotsOf (sy_file s) ! nat (rt_slot (rh_table rh))) = rh_revision rh"
    "holdsSlot rh \<Longrightarrow> nat (rt_slot (rh_table rh)) < 64"
    unfolding handleInv_def Let_def holdsSlot_def by auto
qed

text \<open>A call of one handle: what is left to show of it, given that it respects the others.\<close>

lemma tableInv_setHandle:
  assumes I: "tableInv s"
    and others: "\<And>j rh. j \<noteq> k \<Longrightarrow> sy_handles s j = Some rh \<Longrightarrow> formatted (rh_table rh) f'"
      "\<And>j rh. j \<noteq> k \<Longrightarrow> sy_handles s j = Some rh \<Longrightarrow> holdsSlot rh \<Longrightarrow>
        slotsOf f' ! nat (rt_slot (rh_table rh)) = slotsOf (sy_file s) ! nat (rt_slot (rh_table rh))"
    and own: "\<And>rh. nh = Some rh \<Longrightarrow> handleInv (s\<lparr>sy_file := f'\<rparr>) rh"
      "\<And>rh j rh'. nh = Some rh \<Longrightarrow> j \<noteq> k \<Longrightarrow> sy_handles s j = Some rh' \<Longrightarrow> holdsSlot rh \<Longrightarrow> holdsSlot rh' \<Longrightarrow>
        rt_slot (rh_table rh) \<noteq> rt_slot (rh_table rh')"
  shows "tableInv (setHandle k nh f' s)"
proof -
  have h: "handleInv (setHandle k nh f' s) rh" if "sy_handles (setHandle k nh f' s) j = Some rh" for j rh
  proof (cases "j = k")
    case True
    then show ?thesis using own(1) [of rh] that by (simp add: setHandle_def handleInv_def)
  next
    case False
    then have j: "sy_handles s j = Some rh" using that by (simp add: setHandle_def)
    show ?thesis
      using tableInvD [OF I j] others(1) [OF False j] others(2) [OF False j]
      by (simp add: setHandle_def handleInv_def Let_def)
  qed
  have d: "rt_slot (rh_table rh) \<noteq> rt_slot (rh_table rh')"
    if "sy_handles (setHandle k nh f' s) i = Some rh" "sy_handles (setHandle k nh f' s) j = Some rh'" "i \<noteq> j"
      "holdsSlot rh" "holdsSlot rh'" for i j rh rh'
  proof -
    consider "i = k" | "j = k" | "i \<noteq> k" "j \<noteq> k" by blast
    then show ?thesis
    proof cases
      case 1
      then show ?thesis using own(2) [of rh j rh'] that by (simp add: setHandle_def)
    next
      case 2
      then show ?thesis using own(2) [of rh' i rh] that by (auto simp: setHandle_def)
    next
      case 3
      then have "sy_handles s i = Some rh" "sy_handles s j = Some rh'" using that by (simp_all add: setHandle_def)
      then show ?thesis using I that(3-5) unfolding tableInv_def by blast
    qed
  qed
  have "\<forall>p. pidAlive (sy_host s) p \<longrightarrow> smallPid p" using I by (simp add: tableInv_def)
  then show ?thesis using h d by (simp add: tableInv_def setHandle_def)
qed

lemma formatted_same: "formatted r f \<Longrightarrow> formatted r f' \<Longrightarrow> formatted r2 f \<Longrightarrow> formatted r2 f'"
  by (auto simp: formatted_def)

text \<open>A call that keeps the live slots and leaves the handle as it was, or without a slot.\<close>

lemma tableInv_kept:
  assumes I: "tableInv s" and k: "sy_handles s k = Some rh"
    and f': "formatted (rh_table rh) f'" "kept (sy_host s) (slotsOf (sy_file s)) (slotsOf f')"
  shows "tableInv (setHandle k (Some rh) f' s)"
proof -
  note D = tableInvD [OF I]
  have same: "slotsOf f' ! nat (rt_slot (rh_table x)) = slotsOf (sy_file s) ! nat (rt_slot (rh_table x))"
    if "sy_handles s j = Some x" "holdsSlot x" for j x
    using keptD [OF f'(2)] D(4,7) [OF that] by simp
  have fm: "formatted (rh_table x) f'" if "sy_handles s j = Some x" for j x
    using formatted_same [OF D(2) [OF k] f'(1) D(2) [OF that]] .
  have "handleInv (s\<lparr>sy_file := f'\<rparr>) rh"
    using D [OF k] fm [OF k] same [OF k] by (simp add: handleInv_def Let_def)
  then show ?thesis
    using fm same I k by (intro tableInv_setHandle [OF I]) (auto simp: tableInv_def)
qed

lemma tableInv_claim:
  assumes I: "tableInv s" and k: "sy_handles s k = Some rh"
    and c: "claim io (sy_host s) (rh_pid rh) now counter want (rh_table rh) (sy_file s) = (err, r', f')"
    and free: "rt_slot (rh_table rh) < 0"
  shows "tableInv (setHandle k (Some (rh\<lparr>rh_table := r', rh_revision := want\<rparr>)) f' s)"
proof -
  note D = tableInvD [OF I]
  from D(2) [OF k] c show ?thesis
  proof (cases rule: claim_ok)
    case refused
    have "handleInv (s\<lparr>sy_file := f'\<rparr>) (rh\<lparr>rh_table := r', rh_revision := want\<rparr>)"
      using D(1-3) [OF k] refused free by (simp add: handleInv_def holdsSlot_def)
    moreover have "\<not> holdsSlot (rh\<lparr>rh_table := r', rh_revision := want\<rparr>)"
      using refused free by (simp add: holdsSlot_def)
    moreover have "formatted (rh_table x) f'" if "sy_handles s j = Some x" for j x
      using formatted_same [OF D(2) [OF k] refused(3) D(2) [OF that]] .
    ultimately show ?thesis
      using keptD [OF refused(4)] D(4,7) by (intro tableInv_setHandle [OF I]) auto
  next
    case (slot i)
    let ?w = "rt_slotSize (rh_table rh)" and ?tok = "nextReaderToken (rh_pid rh) now counter"
    let ?x = "stored ?w (claimed (sy_host s) (rh_pid rh) ?tok want)"
    have p: "pidAlive (sy_host s) (rh_pid rh)" "smallPid (rh_pid rh)"
      using D(1) [OF k] I by (auto simp: tableInv_def)
    have pid: "sint (word_of_int (rh_pid rh) :: u64) = rh_pid rh"
      using p(2) by (intro sint_word_of_int_64) (auto simp: smallPid_def)
    have x: "live (sy_host s) ?x" "rs_token ?x = ?tok" "ownsSlot (sy_host s) (rh_pid rh) ?x" "rs_active ?x" "rs_revision ?x = want"
      using p(1) pid by (auto simp: live_def stored_def claimed_def readerSlotAlive_def ownsSlot_def bootIDMatches_def Let_def)
    have other: "nat (rt_slot (rh_table y)) \<noteq> i" if "sy_handles s j = Some y" "holdsSlot y" for j y
      using D(4) [OF that] slot(2) by auto
    have "handleInv (s\<lparr>sy_file := f'\<rparr>) (rh\<lparr>rh_table := r', rh_revision := want\<rparr>)"
      using p slot x D(3) [OF k] by (auto simp: handleInv_def Let_def held_def)
    moreover have "formatted (rh_table y) f'" if "sy_handles s j = Some y" for j y
      using formatted_same [OF D(2) [OF k] slot(3) D(2) [OF that]] .
    moreover have "rt_slot (rh_table y) \<noteq> rt_slot r'" if "sy_handles s j = Some y" "holdsSlot y" for j y
      using other [OF that] slot(4) by auto
    ultimately show ?thesis
      using other unfolding slot(5) by (intro tableInv_setHandle [OF I]) (fastforce simp: slot(5))+
  qed
qed

text \<open>A write to the handle's own slot, or none: no other handle loses its slot.\<close>

lemma tableInv_own:
  assumes I: "tableInv s" and k: "sy_handles s k = Some rh" and f': "formatted (rh_table rh) f'"
    and sl: "slotsOf f' = slotsOf (sy_file s) \<or>
      holdsSlot rh \<and> slotsOf f' = (slotsOf (sy_file s))[nat (rt_slot (rh_table rh)) := x]"
    and own: "\<And>y. nh = Some y \<Longrightarrow> handleInv (s\<lparr>sy_file := f'\<rparr>) y"
      "\<And>y. nh = Some y \<Longrightarrow> holdsSlot y \<Longrightarrow> holdsSlot rh \<and> rt_slot (rh_table y) = rt_slot (rh_table rh)"
  shows "tableInv (setHandle k nh f' s)"
proof (rule tableInv_setHandle [OF I])
  note D = tableInvD [OF I]
  fix j y
  assume j: "j \<noteq> k" "sy_handles s j = Some y"
  show "formatted (rh_table y) f'" using formatted_same [OF D(2) [OF k] f' D(2) [OF j(2)]] .
  show "slotsOf f' ! nat (rt_slot (rh_table y)) = slotsOf (sy_file s) ! nat (rt_slot (rh_table y))" if "holdsSlot y"
  proof -
    have "holdsSlot rh \<Longrightarrow> rt_slot (rh_table rh) \<noteq> rt_slot (rh_table y)"
      using I k j that unfolding tableInv_def by metis
    then have "holdsSlot rh \<Longrightarrow> nat (rt_slot (rh_table rh)) \<noteq> nat (rt_slot (rh_table y))"
      using that by (auto simp: holdsSlot_def)
    then show ?thesis using sl by auto
  qed
  show "rt_slot (rh_table z) \<noteq> rt_slot (rh_table y)" if "nh = Some z" "holdsSlot z" "holdsSlot y" for z
    using own(2) [OF that(1,2)] I k j that(3) unfolding tableInv_def by metis
qed (use own(1) in auto)

lemma tableInv_release:
  assumes I: "tableInv s" and k: "sy_handles s k = Some rh"
    and c: "release io (sy_host s) (rh_pid rh) (rh_table rh) (sy_file s) = (err, r', f')"
  shows "tableInv (setHandle k (Some (rh\<lparr>rh_table := r'\<rparr>)) f' s)" "tableInv (setHandle k None f' s)"
proof -
  note D = tableInvD [OF I]
  note R = release_ok [OF D(2) [OF k] D(3) [OF k] c]
  have sl: "slotsOf f' = slotsOf (sy_file s) \<or> holdsSlot rh \<and>
      slotsOf f' = (slotsOf (sy_file s))[nat (rt_slot (rh_table rh)) :=
        (slotsOf (sy_file s) ! nat (rt_slot (rh_table rh)))\<lparr>rs_active := False\<rparr>]"
    using R(5) by (auto simp: holdsSlot_def)
  have "handleInv (s\<lparr>sy_file := f'\<rparr>) (rh\<lparr>rh_table := r'\<rparr>)"
    using D(1) [OF k] R(2,4) by (simp add: handleInv_def holdsSlot_def)
  then show "tableInv (setHandle k (Some (rh\<lparr>rh_table := r'\<rparr>)) f' s)"
    using R(2) by (intro tableInv_own [OF I k R(1) sl]) (auto simp: holdsSlot_def)
  show "tableInv (setHandle k None f' s)"
    by (rule tableInv_own [OF I k R(1) sl]) simp_all
qed

lemma tableInv_move:
  assumes I: "tableInv s" and k: "sy_handles s k = Some rh" and io: "unlocks io"
    and c: "updateRevision io (sy_host s) (rh_pid rh) want (rh_table rh) (sy_file s) = (err, f')"
  shows "err = None \<Longrightarrow> tableInv (setHandle k (Some (rh\<lparr>rh_revision := want\<rparr>)) f' s)"
    "err \<noteq> None \<Longrightarrow> tableInv (setHandle k (Some rh) f' s)"
proof -
  note D = tableInvD [OF I]
  note U = updateRevision_ok [OF D(2) [OF k] D(3) [OF k] c]
  let ?i = "nat (rt_slot (rh_table rh))"
  have i: "holdsSlot rh \<Longrightarrow> ?i < 64" by (rule D(7) [OF k])
  have sl: "slotsOf f' = slotsOf (sy_file s) \<or> holdsSlot rh \<and>
      slotsOf f' = (slotsOf (sy_file s))[?i := (slotsOf (sy_file s) ! ?i)\<lparr>rs_revision := want\<rparr>]"
    using U(2) by (auto simp: holdsSlot_def)
  have lv: "live h (x\<lparr>rs_revision := want\<rparr>) = live h x" "held h p r (x\<lparr>rs_revision := want\<rparr>) = held h p r x" for h p r x
    by (simp_all add: live_def held_def ownsSlot_def readerSlotAlive_def bootIDMatches_def)
  { assume e: "err = None"
    have "handleInv (s\<lparr>sy_file := f'\<rparr>) (rh\<lparr>rh_revision := want\<rparr>)"
    proof (cases "holdsSlot rh")
      case True
      then have "slotsOf f' ! ?i = (slotsOf (sy_file s) ! ?i)\<lparr>rs_revision := want\<rparr>"
        using U(2) e i by (auto simp: holdsSlot_def)
      then show ?thesis
        using D [OF k] True U(1) lv by (simp add: handleInv_def holdsSlot_def Let_def)
    next
      case False
      then show ?thesis using D(1,3) [OF k] U(1) by (simp add: handleInv_def holdsSlot_def)
    qed
    then show "tableInv (setHandle k (Some (rh\<lparr>rh_revision := want\<rparr>)) f' s)"
      by (intro tableInv_own [OF I k U(1) sl]) (auto simp: holdsSlot_def)
  next
    assume e: "err \<noteq> None"
    then have "slotsOf f' = slotsOf (sy_file s)"
      using U(2) io by (auto simp: unlocks_def)
    then show "tableInv (setHandle k (Some rh) f' s)"
      by (intro tableInv_kept [OF I k U(1)]) simp
  }
qed

text \<open>Starting and stopping processes changes nothing a live process sees of its own slots.\<close>

lemma live_same_process:
  assumes "pidAlive h' (rs_pid x)" "processStartToken h' (rs_pid x) = processStartToken h (rs_pid x)"
    "bootIDToken h' = bootIDToken h" "held h p r x" "live h x"
  shows "live h' x" "held h' p r x"
  using assms by (auto simp: live_def held_def ownsSlot_def readerSlotAlive_def bootIDMatches_def Let_def split: if_splits)

lemma tableInv_start:
  assumes I: "tableInv s" and p: "\<not> pidAlive (sy_host s) p" "smallPid p"
  shows "tableInv (startProcess p start s)"
proof -
  let ?h = "sy_host (startProcess p start s)"
  have pids: "pidAlive ?h q = (q = p \<or> pidAlive (sy_host s) q)" for q
    using p(2) by (auto simp: startProcess_def pidAlive_def smallPid_def)
  have boot: "bootIDToken ?h = bootIDToken (sy_host s)" by (simp add: startProcess_def)
  have inv: "handleInv (startProcess p start s) rh" if k: "sy_handles s k = Some rh" for k rh
  proof -
    note D = tableInvD [OF I k]
    have q: "rh_pid rh \<noteq> p" using D(1) p(1) by auto
    have tok: "processStartToken ?h (rh_pid rh) = processStartToken (sy_host s) (rh_pid rh)"
      using q by (simp add: startProcess_def)
    have pid: "rs_pid x = rh_pid rh" if "held (sy_host s) (rh_pid rh) r x" for r x
      using that by (simp add: held_def ownsSlot_def split: if_splits)
    have "live ?h x \<and> held ?h (rh_pid rh) (rh_table rh) x"
      if "live (sy_host s) x" "held (sy_host s) (rh_pid rh) (rh_table rh) x" for x
      using live_same_process [of ?h x "sy_host s" "rh_pid rh" "rh_table rh"] that pid [OF that(2)] tok boot D(1) pids by simp
    then show ?thesis
      using D pids by (simp add: handleInv_def Let_def) (simp add: startProcess_def)
  qed
  have "sy_handles (startProcess p start s) = sy_handles s" by (simp add: startProcess_def)
  then show ?thesis
    using inv I p(2) pids unfolding tableInv_def by auto
qed

lemma tableInv_exit:
  assumes I: "tableInv s"
  shows "tableInv (exitProcess p s)"
proof -
  let ?h = "sy_host (exitProcess p s)"
  have pids: "pidAlive ?h q = (q \<noteq> p \<and> pidAlive (sy_host s) q)" for q
    by (auto simp: exitProcess_def pidAlive_def)
  have hs: "sy_handles s k = Some rh \<and> rh_pid rh \<noteq> p" if "sy_handles (exitProcess p s) k = Some rh" for k rh
    using that by (auto simp: exitProcess_def split: option.splits if_splits)
  have same: "bootIDToken ?h = bootIDToken (sy_host s)" "processStartToken ?h = processStartToken (sy_host s)"
    "sy_file (exitProcess p s) = sy_file s" by (simp_all add: exitProcess_def)
  have inv: "handleInv (exitProcess p s) rh" if "sy_handles (exitProcess p s) k = Some rh" for k rh
  proof -
    have k: "sy_handles s k = Some rh" and q: "rh_pid rh \<noteq> p" using hs [OF that] by blast+
    note D = tableInvD [OF I k]
    have pid: "rs_pid x = rh_pid rh" if "held (sy_host s) (rh_pid rh) r x" for r x
      using that by (simp add: held_def ownsSlot_def split: if_splits)
    have "live ?h x \<and> held ?h (rh_pid rh) (rh_table rh) x"
      if "live (sy_host s) x" "held (sy_host s) (rh_pid rh) (rh_table rh) x" for x
      using live_same_process [of ?h x "sy_host s" "rh_pid rh" "rh_table rh"] that pid [OF that(2)] same D(1) pids q by simp
    then show ?thesis using D pids q by (simp add: handleInv_def Let_def same)
  qed
  show ?thesis
    using inv pids hs I unfolding tableInv_def by (intro conjI allI impI) (blast, blast, metis)
qed

lemma readerStep_inv: "readerStep s s' \<Longrightarrow> tableInv s \<Longrightarrow> tableInv s'"
proof (induction rule: readerStep.induct)
  case (started s p start)
  then show ?case by (simp add: tableInv_start)
next
  case (exited s p)
  then show ?case by (rule tableInv_exit)
next
  case (opened s p k io r f')
  note D = tableInvD [OF opened(4)]
  note O = openReaderTable_ok [OF opened(3)]
  have same: "f' = sy_file s" if "sy_handles s j = Some y" for j y
    using O(1) formatted_nonempty [OF D(2) [OF that]] by blast
  have "handleInv (s\<lparr>sy_file := f'\<rparr>) \<lparr>rh_pid = p, rh_table = r, rh_revision = 0\<rparr>"
    using opened(1) O(2,3) by (simp add: handleInv_def holdsSlot_def)
  moreover have "\<not> holdsSlot \<lparr>rh_pid = p, rh_table = r, rh_revision = 0\<rparr>"
    using O(3) by (simp add: holdsSlot_def)
  ultimately show ?case
    using same D(2) by (intro tableInv_setHandle [OF opened(4)]) auto
next
  case (openFails io s e f' k)
  note D = tableInvD [OF openFails(3)]
  have same: "f' = sy_file s" if "sy_handles s j = Some y" for j y
    using openReaderTable_ok(1) [OF openFails(1)] formatted_nonempty [OF D(2) [OF that]] by blast
  show ?case
    using same D(2) by (intro tableInv_setHandle [OF openFails(3)]) auto
next
  case (claims s k rh io now counter want err r' f')
  then show ?case by (intro tableInv_claim) auto
next
  case (moves s k rh io want f')
  then show ?case by (intro tableInv_move(1)) auto
next
  case (moveFails s k rh io want e f')
  then show ?case by (intro tableInv_move(2)) auto
next
  case (releases s k rh io err r' f')
  then show ?case by (intro tableInv_release(1)) auto
next
  case (closes s k rh io closeOk err r' f')
  then obtain e where "release io (sy_host s) (rh_pid rh) (rh_table rh) (sy_file s) = (e, r', f')"
    by (auto simp: readerTableClose_def split: prod.splits)
  then show ?case using closes by (intro tableInv_release(2)) auto
next
  case (scans s k rh io maxRevision err least found f')
  note O = oldestReader_ok [OF tableInvD(2) [OF scans(3,1)] scans(2)]
  show ?case by (rule tableInv_kept [OF scans(3,1) O(1,2)])
next
  case (cleans s k rh io maxRevision cleaning err st cleared f')
  note O = scanReaders_ok [OF tableInvD(2) [OF cleans(3,1)] cleans(2)]
  show ?case by (rule tableInv_kept [OF cleans(3,1) O])
qed

section \<open>What a writer learns\<close>

definition startSystem :: "readerSystem \<Rightarrow> bool" where
  "startSystem s \<longleftrightarrow> sy_handles s = (\<lambda>_. None) \<and> (\<forall>p. pidAlive (sy_host s) p \<longrightarrow> smallPid p)"

lemma reachable_inv:
  assumes "readerStep\<^sup>*\<^sup>* s0 s" "startSystem s0"
  shows "tableInv s"
  using assms
proof (induction rule: rtranclp_induct)
  case base
  then show ?case by (simp add: startSystem_def tableInv_def)
next
  case (step y z)
  then show ?case by (blast intro: readerStep_inv)
qed

lemma live_reader_bounds_scan:
  assumes I: "tableInv s" and k: "sy_handles s k = Some rh" "holdsSlot rh" and w: "sy_handles s w = Some wh"
    and scan: "readerScan io (sy_host s) (rh_table wh) (sy_file s) maxRevision = Some (least, found)"
  shows "found \<and> least \<le> rh_revision rh"
proof -
  note D = tableInvD [OF I]
  obtain f' where o: "oldestReader io (sy_host s) maxRevision (rh_table wh) (sy_file s) = (None, least, found, f')"
    using scan by (auto simp: readerScan_def split: prod.splits option.splits)
  show ?thesis
    using oldestReader_ok(3) [OF D(2) [OF w] o _ D(7) [OF k] D(4) [OF k]] D(6) [OF k] by simp
qed

text \<open>An error of the scan pins everything, so a live reader's pages stay either way.\<close>

lemma reader_pins:
  assumes "tableInv s" "sy_handles s k = Some rh" "holdsSlot rh" "sy_handles s w = Some wh"
    and a: "arena t = Some a" "TreeState.readerTable a = Some (readerScan io (sy_host s) (rh_table wh) (sy_file s))"
    and x: "x \<in> set (retired t)" "rh_revision rh \<le> rp_revision x"
  shows "x \<in> set (retired (reclaimRetiredPages t))"
proof -
  obtain least found where o: "oldestReaderRevision t = (least, found)" by (metis surj_pair)
  have "found \<and> least \<le> rh_revision rh"
  proof (cases "readerScan io (sy_host s) (rh_table wh) (sy_file s) (revision t)")
    case None
    then show ?thesis
      using o a by (auto simp: oldestReaderRevision_def oldestReaderRevisionDetailed_def split: prod.splits)
  next
    case (Some r)
    then obtain l d where r: "r = (l, d)" by (metis surj_pair)
    have "d \<and> l \<le> rh_revision rh"
      using live_reader_bounds_scan [OF assms(1-4)] Some r by blast
    then show ?thesis
      using o a Some r by (auto simp: oldestReaderRevision_def oldestReaderRevisionDetailed_def split: prod.splits if_splits)
  qed
  then show ?thesis using x o by (auto simp: reclaimRetiredPages_def Let_def)
qed

section \<open>The calls when nothing fails\<close>

lemma withLock_True: "withLock (\<lambda>_. True) s0 (e, s) = (e, s)"
  by (cases e) (simp_all add: withLock_def)

lemma claim_exact:
  assumes "formatted r f"
  shows "if \<forall>i<64. live h (slotsOf f ! i) then claim (\<lambda>_. True) h me now counter want r f = (Some ErrActiveReaders, r, f)
    else \<exists>i<64. \<exists>f'. \<not> live h (slotsOf f ! i) \<and> formatted r f' \<and>
      claim (\<lambda>_. True) h me now counter want r f =
        (None, r\<lparr>rt_slot := int i, rt_token := nextReaderToken me now counter, rt_revision := want\<rparr>, f') \<and>
      slotsOf f' = (slotsOf f)[i := stored (rt_slotSize r) (claimed h me (nextReaderToken me now counter) want)]"
proof (cases "\<forall>i<64. live h (slotsOf f ! i)")
  case True
  then have "\<forall>i\<in>set [0..<readerTableSlotCount]. live h (slotsOf f ! i)" by (simp add: page_consts)
  then show ?thesis
    using True claimLoop_full [OF assms all_slots] by (simp add: claim_def Let_def withLock_True)
next
  case False
  then have "\<exists>i\<in>set [0..<readerTableSlotCount]. \<not> live h (slotsOf f ! i)" by (auto simp: page_consts)
  note free = claimLoop_free [OF assms all_slots this, of me "nextReaderToken me now counter" want]
  obtain err r' f' where c: "claim (\<lambda>_. True) h me now counter want r f = (err, r', f')" by (metis surj_pair)
  then have "err = None" using free by (metis claim_def withLock_True fst_conv prod.collapse)
  from assms c show ?thesis
  proof (cases rule: claim_ok)
    case refused
    then show ?thesis using \<open>err = None\<close> by simp
  next
    case (slot i)
    then have "claim (\<lambda>_. True) h me now counter want r f =
        (None, r\<lparr>rt_slot := int i, rt_token := nextReaderToken me now counter, rt_revision := want\<rparr>, f')"
      using c \<open>err = None\<close> by simp
    then show ?thesis using slot(1-3,5) False by (simp only: if_False) blast
  qed
qed

definition liveRevisions :: "host \<Rightarrow> readerSlot list \<Rightarrow> u64 set" where
  "liveRevisions h ss = rs_revision ` {x \<in> set ss. live h x}"

lemma oldest_exact:
  assumes "formatted r f"
    and v: "\<forall>x\<in>set (slotsOf f). live h x \<longrightarrow> validateReaderSlotRevision x maxRevision = None"
  shows "\<exists>least f'. oldestReader (\<lambda>_. True) h maxRevision r f = (None, least, (liveRevisions h (slotsOf f) \<noteq> {}), f') \<and>
    slotsOf f' = map (clean h) (slotsOf f) \<and>
    (liveRevisions h (slotsOf f) \<noteq> {} \<longrightarrow> least = Min (liveRevisions h (slotsOf f)))"
proof -
  let ?R = "liveRevisions h (slotsOf f)"
  have v': "\<forall>i\<in>set [0..<readerTableSlotCount]. live h (slotsOf f ! i) \<longrightarrow>
      validateReaderSlotRevision (slotsOf f ! i) maxRevision = None"
    using v by (auto simp: page_consts)
  obtain least found f' where L: "oldestLoop (\<lambda>_. True) h maxRevision r [0..<readerTableSlotCount] (0, False, f) =
      (None, least, found, f')"
    and sl0: "\<forall>j<64. slotsOf f' ! j = (if j \<in> set [0..<readerTableSlotCount] then clean h (slotsOf f ! j) else slotsOf f ! j)"
    and w0: "found \<longrightarrow> False \<and> least = 0 \<or> (\<exists>i\<in>set [0..<readerTableSlotCount]. live h (slotsOf f ! i) \<and> least = rs_revision (slotsOf f ! i))"
    using oldestLoop_exact [OF assms(1) all_slots v', of 0 False] by blast
  have sl: "\<forall>j<64. slotsOf f' ! j = clean h (slotsOf f ! j)" using sl0 by (simp add: page_consts)
  have wit: "found \<Longrightarrow> \<exists>i<64. live h (slotsOf f ! i) \<and> least = rs_revision (slotsOf f ! i)"
    using w0 by (auto simp: page_consts)
  have lower: "found \<and> least \<le> rs_revision (slotsOf f ! i)" if "i < 64" "live h (slotsOf f ! i)" for i
    using oldestLoop_ok [OF assms(1) all_slots L] that by (auto simp: page_consts)
  have mem: "x \<in> ?R \<longleftrightarrow> (\<exists>i<64. live h (slotsOf f ! i) \<and> x = rs_revision (slotsOf f ! i))" for x
    by (auto simp: liveRevisions_def in_set_conv_nth image_iff)
  have fd: "found = (?R \<noteq> {})"
  proof
    assume found
    from wit [OF this] have "least \<in> ?R" unfolding mem [of least] .
    then show "?R \<noteq> {}" by blast
  next
    assume "?R \<noteq> {}"
    then obtain x where "x \<in> ?R" by blast
    then show found using lower unfolding mem [of x] by blast
  qed
  have mn: "least = Min ?R" if "?R \<noteq> {}"
  proof (rule Min_eqI [symmetric])
    show "finite ?R" by (simp add: liveRevisions_def)
    show "least \<le> y" if "y \<in> ?R" for y
      using that lower unfolding mem [of y] by blast
    have found using fd that by simp
    from wit [OF this] show "least \<in> ?R" unfolding mem [of least] .
  qed
  have "slotsOf f' = map (clean h) (slotsOf f)" using sl by (intro nth_equalityI) simp_all
  then show ?thesis
    using L fd mn by (simp add: oldestReader_def withLock_True)
qed

lemma release_exact:
  assumes "formatted r f" "0 \<le> rt_slot r" "rt_slot r < 64" "held h me r (slotsOf f ! nat (rt_slot r))"
  shows "\<exists>f'. release (\<lambda>_. True) h me r f = (None, r\<lparr>rt_slot := -1\<rparr>, f') \<and> formatted r f' \<and>
    slotsOf f' = (slotsOf f)[nat (rt_slot r) := (slotsOf f ! nat (rt_slot r))\<lparr>rs_active := False\<rparr>]"
proof -
  let ?i = "nat (rt_slot r)"
  have i: "?i < 64" using assms(3) by simp
  note rd = readSlot_ok [OF assms(1) i, of "\<lambda>_. True", simplified if_True]
  from slots_writeActive [OF assms(1) i, of "\<lambda>_. True"] show ?thesis
  proof cases
    case 1
    then show ?thesis by (simp add: writeSlotActiveLocked_def)
  next
    case (2 f')
    then show ?thesis
      using assms(2,4) rd by (simp add: release_def withLock_True held_def Let_def)
  qed
qed

section \<open>A sample\<close>

definition sampleHost :: host where
  "sampleHost = \<lparr>killOk = (\<lambda>p. p = 1), processStartToken = (\<lambda>_. 7), bootIDToken = 9\<rparr>"

lemma open_fresh:
  obtains r f where "openReaderTable (\<lambda>_. True) [] = (Inr r, f)" "formatted r f" "rt_slot r = -1"
    "\<not> live h (slotsOf f ! 0)"
proof -
  obtain e r f where i: "initializeFileLocked (\<lambda>_. True) closedHandle [] = (e, r, f)" by (metis surj_pair)
  note I = initialize_ok [OF i]
  have o: "openReaderTable (\<lambda>_. True) [] = (Inr r, f)"
    using i I(3) by (simp add: openReaderTable_def ensureFileLocked_def withLock_True)
  have f: "formatted r f" using I(2,3) by simp
  have "slice f 32 48 = replicate 48 0" "rt_slotSize r = readerSlotSize" using I(3) by simp_all
  then have "\<not> rs_active (slotsOf f ! 0)"
    using formattedD(1) [OF f]
    by (simp add: slotsOf_nth slotAt_def decodeSlot_def getU64_def page_consts)
      (simp add: slice_def take_replicate numeral_eq_Suc)
  then show thesis
    using that [OF o f] I(1) by (simp add: live_def closedHandle_def)
qed

lemma sample_reader:
  obtains s rh where "readerStep\<^sup>*\<^sup>* \<lparr>sy_host = sampleHost, sy_file = [], sy_handles = (\<lambda>_. None)\<rparr> s"
    "sy_handles s 0 = Some rh" "holdsSlot rh" "rh_revision rh = 5" "sy_host s = sampleHost"
proof -
  let ?s0 = "\<lparr>sy_host = sampleHost, sy_file = [], sy_handles = (\<lambda>_. None :: readerHandle option)\<rparr>"
  obtain r f where o: "openReaderTable (\<lambda>_. True) [] = (Inr r, f)" "formatted r f" "rt_slot r = -1"
    "\<not> live sampleHost (slotsOf f ! 0)" by (rule open_fresh)
  let ?h1 = "\<lparr>rh_pid = 1, rh_table = r, rh_revision = 0\<rparr>"
  let ?s1 = "setHandle 0 (Some ?h1) f ?s0"
  have st1: "readerStep ?s0 ?s1"
    by (rule opened) (use o(1) in \<open>simp_all add: sampleHost_def pidAlive_def\<close>)
  obtain i f' where c: "claim (\<lambda>_. True) sampleHost 1 0 1 5 r f =
      (None, r\<lparr>rt_slot := int i, rt_token := nextReaderToken 1 0 1, rt_revision := 5\<rparr>, f')"
    using claim_exact [OF o(2), of sampleHost 1 0 1 5] o(4) by (auto split: if_splits)
  let ?r2 = "r\<lparr>rt_slot := int i, rt_token := nextReaderToken 1 0 1, rt_revision := 5\<rparr>"
  let ?s2 = "setHandle 0 (Some (?h1\<lparr>rh_table := ?r2, rh_revision := 5\<rparr>)) f' ?s1"
  have st2: "readerStep ?s1 ?s2"
    by (rule claims) (use o(3) c in \<open>simp_all add: setHandle_def\<close>)
  show thesis
    by (rule that [of ?s2 "?h1\<lparr>rh_table := ?r2, rh_revision := 5\<rparr>"])
      (use st1 st2 in \<open>simp_all add: setHandle_def holdsSlot_def\<close>)
qed

end
