(* ===== verification/MemTree.thy ===== *)
theory MemTree
  imports KeyOrder
begin

text \<open>
  The in-memory teaching tree (\<^verbatim>\<open>src/btree\<close>): a classic B-tree of nodes behind pointers, whose
  writes copy the path from the root and whose snapshots keep an old root.  The nodes live in a
  heap, an address for each pointer, because the claim the package makes is one of aliasing: that
  a write never changes a node an older root reaches.  Go slices are the node's own (\<^verbatim>\<open>clone\<close> and
  \<^verbatim>\<open>splitChild\<close> copy them before anything is appended), so they are lists in the node.

  Keys are of any linear order, as the constraint \<^verbatim>\<open>cmp.Ordered\<close> without floating-point NaN.
  \<open>None\<close> is a panic (an index out of range, a nil dereference) or a call that does not return.
\<close>

section \<open>Nodes and the heap\<close>

type_synonym addr = nat

record ('k, 'v) mnode =
  mn_leaf :: bool
  mn_keys :: "'k list"
  mn_values :: "'v list"
  mn_children :: "addr list"

record ('k, 'v) mheap =
  hp_nodes :: "addr \<Rightarrow> ('k, 'v) mnode option"
  hp_next :: addr

definition emptyHeap :: "('k, 'v) mheap" where
  "emptyHeap = \<lparr>hp_nodes = (\<lambda>_. None), hp_next = 0\<rparr>"

definition alloc :: "('k, 'v) mheap \<Rightarrow> ('k, 'v) mnode \<Rightarrow> addr \<times> ('k, 'v) mheap" where
  "alloc h n = (hp_next h, h\<lparr>hp_nodes := (hp_nodes h)(hp_next h \<mapsto> n), hp_next := hp_next h + 1\<rparr>)"

definition store :: "('k, 'v) mheap \<Rightarrow> addr \<Rightarrow> ('k, 'v) mnode \<Rightarrow> ('k, 'v) mheap" where
  "store h a n = h\<lparr>hp_nodes := (hp_nodes h)(a \<mapsto> n)\<rparr>"

definition memNewLeaf :: "'k \<Rightarrow> 'v \<Rightarrow> ('k, 'v) mnode" where
  "memNewLeaf k v = \<lparr>mn_leaf = True, mn_keys = [k], mn_values = [v], mn_children = []\<rparr>"

definition memClone :: "('k, 'v) mheap \<Rightarrow> addr \<Rightarrow> (addr \<times> ('k, 'v) mheap) option" where
  "memClone h a = do { n \<leftarrow> hp_nodes h a; Some (alloc h n) }"

definition memMaxKeys :: "nat \<Rightarrow> nat" where
  "memMaxKeys degree = 2 * degree - 1"

definition memFull :: "('k, 'v) mnode \<Rightarrow> nat \<Rightarrow> bool" where
  "memFull n degree \<longleftrightarrow> length (mn_keys n) = memMaxKeys degree"

definition memNormalizeDegree :: "int \<Rightarrow> nat" where
  "memNormalizeDegree degree = (if degree < 2 then 2 else nat degree)"

text \<open>\<^verbatim>\<open>cmp.Compare\<close> and \<^verbatim>\<open>slices.BinarySearch\<close>.\<close>

definition keyCompare :: "'k::linorder \<Rightarrow> 'k \<Rightarrow> int" where
  "keyCompare x y = (if x < y then -1 else if x = y then 0 else 1)"

definition binarySearch :: "'k::linorder list \<Rightarrow> 'k \<Rightarrow> nat \<times> bool" where
  "binarySearch ks k = binarySearchFunc (\<lambda>x. keyCompare x k) ks"

section \<open>Search\<close>

partial_function (option) memSearchNode ::
  "('k::linorder, 'v) mheap \<Rightarrow> addr option \<Rightarrow> 'k \<Rightarrow> 'v option option" where
  "memSearchNode h n k =
     (case n of
        None \<Rightarrow> Some None
      | Some a \<Rightarrow> do {
          nd \<leftarrow> hp_nodes h a;
          let (index, found) = binarySearch (mn_keys nd) k;
          (if found then do {
             check (index < length (mn_values nd));
             Some (Some (mn_values nd ! index))
           }
           else if mn_leaf nd then Some None
           else do {
             check (index < length (mn_children nd));
             memSearchNode h (Some (mn_children nd ! index)) k
           })
        })"

partial_function (option) memRangeNode ::
  "('k, 'v) mheap \<Rightarrow> addr option \<Rightarrow> ('s \<Rightarrow> 'k \<Rightarrow> 'v \<Rightarrow> 's \<times> bool) \<Rightarrow> 's \<Rightarrow> ('s \<times> bool) option" where
  "memRangeNode h n visit s =
     (case n of
        None \<Rightarrow> Some (s, True)
      | Some a \<Rightarrow> do {
          nd \<leftarrow> hp_nodes h a;
          (s1, r) \<leftarrow> loopM (\<lambda>s i. do {
              (s1, more) \<leftarrow> (if mn_leaf nd then Some (s, True)
                else do {
                  check (i < length (mn_children nd));
                  memRangeNode h (Some (mn_children nd ! i)) visit s
                });
              (if \<not> more then Some (s1, Some False)
               else do {
                 check (i < length (mn_values nd));
                 let (s2, more) = visit s1 (mn_keys nd ! i) (mn_values nd ! i);
                 Some (s2, if more then None else Some False)
               })
            }) s [0..<length (mn_keys nd)];
          (case r of
             Some b \<Rightarrow> Some (s1, b)
           | None \<Rightarrow>
               if mn_leaf nd then Some (s1, True)
               else do {
                 check (length (mn_keys nd) < length (mn_children nd));
                 memRangeNode h (Some (mn_children nd ! length (mn_keys nd))) visit s1
               })
        })"

section \<open>Insertion\<close>

text \<open>\<^verbatim>\<open>insertAt\<close> is \<open>insertAt\<close>; its \<^verbatim>\<open>append\<close> and \<^verbatim>\<open>copy\<close> stay in the slices of one node.\<close>

definition memSplitChild :: "('k, 'v) mheap \<Rightarrow> addr \<Rightarrow> nat \<Rightarrow> nat \<Rightarrow> ('k, 'v) mheap option" where
  "memSplitChild h parent at degree = do {
     p0 \<leftarrow> hp_nodes h parent;
     check (at < length (mn_children p0));
     let left = mn_children p0 ! at;
     l \<leftarrow> hp_nodes h left;
     let medianIndex = degree - 1;
     check (medianIndex < length (mn_keys l) \<and> medianIndex < length (mn_values l));
     let medianKey = mn_keys l ! medianIndex;
     let medianValue = mn_values l ! medianIndex;
     check (mn_leaf l \<or> medianIndex < length (mn_children l));
     let (right, h1) = alloc h
       \<lparr>mn_leaf = mn_leaf l, mn_keys = drop (medianIndex + 1) (mn_keys l),
        mn_values = drop (medianIndex + 1) (mn_values l),
        mn_children = (if mn_leaf l then [] else drop (medianIndex + 1) (mn_children l))\<rparr>;
     let h2 = store h1 left (l\<lparr>mn_keys := take medianIndex (mn_keys l),
       mn_values := take medianIndex (mn_values l),
       mn_children := (if mn_leaf l then mn_children l else take (medianIndex + 1) (mn_children l))\<rparr>);
     p \<leftarrow> hp_nodes h2 parent;
     check (at \<le> length (mn_keys p) \<and> at \<le> length (mn_values p));
     Some (store h2 parent (p\<lparr>mn_keys := insertAt (mn_keys p) at medianKey,
       mn_values := insertAt (mn_values p) at medianValue,
       mn_children := insertAt (mn_children p) (at + 1) right\<rparr>))
   }"

partial_function (option) memInsertNonFull ::
  "('k::linorder, 'v) mheap \<Rightarrow> addr \<Rightarrow> 'k \<Rightarrow> 'v \<Rightarrow> nat \<Rightarrow> ('v option \<times> ('k, 'v) mheap) option" where
  "memInsertNonFull h a k v degree = do {
     n \<leftarrow> hp_nodes h a;
     let (index, found) = binarySearch (mn_keys n) k;
     (if found then do {
        check (index < length (mn_values n));
        Some (Some (mn_values n ! index), store h a (n\<lparr>mn_values := (mn_values n)[index := v]\<rparr>))
      }
      else if mn_leaf n then do {
        check (index \<le> length (mn_values n));
        Some (None, store h a (n\<lparr>mn_keys := insertAt (mn_keys n) index k,
          mn_values := insertAt (mn_values n) index v\<rparr>))
      }
      else do {
        check (index < length (mn_children n));
        (c, h1) \<leftarrow> memClone h (mn_children n ! index);
        let h2 = store h1 a (n\<lparr>mn_children := (mn_children n)[index := c]\<rparr>);
        child \<leftarrow> hp_nodes h2 c;
        (if memFull child degree then do {
           h3 \<leftarrow> memSplitChild h2 a index degree;
           n3 \<leftarrow> hp_nodes h3 a;
           check (index < length (mn_keys n3));
           (if k = mn_keys n3 ! index then do {
              check (index < length (mn_values n3));
              Some (Some (mn_values n3 ! index), store h3 a (n3\<lparr>mn_values := (mn_values n3)[index := v]\<rparr>))
            }
            else do {
              let index = (if mn_keys n3 ! index < k then index + 1 else index);
              check (index < length (mn_children n3));
              memInsertNonFull h3 (mn_children n3 ! index) k v degree
            })
         }
         else memInsertNonFull h2 c k v degree)
      })
   }"

section \<open>The tree\<close>

record memTree =
  mt_root :: "addr option"
  mt_length :: int
  mt_revision :: "64 word"
  mt_degree :: nat

definition memNew :: "int \<Rightarrow> memTree" where
  "memNew degree = \<lparr>mt_root = None, mt_length = 0, mt_revision = 0, mt_degree = memNormalizeDegree degree\<rparr>"

definition memGet :: "('k::linorder, 'v) mheap \<Rightarrow> memTree \<Rightarrow> 'k \<Rightarrow> 'v option option" where
  "memGet h t k = memSearchNode h (mt_root t) k"

text \<open>The result is the old value, the tree and the heap.\<close>

definition memSet ::
  "('k::linorder, 'v) mheap \<Rightarrow> memTree \<Rightarrow> 'k \<Rightarrow> 'v \<Rightarrow> ('v option \<times> memTree \<times> ('k, 'v) mheap) option" where
  "memSet h t k v =
     (case mt_root t of
        None \<Rightarrow>
          let (a, h') = alloc h (memNewLeaf k v) in
          Some (None, t\<lparr>mt_root := Some a, mt_length := 1, mt_revision := mt_revision t + 1\<rparr>, h')
      | Some r \<Rightarrow> do {
          (root, h1) \<leftarrow> memClone h r;
          n \<leftarrow> hp_nodes h1 root;
          (root, h2) \<leftarrow>
            (if memFull n (mt_degree t) then do {
               let (parent, h2) = alloc h1 \<lparr>mn_leaf = False, mn_keys = [], mn_values = [], mn_children = [root]\<rparr>;
               h3 \<leftarrow> memSplitChild h2 parent 0 (mt_degree t);
               Some (parent, h3)
             }
             else Some (root, h1));
          (old, h3) \<leftarrow> memInsertNonFull h2 root k v (mt_degree t);
          Some (old, t\<lparr>mt_root := Some root, mt_length := (if old = None then mt_length t + 1 else mt_length t),
            mt_revision := mt_revision t + 1\<rparr>, h3)
        })"

definition memRange ::
  "('k, 'v) mheap \<Rightarrow> memTree \<Rightarrow> ('s \<Rightarrow> 'k \<Rightarrow> 'v \<Rightarrow> 's \<times> bool) \<Rightarrow> 's \<Rightarrow> 's option" where
  "memRange h t visit s = map_option fst (memRangeNode h (mt_root t) visit s)"

text \<open>A snapshot is a copy of the four fields; its reads are those of the tree.\<close>

definition memSnapshot :: "memTree \<Rightarrow> memTree" where
  "memSnapshot t = \<lparr>mt_root = mt_root t, mt_length = mt_length t, mt_revision = mt_revision t, mt_degree = mt_degree t\<rparr>"

section \<open>Statistics\<close>

partial_function (option) memHeight :: "('k, 'v) mheap \<Rightarrow> addr option \<Rightarrow> nat option" where
  "memHeight h n =
     (case n of
        None \<Rightarrow> Some 0
      | Some a \<Rightarrow> do {
          nd \<leftarrow> hp_nodes h a;
          (if mn_leaf nd then Some 1
           else do {
             check (mn_children nd \<noteq> []);
             d \<leftarrow> memHeight h (Some (mn_children nd ! 0));
             Some (1 + d)
           })
        })"

partial_function (option) memCount :: "('k, 'v) mheap \<Rightarrow> addr option \<Rightarrow> (nat \<times> nat) option" where
  "memCount h n =
     (case n of
        None \<Rightarrow> Some (0, 0)
      | Some a \<Rightarrow> do {
          nd \<leftarrow> hp_nodes h a;
          cs \<leftarrow> mapM (\<lambda>c. memCount h (Some c)) (mn_children nd);
          Some (1 + sum_list (map fst cs), length (mn_keys nd) + sum_list (map snd cs))
        })"

record memStats =
  mst_Len :: int
  mst_Revision :: "64 word"
  mst_Degree :: nat
  mst_Height :: nat
  mst_Nodes :: nat
  mst_Keys :: nat

definition memStatsFor :: "('k, 'v) mheap \<Rightarrow> memTree \<Rightarrow> memStats option" where
  "memStatsFor h t = do {
     d \<leftarrow> memHeight h (mt_root t);
     (nodes, ks) \<leftarrow> memCount h (mt_root t);
     Some \<lparr>mst_Len = mt_length t, mst_Revision = mt_revision t, mst_Degree = mt_degree t,
       mst_Height = d, mst_Nodes = nodes, mst_Keys = ks\<rparr>
   }"

end
