(* ===== verification/MemTreeSpec.thy ===== *)
theory MemTreeSpec
  imports MemTree
begin

text \<open>
  The algorithm of \<^verbatim>\<open>src/btree\<close> on trees as values, without the heap: \<open>pins\<close> is insertion into a tree
  of height \<open>n\<close>, \<open>tsplit\<close> the split of a full node.  It keeps the shape of a B-tree (\<open>mshape\<close>) and
  acts on the entries, in order, as insertion into a sorted list (\<open>pins_ok\<close>).
\<close>

section \<open>Sorted lists of entries\<close>

fun upd_list :: "'k::linorder \<Rightarrow> 'v \<Rightarrow> ('k \<times> 'v) list \<Rightarrow> ('k \<times> 'v) list" where
  "upd_list k v [] = [(k, v)]"
| "upd_list k v (e # es) =
     (if k < fst e then (k, v) # e # es else if k = fst e then (k, v) # es else e # upd_list k v es)"

abbreviation ordered :: "('k::linorder \<times> 'v) list \<Rightarrow> bool" where
  "ordered es \<equiv> sorted_wrt (<) (map fst es)"

lemma set_upd_list: "fst ` set (upd_list k v es) = insert k (fst ` set es)"
  by (induction es) auto

lemma all_upd_list: "(\<forall>x\<in>set (upd_list k v es). P (fst x)) = (P k \<and> (\<forall>x\<in>set es. P (fst x)))"
proof -
  have "(\<forall>x\<in>set (upd_list k v es). P (fst x)) = (\<forall>y\<in>fst ` set (upd_list k v es). P y)" by simp
  then show ?thesis unfolding set_upd_list by simp
qed

lemma ordered_upd_list: "ordered es \<Longrightarrow> ordered (upd_list k v es)"
proof (induction es)
  case (Cons e es)
  consider "k < fst e" | "k = fst e" | "fst e < k" by (rule linorder_cases)
  then show ?case
  proof cases
    case 1
    then show ?thesis using Cons.prems by (auto intro: less_trans)
  next
    case 2
    then show ?thesis using Cons.prems by simp
  next
    case 3
    then have "upd_list k v (e # es) = e # upd_list k v es" by auto
    then show ?thesis using Cons 3 by (simp add: all_upd_list)
  qed
qed simp

lemma map_of_upd_list: "ordered es \<Longrightarrow> map_of (upd_list k v es) = (map_of es)(k \<mapsto> v)"
proof (induction es)
  case (Cons e es)
  have "map_of es k = None" if "k < fst e"
    using Cons.prems that by (auto simp: map_of_eq_None_iff)
  then show ?case using Cons by (cases e) (auto intro!: ext)
qed simp

lemma length_upd_list:
  "ordered es \<Longrightarrow> length (upd_list k v es) = (if map_of es k = None then Suc (length es) else length es)"
proof (induction es)
  case (Cons e es)
  have "map_of es k = None" if "k < fst e"
    using Cons.prems that by (auto simp: map_of_eq_None_iff)
  then show ?case using Cons by (cases e) auto
qed simp

lemma upd_list_between:
  "\<forall>x\<in>fst ` set ls. x < k \<Longrightarrow> \<forall>x\<in>fst ` set rs. k < x \<Longrightarrow> upd_list k v (ls @ ms @ rs) = ls @ upd_list k v ms @ rs"
proof (induction ls)
  case Nil
  have "upd_list k v rs = (k, v) # rs" using Nil by (cases rs) auto
  then show ?case
    by (induction ms) auto
qed auto

lemma map_of_between:
  "\<forall>x\<in>fst ` set ls. x < k \<Longrightarrow> \<forall>x\<in>fst ` set rs. (k :: 'k::linorder) < x \<Longrightarrow> map_of (ls @ ms @ rs) k = map_of ms k"
proof -
  assume "\<forall>x\<in>fst ` set ls. x < k" "\<forall>x\<in>fst ` set rs. k < x"
  then have "map_of ls k = None" "map_of rs k = None" by (auto simp: map_of_eq_None_iff)
  then show ?thesis by (simp add: map_add_def split: option.split)
qed

section \<open>Trees as values\<close>

datatype ('k, 'v) mtree = MT (tkeys: "'k list") (tvals: "'v list") (tkids: "('k, 'v) mtree list")

text \<open>Entries and subtrees in turn; a leaf has entries only.\<close>

fun inter :: "'a list \<Rightarrow> 'a list list \<Rightarrow> 'a list" where
  "inter es [] = es"
| "inter [] (c # cs) = c"
| "inter (e # es) (c # cs) = c @ e # inter es cs"

fun tents :: "('k, 'v) mtree \<Rightarrow> ('k \<times> 'v) list" where
  "tents (MT ks vs cs) = inter (zip ks vs) (map tents cs)"

fun mshape :: "nat \<Rightarrow> nat \<Rightarrow> ('k, 'v) mtree \<Rightarrow> bool" where
  "mshape d 0 (MT ks vs cs) \<longleftrightarrow> cs = [] \<and> length vs = length ks \<and> length ks \<le> memMaxKeys d"
| "mshape d (Suc n) (MT ks vs cs) \<longleftrightarrow> length cs = Suc (length ks) \<and> length vs = length ks \<and>
     length ks \<le> memMaxKeys d \<and> (\<forall>c\<in>set cs. mshape d n c \<and> d - 1 \<le> length (tkeys c))"

lemma mshape_lengths: "mshape d n (MT ks vs cs) \<Longrightarrow> length vs = length ks \<and> length ks \<le> memMaxKeys d"
  by (cases n) auto

lemma mshape_leaf: "mshape d n (MT ks vs cs) \<Longrightarrow> (cs = []) = (n = 0)"
  by (cases n) auto

text \<open>The entries before and after child \<open>i\<close>.\<close>

definition entsBefore :: "nat \<Rightarrow> 'a list \<Rightarrow> 'a list list \<Rightarrow> 'a list" where
  "entsBefore i es cs = concat (map2 (\<lambda>c e. c @ [e]) (take i cs) (take i es))"

definition entsAfter :: "nat \<Rightarrow> 'a list \<Rightarrow> 'a list list \<Rightarrow> 'a list" where
  "entsAfter i es cs = concat (map2 (\<lambda>e c. e # c) (drop i es) (drop (Suc i) cs))"

lemma entsBefore_0 [simp]: "entsBefore 0 es cs = []"
  by (simp add: entsBefore_def)

lemma entsBefore_Cons [simp]: "entsBefore (Suc i) (e # es) (c # cs) = c @ e # entsBefore i es cs"
  by (simp add: entsBefore_def)

lemma entsAfter_Cons [simp]: "entsAfter (Suc i) (e # es) (c # cs) = entsAfter i es cs"
  by (simp add: entsAfter_def)

lemma entsAfter_Nil [simp]: "entsAfter i [] cs = []"
  by (simp add: entsAfter_def)

lemma inter_after: "length cs = Suc (length es) \<Longrightarrow> inter es cs = hd cs @ entsAfter 0 es cs"
proof (induction es cs rule: inter.induct)
  case (3 e es c cs)
  then have "inter es cs = hd cs @ entsAfter 0 es cs" by simp
  moreover have "cs \<noteq> []" using 3 by auto
  ultimately show ?case by (cases cs) (simp_all add: entsAfter_def)
qed auto

lemma inter_child:
  "length cs = Suc (length es) \<Longrightarrow> i \<le> length es \<Longrightarrow> inter es cs = entsBefore i es cs @ cs ! i @ entsAfter i es cs"
proof (induction i arbitrary: es cs)
  case 0
  then show ?case using inter_after [of cs es] by (cases cs) auto
next
  case (Suc i)
  then obtain e es' c cs' where "es = e # es'" "cs = c # cs'" by (cases es; cases cs) auto
  then show ?case using Suc by simp
qed

lemma entsBefore_update [simp]: "i \<le> j \<Longrightarrow> entsBefore i es (cs[j := c]) = entsBefore i es cs"
  by (simp add: entsBefore_def)

lemma entsAfter_update [simp]: "entsAfter i es (cs[i := c]) = entsAfter i es cs"
  by (simp add: entsAfter_def)

lemma inter_child_update:
  "length cs = Suc (length es) \<Longrightarrow> i \<le> length es \<Longrightarrow>
     inter es (cs[i := c]) = entsBefore i es cs @ c @ entsAfter i es cs"
  using inter_child [of "cs[i := c]" es i] by simp

lemma inter_child_split:
  "length cs = Suc (length es) \<Longrightarrow> i \<le> length es \<Longrightarrow>
     inter (insertAt es i e) (insertAt (cs[i := l]) (Suc i) r) = entsBefore i es cs @ l @ e # r @ entsAfter i es cs"
proof (induction i arbitrary: es cs)
  case 0
  then obtain c cs' where cs: "cs = c # cs'" by (cases cs) auto
  then have "length (r # cs') = Suc (length es)" using 0 by simp
  from inter_after [OF this] show ?case
    using cs by (simp add: insertAt_def entsAfter_def)
next
  case (Suc i)
  then obtain e' es' c cs' where "es = e' # es'" "cs = c # cs'" by (cases es; cases cs) auto
  then show ?case using Suc by (simp add: insertAt_def)
qed

lemma entsBefore_last: "0 < i \<Longrightarrow> i \<le> length es \<Longrightarrow> i \<le> length cs \<Longrightarrow> \<exists>xs. entsBefore i es cs = xs @ [es ! (i - 1)]"
proof (induction i arbitrary: es cs)
  case (Suc i)
  then obtain e' es' c cs' where e: "es = e' # es'" "cs = c # cs'" by (cases es; cases cs) auto
  show ?case
  proof (cases "i = 0")
    case True
    then show ?thesis using e by simp
  next
    case False
    then obtain xs where "entsBefore i es' cs' = xs @ [es' ! (i - 1)]" using Suc e by fastforce
    then show ?thesis using e False by simp
  qed
qed simp

lemma entsAfter_first: "i < length es \<Longrightarrow> Suc i < length cs \<Longrightarrow> \<exists>xs. entsAfter i es cs = es ! i # xs"
  by (simp add: entsAfter_def Cons_nth_drop_Suc [symmetric] flip: Cons_nth_drop_Suc)

text \<open>Around the child a key is routed to, all keys are smaller before and larger after it.\<close>

lemma around_child:
  fixes k :: "'k::linorder"
  assumes "length cs = Suc (length es)" "i \<le> length es" "ordered (inter es cs)"
    and "0 < i \<Longrightarrow> fst (es ! (i - 1)) < k" "i < length es \<Longrightarrow> k < fst (es ! i)"
  shows "\<forall>x\<in>fst ` set (entsBefore i es cs). x < k" "\<forall>x\<in>fst ` set (entsAfter i es cs). k < x"
    "ordered (cs ! i)"
proof -
  note I = assms(3) [unfolded inter_child [OF assms(1,2)]]
  show "\<forall>x\<in>fst ` set (entsBefore i es cs). x < k"
  proof (cases "0 < i")
    case True
    then obtain xs where "entsBefore i es cs = xs @ [es ! (i - 1)]"
      using entsBefore_last [of i es cs] assms(1,2) by auto
    then show ?thesis
      using I assms(4) [OF True] by (auto simp: sorted_wrt_append intro: less_trans)
  qed simp
  show "\<forall>x\<in>fst ` set (entsAfter i es cs). k < x"
  proof (cases "i < length es")
    case True
    then obtain xs where "entsAfter i es cs = es ! i # xs"
      using entsAfter_first [of i es cs] assms(1) by auto
    then show ?thesis
      using I assms(5) [OF True] by (auto simp: sorted_wrt_append intro: less_trans)
  next
    case False
    then show ?thesis using assms(2) by (simp add: entsAfter_def)
  qed
  show "ordered (cs ! i)" using I by (simp add: sorted_wrt_append)
qed

section \<open>Where a key goes\<close>

definition krank :: "'k::linorder list \<Rightarrow> 'k \<Rightarrow> nat" where
  "krank ks k = rank (\<lambda>x. keyCompare x k) ks"

lemma keyCompare_simps [simp]: "(keyCompare x y < 0) = (x < y)" "(keyCompare x y = 0) = (x = y)"
  by (auto simp: keyCompare_def)

lemma binarySearch_krank:
  assumes "sorted_wrt (<) ks"
  shows "binarySearch ks k = (krank ks k, krank ks k < length ks \<and> ks ! krank ks k = k)"
proof -
  have "partitioned (\<lambda>x. keyCompare x k) ks"
    using assms by (auto simp: partitioned_def sorted_wrt_iff_nth_less intro: less_trans)
  then show ?thesis by (simp add: binarySearch_def binarySearchFunc_rank krank_def)
qed

lemma krank_le [simp]: "krank ks k \<le> length ks"
  by (simp add: krank_def)

lemma krank_below: "i < krank ks k \<Longrightarrow> ks ! i < k"
  using rank_below [of i "\<lambda>x. keyCompare x k" ks] by (simp add: krank_def)

lemma krank_at: "krank ks k < length ks \<Longrightarrow> k \<le> ks ! krank ks k"
  using rank_at [of "\<lambda>x. keyCompare x k" ks] by (auto simp: krank_def)

lemma krank_above: "\<not> (krank ks k < length ks \<and> ks ! krank ks k = k) \<Longrightarrow> krank ks k < length ks \<Longrightarrow> k < ks ! krank ks k"
  using krank_at [of ks k] by auto

section \<open>Insertion\<close>

definition tsplit :: "nat \<Rightarrow> ('k, 'v) mtree \<Rightarrow> ('k, 'v) mtree \<times> ('k \<times> 'v) \<times> ('k, 'v) mtree" where
  "tsplit m T =
     (MT (take m (tkeys T)) (take m (tvals T)) (take (m + 1) (tkids T)),
      (tkeys T ! m, tvals T ! m),
      MT (drop (m + 1) (tkeys T)) (drop (m + 1) (tvals T)) (drop (m + 1) (tkids T)))"

primrec pins :: "nat \<Rightarrow> nat \<Rightarrow> 'k::linorder \<Rightarrow> 'v \<Rightarrow> ('k, 'v) mtree \<Rightarrow> 'v option \<times> ('k, 'v) mtree" where
  "pins 0 d k v T =
     (let ks = tkeys T; vs = tvals T; i = krank ks k in
      if i < length ks \<and> ks ! i = k then (Some (vs ! i), MT ks (vs[i := v]) [])
      else (None, MT (insertAt ks i k) (insertAt vs i v) []))"
| "pins (Suc n) d k v T =
     (let ks = tkeys T; vs = tvals T; cs = tkids T; i = krank ks k in
      if i < length ks \<and> ks ! i = k then (Some (vs ! i), MT ks (vs[i := v]) cs)
      else if length (tkeys (cs ! i)) = memMaxKeys d then
        (case tsplit (d - 1) (cs ! i) of (l, (mk, mv), r) \<Rightarrow>
          let ks' = insertAt ks i mk; vs' = insertAt vs i mv in
          if k = mk then (Some mv, MT ks' (vs'[i := v]) (insertAt (cs[i := l]) (Suc i) r))
          else if mk < k then
            (case pins n d k v r of (o', r') \<Rightarrow> (o', MT ks' vs' (insertAt (cs[i := l]) (Suc i) r')))
          else
            (case pins n d k v l of (o', l') \<Rightarrow> (o', MT ks' vs' (insertAt (cs[i := l']) (Suc i) r))))
      else (case pins n d k v (cs ! i) of (o', c') \<Rightarrow> (o', MT ks vs (cs[i := c']))))"

lemma tents_split:
  assumes "mshape d n T" "length (tkeys T) = memMaxKeys d" "2 \<le> d" "tsplit (d - 1) T = (l, e, r)"
  shows "mshape d n l" "mshape d n r" "length (tkeys l) = d - 1" "length (tkeys r) = d - 1"
    "tents T = tents l @ e # tents r"
proof -
  obtain ks vs cs where T: "T = MT ks vs cs" by (cases T)
  have len: "length ks = 2 * d - 1" "length vs = length ks"
    using assms(1,2) mshape_lengths [of d n ks vs cs] by (simp_all add: T memMaxKeys_def)
  have lr: "l = MT (take (d - 1) ks) (take (d - 1) vs) (take d cs)" "e = (ks ! (d - 1), vs ! (d - 1))"
    "r = MT (drop d ks) (drop d vs) (drop d cs)"
    using assms(3,4) by (auto simp: tsplit_def T)
  show "length (tkeys l) = d - 1" "length (tkeys r) = d - 1" using lr len assms(3) by simp_all
  have e: "e = zip ks vs ! (d - 1)" using lr(2) len assms(3) by simp
  have z: "zip ks vs = take (d - 1) (zip ks vs) @ e # drop d (zip ks vs)"
    using id_take_nth_drop [of "d - 1" "zip ks vs"] e len assms(3) by simp
  have ents: "tents l = inter (take (d - 1) (zip ks vs)) (take d (map tents cs))"
    "tents r = inter (drop d (zip ks vs)) (drop d (map tents cs))"
    by (simp_all add: lr take_zip drop_zip take_map drop_map)
  show "mshape d n l" "mshape d n r" "tents T = tents l @ e # tents r"
  proof -
    have "mshape d n l \<and> mshape d n r \<and> tents T = tents l @ e # tents r"
    proof (cases n)
      case 0
      then have "cs = []" using assms(1) T by simp
      then show ?thesis using 0 len assms(3) z ents by (simp add: lr T memMaxKeys_def)
    next
      case (Suc n')
      then have C: "length cs = Suc (length ks)" "\<forall>c\<in>set cs. mshape d n' c \<and> d - 1 \<le> length (tkeys c)"
        using assms(1) T by simp_all
      have sub: "\<forall>c\<in>set (take d cs). mshape d n' c \<and> d - 1 \<le> length (tkeys c)"
        "\<forall>c\<in>set (drop d cs). mshape d n' c \<and> d - 1 \<le> length (tkeys c)"
        using C(2) by (auto dest: in_set_takeD in_set_dropD)
      have split: "inter (es1 @ x # es2) (cs1 @ cs2) = inter es1 cs1 @ x # inter es2 cs2"
        if "length cs1 = Suc (length es1)" "cs2 \<noteq> []" for es1 es2 :: "('a \<times> 'b) list" and x cs1 cs2
        using that
      proof (induction es1 cs1 rule: inter.induct)
        case (2 c cs1)
        then show ?case by (cases cs2) simp_all
      qed auto
      have "tents T = inter (take (d - 1) (zip ks vs) @ e # drop d (zip ks vs)) (take d (map tents cs) @ drop d (map tents cs))"
        using z by (simp add: T)
      also have "\<dots> = tents l @ e # tents r"
        unfolding ents by (rule split) (use C(1) len assms(3) in simp_all)
      finally have "tents T = tents l @ e # tents r" .
      then show ?thesis
        using sub C(1) len assms(3) Suc by (simp add: lr memMaxKeys_def)
    qed
    then show "mshape d n l" "mshape d n r" "tents T = tents l @ e # tents r" by blast+
  qed
qed

lemma ordered_keys:
  assumes "mshape d n (MT ks vs cs)" "ordered (tents (MT ks vs cs))"
  shows "sorted_wrt (<) ks"
proof -
  have sub: "sorted_wrt P (map fst (inter es ds)) \<Longrightarrow> length ds = Suc (length es) \<Longrightarrow> sorted_wrt P (map fst es)"
    for P and es :: "('a \<times> 'b) list" and ds
  proof (induction es ds rule: inter.induct)
    case (3 e es c ds)
    have "set es \<subseteq> set (inter es ds)" if "length ds = Suc (length es)" for es :: "('a \<times> 'b) list" and ds
      using that by (induction es ds rule: inter.induct) auto
    then show ?case using 3 by (auto simp: sorted_wrt_append)
  qed auto
  have len: "length vs = length ks" using mshape_lengths [OF assms(1)] by simp
  show ?thesis
  proof (cases n)
    case 0
    then show ?thesis using assms len by simp
  next
    case (Suc n')
    then have "length (map tents cs) = Suc (length (zip ks vs))" using assms(1) len by simp
    then show ?thesis using sub [of "(<)" "zip ks vs" "map tents cs"] assms(2) len by simp
  qed
qed

lemma zip_update_value: "i < length ks \<Longrightarrow> zip ks (vs[i := v]) = (zip ks vs)[i := (ks ! i, v)]"
  using update_zip [of ks vs i "(ks ! i, v)"] by simp

lemma zip_insertAt:
  "length ks = length vs \<Longrightarrow> i \<le> length ks \<Longrightarrow> zip (insertAt ks i k) (insertAt vs i v) = insertAt (zip ks vs) i (k, v)"
  by (simp add: insertAt_def take_zip drop_zip)

lemma insertAt_update_same: "i \<le> length xs \<Longrightarrow> (insertAt xs i x)[i := y] = insertAt xs i y"
  by (simp add: insertAt_def list_update_append)

lemma upd_list_same: "ordered (ls @ (k, w) # rs) \<Longrightarrow> upd_list k v (ls @ (k, w) # rs) = ls @ (k, v) # rs"
  by (induction ls) auto

lemma map_of_same: "ordered (ls @ (k, w) # rs) \<Longrightarrow> map_of (ls @ (k, w) # rs) k = Some w"
  by (induction ls) auto

text \<open>Changing an entry in place leaves what is before and after it.\<close>

lemma inter_entry:
  "i < length es \<Longrightarrow> cs = [] \<or> length cs = Suc (length es) \<Longrightarrow> \<exists>ls rs. \<forall>e. inter (es[i := e]) cs = ls @ e # rs"
proof (induction es cs arbitrary: i rule: inter.induct)
  case (1 es)
  then have "\<forall>e. es[i := e] = take i es @ e # drop (Suc i) es" by (simp add: upd_conv_take_nth_drop)
  then show ?case by auto
next
  case (3 e es c cs)
  show ?case
  proof (cases i)
    case 0
    then show ?thesis by (intro exI [of _ c] exI [of _ "inter es cs"]) simp
  next
    case (Suc j)
    have "length cs = Suc (length es)" using 3 by simp
    then obtain ls rs where "\<forall>e. inter (es[j := e]) cs = ls @ e # rs" using 3 Suc by fastforce
    then show ?thesis
      using Suc by (intro exI [of _ "c @ e # ls"] exI [of _ rs]) simp
  qed
qed simp

lemma replace_value_ok:
  assumes "mshape d n (MT ks vs cs)" "ordered (tents (MT ks vs cs))" "i < length ks" "ks ! i = k"
  shows "tents (MT ks (vs[i := v]) cs) = upd_list k v (tents (MT ks vs cs)) \<and>
    map_of (tents (MT ks vs cs)) k = Some (vs ! i) \<and> mshape d n (MT ks (vs[i := v]) cs)"
proof -
  let ?es = "zip ks vs" and ?cs = "map tents cs"
  have len: "length vs = length ks" using mshape_lengths [OF assms(1)] by simp
  have "?cs = [] \<or> length ?cs = Suc (length ?es)" using assms(1) len by (cases n) auto
  then obtain ls rs where lr: "\<forall>e. inter (?es[i := e]) ?cs = ls @ e # rs"
    using inter_entry [of i ?es ?cs] assms(3) len by auto
  have "inter ?es ?cs = ls @ ?es ! i # rs" using lr [rule_format, of "?es ! i"] by (simp only: list_update_id)
  then have old: "tents (MT ks vs cs) = ls @ (k, vs ! i) # rs" using assms(3,4) len by simp
  have new: "tents (MT ks (vs[i := v]) cs) = ls @ (k, v) # rs"
    using lr assms(3,4) by (simp add: zip_update_value)
  note o = assms(2) [unfolded old]
  have "mshape d n (MT ks (vs[i := v]) cs)" using assms(1) by (cases n) simp_all
  then show ?thesis unfolding old new using upd_list_same [OF o] map_of_same [OF o] by simp
qed

text \<open>The entries of a node around child \<open>i\<close>, for the key routed there.\<close>

lemma routed:
  assumes "mshape d (Suc n) (MT ks vs cs)" "ordered (tents (MT ks vs cs))" "i = krank ks k"
    and "\<not> (i < length ks \<and> ks ! i = k)"
  defines "ls \<equiv> entsBefore i (zip ks vs) (map tents cs)" and "rs \<equiv> entsAfter i (zip ks vs) (map tents cs)"
  shows "tents (MT ks vs cs) = ls @ tents (cs ! i) @ rs"
    "tents (MT ks vs (cs[i := c])) = ls @ tents c @ rs"
    "tents (MT (insertAt ks i (fst e)) (insertAt vs i (snd e)) (insertAt (cs[i := l]) (Suc i) r)) = ls @ tents l @ e # tents r @ rs"
    "\<forall>x\<in>fst ` set ls. x < k" "\<forall>x\<in>fst ` set rs. k < x" "ordered (tents (cs ! i))" "i < length cs"
proof -
  let ?es = "zip ks vs" and ?cs = "map tents cs"
  have len: "length vs = length ks" "length cs = Suc (length ks)" using assms(1) by simp_all
  then have l: "length ?cs = Suc (length ?es)" by simp
  have i: "i \<le> length ?es" "i < length cs" using assms(3) len by (simp_all add: le_imp_less_Suc)
  show "i < length cs" by (rule i(2))
  have o: "ordered (inter ?es ?cs)" using assms(2) by simp
  show "tents (MT ks vs cs) = ls @ tents (cs ! i) @ rs"
    using inter_child [OF l i(1)] i(2) by (simp add: ls_def rs_def)
  show "tents (MT ks vs (cs[i := c])) = ls @ tents c @ rs"
    using inter_child_update [OF l i(1)] by (simp add: ls_def rs_def map_update)
  have "map tents (insertAt (cs[i := l]) (Suc i) r) = insertAt ((map tents cs)[i := tents l]) (Suc i) (tents r)"
    by (simp add: insertAt_def map_update take_map [symmetric] drop_map [symmetric])
  then show "tents (MT (insertAt ks i (fst e)) (insertAt vs i (snd e)) (insertAt (cs[i := l]) (Suc i) r)) =
      ls @ tents l @ e # tents r @ rs"
    using inter_child_split [OF l i(1), of e "tents l" "tents r"] i(1) len
    by (simp add: zip_insertAt ls_def rs_def)
  have b: "0 < i \<Longrightarrow> fst (?es ! (i - 1)) < k"
  proof -
    assume "0 < i"
    then have "i - 1 < length ks" using i(1) len by auto
    moreover have "ks ! (i - 1) < k" using krank_below [of "i - 1" ks k] \<open>0 < i\<close> assms(3) by simp
    ultimately show ?thesis using len by simp
  qed
  have a: "i < length ?es \<Longrightarrow> k < fst (?es ! i)"
    using krank_above [of ks k] assms(3,4) len by simp
  note A = around_child [OF l i(1) o b a]
  show "\<forall>x\<in>fst ` set ls. x < k" using A(1) by (simp add: ls_def)
  show "\<forall>x\<in>fst ` set rs. k < x" using A(2) by (simp add: rs_def)
  show "ordered (tents (cs ! i))" using A(3) i(2) by simp
qed

lemma insertAt_set: "i \<le> length xs \<Longrightarrow> set (insertAt (xs[j := l]) i r) \<subseteq> insert r (insert l (set xs))"
  using set_update_subset_insert [of xs j l] by auto

lemma leaf_insert_ok:
  assumes "length vs = length ks" "ordered (zip ks vs)" "i = krank ks k" "\<not> (i < length ks \<and> ks ! i = k)"
  shows "zip (insertAt ks i k) (insertAt vs i v) = upd_list k v (zip ks vs)" "map_of (zip ks vs) k = None"
proof -
  let ?es = "zip ks vs"
  have i: "i \<le> length ks" using assms(3) by simp
  have e: "?es = take i ?es @ [] @ drop i ?es" by simp
  have lo: "\<forall>x\<in>fst ` set (take i ?es). x < k"
  proof
    fix x
    assume "x \<in> fst ` set (take i ?es)"
    then obtain j where "j < i" "x = ks ! j" using assms(1) by (auto simp: in_set_conv_nth)
    then show "x < k" using krank_below [of j ks k] assms(3) by simp
  qed
  have hi: "\<forall>x\<in>fst ` set (drop i ?es). k < x"
  proof
    fix x
    assume "x \<in> fst ` set (drop i ?es)"
    then obtain j where "j < length (drop i ?es)" "x = fst (drop i ?es ! j)" by (auto simp: in_set_conv_nth)
    then have j: "i + j < length ks" "x = ks ! (i + j)" using assms(1) by simp_all
    have "k < ks ! i" using krank_above [of ks k] assms(3,4) j(1) by simp
    moreover have "ks ! i \<le> ks ! (i + j)"
      using assms(1,2) j(1) by (cases j) (auto simp: sorted_wrt_iff_nth_less less_imp_le)
    ultimately show "k < x" using j(2) by simp
  qed
  show "zip (insertAt ks i k) (insertAt vs i v) = upd_list k v (zip ks vs)"
    using upd_list_between [OF lo hi, of v "[]"] assms(1) i by (simp add: zip_insertAt) (simp add: insertAt_def)
  show "map_of (zip ks vs) k = None"
    using map_of_between [OF lo hi, of "[]"] by simp
qed

theorem pins_ok:
  assumes "mshape d n T" "2 \<le> d" "length (tkeys T) < memMaxKeys d" "ordered (tents T)" "pins n d k v T = (old, T')"
  shows "tents T' = upd_list k v (tents T) \<and> old = map_of (tents T) k \<and> mshape d n T' \<and>
    length (tkeys T) \<le> length (tkeys T')"
  using assms
proof (induction n arbitrary: T T' old)
  case 0
  obtain ks vs where T: "T = MT ks vs []" using "0.prems"(1) by (cases T) auto
  have len: "length vs = length ks" using "0.prems"(1) T by simp
  let ?i = "krank ks k"
  show ?case
  proof (cases "?i < length ks \<and> ks ! ?i = k")
    case True
    have "old = Some (vs ! ?i)" "T' = MT ks (vs[?i := v]) []"
      using "0.prems"(5) True by (simp_all add: T Let_def)
    then show ?thesis
      using replace_value_ok [of d 0 ks vs "[]" ?i k v] "0.prems"(1,4) True by (auto simp: T)
  next
    case False
    have "old = None" "T' = MT (insertAt ks ?i k) (insertAt vs ?i v) []"
      using "0.prems"(5) False by (auto simp: T Let_def)
    then show ?thesis
      using leaf_insert_ok(1) [of vs ks ?i k v] leaf_insert_ok(2) [of vs ks ?i k, symmetric] False len "0.prems"(3,4) by (simp add: T)
  qed
next
  case (Suc n)
  obtain ks vs cs where T: "T = MT ks vs cs" by (cases T)
  let ?i = "krank ks k"
  have sh: "mshape d (Suc n) (MT ks vs cs)" and o: "ordered (tents (MT ks vs cs))"
    using Suc.prems(1,4) T by simp_all
  have len: "length vs = length ks" "length cs = Suc (length ks)" using sh by simp_all
  have kids: "mshape d n c" "d - 1 \<le> length (tkeys c)" if "c \<in> set cs" for c using sh that by auto
  show ?case
  proof (cases "?i < length ks \<and> ks ! ?i = k")
    case True
    have "old = Some (vs ! ?i)" "T' = MT ks (vs[?i := v]) cs"
      using Suc.prems(5) True by (simp_all add: T Let_def)
    then show ?thesis
      using replace_value_ok [OF sh o, of ?i k v] True by (auto simp: T simp del: tents.simps)
  next
    case False
    note R = routed [OF sh o refl False]
    let ?c = "cs ! ?i"
    have c: "?c \<in> set cs" using R(7) by simp
    define ls rs where "ls = entsBefore ?i (zip ks vs) (map tents cs)" and "rs = entsAfter ?i (zip ks vs) (map tents cs)"
    note R = R [folded ls_def rs_def]
    have ents: "tents T = ls @ tents ?c @ rs" using R(1) T by simp
    show ?thesis
    proof (cases "length (tkeys ?c) = memMaxKeys d")
      case full: True
      obtain l mk mv r where s: "tsplit (d - 1) ?c = (l, (mk, mv), r)" by (metis surj_pair)
      note S = tents_split [OF kids(1) [OF c] full Suc.prems(2) s]
      let ?ks = "insertAt ks ?i mk" and ?vs = "insertAt vs ?i mv"
      have step: "(if k = mk then (Some mv, MT ?ks (?vs[?i := v]) (insertAt (cs[?i := l]) (Suc ?i) r))
          else if mk < k then
            (case pins n d k v r of (o', r') \<Rightarrow> (o', MT ?ks ?vs (insertAt (cs[?i := l]) (Suc ?i) r')))
          else
            (case pins n d k v l of (o', l') \<Rightarrow> (o', MT ?ks ?vs (insertAt (cs[?i := l']) (Suc ?i) r)))) = (old, T')"
        using Suc.prems(5)
        by (simp only: pins.simps T mtree.sel Let_def if_not_P [OF False] if_P [OF full] s prod.case)
      have node: "mshape d (Suc n) (MT ?ks (insertAt vs ?i w) (insertAt (cs[?i := l']) (Suc ?i) r'))"
        if "mshape d n l'" "d - 1 \<le> length (tkeys l')" "mshape d n r'" "d - 1 \<le> length (tkeys r')" for w l' r'
        using insertAt_set [of "Suc ?i" cs ?i l' r'] that kids len Suc.prems(3) by (fastforce simp: T)
      have room: "length (tkeys l) < memMaxKeys d" "length (tkeys r) < memMaxKeys d"
        using S(3,4) Suc.prems(2) by (simp_all add: memMaxKeys_def)
      have oc: "ordered (tents l @ (mk, mv) # tents r)" using R(6) S(5) by simp
      then have os: "ordered (tents l)" "ordered (tents r)"
        "\<forall>x\<in>fst ` set (tents l). x < mk" "\<forall>x\<in>fst ` set (tents r). mk < x"
        by (simp_all add: sorted_wrt_append)
      consider "k = mk" | "mk < k" | "k < mk" by (metis linorder_cases)
      then show ?thesis
      proof cases
        case 1
        have res: "old = Some mv" "T' = MT ?ks (insertAt vs ?i v) (insertAt (cs[?i := l]) (Suc ?i) r)"
          using step 1 len by (simp_all add: insertAt_update_same)
        have t: "tents T' = (ls @ tents l) @ (k, v) # tents r @ rs"
          using R(3) [of "(mk, v)" l r] res 1 by (simp del: tents.simps)
        have t0: "tents T = (ls @ tents l) @ (k, mv) # tents r @ rs" using ents S(5) 1 by simp
        note o' = Suc.prems(4) [unfolded t0]
        show ?thesis
          unfolding t t0 upd_list_same [OF o'] map_of_same [OF o']
          using res node [of l r v] S by (simp add: T len)
      next
        case 2
        obtain o' r' where p: "pins n d k v r = (o', r')" by (metis surj_pair)
        note IH = Suc.IH [OF S(2) Suc.prems(2) room(2) os(2) p]
        have res: "old = o'" "T' = MT ?ks ?vs (insertAt (cs[?i := l]) (Suc ?i) r')"
          using step p by (simp_all add: less_imp_not_eq2 [OF 2] 2)
        have t: "tents T' = (ls @ tents l @ [(mk, mv)]) @ tents r' @ rs"
          using R(3) [of "(mk, mv)" l r'] res by (simp del: tents.simps)
        have t0: "tents T = (ls @ tents l @ [(mk, mv)]) @ tents r @ rs" using ents S(5) by simp
        have lo: "\<forall>x\<in>fst ` set (ls @ tents l @ [(mk, mv)]). x < k"
          using R(4) os(3) 2 by (auto intro: less_trans)
        show ?thesis
          unfolding t t0 upd_list_between [OF lo R(5)] map_of_between [OF lo R(5)]
          using res node [of l r' mv] S IH by (simp add: T len)
      next
        case 3
        obtain o' l' where p: "pins n d k v l = (o', l')" by (metis surj_pair)
        note IH = Suc.IH [OF S(1) Suc.prems(2) room(1) os(1) p]
        have res: "old = o'" "T' = MT ?ks ?vs (insertAt (cs[?i := l']) (Suc ?i) r)"
          using step p by (simp_all add: less_imp_not_eq [OF 3] less_not_sym [OF 3])
        have t: "tents T' = ls @ tents l' @ ((mk, mv) # tents r @ rs)"
          using R(3) [of "(mk, mv)" l' r] res by (simp del: tents.simps)
        have t0: "tents T = ls @ tents l @ ((mk, mv) # tents r @ rs)" using ents S(5) by simp
        have hi: "\<forall>x\<in>fst ` set ((mk, mv) # tents r @ rs). k < x"
          using R(5) os(4) 3 by (auto intro: less_trans)
        show ?thesis
          unfolding t t0 upd_list_between [OF R(4) hi] map_of_between [OF R(4) hi]
          using res node [of l' r mv] S IH by (simp add: T len)
      qed
    next
      case notfull: False
      have room: "length (tkeys ?c) < memMaxKeys d"
        using notfull kids(1) [OF c] mshape_lengths [of d n "tkeys ?c" "tvals ?c" "tkids ?c"] by simp
      obtain o' c' where p: "pins n d k v ?c = (o', c')" by (metis surj_pair)
      note IH = Suc.IH [OF kids(1) [OF c] Suc.prems(2) room R(6) p]
      have res: "old = o'" "T' = MT ks vs (cs[?i := c'])"
        using Suc.prems(5) by (simp_all only: pins.simps T mtree.sel Let_def if_not_P [OF False] if_not_P [OF notfull] p prod.case prod.inject)
      have "\<forall>x\<in>set (cs[?i := c']). mshape d n x \<and> d - 1 \<le> length (tkeys x)"
        using set_update_subset_insert [of cs ?i c'] kids kids(2) [OF c] IH by auto
      then have "mshape d (Suc n) T'" using sh res by simp
      moreover have "tents T' = ls @ tents c' @ rs" using R(2) res by (simp del: tents.simps)
      ultimately show ?thesis
        unfolding ents using IH res upd_list_between [OF R(4,5)] map_of_between [OF R(4,5)]
        by (simp add: T)
    qed
  qed
qed

end
