(* ===== verification/MemTreeCorrect.thy ===== *)
theory MemTreeCorrect
  imports MemTreeSpec
begin

text \<open>
  The heap implements the trees as values: \<open>mrep hn a T\<close> says that address \<open>a\<close> holds tree \<open>T\<close>, with
  any sharing.  A heap that only grew (\<open>\<subseteq>\<^sub>m\<close>) still holds it, which is what a snapshot needs;
  \<open>insertNonFull_sim\<close> says that insertion computes \<open>pins\<close> and writes to no node that was there
  before.
\<close>

section \<open>What an address holds\<close>

type_synonym ('k, 'v) nodes = "addr \<Rightarrow> ('k, 'v) mnode option"

definition nodeOf :: "('k, 'v) mtree \<Rightarrow> addr list \<Rightarrow> ('k, 'v) mnode" where
  "nodeOf T as = \<lparr>mn_leaf = (tkids T = []), mn_keys = tkeys T, mn_values = tvals T, mn_children = as\<rparr>"

lemma nodeOf_sel [simp]:
  "mn_leaf (nodeOf T as) = (tkids T = [])" "mn_keys (nodeOf T as) = tkeys T"
  "mn_values (nodeOf T as) = tvals T" "mn_children (nodeOf T as) = as"
  by (simp_all add: nodeOf_def)

fun mrep :: "('k, 'v) nodes \<Rightarrow> addr \<Rightarrow> ('k, 'v) mtree \<Rightarrow> bool" where
  "mrep hn a (MT ks vs cs) \<longleftrightarrow> (\<exists>as. hn a = Some (nodeOf (MT ks vs cs) as) \<and> list_all2 (mrep hn) as cs)"

declare mrep.simps [simp del]

lemma mrep_iff: "mrep hn a T \<longleftrightarrow> (\<exists>as. hn a = Some (nodeOf T as) \<and> list_all2 (mrep hn) as (tkids T))"
  by (cases T) (simp add: mrep.simps)

lemma mrepI: "hn a = Some (nodeOf T as) \<Longrightarrow> list_all2 (mrep hn) as (tkids T) \<Longrightarrow> mrep hn a T"
  by (subst mrep_iff) blast

lemma mrep_mono: "mrep hn a T \<Longrightarrow> hn \<subseteq>\<^sub>m hn' \<Longrightarrow> mrep hn' a T"
proof (induction T arbitrary: a)
  case (MT ks vs cs)
  then obtain as where as: "hn a = Some (nodeOf (MT ks vs cs) as)" "list_all2 (mrep hn) as cs"
    by (auto simp: mrep.simps)
  have "list_all2 (mrep hn') as cs"
    using as(2) by (rule list.rel_mono_strong) (use MT in blast)
  moreover have "hn' a = Some (nodeOf (MT ks vs cs) as)"
    using as(1) MT.prems(2) by (metis domI map_le_def)
  ultimately show ?case by (auto simp: mrep.simps)
qed

lemma all_mrep_mono: "list_all2 (mrep hn) as cs \<Longrightarrow> hn \<subseteq>\<^sub>m hn' \<Longrightarrow> list_all2 (mrep hn') as cs"
  by (erule list_all2_mono) (rule mrep_mono)

text \<open>Address \<open>a\<close> is new: its children are represented in the older nodes \<open>h0\<close>, and it is not.\<close>

definition fresh :: "('k, 'v) nodes \<Rightarrow> ('k, 'v) mheap \<Rightarrow> addr \<Rightarrow> ('k, 'v) mtree \<Rightarrow> bool" where
  "fresh h0 h a T \<longleftrightarrow> h0 a = None \<and>
     (\<exists>as. hp_nodes h a = Some (nodeOf T as) \<and> list_all2 (mrep h0) as (tkids T))"

definition heapOk :: "('k, 'v) mheap \<Rightarrow> bool" where
  "heapOk h \<longleftrightarrow> (\<forall>a\<in>dom (hp_nodes h). a < hp_next h)"

lemma fresh_mrep: "fresh h0 h a T \<Longrightarrow> h0 \<subseteq>\<^sub>m hp_nodes h \<Longrightarrow> mrep (hp_nodes h) a T"
  unfolding fresh_def by (subst mrep_iff) (blast intro: all_mrep_mono)

lemma map_le_upd: "h0 \<subseteq>\<^sub>m hn \<Longrightarrow> h0 a = None \<Longrightarrow> h0 \<subseteq>\<^sub>m hn(a \<mapsto> n)"
  by (auto simp: map_le_def)

lemma map_le_None: "h0 \<subseteq>\<^sub>m hn \<Longrightarrow> hn a = None \<Longrightarrow> h0 a = None"
  by (metis domIff map_le_def)

lemma next_free: "heapOk h \<Longrightarrow> hp_nodes h (hp_next h) = None"
  by (auto simp: heapOk_def)

lemma alloc_facts:
  assumes "heapOk h" "alloc h n = (a, h')"
  shows "a = hp_next h" "heapOk h'" "hp_nodes h' = (hp_nodes h)(a \<mapsto> n)" "hp_nodes h \<subseteq>\<^sub>m hp_nodes h'" "hp_nodes h a = None"
  using assms next_free [OF assms(1)]
  by (auto simp: alloc_def heapOk_def map_le_def less_Suc_eq)

lemma store_nodes [simp]: "hp_nodes (store h a n) = (hp_nodes h)(a \<mapsto> n)" "hp_next (store h a n) = hp_next h"
  by (simp_all add: store_def)

lemma store_heapOk: "heapOk h \<Longrightarrow> hp_nodes h a \<noteq> None \<Longrightarrow> heapOk (store h a n)"
  by (auto simp: heapOk_def)

section \<open>Reading\<close>

lemma memSearchNode_ok:
  assumes "mrep (hp_nodes h) a T" "mshape d n T" "ordered (tents T)"
  shows "memSearchNode h (Some a) k = Some (map_of (tents T) k)"
  using assms
proof (induction n arbitrary: a T)
  case 0
  obtain ks vs where T: "T = MT ks vs []" using 0 by (cases T) auto
  have nd: "hp_nodes h a = Some (nodeOf T [])" using 0(1) by (auto simp: mrep_iff T)
  have srt: "sorted_wrt (<) ks" and len: "length vs = length ks" using 0 T ordered_keys [of d 0 ks vs "[]"] by auto
  note B = binarySearch_krank [OF srt, of k]
  show ?case
  proof (cases "krank ks k < length ks \<and> ks ! krank ks k = k")
    case True
    then show ?thesis
      using nd B len replace_value_ok [of d 0 ks vs "[]" "krank ks k" k] 0
      by (subst memSearchNode.simps) (simp add: T)
  next
    case False
    then show ?thesis
      using nd B leaf_insert_ok(2) [of vs ks "krank ks k" k, symmetric] len 0(3)
      by (subst memSearchNode.simps) (auto simp: T)
  qed
next
  case (Suc n)
  obtain ks vs cs where T: "T = MT ks vs cs" by (cases T)
  have sh: "mshape d (Suc n) (MT ks vs cs)" and o: "ordered (tents (MT ks vs cs))" using Suc.prems T by simp_all
  obtain as where nd: "hp_nodes h a = Some (nodeOf T as)" "list_all2 (mrep (hp_nodes h)) as cs"
    using Suc.prems(1) by (auto simp: mrep_iff T)
  have srt: "sorted_wrt (<) ks" using ordered_keys [OF sh o] .
  have len: "length vs = length ks" "length cs = Suc (length ks)" "cs \<noteq> []" using sh by auto
  let ?i = "krank ks k"
  note B = binarySearch_krank [OF srt, of k]
  show ?case
  proof (cases "?i < length ks \<and> ks ! ?i = k")
    case True
    then show ?thesis
      using nd(1) B len replace_value_ok [OF sh o, of ?i k]
      by (subst memSearchNode.simps) (simp add: T del: tents.simps)
  next
    case False
    note R = routed [OF sh o refl False]
    have i: "?i < length as" "mrep (hp_nodes h) (as ! ?i) (cs ! ?i)"
      using nd(2) R(7) list_all2_lengthD [OF nd(2)] by (simp_all add: list_all2_nthD2)
    have c: "mshape d n (cs ! ?i)" using sh R(7) by simp
    have "memSearchNode h (Some a) k = memSearchNode h (Some (as ! ?i)) k"
      using nd(1) B len i(1) False by (subst memSearchNode.simps) (auto simp: T)
    also have "\<dots> = Some (map_of (tents (cs ! ?i)) k)" by (rule Suc.IH [OF i(2) c R(6)])
    also have "map_of (tents (cs ! ?i)) k = map_of (tents T) k"
      unfolding T R(1) using map_of_between [OF R(4,5)] by simp
    finally show ?thesis .
  qed
qed

text \<open>A visit of entries, until the visitor stops.\<close>

fun memVisit :: "('s \<Rightarrow> 'k \<Rightarrow> 'v \<Rightarrow> 's \<times> bool) \<Rightarrow> 's \<Rightarrow> ('k \<times> 'v) list \<Rightarrow> 's \<times> bool" where
  "memVisit visit s [] = (s, True)"
| "memVisit visit s (e # es) = (case visit s (fst e) (snd e) of (s', ok) \<Rightarrow> if ok then memVisit visit s' es else (s', False))"

lemma memVisit_append:
  "memVisit visit s (xs @ ys) = (case memVisit visit s xs of (s', ok) \<Rightarrow> if ok then memVisit visit s' ys else (s', False))"
  by (induction xs arbitrary: s) (auto split: prod.split)

definition stopped :: "'s \<times> bool \<Rightarrow> 's \<times> bool option" where
  "stopped r = (fst r, if snd r then None else Some False)"

text \<open>A loop whose body visits a segment of entries visits their concatenation.\<close>

lemma loopM_memVisit:
  assumes "\<And>s j. j \<in> set js \<Longrightarrow> f s j = Some (stopped (memVisit visit s (seg j)))"
  shows "loopM f s js = Some (stopped (memVisit visit s (concat (map seg js))))"
  using assms
proof (induction js arbitrary: s)
  case (Cons j js)
  obtain s' ok where v: "memVisit visit s (seg j) = (s', ok)" by (metis surj_pair)
  have "f s j = Some (s', if ok then None else Some False)"
    using Cons.prems [of j s] v by (simp add: stopped_def)
  then show ?case
    using Cons.IH [of s'] Cons.prems v by (cases ok) (simp_all add: memVisit_append stopped_def)
qed (simp add: stopped_def)

lemma entsBefore_concat:
  "i \<le> length es \<Longrightarrow> i \<le> length cs \<Longrightarrow> entsBefore i es cs = concat (map (\<lambda>j. cs ! j @ [es ! j]) [0..<i])"
  unfolding entsBefore_def by (intro arg_cong [of _ _ concat] nth_equalityI) simp_all

lemma memRangeNode_ok:
  assumes "mrep (hp_nodes h) a T" "mshape d n T"
  shows "memRangeNode h (Some a) visit s = Some (memVisit visit s (tents T))"
  using assms
proof (induction n arbitrary: a T s)
  case 0
  obtain ks vs where T: "T = MT ks vs []" using 0 by (cases T) auto
  have nd: "hp_nodes h a = Some (nodeOf T [])" using 0(1) by (auto simp: mrep_iff T)
  have len: "length vs = length ks" using 0 T by simp
  let ?es = "zip ks vs"
  have "concat (map (\<lambda>j. [?es ! j]) [0..<length ks]) = ?es"
    using len map_nth [of ?es] by (simp add: concat_map_singleton)
  then have L: "loopM (\<lambda>s i. do {
        (s1, ok) \<leftarrow> Some (s, True);
        (if \<not> ok then Some (s1, Some False)
         else do {
           check (i < length vs);
           let (s2, ok) = visit s1 (ks ! i) (vs ! i);
           Some (s2, if ok then None else Some False)
         })
      }) s [0..<length ks] = Some (stopped (memVisit visit s ?es))"
    using len
    by (subst loopM_memVisit [of _ _ visit "\<lambda>j. [?es ! j]"]) (auto simp: stopped_def split: prod.split)
  obtain s' ok where v: "memVisit visit s ?es = (s', ok)" by (metis surj_pair)
  show ?case
    using nd L v by (subst memRangeNode.simps) (cases ok; simp add: T stopped_def cong: if_cong)
next
  case (Suc n)
  obtain ks vs cs where T: "T = MT ks vs cs" by (cases T)
  have sh: "mshape d (Suc n) (MT ks vs cs)" using Suc.prems T by simp
  obtain as where nd: "hp_nodes h a = Some (nodeOf T as)" "list_all2 (mrep (hp_nodes h)) as cs"
    using Suc.prems(1) by (auto simp: mrep_iff T)
  have len: "length vs = length ks" "length cs = Suc (length ks)" "cs \<noteq> []" "length as = Suc (length ks)"
    using sh list_all2_lengthD [OF nd(2)] by auto
  let ?es = "zip ks vs" and ?seg = "\<lambda>j. tents (cs ! j) @ [zip ks vs ! j]"
  have kid: "memRangeNode h (Some (as ! j)) visit s = Some (memVisit visit s (tents (cs ! j)))"
    if "j \<le> length ks" for j s
  proof (rule Suc.IH)
    show "mrep (hp_nodes h) (as ! j) (cs ! j)" using nd(2) that len by (simp add: list_all2_nthD2)
    show "mshape d n (cs ! j)" using sh that len(2) by simp
  qed
  have L: "loopM (\<lambda>s i. Option.bind (Option.bind (check (i < length as)) (\<lambda>_. memRangeNode h (Some (as ! i)) visit s))
        (\<lambda>(s1, ok). if \<not> ok then Some (s1, Some False)
          else Option.bind (check (i < length vs)) (\<lambda>_.
            let (s2, ok) = visit s1 (ks ! i) (vs ! i) in Some (s2, if ok then None else Some False)))) s [0..<length ks] = Some (stopped (memVisit visit s (concat (map ?seg [0..<length ks]))))"
    using len kid
    by (intro loopM_memVisit) (auto simp: stopped_def memVisit_append split: prod.split)
  have b: "entsBefore (length ks) ?es (map tents cs) = concat (map ?seg [0..<length ks])"
    using len by (subst entsBefore_concat) (auto intro!: arg_cong [of _ _ concat])
  have "inter ?es (map tents cs) = entsBefore (length ks) ?es (map tents cs) @ map tents cs ! length ks @
      entsAfter (length ks) ?es (map tents cs)"
    by (rule inter_child) (simp_all add: len)
  moreover have "entsAfter (length ks) ?es (map tents cs) = []" by (simp add: entsAfter_def len)
  moreover have "map tents cs ! length ks = tents (cs ! length ks)" by (simp add: len)
  ultimately have "tents T = concat (map ?seg [0..<length ks]) @ tents (cs ! length ks)"
    unfolding b T tents.simps by (simp only: append_Nil2)
  then have t: "memVisit visit s (tents T) = (case memVisit visit s (concat (map ?seg [0..<length ks])) of
      (s', ok) \<Rightarrow> if ok then memVisit visit s' (tents (cs ! length ks)) else (s', False))"
    by (simp add: memVisit_append)
  obtain s' ok where v: "memVisit visit s (concat (map ?seg [0..<length ks])) = (s', ok)"
    by (rule prod.exhaust)
  show ?case
    unfolding t using nd(1) L v kid [of "length ks" s'] len
    by (subst memRangeNode.simps) (cases ok; simp add: T stopped_def cong: if_cong)
qed

lemma memHeight_ok:
  "mrep (hp_nodes h) a T \<Longrightarrow> mshape d n T \<Longrightarrow> memHeight h (Some a) = Some (Suc n)"
proof (induction n arbitrary: a T)
  case 0
  then show ?case by (cases T) (subst memHeight.simps, auto simp: mrep_iff)
next
  case (Suc n)
  obtain ks vs cs where T: "T = MT ks vs cs" by (cases T)
  obtain as where nd: "hp_nodes h a = Some (nodeOf T as)" "list_all2 (mrep (hp_nodes h)) as cs"
    using Suc.prems(1) by (auto simp: mrep_iff T)
  have len: "length cs = Suc (length ks)" "cs \<noteq> []" "as \<noteq> []"
    using Suc.prems(2) nd(2) by (auto simp: T)
  have "mrep (hp_nodes h) (as ! 0) (cs ! 0)" "mshape d n (cs ! 0)"
    using nd(2) len Suc.prems(2) by (simp_all add: T list_all2_nthD2 list_all2_lengthD)
  from Suc.IH [OF this] show ?case
    using nd(1) len by (subst memHeight.simps) (simp add: T)
qed

fun tnodes :: "('k, 'v) mtree \<Rightarrow> nat" where
  "tnodes (MT ks vs cs) = 1 + sum_list (map tnodes cs)"

lemma length_inter: "length cs = Suc (length es) \<Longrightarrow> length (inter es cs) = length es + sum_list (map length cs)"
  by (induction es cs rule: inter.induct) auto

lemma memCount_ok:
  "mrep (hp_nodes h) a T \<Longrightarrow> mshape d n T \<Longrightarrow> memCount h (Some a) = Some (tnodes T, length (tents T))"
proof (induction n arbitrary: a T)
  case 0
  then show ?case by (cases T) (subst memCount.simps, auto simp: mrep_iff)
next
  case (Suc n)
  obtain ks vs cs where T: "T = MT ks vs cs" by (cases T)
  obtain as where nd: "hp_nodes h a = Some (nodeOf T as)" "list_all2 (mrep (hp_nodes h)) as cs"
    using Suc.prems(1) by (auto simp: mrep_iff T)
  have len: "length vs = length ks" "length cs = Suc (length ks)" using Suc.prems(2) by (simp_all add: T)
  have sh: "\<forall>c\<in>set cs. mshape d n c" using Suc.prems(2) by (simp add: T)
  have "list_all2 (\<lambda>a c. memCount h (Some a) = Some (tnodes c, length (tents c))) as cs"
    using nd(2) by (rule list.rel_mono_strong) (use Suc.IH sh in blast)
  then have "mapM (\<lambda>c. memCount h (Some c)) as = Some (map (\<lambda>c. (tnodes c, length (tents c))) cs)"
    by (induction rule: list_all2_induct) simp_all
  then show ?case
    using nd(1) len length_inter [of "map tents cs" "zip ks vs"]
    by (subst memCount.simps) (simp add: T comp_def)
qed

section \<open>Splitting and inserting\<close>

lemma memSplitChild_ok:
  assumes h: "heapOk h" and p: "hp_nodes h p = Some \<lparr>mn_leaf = False, mn_keys = ks, mn_values = vs, mn_children = as\<rparr>"
    and i: "i < length as" "i \<le> length ks" "i \<le> length vs"
    and c: "hp_nodes h (as ! i) = Some (nodeOf T bs)" "as ! i \<noteq> p" and T: "mshape d n T" "length bs = length (tkids T)"
    and full: "length (tkeys T) = memMaxKeys d" "2 \<le> d" and s: "tsplit (d - 1) T = (l, (mk, mv), r)"
  shows "\<exists>h' ls rs. memSplitChild h p i d = Some h' \<and> heapOk h' \<and> ls = take d bs \<and> rs = drop d bs \<and>
    hp_nodes h' = (hp_nodes h)(hp_next h \<mapsto> nodeOf r rs, as ! i \<mapsto> nodeOf l ls,
      p \<mapsto> \<lparr>mn_leaf = False, mn_keys = insertAt ks i mk, mn_values = insertAt vs i mv,
             mn_children = insertAt as (Suc i) (hp_next h)\<rparr>)"
proof -
  obtain kt vt ct where Te: "T = MT kt vt ct" by (cases T)
  have len: "length kt = 2 * d - 1" "length vt = length kt"
    using full(1) mshape_lengths [OF T(1) [unfolded Te]] by (simp_all add: Te memMaxKeys_def)
  have kids: "ct = [] \<or> length ct = Suc (length kt)" using T(1) by (cases n) (simp_all add: Te)
  have lr: "l = MT (take (d - 1) kt) (take (d - 1) vt) (take d ct)" "mk = kt ! (d - 1)" "mv = vt ! (d - 1)"
    "r = MT (drop d kt) (drop d vt) (drop d ct)"
    using s full(2) by (auto simp: tsplit_def Te)
  have m: "d - 1 < length kt" "d - 1 < length vt" using len full(2) by simp_all
  have d2: "Suc (d - Suc 0) = d" using full(2) by simp
  have bs: "ct = [] \<or> d - 1 < length bs" using kids len full(2) T(2) by (auto simp: Te)
  have leafs: "(take d ct = []) = (ct = [])" "(drop d ct = []) = (ct = [])"
    using kids len full(2) by auto
  have nl: "bs = []" if "ct = []" using T(2) that by (simp add: Te)
  let ?right = "\<lparr>mn_leaf = (ct = []), mn_keys = drop d kt, mn_values = drop d vt,
      mn_children = (if ct = [] then [] else drop d bs)\<rparr>"
  have R: "?right = nodeOf r (drop d bs)" using lr leafs nl by (auto simp: nodeOf_def)
  let ?left = "\<lparr>mn_leaf = (ct = []), mn_keys = take (d - 1) kt, mn_values = take (d - 1) vt,
      mn_children = (if ct = [] then bs else take d bs)\<rparr>"
  have L: "?left = nodeOf l (take d bs)" using lr leafs nl by (auto simp: nodeOf_def)
  obtain a h1 where al: "alloc h ?right = (a, h1)" by (metis surj_pair)
  note A = alloc_facts [OF h al]
  have ap: "a \<noteq> p" "as ! i \<noteq> a" using A(5) p c(1) by auto
  let ?h2 = "store h1 (as ! i) ?left"
  let ?p' = "\<lparr>mn_leaf = False, mn_keys = insertAt ks i mk, mn_values = insertAt vs i mv, mn_children = insertAt as (Suc i) a\<rparr>"
  have p2: "hp_nodes ?h2 p = Some \<lparr>mn_leaf = False, mn_keys = ks, mn_values = vs, mn_children = as\<rparr>"
    using A(3) p ap c(2) by simp
  have p1: "hp_nodes h1 p = Some \<lparr>mn_leaf = False, mn_keys = ks, mn_values = vs, mn_children = as\<rparr>"
    using A(3) p ap by simp
  have res: "memSplitChild h p i d = Some (store ?h2 p ?p')"
    unfolding memSplitChild_def
    using p c(1) i al m bs p1 c(2) [symmetric] lr(2,3) d2
    by (cases "ct = []") (simp_all add: nodeOf_def Te Let_def)
  have ok2: "heapOk ?h2" using store_heapOk [OF A(2), of "as ! i"] A(3) c(1) ap(2) by simp
  have "heapOk (store ?h2 p ?p')" using store_heapOk [OF ok2, of p] p2 by simp
  moreover have "hp_nodes (store ?h2 p ?p') = (hp_nodes h)(hp_next h \<mapsto> nodeOf r (drop d bs),
      as ! i \<mapsto> nodeOf l (take d bs), p \<mapsto> ?p')"
    using A(1,3) L R by simp
  ultimately show ?thesis using res A(1) by blast
qed

lemma list_all2_insertAt:
  assumes "list_all2 P as cs" "i \<le> length cs" "P a c"
  shows "list_all2 P (insertAt as i a) (insertAt cs i c)"
  using assms by (auto simp: insertAt_def intro!: list_all2_appendI list_all2_takeI list_all2_dropI)

lemma tsplit_kids:
  assumes "tsplit (d - 1) T = (l, e, r)" "2 \<le> d" "list_all2 P bs (tkids T)"
  shows "list_all2 P (take d bs) (tkids l)" "list_all2 P (drop d bs) (tkids r)"
  using assms by (auto simp: tsplit_def intro: list_all2_takeI list_all2_dropI)

lemma nth_insertAt:
  "i \<le> length xs \<Longrightarrow> insertAt xs i x ! i = x"
  "i < length xs \<Longrightarrow> insertAt xs (Suc i) x ! i = xs ! i"
  "i < length xs \<Longrightarrow> insertAt xs (Suc i) x ! Suc i = x"
  by (simp_all add: insertAt_def nth_append)

text \<open>
  Insertion below a new address: it computes \<open>pins\<close>, writes to that address and to addresses it
  allocates, and to no others.
\<close>

lemma insertNonFull_sim:
  assumes "mshape d n T" "2 \<le> d" "length (tkeys T) < memMaxKeys d" "ordered (tents T)"
    and "heapOk h" "h0 \<subseteq>\<^sub>m hp_nodes h" "fresh h0 h a T" "pins n d k v T = (old, T')"
  shows "\<exists>h'. memInsertNonFull h a k v d = Some (old, h') \<and> heapOk h' \<and> h0 \<subseteq>\<^sub>m hp_nodes h' \<and>
    mrep (hp_nodes h') a T' \<and> (\<forall>b\<in>dom (hp_nodes h). b \<noteq> a \<longrightarrow> hp_nodes h' b = hp_nodes h b)"
  using assms
proof (induction n arbitrary: T T' old h a h0)
  case 0
  obtain ks vs where T: "T = MT ks vs []" using "0.prems"(1) by (cases T) auto
  have len: "length vs = length ks" using "0.prems"(1) T by simp
  have nd: "hp_nodes h a = Some (nodeOf T [])" "h0 a = None"
    using "0.prems"(7) by (auto simp: fresh_def T)
  have srt: "sorted_wrt (<) ks" using ordered_keys [of d 0 ks vs "[]"] "0.prems"(1,4) T by simp
  let ?i = "krank ks k"
  note B = binarySearch_krank [OF srt, of k]
  have fin: ?case if "memInsertNonFull h a k v d = Some (old, store h a (nodeOf T' []))" "tkids T' = []"
  proof -
    have "h0 \<subseteq>\<^sub>m hp_nodes (store h a (nodeOf T' []))"
      using "0.prems"(6) nd(2) by (simp add: map_le_upd)
    moreover have "mrep (hp_nodes (store h a (nodeOf T' []))) a T'"
      using that(2) by (subst mrep_iff) simp
    moreover have "heapOk (store h a (nodeOf T' []))" using store_heapOk [OF "0.prems"(5)] nd(1) by simp
    ultimately show ?thesis using that(1) by auto
  qed
  show ?case
  proof (cases "?i < length ks \<and> ks ! ?i = k")
    case True
    have "old = Some (vs ! ?i)" "T' = MT ks (vs[?i := v]) []"
      using "0.prems"(8) True by (simp_all add: T Let_def)
    then have "memInsertNonFull h a k v d = Some (old, store h a (nodeOf T' []))"
      using nd(1) B True len by (subst memInsertNonFull.simps) (simp add: T nodeOf_def)
    then show ?thesis by (rule fin) (simp add: \<open>T' = _\<close>)
  next
    case False
    have "old = None" "T' = MT (insertAt ks ?i k) (insertAt vs ?i v) []"
      using "0.prems"(8) False by (auto simp: T Let_def)
    then have "memInsertNonFull h a k v d = Some (old, store h a (nodeOf T' []))"
      using nd(1) B False len by (subst memInsertNonFull.simps) (auto simp: T nodeOf_def)
    then show ?thesis by (rule fin) (simp add: \<open>T' = _\<close>)
  qed
next
  case (Suc n)
  obtain ks vs cs where T: "T = MT ks vs cs" by (cases T)
  let ?i = "krank ks k"
  have sh: "mshape d (Suc n) (MT ks vs cs)" and o: "ordered (tents (MT ks vs cs))"
    using Suc.prems(1,4) T by simp_all
  have len: "length vs = length ks" "length cs = Suc (length ks)" "cs \<noteq> []" using sh by auto
  obtain as where nd: "hp_nodes h a = Some (nodeOf T as)" "list_all2 (mrep h0) as cs" and a0: "h0 a = None"
    using Suc.prems(7) by (auto simp: fresh_def T)
  have las: "length as = length cs" using list_all2_lengthD [OF nd(2)] .
  have node: "nodeOf T as = \<lparr>mn_leaf = False, mn_keys = ks, mn_values = vs, mn_children = as\<rparr>"
    using len(3) by (simp add: T nodeOf_def)
  have srt: "sorted_wrt (<) ks" using ordered_keys [OF sh o] .
  note B = binarySearch_krank [OF srt, of k]
  show ?case
  proof (cases "?i < length ks \<and> ks ! ?i = k")
    case True
    have res: "old = Some (vs ! ?i)" "T' = MT ks (vs[?i := v]) cs"
      using Suc.prems(8) True by (simp_all add: T Let_def)
    have m: "memInsertNonFull h a k v d = Some (old, store h a (nodeOf T' as))"
      using nd(1) B True len res by (subst memInsertNonFull.simps) (simp add: T nodeOf_def)
    have "h0 \<subseteq>\<^sub>m hp_nodes (store h a (nodeOf T' as))"
      using Suc.prems(6) a0 by (simp add: map_le_upd)
    moreover from all_mrep_mono [OF nd(2) this] have "mrep (hp_nodes (store h a (nodeOf T' as))) a T'"
      using res(2) by (intro mrepI) simp_all
    moreover have "heapOk (store h a (nodeOf T' as))" using store_heapOk [OF Suc.prems(5)] nd(1) by simp
    ultimately show ?thesis using m by auto
  next
    case False
    note R = routed [OF sh o refl False]
    let ?c = "cs ! ?i"
    have i: "?i < length as" "?i \<le> length ks" "?i \<le> length vs" using R(7) las len by simp_all
    have c: "mshape d n ?c" using sh R(7) by simp
    have "mrep h0 (as ! ?i) ?c" using nd(2) R(7) las by (simp add: list_all2_nthD2)
    then obtain bs where bs: "h0 (as ! ?i) = Some (nodeOf ?c bs)" "list_all2 (mrep h0) bs (tkids ?c)"
      by (subst (asm) mrep_iff) blast
    then have old_c: "hp_nodes h (as ! ?i) = Some (nodeOf ?c bs)"
      using Suc.prems(6) by (metis domI map_le_def)
    obtain x h1 where al: "alloc h (nodeOf ?c bs) = (x, h1)" by (metis surj_pair)
    note A = alloc_facts [OF Suc.prems(5) al]
    have x0: "x \<noteq> a" "h0 x = None" using A(5) nd(1) map_le_None [OF Suc.prems(6)] by auto
    let ?as = "as[?i := x]"
    let ?h2 = "store h1 a (nodeOf T ?as)"
    have node2: "nodeOf T ?as = \<lparr>mn_leaf = False, mn_keys = ks, mn_values = vs, mn_children = ?as\<rparr>"
      using len(3) by (simp add: T nodeOf_def)
    have n2: "hp_nodes ?h2 = (hp_nodes h)(x \<mapsto> nodeOf ?c bs, a \<mapsto> nodeOf T ?as)" using A(3) by simp
    have ok2: "heapOk ?h2" using store_heapOk [OF A(2)] A(3) nd(1) x0(1) by simp
    have sub2: "h0 \<subseteq>\<^sub>m hp_nodes ?h2" using Suc.prems(6) a0 x0(2) unfolding n2 by (simp add: map_le_upd)
    have frame: "hp_nodes ?h2 b = hp_nodes h b" if "b \<in> dom (hp_nodes h)" "b \<noteq> a" for b
      using n2 that A(5) by auto
    have enter: "memInsertNonFull h a k v d =
        (if length (tkeys ?c) = memMaxKeys d then do {
           h3 \<leftarrow> memSplitChild ?h2 a ?i d;
           n3 \<leftarrow> hp_nodes h3 a;
           check (?i < length (mn_keys n3));
           (if k = mn_keys n3 ! ?i then do {
              check (?i < length (mn_values n3));
              Some (Some (mn_values n3 ! ?i), store h3 a (n3\<lparr>mn_values := (mn_values n3)[?i := v]\<rparr>))
            }
            else do {
              let index = (if mn_keys n3 ! ?i < k then ?i + 1 else ?i);
              check (index < length (mn_children n3));
              memInsertNonFull h3 (mn_children n3 ! index) k v d
            })
         }
         else memInsertNonFull ?h2 x k v d)"
    proof -
      have cl: "memClone h (as ! ?i) = Some (x, h1)" using old_c al by (simp add: memClone_def)
      have x2: "hp_nodes h1 x = Some (nodeOf ?c bs)" using A(3) by simp
      have B': "binarySearch (tkeys T) k = (?i, False)" using B False T by simp
      have ch: "(nodeOf T as)\<lparr>mn_children := ?as\<rparr> = nodeOf T ?as" by (simp add: nodeOf_def)
      have nl: "tkids T \<noteq> []" using len(3) T by simp
      show ?thesis
        using nd(1) i(1) nl x0(1)
        by (subst memInsertNonFull.simps) (simp add: B' cl x2 ch memFull_def Let_def)
    qed
    show ?thesis
    proof (cases "length (tkeys ?c) = memMaxKeys d")
      case notfull: False
      have room: "length (tkeys ?c) < memMaxKeys d"
        using notfull c mshape_lengths [of d n "tkeys ?c" "tvals ?c" "tkids ?c"] by simp
      obtain o' c' where p: "pins n d k v ?c = (o', c')" by (metis surj_pair)
      have res: "old = o'" "T' = MT ks vs (cs[?i := c'])"
        using Suc.prems(8) by (simp_all only: pins.simps T mtree.sel Let_def if_not_P [OF False] if_not_P [OF notfull] p prod.case prod.inject)
      have fr: "fresh h0 ?h2 x ?c" using n2 x0 bs(2) by (auto simp: fresh_def)
      obtain h' where h': "memInsertNonFull ?h2 x k v d = Some (o', h')" "heapOk h'" "h0 \<subseteq>\<^sub>m hp_nodes h'"
        "mrep (hp_nodes h') x c'" "\<forall>b\<in>dom (hp_nodes ?h2). b \<noteq> x \<longrightarrow> hp_nodes h' b = hp_nodes ?h2 b"
        using Suc.IH [OF c Suc.prems(2) room R(6) ok2 sub2 fr p] by blast
      have "hp_nodes h' a = Some (nodeOf T ?as)" using h'(5) n2 x0(1) by auto
      moreover have "nodeOf T ?as = nodeOf T' ?as" using res len(3) by (simp add: T nodeOf_def)
      moreover have "list_all2 (mrep (hp_nodes h')) ?as (cs[?i := c'])"
        using all_mrep_mono [OF nd(2) h'(3)] h'(4) by (intro list_all2_update_cong)
      ultimately have "mrep (hp_nodes h') a T'" using res(2) by (intro mrepI) simp_all
      moreover have "\<forall>b\<in>dom (hp_nodes h). b \<noteq> a \<longrightarrow> hp_nodes h' b = hp_nodes h b"
        using h'(5) frame A(5) by (metis domIff)
      ultimately show ?thesis
        using enter notfull h'(1-3) res(1) by simp
    next
      case full: True
      obtain l mk mv r where s: "tsplit (d - 1) ?c = (l, (mk, mv), r)" by (metis surj_pair)
      define rr where "rr = hp_next ?h2"
      define K V C where "K = insertAt ks ?i mk" and "V = insertAt vs ?i mv" and "C = insertAt ?as (Suc ?i) rr"
      note S = tents_split [OF c full Suc.prems(2) s]
      have free: "hp_nodes ?h2 rr = None" unfolding rr_def by (rule next_free [OF ok2])
      then have rr': "rr \<noteq> a" "rr \<noteq> x" "hp_nodes h rr = None" "h0 rr = None"
        using map_le_None [OF sub2 free] free unfolding n2 by (simp_all split: if_splits)
      have xn: "hp_nodes ?h2 (?as ! ?i) = Some (nodeOf ?c bs)" using i(1) n2 x0(1) by simp
      have an: "hp_nodes ?h2 a = Some \<lparr>mn_leaf = False, mn_keys = ks, mn_values = vs, mn_children = ?as\<rparr>"
        using n2 node2 by simp
      obtain h3 where h3: "memSplitChild ?h2 a ?i d = Some h3" "heapOk h3"
        and n3: "hp_nodes h3 = (hp_nodes ?h2)(rr \<mapsto> nodeOf r (drop d bs), x \<mapsto> nodeOf l (take d bs),
          a \<mapsto> \<lparr>mn_leaf = False, mn_keys = K, mn_values = V, mn_children = C\<rparr>)"
        using memSplitChild_ok [OF ok2 an _ i(2,3) xn _ c _ full Suc.prems(2) s] i(1) x0(1) list_all2_lengthD [OF bs(2)]
        unfolding K_def V_def C_def rr_def by auto
      have sub3: "h0 \<subseteq>\<^sub>m hp_nodes h3" unfolding n3 by (intro map_le_upd sub2 rr'(4) a0 x0(2))
      have kids: "list_all2 (mrep h0) (take d bs) (tkids l)" "list_all2 (mrep h0) (drop d bs) (tkids r)"
        using tsplit_kids [OF s Suc.prems(2) bs(2)] by blast+
      have frl: "fresh h0 hh x l" if "hp_nodes hh x = hp_nodes h3 x" for hh
        using that n3 x0 kids(1) by (auto simp: fresh_def)
      have frr: "fresh h0 hh rr r" if "hp_nodes hh rr = hp_nodes h3 rr" for hh
        using that n3 rr' kids(2) by (auto simp: fresh_def)
      have at: "K ! ?i = mk" "V ! ?i = mv" "C ! ?i = x" "C ! Suc ?i = rr"
        "?i < length K" "?i < length V" "Suc ?i < length C"
        using i len by (simp_all add: K_def V_def C_def nth_insertAt le_imp_less_Suc)
      have enter3: "memInsertNonFull h a k v d =
          (if k = mk then Some (Some mv, store h3 a \<lparr>mn_leaf = False, mn_keys = K, mn_values = V[?i := v], mn_children = C\<rparr>)
           else memInsertNonFull h3 (if mk < k then rr else x) k v d)"
        unfolding enter by (cases "k = mk") (use full h3(1) n3 at in \<open>simp_all add: Let_def\<close>)
      have step: "(if k = mk then (Some mv, MT K (V[?i := v]) (insertAt (cs[?i := l]) (Suc ?i) r))
          else if mk < k then
            (case pins n d k v r of (o', r') \<Rightarrow> (o', MT K V (insertAt (cs[?i := l]) (Suc ?i) r')))
          else
            (case pins n d k v l of (o', l') \<Rightarrow> (o', MT K V (insertAt (cs[?i := l']) (Suc ?i) r)))) = (old, T')"
        using Suc.prems(8)
        unfolding K_def V_def
        by (simp only: pins.simps T mtree.sel Let_def if_not_P [OF False] if_P [OF full] s prod.case)
      have fin: ?thesis
        if m: "memInsertNonFull h a k v d = Some (old, h')" and h': "heapOk h'" "h0 \<subseteq>\<^sub>m hp_nodes h'"
          "mrep (hp_nodes h') x l'" "mrep (hp_nodes h') rr r'"
          and nd': "hp_nodes h' a = Some \<lparr>mn_leaf = False, mn_keys = K, mn_values = vs', mn_children = C\<rparr>"
          and T': "T' = MT K vs' (insertAt (cs[?i := l']) (Suc ?i) r')"
          and fr: "\<forall>b\<in>dom (hp_nodes h3). b \<notin> {a, x, rr} \<longrightarrow> hp_nodes h' b = hp_nodes h3 b"
        for h' l' r' vs'
      proof -
        have "list_all2 (mrep (hp_nodes h')) ?as (cs[?i := l'])"
          using all_mrep_mono [OF nd(2) h'(2)] h'(3) by (intro list_all2_update_cong)
        then have "list_all2 (mrep (hp_nodes h')) C (insertAt (cs[?i := l']) (Suc ?i) r')"
          using h'(4) R(7) unfolding C_def by (intro list_all2_insertAt) simp_all
        moreover have "insertAt (cs[?i := l']) (Suc ?i) r' \<noteq> []" by (simp add: insertAt_def)
        ultimately have "mrep (hp_nodes h') a T'"
          using nd' T' by (intro mrepI [where as = C]) (simp_all add: nodeOf_def)
        moreover have "hp_nodes h' b = hp_nodes h b" if b: "b \<in> dom (hp_nodes h)" "b \<noteq> a" for b
        proof -
          have "b \<noteq> x" "b \<noteq> rr" using b A(5) rr'(3) by auto
          then have "hp_nodes h3 b = hp_nodes h b" using n3 A(3) b(2) by simp
          then show ?thesis using fr b \<open>b \<noteq> x\<close> \<open>b \<noteq> rr\<close> by (metis domD domI empty_iff insert_iff)
        qed
        ultimately show ?thesis using m h'(1,2) by blast
      qed
      have room: "length (tkeys l) < memMaxKeys d" "length (tkeys r) < memMaxKeys d"
        using S(3,4) Suc.prems(2) by (simp_all add: memMaxKeys_def)
      have os: "ordered (tents l)" "ordered (tents r)"
        using R(6) S(5) by (simp_all add: sorted_wrt_append)
      consider "k = mk" | "mk < k" | "k < mk" by (metis linorder_cases)
      then show ?thesis
      proof cases
        case 1
        let ?h' = "store h3 a \<lparr>mn_leaf = False, mn_keys = K, mn_values = V[?i := v], mn_children = C\<rparr>"
        have sub': "h0 \<subseteq>\<^sub>m hp_nodes ?h'" using sub3 a0 by (simp add: map_le_upd)
        have res: "old = Some mv" "T' = MT K (V[?i := v]) (insertAt (cs[?i := l]) (Suc ?i) r)"
          using step 1 by simp_all
        show ?thesis
        proof (rule fin [OF _ _ sub' _ _ _ res(2)])
          show "memInsertNonFull h a k v d = Some (old, ?h')" using enter3 1 res(1) by simp
          show "heapOk ?h'" using store_heapOk [OF h3(2), of a] n3 by simp
          show "mrep (hp_nodes ?h') x l" using frl [of ?h'] x0(1) sub' by (intro fresh_mrep) simp_all
          show "mrep (hp_nodes ?h') rr r" using frr [of ?h'] rr'(1) sub' by (intro fresh_mrep) simp_all
        qed simp_all
      next
        case 2
        obtain o' r' where p: "pins n d k v r = (o', r')" by (metis surj_pair)
        have res: "old = o'" "T' = MT K V (insertAt (cs[?i := l]) (Suc ?i) r')"
          using step p by (simp_all add: less_imp_not_eq2 [OF 2] 2)
        obtain h' where h': "memInsertNonFull h3 rr k v d = Some (o', h')" "heapOk h'" "h0 \<subseteq>\<^sub>m hp_nodes h'"
          "mrep (hp_nodes h') rr r'" "\<forall>b\<in>dom (hp_nodes h3). b \<noteq> rr \<longrightarrow> hp_nodes h' b = hp_nodes h3 b"
          using Suc.IH [OF S(2) Suc.prems(2) room(2) os(2) h3(2) sub3 frr [OF refl] p] by blast
        show ?thesis
        proof (rule fin [OF _ h'(2,3) _ h'(4) _ res(2)])
          show "memInsertNonFull h a k v d = Some (old, h')"
            using enter3 h'(1) res(1) by (simp add: less_imp_not_eq2 [OF 2] 2)
          show "mrep (hp_nodes h') x l"
            using frl [of h'] h'(3,5) n3 rr'(2) x0(1) by (intro fresh_mrep) auto
        qed (use h'(5) n3 rr'(1) in auto)
      next
        case 3
        obtain o' l' where p: "pins n d k v l = (o', l')" by (metis surj_pair)
        have res: "old = o'" "T' = MT K V (insertAt (cs[?i := l']) (Suc ?i) r)"
          using step p by (simp_all add: less_imp_not_eq [OF 3] less_not_sym [OF 3])
        obtain h' where h': "memInsertNonFull h3 x k v d = Some (o', h')" "heapOk h'" "h0 \<subseteq>\<^sub>m hp_nodes h'"
          "mrep (hp_nodes h') x l'" "\<forall>b\<in>dom (hp_nodes h3). b \<noteq> x \<longrightarrow> hp_nodes h' b = hp_nodes h3 b"
          using Suc.IH [OF S(1) Suc.prems(2) room(1) os(1) h3(2) sub3 frl [OF refl] p] by blast
        show ?thesis
        proof (rule fin [OF _ h'(2,3,4) _ _ res(2)])
          show "memInsertNonFull h a k v d = Some (old, h')"
            using enter3 h'(1) res(1) by (simp add: less_imp_not_eq [OF 3] less_not_sym [OF 3])
          show "mrep (hp_nodes h') rr r"
            using frr [of h'] h'(3,5) n3 rr' by (intro fresh_mrep) auto
        qed (use h'(5) n3 x0(1) in auto)
      qed
    qed
  qed
qed

section \<open>The tree\<close>

text \<open>\<open>memOk h t es\<close>: in heap \<open>h\<close>, the tree (or snapshot) \<open>t\<close> stores the entries \<open>es\<close>.\<close>

definition memOk :: "('k::linorder, 'v) mheap \<Rightarrow> memTree \<Rightarrow> ('k \<times> 'v) list \<Rightarrow> bool" where
  "memOk h t es \<longleftrightarrow> heapOk h \<and> 2 \<le> mt_degree t \<and> ordered es \<and> mt_length t = int (length es) \<and>
     (case mt_root t of
        None \<Rightarrow> es = []
      | Some a \<Rightarrow> \<exists>n T. mrep (hp_nodes h) a T \<and> mshape (mt_degree t) n T \<and> 0 < length (tkeys T) \<and> tents T = es)"

lemma memOk_frame:
  "memOk h t es \<Longrightarrow> hp_nodes h \<subseteq>\<^sub>m hp_nodes h' \<Longrightarrow> heapOk h' \<Longrightarrow> memOk h' t es"
  unfolding memOk_def by (auto split: option.splits intro: mrep_mono)

lemma heapOk_empty: "heapOk emptyHeap"
  by (simp add: heapOk_def emptyHeap_def)

lemma memStats_frame:
  assumes "memOk h t es" "hp_nodes h \<subseteq>\<^sub>m hp_nodes h'"
  shows "memStatsFor h' t = memStatsFor h t"
proof (cases "mt_root t")
  case None
  then show ?thesis by (simp add: memStatsFor_def memHeight.simps [of _ None] memCount.simps [of _ None])
next
  case (Some a)
  then obtain n T where T: "mrep (hp_nodes h) a T" "mshape (mt_degree t) n T"
    using assms(1) by (auto simp: memOk_def)
  note T' = mrep_mono [OF T(1) assms(2)]
  show ?thesis
    using Some memHeight_ok [OF T] memHeight_ok [OF T' T(2)] memCount_ok [OF T] memCount_ok [OF T' T(2)]
    by (simp add: memStatsFor_def)
qed

lemma memOk_New: "heapOk h \<Longrightarrow> memOk h (memNew d) []"
  by (auto simp: memOk_def memNew_def memNormalizeDegree_def)

lemma memGet_ok: "memOk h t es \<Longrightarrow> memGet h t k = Some (map_of es k)"
  by (cases "mt_root t") (auto simp: memOk_def memGet_def memSearchNode_ok memSearchNode.simps [of h None])

lemma memRange_ok: "memOk h t es \<Longrightarrow> memRange h t visit s = Some (fst (memVisit visit s es))"
  by (cases "mt_root t") (auto simp: memOk_def memRange_def memRangeNode_ok memRangeNode.simps [of h None] prod_eq_iff)

lemma memStatsFor_ok:
  assumes "memOk h t es"
  shows "\<exists>st. memStatsFor h t = Some st \<and> mst_Len st = int (length es) \<and> mst_Keys st = length es \<and>
    mst_Revision st = mt_revision t \<and> mst_Degree st = mt_degree t"
proof (cases "mt_root t")
  case None
  then show ?thesis
    using assms by (simp add: memOk_def memStatsFor_def memHeight.simps [of h None] memCount.simps [of h None])
next
  case (Some a)
  then obtain n T where "mrep (hp_nodes h) a T" "mshape (mt_degree t) n T" "tents T = es"
    using assms by (auto simp: memOk_def)
  then show ?thesis
    using assms Some memHeight_ok [of h a T "mt_degree t" n] memCount_ok [of h a T "mt_degree t" n]
    by (simp add: memOk_def memStatsFor_def)
qed

lemma fresh_clone:
  assumes "heapOk h" "mrep (hp_nodes h) r T"
  obtains a h1 where "memClone h r = Some (a, h1)" "heapOk h1" "hp_nodes h \<subseteq>\<^sub>m hp_nodes h1" "fresh (hp_nodes h) h1 a T"
proof -
  obtain as where as: "hp_nodes h r = Some (nodeOf T as)" "list_all2 (mrep (hp_nodes h)) as (tkids T)"
    using assms(2) by (subst (asm) mrep_iff) blast
  obtain a h1 where al: "alloc h (nodeOf T as) = (a, h1)" by (metis surj_pair)
  note A = alloc_facts [OF assms(1) al]
  have "fresh (hp_nodes h) h1 a T" using A(3,5) as(2) by (auto simp: fresh_def)
  then show thesis using that [of a h1] as(1) al A by (simp add: memClone_def)
qed

text \<open>A full root moves below a new one and is split there.\<close>

lemma split_root:
  assumes h: "heapOk h1" "h0 \<subseteq>\<^sub>m hp_nodes h1" "fresh h0 h1 a T"
    and T: "mshape d n T" "length (tkeys T) = memMaxKeys d" "2 \<le> d"
    and al: "alloc h1 \<lparr>mn_leaf = False, mn_keys = [], mn_values = [], mn_children = [a]\<rparr> = (p, h2)"
  obtains h3 h0' T3 where "memSplitChild h2 p 0 d = Some h3" "heapOk h3" "h0 \<subseteq>\<^sub>m h0'" "h0' \<subseteq>\<^sub>m hp_nodes h3"
    "fresh h0' h3 p T3" "mshape d (Suc n) T3" "length (tkeys T3) = 1" "tents T3 = tents T"
proof -
  obtain l mk mv r where s: "tsplit (d - 1) T = (l, (mk, mv), r)" by (metis surj_pair)
  note S = tents_split [OF T(1,2,3) s]
  note A = alloc_facts [OF h(1) al]
  obtain bs where bs: "hp_nodes h1 a = Some (nodeOf T bs)" "list_all2 (mrep h0) bs (tkids T)" "h0 a = None"
    using h(3) by (auto simp: fresh_def)
  have pa: "a \<noteq> p" using A(5) bs(1) by auto
  have p0: "h0 p = None" using map_le_None [OF h(2) A(5)] .
  have pn: "hp_nodes h2 p = Some \<lparr>mn_leaf = False, mn_keys = [], mn_values = [], mn_children = [a]\<rparr>"
    and an: "hp_nodes h2 ([a] ! 0) = Some (nodeOf T bs)" using A(3) pa bs(1) by simp_all
  define rr where "rr = hp_next h2"
  have free: "hp_nodes h2 rr = None" unfolding rr_def by (rule next_free [OF A(2)])
  then have rr: "rr \<noteq> p" "rr \<noteq> a" "h0 rr = None"
    using pn an map_le_None [OF h(2), of rr] A(3) by (auto split: if_splits)
  obtain h3 where h3: "memSplitChild h2 p 0 d = Some h3" "heapOk h3"
    and n3: "hp_nodes h3 = (hp_nodes h2)(rr \<mapsto> nodeOf r (drop d bs), a \<mapsto> nodeOf l (take d bs),
      p \<mapsto> \<lparr>mn_leaf = False, mn_keys = [mk], mn_values = [mv], mn_children = [a, rr]\<rparr>)"
    using memSplitChild_ok [OF A(2) pn _ _ _ an _ T(1) _ T(2,3) s] pa list_all2_lengthD [OF bs(2)]
    by (auto simp: insertAt_def rr_def)
  let ?h0 = "(hp_nodes h3)(p := None)"
  let ?T3 = "MT [mk] [mv] [l, r]"
  have sub3: "h0 \<subseteq>\<^sub>m hp_nodes h3"
    unfolding n3 A(3) by (intro map_le_upd h(2) p0 rr(3) bs(3))
  have sub: "h0 \<subseteq>\<^sub>m ?h0" using sub3 p0 by (auto simp: map_le_def)
  have kids: "list_all2 (mrep h0) (take d bs) (tkids l)" "list_all2 (mrep h0) (drop d bs) (tkids r)"
    using tsplit_kids [OF s T(3) bs(2)] by blast+
  have "mrep ?h0 a l"
    using n3 pa all_mrep_mono [OF kids(1) sub] by (intro mrepI [where as = "take d bs"]) simp_all
  moreover have "mrep ?h0 rr r"
    using n3 rr all_mrep_mono [OF kids(2) sub] by (intro mrepI [where as = "drop d bs"]) simp_all
  ultimately have "fresh ?h0 h3 p ?T3" using n3 by (simp add: fresh_def nodeOf_def)
  moreover have "mshape d (Suc n) ?T3" using S T(3) by (simp add: memMaxKeys_def)
  moreover have "tents ?T3 = tents T" using S(5) by simp
  moreover have "?h0 \<subseteq>\<^sub>m hp_nodes h3" by (auto simp: map_le_def)
  ultimately show thesis using that [of h3 ?h0 ?T3] h3 sub by simp
qed

lemma memSet_ok:
  assumes "memOk h t es"
  obtains t' h' where "memSet h t k v = Some (map_of es k, t', h')" "memOk h' t' (upd_list k v es)"
    "hp_nodes h \<subseteq>\<^sub>m hp_nodes h'" "mt_revision t' = mt_revision t + 1" "mt_degree t' = mt_degree t"
proof (cases "mt_root t")
  case None
  then have es: "es = []" and h: "heapOk h" and d: "2 \<le> mt_degree t" using assms by (simp_all add: memOk_def)
  obtain a h1 where al: "alloc h (memNewLeaf k v) = (a, h1)" by (metis surj_pair)
  note A = alloc_facts [OF h al]
  let ?t = "t\<lparr>mt_root := Some a, mt_length := 1, mt_revision := mt_revision t + 1\<rparr>"
  have "mrep (hp_nodes h1) a (MT [k] [v] [])"
    using A(3) by (intro mrepI [where as = "[]"]) (simp_all add: nodeOf_def memNewLeaf_def)
  moreover have "mshape (mt_degree t) 0 (MT [k] [v] [])" using d by (simp add: memMaxKeys_def)
  moreover have "0 < length (tkeys (MT [k] [v] []))" "tents (MT [k] [v] []) = upd_list k v es" using es by simp_all
  ultimately have "\<exists>n T. mrep (hp_nodes h1) a T \<and> mshape (mt_degree t) n T \<and> 0 < length (tkeys T) \<and> tents T = upd_list k v es"
    by blast
  then have "memOk h1 ?t (upd_list k v es)"
    using A(2) d es by (simp add: memOk_def)
  then show thesis
    using that [of ?t h1] None al A(4) es by (simp add: memSet_def Let_def)
next
  case (Some r)
  let ?d = "mt_degree t"
  obtain n T where T: "mrep (hp_nodes h) r T" "mshape ?d n T" "0 < length (tkeys T)" "tents T = es"
    and h: "heapOk h" and d: "2 \<le> ?d" and o: "ordered es" and l: "mt_length t = int (length es)"
    using assms Some by (auto simp: memOk_def)
  obtain a h1 where C: "memClone h r = Some (a, h1)" "heapOk h1" "hp_nodes h \<subseteq>\<^sub>m hp_nodes h1" "fresh (hp_nodes h) h1 a T"
    using fresh_clone [OF h T(1)] .
  then obtain as where a: "hp_nodes h1 a = Some (nodeOf T as)" by (auto simp: fresh_def)
  obtain root h2 h0' T2 n2 where R: "(if memFull (nodeOf T as) ?d then do {
        let (parent, h2) = alloc h1 \<lparr>mn_leaf = False, mn_keys = [], mn_values = [], mn_children = [a]\<rparr>;
        h3 \<leftarrow> memSplitChild h2 parent 0 ?d;
        Some (parent, h3)
      } else Some (a, h1)) = Some (root, h2)"
    and H: "heapOk h2" "hp_nodes h \<subseteq>\<^sub>m h0'" "h0' \<subseteq>\<^sub>m hp_nodes h2" "fresh h0' h2 root T2" "mshape ?d n2 T2"
      "0 < length (tkeys T2)" "length (tkeys T2) < memMaxKeys ?d" "tents T2 = es"
  proof (cases "memFull (nodeOf T as) ?d")
    case True
    obtain p h2 where al: "alloc h1 \<lparr>mn_leaf = False, mn_keys = [], mn_values = [], mn_children = [a]\<rparr> = (p, h2)"
      by (metis surj_pair)
    have full: "length (tkeys T) = memMaxKeys ?d" using True by (simp add: memFull_def)
    obtain h3 h0' T3 where S: "memSplitChild h2 p 0 ?d = Some h3" "heapOk h3" "hp_nodes h \<subseteq>\<^sub>m h0'"
      "h0' \<subseteq>\<^sub>m hp_nodes h3" "fresh h0' h3 p T3" "mshape ?d (Suc n) T3" "length (tkeys T3) = 1" "tents T3 = tents T"
      by (rule split_root [OF C(2,3,4) T(2) full d al])
    have "1 < memMaxKeys ?d" using d by (simp add: memMaxKeys_def)
    then show thesis using that [of p h3 h0' T3 "Suc n"] True al S T(4) by simp
  next
    case False
    then have "length (tkeys T) < memMaxKeys ?d"
      using mshape_lengths [of ?d n "tkeys T" "tvals T" "tkids T"] T(2) by (simp add: memFull_def)
    then show thesis using that [of a h1 "hp_nodes h" T n] False C T by simp
  qed
  obtain old T' where p: "pins n2 ?d k v T2 = (old, T')" by (metis surj_pair)
  have o2: "ordered (tents T2)" using o H(8) by simp
  note P = pins_ok [OF H(5) d H(7) o2 p]
  obtain h' where h': "memInsertNonFull h2 root k v ?d = Some (old, h')" "heapOk h'" "h0' \<subseteq>\<^sub>m hp_nodes h'"
    "mrep (hp_nodes h') root T'"
    using insertNonFull_sim [OF H(5) d H(7) o2 H(1,3,4) p] by blast
  let ?t = "t\<lparr>mt_root := Some root, mt_length := (if old = None then mt_length t + 1 else mt_length t),
      mt_revision := mt_revision t + 1\<rparr>"
  have "memOk h' ?t (upd_list k v es)"
    using h'(2,4) P H(6,8) d o l length_upd_list [OF o, of k v] ordered_upd_list [OF o, of k v]
    by (auto simp: memOk_def intro!: exI [of _ T'])
  moreover have "memSet h t k v = Some (map_of es k, ?t, h')"
    using Some C(1) a R h'(1) P H(8) by (simp add: memSet_def)
  moreover have "hp_nodes h \<subseteq>\<^sub>m hp_nodes h'" using H(2) h'(3) by (rule map_le_trans)
  ultimately show thesis using that [of ?t h'] by simp
qed

text \<open>A sequence of writes.\<close>

fun memSets :: "('k::linorder, 'v) mheap \<Rightarrow> memTree \<Rightarrow> ('k \<times> 'v) list \<Rightarrow> (memTree \<times> ('k, 'v) mheap) option" where
  "memSets h t [] = Some (t, h)"
| "memSets h t (e # es) = do {
     (old, t', h') \<leftarrow> memSet h t (fst e) (snd e);
     memSets h' t' es
   }"

lemma memSets_ok:
  assumes "memOk h t es"
  obtains t' h' es' where "memSets h t kvs = Some (t', h')" "memOk h' t' es'" "hp_nodes h \<subseteq>\<^sub>m hp_nodes h'"
    "map_of es' = map_of (rev kvs @ es)" "mt_revision t' = mt_revision t + of_nat (length kvs)"
  using assms
proof (induction kvs arbitrary: h t es thesis)
  case Nil
  from Nil.prems(1) [of t h es] Nil.prems(2) show ?case by simp
next
  case (Cons e kvs)
  obtain t1 h1 where S: "memSet h t (fst e) (snd e) = Some (map_of es (fst e), t1, h1)"
    "memOk h1 t1 (upd_list (fst e) (snd e) es)" "hp_nodes h \<subseteq>\<^sub>m hp_nodes h1" "mt_revision t1 = mt_revision t + 1"
    using memSet_ok [OF Cons.prems(2)] .
  obtain t' h' es' where R: "memSets h1 t1 kvs = Some (t', h')" "memOk h' t' es'" "hp_nodes h1 \<subseteq>\<^sub>m hp_nodes h'"
    "map_of es' = map_of (rev kvs @ upd_list (fst e) (snd e) es)" "mt_revision t' = mt_revision t1 + of_nat (length kvs)"
    using Cons.IH [OF _ S(2)] .
  have o: "ordered es" using Cons.prems(2) by (simp add: memOk_def)
  have "map_of es' = map_of (rev (e # kvs) @ es)"
    using R(4) map_of_upd_list [OF o, of "fst e" "snd e"] by (cases e) simp
  then show ?case
    using Cons.prems(1) [of t' h' es'] S R map_le_trans [OF S(3) R(3)] by (simp add: add.assoc)
qed

end
