(* ===== verification/Spec2Isabelle.thy ===== *)
theory Spec2Isabelle
  imports DeleteCorrect InsertCorrect KeyBytes TxRuns Limits Stats CursorCorrect IntegrityCorrect RecoveryCorrect MmapSamples ReaderProtocol MemTreeCorrect CompactCorrect
begin

text \<open>
  A verification development for \<^verbatim>\<open>cow-btree-course\<close>, the Go research kernel of a
  copy-on-write B+tree with slotted pages, read-only snapshots, overflow chains and an
  optional mmap file.  The packages verified are \<^verbatim>\<open>src/pagebtree\<close> and the small in-memory
  tree \<^verbatim>\<open>src/btree\<close> beside it.  Every definition of the
  model is a translation of Go code, under the name of the source wherever Isabelle allows
  it; the theorems about the whole program are in this theory, the lemmas of each component
  are in the theory of the component.

  \<^bold>\<open>The program.\<close>  A \<^verbatim>\<open>Tree\<close> is a map from page ids to pages of 4096 bytes, a root id, an
  allocator (\<^verbatim>\<open>nextPage\<close> and a free list) and a list of retired pages.  A mutation never
  changes a page a reader may see: it copies the path from the root (\<^verbatim>\<open>copyPage\<close>), retires the
  pages it replaced at the current revision, and publishes a new revision
  (\<^verbatim>\<open>publishStagedMutation\<close>), which frees the retired pages that no reader pins and relinks the
  leaves when no reader is active.  Snapshots, cursors and transactions pin a revision
  (\<^verbatim>\<open>beginRead\<close>, \<^verbatim>\<open>endRead\<close>); batches and transactions stage a list of operations and publish
  once.  A long value lives in a chain of overflow pages.  Branches are routed through a cache
  keyed by page id and checksum.  An mmap tree has the same pages in a mapped file, whose
  first two pages are checked metadata records; \<^verbatim>\<open>Sync\<close> writes one of them and opening the file
  recovers from the newer one that validates.

  \<^bold>\<open>How the code is modelled.\<close>  A Go function is a function of its receiver's state that
  returns the new state; \<open>None\<close> is a panic or a call that does not return (loops that follow
  page ids are \<open>partial_function (option)\<close>, so a cycle of pages is \<open>None\<close> too).  A Go error is
  a value of a sum or of an error datatype; of a wrapped error the model keeps the sentinel
  that \<^verbatim>\<open>errors.Is\<close> finds.  Integers stored in pages are words at their width, page ids and
  revisions are 64-bit words and wrap, Go \<^verbatim>\<open>int\<close>s are \<open>int\<close> or \<open>nat\<close>, with the conversion
  written out where the code converts.  Pages are byte lists and every accessor reads or
  writes the offsets of the source; CRC-32 is computed.  Go map iteration, whose order is not
  specified, is modelled by an order chosen by the caller where the order can be seen.

  \<^bold>\<open>The theories, in the order of their imports.\<close>
  \<^item> \<open>Prelude\<close>, \<open>Bytes\<close>, \<open>KeyOrder\<close>: slices, panics, loops; little-endian words and CRC-32;
    comparators (\<^verbatim>\<open>key_order.go\<close>) with the locale \<open>key_comparator\<close> of their laws, interpreted on
    the two built-in orders.
  \<^item> \<open>Page\<close>, \<open>PageCells\<close>, \<open>PageEntries\<close>, \<open>PageKinds\<close>: \<^verbatim>\<open>page.go\<close>, the page formats of
    \<^verbatim>\<open>overflow.go\<close>, \<^verbatim>\<open>freelist_pages.go\<close> and \<^verbatim>\<open>reclaim_pages.go\<close>.  \<open>holds p f cells\<close> says what a
    slotted page contains; writers establish it and readers return it.
  \<^item> \<open>PageCache\<close>: \<^verbatim>\<open>page_cache.go\<close>; a coherent cache returns what the page holds.
  \<^item> \<open>TreeState\<close>, \<open>Ownership\<close>: the \<^verbatim>\<open>Tree\<close> record, \<^verbatim>\<open>freelist.go\<close>, the allocator.  \<open>owned\<close> counts
    every allocated page exactly once; \<open>ext\<close> says that an operation changed fresh pages only.
  \<^item> \<open>OverflowChain\<close>, \<open>SortedKeys\<close>, \<open>TreeRep\<close>: chains; the abstract tree \<open>gtree\<close> and \<open>rep\<close>, the
    relation that pages represent it; \<open>gentries\<close> is the map it stores.
  \<^item> \<open>Search\<close>, \<open>SearchCorrect\<close>, \<open>LeafLinks\<close>: \<^verbatim>\<open>search.go\<close>, \<^verbatim>\<open>leaf_links.go\<close>.
  \<^item> \<open>Insert\<close>, \<open>LeafInsert\<close>, \<open>BranchSteps\<close>, \<open>InsertCorrect\<close>: \<^verbatim>\<open>insert.go\<close>.
  \<^item> \<open>Delete\<close>, \<open>DeleteRepair\<close>, \<open>DeleteCorrect\<close>: \<^verbatim>\<open>delete.go\<close>.
  \<^item> \<open>TreeOps\<close>, \<open>StagedOps\<close>, \<open>Stats\<close>, \<open>Versions\<close>, \<open>TreeCorrect\<close>: \<^verbatim>\<open>tree.go\<close>, \<^verbatim>\<open>snapshot.go\<close>, \<^verbatim>\<open>stats.go\<close>.
    \<open>tree_ok\<close> is the invariant of the tree between calls: the pages represent a balanced,
    ordered tree, every page is owned once, and every pinned version is intact.
  \<^item> \<open>Refinement\<close>, \<open>Isolation\<close>: the abstract machine (a map and the views that are open) that
    runs of the tree implement, and what this says of snapshots and of reclamation.
  \<^item> \<open>Batch\<close>, \<open>BatchCorrect\<close>, \<open>Tx\<close>, \<open>TxCorrect\<close>, \<open>TxRuns\<close>: \<^verbatim>\<open>batch.go\<close>, \<^verbatim>\<open>tx.go\<close>, \<^verbatim>\<open>tx_cursor.go\<close>.
  \<^item> \<open>Cursor\<close>, \<open>CursorCorrect\<close>, \<open>KeyBytes\<close>: \<^verbatim>\<open>cursor.go\<close>, \<^verbatim>\<open>key_bytes.go\<close>.
  \<^item> \<open>Limits\<close>: what the code does with keys that do not fit a page.
  \<^item> \<open>Samples\<close>: concrete trees, for the witnesses.
  \<^item> \<open>Layout\<close>, \<open>Integrity\<close>, \<open>IntegrityCorrect\<close>: \<^verbatim>\<open>validateLayout\<close> of \<^verbatim>\<open>page.go\<close> and \<^verbatim>\<open>integrity.go\<close>.  A page
    that the layout check accepts decodes (\<open>accepted_reads\<close>); the walk over the reachable pages
    ends on any page map; \<open>Audit\<close> accepts every tree that satisfies \<open>tree_ok\<close> and is minimally filled.
  \<^item> \<open>MetaPage\<close>, \<open>Metadata\<close>, \<open>Recovery\<close>: the metadata page format, \<^verbatim>\<open>Sync\<close>, \<^verbatim>\<open>Compact\<close>, \<^verbatim>\<open>Close\<close>, and
    \<^verbatim>\<open>loadMeta\<close>, \<^verbatim>\<open>OpenMmap\<close> and \<^verbatim>\<open>OpenMmapReadOnly\<close> of \<^verbatim>\<open>mmap.go\<close>.
  \<^item> \<open>MetaChain\<close>, \<open>SyncCorrect\<close>: the chain written for the free and retired pages resolves to them;
    \<open>Sync_ok\<close> says what a successful \<^verbatim>\<open>Sync\<close> leaves in the slots, \<open>Sync_total\<close> that every call returns
    and that a failed one puts everything back.
  \<^item> \<open>RecoveryCorrect\<close>, \<open>MmapSamples\<close>: \<open>version_on_file\<close> says that the file holds a version, \<open>OpenMmap_ok\<close>
    that opening such a file recovers it; the sample mapped trees of the witnesses.
  \<^item> \<open>CompactCorrect\<close>: \<open>Compact_moves\<close> says what a successful \<^verbatim>\<open>Compact\<close> leaves in the tree and the slots,
    \<open>Compact_chain_cut\<close> that it fails, with an unusable record published, when a chain is needed.
  \<^item> \<open>ReaderTable\<close>, \<open>ReaderTableCorrect\<close>, \<open>ReaderProtocol\<close>: \<^verbatim>\<open>reader_table_unix.go\<close>, the file in which reading
    processes note their revisions.  The calls refine a list of slots; \<open>readerStep\<close> is the protocol of
    the processes, with invariant \<open>tableInv\<close>, and \<open>readerScan\<close> gives the scan that an arena's parameter
    \<open>readerTable\<close> stands for.
  \<^item> \<open>MemTree\<close>, \<open>MemTreeSpec\<close>, \<open>MemTreeCorrect\<close>: the in-memory tree of \<^verbatim>\<open>src/btree\<close>, with its nodes in a heap;
    \<open>pins\<close> is its insertion on trees as values, and \<open>insertNonFull_sim\<close> says that the heap computes it
    and writes to no node that was there before.

  \<^bold>\<open>Bounds.\<close>  The theorems about mutations assume a bound \<open>K\<close> on the length of keys with which
  two entries fit a page (\<open>roomy\<close>), and that the ids a call may allocate are below \<open>2 ^ 63\<close> and
  can be mapped (\<open>room\<close>).  No fuel is used: every loop is structurally recursive, has a
  termination proof, or is a partial function whose theorems show that it returns.
  \<open>coherent\<close> is assumed of the branch cache where a lookup uses it, because the cache
  identifies a page by its CRC-32 (see the findings).

  The theorems about the file assume that ids fit the mapping (\<open>mapped\<close>: below \<open>2 ^ 60\<close>, capacities
  below \<open>2 ^ 62\<close>) and that the integers of the tree fit the metadata record (\<open>syncable\<close>).

  \<^bold>\<open>Not modelled.\<close>  System calls (files, mappings, locks, advice): the model has what they
  answer as parameters (\<open>io\<close>, \<open>os_grow\<close>, \<open>readerTable\<close>).  The file is the mapped bytes: the order in
  which a crash may keep or lose unflushed pages is not modelled, so recovery is proved of the
  image a \<^verbatim>\<open>Sync\<close> leaves, with the other metadata slot intact or torn.  \<^verbatim>\<open>Close\<close> and
  \<^verbatim>\<open>OpenMmapReadOnly\<close> are definitions without theorems.  The trace hooks, platform probes, sparse
  file tools, the commands under \<^verbatim>\<open>src/cmd\<close> and the generators under \<^verbatim>\<open>testdata\<close> observe or
  drive the package and hold none of its logic.  Concurrency inside a process is not modelled: the
  code has one writer and its operations are sequential; processes interleave only at the locked
  calls of the reader table.
\<close>

section \<open>The tree as a multiversion map\<close>

text \<open>
  C1. Every run of calls on a tree built by \<open>NewWithOptions\<close>, with the results the calls returned, is a run of the multiversion map that starts empty, and ends in a tree that represents the map: its current entries, and for each open snapshot the entries it was taken over.
\<close>

theorem runs_implement_map:
  assumes "key_comparator (normalizeKeyComparator (opt_KeyComparator opts))" "roomy (normalizeDegree d) K"
    and "run (cstep K) es \<lparr>w_tree = NewWithOptions d opts, w_snaps = []\<rparr> w"
  shows "\<exists>s. run (astep (normalizeKeyComparator (opt_KeyComparator opts))) es \<lparr>s_map = [], s_views = []\<rparr> s \<and>
    sim (normalizeKeyComparator (opt_KeyComparator opts)) K {#} w s"
  by (rule key_comparator.runs_refine [OF assms(1) assms(3) sim_New [OF assms(2)]])

theorem runs_implement_map_witness:
  "\<exists>w s. run (cstep 8) [EGet [1] None] \<lparr>w_tree = New 3, w_snaps = []\<rparr> w \<and>
     run (astep compareStrings) [EGet [1] None] \<lparr>s_map = [], s_views = []\<rparr> s \<and> sim compareStrings 8 {#} w s"
proof -
  let ?o = "\<lparr>opt_PageCacheCapacity = 0, opt_RangePrefetchLeafWindow = 0,
      opt_MinRepairPageFillPercent = 0, opt_KeyComparator = None\<rparr>"
  have n: "normalizeKeyComparator (opt_KeyComparator ?o) = compareStrings" "normalizeDegree 3 = 3"
    by (simp_all add: normalizeKeyComparator_def normalizeDegree_def)
  note S = sampleD [OF sample_New]
  obtain c where "treeGet (New 3) [1] = Some (None, (New 3)\<lparr>treeCache := c\<rparr>)"
    using bytewise.treeGet_tree_ok [OF S(1,2,10), of "[1]"] S(4) by auto
  then have "cstep 8 (EGet [1] None) \<lparr>w_tree = New 3, w_snaps = []\<rparr> \<lparr>w_tree = (New 3)\<lparr>treeCache := c\<rparr>, w_snaps = []\<rparr>"
    using cstep.get [of "\<lparr>w_tree = New 3, w_snaps = []\<rparr>" "[1]" None] S(10) by simp
  then have r: "run (cstep 8) [EGet [1] None] \<lparr>w_tree = New 3, w_snaps = []\<rparr> \<lparr>w_tree = (New 3)\<lparr>treeCache := c\<rparr>, w_snaps = []\<rparr>"
    by (blast intro: run.intros)
  have "\<exists>s. run (astep compareStrings) [EGet [1] None] \<lparr>s_map = [], s_views = []\<rparr> s \<and>
      sim compareStrings 8 {#} \<lparr>w_tree = (New 3)\<lparr>treeCache := c\<rparr>, w_snaps = []\<rparr> s"
    using runs_implement_map [of ?o 3 8, unfolded n, OF order_bytewise roomy_sample r [unfolded New_def]]
    by (simp only: New_def)
  then show ?thesis using r by blast
qed

text \<open>
  C2. After a snapshot of a tree, any run of calls that does not close it (puts, deletes, batch commits, other snapshots opened and closed, with the page reuse they cause) leaves its lookups and scans as they were.
\<close>

theorem snapshot_isolation:
  assumes "key_comparator cmp" "tree_ok cmp K R t To" "\<not> closed t" "\<not> readOnly t" "treeSnapshot t = (s, t1)"
    and "run (cstep K) es \<lparr>w_tree = t1, w_snaps = [s]\<rparr> w" "EClose 0 \<notin> set es"
  shows "snapGet (pages (w_tree w)) s k = Some (map_of (entsOf To) k) \<and>
    snapRangeBetween (pages (w_tree w)) s lo hi visit x =
      Some (fst (visitList visit x (rangeOf cmp lo hi (entsOf To))))"
  by (intro conjI key_comparator.snapshot_reads [OF assms])

theorem snapshot_isolation_witness:
  "\<exists>s t w. treePut t [1] [9] = Some (w, [2], True) \<and> snapGet (pages w) s [1] = Some (Some [2])"
proof -
  obtain t To s t1 w where r: "sample 2 1000 [([1], [2]), ([3], [4])] t To" "treeSnapshot t = (s, t1)"
    "run (cstep 8) [EPut [1] [9] ([2], True)] \<lparr>w_tree = t1, w_snaps = [s]\<rparr> w"
    using sample_run by blast
  note S = sampleD [OF r(1)]
  have "snapGet (pages (w_tree w)) s [1] = Some (Some [2])"
    using snapshot_isolation [OF order_bytewise S(1-3) r(2,3), of "[1]", THEN conjunct1] S(4) by simp
  moreover have "treePut t1 [1] [9] = Some (w_tree w, [2], True)"
    using r(3) by (auto elim!: run.cases [of _ "_ # _"] run.cases [of _ "[]"] cstep.cases)
  ultimately show ?thesis by blast
qed



section \<open>Publishing and recovery\<close>

text \<open>
  C4. \<open>Sync\<close> of a sound mapped tree that no reader holds returns without an error when the system calls succeed, and keeps the tree.  Whoever opens a file that holds its pages and the metadata slots then gets a tree of the same entries, at the same revision, that satisfies the invariant: every page of the file is again in the tree, free, retired or in the metadata chain, exactly once.
\<close>

theorem sync_reopen:
  assumes "key_comparator cmp" "tree_ok cmp K R t To" "syncable slots t" "mapped t (metaCost t + n)" "arena t = Some a"
    and "revision t \<noteq> lastRevision" "activeReaders t = []" "cmp = keyComparatorForOrder (keyOrder t)" "filledOf (degree t) To"
    and old: "\<And>r. readMetaPageChecked (slots ! (1 - metaSlot (syncRevision t))) = Some (Inr (Some r)) \<Longrightarrow>
      mr_nextPage r \<le> nextPage t \<and> mr_revision r < syncRevision t"
  shows "\<exists>t' slots' b R1. Sync (\<lambda>_. True) ord t slots = Some (None, t', slots') \<and> arena t' = Some b \<and>
    tree_ok cmp K R1 t' To \<and> syncable slots' t' \<and> mapped t' n \<and>
    revision t' = syncRevision t \<and> syncedRevision t' = revision t' \<and>
    (\<forall>img opts fsize. imageOf t' img \<longrightarrow> opens opts fsize (keyOrder t) b \<longrightarrow>
      (\<exists>u R2. OpenMmap io grow readers opts fsize img slots' ord' = Some (Inr (u, slots')) \<and> tree_ok cmp K R2 u To \<and>
        revision u = revision t' \<and> retired u = retired t \<and> set (free t) \<subseteq> set (free u) \<and>
        activeReaders u = [] \<and> \<not> closed u \<and> \<not> readOnly u))"
proof -
  obtain t3 b extra d where S: "Sync (\<lambda>_. True) ord t slots = Some (None, t3\<lparr>metadataUpgradePending := False,
      free := free t3 @ extra, syncedRevision := revision t3\<rparr>, slots[metaSlot (revision t3) := d])"
    "version_on_file cmp K R n t3 b (slots[metaSlot (revision t3) := d]) To"
    "tree_ok cmp K (R + mset (metaFreelistPages t3) - mset extra) (t3\<lparr>free := free t3 @ extra\<rparr>) To"
    "revision t3 = syncRevision t" "free t3 = free t" "retired t3 = retired t" "nextPage t \<le> nextPage t3" "keyOrder t3 = keyOrder t"
    by (rule key_comparator.Sync_version [OF assms(1-9)]) (rule that)
  let ?t = "t3\<lparr>metadataUpgradePending := False, free := free t3 @ extra, syncedRevision := revision t3\<rparr>"
    and ?slots = "slots[metaSlot (revision t3) := d]"
  have ar: "arena t3 = Some b" using S(2) unfolding version_on_file_def by blast
  have ok: "tree_ok cmp K (R + mset (metaFreelistPages t3) - mset extra) ?t To"
    using S(3) by (simp only: published_flags)
  have keep: "syncable ?slots ?t" "mapped ?t n"
    using S(2) unfolding version_on_file_def published_flags by blast+
  have i: "metaSlot (revision t3) \<noteq> 1 - metaSlot (revision t3)" by (rule metaSlot_other)
  have "outdated t3 (?slots ! (1 - metaSlot (revision t3)))"
    using i old S(4,7) by (fastforce simp: outdated_def)
  note o = outdated_older [OF this]
  have re: "\<exists>u R2. OpenMmap io grow readers opts fsize img ?slots ord' = Some (Inr (u, ?slots)) \<and> tree_ok cmp K R2 u To \<and>
      revision u = revision ?t \<and> retired u = retired t \<and> set (free t) \<subseteq> set (free u) \<and>
      activeReaders u = [] \<and> \<not> closed u \<and> \<not> readOnly u"
    if "imageOf ?t img" "opens opts fsize (keyOrder t) b" for img opts fsize
  proof -
    have img: "imageOf t3 img" using that(1) by (simp add: imageOf_def)
    show ?thesis
      using key_comparator.OpenMmap_ok [OF assms(1) S(2) img that(2) [folded S(8)] o, of io grow readers ord'] S(5,6) by auto
  qed
  show ?thesis
    by (intro exI [of _ ?t] exI [of _ ?slots] exI [of _ b] exI [of _ "R + mset (metaFreelistPages t3) - mset extra"] conjI)
      (use S(1,4) ar ok keep re in simp_all)
qed

theorem sync_reopen_witness:
  "\<exists>t t' slots' u To R2 fsize. Sync (\<lambda>_. True) [] t emptySlots = Some (None, t', slots') \<and> revision t' = 1 \<and>
     OpenMmap (\<lambda>_. True) (\<lambda>_. True) sampleReaders sampleOptions fsize
       (\<lambda>i. case pages t' i of None \<Rightarrow> replicate PageSize 0 | Some p \<Rightarrow> data p) slots' [] = Some (Inr (u, slots')) \<and>
     tree_ok compareStrings 8 R2 u To \<and> entsOf To = [([1], [2])] \<and> revision u = 1"
proof -
  obtain t To a where "mmapSample t To a" using sample_mmap by blast
  note S = this [unfolded mmapSample_def]
  have rv: "syncRevision t = 1" "revision t \<noteq> lastRevision" using S by (simp_all add: syncRevision_def lastRevision_def)
  have "outdated t (emptySlots ! (1 - metaSlot (syncRevision t)))" by (rule emptySlots_outdated) simp
  then have old: "mr_nextPage r \<le> nextPage t \<and> mr_revision r < syncRevision t"
    if "readMetaPageChecked (emptySlots ! (1 - metaSlot (syncRevision t))) = Some (Inr (Some r))" for r
    using that rv S by (simp add: outdated_def)
  have kc: "compareStrings = keyComparatorForOrder (keyOrder t)" using S bytewise_order by simp
  have pre: "tree_ok compareStrings 8 {#} t To" "syncable emptySlots t" "mapped t (metaCost t + 100)" "arena t = Some a"
    "activeReaders t = []" "filledOf (degree t) To" using S by simp_all
  obtain t' slots' b R1 where Y: "Sync (\<lambda>_. True) [] t emptySlots = Some (None, t', slots')" "arena t' = Some b"
    "syncable slots' t'" "mapped t' 100" "revision t' = syncRevision t"
    and re: "\<forall>img opts fsize. imageOf t' img \<longrightarrow> opens opts fsize (keyOrder t) b \<longrightarrow>
      (\<exists>u R2. OpenMmap (\<lambda>_. True) (\<lambda>_. True) sampleReaders opts fsize img slots' [] = Some (Inr (u, slots')) \<and>
        tree_ok compareStrings 8 R2 u To \<and>
        revision u = revision t' \<and> retired u = retired t \<and> set (free t) \<subseteq> set (free u) \<and>
        activeReaders u = [] \<and> \<not> closed u \<and> \<not> readOnly u)"
    using sync_reopen [OF order_bytewise pre(1-4) rv(2) pre(5) kc pre(6) old, of "[]" "\<lambda>_. True" "\<lambda>_. True" sampleReaders "[]"]
    by blast
  let ?img = "\<lambda>i. case pages t' i of None \<Rightarrow> replicate PageSize 0 | Some p \<Rightarrow> data p"
  have img: "imageOf t' ?img"
    using syncableD(9) [OF Y(3)] by (auto simp: imageOf_def wfPages_def wf_page_def split: option.split)
  have "opens sampleOptions ((maxPages b + int metaPageCount) * int PageSize) (keyOrder t) b"
    using opens_some [OF Y(4,2), of "keyOrder t" sampleOptions] S by (simp add: sampleOptions_def)
  then obtain u R2 where "OpenMmap (\<lambda>_. True) (\<lambda>_. True) sampleReaders sampleOptions ((maxPages b + int metaPageCount) * int PageSize)
      ?img slots' [] = Some (Inr (u, slots'))" "tree_ok compareStrings 8 R2 u To" "revision u = revision t'"
    using re img by blast
  moreover have "entsOf To = [([1], [2])]" "revision t' = 1" using S Y(5) rv(1) by simp_all
  ultimately show ?thesis using Y(1) by metis
qed

section \<open>The tree as a multiversion map\<close>



text \<open>
  C6. \<open>Delete\<close> on a well-formed tree returns the value it removed, and leaves a well-formed tree with the other entries; a missing key changes no entry and no revision.
\<close>

theorem delete_ok:
  assumes "key_comparator cmp" "tree_ok cmp K R t To" "\<not> closed t" "\<not> readOnly t"
    and "room t (delCost (degree t) (heightOf To) + n)" "revision t \<noteq> lastRevision"
    and "coherent (pages t) (treeCache t)"
  shows "\<exists>t' To'. treeDelete t k = Some (t', putResult k (entsOf To)) \<and> tree_ok cmp K R t' To' \<and>
    entsOf To' = filter (\<lambda>e. fst e \<noteq> k) (entsOf To) \<and> map_of (entsOf To') = (map_of (entsOf To))(k := None) \<and>
    room t' n \<and> revision t' = (if map_of (entsOf To) k = None then revision t else revision t + 1)"
proof -
  obtain t' To' where p: "treeDelete t k = Some (t', putResult k (entsOf To))"
    "mutated cmp K R n t To (del_list k (entsOf To)) t' To'"
    "revision t' = (if map_of (entsOf To) k = None then revision t else revision t + 1)"
    using key_comparator.treeDelete_ok [OF assms] by blast
  show ?thesis
    using p mutatedD [OF p(2)] map_of_del_list [of k "entsOf To"]
    by (intro exI [of _ t'] exI [of _ To']) (simp add: del_list_def)
qed

theorem delete_ok_witness:
  "\<exists>t t' To'. treeDelete t [1] = Some (t', [2], True) \<and> entsOf To' = [([3], [4])] \<and>
     tree_ok compareStrings 8 {#} t' To'"
proof -
  obtain t To where s: "sample 2 1000 [([1], [2]), ([3], [4])] t To" using sample_two by blast
  note S = sampleD [OF s]
  obtain t' To' where "treeDelete t [1] = Some (t', putResult [1] (entsOf To))" "tree_ok compareStrings 8 {#} t' To'"
    "entsOf To' = filter (\<lambda>e. fst e \<noteq> [1]) (entsOf To)"
    using delete_ok [OF order_bytewise S(1-3) sample_room(2,3) [OF s] S(10), of "[1]"] by blast
  then show ?thesis using S(4) by (auto simp: putResult_def)
qed

text \<open>
  C7. \<open>Get\<close> on a well-formed tree finds exactly the value stored under the key, reading branches through a cache without stale entries.
\<close>

theorem get_ok:
  assumes "key_comparator cmp" "tree_ok cmp K R t To" "\<not> closed t" "coherent (pages t) (treeCache t)"
  shows "\<exists>c. treeGet t k = Some (map_of (entsOf To) k, t\<lparr>treeCache := c\<rparr>) \<and>
    tree_ok cmp K R (t\<lparr>treeCache := c\<rparr>) To \<and> coherent (pages t) c"
  by (rule key_comparator.treeGet_tree_ok [OF assms])

theorem get_ok_witness:
  "\<exists>t c. treeGet t [3] = Some (Some [4], t\<lparr>treeCache := c\<rparr>) \<and> coherent (pages t) c"
proof -
  obtain t To where s: "sample 2 1000 [([1], [2]), ([3], [4])] t To" using sample_two by blast
  note S = sampleD [OF s]
  show ?thesis using get_ok [OF order_bytewise S(1,2) S(10), of "[3]"] S(4) by auto
qed

section \<open>Batches and transactions\<close>





section \<open>Publishing and recovery\<close>

text \<open>
  C10. A version on the file survives a torn write of the other metadata slot: when its bytes fail the checks of \<open>readMetaPageChecked\<close>, whoever opens the file gets a tree of the entries of the version, at its revision, that satisfies the invariant.
\<close>

theorem torn_slot_recovers:
  assumes "key_comparator cmp" "version_on_file cmp K R n t b slots To" "imageOf t img" "opens opts fsize (keyOrder t) b"
    and "length d = PageSize" "readMetaPageChecked d = Some (Inl e)"
  shows "\<exists>u R2. OpenMmap io grow readers opts fsize img (slots[1 - metaSlot (revision t) := d]) ord =
      Some (Inr (u, slots[1 - metaSlot (revision t) := d])) \<and> tree_ok cmp K R2 u To \<and> revision u = revision t \<and>
    retired u = retired t \<and> set (free t) \<subseteq> set (free u) \<and> activeReaders u = [] \<and> \<not> closed u \<and> \<not> readOnly u"
proof -
  note V = version_on_file_other [OF assms(2,5)]
  have v: "version_on_file cmp K R n t b (slots[1 - metaSlot (revision t) := d]) To" by (rule V(1)) (simp add: assms(6))
  have "outdated t (slots[1 - metaSlot (revision t) := d] ! (1 - metaSlot (revision t)))"
    using V(2) assms(6) by (simp add: outdated_def)
  from key_comparator.OpenMmap_ok [OF assms(1) v assms(3,4) outdated_older [OF this], of io grow readers ord]
  show ?thesis by blast
qed

theorem torn_slot_recovers_witness:
  "\<exists>(t :: Tree) img slots u R2 To fsize. readMetaPageChecked (slots ! 0) = Some (Inl ErrMetaInvariant) \<and> revision t = 1 \<and>
     OpenMmap (\<lambda>_. True) (\<lambda>_. True) sampleReaders sampleOptions fsize img slots [] = Some (Inr (u, slots)) \<and>
     tree_ok compareStrings 8 R2 u To \<and> entsOf To = [([1], [2])] \<and> revision u = revision t"
proof -
  obtain t To a where "mmapSample t To a" using sample_mmap by blast
  note S = this [unfolded mmapSample_def]
  have kc: "compareStrings = keyComparatorForOrder (keyOrder t)" using S bytewise_order by simp
  have pre: "tree_ok compareStrings 8 {#} t To" "syncable emptySlots t" "mapped t (metaCost t + 100)" "arena t = Some a"
    "revision t \<noteq> lastRevision" "activeReaders t = []" "filledOf (degree t) To" using S by (simp_all add: lastRevision_def)
  obtain t3 b d where Y: "version_on_file compareStrings 8 {#} 100 t3 b (emptySlots[metaSlot (revision t3) := d]) To"
    "revision t3 = syncRevision t" "keyOrder t3 = keyOrder t"
    by (rule bytewise.Sync_version [OF pre(1-6) kc pre(7), of "[]"]) (rule that)
  have rv: "revision t3 = 1" "metaSlot (revision t3) = 1" using Y(2) S by (simp_all add: syncRevision_def metaSlot_def metaPageCount_def)
  have ar: "arena t3 = Some b" "mapped t3 100" "syncable (emptySlots[metaSlot (revision t3) := d]) t3"
    using Y(1) unfolding version_on_file_def by blast+
  let ?img = "\<lambda>i. case pages t3 i of None \<Rightarrow> replicate PageSize 0 | Some p \<Rightarrow> data p"
  have img: "imageOf t3 ?img"
    using syncableD(9) [OF ar(3)] by (auto simp: imageOf_def wfPages_def wf_page_def split: option.split)
  have op: "opens sampleOptions ((maxPages b + int metaPageCount) * int PageSize) (keyOrder t3) b"
    using opens_some [OF ar(2,1), of "keyOrder t3" sampleOptions] S Y(3) by (simp add: sampleOptions_def)
  have torn: "length (replicate PageSize 1 :: bytes) = PageSize" "readMetaPageChecked (replicate PageSize 1) = Some (Inl ErrMetaInvariant)"
    by (simp_all add: readMetaPageChecked_def isZeroPage_def page_consts slice_def metaMagic_def str_def list_all_iff)
  let ?slots = "emptySlots[metaSlot (revision t3) := d]"
  obtain u R2 where u: "OpenMmap (\<lambda>_. True) (\<lambda>_. True) sampleReaders sampleOptions ((maxPages b + int metaPageCount) * int PageSize)
      ?img (?slots[1 - metaSlot (revision t3) := replicate PageSize 1]) [] =
      Some (Inr (u, ?slots[1 - metaSlot (revision t3) := replicate PageSize 1]))" "tree_ok compareStrings 8 R2 u To"
    "revision u = revision t3"
    using torn_slot_recovers [OF order_bytewise Y(1) img op torn] by blast
  have "readMetaPageChecked (?slots[1 - metaSlot (revision t3) := replicate PageSize 1] ! 0) = Some (Inl ErrMetaInvariant)"
    using rv torn(2) by (simp add: emptySlots_def)
  moreover have "entsOf To = [([1], [2])]" using S by simp
  ultimately show ?thesis using u rv(1) by blast
qed

text \<open>
  C11. \<open>Compact\<close> of a sound mapped tree without readers, when it can shorten the file and the free pages that stay fit the metadata record, returns without an error when the system calls succeed: everything retired is free or gone, \<open>nextPage\<close> is just above the last page in use, the file is as long as that, and whoever opens a file of this length that holds the pages gets a tree of the same entries, at the same revision, that satisfies the invariant.
\<close>

theorem compact_reopen:
  assumes "key_comparator cmp" "tree_ok cmp K R t To" "syncable slots t" "mapped t n" "arena t = Some a" "noReaders t"
    and "cmp = keyComparatorForOrder (keyOrder t)" "filledOf (degree t) To" "\<forall>i p. pages t i = Some p \<longrightarrow> firstTreePageID \<le> i"
    and u: "u = reclaimRetiredPages t" and l: "l = trailingFreeNextPage u"
    and "l < nextPage t \<or> trimCapacity l < maxPages a" "length (filter (\<lambda>i. i < l) (free u)) \<le> maxMetaFreePages"
    and old: "staleSlot (revision t) l (slots ! (1 - metaSlot (revision t)))"
  shows "\<exists>t' slots' b R1. Compact (\<lambda>_. True) ord t slots = Some (None, t', slots') \<and> arena t' = Some b \<and>
    tree_ok cmp K R1 t' To \<and> syncable slots' t' \<and> mapped t' n \<and> revision t' = revision t \<and> retired t' = [] \<and>
    nextPage t' = l \<and> (l = firstTreePageID \<or> l - 1 \<in># idsOf To + R) \<and> maxPages b = trimCapacity l \<and>
    (\<forall>img opts. imageOf t' img \<longrightarrow> mo_KeyComparator opts = None \<longrightarrow> mo_KeyOrder opts = 0 \<or> mo_KeyOrder opts = keyOrder t \<longrightarrow>
      (\<exists>v R2. OpenMmap io grow readers opts ((trimCapacity l + int metaPageCount) * int PageSize) img slots' ord' =
          Some (Inr (v, slots')) \<and> tree_ok cmp K R2 v To \<and> revision v = revision t \<and> retired v = [] \<and>
        activeReaders v = [] \<and> \<not> closed v \<and> \<not> readOnly v))"
proof -
  obtain t3 b extra d where C:
    "Compact (\<lambda>_. True) ord t slots = Some (None, t3\<lparr>free := free t3 @ extra\<rparr>, slots[metaSlot (revision t) := d])"
    "version_on_file cmp K R n t3 b (slots[metaSlot (revision t) := d]) To"
    "tree_ok cmp K (R - mset extra) (t3\<lparr>free := free t3 @ extra\<rparr>) To"
    "maxPages b = trimCapacity l" "nextPage t3 = l" "revision t3 = revision t" "retired t3 = []"
    "keyOrder t3 = keyOrder t" "metaFreelistPages t3 = []" "free t3 = filter (\<lambda>i. i < l) (free u)"
    by (rule Compact_moves [OF assms(2-13)]) (rule that)
  let ?t = "t3\<lparr>free := free t3 @ extra\<rparr>" and ?slots = "slots[metaSlot (revision t) := d]"
    and ?fsize = "(trimCapacity l + int metaPageCount) * int PageSize"
  note L = trim_limits [OF assms(2-6) u l]
  have b: "arena t3 = Some b" "syncable ?slots t3" "mapped t3 n"
    using C(2) unfolding version_on_file_def by blast+
  have keep: "syncable ?slots ?t" "mapped ?t n"
    using b by (simp add: syncable_def, auto simp: mapped_def room_def base_def)
  have re: "\<exists>v R2. OpenMmap io grow readers opts ?fsize img ?slots ord' = Some (Inr (v, ?slots)) \<and> tree_ok cmp K R2 v To \<and>
      revision v = revision t \<and> retired v = [] \<and> activeReaders v = [] \<and> \<not> closed v \<and> \<not> readOnly v"
    if "imageOf ?t img" "mo_KeyComparator opts = None" "mo_KeyOrder opts = 0 \<or> mo_KeyOrder opts = keyOrder t" for img opts
  proof -
    have img: "imageOf t3 img" using that(1) by (simp add: imageOf_def)
    have op: "opens opts ?fsize (keyOrder t3) b"
      using opens_some [OF b(3,1) syncableD(3) [OF b(2)], of opts] that(2,3) C(4,8) by simp
    have "slots ! (1 - metaSlot (revision t)) = ?slots ! (1 - metaSlot (revision t3))"
      using metaSlot_other [of "revision t"] C(6) by simp
    then have "staleSlot (revision t3) l (?slots ! (1 - metaSlot (revision t3)))" using old C(6) by simp
    then have "older (openArena ?fsize grow readers) w t3 (?slots ! (1 - metaSlot (revision t3)))" for w
      by (rule staleSlot_older [OF _ C(5) L(1,2)]) (simp add: openArena_def page_consts)
    then show ?thesis
      using key_comparator.OpenMmap_ok [OF assms(1) C(2) img op, of grow readers io ord'] C(6,7) by fastforce
  qed
  show ?thesis
    by (intro exI [of _ ?t] exI [of _ ?slots] exI [of _ b] exI [of _ "R - mset extra"] conjI)
      (use C keep b re L(3) in simp_all)
qed

theorem compact_reopen_witness:
  "\<exists>t t' slots' b. Compact (\<lambda>_. True) [] t emptySlots = Some (None, t', slots') \<and> arena t' = Some b \<and>
     map_option maxPages (arena t) = Some 64 \<and> maxPages b = 2 \<and> nextPage t' = 3 \<and> retired t' = []"
proof -
  obtain t To a where "mmapSample t To a" using sample_mmap by blast
  note S = this [unfolded mmapSample_def]
  have q: "noReaders t" using S by (simp add: noReaders_def sampleReaders_def)
  have kc: "compareStrings = keyComparatorForOrder (keyOrder t)" using S bytewise_order by simp
  have pre: "tree_ok compareStrings 8 {#} t To" "syncable emptySlots t" "mapped t 100" "arena t = Some a" "filledOf (degree t) To"
    "\<forall>i p. pages t i = Some p \<longrightarrow> firstTreePageID \<le> i"
    using S by (auto elim: mapped_le)
  have u: "t = reclaimRetiredPages t" using S by (simp add: reclaimRetiredPages_def)
  have l: "3 = trailingFreeNextPage t" using S by (simp add: trailingFreeNextPage_def trailingFreeLoop.simps)
  have cap: "trimCapacity 3 = 2" using trimCapacity_ok [of 3] by (simp add: firstTreePageID_def metaPageCount_def)
  have old: "staleSlot (revision t) 3 (emptySlots ! (1 - metaSlot (revision t)))"
    using emptySlots_outdated [of "1 - metaSlot (revision t)" t] S by (auto simp: outdated_def staleSlot_def)
  show ?thesis
    using compact_reopen [OF order_bytewise pre(1-4) q kc pre(5,6) u l _ _ old, of "[]"] S cap by fastforce
qed

section \<open>The reader table\<close>

text \<open>
  C12. In every state that the processes sharing a reader table can reach, with any system calls failing, a live process that holds a slot at a revision is seen by every scan: the writer whose arena scans the table keeps, when it reclaims, each retired page that this revision may still read.
\<close>

theorem live_reader_pins_pages:
  assumes "readerStep\<^sup>*\<^sup>* s0 s" "startSystem s0"
    and "sy_handles s k = Some rh" "holdsSlot rh" "sy_handles s w = Some wh"
    and "arena t = Some a" "TreeState.readerTable a = Some (readerScan io (sy_host s) (rh_table wh) (sy_file s))"
    and "x \<in> set (retired t)" "rh_revision rh \<le> rp_revision x"
  shows "x \<in> set (retired (reclaimRetiredPages t))"
  by (rule reader_pins [OF reachable_inv [OF assms(1,2)] assms(3-9)])

theorem live_reader_pins_pages_witness:
  "\<exists>t a x. x \<in> set (retired (reclaimRetiredPages t)) \<and> rp_revision x = 6 \<and> arena t = Some a \<and> activeReaders t = []"
proof -
  obtain s rh where s: "readerStep\<^sup>*\<^sup>* \<lparr>sy_host = sampleHost, sy_file = [], sy_handles = (\<lambda>_. None)\<rparr> s"
    "sy_handles s 0 = Some rh" "holdsSlot rh" "rh_revision rh = 5" "sy_host s = sampleHost" by (rule sample_reader)
  let ?a = "sampleArena\<lparr>readerTable := Some (readerScan (\<lambda>_. True) (sy_host s) (rh_table rh) (sy_file s))\<rparr>"
  let ?x = "\<lparr>rp_id = 4, rp_revision = 6\<rparr>"
  let ?t = "(New 3)\<lparr>arena := Some ?a, retired := [?x]\<rparr>"
  have "startSystem \<lparr>sy_host = sampleHost, sy_file = [], sy_handles = (\<lambda>_. None)\<rparr>"
    by (simp add: startSystem_def sampleHost_def pidAlive_def smallPid_def)
  from live_reader_pins_pages [OF s(1) this s(2,3,2), of ?t ?a "\<lambda>_. True" ?x] s(4)
  have "?x \<in> set (retired (reclaimRetiredPages ?t))" by simp
  moreover have "activeReaders ?t = []" by (simp add: New_def NewWithOptions_def)
  ultimately show ?thesis by (intro exI [of _ ?t] exI [of _ ?a] exI [of _ ?x]) simp
qed

section \<open>Publishing and recovery\<close>



section \<open>The in-memory tree\<close>

text \<open>
  C14. After any sequence of \<open>Set\<close> calls on a new in-memory tree, a snapshot, and any further sequence of \<open>Set\<close> calls on the same heap, all calls return, and the snapshot answers lookups, range scans and statistics as the tree did when it was taken.
\<close>

theorem mem_snapshot_isolation:
  "\<exists>t h t' h'. memSets emptyHeap (memNew d) kvs = Some (t, h) \<and> memSets h t kvs' = Some (t', h') \<and>
     (\<forall>k. memGet h' (memSnapshot t) k = Some (map_of (rev kvs) k) \<and> memGet h' t' k = Some (map_of (rev (kvs @ kvs')) k)) \<and>
     (\<forall>visit s. memRange h' (memSnapshot t) visit (s :: 's) = memRange h t visit s) \<and>
     memStatsFor h' (memSnapshot t) = memStatsFor h t"
proof -
  obtain t h es where A: "memSets emptyHeap (memNew d) kvs = Some (t, h)" "memOk h t es" "map_of es = map_of (rev kvs @ [])"
    using memSets_ok [OF memOk_New [OF heapOk_empty]] by blast
  obtain t' h' es' where B: "memSets h t kvs' = Some (t', h')" "memOk h' t' es'" "hp_nodes h \<subseteq>\<^sub>m hp_nodes h'"
    "map_of es' = map_of (rev kvs' @ es)" by (rule memSets_ok [OF A(2)])
  have s: "memSnapshot t = t" by (simp add: memSnapshot_def)
  have ok: "memOk h' t es" using memOk_frame [OF A(2) B(3)] B(2) by (simp add: memOk_def)
  have "memGet h' t' k = Some (map_of (rev (kvs @ kvs')) k)" "memGet h' (memSnapshot t) k = Some (map_of (rev kvs) k)" for k
    using memGet_ok [OF B(2)] B(4) memGet_ok [OF ok] A(3) s by simp_all
  moreover have "memRange h' (memSnapshot t) visit x = memRange h t visit x" for visit and x :: 's
    by (simp add: s memRange_ok [OF ok] memRange_ok [OF A(2)])
  moreover have "memStatsFor h' (memSnapshot t) = memStatsFor h t"
    unfolding s by (rule memStats_frame [OF A(2) B(3)])
  ultimately show ?thesis using A(1) B(1) by blast
qed

text \<open>
  C15. Any sequence of \<open>Set\<close> calls on a new in-memory tree implements a map from keys to values: lookups, ordered ranges that the visitor may stop, the length, the revision and the statistics are those of the list of entries, sorted by key, with the last value set for each.
\<close>

theorem mem_sets_implement_map:
  "\<exists>t h es. memSets emptyHeap (memNew d) kvs = Some (t, h) \<and> ordered es \<and> map_of es = map_of (rev kvs) \<and>
     (\<forall>k. memGet h t k = Some (map_of es k)) \<and>
     (\<forall>visit s. memRange h t visit (s :: 's) = Some (fst (memVisit visit s es))) \<and>
     mt_length t = int (length es) \<and> mt_revision t = of_nat (length kvs) \<and>
     (\<exists>st. memStatsFor h t = Some st \<and> mst_Keys st = length es \<and> mst_Len st = int (length es))"
proof -
  obtain t h es where A: "memSets emptyHeap (memNew d) kvs = Some (t, h)" "memOk h t es" "map_of es = map_of (rev kvs @ [])"
    "mt_revision t = mt_revision (memNew d) + of_nat (length kvs)"
    using memSets_ok [OF memOk_New [OF heapOk_empty]] by blast
  have "ordered es" "mt_length t = int (length es)" using A(2) by (simp_all add: memOk_def)
  moreover obtain st where "memStatsFor h t = Some st" "mst_Keys st = length es" "mst_Len st = int (length es)"
    using memStatsFor_ok [OF A(2)] by blast
  moreover have "memRange h t visit x = Some (fst (memVisit visit x es))" for visit and x :: 's
    by (rule memRange_ok [OF A(2)])
  moreover have "memGet h t k = Some (map_of es k)" for k by (rule memGet_ok [OF A(2)])
  moreover have "map_of es = map_of (rev kvs)" "mt_revision t = of_nat (length kvs)"
    using A(3,4) by (simp_all add: memNew_def)
  ultimately show ?thesis using A(1) by blast
qed

section \<open>The reader table\<close>

text \<open>
  C16. The calls on the bytes of a table file implement the calls on its list of slots.  \<open>claim\<close> writes the caller into a slot that no live process holds, and answers \<open>ErrActiveReaders\<close> when there is none; \<open>release\<close> clears the slot the handle holds and no other; \<open>oldest\<close> clears exactly the active slots of dead processes and returns the least revision of a live one, when the live slots are valid.
\<close>

theorem reader_table_calls:
  assumes "formatted r f"
  shows "(if \<forall>i<64. live h (slotsOf f ! i) then claim (\<lambda>_. True) h me now counter want r f = (Some ErrActiveReaders, r, f)
      else \<exists>i<64. \<exists>f'. \<not> live h (slotsOf f ! i) \<and> formatted r f' \<and>
        claim (\<lambda>_. True) h me now counter want r f =
          (None, r\<lparr>rt_slot := int i, rt_token := nextReaderToken me now counter, rt_revision := want\<rparr>, f') \<and>
        slotsOf f' = (slotsOf f)[i := stored (rt_slotSize r) (claimed h me (nextReaderToken me now counter) want)]) \<and>
    (0 \<le> rt_slot r \<and> rt_slot r < 64 \<and> held h me r (slotsOf f ! nat (rt_slot r)) \<longrightarrow>
      (\<exists>f'. release (\<lambda>_. True) h me r f = (None, r\<lparr>rt_slot := -1\<rparr>, f') \<and> formatted r f' \<and>
        slotsOf f' = (slotsOf f)[nat (rt_slot r) := (slotsOf f ! nat (rt_slot r))\<lparr>rs_active := False\<rparr>])) \<and>
    ((\<forall>x\<in>set (slotsOf f). live h x \<longrightarrow> validateReaderSlotRevision x maxRevision = None) \<longrightarrow>
      (\<exists>least f'. oldestReader (\<lambda>_. True) h maxRevision r f = (None, least, (liveRevisions h (slotsOf f) \<noteq> {}), f') \<and>
        slotsOf f' = map (clean h) (slotsOf f) \<and>
        (liveRevisions h (slotsOf f) \<noteq> {} \<longrightarrow> least = Min (liveRevisions h (slotsOf f)))))"
  using claim_exact [OF assms] release_exact [OF assms] oldest_exact [OF assms] by blast

theorem reader_table_calls_witness:
  "\<exists>r f i f'. claim (\<lambda>_. True) sampleHost 1 0 1 5 r f =
     (None, r\<lparr>rt_slot := int i, rt_token := nextReaderToken 1 0 1, rt_revision := 5\<rparr>, f') \<and>
     slotsOf f' = (slotsOf f)[i := stored (rt_slotSize r) (claimed sampleHost 1 (nextReaderToken 1 0 1) 5)]"
proof -
  obtain r f where o: "formatted r f" "\<not> live sampleHost (slotsOf f ! 0)" by (rule open_fresh)
  then have "\<not> (\<forall>i<64. live sampleHost (slotsOf f ! i))" by (metis zero_less_numeral)
  then show ?thesis
    using reader_table_calls [OF o(1), of sampleHost 1 0 1 5 0] by (simp only: if_False) blast
qed

section \<open>The tree as a multiversion map\<close>

text \<open>
  C17. The three scans of a well-formed tree hand the visitor the entries in key order, all of them, those from a key on, or those of a half-open range, stopping when it asks to; with or without open readers, and whatever the prefetch hints answer.
\<close>

theorem range_scans:
  assumes "key_comparator cmp" "tree_ok cmp K R t To" "\<not> closed t"
  shows "map_option fst (treeRange os_advise t visit s) = Some (fst (visitList visit s (entsOf To))) \<and>
    map_option fst (treeRangeFrom os_advise t lo visit s) =
      Some (fst (visitList visit s (filter (\<lambda>e. 0 \<le> cmp (fst e) lo) (entsOf To)))) \<and>
    map_option fst (treeRangeBetween os_advise t lo hi visit s) =
      Some (fst (visitList visit s (rangeOf cmp lo hi (entsOf To))))"
  by (intro conjI key_comparator.scans_ok [OF assms])

theorem range_scans_witness:
  "\<exists>t. map_option fst (treeRangeBetween (\<lambda>a b. True) t [2] [4] collect []) = Some [([3], [4])]"
proof -
  obtain t To where s: "sample 2 1000 [([1], [2]), ([3], [4])] t To" using sample_two by blast
  note S = sampleD [OF s]
  have "map_option fst (treeRangeBetween (\<lambda>a b. True) t [2] [4] collect []) =
      Some (fst (visitList collect [] (rangeOf compareStrings [2] [4] (entsOf To))))"
    by (intro range_scans [OF order_bytewise S(1,2), THEN conjunct2, THEN conjunct2])
  then show ?thesis using S(4) by (auto simp: rangeOf_def compareStrings_def collect_def)
qed

text \<open>
  C18. The recursive insertion returns one tree of the same height, or two whose separator is the first key of the right one; the entries are the old ones with the key put, no page outside the subtree changes but fresh ones, and no reachable node falls below the minimum fill.
\<close>

theorem tree_insert_ok:
  assumes "key_comparator (compareKeys t)" "rep (pages t) T" "shape (degree t) K T" "balanced T"
    and "sorted_by (compareKeys t) (gentries T)" "owned t (gids T + R)"
    and "room t (insertCost (degree t) v T + n)" "roomy (degree t) K" "length k \<le> K" "length v < 2 ^ 63"
  shows "\<exists>res Ts. treeInsert t (gid T) k v = Some res \<and> insert_post (compareKeys t) (degree t) K k v t T R n res Ts"
  by (rule key_comparator.treeInsert_ok [OF assms(1) HOL.refl HOL.refl assms(2-)])

theorem tree_insert_ok_witness:
  "\<exists>t T res Ts. treeInsert t (gid T) [3] [9] = Some res \<and>
     insert_post compareStrings 3 8 [3] [9] t T {#} 0 res Ts"
proof -
  obtain t T where s: "sample 2 1000 [([1], [2]), ([3], [4])] t (Some T)" using sample_some by blast
  note S = sampleD [OF s]
  note V = state_okD [OF tree_okD(1) [OF S(1)]]
  have c: "compareKeys t = compareStrings" by (rule V(6))
  have room: "room t (insertCost (degree t) [9] T + 0)" by (rule sample_insert_room [OF s]) auto
  have T: "rep (pages t) T" "shape (degree t) 8 T" "balanced T" "sorted_by (compareKeys t) (gentries T)"
    "owned t (gids T + {#})"
    using V(2,9) c by (simp_all add: idsOf_def)
  have k: "key_comparator (compareKeys t)" using c order_bytewise by simp
  obtain res Ts where "treeInsert t (gid T) [3] [9] = Some res"
    "insert_post (compareKeys t) (degree t) 8 [3] [9] t T {#} 0 res Ts"
    using tree_insert_ok [OF k T room V(3), of "[3]"] by force
  then show ?thesis unfolding c S(9) by blast
qed

text \<open>
  C19. The recursive deletion of a key that is there leaves the same root page with the other entries; every repair below it keeps the subtree balanced and within the page limits, or empties a leaf root, and accounts for every page.
\<close>

theorem delete_from_ok:
  assumes "key_comparator (compareKeys t)" "rep (pages t) T" "shape (degree t) K T" "balanced T"
    and "sorted_by (compareKeys t) (gentries T)" "owned t (gids T + R)"
    and "room t (deleteCost (degree t) (gheight T) + n)" "roomy (degree t) K" "k \<in> fst ` set (gentries T)"
  shows "\<exists>t' T'. deleteFrom t (gid T) k = Some (True, t') \<and> delete_post (degree t) K k t T R n t' T'"
proof -
  have "good (degree t) K (gheight T) t [T]" using assms(2-4) by (simp add: good_def)
  then show ?thesis
    by (rule key_comparator.deleteFrom_ok [OF assms(1) HOL.refl HOL.refl _ assms(5-9)])
qed

theorem delete_from_ok_witness:
  "\<exists>t T t' T'. deleteFrom t (gid T) [3] = Some (True, t') \<and> delete_post 3 8 [3] t T {#} 0 t' T'"
proof -
  obtain t T where s: "sample 2 1000 [([1], [2]), ([3], [4])] t (Some T)" using sample_some by blast
  note S = sampleD [OF s]
  note V = state_okD [OF tree_okD(1) [OF S(1)]]
  have c: "compareKeys t = compareStrings" by (rule V(6))
  have room: "room t (deleteCost (degree t) (gheight T) + 0)"
    by (rule room_le [OF sample_room(2) [OF s]]) (simp add: delCost_def heightOf_def deleteCost_def)
  have T: "rep (pages t) T" "shape (degree t) 8 T" "balanced T" "sorted_by (compareKeys t) (gentries T)"
    "owned t (gids T + {#})" "[3] \<in> fst ` set (gentries T)"
    using V(2,9) c S(4) by (simp_all add: idsOf_def entsOf_def)
  show ?thesis using delete_from_ok [OF _ T(1-5) room V(3) T(6)] order_bytewise c S(9) by auto
qed

section \<open>Readers and reclamation\<close>

text \<open>
  C20. In a tree kept in memory with open readers, \<open>reclaimRetiredPages\<close> keeps the pages retired at or after the oldest revision being read, and appends the others to the free list.
\<close>

theorem reclaim_watermark_exact:
  assumes "arena t = None" "activeReaders t \<noteq> []"
  shows "retired (reclaimRetiredPages t) =
      filter (\<lambda>x. Min (fst ` set (activeReaders t)) \<le> rp_revision x) (retired t) \<and>
    free (reclaimRetiredPages t) =
      free t @ map rp_id (filter (\<lambda>x. rp_revision x < Min (fst ` set (activeReaders t))) (retired t))"
  using reclaim_watermark [OF assms] by blast

theorem reclaim_watermark_witness:
  "let t = (New 3)\<lparr>activeReaders := [(5, 1)],
       retired := [\<lparr>rp_id = 7, rp_revision = 4\<rparr>, \<lparr>rp_id = 8, rp_revision = 5\<rparr>]\<rparr>
   in free (reclaimRetiredPages t) = [7] \<and> retired (reclaimRetiredPages t) = [\<lparr>rp_id = 8, rp_revision = 5\<rparr>]"
  using reclaim_watermark_exact [of "(New 3)\<lparr>activeReaders := [(5, 1)],
       retired := [\<lparr>rp_id = 7, rp_revision = 4\<rparr>, \<lparr>rp_id = 8, rp_revision = 5\<rparr>]\<rparr>"]
  by (simp add: New_def NewWithOptions_def Let_def)

text \<open>
  C21. \<open>relinkLeaves\<close> links every leaf of the current tree, when nobody reads an older one, to the next one in key order, the last to none, leaving entries, free and retired pages and the revision alone.
\<close>

theorem relink_leaves:
  assumes "state_ok cmp K R t To" "activeReaders t = []"
  shows "\<exists>t'. relinkLeaves t = Some t' \<and> tree_ok cmp K R t' To \<and> linkedOf (pages t') To \<and>
    free t' = free t \<and> retired t' = retired t \<and> revision t' = revision t"
proof -
  obtain t' where t': "relinkLeaves t = Some t'" "tree_ok cmp K R t' To" "free t' = free t" "retired t' = retired t"
    "revision t' = revision t" "activeReaders t' = activeReaders t"
    by (rule relink_ok [OF assms(1)]) (rule that)
  then show ?thesis using tree_okD(2) [OF t'(2)] assms(2) by simp
qed

theorem relink_leaves_witness:
  "\<exists>t t' To. relinkLeaves t = Some t' \<and> linkedOf (pages t') To \<and> entsOf To = [([1], [2]), ([3], [4])]"
proof -
  obtain t To where s: "sample 2 1000 [([1], [2]), ([3], [4])] t To" using sample_two by blast
  note S = sampleD [OF s]
  show ?thesis using relink_leaves [OF tree_okD(1) [OF S(1)] S(8)] S(4) by blast
qed

section \<open>Batches and transactions\<close>



text \<open>
  C23. \<open>WriteBatch.DeleteRange\<close> appends one deletion for each key of the tree in the range, in key order; it compares the bounds bytewise whatever order the tree uses, and stages nothing when they are not increasing: on a tree in reverse order every range that holds a key of the tree is skipped.
\<close>

theorem batch_delete_range:
  assumes "key_comparator cmp" "tree_ok cmp K R t To" "\<not> closed t" "openBatch b"
  shows "\<exists>b' t'. batchDeleteRange os_advise t b lo hi = Some (b', t') \<and> openBatch b' \<and>
    wb_ops b' = wb_ops b @ (if compareStrings lo hi < 0 then map (deleteOp \<circ> fst) (rangeOf cmp lo hi (entsOf To)) else [])"
  by (rule key_comparator.batch_deleteRange [OF assms])

theorem batch_delete_range_witness:
  "\<exists>t b' t'. batchDeleteRange (\<lambda>a b. True) t treeBatch [2] [4] = Some (b', t') \<and> wb_ops b' = [deleteOp [3]]"
proof -
  obtain t To where s: "sample 2 1000 [([1], [2]), ([3], [4])] t To" using sample_two by blast
  note S = sampleD [OF s]
  have b: "openBatch treeBatch" "wb_ops treeBatch = []" by (simp_all add: openBatch_def treeBatch_def)
  obtain b' t' where r: "batchDeleteRange (\<lambda>a b. True) t treeBatch [2] [4] = Some (b', t')"
    "wb_ops b' = wb_ops treeBatch @ (if compareStrings [2] [4] < 0
       then map (deleteOp \<circ> fst) (rangeOf compareStrings [2] [4] (entsOf To)) else [])"
    using batch_delete_range [OF order_bytewise S(1,2) b(1)] by blast
  have "compareStrings [2] [4] < 0" "rangeOf compareStrings [2] [4] (entsOf To) = [([3], [4])]"
    using S(4) by (simp_all add: rangeOf_def compareStrings_def)
  then show ?thesis using r b(2) by auto
qed

text \<open>
  C24. A transaction begun on a well-formed tree and given any list of puts and deletes answers \<open>Get\<close> and \<open>RangeBetween\<close> as the entries of the tree with those operations applied in order.
\<close>

theorem tx_reads_own_writes:
  assumes "key_comparator cmp" "tree_ok cmp K R t To" "\<not> closed t" "beginReadWrite t = (tx, t1)"
    and "\<forall>op\<in>set ops. wellOp op" "cmp lo hi < 0"
  shows "txGet (pages t1) (foldl stageOp tx ops) k = Some (map_of (absOps cmp ops (entsOf To)) k) \<and>
    txRangeBetween (pages t1) cmp (foldl stageOp tx ops) lo hi visit s =
      Some (fst (visitList visit s (rangeOf cmp lo hi (absOps cmp ops (entsOf To)))))"
  by (intro conjI key_comparator.tx_reads(1) [OF assms(1-5)] key_comparator.tx_reads(2) [OF assms])

theorem tx_reads_own_writes_witness:
  "\<exists>t tx t1. beginReadWrite t = (tx, t1) \<and>
     txRangeBetween (pages t1) compareStrings (txDelete (txPut tx [2] [7]) [3]) [1] [9] collect [] = Some [([1], [2]), ([2], [7])]"
proof -
  obtain t To where s: "sample 2 1000 [([1], [2]), ([3], [4])] t To" using sample_two by blast
  note S = sampleD [OF s]
  obtain tx t1 where b: "beginReadWrite t = (tx, t1)" by (cases "beginReadWrite t")
  let ?ops = "[putOp [2] [7], deleteOp [3]]"
  have "txRangeBetween (pages t1) compareStrings (foldl stageOp tx ?ops) [1] [9] collect [] =
      Some (fst (visitList collect [] (rangeOf compareStrings [1] [9] (absOps compareStrings ?ops (entsOf To)))))"
    by (rule tx_reads_own_writes [OF order_bytewise S(1,2) b, THEN conjunct2])
       (auto simp: wellOp_def putOp_def deleteOp_def compareStrings_def)
  moreover have "rangeOf compareStrings [1] [9] (absOps compareStrings ?ops (entsOf To)) = [([1], [2]), ([2], [7])]"
    using S(4) by (simp add: rangeOf_def absOp_def putOp_def deleteOp_def del_list_def compareStrings_def)
  moreover have "foldl stageOp tx ?ops = txDelete (txPut tx [2] [7]) [3]"
    by (simp add: stageOp_def putOp_def deleteOp_def)
  ultimately show ?thesis using b by (auto simp: collect_def)
qed

text \<open>
  C25. \<open>DeleteRange\<close> on an open transaction leaves a transaction whose view is the old one without the keys of the range.
\<close>

theorem tx_delete_range:
  assumes "key_comparator cmp" "tx_view cmp d K pgs A ops tx" "cmp lo hi < 0"
  shows "\<exists>tx' ops'. txDeleteRange pgs cmp tx lo hi = Some tx' \<and> tx_view cmp d K pgs A ops' tx' \<and>
    absOps cmp ops' (entsOf A) =
      filter (\<lambda>e. \<not> (0 \<le> cmp (fst e) lo \<and> cmp (fst e) hi < 0)) (absOps cmp ops (entsOf A))"
  by (rule key_comparator.tx_deleteRange [OF assms])

theorem tx_delete_range_witness:
  "\<exists>pgs tx tx' ops' A. txDeleteRange pgs compareStrings tx [2] [4] = Some tx' \<and>
     absOps compareStrings ops' (entsOf A) = [([1], [2])] \<and> tx_view compareStrings 3 8 pgs A ops' tx'"
proof -
  obtain t To where s: "sample 2 1000 [([1], [2]), ([3], [4])] t To" using sample_two by blast
  note S = sampleD [OF s]
  obtain tx t1 where b: "beginReadWrite t = (tx, t1)" "tx_view compareStrings (degree t1) 8 (pages t1) To [] tx" "sameTree t t1"
    using bytewise.tx_begin [OF S(1,2)] by blast
  have d: "degree t1 = 3" using b(3) S(9) by (simp add: sameTree_def)
  have lt: "compareStrings [2] [4] < 0" by (simp add: compareStrings_def)
  have e: "filter (\<lambda>e. \<not> (0 \<le> compareStrings (fst e) [2] \<and> compareStrings (fst e) [4] < 0)) (absOps compareStrings [] (entsOf To)) = [([1], [2])]"
    using S(4) by (simp add: compareStrings_def)
  show ?thesis using tx_delete_range [OF order_bytewise b(2) lt, unfolded e d] by blast
qed

text \<open>
  C26. If another put is published between the beginning of a transaction and its commit, the commit returns the conflict error, applies none of the staged operations and closes the transaction.
\<close>

theorem tx_conflict_detected:
  assumes "key_comparator cmp" "tree_ok cmp K R t To" "\<not> closed t" "\<not> readOnly t" "beginReadWrite t = (tx, t1)"
    and "\<forall>op\<in>set ops. wellOp op" "revision t \<noteq> lastRevision"
    and "room t (putCost (degree t) v (heightOf To) + n)" "length k \<le> K" "length v < 2 ^ 63"
    and "treePut t1 k v = Some (t2, r)"
  shows "\<exists>tx' t' To'. txCommitDetailed crashed (foldl stageOp tx ops) t2 = Some (tx', t', Inl ErrTxConflict) \<and>
    tx_closed tx' \<and> tree_ok cmp K R t' To' \<and> entsOf To' = put_list cmp k v (entsOf To) \<and> revision t' = revision t2"
  by (rule key_comparator.tx_overtaken [OF assms])

theorem tx_conflict_detected_witness:
  "\<exists>t tx t1 t2 r tx' t' To'. beginReadWrite t = (tx, t1) \<and> treePut t1 [3] [9] = Some (t2, r) \<and>
     txCommitDetailed t (txDelete tx [1]) t2 = Some (tx', t', Inl ErrTxConflict) \<and> entsOf To' = [([1], [2]), ([3], [9])] \<and>
     tree_ok compareStrings 8 {#} t' To'"
proof -
  obtain t To where s: "sample 2 1000 [([1], [2]), ([3], [4])] t To" using sample_two by blast
  note S = sampleD [OF s]
  obtain tx t1 where b: "beginReadWrite t = (tx, t1)" by (cases "beginReadWrite t")
  have room: "room t (putCost (degree t) [9] (heightOf To) + 0)" by (rule sample_room(1) [OF s]) auto
  have t1: "tree_ok compareStrings 8 {#} t1 To \<and> revision t1 = revision t \<and> sameTree t t1 \<and> room t1 (putCost (degree t) [9] (heightOf To) + 0)"
    by (rule bytewise.tx_started [OF S(1,2) b]) (use room in simp)
  then have r1: "\<not> closed t1" "\<not> readOnly t1" "degree t1 = degree t" using S(2,3) by (simp_all add: sameTree_def)
  have rv: "revision t1 \<noteq> lastRevision" using t1 sample_room(3) [OF s] by simp
  obtain t2 where p: "treePut t1 [3] [9] = Some (t2, putResult [3] (entsOf To))"
    using bytewise.treePut_ok [OF _ r1(1,2) _ rv, of 8 "{#}" To "[9]" 0 "[3]"] t1 r1(3) by auto
  have e: "put_list compareStrings [3] [9] (entsOf To) = [([1], [2]), ([3], [9])]"
    unfolding S(4) by (simp add: compareStrings_def)
  have st: "foldl stageOp tx [deleteOp [1]] = txDelete tx [1]" by (simp add: stageOp_def deleteOp_def)
  have ops: "\<forall>op\<in>set [deleteOp [1]]. wellOp op" and k: "length [3 :: u8] \<le> 8" "length [9 :: u8] < 2 ^ 63"
    by (simp_all add: wellOp_def deleteOp_def)
  obtain tx' t' To' where "txCommitDetailed t (foldl stageOp tx [deleteOp [1]]) t2 = Some (tx', t', Inl ErrTxConflict)"
    "tree_ok compareStrings 8 {#} t' To'" "entsOf To' = put_list compareStrings [3] [9] (entsOf To)"
    using tx_conflict_detected [OF order_bytewise S(1-3) b ops sample_room(3) [OF s] room k p, of t] by blast
  then show ?thesis using b p unfolding e st by blast
qed

section \<open>Pages and leaves\<close>

text \<open>
  C27. Writing a nonempty value to a chain of overflow pages takes pages nobody owns, and reading through the reference stored in the cell gives the value back.
\<close>

theorem value_chain_roundtrip:
  assumes "owned t M" "room t (chainPages (length v) + n)" "v \<noteq> []" "length v < 2 ^ 63"
  shows "\<exists>raw t' is. overflowCellValue t v = Some (raw, t') \<and> resolveLeafValue (pages t') raw slotFlagOverflow = Some v \<and>
    owned t' (mset is + M) \<and> ext {} t t'"
proof -
  obtain "is" t' where c: "writeOverflowChain t v = Some (hd is, t')" "is \<noteq> []" "chain (pages t') is v"
    "owned t' (mset is + M)" "ext {} t t'"
    by (rule writeOverflowChain_ok [OF assms(1-3)]) (rule that)
  let ?r = "\<lparr>or_first = hd is, or_length = int (length v)\<rparr>"
  have "decodeOverflowRef (encodeOverflowRef ?r) slotFlagOverflow = Some ?r"
    by (rule decode_encode_overflowRef) (use assms(4) in \<open>simp_all add: slotFlagOverflow_def\<close>)
  then have "resolveLeafValue (pages t') (encodeOverflowRef ?r) slotFlagOverflow = Some v"
    using readOverflowChain_chain [OF c(3,2)] by (simp add: resolveLeafValue_def)
  then show ?thesis using c
    by (intro exI [of _ "encodeOverflowRef ?r"] exI [of _ t'] exI [of _ "is"]) (simp add: overflowCellValue_def)
qed

theorem value_chain_roundtrip_witness:
  "\<exists>raw t'. overflowCellValue (New 3) (replicate 9000 7) = Some (raw, t') \<and>
     resolveLeafValue (pages t') raw slotFlagOverflow = Some (replicate 9000 7)"
proof -
  have own: "owned (New 3) {#}" using state_okD(2) [OF tree_okD(1) [OF sampleD(1) [OF sample_New]]] by (simp add: idsOf_def)
  have room: "room (New 3) (chainPages (length (replicate 9000 (7 :: u8))) + 0)"
    by (rule room_le [OF sampleD(6) [OF sample_New]]) (simp add: chainPages_def page_consts)
  show ?thesis using value_chain_roundtrip [OF own room] by auto
qed

text \<open>
  C28. On a page whose cells are in increasing order the slot searches agree with lookup in the list of cells: the leaf search returns the value stored under the key, the branch search the child number of separators at or below the key.
\<close>

theorem page_lookup:
  assumes "key_comparator cmp" "sorted_wrt (\<lambda>a b. cmp a b < 0) (map fst es)" "holds p f es"
    and "sorted_wrt (\<lambda>a b. cmp a b < 0) keys" "length keys = length cs" "holds q g (branchCells keys cs)"
  shows "searchLeafCellWithComparator p k cmp = Some (map_of es k) \<and>
    searchBranchChildWithComparator q k cmp =
      Some ((leftmostChild q # cs) ! length (filter (\<lambda>s. cmp s k \<le> 0) keys))"
proof
  show "searchLeafCellWithComparator p k cmp = Some (map_of es k)"
    by (rule key_comparator.searchLeafCell_holds [OF assms(1,3,2)])
  show "searchBranchChildWithComparator q k cmp = Some ((leftmostChild q # cs) ! length (filter (\<lambda>s. cmp s k \<le> 0) keys))"
    using key_comparator.searchBranchChild_holds [OF assms(1,6,5,4)]
      key_comparator.childIndex_count [OF assms(1,4)] by simp
qed

theorem page_lookup_witness:
  "\<exists>p q. searchLeafCellWithComparator p [4] compareStrings = Some (Some ([2], 0)) \<and>
     searchBranchChildWithComparator q [4] compareStrings = Some 8"
proof -
  have f: "fits (map leCell [\<lparr>le_key = [4], le_value = [2], le_encoded = True, le_slotFlags = 0\<rparr>])" "fits (branchCells [[3]] [8])"
    by (simp_all add: fits_def leCell_def branchCells_def page_consts)
  obtain p where p: "holds p flagLeaf (map leCell [\<lparr>le_key = [4], le_value = [2], le_encoded = True, le_slotFlags = 0\<rparr>])"
    using writeEncodedLeafEntries_fits [OF wf_newPage [of 5 flagLeaf] f(1)] by blast
  obtain q where q: "holds q flagBranch (branchCells [[3]] [8])"
    using mustWriteBranchParts_fits [OF wf_newPage [of 6 flagBranch] _ f(2), of 7] by auto
  show ?thesis
    using page_lookup [OF order_bytewise _ p _ _ q, of "[4]"] by (auto simp: leCell_def compareStrings_def)
qed



text \<open>
  C30. A leaf split gives both halves an entry and at most \<open>maxKeys\<close>, and at least \<open>d - 1\<close> when there are enough entries; a branch split of one key too many leaves at least \<open>d - 1\<close> keys on both sides of the one that moves up.
\<close>

theorem split_bounds:
  assumes "2 \<le> d" "2 \<le> length es" "length es \<le> 2 * maxKeys d" "length keys = Suc (maxKeys d)"
  shows "1 \<le> leafSplitIndex es d \<and> leafSplitIndex es d < int (length es) \<and> leafSplitIndex es d \<le> int (maxKeys d) \<and>
      int (length es) - leafSplitIndex es d \<le> int (maxKeys d) \<and>
      (2 * (d - 1) \<le> length es \<longrightarrow>
        int (d - 1) \<le> leafSplitIndex es d \<and> leafSplitIndex es d \<le> int (length es) - int (d - 1)) \<and>
    d - 1 \<le> branchSplitIndex keys d \<and> branchSplitIndex keys d + d \<le> length keys"
  using leafSplitIndex_bounds [OF assms(1-3)] branchSplitIndex_bounds(1,2) [OF assms(1,4)] by blast

theorem split_bounds_witness:
  "2 \<le> leafSplitIndex (replicate 5 (newEntry [1] [2])) 3 \<and> 2 \<le> branchSplitIndex (replicate 6 [1]) 3"
  using split_bounds [of 3 "replicate 5 (newEntry [1] [2])" "replicate 6 [1]"] by (simp add: maxKeys_def)

text \<open>
  C31. The statistics walk over a well-formed subtree whose pages are distinct ends with exactly its pages as seen, as many pages and keys as there are, and the height walk returns the number of levels.
\<close>

theorem stats_exact:
  assumes "rep pgs T" "shape d K T" "\<And>i. count (gids T) i \<le> 1"
  shows "collectReachableStats pgs (gid T) {} = Some (gstats T, set_mset (gids T)) \<and>
    statsPages (gstats T) = int (size (gids T)) \<and> rs_keys (gstats T) = int (length (gentries T)) \<and>
    height pgs (gid T) = Some (int (Suc (gheight T)))"
  using collectReachableStats_ok [OF assms(1,3), of "{}"] gstats_counts height_ok [OF assms(1,2)] by simp

theorem stats_exact_witness:
  "\<exists>pgs T. collectReachableStats pgs (gid T) {} = Some (gstats T, set_mset (gids T)) \<and> rs_keys (gstats T) = 2"
proof -
  obtain t T where s: "sample 2 1000 [([1], [2]), ([3], [4])] t (Some T)" using sample_some by blast
  note S = sampleD [OF s]
  note V = state_okD [OF tree_okD(1) [OF S(1)]]
  have T: "rep (pages t) T" "shape (degree t) 8 T" "gentries T = [([1], [2]), ([3], [4])]"
    using V(9) S(4) by (simp_all add: entsOf_def)
  show ?thesis using stats_exact [OF T(1,2) gids_once [OF V(2)]] T(3) by auto
qed

text \<open>
  C32. A put without a value under a key that leaves no room for its cell in half a page panics, on every open tree: the value is moved to an overflow chain of no pages, whose first page is then read.
\<close>

theorem wide_key_panics:
  assumes "PageSize div 2 < length k + slotSize" "\<not> closed t" "\<not> readOnly t"
  shows "treePut t k [] = None"
  using putStaged_wide [OF _ assms(2,3), of k] assms(1)
  by (simp add: treePut_def wideKey_def shouldStoreOverflow_def)

theorem wide_key_panics_witness:
  "treePut (New 3) (replicate 2041 0) [] = None"
  by (rule wide_key_panics [OF _ sampleD(2,3) [OF sample_New]]) (simp add: page_consts)

text \<open>
  C33. A usable transaction cursor over a list of entries moves to the first one at or above the key it seeks, to the next or previous one when there is one, and becomes invalid past either end.
\<close>

theorem tx_cursor_steps:
  assumes "tcUsable c"
  shows "(case find (\<lambda>i. 0 \<le> cmp (fst (tc_entries c ! i)) k) [0..<length (tc_entries c)] of
      Some i \<Rightarrow> \<exists>c'. tcSeek cmp c k = (c', True) \<and> tc_at c' (tc_entries c) i
    | None \<Rightarrow> \<exists>c'. tcSeek cmp c k = (c', False) \<and> \<not> tcValid c') \<and>
    (\<forall>es i. tc_at c es i \<longrightarrow>
      tcKey c = Some (fst (es ! i)) \<and> tcValue c = Some (snd (es ! i)) \<and>
      (if Suc i < length es then \<exists>c'. tcNext c = (c', True) \<and> tc_at c' es (Suc i)
       else \<exists>c'. tcNext c = (c', False) \<and> \<not> tcValid c') \<and>
      (if 0 < i then \<exists>c'. tcPrev c = (c', True) \<and> tc_at c' es (i - 1)
       else \<exists>c'. tcPrev c = (c', False) \<and> \<not> tcValid c'))"
proof
  show "case find (\<lambda>i. 0 \<le> cmp (fst (tc_entries c ! i)) k) [0..<length (tc_entries c)] of
      Some i \<Rightarrow> \<exists>c'. tcSeek cmp c k = (c', True) \<and> tc_at c' (tc_entries c) i
    | None \<Rightarrow> \<exists>c'. tcSeek cmp c k = (c', False) \<and> \<not> tcValid c'"
    by (rule tcSeek_ok [OF assms])
  show "\<forall>es i. tc_at c es i \<longrightarrow>
      tcKey c = Some (fst (es ! i)) \<and> tcValue c = Some (snd (es ! i)) \<and>
      (if Suc i < length es then \<exists>c'. tcNext c = (c', True) \<and> tc_at c' es (Suc i)
       else \<exists>c'. tcNext c = (c', False) \<and> \<not> tcValid c') \<and>
      (if 0 < i then \<exists>c'. tcPrev c = (c', True) \<and> tc_at c' es (i - 1)
       else \<exists>c'. tcPrev c = (c', False) \<and> \<not> tcValid c')"
    by (intro allI impI conjI tcNext_ok tcPrev_ok) (simp_all add: tc_at_entry)
qed

theorem tx_cursor_steps_witness:
  "\<exists>c c'. tcSeek compareStrings c [2] = (c', True) \<and> tc_at c' [([1], [2]), ([3], [4])] 1"
proof -
  let ?c = "\<lparr>tc_tx = Some \<lparr>tx_hasTree = True, tx_base = None, tx_baseRevision = 0, tx_batch = None, tx_staged = [], tx_closed = False\<rparr>,
    tc_entries = [([1], [2]), ([3], [4])], tc_index = 0, tc_valid = True, tc_closed = False\<rparr>"
  have "find (\<lambda>i. 0 \<le> compareStrings (fst (tc_entries ?c ! i)) [2]) [0..<length (tc_entries ?c)] = Some 1"
    by (simp add: upt_rec compareStrings_def)
  then show ?thesis using tx_cursor_steps [of ?c compareStrings "[2]"] by (auto simp: tcUsable_def)
qed

section \<open>Cursors\<close>

text \<open>
  C34. A usable cursor over a version moves, on \<open>First\<close> and \<open>Seek\<close>, to the first entry at or above the lower bound and the key, if that is before the end; on \<open>Last\<close> to the last entry before the end, if that is not below the lower bound.  From entry \<open>i\<close> it moves by \<open>Next\<close> to entry \<open>i + 1\<close> unless there is none or it is at or past the end, and by \<open>Prev\<close> to entry \<open>i - 1\<close> unless there is none or it is below the lower bound.
\<close>

theorem cursor_moves:
  assumes "key_comparator cmp" "cu_reads cmp d K pgs T c"
  shows "forwardTo cmp T c (if cu_hasLower c then length (below_key cmp (cu_lower c) (gentries T)) else 0) (cuFirst pgs c) \<and>
    forwardTo cmp T c (length (below_key cmp (fromKey cmp c k) (gentries T))) (cuSeek pgs c k) \<and>
    backwardTo cmp T c (if cu_hasEnd c then length (below_key cmp (cu_end c) (gentries T)) else length (gentries T))
      (cuLast pgs c) \<and>
    (\<forall>i. cu_at T c i \<longrightarrow> forwardTo cmp T c (Suc i) (cuNext pgs c) \<and> backwardTo cmp T c i (cuPrev pgs c))"
  by (intro conjI allI impI key_comparator.cu_First_ok [OF assms] key_comparator.cu_Seek_ok [OF assms]
      key_comparator.cu_Last_ok [OF assms] key_comparator.cu_Next_ok [OF assms] key_comparator.cu_Prev_ok [OF assms])

theorem cursor_moves_witness:
  "\<exists>pgs c c'. cuKey c = [1] \<and> cuNext pgs c = Some (c', True) \<and> cu_key c' = [3]"
proof -
  obtain t :: Tree and T c where c: "cu_reads compareStrings 3 8 (pages t) T c" "gentries T = [([1], [2]), ([3], [4])]"
    "\<not> cu_hasLower c" "\<not> cu_hasEnd c" using sample_cursor by blast
  obtain c1 where c1: "cuFirst (pages t) c = Some (c1, True)" "sameCursor c c1" "cu_at T c1 0"
    using bytewise.cu_First_ok [OF c(1)] c(2-4) by (auto simp: forwardTo_def moved_def)
  have r: "cu_reads compareStrings 3 8 (pages t) T c1" by (rule bytewise.cu_reads_same [OF c1(2) c(1)])
  have e: "\<not> cu_hasEnd c1" using c1(2) c(4) by (simp add: sameCursor_def)
  obtain c' where c': "cuNext (pages t) c1 = Some (c', True)" "cu_at T c' 1"
  proof -
    have "forwardTo compareStrings T c1 (Suc 0) (cuNext (pages t) c1)"
      using cursor_moves [OF order_bytewise r] c1(3) by blast
    then show ?thesis using c(2) e that by (auto simp: forwardTo_def moved_def)
  qed
  have "cuUsable c1" by (rule bytewise.cu_readsD [OF r])
  then have "cuKey c1 = [1]" using c1(3) c(2) by (simp add: cu_at_def cuKey_def cuValid_def)
  then show ?thesis using c' c(2) by (auto simp: cu_at_def)
qed

section \<open>Integrity checks and metadata\<close>

text \<open>
  C35. On the bytes of any page the layout check returns.  If it accepts, the page is a leaf, a branch, an overflow, a freelist or a reclaim page, and reading its entries, its children, its payload, its ids or its records does not panic.
\<close>

theorem accepted_pages_decode:
  assumes "wf_page p"
  shows "\<exists>v. validateLayoutWithComparator p cmp = Some v \<and> (v = None \<longrightarrow>
    flags p \<in> {flagLeaf, flagBranch, flagOverflow, flagFreelist, flagReclaim} \<and>
    (isLeaf p \<longrightarrow> leafEntries p \<noteq> None) \<and> (isBranch p \<longrightarrow> childIDs p \<noteq> None \<and> leftmostChild p \<noteq> 0) \<and>
    (isOverflow p \<longrightarrow> overflowPayload p \<noteq> None) \<and> (flags p = flagFreelist \<longrightarrow> freelistIDs p \<noteq> None) \<and>
    (flags p = flagReclaim \<longrightarrow> reclaimRecords p \<noteq> None))"
proof -
  obtain v where v: "validateLayoutWithComparator p cmp = Some v" using validateLayout_total [OF assms] by blast
  show ?thesis
  proof (cases v)
    case None
    note acc = v [unfolded None]
    show ?thesis
      using v validateLayout_accepts(1,3) [OF acc assms] accepted_reads [OF acc assms] by blast
  qed (simp add: v)
qed

theorem accepted_pages_decode_witness:
  "wf_page (newPage 7 flagLeaf) \<and> validateLayoutWithComparator (newPage 7 flagLeaf) compareStrings \<noteq> None"
proof
  show w: "wf_page (newPage 7 flagLeaf)" by simp
  show "validateLayoutWithComparator (newPage 7 flagLeaf) compareStrings \<noteq> None"
    using accepted_pages_decode [OF w, of compareStrings] by auto
qed



text \<open>
  C37. On an open tree that satisfies the invariant, whose nodes are filled and whose free, retired and metadata pages can be summarised, \<open>Audit\<close> returns: the report lists the pages of the tree, in order, as the reachable ones, it is valid unless a page was retired at revision 0, and the leaf links were checked when no reader is active.
\<close>

theorem check_accepts:
  assumes "key_comparator cmp" "tree_ok cmp K R t To" "\<not> closed t" "filledOf (degree t) To"
    and "\<And>i. i \<in> set (metaFreelistPages t) \<union> set (free t) \<union> rp_id ` set (retired t) \<Longrightarrow> summarizable (pages t) i"
  shows "\<exists>report t'. Audit n t = Some (report, t') \<and>
    Valid report = (\<forall>r\<in>set (retired t). rp_revision r \<noteq> 0) \<and>
    (au_Error report = None \<or> au_Error report = Some ErrFreelist) \<and>
    au_ReachablePageIDs report = sorted_list_of_set (set_mset (idsOf To)) \<and>
    au_LeafLinksChecked report = (To \<noteq> None \<and> activeReaders t = []) \<and>
    (\<exists>c. t' = t\<lparr>treeCache := c\<rparr>)"
  by (rule key_comparator.Audit_ok [OF assms])

theorem check_accepts_witness:
  "\<exists>t To report t'. Audit 0 t = Some (report, t') \<and> Valid report \<and> entsOf To = [([1], [2])] \<and>
     au_ReachablePageIDs report = sorted_list_of_set (set_mset (idsOf To))"
proof -
  obtain t To where s: "tree_ok compareStrings 8 {#} t To" "\<not> closed t" "entsOf To = [([1], [2])]" "filledOf (degree t) To"
    "free t = []" "retired t = []" "metaFreelistPages t = []" using sample_clean by blast
  have spare: "summarizable (pages t) i"
    if "i \<in> set (metaFreelistPages t) \<union> set (free t) \<union> rp_id ` set (retired t)" for i
    using that s(5-7) by simp
  from check_accepts [OF order_bytewise s(1,2,4) spare, of 0] s(3,6) show ?thesis by fastforce
qed

text \<open>
  C38. When the root is a branch page whose slots would not fit the page, \<open>validateReachablePages\<close> returns an error, and \<open>Audit\<close> does not return.
\<close>

theorem audit_panics_on_torn_branch:
  assumes "\<not> closed t" "root t \<noteq> 0" "pages t (root t) = Some p" "wf_page p" "isBranch p" "\<not> isLeaf p"
    and "PageSize < pageHeaderSize + unat (slotCount p) * slotSize"
  shows "(\<exists>e. validateReachablePages t = Some ({root t}, Some e)) \<and> Audit n t = None"
  using Audit_torn_branch [OF assms] by blast

theorem audit_panics_on_torn_branch_witness:
  "Audit 0 ((New 3)\<lparr>pages := [2 \<mapsto> setSlotCount (newPage 2 flagBranch) 1000], root := 2\<rparr>) = None"
  by (rule conjunct2 [OF audit_panics_on_torn_branch [where p = "setSlotCount (newPage 2 flagBranch) 1000"]])
     (simp_all add: sampleD(2) [OF sample_New] page_consts isBranch_def isLeaf_def flag_defs)

section \<open>Pages\<close>

text \<open>
  C39. \<open>writeEncodedLeafEntries\<close> writes a leaf page that \<open>leafEntries\<close> reads back unchanged and refuses exactly the entries whose cells do not fit; \<open>mustWriteBranchParts\<close> writes a branch page that \<open>branchParts\<close> reads back unchanged and panics exactly when the cells do not fit.
\<close>

theorem tree_page_roundtrip:
  assumes "wf_page p" "\<forall>e\<in>set es. le_encoded e" "length cs = length keys"
  shows "(if fits (map leCell es)
      then \<exists>p'. writeEncodedLeafEntries p es = (p', True) \<and> leafEntries p' = Some es \<and>
             validChecksum p' \<and> isLeaf p' \<and> pid p' = pid p
      else \<exists>p'. writeEncodedLeafEntries p es = (p', False)) \<and>
    (if fits (branchCells keys cs)
      then \<exists>p'. mustWriteBranchParts p keys (c # cs) = Some p' \<and> branchParts p' = Some (keys, c # cs) \<and>
             validChecksum p' \<and> isBranch p' \<and> pid p' = pid p
      else mustWriteBranchParts p keys (c # cs) = None)"
proof
  show "if fits (map leCell es)
      then \<exists>p'. writeEncodedLeafEntries p es = (p', True) \<and> leafEntries p' = Some es \<and>
             validChecksum p' \<and> isLeaf p' \<and> pid p' = pid p
      else \<exists>p'. writeEncodedLeafEntries p es = (p', False)"
  proof (cases "fits (map leCell es)")
    case True
    then obtain p' where p': "writeEncodedLeafEntries p es = (p', True)"
      "holds p' flagLeaf (map leCell es)" "pid p' = pid p" "validChecksum p'"
      using writeEncodedLeafEntries_fits [OF assms(1)] by metis
    have "map (\<lambda>e. cellEntry (leCell e)) es = es"
      using assms(2) by (intro map_idI) (simp add: leCell_def cellEntry_def)
    then have "leafEntries p' = Some es"
      using leafEntries_holds [OF p'(2)] by (simp add: comp_def)
    then show ?thesis using p' True holds_kind(1) [OF p'(2)] by simp
  next
    case False
    then show ?thesis using writeEncodedLeafEntries_full [OF assms(1)] by (metis (full_types))
  qed
  show "if fits (branchCells keys cs)
      then \<exists>p'. mustWriteBranchParts p keys (c # cs) = Some p' \<and> branchParts p' = Some (keys, c # cs) \<and>
             validChecksum p' \<and> isBranch p' \<and> pid p' = pid p
      else mustWriteBranchParts p keys (c # cs) = None"
  proof (cases "fits (branchCells keys cs)")
    case True
    obtain p' where p': "mustWriteBranchParts p keys (c # cs) = Some p'" "holds p' flagBranch (branchCells keys cs)"
      "leftmostChild p' = c" "pid p' = pid p" "validChecksum p'"
      by (rule mustWriteBranchParts_fits [OF assms(1,3) True])
    then show ?thesis using True branchParts_holds [OF p'(2)] assms(3) holds_kind(3) [OF p'(2)] by simp
  next
    case False
    then show ?thesis using mustWriteBranchParts_overflow [OF assms(1,3)] by simp
  qed
qed

theorem tree_page_roundtrip_witness:
  "let es = [\<lparr>le_key = [1], le_value = [2, 3], le_encoded = True, le_slotFlags = 0\<rparr>,
             \<lparr>le_key = [4], le_value = [], le_encoded = True, le_slotFlags = 0\<rparr>]
   in (\<exists>p'. writeEncodedLeafEntries (newPage 7 flagLeaf) es = (p', True) \<and> leafEntries p' = Some es) \<and>
     (\<exists>p'. mustWriteBranchParts (newPage 7 flagLeaf) [[5], [9, 1]] [2, 3, 4] = Some p' \<and>
       branchParts p' = Some ([[5], [9, 1]], [2, 3, 4]))"
proof -
  let ?es = "[\<lparr>le_key = [1], le_value = [2, 3], le_encoded = True, le_slotFlags = 0\<rparr>,
             \<lparr>le_key = [4], le_value = [], le_encoded = True, le_slotFlags = 0\<rparr>]"
  have "fits (map leCell ?es)" "fits (branchCells [[5], [9, 1]] [3, 4])"
    by (simp_all add: fits_def leCell_def branchCells_def page_consts)
  then show ?thesis using tree_page_roundtrip [of "newPage 7 flagLeaf" ?es "[3, 4]" "[[5], [9, 1]]" 2] by auto
qed

section \<open>Publishing and recovery\<close>

text \<open>
  C40. When more free pages stay than a metadata record holds and the file can be shortened, \<open>Compact\<close> of a sound mapped tree without readers returns an error, although every system call succeeds: the record of the current revision that it has published names pages past the end of the file, whose length it has set before, and the bounds check of an open refuses that record.
\<close>

theorem compact_cuts_chain:
  assumes "tree_ok cmp K R t To" "syncable slots t" "arena t = Some a" "noReaders t"
    and "u = reclaimRetiredPages t" "l = trailingFreeNextPage u" "mapped t (metaCost (trimmed u a l) + n)"
    and "trimCapacity l < maxPages a" "maxMetaFreePages < length (filter (\<lambda>i. i < l) (free u))"
  shows "\<exists>t' slots' r. Compact (\<lambda>_. True) ord t slots = Some (Some ErrOther, t', slots') \<and>
    readMetaPageChecked (slots' ! metaSlot (revision t)) = Some (Inr (Some r)) \<and> mr_revision r = revision t \<and>
    (\<exists>b. arena t' = Some b \<and> maxPages b = trimCapacity l) \<and>
    (\<forall>b. maxPages b = trimCapacity l \<longrightarrow> validateMetaBounds b r = Some ErrMetaInvariant)"
  by (rule Compact_chain_cut [OF assms])

theorem compact_cuts_chain_witness:
  "\<exists>t' slots'. Compact (\<lambda>_. True) [] manyFree emptySlots = Some (Some ErrOther, t', slots') \<and> length (free manyFree) = 502"
proof -
  note M = manyFree_ok
  have l: "505 = trailingFreeNextPage manyFree" by (rule M(5) [symmetric])
  have cap: "trimCapacity 505 = 503" using trimCapacity_ok [of 505] by (simp add: firstTreePageID_def metaPageCount_def)
  have c: "trimCapacity 505 < maxPages (sampleArena\<lparr>maxPages := 600\<rparr>)" unfolding cap by (rule M(8))
  have m: "maxMetaFreePages < length (filter (\<lambda>i. i < 505) (free manyFree))" unfolding M(9) by (simp add: page_consts)
  show ?thesis
    using compact_cuts_chain [OF M(1-4) M(6) l M(7) c m, of "[]"] manyFree_fields(16) by blast
qed

end
